(* ===== verification/Base64.thy ===== *)
theory Base64
  imports Prelude
begin

text \<open>
  tinc's base64 (\<open>src/crates/tinc-crypto/src/b64.rs\<close>): groups of three bytes as little-endian
  24-bit numbers, no padding, two alphabets that the decoder accepts mixed. Strings are their
  bytes: every character involved is ASCII.
\<close>

section \<open>Model\<close>

definition ascii :: "string \<Rightarrow> bytes" where
  "ascii s = map (\<lambda>c. of_nat (of_char c)) s"

definition ALPHABET_STD :: bytes where
  "ALPHABET_STD = ascii ''ABCDEFGHIJKLMNOPQRSTUVWXYZabcdefghijklmnopqrstuvwxyz0123456789+/''"

definition ALPHABET_URL :: bytes where
  "ALPHABET_URL = ascii ''ABCDEFGHIJKLMNOPQRSTUVWXYZabcdefghijklmnopqrstuvwxyz0123456789-_''"

fun emit_chars :: "bytes \<Rightarrow> nat \<Rightarrow> u32 \<Rightarrow> bytes" where
  "emit_chars alphabet 0 t = []"
| "emit_chars alphabet (Suc n) t = alphabet ! unat (t AND 63) # emit_chars alphabet n (drop_bit 6 t)"

fun encode_with :: "bytes \<Rightarrow> bytes \<Rightarrow> bytes" where
  "encode_with alphabet [] = []"
| "encode_with alphabet [a] = emit_chars alphabet 2 (ucast a)"
| "encode_with alphabet [a, b] = emit_chars alphabet 3 (ucast a OR push_bit 8 (ucast b))"
| "encode_with alphabet (a # b # c # rest) =
     emit_chars alphabet 4 (ucast a OR push_bit 8 (ucast b) OR push_bit 16 (ucast c)) @ encode_with alphabet rest"

definition b64_encode :: "bytes \<Rightarrow> bytes" where
  "b64_encode src = encode_with ALPHABET_STD src"

definition b64_encode_urlsafe :: "bytes \<Rightarrow> bytes" where
  "b64_encode_urlsafe src = encode_with ALPHABET_URL src"

definition decode_byte :: "u8 \<Rightarrow> u8 option" where
  "decode_byte c =
     (if 65 \<le> c \<and> c \<le> 90 then Some (c - 65)
      else if 97 \<le> c \<and> c \<le> 122 then Some (c - 97 + 26)
      else if 48 \<le> c \<and> c \<le> 57 then Some (c - 48 + 52)
      else if c = 43 \<or> c = 45 then Some 62
      else if c = 47 \<or> c = 95 then Some 63
      else None)"

definition le3 :: "u32 \<Rightarrow> bytes" where
  "le3 t = [ucast t, ucast (drop_bit 8 t), ucast (drop_bit 16 t)]"

text \<open>The loop of \<open>decode\<close> with its state: output, current triplet, position in the group of four.\<close>

fun decode_loop :: "bytes \<Rightarrow> bytes \<Rightarrow> u32 \<Rightarrow> nat \<Rightarrow> (bytes \<times> u32 \<times> nat) option" where
  "decode_loop [] out triplet i = Some (out, triplet, i)"
| "decode_loop (c # cs) out triplet i =
     (case decode_byte c of
        None \<Rightarrow> None
      | Some v \<Rightarrow>
          let triplet = triplet OR push_bit (6 * i) (ucast v); i = i + 1
          in if i = 4 then decode_loop cs (out @ le3 triplet) 0 0 else decode_loop cs out triplet i)"

text \<open>What is left in the last group: one, two or three characters (a position is always below four).\<close>

fun decode_tail :: "bytes \<times> u32 \<times> nat \<Rightarrow> bytes option" where
  "decode_tail (out, triplet, i) =
     (if i = 0 then Some (out @ take 0 (le3 triplet))
      else if i = 1 then None
      else if i = 2 then Some (out @ take 1 (le3 triplet))
      else Some (out @ take 2 (le3 triplet)))"

definition b64_decode :: "bytes \<Rightarrow> bytes option" where
  "b64_decode src = Option.bind (decode_loop src [] 0 0) decode_tail"

section \<open>Round trip\<close>

lemma decode_alphabet:
  assumes "alphabet = ALPHABET_STD \<or> alphabet = ALPHABET_URL" "k < 64"
  shows "decode_byte (alphabet ! k) = Some (of_nat k)"
proof -
  have "list_all (\<lambda>k. decode_byte (ALPHABET_STD ! k) = Some (of_nat k)) [0..<64]"
    "list_all (\<lambda>k. decode_byte (ALPHABET_URL ! k) = Some (of_nat k)) [0..<64]"
    by code_simp+
  thus ?thesis using assms by (auto simp: list_all_iff)
qed

definition good_alphabet :: "bytes \<Rightarrow> bool" where
  "good_alphabet alphabet \<longleftrightarrow> (\<forall>k < 64. decode_byte (alphabet ! k) = Some (of_nat k))"

lemma good_alphabets: "good_alphabet ALPHABET_STD" "good_alphabet ALPHABET_URL"
  by (simp_all add: good_alphabet_def decode_alphabet)

lemma and_63: "t AND 63 = take_bit 6 t" for t :: u32
  by (simp add: take_bit_eq_mask mask_eq_exp_minus_1)

lemma decode_sextet:
  fixes t :: u32
  assumes "good_alphabet alphabet"
  shows "decode_byte (alphabet ! unat (t AND 63)) = Some (ucast (t AND 63))"
proof -
  have "unat (take_bit 6 t) < 64"
    using take_bit_nat_less_exp [of 6 "unat t"] by (simp add: unsigned_take_bit_eq)
  thus ?thesis using assms by (simp add: good_alphabet_def and_63)
qed

text \<open>The sextets of a number, put back in their places.\<close>

definition sextet :: "u32 \<Rightarrow> nat \<Rightarrow> u32" where
  "sextet t i = push_bit (6 * i) (ucast (ucast (drop_bit (6 * i) t AND 63) :: u8))"

lemma bit_sextet:
  "bit (sextet t i) n \<longleftrightarrow> 6 * i \<le> n \<and> n < 6 * i + 6 \<and> n < 32 \<and> bit t n"
  by (auto simp: sextet_def and_63 bit_simps)

lemma or_sextet:
  assumes "i \<le> 4"
  shows "take_bit (6 * i) t OR sextet t i = take_bit (6 * (i + 1)) t"
  using assms by (intro bit_word_eqI) (auto simp: bit_sextet bit_simps)

lemma decode_emit:
  assumes "good_alphabet al" "i + n \<le> 4" "i < 4"
  shows "decode_loop (emit_chars al n (drop_bit (6 * i) t) @ cs) out (take_bit (6 * i) t) i =
    (if i + n = 4 then decode_loop cs (out @ le3 (take_bit 24 t)) 0 0
     else decode_loop cs out (take_bit (6 * (i + n)) t) (i + n))"
  using assms(2,3)
proof (induction n arbitrary: i)
  case (Suc n)
  have d: "decode_byte (al ! unat (drop_bit (6 * i) t AND 63)) = Some (ucast (drop_bit (6 * i) t AND 63))"
    by (rule decode_sextet [OF assms(1)])
  have o: "take_bit (6 * i) t OR push_bit (6 * i) (ucast (ucast (drop_bit (6 * i) t AND 63) :: u8)) =
      take_bit (6 * (i + 1)) t"
    using or_sextet [of i t] Suc.prems by (simp add: sextet_def)
  have s: "drop_bit 6 (drop_bit (6 * i) t) = drop_bit (6 * (i + 1)) t" by (simp add: algebra_simps)
  show ?case
  proof (cases "i = 3")
    case True
    thus ?thesis using Suc.prems d o s by (simp add: Let_def)
  next
    case False
    thus ?thesis using Suc.IH [of "i + 1"] Suc.prems d o s by (simp add: Let_def)
  qed
qed simp

lemma decode_emit0:
  assumes "good_alphabet al" "n \<le> 4"
  shows "decode_loop (emit_chars al n t @ cs) out 0 0 =
    (if n = 4 then decode_loop cs (out @ le3 (take_bit 24 t)) 0 0 else decode_loop cs out (take_bit (6 * n) t) n)"
  using decode_emit [OF assms(1), of 0 n t cs out] assms(2) by simp

lemma le3_bytes:
  "le3 (take_bit 24 (ucast a OR push_bit 8 (ucast b) OR push_bit 16 (ucast c))) = [a, b, c]"
  "take 2 (le3 (take_bit 18 (ucast a OR push_bit 8 (ucast b)))) = [a, b]"
  "take 1 (le3 (take_bit 12 (ucast a))) = [a]"
  by (auto simp: le3_def numeral_2_eq_2 intro!: bit_word_eqI) (auto simp: bit_simps dest: bit_imp_le_length)

lemma decode_encode_with:
  "good_alphabet al \<Longrightarrow> Option.bind (decode_loop (encode_with al src) out 0 0) decode_tail = Some (out @ src)"
proof (induction al src arbitrary: out rule: encode_with.induct)
  case (2 al a)
  thus ?case using decode_emit0 [of al 2 "ucast a" "[]" out] le3_bytes(3) by simp
next
  case (3 al a b)
  thus ?case using decode_emit0 [of al 3 "ucast a OR push_bit 8 (ucast b)" "[]" out] le3_bytes(2) by simp
next
  case (4 al a b c rest)
  thus ?case using le3_bytes(1) by (simp add: decode_emit0)
qed simp

text \<open>
  Decoding inverts encoding for every byte string, whichever alphabet it was written with.
\<close>

lemma b64_roundtrip:
  "b64_decode (b64_encode src) = Some src \<and> b64_decode (b64_encode_urlsafe src) = Some src"
  using decode_encode_with [OF good_alphabets(1), of src "[]"] decode_encode_with [OF good_alphabets(2), of src "[]"]
  by (simp add: b64_decode_def b64_encode_def b64_encode_urlsafe_def)

end
