(* ===== verification/Ordered_Map.thy ===== *)
theory Ordered_Map
  imports Prelude "HOL-Library.List_Lexorder" "HOL-Library.Char_ord" "HOL-Library.Product_Lexorder"
    "HOL-Library.Monad_Syntax"
begin

text \<open>
  The standard-library collections the daemon uses, as lists: \<open>BTreeMap\<close> and \<open>BTreeSet\<close> as strictly
  sorted association lists (iteration order is list order), slabs of reusable slots with a free
  list, and the lookups that panic as options. The interface locale of an ordered map and its
  interpretation are here too.
\<close>

section \<open>Sorted association lists\<close>

type_synonym ('k, 'v) bmap = "('k \<times> 'v) list"

fun bt_insert :: "'k :: linorder \<Rightarrow> 'v \<Rightarrow> ('k, 'v) bmap \<Rightarrow> ('k, 'v) bmap" where
  "bt_insert k v [] = [(k, v)]"
| "bt_insert k v ((k', v') # m) =
     (if k < k' then (k, v) # (k', v') # m
      else if k = k' then (k, v) # m
      else (k', v') # bt_insert k v m)"

fun bt_remove :: "'k :: linorder \<Rightarrow> ('k, 'v) bmap \<Rightarrow> ('k, 'v) bmap" where
  "bt_remove k [] = []"
| "bt_remove k ((k', v') # m) = (if k = k' then m else (k', v') # bt_remove k m)"

definition bt_ok :: "('k :: linorder, 'v) bmap \<Rightarrow> bool" where
  "bt_ok m \<longleftrightarrow> sorted_wrt (<) (map fst m)"

definition bt_values :: "('k, 'v) bmap \<Rightarrow> 'v list" where
  "bt_values m = map snd m"

lemma bt_ok_distinct: "bt_ok m \<Longrightarrow> distinct (map fst m)"
  by (simp add: bt_ok_def strict_sorted_iff)

lemma set_bt_insert:
  "bt_ok m \<Longrightarrow> set (bt_insert k v m) = {(k, v)} \<union> {p \<in> set m. fst p \<noteq> k}"
proof (induction k v m rule: bt_insert.induct)
  case (2 k v k' v' m)
  have m: "bt_ok m" "\<forall>p \<in> set m. k' < fst p" using 2(2) by (auto simp: bt_ok_def)
  show ?case
  proof (cases "k < k'")
    case True
    hence "\<forall>p \<in> set m. fst p \<noteq> k" using m(2) by auto
    thus ?thesis using True by auto
  next
    case False
    show ?thesis
    proof (cases "k = k'")
      case True
      thus ?thesis using m(2) by auto
    next
      case neq: False
      thus ?thesis using False 2(1) [OF False neq m(1)] by auto
    qed
  qed
qed simp

lemma bt_insert_ok: "bt_ok m \<Longrightarrow> bt_ok (bt_insert k v m)"
proof (induction k v m rule: bt_insert.induct)
  case (2 k v k' v' m)
  have m: "bt_ok m" "\<forall>p \<in> set m. k' < fst p" using 2(2) by (auto simp: bt_ok_def)
  show ?case
  proof (cases "k < k'")
    case True
    thus ?thesis using 2(2) by (auto simp: bt_ok_def)
  next
    case False
    show ?thesis
    proof (cases "k = k'")
      case True
      thus ?thesis using 2(2) by (simp add: bt_ok_def)
    next
      case neq: False
      hence "k' < k" using False by simp
      hence "\<forall>p \<in> set (bt_insert k v m). k' < fst p" using m set_bt_insert [OF m(1)] by auto
      thus ?thesis using False neq 2(1) [OF False neq m(1)] by (simp add: bt_ok_def)
    qed
  qed
qed (simp add: bt_ok_def)

lemma set_bt_remove: "bt_ok m \<Longrightarrow> set (bt_remove k m) = {p \<in> set m. fst p \<noteq> k}"
  by (induction k m rule: bt_remove.induct) (auto simp: bt_ok_def)

lemma bt_remove_ok: "bt_ok m \<Longrightarrow> bt_ok (bt_remove k m)"
proof (induction k m rule: bt_remove.induct)
  case (2 k k' v' m)
  hence "set (bt_remove k m) \<subseteq> set m" "bt_ok m" by (auto simp: set_bt_remove bt_ok_def)
  thus ?case using 2 by (auto simp: bt_ok_def)
qed simp

text \<open>What the clients of an ordered map rely on.\<close>

locale ordered_map =
  fixes ins :: "'k :: linorder \<Rightarrow> 'v \<Rightarrow> 'm \<Rightarrow> 'm" and del :: "'k \<Rightarrow> 'm \<Rightarrow> 'm"
    and entries :: "'m \<Rightarrow> ('k \<times> 'v) list" and ok :: "'m \<Rightarrow> bool"
  assumes entries_sorted: "ok m \<Longrightarrow> sorted_wrt (<) (map fst (entries m))"
    and ins_ok: "ok m \<Longrightarrow> ok (ins k v m)"
    and del_ok: "ok m \<Longrightarrow> ok (del k m)"
    and entries_ins: "ok m \<Longrightarrow> set (entries (ins k v m)) = {(k, v)} \<union> {p \<in> set (entries m). fst p \<noteq> k}"
    and entries_del: "ok m \<Longrightarrow> set (entries (del k m)) = {p \<in> set (entries m). fst p \<noteq> k}"
begin

lemma entries_functional: "ok m \<Longrightarrow> (k, v) \<in> set (entries m) \<Longrightarrow> (k, v') \<in> set (entries m) \<Longrightarrow> v = v'"
proof -
  assume m: "ok m" "(k, v) \<in> set (entries m)" "(k, v') \<in> set (entries m)"
  have "distinct (map fst (entries m))" using entries_sorted [OF m(1)] by (simp add: strict_sorted_iff)
  thus ?thesis using m(2,3) by (rule eq_key_imp_eq_value)
qed

lemma ins_fresh:
  assumes "ok m" "k \<notin> fst ` set (entries m)"
  shows "set (entries (ins k v m)) = insert (k, v) (set (entries m))"
proof -
  have "{p \<in> set (entries m). fst p \<noteq> k} = set (entries m)" using assms(2) by blast
  thus ?thesis unfolding entries_ins [OF assms(1)] by simp
qed

lemma del_present:
  "ok m \<Longrightarrow> (k, v) \<in> set (entries m) \<Longrightarrow> set (entries (del k m)) = set (entries m) - {(k, v)}"
proof -
  assume m: "ok m" "(k, v) \<in> set (entries m)"
  have "fst p \<noteq> k \<longleftrightarrow> p \<noteq> (k, v)" if p: "p \<in> set (entries m)" for p
  proof (cases "fst p = k")
    case True
    hence "(k, snd p) \<in> set (entries m)" using p by (metis prod.collapse)
    hence "v = snd p" using entries_functional m by blast
    thus ?thesis using True by (simp add: prod_eq_iff)
  qed auto
  thus ?thesis unfolding entries_del [OF m(1)] by blast
qed

lemma del_ins:
  assumes "ok m" "k \<notin> fst ` set (entries m)"
  shows "set (entries (del k (ins k v m))) = set (entries m)"
proof -
  have "{p \<in> set (entries m). fst p \<noteq> k} = set (entries m)" using assms(2) by blast
  moreover have "{p \<in> insert (k, v) S. fst p \<noteq> k} = {p \<in> S. fst p \<noteq> k}" for S by auto
  ultimately show ?thesis by (simp only: entries_del [OF ins_ok [OF assms(1)]] ins_fresh [OF assms])
qed

end

interpretation btree: ordered_map bt_insert bt_remove "\<lambda>m. m" bt_ok
proof unfold_locales
  fix m :: "('a, 'b) bmap" and k v
  assume m: "bt_ok m"
  show "sorted_wrt (<) (map fst m)" using m by (simp add: bt_ok_def)
  show "bt_ok (bt_insert k v m)" "bt_ok (bt_remove k m)" using m by (rule bt_insert_ok, rule bt_remove_ok)
  show "set (bt_insert k v m) = {(k, v)} \<union> {p \<in> set m. fst p \<noteq> k}" using m by (rule set_bt_insert)
  show "set (bt_remove k m) = {p \<in> set m. fst p \<noteq> k}" using m by (rule set_bt_remove)
qed

text \<open>
  \<open>BTreeSet\<close>: a map whose keys are computed from the elements. Two elements with the same key are the
  same element, which is what makes the set one of elements and not of keys.
\<close>

definition keyed :: "('v \<Rightarrow> 'k :: linorder) \<Rightarrow> ('v \<Rightarrow> bool) \<Rightarrow> ('k, 'v) bmap \<Rightarrow> bool" where
  "keyed kf valid m \<longleftrightarrow> bt_ok m \<and> (\<forall>(k, v) \<in> set m. valid v \<and> k = kf v)"

locale keyed_set =
  fixes kf :: "'v \<Rightarrow> 'k :: linorder" and valid :: "'v \<Rightarrow> bool"
  assumes key_inj: "valid v \<Longrightarrow> valid v' \<Longrightarrow> kf v = kf v' \<Longrightarrow> v = v'"
begin

lemma keyed_mem: "keyed kf valid m \<Longrightarrow> v \<in> set (bt_values m) \<longleftrightarrow> valid v \<and> (kf v, v) \<in> set m"
  unfolding keyed_def bt_values_def by force

lemma keyed_insert:
  assumes m: "keyed kf valid m" and v: "valid v"
  shows "keyed kf valid (bt_insert (kf v) v m)" "set (bt_values (bt_insert (kf v) v m)) = insert v (set (bt_values m))"
proof -
  have b: "bt_ok m" and e: "\<And>k u. (k, u) \<in> set m \<Longrightarrow> valid u \<and> k = kf u" using m by (auto simp: keyed_def)
  note s = set_bt_insert [OF b, of "kf v" v]
  show "keyed kf valid (bt_insert (kf v) v m)"
    using bt_insert_ok [OF b] e v unfolding keyed_def s by auto
  show "set (bt_values (bt_insert (kf v) v m)) = insert v (set (bt_values m))"
  proof (rule set_eqI)
    fix u
    have "u \<in> set (bt_values (bt_insert (kf v) v m)) \<longleftrightarrow> u = v \<or> (\<exists>k. (k, u) \<in> set m \<and> k \<noteq> kf v)"
      unfolding bt_values_def set_map s by force
    also have "\<dots> \<longleftrightarrow> u = v \<or> (\<exists>k. (k, u) \<in> set m)" using e key_inj v by metis
    also have "\<dots> \<longleftrightarrow> u \<in> insert v (set (bt_values m))" unfolding bt_values_def by force
    finally show "u \<in> set (bt_values (bt_insert (kf v) v m)) \<longleftrightarrow> u \<in> insert v (set (bt_values m))" .
  qed
qed

lemma keyed_remove:
  assumes m: "keyed kf valid m" and v: "valid v"
  shows "keyed kf valid (bt_remove (kf v) m)" "set (bt_values (bt_remove (kf v) m)) = set (bt_values m) - {v}"
proof -
  have b: "bt_ok m" and e: "\<And>k u. (k, u) \<in> set m \<Longrightarrow> valid u \<and> k = kf u" using m by (auto simp: keyed_def)
  note s = set_bt_remove [OF b, of "kf v"]
  show "keyed kf valid (bt_remove (kf v) m)" using bt_remove_ok [OF b] e unfolding keyed_def s by auto
  show "set (bt_values (bt_remove (kf v) m)) = set (bt_values m) - {v}"
  proof (rule set_eqI)
    fix u
    have "u \<in> set (bt_values (bt_remove (kf v) m)) \<longleftrightarrow> (\<exists>k. (k, u) \<in> set m \<and> k \<noteq> kf v)"
      unfolding bt_values_def set_map s by force
    also have "\<dots> \<longleftrightarrow> (\<exists>k. (k, u) \<in> set m) \<and> u \<noteq> v" using e key_inj v by metis
    also have "\<dots> \<longleftrightarrow> u \<in> set (bt_values m) - {v}" unfolding bt_values_def by force
    finally show "u \<in> set (bt_values (bt_remove (kf v) m)) \<longleftrightarrow> u \<in> set (bt_values m) - {v}" .
  qed
qed

lemma keyed_lookup:
  assumes m: "keyed kf valid m" and v: "valid v"
  shows "map_of m (kf v) \<noteq> None \<longleftrightarrow> v \<in> set (bt_values m)"
proof -
  have e: "\<And>k u. (k, u) \<in> set m \<Longrightarrow> valid u \<and> k = kf u" using m by (auto simp: keyed_def)
  have "map_of m (kf v) \<noteq> None \<longleftrightarrow> (\<exists>u. (kf v, u) \<in> set m)"
    by (metis map_of_SomeD not_None_eq weak_map_of_SomeI)
  also have "\<dots> \<longleftrightarrow> (kf v, v) \<in> set m" using e key_inj v by metis
  finally show ?thesis using keyed_mem [OF m] v by blast
qed

lemma keyed_sorted: "keyed kf valid m \<Longrightarrow> sorted_wrt (\<lambda>x y. kf x < kf y) (bt_values m)"
proof -
  assume m: "keyed kf valid m"
  hence "map fst m = map kf (bt_values m)" by (force simp: keyed_def bt_values_def)
  moreover have "sorted_wrt (<) (map fst m)" using m by (simp add: keyed_def bt_ok_def)
  ultimately show ?thesis by (simp add: sorted_wrt_map)
qed

end

section \<open>Slabs\<close>

text \<open>
  \<open>slot xs i\<close> is the macro \<open>slot!\<close> on a shared reference: \<open>None\<close> is its panic, on an index out of range
  as on a free slot. Writing goes through \<open>list_update\<close> after a successful \<open>slot\<close>.
\<close>

definition slot :: "'a option list \<Rightarrow> nat \<Rightarrow> 'a option" where
  "slot xs i = (if i < length xs then xs ! i else None)"

text \<open>\<open>u32::try_from\<close> on a length; the second equation evaluates it without unary numerals.\<close>

definition fits_u32 :: "nat \<Rightarrow> bool" where
  "fits_u32 n \<longleftrightarrow> n < 2 ^ 32"

lemma fits_u32_code [code]: "fits_u32 n \<longleftrightarrow> int n < 4294967296"
  by (simp add: fits_u32_def)

text \<open>
  \<open>alloc_slot\<close>: reuse the slot freed last, or grow the slab. \<open>None\<close> is the panic when the length no
  longer fits a \<open>u32\<close>.
\<close>

definition alloc_slot :: "'a option list \<Rightarrow> nat list \<Rightarrow> (nat \<times> 'a option list \<times> nat list) option" where
  "alloc_slot slab free =
     (if free \<noteq> [] then Some (last free, slab, butlast free)
      else if fits_u32 (length slab) then Some (length slab, slab @ [None], free)
      else None)"

definition slab_ok :: "'a option list \<Rightarrow> nat list \<Rightarrow> bool" where
  "slab_ok slab free \<longleftrightarrow> distinct free \<and> (\<forall>i. i \<in> set free \<longleftrightarrow> i < length slab \<and> slab ! i = None)"

lemma slot_update: "slot (xs[i := v]) j = (if i = j \<and> i < length xs then v else slot xs j)"
  by (simp add: slot_def)

lemma slot_Some_less: "slot xs i = Some x \<Longrightarrow> i < length xs"
  by (simp add: slot_def split: if_splits)

lemma slot_append_None [simp]: "slot (xs @ [None]) i = slot xs i"
  by (auto simp: slot_def nth_append)

lemma slab_ok_length: "slab_ok slab free \<Longrightarrow> length free \<le> length slab"
proof -
  assume "slab_ok slab free"
  hence "distinct free" "set free \<subseteq> {..< length slab}" by (auto simp: slab_ok_def)
  thus ?thesis by (metis card_lessThan card_mono distinct_card finite_lessThan)
qed

lemma slab_ok_append: "slab_ok slab [] \<Longrightarrow> slab_ok (slab @ [Some x]) []"
  unfolding slab_ok_def by (simp add: nth_append less_Suc_eq)

lemma slab_ok_reuse:
  assumes "slab_ok slab (fs @ [f])"
  shows "slab_ok (slab[f := Some x]) fs"
proof -
  have f: "f \<notin> set fs" "distinct fs" using assms by (simp_all add: slab_ok_def)
  have m: "i \<in> set fs \<or> i = f \<longleftrightarrow> i < length slab \<and> slab ! i = None" for i
    using assms by (auto simp: slab_ok_def)
  have "i \<in> set fs \<longleftrightarrow> i < length slab \<and> slab[f := Some x] ! i = None" for i
    using m [of i] f(1) by (cases "i = f") auto
  thus ?thesis using f(2) by (simp add: slab_ok_def)
qed

lemma alloc_slot_ok:
  assumes "slab_ok slab free" "free = [] \<Longrightarrow> fits_u32 (length slab)"
  obtains i slab' free' where "alloc_slot slab free = Some (i, slab', free')" "slot slab i = None"
    "\<And>j. slot slab' j = slot slab j" "i < length slab'" "length slab' \<le> length slab + 1"
    "\<And>x. slab_ok (slab'[i := Some x]) free'"
proof (cases "free = []")
  case True
  show thesis
  proof (rule that)
    show "alloc_slot slab free = Some (length slab, slab @ [None], [])"
      using True assms(2) by (simp add: alloc_slot_def)
    show "slab_ok ((slab @ [None])[length slab := Some x]) []" for x
      using assms(1) True slab_ok_append by simp
  qed (simp_all, simp add: slot_def)
next
  case False
  then obtain fs f where f: "free = fs @ [f]" by (metis append_butlast_last_id)
  have m: "f < length slab" "slab ! f = None" using assms(1) unfolding slab_ok_def f by auto
  show thesis
  proof (rule that)
    show "alloc_slot slab free = Some (f, slab, fs)" by (simp add: alloc_slot_def f)
    show "slab_ok (slab[f := Some x]) fs" for x using assms(1) unfolding f by (rule slab_ok_reuse)
  qed (use m in \<open>simp_all add: slot_def\<close>)
qed

lemma free_slot_ok:
  assumes "slab_ok slab free" "slot slab i = Some x"
  shows "slab_ok (slab[i := None]) (free @ [i])"
proof -
  have i: "i < length slab" "slab ! i = Some x" using assms(2) by (simp_all add: slot_def split: if_splits)
  have m: "j \<in> set free \<longleftrightarrow> j < length slab \<and> slab ! j = None" for j
    using assms(1) by (simp add: slab_ok_def)
  have "j \<in> set (free @ [i]) \<longleftrightarrow> j < length slab \<and> slab[i := None] ! j = None" for j
    using m [of j] i by (cases "j = i") auto
  thus ?thesis using assms(1) m [of i] i by (simp add: slab_ok_def)
qed

end
