(* ===== verification/Subnets.thy ===== *)
theory Subnets
  imports Ordered_Map "HOL-Library.Option_ord"
begin

text \<open>
  Subnets (\<open>tinc-proto/src/subnet.rs\<close>): the three kinds, the comparison of addresses under a prefix,
  and the check that the host bits are zero, with their meaning bit by bit.
\<close>

section \<open>Model\<close>

text \<open>Addresses are their octets: six for MAC, four for IPv4, sixteen for IPv6. Weights are \<open>i32\<close>.\<close>

datatype subnet = Mac bytes int | V4 bytes nat int | V6 bytes nat int

definition DEFAULT_WEIGHT :: int where
  "DEFAULT_WEIGHT = 10"

fun subnet_weight :: "subnet \<Rightarrow> int" where
  "subnet_weight (Mac _ w) = w"
| "subnet_weight (V4 _ _ w) = w"
| "subnet_weight (V6 _ _ w) = w"

text \<open>
  The slices \<open>a[..full]\<close> and \<open>a[full]\<close> panic when the prefix is longer than the address: \<open>None\<close>. The
  high-bits mask \<open>0xff << (8 - bits)\<close> is shifted within eight bits.
\<close>

definition maskcmp :: "bytes \<Rightarrow> bytes \<Rightarrow> nat \<Rightarrow> bool option" where
  "maskcmp a b prefix =
     (let full = prefix div 8; bits = prefix mod 8 in
      if full > length a \<or> full > length b then None
      else if take full a \<noteq> take full b then Some False
      else if bits \<noteq> 0 then
        (if full \<ge> length a \<or> full \<ge> length b then None
         else let mask = push_bit (8 - bits) (0xff :: u8)
              in Some (a ! full AND mask = b ! full AND mask))
      else Some True)"

definition ip_match :: "bytes \<Rightarrow> nat \<Rightarrow> bytes \<Rightarrow> nat \<Rightarrow> bool \<Rightarrow> bool option" where
  "ip_match a p fa fp as_address = (if as_address then maskcmp a fa p else Some (p = fp \<and> a = fa))"

fun matches :: "subnet \<Rightarrow> subnet \<Rightarrow> bool \<Rightarrow> bool option" where
  "matches (V4 a p _) (V4 fa fp _) as_address = ip_match a p fa fp as_address"
| "matches (V6 a p _) (V6 fa fp _) as_address = ip_match a p fa fp as_address"
| "matches (Mac a _) (Mac fa _) as_address = Some (a = fa)"
| "matches _ _ as_address = Some False"

definition maskcheck :: "bytes \<Rightarrow> nat \<Rightarrow> bool option" where
  "maskcheck bs prefix =
     (let full = prefix div 8; bits = prefix mod 8 in
      if bits \<noteq> 0 then
        (if full \<ge> length bs then None
         else if bs ! full AND drop_bit bits (0xff :: u8) \<noteq> 0 then Some False
         else Some (list_all (\<lambda>b. b = 0) (drop (full + 1) bs)))
      else if full > length bs then None
      else Some (list_all (\<lambda>b. b = 0) (drop full bs)))"

fun is_canonical :: "subnet \<Rightarrow> bool option" where
  "is_canonical (Mac _ _) = Some True"
| "is_canonical (V4 a p _) = maskcheck a p"
| "is_canonical (V6 a p _) = maskcheck a p"

text \<open>What the types and the parser guarantee: the widths, the ranges of prefix and weight.\<close>

definition i32_range :: "int \<Rightarrow> bool" where
  "i32_range w \<longleftrightarrow> - 2147483648 \<le> w \<and> w \<le> 2147483647"

fun subnet_ok :: "subnet \<Rightarrow> bool" where
  "subnet_ok (Mac a w) \<longleftrightarrow> length a = 6 \<and> i32_range w"
| "subnet_ok (V4 a p w) \<longleftrightarrow> length a = 4 \<and> p \<le> 32 \<and> i32_range w"
| "subnet_ok (V6 a p w) \<longleftrightarrow> length a = 16 \<and> p \<le> 128 \<and> i32_range w"

section \<open>Meaning\<close>

text \<open>Bit \<open>i\<close> of an address in network order, the most significant bit of the first octet first.\<close>

definition addr_bit :: "bytes \<Rightarrow> nat \<Rightarrow> bool" where
  "addr_bit a i = bit (a ! (i div 8)) (7 - i mod 8)"

lemma addr_bit_block: "k < 8 \<Longrightarrow> addr_bit a (8 * m + k) = bit (a ! m) (7 - k)"
  by (simp add: addr_bit_def)

lemma u8_eq_bits: "(x :: u8) = y \<longleftrightarrow> (\<forall>k < 8. bit x (7 - k) = bit y (7 - k))"
proof
  assume h: "\<forall>k < 8. bit x (7 - k) = bit y (7 - k)"
  show "x = y"
  proof (rule bit_word_eqI)
    fix n
    assume "n < LENGTH(8)"
    thus "bit x n = bit y n" using h [rule_format, of "7 - n"] by simp
  qed
qed simp

lemma bit_u8_ff: "bit (0xff :: u8) j \<longleftrightarrow> j < 8"
proof -
  have "(0xff :: u8) = mask 8" by (simp add: mask_eq_exp_minus_1)
  hence "bit (0xff :: u8) j = bit (mask 8 :: u8) j" by (simp only:)
  thus ?thesis by (simp only: bit_mask_iff) simp
qed

lemma u8_high_bits:
  assumes "0 < n" "n < 8"
  shows "x AND push_bit (8 - n) 0xff = y AND push_bit (8 - n) (0xff :: u8) \<longleftrightarrow> (\<forall>k < n. bit x (7 - k) = bit y (7 - k))"
proof -
  have m: "bit (push_bit (8 - n) (0xff :: u8)) j \<longleftrightarrow> 8 - n \<le> j \<and> j < 8" for j
    unfolding bit_push_bit_iff bit_u8_ff by auto
  have "x AND push_bit (8 - n) 0xff = y AND push_bit (8 - n) (0xff :: u8) \<longleftrightarrow>
      (\<forall>j. 8 - n \<le> j \<and> j < 8 \<longrightarrow> bit x j = bit y j)"
    unfolding bit_eq_iff by (auto simp: bit_and_iff m)
  also have "\<dots> \<longleftrightarrow> (\<forall>k < n. bit x (7 - k) = bit y (7 - k))"
  proof
    assume h: "\<forall>k < n. bit x (7 - k) = bit y (7 - k)"
    have "bit x j = bit y j" if j: "8 - n \<le> j \<and> j < 8" for j
    proof -
      have "7 - j < n" using j by arith
      thus ?thesis using h [rule_format, of "7 - j"] j by simp
    qed
    thus "\<forall>j. 8 - n \<le> j \<and> j < 8 \<longrightarrow> bit x j = bit y j" by blast
  next
    assume h: "\<forall>j. 8 - n \<le> j \<and> j < 8 \<longrightarrow> bit x j = bit y j"
    have "8 - n \<le> 7 - k \<and> 7 - k < 8" if "k < n" for k using that assms by arith
    thus "\<forall>k < n. bit x (7 - k) = bit y (7 - k)" using h by blast
  qed
  finally show ?thesis .
qed

lemma u8_low_bits:
  assumes "n < 8"
  shows "x AND drop_bit n (0xff :: u8) = 0 \<longleftrightarrow> (\<forall>k < 8. n \<le> k \<longrightarrow> \<not> bit x (7 - k))"
proof -
  have m: "bit (drop_bit n (0xff :: u8)) j \<longleftrightarrow> j < 8 - n" for j
    unfolding bit_drop_bit_eq comp_def bit_u8_ff by arith
  have "x AND drop_bit n (0xff :: u8) = 0 \<longleftrightarrow> (\<forall>j < 8 - n. \<not> bit x j)"
    unfolding bit_eq_iff bit_and_iff m by (auto dest: less_le_trans [OF _ diff_le_self])
  also have "\<dots> \<longleftrightarrow> (\<forall>k < 8. n \<le> k \<longrightarrow> \<not> bit x (7 - k))"
  proof
    assume h: "\<forall>k < 8. n \<le> k \<longrightarrow> \<not> bit x (7 - k)"
    have "\<not> bit x j" if j: "j < 8 - n" for j
    proof -
      have "7 - j < 8" "n \<le> 7 - j" "7 - (7 - j) = j" using j by arith+
      thus ?thesis using h [rule_format, of "7 - j"] by simp
    qed
    thus "\<forall>j < 8 - n. \<not> bit x j" by blast
  next
    assume h: "\<forall>j < 8 - n. \<not> bit x j"
    have "7 - k < 8 - n" if "k < 8" "n \<le> k" for k using that assms by arith
    thus "\<forall>k < 8. n \<le> k \<longrightarrow> \<not> bit x (7 - k)" using h by blast
  qed
  finally show ?thesis .
qed

lemma take_eq_bits:
  assumes "m \<le> length a" "m \<le> length b"
  shows "take m a = take m b \<longleftrightarrow> (\<forall>i < 8 * m. addr_bit a i = addr_bit b i)"
proof -
  have "take m a = take m b \<longleftrightarrow> (\<forall>j < m. a ! j = b ! j)"
    using assms by (auto simp: list_eq_iff_nth_eq)
  also have "\<dots> \<longleftrightarrow> (\<forall>j < m. \<forall>k < 8. addr_bit a (8 * j + k) = addr_bit b (8 * j + k))"
    by (simp add: u8_eq_bits addr_bit_block)
  also have "\<dots> \<longleftrightarrow> (\<forall>i < 8 * m. addr_bit a i = addr_bit b i)"
  proof
    assume h: "\<forall>j < m. \<forall>k < 8. addr_bit a (8 * j + k) = addr_bit b (8 * j + k)"
    have "addr_bit a i = addr_bit b i" if "i < 8 * m" for i
      using h [rule_format, of "i div 8" "i mod 8"] that by simp
    thus "\<forall>i < 8 * m. addr_bit a i = addr_bit b i" by blast
  qed simp
  finally show ?thesis .
qed

lemma all_less_split: "(\<forall>i < (m :: nat) + n. P i) \<longleftrightarrow> (\<forall>i < m. P i) \<and> (\<forall>k < n. P (m + k))"
proof
  assume h: "(\<forall>i < m. P i) \<and> (\<forall>k < n. P (m + k))"
  have "P i" if "i < m + n" for i
  proof (cases "i < m")
    case False
    hence "i - m < n" "m + (i - m) = i" using that by arith+
    thus ?thesis using h by metis
  qed (use h in simp)
  thus "\<forall>i < m + n. P i" by blast
qed simp

text \<open>
  The byte-and-mask comparison of the code is comparison of the first \<open>prefix\<close> bits; with a
  prefix inside the address it does not panic.
\<close>

lemma maskcmp_correct:
  assumes "length a = n" "length b = n" "prefix \<le> 8 * n"
  shows "maskcmp a b prefix = Some (\<forall>i < prefix. addr_bit a i = addr_bit b i)"
proof -
  let ?f = "prefix div 8" and ?b = "prefix mod 8"
  have f: "?f \<le> n" "?b \<noteq> 0 \<Longrightarrow> ?f < n" using assms(3) mult_div_mod_eq [of 8 prefix] by linarith+
  have "(\<forall>i < prefix. addr_bit a i = addr_bit b i) \<longleftrightarrow>
      take ?f a = take ?f b \<and> (\<forall>k < ?b. bit (a ! ?f) (7 - k) = bit (b ! ?f) (7 - k))"
    using all_less_split [of "8 * ?f" ?b "\<lambda>i. addr_bit a i = addr_bit b i"] take_eq_bits [of ?f a b] f(1) assms
    by (simp add: addr_bit_block)
  moreover have "?b \<noteq> 0 \<Longrightarrow> (a ! ?f AND push_bit (8 - ?b) 0xff = b ! ?f AND push_bit (8 - ?b) 0xff) \<longleftrightarrow>
      (\<forall>k < ?b. bit (a ! ?f) (7 - k) = bit (b ! ?f) (7 - k))"
    by (rule u8_high_bits) simp_all
  moreover have "\<not> ?f > length a" "\<not> ?f > length b" "?b \<noteq> 0 \<Longrightarrow> \<not> ?f \<ge> length a" "?b \<noteq> 0 \<Longrightarrow> \<not> ?f \<ge> length b"
    using f assms by simp_all
  ultimately show ?thesis unfolding maskcmp_def Let_def by (cases "?b = 0") simp_all
qed

lemma zero_bits_from:
  assumes "m \<le> length a"
  shows "list_all (\<lambda>b. b = 0) (drop m a) \<longleftrightarrow> (\<forall>i < 8 * length a. 8 * m \<le> i \<longrightarrow> \<not> addr_bit a i)"
proof -
  have z: "(x :: u8) = 0 \<longleftrightarrow> (\<forall>k < 8. \<not> bit x (7 - k))" for x using u8_eq_bits [of x 0] by simp
  have "list_all (\<lambda>b. b = 0) (drop m a) \<longleftrightarrow> (\<forall>j < length a. m \<le> j \<longrightarrow> a ! j = 0)"
  proof
    assume h: "list_all (\<lambda>b. b = 0) (drop m a)"
    have "a ! j = 0" if "j < length a" "m \<le> j" for j
    proof -
      have "j - m < length (drop m a)" "drop m a ! (j - m) = a ! j" using that by (simp_all add: diff_less_mono)
      thus ?thesis using h unfolding list_all_length by simp
    qed
    thus "\<forall>j < length a. m \<le> j \<longrightarrow> a ! j = 0" by blast
  qed (use assms in \<open>simp add: list_all_length\<close>)
  also have "\<dots> \<longleftrightarrow> (\<forall>i < 8 * length a. 8 * m \<le> i \<longrightarrow> \<not> addr_bit a i)"
  proof
    assume h: "\<forall>j < length a. m \<le> j \<longrightarrow> a ! j = 0"
    have "\<not> addr_bit a i" if "i < 8 * length a" "8 * m \<le> i" for i
    proof -
      have "i div 8 < length a" "m \<le> i div 8"
        using that mult_div_mod_eq [of 8 i] mod_less_divisor [of 8 i] by linarith+
      thus ?thesis using h by (simp add: addr_bit_def)
    qed
    thus "\<forall>i < 8 * length a. 8 * m \<le> i \<longrightarrow> \<not> addr_bit a i" by blast
  next
    assume h: "\<forall>i < 8 * length a. 8 * m \<le> i \<longrightarrow> \<not> addr_bit a i"
    have "a ! j = 0" if "j < length a" "m \<le> j" for j
    proof -
      have "\<not> addr_bit a (8 * j + k)" if "k < 8" for k using h \<open>j < length a\<close> \<open>m \<le> j\<close> that by simp
      thus ?thesis unfolding z by (simp add: addr_bit_block)
    qed
    thus "\<forall>j < length a. m \<le> j \<longrightarrow> a ! j = 0" by blast
  qed
  finally show ?thesis .
qed

lemma from_prefix_split:
  assumes f: "f < (n :: nat)" and b: "b \<le> 8"
  shows "(\<forall>i < 8 * n. 8 * f + b \<le> i \<longrightarrow> P i) \<longleftrightarrow>
    (\<forall>k < 8. b \<le> k \<longrightarrow> P (8 * f + k)) \<and> (\<forall>i < 8 * n. 8 * (f + 1) \<le> i \<longrightarrow> P i)"
proof
  assume h: "(\<forall>k < 8. b \<le> k \<longrightarrow> P (8 * f + k)) \<and> (\<forall>i < 8 * n. 8 * (f + 1) \<le> i \<longrightarrow> P i)"
  have "P i" if i: "i < 8 * n" "8 * f + b \<le> i" for i
  proof (cases "8 * (f + 1) \<le> i")
    case False
    hence "i - 8 * f < 8" "b \<le> i - 8 * f" "8 * f + (i - 8 * f) = i" using i by arith+
    thus ?thesis using h by metis
  qed (use h i in blast)
  thus "\<forall>i < 8 * n. 8 * f + b \<le> i \<longrightarrow> P i" by blast
next
  assume h: "\<forall>i < 8 * n. 8 * f + b \<le> i \<longrightarrow> P i"
  have "8 * f + k < 8 * n" if "k < 8" for k using f that by arith
  thus "(\<forall>k < 8. b \<le> k \<longrightarrow> P (8 * f + k)) \<and> (\<forall>i < 8 * n. 8 * (f + 1) \<le> i \<longrightarrow> P i)"
    using h b by simp
qed

text \<open>The canonical check holds exactly when every bit from the prefix on is zero.\<close>

lemma maskcheck_correct:
  assumes "length a = n" "prefix \<le> 8 * n"
  shows "maskcheck a prefix = Some (\<forall>i < 8 * n. prefix \<le> i \<longrightarrow> \<not> addr_bit a i)"
proof (cases "prefix mod 8 = 0")
  case True
  moreover have "prefix div 8 \<le> length a" "8 * (prefix div 8) = prefix"
    using True assms mult_div_mod_eq [of 8 prefix] by linarith+
  ultimately show ?thesis using zero_bits_from [of "prefix div 8" a] assms by (simp add: maskcheck_def Let_def)
next
  case False
  let ?f = "prefix div 8" and ?b = "prefix mod 8"
  have f: "?f < n" using False assms(2) mult_div_mod_eq [of 8 prefix] by linarith
  have "(\<forall>i < 8 * n. prefix \<le> i \<longrightarrow> \<not> addr_bit a i) \<longleftrightarrow>
      (\<forall>k < 8. ?b \<le> k \<longrightarrow> \<not> bit (a ! ?f) (7 - k)) \<and> list_all (\<lambda>b. b = 0) (drop (?f + 1) a)"
    using from_prefix_split [OF f, of ?b, where P = "\<lambda>i. \<not> addr_bit a i"] zero_bits_from [of "?f + 1" a] f assms(1)
    by (simp add: addr_bit_block)
  moreover have "a ! ?f AND drop_bit ?b 0xff = 0 \<longleftrightarrow> (\<forall>k < 8. ?b \<le> k \<longrightarrow> \<not> bit (a ! ?f) (7 - k))"
    by (rule u8_low_bits) simp
  ultimately show ?thesis using False f assms(1) unfolding maskcheck_def Let_def by simp
qed

end
