(* ===== verification/Subnet_Tree.thy ===== *)
theory Subnet_Tree
  imports Subnets
begin

text \<open>
  The routing table of \<open>tincd/src/subnet_tree.rs\<close>: one ordered set of (subnet, owner) entries for each
  address family, sorted by prefix length (longest first), address, weight and owner. The lookup scans
  it in order and takes the first matching entry whose owner is reachable. A panic of the address
  comparison is \<open>None\<close>.
\<close>

section \<open>Model\<close>

text \<open>
  The three \<open>Ord\<close> implementations compare tuples: a longer prefix first, then address, weight and
  owner, where the ownerless broadcast entries come before the owned ones.
\<close>

type_synonym ip_key = "int \<times> bytes \<times> int \<times> string option"
type_synonym mac_key = "bytes \<times> int \<times> string option"
type_synonym entry = "subnet \<times> string option"

definition ip_order :: "bytes \<Rightarrow> nat \<Rightarrow> int \<Rightarrow> string option \<Rightarrow> ip_key" where
  "ip_order a p w ow = (- int p, a, w, ow)"

definition mac_order :: "bytes \<Rightarrow> int \<Rightarrow> string option \<Rightarrow> mac_key" where
  "mac_order a w ow = (a, w, ow)"

record subnet_tree =
  t_ipv4 :: "(ip_key, entry) bmap"
  t_ipv6 :: "(ip_key, entry) bmap"
  t_mac :: "(mac_key, entry) bmap"

definition tree_new :: subnet_tree where
  "tree_new = \<lparr>t_ipv4 = [], t_ipv6 = [], t_mac = []\<rparr>"

fun tree_insert :: "subnet \<Rightarrow> string option \<Rightarrow> subnet_tree \<Rightarrow> subnet_tree" where
  "tree_insert (V4 a p w) ow t = t\<lparr>t_ipv4 := bt_insert (ip_order a p w ow) (V4 a p w, ow) (t_ipv4 t)\<rparr>"
| "tree_insert (V6 a p w) ow t = t\<lparr>t_ipv6 := bt_insert (ip_order a p w ow) (V6 a p w, ow) (t_ipv6 t)\<rparr>"
| "tree_insert (Mac a w) ow t = t\<lparr>t_mac := bt_insert (mac_order a w ow) (Mac a w, ow) (t_mac t)\<rparr>"

definition tree_add :: "subnet \<Rightarrow> string \<Rightarrow> subnet_tree \<Rightarrow> subnet_tree" where
  "tree_add s owner t = tree_insert s (Some owner) t"

definition add_broadcast :: "subnet \<Rightarrow> subnet_tree \<Rightarrow> subnet_tree" where
  "add_broadcast s t = tree_insert s None t"

fun tree_contains_key :: "subnet \<Rightarrow> string option \<Rightarrow> subnet_tree \<Rightarrow> bool" where
  "tree_contains_key (V4 a p w) ow t \<longleftrightarrow> map_of (t_ipv4 t) (ip_order a p w ow) \<noteq> None"
| "tree_contains_key (V6 a p w) ow t \<longleftrightarrow> map_of (t_ipv6 t) (ip_order a p w ow) \<noteq> None"
| "tree_contains_key (Mac a w) ow t \<longleftrightarrow> map_of (t_mac t) (mac_order a w ow) \<noteq> None"

definition tree_contains :: "subnet \<Rightarrow> string \<Rightarrow> subnet_tree \<Rightarrow> bool" where
  "tree_contains s owner t = tree_contains_key s (Some owner) t"

fun tree_remove :: "subnet \<Rightarrow> string option \<Rightarrow> subnet_tree \<Rightarrow> subnet_tree" where
  "tree_remove (V4 a p w) ow t = t\<lparr>t_ipv4 := bt_remove (ip_order a p w ow) (t_ipv4 t)\<rparr>"
| "tree_remove (V6 a p w) ow t = t\<lparr>t_ipv6 := bt_remove (ip_order a p w ow) (t_ipv6 t)\<rparr>"
| "tree_remove (Mac a w) ow t = t\<lparr>t_mac := bt_remove (mac_order a w ow) (t_mac t)\<rparr>"

definition tree_del :: "subnet \<Rightarrow> string \<Rightarrow> subnet_tree \<Rightarrow> bool \<times> subnet_tree" where
  "tree_del s owner t = (tree_contains_key s (Some owner) t, tree_remove s (Some owner) t)"

text \<open>The owner test of the lookup: ownerless entries are always usable.\<close>

definition usable :: "(string \<Rightarrow> bool) \<Rightarrow> string option \<Rightarrow> bool" where
  "usable up ow = (case ow of None \<Rightarrow> True | Some n \<Rightarrow> up n)"

fun lookup_scan :: "subnet \<Rightarrow> (string \<Rightarrow> bool) \<Rightarrow> entry option \<Rightarrow> entry list \<Rightarrow> entry option option" where
  "lookup_scan q up last_hit [] = Some last_hit"
| "lookup_scan q up last_hit ((s, ow) # es) = do {
     hit \<leftarrow> matches s q True;
     if hit then (if usable up ow then Some (Some (s, ow)) else lookup_scan q up (Some (s, ow)) es)
     else lookup_scan q up last_hit es }"

definition lookup_ipv4 :: "subnet_tree \<Rightarrow> bytes \<Rightarrow> (string \<Rightarrow> bool) \<Rightarrow> entry option option" where
  "lookup_ipv4 t addr is_reachable = lookup_scan (V4 addr 32 0) is_reachable None (bt_values (t_ipv4 t))"

definition lookup_ipv6 :: "subnet_tree \<Rightarrow> bytes \<Rightarrow> (string \<Rightarrow> bool) \<Rightarrow> entry option option" where
  "lookup_ipv6 t addr is_reachable = lookup_scan (V6 addr 128 0) is_reachable None (bt_values (t_ipv6 t))"

definition tree_iter :: "subnet_tree \<Rightarrow> (subnet \<times> string) list" where
  "tree_iter t = concat (map (\<lambda>(s, ow). case ow of None \<Rightarrow> [] | Some n \<Rightarrow> [(s, n)])
     (bt_values (t_mac t) @ bt_values (t_ipv4 t) @ bt_values (t_ipv6 t)))"

definition owned_by :: "subnet_tree \<Rightarrow> string \<Rightarrow> subnet list" where
  "owned_by t nm = map fst (filter (\<lambda>(s, n). n = nm) (tree_iter t))"

definition tree_len :: "subnet_tree \<Rightarrow> nat" where
  "tree_len t = length (t_ipv4 t) + length (t_ipv6 t) + length (t_mac t)"

text \<open>\<open>Ipv4Addr::is_multicast\<close> (first octet 224 to 239) and \<open>Ipv6Addr::is_multicast\<close> (first octet 255).\<close>

fun is_multicast_subnet :: "subnet \<Rightarrow> bool" where
  "is_multicast_subnet (V4 a p _) \<longleftrightarrow> 4 \<le> p \<and> 224 \<le> hd a \<and> hd a \<le> 239"
| "is_multicast_subnet (V6 a p _) \<longleftrightarrow> 8 \<le> p \<and> hd a = 255"
| "is_multicast_subnet (Mac _ _) \<longleftrightarrow> False"

section \<open>Invariant and contents\<close>

fun subnet_addr :: "subnet \<Rightarrow> bytes" where
  "subnet_addr (Mac a _) = a" | "subnet_addr (V4 a _ _) = a" | "subnet_addr (V6 a _ _) = a"

fun subnet_prefix :: "subnet \<Rightarrow> nat" where
  "subnet_prefix (Mac a _) = 48" | "subnet_prefix (V4 _ p _) = p" | "subnet_prefix (V6 _ p _) = p"

text \<open>The key an entry is stored under, and what the three sets hold.\<close>

fun ip_entry_key :: "entry \<Rightarrow> ip_key" where
  "ip_entry_key (V4 a p w, ow) = ip_order a p w ow"
| "ip_entry_key (V6 a p w, ow) = ip_order a p w ow"
| "ip_entry_key (Mac a w, ow) = ip_order a 0 w ow"

definition mac_entry_key :: "entry \<Rightarrow> mac_key" where
  "mac_entry_key e = mac_order (subnet_addr (fst e)) (subnet_weight (fst e)) (snd e)"

definition v4_entry :: "entry \<Rightarrow> bool" where
  "v4_entry e \<longleftrightarrow> (\<exists>a p w. fst e = V4 a p w) \<and> subnet_ok (fst e)"

definition v6_entry :: "entry \<Rightarrow> bool" where
  "v6_entry e \<longleftrightarrow> (\<exists>a p w. fst e = V6 a p w) \<and> subnet_ok (fst e)"

definition mac_entry :: "entry \<Rightarrow> bool" where
  "mac_entry e \<longleftrightarrow> (\<exists>a w. fst e = Mac a w) \<and> subnet_ok (fst e)"

definition tree_ok :: "subnet_tree \<Rightarrow> bool" where
  "tree_ok t \<longleftrightarrow> keyed ip_entry_key v4_entry (t_ipv4 t) \<and> keyed ip_entry_key v6_entry (t_ipv6 t) \<and>
     keyed mac_entry_key mac_entry (t_mac t)"

definition entries :: "subnet_tree \<Rightarrow> entry set" where
  "entries t = set (bt_values (t_ipv4 t)) \<union> set (bt_values (t_ipv6 t)) \<union> set (bt_values (t_mac t))"

interpretation v4set: keyed_set ip_entry_key v4_entry
  by unfold_locales (auto simp: v4_entry_def ip_order_def prod_eq_iff)

interpretation v6set: keyed_set ip_entry_key v6_entry
  by unfold_locales (auto simp: v6_entry_def ip_order_def prod_eq_iff)

interpretation macset: keyed_set mac_entry_key mac_entry
  by unfold_locales (auto simp: mac_entry_def mac_entry_key_def mac_order_def prod_eq_iff)

lemma tree_ok_new: "tree_ok tree_new"
  by (simp add: tree_ok_def tree_new_def keyed_def bt_ok_def)

lemma entries_family:
  assumes "tree_ok t"
  shows "v4_entry e \<Longrightarrow> e \<in> entries t \<longleftrightarrow> e \<in> set (bt_values (t_ipv4 t))"
    "v6_entry e \<Longrightarrow> e \<in> entries t \<longleftrightarrow> e \<in> set (bt_values (t_ipv6 t))"
    "mac_entry e \<Longrightarrow> e \<in> entries t \<longleftrightarrow> e \<in> set (bt_values (t_mac t))"
proof -
  note m = v4set.keyed_mem v6set.keyed_mem macset.keyed_mem
  have k: "keyed ip_entry_key v4_entry (t_ipv4 t)" "keyed ip_entry_key v6_entry (t_ipv6 t)"
    "keyed mac_entry_key mac_entry (t_mac t)" using assms by (simp_all add: tree_ok_def)
  show "v4_entry e \<Longrightarrow> e \<in> entries t \<longleftrightarrow> e \<in> set (bt_values (t_ipv4 t))"
    using m(2) [OF k(2)] m(3) [OF k(3)] by (auto simp: entries_def v4_entry_def v6_entry_def mac_entry_def)
  show "v6_entry e \<Longrightarrow> e \<in> entries t \<longleftrightarrow> e \<in> set (bt_values (t_ipv6 t))"
    using m(1) [OF k(1)] m(3) [OF k(3)] by (auto simp: entries_def v4_entry_def v6_entry_def mac_entry_def)
  show "mac_entry e \<Longrightarrow> e \<in> entries t \<longleftrightarrow> e \<in> set (bt_values (t_mac t))"
    using m(1) [OF k(1)] m(2) [OF k(2)] by (auto simp: entries_def v4_entry_def v6_entry_def mac_entry_def)
qed

lemma subnet_family: "subnet_ok s \<Longrightarrow> v4_entry (s, ow) \<or> v6_entry (s, ow) \<or> mac_entry (s, ow)"
  by (cases s) (auto simp: v4_entry_def v6_entry_def mac_entry_def)

lemma tree_ok_parts:
  assumes "tree_ok t"
  shows "keyed ip_entry_key v4_entry (t_ipv4 t)" "keyed ip_entry_key v6_entry (t_ipv6 t)"
    "keyed mac_entry_key mac_entry (t_mac t)"
  using assms by (simp_all add: tree_ok_def)

lemma tree_insert_ok:
  assumes t: "tree_ok t" and s: "subnet_ok s"
  shows "tree_ok (tree_insert s ow t) \<and> entries (tree_insert s ow t) = insert (s, ow) (entries t)"
proof (cases s)
  case (V4 a p w)
  hence "v4_entry (V4 a p w, ow)" using s by (simp add: v4_entry_def)
  from v4set.keyed_insert [OF tree_ok_parts(1) [OF t] this]
  show ?thesis using V4 tree_ok_parts [OF t] by (auto simp: tree_ok_def entries_def)
next
  case (V6 a p w)
  hence "v6_entry (V6 a p w, ow)" using s by (simp add: v6_entry_def)
  from v6set.keyed_insert [OF tree_ok_parts(2) [OF t] this]
  show ?thesis using V6 tree_ok_parts [OF t] by (auto simp: tree_ok_def entries_def)
next
  case (Mac a w)
  hence "mac_entry (Mac a w, ow)" using s by (simp add: mac_entry_def)
  from macset.keyed_insert [OF tree_ok_parts(3) [OF t] this]
  show ?thesis using Mac tree_ok_parts [OF t] by (auto simp: tree_ok_def entries_def mac_entry_key_def)
qed

lemma tree_remove_ok:
  assumes t: "tree_ok t" and s: "subnet_ok s"
  shows "tree_ok (tree_remove s ow t) \<and> entries (tree_remove s ow t) = entries t - {(s, ow)}"
proof (cases s)
  case (V4 a p w)
  hence v: "v4_entry (V4 a p w, ow)" using s by (simp add: v4_entry_def)
  from v4set.keyed_remove [OF tree_ok_parts(1) [OF t] this] entries_family(1) [OF _ v]
  show ?thesis using V4 tree_ok_parts [OF t] v6set.keyed_mem [OF tree_ok_parts(2) [OF t]]
      macset.keyed_mem [OF tree_ok_parts(3) [OF t]]
    by (auto simp: tree_ok_def entries_def v6_entry_def mac_entry_def)
next
  case (V6 a p w)
  hence v: "v6_entry (V6 a p w, ow)" using s by (simp add: v6_entry_def)
  from v6set.keyed_remove [OF tree_ok_parts(2) [OF t] this]
  show ?thesis using V6 tree_ok_parts [OF t] v4set.keyed_mem [OF tree_ok_parts(1) [OF t]]
      macset.keyed_mem [OF tree_ok_parts(3) [OF t]]
    by (auto simp: tree_ok_def entries_def v4_entry_def mac_entry_def)
next
  case (Mac a w)
  hence v: "mac_entry (Mac a w, ow)" using s by (simp add: mac_entry_def)
  from macset.keyed_remove [OF tree_ok_parts(3) [OF t] this]
  show ?thesis using Mac tree_ok_parts [OF t] v4set.keyed_mem [OF tree_ok_parts(1) [OF t]]
      v6set.keyed_mem [OF tree_ok_parts(2) [OF t]]
    by (auto simp: tree_ok_def entries_def v4_entry_def v6_entry_def mac_entry_key_def)
qed

lemma tree_contains_entries:
  assumes t: "tree_ok t" and s: "subnet_ok s"
  shows "tree_contains_key s ow t \<longleftrightarrow> (s, ow) \<in> entries t"
proof (cases s)
  case (V4 a p w)
  hence v: "v4_entry (V4 a p w, ow)" using s by (simp add: v4_entry_def)
  show ?thesis using v4set.keyed_lookup [OF tree_ok_parts(1) [OF t] v] entries_family(1) [OF t v] V4 by simp
next
  case (V6 a p w)
  hence v: "v6_entry (V6 a p w, ow)" using s by (simp add: v6_entry_def)
  show ?thesis using v6set.keyed_lookup [OF tree_ok_parts(2) [OF t] v] entries_family(2) [OF t v] V6 by simp
next
  case (Mac a w)
  hence v: "mac_entry (Mac a w, ow)" using s by (simp add: mac_entry_def)
  show ?thesis using macset.keyed_lookup [OF tree_ok_parts(3) [OF t] v] entries_family(3) [OF t v] Mac
    by (simp add: mac_entry_key_def)
qed

text \<open>
  The table is a set of (subnet, owner) pairs. Adding (owned or broadcast) inserts the pair,
  deleting removes it and tells whether it was there, the exact lookup is membership, and every
  operation keeps the order and the families of the three sets.
\<close>

lemma subnet_tree_refines_set:
  assumes t: "tree_ok t" and s: "subnet_ok s"
  shows "tree_ok (tree_add s owner t) \<and> entries (tree_add s owner t) = insert (s, Some owner) (entries t) \<and>
    tree_ok (add_broadcast s t) \<and> entries (add_broadcast s t) = insert (s, None) (entries t) \<and>
    (tree_contains s owner t \<longleftrightarrow> (s, Some owner) \<in> entries t) \<and>
    (fst (tree_del s owner t) \<longleftrightarrow> (s, Some owner) \<in> entries t) \<and>
    tree_ok (snd (tree_del s owner t)) \<and> entries (snd (tree_del s owner t)) = entries t - {(s, Some owner)}"
  using tree_insert_ok [OF t s] tree_remove_ok [OF t s] tree_contains_entries [OF t s]
  by (simp add: tree_add_def add_broadcast_def tree_contains_def tree_del_def)

definition demo_tree :: subnet_tree where
  "demo_tree = tree_add (V4 [10, 0, 0, 0] 8 10) ''bob'' (tree_add (V4 [10, 1, 0, 0] 16 10) ''alice''
     (add_broadcast (V4 [224, 0, 0, 0] 4 10) tree_new))"

lemma demo_tree_ok: "tree_ok demo_tree"
  using tree_insert_ok tree_ok_new
  by (simp add: demo_tree_def tree_add_def add_broadcast_def i32_range_def del: tree_insert.simps)

section \<open>Longest-prefix match\<close>

text \<open>The addresses a subnet covers.\<close>

definition covers :: "subnet \<Rightarrow> bytes \<Rightarrow> bool" where
  "covers s x \<longleftrightarrow> (\<forall>i < subnet_prefix s. addr_bit (subnet_addr s) i = addr_bit x i)"

lemma matches_v4: "v4_entry (s, ow) \<Longrightarrow> length x = 4 \<Longrightarrow> matches s (V4 x 32 w) True = Some (covers s x)"
  using maskcmp_correct [of _ 4] by (auto simp: v4_entry_def ip_match_def covers_def)

lemma matches_v6: "v6_entry (s, ow) \<Longrightarrow> length x = 16 \<Longrightarrow> matches s (V6 x 128 w) True = Some (covers s x)"
  using maskcmp_correct [of _ 16] by (auto simp: v6_entry_def ip_match_def covers_def)

text \<open>The scan as a search: the first usable hit, or else the last hit.\<close>

lemma lookup_scan_find:
  assumes "\<And>s ow. (s, ow) \<in> set es \<Longrightarrow> matches s q True = Some (hit s)"
  shows "lookup_scan q up last_hit es = Some (case find (\<lambda>(s, ow). hit s \<and> usable up ow) es of
      Some e \<Rightarrow> Some e
    | None \<Rightarrow> (let hs = filter (\<lambda>(s, ow). hit s) es in if hs = [] then last_hit else Some (last hs)))"
  using assms
proof (induction es arbitrary: last_hit)
  case (Cons e es)
  obtain s ow where e: "e = (s, ow)" by (cases e)
  have m: "matches s q True = Some (hit s)" using Cons(2) [of s ow] e by simp
  have IH: "lookup_scan q up l es = Some (case find (\<lambda>(s, ow). hit s \<and> usable up ow) es of
      Some e \<Rightarrow> Some e
    | None \<Rightarrow> (let hs = filter (\<lambda>(s, ow). hit s) es in if hs = [] then l else Some (last hs)))" for l
  proof (rule Cons(1))
    show "matches s q True = Some (hit s)" if "(s, ow) \<in> set es" for s ow using Cons(2) [of s ow] that by simp
  qed
  show ?case using m e IH by (simp add: Let_def split: option.splits)
qed simp

text \<open>
  The contract of a longest-prefix lookup over a set of entries, for one address family.
\<close>

definition lpm_result :: "entry set \<Rightarrow> (string \<Rightarrow> bool) \<Rightarrow> bytes \<Rightarrow> entry option \<Rightarrow> bool" where
  "lpm_result es up x r \<longleftrightarrow> (case r of
     None \<Rightarrow> \<forall>(s, ow) \<in> es. \<not> covers s x
   | Some (s, ow) \<Rightarrow> (s, ow) \<in> es \<and> covers s x \<and>
       (if usable up ow
        then \<forall>(s', ow') \<in> es. covers s' x \<and> usable up ow' \<longrightarrow> ip_entry_key (s, ow) \<le> ip_entry_key (s', ow')
        else \<forall>(s', ow') \<in> es. covers s' x \<longrightarrow> \<not> usable up ow' \<and> ip_entry_key (s', ow') \<le> ip_entry_key (s, ow)))"

lemma sorted_wrt_last: "sorted_wrt R xs \<Longrightarrow> y \<in> set xs \<Longrightarrow> y = last xs \<or> R y (last xs)"
  by (induction xs) auto

lemma scan_lpm:
  assumes m: "\<And>s ow. (s, ow) \<in> set es \<Longrightarrow> matches s q True = Some (covers s x)"
    and srt: "sorted_wrt (\<lambda>a b. ip_entry_key a < ip_entry_key b) es"
  shows "\<exists>r. lookup_scan q up None es = Some r \<and> lpm_result (set es) up x r"
proof (cases "find (\<lambda>(s, ow). covers s x \<and> usable up ow) es")
  case (Some e)
  then obtain i where i: "i < length es" "e = es ! i" "covers (fst e) x" "usable up (snd e)"
    and before: "\<forall>j < i. \<not> (covers (fst (es ! j)) x \<and> usable up (snd (es ! j)))"
    by (auto simp: find_Some_iff split_beta)
  have "ip_entry_key e \<le> ip_entry_key e'" if e': "e' \<in> set es" "covers (fst e') x" "usable up (snd e')" for e'
  proof -
    obtain j where j: "j < length es" "es ! j = e'" using e'(1) by (metis in_set_conv_nth)
    hence "i \<le> j" using before e' by (metis not_less)
    thus ?thesis using srt i(2) j by (cases "i = j") (auto simp: sorted_wrt_iff_nth_less less_imp_le)
  qed
  moreover have "e \<in> set es" using i(1,2) by simp
  ultimately have "lpm_result (set es) up x (Some e)" using i(3,4) by (auto simp: lpm_result_def)
  thus ?thesis using lookup_scan_find [OF m, where up = up and last_hit = None] Some by auto
next
  case None
  hence nu: "\<not> usable up (snd e)" if "e \<in> set es" "covers (fst e) x" for e
    using that by (auto simp: find_None_iff split_beta)
  let ?hs = "filter (\<lambda>(s, ow). covers s x) es"
  have run: "lookup_scan q up None es = Some (if ?hs = [] then None else Some (last ?hs))"
    using lookup_scan_find [OF m, where up = up and last_hit = None] None by (simp add: Let_def)
  show ?thesis
  proof (cases "?hs = []")
    case True
    hence "lpm_result (set es) up x None" by (auto simp: lpm_result_def filter_empty_conv)
    thus ?thesis using run True by auto
  next
    case False
    hence l: "last ?hs \<in> set es" "covers (fst (last ?hs)) x" using last_in_set [OF False] by auto
    have "ip_entry_key e \<le> ip_entry_key (last ?hs)" if "e \<in> set es" "covers (fst e) x" for e
    proof -
      have "e \<in> set ?hs" using that by (simp add: split_beta)
      thus ?thesis using sorted_wrt_last [OF sorted_wrt_filter [OF srt]] by (metis less_imp_le order_refl)
    qed
    hence "lpm_result (set es) up x (Some (last ?hs))" using l nu by (auto simp: lpm_result_def)
    thus ?thesis using run False by auto
  qed
qed


lemma family_entries:
  assumes "tree_ok t"
  shows "{e \<in> entries t. v4_entry e} = set (bt_values (t_ipv4 t))" "{e \<in> entries t. v6_entry e} = set (bt_values (t_ipv6 t))"
  using entries_family(1,2) [OF assms] v4set.keyed_mem [OF tree_ok_parts(1) [OF assms]]
    v6set.keyed_mem [OF tree_ok_parts(2) [OF assms]]
  by blast+

lemma ip_order_le:
  "ip_order a p w ow \<le> ip_order a' p' w' ow' \<Longrightarrow> p' \<le> p \<and> (p' = p \<longrightarrow> a' = a \<longrightarrow> w \<le> w')"
  by (auto simp: ip_order_def less_eq_prod_def)

lemma entry_key_le:
  assumes "ip_entry_key (s, ow) \<le> ip_entry_key (s', ow')" "v4_entry (s, ow) \<and> v4_entry (s', ow') \<or> v6_entry (s, ow) \<and> v6_entry (s', ow')"
  shows "subnet_prefix s' \<le> subnet_prefix s \<and>
    (subnet_prefix s' = subnet_prefix s \<longrightarrow> subnet_addr s' = subnet_addr s \<longrightarrow> subnet_weight s \<le> subnet_weight s')"
  using assms by (auto simp: v4_entry_def v6_entry_def dest: ip_order_le)

text \<open>
  The interface the forwarding decision uses: a lookup in the entries of one family. Its client
  lemmas are proved once and hold for both families.
\<close>

locale lpm_table =
  fixes lookup :: "subnet_tree \<Rightarrow> bytes \<Rightarrow> (string \<Rightarrow> bool) \<Rightarrow> entry option option"
    and family :: "entry \<Rightarrow> bool" and width :: nat
  assumes lookup_lpm: "tree_ok t \<Longrightarrow> length x = width \<Longrightarrow>
      \<exists>r. lookup t x up = Some r \<and> lpm_result {e \<in> entries t. family e} up x r"
    and family_ip: "family e \<Longrightarrow> family e' \<Longrightarrow> v4_entry e \<and> v4_entry e' \<or> v6_entry e \<and> v6_entry e'"
begin

lemma lookup_hit:
  assumes "tree_ok t" "length x = width" "lookup t x up = Some (Some (s, ow))" "usable up ow"
  shows "(s, ow) \<in> entries t" "covers s x"
    "\<And>s' ow'. (s', ow') \<in> entries t \<Longrightarrow> family (s', ow') \<Longrightarrow> covers s' x \<Longrightarrow> usable up ow' \<Longrightarrow>
      subnet_prefix s' \<le> subnet_prefix s \<and>
      (subnet_prefix s' = subnet_prefix s \<longrightarrow> subnet_addr s' = subnet_addr s \<longrightarrow> subnet_weight s \<le> subnet_weight s')"
proof -
  have r: "lpm_result {e \<in> entries t. family e} up x (Some (s, ow))"
    using lookup_lpm [OF assms(1,2), of up] assms(3) by simp
  show "(s, ow) \<in> entries t" "covers s x" using r by (simp_all add: lpm_result_def)
  fix s' ow'
  assume e': "(s', ow') \<in> entries t" "family (s', ow')" "covers s' x" "usable up ow'"
  have "ip_entry_key (s, ow) \<le> ip_entry_key (s', ow')" "family (s, ow)"
    using r e' assms(4) by (auto simp: lpm_result_def)
  thus "subnet_prefix s' \<le> subnet_prefix s \<and>
      (subnet_prefix s' = subnet_prefix s \<longrightarrow> subnet_addr s' = subnet_addr s \<longrightarrow> subnet_weight s \<le> subnet_weight s')"
    using entry_key_le family_ip e'(2) by blast
qed

lemma lookup_unusable:
  assumes "tree_ok t" "length x = width" "lookup t x up = Some (Some (s, ow))" "\<not> usable up ow"
  shows "(s, ow) \<in> entries t" "covers s x"
    "\<And>s' ow'. (s', ow') \<in> entries t \<Longrightarrow> family (s', ow') \<Longrightarrow> covers s' x \<Longrightarrow> \<not> usable up ow'"
  using lookup_lpm [OF assms(1,2), of up] assms(3,4) by (auto simp: lpm_result_def)

lemma lookup_none:
  assumes "tree_ok t" "length x = width" "lookup t x up = Some None"
  shows "(s', ow') \<in> entries t \<Longrightarrow> family (s', ow') \<Longrightarrow> \<not> covers s' x"
  using lookup_lpm [OF assms(1,2), of up] assms(3) by (auto simp: lpm_result_def)

lemma lookup_total: "tree_ok t \<Longrightarrow> length x = width \<Longrightarrow> \<exists>r. lookup t x up = Some r"
  using lookup_lpm by blast

end

interpretation v4tab: lpm_table lookup_ipv4 v4_entry 4
proof unfold_locales
  fix t and x :: bytes and up
  assume t: "tree_ok t" and x: "length x = (4 :: nat)"
  show "\<exists>r. lookup_ipv4 t x up = Some r \<and> lpm_result {e \<in> entries t. v4_entry e} up x r"
    unfolding lookup_ipv4_def family_entries(1) [OF t]
    using v4set.keyed_mem [OF tree_ok_parts(1) [OF t]] matches_v4 [OF _ x]
    by (intro scan_lpm v4set.keyed_sorted [OF tree_ok_parts(1) [OF t]]) blast
qed blast

interpretation v6tab: lpm_table lookup_ipv6 v6_entry 16
proof unfold_locales
  fix t and x :: bytes and up
  assume t: "tree_ok t" and x: "length x = (16 :: nat)"
  show "\<exists>r. lookup_ipv6 t x up = Some r \<and> lpm_result {e \<in> entries t. v6_entry e} up x r"
    unfolding lookup_ipv6_def family_entries(2) [OF t]
    using v6set.keyed_mem [OF tree_ok_parts(2) [OF t]] matches_v6 [OF _ x]
    by (intro scan_lpm v6set.keyed_sorted [OF tree_ok_parts(2) [OF t]]) blast
qed blast

text \<open>
  C25: the IPv4 lookup is longest-prefix match over the reachable owners. It does not panic. A result
  whose owner is reachable (or that is a broadcast entry) covers the address, and no usable entry has
  a longer prefix, or the same subnet with a lower weight. A result whose owner is not reachable means
  that no usable entry covers the address; no result means that none covers it at all.
\<close>

theorem lookup_ipv4_longest:
  assumes "tree_ok t" "length x = 4"
  shows "\<exists>r. lookup_ipv4 t x up = Some r \<and> (case r of
      None \<Rightarrow> \<forall>s ow. (s, ow) \<in> entries t \<longrightarrow> v4_entry (s, ow) \<longrightarrow> \<not> covers s x
    | Some (s, ow) \<Rightarrow> (s, ow) \<in> entries t \<and> covers s x \<and>
        (\<forall>s' ow'. (s', ow') \<in> entries t \<longrightarrow> v4_entry (s', ow') \<longrightarrow> covers s' x \<longrightarrow> usable up ow' \<longrightarrow>
          usable up ow \<and> subnet_prefix s' \<le> subnet_prefix s \<and>
          (subnet_prefix s' = subnet_prefix s \<longrightarrow> subnet_addr s' = subnet_addr s \<longrightarrow>
            subnet_weight s \<le> subnet_weight s')))"
proof -
  obtain r where r: "lookup_ipv4 t x up = Some r" using v4tab.lookup_total [OF assms] by blast
  show ?thesis
  proof (cases r)
    case None
    thus ?thesis using r v4tab.lookup_none [OF assms] by (intro exI [of _ r]) simp
  next
    case (Some e)
    obtain s ow where e: "e = (s, ow)" by (cases e)
    note hit = r [unfolded Some e]
    show ?thesis
    proof (cases "usable up ow")
      case True
      thus ?thesis using r Some e v4tab.lookup_hit [OF assms hit True] by (intro exI [of _ r]) simp
    next
      case False
      thus ?thesis using r Some e v4tab.lookup_unusable [OF assms hit False] by (intro exI [of _ r]) auto
    qed
  qed
qed

theorem lookup_ipv4_longest_witness:
  "tree_ok demo_tree \<and> lookup_ipv4 demo_tree [10, 1, 2, 3] (\<lambda>n. n = ''bob'') = Some (Some (V4 [10, 0, 0, 0] 8 10, Some ''bob'')) \<and>
   covers (V4 [10, 0, 0, 0] 8 10) [10, 1, 2, 3]"
proof -
  have r: "lookup_ipv4 demo_tree [10, 1, 2, 3] (\<lambda>n. n = ''bob'') = Some (Some (V4 [10, 0, 0, 0] 8 10, Some ''bob''))"
    by code_simp
  show ?thesis using lookup_ipv4_longest [OF demo_tree_ok, of "[10, 1, 2, 3]" "\<lambda>n. n = ''bob''"] r demo_tree_ok by simp
qed

end
