(* ===== verification/Route_Decide.thy ===== *)
theory Route_Decide
  imports Subnet_Tree
begin

text \<open>
  The forwarding decision of \<open>tincd/src/route_decide.rs\<close>: the destination is read out of the frame,
  looked up in the routing table, and the result says what the daemon has to do with the packet.
  Decrementing the TTL adjusts the IPv4 header checksum incrementally. \<open>None\<close> is a panic; every index
  into the frame is behind a length check.
\<close>

section \<open>Model\<close>

definition ETHER_SIZE :: nat where "ETHER_SIZE = 14"
definition IP_SIZE :: nat where "IP_SIZE = 20"
definition IP6_SIZE :: nat where "IP6_SIZE = 40"
definition ICMP6_SIZE :: nat where "ICMP6_SIZE = 8"
definition ETH_P_IP :: u16 where "ETH_P_IP = 0x0800"
definition ETH_P_ARP :: u16 where "ETH_P_ARP = 0x0806"
definition ETH_P_IPV6 :: u16 where "ETH_P_IPV6 = 0x86DD"
definition ETH_P_8021Q :: u16 where "ETH_P_8021Q = 0x8100"
definition ICMP_DEST_UNREACH :: u8 where "ICMP_DEST_UNREACH = 3"
definition ICMP_NET_UNKNOWN :: u8 where "ICMP_NET_UNKNOWN = 6"
definition ICMP_NET_UNREACH :: u8 where "ICMP_NET_UNREACH = 0"
definition ICMP_TIME_EXCEEDED :: u8 where "ICMP_TIME_EXCEEDED = 11"
definition ICMP_EXC_TTL :: u8 where "ICMP_EXC_TTL = 0"
definition ICMP6_DST_UNREACH :: u8 where "ICMP6_DST_UNREACH = 1"
definition ICMP6_DST_UNREACH_NOROUTE :: u8 where "ICMP6_DST_UNREACH_NOROUTE = 0"
definition ICMP6_DST_UNREACH_ADDR :: u8 where "ICMP6_DST_UNREACH_ADDR = 3"
definition ICMP6_TIME_EXCEEDED :: u8 where "ICMP6_TIME_EXCEEDED = 3"
definition ICMP6_TIME_EXCEED_TRANSIT :: u8 where "ICMP6_TIME_EXCEED_TRANSIT = 0"
definition ND_NEIGHBOR_SOLICIT :: u8 where "ND_NEIGHBOR_SOLICIT = 135"
definition IPPROTO_ICMP :: u8 where "IPPROTO_ICMP = 1"
definition IPPROTO_ICMPV6 :: u8 where "IPPROTO_ICMPV6 = 58"

datatype 't route_result = Forward 't | Unreachable u8 u8 | Unsupported string | NeighborSolicit
  | Broadcast | TooShort nat nat

definition route_ipv4 :: "bytes \<Rightarrow> subnet_tree \<Rightarrow> (string \<Rightarrow> 't option) \<Rightarrow> 't route_result option" where
  "route_ipv4 data subnets resolve =
     (let need = ETHER_SIZE + IP_SIZE in
      if length data < need then Some (TooShort need (length data))
      else let dst_off = ETHER_SIZE + 16;
               dest = [data ! dst_off, data ! (dst_off + 1), data ! (dst_off + 2), data ! (dst_off + 3)]
      in do {
        r \<leftarrow> lookup_ipv4 subnets dest (\<lambda>n. resolve n \<noteq> None);
        Some (case r of
          None \<Rightarrow> Unreachable ICMP_DEST_UNREACH ICMP_NET_UNKNOWN
        | Some (_, None) \<Rightarrow> Broadcast
        | Some (_, Some owner) \<Rightarrow> (case resolve owner of
            None \<Rightarrow> Unreachable ICMP_DEST_UNREACH ICMP_NET_UNREACH
          | Some to \<Rightarrow> Forward to)) })"

definition route_ipv6 :: "bytes \<Rightarrow> subnet_tree \<Rightarrow> (string \<Rightarrow> 't option) \<Rightarrow> 't route_result option" where
  "route_ipv6 data subnets resolve =
     (let need = ETHER_SIZE + IP6_SIZE in
      if length data < need then Some (TooShort need (length data))
      else if data ! 20 = IPPROTO_ICMPV6 \<and> length data \<ge> ETHER_SIZE + IP6_SIZE + ICMP6_SIZE \<and>
              data ! 54 = ND_NEIGHBOR_SOLICIT then Some NeighborSolicit
      else let dst_off = ETHER_SIZE + 24;
               dest = take 16 (drop dst_off data)
      in do {
        r \<leftarrow> lookup_ipv6 subnets dest (\<lambda>n. resolve n \<noteq> None);
        Some (case r of
          None \<Rightarrow> Unreachable ICMP6_DST_UNREACH ICMP6_DST_UNREACH_ADDR
        | Some (_, None) \<Rightarrow> Broadcast
        | Some (_, Some owner) \<Rightarrow> (case resolve owner of
            None \<Rightarrow> Unreachable ICMP6_DST_UNREACH ICMP6_DST_UNREACH_NOROUTE
          | Some to \<Rightarrow> Forward to)) })"

definition route_frame :: "bytes \<Rightarrow> subnet_tree \<Rightarrow> (string \<Rightarrow> 't option) \<Rightarrow> 't route_result option" where
  "route_frame data subnets resolve =
     (if length data < ETHER_SIZE then Some (TooShort ETHER_SIZE (length data))
      else let ethertype = be_u16 (data ! 12) (data ! 13) in
        if ethertype = ETH_P_IP then route_ipv4 data subnets resolve
        else if ethertype = ETH_P_IPV6 then route_ipv6 data subnets resolve
        else if ethertype = ETH_P_ARP then Some (Unsupported ''arp: chunk 9'')
        else if ethertype = ETH_P_8021Q then Some (Unsupported ''vlan: chunk 9'')
        else Some (Unsupported ''unknown ethertype''))"

datatype ttl_result = Decremented | DropSilent | SendIcmp u8 u8 | TtlTooShort

text \<open>The fold of the checksum accumulator, a \<open>u32\<close> that starts below \<open>3 * 2^16\<close> and only shrinks.\<close>

function csum_fold :: "nat \<Rightarrow> nat" where
  "csum_fold c = (if c div 65536 \<noteq> 0 then csum_fold (c mod 65536 + c div 65536) else c)"
  by pat_completeness auto

termination
proof (relation "measure id")
  fix c :: nat
  assume "c div 65536 \<noteq> 0"
  hence "c mod 65536 + c div 65536 < c" using mult_div_mod_eq [of 65536 c] by linarith
  thus "(c mod 65536 + c div 65536, c) \<in> measure id" by simp
qed simp

declare csum_fold.simps [simp del]

text \<open>The IPv4 part: the TTL at \<open>off + 8\<close>, the checksum at \<open>off + 10\<close> and \<open>off + 11\<close>.\<close>

definition ttl_v4 :: "bytes \<Rightarrow> nat \<Rightarrow> ttl_result \<times> bytes" where
  "ttl_v4 data off =
     (if length data < off + IP_SIZE then (TtlTooShort, data)
      else if data ! (off + 8) \<le> 1 then
        (if data ! (off + 11) \<noteq> IPPROTO_ICMP \<or>
            \<not> (off + 32 < length data \<and> data ! (off + 32) = ICMP_TIME_EXCEEDED)
         then (SendIcmp ICMP_TIME_EXCEEDED ICMP_EXC_TTL, data) else (DropSilent, data))
      else let
        old = be_u16 (data ! (off + 8)) (data ! (off + 9));
        data = data[off + 8 := data ! (off + 8) - 1];
        new = be_u16 (data ! (off + 8)) (data ! (off + 9));
        csum = unat (be_u16 (data ! (off + 10)) (data ! (off + 11))) + unat old + unat (NOT new);
        csum = csum_fold csum
      in (Decremented, data[off + 10 := of_nat (csum div 256), off + 11 := of_nat csum]))"

definition ttl_v6 :: "bytes \<Rightarrow> nat \<Rightarrow> ttl_result \<times> bytes" where
  "ttl_v6 data off =
     (if length data < off + IP6_SIZE then (TtlTooShort, data)
      else if data ! (off + 7) \<le> 1 then
        (if data ! (off + 6) \<noteq> IPPROTO_ICMPV6 \<or>
            \<not> (off + 40 < length data \<and> data ! (off + 40) = ICMP6_TIME_EXCEEDED)
         then (SendIcmp ICMP6_TIME_EXCEEDED ICMP6_TIME_EXCEED_TRANSIT, data) else (DropSilent, data))
      else (Decremented, data[off + 7 := data ! (off + 7) - 1]))"

definition decrement_ttl :: "bytes \<Rightarrow> ttl_result \<times> bytes" where
  "decrement_ttl data =
     (if length data < ETHER_SIZE then (TtlTooShort, data)
      else let ethertype = be_u16 (data ! 12) (data ! 13) in
      if ethertype = ETH_P_8021Q \<and> length data < ETHER_SIZE + 4 then (TtlTooShort, data)
      else let
        ethlen = (if ethertype = ETH_P_8021Q then ETHER_SIZE + 4 else ETHER_SIZE);
        ethertype = (if ethertype = ETH_P_8021Q then be_u16 (data ! 16) (data ! 17) else ethertype)
      in if ethertype = ETH_P_IP then ttl_v4 data ethlen
         else if ethertype = ETH_P_IPV6 then ttl_v6 data ethlen
         else (Decremented, data))"

definition extract_tos :: "bytes \<Rightarrow> u8 option" where
  "extract_tos data =
     (if length data < ETHER_SIZE then None
      else let ethertype = be_u16 (data ! 12) (data ! 13) in
        if ethertype = ETH_P_IP \<and> length data \<ge> ETHER_SIZE + IP_SIZE then Some (data ! 15)
        else if ethertype = ETH_P_IPV6 \<and> length data \<ge> ETHER_SIZE + IP6_SIZE
        then Some (push_bit 4 (data ! 14 AND 0x0f) OR drop_bit 4 (data ! 15))
        else None)"

section \<open>The decision is longest-prefix routing\<close>

definition longest :: "subnet_tree \<Rightarrow> (entry \<Rightarrow> bool) \<Rightarrow> (string \<Rightarrow> bool) \<Rightarrow> bytes \<Rightarrow> subnet \<Rightarrow> bool" where
  "longest t family up x s \<longleftrightarrow> covers s x \<and> (\<forall>s' ow'. (s', ow') \<in> entries t \<longrightarrow> family (s', ow') \<longrightarrow>
     covers s' x \<longrightarrow> usable up ow' \<longrightarrow> subnet_prefix s' \<le> subnet_prefix s)"

text \<open>What each outcome of a decision means for the destination \<open>x\<close>.\<close>

fun decision_ok :: "subnet_tree \<Rightarrow> (entry \<Rightarrow> bool) \<Rightarrow> (string \<Rightarrow> 't option) \<Rightarrow> bytes \<Rightarrow> u8 \<times> u8 \<Rightarrow> u8 \<times> u8 \<Rightarrow>
    't route_result \<Rightarrow> bool" where
  "decision_ok t family resolve x unknown unreach (Forward to) \<longleftrightarrow>
     (\<exists>s n. (s, Some n) \<in> entries t \<and> resolve n = Some to \<and> longest t family (\<lambda>n. resolve n \<noteq> None) x s)"
| "decision_ok t family resolve x unknown unreach Broadcast \<longleftrightarrow>
     (\<exists>s. (s, None) \<in> entries t \<and> longest t family (\<lambda>n. resolve n \<noteq> None) x s)"
| "decision_ok t family resolve x unknown unreach (Unreachable ty code) \<longleftrightarrow>
     (ty, code) = unknown \<and> (\<forall>s ow. (s, ow) \<in> entries t \<longrightarrow> family (s, ow) \<longrightarrow> \<not> covers s x) \<or>
     (ty, code) = unreach \<and> (\<exists>s n. (s, Some n) \<in> entries t \<and> covers s x) \<and>
       (\<forall>s ow. (s, ow) \<in> entries t \<longrightarrow> family (s, ow) \<longrightarrow> covers s x \<longrightarrow> (\<exists>n. ow = Some n \<and> resolve n = None))"
| "decision_ok t family resolve x unknown unreach _ \<longleftrightarrow> False"

text \<open>Both routers make the same use of their table.\<close>

definition decide :: "(string \<Rightarrow> 't option) \<Rightarrow> u8 \<times> u8 \<Rightarrow> u8 \<times> u8 \<Rightarrow> entry option \<Rightarrow> 't route_result" where
  "decide resolve unknown unreach r = (case r of
     None \<Rightarrow> Unreachable (fst unknown) (snd unknown)
   | Some (_, None) \<Rightarrow> Broadcast
   | Some (_, Some owner) \<Rightarrow> (case resolve owner of
       None \<Rightarrow> Unreachable (fst unreach) (snd unreach) | Some to \<Rightarrow> Forward to))"

context lpm_table
begin

lemma decide_ok:
  assumes t: "tree_ok t" and x: "length x = width"
  shows "\<exists>r. lookup t x (\<lambda>n. resolve n \<noteq> None) = Some r \<and>
    decision_ok t family resolve x unknown unreach (decide resolve unknown unreach r)"
proof -
  let ?up = "\<lambda>n. resolve n \<noteq> None"
  obtain r where r: "lookup t x ?up = Some r" using lookup_total [OF t x] by blast
  show ?thesis
  proof (cases r)
    case None
    thus ?thesis using r lookup_none [OF t x] by (auto simp: decide_def)
  next
    case (Some e)
    obtain s ow where e: "e = (s, ow)" by (cases e)
    note hit = r [unfolded Some e]
    show ?thesis
    proof (cases "usable ?up ow")
      case True
      note h = lookup_hit [OF t x hit True]
      have l: "longest t family ?up x s" using h(2,3) by (simp add: longest_def)
      show ?thesis
      proof (cases ow)
        case None
        thus ?thesis using hit h(1) l by (auto simp: decide_def)
      next
        case (Some n)
        then obtain to where "resolve n = Some to" using True by (auto simp: usable_def)
        thus ?thesis using hit h(1) l Some by (auto simp: decide_def)
      qed
    next
      case False
      then obtain n where n: "ow = Some n" "resolve n = None" by (auto simp: usable_def split: option.splits)
      note h = lookup_unusable [OF t x hit False]
      have "\<exists>n. ow' = Some n \<and> resolve n = None" if "(s', ow') \<in> entries t" "family (s', ow')" "covers s' x" for s' ow'
        using h(3) [OF that] by (auto simp: usable_def split: option.splits)
      thus ?thesis using hit h(1,2) n by (auto simp: decide_def)
    qed
  qed
qed

end

lemma route_ipv4_decide:
  assumes len: "length data \<ge> 34"
  shows "route_ipv4 data t resolve = map_option (decide resolve (3, 6) (3, 0))
    (lookup_ipv4 t (take 4 (drop 30 data)) (\<lambda>n. resolve n \<noteq> None))"
proof -
  have x: "[data ! 30, data ! 31, data ! 32, data ! 33] = take 4 (drop 30 data)"
    using len by (intro nth_equalityI) (auto simp: less_Suc_eq numeral_eq_Suc)
  show ?thesis unfolding x [symmetric] using len
    by (cases "lookup_ipv4 t [data ! 30, data ! 31, data ! 32, data ! 33] (\<lambda>n. resolve n \<noteq> None)")
      (simp_all add: route_ipv4_def Let_def decide_def ETHER_SIZE_def IP_SIZE_def ICMP_DEST_UNREACH_def
        ICMP_NET_UNKNOWN_def ICMP_NET_UNREACH_def split: option.splits)
qed

definition is_solicit :: "bytes \<Rightarrow> bool" where
  "is_solicit data \<longleftrightarrow> length data \<ge> 62 \<and> data ! 20 = 58 \<and> data ! 54 = 135"

lemma route_ipv6_decide:
  assumes len: "length data \<ge> 54"
  shows "route_ipv6 data t resolve = (if is_solicit data then Some NeighborSolicit
    else map_option (decide resolve (1, 3) (1, 0)) (lookup_ipv6 t (take 16 (drop 38 data)) (\<lambda>n. resolve n \<noteq> None)))"
  using len by (cases "lookup_ipv6 t (take 16 (drop 38 data)) (\<lambda>n. resolve n \<noteq> None)")
    (auto simp: route_ipv6_def Let_def decide_def ETHER_SIZE_def IP6_SIZE_def ICMP6_SIZE_def ICMP6_DST_UNREACH_def
      ICMP6_DST_UNREACH_ADDR_def ICMP6_DST_UNREACH_NOROUTE_def IPPROTO_ICMPV6_def ND_NEIGHBOR_SOLICIT_def is_solicit_def
      split: option.splits)

text \<open>
  The IPv4 decision. On a frame with a complete header it does not panic; it forwards only to a
  reachable owner of a subnet that covers the destination, with no longer usable subnet covering it;
  it broadcasts only when the longest is ownerless; it answers \<open>net unknown\<close> only if no subnet covers
  the destination, and \<open>net unreachable\<close> only if some do but none of their owners is reachable.
\<close>

lemma route_ipv4_correct:
  assumes t: "tree_ok t" and len: "length data \<ge> 34"
  shows "\<exists>r. route_ipv4 data t resolve = Some r \<and>
    decision_ok t v4_entry resolve (take 4 (drop 30 data)) (3, 6) (3, 0) r"
proof -
  have "length (take 4 (drop 30 data)) = 4" using len by simp
  from v4tab.decide_ok [OF t this, of resolve "(3, 6)" "(3, 0)"]
  show ?thesis unfolding route_ipv4_decide [OF len] by fastforce
qed

definition demo_frame :: bytes where
  "demo_frame = replicate 12 0 @ [8, 0] @ [0x45, 0, 0, 20, 0, 0, 0, 0, 64, 17, 0, 0] @ [10, 0, 0, 9] @ [10, 1, 2, 3]"

text \<open>
  The IPv6 decision does the same, after diverting neighbour solicitations (an ICMPv6 payload of
  type 135 with a complete header).
\<close>

lemma route_ipv6_correct:
  assumes t: "tree_ok t" and len: "length data \<ge> 54"
  shows "\<exists>r. route_ipv6 data t resolve = Some r \<and>
    (if is_solicit data then r = NeighborSolicit
     else decision_ok t v6_entry resolve (take 16 (drop 38 data)) (1, 3) (1, 0) r)"
proof -
  have "length (take 16 (drop 38 data)) = 16" using len by simp
  from v6tab.decide_ok [OF t this, of resolve "(1, 3)" "(1, 0)"]
  show ?thesis unfolding route_ipv6_decide [OF len] by fastforce
qed

section \<open>The checksum stays valid\<close>

text \<open>The sum of the ten 16-bit words of an IPv4 header at \<open>off\<close>; it is valid when it is a multiple of
  \<open>2^16 - 1\<close>.\<close>

definition word_at :: "bytes \<Rightarrow> nat \<Rightarrow> nat" where
  "word_at data i = 256 * unat (data ! i) + unat (data ! (i + 1))"

definition header_sum :: "bytes \<Rightarrow> nat \<Rightarrow> nat" where
  "header_sum data off = (\<Sum>k < 10. word_at data (off + 2 * k))"

lemma csum_fold_cong: "csum_fold c mod 65535 = c mod 65535 \<and> csum_fold c < 65536"
proof (induction c rule: csum_fold.induct)
  case (1 c)
  show ?case
  proof (cases "c div 65536 = 0")
    case True
    thus ?thesis by (subst (1 2) csum_fold.simps) (simp add: div_eq_0_iff)
  next
    case False
    have "c = (c mod 65536 + c div 65536) + 65535 * (c div 65536)" using mult_div_mod_eq [of 65536 c] by linarith
    hence "c mod 65535 = (c mod 65536 + c div 65536) mod 65535" by (metis mod_mult_self2)
    thus ?thesis using 1 [OF False] False by (subst (1 2) csum_fold.simps) simp
  qed
qed


lemma unat_not_u16: "unat (NOT (x :: u16)) + unat x = 65535"
proof -
  have "NOT x + x = - 1" by (simp add: not_eq_complement)
  hence "(unat (NOT x) + unat x) mod 65536 = 65535"
    using unat_word_ariths(1) [of "NOT x" x] by (simp add: unsigned_minus_1_eq_mask mask_eq_exp_minus_1)
  moreover have "unat (NOT x) < 65536" "unat x < 65536"
    using unsigned_less [of x, where 'a = nat] unsigned_less [of "NOT x", where 'a = nat] by simp_all
  ultimately show ?thesis by (simp add: mod_if split: if_splits)
qed

lemma unat_byte: "unat (of_nat n :: u8) = n mod 256"
  by (simp add: unsigned_of_nat take_bit_eq_mod)

lemma header_sum_eq:
  "header_sum data off = word_at data off + word_at data (off + 2) + word_at data (off + 4) + word_at data (off + 6) +
     word_at data (off + 8) + word_at data (off + 10) + word_at data (off + 12) + word_at data (off + 14) +
     word_at data (off + 16) + word_at data (off + 18)"
  by (simp add: header_sum_def numeral_eq_Suc add_ac)

lemma word_at_offset:
  "word_at data (off + 8) = 256 * unat (data ! (off + 8)) + unat (data ! (off + 9))"
  "word_at data (off + 10) = 256 * unat (data ! (off + 10)) + unat (data ! (off + 11))"
proof -
  have "off + 8 + 1 = off + 9" "off + 10 + 1 = off + 11" by simp_all
  thus "word_at data (off + 8) = 256 * unat (data ! (off + 8)) + unat (data ! (off + 9))"
    "word_at data (off + 10) = 256 * unat (data ! (off + 10)) + unat (data ! (off + 11))"
    unfolding word_at_def by (simp_all only:)
qed

lemma ttl_v4_decrements:
  assumes len: "off + 20 \<le> length data" and ttl: "\<not> data ! (off + 8) \<le> 1"
  obtains data' where "ttl_v4 data off = (Decremented, data')" "length data' = length data"
    "data' ! (off + 8) = data ! (off + 8) - 1" "\<And>i. i \<noteq> off + 8 \<Longrightarrow> i \<noteq> off + 10 \<Longrightarrow> i \<noteq> off + 11 \<Longrightarrow> data' ! i = data ! i"
    "header_sum data' off mod 65535 = header_sum data off mod 65535"
proof -
  define old where "old = be_u16 (data ! (off + 8)) (data ! (off + 9))"
  define new where "new = be_u16 (data ! (off + 8) - 1) (data ! (off + 9))"
  define hc where "hc = word_at data (off + 10)"
  define c where "c = csum_fold (hc + unat old + unat (NOT new))"
  define data' where "data' = data[off + 8 := data ! (off + 8) - 1, off + 10 := of_nat (c div 256), off + 11 := of_nat c]"
  have c: "c mod 65535 = (hc + unat old + unat (NOT new)) mod 65535" "c < 65536"
    using csum_fold_cong by (simp_all add: c_def)
  have run: "ttl_v4 data off = (Decremented, data')"
    using len ttl by (simp add: ttl_v4_def Let_def IP_SIZE_def data'_def c_def hc_def old_def new_def word_at_offset unat_be_u16)
  have w: "word_at data' (off + 8) = unat new" "word_at data (off + 8) = unat old" "word_at data (off + 10) = hc"
    using len by (simp_all add: word_at_offset data'_def new_def old_def hc_def unat_be_u16)
  have "256 * (c div 256 mod 256) + c mod 256 = c" using c(2) by simp
  hence w10: "word_at data' (off + 10) = c" using len by (simp add: word_at_offset data'_def unat_byte)
  have rest: "word_at data' (off + k) = word_at data (off + k)" if "k \<in> {0, 2, 4, 6, 12, 14, 16, 18}" for k
    using that by (auto simp: word_at_def data'_def)
  define R where "R = word_at data off + word_at data (off + 2) + word_at data (off + 4) + word_at data (off + 6) +
    word_at data (off + 12) + word_at data (off + 14) + word_at data (off + 16) + word_at data (off + 18)"
  have S: "header_sum data off = R + unat old + hc" "header_sum data' off = R + unat new + c"
    using rest [of 0] rest [of 2] rest [of 4] rest [of 6] rest [of 12] rest [of 14] rest [of 16] rest [of 18] w w10
    by (simp_all add: header_sum_eq R_def)
  have "(R + unat new + c) mod 65535 = (R + unat new + (hc + unat old + unat (NOT new))) mod 65535"
    using c(1) by (metis mod_add_right_eq)
  also have "\<dots> = (R + unat old + hc + 65535) mod 65535"
    using unat_not_u16 [of new] by (simp add: add_ac)
  finally have "header_sum data' off mod 65535 = header_sum data off mod 65535" unfolding S by simp
  moreover have "data' ! i = data ! i" if "i \<noteq> off + 8" "i \<noteq> off + 10" "i \<noteq> off + 11" for i
    using that by (simp add: data'_def)
  moreover have "data' ! (off + 8) = data ! (off + 8) - 1" using len by (simp add: data'_def)
  ultimately show thesis using run by (intro that [of data']) (simp_all add: data'_def)
qed

text \<open>
  C26: decrementing the TTL of an IPv4 frame (with or without a VLAN tag) lowers the TTL by one,
  changes only the TTL and checksum bytes, and keeps the header checksum valid: the sum of the header
  words stays the same modulo \<open>2^16 - 1\<close>. A frame whose TTL is used up is never changed.
\<close>

theorem decrement_ttl_checksum:
  assumes "length data \<ge> 18" "off = (if be_u16 (data ! 12) (data ! 13) = ETH_P_8021Q then 18 else 14)"
    "be_u16 (data ! (off - 2)) (data ! (off - 1)) = ETH_P_IP" "off + 20 \<le> length data"
  shows "if data ! (off + 8) \<le> 1 then snd (decrement_ttl data) = data \<and> fst (decrement_ttl data) \<noteq> Decremented
    else fst (decrement_ttl data) = Decremented \<and> length (snd (decrement_ttl data)) = length data \<and>
      snd (decrement_ttl data) ! (off + 8) = data ! (off + 8) - 1 \<and>
      (\<forall>i. i \<noteq> off + 8 \<longrightarrow> i \<noteq> off + 10 \<longrightarrow> i \<noteq> off + 11 \<longrightarrow> snd (decrement_ttl data) ! i = data ! i) \<and>
      header_sum (snd (decrement_ttl data)) off mod 65535 = header_sum data off mod 65535"
proof -
  have d: "decrement_ttl data = ttl_v4 data off"
    using assms by (auto simp: decrement_ttl_def Let_def ETHER_SIZE_def ETH_P_IP_def ETH_P_IPV6_def ETH_P_8021Q_def split: if_splits)
  show ?thesis
  proof (cases "data ! (off + 8) \<le> 1")
    case True
    thus ?thesis using assms(4) by (simp add: d ttl_v4_def IP_SIZE_def)
  next
    case False
    from ttl_v4_decrements [OF assms(4) False] show ?thesis using False unfolding d by (metis fst_conv snd_conv)
  qed
qed

theorem decrement_ttl_checksum_witness:
  "fst (decrement_ttl demo_frame) = Decremented \<and> snd (decrement_ttl demo_frame) ! 22 = 63 \<and>
   header_sum (snd (decrement_ttl demo_frame)) 14 mod 65535 = header_sum demo_frame 14 mod 65535"
proof -
  have "length demo_frame \<ge> 18" "14 = (if be_u16 (demo_frame ! 12) (demo_frame ! 13) = ETH_P_8021Q then 18 else (14 :: nat))"
    "be_u16 (demo_frame ! (14 - 2)) (demo_frame ! (14 - 1)) = ETH_P_IP" "14 + 20 \<le> length demo_frame"
    "\<not> demo_frame ! (14 + 8) \<le> 1" "demo_frame ! (14 + 8) - 1 = 63" by code_simp+
  thus ?thesis using decrement_ttl_checksum [of demo_frame 14] by simp
qed

end
