(* ===== verification/Packets.thy ===== *)
theory Packets
  imports Route_Decide
begin

text \<open>
  The packet headers and the checksum of \<open>tincd/src/packet.rs\<close>. A multi-byte field is its bytes as they
  sit in memory, so that the getters and setters are the byte swaps of the code. The checksum loads
  words in the byte order of the host, which is the parameter \<open>le\<close> (true: little endian). The lemmas
  show when the checksum that is stored makes the sum over the wire bytes come out right.
\<close>

section \<open>The checksum\<close>

type_synonym raw16 = "u8 \<times> u8"
type_synonym raw32 = "u8 \<times> u8 \<times> u8 \<times> u8"

definition to_be16 :: "u16 \<Rightarrow> raw16" where
  "to_be16 w = (ucast (drop_bit 8 w), ucast w)"

definition from_be16 :: "raw16 \<Rightarrow> u16" where
  "from_be16 r = be_u16 (fst r) (snd r)"

definition to_be32 :: "u32 \<Rightarrow> raw32" where
  "to_be32 w = (ucast (drop_bit 24 w), ucast (drop_bit 16 w), ucast (drop_bit 8 w), ucast w)"

definition to_ne16 :: "bool \<Rightarrow> u16 \<Rightarrow> raw16" where
  "to_ne16 le w = (if le then (ucast w, ucast (drop_bit 8 w)) else to_be16 w)"

definition from_ne16 :: "bool \<Rightarrow> u8 \<Rightarrow> u8 \<Rightarrow> u16" where
  "from_ne16 le a b = (if le then be_u16 b a else be_u16 a b)"

fun ne_sum :: "bool \<Rightarrow> bytes \<Rightarrow> nat" where
  "ne_sum le (a # b # p) = unat (from_ne16 le a b) + ne_sum le p"
| "ne_sum le [a] = unat a"
| "ne_sum le [] = 0"

definition inet_checksum :: "bool \<Rightarrow> bytes \<Rightarrow> u16 \<Rightarrow> u16" where
  "inet_checksum le data prevsum =
     (let checksum = (unat (prevsum XOR 0xFFFF) + ne_sum le data) mod 2 ^ 32
      in NOT (of_nat (csum_fold checksum)))"

section \<open>Headers\<close>

record ipv4_hdr =
  ip_vhl :: u8
  ip_tos :: u8
  ip_len :: raw16
  ip_id :: raw16
  ip_off :: raw16
  ip_ttl :: u8
  ip_p :: u8
  ip_sum :: raw16
  ip_src :: bytes
  ip_dst :: bytes

definition raw16_bytes :: "raw16 \<Rightarrow> bytes" where
  "raw16_bytes r = [fst r, snd r]"

fun raw32_bytes :: "raw32 \<Rightarrow> bytes" where
  "raw32_bytes (a, b, c, d) = [a, b, c, d]"

definition ipv4_bytes :: "ipv4_hdr \<Rightarrow> bytes" where
  "ipv4_bytes h = [ip_vhl h, ip_tos h] @ raw16_bytes (ip_len h) @ raw16_bytes (ip_id h) @ raw16_bytes (ip_off h) @
     [ip_ttl h, ip_p h] @ raw16_bytes (ip_sum h) @ ip_src h @ ip_dst h"

definition ipv4_read :: "bytes \<Rightarrow> ipv4_hdr" where
  "ipv4_read b = \<lparr>ip_vhl = b ! 0, ip_tos = b ! 1, ip_len = (b ! 2, b ! 3), ip_id = (b ! 4, b ! 5), ip_off = (b ! 6, b ! 7),
     ip_ttl = b ! 8, ip_p = b ! 9, ip_sum = (b ! 10, b ! 11), ip_src = take 4 (drop 12 b), ip_dst = take 4 (drop 16 b)\<rparr>"

definition ipv4_default :: ipv4_hdr where
  "ipv4_default = \<lparr>ip_vhl = 0, ip_tos = 0, ip_len = (0, 0), ip_id = (0, 0), ip_off = (0, 0), ip_ttl = 0, ip_p = 0,
     ip_sum = (0, 0), ip_src = replicate 4 0, ip_dst = replicate 4 0\<rparr>"

definition IP_OFFMASK :: u16 where "IP_OFFMASK = 0x1fff"
definition IP_MF :: u16 where "IP_MF = 0x2000"

definition ihl :: "ipv4_hdr \<Rightarrow> u8" where
  "ihl h = ip_vhl h AND 0x0F"

definition set_vhl :: "u8 \<Rightarrow> u8 \<Rightarrow> ipv4_hdr \<Rightarrow> ipv4_hdr" where
  "set_vhl version hl h = h\<lparr>ip_vhl := push_bit 4 version OR (hl AND 0x0F)\<rparr>"

definition total_len :: "ipv4_hdr \<Rightarrow> u16" where
  "total_len h = from_be16 (ip_len h)"

definition set_total_len :: "u16 \<Rightarrow> ipv4_hdr \<Rightarrow> ipv4_hdr" where
  "set_total_len v h = h\<lparr>ip_len := to_be16 v\<rparr>"

definition get_off :: "ipv4_hdr \<Rightarrow> u16" where
  "get_off h = from_be16 (ip_off h)"

definition set_off :: "u16 \<Rightarrow> ipv4_hdr \<Rightarrow> ipv4_hdr" where
  "set_off v h = h\<lparr>ip_off := to_be16 v\<rparr>"

definition set_id :: "u16 \<Rightarrow> ipv4_hdr \<Rightarrow> ipv4_hdr" where
  "set_id v h = h\<lparr>ip_id := to_be16 v\<rparr>"

record icmp_hdr =
  icmp_type :: u8
  icmp_code :: u8
  icmp_cksum :: raw16
  icmp_void :: raw16
  icmp_nextmtu :: raw16

definition icmp_bytes :: "icmp_hdr \<Rightarrow> bytes" where
  "icmp_bytes h = [icmp_type h, icmp_code h] @ raw16_bytes (icmp_cksum h) @ raw16_bytes (icmp_void h) @ raw16_bytes (icmp_nextmtu h)"

definition icmp_default :: icmp_hdr where
  "icmp_default = \<lparr>icmp_type = 0, icmp_code = 0, icmp_cksum = (0, 0), icmp_void = (0, 0), icmp_nextmtu = (0, 0)\<rparr>"

definition set_nextmtu :: "u16 \<Rightarrow> icmp_hdr \<Rightarrow> icmp_hdr" where
  "set_nextmtu v h = h\<lparr>icmp_nextmtu := to_be16 v\<rparr>"

record ipv6_hdr =
  ip6_flow :: raw32
  ip6_plen :: raw16
  ip6_nxt :: u8
  ip6_hlim :: u8
  ip6_src :: bytes
  ip6_dst :: bytes

definition ipv6_bytes :: "ipv6_hdr \<Rightarrow> bytes" where
  "ipv6_bytes h = raw32_bytes (ip6_flow h) @ raw16_bytes (ip6_plen h) @ [ip6_nxt h, ip6_hlim h] @ ip6_src h @ ip6_dst h"

definition ipv6_read :: "bytes \<Rightarrow> ipv6_hdr" where
  "ipv6_read b = \<lparr>ip6_flow = (b ! 0, b ! 1, b ! 2, b ! 3), ip6_plen = (b ! 4, b ! 5), ip6_nxt = b ! 6, ip6_hlim = b ! 7,
     ip6_src = take 16 (drop 8 b), ip6_dst = take 16 (drop 24 b)\<rparr>"

definition ipv6_default :: ipv6_hdr where
  "ipv6_default = \<lparr>ip6_flow = (0, 0, 0, 0), ip6_plen = (0, 0), ip6_nxt = 0, ip6_hlim = 0, ip6_src = replicate 16 0,
     ip6_dst = replicate 16 0\<rparr>"

definition set_flow :: "u32 \<Rightarrow> ipv6_hdr \<Rightarrow> ipv6_hdr" where
  "set_flow v h = h\<lparr>ip6_flow := to_be32 v\<rparr>"

definition set_plen :: "u16 \<Rightarrow> ipv6_hdr \<Rightarrow> ipv6_hdr" where
  "set_plen v h = h\<lparr>ip6_plen := to_be16 v\<rparr>"

record icmp6_hdr =
  icmp6_type :: u8
  icmp6_code :: u8
  icmp6_cksum :: raw16
  icmp6_data32 :: raw32

definition icmp6_bytes :: "icmp6_hdr \<Rightarrow> bytes" where
  "icmp6_bytes h = [icmp6_type h, icmp6_code h] @ raw16_bytes (icmp6_cksum h) @ raw32_bytes (icmp6_data32 h)"

definition icmp6_default :: icmp6_hdr where
  "icmp6_default = \<lparr>icmp6_type = 0, icmp6_code = 0, icmp6_cksum = (0, 0), icmp6_data32 = (0, 0, 0, 0)\<rparr>"

definition set_mtu :: "u32 \<Rightarrow> icmp6_hdr \<Rightarrow> icmp6_hdr" where
  "set_mtu v h = h\<lparr>icmp6_data32 := to_be32 v\<rparr>"

record arp_hdr =
  ar_hrd :: raw16
  ar_pro :: raw16
  ar_hln :: u8
  ar_pln :: u8
  ar_op :: raw16

record ether_arp =
  ea_hdr :: arp_hdr
  arp_sha :: bytes
  arp_spa :: bytes
  arp_tha :: bytes
  arp_tpa :: bytes

definition ARPOP_REQUEST :: u16 where "ARPOP_REQUEST = 1"
definition ARPOP_REPLY :: u16 where "ARPOP_REPLY = 2"
definition ARPHRD_ETHER :: u16 where "ARPHRD_ETHER = 1"

definition ether_arp_read :: "bytes \<Rightarrow> ether_arp" where
  "ether_arp_read b =
     \<lparr>ea_hdr = \<lparr>ar_hrd = (b ! 0, b ! 1), ar_pro = (b ! 2, b ! 3), ar_hln = b ! 4, ar_pln = b ! 5, ar_op = (b ! 6, b ! 7)\<rparr>,
      arp_sha = take 6 (drop 8 b), arp_spa = take 4 (drop 14 b), arp_tha = take 6 (drop 18 b), arp_tpa = take 4 (drop 24 b)\<rparr>"

definition ether_arp_bytes :: "ether_arp \<Rightarrow> bytes" where
  "ether_arp_bytes a =
     (let h = ea_hdr a in raw16_bytes (ar_hrd h) @ raw16_bytes (ar_pro h) @ [ar_hln h, ar_pln h] @ raw16_bytes (ar_op h)) @
     arp_sha a @ arp_spa a @ arp_tha a @ arp_tpa a"

record ipv6_pseudo =
  ps_src :: bytes
  ps_dst :: bytes
  ps_length :: raw32
  ps_next :: raw32

definition ipv6_pseudo_bytes :: "ipv6_pseudo \<Rightarrow> bytes" where
  "ipv6_pseudo_bytes p = ps_src p @ ps_dst p @ raw32_bytes (ps_length p) @ raw32_bytes (ps_next p)"

definition ipv6_pseudo :: "bytes \<Rightarrow> bytes \<Rightarrow> u32 \<Rightarrow> u32 \<Rightarrow> ipv6_pseudo" where
  "ipv6_pseudo s d len nxt = \<lparr>ps_src = s, ps_dst = d, ps_length = to_be32 len, ps_next = to_be32 nxt\<rparr>"

section \<open>The sum on the wire\<close>

text \<open>The sum of the big-endian words, up to end-around carries: a receiver accepts when it is 0 modulo 65535.\<close>

fun words_sum :: "bytes \<Rightarrow> nat" where
  "words_sum (a # b # p) = 256 * unat a + unat b + words_sum p"
| "words_sum [a] = 256 * unat a"
| "words_sum [] = 0"

lemma sum_append:
  "even (length p) \<Longrightarrow> words_sum (p @ q) = words_sum p + words_sum q"
  "even (length p) \<Longrightarrow> ne_sum le (p @ q) = ne_sum le p + ne_sum le q"
  by (induction p rule: words_sum.induct) simp_all

lemma words_sum_ne:
  "le \<or> even (length d) \<Longrightarrow> words_sum d mod 65535 = (if le then 256 else 1) * ne_sum le d mod 65535"
proof (induction d rule: words_sum.induct)
  case (1 a b p)
  have "words_sum (a # b # p) mod 65535 = (256 * unat a + unat b + (if le then 256 else 1) * ne_sum le p) mod 65535"
    using 1 by (simp add: mod_add_right_eq [of _ "words_sum p", symmetric]) (simp add: mod_add_right_eq)
  also have "\<dots> = (if le then 256 else 1) * ne_sum le (a # b # p) mod 65535"
  proof (cases le)
    case True
    have e: "256 * ne_sum True (a # b # p) = 256 * unat a + unat b + 256 * ne_sum True p + 65535 * unat b"
      by (simp add: from_ne16_def unat_be_u16)
    show ?thesis using True by (simp only: e if_True mod_mult_self2)
  next
    case False
    thus ?thesis by (simp add: from_ne16_def unat_be_u16 add.assoc)
  qed
  finally show ?case .
qed auto

lemma unat_be16: "256 * unat (ucast (drop_bit 8 w) :: u8) + unat (ucast w :: u8) = unat (w :: u16)"
proof -
  have "be_u16 (ucast (drop_bit 8 w)) (ucast w) = w" using be_u16_u16_be [of w] by (simp add: u16_be_def)
  thus ?thesis using unat_be_u16 [of "ucast (drop_bit 8 w)" "ucast w"] by simp
qed

lemma be_u16_split: "be_u16 (ucast (drop_bit 8 w)) (ucast w) = w"
  using be_u16_u16_be [of w] by (simp add: u16_be_def)

lemma ne_sum_to_ne16 [simp]: "ne_sum le (raw16_bytes (to_ne16 le w)) = unat w"
  by (simp add: raw16_bytes_def to_ne16_def to_be16_def from_ne16_def be_u16_split)

lemma ne_sum_bound: "ne_sum le d \<le> length d * 65535"
proof (induction d rule: words_sum.induct)
  case (1 a b p)
  have "unat (from_ne16 le a b) \<le> 65535" using unsigned_less [of "from_ne16 le a b", where 'a = nat] by simp
  thus ?case using 1 by simp
next
  case (2 a)
  show ?case using unsigned_less [of a, where 'a = nat] by simp
qed simp

definition ck_sum :: "u16 \<Rightarrow> nat \<Rightarrow> bool" where
  "ck_sum c n \<longleftrightarrow> (unat c + n) mod 65535 = 0"

lemma xor_not: "(w :: u16) XOR 0xFFFF = NOT w"
proof -
  have "(0xFFFF :: u16) = - 1" by simp
  thus ?thesis by (simp only: bit.xor_one_right)
qed

lemma inet_checksum_cong:
  assumes "length d \<le> 65536"
  shows "(unat (inet_checksum le d prev) + unat (NOT prev) + ne_sum le d) mod 65535 = 0"
proof -
  define s where "s = unat (NOT prev) + ne_sum le d"
  have "s < 2 ^ 32" using assms ne_sum_bound [of le d] unsigned_less [of "NOT prev", where 'a = nat] by (simp add: s_def)
  hence i: "inet_checksum le d prev = NOT (of_nat (csum_fold s))" by (simp add: inet_checksum_def s_def xor_not)
  have c: "csum_fold s mod 65535 = s mod 65535" "unat (of_nat (csum_fold s) :: u16) = csum_fold s"
    using csum_fold_cong [of s] by (simp_all add: unat_of_nat_small)
  have "unat (inet_checksum le d prev) + csum_fold s = 65535" unfolding i using unat_not_u16 [of "of_nat (csum_fold s)"] c(2) by simp
  hence "(unat (inet_checksum le d prev) + csum_fold s) mod 65535 = 0" by simp
  hence "(unat (inet_checksum le d prev) + s) mod 65535 = 0" using c(1) by (metis mod_add_right_eq)
  thus ?thesis by (simp add: s_def add.assoc)
qed

lemma ck_sum_start: "length d \<le> 65536 \<Longrightarrow> ck_sum (inet_checksum le d 0xFFFF) (ne_sum le d)"
  using inet_checksum_cong [where d = d and le = le and prev = "0xFFFF"] by (simp add: ck_sum_def)

lemma ck_sum_chain:
  assumes "ck_sum c n" "length d \<le> 65536"
  shows "ck_sum (inet_checksum le d c) (n + ne_sum le d)"
proof -
  let ?u = "unat (inet_checksum le d c)"
  have "(?u + unat (NOT c) + ne_sum le d + (unat c + n)) mod 65535 = 0"
    using inet_checksum_cong [OF assms(2), of le c] assms(1) unfolding ck_sum_def by (metis mod_add_eq add.right_neutral mod_0)
  moreover have "?u + unat (NOT c) + ne_sum le d + (unat c + n) = ?u + (n + ne_sum le d) + 65535"
    using unat_not_u16 [of c] by simp
  ultimately show ?thesis by (simp add: ck_sum_def)
qed

text \<open>
  The checksum that covers \<open>pre @ d @ post\<close>, of which \<open>pre\<close> is a pseudo header and \<open>d\<close> ends before the
  field, makes the sum over the wire right when it is stored in the byte order of the host; with an
  odd number of bytes only on a little-endian host.
\<close>

lemma ck_sum_stored:
  assumes "ck_sum c (ne_sum le d + ne_sum le post)" "even (length d)"
  shows "ne_sum le (d @ raw16_bytes (to_ne16 le c) @ post) mod 65535 = 0"
proof -
  have e: "even (length (raw16_bytes (to_ne16 le c)))" by (simp add: raw16_bytes_def)
  show ?thesis using assms(1) by (simp add: sum_append(2) assms(2) e ck_sum_def add_ac)
qed

lemma words_sum_zero: "ne_sum le d mod 65535 = 0 \<Longrightarrow> le \<or> even (length d) \<Longrightarrow> words_sum d mod 65535 = 0"
  by (subst words_sum_ne) (auto simp: mod_mult_right_eq [of _ "ne_sum _ _", symmetric])

lemma ck_sum_wire:
  assumes "ck_sum c (ne_sum le d + ne_sum le post)" "even (length d)" "le \<or> even (length post)"
  shows "words_sum (d @ raw16_bytes (to_ne16 le c) @ post) mod 65535 = 0"
  by (rule words_sum_zero [OF ck_sum_stored [OF assms(1,2)]]) (use assms in \<open>auto simp: raw16_bytes_def\<close>)

text \<open>On a big-endian host the last byte of an odd number lands in the wrong half of its word.\<close>

lemma words_sum_big_endian:
  assumes "even (length d)" "ne_sum False (d @ [b]) mod 65535 = 0" "b \<noteq> 0"
  shows "words_sum (d @ [b]) mod 65535 \<noteq> 0"
proof
  have e: "words_sum d = ne_sum False d" using assms(1) by (induction d rule: words_sum.induct) (simp_all add: from_ne16_def unat_be_u16)
  have w: "words_sum (d @ [b]) = ne_sum False (d @ [b]) + 255 * unat b" using assms(1) by (simp add: sum_append e)
  assume "words_sum (d @ [b]) mod 65535 = 0"
  hence "255 * unat b mod 65535 = 0" unfolding w using assms(2) by (metis add.left_neutral mod_add_left_eq)
  moreover have "unat b < 256" "unat b \<noteq> 0" using unsigned_less [of b, where 'a = nat] assms(3) by (simp_all add: unat_eq_0)
  ultimately show False by simp
qed

text \<open>The header and the message of an error packet, with the checksum computed over a zero field.\<close>

lemma ne_sum_zero: "ne_sum le (raw16_bytes (0, 0)) = 0"
  by (simp add: raw16_bytes_def from_ne16_def be_u16_def)

lemma length_raw [simp]: "length (raw16_bytes r) = 2" "length (raw32_bytes q) = 4"
  by (simp_all add: raw16_bytes_def) (cases q; simp)

lemma ipv4_header_sum:
  assumes "ip_sum h = (0, 0)" "length (ip_src h) = 4" "length (ip_dst h) = 4"
  shows "words_sum (ipv4_bytes (h\<lparr>ip_sum := to_ne16 le (inet_checksum le (ipv4_bytes h) 0xFFFF)\<rparr>)) mod 65535 = 0"
proof -
  define d where "d = [ip_vhl h, ip_tos h] @ raw16_bytes (ip_len h) @ raw16_bytes (ip_id h) @ raw16_bytes (ip_off h) @ [ip_ttl h, ip_p h]"
  define post where "post = ip_src h @ ip_dst h"
  have b: "ipv4_bytes (h\<lparr>ip_sum := r\<rparr>) = d @ raw16_bytes r @ post" for r by (simp add: ipv4_bytes_def d_def post_def)
  have h: "ipv4_bytes h = d @ raw16_bytes (0, 0) @ post" using b [of "(0, 0)"] assms(1) by (metis ipv4_hdr.surjective ipv4_hdr.update_convs(8))
  have l: "even (length d)" "even (length post)" "length (ipv4_bytes h) \<le> 65536" by (simp_all add: d_def post_def assms h)
  have "ck_sum (inet_checksum le (ipv4_bytes h) 0xFFFF) (ne_sum le d + ne_sum le post)"
    using ck_sum_start [OF l(3), of le] by (simp add: h sum_append l ne_sum_zero)
  thus ?thesis unfolding b by (rule ck_sum_wire) (use l in simp_all)
qed

end
