(* ===== verification/Fragment.thy ===== *)
theory Fragment
  imports Packets
begin

text \<open>
  Splitting of an IPv4 datagram that does not fit the next hop: \<open>tincd/src/fragment.rs\<close>. The theorem is
  the contract of RFC 791: a receiver that puts the fragments, in any order and with repetitions, into
  a reassembly buffer has the buffer it would have from the datagram itself.
\<close>

section \<open>Model\<close>

text \<open>The loop; \<open>maxlen\<close> is not 0 when it is entered.\<close>

function frag_loop :: "bool \<Rightarrow> bytes \<Rightarrow> ipv4_hdr \<Rightarrow> u16 \<Rightarrow> nat \<Rightarrow> bytes \<Rightarrow> nat \<Rightarrow> nat \<Rightarrow> u16 \<Rightarrow> bytes list" where
  "frag_loop le eth_hdr ip origf maxlen payload todo offset foff =
     (if todo = 0 \<or> maxlen = 0 then []
      else let
        len = min todo maxlen;
        ip = set_total_len (of_nat (IP_SIZE + len)) ip;
        mf = (if len < todo then IP_MF else 0);
        ip = set_off (foff OR origf OR mf) ip;
        ip = ip\<lparr>ip_sum := (0, 0)\<rparr>;
        ip = ip\<lparr>ip_sum := to_ne16 le (inet_checksum le (ipv4_bytes ip) 0xFFFF)\<rparr>;
        frag = eth_hdr @ ipv4_bytes ip @ take len (drop offset payload)
      in frag # frag_loop le eth_hdr ip origf maxlen payload (todo - len) (offset + len) (foff + of_nat (len div 8)))"
  by pat_completeness auto
termination
  by (relation "measure (\<lambda>(le, eth_hdr, ip, origf, maxlen, payload, todo, offset, foff). todo)") auto

declare frag_loop.simps [simp del]

definition fragment_v4 :: "bool \<Rightarrow> bytes \<Rightarrow> u16 \<Rightarrow> bytes list option" where
  "fragment_v4 le frame dest_mtu =
     (if length frame < ETHER_SIZE + IP_SIZE then None
      else let
        ip = ipv4_read (take IP_SIZE (drop ETHER_SIZE frame));
        len = unat (total_len ip);
        todo = len - IP_SIZE;
        dest_mtu = unat dest_mtu;
        maxlen = 8 * ((dest_mtu - ETHER_SIZE - IP_SIZE) div 8)
      in if unat (ihl ip) \<noteq> IP_SIZE div 4 then None
         else if len < IP_SIZE then None
         else if ETHER_SIZE + IP_SIZE + todo \<noteq> length frame then None
         else if dest_mtu \<le> ETHER_SIZE + IP_SIZE then None
         else if maxlen = 0 then None
         else let ip_off_full = get_off ip
           in Some (frag_loop le (take ETHER_SIZE frame) ip (ip_off_full AND NOT IP_OFFMASK) maxlen
                (drop (ETHER_SIZE + IP_SIZE) frame) todo 0 (ip_off_full AND IP_OFFMASK)))"

section \<open>A receiver\<close>

definition fr_hdr :: "bytes \<Rightarrow> ipv4_hdr" where
  "fr_hdr f = ipv4_read (take 20 (drop 14 f))"

definition fr_off :: "bytes \<Rightarrow> nat" where
  "fr_off f = 8 * unat (get_off (fr_hdr f) AND IP_OFFMASK)"

definition fr_more :: "bytes \<Rightarrow> bool" where
  "fr_more f \<longleftrightarrow> get_off (fr_hdr f) AND IP_MF \<noteq> 0"

definition fr_data :: "bytes \<Rightarrow> bytes" where
  "fr_data f = drop 34 f"

text \<open>The reassembly buffer, keyed by the offset in the original datagram.\<close>

definition place :: "bytes \<Rightarrow> (nat \<rightharpoonup> u8) \<Rightarrow> (nat \<rightharpoonup> u8)" where
  "place f buf = (\<lambda>i. if fr_off f \<le> i \<and> i < fr_off f + length (fr_data f) then Some (fr_data f ! (i - fr_off f)) else buf i)"

text \<open>What a receiver reads of a fragment besides its place: the datagram it belongs to, and that it is intact.\<close>

definition same_datagram :: "bytes \<Rightarrow> bytes \<Rightarrow> bool" where
  "same_datagram f g \<longleftrightarrow> take 14 f = take 14 g \<and> ip_src (fr_hdr f) = ip_src (fr_hdr g) \<and> ip_dst (fr_hdr f) = ip_dst (fr_hdr g) \<and>
     ip_p (fr_hdr f) = ip_p (fr_hdr g) \<and> ip_id (fr_hdr f) = ip_id (fr_hdr g) \<and> ip_tos (fr_hdr f) = ip_tos (fr_hdr g) \<and>
     ip_ttl (fr_hdr f) = ip_ttl (fr_hdr g) \<and> ip_vhl (fr_hdr f) = ip_vhl (fr_hdr g)"

definition intact :: "bytes \<Rightarrow> bool" where
  "intact f \<longleftrightarrow> 34 \<le> length f \<and> unat (total_len (fr_hdr f)) + 14 = length f \<and> words_sum (take 20 (drop 14 f)) mod 65535 = 0"

section \<open>One fragment\<close>

lemma ipv4_read_bytes:
  "length (ip_src h) = 4 \<Longrightarrow> length (ip_dst h) = 4 \<Longrightarrow> ipv4_read (ipv4_bytes h) = h"
  by (simp add: ipv4_read_def ipv4_bytes_def raw16_bytes_def)

lemma get_set:
  "get_off (set_off w h) = w" "total_len (set_total_len w h) = w"
  by (simp_all add: get_off_def set_off_def total_len_def set_total_len_def from_be16_def to_be16_def be_u16_split)

definition off_word :: "nat \<Rightarrow> u16 \<Rightarrow> bool \<Rightarrow> u16" where
  "off_word n origf mf = of_nat n OR origf OR (if mf then IP_MF else 0)"

lemma off_word_fields:
  assumes "n < 8192" "origf AND IP_OFFMASK = 0"
  shows "unat (off_word n origf mf AND IP_OFFMASK) = n" "off_word n origf mf AND IP_MF \<noteq> 0 \<longleftrightarrow> mf \<or> origf AND IP_MF \<noteq> 0"
proof -
  have m: "IP_OFFMASK = mask 13" "IP_MF = 2 ^ 13" by (simp_all add: IP_OFFMASK_def IP_MF_def mask_eq_exp_minus_1)
  have "take_bit 13 origf = 0" using assms(2) unfolding m by (simp only: take_bit_eq_mask)
  moreover have n: "take_bit 13 (of_nat n :: u16) = of_nat n" using assms(1) by (simp add: take_bit_of_nat take_bit_nat_eq_self)
  moreover have "take_bit 13 (if mf then IP_MF else 0) = 0" by (simp add: IP_MF_def)
  ultimately show "unat (off_word n origf mf AND IP_OFFMASK) = n"
    using assms(1) unfolding off_word_def m(1) take_bit_eq_mask [symmetric] take_bit_or by (simp add: unat_of_nat_small)
  have "\<not> bit (of_nat n :: u16) 13" using n by (metis bit_take_bit_iff less_irrefl)
  moreover have "bit (if mf then IP_MF else 0) 13 \<longleftrightarrow> mf" by (simp add: m bit_exp_iff)
  ultimately show "off_word n origf mf AND IP_MF \<noteq> 0 \<longleftrightarrow> mf \<or> origf AND IP_MF \<noteq> 0"
    unfolding m(2) off_word_def and_exp_eq_0_iff_not_bit bit_or_iff by blast
qed

text \<open>The fragment of the payload from \<open>c\<close> on, \<open>n\<close> bytes long.\<close>

definition frag_of :: "bool \<Rightarrow> bytes \<Rightarrow> ipv4_hdr \<Rightarrow> u16 \<Rightarrow> bytes \<Rightarrow> nat \<Rightarrow> nat \<Rightarrow> nat \<Rightarrow> bytes" where
  "frag_of le eth ip origf payload base c n =
     (let ip = (set_off (off_word (base + c div 8) origf (c + n < length payload)) (set_total_len (of_nat (20 + n)) ip))\<lparr>ip_sum := (0, 0)\<rparr>
      in eth @ ipv4_bytes (ip\<lparr>ip_sum := to_ne16 le (inet_checksum le (ipv4_bytes ip) 0xFFFF)\<rparr>) @ take n (drop c payload))"

lemma frag_of_fields:
  fixes le eth ip origf payload base c n
  assumes "length eth = 14" "length (ip_src ip) = 4" "length (ip_dst ip) = 4" "n \<le> 65500" "base + c div 8 < 8192" "origf AND IP_OFFMASK = 0"
    "c + n \<le> length payload"
  defines "f \<equiv> frag_of le eth ip origf payload base c n"
  shows "length f = 34 + n" "intact f" "fr_off f = 8 * (base + c div 8)" "fr_more f \<longleftrightarrow> c + n < length payload \<or> origf AND IP_MF \<noteq> 0"
    "fr_data f = take n (drop c payload)" "take 14 f = eth"
    "ip_src (fr_hdr f) = ip_src ip" "ip_dst (fr_hdr f) = ip_dst ip" "ip_p (fr_hdr f) = ip_p ip" "ip_id (fr_hdr f) = ip_id ip"
    "ip_tos (fr_hdr f) = ip_tos ip" "ip_ttl (fr_hdr f) = ip_ttl ip" "ip_vhl (fr_hdr f) = ip_vhl ip"
proof -
  define h where "h = (set_off (off_word (base + c div 8) origf (c + n < length payload)) (set_total_len (of_nat (20 + n)) ip))\<lparr>ip_sum := (0, 0)\<rparr>"
  define h' where "h' = h\<lparr>ip_sum := to_ne16 le (inet_checksum le (ipv4_bytes h) 0xFFFF)\<rparr>"
  have f: "f = eth @ ipv4_bytes h' @ take n (drop c payload)" by (simp add: f_def frag_of_def h_def h'_def Let_def)
  have a: "length (ip_src h) = 4" "length (ip_dst h) = 4" "ip_sum h = (0, 0)" using assms(2,3) by (simp_all add: h_def set_off_def set_total_len_def)
  have l: "length (ipv4_bytes h') = 20" using a by (simp add: h'_def ipv4_bytes_def)
  have hd: "take 20 (drop 14 f) = ipv4_bytes h'" using assms(1) l by (simp add: f)
  have fh: "fr_hdr f = h'" unfolding fr_hdr_def hd by (rule ipv4_read_bytes) (use a in \<open>simp_all add: h'_def\<close>)
  have o: "get_off h' = off_word (base + c div 8) origf (c + n < length payload)" "total_len h' = of_nat (20 + n)"
    by (simp_all add: h'_def h_def get_off_def set_off_def total_len_def set_total_len_def from_be16_def to_be16_def be_u16_split del: of_nat_add)
  have "words_sum (ipv4_bytes h') mod 65535 = 0" unfolding h'_def by (rule ipv4_header_sum) (use a in simp_all)
  moreover show len: "length f = 34 + n" using assms(1,7) l by (simp add: f)
  moreover have "unat (of_nat (20 + n) :: u16) = 20 + n" by (rule unat_of_nat_small) (use assms(4) in simp)
  ultimately show "intact f" unfolding intact_def fh o hd by simp
  show "fr_off f = 8 * (base + c div 8)" unfolding fr_off_def fh o off_word_fields [OF assms(5,6)] by simp
  show "fr_more f \<longleftrightarrow> c + n < length payload \<or> origf AND IP_MF \<noteq> 0" unfolding fr_more_def fh o off_word_fields [OF assms(5,6)] by simp
  show "fr_data f = take n (drop c payload)" "take 14 f = eth" using assms(1) l by (simp_all add: fr_data_def f)
  show "ip_src (fr_hdr f) = ip_src ip" "ip_dst (fr_hdr f) = ip_dst ip" "ip_p (fr_hdr f) = ip_p ip" "ip_id (fr_hdr f) = ip_id ip"
    "ip_tos (fr_hdr f) = ip_tos ip" "ip_ttl (fr_hdr f) = ip_ttl ip" "ip_vhl (fr_hdr f) = ip_vhl ip"
    unfolding fh by (simp_all add: h'_def h_def set_off_def set_total_len_def)
qed

section \<open>All fragments\<close>

function chunks :: "nat \<Rightarrow> nat \<Rightarrow> nat \<Rightarrow> (nat \<times> nat) list" where
  "chunks maxlen todo c = (if todo = 0 \<or> maxlen = 0 then [] else (c, min todo maxlen) # chunks maxlen (todo - min todo maxlen) (c + min todo maxlen))"
  by pat_completeness auto
termination
  by (relation "measure (\<lambda>(maxlen, todo, c). todo)") auto

declare chunks.simps [simp del]

lemma chunks_facts:
  assumes "8 dvd maxlen" "8 dvd c0"
  shows "(c, n) \<in> set (chunks maxlen todo c0) \<Longrightarrow> 8 dvd c \<and> 0 < n \<and> n \<le> maxlen \<and> c0 \<le> c \<and> c + n \<le> c0 + todo \<and>
     (c + n < c0 + todo \<longrightarrow> n = maxlen)"
  using assms
proof (induction maxlen todo c0 rule: chunks.induct)
  case (1 maxlen todo c0)
  show ?case
  proof (cases "todo = 0 \<or> maxlen = 0 \<or> (c = c0 \<and> n = min todo maxlen)")
    case True
    thus ?thesis using "1.prems" by (subst (asm) chunks.simps) (auto split: if_splits)
  next
    case False
    hence m: "(c, n) \<in> set (chunks maxlen (todo - min todo maxlen) (c0 + min todo maxlen))" using "1.prems"(1) by (subst (asm) chunks.simps) auto
    have "maxlen < todo" using m by (cases "todo \<le> maxlen") (simp_all add: chunks.simps)
    thus ?thesis using "1.IH" [OF _ m "1.prems"(2)] False "1.prems"(2,3) by simp
  qed
qed

lemma chunks_cover:
  assumes "0 < maxlen" "c0 \<le> i" "i < c0 + todo"
  shows "\<exists>(c, n) \<in> set (chunks maxlen todo c0). c \<le> i \<and> i < c + n"
  using assms
proof (induction maxlen todo c0 rule: chunks.induct)
  case (1 maxlen todo c0)
  show ?case
  proof (cases "i < c0 + min todo maxlen")
    case True
    thus ?thesis using "1.prems" by (subst chunks.simps) auto
  next
    case False
    hence "\<exists>(c, n) \<in> set (chunks maxlen (todo - min todo maxlen) (c0 + min todo maxlen)). c \<le> i \<and> i < c + n"
      using "1.IH" "1.prems" by auto
    thus ?thesis using "1.prems" by (subst chunks.simps) auto
  qed
qed

lemma frag_of_header:
  "frag_of le eth (set_off a (set_total_len b ip)\<lparr>ip_sum := q\<rparr>\<lparr>ip_sum := r\<rparr>) origf payload base c n = frag_of le eth ip origf payload base c n"
  by (simp add: frag_of_def set_off_def set_total_len_def)

lemma frag_loop_chunks:
  assumes "8 dvd maxlen" "8 dvd c" "c + todo = length payload"
  shows "frag_loop le eth ip origf maxlen payload todo c (of_nat (base + c div 8)) =
     map (\<lambda>(c, n). frag_of le eth ip origf payload base c n) (chunks maxlen todo c)"
  using assms
proof (induction maxlen todo c arbitrary: ip rule: chunks.induct)
  case (1 maxlen todo c)
  show ?case
  proof (cases "todo = 0 \<or> maxlen = 0")
    case False
    define n where "n = min todo maxlen"
    have "c + n < length payload \<longleftrightarrow> n < todo" using "1.prems"(3) by linarith
    hence o: "of_nat (base + c div 8) OR origf OR (if n < todo then IP_MF else 0) = off_word (base + c div 8) origf (c + n < length payload)"
      by (simp add: off_word_def)
    have rest: "frag_loop le eth ip' origf maxlen payload (todo - n) (c + n) (of_nat (base + c div 8) + of_nat (n div 8)) =
       map (\<lambda>(c, n). frag_of le eth ip' origf payload base c n) (chunks maxlen (todo - n) (c + n))" for ip'
    proof (cases "todo \<le> maxlen")
      case True
      thus ?thesis by (simp add: n_def frag_loop.simps chunks.simps)
    next
      case F: False
      have "of_nat (base + c div 8) + of_nat (n div 8) = (of_nat (base + (c + n) div 8) :: u16)"
        using "1.prems"(1,2) F by (simp add: n_def div_plus_div_distrib_dvd_left)
      thus ?thesis using "1.IH" [OF False, of ip'] "1.prems" F False by (simp add: n_def del: of_nat_add)
    qed
    have f: "frag_of le eth ip origf payload base c n = eth @ ipv4_bytes (ip'\<lparr>ip_sum := to_ne16 le (inet_checksum le (ipv4_bytes ip') 0xFFFF)\<rparr>) @
         take n (drop c payload)"
      if "ip' = (set_off (off_word (base + c div 8) origf (c + n < length payload)) (set_total_len (of_nat (20 + n)) ip))\<lparr>ip_sum := (0, 0)\<rparr>" for ip'
      unfolding that frag_of_def Let_def ..
    show ?thesis unfolding frag_loop.simps [of le eth ip origf maxlen payload todo c] chunks.simps [of maxlen todo c] Let_def
        n_def [symmetric] o rest frag_of_header IP_SIZE_def if_not_P [OF False] list.map prod.case f [OF refl] ..
  qed (simp add: frag_loop.simps chunks.simps)
qed

text \<open>A buffer that is filled from pieces of one map, in any order, is that map once the pieces cover it.\<close>

lemma map_add_le: "a \<subseteq>\<^sub>m M \<Longrightarrow> b \<subseteq>\<^sub>m M \<Longrightarrow> a ++ b \<subseteq>\<^sub>m M"
  by (force simp: map_le_def map_add_def split: option.splits)

lemma fold_place:
  assumes "\<And>f. f \<in> set fs \<Longrightarrow> place f Map.empty \<subseteq>\<^sub>m M" "\<And>i. i \<in> dom M \<Longrightarrow> \<exists>f \<in> set fs. i \<in> dom (place f Map.empty)"
  shows "fold place fs Map.empty = M"
proof -
  have p: "place f buf = buf ++ place f Map.empty" for f buf by (auto simp: place_def map_add_def fun_eq_iff)
  have "fold place fs buf \<subseteq>\<^sub>m M \<and> dom (fold place fs buf) = dom buf \<union> (\<Union>f \<in> set fs. dom (place f Map.empty))"
    if "buf \<subseteq>\<^sub>m M" "\<And>f. f \<in> set fs \<Longrightarrow> place f Map.empty \<subseteq>\<^sub>m M" for fs buf using that
  proof (induction fs arbitrary: buf)
    case (Cons f fs)
    have "place f buf \<subseteq>\<^sub>m M" using Cons.prems by (subst p) (rule map_add_le; simp)
    thus ?case using Cons.IH [of "place f buf"] Cons.prems by (auto simp: p [of f buf])
  qed simp
  from this [of Map.empty fs] assms show ?thesis by (intro map_le_antisym) (auto simp: map_le_def)
qed

lemma off_mask_parts:
  fixes w :: u16
  shows "(w AND NOT IP_OFFMASK) AND IP_OFFMASK = 0" "(w AND NOT IP_OFFMASK) AND IP_MF = w AND IP_MF"
proof -
  show "(w AND NOT IP_OFFMASK) AND IP_OFFMASK = 0" by (rule bit_word_eqI) (auto simp: bit_simps)
  have "IP_MF = NOT IP_OFFMASK AND IP_MF" by (simp add: IP_MF_def IP_OFFMASK_def)
  thus "(w AND NOT IP_OFFMASK) AND IP_MF = w AND IP_MF" by (simp add: and.assoc)
qed

text \<open>The fragment of \<open>frame\<close> that holds \<open>n\<close> bytes from \<open>k\<close> on.\<close>

definition piece :: "bytes \<Rightarrow> u16 \<Rightarrow> nat \<Rightarrow> nat \<Rightarrow> bytes \<Rightarrow> bool" where
  "piece frame mtu k n f \<longleftrightarrow> k + n \<le> length (fr_data frame) \<and> length f \<le> unat mtu \<and> same_datagram f frame \<and> intact f \<and>
     fr_off f = fr_off frame + k \<and> fr_data f = take n (drop k (fr_data frame)) \<and>
     (fr_more f \<longleftrightarrow> k + n < length (fr_data frame) \<or> fr_more frame) \<and> (k + n < length (fr_data frame) \<longrightarrow> 8 dvd n)"

lemma fragment_pieces:
  assumes "fragment_v4 le frame mtu = Some out" "fr_off frame + length (fr_data frame) \<le> 65536"
  obtains cs g where "out = map (\<lambda>(k, n). g k n) cs" "\<And>k n. (k, n) \<in> set cs \<Longrightarrow> piece frame mtu k n (g k n)"
    "\<And>i. i < length (fr_data frame) \<Longrightarrow> \<exists>(k, n) \<in> set cs. k \<le> i \<and> i < k + n"
proof -
  define ip eth payload where "ip = fr_hdr frame" and "eth = take 14 frame" and "payload = fr_data frame"
  define base origf where "base = unat (get_off ip AND IP_OFFMASK)" and "origf = get_off ip AND NOT IP_OFFMASK"
  define maxlen where "maxlen = 8 * ((unat mtu - 34) div 8)"
  have c: "34 \<le> length frame" "34 < unat mtu" "maxlen \<noteq> 0" "unat (total_len ip) - 20 = length payload"
      "out = frag_loop le eth ip origf maxlen payload (unat (total_len ip) - 20) 0 (get_off ip AND IP_OFFMASK)"
    using assms(1) by (auto simp: fragment_v4_def Let_def ETHER_SIZE_def IP_SIZE_def ip_def fr_hdr_def eth_def payload_def fr_data_def
        origf_def maxlen_def split: if_splits)
  have "get_off ip AND IP_OFFMASK = of_nat (base + 0 div 8)" by (simp add: base_def)
  hence out: "out = map (\<lambda>(c, n). frag_of le eth ip origf payload base c n) (chunks maxlen (length payload) 0)"
    unfolding c(5) c(4) by (simp only:) (rule frag_loop_chunks; simp add: maxlen_def)
  have mtu: "maxlen + 34 \<le> unat mtu" "maxlen \<le> 65500" using c(2) unsigned_less [of mtu, where 'a = nat] by (simp_all add: maxlen_def)
  have off: "fr_off frame = 8 * base" by (simp add: fr_off_def base_def ip_def)
  have more: "fr_more frame \<longleftrightarrow> origf AND IP_MF \<noteq> 0" by (simp add: fr_more_def origf_def ip_def off_mask_parts)
  have a: "length eth = 14" "length (ip_src ip) = 4" "length (ip_dst ip) = 4" "origf AND IP_OFFMASK = 0"
    using c(1) by (simp_all add: eth_def ip_def fr_hdr_def ipv4_read_def origf_def off_mask_parts)
  have F: "8 dvd k \<and> 0 < n \<and> n \<le> maxlen \<and> k + n \<le> length payload \<and> (k + n < length payload \<longrightarrow> n = maxlen) \<and> base + k div 8 < 8192" if "(k, n) \<in> set (chunks maxlen (length payload) 0)" for k n
    using chunks_facts [OF _ _ that] that assms(2) by (force simp: out maxlen_def off payload_def [symmetric])
  have dvd: "8 dvd maxlen" by (simp add: maxlen_def)
  note fields = frag_of_fields [OF a(1-3) _ _ a(4), of _ base _ payload le]
  have "piece frame mtu k n (frag_of le eth ip origf payload base k n)" if "(k, n) \<in> set (chunks maxlen (length payload) 0)" for k n
    using F [OF that] mtu fields [of n k] unfolding piece_def same_datagram_def more off payload_def [symmetric]
    by (auto simp: eth_def ip_def dvd)
  moreover have "\<exists>(k, n) \<in> set (chunks maxlen (length payload) 0). k \<le> i \<and> i < k + n" if "i < length (fr_data frame)" for i
    using chunks_cover [of maxlen 0 i "length payload"] that c(3) by (simp add: payload_def)
  ultimately show thesis using that out by blast
qed

lemma fragment_piece:
  assumes "fragment_v4 le frame mtu = Some out" "fr_off frame + length (fr_data frame) \<le> 65536" "f \<in> set out"
  shows "\<exists>k n. piece frame mtu k n f"
proof -
  obtain cs g where g: "out = map (\<lambda>(k, n). g k n) cs" "\<And>k n. (k, n) \<in> set cs \<Longrightarrow> piece frame mtu k n (g k n)"
    by (rule fragment_pieces [OF assms(1,2)]) (rule that; assumption)
  show ?thesis using assms(3) g(2) unfolding g(1) by force
qed

text \<open>
  C10: when a datagram is split, a receiver that places the fragments in its reassembly buffer, in any
  order and with repetitions, has the buffer it would have from the datagram itself. Every fragment
  fits the path, belongs to the same datagram, has a right length and header sum, is a multiple of 8
  bytes long unless it is the last, and says that more follow exactly when some do, or when the
  datagram itself was a fragment that said so. The datagram has to end within 64 KiB.
\<close>

theorem fragments_reassemble:
  assumes "fragment_v4 le frame mtu = Some out" "fr_off frame + length (fr_data frame) \<le> 65536"
  shows "(\<forall>fs. set fs = set out \<longrightarrow> fold place fs Map.empty = place frame Map.empty) \<and>
     (\<forall>f \<in> set out. length f \<le> unat mtu \<and> same_datagram f frame \<and> intact f \<and>
        (let last = (fr_off f + length (fr_data f) = fr_off frame + length (fr_data frame))
         in (last \<or> 8 dvd length (fr_data f)) \<and> (fr_more f \<longleftrightarrow> \<not> last \<or> fr_more frame)))"
proof -
  obtain cs g where g: "out = map (\<lambda>(k, n). g k n) cs" "\<And>k n. (k, n) \<in> set cs \<Longrightarrow> piece frame mtu k n (g k n)"
      "\<And>i. i < length (fr_data frame) \<Longrightarrow> \<exists>(k, n) \<in> set cs. k \<le> i \<and> i < k + n"
    by (rule fragment_pieces [OF assms]) (rule that; assumption)
  note P = fragment_piece [OF assms]
  have "fold place fs Map.empty = place frame Map.empty" if fs: "set fs = set out" for fs
  proof (rule fold_place)
    fix f
    assume "f \<in> set fs"
    then obtain k n where "piece frame mtu k n f" using fs P by blast
    thus "place f Map.empty \<subseteq>\<^sub>m place frame Map.empty" by (auto simp: piece_def place_def map_le_def algebra_simps split: if_splits)
  next
    fix i
    assume "i \<in> dom (place frame Map.empty)"
    hence i: "fr_off frame \<le> i" "i - fr_off frame < length (fr_data frame)" by (auto simp: place_def split: if_splits)
    then obtain k n where k: "(k, n) \<in> set cs" "k \<le> i - fr_off frame" "i - fr_off frame < k + n" using g(3) by blast
    hence "fr_off frame + k \<le> i" "i < fr_off frame + k + n" using i by simp_all
    hence "i \<in> dom (place (g k n) Map.empty)" using g(2) [OF k(1)] by (simp add: piece_def place_def dom_def min_def)
    thus "\<exists>f \<in> set fs. i \<in> dom (place f Map.empty)" using k(1) fs g(1) by force
  qed
  moreover have "length f \<le> unat mtu \<and> same_datagram f frame \<and> intact f \<and>
        (let last = (fr_off f + length (fr_data f) = fr_off frame + length (fr_data frame))
         in (last \<or> 8 dvd length (fr_data f)) \<and> (fr_more f \<longleftrightarrow> \<not> last \<or> fr_more frame))" if f: "f \<in> set out" for f
  proof -
    obtain k n where "piece frame mtu k n f" using P [OF f] by blast
    thus ?thesis by (auto simp: piece_def Let_def)
  qed
  ultimately show ?thesis by blast
qed

definition demo_datagram :: bytes where
  "demo_datagram = [0, 0, 0, 0, 0, 0, 0, 0, 0, 0, 0, 0, 8, 0, 0x45, 0, 0, 60, 0, 7, 0, 0, 64, 17, 0, 0, 10, 0, 0, 1, 10, 0, 0, 2] @ replicate 40 9"

theorem fragments_reassemble_witness:
  "\<exists>out. fragment_v4 True demo_datagram 58 = Some out \<and> fold place (rev out) Map.empty = place demo_datagram Map.empty"
proof -
  have t: "take 20 (drop 14 demo_datagram) = [0x45, 0, 0, 60, 0, 7, 0, 0, 64, 17, 0, 0, 10, 0, 0, 1, 10, 0, 0, 2]" by (simp add: demo_datagram_def)
  have l: "length demo_datagram = 74" by (simp add: demo_datagram_def)
  have h: "unat (total_len (ipv4_read (take 20 (drop 14 demo_datagram)))) = 60" "unat (ihl (ipv4_read (take 20 (drop 14 demo_datagram)))) = 5"
      "get_off (ipv4_read (take 20 (drop 14 demo_datagram))) = 0"
    unfolding t by (simp_all add: ipv4_read_def total_len_def from_be16_def be_u16_def ihl_def get_off_def)
  obtain out where out: "fragment_v4 True demo_datagram 58 = Some out"
    using l h by (simp add: fragment_v4_def ETHER_SIZE_def IP_SIZE_def Let_def)
  have "fr_off demo_datagram + length (fr_data demo_datagram) \<le> 65536" using h(3) l by (simp add: fr_off_def fr_hdr_def fr_data_def)
  from fragments_reassemble [OF out this] out show ?thesis by simp
qed

end
