(* ===== verification/Mss_Clamp.thy ===== *)
theory Mss_Clamp
  imports Packets
begin

text \<open>
  Clamping of the MSS option of a forwarded TCP segment: \<open>tincd/src/mss.rs\<close>. \<open>None\<close> is a panic, an index
  out of the frame; \<open>Some (b, p)\<close> is the verdict and the frame, rewritten in place when \<open>b\<close>. The lemmas
  show what a rewrite does, that it keeps the checksum when the option starts at an even offset, and
  when the function returns at all.
\<close>

section \<open>Finding the segment\<close>

definition rd :: "bytes \<Rightarrow> nat \<Rightarrow> u8 option" where
  "rd p i = (if i < length p then Some (p ! i) else None)"

definition be_at :: "bytes \<Rightarrow> nat \<Rightarrow> u16 option" where
  "be_at p i = do { a \<leftarrow> rd p i; b \<leftarrow> rd p (i + 1); Some (be_u16 a b) }"

text \<open>The start of the TCP header: \<open>Some None\<close> when the frame has none.\<close>

definition mss_tcp :: "bytes \<Rightarrow> nat option option" where
  "mss_tcp p =
     (if length p < ETHER_SIZE then Some None
      else do {
        ethertype \<leftarrow> be_at p 12;
        let vlan = (ethertype = ETH_P_8021Q);
        let start = (if vlan then ETHER_SIZE + 4 else ETHER_SIZE);
        if vlan \<and> length p < 18 then Some None
        else do {
          ethertype \<leftarrow> (if vlan then be_at p 16 else Some ethertype);
          if ethertype = ETH_P_IP \<and> length p \<le> start + 9 then Some None
          else do {
            start \<leftarrow> (if ethertype = ETH_P_IP then map_option (\<lambda>b. if b = 4 then start + 20 else start) (rd p (start + 9)) else Some start);
            if length p \<le> start + 20 then Some None
            else if ethertype = ETH_P_IP then do {
              proto \<leftarrow> rd p (start + 9);
              if proto = 6 then map_option (\<lambda>b. Some (start + unat (b AND 0x0f) * 4)) (rd p start) else Some None }
            else if ethertype = ETH_P_IPV6 then do {
              nxt \<leftarrow> rd p (start + 6);
              Some (if nxt = 6 then Some (start + 40) else None) }
            else Some None } } })"

section \<open>The options\<close>

text \<open>The rewrite of the option at \<open>i\<close>; the sums fit 32 bits, and two folds leave 16.\<close>

definition mss_csum :: "nat \<Rightarrow> nat \<Rightarrow> nat \<Rightarrow> nat" where
  "mss_csum oldcsum oldmss newmss =
     (let csum = (65535 - oldcsum) + (65535 - oldmss) + newmss;
          csum = csum mod 65536 + csum div 65536;
          csum = csum + csum div 65536
      in 65535 - csum mod 65536)"

definition mss_rewrite :: "bytes \<Rightarrow> u16 \<Rightarrow> nat \<Rightarrow> nat \<Rightarrow> (bool \<times> bytes) option" where
  "mss_rewrite p mtu start i = do {
     oldmss \<leftarrow> be_at p (start + 22 + i);
     let hdrs = start + 20;
     if 65535 < hdrs \<or> unat mtu < hdrs then Some (False, p)
     else
       let newmss = unat mtu - hdrs
       in if unat oldmss \<le> newmss then Some (False, p)
          else do {
            let p = p[start + 22 + i := of_nat (newmss div 256), start + 23 + i := of_nat newmss];
            oldcsum \<leftarrow> be_at p (start + 16);
            let csum = mss_csum (unat oldcsum) (unat oldmss) newmss;
            Some (True, p[start + 16 := of_nat (csum div 256), start + 17 := of_nat csum]) } }"

text \<open>The length byte that is compared with 4 is that of the first option, whatever \<open>i\<close> is.\<close>

function mss_walk :: "bytes \<Rightarrow> u16 \<Rightarrow> nat \<Rightarrow> nat \<Rightarrow> nat \<Rightarrow> (bool \<times> bytes) option" where
  "mss_walk p mtu start opt_len i =
     (if opt_len \<le> i then Some (False, p)
      else case rd p (start + 20 + i) of None \<Rightarrow> None
      | Some kind \<Rightarrow>
          if kind = 0 then Some (False, p)
          else if kind = 1 then mss_walk p mtu start opt_len (i + 1)
          else if opt_len < i + 2 then Some (False, p)
          else case rd p (start + 21 + i) of None \<Rightarrow> None
          | Some len \<Rightarrow>
              if opt_len - i < unat len then Some (False, p)
              else if kind \<noteq> 2 then if unat len < 2 then Some (False, p) else mss_walk p mtu start opt_len (i + unat len)
              else case rd p (start + 21) of None \<Rightarrow> None
              | Some first \<Rightarrow> if first \<noteq> 4 then Some (False, p) else mss_rewrite p mtu start i)"
  by pat_completeness auto
termination
  by (relation "measure (\<lambda>(p, mtu, start, opt_len, i). opt_len - i)") auto

declare mss_walk.simps [simp del]

definition clamp :: "bytes \<Rightarrow> u16 \<Rightarrow> (bool \<times> bytes) option" where
  "clamp p mtu = do {
     tcp \<leftarrow> mss_tcp p;
     case tcp of None \<Rightarrow> Some (False, p)
     | Some start \<Rightarrow>
         if length p \<le> start + 20 then Some (False, p)
         else do {
           b \<leftarrow> rd p (start + 12);
           let doff = unat b div 16;
           if doff < 5 then Some (False, p)
           else
             let opt_len = (doff - 5) * 4
             in if length p < start + 20 + opt_len then Some (False, p) else mss_walk p mtu start opt_len 0 } }"

section \<open>What a rewrite does\<close>

lemma rd_eq: "i < length p \<Longrightarrow> rd p i = Some (p ! i)"
  by (simp add: rd_def)

lemma be_at_eq: "i + 1 < length p \<Longrightarrow> be_at p i = Some (be_u16 (p ! i) (p ! (i + 1)))"
  by (simp add: be_at_def rd_def)

lemma mss_tcp_returns: "mss_tcp p \<noteq> None"
  by (auto simp: mss_tcp_def Let_def be_at_eq rd_eq ETHER_SIZE_def split: if_splits)

lemma mss_csum_range: "mss_csum a b c < 65536"
  unfolding mss_csum_def Let_def by (rule le_less_trans [OF diff_le_self]) simp

text \<open>The sum of the rewritten words is, in one's complement, the sum of the old ones.\<close>

lemma mss_csum_cong:
  assumes "a < 65536" "b < 65536" "c < 65536"
  shows "(mss_csum a b c + c) mod 65535 = (a + b) mod 65535"
proof -
  define x where "x = (65535 - a) + (65535 - b) + c"
  define y where "y = x mod 65536 + x div 65536"
  have x: "x < 3 * 65536" using assms by (simp add: x_def)
  have xy: "x = y + 65535 * (x div 65536)" using mult_div_mod_eq [of 65536 x] unfolding y_def by linarith
  have "x div 65536 < 3" using x by (simp add: less_mult_imp_div_less)
  hence y: "y < 65536 + 2" unfolding y_def using mod_less_divisor [of 65536 x] by linarith
  define z where "z = (y + y div 65536) mod 65536"
  have z: "z < 65536" "z mod 65535 = y mod 65535"
  proof -
    show "z < 65536" by (simp add: z_def)
    show "z mod 65535 = y mod 65535"
    proof (cases "y < 65536")
      case False
      hence "y = 65536 \<or> y = 65537" using y by linarith
      thus ?thesis by (auto simp: z_def)
    qed (simp add: z_def)
  qed
  have m: "mss_csum a b c = 65535 - z" by (simp add: mss_csum_def Let_def x_def y_def z_def)
  have "(z + (a + b)) mod 65535 = (y + (a + b)) mod 65535" using z(2) by (metis mod_add_left_eq)
  also have "\<dots> = (y + (a + b) + 65535 * (x div 65536)) mod 65535" by (simp only: mod_mult_self2)
  also have "y + (a + b) + 65535 * (x div 65536) = c + 65535 * 2" using xy assms unfolding x_def by linarith
  finally have "(z + (a + b)) mod 65535 = c mod 65535" by (simp only: mod_mult_self2)
  hence "(65535 - z + (z + (a + b))) mod 65535 = (65535 - z + c) mod 65535" by (metis mod_add_right_eq)
  moreover have "65535 - z + (z + (a + b)) = (a + b) + 65535" using z(1) by simp
  ultimately show ?thesis by (simp add: m)
qed

lemma unat_u16_less: "unat (w :: u16) < 65536"
  using unsigned_less [of w, where 'a = nat] by simp

lemma unat_u8_less: "unat (w :: u8) < 256"
  using unsigned_less [of w, where 'a = nat] by simp

lemma word_at_be: "word_at p i = unat (be_u16 (p ! i) (p ! (i + 1)))"
  by (simp add: word_at_def unat_be_u16)

text \<open>The rewrite changes the option and the checksum, lowers the option, and keeps the sum of the two words.\<close>

definition mss_done :: "bytes \<Rightarrow> u16 \<Rightarrow> nat \<Rightarrow> nat \<Rightarrow> bytes \<Rightarrow> bool" where
  "mss_done p mtu start i p' \<longleftrightarrow> length p' = length p \<and> start + 23 + i < length p \<and>
     (\<forall>j. j \<notin> {start + 16, start + 17, start + 22 + i, start + 23 + i} \<longrightarrow> p' ! j = p ! j) \<and>
     word_at p' (start + 22 + i) + (start + 20) = unat mtu \<and> word_at p' (start + 22 + i) < word_at p (start + 22 + i) \<and>
     (word_at p' (start + 16) + word_at p' (start + 22 + i)) mod 65535 = (word_at p (start + 16) + word_at p (start + 22 + i)) mod 65535"

lemma word_at_set: "i + 1 < length p \<Longrightarrow> n < 65536 \<Longrightarrow> word_at (p[i := of_nat (n div 256), i + 1 := of_nat n]) i = n"
  by (simp add: word_at_def unat_byte)

lemma mss_rewrite_done:
  assumes r: "mss_rewrite p mtu start i = Some (True, p')"
  shows "mss_done p mtu start i p'"
proof -
  from r have len: "start + 23 + i < length p" by (auto simp: mss_rewrite_def be_at_def rd_def bind_eq_Some_conv split: if_splits)
  define old new where "old = word_at p (start + 22 + i)" and "new = unat mtu - (start + 20)"
  define q where "q = p[start + 22 + i := of_nat (new div 256), start + 22 + i + 1 := of_nat new]"
  define c where "c = mss_csum (word_at p (start + 16)) old new"
  have e: "start + 23 + i = start + 22 + i + 1" "start + 17 = start + 16 + 1" by simp_all
  have o: "be_at p (start + 22 + i) = Some (be_u16 (p ! (start + 22 + i)) (p ! (start + 22 + i + 1)))" by (rule be_at_eq) (use len in simp)
  have q16: "be_at q (start + 16) = Some (be_u16 (p ! (start + 16)) (p ! (start + 16 + 1)))" using len by (simp add: be_at_eq q_def)
  have cond: "start + 20 \<le> unat mtu" "new < old" "p' = q[start + 16 := of_nat (c div 256), start + 16 + 1 := of_nat c]"
    using r o q16 unfolding mss_rewrite_def Let_def e new_def [symmetric] q_def [symmetric] old_def c_def word_at_be
    by (auto simp: not_le split: if_splits)
  have new: "new < 65536" "old < 65536" "word_at p (start + 16) < 65536" using unat_u16_less less_imp_diff_less [OF unat_u16_less] by (simp_all add: new_def old_def word_at_be)
  have wq: "word_at q (start + 22 + i) = new" unfolding q_def by (rule word_at_set) (use len new in simp_all)
  have w22: "word_at p' (start + 22 + i) = new" using wq by (simp add: cond(3) word_at_def)
  have w16: "word_at p' (start + 16) = c" unfolding cond(3)
    by (rule word_at_set) (use len mss_csum_range in \<open>simp_all add: q_def c_def\<close>)
  have "(c + new) mod 65535 = (word_at p (start + 16) + old) mod 65535" unfolding c_def by (rule mss_csum_cong) (use new in simp_all)
  thus ?thesis using len cond(1,2) w22 w16 unfolding mss_done_def by (auto simp: cond(3) q_def old_def new_def nth_list_update)
qed

lemma mss_rewrite_eq:
  assumes "start + 23 + i < length p" "start + 20 \<le> unat mtu" "unat mtu < word_at p (start + 22 + i) + (start + 20)"
  defines "new \<equiv> unat mtu - (start + 20)"
  defines "c \<equiv> mss_csum (word_at p (start + 16)) (word_at p (start + 22 + i)) new"
  shows "mss_rewrite p mtu start i = Some (True, p[start + 22 + i := of_nat (new div 256), start + 23 + i := of_nat new,
     start + 16 := of_nat (c div 256), start + 17 := of_nat c])"
proof -
  have "start + 20 < 65536" using assms(2) unat_u16_less [of mtu] by linarith
  thus ?thesis using assms(1-3) unfolding mss_rewrite_def c_def new_def by (simp add: be_at_eq word_at_be Let_def add.assoc)
qed

text \<open>One turn of the walk.\<close>

lemma mss_walk_cases:
  assumes "mss_walk p mtu start opt_len i = r" "start + 20 + opt_len \<le> length p"
  obtains (stop) "r = Some (False, p)"
  | (onward) n where "0 < n" "i < opt_len" "mss_walk p mtu start opt_len (i + n) = r"
  | (mss) "i + 2 \<le> opt_len" "p ! (start + 20 + i) = 2" "p ! (start + 21) = 4" "mss_rewrite p mtu start i = r"
proof -
  note step = assms(1) [unfolded mss_walk.simps [of p mtu start opt_len i]]
  show thesis
  proof (cases "opt_len \<le> i")
    case False
    define kind where "kind = p ! (start + 20 + i)"
    have k: "rd p (start + 20 + i) = Some kind" "opt_len < i + 2 \<or> rd p (start + 21 + i) = Some (p ! (start + 21 + i)) \<and> rd p (start + 21) = Some (p ! (start + 21))"
      using False assms(2) by (auto simp: rd_def kind_def)
    consider "kind = 0" | "kind = 1" | "kind \<noteq> 0" "kind \<noteq> 1" "opt_len < i + 2" | "kind \<noteq> 0" "kind \<noteq> 1" "i + 2 \<le> opt_len" by linarith
    thus thesis
    proof cases
      case 2
      thus thesis using onward [of 1] step False k by simp
    next
      case 4
      thus thesis using step False k onward [of "unat (p ! (start + 21 + i))"] stop mss by (auto simp: kind_def [symmetric] split: if_splits)
    qed (use step False k stop in simp_all)
  qed (use step stop in simp)
qed

lemma mss_walk_done:
  "mss_walk p mtu start opt_len i = Some (True, p') \<Longrightarrow> start + 20 + opt_len \<le> length p \<Longrightarrow>
   \<exists>j. j + 2 \<le> opt_len \<and> p ! (start + 20 + j) = 2 \<and> p ! (start + 21) = 4 \<and> mss_done p mtu start j p'"
proof (induction "opt_len - i" arbitrary: i rule: less_induct)
  case less
  from less.prems show ?case
  proof (cases rule: mss_walk_cases)
    case (onward n)
    thus ?thesis using less.hyps [OF _ _ less.prems(2), of "i + n"] by simp
  next
    case mss
    thus ?thesis using mss_rewrite_done by blast
  qed simp
qed

lemma mss_walk_returns:
  "start + 22 + opt_len \<le> length p \<Longrightarrow> mss_walk p mtu start opt_len i \<noteq> None"
proof (induction "opt_len - i" arbitrary: i rule: less_induct)
  case less
  have l: "start + 20 + opt_len \<le> length p" using less.prems by simp
  obtain r where r: "mss_walk p mtu start opt_len i = r" by blast
  from r l show ?case
  proof (cases rule: mss_walk_cases)
    case (onward n)
    thus ?thesis using less.hyps [of "i + n", OF _ less.prems] r by simp
  next
    case mss
    have "mss_rewrite p mtu start i \<noteq> None" using mss(1) less.prems by (auto simp: mss_rewrite_def be_at_eq Let_def)
    thus ?thesis using r mss by simp
  qed (use r in simp)
qed

lemma mss_walk_false:
  "mss_walk p mtu start opt_len i = Some (False, p') \<Longrightarrow> start + 20 + opt_len \<le> length p \<Longrightarrow> p' = p"
proof (induction "opt_len - i" arbitrary: i rule: less_induct)
  case less
  from less.prems show ?case
  proof (cases rule: mss_walk_cases)
    case (onward n)
    thus ?thesis using less.hyps [OF _ _ less.prems(2), of "i + n"] by simp
  next
    case mss
    thus ?thesis by (auto simp: mss_rewrite_def Let_def bind_eq_Some_conv split: if_splits)
  qed simp
qed

definition tcp_doff :: "bytes \<Rightarrow> nat \<Rightarrow> nat" where
  "tcp_doff p start = unat (p ! (start + 12)) div 16"

text \<open>The clamp is the walk over the options, or leaves the frame alone.\<close>

lemma clamp_cases:
  assumes "clamp p mtu = r"
  obtains "r = Some (False, p)"
  | start where "mss_tcp p = Some (Some start)" "r = mss_walk p mtu start ((tcp_doff p start - 5) * 4) 0"
      "start + 20 + (tcp_doff p start - 5) * 4 \<le> length p"
proof -
  obtain tcp where tcp: "mss_tcp p = Some tcp" using mss_tcp_returns by blast
  show thesis
  proof (cases tcp)
    case None
    thus thesis using assms tcp that(1) by (simp add: clamp_def)
  next
    case (Some start)
    show thesis
    proof (cases "start + 20 < length p \<and> 5 \<le> tcp_doff p start \<and> start + 20 + (tcp_doff p start - 5) * 4 \<le> length p")
      case False
      thus thesis using assms tcp Some that(1) by (auto simp: clamp_def rd_def tcp_doff_def not_less not_le Let_def)
    next
      case True
      thus thesis using assms tcp Some that(2) [of start] by (simp add: clamp_def rd_def tcp_doff_def Let_def)
    qed
  qed
qed

lemma clamp_length: "clamp p mtu = Some (b, p') \<Longrightarrow> length p' = length p"
proof (erule clamp_cases)
  fix start
  assume w: "Some (b, p') = mss_walk p mtu start ((tcp_doff p start - 5) * 4) 0" and l: "start + 20 + (tcp_doff p start - 5) * 4 \<le> length p"
  show "length p' = length p"
  proof (cases b)
    case True
    thus ?thesis using mss_walk_done [OF _ l, of mtu 0 p'] w unfolding mss_done_def by metis
  next
    case False
    thus ?thesis using mss_walk_false [OF _ l, of mtu 0 p'] w by metis
  qed
qed simp

text \<open>
  C24: when the clamp rewrites a frame, it found a TCP header at some \<open>start\<close> and an MSS option at some
  offset among its options; the frame keeps its length and every byte but the option's value and the
  TCP checksum; the new value is the MTU less all the headers and smaller than the old one; and the
  checksum word and the option word have the same one's-complement sum as before, so that the TCP
  checksum stays right when the option begins at an even offset. It returns on every frame that has
  two bytes after its TCP options.
\<close>

theorem clamp_sound:
  "(\<forall>p'. clamp p mtu = Some (True, p') \<longrightarrow> (\<exists>start j. mss_tcp p = Some (Some start) \<and>
      j + 2 \<le> (tcp_doff p start - 5) * 4 \<and> p ! (start + 20 + j) = 2 \<and> mss_done p mtu start j p')) \<and>
   (\<forall>p'. clamp p mtu = Some (False, p') \<longrightarrow> p' = p) \<and>
   ((\<forall>start. mss_tcp p = Some (Some start) \<longrightarrow> start + 22 + (tcp_doff p start - 5) * 4 \<le> length p) \<longrightarrow> clamp p mtu \<noteq> None)"
proof (intro conjI allI impI)
  fix p'
  assume "clamp p mtu = Some (True, p')"
  thus "\<exists>start j. mss_tcp p = Some (Some start) \<and> j + 2 \<le> (tcp_doff p start - 5) * 4 \<and> p ! (start + 20 + j) = 2 \<and> mss_done p mtu start j p'"
  proof (cases rule: clamp_cases)
    case (2 start)
    thus ?thesis using mss_walk_done [of p mtu start _ 0 p'] by auto
  qed simp
next
  fix p'
  assume "clamp p mtu = Some (False, p')"
  thus "p' = p"
  proof (cases rule: clamp_cases)
    case (2 start)
    thus ?thesis using mss_walk_false [of p mtu start _ 0 p'] by simp
  qed simp
next
  assume r: "\<forall>start. mss_tcp p = Some (Some start) \<longrightarrow> start + 22 + (tcp_doff p start - 5) * 4 \<le> length p"
  obtain c where c: "clamp p mtu = c" by blast
  from c show "clamp p mtu \<noteq> None"
  proof (cases rule: clamp_cases)
    case (2 start)
    thus ?thesis using r c mss_walk_returns [of start _ p mtu 0] by simp
  qed (use c in simp)
qed

text \<open>An IPv4 SYN to an address, with the given data offset and TCP options.\<close>

definition syn_frame :: "u8 \<Rightarrow> u8 \<Rightarrow> u8 \<Rightarrow> u8 \<Rightarrow> u8 \<Rightarrow> bytes \<Rightarrow> bytes" where
  "syn_frame a b c d doff opts =
     [0, 0, 0, 0, 0, 0, 0, 0, 0, 0, 0, 0, 8, 0,
      0x45, 0, 0, 0, 0, 0, 0, 0, 0, 6, 0, 0, 0, 0, 0, 0, a, b, c, d,
      0, 0, 0, 0, 0, 0, 0, 0, 0, 0, 0, 0, doff, 0, 0, 0, 0x12, 0x34, 0, 0] @ opts"

lemmas syn_simps = mss_tcp_def mss_rewrite_def clamp_def be_at_def rd_def syn_frame_def mss_csum_def be_u16_def
  ETHER_SIZE_def ETH_P_8021Q_def ETH_P_IP_def ETH_P_IPV6_def

theorem clamp_sound_witness:
  "let p = syn_frame 10 0 0 1 0x60 [2, 4, 5, 180, 0, 0] in
   \<exists>p' start j. clamp p 1400 = Some (True, p') \<and> mss_tcp p = Some (Some start) \<and> mss_done p 1400 start j p'"
proof -
  let ?p = "syn_frame 10 0 0 1 0x60 [2, 4, 5, 180, 0, 0]"
  have "clamp ?p 1400 = mss_walk ?p 1400 34 4 0" by (simp add: syn_simps)
  also have "\<dots> = mss_rewrite ?p 1400 34 0" by (subst mss_walk.simps) (simp add: rd_def syn_frame_def)
  also have "map_option fst \<dots> = Some True" by (subst mss_rewrite_eq) (simp_all add: syn_frame_def word_at_def)
  finally have "map_option fst (clamp ?p 1400) = Some True" .
  then obtain p' where "clamp ?p 1400 = Some (True, p')" by auto
  thus ?thesis using clamp_sound [of ?p 1400] unfolding Let_def by blast
qed

text \<open>The walk reaches an MSS option of stated length 2 in the last two bytes of the frame.\<close>

lemma clamp_panics: "clamp (syn_frame a b c d 0x70 [254, 4, 0, 0, 1, 1, 2, 2]) mtu = None"
proof -
  let ?p = "syn_frame a b c d 0x70 [254, 4, 0, 0, 1, 1, 2, 2]"
  have "clamp ?p mtu = mss_walk ?p mtu 34 8 0" by (simp add: syn_simps)
  also have "\<dots> = mss_walk ?p mtu 34 8 4" by (subst mss_walk.simps) (simp add: rd_def syn_frame_def)
  also have "\<dots> = mss_walk ?p mtu 34 8 5" by (subst mss_walk.simps) (simp add: rd_def syn_frame_def)
  also have "\<dots> = mss_walk ?p mtu 34 8 6" by (subst mss_walk.simps) (simp add: rd_def syn_frame_def)
  also have "\<dots> = mss_rewrite ?p mtu 34 6" by (subst mss_walk.simps) (simp add: rd_def syn_frame_def)
  also have "\<dots> = None" by (simp add: mss_rewrite_def be_at_def rd_def syn_frame_def)
  finally show ?thesis .
qed

text \<open>
  The clamp compares the length byte of the first option, not of the MSS option, with 4. On a
  segment whose options are an unknown option of length 4, two paddings and an MSS option of stated
  length 2, with nothing after them, it panics: the value of the option lies past the end of the
  frame. And on a valid segment whose MSS option stands at an odd offset after such an option it
  rewrites the value and leaves a wrong TCP checksum: the sum of the segment changes.
\<close>

lemma clamp_malformed:
  "clamp (syn_frame a b c d 0x70 [254, 4, 0, 0, 1, 1, 2, 2]) mtu = None \<and>
   (let p = syn_frame 10 0 0 1 0x80 [254, 4, 0, 0, 1, 2, 4, 5, 180, 1, 1, 1] in
    case clamp p 1400 of Some (True, p') \<Rightarrow> word_at p' 61 = 1346 \<and> words_sum (drop 34 p') mod 65535 \<noteq> words_sum (drop 34 p) mod 65535 | _ \<Rightarrow> False)"
proof -
  let ?q = "syn_frame 10 0 0 1 0x80 [254, 4, 0, 0, 1, 2, 4, 5, 180, 1, 1, 1]"
  have "clamp ?q 1400 = mss_walk ?q 1400 34 12 0" by (simp add: syn_simps)
  also have "\<dots> = mss_walk ?q 1400 34 12 4" by (subst mss_walk.simps) (simp add: syn_simps)
  also have "\<dots> = mss_walk ?q 1400 34 12 5" by (subst mss_walk.simps) (simp add: syn_simps)
  also have "\<dots> = mss_rewrite ?q 1400 34 5" by (subst mss_walk.simps) (simp add: rd_def syn_frame_def)
  finally have q: "clamp ?q 1400 = mss_rewrite ?q 1400 34 5" .
  have "mss_rewrite ?q 1400 34 5 = Some (True, ?q[61 := 5, 62 := 66, 50 := 0x12, 51 := 0xa6])"
    by (subst mss_rewrite_eq) (simp_all add: syn_frame_def word_at_def mss_csum_def)
  thus ?thesis unfolding Let_def clamp_panics q by (simp add: syn_frame_def word_at_def)
qed

end
