(* ===== verification/Icmp_Synth.thy ===== *)
theory Icmp_Synth
  imports Packets
begin

text \<open>
  The error packets the daemon answers with: \<open>tincd/src/icmp.rs\<close>, and the ARP and neighbour replies of
  \<open>tincd/src/neighbor.rs\<close>. The theorems say that a receiver accepts them: addresses, lengths, quotation
  and both checksums. \<open>le\<close> is the byte order of the host.
\<close>

section \<open>Error packets\<close>

definition eth_reply_hdr :: "bytes \<Rightarrow> bytes" where
  "eth_reply_hdr original = take 6 (drop 6 original) @ take 6 original @ take 2 (drop 12 original)"

definition IP_MSS :: nat where "IP_MSS = 576"
definition ICMP_SIZE :: nat where "ICMP_SIZE = 8"
definition V4_QUOTE_CAP :: nat where "V4_QUOTE_CAP = IP_MSS - IP_SIZE - ICMP_SIZE"
definition V6_QUOTE_CAP :: nat where "V6_QUOTE_CAP = IP_MSS - IP6_SIZE - ICMP6_SIZE"

definition build_v4_unreachable :: "bool \<Rightarrow> bytes \<Rightarrow> u8 \<Rightarrow> u8 \<Rightarrow> u16 option \<Rightarrow> bytes option \<Rightarrow> bytes option" where
  "build_v4_unreachable le original t c frag_mtu src_override =
     (if length original < ETHER_SIZE + IP_SIZE then None
      else let
        eth = eth_reply_hdr original;
        orig_ip = ipv4_read (take IP_SIZE (drop ETHER_SIZE original));
        src = ip_src orig_ip;
        dst = (case src_override of None \<Rightarrow> ip_dst orig_ip | Some a \<Rightarrow> a);
        oldlen = min (length original - ETHER_SIZE) V4_QUOTE_CAP;
        quote = take oldlen (drop ETHER_SIZE original);
        ip = set_vhl 4 5 ipv4_default;
        ip = ip\<lparr>ip_tos := 0\<rparr>;
        ip = set_total_len (of_nat (IP_SIZE + ICMP_SIZE + oldlen)) ip;
        ip = set_off 0 (set_id 0 ip);
        ip = ip\<lparr>ip_ttl := 255, ip_p := IPPROTO_ICMP, ip_sum := (0, 0), ip_src := dst, ip_dst := src\<rparr>;
        ip = ip\<lparr>ip_sum := to_ne16 le (inet_checksum le (ipv4_bytes ip) 0xFFFF)\<rparr>;
        icmp = icmp_default\<lparr>icmp_type := t, icmp_code := c, icmp_cksum := (0, 0)\<rparr>;
        icmp = (case frag_mtu of None \<Rightarrow> icmp | Some mtu \<Rightarrow> set_nextmtu mtu icmp);
        ck = inet_checksum le (icmp_bytes icmp) 0xFFFF;
        ck = inet_checksum le quote ck;
        icmp = icmp\<lparr>icmp_cksum := to_ne16 le ck\<rparr>
      in Some (eth @ ipv4_bytes ip @ icmp_bytes icmp @ quote))"

definition build_v6_unreachable :: "bool \<Rightarrow> bytes \<Rightarrow> u8 \<Rightarrow> u8 \<Rightarrow> u32 option \<Rightarrow> bytes option \<Rightarrow> bytes option" where
  "build_v6_unreachable le original t c pkt_too_big_mtu src_override =
     (if length original < ETHER_SIZE + IP6_SIZE then None
      else let
        eth = eth_reply_hdr original;
        orig_ip6 = ipv6_read (take IP6_SIZE (drop ETHER_SIZE original));
        new_src = (case src_override of None \<Rightarrow> ip6_dst orig_ip6 | Some a \<Rightarrow> a);
        new_dst = ip6_src orig_ip6;
        quote_len = min (length original - ETHER_SIZE) V6_QUOTE_CAP;
        quote = take quote_len (drop ETHER_SIZE original);
        ip6 = set_flow 0x60000000 ipv6_default;
        ip6 = set_plen (of_nat (ICMP6_SIZE + quote_len)) ip6;
        ip6 = ip6\<lparr>ip6_nxt := IPPROTO_ICMPV6, ip6_hlim := 255, ip6_src := new_src, ip6_dst := new_dst\<rparr>;
        icmp6 = icmp6_default\<lparr>icmp6_type := t, icmp6_code := c, icmp6_cksum := (0, 0)\<rparr>;
        icmp6 = (case pkt_too_big_mtu of None \<Rightarrow> icmp6 | Some mtu \<Rightarrow> set_mtu mtu icmp6);
        pseudo = ipv6_pseudo new_src new_dst (of_nat (ICMP6_SIZE + quote_len)) (ucast IPPROTO_ICMPV6);
        ck = inet_checksum le (ipv6_pseudo_bytes pseudo) 0xFFFF;
        ck = inet_checksum le (icmp6_bytes icmp6) ck;
        ck = inet_checksum le quote ck;
        icmp6 = icmp6\<lparr>icmp6_cksum := to_ne16 le ck\<rparr>
      in Some (eth @ ipv6_bytes ip6 @ icmp6_bytes icmp6 @ quote))"

section \<open>Rate limit of errors\<close>

record icmp_rate_limit =
  last_sec :: u64
  il_count :: u32

definition icmp_rate_limit_new :: icmp_rate_limit where
  "icmp_rate_limit_new = \<lparr>last_sec = 0, il_count = 0\<rparr>"

definition should_drop :: "u64 \<Rightarrow> u32 \<Rightarrow> icmp_rate_limit \<Rightarrow> bool \<times> icmp_rate_limit" where
  "should_drop now_sec freq l =
     (if last_sec l = now_sec \<and> freq \<le> il_count l then (True, l)
      else let l = (if last_sec l = now_sec then l else l\<lparr>last_sec := now_sec, il_count := 0\<rparr>)
        in (False, l\<lparr>il_count := il_count l + 1\<rparr>))"

section \<open>A receiver of error packets\<close>

definition eth_swapped :: "bytes \<Rightarrow> bytes \<Rightarrow> bool" where
  "eth_swapped f g \<longleftrightarrow> take 6 g = take 6 (drop 6 f) \<and> take 6 (drop 6 g) = take 6 f \<and> take 2 (drop 12 g) = take 2 (drop 12 f)"

text \<open>An IPv4 stack: a 20-byte header with a correct length and sum, and an ICMP message with a correct sum.\<close>

definition icmp4_accepts :: "bytes \<Rightarrow> bool" where
  "icmp4_accepts p \<longleftrightarrow> 28 \<le> length p \<and> p ! 0 = 0x45 \<and> unat (be_u16 (p ! 2) (p ! 3)) = length p \<and> p ! 9 = IPPROTO_ICMP \<and>
     words_sum (take 20 p) mod 65535 = 0 \<and> words_sum (drop 20 p) mod 65535 = 0"

text \<open>An IPv6 stack: the sum covers the addresses, the length and the next header as well.\<close>

definition icmp6_accepts :: "bytes \<Rightarrow> bool" where
  "icmp6_accepts p \<longleftrightarrow> 48 \<le> length p \<and> p ! 0 = 0x60 \<and> unat (be_u16 (p ! 4) (p ! 5)) = length p - 40 \<and> p ! 6 = IPPROTO_ICMPV6 \<and>
     (words_sum (take 32 (drop 8 p)) + (length p - 40) + 58 + words_sum (drop 40 p)) mod 65535 = 0"

lemma length_hdrs:
  "length (ipv4_bytes h) = 12 + length (ip_src h) + length (ip_dst h)" "length (icmp_bytes i) = 8"
  "length (ipv6_bytes h6) = 8 + length (ip6_src h6) + length (ip6_dst h6)" "length (icmp6_bytes i6) = 8"
  "length (ipv6_pseudo_bytes ps) = 8 + length (ps_src ps) + length (ps_dst ps)"
  by (simp_all add: ipv4_bytes_def icmp_bytes_def ipv6_bytes_def icmp6_bytes_def ipv6_pseudo_bytes_def raw16_bytes_def)

lemma icmp_sum:
  assumes "icmp_cksum i = (0, 0)" "length quote \<le> 65536"
  shows "ne_sum le (icmp_bytes (i\<lparr>icmp_cksum := to_ne16 le (inet_checksum le quote (inet_checksum le (icmp_bytes i) 0xFFFF))\<rparr>) @ quote) mod 65535 = 0"
proof -
  define d rest where "d = [icmp_type i, icmp_code i]" and "rest = raw16_bytes (icmp_void i) @ raw16_bytes (icmp_nextmtu i)"
  have b: "icmp_bytes (i\<lparr>icmp_cksum := r\<rparr>) = d @ raw16_bytes r @ rest" for r by (simp add: icmp_bytes_def d_def rest_def)
  have i: "icmp_bytes i = d @ raw16_bytes (0, 0) @ rest" by (simp add: icmp_bytes_def d_def rest_def assms(1))
  have l: "even (length d)" "even (length rest)" by (simp_all add: d_def rest_def)
  have "ck_sum (inet_checksum le (icmp_bytes i) 0xFFFF) (ne_sum le (icmp_bytes i))" by (rule ck_sum_start) (simp add: length_hdrs)
  from ck_sum_chain [OF this assms(2)]
  have "ck_sum (inet_checksum le quote (inet_checksum le (icmp_bytes i) 0xFFFF)) (ne_sum le d + ne_sum le (rest @ quote))"
    by (simp add: i sum_append l ne_sum_zero add.assoc)
  from ck_sum_stored [OF this l(1)] show ?thesis unfolding b by simp
qed

lemma icmp6_sum:
  assumes "icmp6_cksum i = (0, 0)" "le \<or> even (length quote)" "length quote \<le> 65536" "even (length ps)" "length ps \<le> 65536"
  defines "ck \<equiv> inet_checksum le quote (inet_checksum le (icmp6_bytes i) (inet_checksum le ps 0xFFFF))"
  shows "(words_sum ps + words_sum (icmp6_bytes (i\<lparr>icmp6_cksum := to_ne16 le ck\<rparr>) @ quote)) mod 65535 = 0"
proof -
  define d rest where "d = ps @ [icmp6_type i, icmp6_code i]" and "rest = raw32_bytes (icmp6_data32 i)"
  have b: "ps @ icmp6_bytes (i\<lparr>icmp6_cksum := r\<rparr>) @ quote = d @ raw16_bytes r @ rest @ quote" for r by (simp add: icmp6_bytes_def d_def rest_def)
  have i: "ps @ icmp6_bytes i = d @ raw16_bytes (0, 0) @ rest" by (simp add: icmp6_bytes_def d_def rest_def assms(1))
  have l: "even (length d)" "even (length rest)" using assms(4) by (simp_all add: d_def rest_def)
  have "ck_sum (inet_checksum le ps 0xFFFF) (ne_sum le ps)" by (rule ck_sum_start) (rule assms)
  hence "ck_sum (inet_checksum le (icmp6_bytes i) (inet_checksum le ps 0xFFFF)) (ne_sum le ps + ne_sum le (icmp6_bytes i))"
    by (rule ck_sum_chain) (simp add: length_hdrs)
  hence "ck_sum ck (ne_sum le ps + ne_sum le (icmp6_bytes i) + ne_sum le quote)" unfolding ck_def by (rule ck_sum_chain) (rule assms)
  moreover have "ne_sum le ps + ne_sum le (icmp6_bytes i) = ne_sum le d + ne_sum le rest"
    using arg_cong [OF i, of "ne_sum le"] by (simp add: sum_append l assms(4) ne_sum_zero)
  ultimately have "ck_sum ck (ne_sum le d + ne_sum le (rest @ quote))" by (simp add: sum_append l add.assoc)
  hence "words_sum (d @ raw16_bytes (to_ne16 le ck) @ rest @ quote) mod 65535 = 0" by (rule ck_sum_wire) (use l assms in simp_all)
  thus ?thesis unfolding b [symmetric] by (simp add: sum_append assms(4))
qed

lemma words_sum_be32: "n < 65536 \<Longrightarrow> words_sum (raw32_bytes (to_be32 (of_nat n))) = n"
  by (simp add: to_be32_def unsigned_ucast_eq drop_bit_eq_div take_bit_eq_mod unsigned_of_nat unat_div)

lemma eth_reply_swapped:
  assumes "14 \<le> length f"
  shows "length (eth_reply_hdr f) = 14" "eth_swapped f (eth_reply_hdr f @ p)"
  using assms by (simp_all add: eth_reply_hdr_def eth_swapped_def)

text \<open>The parts of an error packet.\<close>

definition reply_src :: "nat \<Rightarrow> nat \<Rightarrow> bytes \<Rightarrow> bytes option \<Rightarrow> bytes" where
  "reply_src i n original src_override = (case src_override of None \<Rightarrow> take n (drop i original) | Some a \<Rightarrow> a)"

definition err_ip4 :: "bytes \<Rightarrow> bytes option \<Rightarrow> nat \<Rightarrow> ipv4_hdr" where
  "err_ip4 original src_override n = \<lparr>ip_vhl = 0x45, ip_tos = 0, ip_len = to_be16 (of_nat (28 + n)), ip_id = (0, 0), ip_off = (0, 0),
     ip_ttl = 255, ip_p = 1, ip_sum = (0, 0), ip_src = reply_src 30 4 original src_override, ip_dst = take 4 (drop 26 original)\<rparr>"

definition err_icmp4 :: "u8 \<Rightarrow> u8 \<Rightarrow> u16 option \<Rightarrow> icmp_hdr" where
  "err_icmp4 t c frag_mtu = \<lparr>icmp_type = t, icmp_code = c, icmp_cksum = (0, 0), icmp_void = (0, 0),
     icmp_nextmtu = (case frag_mtu of None \<Rightarrow> (0, 0) | Some m \<Rightarrow> to_be16 m)\<rparr>"

definition err_ip6 :: "bytes \<Rightarrow> bytes option \<Rightarrow> nat \<Rightarrow> ipv6_hdr" where
  "err_ip6 original src_override n = \<lparr>ip6_flow = (0x60, 0, 0, 0), ip6_plen = to_be16 (of_nat (8 + n)), ip6_nxt = 58, ip6_hlim = 255,
     ip6_src = reply_src 38 16 original src_override, ip6_dst = take 16 (drop 22 original)\<rparr>"

definition err_icmp6 :: "u8 \<Rightarrow> u8 \<Rightarrow> u32 option \<Rightarrow> icmp6_hdr" where
  "err_icmp6 t c too_big = \<lparr>icmp6_type = t, icmp6_code = c, icmp6_cksum = (0, 0),
     icmp6_data32 = (case too_big of None \<Rightarrow> (0, 0, 0, 0) | Some m \<Rightarrow> to_be32 m)\<rparr>"

definition err_pseudo :: "bytes \<Rightarrow> bytes option \<Rightarrow> nat \<Rightarrow> bytes" where
  "err_pseudo original src_override n =
     ipv6_pseudo_bytes (ipv6_pseudo (reply_src 38 16 original src_override) (take 16 (drop 22 original)) (of_nat (8 + n)) 58)"

lemma length_reply_src:
  "i + n \<le> length original \<Longrightarrow> (\<And>a. src_override = Some a \<Longrightarrow> length a = n) \<Longrightarrow> length (reply_src i n original src_override) = n"
  by (auto simp: reply_src_def split: option.splits)

lemma build_v4_shape:
  fixes original frag_mtu t c src_override
  defines "q \<equiv> take 548 (drop 14 original)" and "icmp \<equiv> err_icmp4 t c frag_mtu"
  defines "ip \<equiv> err_ip4 original src_override (length (take 548 (drop 14 original)))"
  assumes "build_v4_unreachable le original t c frag_mtu src_override = Some out"
  shows "34 \<le> length original"
    "out = eth_reply_hdr original @ ipv4_bytes (ip\<lparr>ip_sum := to_ne16 le (inet_checksum le (ipv4_bytes ip) 0xFFFF)\<rparr>) @
       icmp_bytes (icmp\<lparr>icmp_cksum := to_ne16 le (inet_checksum le q (inet_checksum le (icmp_bytes icmp) 0xFFFF))\<rparr>) @ q"
proof -
  show len: "34 \<le> length original" using assms(4) by (simp add: build_v4_unreachable_def ETHER_SIZE_def IP_SIZE_def split: if_splits)
  define dst src where "dst = reply_src 30 4 original src_override" and "src = take 4 (drop 26 original)"
  have m: "take (length q) (drop 14 original) = q" "min (length original - 14) 548 = length q" "V4_QUOTE_CAP = 548"
    by (simp_all add: q_def V4_QUOTE_CAP_def IP_MSS_def IP_SIZE_def ICMP_SIZE_def min_def)
  have i: "(case frag_mtu of None \<Rightarrow> icmp_default\<lparr>icmp_type := t, icmp_code := c, icmp_cksum := (0, 0)\<rparr>
      | Some mtu \<Rightarrow> set_nextmtu mtu (icmp_default\<lparr>icmp_type := t, icmp_code := c, icmp_cksum := (0, 0)\<rparr>)) = icmp"
    by (simp add: icmp_def err_icmp4_def icmp_default_def set_nextmtu_def split: option.split)
  have "to_be16 0 = (0, 0)" by (simp add: to_be16_def)
  hence p: "set_off 0 (set_id 0 (set_total_len (of_nat (20 + 8 + length q)) ((set_vhl 4 5 ipv4_default)\<lparr>ip_tos := 0\<rparr>)))
      \<lparr>ip_ttl := 255, ip_p := 1, ip_sum := (0, 0), ip_src := dst, ip_dst := src\<rparr> = ip"
    by (simp add: ip_def err_ip4_def dst_def src_def q_def set_off_def set_id_def set_total_len_def set_vhl_def ipv4_default_def)
  have s: "ip_src (ipv4_read (take 20 (drop 14 original))) = src" "ip_dst (ipv4_read (take 20 (drop 14 original))) = take 4 (drop 30 original)"
    by (simp_all add: ipv4_read_def src_def drop_take)
  show "out = eth_reply_hdr original @ ipv4_bytes (ip\<lparr>ip_sum := to_ne16 le (inet_checksum le (ipv4_bytes ip) 0xFFFF)\<rparr>) @
       icmp_bytes (icmp\<lparr>icmp_cksum := to_ne16 le (inet_checksum le q (inet_checksum le (icmp_bytes icmp) 0xFFFF))\<rparr>) @ q"
    using assms(4) len unfolding build_v4_unreachable_def Let_def ETHER_SIZE_def IP_SIZE_def ICMP_SIZE_def
      IPPROTO_ICMP_def i s reply_src_def [symmetric] dst_def [symmetric] m p by simp
qed

lemma build_v6_shape:
  fixes original too_big t c src_override
  defines "q \<equiv> take 528 (drop 14 original)" and "icmp \<equiv> err_icmp6 t c too_big"
  defines "ip \<equiv> err_ip6 original src_override (length (take 528 (drop 14 original)))"
  defines "ps \<equiv> err_pseudo original src_override (length (take 528 (drop 14 original)))"
  assumes "build_v6_unreachable le original t c too_big src_override = Some out"
  shows "54 \<le> length original"
    "out = eth_reply_hdr original @ ipv6_bytes ip @ icmp6_bytes (icmp\<lparr>icmp6_cksum :=
       to_ne16 le (inet_checksum le q (inet_checksum le (icmp6_bytes icmp) (inet_checksum le ps 0xFFFF)))\<rparr>) @ q"
proof -
  show len: "54 \<le> length original" using assms(5) by (simp add: build_v6_unreachable_def ETHER_SIZE_def IP6_SIZE_def split: if_splits)
  define dst src where "dst = reply_src 38 16 original src_override" and "src = take 16 (drop 22 original)"
  have ps: "ipv6_pseudo_bytes (ipv6_pseudo dst src (of_nat (8 + length q)) 58) = ps" by (simp only: ps_def err_pseudo_def dst_def src_def q_def)
  have m: "take (length q) (drop 14 original) = q" "min (length original - 14) 528 = length q" "V6_QUOTE_CAP = 528"
    by (simp_all add: q_def V6_QUOTE_CAP_def IP_MSS_def IP6_SIZE_def ICMP6_SIZE_def min_def)
  have i: "(case too_big of None \<Rightarrow> icmp6_default\<lparr>icmp6_type := t, icmp6_code := c, icmp6_cksum := (0, 0)\<rparr>
      | Some mtu \<Rightarrow> set_mtu mtu (icmp6_default\<lparr>icmp6_type := t, icmp6_code := c, icmp6_cksum := (0, 0)\<rparr>)) = icmp"
    by (simp add: icmp_def err_icmp6_def icmp6_default_def set_mtu_def split: option.split)
  have p: "(set_plen (of_nat (8 + length q)) (set_flow 0x60000000 ipv6_default))
      \<lparr>ip6_nxt := 58, ip6_hlim := 255, ip6_src := dst, ip6_dst := src\<rparr> = ip" "ucast (58 :: u8) = (58 :: u32)"
    by (simp_all add: ip_def err_ip6_def dst_def src_def q_def set_plen_def set_flow_def ipv6_default_def to_be32_def)
  have s: "ip6_src (ipv6_read (take 40 (drop 14 original))) = src" "ip6_dst (ipv6_read (take 40 (drop 14 original))) = take 16 (drop 38 original)"
    by (simp_all add: ipv6_read_def src_def drop_take)
  show "out = eth_reply_hdr original @ ipv6_bytes ip @ icmp6_bytes (icmp\<lparr>icmp6_cksum :=
       to_ne16 le (inet_checksum le q (inet_checksum le (icmp6_bytes icmp) (inet_checksum le ps 0xFFFF)))\<rparr>) @ q"
    using assms(5) len unfolding build_v6_unreachable_def Let_def ETHER_SIZE_def IP6_SIZE_def ICMP6_SIZE_def
      IPPROTO_ICMPV6_def i s reply_src_def [symmetric] dst_def [symmetric] src_def [symmetric] m p ps by simp
qed

text \<open>
  An IPv4 error packet goes back to the sender: the MAC addresses are swapped, the IP source is
  the old destination (or the override) and the IP destination the old source; the message carries
  the type and code and quotes the old datagram from its start, at most 576 bytes in all. A receiver
  accepts it: lengths and header sum are right and so is the ICMP sum, when the host is little
  endian or the quotation has an even length.
\<close>

lemma icmp4_accepted:
  assumes "build_v4_unreachable le original t c frag_mtu src_override = Some out"
    and "\<And>a. src_override = Some a \<Longrightarrow> length a = 4"
    and "le \<or> even (length original)"
  shows "eth_swapped original out \<and> icmp4_accepts (drop 14 out) \<and> length out \<le> 590 \<and>
     ip_src (ipv4_read (drop 14 out)) = reply_src 30 4 original src_override \<and>
     ip_dst (ipv4_read (drop 14 out)) = take 4 (drop 26 original) \<and> out ! 34 = t \<and> out ! 35 = c \<and>
     drop 42 out = take 548 (drop 14 original)"
proof -
  define dst src q where "dst = reply_src 30 4 original src_override" and "src = take 4 (drop 26 original)" and "q = take 548 (drop 14 original)"
  define ip where "ip = err_ip4 original src_override (length q)"
  define icmp where "icmp = err_icmp4 t c frag_mtu"
  define ip' where "ip' = ip\<lparr>ip_sum := to_ne16 le (inet_checksum le (ipv4_bytes ip) 0xFFFF)\<rparr>"
  define icmp' where "icmp' = icmp\<lparr>icmp_cksum := to_ne16 le (inet_checksum le q (inet_checksum le (icmp_bytes icmp) 0xFFFF))\<rparr>"
  note shape = build_v4_shape [OF assms(1)]
  have len: "34 \<le> length original" by (rule shape)
  have out: "out = eth_reply_hdr original @ ipv4_bytes ip' @ icmp_bytes icmp' @ q"
    using shape(2) by (simp only: ip'_def icmp'_def ip_def icmp_def q_def)
  have l: "length dst = 4" "length src = 4" using len assms(2) by (simp_all add: dst_def src_def length_reply_src)
  have q: "length q = min 548 (length original - 14)" "length q \<le> 548" using len by (simp_all add: q_def)
  note ips = ip_def [unfolded err_ip4_def, folded dst_def src_def] and icmps = icmp_def [unfolded err_icmp4_def]
  define r where "r = ipv4_bytes ip' @ icmp_bytes icmp' @ q"
  have len4: "length (ipv4_bytes ip') = 20" using l by (simp add: length_hdrs ip'_def ips)
  have eth: "length (eth_reply_hdr original) = 14" "eth_swapped original (eth_reply_hdr original @ r)" using len by (simp_all add: eth_reply_swapped)
  have r: "drop 14 out = r" "take 20 r = ipv4_bytes ip'" "drop 20 r = icmp_bytes icmp' @ q" "length r = 28 + length q"
    using len4 eth(1) by (simp_all add: out r_def length_hdrs)
  have "28 + length q < 65536" using q(2) by simp
  hence w: "unat (of_nat (28 + length q) :: u16) = 28 + length q" by (intro unat_of_nat_small) simp
  have hd: "r ! 0 = 0x45" "be_u16 (r ! 2) (r ! 3) = of_nat (28 + length q)" "r ! 9 = 1" "take 4 (drop 12 r) = dst" "take 4 (drop 16 r) = src"
    using l by (simp_all add: r_def ip'_def ips ipv4_bytes_def raw16_bytes_def to_be16_def be_u16_split del: of_nat_add)
  have sums: "words_sum (take 20 r) mod 65535 = 0" "words_sum (drop 20 r) mod 65535 = 0"
  proof -
    show "words_sum (take 20 r) mod 65535 = 0" unfolding r ip'_def by (rule ipv4_header_sum) (simp_all add: ips l)
    have ev: "le \<or> even (length q)" using assms(3) len q(1) by (auto simp: min_def)
    show "words_sum (drop 20 r) mod 65535 = 0" unfolding r icmp'_def
      by (rule words_sum_zero [OF icmp_sum]) (use q ev in \<open>auto simp: icmps length_hdrs\<close>)
  qed
  have "icmp4_accepts r" unfolding icmp4_accepts_def using hd(1-3) sums r(4) w by (simp add: IPPROTO_ICMP_def)
  moreover have "ip_src (ipv4_read r) = dst" "ip_dst (ipv4_read r) = src" using hd by (simp_all add: ipv4_read_def)
  moreover have "out ! 34 = t" "out ! 35 = c" "drop 42 out = q"
    using eth(1) len4 by (simp_all add: out nth_append length_hdrs icmp'_def icmps icmp_bytes_def)
  moreover have "length out \<le> 590" using eth(1) q r(4) by (simp add: out r_def)
  ultimately show ?thesis using eth(2) r(1) by (simp add: out r_def dst_def src_def q_def)
qed

text \<open>
  An IPv6 error packet goes back to the sender, quotes the old datagram from its start, is at
  most 576 bytes of IPv6 long, and a receiver accepts it: the payload length is right and so is the
  checksum over the pseudo header and the message, when the host is little endian or the quotation
  has an even length.
\<close>

lemma icmp6_accepted:
  assumes "build_v6_unreachable le original t c too_big src_override = Some out"
    and "\<And>a. src_override = Some a \<Longrightarrow> length a = 16"
    and "le \<or> even (length original)"
  shows "eth_swapped original out \<and> icmp6_accepts (drop 14 out) \<and> length out \<le> 590 \<and>
     ip6_src (ipv6_read (drop 14 out)) = reply_src 38 16 original src_override \<and>
     ip6_dst (ipv6_read (drop 14 out)) = take 16 (drop 22 original) \<and> out ! 54 = t \<and> out ! 55 = c \<and>
     drop 62 out = take 528 (drop 14 original)"
proof -
  define dst src q where "dst = reply_src 38 16 original src_override" and "src = take 16 (drop 22 original)" and "q = take 528 (drop 14 original)"
  define ip where "ip = err_ip6 original src_override (length q)"
  define icmp where "icmp = err_icmp6 t c too_big"
  define ps where "ps = err_pseudo original src_override (length q)"
  define icmp' where "icmp' = icmp\<lparr>icmp6_cksum := to_ne16 le (inet_checksum le q (inet_checksum le (icmp6_bytes icmp) (inet_checksum le ps 0xFFFF)))\<rparr>"
  note shape = build_v6_shape [OF assms(1)]
  have len: "54 \<le> length original" by (rule shape)
  have out: "out = eth_reply_hdr original @ ipv6_bytes ip @ icmp6_bytes icmp' @ q"
    using shape(2) by (simp only: icmp'_def ip_def icmp_def ps_def q_def)
  have l: "length dst = 16" "length src = 16" using len assms(2) by (simp_all add: dst_def src_def length_reply_src)
  have q: "length q = min 528 (length original - 14)" "length q \<le> 528" using len by (simp_all add: q_def)
  note ips = ip_def [unfolded err_ip6_def, folded dst_def src_def] and icmps = icmp_def [unfolded err_icmp6_def]
    and pss = ps_def [unfolded err_pseudo_def, folded dst_def src_def]
  define r where "r = ipv6_bytes ip @ icmp6_bytes icmp' @ q"
  have len6: "length (ipv6_bytes ip) = 40" using l by (simp add: length_hdrs ips)
  have eth: "length (eth_reply_hdr original) = 14" "eth_swapped original (eth_reply_hdr original @ r)" using len by (simp_all add: eth_reply_swapped)
  have r: "drop 14 out = r" "drop 40 r = icmp6_bytes icmp' @ q" "length r = 48 + length q"
    using len6 eth(1) by (simp_all add: out r_def length_hdrs)
  have n: "8 + length q < 65536" using q(2) by simp
  hence w: "unat (of_nat (8 + length q) :: u16) = 8 + length q" by (intro unat_of_nat_small) simp
  have hd: "r ! 0 = 0x60" "be_u16 (r ! 4) (r ! 5) = of_nat (8 + length q)" "r ! 6 = 58" "take 16 (drop 8 r) = dst" "take 16 (drop 24 r) = src"
      "take 32 (drop 8 r) = dst @ src"
    using l by (simp_all add: r_def ips ipv6_bytes_def raw16_bytes_def to_be16_def be_u16_split del: of_nat_add)
  have "words_sum ps = words_sum (dst @ src) + (8 + length q) + 58"
  proof -
    have "words_sum (raw32_bytes (to_be32 58)) = 58" using words_sum_be32 [of 58] by simp
    moreover have "words_sum (raw32_bytes (to_be32 (of_nat (8 + length q)))) = 8 + length q" using n by (rule words_sum_be32)
    ultimately show ?thesis using l by (simp add: pss ipv6_pseudo_bytes_def ipv6_pseudo_def sum_append del: of_nat_add)
  qed
  moreover have "(words_sum ps + words_sum (icmp6_bytes icmp' @ q)) mod 65535 = 0"
  proof -
    have "le \<or> even (length q)" using assms(3) len q(1) by (auto simp: min_def)
    thus ?thesis unfolding icmp'_def by (intro icmp6_sum) (use q l in \<open>simp_all add: icmps pss length_hdrs ipv6_pseudo_def\<close>)
  qed
  ultimately have "icmp6_accepts r" unfolding icmp6_accepts_def using hd r(2,3) w by (simp add: IPPROTO_ICMPV6_def)
  moreover have "ip6_src (ipv6_read r) = dst" "ip6_dst (ipv6_read r) = src" using hd by (simp_all add: ipv6_read_def)
  moreover have "out ! 54 = t" "out ! 55 = c" "drop 62 out = q"
    using eth(1) len6 by (simp_all add: out nth_append length_hdrs icmp'_def icmps icmp6_bytes_def)
  moreover have "length out \<le> 590" using eth(1) q r(3) by (simp add: out r_def)
  ultimately show ?thesis using eth(2) r(1) by (simp add: out r_def dst_def src_def q_def)
qed

text \<open>
  On a big-endian host the error about a datagram of odd length, quoted whole and ending in a
  byte other than 0, has a wrong ICMP checksum: no receiver accepts it.
\<close>

lemma icmp4_big_endian:
  assumes "build_v4_unreachable False original t c frag_mtu src_override = Some out"
    and "\<And>a. src_override = Some a \<Longrightarrow> length a = 4"
    and "odd (length original)" "length original \<le> 562" "List.last original \<noteq> 0"
  shows "\<not> icmp4_accepts (drop 14 out)"
proof -
  define icmp q where "icmp = err_icmp4 t c frag_mtu" and "q = drop 14 original"
  note shape = build_v4_shape [OF assms(1)]
  have q: "q \<noteq> []" "List.last q \<noteq> 0" "odd (length q)" "take 548 (drop 14 original) = q" using shape(1) assms(3-5) by (auto simp: q_def)
  define m where "m = icmp_bytes (icmp\<lparr>icmp_cksum := to_ne16 False (inet_checksum False q (inet_checksum False (icmp_bytes icmp) 0xFFFF))\<rparr>)"
  have "ne_sum False (m @ q) mod 65535 = 0" unfolding m_def by (rule icmp_sum) (use assms(4) in \<open>simp_all add: icmp_def err_icmp4_def q_def\<close>)
  moreover have "m @ q = (m @ butlast q) @ [List.last q]" using q(1) by simp
  moreover have "even (length (m @ butlast q))" using q(3) by (simp add: m_def length_hdrs)
  ultimately have "words_sum (m @ q) mod 65535 \<noteq> 0" using words_sum_big_endian [of "m @ butlast q" "List.last q"] q(2) by metis
  moreover have "drop 20 (drop 14 out) = m @ q"
    using shape(1) eth_reply_swapped(1) [of original] length_reply_src [of 30 4 original, OF _ assms(2)]
    unfolding shape(2) q(4) by (simp add: m_def icmp_def length_hdrs err_ip4_def)
  ultimately show ?thesis by (simp add: icmp4_accepts_def)
qed

text \<open>At most \<open>freq\<close> errors pass in a second.\<close>

fun passed :: "u64 list \<Rightarrow> u32 \<Rightarrow> icmp_rate_limit \<Rightarrow> nat" where
  "passed [] freq l = 0"
| "passed (s # ss) freq l = (let (drop, l) = should_drop s freq l in (if drop then 0 else 1) + passed ss freq l)"

lemma passed_full: "last_sec l = s \<Longrightarrow> freq \<le> il_count l \<Longrightarrow> passed (replicate n s) freq l = 0"
  by (induction n) (simp_all add: should_drop_def)

lemma passed_same_second:
  "last_sec l = s \<Longrightarrow> il_count l \<le> freq \<Longrightarrow> passed (replicate n s) freq l + unat (il_count l) \<le> unat freq"
proof (induction n arbitrary: l)
  case (Suc n)
  show ?case
  proof (cases "freq \<le> il_count l")
    case True
    thus ?thesis using passed_full [OF Suc.prems(1) True, of "Suc n"] Suc.prems(2) by (simp add: word_le_nat_alt)
  next
    case False
    hence lt: "unat (il_count l) < unat freq" by (simp add: word_le_nat_alt)
    hence "unat (il_count l + 1) = unat (il_count l) + 1" using unsigned_less [of freq, where 'a = nat] by (subst unat_add_small) simp_all
    thus ?thesis using Suc.IH [of "l\<lparr>il_count := il_count l + 1\<rparr>"] Suc.prems False lt
      by (simp add: should_drop_def word_le_nat_alt)
  qed
qed (simp add: word_le_nat_alt)

end
