(* ===== verification/Neighbor.thy ===== *)
theory Neighbor
  imports Icmp_Synth
begin

text \<open>
  Answers to the kernel's address resolution, \<open>tincd/src/neighbor.rs\<close>: the parsers of ARP requests and
  neighbour solicitations and the builders of the replies, in which the link address is the kernel's
  own with the last byte inverted. \<open>None\<close> of a parser is a frame that is not for it; \<open>None\<close> of
  \<open>build_arp_reply\<close> is a panic.
\<close>

section \<open>Model\<close>

definition ETH_ALEN :: nat where "ETH_ALEN = 6"
definition ARP_SIZE :: nat where "ARP_SIZE = 28"
definition NS_SIZE :: nat where "NS_SIZE = 24"
definition OPT_SIZE :: nat where "OPT_SIZE = 2"
definition ND_NEIGHBOR_ADVERT :: u8 where "ND_NEIGHBOR_ADVERT = 136"
definition ND_OPT_SOURCE_LINKADDR :: u8 where "ND_OPT_SOURCE_LINKADDR = 1"
definition ND_OPT_TARGET_LINKADDR :: u8 where "ND_OPT_TARGET_LINKADDR = 2"

definition parse_arp_req :: "bytes \<Rightarrow> bytes option" where
  "parse_arp_req frame =
     (if length frame < ETHER_SIZE + ARP_SIZE then None
      else let arp = ether_arp_read (take ARP_SIZE (drop ETHER_SIZE frame)); h = ea_hdr arp
        in if from_be16 (ar_hrd h) \<noteq> ARPHRD_ETHER \<or> from_be16 (ar_pro h) \<noteq> ETH_P_IP \<or> ar_hln h \<noteq> 6 \<or> ar_pln h \<noteq> 4 \<or>
              from_be16 (ar_op h) \<noteq> ARPOP_REQUEST
           then None else Some (arp_tpa arp))"

text \<open>The kernel's address with the last byte inverted.\<close>

definition fake_mac :: "bytes \<Rightarrow> bytes" where
  "fake_mac eth_src = eth_src[ETH_ALEN - 1 := eth_src ! (ETH_ALEN - 1) XOR 0xFF]"

definition build_arp_reply :: "bytes \<Rightarrow> bytes option" where
  "build_arp_reply original =
     (if length original < ETHER_SIZE + ARP_SIZE then None
      else let
        arp = ether_arp_read (take ARP_SIZE (drop ETHER_SIZE original));
        arp = arp\<lparr>arp_tpa := arp_spa arp, arp_spa := arp_tpa arp\<rparr>;
        arp = arp\<lparr>arp_tha := arp_sha arp\<rparr>;
        arp = arp\<lparr>arp_sha := fake_mac (take ETH_ALEN (drop ETH_ALEN original))\<rparr>;
        arp = arp\<lparr>ea_hdr := (ea_hdr arp)\<lparr>ar_op := to_be16 ARPOP_REPLY\<rparr>\<rparr>
      in Some (take ETHER_SIZE original @ ether_arp_bytes arp))"

definition parse_ndp_solicit :: "bool \<Rightarrow> bytes \<Rightarrow> bytes option" where
  "parse_ndp_solicit le frame =
     (if length frame < ETHER_SIZE + IP6_SIZE + NS_SIZE then None
      else let
        has_opt = (ETHER_SIZE + IP6_SIZE + NS_SIZE + OPT_SIZE + ETH_ALEN \<le> length frame);
        ip6 = ipv6_read (take IP6_SIZE (drop ETHER_SIZE frame));
        ns_off = ETHER_SIZE + IP6_SIZE
      in if ip6_nxt ip6 \<noteq> IPPROTO_ICMPV6 then None
         else if frame ! ns_off \<noteq> ND_NEIGHBOR_SOLICIT then None
         else if has_opt \<and> frame ! (ns_off + NS_SIZE) \<noteq> ND_OPT_SOURCE_LINKADDR then None
         else let
           icmp_len = (if has_opt then NS_SIZE + OPT_SIZE + ETH_ALEN else NS_SIZE);
           pseudo = ipv6_pseudo (ip6_src ip6) (ip6_dst ip6) (of_nat icmp_len) (ucast IPPROTO_ICMPV6);
           ck = inet_checksum le (ipv6_pseudo_bytes pseudo) 0xFFFF;
           ck = inet_checksum le (take icmp_len (drop ns_off frame)) ck
         in if ck \<noteq> 0 then None else Some (take 16 (drop (ns_off + 8) frame)))"

definition build_ndp_advert :: "bool \<Rightarrow> bytes \<Rightarrow> bytes option" where
  "build_ndp_advert le original =
     (if length original < ETHER_SIZE + IP6_SIZE + NS_SIZE then None
      else let
        has_opt = (ETHER_SIZE + IP6_SIZE + NS_SIZE + OPT_SIZE + ETH_ALEN \<le> length original);
        icmp_len = (if has_opt then NS_SIZE + OPT_SIZE + ETH_ALEN else NS_SIZE);
        ns_off = ETHER_SIZE + IP6_SIZE;
        eth_src = take ETH_ALEN (drop ETH_ALEN original);
        fake = fake_mac eth_src;
        ip6 = ipv6_read (take IP6_SIZE (drop ETHER_SIZE original));
        target = take 16 (drop (ns_off + 8) original);
        ip6 = ip6\<lparr>ip6_dst := ip6_src ip6\<rparr>;
        ip6 = ip6\<lparr>ip6_src := target\<rparr>;
        ns = take icmp_len (drop ns_off original);
        ns = [ND_NEIGHBOR_ADVERT, ns ! 1, 0, 0] @ u32_be 0x40000000 @ drop 8 ns;
        ns = (if has_opt then take NS_SIZE ns @ [ND_OPT_TARGET_LINKADDR, ns ! (NS_SIZE + 1)] @ fake else ns);
        pseudo = ipv6_pseudo (ip6_src ip6) (ip6_dst ip6) (of_nat icmp_len) (ucast IPPROTO_ICMPV6);
        ck = inet_checksum le (ipv6_pseudo_bytes pseudo) 0xFFFF;
        ck = inet_checksum le ns ck;
        ns = take 2 ns @ raw16_bytes (to_ne16 le ck) @ drop 4 ns
      in Some (eth_src @ fake @ take 2 (drop 12 original) @ ipv6_bytes ip6 @ ns))"

section \<open>The ARP reply\<close>

lemma ether_arp_bytes_read:
  "length (arp_sha a) = 6 \<Longrightarrow> length (arp_spa a) = 4 \<Longrightarrow> length (arp_tha a) = 6 \<Longrightarrow> length (arp_tpa a) = 4 \<Longrightarrow>
   ether_arp_read (ether_arp_bytes a) = a"
  by (simp add: ether_arp_read_def ether_arp_bytes_def raw16_bytes_def Let_def)

lemma xor_ff: "(x :: u8) XOR 0xFF \<noteq> x"
proof
  assume "x XOR 0xFF = x"
  hence "x XOR (x XOR 0xFF) = x XOR x" by simp
  thus False by (simp add: xor.assoc [symmetric])
qed

text \<open>
  The answer to an ARP request for an address says that the address is at the kernel's own link
  address with the last byte inverted, an address other than the kernel's, and is directed to the
  asker; it is no request itself, so it is never answered again.
\<close>

lemma arp_reply_correct:
  assumes "parse_arp_req frame = Some target"
  shows "\<exists>reply. build_arp_reply frame = Some reply \<and> parse_arp_req reply = None \<and> length reply = 42 \<and>
     (let req = ether_arp_read (take 28 (drop 14 frame)); a = ether_arp_read (drop 14 reply); src = take 6 (drop 6 frame)
      in from_be16 (ar_op (ea_hdr a)) = ARPOP_REPLY \<and> arp_spa a = target \<and> arp_tpa a = arp_spa req \<and> arp_tha a = arp_sha req \<and>
         butlast (arp_sha a) = butlast src \<and> arp_sha a \<noteq> src)"
proof -
  define req where "req = ether_arp_read (take 28 (drop 14 frame))"
  define src where "src = take 6 (drop 6 frame)"
  define a where "a = req\<lparr>arp_tpa := arp_spa req, arp_spa := arp_tpa req, arp_tha := arp_sha req, arp_sha := fake_mac src,
     ea_hdr := (ea_hdr req)\<lparr>ar_op := to_be16 ARPOP_REPLY\<rparr>\<rparr>"
  have len: "42 \<le> length frame" and tgt: "target = arp_tpa req"
    using assms by (auto simp: parse_arp_req_def ETHER_SIZE_def ARP_SIZE_def req_def Let_def split: if_splits)
  have l: "length src = 6" "length (arp_sha req) = 6" "length (arp_spa req) = 4" "length (arp_tpa req) = 4" "length (fake_mac src) = 6"
    using len by (simp_all add: src_def req_def ether_arp_read_def fake_mac_def)
  define reply where "reply = take 14 frame @ ether_arp_bytes a"
  have r: "build_arp_reply frame = Some reply"
    using len by (simp add: build_arp_reply_def ETHER_SIZE_def ARP_SIZE_def ETH_ALEN_def reply_def a_def req_def src_def Let_def)
  have rd: "ether_arp_read (drop 14 reply) = a" "length (ether_arp_bytes a) = 28"
  proof -
    have "ether_arp_read (ether_arp_bytes a) = a" by (rule ether_arp_bytes_read) (use l in \<open>simp_all add: a_def\<close>)
    thus "ether_arp_read (drop 14 reply) = a" using len by (simp add: reply_def)
    show "length (ether_arp_bytes a) = 28" using l by (simp add: a_def ether_arp_bytes_def Let_def)
  qed
  have op: "from_be16 (ar_op (ea_hdr a)) = ARPOP_REPLY" by (simp add: a_def from_be16_def to_be16_def be_u16_split)
  have "ARPOP_REPLY \<noteq> ARPOP_REQUEST" by (simp add: ARPOP_REPLY_def ARPOP_REQUEST_def)
  hence "parse_arp_req reply = None" using rd op len by (simp add: parse_arp_req_def ETHER_SIZE_def ARP_SIZE_def Let_def reply_def)
  moreover have "butlast (fake_mac src) = butlast src" "fake_mac src \<noteq> src"
  proof -
    show "butlast (fake_mac src) = butlast src" using l(1) by (simp add: fake_mac_def ETH_ALEN_def butlast_list_update)
    have "fake_mac src ! 5 = src ! 5 XOR 0xFF" using l(1) by (simp add: fake_mac_def ETH_ALEN_def)
    thus "fake_mac src \<noteq> src" using xor_ff [of "src ! 5"] by metis
  qed
  ultimately show ?thesis using r rd op l len by (auto simp: reply_def a_def tgt req_def src_def Let_def)
qed

section \<open>The neighbour advertisement\<close>

lemma pseudo_sum:
  fixes le ps a post
  defines "ck \<equiv> inet_checksum le (a @ raw16_bytes (0, 0) @ post) (inet_checksum le ps 0xFFFF)"
  assumes "even (length ps)" "length ps \<le> 65536" "even (length a)" "even (length post)" "length (a @ raw16_bytes (0, 0) @ post) \<le> 65536"
  shows "(words_sum ps + words_sum (a @ raw16_bytes (to_ne16 le ck) @ post)) mod 65535 = 0"
proof -
  have "ck_sum ck (ne_sum le ps + ne_sum le (a @ raw16_bytes (0, 0) @ post))"
    unfolding ck_def using assms(3,6) by (intro ck_sum_chain ck_sum_start)
  hence "ck_sum ck (ne_sum le (ps @ a) + ne_sum le post)" using assms by (simp add: sum_append ne_sum_zero add.assoc)
  hence "words_sum ((ps @ a) @ raw16_bytes (to_ne16 le ck) @ post) mod 65535 = 0" by (rule ck_sum_wire) (use assms in simp_all)
  thus ?thesis using assms by (simp add: sum_append)
qed

lemma words_sum_pseudo:
  assumes "length a = 16" "length b = 16" "n < 65536"
  shows "words_sum (ipv6_pseudo_bytes (ipv6_pseudo a b (of_nat n) (ucast IPPROTO_ICMPV6))) = words_sum (a @ b) + n + 58"
proof -
  have "words_sum (raw32_bytes (to_be32 58)) = 58" using words_sum_be32 [of 58] by simp
  thus ?thesis using assms words_sum_be32 [OF assms(3)] by (simp add: ipv6_pseudo_bytes_def ipv6_pseudo_def sum_append IPPROTO_ICMPV6_def)
qed

text \<open>
  A well-formed neighbour solicitation that the parser accepts is answered by an advertisement
  that a receiver accepts, checksum over the pseudo header included: it comes from the address that
  was asked for, goes to the asker, and is no solicitation itself.
\<close>

lemma ndp_advert_accepted:
  assumes "parse_ndp_solicit le frame = Some target" "frame ! 14 = 0x60" "length frame = 78 \<or> length frame = 86"
    and "unat (be_u16 (frame ! 18) (frame ! 19)) = length frame - 54"
  shows "\<exists>out. build_ndp_advert le frame = Some out \<and> icmp6_accepts (drop 14 out) \<and> length out = length frame \<and>
     ip6_src (ipv6_read (drop 14 out)) = target \<and> ip6_dst (ipv6_read (drop 14 out)) = take 16 (drop 22 frame) \<and>
     out ! 54 = ND_NEIGHBOR_ADVERT \<and> take 6 out = take 6 (drop 6 frame) \<and> parse_ndp_solicit le out = None"
proof -
  define n where "n = length frame - 54"
  define ip6 where "ip6 = (ipv6_read (take 40 (drop 14 frame)))\<lparr>ip6_dst := take 16 (drop 22 frame), ip6_src := target\<rparr>"
  define eth where "eth = take 6 (drop 6 frame) @ fake_mac (take 6 (drop 6 frame)) @ take 2 (drop 12 frame)"
  define post where "post = u32_be 0x40000000 @ (if n = 32 then take 16 (drop 62 frame) @ [2, frame ! 79] @ fake_mac (take 6 (drop 6 frame)) else take 16 (drop 62 frame))"
  define ps where "ps = ipv6_pseudo_bytes (ipv6_pseudo target (take 16 (drop 22 frame)) (of_nat n) (ucast IPPROTO_ICMPV6))"
  define ck where "ck = inet_checksum le ([136, frame ! 55] @ raw16_bytes (0, 0) @ post) (inet_checksum le ps 0xFFFF)"
  define ns where "ns = [136, frame ! 55] @ raw16_bytes (to_ne16 le ck) @ post"
  have n: "n = 24 \<or> n = 32" "length frame = 54 + n" using assms(3) by (auto simp: n_def)
  have tgt: "target = take 16 (drop 62 frame)" "length target = 16" "frame ! 20 = 58"
    using assms(1) n by (auto simp: parse_ndp_solicit_def ETHER_SIZE_def IP6_SIZE_def NS_SIZE_def IPPROTO_ICMPV6_def ipv6_read_def Let_def split: if_splits)
  have mac: "length (fake_mac (take 6 (drop 6 frame))) = 6" using n by (auto simp: fake_mac_def)
  have len: "length eth = 14" "length post = n - 4" "length ns = n" "length (ipv6_bytes ip6) = 40"
    using n tgt(2) mac by (auto simp: eth_def post_def ns_def ip6_def ipv6_read_def length_hdrs)
  have out: "build_ndp_advert le frame = Some (eth @ ipv6_bytes ip6 @ ns)"
    using n(1)
  proof
    assume "n = 24"
    hence l: "length frame = 78" using n(2) by simp
    hence "take 24 (drop 54 frame) = drop 54 frame" "take 16 (drop 62 frame) = drop 62 frame" by simp_all
    thus ?thesis using l \<open>n = 24\<close>
      by (simp add: build_ndp_advert_def Let_def ETHER_SIZE_def IP6_SIZE_def NS_SIZE_def OPT_SIZE_def ETH_ALEN_def ND_NEIGHBOR_ADVERT_def
          eth_def ip6_def ns_def ck_def ps_def post_def tgt(1) raw16_bytes_def u32_be_def ipv6_read_def drop_take)
  next
    assume "n = 32"
    hence l: "length frame = 86" using n(2) by simp
    hence "take 32 (drop 54 frame) = drop 54 frame" by simp
    thus ?thesis using l \<open>n = 32\<close>
      by (simp add: build_ndp_advert_def Let_def ETHER_SIZE_def IP6_SIZE_def NS_SIZE_def OPT_SIZE_def ETH_ALEN_def ND_NEIGHBOR_ADVERT_def
          ND_OPT_TARGET_LINKADDR_def eth_def ip6_def ns_def ck_def ps_def post_def tgt(1) raw16_bytes_def u32_be_def ipv6_read_def drop_take)
  qed
  have len78: "78 \<le> length frame" using n by auto
  define r where "r = ipv6_bytes ip6 @ ns"
  have r: "drop 14 (eth @ r) = r" "drop 40 r = ns" "length r = 40 + n" using len by (simp_all add: r_def)
  have b: "ipv6_bytes ip6 = [frame ! 14, frame ! 15, frame ! 16, frame ! 17, frame ! 18, frame ! 19, frame ! 20, frame ! 21] @
      target @ take 16 (drop 22 frame)"
    using len78 by (simp add: ip6_def ipv6_bytes_def ipv6_read_def raw16_bytes_def)
  have hd: "r ! 0 = 0x60" "be_u16 (r ! 4) (r ! 5) = be_u16 (frame ! 18) (frame ! 19)" "r ! 6 = 58" "take 16 (drop 8 r) = target"
      "take 16 (drop 24 r) = take 16 (drop 22 frame)" "take 32 (drop 8 r) = target @ take 16 (drop 22 frame)"
    using tgt(2,3) assms(2) len78 by (simp_all add: r_def b)
  have w: "unat (be_u16 (r ! 4) (r ! 5)) = n" "length r - 40 = n" "48 \<le> length r" using hd(2) assms(4) n r(3) by auto
  have "(words_sum ps + words_sum ns) mod 65535 = 0" unfolding ns_def ck_def
    by (rule pseudo_sum) (use n len(2) tgt(2) in \<open>auto simp: ps_def length_hdrs ipv6_pseudo_def\<close>)
  moreover have "words_sum ps = words_sum (target @ take 16 (drop 22 frame)) + n + 58"
    unfolding ps_def by (rule words_sum_pseudo) (use n tgt(2) in auto)
  ultimately have "icmp6_accepts r" unfolding icmp6_accepts_def w(1,2) hd(1,3,6) r(2) IPPROTO_ICMPV6_def using w(3) by simp
  moreover have "(eth @ r) ! 54 = ND_NEIGHBOR_ADVERT" "take 6 (eth @ r) = take 6 (drop 6 frame)"
    using len n by (auto simp: r_def nth_append ns_def ND_NEIGHBOR_ADVERT_def eth_def)
  moreover from this have "parse_ndp_solicit le (eth @ r) = None"
    by (simp add: parse_ndp_solicit_def Let_def ETHER_SIZE_def IP6_SIZE_def ND_NEIGHBOR_ADVERT_def ND_NEIGHBOR_SOLICIT_def)
  moreover have "length (eth @ r) = length frame" using r(3) len n by simp
  ultimately show ?thesis using out hd(4,5) r(1) by (intro exI [of _ "eth @ r"]) (simp add: r_def ipv6_read_def)
qed

end
