(* ===== verification/Mesh_Graph.thy ===== *)
theory Mesh_Graph
  imports Ordered_Map
begin

text \<open>
  The mesh topology of \<open>tincd/src/graph/mod.rs\<close>: nodes and directed edges in slabs with free lists,
  the per-node edge lists sorted by destination name and the weight-ordered index. Every operation
  returns an option whose \<open>None\<close> is a panic of the code (an index out of range, a freed slot where a
  live one is expected, a failed \<open>expect\<close>); results that are options in the code stay options inside.
\<close>

section \<open>State\<close>

record gnode =
  gn_name :: string
  gn_edges :: "nat list"
  gn_reachable :: bool

text \<open>\<open>ge_weight\<close> is an \<open>i32\<close>; the code compares weights and adds them with saturation only.\<close>

record gedge =
  ge_from :: nat
  ge_to :: nat
  ge_weight :: int
  ge_options :: u32
  ge_reverse :: "nat option"
  ge_to_name :: string

type_synonym weight_key = "int \<times> string \<times> string"

record graph =
  g_nodes :: "gnode option list"
  g_edges :: "gedge option list"
  g_node_free :: "nat list"
  g_edge_free :: "nat list"
  g_weight_order :: "(weight_key, nat) bmap"

definition OPTION_INDIRECT :: u32 where
  "OPTION_INDIRECT = 1"

definition graph_new :: graph where
  "graph_new = \<lparr>g_nodes = [], g_edges = [], g_node_free = [], g_edge_free = [], g_weight_order = []\<rparr>"

section \<open>Searches of the standard library\<close>

text \<open>
  \<open>find\<close> with a predicate that may panic, and the two searches of a slice by key.
  \<open>partition_point\<close> and \<open>binary_search_by\<close> are specified on sorted slices, where they return the
  number of smaller keys; the keys here come out of the edge slab and any dead slot among them is a
  panic.
\<close>

fun find_m :: "('a \<Rightarrow> bool option) \<Rightarrow> 'a list \<Rightarrow> 'a option option" where
  "find_m p [] = Some None"
| "find_m p (x # xs) = do { b \<leftarrow> p x; if b then Some (Some x) else find_m p xs }"

definition partition_point :: "'k :: linorder list \<Rightarrow> 'k \<Rightarrow> nat" where
  "partition_point keys k = length (takeWhile (\<lambda>x. x < k) keys)"

definition binary_search :: "'k :: linorder list \<Rightarrow> 'k \<Rightarrow> nat option" where
  "binary_search keys k = (if k \<in> set keys then Some (partition_point keys k) else None)"

definition insert_at :: "nat \<Rightarrow> 'a \<Rightarrow> 'a list \<Rightarrow> 'a list" where
  "insert_at i x xs = take i xs @ x # drop i xs"

definition remove_at :: "nat \<Rightarrow> 'a list \<Rightarrow> 'a list" where
  "remove_at i xs = take i xs @ drop (Suc i) xs"

definition edge_names :: "gedge option list \<Rightarrow> nat list \<Rightarrow> string list option" where
  "edge_names es ids = those (map (\<lambda>i. map_option ge_to_name (slot es i)) ids)"

section \<open>Operations\<close>

definition add_node :: "string \<Rightarrow> graph \<Rightarrow> (nat \<times> graph) option" where
  "add_node nm g = do {
     (idx, ns, free) \<leftarrow> alloc_slot (g_nodes g) (g_node_free g);
     Some (idx, g\<lparr>g_nodes := ns[idx := Some \<lparr>gn_name = nm, gn_edges = [], gn_reachable = True\<rparr>],
                 g_node_free := free\<rparr>) }"

definition lookup_edge :: "graph \<Rightarrow> nat \<Rightarrow> nat \<Rightarrow> nat option option" where
  "lookup_edge g from to =
     (if to \<ge> length (g_nodes g) then None
      else case g_nodes g ! to of None \<Rightarrow> Some None
      | Some t \<Rightarrow>
        if from \<ge> length (g_nodes g) then None
        else case g_nodes g ! from of None \<Rightarrow> Some None
        | Some f \<Rightarrow> do {
            names \<leftarrow> edge_names (g_edges g) (gn_edges f);
            Some (map_option (\<lambda>i. gn_edges f ! i) (binary_search names (gn_name t))) })"

definition set_reverse :: "nat \<Rightarrow> nat option \<Rightarrow> gedge option list \<Rightarrow> gedge option list option" where
  "set_reverse r v es = do { e \<leftarrow> slot es r; Some (es[r := Some (e\<lparr>ge_reverse := v\<rparr>)]) }"

definition add_edge :: "nat \<Rightarrow> nat \<Rightarrow> int \<Rightarrow> u32 \<Rightarrow> graph \<Rightarrow> (nat \<times> graph) option" where
  "add_edge from to weight options g = do {
     (idx, es, free) \<leftarrow> alloc_slot (g_edges g) (g_edge_free g);
     t \<leftarrow> slot (g_nodes g) to;
     rvs \<leftarrow> find_m (\<lambda>i. map_option (\<lambda>e. ge_to e = from) (slot es i)) (gn_edges t);
     es \<leftarrow> (case rvs of None \<Rightarrow> Some es | Some r \<Rightarrow> set_reverse r (Some idx) es);
     f \<leftarrow> slot (g_nodes g) from;
     let es = es[idx := Some \<lparr>ge_from = from, ge_to = to, ge_weight = weight, ge_options = options,
                              ge_reverse = rvs, ge_to_name = gn_name t\<rparr>];
     names \<leftarrow> edge_names es (gn_edges f);
     let f' = f\<lparr>gn_edges := insert_at (partition_point names (gn_name t)) idx (gn_edges f)\<rparr>;
     Some (idx, g\<lparr>g_nodes := (g_nodes g)[from := Some f'], g_edges := es, g_edge_free := free,
                 g_weight_order := bt_insert (weight, gn_name f, gn_name t) idx (g_weight_order g)\<rparr>) }"

text \<open>
  \<open>del_edge\<close> returns \<open>Some None\<close> where the code returns \<open>None\<close> for a freed slot, and the changed
  graph otherwise.
\<close>

definition del_edge :: "nat \<Rightarrow> graph \<Rightarrow> graph option option" where
  "del_edge i g =
     (if i \<ge> length (g_edges g) then None
      else case g_edges g ! i of None \<Rightarrow> Some None
      | Some e \<Rightarrow> do {
          es \<leftarrow> (case ge_reverse e of None \<Rightarrow> Some (g_edges g)
                | Some r \<Rightarrow> set_reverse r None (g_edges g));
          f \<leftarrow> slot (g_nodes g) (ge_from e);
          names \<leftarrow> edge_names es (gn_edges f);
          pos \<leftarrow> binary_search names (ge_to_name e);
          let f' = f\<lparr>gn_edges := remove_at pos (gn_edges f)\<rparr>;
          Some (Some (g\<lparr>g_nodes := (g_nodes g)[ge_from e := Some f'],
            g_edges := es[i := None], g_edge_free := g_edge_free g @ [i],
            g_weight_order := bt_remove (ge_weight e, gn_name f, ge_to_name e) (g_weight_order g)\<rparr>)) })"

fun del_edges :: "nat list \<Rightarrow> graph \<Rightarrow> graph option" where
  "del_edges [] g = Some g"
| "del_edges (i # is) g = do {
     r \<leftarrow> del_edge i g;
     del_edges is (case r of None \<Rightarrow> g | Some g' \<Rightarrow> g') }"

definition del_node :: "nat \<Rightarrow> graph \<Rightarrow> graph option option" where
  "del_node n g =
     (if n \<ge> length (g_nodes g) then None
      else case g_nodes g ! n of None \<Rightarrow> Some None
      | Some nd \<Rightarrow> do {
          g \<leftarrow> del_edges (gn_edges nd) g;
          Some (Some (g\<lparr>g_nodes := (g_nodes g)[n := None], g_node_free := g_node_free g @ [n]\<rparr>)) })"

definition update_edge :: "nat \<Rightarrow> int \<Rightarrow> u32 \<Rightarrow> graph \<Rightarrow> graph option option" where
  "update_edge i weight options g =
     (if i \<ge> length (g_edges g) then None
      else case g_edges g ! i of None \<Rightarrow> Some None
      | Some e \<Rightarrow>
        if ge_weight e = weight
        then Some (Some (g\<lparr>g_edges := (g_edges g)[i := Some (e\<lparr>ge_options := options\<rparr>)]\<rparr>))
        else do {
          f \<leftarrow> slot (g_nodes g) (ge_from e);
          old \<leftarrow> map_of (g_weight_order g) (ge_weight e, gn_name f, ge_to_name e);
          Some (Some (g\<lparr>
            g_edges := (g_edges g)[i := Some (e\<lparr>ge_options := options, ge_weight := weight\<rparr>)],
            g_weight_order := bt_insert (weight, gn_name f, ge_to_name e) i
              (bt_remove (ge_weight e, gn_name f, ge_to_name e) (g_weight_order g))\<rparr>)) })"

definition set_reachable :: "nat \<Rightarrow> bool \<Rightarrow> graph \<Rightarrow> graph option" where
  "set_reachable n r g = do {
     nd \<leftarrow> slot (g_nodes g) n;
     Some (g\<lparr>g_nodes := (g_nodes g)[n := Some (nd\<lparr>gn_reachable := r\<rparr>)]\<rparr>) }"

text \<open>The readers: \<open>node\<close>, \<open>edge\<close>, \<open>slab_len\<close>, \<open>edge_count\<close>, \<open>node_ids\<close>, \<open>edge_iter\<close>, \<open>node_edges\<close>.\<close>

definition get_node :: "graph \<Rightarrow> nat \<Rightarrow> gnode option" where
  "get_node g = slot (g_nodes g)"

definition get_edge :: "graph \<Rightarrow> nat \<Rightarrow> gedge option" where
  "get_edge g = slot (g_edges g)"

definition slab_len :: "graph \<Rightarrow> nat" where
  "slab_len g = length (g_nodes g)"

definition edge_count :: "graph \<Rightarrow> nat" where
  "edge_count g = length (g_edges g) - length (g_edge_free g)"

definition node_ids :: "graph \<Rightarrow> nat list" where
  "node_ids g = filter (\<lambda>i. g_nodes g ! i \<noteq> None) [0 ..< length (g_nodes g)]"

definition edge_iter :: "graph \<Rightarrow> (nat \<times> gedge) list" where
  "edge_iter g = concat (map (\<lambda>(i, s). case s of None \<Rightarrow> [] | Some e \<Rightarrow> [(i, e)])
     (enumerate 0 (g_edges g)))"

definition node_edges :: "graph \<Rightarrow> nat \<Rightarrow> nat list" where
  "node_edges g n = (case get_node g n of None \<Rightarrow> [] | Some nd \<Rightarrow> gn_edges nd)"

end
