(* ===== verification/Mesh_Invariant.thy ===== *)
theory Mesh_Invariant
  imports Mesh_Graph
begin

text \<open>
  The invariant of the mesh graph, \<open>graph_inv\<close>: both slabs agree with their free lists, node names are
  unique, every live edge joins live nodes and caches the name of its end, the edge lists are sorted
  and complete, the weight index holds exactly the live edges, and twins point at each other. Under it
  no operation panics, and every operation keeps it.
\<close>

section \<open>Lists sorted by a key\<close>

lemma those_map_Some: "(\<And>x. x \<in> set xs \<Longrightarrow> f x = Some (h x)) \<Longrightarrow> those (map f xs) = Some (map h xs)"
  by (induction xs) auto

lemma find_m_Some: "(\<And>x. x \<in> set xs \<Longrightarrow> p x = Some (q x)) \<Longrightarrow> find_m p xs = Some (find q xs)"
  by (induction xs) auto

lemma set_insert_at [simp]: "set (insert_at i x xs) = insert x (set xs)"
proof -
  have "set xs = set (take i xs) \<union> set (drop i xs)" by (metis append_take_drop_id set_append)
  thus ?thesis by (simp add: insert_at_def)
qed

lemma insert_at_Cons:
  "insert_at (partition_point (map f (a # xs)) k) x (a # xs) =
     (if f a < k then a # insert_at (partition_point (map f xs) k) x xs else x # a # xs)"
  by (simp add: insert_at_def partition_point_def)

lemma sorted_insert_at:
  fixes f :: "'a \<Rightarrow> 'k :: linorder"
  shows "sorted_wrt (<) (map f xs) \<Longrightarrow> f x \<notin> f ` set xs \<Longrightarrow>
    sorted_wrt (<) (map f (insert_at (partition_point (map f xs) (f x)) x xs))"
proof (induction xs)
  case (Cons a xs)
  show ?case
  proof (cases "f a < f x")
    case True
    thus ?thesis using Cons unfolding insert_at_Cons by simp
  next
    case False
    hence "f x < f a" using Cons(3) by (metis image_eqI list.set_intros(1) linorder_neqE)
    moreover from this have "\<forall>y \<in> set xs. f x < f y" using Cons(2) by force
    ultimately show ?thesis using False Cons(2) unfolding insert_at_Cons by simp
  qed
qed (simp add: insert_at_def)

lemma binary_search_split:
  fixes f :: "'a \<Rightarrow> 'k :: linorder"
  assumes "sorted_wrt (<) (map f (us @ y # vs))"
  shows "binary_search (map f (us @ y # vs)) (f y) = Some (length us)"
proof -
  have "\<forall>u \<in> set us. f u < f y" using assms by (auto simp: sorted_wrt_append)
  hence "takeWhile (\<lambda>z. z < f y) (map f (us @ y # vs)) = map f us"
    by (simp add: takeWhile_append)
  thus ?thesis by (simp add: binary_search_def partition_point_def)
qed

lemma remove_at_split [simp]: "remove_at (length us) (us @ y # vs) = us @ vs"
  by (simp add: remove_at_def)

lemma sorted_key_inj:
  "sorted_wrt (<) (map f xs) \<Longrightarrow> x \<in> set xs \<Longrightarrow> y \<in> set xs \<Longrightarrow> f x = (f y :: 'k :: linorder) \<Longrightarrow> x = y"
  by (auto simp: strict_sorted_iff distinct_map dest: inj_onD)

section \<open>Invariant\<close>

text \<open>
  The invariant is stated over what an edge says apart from its twin and options (its ends, weight
  and cached name, \<open>core\<close>) and over the names of the live nodes (\<open>names\<close>).
\<close>

type_synonym edge_core = "nat \<times> nat \<times> int \<times> string"

definition core :: "gedge option list \<Rightarrow> nat \<Rightarrow> edge_core option" where
  "core es i = map_option (\<lambda>e. (ge_from e, ge_to e, ge_weight e, ge_to_name e)) (slot es i)"

definition names :: "gnode option list \<Rightarrow> nat \<Rightarrow> string option" where
  "names ns i = map_option gn_name (slot ns i)"

definition core_name :: "(nat \<Rightarrow> edge_core option) \<Rightarrow> nat \<Rightarrow> string" where
  "core_name F i = (case F i of None \<Rightarrow> [] | Some (a, b, w, s) \<Rightarrow> s)"

definition names_ok :: "(nat \<Rightarrow> string option) \<Rightarrow> bool" where
  "names_ok NM \<longleftrightarrow> (\<forall>i j s. NM i = Some s \<longrightarrow> NM j = Some s \<longrightarrow> i = j)"

definition ends_ok :: "(nat \<Rightarrow> string option) \<Rightarrow> (nat \<Rightarrow> edge_core option) \<Rightarrow> bool" where
  "ends_ok NM F \<longleftrightarrow> (\<forall>j a b w s. F j = Some (a, b, w, s) \<longrightarrow> NM a \<noteq> None \<and> NM b = Some s)"

definition lists_ok :: "(nat \<Rightarrow> gnode option) \<Rightarrow> (nat \<Rightarrow> edge_core option) \<Rightarrow> bool" where
  "lists_ok N F \<longleftrightarrow> (\<forall>i n. N i = Some n \<longrightarrow> sorted_wrt (<) (map (core_name F) (gn_edges n)) \<and>
     (\<forall>j. j \<in> set (gn_edges n) \<longleftrightarrow> (\<exists>b w s. F j = Some (i, b, w, s))))"

definition weights_ok ::
  "(nat \<Rightarrow> string option) \<Rightarrow> (nat \<Rightarrow> edge_core option) \<Rightarrow> (weight_key, nat) bmap \<Rightarrow> bool" where
  "weights_ok NM F wo \<longleftrightarrow> bt_ok wo \<and> (\<forall>k j. (k, j) \<in> set wo \<longleftrightarrow>
     (\<exists>a b w s nm. F j = Some (a, b, w, s) \<and> NM a = Some nm \<and> k = (w, nm, s)))"

definition twins_ok :: "(nat \<Rightarrow> gedge option) \<Rightarrow> bool" where
  "twins_ok E \<longleftrightarrow> (\<forall>j e r. E j = Some e \<longrightarrow> (ge_reverse e = Some r \<longleftrightarrow>
     r \<noteq> j \<and> (\<exists>e'. E r = Some e' \<and> ge_from e' = ge_to e \<and> ge_to e' = ge_from e)))"

definition graph_inv :: "graph \<Rightarrow> bool" where
  "graph_inv g \<longleftrightarrow> slab_ok (g_nodes g) (g_node_free g) \<and> slab_ok (g_edges g) (g_edge_free g) \<and>
     names_ok (names (g_nodes g)) \<and> ends_ok (names (g_nodes g)) (core (g_edges g)) \<and>
     lists_ok (slot (g_nodes g)) (core (g_edges g)) \<and>
     weights_ok (names (g_nodes g)) (core (g_edges g)) (g_weight_order g) \<and>
     twins_ok (slot (g_edges g))"

lemma graph_invD:
  assumes "graph_inv g"
  shows "slab_ok (g_nodes g) (g_node_free g)" "slab_ok (g_edges g) (g_edge_free g)"
    "names_ok (names (g_nodes g))" "ends_ok (names (g_nodes g)) (core (g_edges g))"
    "lists_ok (slot (g_nodes g)) (core (g_edges g))"
    "weights_ok (names (g_nodes g)) (core (g_edges g)) (g_weight_order g)"
    "twins_ok (slot (g_edges g))"
  using assms by (simp_all add: graph_inv_def)

lemma graph_inv_new: "graph_inv graph_new"
  by (simp add: graph_inv_def graph_new_def slab_ok_def names_ok_def ends_ok_def lists_ok_def
      weights_ok_def twins_ok_def names_def core_def slot_def bt_ok_def)

lemma edge_names_live:
  assumes "\<And>i. i \<in> set ids \<Longrightarrow> core es i \<noteq> None"
  shows "edge_names es ids = Some (map (core_name (core es)) ids)"
  unfolding edge_names_def
proof (rule those_map_Some)
  fix i assume "i \<in> set ids"
  hence "slot es i \<noteq> None" using assms by (simp add: core_def)
  thus "map_option ge_to_name (slot es i) = Some (core_name (core es) i)"
    by (auto simp: core_name_def core_def)
qed

lemma edge_unique:
  assumes "ends_ok (names ns) F" "lists_ok (slot ns) F"
    and "F i = Some (a, b, w, s)" "F j = Some (a, b, w', s')"
  shows "i = j"
proof -
  have "names ns a \<noteq> None" and s: "s' = s" using assms unfolding ends_ok_def by (blast, metis option.inject)
  then obtain n where n: "slot ns a = Some n" by (auto simp: names_def)
  hence "i \<in> set (gn_edges n)" "j \<in> set (gn_edges n)" "sorted_wrt (<) (map (core_name F) (gn_edges n))"
    using assms(2-4) unfolding lists_ok_def by blast+
  moreover have "core_name F i = core_name F j" using assms(3,4) s by (simp add: core_name_def)
  ultimately show ?thesis by (metis sorted_key_inj)
qed

section \<open>What the operations keep\<close>

lemma ends_ok_upd:
  "ends_ok NM F \<Longrightarrow> NM a \<noteq> None \<Longrightarrow> NM b = Some s \<Longrightarrow> ends_ok NM (F(j := Some (a, b, w, s)))"
  by (simp add: ends_ok_def)

lemma ends_ok_del: "ends_ok NM F \<Longrightarrow> ends_ok NM (F(j := None))"
  by (simp add: ends_ok_def)

lemma core_name_map_cong:
  "j \<notin> set xs \<Longrightarrow> map (core_name (F(j := v))) xs = map (core_name F) xs"
  by (auto simp: core_name_def)

lemma name_fresh:
  assumes "names_ok NM" "ends_ok NM F" "lists_ok N F" "N a = Some n" "NM b = Some s"
    and "\<And>i w s'. F i \<noteq> Some (a, b, w, s')"
  shows "s \<notin> core_name F ` set (gn_edges n)"
proof
  assume "s \<in> core_name F ` set (gn_edges n)"
  then obtain i where i: "i \<in> set (gn_edges n)" "core_name F i = s" by blast
  then obtain b' w' s' where F: "F i = Some (a, b', w', s')" using assms(3,4) unfolding lists_ok_def by blast
  hence "NM b' = Some s" using i(2) assms(2) unfolding ends_ok_def core_name_def by fastforce
  hence "b' = b" using assms(1,5) unfolding names_ok_def by blast
  thus False using F assms(6) by blast
qed

lemma lists_okD:
  "lists_ok N F \<Longrightarrow> N i = Some n \<Longrightarrow> sorted_wrt (<) (map (core_name F) (gn_edges n))"
  "lists_ok N F \<Longrightarrow> N i = Some n \<Longrightarrow> j \<in> set (gn_edges n) \<longleftrightarrow> (\<exists>b w s. F j = Some (i, b, w, s))"
  by (simp_all add: lists_ok_def)

lemma lists_ok_add:
  assumes l: "lists_ok N F" and j: "F j = None" and a: "N a = Some n"
    and s: "s \<notin> core_name F ` set (gn_edges n)"
  shows "lists_ok (N(a := Some (n\<lparr>gn_edges :=
      insert_at (partition_point (map (core_name F) (gn_edges n)) s) j (gn_edges n)\<rparr>)))
    (F(j := Some (a, b, w, s)))" (is "lists_ok ?N ?F")
proof -
  have nj: "j \<notin> set (gn_edges m)" if "N i = Some m" for i m using lists_okD(2) [OF l that] j by simp
  have same: "map (core_name ?F) (gn_edges m) = map (core_name F) (gn_edges m)" if "N i = Some m" for i m
    by (rule core_name_map_cong [OF nj [OF that]])
  have sj: "core_name ?F j = s" by (simp add: core_name_def)
  have fresh: "core_name ?F j \<notin> core_name ?F ` set (gn_edges n)"
    using s sj same [OF a] by (metis list.set_map)
  have srt: "sorted_wrt (<) (map (core_name ?F) (gn_edges n))" using lists_okD(1) [OF l a] unfolding same [OF a] .
  have new: "sorted_wrt (<) (map (core_name ?F)
      (insert_at (partition_point (map (core_name F) (gn_edges n)) s) j (gn_edges n)))"
    using sorted_insert_at [OF srt fresh] unfolding sj same [OF a] .
  have "sorted_wrt (<) (map (core_name ?F) (gn_edges m)) \<and>
     (\<forall>k. k \<in> set (gn_edges m) \<longleftrightarrow> (\<exists>b w s. ?F k = Some (i, b, w, s)))" if m: "?N i = Some m" for i m
  proof (cases "i = a")
    case True
    hence "m = n\<lparr>gn_edges := insert_at (partition_point (map (core_name F) (gn_edges n)) s) j (gn_edges n)\<rparr>"
      using m by simp
    thus ?thesis using new lists_okD(2) [OF l a] True by simp
  next
    case False
    hence Ni: "N i = Some m" using m by simp
    show ?thesis unfolding same [OF Ni] using lists_okD [OF l Ni] j False by simp
  qed
  thus ?thesis unfolding lists_ok_def by blast
qed

lemma sorted_map_remove:
  "sorted_wrt (<) (map f (us @ j # vs)) \<Longrightarrow> sorted_wrt (<) (map f (us @ vs))"
  by (simp add: sorted_wrt_append)

lemma lists_ok_del:
  assumes l: "lists_ok N F" and a: "N a = Some n" and n: "gn_edges n = us @ j # vs"
    and F: "F j = Some (a, b, w, s)"
  shows "lists_ok (N(a := Some (n\<lparr>gn_edges := us @ vs\<rparr>))) (F(j := None))" (is "lists_ok ?N ?F")
proof -
  have srt: "sorted_wrt (<) (map (core_name F) (us @ j # vs))" using lists_okD(1) [OF l a] n by simp
  hence "distinct (us @ j # vs)" unfolding strict_sorted_iff distinct_map by blast
  hence nj: "j \<notin> set (us @ vs)" by auto
  have "sorted_wrt (<) (map (core_name ?F) (gn_edges m)) \<and>
     (\<forall>k. k \<in> set (gn_edges m) \<longleftrightarrow> (\<exists>b w s. ?F k = Some (i, b, w, s)))" if m: "?N i = Some m" for i m
  proof (cases "i = a")
    case True
    hence me: "gn_edges m = us @ vs" using m by auto
    have "k \<in> set (us @ vs) \<longleftrightarrow> k \<noteq> j \<and> k \<in> set (gn_edges n)" for k unfolding n using nj by auto
    thus ?thesis unfolding me core_name_map_cong [OF nj]
      using sorted_map_remove [OF srt] lists_okD(2) [OF l a] True by simp
  next
    case False
    hence Ni: "N i = Some m" using m by simp
    have "j \<notin> set (gn_edges m)" using lists_okD(2) [OF l Ni, of j] F False by simp
    thus ?thesis using lists_okD [OF l Ni] F False by (simp add: core_name_map_cong)
  qed
  thus ?thesis unfolding lists_ok_def by blast
qed

lemma key_fresh:
  assumes "weights_ok NM F wo" "names_ok NM" "ends_ok NM F" "NM a = Some nm" "NM b = Some s"
    and "\<And>i w s'. F i \<noteq> Some (a, b, w, s')"
  shows "(w, nm, s) \<notin> fst ` set wo"
proof
  assume "(w, nm, s) \<in> fst ` set wo"
  then obtain j where "((w, nm, s), j) \<in> set wo" by force
  then obtain a' b' where F: "F j = Some (a', b', w, s)" "NM a' = Some nm"
    using assms(1) unfolding weights_ok_def by blast
  hence "NM b' = Some s" using assms(3) unfolding ends_ok_def by blast
  hence "a' = a" "b' = b" using F(2) assms(2,4,5) unfolding names_ok_def by blast+
  thus False using F(1) assms(6) by blast
qed

lemma weights_okD:
  "weights_ok NM F wo \<Longrightarrow> bt_ok wo"
  "weights_ok NM F wo \<Longrightarrow> (k, j) \<in> set wo \<longleftrightarrow>
     (\<exists>a b w s nm. F j = Some (a, b, w, s) \<and> NM a = Some nm \<and> k = (w, nm, s))"
  unfolding weights_ok_def by blast+

lemma weights_okI:
  "bt_ok wo \<Longrightarrow> (\<And>k j. (k, j) \<in> set wo \<longleftrightarrow>
     (\<exists>a b w s nm. F j = Some (a, b, w, s) \<and> NM a = Some nm \<and> k = (w, nm, s))) \<Longrightarrow> weights_ok NM F wo"
  by (simp add: weights_ok_def)

lemma weights_ok_add:
  assumes wo: "weights_ok NM F wo" and j: "F j = None" and nm: "NM a = Some nm"
    and fresh: "(w, nm, s) \<notin> fst ` set wo"
  shows "weights_ok NM (F(j := Some (a, b, w, s))) (bt_insert (w, nm, s) j wo)"
proof (rule weights_okI)
  note b = weights_okD(1) [OF wo]
  show "bt_ok (bt_insert (w, nm, s) j wo)" by (rule bt_insert_ok [OF b])
  fix k i
  have "(k, i) \<in> set (bt_insert (w, nm, s) j wo) \<longleftrightarrow> (k = (w, nm, s) \<and> i = j) \<or> (k, i) \<in> set wo"
    unfolding btree.ins_fresh [OF b fresh] by simp
  thus "(k, i) \<in> set (bt_insert (w, nm, s) j wo) \<longleftrightarrow> (\<exists>a' b' w' s' nm'.
      (F(j := Some (a, b, w, s))) i = Some (a', b', w', s') \<and> NM a' = Some nm' \<and> k = (w', nm', s'))"
    unfolding weights_okD(2) [OF wo] using j nm by (cases "i = j") auto
qed

lemma weights_ok_del:
  assumes wo: "weights_ok NM F wo" and j: "F j = Some (a, b, w, s)" and nm: "NM a = Some nm"
  shows "weights_ok NM (F(j := None)) (bt_remove (w, nm, s) wo)"
proof (rule weights_okI)
  note b = weights_okD(1) [OF wo]
  show "bt_ok (bt_remove (w, nm, s) wo)" by (rule bt_remove_ok [OF b])
  have e: "((w, nm, s), j) \<in> set wo" unfolding weights_okD(2) [OF wo] using j nm by blast
  fix k i
  have "(k, i) \<in> set (bt_remove (w, nm, s) wo) \<longleftrightarrow> (k, i) \<in> set wo \<and> \<not> (k = (w, nm, s) \<and> i = j)"
    unfolding btree.del_present [OF b e] by simp
  thus "(k, i) \<in> set (bt_remove (w, nm, s) wo) \<longleftrightarrow> (\<exists>a' b' w' s' nm'.
      (F(j := None)) i = Some (a', b', w', s') \<and> NM a' = Some nm' \<and> k = (w', nm', s'))"
    unfolding weights_okD(2) [OF wo] using j nm by (cases "i = j") auto
qed

definition edges_unique :: "(nat \<Rightarrow> gedge option) \<Rightarrow> bool" where
  "edges_unique E \<longleftrightarrow> (\<forall>i j e e'. E i = Some e \<longrightarrow> E j = Some e' \<longrightarrow>
     ge_from e = ge_from e' \<longrightarrow> ge_to e = ge_to e' \<longrightarrow> i = j)"

definition relink :: "nat option \<Rightarrow> nat option \<Rightarrow> (nat \<Rightarrow> gedge option) \<Rightarrow> nat \<Rightarrow> gedge option" where
  "relink r v E = (case r of None \<Rightarrow> E | Some i \<Rightarrow> E(i := map_option (\<lambda>e. e\<lparr>ge_reverse := v\<rparr>) (E i)))"

definition ends :: "(nat \<Rightarrow> gedge option) \<Rightarrow> nat \<Rightarrow> (nat \<times> nat) option" where
  "ends E i = map_option (\<lambda>e. (ge_from e, ge_to e)) (E i)"

lemma ends_relink [simp]: "ends (relink r v E) = ends E"
  by (rule ext) (auto simp: ends_def relink_def option.map_comp comp_def split: option.splits)

lemma ends_upd: "ends (E(i := v)) r = (if r = i then map_option (\<lambda>e. (ge_from e, ge_to e)) v else ends E r)"
  by (simp add: ends_def)

lemma twins_ok_ends:
  "twins_ok E \<longleftrightarrow> (\<forall>j e r. E j = Some e \<longrightarrow> (ge_reverse e = Some r \<longleftrightarrow>
     r \<noteq> j \<and> ends E r = Some (ge_to e, ge_from e)))"
  unfolding twins_ok_def ends_def by (simp add: conj_commute)

lemma edges_unique_ends:
  "edges_unique E \<Longrightarrow> ends E i = Some p \<Longrightarrow> ends E j = Some p \<Longrightarrow> i = j"
  unfolding edges_unique_def ends_def by auto

lemma twins_ok_add:
  assumes t: "twins_ok E" and i: "E i = None" and nab: "\<And>j. ends E j \<noteq> Some (ge_from x, ge_to x)"
    and rvs: "\<And>r. ge_reverse x = Some r \<longleftrightarrow> ends E r = Some (ge_to x, ge_from x)"
  shows "twins_ok ((relink (ge_reverse x) (Some i) E)(i := Some x))" (is "twins_ok ?E")
proof -
  have en: "ends ?E r = (if r = i then Some (ge_from x, ge_to x) else ends E r)" for r
    by (simp add: ends_upd)
  have "ge_reverse e = Some r \<longleftrightarrow> r \<noteq> j \<and> ends ?E r = Some (ge_to e, ge_from e)"
    if e: "?E j = Some e" for j e r
  proof (cases "j = i")
    case True
    hence "e = x" using e by simp
    moreover have "ends E i = None" using i by (simp add: ends_def)
    ultimately show ?thesis using rvs [of r] True en [of r] by auto
  next
    case ji: False
    show ?thesis
    proof (cases "ge_reverse x = Some j")
      case True
      then obtain y where y: "E j = Some y" "e = y\<lparr>ge_reverse := Some i\<rparr>"
        using e ji by (auto simp: relink_def)
      have "ge_from e = ge_to x" "ge_to e = ge_from x" using rvs [of j] True y by (auto simp: ends_def)
      thus ?thesis using y(2) ji en [of r] nab [of r] by auto
    next
      case False
      hence E: "E j = Some e" using e ji by (auto simp: relink_def split: option.splits if_splits)
      hence "ends E j \<noteq> Some (ge_to x, ge_from x)" using False rvs by blast
      hence "(ge_from x, ge_to x) \<noteq> (ge_to e, ge_from e)" using E by (auto simp: ends_def)
      moreover have "ends E i = None" using i by (simp add: ends_def)
      ultimately show ?thesis using t E en [of r] unfolding twins_ok_ends by auto
    qed
  qed
  thus ?thesis unfolding twins_ok_ends by blast
qed

lemma twins_ok_del:
  assumes t: "twins_ok E" and u: "edges_unique E" and i: "E i = Some x"
  shows "twins_ok ((relink (ge_reverse x) None E)(i := None))" (is "twins_ok ?E")
proof -
  have en: "ends ?E r = (if r = i then None else ends E r)" for r
    by (simp add: ends_upd)
  have rx: "ge_reverse x = Some r \<longleftrightarrow> r \<noteq> i \<and> ends E r = Some (ge_to x, ge_from x)" for r
    using t i unfolding twins_ok_ends by blast
  have "ge_reverse e = Some r \<longleftrightarrow> r \<noteq> j \<and> ends ?E r = Some (ge_to e, ge_from e)"
    if e: "?E j = Some e" for j e r
  proof (cases "ge_reverse x = Some j")
    case True
    then obtain y where y: "E j = Some y" "e = y\<lparr>ge_reverse := None\<rparr>"
      using e by (auto simp: relink_def split: if_splits)
    have "ge_from e = ge_to x" "ge_to e = ge_from x" using rx [of j] True y by (auto simp: ends_def)
    moreover have "ends E i = Some (ge_from x, ge_to x)" using i by (simp add: ends_def)
    ultimately have "r \<noteq> i \<Longrightarrow> ends E r \<noteq> Some (ge_to e, ge_from e)" using edges_unique_ends [OF u] by metis
    thus ?thesis using y(2) en [of r] by auto
  next
    case False
    have ji: "j \<noteq> i" using e by auto
    hence E: "E j = Some e" using e False by (auto simp: relink_def split: option.splits if_splits)
    hence "ends E j \<noteq> Some (ge_to x, ge_from x)" using False rx ji by blast
    hence "ends E i \<noteq> Some (ge_to e, ge_from e)" using E i by (auto simp: ends_def)
    thus ?thesis using t E en [of r] unfolding twins_ok_ends by auto
  qed
  thus ?thesis unfolding twins_ok_ends by blast
qed

text \<open>From the slabs to the functions of the invariant.\<close>

definition nview :: "gnode option list \<Rightarrow> nat \<Rightarrow> (string \<times> bool) option" where
  "nview ns i = map_option (\<lambda>n. (gn_name n, gn_reachable n)) (slot ns i)"

lemma names_nview: "names ns = (\<lambda>i. map_option fst (nview ns i))"
  by (rule ext) (simp add: names_def nview_def option.map_comp comp_def)

lemma slot_list_update: "i < length xs \<Longrightarrow> slot (xs[i := v]) = (slot xs)(i := v)"
  by (rule ext) (simp add: slot_update)

lemma core_relink:
  assumes "slot es' = relink r v (slot es)"
  shows "core es' = core es"
  unfolding core_def assms
  by (rule ext) (auto simp: relink_def option.map_comp comp_def split: option.splits)

lemma core_list_update:
  "i < length es \<Longrightarrow>
   core (es[i := v]) = (core es)(i := map_option (\<lambda>e. (ge_from e, ge_to e, ge_weight e, ge_to_name e)) v)"
  by (rule ext) (simp add: core_def slot_update)

lemma nview_edges_update:
  "slot ns i = Some n \<Longrightarrow> nview (ns[i := Some (n\<lparr>gn_edges := xs\<rparr>)]) = nview ns"
  by (rule ext) (auto simp: nview_def slot_update)

lemma set_reverse_relink:
  assumes "slot es r \<noteq> None"
  obtains es' where "set_reverse r v es = Some es'" "slot es' = relink (Some r) v (slot es)"
    "length es' = length es"
proof -
  obtain e where e: "slot es r = Some e" using assms by blast
  show thesis
  proof (rule that)
    show "set_reverse r v es = Some (es[r := Some (e\<lparr>ge_reverse := v\<rparr>)])" by (simp add: set_reverse_def e)
    show "slot (es[r := Some (e\<lparr>ge_reverse := v\<rparr>)]) = relink (Some r) v (slot es)"
      by (simp add: slot_list_update [OF slot_Some_less [OF e]] relink_def e)
  qed simp
qed

lemma slab_ok_relink:
  assumes "slab_ok es free" "slot es' = relink r v (slot es)" "length es' = length es"
  shows "slab_ok es' free"
proof -
  have "es' ! i = None \<longleftrightarrow> es ! i = None" if "i < length es" for i
  proof -
    have "slot es' i = None \<longleftrightarrow> slot es i = None"
      unfolding assms(2) by (auto simp: relink_def split: option.splits)
    thus ?thesis using that assms(3) by (simp add: slot_def)
  qed
  thus ?thesis using assms(1,3) unfolding slab_ok_def by auto
qed

lemma slab_ok_overwrite: "slab_ok xs free \<Longrightarrow> slot xs i = Some x \<Longrightarrow> slab_ok (xs[i := Some y]) free"
proof -
  assume a: "slab_ok xs free" "slot xs i = Some x"
  hence i: "i < length xs" "xs ! i \<noteq> None" by (auto simp: slot_def split: if_splits)
  have "xs[i := Some y] ! j = None \<longleftrightarrow> xs ! j = None" if "j < length xs" for j
    using i that by (cases "j = i") auto
  thus ?thesis using a(1) unfolding slab_ok_def by auto
qed

lemma graph_inv_unique:
  assumes "graph_inv g"
  shows "edges_unique (slot (g_edges g))"
proof -
  have "i = j" if e: "slot (g_edges g) i = Some e" "slot (g_edges g) j = Some e'"
    and "ge_from e = ge_from e'" "ge_to e = ge_to e'" for i j e e'
  proof (rule edge_unique [OF graph_invD(4,5) [OF assms]])
    show "core (g_edges g) i = Some (ge_from e', ge_to e', ge_weight e, ge_to_name e)"
      "core (g_edges g) j = Some (ge_from e', ge_to e', ge_weight e', ge_to_name e')"
      using that by (simp_all add: core_def)
  qed
  thus ?thesis unfolding edges_unique_def by blast
qed

lemma live_edges:
  assumes "graph_inv g" "slot (g_nodes g) a = Some n" "j \<in> set (gn_edges n)"
  obtains e where "slot (g_edges g) j = Some e" "ge_from e = a"
  using lists_okD(2) [OF graph_invD(5) [OF assms(1)] assms(2)] assms(3) by (auto simp: core_def)

lemma find_reverse:
  assumes g: "graph_inv g" and t: "slot (g_nodes g) b = Some t"
    and E: "\<And>j. slot es j = slot (g_edges g) j"
  obtains rvs where "find_m (\<lambda>i. map_option (\<lambda>e. ge_to e = a) (slot es i)) (gn_edges t) = Some rvs"
    "\<And>r. rvs = Some r \<longleftrightarrow> ends (slot (g_edges g)) r = Some (b, a)"
proof -
  let ?q = "\<lambda>i. ge_to (the (slot (g_edges g) i)) = a"
  have "find_m (\<lambda>i. map_option (\<lambda>e. ge_to e = a) (slot es i)) (gn_edges t) = Some (find ?q (gn_edges t))"
    unfolding E by (rule find_m_Some, erule live_edges [OF g t]) simp
  moreover have "find ?q (gn_edges t) = Some r \<longleftrightarrow> ends (slot (g_edges g)) r = Some (b, a)" for r
  proof -
    have mem: "r \<in> set (gn_edges t) \<and> ?q r \<longleftrightarrow> ends (slot (g_edges g)) r = Some (b, a)" for r
      using lists_okD(2) [OF graph_invD(5) [OF g] t, of r] by (auto simp: core_def ends_def)
    have "?q r \<and> r \<in> set (gn_edges t)" if "find ?q (gn_edges t) = Some r" for r
      using that by (auto simp: find_Some_iff)
    moreover have "find ?q (gn_edges t) \<noteq> None" if "ends (slot (g_edges g)) r = Some (b, a)"
      using that mem by (auto simp: find_None_iff)
    ultimately show ?thesis using mem edges_unique_ends [OF graph_inv_unique [OF g]] by (metis option.exhaust)
  qed
  ultimately show thesis by (rule that)
qed

lemma relink_opt:
  assumes "\<And>r. rvs = Some r \<Longrightarrow> slot es r \<noteq> None"
  obtains es' where "(case rvs of None \<Rightarrow> Some es | Some r \<Rightarrow> set_reverse r v es) = Some es'"
    "slot es' = relink rvs v (slot es)" "length es' = length es"
proof (cases rvs)
  case None
  thus thesis by (intro that [of es]) (simp_all add: relink_def)
next
  case (Some r)
  thus thesis using set_reverse_relink [OF assms [OF Some]] that by (metis option.simps(5))
qed

lemma ends_okD:
  assumes "ends_ok NM F" "F j = Some (a, b, w, s)"
  shows "NM a \<noteq> None" "NM b = Some s"
  using assms unfolding ends_ok_def by blast+

lemma names_ok_add: "names_ok NM \<Longrightarrow> (\<And>i. NM i \<noteq> Some nm) \<Longrightarrow> names_ok (NM(i := Some nm))"
  unfolding names_ok_def by (metis fun_upd_apply option.inject)

text \<open>The invariant when the slot of a node that no edge mentions changes.\<close>

lemma weights_ok_names:
  assumes wo: "weights_ok NM F wo" and n: "\<And>j b w s. F j \<noteq> Some (n, b, w, s)"
  shows "weights_ok (NM(n := v)) F wo"
proof (rule weights_okI)
  show "bt_ok wo" by (rule weights_okD(1) [OF wo])
  have "a \<noteq> n" if "F j = Some (a, b, w, s)" for j a b w s using that n by blast
  thus "(k, j) \<in> set wo \<longleftrightarrow> (\<exists>a b w s nm. F j = Some (a, b, w, s) \<and> (NM(n := v)) a = Some nm \<and> k = (w, nm, s))" for k j
    unfolding weights_okD(2) [OF wo] by (metis fun_upd_other)
qed

lemma ends_ok_names:
  assumes "ends_ok NM F" "\<And>j b w s. F j \<noteq> Some (n, b, w, s)" "\<And>j a w s. F j \<noteq> Some (a, n, w, s)"
  shows "ends_ok (NM(n := v)) F"
  using assms unfolding ends_ok_def by (metis fun_upd_other)

lemma add_node_ok:
  assumes g: "graph_inv g" and len: "g_node_free g = [] \<Longrightarrow> fits_u32 (length (g_nodes g))"
    and nm: "\<And>i. names (g_nodes g) i \<noteq> Some nm"
  obtains i g' where "add_node nm g = Some (i, g')" "graph_inv g'" "slot (g_nodes g) i = None"
    "nview (g_nodes g') = (nview (g_nodes g))(i := Some (nm, True))" "g_edges g' = g_edges g"
proof -
  obtain i ns free where al: "alloc_slot (g_nodes g) (g_node_free g) = Some (i, ns, free)"
    "slot (g_nodes g) i = None" "\<And>j. slot ns j = slot (g_nodes g) j" "i < length ns"
    "\<And>x. slab_ok (ns[i := Some x]) free"
    using alloc_slot_ok [OF graph_invD(1) [OF g] len] by metis
  define nd where "nd = \<lparr>gn_name = nm, gn_edges = [], gn_reachable = True\<rparr>"
  define g' where "g' = g\<lparr>g_nodes := ns[i := Some nd], g_node_free := free\<rparr>"
  have N: "slot (g_nodes g') = (slot (g_nodes g))(i := Some nd)"
    using al(3) by (simp add: g'_def slot_list_update [OF al(4)] fun_eq_iff)
  have NM: "names (g_nodes g') = (names (g_nodes g))(i := Some nm)"
    by (rule ext) (simp add: names_def N nd_def)
  have i: "names (g_nodes g) i = None" using al(2) by (simp add: names_def)
  note en = ends_okD [OF graph_invD(4) [OF g]]
  have noi: "core (g_edges g) j \<noteq> Some (i, b, w, s)" "core (g_edges g) j \<noteq> Some (a, i, w, s)" for j a b w s
    using en i by (blast, metis option.distinct(1))
  have "graph_inv g'" unfolding graph_inv_def NM N
  proof (intro conjI)
    show "names_ok ((names (g_nodes g))(i := Some nm))" by (rule names_ok_add [OF graph_invD(3) [OF g] nm])
    show "ends_ok ((names (g_nodes g))(i := Some nm)) (core (g_edges g'))"
      using ends_ok_names [OF graph_invD(4) [OF g] noi] by (simp add: g'_def)
    show "lists_ok ((slot (g_nodes g))(i := Some nd)) (core (g_edges g'))"
      using graph_invD(5) [OF g] noi by (simp add: lists_ok_def nd_def g'_def)
    show "weights_ok ((names (g_nodes g))(i := Some nm)) (core (g_edges g')) (g_weight_order g')"
      using weights_ok_names [OF graph_invD(6) [OF g] noi(1)] by (simp add: g'_def)
  qed (use graph_invD [OF g] al(5) in \<open>simp_all add: g'_def\<close>)
  moreover have "nview (g_nodes g') = (nview (g_nodes g))(i := Some (nm, True))"
    by (rule ext) (simp add: nview_def N nd_def)
  ultimately show thesis by (intro that [of i g']) (simp_all add: add_node_def al(1,2) g'_def nd_def)
qed

lemma add_edge_ok:
  assumes g: "graph_inv g" and len: "g_edge_free g = [] \<Longrightarrow> fits_u32 (length (g_edges g))"
    and a: "slot (g_nodes g) a = Some f" and b: "slot (g_nodes g) b = Some t"
    and fresh: "\<And>i. ends (slot (g_edges g)) i \<noteq> Some (a, b)"
  obtains i g' x where "add_edge a b w ops g = Some (i, g')" "graph_inv g'" "slot (g_edges g) i = None"
    "slot (g_edges g') = (relink (ge_reverse x) (Some i) (slot (g_edges g)))(i := Some x)"
    "ge_from x = a" "ge_to x = b" "ge_weight x = w" "ge_options x = ops"
    "nview (g_nodes g') = nview (g_nodes g)"
proof -
  obtain i es free where al: "alloc_slot (g_edges g) (g_edge_free g) = Some (i, es, free)"
    "slot (g_edges g) i = None" "\<And>j. slot es j = slot (g_edges g) j" "i < length es"
    "\<And>x. slab_ok (es[i := Some x]) free"
    using alloc_slot_ok [OF graph_invD(2) [OF g] len] by metis
  have E: "slot es = slot (g_edges g)" using al(3) by (rule ext)
  obtain rvs where rv: "find_m (\<lambda>i. map_option (\<lambda>e. ge_to e = a) (slot es i)) (gn_edges t) = Some rvs"
    "\<And>r. rvs = Some r \<longleftrightarrow> ends (slot (g_edges g)) r = Some (b, a)"
    using find_reverse [OF g b al(3)] by blast
  have "slot es r \<noteq> None" if "rvs = Some r" for r using that rv(2) [of r] E by (auto simp: ends_def)
  then obtain es1 where es1: "(case rvs of None \<Rightarrow> Some es | Some r \<Rightarrow> set_reverse r (Some i) es) = Some es1"
    "slot es1 = relink rvs (Some i) (slot es)" "length es1 = length es"
    using relink_opt by metis
  define x where "x = \<lparr>ge_from = a, ge_to = b, ge_weight = w, ge_options = ops, ge_reverse = rvs,
    ge_to_name = gn_name t\<rparr>"
  define es2 where "es2 = es1[i := Some x]"
  have i1: "i < length es1" using al(4) es1(3) by simp
  have E2: "slot es2 = (relink rvs (Some i) (slot (g_edges g)))(i := Some x)"
    unfolding es2_def slot_list_update [OF i1] es1(2) E ..
  have core_es: "core es = core (g_edges g)" by (rule ext) (simp add: core_def E)
  have C2: "core es2 = (core (g_edges g))(i := Some (a, b, w, gn_name t))"
    unfolding es2_def core_list_update [OF i1] core_relink [OF es1(2)] core_es by (simp add: x_def)
  have Ci: "core (g_edges g) i = None" using al(2) by (simp add: core_def)
  have ni: "i \<notin> set (gn_edges f)" using live_edges [OF g a] al(2) by force
  have nms: "edge_names es2 (gn_edges f) = Some (map (core_name (core (g_edges g))) (gn_edges f))"
  proof -
    have "core es2 j \<noteq> None" if "j \<in> set (gn_edges f)" for j
      using lists_okD(2) [OF graph_invD(5) [OF g] a] that unfolding C2 by auto
    thus ?thesis by (simp add: edge_names_live C2 core_name_map_cong [OF ni] del: map_eq_conv)
  qed
  define f' where "f' = f\<lparr>gn_edges := insert_at (partition_point
    (map (core_name (core (g_edges g))) (gn_edges f)) (gn_name t)) i (gn_edges f)\<rparr>"
  define g' where "g' = g\<lparr>g_nodes := (g_nodes g)[a := Some f'], g_edges := es2, g_edge_free := free,
    g_weight_order := bt_insert (w, gn_name f, gn_name t) i (g_weight_order g)\<rparr>"
  have run: "add_edge a b w ops g = Some (i, g')"
    using al(1) a b rv(1) es1(1) nms
    by (simp add: add_edge_def Let_def es2_def x_def f'_def g'_def)
  have NV: "nview (g_nodes g') = nview (g_nodes g)" unfolding g'_def f'_def by (simp add: nview_edges_update [OF a])
  hence NM: "names (g_nodes g') = names (g_nodes g)" by (simp add: names_nview)
  have N: "slot (g_nodes g') = (slot (g_nodes g))(a := Some f')"
    by (simp add: g'_def slot_list_update [OF slot_Some_less [OF a]])
  have nab: "core (g_edges g) j \<noteq> Some (a, b, w', s')" for j w' s'
    using fresh [of j] by (auto simp: core_def ends_def)
  have nma: "names (g_nodes g) a = Some (gn_name f)" and nmb: "names (g_nodes g) b = Some (gn_name t)"
    using a b by (simp_all add: names_def)
  have "graph_inv g'" unfolding graph_inv_def NM N
  proof (intro conjI)
    show "slab_ok (g_nodes g') (g_node_free g')"
      using slab_ok_overwrite [OF graph_invD(1) [OF g] a] by (simp add: g'_def)
    have sl: "slot es2 = relink rvs (Some i) (slot (es[i := Some x]))"
      unfolding E2 slot_list_update [OF al(4)] E using al(2) E rv(2) [of i]
      by (auto simp: relink_def ends_def fun_eq_iff split: option.splits)
    show "slab_ok (g_edges g') (g_edge_free g')"
      using slab_ok_relink [OF al(5) sl] es1(3) by (simp add: g'_def es2_def)
    show "names_ok (names (g_nodes g))" by (rule graph_invD(3) [OF g])
    show "ends_ok (names (g_nodes g)) (core (g_edges g'))"
      using ends_ok_upd [OF graph_invD(4) [OF g]] nma nmb by (simp add: g'_def C2)
    show "lists_ok ((slot (g_nodes g))(a := Some f')) (core (g_edges g'))"
      using lists_ok_add [OF graph_invD(5) [OF g] Ci a name_fresh [OF graph_invD(3,4,5) [OF g] a nmb nab]]
      by (simp add: g'_def C2 f'_def)
    show "weights_ok (names (g_nodes g)) (core (g_edges g')) (g_weight_order g')"
      using weights_ok_add [OF graph_invD(6) [OF g] Ci nma key_fresh [OF graph_invD(6,3,4) [OF g] nma nmb nab]]
      by (simp add: g'_def C2)
    have "twins_ok ((relink (ge_reverse x) (Some i) (slot (g_edges g)))(i := Some x))"
      using fresh rv(2) by (intro twins_ok_add graph_invD(7) [OF g] al(2)) (simp_all add: x_def)
    thus "twins_ok (slot (g_edges g'))" by (simp add: g'_def E2 x_def)
  qed
  thus thesis using run NV al(2) E2 by (intro that [of i g' x]) (simp_all add: g'_def x_def)
qed

text \<open>What an edge says apart from its twin.\<close>

definition content :: "(nat \<Rightarrow> gedge option) \<Rightarrow> nat \<Rightarrow> gedge option" where
  "content E i = map_option (\<lambda>e. e\<lparr>ge_reverse := None\<rparr>) (E i)"

lemma content_None [simp]: "content E i = None \<longleftrightarrow> E i = None"
  by (simp add: content_def)

lemma content_relink [simp]: "content (relink r v E) = content E"
  by (rule ext) (auto simp: content_def relink_def option.map_comp comp_def split: option.splits)

lemma content_upd:
  "content (E(i := v)) = (content E)(i := map_option (\<lambda>e. e\<lparr>ge_reverse := None\<rparr>) v)"
  by (rule ext) (simp add: content_def)

lemma edge_names_graph:
  assumes g: "graph_inv g" and a: "slot (g_nodes g) a = Some f" and es: "core es = core (g_edges g)"
  shows "edge_names es (gn_edges f) = Some (map (core_name (core (g_edges g))) (gn_edges f))"
proof -
  have "core es j \<noteq> None" if "j \<in> set (gn_edges f)" for j
    using lists_okD(2) [OF graph_invD(5) [OF g] a] that unfolding es by auto
  thus ?thesis by (simp add: edge_names_live es)
qed

lemma edge_split:
  assumes g: "graph_inv g" and i: "slot (g_edges g) i = Some e"
  obtains f us vs where "slot (g_nodes g) (ge_from e) = Some f" "gn_edges f = us @ i # vs"
    "binary_search (map (core_name (core (g_edges g))) (gn_edges f)) (ge_to_name e) = Some (length us)"
proof -
  have c: "core (g_edges g) i = Some (ge_from e, ge_to e, ge_weight e, ge_to_name e)"
    using i by (simp add: core_def)
  obtain f where f: "slot (g_nodes g) (ge_from e) = Some f"
    using ends_okD(1) [OF graph_invD(4) [OF g] c] by (auto simp: names_def)
  have "i \<in> set (gn_edges f)" using lists_okD(2) [OF graph_invD(5) [OF g] f] c by blast
  then obtain us vs where fv: "gn_edges f = us @ i # vs" by (metis split_list)
  have nm: "core_name (core (g_edges g)) i = ge_to_name e" by (simp add: core_name_def c)
  have "binary_search (map (core_name (core (g_edges g))) (gn_edges f)) (ge_to_name e) = Some (length us)"
    using lists_okD(1) [OF graph_invD(5) [OF g] f] unfolding fv nm [symmetric] by (rule binary_search_split)
  thus thesis by (rule that [OF f fv])
qed

lemma del_edge_ok:
  assumes g: "graph_inv g" and i: "slot (g_edges g) i = Some e"
  obtains g' where "del_edge i g = Some (Some g')" "graph_inv g'"
    "slot (g_edges g') = (relink (ge_reverse e) None (slot (g_edges g)))(i := None)"
    "nview (g_nodes g') = nview (g_nodes g)" "length (g_nodes g') = length (g_nodes g)"
    "g_node_free g' = g_node_free g" "length (g_edges g') = length (g_edges g)"
proof -
  obtain f us vs where f: "slot (g_nodes g) (ge_from e) = Some f" and fv: "gn_edges f = us @ i # vs"
    and pos: "binary_search (map (core_name (core (g_edges g))) (gn_edges f)) (ge_to_name e) = Some (length us)"
    by (rule edge_split [OF g i])
  have c: "core (g_edges g) i = Some (ge_from e, ge_to e, ge_weight e, ge_to_name e)"
    using i by (simp add: core_def)
  have "slot (g_edges g) r \<noteq> None" if "ge_reverse e = Some r" for r
    using graph_invD(7) [OF g] i that unfolding twins_ok_def by blast
  then obtain es where es: "(case ge_reverse e of None \<Rightarrow> Some (g_edges g)
      | Some r \<Rightarrow> set_reverse r None (g_edges g)) = Some es"
    "slot es = relink (ge_reverse e) None (slot (g_edges g))" "length es = length (g_edges g)"
    using relink_opt by metis
  note C = core_relink [OF es(2)]
  have il: "i < length es" using slot_Some_less [OF i] es(3) by simp
  define g' where "g' = g\<lparr>g_nodes := (g_nodes g)[ge_from e := Some (f\<lparr>gn_edges := us @ vs\<rparr>)],
    g_edges := es[i := None], g_edge_free := g_edge_free g @ [i],
    g_weight_order := bt_remove (ge_weight e, gn_name f, ge_to_name e) (g_weight_order g)\<rparr>"
  have "g_edges g ! i = Some e" using i by (simp add: slot_def split: if_splits)
  hence run: "del_edge i g = Some (Some g')"
    using slot_Some_less [OF i] es(1) f pos edge_names_graph [OF g f C] fv
    by (simp add: del_edge_def g'_def Let_def del: map_append list.map)
  have E: "slot (g_edges g') = (relink (ge_reverse e) None (slot (g_edges g)))(i := None)"
    by (simp add: g'_def slot_list_update [OF il] es(2))
  have C': "core (g_edges g') = (core (g_edges g))(i := None)"
    by (simp add: g'_def core_list_update [OF il] C)
  have NV: "nview (g_nodes g') = nview (g_nodes g)" by (simp add: g'_def nview_edges_update [OF f])
  hence NM: "names (g_nodes g') = names (g_nodes g)" by (simp add: names_nview)
  have "slot es i \<noteq> None" using i unfolding es(2) by (metis content_None content_relink option.distinct(1))
  then obtain e' where "slot es i = Some e'" by blast
  hence sl: "slab_ok (es[i := None]) (g_edge_free g @ [i])"
    by (rule free_slot_ok [OF slab_ok_relink [OF graph_invD(2) [OF g] es(2,3)]])
  have "graph_inv g'" unfolding graph_inv_def NM E C'
  proof (intro conjI)
    show "slab_ok (g_nodes g') (g_node_free g')"
      using slab_ok_overwrite [OF graph_invD(1) [OF g] f] by (simp add: g'_def)
    show "slab_ok (g_edges g') (g_edge_free g')" using sl by (simp add: g'_def)
    show "names_ok (names (g_nodes g))" by (rule graph_invD(3) [OF g])
    show "ends_ok (names (g_nodes g)) ((core (g_edges g))(i := None))" by (rule ends_ok_del [OF graph_invD(4) [OF g]])
    show "lists_ok (slot (g_nodes g')) ((core (g_edges g))(i := None))"
      using lists_ok_del [OF graph_invD(5) [OF g] f fv c]
      by (simp add: g'_def slot_list_update [OF slot_Some_less [OF f]])
    show "weights_ok (names (g_nodes g)) ((core (g_edges g))(i := None)) (g_weight_order g')"
      using weights_ok_del [OF graph_invD(6) [OF g] c, of "gn_name f"] f by (simp add: g'_def names_def)
    show "twins_ok ((relink (ge_reverse e) None (slot (g_edges g)))(i := None))"
      by (rule twins_ok_del [OF graph_invD(7) [OF g] graph_inv_unique [OF g] i])
  qed
  thus thesis using run E NV es(3) by (intro that [of g']) (simp_all add: g'_def)
qed

lemma del_edges_ok:
  assumes "graph_inv g" "distinct is" "\<And>i. i \<in> set is \<Longrightarrow> slot (g_edges g) i \<noteq> None"
  shows "\<exists>g'. del_edges is g = Some g' \<and> graph_inv g' \<and>
    content (slot (g_edges g')) = (\<lambda>i. if i \<in> set is then None else content (slot (g_edges g)) i) \<and>
    nview (g_nodes g') = nview (g_nodes g) \<and> length (g_nodes g') = length (g_nodes g) \<and>
    g_node_free g' = g_node_free g"
  using assms
proof (induction "is" arbitrary: g)
  case (Cons i "is")
  obtain e where e: "slot (g_edges g) i = Some e" using Cons(4) by force
  obtain g1 where g1: "del_edge i g = Some (Some g1)" "graph_inv g1"
    "slot (g_edges g1) = (relink (ge_reverse e) None (slot (g_edges g)))(i := None)"
    "nview (g_nodes g1) = nview (g_nodes g)" "length (g_nodes g1) = length (g_nodes g)"
    "g_node_free g1 = g_node_free g"
    by (rule del_edge_ok [OF Cons(2) e])
  have c1: "content (slot (g_edges g1)) = (content (slot (g_edges g)))(i := None)"
    unfolding g1(3) content_upd by simp
  have d: "distinct is" "i \<notin> set is" using Cons(3) by simp_all
  have "slot (g_edges g1) j \<noteq> None" if j: "j \<in> set is" for j
  proof -
    have "content (slot (g_edges g)) j \<noteq> None" using Cons(4) [of j] j by simp
    thus ?thesis using c1 d(2) j by (metis content_None fun_upd_other)
  qed
  from Cons(1) [OF g1(2) d(1) this] obtain g' where g': "del_edges is g1 = Some g'" "graph_inv g'"
    "content (slot (g_edges g')) = (\<lambda>j. if j \<in> set is then None else content (slot (g_edges g1)) j)"
    "nview (g_nodes g') = nview (g_nodes g1)" "length (g_nodes g') = length (g_nodes g1)"
    "g_node_free g' = g_node_free g1"
    by blast
  have "content (slot (g_edges g')) = (\<lambda>j. if j \<in> set (i # is) then None else content (slot (g_edges g)) j)"
    unfolding g'(3) c1 by (rule ext) simp
  thus ?case using g1 g' by (intro exI [of _ g']) simp
qed simp

lemma node_edges_distinct:
  "graph_inv g \<Longrightarrow> slot (g_nodes g) n = Some nd \<Longrightarrow> distinct (gn_edges nd)"
  using lists_okD(1) [OF graph_invD(5)] by (metis strict_sorted_iff distinct_map)


lemma reverse_erased:
  "e0\<lparr>ge_reverse := None\<rparr> = e\<lparr>ge_reverse := None\<rparr> \<Longrightarrow> ge_from e0 = ge_from e \<and> ge_to e0 = ge_to e \<and>
     ge_weight e0 = ge_weight e \<and> ge_options e0 = ge_options e"
  by (cases e0, cases e) simp

lemma del_node_ok:
  assumes g: "graph_inv g" and n: "slot (g_nodes g) n = Some nd"
    and inc: "\<And>i e. slot (g_edges g) i = Some e \<Longrightarrow> ge_to e = n \<Longrightarrow> ge_from e = n"
  obtains g' where "del_node n g = Some (Some g')" "graph_inv g'"
    "content (slot (g_edges g')) = (\<lambda>i. case slot (g_edges g) i of None \<Rightarrow> None
       | Some e \<Rightarrow> if ge_from e = n then None else content (slot (g_edges g)) i)"
    "nview (g_nodes g') = (nview (g_nodes g))(n := None)"
proof -
  have "slot (g_edges g) i \<noteq> None" if "i \<in> set (gn_edges nd)" for i
    by (rule live_edges [OF g n that]) simp
  from del_edges_ok [OF g node_edges_distinct [OF g n] this] obtain g1 where
    g1: "del_edges (gn_edges nd) g = Some g1" "graph_inv g1"
      "content (slot (g_edges g1)) = (\<lambda>i. if i \<in> set (gn_edges nd) then None else content (slot (g_edges g)) i)"
      "nview (g_nodes g1) = nview (g_nodes g)" "length (g_nodes g1) = length (g_nodes g)"
      "g_node_free g1 = g_node_free g"
    by blast
  define g' where "g' = g1\<lparr>g_nodes := (g_nodes g1)[n := None], g_node_free := g_node_free g1 @ [n]\<rparr>"
  have nl: "n < length (g_nodes g1)" using slot_Some_less [OF n] g1(5) by simp
  have mem: "i \<in> set (gn_edges nd) \<longleftrightarrow> (\<exists>e. slot (g_edges g) i = Some e \<and> ge_from e = n)" for i
    using lists_okD(2) [OF graph_invD(5) [OF g] n, of i] by (auto simp: core_def)
  have C: "content (slot (g_edges g1)) = (\<lambda>i. case slot (g_edges g) i of None \<Rightarrow> None
       | Some e \<Rightarrow> if ge_from e = n then None else content (slot (g_edges g)) i)"
  proof
    fix i
    show "content (slot (g_edges g1)) i = (case slot (g_edges g) i of None \<Rightarrow> None
       | Some e \<Rightarrow> if ge_from e = n then None else content (slot (g_edges g)) i)"
      using mem [of i] unfolding g1(3) by (cases "slot (g_edges g) i") simp_all
  qed
  have off: "ge_from e \<noteq> n \<and> ge_to e \<noteq> n" if "slot (g_edges g1) i = Some e" for i e
  proof -
    have "content (slot (g_edges g1)) i = Some (e\<lparr>ge_reverse := None\<rparr>)" using that by (simp add: content_def)
    then obtain e0 where "slot (g_edges g) i = Some e0" "ge_from e0 \<noteq> n"
      "e0\<lparr>ge_reverse := None\<rparr> = e\<lparr>ge_reverse := None\<rparr>"
      unfolding C by (auto simp: content_def split: option.splits if_splits)
    moreover from this(3) have "ge_from e0 = ge_from e" "ge_to e0 = ge_to e"
      by (blast dest: reverse_erased)+
    ultimately show ?thesis using inc by metis
  qed
  have noc: "core (g_edges g1) j \<noteq> Some (n, b, w, s)" "core (g_edges g1) j \<noteq> Some (a, n, w, s)" for j a b w s
    using off [of j] by (auto simp: core_def)
  obtain nd1 where nd1: "slot (g_nodes g1) n = Some nd1"
    using g1(4) n by (metis (mono_tags, lifting) nview_def option.map_disc_iff option.exhaust option.distinct(1))
  have NM: "names (g_nodes g') = (names (g_nodes g1))(n := None)"
    by (rule ext) (simp add: names_def g'_def slot_list_update [OF nl])
  have "graph_inv g'" unfolding graph_inv_def NM
  proof (intro conjI)
    show "slab_ok (g_nodes g') (g_node_free g')"
      using free_slot_ok [OF graph_invD(1) [OF g1(2)] nd1] by (simp add: g'_def)
    show "names_ok ((names (g_nodes g1))(n := None))"
      using graph_invD(3) [OF g1(2)] by (simp add: names_ok_def)
    show "ends_ok ((names (g_nodes g1))(n := None)) (core (g_edges g'))"
      using ends_ok_names [OF graph_invD(4) [OF g1(2)] noc] by (simp add: g'_def)
    show "lists_ok (slot (g_nodes g')) (core (g_edges g'))"
      using graph_invD(5) [OF g1(2)] by (simp add: g'_def slot_list_update [OF nl] lists_ok_def)
    show "weights_ok ((names (g_nodes g1))(n := None)) (core (g_edges g')) (g_weight_order g')"
      using weights_ok_names [OF graph_invD(6) [OF g1(2)] noc(1)] by (simp add: g'_def)
  qed (use graph_invD [OF g1(2)] in \<open>simp_all add: g'_def\<close>)
  moreover have "nview (g_nodes g') = (nview (g_nodes g))(n := None)"
    by (rule ext) (simp add: g1(4) [symmetric] nview_def g'_def slot_list_update [OF nl])
  moreover have "del_node n g = Some (Some g')"
    using n g1(1) by (simp add: del_node_def slot_def g'_def split: if_splits)
  ultimately show thesis using C by (intro that [of g']) (simp_all add: g'_def)
qed

lemma set_reachable_ok:
  assumes g: "graph_inv g" and n: "slot (g_nodes g) n = Some nd"
  obtains g' where "set_reachable n r g = Some g'" "graph_inv g'" "g_edges g' = g_edges g"
    "nview (g_nodes g') = (nview (g_nodes g))(n := Some (gn_name nd, r))"
proof -
  define g' where "g' = g\<lparr>g_nodes := (g_nodes g)[n := Some (nd\<lparr>gn_reachable := r\<rparr>)]\<rparr>"
  note nl = slot_Some_less [OF n]
  have NM: "names (g_nodes g') = names (g_nodes g)"
    by (rule ext) (simp add: g'_def names_def slot_list_update [OF nl] n)
  have "graph_inv g'" unfolding graph_inv_def NM
  proof (intro conjI)
    show "slab_ok (g_nodes g') (g_node_free g')"
      using slab_ok_overwrite [OF graph_invD(1) [OF g] n] by (simp add: g'_def)
    show "lists_ok (slot (g_nodes g')) (core (g_edges g'))"
      using graph_invD(5) [OF g] n by (simp add: g'_def slot_list_update [OF nl] lists_ok_def)
  qed (use graph_invD [OF g] in \<open>simp_all add: g'_def\<close>)
  moreover have "nview (g_nodes g') = (nview (g_nodes g))(n := Some (gn_name nd, r))"
    by (rule ext) (simp add: g'_def nview_def slot_list_update [OF nl])
  ultimately show thesis by (intro that [of g']) (simp_all add: set_reachable_def n g'_def)
qed

lemma lists_ok_weight:
  assumes l: "lists_ok N F" and i: "F i = Some (a, b, w, s)"
  shows "lists_ok N (F(i := Some (a, b, w', s)))"
proof -
  have "core_name (F(i := Some (a, b, w', s))) = core_name F"
    using i by (auto simp: core_name_def fun_eq_iff)
  moreover have "(\<exists>b' w1 s'. (F(i := Some (a, b, w', s))) j = Some (n, b', w1, s')) \<longleftrightarrow>
      (\<exists>b' w1 s'. F j = Some (n, b', w1, s'))" for j n
    using i by (cases "j = i") auto
  ultimately show ?thesis using l unfolding lists_ok_def by presburger
qed

lemma weights_ok_weight:
  assumes g: "graph_inv g" and c: "core (g_edges g) i = Some (a, b, w, s)"
    and nm: "names (g_nodes g) a = Some nm"
  shows "weights_ok (names (g_nodes g)) ((core (g_edges g))(i := Some (a, b, w', s)))
    (bt_insert (w', nm, s) i (bt_remove (w, nm, s) (g_weight_order g)))"
proof -
  let ?F = "(core (g_edges g))(i := None)"
  have d: "weights_ok (names (g_nodes g)) ?F (bt_remove (w, nm, s) (g_weight_order g))"
    by (rule weights_ok_del [OF graph_invD(6) [OF g] c nm])
  have "?F j \<noteq> Some (a, b, w1, s1)" for j w1 s1
    using edge_unique [OF graph_invD(4,5) [OF g] c, of j w1 s1] by auto
  from key_fresh [OF d graph_invD(3) [OF g] ends_ok_del [OF graph_invD(4) [OF g]] nm
      ends_okD(2) [OF graph_invD(4) [OF g] c] this]
  have "(w', nm, s) \<notin> fst ` set (bt_remove (w, nm, s) (g_weight_order g))" .
  from weights_ok_add [OF d _ nm this, of i b] show ?thesis by simp
qed

lemma twins_ok_upd:
  assumes t: "twins_ok E" and i: "E i = Some e"
    and e': "ge_from e' = ge_from e" "ge_to e' = ge_to e" "ge_reverse e' = ge_reverse e"
  shows "twins_ok (E(i := Some e'))"
proof -
  have "ends (E(i := Some e')) = ends E" using i e' by (auto simp: ends_def fun_eq_iff)
  thus ?thesis using t i e' unfolding twins_ok_ends by (metis fun_upd_apply option.inject)
qed

lemma update_edge_ok:
  assumes g: "graph_inv g" and i: "slot (g_edges g) i = Some e"
  obtains g' where "update_edge i w ops g = Some (Some g')" "graph_inv g'" "g_nodes g' = g_nodes g"
    "slot (g_edges g') = (slot (g_edges g))(i := Some (e\<lparr>ge_options := ops, ge_weight := w\<rparr>))"
proof -
  define e' where "e' = e\<lparr>ge_options := ops, ge_weight := w\<rparr>"
  have c: "core (g_edges g) i = Some (ge_from e, ge_to e, ge_weight e, ge_to_name e)"
    using i by (simp add: core_def)
  note il = slot_Some_less [OF i]
  have at: "g_edges g ! i = Some e" using i by (simp add: slot_def split: if_splits)
  obtain f where f: "slot (g_nodes g) (ge_from e) = Some f"
    using ends_okD(1) [OF graph_invD(4) [OF g] c] by (auto simp: names_def)
  hence nm: "names (g_nodes g) (ge_from e) = Some (gn_name f)" by (simp add: names_def)
  let ?k = "(ge_weight e, gn_name f, ge_to_name e)"
  define wo where "wo = (if ge_weight e = w then g_weight_order g
    else bt_insert (w, gn_name f, ge_to_name e) i (bt_remove ?k (g_weight_order g)))"
  define g' where "g' = g\<lparr>g_edges := (g_edges g)[i := Some e'], g_weight_order := wo\<rparr>"
  have "(?k, i) \<in> set (g_weight_order g)"
    unfolding weights_okD(2) [OF graph_invD(6) [OF g]] using c nm by blast
  hence mo: "map_of (g_weight_order g) ?k = Some i"
    using bt_ok_distinct [OF weights_okD(1) [OF graph_invD(6) [OF g]]] by simp
  have run: "update_edge i w ops g = Some (Some g')"
  proof (cases "ge_weight e = w")
    case True
    hence "e' = e\<lparr>ge_options := ops\<rparr>" by (simp add: e'_def)
    thus ?thesis using True il at by (simp add: update_edge_def g'_def wo_def)
  next
    case False
    thus ?thesis using il at f mo by (simp add: update_edge_def g'_def wo_def e'_def)
  qed
  have C: "core (g_edges g') = (core (g_edges g))(i := Some (ge_from e, ge_to e, w, ge_to_name e))"
    by (simp add: g'_def core_list_update [OF il] e'_def)
  have "graph_inv g'" unfolding graph_inv_def C
  proof (intro conjI)
    show "slab_ok (g_edges g') (g_edge_free g')"
      using slab_ok_overwrite [OF graph_invD(2) [OF g] i] by (simp add: g'_def)
    show "ends_ok (names (g_nodes g')) ((core (g_edges g))(i := Some (ge_from e, ge_to e, w, ge_to_name e)))"
      using ends_ok_upd [OF graph_invD(4) [OF g] ends_okD [OF graph_invD(4) [OF g] c]] by (simp add: g'_def)
    show "lists_ok (slot (g_nodes g')) ((core (g_edges g))(i := Some (ge_from e, ge_to e, w, ge_to_name e)))"
      using lists_ok_weight [OF graph_invD(5) [OF g] c] by (simp add: g'_def)
    show "weights_ok (names (g_nodes g')) ((core (g_edges g))(i := Some (ge_from e, ge_to e, w, ge_to_name e)))
        (g_weight_order g')"
      using weights_ok_weight [OF g c nm] graph_invD(6) [OF g] c by (auto simp: g'_def wo_def fun_upd_idem)
    show "twins_ok (slot (g_edges g'))"
      using twins_ok_upd [OF graph_invD(7) [OF g] i] by (simp add: g'_def slot_list_update [OF il] e'_def)
  qed (use graph_invD [OF g] in \<open>simp_all add: g'_def\<close>)
  thus thesis using run by (intro that [of g']) (simp_all add: g'_def slot_list_update [OF il] e'_def)
qed

text \<open>The lookup finds exactly the edge with the two ends it is asked for.\<close>

lemma lookup_edge_ok:
  assumes g: "graph_inv g" and a: "slot (g_nodes g) a = Some f" and b: "slot (g_nodes g) b = Some t"
  obtains r where "lookup_edge g a b = Some r" "\<And>i. r = Some i \<longleftrightarrow> ends (slot (g_edges g)) i = Some (a, b)"
proof -
  let ?n = "core_name (core (g_edges g))"
  have run: "lookup_edge g a b = Some (map_option (\<lambda>i. gn_edges f ! i) (binary_search (map ?n (gn_edges f)) (gn_name t)))"
    using slot_Some_less [OF a] slot_Some_less [OF b] a b edge_names_graph [OF g a refl]
    by (simp add: lookup_edge_def slot_def)
  have nmb: "names (g_nodes g) b = Some (gn_name t)" using b by (simp add: names_def)
  have mem: "j \<in> set (gn_edges f) \<and> ?n j = gn_name t \<longleftrightarrow> ends (slot (g_edges g)) j = Some (a, b)" for j
  proof
    assume j: "j \<in> set (gn_edges f) \<and> ?n j = gn_name t"
    then obtain b' w s where c: "core (g_edges g) j = Some (a, b', w, s)"
      using lists_okD(2) [OF graph_invD(5) [OF g] a] by blast
    hence "names (g_nodes g) b' = Some (gn_name t)"
      using j ends_okD(2) [OF graph_invD(4) [OF g] c] by (simp add: core_name_def)
    hence "b' = b" using nmb graph_invD(3) [OF g] unfolding names_ok_def by blast
    thus "ends (slot (g_edges g)) j = Some (a, b)" using c by (auto simp: core_def ends_def)
  next
    assume "ends (slot (g_edges g)) j = Some (a, b)"
    then obtain w s where c: "core (g_edges g) j = Some (a, b, w, s)" by (auto simp: ends_def core_def)
    thus "j \<in> set (gn_edges f) \<and> ?n j = gn_name t"
      using lists_okD(2) [OF graph_invD(5) [OF g] a, of j] ends_okD(2) [OF graph_invD(4) [OF g] c] nmb
      by (simp add: core_name_def)
  qed
  show thesis
  proof (cases "gn_name t \<in> ?n ` set (gn_edges f)")
    case True
    then obtain j where j: "j \<in> set (gn_edges f)" "?n j = gn_name t" by auto
    then obtain us vs where fv: "gn_edges f = us @ j # vs" by (metis split_list)
    have "binary_search (map ?n (gn_edges f)) (gn_name t) = Some (length us)"
      using lists_okD(1) [OF graph_invD(5) [OF g] a] unfolding fv j(2) [symmetric] by (rule binary_search_split)
    hence r: "lookup_edge g a b = Some (Some j)" using run fv by simp
    moreover have "Some j = Some i \<longleftrightarrow> ends (slot (g_edges g)) i = Some (a, b)" for i
      using mem j edges_unique_ends [OF graph_inv_unique [OF g]] by (metis option.inject)
    ultimately show thesis by (rule that)
  next
    case False
    hence "lookup_edge g a b = Some None" using run by (simp add: binary_search_def)
    moreover have "ends (slot (g_edges g)) i \<noteq> Some (a, b)" for i using mem [of i] False by (metis image_eqI)
    ultimately show thesis using that by auto
  qed
qed

end
