(* ===== verification/Mesh_Refinement.thy ===== *)
theory Mesh_Refinement
  imports Mesh_Invariant
begin

text \<open>
  The abstract mesh that the slabs, links and indexes of the graph implement, the discipline of the
  daemon's calls, and the simulation between the two.
\<close>

section \<open>The mesh the slabs implement\<close>

text \<open>
  The abstract mesh: the live nodes with their names and reachability, and at most one edge for each
  ordered pair of nodes, with its weight and options. Twins, free lists and both indexes are gone.
\<close>

record mesh =
  m_nodes :: "nat \<Rightarrow> (string \<times> bool) option"
  m_edges :: "nat \<times> nat \<Rightarrow> (int \<times> u32) option"

definition abs_edges :: "gedge option list \<Rightarrow> nat \<times> nat \<Rightarrow> (int \<times> u32) option" where
  "abs_edges es = map_of (map (\<lambda>e. ((ge_from e, ge_to e), (ge_weight e, ge_options e)))
     (map the (filter (\<lambda>s. s \<noteq> None) es)))"

definition abs_mesh :: "graph \<Rightarrow> mesh" where
  "abs_mesh g = \<lparr>m_nodes = nview (g_nodes g), m_edges = abs_edges (g_edges g)\<rparr>"

text \<open>The calls the daemon makes, and what it must see to before each of them.\<close>

datatype gop = AddNode string | AddEdge nat nat int u32 | DelEdge nat | DelNode nat
  | UpdateEdge nat int u32 | SetReachable nat bool

fun gop_run :: "gop \<Rightarrow> graph \<Rightarrow> graph option" where
  "gop_run (AddNode nm) g = map_option snd (add_node nm g)"
| "gop_run (AddEdge a b w ops) g = map_option snd (add_edge a b w ops g)"
| "gop_run (DelEdge i) g = map_option (case_option g id) (del_edge i g)"
| "gop_run (DelNode n) g = map_option (case_option g id) (del_node n g)"
| "gop_run (UpdateEdge i w ops) g = map_option (case_option g id) (update_edge i w ops g)"
| "gop_run (SetReachable n r) g = set_reachable n r g"

fun gop_allowed :: "gop \<Rightarrow> graph \<Rightarrow> bool" where
  "gop_allowed (AddNode nm) g \<longleftrightarrow> fits_u32 (length (g_nodes g)) \<and>
     list_all (\<lambda>s. map_option gn_name s \<noteq> Some nm) (g_nodes g)"
| "gop_allowed (AddEdge a b w ops) g \<longleftrightarrow> fits_u32 (length (g_edges g)) \<and>
     slot (g_nodes g) a \<noteq> None \<and> slot (g_nodes g) b \<noteq> None \<and> lookup_edge g a b = Some None"
| "gop_allowed (DelEdge i) g \<longleftrightarrow> i < length (g_edges g)"
| "gop_allowed (DelNode n) g \<longleftrightarrow> n < length (g_nodes g) \<and>
     list_all (\<lambda>s. case s of None \<Rightarrow> True | Some e \<Rightarrow> ge_to e = n \<longrightarrow> ge_from e = n) (g_edges g)"
| "gop_allowed (UpdateEdge i w ops) g \<longleftrightarrow> i < length (g_edges g)"
| "gop_allowed (SetReachable n r) g \<longleftrightarrow> slot (g_nodes g) n \<noteq> None"

inductive graph_reach :: "graph \<Rightarrow> bool" where
  reach_new: "graph_reach graph_new"
| reach_op: "graph_reach g \<Longrightarrow> gop_allowed op g \<Longrightarrow> gop_run op g = Some g' \<Longrightarrow> graph_reach g'"

text \<open>
  The same calls on the abstract mesh. A new node gets some free identifier; the identifier of an
  edge stands for its two ends, and a call on a freed slot changes nothing.
\<close>

inductive mesh_step :: "(nat \<Rightarrow> (nat \<times> nat) option) \<Rightarrow> gop \<Rightarrow> mesh \<Rightarrow> mesh \<Rightarrow> bool" for ids where
  m_add_node: "m_nodes m i = None \<Longrightarrow>
     mesh_step ids (AddNode nm) m (m\<lparr>m_nodes := (m_nodes m)(i := Some (nm, True))\<rparr>)"
| m_add_edge: "m_edges m (a, b) = None \<Longrightarrow>
     mesh_step ids (AddEdge a b w ops) m (m\<lparr>m_edges := (m_edges m)((a, b) := Some (w, ops))\<rparr>)"
| m_del_edge: "ids i = Some p \<Longrightarrow> m_edges m p \<noteq> None \<Longrightarrow>
     mesh_step ids (DelEdge i) m (m\<lparr>m_edges := (m_edges m)(p := None)\<rparr>)"
| m_del_edge_freed: "ids i = None \<Longrightarrow> mesh_step ids (DelEdge i) m m"
| m_del_node: "m_nodes m n \<noteq> None \<Longrightarrow>
     mesh_step ids (DelNode n) m \<lparr>m_nodes = (m_nodes m)(n := None),
       m_edges = (\<lambda>(a, b). if a = n then None else m_edges m (a, b))\<rparr>"
| m_del_node_freed: "m_nodes m n = None \<Longrightarrow> mesh_step ids (DelNode n) m m"
| m_update: "ids i = Some p \<Longrightarrow> m_edges m p \<noteq> None \<Longrightarrow>
     mesh_step ids (UpdateEdge i w ops) m (m\<lparr>m_edges := (m_edges m)(p := Some (w, ops))\<rparr>)"
| m_update_freed: "ids i = None \<Longrightarrow> mesh_step ids (UpdateEdge i w ops) m m"
| m_reachable: "m_nodes m n = Some (nm, r0) \<Longrightarrow>
     mesh_step ids (SetReachable n r) m (m\<lparr>m_nodes := (m_nodes m)(n := Some (nm, r))\<rparr>)"

lemma abs_edges_Some:
  assumes u: "edges_unique (slot es)"
  shows "abs_edges es p = Some v \<longleftrightarrow>
    (\<exists>i e. slot es i = Some e \<and> p = (ge_from e, ge_to e) \<and> v = (ge_weight e, ge_options e))"
proof -
  have mem: "Some e \<in> set es \<longleftrightarrow> (\<exists>i. slot es i = Some e)" for e
    by (auto simp: in_set_conv_nth slot_def)
  let ?xs = "map (\<lambda>e. ((ge_from e, ge_to e), (ge_weight e, ge_options e))) (map the (filter (\<lambda>s. s \<noteq> None) es))"
  have set: "(p, v) \<in> set ?xs \<longleftrightarrow> (\<exists>e. Some e \<in> set es \<and> p = (ge_from e, ge_to e) \<and> v = (ge_weight e, ge_options e))" for p v
    by force
  have one: "v = v'" if m: "(p, v) \<in> set ?xs" "(p, v') \<in> set ?xs" for p v v'
  proof -
    obtain i e j e' where e: "slot es i = Some e" "slot es j = Some e'"
      "p = (ge_from e, ge_to e)" "p = (ge_from e', ge_to e')"
      "v = (ge_weight e, ge_options e)" "v' = (ge_weight e', ge_options e')"
      using m unfolding set mem by blast
    hence "i = j" using u unfolding edges_unique_def by (metis prod.inject)
    thus ?thesis using e by simp
  qed
  have "map_of ?xs p = Some v \<longleftrightarrow> (p, v) \<in> set ?xs"
  proof
    assume pv: "(p, v) \<in> set ?xs"
    obtain v' where v': "map_of ?xs p = Some v'" using weak_map_of_SomeI [OF pv] by blast
    have "v' = v" by (rule one [OF map_of_SomeD [OF v'] pv])
    thus "map_of ?xs p = Some v" using v' by (simp only:)
  qed (rule map_of_SomeD)
  thus ?thesis unfolding abs_edges_def set mem by blast
qed

lemma map_eqI: "(\<And>p v. m p = Some v \<longleftrightarrow> m' p = Some v) \<Longrightarrow> m = m'"
  by (rule ext) (metis option.exhaust)

lemma abs_edges_content:
  assumes "edges_unique (slot es)"
  shows "abs_edges es p = Some v \<longleftrightarrow> (\<exists>i e. content (slot es) i = Some e \<and>
    p = (ge_from e, ge_to e) \<and> v = (ge_weight e, ge_options e))"
  unfolding abs_edges_Some [OF assms] content_def by force

lemma ends_content: "ends E i = map_option (\<lambda>e. (ge_from e, ge_to e)) (content E i)"
  by (simp add: ends_def content_def option.map_comp comp_def)

lemma ex_upd:
  "(\<exists>j e. (m(i := c)) j = Some e \<and> P e) \<longleftrightarrow>
   (\<exists>e. c = Some e \<and> P e) \<or> (\<exists>j e. j \<noteq> i \<and> m j = Some e \<and> P e)"
  by (metis fun_upd_apply)

lemma abs_edges_upd:
  assumes u: "edges_unique (slot es)" "edges_unique (slot es')"
    and c: "content (slot es') = (content (slot es))(i := c)"
    and others: "\<And>j. j \<noteq> i \<Longrightarrow> ends (slot es) j \<noteq> Some p"
    and old: "slot es i \<noteq> None \<Longrightarrow> ends (slot es) i = Some p"
    and new: "\<And>e. c = Some e \<Longrightarrow> (ge_from e, ge_to e) = p"
  shows "abs_edges es' = (abs_edges es)(p := map_option (\<lambda>e. (ge_weight e, ge_options e)) c)"
proof (rule map_eqI)
  fix q v
  have old': "(ge_from e, ge_to e) = p" if "content (slot es) i = Some e" for e
  proof -
    have "slot es i \<noteq> None" using that content_None [of "slot es" i] by simp
    thus ?thesis using old that by (simp add: ends_content)
  qed
  have oth': "(ge_from e, ge_to e) \<noteq> p" if "j \<noteq> i" "content (slot es) j = Some e" for j e
    using others [OF that(1)] that(2) by (simp add: ends_content)
  have R: "abs_edges es' q = Some v \<longleftrightarrow> (\<exists>e. c = Some e \<and> q = (ge_from e, ge_to e) \<and> v = (ge_weight e, ge_options e)) \<or>
      (\<exists>j e. j \<noteq> i \<and> content (slot es) j = Some e \<and> q = (ge_from e, ge_to e) \<and> v = (ge_weight e, ge_options e))"
    unfolding abs_edges_content [OF u(2)] c by (rule ex_upd)
  show "abs_edges es' q = Some v \<longleftrightarrow>
      ((abs_edges es)(p := map_option (\<lambda>e. (ge_weight e, ge_options e)) c)) q = Some v"
  proof (cases "q = p")
    case True
    have "abs_edges es' q = Some v \<longleftrightarrow> (\<exists>e. c = Some e \<and> v = (ge_weight e, ge_options e))"
      unfolding R using True oth' new by (metis (no_types))
    thus ?thesis using True by auto
  next
    case False
    have "abs_edges es' q = Some v \<longleftrightarrow> abs_edges es q = Some v"
      unfolding R abs_edges_content [OF u(1)] using False old' new by (metis (no_types))
    thus ?thesis using False by simp
  qed
qed

lemma abs_edges_None: "edges_unique (slot es) \<Longrightarrow> (\<And>i. ends (slot es) i \<noteq> Some p) \<Longrightarrow> abs_edges es p = None"
proof (rule ccontr)
  assume u: "edges_unique (slot es)" and n: "\<And>i. ends (slot es) i \<noteq> Some p" and "abs_edges es p \<noteq> None"
  then obtain v where "abs_edges es p = Some v" by blast
  then obtain i e where "slot es i = Some e" "p = (ge_from e, ge_to e)" unfolding abs_edges_Some [OF u] by blast
  thus False using n [of i] by (simp add: ends_def)
qed

lemma abs_edges_live:
  "edges_unique (slot es) \<Longrightarrow> slot es i = Some e \<Longrightarrow>
   abs_edges es (ge_from e, ge_to e) = Some (ge_weight e, ge_options e)"
  using abs_edges_Some by blast

section \<open>Simulation\<close>

text \<open>What every allowed call does: it returns, keeps the invariant, and makes the abstract step.\<close>

definition op_simulates :: "gop \<Rightarrow> graph \<Rightarrow> bool" where
  "op_simulates op g \<longleftrightarrow> (\<exists>g'. gop_run op g = Some g' \<and> graph_inv g' \<and>
     mesh_step (ends (slot (g_edges g))) op (abs_mesh g) (abs_mesh g'))"

lemma op_simulatesI:
  "gop_run op g = Some g' \<Longrightarrow> graph_inv g' \<Longrightarrow>
   mesh_step (ends (slot (g_edges g))) op (abs_mesh g) (abs_mesh g') \<Longrightarrow> op_simulates op g"
  unfolding op_simulates_def by blast

lemma nview_None: "slot ns i = None \<Longrightarrow> nview ns i = None"
  by (simp add: nview_def)

lemma sim_add_node:
  assumes g: "graph_inv g" and al: "gop_allowed (AddNode nm) g"
  shows "op_simulates (AddNode nm) g"
proof -
  have "names (g_nodes g) i \<noteq> Some nm" for i
    using al by (auto simp: list_all_length names_def slot_def)
  with al obtain i g' where r: "add_node nm g = Some (i, g')" "graph_inv g'" "slot (g_nodes g) i = None"
    "nview (g_nodes g') = (nview (g_nodes g))(i := Some (nm, True))" "g_edges g' = g_edges g"
    using add_node_ok [OF g] by (metis gop_allowed.simps(1))
  have "abs_mesh g' = abs_mesh g\<lparr>m_nodes := (m_nodes (abs_mesh g))(i := Some (nm, True))\<rparr>"
    using r(4,5) by (simp add: abs_mesh_def)
  moreover have "m_nodes (abs_mesh g) i = None" using r(3) by (simp add: abs_mesh_def nview_None)
  ultimately show ?thesis using r(1,2) by (intro op_simulatesI [of _ _ g']) (simp_all add: m_add_node)
qed

lemma sim_add_edge:
  assumes g: "graph_inv g" and al: "gop_allowed (AddEdge a b w ops) g"
  shows "op_simulates (AddEdge a b w ops) g"
proof -
  obtain f t where f: "slot (g_nodes g) a = Some f" and t: "slot (g_nodes g) b = Some t" using al by auto
  have len: "fits_u32 (length (g_edges g))" using al unfolding gop_allowed.simps by blast
  have fresh: "ends (slot (g_edges g)) i \<noteq> Some (a, b)" for i
    using lookup_edge_ok [OF g f t] al by (metis gop_allowed.simps(2) option.distinct(1) option.inject)
  obtain i g' x where r: "add_edge a b w ops g = Some (i, g')" "graph_inv g'" "slot (g_edges g) i = None"
    "slot (g_edges g') = (relink (ge_reverse x) (Some i) (slot (g_edges g)))(i := Some x)"
    "ge_from x = a" "ge_to x = b" "ge_weight x = w" "ge_options x = ops"
    "nview (g_nodes g') = nview (g_nodes g)"
    by (rule add_edge_ok [OF g len f t fresh])
  have "abs_edges (g_edges g') = (abs_edges (g_edges g))((a, b) := Some (w, ops))"
    using abs_edges_upd [OF graph_inv_unique [OF g] graph_inv_unique [OF r(2)], of i
        "Some (x\<lparr>ge_reverse := None\<rparr>)" "(a, b)"] r(3-8) fresh
    by (simp add: content_upd)
  hence "abs_mesh g' = abs_mesh g\<lparr>m_edges := (m_edges (abs_mesh g))((a, b) := Some (w, ops))\<rparr>"
    using r(9) by (simp add: abs_mesh_def)
  moreover have "m_edges (abs_mesh g) (a, b) = None"
    using abs_edges_None [OF graph_inv_unique [OF g] fresh] by (simp add: abs_mesh_def)
  ultimately show ?thesis using r(1,2) by (intro op_simulatesI [of _ _ g']) (simp_all add: m_add_edge)
qed

lemma sim_freed_edge:
  assumes "graph_inv g" "i < length (g_edges g)" "slot (g_edges g) i = None"
  shows "op_simulates (DelEdge i) g" "op_simulates (UpdateEdge i w ops) g"
proof -
  have n: "g_edges g ! i = None" "ends (slot (g_edges g)) i = None"
    using assms by (simp_all add: slot_def ends_def)
  show "op_simulates (DelEdge i) g" using assms n
    by (intro op_simulatesI [of _ _ g]) (simp_all add: del_edge_def m_del_edge_freed)
  show "op_simulates (UpdateEdge i w ops) g" using assms n
    by (intro op_simulatesI [of _ _ g]) (simp_all add: update_edge_def m_update_freed)
qed


lemma sim_del_edge:
  assumes g: "graph_inv g" and al: "gop_allowed (DelEdge i) g"
  shows "op_simulates (DelEdge i) g"
proof (cases "slot (g_edges g) i")
  case None
  thus ?thesis using sim_freed_edge(1) [OF g] al by simp
next
  case (Some e)
  obtain g' where r: "del_edge i g = Some (Some g')" "graph_inv g'"
    "slot (g_edges g') = (relink (ge_reverse e) None (slot (g_edges g)))(i := None)"
    "nview (g_nodes g') = nview (g_nodes g)"
    by (rule del_edge_ok [OF g Some])
  let ?p = "(ge_from e, ge_to e)"
  note u = graph_inv_unique [OF g]
  have i: "ends (slot (g_edges g)) i = Some ?p" using Some by (simp add: ends_def)
  hence "ends (slot (g_edges g)) j \<noteq> Some ?p" if "j \<noteq> i" for j using edges_unique_ends [OF u] that by blast
  hence "abs_edges (g_edges g') = (abs_edges (g_edges g))(?p := None)"
    using abs_edges_upd [OF u graph_inv_unique [OF r(2)], of i None ?p] r(3) i by (simp add: content_upd)
  hence "abs_mesh g' = abs_mesh g\<lparr>m_edges := (m_edges (abs_mesh g))(?p := None)\<rparr>"
    using r(4) by (simp add: abs_mesh_def)
  moreover have "m_edges (abs_mesh g) ?p \<noteq> None" using abs_edges_live [OF u Some] by (simp add: abs_mesh_def)
  ultimately show ?thesis using r(1,2) i by (intro op_simulatesI [of _ _ g']) (auto intro: m_del_edge)
qed

lemma sim_update_edge:
  assumes g: "graph_inv g" and al: "gop_allowed (UpdateEdge i w ops) g"
  shows "op_simulates (UpdateEdge i w ops) g"
proof (cases "slot (g_edges g) i")
  case None
  thus ?thesis using sim_freed_edge(2) [OF g] al by simp
next
  case (Some e)
  obtain g' where r: "update_edge i w ops g = Some (Some g')" "graph_inv g'" "g_nodes g' = g_nodes g"
    "slot (g_edges g') = (slot (g_edges g))(i := Some (e\<lparr>ge_options := ops, ge_weight := w\<rparr>))"
    by (rule update_edge_ok [OF g Some])
  let ?p = "(ge_from e, ge_to e)"
  note u = graph_inv_unique [OF g]
  have i: "ends (slot (g_edges g)) i = Some ?p" using Some by (simp add: ends_def)
  hence "ends (slot (g_edges g)) j \<noteq> Some ?p" if "j \<noteq> i" for j using edges_unique_ends [OF u] that by blast
  hence "abs_edges (g_edges g') = (abs_edges (g_edges g))(?p := Some (w, ops))"
    using abs_edges_upd [OF u graph_inv_unique [OF r(2)], of i
        "Some (e\<lparr>ge_options := ops, ge_weight := w, ge_reverse := None\<rparr>)" ?p] r(4) i
    by (simp add: content_upd)
  hence "abs_mesh g' = abs_mesh g\<lparr>m_edges := (m_edges (abs_mesh g))(?p := Some (w, ops))\<rparr>"
    using r(3) by (simp add: abs_mesh_def)
  moreover have "m_edges (abs_mesh g) ?p \<noteq> None" using abs_edges_live [OF u Some] by (simp add: abs_mesh_def)
  ultimately show ?thesis using r(1,2) i by (intro op_simulatesI [of _ _ g']) (auto intro: m_update)
qed

lemma sim_set_reachable:
  assumes g: "graph_inv g" and al: "gop_allowed (SetReachable n r) g"
  shows "op_simulates (SetReachable n r) g"
proof -
  obtain nd where n: "slot (g_nodes g) n = Some nd" using al by auto
  obtain g' where r: "set_reachable n r g = Some g'" "graph_inv g'" "g_edges g' = g_edges g"
    "nview (g_nodes g') = (nview (g_nodes g))(n := Some (gn_name nd, r))"
    by (rule set_reachable_ok [OF g n])
  have "abs_mesh g' = abs_mesh g\<lparr>m_nodes := (m_nodes (abs_mesh g))(n := Some (gn_name nd, r))\<rparr>"
    using r(3,4) by (simp add: abs_mesh_def)
  moreover have "m_nodes (abs_mesh g) n = Some (gn_name nd, gn_reachable nd)"
    using n by (simp add: abs_mesh_def nview_def)
  ultimately show ?thesis using r(1,2) by (intro op_simulatesI [of _ _ g']) (auto intro: m_reachable)
qed

lemma abs_edges_del_node:
  assumes u: "edges_unique (slot es)" "edges_unique (slot es')"
    and c: "content (slot es') = (\<lambda>i. case slot es i of None \<Rightarrow> None
       | Some e \<Rightarrow> if ge_from e = n then None else content (slot es) i)"
  shows "abs_edges es' = (\<lambda>(a, b). if a = n then None else abs_edges es (a, b))"
proof (rule map_eqI)
  fix p v
  have R: "content (slot es') i = Some e \<longleftrightarrow> content (slot es) i = Some e \<and> ge_from e \<noteq> n" for i e
    unfolding c by (cases "slot es i") (auto simp: content_def)
  have "abs_edges es' p = Some v \<longleftrightarrow> fst p \<noteq> n \<and> abs_edges es p = Some v"
    unfolding abs_edges_content [OF u(2)] abs_edges_content [OF u(1)] R by (cases p) (metis fst_conv)
  thus "abs_edges es' p = Some v \<longleftrightarrow> (\<lambda>(a, b). if a = n then None else abs_edges es (a, b)) p = Some v"
    by (cases p) simp
qed

lemma sim_del_node:
  assumes g: "graph_inv g" and al: "gop_allowed (DelNode n) g"
  shows "op_simulates (DelNode n) g"
proof (cases "slot (g_nodes g) n")
  case None
  hence "g_nodes g ! n = None" "m_nodes (abs_mesh g) n = None"
    using al by (simp_all add: slot_def abs_mesh_def nview_def)
  thus ?thesis using al g
    by (intro op_simulatesI [of _ _ g]) (simp_all add: del_node_def m_del_node_freed)
next
  case (Some nd)
  have inc: "ge_from e = n" if "slot (g_edges g) i = Some e" "ge_to e = n" for i e
  proof -
    have "i < length (g_edges g)" "g_edges g ! i = Some e" using that(1) by (simp_all add: slot_def split: if_splits)
    thus ?thesis using al that(2) by (force simp: list_all_length)
  qed
  obtain g' where r: "del_node n g = Some (Some g')" "graph_inv g'"
    "content (slot (g_edges g')) = (\<lambda>i. case slot (g_edges g) i of None \<Rightarrow> None
       | Some e \<Rightarrow> if ge_from e = n then None else content (slot (g_edges g)) i)"
    "nview (g_nodes g') = (nview (g_nodes g))(n := None)"
    by (rule del_node_ok [OF g Some inc])
  have "abs_mesh g' = \<lparr>m_nodes = (m_nodes (abs_mesh g))(n := None),
      m_edges = (\<lambda>(a, b). if a = n then None else m_edges (abs_mesh g) (a, b))\<rparr>"
    using r(4) abs_edges_del_node [OF graph_inv_unique [OF g] graph_inv_unique [OF r(2)] r(3)]
    unfolding abs_mesh_def mesh.select_convs by simp
  moreover have "m_nodes (abs_mesh g) n \<noteq> None" using Some by (simp add: abs_mesh_def nview_def)
  ultimately show ?thesis using r(1,2) by (intro op_simulatesI [of _ _ g']) (auto intro: m_del_node)
qed

lemmas sim_ops = sim_add_node sim_add_edge sim_del_edge sim_del_node sim_update_edge sim_set_reachable

lemma op_simulates_allowed: "graph_inv g \<Longrightarrow> gop_allowed op g \<Longrightarrow> op_simulates op g"
  by (cases op) (simp_all only: sim_ops)

lemma graph_reach_inv: "graph_reach g \<Longrightarrow> graph_inv g"
proof (induction rule: graph_reach.induct)
  case (reach_op g op g')
  thus ?case using op_simulates_allowed unfolding op_simulates_def by (metis option.inject)
qed (rule graph_inv_new)


text \<open>
  C12: the slabs, free lists, twin links and indexes implement the abstract mesh. On a graph built by
  any sequence of calls that respect the duties of the daemon (no duplicate names or edges, a node is
  deleted only when no other node has an edge to it), no call panics, and its effect on the mesh is
  exactly the effect of the abstract operation.
\<close>

theorem graph_refines_mesh:
  assumes "graph_reach g" "gop_allowed op g"
  shows "\<exists>g'. gop_run op g = Some g' \<and> graph_inv g' \<and>
    mesh_step (ends (slot (g_edges g))) op (abs_mesh g) (abs_mesh g')"
  using op_simulates_allowed [OF graph_reach_inv [OF assms(1)] assms(2)] unfolding op_simulates_def .

text \<open>A small graph for the witnesses: \<open>b\<close> is linked to \<open>a\<close> and to \<open>c\<close>, which is linked to \<open>d\<close>.\<close>

fun run_ops :: "gop list \<Rightarrow> graph \<Rightarrow> graph option" where
  "run_ops [] g = Some g"
| "run_ops (op # ops) g = (if gop_allowed op g then do { g' \<leftarrow> gop_run op g; run_ops ops g' } else None)"

lemma run_ops_reach: "graph_reach g \<Longrightarrow> run_ops ops g = Some g' \<Longrightarrow> graph_reach g'"
  by (induction ops arbitrary: g) (auto split: if_splits bind_splits intro: reach_op)

definition demo_ops :: "gop list" where
  "demo_ops = [AddNode ''b'', AddNode ''a'', AddNode ''c'', AddNode ''d'', AddEdge 0 1 10 0, AddEdge 1 0 10 0,
     AddEdge 0 2 5 1, AddEdge 2 0 7 0, AddEdge 2 3 3 0, AddEdge 3 2 4 0]"

definition demo_graph :: graph where
  "demo_graph = the (run_ops demo_ops graph_new)"

lemma demo_graph_runs: "run_ops demo_ops graph_new = Some demo_graph"
proof -
  have "run_ops demo_ops graph_new \<noteq> None" by code_simp
  thus ?thesis by (simp add: demo_graph_def)
qed

lemma demo_graph_reach: "graph_reach demo_graph"
  by (rule run_ops_reach [OF reach_new demo_graph_runs])

theorem graph_refines_mesh_witness:
  "graph_reach demo_graph \<and> gop_allowed (DelEdge 2) demo_graph \<and>
   (\<exists>g'. gop_run (DelEdge 2) demo_graph = Some g' \<and> graph_inv g' \<and>
     mesh_step (ends (slot (g_edges demo_graph))) (DelEdge 2) (abs_mesh demo_graph) (abs_mesh g'))"
proof -
  have "gop_allowed (DelEdge 2) demo_graph" by code_simp
  thus ?thesis using graph_refines_mesh [OF demo_graph_reach] demo_graph_reach by blast
qed

text \<open>
  The lookup by a pair of nodes returns an edge exactly when the mesh has one between them, and
  it is the edge with these ends; on live nodes it does not panic.
\<close>

lemma lookup_edge_correct:
  assumes "graph_reach g" "slot (g_nodes g) a = Some f" "slot (g_nodes g) b = Some t"
  shows "\<exists>r. lookup_edge g a b = Some r \<and>
    (r = None \<longleftrightarrow> abs_edges (g_edges g) (a, b) = None) \<and>
    (\<forall>i. r = Some i \<longleftrightarrow> ends (slot (g_edges g)) i = Some (a, b))"
proof -
  have g: "graph_inv g" by (rule graph_reach_inv [OF assms(1)])
  note u = graph_inv_unique [OF g]
  obtain r where r: "lookup_edge g a b = Some r" "\<And>i. r = Some i \<longleftrightarrow> ends (slot (g_edges g)) i = Some (a, b)"
    using lookup_edge_ok [OF g assms(2,3)] by metis
  have "r = None \<longleftrightarrow> abs_edges (g_edges g) (a, b) = None"
  proof
    assume "r = None"
    thus "abs_edges (g_edges g) (a, b) = None" using r(2) abs_edges_None [OF u] by (metis option.distinct(1))
  next
    assume n: "abs_edges (g_edges g) (a, b) = None"
    show "r = None"
    proof (cases r)
      case (Some i)
      then obtain e where "slot (g_edges g) i = Some e" "(ge_from e, ge_to e) = (a, b)"
        using r(2) [of i] by (auto simp: ends_def)
      thus ?thesis using abs_edges_live [OF u] n by force
    qed
  qed
  thus ?thesis using r by (intro exI [of _ r]) simp
qed

definition stale_ops :: "graph option" where
  "stale_ops = do {
     (a, g) \<leftarrow> add_node ''a'' graph_new; (b, g) \<leftarrow> add_node ''b'' g;
     (ab, g) \<leftarrow> add_edge a b 10 0 g; (ba, g) \<leftarrow> add_edge b a 10 0 g;
     r \<leftarrow> del_node b g; g \<leftarrow> r;
     (c, g) \<leftarrow> add_node ''c'' g; (ca, g) \<leftarrow> add_edge c a 20 0 g; Some g }"

text \<open>
  The comment of \<open>del_node\<close> says that an edge left pointing at a deleted node is invisible to
  the searches, because its twin link is cleared. Once the slot is given to another node and that
  node adds an edge back, the stale edge becomes its twin again, under a node it never mentioned.
\<close>

lemma stale_edge_revives:
  "\<exists>g e e'. stale_ops = Some g \<and> map_option gn_name (get_node g 1) = Some ''c'' \<and>
     get_edge g 0 = Some e \<and> ge_to_name e = ''b'' \<and> ge_to e = 1 \<and> ge_reverse e = Some 1 \<and>
     get_edge g 1 = Some e' \<and> ge_reverse e' = Some 0"
proof -
  have "case stale_ops of None \<Rightarrow> False | Some g \<Rightarrow> map_option gn_name (get_node g 1) = Some ''c'' \<and>
     (case get_edge g 0 of None \<Rightarrow> False | Some e \<Rightarrow> ge_to_name e = ''b'' \<and> ge_to e = 1 \<and> ge_reverse e = Some 1) \<and>
     (case get_edge g 1 of None \<Rightarrow> False | Some e \<Rightarrow> ge_reverse e = Some 0)" by code_simp
  thus ?thesis by (auto split: option.splits)
qed

end
