(* ===== verification/Mesh_Sssp.thy ===== *)
theory Mesh_Sssp
  imports Mesh_Refinement
begin

text \<open>
  The shortest-path search of \<open>tincd/src/graph/mod.rs\<close>: \<open>sssp_sticky\<close> with its breadth-first queue,
  the revisit rules (an indirect route is replaced by a direct one, an equally long route by a lighter
  one) and the pass that keeps a previous next hop. The search is a total function: every push of a
  node on the queue lowers a potential of the route table. \<open>None\<close> is a panic.
\<close>

section \<open>Model\<close>

text \<open>
  \<open>r_distance\<close> is an \<open>i32\<close> that the code increments and compares for equality, kept as a 32-bit word;
  \<open>r_wdist\<close> is an \<open>i32\<close> that is only compared and added to with saturation.
\<close>

record route =
  r_indirect :: bool
  r_distance :: u32
  r_wdist :: int
  r_nexthop :: nat
  r_via :: nat
  r_prevedge :: "nat option"
  r_options :: u32

definition STICKY_THRESHOLD_PCT :: int where
  "STICKY_THRESHOLD_PCT = 133"

definition sat_add_i32 :: "int \<Rightarrow> int \<Rightarrow> int" where
  "sat_add_i32 a b = max (- 2147483648) (min 2147483647 (a + b))"

text \<open>
  One slot of \<open>sticky_post_pass\<close>. The products fit an \<open>i64\<close>, since both factors fit an \<open>i32\<close>. The
  three vectors have the length of the node slab, except \<open>prev\<close>, which may be shorter.
\<close>

definition sticky_post_slot :: "route option \<Rightarrow> route option \<Rightarrow> int option \<Rightarrow> route option" where
  "sticky_post_slot new old sticky =
     (case new of None \<Rightarrow> None
      | Some r \<Rightarrow> (case old of None \<Rightarrow> Some r
        | Some p \<Rightarrow>
          if r_nexthop p = r_nexthop r then Some r
          else (case sticky of None \<Rightarrow> Some r
            | Some w \<Rightarrow>
              if w * 100 \<le> r_wdist r * STICKY_THRESHOLD_PCT
              then Some (r\<lparr>r_nexthop := r_nexthop p, r_wdist := w\<rparr>)
              else Some r)))"

definition sticky_post_pass :: "route option list \<Rightarrow> route option list \<Rightarrow> int option list \<Rightarrow> route option list" where
  "sticky_post_pass route prev sticky =
     map (\<lambda>i. sticky_post_slot (route ! i) (slot prev i) (sticky ! i)) [0 ..< length route]"

type_synonym search_state = "route option list \<times> int option list \<times> nat list"

text \<open>
  The pieces of the inner loop, for an edge to \<open>to\<close> of the node whose route \<open>r\<close> was copied when it
  left the queue. The candidate route: whether it is indirect, its hops, weight and first hop.
\<close>

definition cand_indirect :: "route \<Rightarrow> gedge \<Rightarrow> bool" where
  "cand_indirect r e \<longleftrightarrow> r_indirect r \<or> ge_options e AND OPTION_INDIRECT \<noteq> 0"

definition cand_wdist :: "route \<Rightarrow> gedge \<Rightarrow> int" where
  "cand_wdist r e = sat_add_i32 (r_wdist r) (ge_weight e)"

definition cand_nexthop :: "nat \<Rightarrow> route \<Rightarrow> gedge \<Rightarrow> nat" where
  "cand_nexthop myself r e = (if r_nexthop r = myself then ge_to e else r_nexthop r)"

text \<open>The bookkeeping for stickiness: the cheapest candidate of equal length over the previous next hop.\<close>

definition record_sticky ::
  "route option list \<Rightarrow> route option list \<Rightarrow> nat \<Rightarrow> nat \<Rightarrow> u32 \<Rightarrow> int \<Rightarrow> int option list \<Rightarrow> int option list" where
  "record_sticky prev rt to nexthop hops wdist st =
     (if map_option r_nexthop (slot prev to) = Some nexthop \<and>
         (case rt ! to of None \<Rightarrow> True | Some p \<Rightarrow> r_distance p = hops)
      then st[to := Some (case st ! to of None \<Rightarrow> wdist | Some w \<Rightarrow> min w wdist)] else st)"

text \<open>The revisit condition, negated as in the code, and the route that is written.\<close>

definition relax_skip :: "route option \<Rightarrow> bool \<Rightarrow> u32 \<Rightarrow> int \<Rightarrow> bool" where
  "relax_skip old indirect hops wdist = (case old of None \<Rightarrow> False
     | Some p \<Rightarrow> (\<not> r_indirect p \<or> indirect) \<and> (r_distance p \<noteq> hops \<or> r_wdist p \<le> wdist))"

definition new_hop :: "route option \<Rightarrow> u32 \<Rightarrow> nat \<Rightarrow> int \<Rightarrow> nat \<times> int" where
  "new_hop old hops nexthop wdist = (case old of None \<Rightarrow> (nexthop, wdist)
     | Some p \<Rightarrow> if r_distance p = hops \<and> r_wdist p > wdist then (nexthop, wdist)
                else (r_nexthop p, r_wdist p))"

definition relax_edge ::
  "graph \<Rightarrow> nat \<Rightarrow> route option list \<Rightarrow> route \<Rightarrow> nat \<Rightarrow> search_state \<Rightarrow> search_state option" where
  "relax_edge g myself prev r eid s = (case s of (rt, st, todo) \<Rightarrow> do {
     e \<leftarrow> slot (g_edges g) eid;
     let to = ge_to e;
     if ge_reverse e = None \<or> to = myself then Some (rt, st, todo)
     else if to \<ge> length rt then None
     else let
       indirect = cand_indirect r e;
       hops = r_distance r + 1;
       wdist = cand_wdist r e;
       nexthop = cand_nexthop myself r e;
       st = record_sticky prev rt to nexthop hops wdist st
     in if relax_skip (rt ! to) indirect hops wdist then Some (rt, st, todo)
     else let (nh, wd) = new_hop (rt ! to) hops nexthop wdist
     in Some (rt[to := Some \<lparr>r_indirect = indirect, r_distance = hops, r_wdist = wd, r_nexthop = nh,
                            r_via = (if indirect then r_via r else to), r_prevedge = Some eid,
                            r_options = ge_options e\<rparr>],
              st, todo @ [to]) })"

fun relax_edges ::
  "graph \<Rightarrow> nat \<Rightarrow> route option list \<Rightarrow> route \<Rightarrow> nat list \<Rightarrow> search_state \<Rightarrow> search_state option" where
  "relax_edges g myself prev r [] s = Some s"
| "relax_edges g myself prev r (i # is) s = do {
     s' \<leftarrow> relax_edge g myself prev r i s;
     relax_edges g myself prev r is s' }"

text \<open>What the outer loop does with the node it pops.\<close>

definition visit_node ::
  "graph \<Rightarrow> nat \<Rightarrow> route option list \<Rightarrow> nat \<Rightarrow> search_state \<Rightarrow> search_state option" where
  "visit_node g myself prev n s = do {
     r \<leftarrow> slot (fst s) n;
     nd \<leftarrow> slot (g_nodes g) n;
     relax_edges g myself prev r (gn_edges nd) s }"

section \<open>Termination\<close>

definition slot_potential :: "route option \<Rightarrow> nat" where
  "slot_potential s = (case s of None \<Rightarrow> 8589934592
     | Some r \<Rightarrow> 2 * nat (r_wdist r + 2147483648) + (if r_indirect r then 1 else 0))"

definition potential :: "route option list \<Rightarrow> nat" where
  "potential rt = sum_list (map slot_potential rt)"

lemma sat_add_bounds: "- 2147483648 \<le> sat_add_i32 a b" "sat_add_i32 a b \<le> 2147483647"
  by (simp_all add: sat_add_i32_def)

lemma potential_update:
  assumes "i < length rt" "slot_potential v < slot_potential (rt ! i)"
  shows "potential (rt[i := v]) < potential rt"
proof -
  let ?xs = "map slot_potential rt"
  have "potential (rt[i := v]) = sum_list ?xs + slot_potential v - ?xs ! i"
    using assms(1) by (simp add: potential_def map_update sum_list_update)
  moreover have "?xs ! i \<le> sum_list ?xs" using assms(1) by (intro elem_le_sum_list) simp
  ultimately show ?thesis using assms by (simp add: potential_def)
qed

text \<open>The three outcomes of the inner loop body, and what a written route satisfies.\<close>

lemma relax_edge_cases:
  assumes "relax_edge g myself prev r eid (rt, st, todo) = Some (rt', st', todo')"
  obtains (skip) "rt' = rt" "todo' = todo"
  | (written) e nr where "slot (g_edges g) eid = Some e" "ge_to e < length rt" "rt' = rt[ge_to e := Some nr]"
      "todo' = todo @ [ge_to e]" "\<not> relax_skip (rt ! ge_to e) (cand_indirect r e) (r_distance r + 1) (cand_wdist r e)"
      "(r_nexthop nr, r_wdist nr) = new_hop (rt ! ge_to e) (r_distance r + 1) (cand_nexthop myself r e) (cand_wdist r e)"
      "r_indirect nr = cand_indirect r e"
  using assms unfolding relax_edge_def
  by (auto simp: Let_def bind_eq_Some_conv split: if_splits prod.splits)

lemma written_potential:
  assumes "\<not> relax_skip old (r_indirect nr) hops (cand_wdist r e)"
    and "(r_nexthop nr, r_wdist nr) = new_hop old hops nexthop (cand_wdist r e)"
  shows "slot_potential (Some nr) < slot_potential old"
proof -
  let ?w = "cand_wdist r e"
  have w: "- 2147483648 \<le> ?w" "?w \<le> 2147483647" unfolding cand_wdist_def by (rule sat_add_bounds)+
  show ?thesis
  proof (cases old)
    case None
    hence "r_wdist nr = ?w" using assms(2) by (simp add: new_hop_def)
    moreover have "nat (?w + 2147483648) < 4294967296" using w by (simp add: nat_less_iff)
    ultimately show ?thesis using None by (auto simp: slot_potential_def)
  next
    case (Some p)
    show ?thesis
    proof (cases "r_distance p = hops \<and> r_wdist p > ?w")
      case True
      hence "r_wdist nr = ?w" using assms(2) Some by (simp add: new_hop_def)
      moreover have "nat (?w + 2147483648) < nat (r_wdist p + 2147483648)" using True w by simp
      ultimately show ?thesis using Some by (auto simp: slot_potential_def)
    next
      case False
      hence "r_wdist nr = r_wdist p" "r_indirect p" "\<not> r_indirect nr"
        using assms Some by (auto simp: new_hop_def relax_skip_def split: if_splits)
      thus ?thesis using Some by (simp add: slot_potential_def)
    qed
  qed
qed

lemma relax_edge_decreases:
  assumes "relax_edge g myself prev r eid (rt, st, todo) = Some (rt', st', todo')"
  shows "potential rt' < potential rt \<or> rt' = rt \<and> todo' = todo"
  using assms
proof (cases rule: relax_edge_cases)
  case (written e nr)
  have "slot_potential (Some nr) < slot_potential (rt ! ge_to e)"
    by (rule written_potential [OF _ written(6)]) (simp add: written(5,7))
  thus ?thesis unfolding written(3) using potential_update [OF written(2)] by blast
qed blast

lemma relax_edges_decreases:
  "relax_edges g myself prev r is (rt, st, todo) = Some (rt', st', todo') \<Longrightarrow>
   potential rt' < potential rt \<or> rt' = rt \<and> todo' = todo"
proof (induction "is" arbitrary: rt st todo)
  case (Cons i "is")
  then obtain rt1 st1 todo1 where r: "relax_edge g myself prev r i (rt, st, todo) = Some (rt1, st1, todo1)"
    "relax_edges g myself prev r is (rt1, st1, todo1) = Some (rt', st', todo')"
    by (auto simp: bind_eq_Some_conv)
  show ?case using relax_edge_decreases [OF r(1)] Cons(1) [OF r(2)] by auto
qed simp

function sssp_loop ::
  "graph \<Rightarrow> nat \<Rightarrow> route option list \<Rightarrow> search_state \<Rightarrow> (route option list \<times> int option list) option" where
  "sssp_loop g myself prev (rt, st, []) = Some (rt, st)"
| "sssp_loop g myself prev (rt, st, n # todo) =
     (case visit_node g myself prev n (rt, st, todo) of
        None \<Rightarrow> None
      | Some s \<Rightarrow> sssp_loop g myself prev s)"
  by pat_completeness auto

termination
proof (relation "inv_image (less_than <*lex*> less_than) (\<lambda>(g, m, prev, rt, st, todo). (potential rt, length todo))")
  fix g m prev rt st n todo s
  assume "visit_node g m prev n (rt, st, todo) = Some s"
  moreover obtain rt' st' todo' where s: "s = (rt', st', todo')" by (cases s)
  ultimately obtain r and nd :: gnode where "relax_edges g m prev r (gn_edges nd) (rt, st, todo) = Some (rt', st', todo')"
    unfolding visit_node_def by (auto simp: bind_eq_Some_conv)
  hence "potential rt' < potential rt \<or> rt' = rt \<and> todo' = todo" by (rule relax_edges_decreases)
  thus "((g, m, prev, s), (g, m, prev, rt, st, n # todo)) \<in> inv_image (less_than <*lex*> less_than)
      (\<lambda>(g, m, prev, rt, st, todo). (potential rt, length todo))"
    unfolding s by auto
qed auto

definition sssp_sticky :: "graph \<Rightarrow> nat \<Rightarrow> route option list \<Rightarrow> route option list option" where
  "sssp_sticky g myself prev =
     (let n = length (g_nodes g);
          start = \<lparr>r_indirect = False, r_distance = 0, r_wdist = 0, r_nexthop = myself, r_via = myself,
                   r_prevedge = None, r_options = 0\<rparr>
      in if myself \<ge> n then None
      else do {
        (rt, st) \<leftarrow> sssp_loop g myself prev ((replicate n None)[myself := Some start], replicate n None, [myself]);
        Some (if prev \<noteq> [] then sticky_post_pass rt prev st else rt) })"

definition sssp :: "graph \<Rightarrow> nat \<Rightarrow> route option list option" where
  "sssp g myself = sssp_sticky g myself []"

section \<open>Correctness\<close>

text \<open>
  \<open>link g\<close>: an edge whose twin is present, the edges the searches follow. \<open>relay g m\<close>: the same
  between nodes other than \<open>m\<close>. \<open>good_hop g m h v\<close>: \<open>h\<close> is a neighbour of \<open>m\<close> from which \<open>v\<close> is
  reached without going back through \<open>m\<close>.
\<close>

definition link :: "graph \<Rightarrow> nat \<Rightarrow> nat \<Rightarrow> bool" where
  "link g u v \<longleftrightarrow> (\<exists>i e. slot (g_edges g) i = Some e \<and> ge_from e = u \<and> ge_to e = v \<and> ge_reverse e \<noteq> None)"

definition relay :: "graph \<Rightarrow> nat \<Rightarrow> nat \<Rightarrow> nat \<Rightarrow> bool" where
  "relay g m u v \<longleftrightarrow> link g u v \<and> u \<noteq> m \<and> v \<noteq> m"

definition good_hop :: "graph \<Rightarrow> nat \<Rightarrow> nat \<Rightarrow> nat \<Rightarrow> bool" where
  "good_hop g m h v \<longleftrightarrow> link g m h \<and> h \<noteq> m \<and> (relay g m)\<^sup>*\<^sup>* h v"

text \<open>What a route says about the node it is for.\<close>

definition route_ok :: "graph \<Rightarrow> nat \<Rightarrow> nat \<Rightarrow> route \<Rightarrow> bool" where
  "route_ok g m v r \<longleftrightarrow>
     (if v = m then r_nexthop r = m \<and> r_via r = m \<and> \<not> r_indirect r
      else good_hop g m (r_nexthop r) v \<and>
        (\<exists>i e. r_prevedge r = Some i \<and> slot (g_edges g) i = Some e \<and> ge_to e = v \<and> ge_reverse e \<noteq> None \<and>
          r_options r = ge_options e \<and> (\<not> r_indirect r \<longrightarrow> ge_options e AND OPTION_INDIRECT = 0))) \<and>
     (\<not> r_indirect r \<longrightarrow> r_via r = v) \<and> (link g)\<^sup>*\<^sup>* m (r_via r) \<and> (link g)\<^sup>*\<^sup>* (r_via r) v"

definition sticky_ok :: "graph \<Rightarrow> nat \<Rightarrow> route option list \<Rightarrow> int option list \<Rightarrow> bool" where
  "sticky_ok g m prev st \<longleftrightarrow> (\<forall>v w. slot st v = Some w \<longrightarrow>
     v \<noteq> m \<and> (\<exists>p. slot prev v = Some p \<and> good_hop g m (r_nexthop p) v))"

text \<open>
  The invariant of both loops. \<open>P\<close> is the set of edges of the current node that are still to be
  looked at.
\<close>

definition search_inv :: "graph \<Rightarrow> nat \<Rightarrow> route option list \<Rightarrow> nat set \<Rightarrow> search_state \<Rightarrow> bool" where
  "search_inv g m prev P s \<longleftrightarrow> (case s of (rt, st, todo) \<Rightarrow>
     length rt = length (g_nodes g) \<and> length st = length (g_nodes g) \<and>
     slot rt m \<noteq> None \<and> (\<forall>v r. slot rt v = Some r \<longrightarrow> route_ok g m v r) \<and> sticky_ok g m prev st \<and>
     (\<forall>u \<in> set todo. slot rt u \<noteq> None) \<and>
     (\<forall>i e. slot (g_edges g) i = Some e \<longrightarrow> ge_reverse e \<noteq> None \<longrightarrow> slot rt (ge_from e) \<noteq> None \<longrightarrow>
        ge_from e \<notin> set todo \<longrightarrow> i \<notin> P \<longrightarrow> slot rt (ge_to e) \<noteq> None))"

lemma good_hop_reach: "good_hop g m h v \<Longrightarrow> (link g)\<^sup>*\<^sup>* m v"
proof -
  assume "good_hop g m h v"
  hence l: "link g m h" and r: "(relay g m)\<^sup>*\<^sup>* h v" by (simp_all add: good_hop_def)
  have "(link g)\<^sup>*\<^sup>* h v" by (rule rtranclp_mono [THEN predicate2D, OF _ r]) (auto simp: relay_def)
  with l show ?thesis by (rule converse_rtranclp_into_rtranclp)
qed

lemma route_ok_reach: "route_ok g m v r \<Longrightarrow> (link g)\<^sup>*\<^sup>* m v"
  unfolding route_ok_def by (meson rtranclp_trans)

lemma route_ok_other:
  assumes "route_ok g m v r" "v \<noteq> m"
  shows "link g m (r_nexthop r) \<and> r_nexthop r \<noteq> m \<and> (relay g m)\<^sup>*\<^sup>* (r_nexthop r) v \<and>
    (\<exists>i e. r_prevedge r = Some i \<and> slot (g_edges g) i = Some e \<and> ge_to e = v \<and> ge_reverse e \<noteq> None \<and>
      r_options r = ge_options e) \<and>
    (\<not> r_indirect r \<longrightarrow> r_via r = v \<and> r_options r AND OPTION_INDIRECT = 0) \<and>
    (link g)\<^sup>*\<^sup>* m (r_via r) \<and> (link g)\<^sup>*\<^sup>* (r_via r) v"
  using assms by (auto simp: route_ok_def good_hop_def)

lemma cand_good_hop:
  assumes r: "route_ok g m (ge_from e) r" and e: "slot (g_edges g) i = Some e" "ge_reverse e \<noteq> None" "ge_to e \<noteq> m"
  shows "good_hop g m (cand_nexthop m r e) (ge_to e)"
proof -
  have l: "link g (ge_from e) (ge_to e)" using e by (auto simp: link_def)
  show ?thesis
  proof (cases "ge_from e = m")
    case True
    hence "cand_nexthop m r e = ge_to e" using r by (simp add: route_ok_def cand_nexthop_def)
    thus ?thesis using l True e(3) by (simp add: good_hop_def)
  next
    case False
    hence h: "good_hop g m (r_nexthop r) (ge_from e)" using r by (simp add: route_ok_def)
    hence "cand_nexthop m r e = r_nexthop r" by (simp add: good_hop_def cand_nexthop_def)
    moreover have "relay g m (ge_from e) (ge_to e)" using l False e(3) by (simp add: relay_def)
    ultimately show ?thesis using h by (auto simp: good_hop_def intro: rtranclp.rtrancl_into_rtrancl)
  qed
qed

lemma new_route_ok:
  assumes r: "route_ok g m (ge_from e) r" and e: "slot (g_edges g) i = Some e" "ge_reverse e \<noteq> None" "ge_to e \<noteq> m"
    and old: "\<And>p. old = Some p \<Longrightarrow> route_ok g m (ge_to e) p"
    and nh: "(r_nexthop nr, r_wdist nr) = new_hop old hops (cand_nexthop m r e) (cand_wdist r e)"
    and nr: "r_indirect nr = cand_indirect r e" "r_via nr = (if cand_indirect r e then r_via r else ge_to e)"
      "r_prevedge nr = Some i" "r_options nr = ge_options e"
  shows "route_ok g m (ge_to e) nr"
proof -
  have hop: "good_hop g m (r_nexthop nr) (ge_to e)"
  proof (cases "r_nexthop nr = cand_nexthop m r e")
    case False
    then obtain p where p: "old = Some p" "r_nexthop nr = r_nexthop p"
      using nh by (auto simp: new_hop_def split: option.splits if_splits)
    show ?thesis using old [OF p(1)] p(2) e(3) by (simp add: route_ok_def)
  qed (use cand_good_hop [OF r e] in simp)
  have l: "link g (ge_from e) (ge_to e)" using e by (auto simp: link_def)
  have v: "(link g)\<^sup>*\<^sup>* m (r_via r)" "(link g)\<^sup>*\<^sup>* (r_via r) (ge_to e)"
    using r l by (auto simp: route_ok_def intro: rtranclp.rtrancl_into_rtrancl)
  show ?thesis unfolding route_ok_def using hop v e nr good_hop_reach [OF hop]
    by (auto simp: cand_indirect_def)
qed

lemma sticky_ok_record:
  assumes st: "sticky_ok g m prev st" and h: "good_hop g m nh v" "v \<noteq> m"
  shows "sticky_ok g m prev (record_sticky prev rt v nh hops w st)"
proof (cases "map_option r_nexthop (slot prev v) = Some nh")
  case True
  then obtain p where "slot prev v = Some p" "r_nexthop p = nh" by auto
  thus ?thesis using st h unfolding sticky_ok_def record_sticky_def by (auto simp: slot_update split: if_splits)
qed (use st in \<open>auto simp: record_sticky_def\<close>)

lemma length_record_sticky [simp]: "length (record_sticky prev rt v nh hops w st) = length st"
  by (simp add: record_sticky_def)


lemma relax_edge_ok:
  assumes inv: "search_inv g m prev (insert i P) (rt, st, todo)"
    and e: "slot (g_edges g) i = Some e" and to: "slot (g_nodes g) (ge_to e) \<noteq> None"
    and r: "route_ok g m (ge_from e) r"
  shows "\<exists>s. relax_edge g m prev r i (rt, st, todo) = Some s \<and> search_inv g m prev P s"
proof (cases "ge_reverse e = None \<or> ge_to e = m")
  case True
  hence "relax_edge g m prev r i (rt, st, todo) = Some (rt, st, todo)" by (auto simp: relax_edge_def e Let_def)
  moreover have "search_inv g m prev P (rt, st, todo)" using inv e True unfolding search_inv_def by fastforce
  ultimately show ?thesis by blast
next
  case False
  let ?v = "ge_to e" and ?h = "r_distance r + 1" and ?w = "cand_wdist r e" and ?n = "cand_nexthop m r e"
  let ?st = "record_sticky prev rt ?v ?n ?h ?w st"
  have len: "length rt = length (g_nodes g)" "length st = length (g_nodes g)" using inv by (simp_all add: search_inv_def)
  have v: "?v < length rt" using to len by (auto simp: slot_def split: if_splits)
  have st: "sticky_ok g m prev ?st"
    using inv False by (intro sticky_ok_record cand_good_hop [OF r e]) (simp_all add: search_inv_def)
  show ?thesis
  proof (cases "relax_skip (rt ! ?v) (cand_indirect r e) ?h ?w")
    case True
    hence "slot rt ?v \<noteq> None" using v by (auto simp: relax_skip_def slot_def split: option.splits)
    hence "search_inv g m prev P (rt, ?st, todo)" using inv st e unfolding search_inv_def by fastforce
    moreover have "relax_edge g m prev r i (rt, st, todo) = Some (rt, ?st, todo)"
      using False v True by (auto simp: relax_edge_def e Let_def)
    ultimately show ?thesis by blast
  next
    case nskip: False
    define nr where "nr = \<lparr>r_indirect = cand_indirect r e, r_distance = ?h, r_wdist = snd (new_hop (rt ! ?v) ?h ?n ?w),
      r_nexthop = fst (new_hop (rt ! ?v) ?h ?n ?w), r_via = (if cand_indirect r e then r_via r else ?v),
      r_prevedge = Some i, r_options = ge_options e\<rparr>"
    have run: "relax_edge g m prev r i (rt, st, todo) = Some (rt[?v := Some nr], ?st, todo @ [?v])"
      using False v nskip by (simp add: relax_edge_def e Let_def nr_def split_beta)
    have old: "route_ok g m ?v p" if "rt ! ?v = Some p" for p using that inv v by (simp add: search_inv_def slot_def)
    have nok: "route_ok g m ?v nr"
      by (rule new_route_ok [OF r e _ _ old, where hops = ?h]) (use False in \<open>simp_all add: nr_def\<close>)
    have dom: "slot (rt[?v := Some nr]) u \<noteq> None \<longleftrightarrow> u = ?v \<or> slot rt u \<noteq> None" for u
      using v by (simp add: slot_update)
    have ok: "route_ok g m u q" if "slot (rt[?v := Some nr]) u = Some q" for u q
      using that inv nok v by (auto simp: slot_update search_inv_def split: if_splits)
    have "search_inv g m prev P (rt[?v := Some nr], ?st, todo @ [?v])"
      using inv st ok e unfolding search_inv_def prod.case dom by fastforce
    thus ?thesis using run by blast
  qed
qed

lemma relax_edges_ok:
  assumes "search_inv g m prev (set is \<union> P) s" "route_ok g m n r"
    and "\<And>i. i \<in> set is \<Longrightarrow> \<exists>e. slot (g_edges g) i = Some e \<and> ge_from e = n \<and> slot (g_nodes g) (ge_to e) \<noteq> None"
  shows "\<exists>s'. relax_edges g m prev r is s = Some s' \<and> search_inv g m prev P s'"
  using assms
proof (induction "is" arbitrary: s)
  case (Cons i "is")
  obtain e where e: "slot (g_edges g) i = Some e" "ge_from e = n" "slot (g_nodes g) (ge_to e) \<noteq> None"
    using Cons(4) by force
  obtain rt st todo where s: "s = (rt, st, todo)" by (cases s)
  obtain s1 where s1: "relax_edge g m prev r i s = Some s1" "search_inv g m prev (set is \<union> P) s1"
    using relax_edge_ok [of g m prev i "set is \<union> P" rt st todo e r] Cons(2,3) e s by auto
  show ?case using Cons(1) [OF s1(2) Cons(3)] Cons(4) s1(1) by simp
qed simp

lemma edge_to_live:
  assumes g: "graph_inv g" and e: "slot (g_edges g) i = Some e"
  shows "slot (g_nodes g) (ge_from e) \<noteq> None" "slot (g_nodes g) (ge_to e) \<noteq> None"
proof -
  have "core (g_edges g) i = Some (ge_from e, ge_to e, ge_weight e, ge_to_name e)" using e by (simp add: core_def)
  from ends_okD [OF graph_invD(4) [OF g] this]
  show "slot (g_nodes g) (ge_from e) \<noteq> None" "slot (g_nodes g) (ge_to e) \<noteq> None" by (auto simp: names_def)
qed

lemma link_live: "graph_inv g \<Longrightarrow> (link g)\<^sup>*\<^sup>* m v \<Longrightarrow> slot (g_nodes g) m \<noteq> None \<Longrightarrow> slot (g_nodes g) v \<noteq> None"
  by (erule rtranclp_induct) (use edge_to_live in \<open>auto simp: link_def\<close>)

lemma visit_node_ok:
  assumes g: "graph_inv g" and m: "slot (g_nodes g) m \<noteq> None"
    and inv: "search_inv g m prev {} (rt, st, n # todo)"
  shows "\<exists>s. visit_node g m prev n (rt, st, todo) = Some s \<and> search_inv g m prev {} s"
proof -
  obtain r where r: "slot rt n = Some r" "route_ok g m n r" using inv by (auto simp: search_inv_def)
  obtain nd where nd: "slot (g_nodes g) n = Some nd" using link_live [OF g route_ok_reach [OF r(2)] m] by blast
  have live: "\<exists>e. slot (g_edges g) i = Some e \<and> ge_from e = n \<and> slot (g_nodes g) (ge_to e) \<noteq> None"
    if i: "i \<in> set (gn_edges nd)" for i
    using live_edges [OF g nd i] edge_to_live [OF g] by metis
  have "i \<in> set (gn_edges nd)" if "slot (g_edges g) i = Some e" "ge_from e = n" for i e
    using lists_okD(2) [OF graph_invD(5) [OF g] nd] that by (auto simp: core_def)
  hence "search_inv g m prev (set (gn_edges nd) \<union> {}) (rt, st, todo)"
    using inv unfolding search_inv_def by fastforce
  from relax_edges_ok [OF this r(2) live] show ?thesis using r(1) nd by (simp add: visit_node_def)
qed

lemma sssp_loop_ok:
  "graph_inv g \<Longrightarrow> slot (g_nodes g) m \<noteq> None \<Longrightarrow> search_inv g m prev {} s \<Longrightarrow>
    \<exists>rt st. sssp_loop g m prev s = Some (rt, st) \<and> search_inv g m prev {} (rt, st, [])"
proof (induction g m prev s rule: sssp_loop.induct)
  case (2 g m prev rt st n todo)
  obtain s where s: "visit_node g m prev n (rt, st, todo) = Some s" "search_inv g m prev {} s"
    using visit_node_ok [OF 2(2,3,4)] by blast
  show ?case using 2(1) [OF s(1) 2(2,3) s(2)] s(1) by simp
qed simp

lemma search_inv_start:
  fixes g m
  defines "n \<equiv> length (g_nodes g)"
  assumes m: "m < n" and start: "start = \<lparr>r_indirect = False, r_distance = 0, r_wdist = 0, r_nexthop = m, r_via = m,
    r_prevedge = None, r_options = 0\<rparr>"
  shows "search_inv g m prev {} ((replicate n None)[m := Some start], replicate n None, [m])"
proof -
  have "slot ((replicate n None)[m := Some start]) v = (if v = m then Some start else None)" for v
    using m by (auto simp: slot_update slot_def)
  moreover have "sticky_ok g m prev (replicate n None)" by (auto simp: sticky_ok_def slot_def)
  ultimately show ?thesis unfolding search_inv_def using start by (simp add: n_def route_ok_def)
qed

text \<open>At the end of the loop the table covers exactly the nodes that links reach.\<close>

lemma search_inv_done:
  assumes inv: "search_inv g m prev {} (rt, st, [])"
  shows "slot rt v \<noteq> None \<longleftrightarrow> (link g)\<^sup>*\<^sup>* m v"
proof
  assume "slot rt v \<noteq> None"
  then obtain r where "route_ok g m v r" using inv by (auto simp: search_inv_def)
  thus "(link g)\<^sup>*\<^sup>* m v" by (rule route_ok_reach)
next
  assume "(link g)\<^sup>*\<^sup>* m v"
  thus "slot rt v \<noteq> None"
    by (induction rule: rtranclp_induct) (use inv in \<open>fastforce simp: search_inv_def link_def\<close>)+
qed

lemma sssp_sticky_run:
  assumes g: "graph_inv g" and m: "slot (g_nodes g) m \<noteq> None"
  obtains rt st where "sssp_sticky g m prev = Some (if prev \<noteq> [] then sticky_post_pass rt prev st else rt)"
    "search_inv g m prev {} (rt, st, [])"
proof -
  have ml: "m < length (g_nodes g)" using m by (auto simp: slot_def split: if_splits)
  from sssp_loop_ok [OF g m search_inv_start [OF ml refl, of prev]]
  show thesis using ml that by (auto simp: sssp_sticky_def Let_def)
qed

text \<open>What the stickiness pass may change: the next hop, to another good one, and the weight.\<close>

lemma sticky_post_slot_None [simp]: "sticky_post_slot new old sticky = None \<longleftrightarrow> new = None"
  by (auto simp: sticky_post_slot_def split: option.splits)

lemma sticky_post_slot_ok:
  assumes q: "sticky_post_slot new old sticky = Some q" and r: "\<And>r. new = Some r \<Longrightarrow> route_ok g m v r"
    and st: "\<And>w. sticky = Some w \<Longrightarrow> v \<noteq> m \<and> (\<exists>p. old = Some p \<and> good_hop g m (r_nexthop p) v)"
  shows "route_ok g m v q"
proof -
  obtain r0 where r0: "new = Some r0" using q by (auto simp: sticky_post_slot_def split: option.splits)
  show ?thesis
  proof (cases "q = r0")
    case False
    then obtain p w where "old = Some p" "sticky = Some w" "q = r0\<lparr>r_nexthop := r_nexthop p, r_wdist := w\<rparr>"
      using q r0 by (auto simp: sticky_post_slot_def split: option.splits if_splits)
    thus ?thesis using st r [OF r0] by (simp add: route_ok_def)
  qed (use r r0 in simp)
qed

lemma sssp_result:
  assumes g: "graph_inv g" and m: "slot (g_nodes g) m \<noteq> None"
  obtains rt where "sssp_sticky g m prev = Some rt" "length rt = length (g_nodes g)"
    "\<And>v. slot rt v \<noteq> None \<longleftrightarrow> (link g)\<^sup>*\<^sup>* m v" "\<And>v r. slot rt v = Some r \<Longrightarrow> route_ok g m v r"
proof -
  obtain rt st where run: "sssp_sticky g m prev = Some (if prev \<noteq> [] then sticky_post_pass rt prev st else rt)"
    and inv: "search_inv g m prev {} (rt, st, [])"
    by (rule sssp_sticky_run [OF g m])
  have len: "length rt = length (g_nodes g)" "length st = length (g_nodes g)" using inv by (simp_all add: search_inv_def)
  have ok: "route_ok g m v r" if "slot rt v = Some r" for v r using inv that by (simp add: search_inv_def)
  show thesis
  proof (cases "prev = []")
    case True
    thus thesis using run len ok search_inv_done [OF inv] by (intro that) simp_all
  next
    case False
    let ?p = "sticky_post_pass rt prev st"
    have sl: "slot ?p v = (if v < length rt then sticky_post_slot (rt ! v) (slot prev v) (st ! v) else None)" for v
      by (simp add: slot_def sticky_post_pass_def)
    have "slot ?p v = None \<longleftrightarrow> slot rt v = None" for v unfolding sl by (simp add: slot_def)
    moreover have "route_ok g m v r" if q: "slot ?p v = Some r" for v r
    proof (rule sticky_post_slot_ok)
      show q': "sticky_post_slot (rt ! v) (slot prev v) (st ! v) = Some r" using q unfolding sl by (simp split: if_splits)
      have vl: "v < length rt" using q unfolding sl by (simp split: if_splits)
      show "rt ! v = Some r' \<Longrightarrow> route_ok g m v r'" for r' using ok vl by (simp add: slot_def)
      show "st ! v = Some w \<Longrightarrow> v \<noteq> m \<and> (\<exists>p. slot prev v = Some p \<and> good_hop g m (r_nexthop p) v)" for w
        using inv vl len by (auto simp: search_inv_def sticky_ok_def slot_def)
    qed
    ultimately show thesis using run False len search_inv_done [OF inv]
      by (intro that [of ?p]) (simp_all add: sticky_post_pass_def)
  qed
qed


text \<open>
  C13: the search terminates without a panic and assigns a route to exactly the nodes that are
  reachable over edges whose twin is present, with or without stickiness.
\<close>

theorem sssp_reachability:
  assumes "graph_reach g" "slot (g_nodes g) myself \<noteq> None"
  shows "\<exists>rt. sssp_sticky g myself prev = Some rt \<and> length rt = length (g_nodes g) \<and>
    (\<forall>v. slot rt v \<noteq> None \<longleftrightarrow> (link g)\<^sup>*\<^sup>* myself v)"
  using sssp_result [OF graph_reach_inv [OF assms(1)] assms(2)] by metis

theorem sssp_reachability_witness:
  "graph_reach demo_graph \<and> slot (g_nodes demo_graph) 0 \<noteq> None \<and>
   (\<exists>rt. sssp_sticky demo_graph 0 [] = Some rt \<and> length rt = length (g_nodes demo_graph) \<and>
     (\<forall>v. slot rt v \<noteq> None \<longleftrightarrow> (link demo_graph)\<^sup>*\<^sup>* 0 v))"
proof -
  have m: "slot (g_nodes demo_graph) 0 \<noteq> None" by code_simp
  show ?thesis using sssp_reachability [OF demo_graph_reach m] demo_graph_reach m by blast
qed

text \<open>
  C20: no routing loop through ourselves. The next hop of every route, also of one kept by
  stickiness, is a neighbour from which the node is reached over nodes other than ourselves. A route
  that is not indirect is its own UDP relay, and its last edge is not marked indirect; the relay of
  an indirect route lies on the way to the node.
\<close>

theorem sssp_routes_sound:
  assumes "graph_reach g" "slot (g_nodes g) myself \<noteq> None"
  shows "\<exists>rt. sssp_sticky g myself prev = Some rt \<and>
    (\<forall>v r. slot rt v = Some r \<longrightarrow> v \<noteq> myself \<longrightarrow>
      link g myself (r_nexthop r) \<and> r_nexthop r \<noteq> myself \<and> (relay g myself)\<^sup>*\<^sup>* (r_nexthop r) v \<and>
      (\<exists>i e. r_prevedge r = Some i \<and> slot (g_edges g) i = Some e \<and> ge_to e = v \<and> ge_reverse e \<noteq> None \<and>
        r_options r = ge_options e) \<and>
      (\<not> r_indirect r \<longrightarrow> r_via r = v \<and> r_options r AND OPTION_INDIRECT = 0) \<and>
      (link g)\<^sup>*\<^sup>* myself (r_via r) \<and> (link g)\<^sup>*\<^sup>* (r_via r) v)"
proof -
  obtain rt where "sssp_sticky g myself prev = Some rt" "\<And>v r. slot rt v = Some r \<Longrightarrow> route_ok g myself v r"
    using sssp_result [OF graph_reach_inv [OF assms(1)] assms(2)] by metis
  thus ?thesis using route_ok_other by (intro exI [of _ rt]) blast
qed

theorem sssp_routes_sound_witness:
  "graph_reach demo_graph \<and> slot (g_nodes demo_graph) 0 \<noteq> None \<and>
   (\<exists>rt r. sssp_sticky demo_graph 0 [] = Some rt \<and> slot rt 3 = Some r \<and> r_nexthop r = 2 \<and>
     (relay demo_graph 0)\<^sup>*\<^sup>* (r_nexthop r) 3)"
proof -
  have m: "slot (g_nodes demo_graph) 0 \<noteq> None" by code_simp
  have c: "case sssp_sticky demo_graph 0 [] of None \<Rightarrow> False | Some rt \<Rightarrow> map_option r_nexthop (slot rt 3) = Some 2"
    by code_simp
  obtain rt where rt: "sssp_sticky demo_graph 0 [] = Some rt"
    "\<And>v r. slot rt v = Some r \<Longrightarrow> v \<noteq> 0 \<Longrightarrow> (relay demo_graph 0)\<^sup>*\<^sup>* (r_nexthop r) v"
    using sssp_routes_sound [OF demo_graph_reach m, of "[]"] by blast
  obtain r where r: "slot rt 3 = Some r" "r_nexthop r = 2" using c rt(1) by auto
  show ?thesis using demo_graph_reach m rt(1) r rt(2) [OF r(1)] by auto
qed

definition sticky_ops :: "gop list" where
  "sticky_ops = [AddNode ''m'', AddNode ''p'', AddNode ''q'', AddNode ''v'',
     AddEdge 0 1 10 0, AddEdge 1 0 10 0, AddEdge 0 2 10 0, AddEdge 2 0 10 0,
     AddEdge 1 3 10 1, AddEdge 3 1 10 1, AddEdge 2 3 10 0, AddEdge 3 2 10 0]"

definition sticky_prev :: "route option list" where
  "sticky_prev = [None, None, None, Some \<lparr>r_indirect = True, r_distance = 2, r_wdist = 20, r_nexthop = 1,
     r_via = 1, r_prevedge = Some 4, r_options = 1\<rparr>]"

text \<open>
  The documentation of \<open>sssp_sticky\<close> says that the previous next hop is kept only if its route
  has the same hop count and the same \<open>indirect\<close> flag. The flag is not compared: here the kept next
  hop \<open>1\<close> reaches node \<open>3\<close> only over an edge marked indirect, while the route says that it is direct.
\<close>

lemma sticky_ignores_indirect:
  "\<exists>g rt r. run_ops sticky_ops graph_new = Some g \<and> sssp_sticky g 0 sticky_prev = Some rt \<and> slot rt 3 = Some r \<and>
     r_nexthop r = 1 \<and> \<not> r_indirect r \<and> map_option r_indirect (slot sticky_prev 3) = Some True"
proof -
  have "case run_ops sticky_ops graph_new of None \<Rightarrow> False | Some g \<Rightarrow>
     (case sssp_sticky g 0 sticky_prev of None \<Rightarrow> False | Some rt \<Rightarrow>
       (case slot rt 3 of None \<Rightarrow> False | Some r \<Rightarrow> r_nexthop r = 1 \<and> \<not> r_indirect r \<and>
         map_option r_indirect (slot sticky_prev 3) = Some True))" by code_simp
  thus ?thesis by (auto split: option.splits)
qed

end
