(* ===== verification/Mesh_Mst.thy ===== *)
theory Mesh_Mst
  imports Mesh_Sssp
begin

text \<open>
  The spanning tree of \<open>tincd/src/graph/mod.rs\<close> (\<open>mst\<close>), which decides the meta connections that
  broadcasts go over: a walk over the edges in weight order that takes every edge between a visited
  and an unvisited node and returns to the head of the order when it has skipped an edge before.
\<close>

section \<open>Model\<close>

text \<open>The first loop: visit the origin of the first edge whose origin was reachable.\<close>

fun mst_start :: "graph \<Rightarrow> nat list \<Rightarrow> bool list \<Rightarrow> bool list option" where
  "mst_start g [] visited = Some visited"
| "mst_start g (i # is) visited = do {
     e \<leftarrow> slot (g_edges g) i;
     n \<leftarrow> slot (g_nodes g) (ge_from e);
     if gn_reachable n
     then if ge_from e < length visited then Some (visited[ge_from e := True]) else None
     else mst_start g is visited }"

definition unvisited :: "bool list \<Rightarrow> nat" where
  "unvisited vs = card {v. v < length vs \<and> \<not> vs ! v}"

lemma unvisited_less:
  assumes "a < length vs" "b < length vs" "vs ! a \<noteq> vs ! b"
  shows "unvisited (vs[a := True, b := True]) < unvisited vs"
  unfolding unvisited_def
proof (rule psubset_card_mono)
  have "{v. v < length (vs[a := True, b := True]) \<and> \<not> vs[a := True, b := True] ! v} \<subseteq> {v. v < length vs \<and> \<not> vs ! v}"
    using assms(1,2) by (auto simp: nth_list_update split: if_splits)
  moreover have "(if vs ! a then b else a) \<in> {v. v < length vs \<and> \<not> vs ! v}" using assms by auto
  moreover have "(if vs ! a then b else a) \<notin> {v. v < length (vs[a := True, b := True]) \<and> \<not> vs[a := True, b := True] ! v}"
    using assms by (auto simp: nth_list_update)
  ultimately show "{v. v < length (vs[a := True, b := True]) \<and> \<not> vs[a := True, b := True] ! v} \<subset>
      {v. v < length vs \<and> \<not> vs ! v}" by blast
qed simp

text \<open>The main loop, with the index, the flag, the visited nodes and the edges taken so far.\<close>

function mst_loop :: "graph \<Rightarrow> nat list \<Rightarrow> nat \<Rightarrow> bool \<Rightarrow> bool list \<Rightarrow> nat list \<Rightarrow> nat list option" where
  "mst_loop g order i skipped visited out =
     (if i \<ge> length order then Some out
      else case slot (g_edges g) (order ! i) of None \<Rightarrow> None
      | Some e \<Rightarrow>
        if ge_from e \<ge> length visited \<or> ge_to e \<ge> length visited then None
        else if ge_reverse e = None \<or> visited ! ge_from e = visited ! ge_to e
        then mst_loop g order (i + 1) True visited out
        else let visited' = visited[ge_from e := True, ge_to e := True];
                 out' = out @ [order ! i, the (ge_reverse e)]
             in if skipped then mst_loop g order 0 False visited' out'
                else mst_loop g order (i + 1) False visited' out')"
  by pat_completeness auto

termination
  by (relation "inv_image (less_than <*lex*> less_than)
        (\<lambda>(g, order, i, skipped, visited, out). (unvisited visited, length order - i))")
    (auto simp: unvisited_less)

definition mst :: "graph \<Rightarrow> nat list option" where
  "mst g = do {
     visited \<leftarrow> mst_start g (bt_values (g_weight_order g)) (replicate (length (g_nodes g)) False);
     mst_loop g (bt_values (g_weight_order g)) 0 False visited [] }"

declare mst_loop.simps [simp del]

section \<open>Correctness\<close>

text \<open>
  The node the tree grows from, the nodes already in the tree, the links a list of edges gives, and
  the edges that leave a set of nodes.
\<close>

fun first_root :: "graph \<Rightarrow> nat list \<Rightarrow> nat option" where
  "first_root g [] = None"
| "first_root g (i # is) = (case slot (g_edges g) i of None \<Rightarrow> None
     | Some e \<Rightarrow> (case slot (g_nodes g) (ge_from e) of None \<Rightarrow> None
       | Some n \<Rightarrow> if gn_reachable n then Some (ge_from e) else first_root g is))"

definition mst_root :: "graph \<Rightarrow> nat option" where
  "mst_root g = first_root g (bt_values (g_weight_order g))"

definition vset :: "bool list \<Rightarrow> nat set" where
  "vset vs = {v. v < length vs \<and> vs ! v}"

definition tree_link :: "graph \<Rightarrow> nat list \<Rightarrow> nat \<Rightarrow> nat \<Rightarrow> bool" where
  "tree_link g out u v \<longleftrightarrow> (\<exists>i \<in> set out. \<exists>e. slot (g_edges g) i = Some e \<and> ge_from e = u \<and> ge_to e = v)"

definition crosses :: "nat set \<Rightarrow> gedge \<Rightarrow> bool" where
  "crosses S e \<longleftrightarrow> ge_reverse e \<noteq> None \<and> (ge_from e \<in> S) \<noteq> (ge_to e \<in> S)"

definition tree_nodes :: "graph \<Rightarrow> nat \<Rightarrow> nat list \<Rightarrow> nat set" where
  "tree_nodes g s out = insert s {v. \<exists>i \<in> set out. \<exists>e. slot (g_edges g) i = Some e \<and> (v = ge_from e \<or> v = ge_to e)}"

text \<open>Every second element is the lightest edge that leaves the tree at that moment, the next its twin.\<close>

fun greedy :: "graph \<Rightarrow> nat \<Rightarrow> nat list \<Rightarrow> nat list \<Rightarrow> bool" where
  "greedy g s done [] \<longleftrightarrow> True"
| "greedy g s done [i] \<longleftrightarrow> False"
| "greedy g s done (i # r # is) \<longleftrightarrow>
     (\<exists>e. slot (g_edges g) i = Some e \<and> ge_reverse e = Some r \<and> crosses (tree_nodes g s done) e \<and>
       (\<forall>j e'. slot (g_edges g) j = Some e' \<and> crosses (tree_nodes g s done) e' \<longrightarrow> ge_weight e \<le> ge_weight e')) \<and>
     greedy g s (done @ [i, r]) is"

definition mst_inv :: "graph \<Rightarrow> nat \<Rightarrow> nat list \<Rightarrow> nat \<Rightarrow> bool \<Rightarrow> bool list \<Rightarrow> nat list \<Rightarrow> bool" where
  "mst_inv g s order i skipped vs out \<longleftrightarrow>
     length vs = length (g_nodes g) \<and> vset vs = tree_nodes g s out \<and>
     (\<forall>j < i. j < length order \<longrightarrow> (\<forall>e. slot (g_edges g) (order ! j) = Some e \<longrightarrow>
        \<not> crosses (vset vs) e \<and> (\<not> skipped \<longrightarrow> ge_from e \<in> vset vs \<and> ge_to e \<in> vset vs))) \<and>
     (\<forall>v \<in> vset vs. (tree_link g out)\<^sup>*\<^sup>* s v \<and> (link g)\<^sup>*\<^sup>* s v) \<and>
     length out + 2 = 2 * card (vset vs) \<and> greedy g s [] out"

lemma greedy_append:
  "greedy g s done (xs @ ys) \<longleftrightarrow> greedy g s done xs \<and> greedy g s (done @ xs) ys" if "even (length xs)"
  using that by (induction g s "done" xs rule: greedy.induct) auto

lemma vset_update:
  assumes "a < length vs" "b < length vs"
  shows "vset (vs[a := True, b := True]) = vset vs \<union> {a, b}"
  using assms by (auto simp: vset_def nth_list_update)

lemma finite_vset [simp]: "finite (vset vs)"
  by (simp add: vset_def)

lemma tree_link_mono: "(tree_link g out)\<^sup>*\<^sup>* u v \<Longrightarrow> (tree_link g (out @ out'))\<^sup>*\<^sup>* u v"
  by (erule rtranclp_mono [THEN predicate2D, rotated]) (fastforce simp: tree_link_def)

lemma twin:
  assumes "graph_inv g" "slot (g_edges g) i = Some e" "ge_reverse e = Some r"
  obtains e' where "slot (g_edges g) r = Some e'" "ge_from e' = ge_to e" "ge_to e' = ge_from e" "ge_reverse e' = Some i" "r \<noteq> i"
proof -
  have t: "twins_ok (slot (g_edges g))" by (rule graph_invD(7) [OF assms(1)])
  obtain e' where e': "r \<noteq> i" "slot (g_edges g) r = Some e'" "ge_from e' = ge_to e" "ge_to e' = ge_from e"
    using t assms(2,3) unfolding twins_ok_def by blast
  moreover have "ge_reverse e' = Some i" using t e' assms(2) unfolding twins_ok_def by metis
  ultimately show thesis using that by blast
qed

text \<open>The weight index lists all live edges, lightest first.\<close>

lemma weight_order_complete:
  assumes g: "graph_inv g"
  shows "i \<in> set (bt_values (g_weight_order g)) \<longleftrightarrow> slot (g_edges g) i \<noteq> None"
proof -
  have "(\<exists>k. (k, i) \<in> set (g_weight_order g)) \<longleftrightarrow> core (g_edges g) i \<noteq> None"
    unfolding weights_okD(2) [OF graph_invD(6) [OF g]]
  proof
    assume "core (g_edges g) i \<noteq> None"
    then obtain a b w s where c: "core (g_edges g) i = Some (a, b, w, s)" by auto
    thus "\<exists>k a b w s nm. core (g_edges g) i = Some (a, b, w, s) \<and> names (g_nodes g) a = Some nm \<and> k = (w, nm, s)"
      using ends_okD(1) [OF graph_invD(4) [OF g] c] by blast
  qed auto
  thus ?thesis by (force simp: bt_values_def core_def)
qed

lemma weight_order_sorted:
  assumes g: "graph_inv g" and j: "i \<le> j" "j < length (bt_values (g_weight_order g))"
    and e: "slot (g_edges g) (bt_values (g_weight_order g) ! i) = Some e"
      "slot (g_edges g) (bt_values (g_weight_order g) ! j) = Some e'"
  shows "ge_weight e \<le> ge_weight e'"
proof -
  let ?wo = "g_weight_order g"
  have len: "i < length ?wo" "j < length ?wo" using j by (simp_all add: bt_values_def)
  have key: "fst (fst (?wo ! k)) = ge_weight x" if "k < length ?wo" "slot (g_edges g) (bt_values ?wo ! k) = Some x" for k x
  proof -
    have "(fst (?wo ! k), snd (?wo ! k)) \<in> set ?wo" using that(1) by simp
    then obtain a b w s nm where "core (g_edges g) (snd (?wo ! k)) = Some (a, b, w, s)" "fst (?wo ! k) = (w, nm, s)"
      unfolding weights_okD(2) [OF graph_invD(6) [OF g]] by blast
    thus ?thesis using that by (auto simp: core_def bt_values_def)
  qed
  show ?thesis
  proof (cases "i = j")
    case False
    have "sorted_wrt (<) (map fst ?wo)" using weights_okD(1) [OF graph_invD(6) [OF g]] by (simp add: bt_ok_def)
    hence "fst (?wo ! i) < fst (?wo ! j)" using False j len by (auto simp: sorted_wrt_iff_nth_less)
    hence "fst (fst (?wo ! i)) \<le> fst (fst (?wo ! j))" by (auto simp: less_prod_def)
    thus ?thesis using key len e by simp
  qed (use e in simp)
qed


lemma lightest_crossing:
  assumes g: "graph_inv g" and order: "order = bt_values (g_weight_order g)"
    and inv: "mst_inv g s order i skipped vs out" and i: "i < length order" "slot (g_edges g) (order ! i) = Some e"
    and e': "slot (g_edges g) j = Some e'" "crosses (vset vs) e'"
  shows "ge_weight e \<le> ge_weight e'"
proof -
  have "j \<in> set order" using weight_order_complete [OF g] e'(1) unfolding order by blast
  then obtain k where k: "k < length order" "order ! k = j" by (metis in_set_conv_nth)
  have "\<not> k < i" using inv k e' unfolding mst_inv_def by blast
  thus ?thesis using weight_order_sorted [OF g, of i k e e'] k i e' unfolding order by auto
qed

lemma mst_inv_before:
  "mst_inv g s order i skipped vs out \<Longrightarrow> j < i \<Longrightarrow> j < length order \<Longrightarrow> slot (g_edges g) (order ! j) = Some e \<Longrightarrow>
   \<not> crosses (vset vs) e"
  unfolding mst_inv_def by blast

lemma mst_skip:
  assumes inv: "mst_inv g s order i skipped vs out" and "i < length order" and e: "slot (g_edges g) (order ! i) = Some e"
    and n: "\<not> crosses (vset vs) e"
  shows "mst_inv g s order (i + 1) True vs out"
  using inv e n unfolding mst_inv_def by (auto simp: less_Suc_eq)

lemma tree_nodes_snoc:
  assumes "graph_inv g" "slot (g_edges g) i = Some e" "ge_reverse e = Some r"
  shows "tree_nodes g s (out @ [i, r]) = tree_nodes g s out \<union> {ge_from e, ge_to e}"
proof -
  obtain e' where "slot (g_edges g) r = Some e'" "ge_from e' = ge_to e" "ge_to e' = ge_from e"
    by (rule twin [OF assms])
  thus ?thesis using assms(2) by (fastforce simp: tree_nodes_def)
qed

lemma tree_grow:
  assumes g: "graph_inv g" and e: "slot (g_edges g) i = Some e" "ge_reverse e = Some r"
    and V: "\<forall>v \<in> V. (tree_link g out)\<^sup>*\<^sup>* s v \<and> (link g)\<^sup>*\<^sup>* s v" and c: "(ge_from e \<in> V) \<noteq> (ge_to e \<in> V)"
    and v: "v \<in> V \<union> {ge_from e, ge_to e}"
  shows "(tree_link g (out @ [i, r]))\<^sup>*\<^sup>* s v \<and> (link g)\<^sup>*\<^sup>* s v"
proof (cases "v \<in> V")
  case True
  thus ?thesis using V tree_link_mono by blast
next
  case False
  obtain e' where e': "slot (g_edges g) r = Some e'" "ge_from e' = ge_to e" "ge_to e' = ge_from e" "ge_reverse e' = Some i"
    by (rule twin [OF g e])
  define u where "u = (if v = ge_from e then ge_to e else ge_from e)"
  have u: "u \<in> V" "v = ge_from e \<and> u = ge_to e \<or> v = ge_to e \<and> u = ge_from e" using False c v by (auto simp: u_def)
  have "tree_link g (out @ [i, r]) u v" using u(2) e(1) e' by (fastforce simp: tree_link_def)
  moreover have "link g u v" using u(2) e e' by (fastforce simp: link_def)
  ultimately show ?thesis using V u(1) tree_link_mono by (meson rtranclp.rtrancl_into_rtrancl)
qed

lemma mst_take:
  assumes g: "graph_inv g" and order: "order = bt_values (g_weight_order g)"
    and inv: "mst_inv g s order i skipped vs out" and i: "i < length order" and e: "slot (g_edges g) (order ! i) = Some e"
    and len: "ge_from e < length vs" "ge_to e < length vs" and c: "crosses (vset vs) e"
    and i': "i' = 0 \<or> i' = i + 1 \<and> \<not> skipped"
  shows "mst_inv g s order i' False (vs[ge_from e := True, ge_to e := True]) (out @ [order ! i, the (ge_reverse e)])"
proof -
  obtain r where r: "ge_reverse e = Some r" using c by (auto simp: crosses_def)
  let ?vs = "vs[ge_from e := True, ge_to e := True]"
  note V = vset_update [OF len] and T = tree_nodes_snoc [OF g e r]
  have tn: "vset vs = tree_nodes g s out" "length out + 2 = 2 * card (vset vs)" "greedy g s [] out"
    using inv by (simp_all add: mst_inv_def)
  have x: "(ge_from e \<in> vset vs) \<noteq> (ge_to e \<in> vset vs)" using c by (simp add: crosses_def)
  have card: "card (vset ?vs) = Suc (card (vset vs))"
  proof -
    have "vset ?vs = insert (if ge_from e \<in> vset vs then ge_to e else ge_from e) (vset vs)" unfolding V using x by auto
    thus ?thesis using x by simp
  qed
  have "even (length out + 2)" unfolding tn(2) by simp
  hence ev: "even (length out)" by simp
  have "\<forall>j e'. slot (g_edges g) j = Some e' \<and> crosses (vset vs) e' \<longrightarrow> ge_weight e \<le> ge_weight e'"
    using lightest_crossing [OF g order inv i e] by blast
  hence gr: "greedy g s [] (out @ [order ! i, r])"
    unfolding greedy_append [OF ev] using tn e r c by simp
  have both: "\<not> crosses (vset ?vs) e' \<and> ge_from e' \<in> vset ?vs \<and> ge_to e' \<in> vset ?vs"
    if "j < i'" "slot (g_edges g) (order ! j) = Some e'" for j e'
  proof -
    have "ge_from e' \<in> vset ?vs \<and> ge_to e' \<in> vset ?vs"
    proof (cases "j = i")
      case True
      thus ?thesis using that(2) e unfolding V by simp
    next
      case False
      hence "j < i" "\<not> skipped" using that(1) i' by auto
      thus ?thesis using that(2) i inv unfolding mst_inv_def V by auto
    qed
    thus ?thesis by (simp add: crosses_def)
  qed
  have "\<forall>v \<in> vset vs. (tree_link g out)\<^sup>*\<^sup>* s v \<and> (link g)\<^sup>*\<^sup>* s v" using inv by (simp add: mst_inv_def)
  note grow = tree_grow [OF g e r this x]
  have "length ?vs = length (g_nodes g)" using inv by (simp add: mst_inv_def)
  moreover have "vset ?vs = tree_nodes g s (out @ [order ! i, r])" unfolding V T tn(1) ..
  moreover have "\<forall>v \<in> vset ?vs. (tree_link g (out @ [order ! i, r]))\<^sup>*\<^sup>* s v \<and> (link g)\<^sup>*\<^sup>* s v"
    unfolding V using grow by blast
  moreover have "length (out @ [order ! i, r]) + 2 = 2 * card (vset ?vs)" using tn(2) card by simp
  ultimately show ?thesis unfolding mst_inv_def r option.sel using gr both by blast
qed

lemma mst_loop_ok:
  "graph_inv g \<Longrightarrow> order = bt_values (g_weight_order g) \<Longrightarrow> mst_inv g s order i skipped vs out \<Longrightarrow>
   \<exists>out' vs' sk' i'. mst_loop g order i skipped vs out = Some out' \<and> i' \<ge> length order \<and> mst_inv g s order i' sk' vs' out'"
proof (induction g order i skipped vs out rule: mst_loop.induct)
  case (1 g order i skipped vs out)
  note g = 1(4) and order = 1(5) and inv = 1(6)
  show ?case
  proof (cases "i \<ge> length order")
    case True
    thus ?thesis using inv by (subst mst_loop.simps) auto
  next
    case False
    hence i: "i < length order" by simp
    obtain e where e: "slot (g_edges g) (order ! i) = Some e"
      using weight_order_complete [OF g, of "order ! i"] i order by (metis nth_mem option.exhaust)
    have len: "ge_from e < length vs" "ge_to e < length vs"
      using edge_to_live [OF g e] inv by (auto simp: mst_inv_def slot_def split: if_splits)
    have vis: "vs ! ge_from e \<longleftrightarrow> ge_from e \<in> vset vs" "vs ! ge_to e \<longleftrightarrow> ge_to e \<in> vset vs"
      using len by (simp_all add: vset_def)
    show ?thesis
    proof (cases "crosses (vset vs) e")
      case cr: True
      hence n: "\<not> (ge_reverse e = None \<or> vs ! ge_from e = vs ! ge_to e)" by (auto simp: crosses_def vis)
      show ?thesis
      proof (cases skipped)
        case True
        have "mst_inv g s order 0 False (vs[ge_from e := True, ge_to e := True]) (out @ [order ! i, the (ge_reverse e)])"
          by (rule mst_take [OF g order inv i e len cr]) simp
        from 1(2) [OF False e _ n refl refl True g order this]
        show ?thesis using False e len n True by (subst mst_loop.simps) (auto simp: Let_def)
      next
        case ns: False
        have "mst_inv g s order (i + 1) False (vs[ge_from e := True, ge_to e := True]) (out @ [order ! i, the (ge_reverse e)])"
          by (rule mst_take [OF g order inv i e len cr]) (simp add: ns)
        from 1(3) [OF False e _ n refl refl ns g order this]
        show ?thesis using False e len n ns by (subst mst_loop.simps) (auto simp: Let_def)
      qed
    next
      case nc: False
      hence y: "ge_reverse e = None \<or> vs ! ge_from e = vs ! ge_to e" by (auto simp: crosses_def vis)
      from 1(1) [OF False e _ y g order mst_skip [OF inv i e nc]]
      show ?thesis using False e len y by (subst mst_loop.simps) simp
    qed
  qed
qed


lemma mst_start_ok:
  assumes g: "graph_inv g"
  shows "set is \<subseteq> set (bt_values (g_weight_order g)) \<Longrightarrow> length vs = length (g_nodes g) \<Longrightarrow>
    mst_start g is vs = Some (case first_root g is of None \<Rightarrow> vs | Some s \<Rightarrow> vs[s := True]) \<and>
    (\<forall>s. first_root g is = Some s \<longrightarrow> s < length vs)"
proof (induction "is")
  case (Cons i "is")
  have "slot (g_edges g) i \<noteq> None" using weight_order_complete [OF g] Cons(2) by auto
  then obtain e where e: "slot (g_edges g) i = Some e" by blast
  then obtain n where n: "slot (g_nodes g) (ge_from e) = Some n" using edge_to_live [OF g e] by blast
  have "ge_from e < length vs" using slot_Some_less [OF n] Cons(3) by simp
  thus ?case using Cons e n by simp
qed simp

lemma mst_loop_empty:
  assumes g: "graph_inv g" and order: "order = bt_values (g_weight_order g)"
  shows "mst_loop g order i sk (replicate (length (g_nodes g)) False) out = Some out"
proof (induction "length order - i" arbitrary: i sk)
  case 0
  thus ?case by (subst mst_loop.simps) simp
next
  case (Suc k)
  hence i: "i < length order" by simp
  obtain e where e: "slot (g_edges g) (order ! i) = Some e"
    using weight_order_complete [OF g, of "order ! i"] i order by (metis nth_mem option.exhaust)
  have "ge_from e < length (g_nodes g)" "ge_to e < length (g_nodes g)"
    using edge_to_live [OF g e] by (auto simp: slot_def split: if_splits)
  thus ?case using i e Suc by (subst mst_loop.simps) simp
qed

lemma mst_inv_start:
  assumes "s < length (g_nodes g)"
  shows "mst_inv g s order 0 False ((replicate (length (g_nodes g)) False)[s := True]) []"
proof -
  have "vset ((replicate (length (g_nodes g)) False)[s := True]) = {s}"
    using assms by (auto simp: vset_def nth_list_update)
  thus ?thesis by (simp add: mst_inv_def tree_nodes_def)
qed

lemma mst_inv_done:
  assumes g: "graph_inv g" and inv: "mst_inv g s (bt_values (g_weight_order g)) i sk vs out"
    and i: "i \<ge> length (bt_values (g_weight_order g))"
  shows "vset vs = {v. (link g)\<^sup>*\<^sup>* s v}"
proof -
  have nc: "\<not> crosses (vset vs) e" if e: "slot (g_edges g) j = Some e" for j e
  proof -
    have "j \<in> set (bt_values (g_weight_order g))" using weight_order_complete [OF g] e by blast
    then obtain k where k: "k < length (bt_values (g_weight_order g))" "bt_values (g_weight_order g) ! k = j"
      by (metis in_set_conv_nth)
    show ?thesis using mst_inv_before [OF inv _ k(1)] k e i by simp
  qed
  have "v \<in> vset vs" if "(link g)\<^sup>*\<^sup>* s v" for v
    using that
  proof (induction rule: rtranclp_induct)
    case base
    show ?case using inv by (simp add: mst_inv_def tree_nodes_def)
  next
    case (step u w)
    then obtain j e where "slot (g_edges g) j = Some e" "ge_from e = u" "ge_to e = w" "ge_reverse e \<noteq> None"
      by (auto simp: link_def)
    thus ?case using nc [of j e] step(3) by (simp add: crosses_def)
  qed
  thus ?thesis using inv by (auto simp: mst_inv_def)
qed

text \<open>
  C21: the walk terminates without a panic and returns a spanning tree of the component it starts in:
  the tree links every node of the component to the root, with one pair of twin edges fewer than the
  component has nodes, and every edge that is taken is a lightest one among those that leave the tree
  at that moment (the rewinding walk makes the choices of Prim's algorithm).
\<close>

theorem mst_spanning_tree:
  assumes "graph_reach g" "mst_root g = Some s"
  shows "\<exists>out. mst g = Some out \<and>
    (\<forall>v. (link g)\<^sup>*\<^sup>* s v \<longleftrightarrow> (tree_link g out)\<^sup>*\<^sup>* s v) \<and> tree_nodes g s out = {v. (link g)\<^sup>*\<^sup>* s v} \<and>
    length out = 2 * (card {v. (link g)\<^sup>*\<^sup>* s v} - 1) \<and> greedy g s [] out"
proof -
  have g: "graph_inv g" by (rule graph_reach_inv [OF assms(1)])
  let ?o = "bt_values (g_weight_order g)" and ?vs = "replicate (length (g_nodes g)) False"
  have st: "mst_start g ?o ?vs = Some (?vs[s := True])" "s < length (g_nodes g)"
    using mst_start_ok [OF g, of ?o ?vs] assms(2) by (auto simp: mst_root_def)
  obtain out vs sk i where r: "mst_loop g ?o 0 False (?vs[s := True]) [] = Some out"
    "i \<ge> length ?o" "mst_inv g s ?o i sk vs out"
    using mst_loop_ok [OF g refl mst_inv_start [OF st(2)]] by blast
  have V: "vset vs = {v. (link g)\<^sup>*\<^sup>* s v}" by (rule mst_inv_done [OF g r(3,2)])
  have T: "tree_nodes g s out = vset vs" "length out + 2 = 2 * card (vset vs)" "greedy g s [] out"
    "\<forall>v \<in> vset vs. (tree_link g out)\<^sup>*\<^sup>* s v" using r(3) by (simp_all add: mst_inv_def)
  have R: "v \<in> vset vs" if "(tree_link g out)\<^sup>*\<^sup>* s v" for v
    using that by (induction rule: rtranclp_induct) (auto simp: T(1) [symmetric] tree_nodes_def tree_link_def)
  have "mst g = Some out" using st(1) r(1) by (simp add: mst_def)
  moreover have "\<forall>v. (link g)\<^sup>*\<^sup>* s v \<longleftrightarrow> (tree_link g out)\<^sup>*\<^sup>* s v" using R T(4) V by blast
  moreover have "length out = 2 * (card {v. (link g)\<^sup>*\<^sup>* s v} - 1)" using T(2) unfolding V by simp
  ultimately show ?thesis using T(1,3) V by blast
qed

theorem mst_spanning_tree_witness:
  "graph_reach demo_graph \<and> mst_root demo_graph = Some 2 \<and>
   (\<exists>out. mst demo_graph = Some out \<and>
     (\<forall>v. (link demo_graph)\<^sup>*\<^sup>* 2 v \<longleftrightarrow> (tree_link demo_graph out)\<^sup>*\<^sup>* 2 v) \<and> tree_nodes demo_graph 2 out = {v. (link demo_graph)\<^sup>*\<^sup>* 2 v} \<and>
     length out = 2 * (card {v. (link demo_graph)\<^sup>*\<^sup>* 2 v} - 1) \<and> greedy demo_graph 2 [] out)"
proof -
  have "mst_root demo_graph = Some 2" by code_simp
  thus ?thesis using mst_spanning_tree [OF demo_graph_reach] demo_graph_reach by blast
qed

text \<open>With no reachable origin in the weight order, the tree is empty.\<close>

theorem mst_no_root:
  assumes "graph_reach g" "mst_root g = None"
  shows "mst g = Some []"
proof -
  have g: "graph_inv g" by (rule graph_reach_inv [OF assms(1)])
  show ?thesis using mst_start_ok [OF g, of "bt_values (g_weight_order g)"] mst_loop_empty [OF g refl] assms(2)
    by (simp add: mst_def mst_root_def)
qed

theorem mst_no_root_witness: "graph_reach graph_new \<and> mst_root graph_new = None \<and> mst graph_new = Some []"
proof -
  have "mst_root graph_new = None" by code_simp
  thus ?thesis using mst_no_root [OF reach_new] reach_new by blast
qed

end
