(* ===== verification/Graph_View.thy ===== *)
theory Graph_View
  imports Mesh_Mst
begin

text \<open>
  The graph as its clients see it: \<open>nview\<close>, the name and the reachability of each node, and \<open>eview\<close>, the
  ends, the weight and the options of each edge. One lemma for each operation says that it returns and
  what it does to the two views; reachability over two-way edges and the capacity checks are functions
  of the views.
\<close>

section \<open>The view of the edges\<close>

type_synonym edge_view = "nat \<times> nat \<times> int \<times> u32"

definition eview :: "graph \<Rightarrow> nat \<Rightarrow> edge_view option" where
  "eview g i = map_option (\<lambda>e. (ge_from e, ge_to e, ge_weight e, ge_options e)) (slot (g_edges g) i)"

lemma eview_content: "eview g i = map_option (\<lambda>e. (ge_from e, ge_to e, ge_weight e, ge_options e)) (content (slot (g_edges g)) i)"
  by (simp add: eview_def content_def option.map_comp comp_def)

lemma eview_relink:
  assumes "slot (g_edges g') = (relink r v (slot (g_edges g)))(i := x)"
  shows "eview g' = (eview g)(i := map_option (\<lambda>e. (ge_from e, ge_to e, ge_weight e, ge_options e)) x)"
  using assms by (auto simp: eview_def relink_def fun_eq_iff option.map_comp comp_def split: option.splits)

lemma ends_eview: "ends (slot (g_edges g)) i = map_option (\<lambda>(a, b, _). (a, b)) (eview g i)"
  by (simp add: ends_def eview_def option.map_comp comp_def)

lemma ends_eviewD: "ends (slot (g_edges g)) i = Some (a, b) \<longleftrightarrow> (\<exists>w o'. eview g i = Some (a, b, w, o'))"
  by (auto simp: ends_eview)

lemma eview_unique: "graph_inv g \<Longrightarrow> eview g i = Some (a, b, w, x) \<Longrightarrow> eview g j = Some (a, b, w', x') \<Longrightarrow> i = j"
  using edges_unique_ends [OF graph_inv_unique, of g i "(a, b)" j] by (auto simp: ends_eview)

lemma eview_live: "graph_inv g \<Longrightarrow> eview g i = Some (a, b, w, x) \<Longrightarrow> nview (g_nodes g) a \<noteq> None \<and> nview (g_nodes g) b \<noteq> None"
  using edge_to_live [of g i] by (auto simp: eview_def nview_def)

lemma nview_slot: "nview (g_nodes g) n = Some (nm, r) \<longleftrightarrow> (\<exists>nd. slot (g_nodes g) n = Some nd \<and> gn_name nd = nm \<and> gn_reachable nd = r)"
  by (auto simp: nview_def)

lemma nview_inj: "graph_inv g \<Longrightarrow> nview (g_nodes g) n = Some (nm, r) \<Longrightarrow> nview (g_nodes g) n' = Some (nm, r') \<Longrightarrow> n = n'"
  using graph_invD(3) [of g] by (auto simp: names_ok_def names_nview)

lemma get_node_nview: "get_node g n = Some nd \<Longrightarrow> nview (g_nodes g) n = Some (gn_name nd, gn_reachable nd)"
  by (simp add: get_node_def nview_def)

lemma nview_get_node: "nview (g_nodes g) n = Some (nm, r) \<Longrightarrow> \<exists>nd. get_node g n = Some nd \<and> gn_name nd = nm \<and> gn_reachable nd = r"
  by (simp add: get_node_def nview_slot)

section \<open>The operations on the views\<close>

lemma add_node_view:
  assumes "graph_inv g" "g_node_free g = [] \<Longrightarrow> fits_u32 (length (g_nodes g))" "\<And>i r. nview (g_nodes g) i \<noteq> Some (nm, r)"
  obtains i g' where "add_node nm g = Some (i, g')" "graph_inv g'" "nview (g_nodes g) i = None"
    "nview (g_nodes g') = (nview (g_nodes g))(i \<mapsto> (nm, True))" "eview g' = eview g"
proof -
  have "names (g_nodes g) i \<noteq> Some nm" for i using assms(3) by (auto simp: names_nview)
  from add_node_ok [OF assms(1,2) this] obtain i g' where "add_node nm g = Some (i, g')" "graph_inv g'" "slot (g_nodes g) i = None"
    "nview (g_nodes g') = (nview (g_nodes g))(i := Some (nm, True))" "g_edges g' = g_edges g" by blast
  thus thesis by (intro that [of i g']) (simp_all add: nview_def eview_def fun_eq_iff)
qed

lemma add_edge_view:
  assumes "graph_inv g" "g_edge_free g = [] \<Longrightarrow> fits_u32 (length (g_edges g))"
    and "nview (g_nodes g) a \<noteq> None" "nview (g_nodes g) b \<noteq> None" "\<And>i w x. eview g i \<noteq> Some (a, b, w, x)"
  obtains i g' where "add_edge a b w ops g = Some (i, g')" "graph_inv g'" "eview g i = None"
    "eview g' = (eview g)(i \<mapsto> (a, b, w, ops))" "nview (g_nodes g') = nview (g_nodes g)"
proof -
  obtain f t where ft: "slot (g_nodes g) a = Some f" "slot (g_nodes g) b = Some t" using assms(3,4) by (auto simp: nview_def)
  have "ends (slot (g_edges g)) i \<noteq> Some (a, b)" for i using assms(5) by (auto simp: ends_eview)
  from add_edge_ok [OF assms(1,2) ft this, of w ops] obtain i g' x where
    r: "add_edge a b w ops g = Some (i, g')" "graph_inv g'" "slot (g_edges g) i = None"
      "slot (g_edges g') = (relink (ge_reverse x) (Some i) (slot (g_edges g)))(i := Some x)"
      "ge_from x = a" "ge_to x = b" "ge_weight x = w" "ge_options x = ops" "nview (g_nodes g') = nview (g_nodes g)" by blast
  show thesis using r eview_relink [OF r(4)] by (intro that [of i g']) (simp_all add: eview_def [of g i])
qed

lemma del_edge_view:
  assumes "graph_inv g" "eview g i \<noteq> None"
  obtains g' where "del_edge i g = Some (Some g')" "graph_inv g'" "eview g' = (eview g)(i := None)"
    "nview (g_nodes g') = nview (g_nodes g)"
proof -
  obtain e where e: "slot (g_edges g) i = Some e" using assms(2) by (auto simp: eview_def)
  from del_edge_ok [OF assms(1) e] obtain g' where r: "del_edge i g = Some (Some g')" "graph_inv g'"
    "slot (g_edges g') = (relink (ge_reverse e) None (slot (g_edges g)))(i := None)" "nview (g_nodes g') = nview (g_nodes g)" by blast
  show thesis using r eview_relink [OF r(3)] by (intro that [of g']) simp_all
qed

lemma update_edge_view:
  assumes "graph_inv g" "eview g i = Some (a, b, w, x)"
  obtains g' where "update_edge i w' x' g = Some (Some g')" "graph_inv g'" "eview g' = (eview g)(i \<mapsto> (a, b, w', x'))"
    "nview (g_nodes g') = nview (g_nodes g)"
proof -
  obtain e where e: "slot (g_edges g) i = Some e" "ge_from e = a" "ge_to e = b" using assms(2) by (auto simp: eview_def)
  from update_edge_ok [OF assms(1) e(1), of w' x'] obtain g' where r: "update_edge i w' x' g = Some (Some g')" "graph_inv g'"
    "g_nodes g' = g_nodes g" "slot (g_edges g') = (slot (g_edges g))(i := Some (e\<lparr>ge_options := x', ge_weight := w'\<rparr>))" by blast
  have "eview g' = (eview g)(i \<mapsto> (a, b, w', x'))" using e by (rule_tac ext) (simp add: eview_def r(4))
  thus thesis using r by (intro that [of g']) simp_all
qed

lemma set_reachable_view:
  assumes "graph_inv g" "nview (g_nodes g) n = Some (nm, r0)"
  obtains g' where "set_reachable n r g = Some g'" "graph_inv g'" "eview g' = eview g"
    "nview (g_nodes g') = (nview (g_nodes g))(n \<mapsto> (nm, r))"
proof -
  obtain nd where nd: "slot (g_nodes g) n = Some nd" "gn_name nd = nm" using assms(2) by (auto simp: nview_slot)
  from set_reachable_ok [OF assms(1) nd(1), of r] obtain g' where "set_reachable n r g = Some g'" "graph_inv g'" "g_edges g' = g_edges g"
    "nview (g_nodes g') = (nview (g_nodes g))(n := Some (gn_name nd, r))" by blast
  thus thesis using nd by (intro that [of g']) (simp_all add: eview_def fun_eq_iff)
qed

lemma del_node_view:
  assumes "graph_inv g" "nview (g_nodes g) n \<noteq> None" "\<And>i a b w x. eview g i = Some (a, b, w, x) \<Longrightarrow> a \<noteq> n \<and> b \<noteq> n"
  obtains g' where "del_node n g = Some (Some g')" "graph_inv g'" "eview g' = eview g"
    "nview (g_nodes g') = (nview (g_nodes g))(n := None)"
proof -
  obtain nd where nd: "slot (g_nodes g) n = Some nd" using assms(2) by (auto simp: nview_def)
  have off: "ge_from e \<noteq> n \<and> ge_to e \<noteq> n" if "slot (g_edges g) i = Some e" for i e using that assms(3) [of i] by (auto simp: eview_def)
  obtain g' where r: "del_node n g = Some (Some g')" "graph_inv g'"
    "content (slot (g_edges g')) = (\<lambda>i. case slot (g_edges g) i of None \<Rightarrow> None
       | Some e \<Rightarrow> if ge_from e = n then None else content (slot (g_edges g)) i)"
    "nview (g_nodes g') = (nview (g_nodes g))(n := None)"
    by (rule del_node_ok [OF assms(1) nd]) (use off in blast)+
  have "content (slot (g_edges g')) = content (slot (g_edges g))"
    unfolding r(3) using off by (auto simp: fun_eq_iff content_def split: option.splits)
  hence "eview g' = eview g" by (simp add: eview_content fun_eq_iff)
  thus thesis using r that by blast
qed

lemma lookup_edge_view:
  assumes "graph_inv g" "nview (g_nodes g) a \<noteq> None" "nview (g_nodes g) b \<noteq> None"
  obtains r where "lookup_edge g a b = Some r" "\<And>i. r = Some i \<longleftrightarrow> (\<exists>w x. eview g i = Some (a, b, w, x))"
proof -
  obtain f t where ft: "slot (g_nodes g) a = Some f" "slot (g_nodes g) b = Some t" using assms(2,3) by (auto simp: nview_def)
  show thesis using lookup_edge_ok [OF assms(1) ft] that by (metis ends_eviewD)
qed

section \<open>Reachability and sizes\<close>

definition has_edge :: "(nat \<Rightarrow> edge_view option) \<Rightarrow> nat \<Rightarrow> nat \<Rightarrow> bool" where
  "has_edge E u v \<longleftrightarrow> (\<exists>i w x. E i = Some (u, v, w, x))"

definition two_way :: "(nat \<Rightarrow> edge_view option) \<Rightarrow> nat \<Rightarrow> nat \<Rightarrow> bool" where
  "two_way E u v \<longleftrightarrow> u \<noteq> v \<and> has_edge E u v \<and> has_edge E v u"

lemma link_two_way:
  assumes g: "graph_inv g"
  shows "link g u v \<longleftrightarrow> two_way (eview g) u v"
proof
  assume "link g u v"
  then obtain i e r where e: "slot (g_edges g) i = Some e" "ge_from e = u" "ge_to e = v" "ge_reverse e = Some r"
    by (auto simp: link_def)
  hence r: "r \<noteq> i" "ends (slot (g_edges g)) r = Some (v, u)" using graph_invD(7) [OF g] by (auto simp: twins_ok_ends)
  have "eview g i = Some (u, v, ge_weight e, ge_options e)" using e by (simp add: eview_def)
  thus "two_way (eview g) u v"
    using r eview_unique [OF g] unfolding two_way_def has_edge_def ends_eviewD by metis
next
  assume t: "two_way (eview g) u v"
  then obtain i w x r where e: "eview g i = Some (u, v, w, x)" "ends (slot (g_edges g)) r = Some (v, u)" and "u \<noteq> v"
    unfolding two_way_def has_edge_def ends_eviewD by blast
  then obtain e where s: "slot (g_edges g) i = Some e" "ge_from e = u" "ge_to e = v" by (auto simp: eview_def)
  have "r \<noteq> i" using e \<open>u \<noteq> v\<close> by (auto simp: ends_eview)
  hence "ge_reverse e = Some r" using graph_invD(7) [OF g] s e(2) by (auto simp: twins_ok_ends)
  thus "link g u v" using s by (auto simp: link_def)
qed

lemma links_two_way: "graph_inv g \<Longrightarrow> link g = two_way (eview g)"
  by (simp add: fun_eq_iff link_two_way)

lemma mst_total:
  assumes g: "graph_inv g"
  shows "\<exists>out. mst g = Some out"
proof (cases "mst_root g")
  case None
  thus ?thesis using mst_start_ok [OF g, of "bt_values (g_weight_order g)"] mst_loop_empty [OF g refl]
    by (simp add: mst_def mst_root_def)
next
  case (Some s)
  let ?o = "bt_values (g_weight_order g)" and ?vs = "replicate (length (g_nodes g)) False"
  have "mst_start g ?o ?vs = Some (?vs[s := True])" "s < length (g_nodes g)"
    using mst_start_ok [OF g, of ?o ?vs] Some by (auto simp: mst_root_def)
  thus ?thesis using mst_loop_ok [OF g refl mst_inv_start] by (force simp: mst_def)
qed

lemma slab_count:
  assumes "slab_ok xs free"
  shows "card {i. slot xs i \<noteq> None} = length xs - length free"
proof -
  have f: "set free = {i. i < length xs \<and> xs ! i = None}" "distinct free" using assms by (auto simp: slab_ok_def)
  have "{i. slot xs i \<noteq> None} = {..<length xs} - set free" by (auto simp: slot_def f(1))
  moreover have "card ({..<length xs} - set free) = length xs - length free"
  proof -
    have "set free \<subseteq> {..<length xs}" unfolding f(1) by blast
    from card_Diff_subset [OF _ this] show ?thesis using distinct_card [OF f(2)] by simp
  qed
  ultimately show ?thesis by simp
qed

lemma edge_count_view: "graph_inv g \<Longrightarrow> edge_count g = card {i. eview g i \<noteq> None}"
  using slab_count [OF graph_invD(2), of g] by (simp add: edge_count_def eview_def)

lemma node_count_view: "graph_inv g \<Longrightarrow> length (g_nodes g) - length (g_node_free g) = card {i. nview (g_nodes g) i \<noteq> None}"
  using slab_count [OF graph_invD(1), of g] by (simp add: nview_def)

lemma finite_eview [simp]: "finite {i. eview g i \<noteq> None}"
  by (rule finite_subset [of _ "{..<length (g_edges g)}"]) (auto simp: eview_def dest: slot_Some_less)

lemma finite_nview [simp]: "finite {i. nview (g_nodes g) i \<noteq> None}"
  by (rule finite_subset [of _ "{..<length (g_nodes g)}"]) (auto simp: nview_def dest: slot_Some_less)

lemma set_node_ids: "set (node_ids g) = {i. nview (g_nodes g) i \<noteq> None}"
  by (auto simp: node_ids_def nview_def slot_def)

lemma distinct_node_ids: "distinct (node_ids g)"
  by (simp add: node_ids_def)

lemma set_edge_iter: "(i, e) \<in> set (edge_iter g) \<longleftrightarrow> slot (g_edges g) i = Some e"
proof -
  have "(i, e) \<in> set (edge_iter g) \<longleftrightarrow> (i, Some e) \<in> set (enumerate 0 (g_edges g))"
    unfolding edge_iter_def by (force split: option.splits)
  thus ?thesis by (auto simp: in_set_enumerate_eq slot_def)
qed

end
