(* ===== verification/Field25519.thy ===== *)
theory Field25519
  imports Prelude
begin

text \<open>
  The field arithmetic modulo \<open>2 ^ 255 - 19\<close> that the key exchange vendors
  (\<open>src/crates/tinc-crypto/src/ecdh.rs\<close>, module \<open>fe\<close>): five limbs of 51 bits, schoolbook
  multiplication with lazy carries, inversion by Fermat's exponent, and the map from an Edwards
  \<open>y\<close> to a Montgomery \<open>u\<close>. Limbs are natural numbers; the bounds proved below show that the
  64-bit and 128-bit integers of the code never overflow on the values that occur.
\<close>

section \<open>Model\<close>

type_synonym fe = "nat \<times> nat \<times> nat \<times> nat \<times> nat"

definition MASK :: nat where "MASK = 2 ^ 51 - 1"

definition P_limbs :: fe where "P_limbs = (MASK - 18, MASK, MASK, MASK, MASK)"

definition fe_one :: fe where "fe_one = (1, 0, 0, 0, 0)"

text \<open>Little-endian value of a byte string (\<open>u64::from_le_bytes\<close> on a zero-padded buffer).\<close>

fun le_nat :: "bytes \<Rightarrow> nat" where
  "le_nat [] = 0"
| "le_nat (b # bs) = unat b + 256 * le_nat bs"

definition fe_load :: "bytes \<Rightarrow> nat \<Rightarrow> nat" where
  "fe_load bs i = le_nat (take 8 (drop i bs))"

definition fe_from_bytes :: "bytes \<Rightarrow> fe" where
  "fe_from_bytes bs =
     (fe_load bs 0 mod 2 ^ 51,
      fe_load bs 6 div 2 ^ 3 mod 2 ^ 51,
      fe_load bs 12 div 2 ^ 6 mod 2 ^ 51,
      fe_load bs 19 div 2 ^ 1 mod 2 ^ 51,
      fe_load bs 24 div 2 ^ 12 mod 2 ^ 51)"

text \<open>One round of \<open>carry_wide\<close>: left to right, the carry out of the top limb re-enters times 19.\<close>

fun carry_round :: "fe \<Rightarrow> fe" where
  "carry_round (r0, r1, r2, r3, r4) =
     (let c0 = r0 div 2 ^ 51; r0 = r0 mod 2 ^ 51; r1 = r1 + c0;
          c1 = r1 div 2 ^ 51; r1 = r1 mod 2 ^ 51; r2 = r2 + c1;
          c2 = r2 div 2 ^ 51; r2 = r2 mod 2 ^ 51; r3 = r3 + c2;
          c3 = r3 div 2 ^ 51; r3 = r3 mod 2 ^ 51; r4 = r4 + c3;
          c4 = r4 div 2 ^ 51; r4 = r4 mod 2 ^ 51
      in (r0 + c4 * 19, r1, r2, r3, r4))"

definition carry_wide :: "fe \<Rightarrow> fe" where
  "carry_wide r = carry_round (carry_round r)"

fun fe_add :: "fe \<Rightarrow> fe \<Rightarrow> fe" where
  "fe_add (a0, a1, a2, a3, a4) (b0, b1, b2, b3, b4) =
     (a0 + b0, a1 + b1, a2 + b2, a3 + b3, a4 + b4)"

fun fe_sub :: "fe \<Rightarrow> fe \<Rightarrow> fe" where
  "fe_sub (a0, a1, a2, a3, a4) (b0, b1, b2, b3, b4) =
     (case P_limbs of (p0, p1, p2, p3, p4) \<Rightarrow>
       (a0 + 2 * p0 - b0, a1 + 2 * p1 - b1, a2 + 2 * p2 - b2, a3 + 2 * p3 - b3, a4 + 2 * p4 - b4))"

text \<open>The 128-bit column sums of the schoolbook product, before the carries.\<close>

fun fe_mul_wide :: "fe \<Rightarrow> fe \<Rightarrow> fe" where
  "fe_mul_wide (a0, a1, a2, a3, a4) (b0, b1, b2, b3, b4) =
     (a0 * b0 + a1 * (b4 * 19) + a2 * (b3 * 19) + a3 * (b2 * 19) + a4 * (b1 * 19),
      a0 * b1 + a1 * b0 + a2 * (b4 * 19) + a3 * (b3 * 19) + a4 * (b2 * 19),
      a0 * b2 + a1 * b1 + a2 * b0 + a3 * (b4 * 19) + a4 * (b3 * 19),
      a0 * b3 + a1 * b2 + a2 * b1 + a3 * b0 + a4 * (b4 * 19),
      a0 * b4 + a1 * b3 + a2 * b2 + a3 * b1 + a4 * b0)"

definition fe_mul :: "fe \<Rightarrow> fe \<Rightarrow> fe" where
  "fe_mul a b = carry_wide (fe_mul_wide a b)"

definition fe_square :: "fe \<Rightarrow> fe" where
  "fe_square a = fe_mul a a"

definition fe_sqn :: "fe \<Rightarrow> nat \<Rightarrow> fe" where
  "fe_sqn x k = (fe_square ^^ k) x"

definition fe_invert :: "fe \<Rightarrow> fe" where
  "fe_invert a =
     (let t0 = fe_square a;
          t1 = fe_sqn t0 2;
          t1 = fe_mul t1 a;
          t0 = fe_mul t0 t1;
          t2 = fe_square t0;
          t1 = fe_mul t1 t2;
          t2 = fe_sqn t1 5;
          t1 = fe_mul t2 t1;
          t2 = fe_sqn t1 10;
          t2 = fe_mul t2 t1;
          t3 = fe_sqn t2 20;
          t2 = fe_mul t3 t2;
          t2 = fe_sqn t2 10;
          t1 = fe_mul t2 t1;
          t2 = fe_sqn t1 50;
          t2 = fe_mul t2 t1;
          t3 = fe_sqn t2 100;
          t2 = fe_mul t3 t2;
          t2 = fe_sqn t2 50;
          t1 = fe_mul t2 t1;
          t1 = fe_sqn t1 5
      in fe_mul t1 t0)"

text \<open>
  \<open>to_bytes\<close>: carry, conditionally subtract \<open>p\<close> twice (limb by limb with a borrow), then pack five
  times 51 bits into 32 bytes.
\<close>

fun sub_borrow :: "nat \<Rightarrow> nat \<Rightarrow> int \<Rightarrow> int \<times> int" where
  "sub_borrow t p borrow =
     (let v = int t - int p - borrow; borrow' = (if v < 0 then 1 else 0)
      in (v + borrow' * 2 ^ 51, borrow'))"

fun sub_p :: "fe \<Rightarrow> (int \<times> int \<times> int \<times> int \<times> int) \<times> int" where
  "sub_p (t0, t1, t2, t3, t4) =
     (case P_limbs of (p0, p1, p2, p3, p4) \<Rightarrow>
        let (s0, borrow) = sub_borrow t0 p0 0; (s1, borrow) = sub_borrow t1 p1 borrow;
            (s2, borrow) = sub_borrow t2 p2 borrow; (s3, borrow) = sub_borrow t3 p3 borrow;
            (s4, borrow) = sub_borrow t4 p4 borrow
        in ((s0, s1, s2, s3, s4), borrow))"

definition freeze_round :: "fe \<Rightarrow> fe" where
  "freeze_round f =
     (let t = carry_wide f; ((s0, s1, s2, s3, s4), borrow) = sub_p t
      in if borrow = 0 then (nat s0, nat s1, nat s2, nat s3, nat s4) else t)"

fun pack_bytes :: "nat \<Rightarrow> nat \<Rightarrow> bytes \<Rightarrow> nat \<times> nat \<times> bytes" where
  "pack_bytes acc acc_bits out =
     (if 8 \<le> acc_bits \<and> length out < 32
      then pack_bytes (acc div 256) (acc_bits - 8) (out @ [of_nat acc]) else (acc, acc_bits, out))"

declare pack_bytes.simps [simp del]

fun pack_limbs :: "nat list \<Rightarrow> nat \<times> nat \<times> bytes \<Rightarrow> nat \<times> nat \<times> bytes" where
  "pack_limbs [] st = st"
| "pack_limbs (limb # ls) (acc, acc_bits, out) =
     pack_limbs ls (pack_bytes (or acc (limb * 2 ^ acc_bits)) (acc_bits + 51) out)"

definition fe_to_bytes :: "fe \<Rightarrow> bytes" where
  "fe_to_bytes f =
     (case freeze_round (freeze_round (carry_wide f)) of (t0, t1, t2, t3, t4) \<Rightarrow>
        case pack_limbs [t0, t1, t2, t3, t4] (0, 0, []) of (acc, acc_bits, out) \<Rightarrow>
          if length out < 32
          then (out @ [of_nat acc]) @ replicate (31 - length out) 0 else out)"

definition edwards_y_to_montgomery_u :: "bytes \<Rightarrow> bytes" where
  "edwards_y_to_montgomery_u ed_public =
     (let y = fe_from_bytes ed_public;
          num = fe_add y fe_one;
          den = fe_sub fe_one y;
          den_inv = fe_invert den;
          u = fe_mul num den_inv
      in fe_to_bytes u)"

section \<open>The value of a field element\<close>

definition p25519 :: nat where "p25519 = 2 ^ 255 - 19"

fun fe_val :: "fe \<Rightarrow> nat" where
  "fe_val (a0, a1, a2, a3, a4) =
     a0 + a1 * 2 ^ 51 + a2 * 2 ^ 102 + a3 * 2 ^ 153 + a4 * 2 ^ 204"

section \<open>Congruences: carries, products, inversion\<close>

lemma pow255: "(2 :: nat) ^ 255 = p25519 + 19"
  by (simp add: p25519_def)

lemma radix_powers:
  fixes m :: nat
  assumes "m = 2 ^ 51"
  shows "2 ^ 51 = m" "2 ^ 102 = m * m" "2 ^ 153 = m * m * m" "2 ^ 204 = m * m * m * m"
    "m * m * m * m * m = p25519 + 19"
  by (simp_all add: assms p25519_def)

lemma carry_identity:
  fixes m :: int
  assumes "r0 = a0 + m * q0" "r1 + q0 = a1 + m * q1" "r2 + q1 = a2 + m * q2"
    "r3 + q2 = a3 + m * q3" "r4 + q3 = a4 + m * q4"
    and P: "m * m * m * m * m = p + 19"
  shows "r0 + r1 * m + r2 * (m * m) + r3 * (m * m * m) + r4 * (m * m * m * m) =
    (a0 + q4 * 19) + a1 * m + a2 * (m * m) + a3 * (m * m * m) + a4 * (m * m * m * m) + q4 * p"
proof -
  have r: "r1 = a1 + m * q1 - q0" "r2 = a2 + m * q2 - q1" "r3 = a3 + m * q3 - q2" "r4 = a4 + m * q4 - q3"
    using assms by simp_all
  have p: "p = m * m * m * m * m - 19" using P by simp
  show ?thesis unfolding r p assms(1) by (simp add: algebra_simps)
qed

fun carry_out :: "fe \<Rightarrow> nat" where
  "carry_out (r0, r1, r2, r3, r4) =
     (r4 + (r3 + (r2 + (r1 + r0 div 2 ^ 51) div 2 ^ 51) div 2 ^ 51) div 2 ^ 51) div 2 ^ 51"

lemma carry_round_eq:
  "fe_val r = fe_val (carry_round r) + carry_out r * p25519"
proof (cases r)
  case (fields r0 r1 r2 r3 r4)
  define m :: nat where "m = 2 ^ 51"
  note p = radix_powers [OF m_def]
  define s1 where "s1 = r1 + r0 div m"
  define s2 where "s2 = r2 + s1 div m"
  define s3 where "s3 = r3 + s2 div m"
  define s4 where "s4 = r4 + s3 div m"
  have c: "carry_round r = (r0 mod m + s4 div m * 19, s1 mod m, s2 mod m, s3 mod m, s4 mod m)"
      "carry_out r = s4 div m"
    by (simp_all only: fields carry_round.simps carry_out.simps Let_def s1_def s2_def s3_def s4_def p)
  have d: "int x = int (x mod m) + int m * int (x div m)" for x
    by (simp flip: of_nat_mult of_nat_add)
  have "int (fe_val r) = int (fe_val (carry_round r) + carry_out r * p25519)"
    unfolding c unfolding fields fe_val.simps p of_nat_add of_nat_mult of_nat_numeral
  proof (rule carry_identity)
    show "int r0 = int (r0 mod m) + int m * int (r0 div m)" by (rule d)
    show "int r1 + int (r0 div m) = int (s1 mod m) + int m * int (s1 div m)"
      using d [of s1] by (simp add: s1_def)
    show "int r2 + int (s1 div m) = int (s2 mod m) + int m * int (s2 div m)"
      using d [of s2] by (simp add: s2_def)
    show "int r3 + int (s2 div m) = int (s3 mod m) + int m * int (s3 div m)"
      using d [of s3] by (simp add: s3_def)
    show "int r4 + int (s3 div m) = int (s4 mod m) + int m * int (s4 div m)"
      using d [of s4] by (simp add: s4_def)
    show "int m * int m * int m * int m * int m = int p25519 + 19"
      using p(5) by (metis of_nat_add of_nat_mult of_nat_numeral)
  qed
  thus ?thesis by linarith
qed

lemma carry_wide_mod: "fe_val (carry_wide r) mod p25519 = fe_val r mod p25519"
  by (metis carry_round_eq carry_wide_def mod_mult_self1)

lemma mul_identity:
  fixes m :: nat
  assumes P: "m * m * m * m * m = p + 19"
  shows "(a0 + a1 * m + a2 * (m * m) + a3 * (m * m * m) + a4 * (m * m * m * m)) *
    (b0 + b1 * m + b2 * (m * m) + b3 * (m * m * m) + b4 * (m * m * m * m)) =
    ((a0 * b0 + a1 * (b4 * 19) + a2 * (b3 * 19) + a3 * (b2 * 19) + a4 * (b1 * 19)) +
     (a0 * b1 + a1 * b0 + a2 * (b4 * 19) + a3 * (b3 * 19) + a4 * (b2 * 19)) * m +
     (a0 * b2 + a1 * b1 + a2 * b0 + a3 * (b4 * 19) + a4 * (b3 * 19)) * (m * m) +
     (a0 * b3 + a1 * b2 + a2 * b1 + a3 * b0 + a4 * (b4 * 19)) * (m * m * m) +
     (a0 * b4 + a1 * b3 + a2 * b2 + a3 * b1 + a4 * b0) * (m * m * m * m)) +
     ((a1 * b4 + a2 * b3 + a3 * b2 + a4 * b1) + (a2 * b4 + a3 * b3 + a4 * b2) * m +
      (a3 * b4 + a4 * b3) * (m * m) + a4 * b4 * (m * m * m)) * p"
proof -
  have p: "int p = int (m * m * m * m * m) - 19" using P by simp
  show ?thesis
    unfolding of_nat_eq_iff [where 'a = int, symmetric] of_nat_add of_nat_mult of_nat_numeral p
    by (simp add: algebra_simps)
qed

lemma fe_mul_mod: "fe_val (fe_mul a b) mod p25519 = fe_val a * fe_val b mod p25519"
proof (cases a; cases b)
  fix a0 a1 a2 a3 a4 b0 b1 b2 b3 b4
  assume ab: "a = (a0, a1, a2, a3, a4)" "b = (b0, b1, b2, b3, b4)"
  define m :: nat where "m = 2 ^ 51"
  note p = radix_powers [OF m_def]
  show ?thesis
    unfolding ab fe_mul_def fe_mul_wide.simps carry_wide_mod fe_val.simps p mul_identity [OF p(5)] mod_mult_self1 ..
qed

definition fe_pow :: "nat \<Rightarrow> fe \<Rightarrow> nat \<Rightarrow> bool" where
  "fe_pow x f e \<longleftrightarrow> fe_val f mod p25519 = x ^ e mod p25519"

lemma fe_pow_mul: "fe_pow x f e \<Longrightarrow> fe_pow x g e' \<Longrightarrow> fe_pow x (fe_mul f g) (e + e')"
  unfolding fe_pow_def fe_mul_mod power_add by (rule mod_mult_cong)

lemma fe_pow_square: "fe_pow x f e \<Longrightarrow> fe_pow x (fe_square f) (2 * e)"
  unfolding fe_square_def mult_2 by (rule fe_pow_mul)

lemma fe_pow_sqn: "fe_pow x f e \<Longrightarrow> fe_pow x (fe_sqn f k) (2 ^ k * e)"
  unfolding fe_sqn_def by (induction k) (auto dest: fe_pow_square simp: mult.assoc)

lemmas fe_pow_intros = fe_pow_mul fe_pow_square fe_pow_sqn

lemma fe_pow_cong: "fe_pow x f e \<Longrightarrow> e = e' \<Longrightarrow> fe_pow x f e'"
  by simp

lemma fe_pow_Let:
  "fe_pow x t e \<Longrightarrow> (\<And>s. fe_pow x s e \<Longrightarrow> fe_pow x (g s) e') \<Longrightarrow> fe_pow x (let s = t in g s) e'"
  by simp

lemma fe_invert_pow: "fe_pow (fe_val a) (fe_invert a) (p25519 - 2)"
proof -
  have a: "fe_pow (fe_val a) a 1" by (simp add: fe_pow_def)
  show ?thesis
    unfolding fe_invert_def
    by (rule fe_pow_cong, (rule fe_pow_Let fe_pow_intros a | assumption)+) (simp add: p25519_def)
qed

lemma le_nat_append: "le_nat (xs @ ys) = le_nat xs + 256 ^ length xs * le_nat ys"
  by (induction xs) (simp_all add: algebra_simps)

lemma le_nat_less: "le_nat xs < 256 ^ length xs"
proof (induction xs)
  case (Cons x xs)
  have "unat x < 256" using unsigned_less [of x] by simp
  thus ?case using Cons by simp
qed simp

lemma le_nat_drop: "le_nat (drop i xs) = le_nat xs div 256 ^ i"
proof (induction i arbitrary: xs)
  case (Suc i)
  show ?case
  proof (cases xs)
    case (Cons x ys)
    have "unat x < 256" using unsigned_less [of x] by simp
    hence "(unat x + 256 * le_nat ys) div 256 = le_nat ys" by simp
    thus ?thesis using Suc [of ys] Cons by (simp add: div_mult2_eq)
  qed simp
qed simp

lemma le_nat_take: "le_nat (take i xs) = le_nat xs mod 256 ^ i"
proof (cases "i \<le> length xs")
  case True
  have "le_nat xs = le_nat (take i xs) + 256 ^ i * le_nat (drop i xs)"
    using le_nat_append [of "take i xs" "drop i xs"] True by simp
  moreover have "le_nat (take i xs) < 256 ^ i"
    using le_nat_less [of "take i xs"] True by simp
  ultimately show ?thesis by simp
next
  case False
  have "le_nat xs < 256 ^ i"
    using le_nat_less [of xs] power_increasing [of "length xs" i "256 :: nat"] False by linarith
  thus ?thesis using False by simp
qed

lemma fe_load_eq: "fe_load bs i = le_nat bs div 256 ^ i mod 2 ^ 64"
  by (simp add: fe_load_def le_nat_take le_nat_drop)

lemma window_bits: "k + 51 \<le> 64 \<Longrightarrow> (n mod 2 ^ 64) div 2 ^ k mod 2 ^ 51 = n div 2 ^ k mod 2 ^ 51" for n :: nat
  unfolding drop_bit_eq_div [symmetric] take_bit_eq_mod [symmetric]
  by (rule bit_eqI) (auto simp: bit_simps)

lemma fe_load_window:
  assumes "k + 51 \<le> 64"
  shows "fe_load bs i div 2 ^ k mod 2 ^ 51 = le_nat bs div 2 ^ (8 * i + k) mod 2 ^ 51"
proof -
  have "(256 :: nat) ^ i = 2 ^ (8 * i)" by (simp add: power_mult)
  thus ?thesis
    unfolding fe_load_eq window_bits [OF assms] power_add div_mult2_eq by simp
qed

lemma radix_split: "n mod 2 ^ (k + 51) = n mod 2 ^ k + n div 2 ^ k mod 2 ^ 51 * 2 ^ k" for n :: nat
  unfolding power_add mod_mult2_eq by simp

lemma fe_from_bytes_val: "fe_val (fe_from_bytes bs) = le_nat bs mod 2 ^ 255"
proof -
  define n where "n = le_nat bs"
  have l: "fe_from_bytes bs = (n mod 2 ^ 51, n div 2 ^ 51 mod 2 ^ 51, n div 2 ^ 102 mod 2 ^ 51,
      n div 2 ^ 153 mod 2 ^ 51, n div 2 ^ 204 mod 2 ^ 51)"
    using fe_load_window [of 0 bs 0] fe_load_window [of 3 bs 6] fe_load_window [of 6 bs 12]
      fe_load_window [of 1 bs 19] fe_load_window [of 12 bs 24]
    by (simp add: fe_from_bytes_def n_def del: power_numeral)
  have s: "n mod 2 ^ 102 = n mod 2 ^ 51 + n div 2 ^ 51 mod 2 ^ 51 * 2 ^ 51"
    "n mod 2 ^ 153 = n mod 2 ^ 102 + n div 2 ^ 102 mod 2 ^ 51 * 2 ^ 102"
    "n mod 2 ^ 204 = n mod 2 ^ 153 + n div 2 ^ 153 mod 2 ^ 51 * 2 ^ 153"
    "n mod 2 ^ 255 = n mod 2 ^ 204 + n div 2 ^ 204 mod 2 ^ 51 * 2 ^ 204"
    using radix_split [of n 51] radix_split [of n 102] radix_split [of n 153] radix_split [of n 204]
    by (simp_all del: power_numeral)
  show ?thesis
    unfolding l fe_val.simps n_def [symmetric] s ..
qed

section \<open>Normal forms and the canonical encoding\<close>

fun fe_limbs_lt :: "nat \<Rightarrow> fe \<Rightarrow> bool" where
  "fe_limbs_lt B (a0, a1, a2, a3, a4) \<longleftrightarrow> a0 < B \<and> a1 < B \<and> a2 < B \<and> a3 < B \<and> a4 < B"

lemma fe_val_less:
  assumes "fe_limbs_lt (2 ^ 51) f"
  shows "fe_val f < 2 ^ 255"
proof (cases f)
  case (fields a0 a1 a2 a3 a4)
  show ?thesis using assms unfolding fields by simp
qed

lemma fe_val_bound:
  assumes "fe_limbs_lt (2 ^ k) f"
  shows "fe_val f < 2 ^ (k + 205)"
proof (cases f)
  case (fields a0 a1 a2 a3 a4)
  define B :: nat where "B = 2 ^ k"
  have b: "a0 < B" "a1 < B" "a2 < B" "a3 < B" "a4 < B" using assms by (simp_all add: fields B_def)
  have "fe_val f < B * 2 ^ 205" using b unfolding fields by simp
  thus ?thesis by (simp add: B_def power_add)
qed

lemma carry_round_shape:
  obtains a0 a1 a2 a3 a4 where
    "fe_limbs_lt (2 ^ 51) (a0, a1, a2, a3, a4)"
    "fe_val (a0, a1, a2, a3, a4) = fe_val r mod 2 ^ 255"
    "carry_round r = (a0 + 19 * (fe_val r div 2 ^ 255), a1, a2, a3, a4)"
proof -
  obtain r0 r1 r2 r3 r4 where r: "r = (r0, r1, r2, r3, r4)" by (cases r)
  obtain a0 a1 a2 a3 a4 where
    c: "carry_round r = (a0 + carry_out r * 19, a1, a2, a3, a4)" and
    n: "fe_limbs_lt (2 ^ 51) (a0, a1, a2, a3, a4)"
    by (rule that [of "r0 mod 2 ^ 51"]) (simp_all only: r carry_round.simps carry_out.simps Let_def fe_limbs_lt.simps, simp_all)
  have "fe_val r = fe_val (a0, a1, a2, a3, a4) + carry_out r * 2 ^ 255"
    unfolding pow255 carry_round_eq [of r] c by (simp add: algebra_simps)
  moreover have "fe_val (a0, a1, a2, a3, a4) < 2 ^ 255" by (rule fe_val_less [OF n])
  ultimately have "carry_out r = fe_val r div 2 ^ 255" "fe_val (a0, a1, a2, a3, a4) = fe_val r mod 2 ^ 255"
    by simp_all
  thus thesis using that [OF n] c by (simp add: mult.commute)
qed

lemma carry_round_val: "fe_val (carry_round r) = fe_val r mod 2 ^ 255 + 19 * (fe_val r div 2 ^ 255)"
  by (rule carry_round_shape [of r]) simp

lemma carry_round_norm:
  assumes "fe_val r < 2 ^ 255 + 2 ^ 50"
  shows "fe_limbs_lt (2 ^ 51) (carry_round r)"
proof (rule carry_round_shape [of r])
  fix a0 a1 a2 a3 a4
  assume n: "fe_limbs_lt (2 ^ 51) (a0, a1, a2, a3, a4)"
    and v: "fe_val (a0, a1, a2, a3, a4) = fe_val r mod 2 ^ 255"
    and c: "carry_round r = (a0 + 19 * (fe_val r div 2 ^ 255), a1, a2, a3, a4)"
  show ?thesis
  proof (cases "fe_val r < 2 ^ 255")
    case True
    thus ?thesis using n by (simp add: c)
  next
    case False
    hence d: "fe_val r div 2 ^ 255 = 1" using assms by simp
    hence "fe_val r mod 2 ^ 255 < 2 ^ 50"
      using assms div_mult_mod_eq [of "fe_val r" "2 ^ 255"] by simp
    moreover note d
    moreover have "a0 \<le> fe_val (a0, a1, a2, a3, a4)" by simp
    ultimately show ?thesis using n v by (simp add: c)
  qed
qed

lemma carry_round_small:
  assumes "fe_val r < 2 ^ 275"
  shows "fe_val (carry_round r) < 2 ^ 255 + 2 ^ 50"
proof -
  have "fe_val r div 2 ^ 255 < 2 ^ 20" using assms by (simp add: less_mult_imp_div_less)
  moreover have "fe_val r mod 2 ^ 255 < 2 ^ 255" by simp
  ultimately show ?thesis unfolding carry_round_val by simp
qed

lemma carry_wide_norm:
  "fe_val r < 2 ^ 275 \<Longrightarrow> fe_limbs_lt (2 ^ 51) (carry_wide r)"
  unfolding carry_wide_def by (intro carry_round_norm carry_round_small)

lemma sub_borrow_spec:
  assumes "sub_borrow t p b = (s, b')" "t < 2 ^ 51" "p < 2 ^ 51" "b = 0 \<or> b = 1"
  shows "int t - int p - b = s - b' * 2 ^ 51" "0 \<le> s" "s < 2 ^ 51" "b' = 0 \<or> b' = 1"
  using assms by (auto simp: Let_def split: if_splits)

lemma P_limbs_eq:
  "P_limbs = (2251799813685229, 2251799813685247, 2251799813685247, 2251799813685247, 2251799813685247)"
  by (simp add: P_limbs_def MASK_def)

lemma P_limbs_val: "fe_val P_limbs = p25519"
  by (simp add: P_limbs_eq p25519_def)

lemma borrow_identity:
  fixes m :: int
  assumes "t0 - p0 - 0 = s0 - b0 * m" "t1 - p1 - b0 = s1 - b1 * m" "t2 - p2 - b1 = s2 - b2 * m"
    "t3 - p3 - b2 = s3 - b3 * m" "t4 - p4 - b3 = s4 - b4 * m"
  shows "t0 + t1 * m + t2 * (m * m) + t3 * (m * m * m) + t4 * (m * m * m * m) -
      (p0 + p1 * m + p2 * (m * m) + p3 * (m * m * m) + p4 * (m * m * m * m)) =
    s0 + s1 * m + s2 * (m * m) + s3 * (m * m * m) + s4 * (m * m * m * m) - b4 * (m * m * m * m * m)"
proof -
  have t: "t0 = p0 + s0 - b0 * m" "t1 = p1 + b0 + s1 - b1 * m" "t2 = p2 + b1 + s2 - b2 * m"
    "t3 = p3 + b2 + s3 - b3 * m" "t4 = p4 + b3 + s4 - b4 * m"
    using assms by simp_all
  show ?thesis unfolding t by (simp add: algebra_simps)
qed

lemma sub_p_spec:
  assumes t: "fe_limbs_lt (2 ^ 51) t" and sub: "sub_p t = ((s0, s1, s2, s3, s4), b)"
  shows "0 \<le> s0 \<and> s0 < 2 ^ 51 \<and> 0 \<le> s1 \<and> s1 < 2 ^ 51 \<and> 0 \<le> s2 \<and> s2 < 2 ^ 51 \<and>
      0 \<le> s3 \<and> s3 < 2 ^ 51 \<and> 0 \<le> s4 \<and> s4 < 2 ^ 51" (is ?bounds)
    and "b = 0 \<or> b = 1" (is ?borrow)
    and "int (fe_val t) - int p25519 =
      s0 + s1 * 2 ^ 51 + s2 * 2 ^ 102 + s3 * 2 ^ 153 + s4 * 2 ^ 204 - b * 2 ^ 255" (is ?val)
proof -
  obtain t0 t1 t2 t3 t4 where tt: "t = (t0, t1, t2, t3, t4)" by (cases t)
  obtain p0 p1 p2 p3 p4 where p: "P_limbs = (p0, p1, p2, p3, p4)" by (cases P_limbs)
  have nt: "t0 < 2 ^ 51" "t1 < 2 ^ 51" "t2 < 2 ^ 51" "t3 < 2 ^ 51" "t4 < 2 ^ 51"
    using t by (simp_all add: tt)
  have np: "p0 < 2 ^ 51" "p1 < 2 ^ 51" "p2 < 2 ^ 51" "p3 < 2 ^ 51" "p4 < 2 ^ 51"
    using p by (auto simp: P_limbs_eq)
  obtain b0 b1 b2 b3 where s: "sub_borrow t0 p0 0 = (s0, b0)" "sub_borrow t1 p1 b0 = (s1, b1)"
      "sub_borrow t2 p2 b1 = (s2, b2)" "sub_borrow t3 p3 b2 = (s3, b3)" "sub_borrow t4 p4 b3 = (s4, b)"
    using sub by (auto simp only: tt sub_p.simps p prod.case Let_def split: prod.splits)
  note S0 = sub_borrow_spec [OF s(1) nt(1) np(1) disjI1 [OF refl]]
  note S1 = sub_borrow_spec [OF s(2) nt(2) np(2) S0(4)]
  note S2 = sub_borrow_spec [OF s(3) nt(3) np(3) S1(4)]
  note S3 = sub_borrow_spec [OF s(4) nt(4) np(4) S2(4)]
  note S4 = sub_borrow_spec [OF s(5) nt(5) np(5) S3(4)]
  show ?bounds ?borrow using S0 S1 S2 S3 S4 by blast+
  have pv: "int p25519 = int (fe_val (p0, p1, p2, p3, p4))" using P_limbs_val p by simp
  show ?val
    unfolding pv tt fe_val.simps of_nat_add of_nat_mult of_nat_power of_nat_numeral
    using borrow_identity [OF S0(1) S1(1) S2(1) S3(1) S4(1)] by simp
qed

lemma freeze_round_spec:
  assumes "fe_val f < 2 ^ 275"
  shows "fe_limbs_lt (2 ^ 51) (freeze_round f)"
    "fe_val (freeze_round f) = fe_val f mod p25519"
proof -
  define t where "t = carry_wide f"
  obtain s0 s1 s2 s3 s4 b where s: "sub_p t = ((s0, s1, s2, s3, s4), b)" by (metis prod.exhaust)
  have nt: "fe_limbs_lt (2 ^ 51) t" unfolding t_def by (rule carry_wide_norm [OF assms])
  note S = sub_p_spec [OF nt s]
  have V: "fe_val t < 2 ^ 255" by (rule fe_val_less [OF nt])
  have fr: "freeze_round f = (if b = 0 then (nat s0, nat s1, nat s2, nat s3, nat s4) else t)"
    by (simp add: freeze_round_def Let_def t_def [symmetric] s)
  show "fe_limbs_lt (2 ^ 51) (freeze_round f)"
    using nt S(1) by (simp add: fr nat_less_iff)
  have vm: "fe_val t mod p25519 = fe_val f mod p25519" by (simp only: t_def carry_wide_mod)
  show "fe_val (freeze_round f) = fe_val f mod p25519"
  proof (cases "b = 0")
    case True
    hence F: "int (fe_val (freeze_round f)) = int (fe_val t) - int p25519"
      using S(1,3) by (simp add: fr)
    have "fe_val (freeze_round f) < p25519" using F V by (simp add: p25519_def)
    moreover have "fe_val t = fe_val (freeze_round f) + p25519" using F by linarith
    ultimately show ?thesis using vm by simp
  next
    case False
    hence "b = 1" using S(2) by simp
    hence "fe_val t < p25519" using S(1,3) by simp
    thus ?thesis using vm False by (simp add: fr)
  qed
qed

lemma or_shifted: "x < 2 ^ k \<Longrightarrow> or x (y * 2 ^ k) = x + y * 2 ^ k" for x y :: nat
proof -
  assume x: "x < 2 ^ k"
  have "and x (push_bit k y) = 0"
  proof (rule bit_eqI)
    fix n
    have "\<not> bit x n" if "k \<le> n"
      using x that by (metis bit_take_bit_iff linorder_not_less take_bit_nat_eq_self)
    thus "bit (and x (push_bit k y)) n = bit 0 n" by (auto simp: bit_simps)
  qed
  thus ?thesis by (simp add: push_bit_eq_mult disjunctive_add_eq_or)
qed

fun pack_inv :: "nat \<Rightarrow> nat \<Rightarrow> nat \<times> nat \<times> bytes \<Rightarrow> bool" where
  "pack_inv n k (acc, acc_bits, out) \<longleftrightarrow>
     le_nat out + 256 ^ length out * acc = n \<and> 8 * length out + acc_bits = k \<and> acc < 2 ^ acc_bits"

lemma pack_bytes_inv:
  "pack_inv n k (acc, acc_bits, out) \<Longrightarrow> pack_inv n k (pack_bytes acc acc_bits out)"
proof (induction acc acc_bits out rule: pack_bytes.induct)
  case (1 acc acc_bits out)
  show ?case
  proof (cases "8 \<le> acc_bits \<and> length out < 32")
    case True
    have u: "unat (of_nat acc :: u8) = acc mod 256" by (simp add: unat_of_nat)
    have "256 ^ length out * acc =
        256 ^ length out * (acc mod 256) + 256 ^ length out * (256 * (acc div 256))"
      by (metis distrib_left mod_mult_div_eq)
    hence "le_nat (out @ [of_nat acc]) + 256 ^ length (out @ [of_nat acc :: u8]) * (acc div 256) = n"
      using 1(2) by (simp add: le_nat_append u mult.assoc mult.left_commute)
    moreover have "acc div 256 < 2 ^ (acc_bits - 8)"
    proof -
      have "(2 :: nat) ^ acc_bits = 2 ^ (acc_bits - 8) * 256"
        using True power_add [of "2 :: nat" "acc_bits - 8" 8] by simp
      thus ?thesis using 1(2) by (simp add: less_mult_imp_div_less)
    qed
    ultimately have "pack_inv n k (acc div 256, acc_bits - 8, out @ [of_nat acc])"
      using True 1(2) by auto
    from 1(1) [OF True this] show ?thesis by (subst pack_bytes.simps) (simp only: True if_True simp_thms)
  next
    case False
    thus ?thesis using 1(2) by (subst pack_bytes.simps) auto
  qed
qed

lemma pack_bytes_done:
  "pack_bytes acc acc_bits out = (acc', acc_bits', out') \<Longrightarrow> acc_bits' < 8 \<or> 32 \<le> length out'"
proof (induction acc acc_bits out rule: pack_bytes.induct)
  case (1 acc acc_bits out)
  thus ?case by (cases "8 \<le> acc_bits \<and> length out < 32") (auto simp: pack_bytes.simps [of acc])
qed

lemma pack_limb_inv:
  assumes "pack_inv n k (acc, acc_bits, out)" "limb < 2 ^ 51"
  shows "pack_inv (n + limb * 2 ^ k) (k + 51) (pack_bytes (or acc (limb * 2 ^ acc_bits)) (acc_bits + 51) out)"
proof (rule pack_bytes_inv)
  have a: "acc < 2 ^ acc_bits" using assms(1) by simp
  have "acc + limb * 2 ^ acc_bits < 2 ^ (acc_bits + 51)"
  proof -
    have "(limb + 1) * 2 ^ acc_bits \<le> 2 ^ 51 * 2 ^ acc_bits"
      using assms(2) by (intro mult_right_mono) simp_all
    moreover have "(limb + 1) * 2 ^ acc_bits = limb * 2 ^ acc_bits + 2 ^ acc_bits" by simp
    moreover have "(2 :: nat) ^ (acc_bits + 51) = 2 ^ 51 * 2 ^ acc_bits" by (simp only: power_add mult.commute)
    ultimately show ?thesis using a by linarith
  qed
  moreover have "(256 :: nat) ^ length out * 2 ^ acc_bits = 2 ^ k"
    using assms(1) by (auto simp: power_add power_mult)
  hence "256 ^ length out * (limb * 2 ^ acc_bits) = limb * 2 ^ k"
    by (metis mult.left_commute)
  ultimately show "pack_inv (n + limb * 2 ^ k) (k + 51) (or acc (limb * 2 ^ acc_bits), acc_bits + 51, out)"
    using assms(1) by (auto simp: or_shifted [OF a] distrib_left)
qed

fun limb_sum :: "nat \<Rightarrow> nat list \<Rightarrow> nat" where
  "limb_sum k [] = 0"
| "limb_sum k (l # ls) = l * 2 ^ k + limb_sum (k + 51) ls"

lemma pack_limbs_inv:
  "pack_inv n k st \<Longrightarrow> \<forall>l \<in> set ls. l < 2 ^ 51 \<Longrightarrow>
     pack_inv (n + limb_sum k ls) (k + 51 * length ls) (pack_limbs ls st)"
proof (induction ls st arbitrary: n k rule: pack_limbs.induct)
  case (2 limb ls acc acc_bits out)
  from pack_limb_inv [OF 2(2)] 2(3)
  have "pack_inv (n + limb * 2 ^ k) (k + 51) (pack_bytes (or acc (limb * 2 ^ acc_bits)) (acc_bits + 51) out)" by simp
  from 2(1) [OF this] 2(3) show ?case by (simp add: add.assoc)
qed simp

lemma pack_limbs_done:
  "ls \<noteq> [] \<Longrightarrow> pack_limbs ls st = (acc', acc_bits', out') \<Longrightarrow> acc_bits' < 8 \<or> 32 \<le> length out'"
proof (induction ls st rule: pack_limbs.induct)
  case (2 limb ls acc acc_bits out)
  thus ?case by (cases ls) (auto dest: pack_bytes_done)
qed simp

lemma freeze_spec:
  assumes "fe_limbs_lt (2 ^ 64) f"
  shows "fe_limbs_lt (2 ^ 51) (freeze_round (freeze_round (carry_wide f)))"
    "fe_val (freeze_round (freeze_round (carry_wide f))) = fe_val f mod p25519"
proof -
  have "fe_val f < 2 ^ 275" using fe_val_bound [OF assms] by simp
  hence "fe_val (carry_wide f) < 2 ^ 255" by (intro fe_val_less carry_wide_norm)
  hence c: "fe_val (carry_wide f) < 2 ^ 275" by simp
  have c': "fe_val (freeze_round (carry_wide f)) < 2 ^ 275"
    using fe_val_less [OF freeze_round_spec(1) [OF c]] by simp
  show "fe_limbs_lt (2 ^ 51) (freeze_round (freeze_round (carry_wide f)))"
    "fe_val (freeze_round (freeze_round (carry_wide f))) = fe_val f mod p25519"
    using freeze_round_spec [OF c'] freeze_round_spec(2) [OF c] carry_wide_mod [of f]
    by (simp_all only: mod_mod_trivial)
qed

lemma fe_to_bytes_val:
  assumes "fe_limbs_lt (2 ^ 64) f"
  shows "length (fe_to_bytes f) = 32" "le_nat (fe_to_bytes f) = fe_val f mod p25519"
proof -
  define g where "g = freeze_round (freeze_round (carry_wide f))"
  obtain t0 t1 t2 t3 t4 where t: "g = (t0, t1, t2, t3, t4)" by (cases g)
  obtain acc acc_bits out where pk: "pack_limbs [t0, t1, t2, t3, t4] (0, 0, []) = (acc, acc_bits, out)"
    by (metis prod.exhaust)
  have g: "fe_limbs_lt (2 ^ 51) g" "fe_val g = fe_val f mod p25519"
    unfolding g_def by (rule freeze_spec [OF assms])+
  have "pack_inv (limb_sum 0 [t0, t1, t2, t3, t4]) 255 (acc, acc_bits, out)"
    using pack_limbs_inv [of 0 0 "(0, 0, [])" "[t0, t1, t2, t3, t4]"] g(1) unfolding pk t by simp
  hence inv: "pack_inv (fe_val g) 255 (acc, acc_bits, out)"
    by (simp add: t)
  have "acc_bits < 8 \<or> 32 \<le> length out" using pack_limbs_done [OF _ pk] by simp
  moreover have "8 * length out + acc_bits = 255" using inv by simp
  ultimately have l: "length out = 31" "acc_bits = 7" by presburger+
  have b: "fe_to_bytes f = out @ [of_nat acc]"
    by (simp add: fe_to_bytes_def g_def [symmetric] t pk [simplified] l)
  show "length (fe_to_bytes f) = 32" by (simp add: b l)
  have "unat (of_nat acc :: u8) = acc" using inv l by (simp add: unat_of_nat_small)
  thus "le_nat (fe_to_bytes f) = fe_val f mod p25519"
    using inv by (simp add: b le_nat_append flip: g(2))
qed

section \<open>Bounds and properties\<close>

lemma fe_limbs_lt_mono: "fe_limbs_lt B f \<Longrightarrow> B \<le> C \<Longrightarrow> fe_limbs_lt C f"
  by (cases f) auto

lemma carry_wide_bound:
  assumes "fe_val r < 2 ^ 320"
  shows "fe_limbs_lt (2 ^ 52) (carry_wide r)"
proof (rule carry_round_shape [of "carry_round r"])
  fix a0 a1 a2 a3 a4
  assume n: "fe_limbs_lt (2 ^ 51) (a0, a1, a2, a3, a4)"
    and c: "carry_round (carry_round r) =
      (a0 + 19 * (fe_val (carry_round r) div 2 ^ 255), a1, a2, a3, a4)"
  have "fe_val r div 2 ^ 255 < 2 ^ 65" using assms by (simp add: less_mult_imp_div_less)
  moreover have "fe_val r mod 2 ^ 255 < 2 ^ 255" by simp
  ultimately have "fe_val (carry_round r) < 2 * 2 ^ 255" unfolding carry_round_val by simp
  hence "fe_val (carry_round r) div 2 ^ 255 < 2" by (simp add: less_mult_imp_div_less)
  thus ?thesis using n by (simp add: carry_wide_def c)
qed

lemma mult_bound: "a < A \<Longrightarrow> b < B \<Longrightarrow> a * b \<le> A * B" for a b A B :: nat
  by (simp add: mult_le_mono)

lemma fe_mul_wide_bound:
  assumes "fe_limbs_lt (2 ^ 54) a" "fe_limbs_lt (2 ^ 54) b"
  shows "fe_limbs_lt (2 ^ 115) (fe_mul_wide a b)"
proof (cases a; cases b)
  fix a0 a1 a2 a3 a4 b0 b1 b2 b3 b4
  assume ab: "a = (a0, a1, a2, a3, a4)" "b = (b0, b1, b2, b3, b4)"
  have A: "\<And>x. x \<in> {a0, a1, a2, a3, a4} \<Longrightarrow> x < 2 ^ 54" and B: "\<And>y. y \<in> {b0, b1, b2, b3, b4} \<Longrightarrow> y < 2 ^ 54"
    using assms by (auto simp: ab)
  have M: "x * y \<le> 2 ^ 108" if "x \<in> {a0, a1, a2, a3, a4}" "y \<in> {b0, b1, b2, b3, b4}" for x y
    using mult_bound [OF A [OF that(1)] B [OF that(2)]] by simp
  show ?thesis
    unfolding ab fe_mul_wide.simps fe_limbs_lt.simps
    using M [of a0 b0] M [of a0 b1] M [of a0 b2] M [of a0 b3] M [of a0 b4]
      M [of a1 b0] M [of a1 b1] M [of a1 b2] M [of a1 b3] M [of a1 b4]
      M [of a2 b0] M [of a2 b1] M [of a2 b2] M [of a2 b3] M [of a2 b4]
      M [of a3 b0] M [of a3 b1] M [of a3 b2] M [of a3 b3] M [of a3 b4]
      M [of a4 b0] M [of a4 b1] M [of a4 b2] M [of a4 b3] M [of a4 b4]
    by simp
qed

lemma fe_mul_bound:
  assumes "fe_limbs_lt (2 ^ 54) a" "fe_limbs_lt (2 ^ 54) b"
  shows "fe_limbs_lt (2 ^ 52) (fe_mul a b)"
  unfolding fe_mul_def
  using fe_val_bound [OF fe_mul_wide_bound [OF assms]] by (intro carry_wide_bound) simp

lemma fe_mul_bound':
  "fe_limbs_lt (2 ^ 54) a \<Longrightarrow> fe_limbs_lt (2 ^ 54) b \<Longrightarrow> fe_limbs_lt (2 ^ 54) (fe_mul a b)"
  by (rule fe_limbs_lt_mono [OF fe_mul_bound]) simp_all

lemma fe_square_bound: "fe_limbs_lt (2 ^ 54) a \<Longrightarrow> fe_limbs_lt (2 ^ 54) (fe_square a)"
  unfolding fe_square_def by (rule fe_mul_bound')

lemma fe_sqn_bound: "fe_limbs_lt (2 ^ 54) a \<Longrightarrow> fe_limbs_lt (2 ^ 54) (fe_sqn a k)"
  unfolding fe_sqn_def by (induction k) (auto intro: fe_square_bound simp del: power_numeral)

lemma fe_bound_Let:
  "fe_limbs_lt B t \<Longrightarrow> (\<And>s. fe_limbs_lt B s \<Longrightarrow> fe_limbs_lt B (g s)) \<Longrightarrow> fe_limbs_lt B (let s = t in g s)"
  by simp

lemma fe_invert_bound:
  assumes a: "fe_limbs_lt (2 ^ 54) a"
  shows "fe_limbs_lt (2 ^ 54) (fe_invert a)"
  unfolding fe_invert_def
  by (rule fe_bound_Let fe_square_bound fe_sqn_bound fe_mul_bound' a | assumption)+

lemma fe_add_val: "fe_val (fe_add a b) = fe_val a + fe_val b"
  by (cases a; cases b) simp

lemma sub_limb: "b \<le> a + k \<Longrightarrow> (a + k - b) * m + b * m = a * m + k * m" for a b k m :: nat
  by (simp flip: distrib_right)

lemma fe_sub_val:
  assumes "fe_limbs_lt (2 ^ 51) b"
  shows "fe_val (fe_sub a b) + fe_val b = fe_val a + 2 * p25519"
proof (cases a; cases b)
  fix a0 a1 a2 a3 a4 b0 b1 b2 b3 b4
  assume ab: "a = (a0, a1, a2, a3, a4)" "b = (b0, b1, b2, b3, b4)"
  have "b0 \<le> a0 + 2 * 2251799813685229" "b1 \<le> a1 + 2 * 2251799813685247" "b2 \<le> a2 + 2 * 2251799813685247"
    "b3 \<le> a3 + 2 * 2251799813685247" "b4 \<le> a4 + 2 * 2251799813685247"
    using assms by (simp_all add: ab)
  note e = sub_limb [OF this(1), of 1] sub_limb [OF this(2), of "2 ^ 51"] sub_limb [OF this(3), of "2 ^ 102"]
    sub_limb [OF this(4), of "2 ^ 153"] sub_limb [OF this(5), of "2 ^ 204"]
  have P: "2 * p25519 = 2 * 2251799813685229 * 1 + 2 * 2251799813685247 * 2 ^ 51 + 2 * 2251799813685247 * 2 ^ 102 +
    2 * 2251799813685247 * 2 ^ 153 + 2 * 2251799813685247 * 2 ^ 204" by (simp add: p25519_def)
  show ?thesis unfolding P ab fe_sub.simps P_limbs_eq prod.case fe_val.simps using e by linarith
qed

lemma fe_from_bytes_bound: "fe_limbs_lt (2 ^ 51) (fe_from_bytes bs)"
  by (simp add: fe_from_bytes_def)

text \<open>
  Multiplication in limbs is multiplication modulo \<open>2 ^ 255 - 19\<close>, and nothing overflows: for
  operands with limbs below \<open>2 ^ 54\<close> every column sum stays below \<open>2 ^ 115\<close> (the code holds it in a
  \<open>u128\<close>) and every limb of the result below \<open>2 ^ 52\<close>, so that results can be multiplied again.
\<close>

lemma fe_mul_correct:
  assumes "fe_limbs_lt (2 ^ 54) a" "fe_limbs_lt (2 ^ 54) b"
  shows "fe_val (fe_mul a b) mod p25519 = fe_val a * fe_val b mod p25519 \<and>
    fe_limbs_lt (2 ^ 115) (fe_mul_wide a b) \<and> fe_limbs_lt (2 ^ 52) (fe_mul a b)"
  using assms by (intro conjI fe_mul_mod fe_mul_wide_bound fe_mul_bound)

text \<open>
  The encoding is canonical: for every element with 64-bit limbs the 32 bytes denote the
  representative below \<open>2 ^ 255 - 19\<close>, after two conditional subtractions and for unreduced inputs.
\<close>

lemma fe_to_bytes_canonical:
  assumes "fe_limbs_lt (2 ^ 64) f"
  shows "length (fe_to_bytes f) = 32 \<and> le_nat (fe_to_bytes f) = fe_val f mod p25519"
  using fe_to_bytes_val [OF assms] by simp

text \<open>
  C17. The Edwards-to-Montgomery map computes \<open>(1 + y) * (1 - y) ^ (p - 2)\<close> modulo \<open>p\<close>, canonically
  encoded, where \<open>y\<close> is the input with bit 255 masked; no encoding is rejected.
\<close>

theorem edwards_y_to_montgomery_u_correct:
  "length (edwards_y_to_montgomery_u bs) = 32 \<and>
   int (le_nat (edwards_y_to_montgomery_u bs)) =
     (let y = int (le_nat bs mod 2 ^ 255); p = int p25519
      in (1 + y) * (1 - y) ^ (p25519 - 2) mod p)"
proof -
  define y where "y = fe_from_bytes bs"
  define den where "den = fe_sub fe_one y"
  define u where "u = fe_mul (fe_add y fe_one) (fe_invert den)"
  have yb: "fe_limbs_lt (2 ^ 51) y" unfolding y_def by (rule fe_from_bytes_bound)
  have nb: "fe_limbs_lt (2 ^ 54) (fe_add y fe_one)" using yb by (cases y) (simp add: fe_one_def)
  have "fe_limbs_lt (2 ^ 54) den" by (cases y) (simp add: den_def fe_one_def P_limbs_eq less_imp_diff_less)
  hence "fe_limbs_lt (2 ^ 52) u" unfolding u_def by (intro fe_mul_bound nb fe_invert_bound)
  hence ub: "fe_limbs_lt (2 ^ 64) u" by (rule fe_limbs_lt_mono) simp
  have E: "edwards_y_to_montgomery_u bs = fe_to_bytes u"
    by (simp only: edwards_y_to_montgomery_u_def Let_def u_def den_def y_def)
  have one: "fe_val fe_one = 1" by (simp add: fe_one_def)
  have den: "int (fe_val den) mod int p25519 = (1 - int (fe_val y)) mod int p25519"
  proof -
    have "int (fe_val den) = (1 - int (fe_val y)) + 2 * int p25519"
      using fe_sub_val [OF yb, of fe_one] one unfolding den_def by linarith
    thus ?thesis by simp
  qed
  have "fe_val u mod p25519 = (fe_val y + 1) * fe_val den ^ (p25519 - 2) mod p25519"
    unfolding u_def fe_mul_mod fe_add_val one
    using fe_invert_pow [of den] unfolding fe_pow_def by (metis mod_mult_right_eq)
  hence "int (fe_val u mod p25519) = (int (fe_val y) + 1) * int (fe_val den) ^ (p25519 - 2) mod int p25519"
    by (metis (no_types) of_nat_1 of_nat_add of_nat_mult of_nat_power zmod_int)
  also have "\<dots> = (1 + int (fe_val y)) * (1 - int (fe_val y)) ^ (p25519 - 2) mod int p25519"
    using den by (metis add.commute mod_mult_right_eq power_mod)
  finally show ?thesis
    unfolding E using fe_to_bytes_val [OF ub] fe_from_bytes_val [of bs] by (simp only: Let_def y_def simp_thms)
qed

end
