(* ===== verification/Crypto.thy ===== *)
theory Crypto
  imports Field25519
begin

text \<open>
  The cryptographic layer of \<open>src/crates/tinc-crypto\<close>: the HMAC pseudo-random function
  (\<open>prf.rs\<close>), the ChaCha20-Poly1305 record cipher and its AES-256-GCM alternative (\<open>chapoly.rs\<close>,
  \<open>aead.rs\<close>), the key exchange (\<open>ecdh.rs\<close>), Ed25519 signing with the stored key pair (\<open>sign.rs\<close>)
  and the ML-KEM leg of the hybrid exchange (\<open>hybrid.rs\<close>).

  The primitives themselves come from other packages (OpenSSL, RustCrypto, dalek, \<open>ml-kem\<close>) and
  are the fields of the record \<open>prims\<close>, an argument of everything below. What the proofs rely on
  about them is collected in the predicates of the last section, which state documented behaviour
  (output lengths, decryption inverts encryption, and so on).
\<close>

section \<open>Primitives of other packages\<close>

record 'g prims =
  p_sha512 :: "bytes \<Rightarrow> bytes"
  p_hmac :: "bytes \<Rightarrow> bytes \<Rightarrow> bytes"
  p_chacha :: "bytes \<Rightarrow> bytes \<Rightarrow> nat \<Rightarrow> u8"
  p_poly1305 :: "bytes \<Rightarrow> bytes \<Rightarrow> bytes"
  p_gcm_seal :: "bytes \<Rightarrow> bytes \<Rightarrow> bytes \<Rightarrow> bytes \<times> bytes"
  p_gcm_open :: "bytes \<Rightarrow> bytes \<Rightarrow> bytes \<Rightarrow> bytes \<Rightarrow> bytes option"
  p_clamp :: "bytes \<Rightarrow> bytes"
  p_ed_public :: "bytes \<Rightarrow> bytes"
  p_mul_clamped :: "bytes \<Rightarrow> bytes \<Rightarrow> bytes"
  p_point_ok :: "bytes \<Rightarrow> bool"
  p_raw_sign :: "bytes \<Rightarrow> bytes \<Rightarrow> bytes \<Rightarrow> bytes"
  p_verify :: "bytes \<Rightarrow> bytes \<Rightarrow> bytes \<Rightarrow> bool"
  p_fill :: "nat \<Rightarrow> 'g \<Rightarrow> bytes \<times> 'g"
  p_mlkem_generate :: "'g \<Rightarrow> (bytes \<times> bytes) \<times> 'g"
  p_mlkem_ek_ok :: "bytes \<Rightarrow> bool"
  p_mlkem_encap :: "bytes \<Rightarrow> 'g \<Rightarrow> (bytes \<times> bytes) \<times> 'g"
  p_mlkem_decap :: "bytes \<Rightarrow> bytes \<Rightarrow> bytes"

section \<open>The pseudo-random function\<close>

definition MD_LEN :: nat where "MD_LEN = 64"

text \<open>
  The loop of \<open>prf\<close>: \<open>data\<close> is \<open>A(i)\<close> followed by the seed, with \<open>A(0)\<close> all zero; each round
  appends as much of the fresh chunk as still fits. A round that writes nothing (an empty digest)
  would spin, so the number of rounds is bounded by the bytes still missing.
\<close>

fun prf_loop :: "'g prims \<Rightarrow> bytes \<Rightarrow> bytes \<Rightarrow> nat \<Rightarrow> bytes \<Rightarrow> bytes \<Rightarrow> nat \<Rightarrow> bytes" where
  "prf_loop P secret seed len data out 0 = out"
| "prf_loop P secret seed len data out (Suc n) =
     (if length out < len then
        (let a_i = p_hmac P secret data;
             data = a_i @ seed;
             chunk = p_hmac P secret data
         in prf_loop P secret seed len data (out @ take (min (length chunk) (len - length out)) chunk) n)
      else out)"

definition prf_out :: "'g prims \<Rightarrow> bytes \<Rightarrow> bytes \<Rightarrow> nat \<Rightarrow> bytes" where
  "prf_out P secret seed len = prf_loop P secret seed len (replicate MD_LEN 0 @ seed) [] len"

section \<open>ChaCha20-Poly1305 records\<close>

definition CIPHER_KEY_LEN :: nat where "CIPHER_KEY_LEN = 64"
definition TAG_LEN :: nat where "TAG_LEN = 16"

definition chapoly_iv :: "u64 \<Rightarrow> bytes" where
  "chapoly_iv seqno = replicate 8 0 @ u64_be seqno"

text \<open>A keyed stream and its position; \<open>block0\<close> draws one 64-byte block and keeps half of it.\<close>

record cha_record =
  cr_key :: bytes
  cr_iv :: bytes
  cr_pos :: nat

definition with_record :: "bytes \<Rightarrow> bytes \<Rightarrow> cha_record" where
  "with_record key iv = \<lparr>cr_key = key, cr_iv = iv, cr_pos = 0\<rparr>"

definition keystream :: "'g prims \<Rightarrow> cha_record \<Rightarrow> nat \<Rightarrow> bytes" where
  "keystream P rec n = map (p_chacha P (cr_key rec) (cr_iv rec)) [cr_pos rec ..< cr_pos rec + n]"

definition block0 :: "'g prims \<Rightarrow> cha_record \<Rightarrow> bytes \<times> cha_record" where
  "block0 P rec = (take 32 (keystream P rec 64), rec\<lparr>cr_pos := cr_pos rec + 64\<rparr>)"

definition xor_stream :: "'g prims \<Rightarrow> cha_record \<Rightarrow> bytes \<Rightarrow> bytes \<times> cha_record" where
  "xor_stream P rec input =
     (map2 xor input (keystream P rec (length input)), rec\<lparr>cr_pos := cr_pos rec + length input\<rparr>)"

definition chapoly_seal :: "'g prims \<Rightarrow> bytes \<Rightarrow> u64 \<Rightarrow> bytes \<Rightarrow> bytes" where
  "chapoly_seal P key seqno plaintext =
     (let rec = with_record (take 32 key) (chapoly_iv seqno);
          (poly_key, rec) = block0 P rec;
          (out, rec) = xor_stream P rec plaintext;
          tag = p_poly1305 P poly_key out
      in out @ tag)"

definition chapoly_seal_into :: "'g prims \<Rightarrow> bytes \<Rightarrow> u64 \<Rightarrow> u8 \<Rightarrow> bytes \<Rightarrow> bytes \<Rightarrow> nat \<Rightarrow> bytes" where
  "chapoly_seal_into P key seqno type_byte body out encrypt_from =
     (let rec = with_record (take 32 key) (chapoly_iv seqno);
          (poly_key, rec) = block0 P rec;
          out = out @ [type_byte] @ body;
          (ct, rec) = xor_stream P rec (drop encrypt_from out);
          out = take encrypt_from out @ ct;
          tag = p_poly1305 P poly_key (drop encrypt_from out)
      in out @ tag)"

definition chapoly_open_into :: "'g prims \<Rightarrow> bytes \<Rightarrow> u64 \<Rightarrow> bytes \<Rightarrow> bytes \<Rightarrow> bytes option" where
  "chapoly_open_into P key seqno sealed out =
     (if length sealed < TAG_LEN then None
      else
        let ct = take (length sealed - TAG_LEN) sealed; tag = drop (length sealed - TAG_LEN) sealed;
            rec = with_record (take 32 key) (chapoly_iv seqno);
            (poly_key, rec) = block0 P rec;
            expected = p_poly1305 P poly_key ct
        in if expected \<noteq> tag then None
           else Some (out @ fst (xor_stream P rec ct)))"

definition chapoly_open :: "'g prims \<Rightarrow> bytes \<Rightarrow> u64 \<Rightarrow> bytes \<Rightarrow> bytes option" where
  "chapoly_open P key seqno sealed = chapoly_open_into P key seqno sealed []"

section \<open>The session cipher: ChaCha20-Poly1305 or AES-256-GCM\<close>

datatype sptps_aead = ChaCha20Poly1305 | Aes256Gcm

fun aead_discriminator :: "sptps_aead \<Rightarrow> u8" where
  "aead_discriminator ChaCha20Poly1305 = 0"
| "aead_discriminator Aes256Gcm = 1"

record sptps_cipher =
  ci_aead :: sptps_aead
  ci_key :: bytes

definition gcm_nonce :: "u64 \<Rightarrow> bytes" where
  "gcm_nonce seqno = replicate 4 0 @ u64_be seqno"

definition aes_key :: "sptps_cipher \<Rightarrow> bytes" where
  "aes_key c = take 32 (ci_key c)"

definition cipher_seal :: "'g prims \<Rightarrow> sptps_cipher \<Rightarrow> u64 \<Rightarrow> bytes \<Rightarrow> bytes" where
  "cipher_seal P c seqno plaintext =
     (case ci_aead c of
        ChaCha20Poly1305 \<Rightarrow> chapoly_seal P (ci_key c) seqno plaintext
      | Aes256Gcm \<Rightarrow>
          let (out, tag) = p_gcm_seal P (aes_key c) (gcm_nonce seqno) plaintext in out @ tag)"

definition cipher_seal_into ::
    "'g prims \<Rightarrow> sptps_cipher \<Rightarrow> u64 \<Rightarrow> u8 \<Rightarrow> bytes \<Rightarrow> bytes \<Rightarrow> nat \<Rightarrow> bytes" where
  "cipher_seal_into P c seqno type_byte body out encrypt_from =
     (case ci_aead c of
        ChaCha20Poly1305 \<Rightarrow> chapoly_seal_into P (ci_key c) seqno type_byte body out encrypt_from
      | Aes256Gcm \<Rightarrow>
          let out = out @ [type_byte] @ body;
              (ct, tag) = p_gcm_seal P (aes_key c) (gcm_nonce seqno) (drop encrypt_from out)
          in take encrypt_from out @ ct @ tag)"

text \<open>
  \<open>open_into\<close> appends the plaintext to \<open>out\<close>; on failure the GCM path truncates \<open>out\<close> back to
  \<open>decrypt_at\<close>, its length on entry, so that both ciphers leave it as it was.
\<close>

definition cipher_open_into ::
    "'g prims \<Rightarrow> sptps_cipher \<Rightarrow> u64 \<Rightarrow> bytes \<Rightarrow> bytes \<Rightarrow> nat \<Rightarrow> bool \<times> bytes" where
  "cipher_open_into P c seqno sealed out decrypt_at =
     (case ci_aead c of
        ChaCha20Poly1305 \<Rightarrow>
          (case chapoly_open_into P (ci_key c) seqno sealed out of
             None \<Rightarrow> (False, out) | Some out' \<Rightarrow> (True, out'))
      | Aes256Gcm \<Rightarrow>
          if length sealed < TAG_LEN then (False, out)
          else
            let ct = take (length sealed - TAG_LEN) sealed; tag = drop (length sealed - TAG_LEN) sealed;
                out = out @ ct
            in case p_gcm_open P (aes_key c) (gcm_nonce seqno) (drop decrypt_at out) tag of
                 Some pt \<Rightarrow> (True, take decrypt_at out @ pt)
               | None \<Rightarrow> (False, take decrypt_at out))"

definition cipher_open :: "'g prims \<Rightarrow> sptps_cipher \<Rightarrow> u64 \<Rightarrow> bytes \<Rightarrow> bytes option" where
  "cipher_open P c seqno sealed =
     (case ci_aead c of
        ChaCha20Poly1305 \<Rightarrow> chapoly_open P (ci_key c) seqno sealed
      | Aes256Gcm \<Rightarrow>
          (case cipher_open_into P c seqno sealed [] 0 of
             (ok, out) \<Rightarrow> if ok then Some out else None))"

section \<open>Key exchange, signatures, ML-KEM\<close>

definition ECDH_PUBLIC_LEN :: nat where "ECDH_PUBLIC_LEN = 32"
definition SHARED_LEN :: nat where "SHARED_LEN = 32"
definition SIG_LEN :: nat where "SIG_LEN = 64"
definition MLKEM_EK_LEN :: nat where "MLKEM_EK_LEN = 1184"
definition MLKEM_CT_LEN :: nat where "MLKEM_CT_LEN = 1088"
definition MLKEM_SS_LEN :: nat where "MLKEM_SS_LEN = 32"

text \<open>\<open>EcdhPrivate\<close> is the 64-byte expanded secret; \<open>from_seed\<close> also returns the public point.\<close>

definition ecdh_from_seed :: "'g prims \<Rightarrow> bytes \<Rightarrow> bytes \<times> bytes" where
  "ecdh_from_seed P seed =
     (let expanded = p_sha512 P seed;
          scalar = take 32 expanded;
          expanded = p_clamp P scalar @ drop 32 expanded
      in (expanded, p_ed_public P seed))"

definition compute_shared :: "'g prims \<Rightarrow> bytes \<Rightarrow> bytes \<Rightarrow> bytes option" where
  "compute_shared P expanded peer_public =
     (let scalar = p_clamp P (take 32 expanded);
          mont_u = edwards_y_to_montgomery_u peer_public;
          shared = p_mul_clamped P mont_u scalar
      in if list_all (\<lambda>b. b = 0) shared then None else Some shared)"

record signing_key =
  sk_expanded :: bytes
  sk_public :: bytes

definition signing_from_blob :: "bytes \<Rightarrow> signing_key" where
  "signing_from_blob blob = \<lparr>sk_expanded = take 64 blob, sk_public = drop 64 blob\<rparr>"

definition signing_to_blob :: "signing_key \<Rightarrow> bytes" where
  "signing_to_blob k = sk_expanded k @ sk_public k"

definition signing_from_seed :: "'g prims \<Rightarrow> bytes \<Rightarrow> signing_key" where
  "signing_from_seed P seed =
     (let expanded = p_sha512 P seed
      in \<lparr>sk_expanded = p_clamp P (take 32 expanded) @ drop 32 expanded, sk_public = p_ed_public P seed\<rparr>)"

text \<open>\<open>None\<close> is the \<open>expect\<close> on the stored public key, which panics when it is not a point.\<close>

definition sign :: "'g prims \<Rightarrow> signing_key \<Rightarrow> bytes \<Rightarrow> bytes option" where
  "sign P k msg =
     (if p_point_ok P (sk_public k) then Some (p_raw_sign P (sk_expanded k) (sk_public k) msg) else None)"

definition verify :: "'g prims \<Rightarrow> bytes \<Rightarrow> bytes \<Rightarrow> bytes \<Rightarrow> bool" where
  "verify P public msg sig \<longleftrightarrow> p_point_ok P public \<and> p_verify P public msg sig"

datatype sptps_kex = X25519 | X25519MlKem768

fun kex_discriminator :: "sptps_kex \<Rightarrow> u8" where
  "kex_discriminator X25519 = 0"
| "kex_discriminator X25519MlKem768 = 1"

definition mlkem_encapsulate :: "'g prims \<Rightarrow> bytes \<Rightarrow> 'g \<Rightarrow> (bytes \<times> bytes) option \<times> 'g" where
  "mlkem_encapsulate P ek g =
     (if p_mlkem_ek_ok P ek then (let (r, g') = p_mlkem_encap P ek g in (Some r, g')) else (None, g))"

definition kem_transcript_hash :: "'g prims \<Rightarrow> bytes \<Rightarrow> bytes \<Rightarrow> bytes \<Rightarrow> bytes \<Rightarrow> bytes" where
  "kem_transcript_hash P ek_i ek_r ct_i2r ct_r2i = p_sha512 P (ek_i @ ek_r @ ct_i2r @ ct_r2i)"

section \<open>What the proofs use of the primitives\<close>

text \<open>Output lengths, as the packages document them.\<close>

definition prims_lengths :: "'g prims \<Rightarrow> bool" where
  "prims_lengths P \<longleftrightarrow>
     (\<forall>m. length (p_sha512 P m) = 64) \<and>
     (\<forall>k m. length (p_hmac P k m) = MD_LEN) \<and>
     (\<forall>k m. length (p_poly1305 P k m) = TAG_LEN) \<and>
     (\<forall>k n m. length (fst (p_gcm_seal P k n m)) = length m \<and> length (snd (p_gcm_seal P k n m)) = TAG_LEN) \<and>
     (\<forall>k n c t m. p_gcm_open P k n c t = Some m \<longrightarrow> length m = length c) \<and>
     (\<forall>s. length (p_clamp P s) = 32) \<and>
     (\<forall>s. length (p_ed_public P s) = ECDH_PUBLIC_LEN) \<and>
     (\<forall>e k m. length (p_raw_sign P e k m) = SIG_LEN) \<and>
     (\<forall>n g. length (fst (p_fill P n g)) = n) \<and>
     (\<forall>g. length (snd (fst (p_mlkem_generate P g))) = MLKEM_EK_LEN) \<and>
     (\<forall>ek g. length (fst (fst (p_mlkem_encap P ek g))) = MLKEM_CT_LEN)"

text \<open>AES-GCM decryption inverts encryption under the same key and nonce.\<close>

definition gcm_correct :: "'g prims \<Rightarrow> bool" where
  "gcm_correct P \<longleftrightarrow>
     (\<forall>k n m. p_gcm_open P k n (fst (p_gcm_seal P k n m)) (snd (p_gcm_seal P k n m)) = Some m)"

text \<open>
  Signatures verify under their own public key, Diffie-Hellman commutes on honestly generated pairs
  and never gives zero there, and decapsulation inverts encapsulation.
\<close>

definition sig_correct :: "'g prims \<Rightarrow> signing_key \<Rightarrow> bool" where
  "sig_correct P k \<longleftrightarrow> p_point_ok P (sk_public k) \<and>
     (\<forall>m. p_verify P (sk_public k) m (p_raw_sign P (sk_expanded k) (sk_public k) m))"

definition dh_correct :: "'g prims \<Rightarrow> bool" where
  "dh_correct P \<longleftrightarrow> (\<forall>a b.
     let (ea, pa) = ecdh_from_seed P a; (eb, pb) = ecdh_from_seed P b
     in compute_shared P ea pb \<noteq> None \<and> compute_shared P ea pb = compute_shared P eb pa)"

definition kem_correct :: "'g prims \<Rightarrow> bool" where
  "kem_correct P \<longleftrightarrow> (\<forall>g h.
     let (dk, ek) = fst (p_mlkem_generate P g); (ct, ss) = fst (p_mlkem_encap P ek h)
     in p_mlkem_ek_ok P ek \<and> p_mlkem_decap P dk ct = ss)"

lemma prims_lengthsD:
  assumes "prims_lengths P"
  shows "length (p_sha512 P m) = 64" "length (p_hmac P k m) = 64" "length (p_poly1305 P k m) = 16"
    "length (fst (p_gcm_seal P k n m)) = length m" "length (snd (p_gcm_seal P k n m)) = 16"
    "p_gcm_open P k n c t = Some m \<Longrightarrow> length m = length c"
    "length (p_clamp P s) = 32" "length (p_ed_public P s) = 32" "length (p_raw_sign P e k m) = 64"
    "length (fst (p_fill P i g)) = i" "length (snd (fst (p_mlkem_generate P g))) = 1184"
    "length (fst (fst (p_mlkem_encap P k g))) = 1088"
  using assms
  by (simp_all add: prims_lengths_def MD_LEN_def TAG_LEN_def ECDH_PUBLIC_LEN_def SIG_LEN_def
      MLKEM_EK_LEN_def MLKEM_CT_LEN_def)

section \<open>Record encryption\<close>

lemma length_keystream [simp]: "length (keystream P r n) = n"
  by (simp add: keystream_def)

lemma length_xor_stream [simp]: "length (fst (xor_stream P r x)) = length x"
  by (simp add: xor_stream_def)

lemma map2_xor_xor: "length ys = length xs \<Longrightarrow> map2 xor (map2 xor xs ys) ys = xs"
  for xs ys :: "'a :: len word list"
proof (induction xs ys rule: list_induct2')
  case (4 x xs y ys)
  have "xor (xor x y) y = x" by (simp add: xor.assoc)
  thus ?case using 4 by simp
qed simp_all

lemma xor_stream_twice [simp]: "fst (xor_stream P r (fst (xor_stream P r x))) = x"
  by (simp add: xor_stream_def map2_xor_xor)

lemma chapoly_open_seal:
  "prims_lengths P \<Longrightarrow> chapoly_open P key n (chapoly_seal P key n m) = Some m"
  by (simp add: chapoly_open_def chapoly_open_into_def chapoly_seal_def TAG_LEN_def prims_lengthsD
      split_beta Let_def)

lemma cipher_open_seal:
  assumes "prims_lengths P" "gcm_correct P"
  shows "cipher_open P c n (cipher_seal P c n m) = Some m"
proof (cases "ci_aead c")
  case ChaCha20Poly1305
  thus ?thesis using chapoly_open_seal [OF assms(1)] by (simp add: cipher_open_def cipher_seal_def)
next
  case Aes256Gcm
  thus ?thesis using assms(2)
    by (simp add: cipher_open_def cipher_seal_def cipher_open_into_def TAG_LEN_def gcm_correct_def
        prims_lengthsD [OF assms(1)] split_beta Let_def)
qed

lemma chapoly_seal_into_eq:
  "chapoly_seal_into P key n ty body out (length out) = out @ chapoly_seal P key n (ty # body)"
  by (simp add: chapoly_seal_into_def chapoly_seal_def split_beta Let_def)

text \<open>The in-place variants are the plain ones behind whatever the buffer already holds.\<close>

lemma cipher_seal_into_eq:
  "encrypt_from = length out \<Longrightarrow>
   cipher_seal_into P c n ty body out encrypt_from = out @ cipher_seal P c n (ty # body)"
  by (cases "ci_aead c")
     (simp_all add: cipher_seal_into_def cipher_seal_def chapoly_seal_into_eq split_beta Let_def)

lemma cipher_open_into_eq:
  "decrypt_at = length out \<Longrightarrow>
   cipher_open_into P c n s out decrypt_at =
     (case cipher_open P c n s of None \<Rightarrow> (False, out) | Some pt \<Rightarrow> (True, out @ pt))"
  by (cases "ci_aead c")
     (auto simp: cipher_open_into_def cipher_open_def chapoly_open_def chapoly_open_into_def
        split_beta Let_def split: option.splits)

lemma cipher_seal_length:
  assumes "prims_lengths P"
  shows "length (cipher_seal P c n m) = length m + 16"
  by (cases "ci_aead c") (simp_all add: cipher_seal_def chapoly_seal_def prims_lengthsD [OF assms] split_beta Let_def)

lemma cipher_open_length:
  assumes "prims_lengths P" "cipher_open P c n s = Some m"
  shows "length s = length m + 16"
  using assms(2) prims_lengthsD(6) [OF assms(1)]
  by (cases "ci_aead c")
     (fastforce simp: cipher_open_def chapoly_open_def chapoly_open_into_def cipher_open_into_def TAG_LEN_def
        split_beta Let_def split: if_splits option.splits)+

section \<open>The pseudo-random function\<close>

fun prf_a :: "'g prims \<Rightarrow> bytes \<Rightarrow> bytes \<Rightarrow> nat \<Rightarrow> bytes" where
  "prf_a P secret seed 0 = replicate MD_LEN 0"
| "prf_a P secret seed (Suc i) = p_hmac P secret (prf_a P secret seed i @ seed)"

definition prf_blocks :: "'g prims \<Rightarrow> bytes \<Rightarrow> bytes \<Rightarrow> nat \<Rightarrow> nat \<Rightarrow> bytes" where
  "prf_blocks P secret seed i n =
     concat (map (\<lambda>j. p_hmac P secret (prf_a P secret seed (Suc j) @ seed)) [i ..< i + n])"

lemma length_prf_blocks: "prims_lengths P \<Longrightarrow> length (prf_blocks P secret seed i n) = 64 * n"
  by (induction n) (simp_all add: prf_blocks_def prims_lengthsD)

lemma prf_blocks_Suc:
  "prf_blocks P secret seed i (Suc n) =
     p_hmac P secret (prf_a P secret seed (Suc i) @ seed) @ prf_blocks P secret seed (Suc i) n"
  by (simp add: prf_blocks_def upt_conv_Cons del: upt_Suc)

lemma prf_loop_eq:
  assumes "prims_lengths P" "length out \<le> len" "len - length out \<le> n"
  shows "prf_loop P secret seed len (prf_a P secret seed i @ seed) out n =
    out @ take (len - length out) (prf_blocks P secret seed i n)"
  using assms(2,3)
proof (induction n arbitrary: i out)
  case (Suc n)
  show ?case
  proof (cases "length out < len")
    case True
    define ch where "ch = p_hmac P secret (prf_a P secret seed (Suc i) @ seed)"
    have l: "length ch = 64" by (simp add: ch_def prims_lengthsD [OF assms(1)])
    define out' where "out' = out @ take (min (length ch) (len - length out)) ch"
    have "length out' \<le> len" "len - length out' \<le> n" using True Suc.prems l by (auto simp: out'_def)
    note IH = Suc.IH [OF this, of "Suc i"]
    have "prf_loop P secret seed len (prf_a P secret seed i @ seed) out (Suc n) =
        prf_loop P secret seed len (prf_a P secret seed (Suc i) @ seed) out' n"
      using True by (simp add: out'_def ch_def Let_def)
    thus ?thesis
      unfolding IH prf_blocks_Suc ch_def [symmetric] by (auto simp: out'_def l min_def)
  qed (use Suc.prems in simp)
qed simp

lemma prf_out_eq:
  "prims_lengths P \<Longrightarrow> prf_out P secret seed len = take len (prf_blocks P secret seed 0 len)"
  using prf_loop_eq [of P "[]" len len secret seed 0] by (simp add: prf_out_def)

lemma prf_out_length: "prims_lengths P \<Longrightarrow> length (prf_out P secret seed len) = len"
  by (simp add: prf_out_eq length_prf_blocks)

section \<open>A concrete instance\<close>

text \<open>Functions with the documented shape, to show that the assumptions can hold together.\<close>

definition demo_prims :: "nat prims" where
  "demo_prims =
     \<lparr>p_sha512 = \<lambda>m. replicate 64 0, p_hmac = \<lambda>k m. replicate 64 (of_nat (length m)),
      p_chacha = \<lambda>k iv i. of_nat i, p_poly1305 = \<lambda>k m. replicate 16 (foldr xor m 0),
      p_gcm_seal = \<lambda>k n m. (m, replicate 16 (foldr xor m 0)),
      p_gcm_open = \<lambda>k n c t. if t = replicate 16 (foldr xor c 0) then Some c else None,
      p_clamp = \<lambda>s. replicate 32 8, p_ed_public = \<lambda>s. replicate 32 9, p_mul_clamped = \<lambda>u s. replicate 32 5,
      p_point_ok = \<lambda>k. True, p_raw_sign = \<lambda>e k m. replicate 64 (foldr xor m 0),
      p_verify = \<lambda>k m s. s = replicate 64 (foldr xor m 0),
      p_fill = \<lambda>n g. (replicate n (of_nat g), g + 1),
      p_mlkem_generate = \<lambda>g. ((replicate 64 (of_nat g), replicate 1184 3), g + 1),
      p_mlkem_ek_ok = \<lambda>ek. length ek = 1184 \<and> hd ek = 3,
      p_mlkem_encap = \<lambda>ek g. ((replicate 1088 (of_nat g), replicate 32 (of_nat g)), g + 1),
      p_mlkem_decap = \<lambda>dk ct. replicate 32 (hd ct)\<rparr>"

definition demo_key :: signing_key where
  "demo_key = \<lparr>sk_expanded = replicate 64 1, sk_public = replicate 32 2\<rparr>"

lemma demo_prims_ok:
  "prims_lengths demo_prims" "gcm_correct demo_prims" "dh_correct demo_prims" "kem_correct demo_prims"
  "sig_correct demo_prims demo_key" "p_point_ok demo_prims k"
  by (simp_all add: prims_lengths_def gcm_correct_def dh_correct_def kem_correct_def sig_correct_def demo_prims_def
      demo_key_def MD_LEN_def TAG_LEN_def ECDH_PUBLIC_LEN_def SIG_LEN_def MLKEM_EK_LEN_def MLKEM_CT_LEN_def
      ecdh_from_seed_def compute_shared_def Let_def list_all_iff)

end
