(* ===== verification/Replay_Window.thy ===== *)
theory Replay_Window
  imports Prelude
begin

text \<open>
  The datagram replay window of the SPTPS record layer
  (\<open>src/crates/tinc-sptps/src/state.rs\<close>, \<open>ReplayWindow\<close>): the bitmap of late packets, the check
  that accepts or rejects a sequence number, the contract of a replay guard as a locale, and the
  proof that the window meets it.
\<close>

section \<open>Model\<close>

datatype sptps_error =
  BadKex | BadSig | BadAck | BadRecord | DecryptFailed | BadSeqno | InvalidState | RecordTooLong

record replay_window =
  rw_inseqno :: u32
  rw_late :: bytes
  rw_farfuture :: u32

definition replay_new :: "nat \<Rightarrow> replay_window" where
  "replay_new win = \<lparr>rw_inseqno = 0, rw_late = replicate win 0, rw_farfuture = 0\<rparr>"

text \<open>\<open>(seqno / 8 % win) as usize\<close> and \<open>1 << (seqno % 8)\<close>.\<close>

definition late_idx :: "bytes \<Rightarrow> u32 \<Rightarrow> nat" where
  "late_idx l s = unat (s div 8 mod of_nat (length l))"

definition late_mask :: "u32 \<Rightarrow> u8" where
  "late_mask s = push_bit (unat (s mod 8)) 1"

definition mark_late :: "bytes \<Rightarrow> u32 \<Rightarrow> bytes" where
  "mark_late l s = l[late_idx l s := l ! late_idx l s OR late_mask s]"

definition clear_late :: "bytes \<Rightarrow> u32 \<Rightarrow> bytes" where
  "clear_late l s = l[late_idx l s := l ! late_idx l s AND NOT (late_mask s)]"

definition mark_range :: "bytes \<Rightarrow> u32 \<Rightarrow> u32 \<Rightarrow> bytes" where
  "mark_range l a b = fold (\<lambda>i l. mark_late l (of_nat i)) [unat a..<unat b] l"

text \<open>
  The tail of \<open>ReplayWindow::check\<close>, reached when the packet is acceptable: the packet's late bit is
  cleared and the next expected number moves past it, with the wrap at \<open>2 ^ 32\<close>.
\<close>

definition check_commit :: "replay_window \<Rightarrow> u32 \<Rightarrow> bool \<Rightarrow> replay_window" where
  "check_commit w seqno update =
     (let w1 = (if update \<and> rw_late w \<noteq> []
                then w\<lparr>rw_late := clear_late (rw_late w) seqno, rw_farfuture := 0\<rparr> else w)
      in if update \<and> rw_inseqno w1 \<le> seqno then w1\<lparr>rw_inseqno := seqno + 1\<rparr> else w1)"

definition check :: "replay_window \<Rightarrow> u32 \<Rightarrow> bool \<Rightarrow> (sptps_error + unit) \<times> replay_window" where
  "check w seqno update =
     (let win = of_nat (length (rw_late w)) :: u32 in
      if win > 0 \<and> seqno \<noteq> rw_inseqno w then
        if rw_inseqno w + win * 8 \<le> seqno then
          (let early = rw_farfuture w < drop_bit 2 win;
               w1 = (if update then w\<lparr>rw_farfuture := rw_farfuture w + 1\<rparr> else w)
           in if early then (Inl BadSeqno, w1)
              else (Inr (), check_commit
                (if update then w1\<lparr>rw_late := replicate (length (rw_late w1)) 0xFF\<rparr> else w1)
                seqno update))
        else if seqno < rw_inseqno w then
          (let too_old = win * 8 \<le> rw_inseqno w \<and> seqno < rw_inseqno w - win * 8;
               already = rw_late w ! late_idx (rw_late w) seqno AND late_mask seqno = 0
           in if too_old \<or> already then (Inl BadSeqno, w)
              else (Inr (), check_commit w seqno update))
        else
          (Inr (), check_commit
            (if update then w\<lparr>rw_late := mark_range (rw_late w) (rw_inseqno w) seqno\<rparr> else w)
            seqno update)
      else (Inr (), check_commit w seqno update))"

definition check_public :: "replay_window \<Rightarrow> u32 \<Rightarrow> (sptps_error + unit) \<times> replay_window" where
  "check_public w seqno = check w seqno True"

section \<open>The bitmap as a predicate on sequence numbers\<close>

text \<open>\<open>late_bit l k\<close>: the slot of number \<open>k\<close> says that \<open>k\<close> has been skipped and not yet seen.\<close>

definition late_bit :: "bytes \<Rightarrow> nat \<Rightarrow> bool" where
  "late_bit l k = bit (l ! (k div 8 mod length l)) (k mod 8)"

lemma same_slot_iff:
  "(k div 8 mod n = j div 8 mod n \<and> k mod 8 = j mod 8) \<longleftrightarrow> k mod (8 * n) = j mod (8 * (n::nat))"
proof
  assume "k div 8 mod n = j div 8 mod n \<and> k mod 8 = j mod 8"
  then show "k mod (8 * n) = j mod (8 * n)" by (simp add: mod_mult2_eq)
next
  assume eq: "k mod (8 * n) = j mod (8 * n)"
  have "k mod (8 * n) div 8 = k div 8 mod n" "k mod (8 * n) mod 8 = k mod 8" for k
    by (simp_all add: mod_mult2_eq)
  with eq show "k div 8 mod n = j div 8 mod n \<and> k mod 8 = j mod 8" by metis
qed

lemma late_idx_nat:
  assumes "length l < 2 ^ 32"
  shows "late_idx l s = unat s div 8 mod length l"
  using assms by (simp add: late_idx_def unat_div unat_mod unat_of_nat_small)

lemma unat_mod8 [simp]: "unat (s mod 8 :: u32) = unat s mod 8"
  by (simp add: unat_mod)

lemma length_mark_late [simp]: "length (mark_late l s) = length l"
  by (simp add: mark_late_def)

lemma mark_late_Nil [simp]: "mark_late l s = [] \<longleftrightarrow> l = []"
  by (simp add: mark_late_def)

lemma length_clear_late [simp]: "length (clear_late l s) = length l"
  by (simp add: clear_late_def)

lemma length_mark_range [simp]: "length (mark_range l a b) = length l"
proof -
  have "length (fold (\<lambda>i l. mark_late l (of_nat i)) is l) = length l" for "is" :: "nat list"
    by (induction "is" arbitrary: l) auto
  then show ?thesis by (simp add: mark_range_def)
qed

lemma late_bit_mark_late:
  assumes "0 < length l" "length l < 2 ^ 32"
  shows "late_bit (mark_late l s) k \<longleftrightarrow>
         late_bit l k \<or> k mod (8 * length l) = unat s mod (8 * length l)"
proof (cases "k div 8 mod length l = unat s div 8 mod length l")
  case True
  with assms show ?thesis
    by (auto simp: late_bit_def mark_late_def late_mask_def late_idx_nat bit_simps
        simp flip: same_slot_iff)
next
  case False
  with assms show ?thesis
    by (auto simp: late_bit_def mark_late_def late_idx_nat simp flip: same_slot_iff)
qed

lemma late_bit_clear_late:
  assumes "0 < length l" "length l < 2 ^ 32"
  shows "late_bit (clear_late l s) k \<longleftrightarrow>
         late_bit l k \<and> k mod (8 * length l) \<noteq> unat s mod (8 * length l)"
proof (cases "k div 8 mod length l = unat s div 8 mod length l")
  case True
  with assms show ?thesis
    by (auto simp: late_bit_def clear_late_def late_mask_def late_idx_nat bit_simps
        simp flip: same_slot_iff)
next
  case False
  with assms show ?thesis
    by (auto simp: late_bit_def clear_late_def late_idx_nat simp flip: same_slot_iff)
qed

lemma late_bit_mark_range:
  assumes "0 < length l" "length l < 2 ^ 32"
  shows "late_bit (mark_range l a b) k \<longleftrightarrow>
         late_bit l k \<or> (\<exists>i\<in>{unat a..<unat b}. k mod (8 * length l) = i mod (8 * length l))"
proof -
  have "late_bit (fold (\<lambda>i l. mark_late l (of_nat i)) is l) k \<longleftrightarrow>
        late_bit l k \<or> (\<exists>i\<in>set is. k mod (8 * length l) = i mod (8 * length l))"
    if "\<forall>i\<in>set is. i < 2 ^ 32" "0 < length l" "length l < 2 ^ 32" for "is" :: "nat list" and l
    using that
  proof (induction "is" arbitrary: l)
    case Nil
    then show ?case by simp
  next
    case (Cons i "is")
    then show ?case by (auto simp: late_bit_mark_late unat_of_nat_small)
  qed
  moreover have "\<forall>i\<in>set [unat a..<unat b]. i < 2 ^ 32"
    using unsigned_less [of b] by (auto intro: less_trans)
  ultimately show ?thesis using assms by (simp add: mark_range_def)
qed

lemma late_bit_replicate_FF:
  "0 < n \<Longrightarrow> late_bit (replicate n 0xFF) k"
proof -
  have "(0xFF :: u8) = - 1" by simp
  moreover have "k mod 8 < 8" by simp
  ultimately show "late_bit (replicate n 0xFF) k" if "0 < n"
    using that by (simp only: late_bit_def) (simp add: bit_simps)
qed

lemma late_test_iff:
  assumes "0 < length l" "length l < 2 ^ 32"
  shows "l ! late_idx l s AND late_mask s = 0 \<longleftrightarrow> \<not> late_bit l (unat s)"
  using assms by (simp add: late_bit_def late_mask_def late_idx_nat bit_iff_and_push_bit_not_eq_0)

lemma mod_window_inj:
  "(k::nat) mod w = j mod w \<Longrightarrow> k < j + w \<Longrightarrow> j < k + w \<Longrightarrow> k = j"
proof -
  assume eq: "k mod w = j mod w" and "k < j + w" "j < k + w"
  have *: "a = b" if "a mod w = b mod w" "a \<le> b" "b < a + w" for a b :: nat
  proof -
    have "w dvd b - a" using that by (metis mod_eq_dvd_iff_nat)
    moreover have "b - a < w" using that by linarith
    ultimately have "b - a = 0" using nat_dvd_not_less by blast
    with that show ?thesis by simp
  qed
  show "k = j" using * [of k j] * [of j k] eq \<open>k < j + w\<close> \<open>j < k + w\<close> by linarith
qed

section \<open>The invariant: what the window remembers of the accepted numbers\<close>

text \<open>
  \<open>replay_inv win w H\<close>: \<open>w\<close> has \<open>win\<close> bytes of bitmap, the set of numbers accepted so far is
  \<open>H\<close>, every one of them is below the next expected number, and among the last \<open>8 * win\<close> numbers
  the bitmap marks exactly those that are not in \<open>H\<close>. The window's upper edge does not reach
  \<open>2 ^ 32\<close>.
\<close>

definition replay_inv :: "nat \<Rightarrow> replay_window \<Rightarrow> nat set \<Rightarrow> bool" where
  "replay_inv win w H \<longleftrightarrow>
     length (rw_late w) = win \<and> 0 < win \<and> unat (rw_inseqno w) + 8 * win < 2 ^ 32 \<and>
     (\<forall>h\<in>H. h < unat (rw_inseqno w)) \<and>
     (\<forall>k. k < unat (rw_inseqno w) \<and> unat (rw_inseqno w) \<le> k + 8 * win \<longrightarrow>
        (late_bit (rw_late w) k \<longleftrightarrow> k \<notin> H))"

definition seq_ok :: "nat \<Rightarrow> u32 \<Rightarrow> bool" where
  "seq_ok win s \<longleftrightarrow> unat s + 8 * win + 1 < 2 ^ 32"

lemma replay_inv_new: "0 < win \<Longrightarrow> 8 * win < 2 ^ 32 \<Longrightarrow> replay_inv win (replay_new win) {}"
  by (simp add: replay_inv_def replay_new_def)

lemma replay_inv_farfuture [simp]:
  "replay_inv win (w\<lparr>rw_farfuture := f\<rparr>) H \<longleftrightarrow> replay_inv win w H"
  by (simp add: replay_inv_def)

lemma replay_inv_length: "replay_inv win w H \<Longrightarrow> length (rw_late w) = win \<and> 0 < win \<and> win < 2 ^ 29"
  by (auto simp: replay_inv_def)

lemma window_words:
  assumes "replay_inv win w H"
  shows "unat (of_nat win :: u32) = win" "unat (of_nat win * 8 :: u32) = 8 * win"
    "unat (rw_inseqno w + of_nat win * 8) = unat (rw_inseqno w) + 8 * win"
    "(0::u32) < of_nat win"
proof -
  from assms have win: "0 < win" "win < 2 ^ 29" by (auto dest: replay_inv_length)
  then show 1: "unat (of_nat win :: u32) = win" by (simp add: unat_of_nat_small)
  with win show 2: "unat (of_nat win * 8 :: u32) = 8 * win" by (simp add: unat_mult_small)
  with assms show "unat (rw_inseqno w + of_nat win * 8) = unat (rw_inseqno w) + 8 * win"
    by (simp add: unat_add_small replay_inv_def)
  from 1 win show "(0::u32) < of_nat win" by (simp add: word_less_nat_alt)
qed

text \<open>The check, read on numbers.\<close>

lemma check_nat:
  assumes inv: "replay_inv win w H"
  shows "check w s u =
    (if s = rw_inseqno w then (Inr (), check_commit w s u)
     else if unat (rw_inseqno w) + 8 * win \<le> unat s then
       (let w1 = (if u then w\<lparr>rw_farfuture := rw_farfuture w + 1\<rparr> else w)
        in if unat (rw_farfuture w) < win div 4 then (Inl BadSeqno, w1)
           else (Inr (), check_commit (if u then w1\<lparr>rw_late := replicate win 0xFF\<rparr> else w1) s u))
     else if unat s < unat (rw_inseqno w) then
       (if unat s + 8 * win < unat (rw_inseqno w) \<or> \<not> late_bit (rw_late w) (unat s)
        then (Inl BadSeqno, w) else (Inr (), check_commit w s u))
     else (Inr (), check_commit
       (if u then w\<lparr>rw_late := mark_range (rw_late w) (rw_inseqno w) s\<rparr> else w) s u))"
proof -
  note win = replay_inv_length [OF inv] and words = window_words [OF inv]
  have old: "of_nat win * 8 \<le> rw_inseqno w \<and> s < rw_inseqno w - of_nat win * 8 \<longleftrightarrow>
             unat s + 8 * win < unat (rw_inseqno w)"
    using words(2) by (auto simp: word_le_nat_alt word_less_nat_alt unat_sub)
  have early: "rw_farfuture w < drop_bit 2 (of_nat win) \<longleftrightarrow> unat (rw_farfuture w) < win div 4"
    using words(1) by (simp add: word_less_nat_alt drop_bit_eq_div unat_div)
  have test: "rw_late w ! late_idx (rw_late w) s AND late_mask s = 0 \<longleftrightarrow> \<not> late_bit (rw_late w) (unat s)"
    using win by (intro late_test_iff) auto
  have far: "rw_inseqno w + of_nat win * 8 \<le> s \<longleftrightarrow> unat (rw_inseqno w) + 8 * win \<le> unat s"
    by (simp add: word_le_nat_alt words(3))
  have past: "s < rw_inseqno w \<longleftrightarrow> unat s < unat (rw_inseqno w)"
    by (simp add: word_less_nat_alt)
  show ?thesis
    unfolding check_def Let_def
    using win words(4) by (simp add: old early test far past)
qed

lemma check_commit_inv:
  assumes "length (rw_late w) = win" "0 < win" "seq_ok win s"
    and "unat (rw_inseqno w) + 8 * win < 2 ^ 32"
    and n: "n = max (unat (rw_inseqno w)) (Suc (unat s))"
    and "\<forall>h\<in>H. h < n"
    and "\<And>k. \<lbrakk>k < n; n \<le> k + 8 * win; k \<noteq> unat s\<rbrakk> \<Longrightarrow> late_bit (rw_late w) k \<longleftrightarrow> k \<notin> H"
    and "n \<le> unat s + 8 * win"
  shows "replay_inv win (check_commit w s True) (insert (unat s) H)"
proof -
  have len: "length (rw_late w) < 2 ^ 32" and "rw_late w \<noteq> []" using assms(1-3) by (auto simp: seq_ok_def)
  have succ: "unat (s + 1) = Suc (unat s)" using assms(3) by (simp add: seq_ok_def unat_add_small)
  have in': "unat (rw_inseqno (check_commit w s True)) = n"
    using n succ \<open>rw_late w \<noteq> []\<close> by (auto simp: check_commit_def Let_def word_le_nat_alt)
  have late': "rw_late (check_commit w s True) = clear_late (rw_late w) s"
    using \<open>rw_late w \<noteq> []\<close> by (simp add: check_commit_def Let_def)
  have bits: "late_bit (clear_late (rw_late w) s) k \<longleftrightarrow> k \<notin> insert (unat s) H"
    if "k < n" "n \<le> k + 8 * win" for k
  proof -
    have "k mod (8 * win) = unat s mod (8 * win) \<longleftrightarrow> k = unat s"
      using mod_window_inj [of k "8 * win" "unat s"] that assms(8) n by auto
    then show ?thesis using late_bit_clear_late [of "rw_late w" s k] len assms(1,2,7) that by auto
  qed
  have "n + 8 * win < 2 ^ 32" using n assms(3,4) by (auto simp: seq_ok_def max_def)
  moreover have "\<forall>h\<in>insert (unat s) H. h < n" using assms(6) n by auto
  ultimately show ?thesis using bits assms(1,2) unfolding replay_inv_def in' late' by simp
qed

lemma check_reject_inv:
  "replay_inv win w H \<Longrightarrow> check w s True = (Inl e, w') \<Longrightarrow> replay_inv win w' H"
  by (auto simp: check_nat Let_def split: if_splits)

lemma check_accept_inv:
  assumes inv: "replay_inv win w H" and ok: "seq_ok win s" and acc: "check w s True = (Inr (), w')"
  shows "unat s \<notin> H \<and> replay_inv win w' (insert (unat s) H)"
proof -
  let ?n = "unat (rw_inseqno w)" and ?s = "unat s"
  note win = replay_inv_length [OF inv]
  have bound: "?n + 8 * win < 2 ^ 32" and below: "\<forall>h\<in>H. h < ?n"
    and bits: "\<And>k. k < ?n \<Longrightarrow> ?n \<le> k + 8 * win \<Longrightarrow> late_bit (rw_late w) k \<longleftrightarrow> k \<notin> H"
    using inv by (auto simp: replay_inv_def)
  have len: "length (rw_late w) < 2 ^ 32" "0 < length (rw_late w)" using win by auto
  consider (expected) "s = rw_inseqno w" | (far) "?n + 8 * win \<le> ?s" | (past) "?s < ?n"
    | (near) "?n < ?s" "?s < ?n + 8 * win"
    by (metis linorder_neqE_nat not_le unsigned_word_eqI)
  then show ?thesis
  proof cases
    case expected
    with acc check_nat [OF inv] have "w' = check_commit w s True" by simp
    then show ?thesis using expected win ok bound below bits
      by (auto intro!: check_commit_inv [where n = "Suc ?s"] simp: less_Suc_eq Suc_le_eq)
  next
    case far
    let ?w = "w\<lparr>rw_farfuture := rw_farfuture w + 1, rw_late := replicate win 0xFF\<rparr>"
    from far acc check_nat [OF inv, of s True] win have w': "w' = check_commit ?w s True"
      by (auto simp: Let_def split: if_splits)
    have "replay_inv win (check_commit ?w s True) (insert ?s H)"
      using far win ok bound below
      by (intro check_commit_inv [where n = "Suc ?s"]) (auto simp: late_bit_replicate_FF)
    with w' far win below show ?thesis by auto
  next
    case past
    then have "s \<noteq> rw_inseqno w" "\<not> ?n + 8 * win \<le> ?s" by auto
    with past acc check_nat [OF inv, of s True]
    have w': "w' = check_commit w s True" and "?n \<le> ?s + 8 * win" "late_bit (rw_late w) ?s"
      by (auto split: if_splits)
    with past win ok bound below bits show ?thesis
      by (auto intro!: check_commit_inv [where n = ?n])
  next
    case near
    let ?w = "w\<lparr>rw_late := mark_range (rw_late w) (rw_inseqno w) s\<rparr>"
    from near have "s \<noteq> rw_inseqno w" by auto
    with near acc check_nat [OF inv, of s True] have w': "w' = check_commit ?w s True"
      by (auto split: if_splits)
    have mark: "late_bit (rw_late ?w) k \<longleftrightarrow> k \<notin> H"
      if "k < Suc ?s" "Suc ?s \<le> k + 8 * win" "k \<noteq> ?s" for k
    proof -
      have "(\<exists>i\<in>{?n..<?s}. k mod (8 * win) = i mod (8 * win)) \<longleftrightarrow> ?n \<le> k"
        using mod_window_inj [of k "8 * win"] that by fastforce
      then show ?thesis
        using late_bit_mark_range [OF len(2,1), of "rw_inseqno w" s k] win that near bits below
        by (cases "?n \<le> k") auto
    qed
    have "replay_inv win (check_commit ?w s True) (insert ?s H)"
      using near win ok bound below mark
      by (intro check_commit_inv [where n = "Suc ?s"]) auto
    with w' near below show ?thesis by auto
  qed
qed

section \<open>The contract of a replay guard\<close>

text \<open>Offering a sequence of numbers to a guard: the accepted ones in order, and the last state.\<close>

fun run_guard :: "('s \<Rightarrow> 'n \<Rightarrow> ('e + unit) \<times> 's) \<Rightarrow> 's \<Rightarrow> 'n list \<Rightarrow> 'n list \<times> 's" where
  "run_guard f s [] = ([], s)"
| "run_guard f s (n # ns) =
     (case f s n of
        (Inr u, s') \<Rightarrow> (case run_guard f s' ns of (acc, t) \<Rightarrow> (n # acc, t))
      | (Inl e, s') \<Rightarrow> run_guard f s' ns)"

text \<open>
  \<open>inv s H\<close> reads: state \<open>s\<close> may follow the acceptance of exactly the numbers in \<open>H\<close>. A guard
  accepts a legitimate number only if it is not in \<open>H\<close>, and a rejection keeps \<open>H\<close>.
\<close>

locale replay_guard =
  fixes accept :: "'s \<Rightarrow> 'n \<Rightarrow> ('e + unit) \<times> 's"
    and inv :: "'s \<Rightarrow> 'n set \<Rightarrow> bool"
    and legit :: "'n \<Rightarrow> bool"
  assumes accept_fresh:
    "inv s H \<Longrightarrow> legit n \<Longrightarrow> accept s n = (Inr (), s') \<Longrightarrow> n \<notin> H \<and> inv s' (insert n H)"
  and reject_keeps:
    "inv s H \<Longrightarrow> legit n \<Longrightarrow> accept s n = (Inl e, s') \<Longrightarrow> inv s' H"
begin

lemma run_guard_inv:
  assumes "inv s H" "\<forall>n\<in>set ns. legit n" "run_guard accept s ns = (acc, t)"
  shows "distinct acc \<and> set acc \<inter> H = {} \<and> inv t (set acc \<union> H)"
  using assms
proof (induction ns arbitrary: s H acc)
  case Nil
  then show ?case by simp
next
  case (Cons n ns)
  obtain r s' where step: "accept s n = (r, s')" by (rule prod.exhaust)
  show ?case
  proof (cases r)
    case (Inl e)
    from reject_keeps [OF Cons.prems(1) _ step [unfolded Inl]] Cons.prems(2) have "inv s' H" by simp
    moreover from step Inl Cons.prems(3) have "run_guard accept s' ns = (acc, t)" by simp
    ultimately show ?thesis using Cons.IH [of s' H acc] Cons.prems(2) by simp
  next
    case (Inr u)
    with step have acc1: "accept s n = (Inr (), s')" by simp
    obtain acc' t' where rec: "run_guard accept s' ns = (acc', t')" by (rule prod.exhaust)
    from Cons.prems(3) have eqs: "acc = n # acc'" "t' = t" by (simp_all add: acc1 rec)
    from accept_fresh [OF Cons.prems(1) _ acc1] Cons.prems(2)
    have fresh: "n \<notin> H" "inv s' (insert n H)" by auto
    from Cons.IH [OF this(2) _ rec [unfolded eqs(2)]] Cons.prems(2)
    have "distinct acc' \<and> set acc' \<inter> insert n H = {} \<and> inv t (set acc' \<union> insert n H)" by simp
    with fresh show ?thesis by (auto simp: eqs(1))
  qed
qed

lemma run_guard_distinct:
  "inv s {} \<Longrightarrow> \<forall>n\<in>set ns. legit n \<Longrightarrow> distinct (fst (run_guard accept s ns))"
  using run_guard_inv [of s "{}" ns "fst (run_guard accept s ns)" "snd (run_guard accept s ns)"]
  by simp

end

interpretation window: replay_guard check_public "\<lambda>w H. replay_inv win w (unat ` H)" "seq_ok win"
  for win
proof
  fix w w' :: replay_window and H :: "u32 set" and n :: u32
  assume "replay_inv win w (unat ` H)" "seq_ok win n" "check_public w n = (Inr (), w')"
  then show "n \<notin> H \<and> replay_inv win w' (unat ` insert n H)"
    using check_accept_inv [of win w "unat ` H" n w'] by (auto simp: check_public_def)
next
  fix w w' :: replay_window and H :: "u32 set" and n :: u32 and e
  assume "replay_inv win w (unat ` H)" "check_public w n = (Inl e, w')"
  then show "replay_inv win w' (unat ` H)"
    by (auto simp: check_public_def intro: check_reject_inv)
qed

section \<open>Properties\<close>

lemma check_fresh_accepted:
  assumes "replay_inv win w H" "unat s \<notin> H"
    and "unat (rw_inseqno w) \<le> unat s + 8 * win" "unat s < unat (rw_inseqno w) + 8 * win"
  shows "fst (check w s u) = Inr ()"
  using assms by (auto simp: check_nat Let_def) (auto simp: replay_inv_def)

text \<open>
  C3. However packets are reordered, duplicated or replayed, the replay window accepts each
  sequence number at most once, as long as no number comes within one window of \<open>2 ^ 32\<close>.
\<close>

theorem replay_at_most_once:
  assumes "0 < win" "8 * win < 2 ^ 32" "\<forall>n\<in>set ns. unat n + 8 * win + 1 < 2 ^ 32"
  shows "distinct (fst (run_guard check_public (replay_new win) ns))"
  using assms window.run_guard_distinct [of win "replay_new win" ns]
  by (simp add: replay_inv_new seq_ok_def)

theorem replay_at_most_once_witness:
  "fst (run_guard check_public (replay_new 16) [0, 1, 1, 5, 3, 3, 5, 2]) = [0, 1, 5, 3, 2] \<and>
   distinct (fst (run_guard check_public (replay_new 16) [0, 1, 1, 5, 3, 3, 5, 2]))"
proof -
  have "fst (run_guard check_public (replay_new 16) [0, 1, 1, 5, 3, 3, 5, 2]) = [0, 1, 5, 3, 2]"
    by code_simp
  moreover have "distinct (fst (run_guard check_public (replay_new 16) [0, 1, 1, 5, 3, 3, 5, 2]))"
    by (rule replay_at_most_once) simp_all
  ultimately show ?thesis by blast
qed

text \<open>
  C18. Reordering inside the window never loses a packet: after any sequence of offers, a number
  that was not accepted before, is not older than the window and not further ahead than the window
  is accepted, as long as no number offered before comes within one window of \<open>2 ^ 32\<close>.
\<close>

theorem replay_accepts_fresh:
  assumes "0 < win" "8 * win < 2 ^ 32" "\<forall>n\<in>set ns. unat n + 8 * win + 1 < 2 ^ 32"
    and run: "run_guard check_public (replay_new win) ns = (acc, w)"
    and "n \<notin> set acc"
    and "unat (rw_inseqno w) \<le> unat n + 8 * win" "unat n < unat (rw_inseqno w) + 8 * win"
  shows "fst (check_public w n) = Inr ()"
proof -
  have "replay_inv win w (unat ` (set acc \<union> {}))"
    using window.run_guard_inv [of win "replay_new win" "{}" ns acc w] assms(1-4)
    by (simp add: replay_inv_new seq_ok_def)
  moreover have "unat n \<notin> unat ` (set acc \<union> {})" using assms(5) by (auto dest: unsigned_word_eqI)
  ultimately show ?thesis using assms(6,7) by (auto simp: check_public_def intro: check_fresh_accepted)
qed

theorem replay_accepts_fresh_witness:
  "fst (check_public (snd (run_guard check_public (replay_new 16) [7, 2])) 4) = Inr ()"
proof -
  let ?r = "run_guard check_public (replay_new 16) [7, 2]"
  have "fst ?r = [7, 2]" "rw_inseqno (snd ?r) = 8" by code_simp+
  then have run: "?r = ([7, 2], snd ?r)" and "unat (rw_inseqno (snd ?r)) = 8"
    by (metis prod.collapse, simp)
  then show ?thesis by (intro replay_accepts_fresh [OF _ _ _ run]) simp_all
qed

text \<open>
  Verifying a datagram without committing it (\<open>update = false\<close>) gives the same verdict as
  committing it and leaves the window unchanged.
\<close>

lemma check_peek: "check w s False = (fst (check w s True), w)"
  by (simp add: check_def check_commit_def Let_def)

text \<open>
  The bound on the numbers is needed. Close to \<open>2 ^ 32\<close> the sum \<open>inseqno + 8 * win\<close> wraps, so numbers
  just behind the expected one count as far future; after \<open>win / 4\<close> rejections the default window
  of 16 bytes accepts a number a second time.
\<close>

lemma replay_wrap_accepts_twice:
  "fst (run_guard check_public (replay_new 16) (replicate 10 0xFFFFFFF7)) =
   [0xFFFFFFF7, 0xFFFFFFF7]"
  by code_simp

end
