(* ===== verification/Sptps.thy ===== *)
theory Sptps
  imports Crypto Replay_Window
begin

text \<open>
  The SPTPS session state machine of \<open>src/crates/tinc-sptps/src/state.rs\<close>: records on the wire,
  the authenticated key exchange with its rekeying, the stream and datagram framings and the
  hot-path seal and open of datagrams. A session is the record \<open>sptps\<close>; the random generator and
  the vector of outputs that the code passes by \<open>&mut\<close> travel beside it.
\<close>

section \<open>Data\<close>

definition NONCE_LEN :: nat where "NONCE_LEN = 32"
definition KEX_LEN :: nat where "KEX_LEN = 1 + NONCE_LEN + ECDH_PUBLIC_LEN"
definition VERSION :: u8 where "VERSION = 0"
definition REC_HANDSHAKE :: u8 where "REC_HANDSHAKE = 128"
definition DATAGRAM_OVERHEAD :: nat where "DATAGRAM_OVERHEAD = 21"

datatype role = Initiator | Responder

fun is_initiator :: "role \<Rightarrow> bool" where
  "is_initiator Initiator = True"
| "is_initiator Responder = False"

datatype framing = Stream | Datagram

datatype sptps_output = Wire u8 bytes | Record u8 bytes | HandshakeDone

datatype state = Kex | SecondaryKex | Sig | Ack | Confirm

record stream_buf =
  sb_buf :: bytes
  sb_reclen :: u16

record sptps =
  sp_role :: role
  sp_framing :: framing
  sp_state :: state
  sp_stream :: stream_buf
  sp_replay :: replay_window
  sp_incipher :: "sptps_cipher option"
  sp_inseqno :: u32
  sp_outcipher :: "sptps_cipher option"
  sp_outseqno :: u64
  sp_out_key_base :: u64
  sp_mykex :: "bytes option"
  sp_hiskex :: "bytes option"
  sp_ecdh :: "bytes option"
  sp_mlkem :: "bytes option"
  sp_mlkem_encap :: "(bytes \<times> bytes) option"
  sp_key :: "bytes option"
  sp_mykey :: signing_key
  sp_hiskey :: bytes
  sp_label :: bytes
  sp_aead :: sptps_aead
  sp_kex :: sptps_kex

text \<open>
  Results: a value, an error of the code, or a panic (an \<open>expect\<close> or \<open>unwrap\<close> that fires). An
  operation takes the session, the random generator and the outputs so far, and returns all three
  also on errors, since what it wrote before an early return stays written.
\<close>

datatype 'a res = Ok 'a | Err sptps_error | Panic

type_synonym 'g cfg = "sptps \<times> 'g \<times> sptps_output list"
type_synonym ('g, 'a) sp_op = "'g cfg \<Rightarrow> 'a res \<times> 'g cfg"

definition ret :: "'a \<Rightarrow> ('g, 'a) sp_op" where
  "ret x c = (Ok x, c)"

definition throw :: "sptps_error \<Rightarrow> ('g, 'a) sp_op" where
  "throw e c = (Err e, c)"

definition panic :: "('g, 'a) sp_op" where
  "panic c = (Panic, c)"

definition andThen :: "('g, 'a) sp_op \<Rightarrow> ('a \<Rightarrow> ('g, 'b) sp_op) \<Rightarrow> ('g, 'b) sp_op" where
  "andThen f k c =
     (case f c of (Ok x, c') \<Rightarrow> k x c' | (Err e, c') \<Rightarrow> (Err e, c') | (Panic, c') \<Rightarrow> (Panic, c'))"

definition self :: "(sptps \<Rightarrow> ('g, 'a) sp_op) \<Rightarrow> ('g, 'a) sp_op" where
  "self k c = k (fst c) c"

definition modify :: "(sptps \<Rightarrow> sptps) \<Rightarrow> ('g, unit) sp_op" where
  "modify f c = (Ok (), (f (fst c), snd c))"

definition push_out :: "sptps_output \<Rightarrow> ('g, unit) sp_op" where
  "push_out o' c = (Ok (), (fst c, fst (snd c), snd (snd c) @ [o']))"

definition draw :: "('g \<Rightarrow> 'a \<times> 'g) \<Rightarrow> ('g, 'a) sp_op" where
  "draw f c = (let (x, g) = f (fst (snd c)) in (Ok x, (fst c, g, snd (snd c))))"

definition expect :: "'a option \<Rightarrow> ('g, 'a) sp_op" where
  "expect v = (case v of Some x \<Rightarrow> ret x | None \<Rightarrow> panic)"

definition ok_or :: "sptps_error \<Rightarrow> 'a option \<Rightarrow> ('g, 'a) sp_op" where
  "ok_or e v = (case v of Some x \<Rightarrow> ret x | None \<Rightarrow> throw e)"

definition expect_ok :: "('g, 'a) sp_op \<Rightarrow> ('g, 'a) sp_op" where
  "expect_ok f c = (case f c of (Err _, c') \<Rightarrow> (Panic, c') | r \<Rightarrow> r)"

lemmas op_defs = ret_def throw_def panic_def andThen_def self_def modify_def push_out_def draw_def
  expect_def ok_or_def expect_ok_def

section \<open>Helpers\<close>

definition sig_transcript :: "bool \<Rightarrow> bytes \<Rightarrow> bytes \<Rightarrow> bytes \<Rightarrow> bytes" where
  "sig_transcript b kex_a kex_b label = [if b then 1 else 0] @ kex_a @ kex_b @ label"

definition key_half :: "bytes \<Rightarrow> bool \<Rightarrow> bool \<Rightarrow> bytes" where
  "key_half key initiator outbound =
     (if initiator = outbound then drop CIPHER_KEY_LEN key else take CIPHER_KEY_LEN key)"

definition SEAL_KEY_LIMIT :: u64 where "SEAL_KEY_LIMIT = 2 ^ 32 - 2 ^ 16"
definition SEAL_REKEY_THRESHOLD :: u64 where "SEAL_REKEY_THRESHOLD = SEAL_KEY_LIMIT div 2"

fun kex_len :: "sptps_kex \<Rightarrow> nat" where
  "kex_len X25519 = KEX_LEN"
| "kex_len X25519MlKem768 = KEX_LEN + MLKEM_EK_LEN"

fun sig_len :: "sptps_kex \<Rightarrow> nat" where
  "sig_len X25519 = SIG_LEN"
| "sig_len X25519MlKem768 = SIG_LEN + MLKEM_CT_LEN"

definition MAX_PREAUTH_RECLEN :: nat where
  "MAX_PREAUTH_RECLEN =
     (let kex = kex_len X25519MlKem768; sig = sig_len X25519MlKem768
      in (if kex > sig then kex else sig) + 16)"

section \<open>Sending records\<close>

definition send_record_priv :: "'g prims \<Rightarrow> u8 \<Rightarrow> bytes \<Rightarrow> ('g, unit) sp_op" where
  "send_record_priv P ty body =
     self (\<lambda>s. let seqno = ucast (sp_outseqno s) :: u32 in
       andThen (modify (\<lambda>s. s\<lparr>sp_outseqno := sp_outseqno s + 1\<rparr>)) (\<lambda>_.
       if sp_framing s = Stream \<and> length body > 65535 then panic
       else
         let wire = (case sp_framing s of
                       Stream \<Rightarrow> u16_be (of_nat (length body)) | Datagram \<Rightarrow> u32_be seqno);
             wire = (case sp_outcipher s of
                       Some cipher \<Rightarrow> cipher_seal_into P cipher (ucast seqno) ty body wire (length wire)
                     | None \<Rightarrow> wire @ [ty] @ body)
         in push_out (Wire ty wire)))"

definition sealed_count :: "sptps \<Rightarrow> u64" where
  "sealed_count s = sp_outseqno s - sp_out_key_base s"

definition rekey_due :: "sptps \<Rightarrow> bool" where
  "rekey_due s \<longleftrightarrow> sealed_count s \<ge> SEAL_REKEY_THRESHOLD"

definition needs_rekey :: "sptps \<Rightarrow> bool" where
  "needs_rekey s \<longleftrightarrow> sealed_count s \<ge> SEAL_KEY_LIMIT"

definition app_send_ready :: "sptps \<Rightarrow> bool" where
  "app_send_ready s \<longleftrightarrow> sp_outcipher s \<noteq> None \<and> sp_state s \<noteq> Confirm"

definition send_record :: "'g prims \<Rightarrow> u8 \<Rightarrow> bytes \<Rightarrow> ('g, unit) sp_op" where
  "send_record P record_type body =
     self (\<lambda>s.
       if \<not> app_send_ready s \<or> record_type \<ge> REC_HANDSHAKE \<or> needs_rekey s then throw InvalidState
       else if sp_framing s = Stream \<and> length body > 65535 then throw InvalidState
       else send_record_priv P record_type body)"

section \<open>Datagram hot path\<close>

definition alloc_seqnos :: "sptps \<Rightarrow> u32 \<Rightarrow> u32 option \<times> sptps" where
  "alloc_seqnos s n =
     (let prev = sp_outseqno s;
          s = s\<lparr>sp_outseqno := sp_outseqno s + ucast n\<rparr>
      in if prev - sp_out_key_base s \<ge> SEAL_KEY_LIMIT then (None, s) else (Some (ucast prev), s))"

definition outcipher_key :: "sptps \<Rightarrow> bytes option" where
  "outcipher_key s =
     (case sp_outcipher s of
        Some c \<Rightarrow> if sp_state s \<noteq> Confirm then Some (ci_key c) else None | None \<Rightarrow> None)"

definition incipher_key :: "sptps \<Rightarrow> bytes option" where
  "incipher_key s =
     (case sp_incipher s of
        Some c \<Rightarrow> if sp_state s \<noteq> Confirm then Some (ci_key c) else None | None \<Rightarrow> None)"

text \<open>The buffer \<open>out\<close> is returned beside the result.\<close>

definition seal_with_seqno ::
    "'g prims \<Rightarrow> sptps \<Rightarrow> u32 \<Rightarrow> u8 \<Rightarrow> bytes \<Rightarrow> bytes \<Rightarrow> nat \<Rightarrow> unit res \<times> bytes" where
  "seal_with_seqno P s seqno record_type body out headroom =
     (if sp_framing s \<noteq> Datagram \<or> record_type \<ge> REC_HANDSHAKE \<or> sp_state s = Confirm
      then (Err InvalidState, out)
      else case sp_outcipher s of
        None \<Rightarrow> (Err InvalidState, out)
      | Some cipher \<Rightarrow>
          (let out = replicate headroom 0 @ u32_be seqno
           in (Ok (), cipher_seal_into P cipher (ucast seqno) record_type body out (headroom + 4))))"

definition seal_data_into ::
    "'g prims \<Rightarrow> sptps \<Rightarrow> u8 \<Rightarrow> bytes \<Rightarrow> bytes \<Rightarrow> nat \<Rightarrow> unit res \<times> sptps \<times> bytes" where
  "seal_data_into P s record_type body out headroom =
     (if sp_framing s \<noteq> Datagram \<or> record_type \<ge> REC_HANDSHAKE then (Err InvalidState, s, out)
      else if \<not> app_send_ready s then (Err InvalidState, s, out)
      else case alloc_seqnos s 1 of
        (None, s) \<Rightarrow> (Err InvalidState, s, out)
      | (Some seqno, s) \<Rightarrow>
          (case seal_with_seqno P s seqno record_type body out headroom of (r, out) \<Rightarrow> (r, s, out)))"

definition open_with_seqno ::
    "'g prims \<Rightarrow> sptps \<Rightarrow> bytes \<Rightarrow> bytes \<Rightarrow> nat \<Rightarrow> (u32 \<times> u8) res \<times> bytes" where
  "open_with_seqno P s data out headroom =
     (if sp_framing s \<noteq> Datagram \<or> sp_state s = Confirm then (Err InvalidState, out)
      else case sp_incipher s of
        None \<Rightarrow> (Err InvalidState, out)
      | Some cipher \<Rightarrow>
          if length data < 21 then (Err BadSeqno, out)
          else
            let seqno = be_u32 (data ! 0) (data ! 1) (data ! 2) (data ! 3);
                out = replicate headroom 0;
                (ok, out) = cipher_open_into P cipher (ucast seqno) (drop 4 data) out headroom
            in if \<not> ok then (Err DecryptFailed, out)
               else if length out \<le> headroom then (Panic, out)
               else
                 let ty = out ! headroom
                 in if ty \<ge> REC_HANDSHAKE then (Err BadRecord, take headroom out)
                    else (Ok (seqno, ty), out))"

definition open_data_into ::
    "'g prims \<Rightarrow> sptps \<Rightarrow> bytes \<Rightarrow> bytes \<Rightarrow> nat \<Rightarrow> u8 res \<times> sptps \<times> bytes" where
  "open_data_into P s data out headroom =
     (if sp_framing s \<noteq> Datagram then (Err InvalidState, s, out)
      else case open_with_seqno P s data out headroom of
        (Err e, out) \<Rightarrow> (Err e, s, out)
      | (Panic, out) \<Rightarrow> (Panic, s, out)
      | (Ok (seqno, ty), out) \<Rightarrow>
          (case check (sp_replay s) seqno True of
             (Inl e, w) \<Rightarrow> (Err e, s\<lparr>sp_replay := w\<rparr>, take headroom out)
           | (Inr _, w) \<Rightarrow>
               (Ok ty, s\<lparr>sp_replay := w\<rparr>, take headroom out @ drop (headroom + 1) out)))"

definition replay_check :: "sptps \<Rightarrow> u32 \<Rightarrow> unit res \<times> sptps" where
  "replay_check s seqno =
     (case check (sp_replay s) seqno True of
        (Inl e, w) \<Rightarrow> (Err e, s\<lparr>sp_replay := w\<rparr>) | (Inr _, w) \<Rightarrow> (Ok (), s\<lparr>sp_replay := w\<rparr>))"

section \<open>Sending handshake messages\<close>

definition send_kex :: "'g prims \<Rightarrow> ('g, unit) sp_op" where
  "send_kex P =
     self (\<lambda>s. if sp_mykex s \<noteq> None then throw InvalidState else
       andThen (draw (p_fill P NONCE_LEN)) (\<lambda>nonce.
       andThen (draw (p_fill P 32)) (\<lambda>seed.
       let (ecdh, pubkey) = ecdh_from_seed P seed; kex = [VERSION] @ nonce @ pubkey in
       andThen
         (if sp_kex s = X25519MlKem768 then
            andThen (draw (p_mlkem_generate P)) (\<lambda>(dk, ek).
            andThen (modify (\<lambda>s. s\<lparr>sp_mlkem := Some dk\<rparr>)) (\<lambda>_. ret (kex @ ek)))
          else ret kex) (\<lambda>kex.
       andThen (send_record_priv P REC_HANDSHAKE kex) (\<lambda>_.
       modify (\<lambda>s. s\<lparr>sp_mykex := Some kex, sp_ecdh := Some ecdh\<rparr>))))))"

definition kex_pair :: "('g, bytes \<times> bytes) sp_op" where
  "kex_pair =
     self (\<lambda>s. andThen (expect (sp_mykex s)) (\<lambda>mykex.
       andThen (expect (sp_hiskex s)) (\<lambda>hiskex. ret (mykex, hiskex))))"

definition send_sig :: "'g prims \<Rightarrow> ('g, unit) sp_op" where
  "send_sig P =
     self (\<lambda>s. andThen kex_pair (\<lambda>(mykex, hiskex).
       let msg = sig_transcript (is_initiator (sp_role s)) mykex hiskex (sp_label s) in
       andThen (expect (sign P (sp_mykey s) msg)) (\<lambda>sig.
       case sp_kex s of
         X25519 \<Rightarrow> send_record_priv P REC_HANDSHAKE sig
       | X25519MlKem768 \<Rightarrow>
           andThen (expect (sp_mlkem_encap s)) (\<lambda>(ct, _).
           send_record_priv P REC_HANDSHAKE (sig @ ct)))))"

definition send_ack :: "'g prims \<Rightarrow> ('g, unit) sp_op" where
  "send_ack P = send_record_priv P REC_HANDSHAKE []"

definition force_kex :: "'g prims \<Rightarrow> ('g, unit) sp_op" where
  "force_kex P =
     self (\<lambda>s. if sp_outcipher s = None \<or> sp_state s \<noteq> SecondaryKex then throw InvalidState else
       andThen (modify (\<lambda>s. s\<lparr>sp_state := Kex\<rparr>)) (\<lambda>_. send_kex P))"

text \<open>
  \<open>start_with\<close>: the label gains the two discriminator bytes unless both are zero. \<open>None\<close> is the
  \<open>expect\<close> on the first \<open>send_kex\<close>.
\<close>

definition sptps_init ::
    "role \<Rightarrow> framing \<Rightarrow> sptps_kex \<Rightarrow> signing_key \<Rightarrow> bytes \<Rightarrow> bytes \<Rightarrow> sptps_aead \<Rightarrow> nat \<Rightarrow> sptps" where
  "sptps_init role framing kex mykey hiskey label aead replaywin =
     (let kd = kex_discriminator kex; cd = aead_discriminator aead in
      \<lparr>sp_role = role, sp_framing = framing, sp_state = Kex, sp_stream = \<lparr>sb_buf = [], sb_reclen = 0\<rparr>,
       sp_replay = replay_new replaywin, sp_incipher = None, sp_inseqno = 0, sp_outcipher = None,
       sp_outseqno = 0, sp_out_key_base = 0, sp_mykex = None, sp_hiskex = None, sp_ecdh = None,
       sp_mlkem = None, sp_mlkem_encap = None, sp_key = None, sp_mykey = mykey, sp_hiskey = hiskey,
       sp_label = (if kd \<noteq> 0 \<or> cd \<noteq> 0 then label @ [kd, cd] else label),
       sp_aead = aead, sp_kex = kex\<rparr>)"

definition start_with ::
    "'g prims \<Rightarrow> role \<Rightarrow> framing \<Rightarrow> sptps_kex \<Rightarrow> signing_key \<Rightarrow> bytes \<Rightarrow> bytes \<Rightarrow> sptps_aead \<Rightarrow> nat \<Rightarrow>
     'g \<Rightarrow> 'g cfg option" where
  "start_with P role framing kex mykey hiskey label aead replaywin g =
     (case send_kex P (sptps_init role framing kex mykey hiskey label aead replaywin, g, []) of
        (Ok _, c) \<Rightarrow> Some c | (_, _) \<Rightarrow> None)"

section \<open>Receiving\<close>

definition kex_body_ok :: "sptps \<Rightarrow> bytes \<Rightarrow> bool" where
  "kex_body_ok s body \<longleftrightarrow>
     length body = kex_len (sp_kex s) \<and> body ! 0 = VERSION \<and> sp_hiskex s = None"

definition receive_kex :: "'g prims \<Rightarrow> bytes \<Rightarrow> ('g, unit) sp_op" where
  "receive_kex P body =
     self (\<lambda>s. if \<not> kex_body_ok s body then throw BadKex else
       andThen (modify (\<lambda>s. s\<lparr>sp_hiskex := Some body\<rparr>)) (\<lambda>_.
       andThen
         (if sp_kex s = X25519MlKem768 then
            andThen (draw (mlkem_encapsulate P (drop KEX_LEN body))) (\<lambda>r.
            andThen (ok_or BadKex r) (\<lambda>ctss. modify (\<lambda>s. s\<lparr>sp_mlkem_encap := Some ctss\<rparr>)))
          else ret ()) (\<lambda>_.
       if is_initiator (sp_role s) then send_sig P else ret ())))"

definition key_prefix :: bytes where
  "key_prefix = map (of_nat \<circ> of_char) ''key expansion''"

definition kex_nonce :: "bytes \<Rightarrow> bytes" where
  "kex_nonce kex = take NONCE_LEN (drop 1 kex)"

definition generate_key_material :: "'g prims \<Rightarrow> bytes \<Rightarrow> bytes \<Rightarrow> ('g, unit) sp_op" where
  "generate_key_material P shared kem_hash =
     self (\<lambda>s. andThen kex_pair (\<lambda>(mykex, hiskex).
       let (init_kex, resp_kex) = (if is_initiator (sp_role s) then (mykex, hiskex) else (hiskex, mykex));
           seed = key_prefix @ kex_nonce init_kex @ kex_nonce resp_kex @ sp_label s @ kem_hash;
           key = prf_out P shared seed (2 * CIPHER_KEY_LEN)
       in modify (\<lambda>s. s\<lparr>sp_key := Some key\<rparr>)))"

definition receive_ack :: "bytes \<Rightarrow> ('g, unit) sp_op" where
  "receive_ack body =
     self (\<lambda>s. if body \<noteq> [] then throw BadAck else
       andThen (expect (sp_key s)) (\<lambda>key.
       modify (\<lambda>s. s\<lparr>sp_key := None,
         sp_incipher := Some \<lparr>ci_aead = sp_aead s, ci_key = key_half key (is_initiator (sp_role s)) False\<rparr>\<rparr>)))"

text \<open>The hybrid branch of \<open>receive_sig\<close>: both KEM legs and the transcript hash.\<close>

definition hybrid_key_material :: "'g prims \<Rightarrow> bytes \<Rightarrow> bytes \<Rightarrow> bytes \<Rightarrow> bytes \<Rightarrow> ('g, unit) sp_op" where
  "hybrid_key_material P mykex hiskex x25519 peer_ct =
     self (\<lambda>s. andThen (ok_or InvalidState (sp_mlkem s)) (\<lambda>dk.
       andThen (modify (\<lambda>s. s\<lparr>sp_mlkem := None\<rparr>)) (\<lambda>_.
       let ss_decap = p_mlkem_decap P dk peer_ct; init = is_initiator (sp_role s) in
       andThen (expect (sp_mlkem_encap s)) (\<lambda>(my_ct, ss_encap).
       let (ss_i2r, ss_r2i) = (if init then (ss_encap, ss_decap) else (ss_decap, ss_encap));
           shared = x25519 @ ss_i2r @ ss_r2i;
           (init_ek, resp_ek) = (if init then (drop KEX_LEN mykex, drop KEX_LEN hiskex)
                                 else (drop KEX_LEN hiskex, drop KEX_LEN mykex));
           (ct_i2r, ct_r2i) = (if init then (my_ct, peer_ct) else (peer_ct, my_ct));
           kem_hash = kem_transcript_hash P init_ek resp_ek ct_i2r ct_r2i
       in generate_key_material P shared kem_hash))))"

text \<open>
  \<open>receive_sig\<close>: verify, derive the key material, then (\<open>sig_switch\<close>) answer under the old cipher, drop
  the exchange, acknowledge under the old cipher when rekeying, and only then switch the sending
  cipher.
\<close>

definition sig_switch :: "'g prims \<Rightarrow> ('g, bool) sp_op" where
  "sig_switch P =
     self (\<lambda>s. let was_rekey = sp_outcipher s \<noteq> None in
       andThen (if \<not> is_initiator (sp_role s) then send_sig P else ret ()) (\<lambda>_.
       andThen (modify (\<lambda>s. s\<lparr>sp_mykex := None, sp_hiskex := None, sp_mlkem_encap := None\<rparr>)) (\<lambda>_.
       andThen (if was_rekey then send_ack P else ret ()) (\<lambda>_.
       self (\<lambda>s.
       andThen (expect (sp_key s)) (\<lambda>key.
       andThen (modify (\<lambda>s. s\<lparr>sp_outcipher :=
           Some \<lparr>ci_aead = sp_aead s, ci_key = key_half key (is_initiator (sp_role s)) True\<rparr>,
         sp_out_key_base := sp_outseqno s\<rparr>)) (\<lambda>_. ret was_rekey)))))))"

definition receive_sig :: "'g prims \<Rightarrow> bytes \<Rightarrow> ('g, bool) sp_op" where
  "receive_sig P body =
     self (\<lambda>s. if length body \<noteq> sig_len (sp_kex s) then throw BadSig else
       andThen kex_pair (\<lambda>(mykex, hiskex).
       let msg = sig_transcript (\<not> is_initiator (sp_role s)) hiskex mykex (sp_label s) in
       if \<not> verify P (sp_hiskey s) msg (take SIG_LEN body) then throw BadSig else
       let peer_pub = take (KEX_LEN - (1 + NONCE_LEN)) (drop (1 + NONCE_LEN) hiskex) in
       andThen (ok_or InvalidState (sp_ecdh s)) (\<lambda>ecdh.
       andThen (modify (\<lambda>s. s\<lparr>sp_ecdh := None\<rparr>)) (\<lambda>_.
       andThen (ok_or BadKex (compute_shared P ecdh peer_pub)) (\<lambda>x25519.
       andThen (case sp_kex s of
           X25519 \<Rightarrow> generate_key_material P x25519 []
         | X25519MlKem768 \<Rightarrow> hybrid_key_material P mykex hiskex x25519 (drop SIG_LEN body)) (\<lambda>_.
       sig_switch P))))))"

definition receive_handshake :: "'g prims \<Rightarrow> bytes \<Rightarrow> ('g, unit) sp_op" where
  "receive_handshake P body =
     self (\<lambda>s. if sp_state s = Kex \<or> sp_state s = SecondaryKex then
       andThen
         (if sp_state s = SecondaryKex then
            if \<not> kex_body_ok s body then throw BadKex else send_kex P
          else ret ()) (\<lambda>_.
       andThen (receive_kex P body) (\<lambda>_.
       modify (\<lambda>s. s\<lparr>sp_state := Sig\<rparr>)))
     else if sp_state s = Sig then
       andThen (receive_sig P body) (\<lambda>was_rekey.
       if was_rekey then modify (\<lambda>s. s\<lparr>sp_state := Ack\<rparr>)
       else
         andThen (expect_ok (receive_ack [])) (\<lambda>_.
         case sp_kex s of
           X25519 \<Rightarrow>
             andThen (push_out HandshakeDone) (\<lambda>_. modify (\<lambda>s. s\<lparr>sp_state := SecondaryKex\<rparr>))
         | X25519MlKem768 \<Rightarrow>
             andThen (send_ack P) (\<lambda>_. modify (\<lambda>s. s\<lparr>sp_state := Confirm\<rparr>))))
     else if sp_state s = Ack then
       andThen (receive_ack body) (\<lambda>_.
       andThen (push_out HandshakeDone) (\<lambda>_. modify (\<lambda>s. s\<lparr>sp_state := SecondaryKex\<rparr>)))
     else if body \<noteq> [] then throw BadAck
     else andThen (push_out HandshakeDone) (\<lambda>_. modify (\<lambda>s. s\<lparr>sp_state := SecondaryKex\<rparr>)))"

definition dispatch_record :: "'g prims \<Rightarrow> u8 \<Rightarrow> bytes \<Rightarrow> bool \<Rightarrow> ('g, unit) sp_op" where
  "dispatch_record P ty body encrypted =
     self (\<lambda>s. if ty < REC_HANDSHAKE then
       if \<not> encrypted \<or> sp_state s = Confirm then throw BadRecord else push_out (Record ty body)
     else if ty = REC_HANDSHAKE then receive_handshake P body
     else throw BadRecord)"

definition receive_datagram :: "'g prims \<Rightarrow> bytes \<Rightarrow> ('g, unit) sp_op" where
  "receive_datagram P data =
     self (\<lambda>s. if length data < (if sp_incipher s \<noteq> None then 21 else 5) then throw BadSeqno else
       let seqno = be_u32 (data ! 0) (data ! 1) (data ! 2) (data ! 3); payload = drop 4 data in
       case sp_incipher s of
         None \<Rightarrow>
           if seqno \<noteq> rw_inseqno (sp_replay s) then throw BadSeqno else
           andThen (modify (\<lambda>s. s\<lparr>sp_replay := (sp_replay s)\<lparr>rw_inseqno := seqno + 1\<rparr>\<rparr>)) (\<lambda>_.
           if payload ! 0 \<noteq> REC_HANDSHAKE then throw BadRecord
           else receive_handshake P (drop 1 payload))
       | Some cipher \<Rightarrow>
           andThen (ok_or DecryptFailed (cipher_open P cipher (ucast seqno) payload)) (\<lambda>pt.
           case check (sp_replay s) seqno True of
             (Inl e, w) \<Rightarrow> andThen (modify (\<lambda>s. s\<lparr>sp_replay := w\<rparr>)) (\<lambda>_. throw e)
           | (Inr _, w) \<Rightarrow>
               andThen (modify (\<lambda>s. s\<lparr>sp_replay := w\<rparr>)) (\<lambda>_.
               if pt = [] then panic else dispatch_record P (hd pt) (tl pt) True)))"

text \<open>
  The body of \<open>receive_stream\<close> once the length header is in: read up to \<open>total\<close> bytes, and when the
  record is whole, consume a sequence number, decrypt and dispatch. \<open>want\<close> subtracts \<open>usize\<close>
  values and \<open>pt[0]\<close> indexes the plaintext: either panics when it would underflow.
\<close>

definition receive_stream_body :: "'g prims \<Rightarrow> bytes \<Rightarrow> nat \<Rightarrow> ('g, nat) sp_op" where
  "receive_stream_body P data consumed =
     self (\<lambda>s.
       let reclen = unat (sb_reclen (sp_stream s));
           extra = (if sp_incipher s \<noteq> None then reclen + 1 + TAG_LEN else reclen + 1);
           total = 2 + extra in
       if total < length (sb_buf (sp_stream s)) then panic else
       let want = total - length (sb_buf (sp_stream s));
           n = min want (length data - consumed);
           buf = sb_buf (sp_stream s) @ take n (drop consumed data) in
       andThen (modify (\<lambda>s. s\<lparr>sp_stream := (sp_stream s)\<lparr>sb_buf := buf\<rparr>\<rparr>)) (\<lambda>_.
       if length buf < total then ret (consumed + n) else
       let seqno = sp_inseqno s in
       andThen (modify (\<lambda>s. s\<lparr>sp_inseqno := sp_inseqno s + 1,
         sp_stream := \<lparr>sb_buf = [], sb_reclen = 0\<rparr>\<rparr>)) (\<lambda>_.
       andThen (case sp_incipher s of
           Some cipher \<Rightarrow>
             andThen (ok_or DecryptFailed (cipher_open P cipher (ucast seqno) (drop 2 buf))) (\<lambda>pt.
             if pt = [] then panic else ret (hd pt, tl pt))
         | None \<Rightarrow> ret (buf ! 2, drop 3 buf)) (\<lambda>(ty, body).
       andThen (dispatch_record P ty body (sp_incipher s \<noteq> None)) (\<lambda>_. ret (consumed + n))))))"

definition receive_stream :: "'g prims \<Rightarrow> bytes \<Rightarrow> ('g, nat) sp_op" where
  "receive_stream P data =
     self (\<lambda>s. if length (sb_buf (sp_stream s)) < 2 then
       let n = min (2 - length (sb_buf (sp_stream s))) (length data);
           buf = sb_buf (sp_stream s) @ take n data in
       andThen (modify (\<lambda>s. s\<lparr>sp_stream := (sp_stream s)\<lparr>sb_buf := buf\<rparr>\<rparr>)) (\<lambda>_.
       if length buf < 2 then ret n else
       let reclen = be_u16 (buf ! 0) (buf ! 1) in
       andThen (modify (\<lambda>s. s\<lparr>sp_stream := (sp_stream s)\<lparr>sb_reclen := reclen\<rparr>\<rparr>)) (\<lambda>_.
       if sp_incipher s = None \<and> unat reclen > MAX_PREAUTH_RECLEN then
         andThen (modify (\<lambda>s. s\<lparr>sp_stream := \<lparr>sb_buf = [], sb_reclen = 0\<rparr>\<rparr>)) (\<lambda>_. throw RecordTooLong)
       else if n = length data then ret n
       else receive_stream_body P data n))
     else receive_stream_body P data 0)"

text \<open>
  The outputs of a call stand in the threaded state, so an error leaves those that were produced before it there.
  The code returns them only with \<open>Ok\<close>: whoever reads the outputs of a call looks at its result first, as
  \<open>feed_loop\<close> does, which drops them on an error.
\<close>

definition receive :: "'g prims \<Rightarrow> bytes \<Rightarrow> ('g, nat) sp_op" where
  "receive P data =
     self (\<lambda>s. case sp_framing s of
         Datagram \<Rightarrow> andThen (receive_datagram P data) (\<lambda>_. ret (length data))
       | Stream \<Rightarrow> receive_stream P data)"

section \<open>Weakest preconditions of session operations\<close>

text \<open>
  \<open>wp f Q E s\<close>: from session \<open>s\<close>, whatever the generator and the earlier outputs, \<open>f\<close> does not panic,
  a result satisfies \<open>Q\<close> and an error leaves a session with \<open>E\<close>.
\<close>

definition wp :: "('g, 'a) sp_op \<Rightarrow> ('a \<Rightarrow> sptps \<Rightarrow> bool) \<Rightarrow> (sptps \<Rightarrow> bool) \<Rightarrow> sptps \<Rightarrow> bool" where
  "wp f Q E s \<longleftrightarrow>
     (\<forall>g out. case f (s, g, out) of
        (Ok x, c) \<Rightarrow> Q x (fst c) | (Err _, c) \<Rightarrow> E (fst c) | (Panic, _) \<Rightarrow> False)"

lemma wpD:
  assumes "wp f Q E s" "f (s, g, out) = (r, s', g', out')"
  shows "r \<noteq> Panic" "r = Ok x \<Longrightarrow> Q x s'" "r = Err e \<Longrightarrow> E s'"
proof -
  have "case f (s, g, out) of
      (Ok x, c) \<Rightarrow> Q x (fst c) | (Err _, c) \<Rightarrow> E (fst c) | (Panic, _) \<Rightarrow> False"
    using assms(1) by (simp add: wp_def)
  thus "r \<noteq> Panic" "r = Ok x \<Longrightarrow> Q x s'" "r = Err e \<Longrightarrow> E s'"
    by (auto simp: assms(2) split: res.splits)
qed

lemma wp_ret [simp]: "wp (ret x) Q E s \<longleftrightarrow> Q x s"
  by (simp add: wp_def ret_def)

lemma wp_throw [simp]: "wp (throw e) Q E s \<longleftrightarrow> E s"
  by (simp add: wp_def throw_def)

lemma wp_panic [simp]: "wp panic Q E s \<longleftrightarrow> False"
  by (simp add: wp_def panic_def)

lemma wp_self [simp]: "wp (self k) Q E s \<longleftrightarrow> wp (k s) Q E s"
  by (simp add: wp_def self_def)

lemma wp_modify [simp]: "wp (modify f) Q E s \<longleftrightarrow> Q () (f s)"
  by (simp add: wp_def modify_def)

lemma wp_push_out [simp]: "wp (push_out o') Q E s \<longleftrightarrow> Q () s"
  by (simp add: wp_def push_out_def)

lemma wp_expect [simp]: "wp (expect v) Q E s \<longleftrightarrow> (\<exists>x. v = Some x \<and> Q x s)"
  by (cases v) (simp_all add: expect_def)

lemma wp_ok_or [simp]: "wp (ok_or e v) Q E s \<longleftrightarrow> (case v of Some x \<Rightarrow> Q x s | None \<Rightarrow> E s)"
  by (cases v) (simp_all add: ok_or_def)

lemma wp_draw: "(\<And>g. Q (fst (f g)) s) \<Longrightarrow> wp (draw f) Q E s"
  by (simp add: wp_def draw_def split_beta Let_def)

lemma wp_andThen: "wp f (\<lambda>x. wp (k x) Q E) E s \<Longrightarrow> wp (andThen f k) Q E s"
proof -
  assume f: "wp f (\<lambda>x. wp (k x) Q E) E s"
  show ?thesis
    unfolding wp_def
  proof (intro allI)
    fix g out
    obtain r s' g' out' where c: "f (s, g, out) = (r, s', g', out')" by (metis prod.exhaust)
    show "case andThen f k (s, g, out) of
        (Ok x, c) \<Rightarrow> Q x (fst c) | (Err _, c) \<Rightarrow> E (fst c) | (Panic, _) \<Rightarrow> False"
    proof (cases r)
      case (Ok x)
      hence "wp (k x) Q E s'" using wpD(2) [OF f c] by simp
      thus ?thesis using Ok by (simp add: andThen_def c wp_def)
    qed (use wpD [OF f c] in \<open>simp_all add: andThen_def c\<close>)
  qed
qed

lemma wpI:
  assumes "\<And>g out r s' g' out'. f (s, g, out) = (r, s', g', out') \<Longrightarrow>
      (case r of Ok x \<Rightarrow> Q x s' | Err _ \<Rightarrow> E s' | Panic \<Rightarrow> False)"
  shows "wp f Q E s"
  unfolding wp_def
proof (intro allI)
  fix g out
  obtain r s' g' out' where c: "f (s, g, out) = (r, s', g', out')" by (metis prod.exhaust)
  show "case f (s, g, out) of
      (Ok x, c) \<Rightarrow> Q x (fst c) | (Err _, c) \<Rightarrow> E (fst c) | (Panic, _) \<Rightarrow> False"
    using assms [OF c] by (cases r) (simp_all add: c)
qed

lemma wp_mono:
  assumes f: "wp f Q E s" and "\<And>x s. Q x s \<Longrightarrow> Q' x s" "\<And>s. E s \<Longrightarrow> E' s"
  shows "wp f Q' E' s"
proof (rule wpI)
  fix g out r s' g' out'
  assume "f (s, g, out) = (r, s', g', out')"
  from wpD [OF f this] show "case r of Ok x \<Rightarrow> Q' x s' | Err _ \<Rightarrow> E' s' | Panic \<Rightarrow> False"
    using assms(2,3) by (cases r) auto
qed

section \<open>The session invariant\<close>

definition kex_ok :: "sptps \<Rightarrow> bytes option \<Rightarrow> bool" where
  "kex_ok s k \<longleftrightarrow> (\<forall>b. k = Some b \<longrightarrow> length b = kex_len (sp_kex s))"

definition stream_ok :: "sptps \<Rightarrow> bool" where
  "stream_ok s \<longleftrightarrow> (2 \<le> length (sb_buf (sp_stream s)) \<longrightarrow>
     length (sb_buf (sp_stream s)) <
       3 + unat (sb_reclen (sp_stream s)) + (if sp_incipher s \<noteq> None then TAG_LEN else 0))"

definition sp_core :: "'g prims \<Rightarrow> sptps \<Rightarrow> bool" where
  "sp_core P s \<longleftrightarrow>
     p_point_ok P (sk_public (sp_mykey s)) \<and> stream_ok s \<and>
     kex_ok s (sp_mykex s) \<and> kex_ok s (sp_hiskex s) \<and>
     (\<forall>ct ss. sp_mlkem_encap s = Some (ct, ss) \<longrightarrow> length ct = MLKEM_CT_LEN)"

definition kex_done :: "sptps \<Rightarrow> bool" where
  "kex_done s \<longleftrightarrow> sp_mykex s \<noteq> None \<and> sp_hiskex s \<noteq> None \<and>
     (sp_kex s = X25519MlKem768 \<longrightarrow> sp_mlkem_encap s \<noteq> None)"

definition sp_inv :: "'g prims \<Rightarrow> sptps \<Rightarrow> bool" where
  "sp_inv P s \<longleftrightarrow> sp_core P s \<and>
     (sp_state s = Kex \<longrightarrow> sp_mykex s \<noteq> None) \<and>
     (sp_state s = Sig \<longrightarrow> kex_done s) \<and>
     (sp_state s = Ack \<longrightarrow> sp_key s \<noteq> None)"

lemmas len_defs = KEX_LEN_def NONCE_LEN_def ECDH_PUBLIC_LEN_def MLKEM_EK_LEN_def MLKEM_CT_LEN_def
  SIG_LEN_def TAG_LEN_def CIPHER_KEY_LEN_def

lemma kex_len_bounds: "65 \<le> kex_len k" "kex_len k \<le> 1249"
  by (cases k; simp add: len_defs)+

lemma not_hybrid: "k \<noteq> X25519MlKem768 \<longleftrightarrow> k = X25519"
  by (cases k) simp_all

lemma wp_send_record_priv:
  "sp_framing s = Stream \<longrightarrow> length body \<le> 65535 \<Longrightarrow> Q () (s\<lparr>sp_outseqno := sp_outseqno s + 1\<rparr>) \<Longrightarrow>
   wp (send_record_priv P ty body) Q E s"
  by (auto simp: send_record_priv_def Let_def not_less intro!: wp_andThen)

lemma wp_send_ack:
  "Q () (s\<lparr>sp_outseqno := sp_outseqno s + 1\<rparr>) \<Longrightarrow> wp (send_ack P) Q E s"
  by (simp add: send_ack_def wp_send_record_priv)

lemma wp_send_kex:
  assumes P: "prims_lengths P"
    and E: "sp_mykex s \<noteq> None \<Longrightarrow> E s"
    and Q: "\<And>kex ecdh dk. length kex = kex_len (sp_kex s) \<Longrightarrow> sp_mykex s = None \<Longrightarrow>
      Q () (s\<lparr>sp_mlkem := dk, sp_outseqno := sp_outseqno s + 1, sp_mykex := Some kex, sp_ecdh := Some ecdh\<rparr>)"
  shows "wp (send_kex P) Q E s"
proof (cases "sp_mykex s")
  case (Some a)
  thus ?thesis using E by (simp add: send_kex_def)
next
  case None
  have l: "length (snd (ecdh_from_seed P x)) = 32" for x
    by (simp add: ecdh_from_seed_def Let_def prims_lengthsD [OF P])
  have Q': "Q () (s\<lparr>sp_outseqno := sp_outseqno s + 1, sp_mykex := Some kex, sp_ecdh := Some ecdh\<rparr>)"
    if "length kex = kex_len (sp_kex s)" for kex ecdh
    using Q [OF that None, where dk = "sp_mlkem s" and ecdh = ecdh] by simp
  show ?thesis
    unfolding send_kex_def wp_self using None
    by (auto simp: split_beta Let_def l len_defs prims_lengthsD [OF P] not_hybrid
        intro!: wp_andThen wp_draw wp_send_record_priv Q Q')
qed

lemma wp_send_sig:
  assumes P: "prims_lengths P" and k: "p_point_ok P (sk_public (sp_mykey s))"
    and kex: "sp_mykex s \<noteq> None" "sp_hiskex s \<noteq> None"
    and e: "sp_kex s = X25519MlKem768 \<Longrightarrow> \<exists>ct ss. sp_mlkem_encap s = Some (ct, ss) \<and> length ct = 1088"
    and Q: "Q () (s\<lparr>sp_outseqno := sp_outseqno s + 1\<rparr>)"
  shows "wp (send_sig P) Q E s"
  using k kex e Q
  by (cases "sp_kex s")
     (auto simp: send_sig_def kex_pair_def Let_def sign_def prims_lengthsD [OF P]
        intro!: wp_andThen wp_send_record_priv)

lemma wp_generate_key_material:
  assumes "sp_mykex s \<noteq> None" "sp_hiskex s \<noteq> None" "\<And>key. Q () (s\<lparr>sp_key := Some key\<rparr>)"
  shows "wp (generate_key_material P shared h) Q E s"
  using assms by (auto simp: generate_key_material_def kex_pair_def Let_def split_beta intro!: wp_andThen)

lemma wp_hybrid_key_material:
  assumes "sp_mykex s \<noteq> None" "sp_hiskex s \<noteq> None" "sp_mlkem_encap s \<noteq> None" "E s"
    "\<And>key. Q () (s\<lparr>sp_mlkem := None, sp_key := Some key\<rparr>)"
  shows "wp (hybrid_key_material P mykex hiskex x ct) Q E s"
  using assms
  by (auto simp: hybrid_key_material_def Let_def split_beta split: option.splits
      intro!: wp_andThen wp_generate_key_material)

definition sp_keyed :: "'g prims \<Rightarrow> sptps \<Rightarrow> bool" where
  "sp_keyed P s \<longleftrightarrow> sp_core P s \<and> sp_key s \<noteq> None"

lemmas inv_defs = sp_core_def kex_done_def stream_ok_def kex_ok_def

lemma core_simps [simp]:
  "sp_core P (s\<lparr>sp_outseqno := n\<rparr>) = sp_core P s" "kex_done (s\<lparr>sp_outseqno := n\<rparr>) = kex_done s"
  "sp_core P (s\<lparr>sp_out_key_base := n\<rparr>) = sp_core P s" "kex_done (s\<lparr>sp_out_key_base := n\<rparr>) = kex_done s"
  "sp_core P (s\<lparr>sp_outcipher := oc\<rparr>) = sp_core P s" "kex_done (s\<lparr>sp_outcipher := oc\<rparr>) = kex_done s"
  "sp_core P (s\<lparr>sp_ecdh := ec\<rparr>) = sp_core P s" "kex_done (s\<lparr>sp_ecdh := ec\<rparr>) = kex_done s"
  "sp_core P (s\<lparr>sp_mlkem := dk\<rparr>) = sp_core P s" "kex_done (s\<lparr>sp_mlkem := dk\<rparr>) = kex_done s"
  "sp_core P (s\<lparr>sp_key := k\<rparr>) = sp_core P s" "kex_done (s\<lparr>sp_key := k\<rparr>) = kex_done s"
  "sp_core P (s\<lparr>sp_replay := w\<rparr>) = sp_core P s" "kex_done (s\<lparr>sp_replay := w\<rparr>) = kex_done s"
  "sp_core P (s\<lparr>sp_inseqno := i\<rparr>) = sp_core P s" "kex_done (s\<lparr>sp_inseqno := i\<rparr>) = kex_done s"
  "sp_core P (s\<lparr>sp_state := st\<rparr>) = sp_core P s" "kex_done (s\<lparr>sp_state := st\<rparr>) = kex_done s"
  by (simp_all add: inv_defs)

lemma core_incipher: "sp_core P s \<Longrightarrow> sp_core P (s\<lparr>sp_incipher := Some c\<rparr>)"
  by (auto simp: inv_defs split: if_splits)

lemma wp_send_sig_inv:
  assumes "prims_lengths P" "sp_core P s" "kex_done s" "Q () (s\<lparr>sp_outseqno := sp_outseqno s + 1\<rparr>)"
  shows "wp (send_sig P) Q E s"
  using assms
  by (intro wp_send_sig) (auto simp: inv_defs MLKEM_CT_LEN_def)

lemma core_drop_kex:
  "sp_core P s \<Longrightarrow> sp_core P (s\<lparr>sp_mykex := None, sp_hiskex := None, sp_mlkem_encap := None\<rparr>)"
  by (auto simp: inv_defs)

lemma wp_sig_switch:
  assumes "prims_lengths P" "sp_core P s" "kex_done s" "sp_key s \<noteq> None"
  shows "wp (sig_switch P) (\<lambda>_. sp_keyed P) E s"
  using assms(2-4)
  by (auto simp: sig_switch_def Let_def core_drop_kex sp_keyed_def
      intro!: wp_andThen wp_send_sig_inv [OF assms(1)] wp_send_ack)

lemma wp_receive_sig:
  assumes P: "prims_lengths P" and inv: "sp_core P s" "kex_done s" and E: "sp_state s = Sig"
  shows "wp (receive_sig P body) (\<lambda>_. sp_keyed P) (sp_inv P) s"
proof -
  have e: "sp_inv P s" "sp_inv P (s\<lparr>sp_ecdh := None\<rparr>)" using inv E by (simp_all add: sp_inv_def)
  obtain mykex hiskex where k: "sp_mykex s = Some mykex" "sp_hiskex s = Some hiskex"
    using inv(2) by (auto simp: kex_done_def)
  have h: "sp_kex s = X25519MlKem768 \<Longrightarrow> sp_mlkem_encap s \<noteq> None" using inv(2) by (simp add: kex_done_def)
  show ?thesis
    unfolding receive_sig_def wp_self
    using inv e k h
    by (cases "sp_kex s")
       (auto simp: Let_def kex_pair_def split: option.splits
        intro!: wp_andThen wp_generate_key_material wp_hybrid_key_material wp_sig_switch [OF P])
qed

lemma core_set_kex:
  assumes "sp_core P s" "sp_mykex s \<noteq> None" "kex_body_ok s body"
  shows "sp_core P (s\<lparr>sp_hiskex := Some body\<rparr>)"
    "sp_kex s = X25519 \<Longrightarrow> kex_done (s\<lparr>sp_hiskex := Some body\<rparr>)"
    "length (fst cs) = MLKEM_CT_LEN \<Longrightarrow> sp_core P (s\<lparr>sp_hiskex := Some body, sp_mlkem_encap := Some cs\<rparr>)"
    "kex_done (s\<lparr>sp_hiskex := Some body, sp_mlkem_encap := Some cs\<rparr>)"
  using assms by (auto simp: inv_defs kex_body_ok_def)

lemma wp_receive_kex:
  assumes P: "prims_lengths P" and inv: "sp_core P s" "sp_mykex s \<noteq> None"
    and st: "sp_state s = Kex \<or> sp_state s = SecondaryKex"
  shows "wp (receive_kex P body) (\<lambda>_ s'. sp_core P s' \<and> kex_done s') (sp_inv P) s"
proof (cases "kex_body_ok s body")
  case True
  have e: "sp_inv P (s\<lparr>sp_hiskex := Some body\<rparr>)"
    using inv st core_set_kex(1) [OF inv True] by (auto simp: sp_inv_def)
  show ?thesis
    unfolding receive_kex_def wp_self
    using e True prims_lengthsD(12) [OF P] core_set_kex(1,2) [OF inv True]
    by (auto simp: mlkem_encapsulate_def split_beta Let_def not_hybrid MLKEM_CT_LEN_def split: option.splits
      intro!: wp_andThen wp_send_sig_inv [OF P] wp_draw core_set_kex(3,4) [OF inv True])
next
  case False
  thus ?thesis using inv st by (auto simp: receive_kex_def sp_inv_def)
qed

lemma wp_receive_ack:
  assumes "sp_inv P s" "sp_keyed P s" "\<And>c. sp_core P (s\<lparr>sp_key := None, sp_incipher := Some c\<rparr>) \<Longrightarrow>
      Q () (s\<lparr>sp_key := None, sp_incipher := Some c\<rparr>)"
  shows "wp (receive_ack body) Q (sp_inv P) s"
  using assms core_incipher [of P "s\<lparr>sp_key := None\<rparr>"]
  by (auto simp: receive_ack_def sp_keyed_def intro!: wp_andThen)

lemma wp_send_kex_inv:
  assumes "prims_lengths P" "sp_core P s" "sp_inv P s"
    "\<And>s'. sp_core P s' \<Longrightarrow> sp_mykex s' \<noteq> None \<Longrightarrow> sp_state s' = sp_state s \<Longrightarrow> Q () s'"
  shows "wp (send_kex P) Q (sp_inv P) s"
  using assms(2-) by (intro wp_send_kex [OF assms(1)]) (auto simp: inv_defs)

lemma wp_receive_handshake:
  assumes P: "prims_lengths P" and inv: "sp_inv P s"
  shows "wp (receive_handshake P body) (\<lambda>_. sp_inv P) (sp_inv P) s"
proof (cases "sp_state s")
  case Kex
  thus ?thesis using inv
    by (auto simp: receive_handshake_def sp_inv_def intro!: wp_andThen wp_mono [OF wp_receive_kex [OF P]])
next
  case SecondaryKex
  have core: "sp_core P s" using inv by (simp add: sp_inv_def)
  have kex: "wp (receive_kex P body) (\<lambda>_ s. sp_inv P (s\<lparr>sp_state := Sig\<rparr>)) (sp_inv P) s'"
    if "sp_core P s'" "sp_mykex s' \<noteq> None" "sp_state s' = sp_state s" for s'
    using that SecondaryKex by (intro wp_mono [OF wp_receive_kex [OF P]]) (auto simp: sp_inv_def)
  show ?thesis
    using inv core SecondaryKex
    by (auto simp: receive_handshake_def intro!: wp_andThen wp_send_kex_inv [OF P] wp_mono [OF kex])
next
  case Sig
  have core: "sp_core P s" "kex_done s" using inv Sig by (simp_all add: sp_inv_def)
  have step: "wp (expect_ok (receive_ack [])) (\<lambda>_. sp_core P) (sp_inv P) s'"
    if "sp_keyed P s'" for s'
    using that core_incipher [of P "s'\<lparr>sp_key := None\<rparr>"]
    by (auto simp: wp_def receive_ack_def op_defs sp_keyed_def)
  have post: "wp (if b then modify (\<lambda>s. s\<lparr>sp_state := Ack\<rparr>)
       else
         andThen (expect_ok (receive_ack [])) (\<lambda>_.
         case sp_kex s of
           X25519 \<Rightarrow>
             andThen (push_out HandshakeDone) (\<lambda>_. modify (\<lambda>s. s\<lparr>sp_state := SecondaryKex\<rparr>))
         | X25519MlKem768 \<Rightarrow>
             andThen (send_ack P) (\<lambda>_. modify (\<lambda>s. s\<lparr>sp_state := Confirm\<rparr>)))) (\<lambda>_. sp_inv P) (sp_inv P) s'"
    if "sp_keyed P s'" for b s'
    using that step [OF that]
    by (cases "sp_kex s") (auto simp: sp_keyed_def sp_inv_def intro!: wp_andThen wp_send_ack elim!: wp_mono)
  show ?thesis
    unfolding receive_handshake_def wp_self using Sig
    by (auto intro!: wp_andThen wp_mono [OF wp_receive_sig [OF P core Sig]] post)
next
  case Ack
  thus ?thesis using inv
    by (auto simp: receive_handshake_def sp_inv_def sp_keyed_def intro!: wp_andThen wp_receive_ack)
next
  case Confirm
  thus ?thesis using inv
    by (auto simp: receive_handshake_def sp_inv_def intro!: wp_andThen)
qed

lemma wp_dispatch_record:
  assumes "prims_lengths P" "sp_inv P s"
  shows "wp (dispatch_record P ty body enc) (\<lambda>_. sp_inv P) (sp_inv P) s"
  using assms wp_receive_handshake by (auto simp: dispatch_record_def)

lemma inv_simps [simp]:
  "sp_inv P (s\<lparr>sp_replay := w\<rparr>) = sp_inv P s"
  "sp_inv P (s\<lparr>sp_inseqno := i\<rparr>) = sp_inv P s"
  "sp_inv P (s\<lparr>sp_outseqno := n\<rparr>) = sp_inv P s"
  by (simp_all add: sp_inv_def)

lemma cipher_open_nonempty:
  "prims_lengths P \<Longrightarrow> cipher_open P c n s = Some pt \<Longrightarrow> 16 < length s \<Longrightarrow> pt \<noteq> []"
  by (auto dest: cipher_open_length)

lemma wp_receive_datagram:
  assumes P: "prims_lengths P" and inv: "sp_inv P s"
  shows "wp (receive_datagram P data) (\<lambda>_. sp_inv P) (sp_inv P) s"
proof (cases "sp_incipher s")
  case None
  thus ?thesis using inv
    by (auto simp: receive_datagram_def Let_def intro!: wp_andThen wp_receive_handshake [OF P])
next
  case (Some c)
  have "pt \<noteq> []" if "cipher_open P c n (drop 4 data) = Some pt" "\<not> length data < 21" for n pt
    using cipher_open_nonempty [OF P that(1)] that(2) by simp
  thus ?thesis using inv Some
    by (auto simp: receive_datagram_def Let_def split: option.splits prod.splits sum.splits
        intro!: wp_andThen wp_dispatch_record [OF P])
qed

lemma inv_stream:
  assumes "sp_inv P s"
  shows "2 \<le> length (sb_buf b) \<longrightarrow> length (sb_buf b) <
       3 + unat (sb_reclen b) + (if sp_incipher s \<noteq> None then TAG_LEN else 0) \<Longrightarrow>
    sp_inv P (s\<lparr>sp_stream := b\<rparr>)"
  using assms by (simp add: sp_inv_def inv_defs)

lemma inv_stream_clear [simp]:
  assumes "sp_inv P s"
  shows "sp_inv P (s\<lparr>sp_inseqno := i, sp_stream := \<lparr>sb_buf = [], sb_reclen = r\<rparr>\<rparr>)"
  using assms by (intro inv_stream) simp_all

lemma wp_receive_stream_body:
  assumes P: "prims_lengths P" and inv: "sp_inv P s" and two: "2 \<le> length (sb_buf (sp_stream s))"
  shows "wp (receive_stream_body P data consumed) (\<lambda>_. sp_inv P) (sp_inv P) s"
proof -
  define total where "total = 3 + unat (sb_reclen (sp_stream s)) + (if sp_incipher s \<noteq> None then TAG_LEN else 0)"
  have t: "length (sb_buf (sp_stream s)) < total" using inv two by (simp add: sp_inv_def inv_defs total_def)
  define buf where "buf = sb_buf (sp_stream s) @
    take (min (total - length (sb_buf (sp_stream s))) (length data - consumed)) (drop consumed data)"
  have ne: "pt \<noteq> []" if "cipher_open P c n (drop 2 buf) = Some pt" "sp_incipher s \<noteq> None" "\<not> length buf < total" for c n pt
    using cipher_open_nonempty [OF P that(1)] that by (simp add: total_def TAG_LEN_def split: if_splits)
  have i1: "sp_inv P (s\<lparr>sp_stream := (sp_stream s)\<lparr>sb_buf := buf\<rparr>\<rparr>)" if "length buf < total"
    using that by (intro inv_stream [OF inv]) (simp add: total_def)
  have i2: "sp_inv P (s\<lparr>sp_stream := \<lparr>sb_buf = [], sb_reclen = 0\<rparr>\<rparr>)"
    by (intro inv_stream [OF inv]) simp
  have i3: "sp_inv P (s\<lparr>sp_stream := \<lparr>sb_buf = [], sb_reclen = 0\<rparr>, sp_inseqno := i\<rparr>)" for i
    using i2 by simp
  have tot: "2 + (if sp_incipher s \<noteq> None then unat (sb_reclen (sp_stream s)) + 1 + TAG_LEN
      else unat (sb_reclen (sp_stream s)) + 1) = total"
    by (simp add: total_def)
  show ?thesis
    unfolding receive_stream_body_def wp_self Let_def tot buf_def [symmetric]
    using t i1 i2 i3 ne inv
    by (auto split: option.splits
       intro!: wp_andThen wp_mono [OF wp_dispatch_record [OF P]])
qed

lemma wp_receive_stream:
  assumes P: "prims_lengths P" and inv: "sp_inv P s"
  shows "wp (receive_stream P data) (\<lambda>_. sp_inv P) (sp_inv P) s"
proof (cases "length (sb_buf (sp_stream s)) < 2")
  case True
  define n where "n = min (2 - length (sb_buf (sp_stream s))) (length data)"
  define buf where "buf = sb_buf (sp_stream s) @ take n data"
  have len: "length buf \<le> 2" using True by (simp add: buf_def n_def)
  have i1: "sp_inv P (s\<lparr>sp_stream := (sp_stream s)\<lparr>sb_buf := buf\<rparr>\<rparr>)"
    using len by (intro inv_stream [OF inv]) auto
  have i2: "sp_inv P (s\<lparr>sp_stream := (sp_stream s)\<lparr>sb_buf := buf, sb_reclen := r\<rparr>\<rparr>)" for r
    using len by (intro inv_stream [OF inv]) auto
  have i3: "sp_inv P (s\<lparr>sp_stream := \<lparr>sb_buf = [], sb_reclen = 0\<rparr>\<rparr>)"
    by (intro inv_stream [OF inv]) simp
  show ?thesis
    unfolding receive_stream_def wp_self Let_def n_def [symmetric] buf_def [symmetric]
    using True i1 i2 i3 by (auto intro!: wp_andThen wp_receive_stream_body [OF P])
next
  case False
  thus ?thesis using inv by (auto simp: receive_stream_def intro!: wp_receive_stream_body [OF P])
qed

lemma wp_receive:
  assumes P: "prims_lengths P" and inv: "sp_inv P s"
  shows "wp (receive P data) (\<lambda>_. sp_inv P) (sp_inv P) s"
  by (cases "sp_framing s")
     (auto simp: receive_def intro!: wp_andThen wp_mono [OF wp_receive_datagram [OF P inv]] wp_receive_stream [OF P inv])

lemma wp_send_record:
  "sp_inv P s \<Longrightarrow> wp (send_record P ty body) (\<lambda>_. sp_inv P) (sp_inv P) s"
  by (auto simp: send_record_def intro!: wp_send_record_priv)

lemma wp_force_kex:
  assumes P: "prims_lengths P" and inv: "sp_inv P s"
  shows "wp (force_kex P) (\<lambda>_. sp_inv P) (sp_inv P) s"
  using inv by (auto simp: force_kex_def sp_inv_def inv_defs intro!: wp_andThen wp_send_kex [OF P])

lemma start_with_inv:
  assumes P: "prims_lengths P" and k: "p_point_ok P (sk_public mykey)"
  shows "\<exists>s g' out. start_with P role framing kex mykey hiskey label aead win g = Some (s, g', out) \<and> sp_inv P s"
proof -
  define s0 where "s0 = sptps_init role framing kex mykey hiskey label aead win"
  have s0: "sp_mykex s0 = None" "sp_core P s0" "sp_state s0 = Kex"
    using k by (simp_all add: s0_def sptps_init_def Let_def inv_defs)
  have w: "wp (send_kex P) (\<lambda>_. sp_inv P) (\<lambda>_. False) s0"
    using s0 by (intro wp_send_kex [OF P]) (auto simp: sp_inv_def inv_defs)
  obtain r s g' out where c: "send_kex P (s0, g, []) = (r, s, g', out)" by (metis prod.exhaust)
  show ?thesis using wpD [OF w c]
    by (cases r) (auto simp: start_with_def s0_def [symmetric] c)
qed

lemma open_data_into_no_panic:
  assumes P: "prims_lengths P"
  shows "fst (open_data_into P s data out h) \<noteq> Panic"
proof -
  have "fst (open_with_seqno P s data out h) \<noteq> Panic"
    using cipher_open_nonempty [OF P]
    by (auto simp: open_with_seqno_def Let_def cipher_open_into_eq not_less
        split: option.splits prod.splits if_splits dest: cipher_open_length [OF P])
  thus ?thesis
    by (auto simp: open_data_into_def split: res.splits prod.splits sum.splits)
qed

section \<open>Reachable sessions\<close>

text \<open>
  Every call of the public interface, in any order and with any argument: the peer controls what
  \<open>receive\<close> and \<open>open_data_into\<close> see, and errors do not end the session.
\<close>

inductive sp_reach :: "'g prims \<Rightarrow> sptps \<Rightarrow> bool" for P where
  reach_start: "p_point_ok P (sk_public mykey) \<Longrightarrow>
    start_with P role framing kex mykey hiskey label aead win g = Some (s, g', out) \<Longrightarrow> sp_reach P s"
| reach_receive: "sp_reach P s \<Longrightarrow> receive P data (s, g, []) = (r, s', g', out) \<Longrightarrow> sp_reach P s'"
| reach_send_record: "sp_reach P s \<Longrightarrow> send_record P ty body (s, g, []) = (r', s', g', out) \<Longrightarrow> sp_reach P s'"
| reach_force_kex: "sp_reach P s \<Longrightarrow> force_kex P (s, g, []) = (r', s', g', out) \<Longrightarrow> sp_reach P s'"
| reach_alloc: "sp_reach P s \<Longrightarrow> alloc_seqnos s n = (sq, s') \<Longrightarrow> sp_reach P s'"
| reach_seal: "sp_reach P s \<Longrightarrow> seal_data_into P s ty body buf h = (r', s', buf') \<Longrightarrow> sp_reach P s'"
| reach_open: "sp_reach P s \<Longrightarrow> open_data_into P s data buf h = (r'', s', buf') \<Longrightarrow> sp_reach P s'"
| reach_replay: "sp_reach P s \<Longrightarrow> replay_check s sq' = (r', s') \<Longrightarrow> sp_reach P s'"

lemma wp_inv_step:
  "wp f (\<lambda>_. sp_inv P) (sp_inv P) s \<Longrightarrow> f (s, g, out) = (r, s', g', out') \<Longrightarrow> sp_inv P s'"
  by (cases r) (auto dest: wpD)

lemma sp_reach_inv:
  assumes P: "prims_lengths P" and "sp_reach P s"
  shows "sp_inv P s"
  using assms(2)
proof induction
  case (reach_start mykey role framing kex hiskey label aead win g s g' out)
  thus ?case using start_with_inv [OF P reach_start(1)] by (metis Pair_inject option.inject)
next
  case (reach_receive s data g r s' g' out)
  thus ?case using wp_inv_step wp_receive [OF P] by metis
next
  case (reach_send_record s ty body g r' s' g' out)
  thus ?case using wp_inv_step wp_send_record by metis
next
  case (reach_force_kex s g r' s' g' out)
  thus ?case using wp_inv_step wp_force_kex [OF P] by metis
qed (auto simp: alloc_seqnos_def seal_data_into_def open_data_into_def replay_check_def Let_def
    split: if_splits option.splits prod.splits res.splits sum.splits)

end
