(* ===== verification/Sptps_Handshake.thy ===== *)
theory Sptps_Handshake
  imports Sptps
begin

text \<open>
  Two sessions talking to each other: what a record looks like on the wire and what the receiver
  makes of it, the complete key exchange between an initiator and a responder, and the data
  records that follow it.
\<close>

section \<open>Running operations\<close>

lemma self_app: "self k (s, c) = k s (s, c)"
  by (simp add: self_def)

lemma modify_app: "modify f (s, c) = (Ok (), f s, c)"
  by (simp add: modify_def)

lemma andThen_modify: "andThen (modify f) k (s, c) = k () (f s, c)"
  by (simp add: andThen_def modify_def)

lemma andThen_ret: "andThen (ret x) k c = k x c"
  by (simp add: andThen_def ret_def)

lemma andThen_push: "andThen (push_out o') k (s, g, out) = k () (s, g, out @ [o'])"
  by (simp add: andThen_def push_out_def)

lemma andThen_draw: "andThen (draw f) k (s, g, out) = k (fst (f g)) (s, snd (f g), out)"
  by (simp add: andThen_def draw_def split_beta Let_def)

lemma andThen_expect: "andThen (expect (Some x)) k c = k x c"
  by (simp add: andThen_def expect_def ret_def)

lemma andThen_ok_or: "andThen (ok_or e (Some x)) k c = k x c"
  by (simp add: andThen_def ok_or_def ret_def)

lemma andThen_Ok: "f c = (Ok x, c') \<Longrightarrow> andThen f k c = k x c'"
  by (simp add: andThen_def)

lemma andThen_assoc: "andThen (andThen f k) h c = andThen f (\<lambda>x. andThen (k x) h) c"
  by (simp add: andThen_def split: prod.splits res.splits)

lemma andThen_self: "andThen (self f) k (s, c) = andThen (f s) k (s, c)"
  by (simp add: andThen_def self_def)

lemma andThen_panic: "andThen panic k c = (Panic, c)"
  by (simp add: andThen_def panic_def)

lemma andThen_throw: "andThen (throw e) k c = (Err e, c)"
  by (simp add: andThen_def throw_def)

lemmas run_simps = andThen_panic andThen_throw self_app andThen_self modify_app andThen_modify andThen_ret andThen_push andThen_draw andThen_expect
  andThen_ok_or andThen_assoc ret_def throw_def

section \<open>A record on the wire\<close>

text \<open>What a record looks like on the wire, and what the receiver makes of it.\<close>

definition frame :: "'g prims \<Rightarrow> framing \<Rightarrow> sptps_cipher option \<Rightarrow> u32 \<Rightarrow> u8 \<Rightarrow> bytes \<Rightarrow> bytes" where
  "frame P fr oc n ty body =
     (case fr of Stream \<Rightarrow> u16_be (of_nat (length body)) | Datagram \<Rightarrow> u32_be n) @
     (case oc of None \<Rightarrow> ty # body | Some c \<Rightarrow> cipher_seal P c (ucast n) (ty # body))"

definition next_seq :: "sptps \<Rightarrow> u32" where
  "next_seq s = (case sp_framing s of Datagram \<Rightarrow> rw_inseqno (sp_replay s) | Stream \<Rightarrow> sp_inseqno s)"

definition no_partial :: "sptps \<Rightarrow> bool" where
  "no_partial s \<longleftrightarrow> sp_stream s = \<lparr>sb_buf = [], sb_reclen = 0\<rparr>"

definition tick :: "sptps \<Rightarrow> sptps" where
  "tick s = (case sp_framing s of
     Datagram \<Rightarrow> s\<lparr>sp_replay := (sp_replay s)\<lparr>rw_inseqno := rw_inseqno (sp_replay s) + 1\<rparr>\<rparr>
   | Stream \<Rightarrow> s\<lparr>sp_inseqno := sp_inseqno s + 1\<rparr>)"

lemma send_record_priv_eq:
  "sp_framing s = Stream \<longrightarrow> length body \<le> 65535 \<Longrightarrow>
   send_record_priv P ty body (s, g, out) =
     (Ok (), s\<lparr>sp_outseqno := sp_outseqno s + 1\<rparr>, g,
      out @ [Wire ty (frame P (sp_framing s) (sp_outcipher s) (ucast (sp_outseqno s)) ty body)])"
  by (auto simp: send_record_priv_def op_defs Let_def frame_def cipher_seal_into_eq
      split: framing.splits option.splits)

lemma andThen_send_record:
  "sp_framing s = Stream \<longrightarrow> length body \<le> 65535 \<Longrightarrow>
   andThen (send_record_priv P ty body) k (s, g, out) =
     k () (s\<lparr>sp_outseqno := sp_outseqno s + 1\<rparr>, g,
      out @ [Wire ty (frame P (sp_framing s) (sp_outcipher s) (ucast (sp_outseqno s)) ty body)])"
  by (simp add: andThen_def send_record_priv_eq)

lemma be_u16_length:
  "length xs < 65536 \<Longrightarrow> unat (be_u16 (u16_be (of_nat (length xs)) ! 0) (u16_be (of_nat (length xs)) ! (Suc 0))) = length xs"
  using be_u16_u16_be [of "of_nat (length xs)"] by (simp add: unat_of_nat_small)

lemma stream_update [simp]:
  "no_partial s \<Longrightarrow> s\<lparr>sp_stream := \<lparr>sb_buf = [], sb_reclen = 0\<rparr>\<rparr> = s"
  by (simp add: no_partial_def)

lemma receive_stream_whole:
  assumes st: "sp_framing s = Stream" "no_partial s" and body: "length body \<le> 65535"
    and pre: "sp_incipher s = None \<longrightarrow> length body \<le> MAX_PREAUTH_RECLEN"
    and pl: "length payload = length body + 1 + (if sp_incipher s \<noteq> None then TAG_LEN else 0)"
  shows "receive P (u16_be (of_nat (length body)) @ payload) (s, g, out) =
    andThen (case sp_incipher s of
        Some c \<Rightarrow> andThen (ok_or DecryptFailed (cipher_open P c (ucast (sp_inseqno s)) payload)) (\<lambda>pt.
          if pt = [] then panic else ret (hd pt, tl pt))
      | None \<Rightarrow> ret (payload ! 0, drop 1 payload)) (\<lambda>(ty, body').
    andThen (dispatch_record P ty body' (sp_incipher s \<noteq> None)) (\<lambda>_. ret (2 + length payload)))
      (tick s, g, out)"
proof -
  define h where "h = u16_be (of_nat (length body))"
  have h: "length h = 2" "unat (be_u16 (h ! 0) (h ! Suc 0)) = length body"
    using be_u16_length [of body] body by (simp_all add: h_def)
  have ne: "payload \<noteq> []" using pl by auto
  note [simp] = run_simps
  show ?thesis
    unfolding h_def [symmetric]
    using st pre pl h ne
    by (auto simp: receive_def receive_stream_def receive_stream_body_def Let_def no_partial_def tick_def
      nth_append split: option.splits)
qed

lemma u32_be_decode [simp]:
  "be_u32 ((u32_be n @ xs) ! 0) ((u32_be n @ xs) ! Suc 0) ((u32_be n @ xs) ! 2) ((u32_be n @ xs) ! 3) = n"
  using be_u32_u32_be [of n] by (simp add: nth_append)

lemma length_frame:
  "prims_lengths P \<Longrightarrow> length (frame P fr oc n ty body) =
     (case fr of Stream \<Rightarrow> 2 | Datagram \<Rightarrow> 4) + 1 + length body + (case oc of None \<Rightarrow> 0 | Some _ \<Rightarrow> 16)"
  by (auto simp: frame_def cipher_seal_length split: framing.splits option.splits)

lemma receive_plain:
  assumes "sp_incipher s = None" "no_partial s" "next_seq s = n" "length body \<le> MAX_PREAUTH_RECLEN"
  shows "receive P (frame P (sp_framing s) None n REC_HANDSHAKE body) (s, g, out) =
    andThen (receive_handshake P body) (\<lambda>_. ret (length (frame P (sp_framing s) None n REC_HANDSHAKE body)))
      (tick s, g, out)"
proof (cases "sp_framing s")
  case Stream
  have "length body \<le> 65535" using assms(4) by (simp add: MAX_PREAUTH_RECLEN_def Let_def len_defs)
  from receive_stream_whole [OF Stream assms(2) this, of "REC_HANDSHAKE # body" P g out] assms Stream
  show ?thesis by (cases "tick s") (simp add: frame_def dispatch_record_def run_simps)
next
  case Datagram
  thus ?thesis using assms
    by (auto simp: receive_def receive_datagram_def frame_def run_simps next_seq_def tick_def Let_def)
qed

text \<open>Counting a sealed record: the replay window in datagram mode, the counter in stream mode.\<close>

definition accept :: "u32 \<Rightarrow> sptps \<Rightarrow> sptps" where
  "accept n s = (case sp_framing s of
     Datagram \<Rightarrow> s\<lparr>sp_replay := snd (check (sp_replay s) n True)\<rparr>
   | Stream \<Rightarrow> s\<lparr>sp_inseqno := sp_inseqno s + 1\<rparr>)"

definition acceptable :: "u32 \<Rightarrow> sptps \<Rightarrow> bool" where
  "acceptable n s \<longleftrightarrow> no_partial s \<and> (case sp_framing s of
     Datagram \<Rightarrow> fst (check (sp_replay s) n True) = Inr () | Stream \<Rightarrow> sp_inseqno s = n)"

lemma receive_sealed:
  assumes P: "prims_lengths P" "gcm_correct P" and c: "sp_incipher s = Some c" and acc: "acceptable n s"
    and len: "sp_framing s = Stream \<longrightarrow> length body \<le> 65535"
  shows "receive P (frame P (sp_framing s) (Some c) n ty body) (s, g, out) =
    andThen (dispatch_record P ty body True) (\<lambda>_. ret (length (frame P (sp_framing s) (Some c) n ty body)))
      (accept n s, g, out)"
proof -
  define pl where "pl = cipher_seal P c (ucast n) (ty # body)"
  have pl: "length pl = length body + 17" "cipher_open P c (ucast n) pl = Some (ty # body)"
    by (simp_all add: pl_def cipher_seal_length [OF P(1)] cipher_open_seal [OF P])
  show ?thesis
  proof (cases "sp_framing s")
    case Stream
    have "no_partial s" "length body \<le> 65535" using acc len Stream by (simp_all add: acceptable_def)
    from receive_stream_whole [OF Stream this, of pl P g out] c pl acc Stream
    show ?thesis
      by (simp add: frame_def pl_def [symmetric] run_simps TAG_LEN_def accept_def acceptable_def tick_def)
  next
    case Datagram
    obtain w where "check (sp_replay s) n True = (Inr (), w)"
      using acc Datagram by (cases "check (sp_replay s) n True") (simp add: acceptable_def)
    thus ?thesis using Datagram c pl
      by (simp add: receive_def receive_datagram_def frame_def pl_def [symmetric] run_simps Let_def accept_def)
  qed
qed

section \<open>The messages of the exchange\<close>

definition kex_seed :: "'g prims \<Rightarrow> 'g \<Rightarrow> bytes" where
  "kex_seed P g = fst (p_fill P 32 (snd (p_fill P NONCE_LEN g)))"

definition kex_kem :: "'g prims \<Rightarrow> 'g \<Rightarrow> (bytes \<times> bytes) \<times> 'g" where
  "kex_kem P g = p_mlkem_generate P (snd (p_fill P 32 (snd (p_fill P NONCE_LEN g))))"

definition kex_msg :: "'g prims \<Rightarrow> sptps_kex \<Rightarrow> 'g \<Rightarrow> bytes" where
  "kex_msg P kx g = [VERSION] @ fst (p_fill P NONCE_LEN g) @ snd (ecdh_from_seed P (kex_seed P g)) @
     (if kx = X25519MlKem768 then snd (fst (kex_kem P g)) else [])"

definition kex_dk :: "'g prims \<Rightarrow> sptps \<Rightarrow> 'g \<Rightarrow> bytes option" where
  "kex_dk P s g = (if sp_kex s = X25519MlKem768 then Some (fst (fst (kex_kem P g))) else sp_mlkem s)"

definition kex_rest :: "'g prims \<Rightarrow> sptps_kex \<Rightarrow> 'g \<Rightarrow> 'g" where
  "kex_rest P kx g = (if kx = X25519MlKem768 then snd (kex_kem P g)
     else snd (p_fill P 32 (snd (p_fill P NONCE_LEN g))))"

lemma kex_msg_parts:
  assumes P: "prims_lengths P"
  shows "length (kex_msg P kx g) = kex_len kx" "kex_msg P kx g ! 0 = VERSION"
    "kex_nonce (kex_msg P kx g) = fst (p_fill P NONCE_LEN g)"
    "take 32 (drop 33 (kex_msg P kx g)) = snd (ecdh_from_seed P (kex_seed P g))"
    "kx = X25519MlKem768 \<Longrightarrow> drop KEX_LEN (kex_msg P kx g) = snd (fst (kex_kem P g))"
  by (cases kx; simp add: kex_msg_def kex_nonce_def kex_kem_def ecdh_from_seed_def Let_def len_defs
      prims_lengthsD [OF P])+

lemma send_kex_eq:
  assumes P: "prims_lengths P" and s: "sp_mykex s = None"
  shows "send_kex P (s, g, out) =
    (Ok (), s\<lparr>sp_mlkem := kex_dk P s g, sp_outseqno := sp_outseqno s + 1,
        sp_mykex := Some (kex_msg P (sp_kex s) g), sp_ecdh := Some (fst (ecdh_from_seed P (kex_seed P g)))\<rparr>,
      kex_rest P (sp_kex s) g,
      out @ [Wire REC_HANDSHAKE (frame P (sp_framing s) (sp_outcipher s) (ucast (sp_outseqno s))
        REC_HANDSHAKE (kex_msg P (sp_kex s) g))])"
proof -
  have l: "length (kex_msg P (sp_kex s) g) \<le> 65535"
    using kex_msg_parts(1) [OF P] kex_len_bounds(2) [of "sp_kex s"] by simp
  show ?thesis
    using s l
    by (cases "sp_kex s")
       (simp_all add: send_kex_def run_simps split_beta Let_def kex_msg_def kex_seed_def kex_kem_def
         kex_dk_def kex_rest_def andThen_send_record)
qed

definition sig_body :: "'g prims \<Rightarrow> sptps \<Rightarrow> bytes" where
  "sig_body P s =
     p_raw_sign P (sk_expanded (sp_mykey s)) (sk_public (sp_mykey s))
       (sig_transcript (is_initiator (sp_role s)) (the (sp_mykex s)) (the (sp_hiskex s)) (sp_label s)) @
     (if sp_kex s = X25519MlKem768 then fst (the (sp_mlkem_encap s)) else [])"

definition sig_wire :: "'g prims \<Rightarrow> sptps \<Rightarrow> sptps_output" where
  "sig_wire P s = Wire REC_HANDSHAKE
     (frame P (sp_framing s) (sp_outcipher s) (ucast (sp_outseqno s)) REC_HANDSHAKE (sig_body P s))"

lemma send_sig_eq:
  assumes P: "prims_lengths P" and inv: "sp_core P s" "kex_done s"
  shows "length (sig_body P s) = sig_len (sp_kex s)"
    "send_sig P (s, g, out) = (Ok (), s\<lparr>sp_outseqno := sp_outseqno s + 1\<rparr>, g, out @ [sig_wire P s])"
proof -
  obtain m h where k: "sp_mykex s = Some m" "sp_hiskex s = Some h" using inv(2) by (auto simp: kex_done_def)
  have pk: "p_point_ok P (sk_public (sp_mykey s))" using inv(1) by (simp add: sp_core_def)
  have e: "\<exists>ct ss. sp_mlkem_encap s = Some (ct, ss) \<and> length ct = 1088" if "sp_kex s = X25519MlKem768"
    using inv that by (auto simp: inv_defs MLKEM_CT_LEN_def)
  show len: "length (sig_body P s) = sig_len (sp_kex s)"
    using e by (cases "sp_kex s") (auto simp: sig_body_def prims_lengthsD [OF P] len_defs)
  show "send_sig P (s, g, out) = (Ok (), s\<lparr>sp_outseqno := sp_outseqno s + 1\<rparr>, g, out @ [sig_wire P s])"
    using k pk e
    by (cases "sp_kex s")
       (auto simp: send_sig_def kex_pair_def run_simps Let_def sign_def sig_body_def sig_wire_def
         prims_lengthsD [OF P] send_record_priv_eq)
qed

lemma andThen_send_sig:
  assumes "prims_lengths P" "sp_core P s" "kex_done s"
  shows "andThen (send_sig P) k (s, g, out) =
    k () (s\<lparr>sp_outseqno := sp_outseqno s + 1\<rparr>, g, out @ [sig_wire P s])"
  by (simp add: andThen_def send_sig_eq(2) [OF assms])

text \<open>After the peer's KEX: the stored exchange and the encapsulation towards the peer's key.\<close>

definition after_kex :: "'g prims \<Rightarrow> bytes \<Rightarrow> 'g \<Rightarrow> sptps \<Rightarrow> sptps" where
  "after_kex P body g s =
     (if sp_kex s = X25519MlKem768
      then s\<lparr>sp_hiskex := Some body, sp_mlkem_encap := Some (fst (p_mlkem_encap P (drop KEX_LEN body) g))\<rparr>
      else s\<lparr>sp_hiskex := Some body\<rparr>)"

definition after_kex_rng :: "'g prims \<Rightarrow> bytes \<Rightarrow> sptps \<Rightarrow> 'g \<Rightarrow> 'g" where
  "after_kex_rng P body s g =
     (if sp_kex s = X25519MlKem768 then snd (p_mlkem_encap P (drop KEX_LEN body) g) else g)"

lemma after_kex_inv:
  assumes "prims_lengths P" "sp_core P s" "sp_mykex s \<noteq> None" "kex_body_ok s body"
  shows "sp_core P (after_kex P body g s)" "kex_done (after_kex P body g s)"
  using core_set_kex [OF assms(2-4)] prims_lengthsD(12) [OF assms(1)]
  by (auto simp: after_kex_def MLKEM_CT_LEN_def not_hybrid intro!: core_set_kex(3,4) [OF assms(2-4)])

lemma handshake_kex:
  fixes P :: "'g prims" and g :: 'g
  assumes P: "prims_lengths P" and inv: "sp_core P s" "sp_mykex s \<noteq> None" "sp_state s = Kex"
    and body: "kex_body_ok s body" "sp_kex s = X25519MlKem768 \<Longrightarrow> p_mlkem_ek_ok P (drop KEX_LEN body)"
  defines "s1 \<equiv> after_kex P body g s"
  shows "receive_handshake P body (s, g, out) =
    (if is_initiator (sp_role s)
     then (Ok (), s1\<lparr>sp_outseqno := sp_outseqno s + 1, sp_state := Sig\<rparr>, after_kex_rng P body s g,
           out @ [sig_wire P s1])
     else (Ok (), s1\<lparr>sp_state := Sig\<rparr>, after_kex_rng P body s g, out))"
proof -
  note inv1 = after_kex_inv [OF P inv(1,2) body(1), of g]
  show ?thesis
    using inv body inv1
    by (cases "sp_kex s")
       (auto simp: receive_handshake_def receive_kex_def run_simps andThen_send_sig [OF P] s1_def after_kex_def
         after_kex_rng_def mlkem_encapsulate_def split_beta Let_def sig_wire_def)
qed

section \<open>Key derivation\<close>

text \<open>The key block of a session that has both KEX messages and receives the SIG \<open>body\<close>.\<close>

definition hs_shared :: "'g prims \<Rightarrow> sptps \<Rightarrow> bytes option" where
  "hs_shared P s = compute_shared P (the (sp_ecdh s)) (take 32 (drop 33 (the (sp_hiskex s))))"

definition hs_key :: "'g prims \<Rightarrow> sptps \<Rightarrow> bytes \<Rightarrow> bytes" where
  "hs_key P s body =
     (let my = the (sp_mykex s); his = the (sp_hiskex s); i = is_initiator (sp_role s);
          (ki, kr) = (if i then (my, his) else (his, my));
          x = the (hs_shared P s);
          seed = (\<lambda>h. key_prefix @ kex_nonce ki @ kex_nonce kr @ sp_label s @ h);
          (my_ct, ss_encap) = the (sp_mlkem_encap s);
          ct = drop SIG_LEN body; ss_decap = p_mlkem_decap P (the (sp_mlkem s)) ct
      in case sp_kex s of
           X25519 \<Rightarrow> prf_out P x (seed []) (2 * CIPHER_KEY_LEN)
         | X25519MlKem768 \<Rightarrow>
             prf_out P (x @ (if i then ss_encap @ ss_decap else ss_decap @ ss_encap))
               (seed (kem_transcript_hash P (drop KEX_LEN ki) (drop KEX_LEN kr)
                  (if i then my_ct else ct) (if i then ct else my_ct)))
               (2 * CIPHER_KEY_LEN))"

text \<open>The session after a first SIG: both ciphers set, the exchange forgotten.\<close>

definition keyed :: "bytes \<Rightarrow> u64 \<Rightarrow> sptps \<Rightarrow> sptps" where
  "keyed key n s = s\<lparr>sp_ecdh := None, sp_mlkem := (if sp_kex s = X25519MlKem768 then None else sp_mlkem s),
     sp_key := None, sp_mykex := None, sp_hiskex := None, sp_mlkem_encap := None,
     sp_outseqno := n, sp_out_key_base := n,
     sp_outcipher := Some \<lparr>ci_aead = sp_aead s, ci_key = key_half key (is_initiator (sp_role s)) True\<rparr>,
     sp_incipher := Some \<lparr>ci_aead = sp_aead s, ci_key = key_half key (is_initiator (sp_role s)) False\<rparr>\<rparr>"

definition sig_valid :: "'g prims \<Rightarrow> sptps \<Rightarrow> bytes \<Rightarrow> bool" where
  "sig_valid P s body \<longleftrightarrow> length body = sig_len (sp_kex s) \<and>
     verify P (sp_hiskey s) (sig_transcript (\<not> is_initiator (sp_role s)) (the (sp_hiskex s)) (the (sp_mykex s))
       (sp_label s)) (take SIG_LEN body)"

definition sig_ready :: "'g prims \<Rightarrow> sptps \<Rightarrow> bool" where
  "sig_ready P s \<longleftrightarrow> sp_core P s \<and> kex_done s \<and> sp_state s = Sig \<and> sp_ecdh s \<noteq> None \<and>
     (sp_kex s = X25519MlKem768 \<longrightarrow> sp_mlkem s \<noteq> None) \<and> hs_shared P s \<noteq> None"

lemma key_material_eq:
  assumes r: "sig_ready P s" and l: "length body = sig_len (sp_kex s)"
  shows "andThen (case sp_kex s of
           X25519 \<Rightarrow> generate_key_material P (the (hs_shared P s)) []
         | X25519MlKem768 \<Rightarrow> hybrid_key_material P (the (sp_mykex s)) (the (sp_hiskex s)) (the (hs_shared P s))
             (drop SIG_LEN body)) k (s\<lparr>sp_ecdh := None\<rparr>, g, out) =
    k () (s\<lparr>sp_ecdh := None, sp_mlkem := (if sp_kex s = X25519MlKem768 then None else sp_mlkem s),
       sp_key := Some (hs_key P s body)\<rparr>, g, out)"
proof -
  obtain m h where k: "sp_mykex s = Some m" "sp_hiskex s = Some h"
    using r by (auto simp: kex_done_def sig_ready_def)
  have e: "\<exists>ct ss dk. sp_mlkem_encap s = Some (ct, ss) \<and> sp_mlkem s = Some dk" if "sp_kex s = X25519MlKem768"
    using r that by (auto simp: sig_ready_def kex_done_def)
  show ?thesis
    using k e
    by (cases "sp_kex s"; cases "is_initiator (sp_role s)")
       (auto simp: generate_key_material_def hybrid_key_material_def kex_pair_def run_simps Let_def hs_key_def)
qed

lemma handshake_sig:
  assumes P: "prims_lengths P" and r: "sig_ready P s" and v: "sig_valid P s body" and oc: "sp_outcipher s = None"
  defines "n \<equiv> (if is_initiator (sp_role s) then sp_outseqno s else sp_outseqno s + 1)"
    and "sg \<equiv> (if is_initiator (sp_role s) then [] else [sig_wire P s])"
  defines "s' \<equiv> keyed (hs_key P s body) n s"
  shows "receive_handshake P body (s, g, out) =
    (case sp_kex s of
       X25519 \<Rightarrow> (Ok (), s'\<lparr>sp_state := SecondaryKex\<rparr>, g, out @ sg @ [HandshakeDone])
     | X25519MlKem768 \<Rightarrow> (Ok (), s'\<lparr>sp_outseqno := n + 1, sp_state := Confirm\<rparr>, g, out @ sg @
         [Wire REC_HANDSHAKE (frame P (sp_framing s) (sp_outcipher s') (ucast n) REC_HANDSHAKE [])]))"
proof -
  obtain m h e where k: "sp_mykex s = Some m" "sp_hiskex s = Some h" "sp_ecdh s = Some e"
    using r by (auto simp: kex_done_def sig_ready_def)
  define s1 where "s1 = s\<lparr>sp_ecdh := None, sp_mlkem := (if sp_kex s = X25519MlKem768 then None else sp_mlkem s),
       sp_key := Some (hs_key P s body)\<rparr>"
  have s1: "sp_core P s1" "kex_done s1" "sig_wire P s1 = sig_wire P s"
    using r by (simp_all add: s1_def sig_ready_def sig_wire_def sig_body_def)
  obtain x where x: "compute_shared P e (take 32 (drop 33 h)) = Some x" "the (hs_shared P s) = x"
    using r k by (auto simp: sig_ready_def hs_shared_def)
  have km: "andThen (case sp_kex s of
           X25519 \<Rightarrow> generate_key_material P x []
         | X25519MlKem768 \<Rightarrow> hybrid_key_material P m h x (drop SIG_LEN body)) kk (s\<lparr>sp_ecdh := None\<rparr>, g, out) =
    kk () (s1, g, out)" for kk :: "unit \<Rightarrow> ('a, 'b) sp_op"
    using key_material_eq [OF r, of body kk g out] v k x
    by (cases "sp_kex s") (simp_all add: sig_valid_def s1_def)
  have sw: "andThen (sig_switch P) kk (s1, g, out) =
    kk False (s1\<lparr>sp_outseqno := n, sp_mykex := None, sp_hiskex := None, sp_mlkem_encap := None,
      sp_outcipher := Some \<lparr>ci_aead = sp_aead s, ci_key = key_half (hs_key P s body) (is_initiator (sp_role s)) True\<rparr>,
      sp_out_key_base := n\<rparr>, g, out @ sg)" for kk :: "bool \<Rightarrow> ('a, 'b) sp_op"
    using oc s1 by (cases "sp_role s")
      (simp_all add: sig_switch_def run_simps andThen_send_sig [OF P] Let_def n_def sg_def s1_def)
  have rs: "andThen (receive_sig P body) kk (s, g, out) = andThen (sig_switch P) kk (s1, g, out)"
    for kk :: "bool \<Rightarrow> ('a, 'b) sp_op"
    using v k x(1) by (simp add: receive_sig_def kex_pair_def run_simps sig_valid_def Let_def km len_defs)
  note rsw = trans [OF rs sw]
  have upd: "s1\<lparr>sp_outseqno := n, sp_mykex := None, sp_hiskex := None, sp_mlkem_encap := None,
      sp_outcipher := Some \<lparr>ci_aead = sp_aead s, ci_key = key_half (hs_key P s body) (is_initiator (sp_role s)) True\<rparr>,
      sp_out_key_base := n, sp_key := None,
      sp_incipher := Some \<lparr>ci_aead = sp_aead s, ci_key = key_half (hs_key P s body) (is_initiator (sp_role s)) False\<rparr>\<rparr> = s'"
    unfolding s1_def s'_def keyed_def by simp
  have ack: "andThen (expect_ok (receive_ack [])) kk (t, g, out) =
    kk () (t\<lparr>sp_key := None, sp_incipher := Some \<lparr>ci_aead = sp_aead t, ci_key = key_half key (is_initiator (sp_role t)) False\<rparr>\<rparr>, g, out)"
    if "sp_key t = Some key" for kk :: "unit \<Rightarrow> ('a, unit) sp_op" and t key out
    using that by (simp add: receive_ack_def op_defs)
  have r': "sp_state s = Sig" using r by (simp add: sig_ready_def)
  have f: "sp_role s1 = sp_role s" "sp_aead s1 = sp_aead s" "sp_key s1 = Some (hs_key P s body)"
    "sp_framing s' = sp_framing s" "sp_outseqno s' = n" by (simp_all add: s1_def s'_def keyed_def)
  show ?thesis
    using r' f
    by (cases "sp_kex s")
       (simp_all add: receive_handshake_def run_simps rsw ack send_ack_def andThen_send_record upd)
qed

section \<open>Two parties\<close>

text \<open>Deliver whole records one after the other; \<open>None\<close> when one is refused.\<close>

definition wires :: "sptps_output list \<Rightarrow> bytes list" where
  "wires out = concat (map (\<lambda>x. case x of Wire _ b \<Rightarrow> [b] | _ \<Rightarrow> []) out)"

fun feed :: "'g prims \<Rightarrow> bytes list \<Rightarrow> 'g cfg \<Rightarrow> 'g cfg option" where
  "feed P [] c = Some c"
| "feed P (m # ms) c =
     (case receive P m c of (Ok n, c') \<Rightarrow> if n = length m then feed P ms c' else None | _ \<Rightarrow> None)"

text \<open>
  The exchange over a transport that delivers: both start, the initiator gets the responder's KEX, the
  responder gets KEX and SIG, the initiator what the responder answered, and the responder the rest.
\<close>

definition handshake ::
    "'g prims \<Rightarrow> framing \<Rightarrow> sptps_kex \<Rightarrow> sptps_aead \<Rightarrow> bytes \<Rightarrow> nat \<Rightarrow> signing_key \<Rightarrow> signing_key \<Rightarrow>
     'g \<Rightarrow> 'g \<Rightarrow> ('g cfg \<times> 'g cfg) option" where
  "handshake P fr kx aead label win ki kr gi gr =
     Option.bind (start_with P Initiator fr kx ki (sk_public kr) label aead win gi) (\<lambda>(i, gi, oi).
     Option.bind (start_with P Responder fr kx kr (sk_public ki) label aead win gr) (\<lambda>(r, gr, ro).
     Option.bind (feed P (wires ro) (i, gi, [])) (\<lambda>(i, gi, oi1).
     Option.bind (feed P (wires oi @ wires oi1) (r, gr, [])) (\<lambda>(r, gr, ro1).
     Option.bind (feed P (wires ro1) (i, gi, [])) (\<lambda>(i, gi, oi2).
     Option.bind (feed P (wires oi2) (r, gr, [])) (\<lambda>(r, gr, ro2).
     Some ((i, gi, oi2), (r, gr, ro1 @ ro2))))))))"

lemma tick_fields [simp]:
  "sp_role (tick s) = sp_role s" "sp_framing (tick s) = sp_framing s" "sp_state (tick s) = sp_state s"
  "sp_incipher (tick s) = sp_incipher s" "sp_outcipher (tick s) = sp_outcipher s"
  "sp_outseqno (tick s) = sp_outseqno s" "sp_mykex (tick s) = sp_mykex s" "sp_hiskex (tick s) = sp_hiskex s"
  "sp_ecdh (tick s) = sp_ecdh s" "sp_mlkem (tick s) = sp_mlkem s" "sp_mlkem_encap (tick s) = sp_mlkem_encap s"
  "sp_mykey (tick s) = sp_mykey s" "sp_hiskey (tick s) = sp_hiskey s" "sp_label (tick s) = sp_label s"
  "sp_aead (tick s) = sp_aead s" "sp_kex (tick s) = sp_kex s" "sp_stream (tick s) = sp_stream s"
  "next_seq (tick s) = next_seq s + 1" "no_partial (tick s) = no_partial s"
  "sp_core P (tick s) = sp_core P s" "kex_done (tick s) = kex_done s"
  by (cases "sp_framing s"; simp add: tick_def next_seq_def no_partial_def)+

lemma after_kex_fields [simp]:
  "sp_role (after_kex P b g s) = sp_role s" "sp_framing (after_kex P b g s) = sp_framing s"
  "sp_incipher (after_kex P b g s) = sp_incipher s" "sp_outcipher (after_kex P b g s) = sp_outcipher s"
  "sp_outseqno (after_kex P b g s) = sp_outseqno s" "sp_mykex (after_kex P b g s) = sp_mykex s"
  "sp_hiskex (after_kex P b g s) = Some b" "sp_ecdh (after_kex P b g s) = sp_ecdh s"
  "sp_mlkem (after_kex P b g s) = sp_mlkem s"
  "sp_kex s = X25519MlKem768 \<Longrightarrow>
    sp_mlkem_encap (after_kex P b g s) = Some (fst (p_mlkem_encap P (drop KEX_LEN b) g))"
  "sp_mykey (after_kex P b g s) = sp_mykey s" "sp_hiskey (after_kex P b g s) = sp_hiskey s"
  "sp_label (after_kex P b g s) = sp_label s" "sp_aead (after_kex P b g s) = sp_aead s"
  "sp_kex (after_kex P b g s) = sp_kex s" "sp_replay (after_kex P b g s) = sp_replay s"
  "sp_inseqno (after_kex P b g s) = sp_inseqno s" "no_partial (after_kex P b g s) = no_partial s"
  "next_seq (after_kex P b g s) = next_seq s"
  by (simp_all add: after_kex_def no_partial_def next_seq_def split: framing.splits)

lemma transport_simps [simp]:
  "next_seq (s\<lparr>sp_outseqno := n\<rparr>) = next_seq s" "next_seq (s\<lparr>sp_state := st\<rparr>) = next_seq s"
  "no_partial (s\<lparr>sp_outseqno := n\<rparr>) = no_partial s" "no_partial (s\<lparr>sp_state := st\<rparr>) = no_partial s"
  by (simp_all add: next_seq_def no_partial_def split: framing.splits)

text \<open>Who a session is, and its transport before any cipher is set.\<close>

definition party :: "role \<Rightarrow> framing \<Rightarrow> sptps_aead \<Rightarrow> signing_key \<Rightarrow> bytes \<Rightarrow> bytes \<Rightarrow> sptps \<Rightarrow> bool" where
  "party role fr aead mykey hiskey label s \<longleftrightarrow> sp_role s = role \<and> sp_framing s = fr \<and> sp_aead s = aead \<and>
     sp_mykey s = mykey \<and> sp_hiskey s = hiskey \<and> sp_label s = label"

definition plain :: "'g prims \<Rightarrow> u32 \<Rightarrow> sptps \<Rightarrow> bool" where
  "plain P n s \<longleftrightarrow> sp_core P s \<and> sp_incipher s = None \<and> sp_outcipher s = None \<and> no_partial s \<and> next_seq s = n"

text \<open>The session right after \<open>start_with\<close>, its KEX message drawn from \<open>a\<close>.\<close>

definition started :: "'g prims \<Rightarrow> sptps_kex \<Rightarrow> 'g \<Rightarrow> sptps \<Rightarrow> bool" where
  "started P kx a s \<longleftrightarrow> plain P 0 s \<and> sp_state s = Kex \<and> sp_kex s = kx \<and> sp_outseqno s = 1 \<and>
     sp_mykex s = Some (kex_msg P kx a) \<and> sp_hiskex s = None \<and>
     sp_ecdh s = Some (fst (ecdh_from_seed P (kex_seed P a))) \<and>
     (kx = X25519MlKem768 \<longrightarrow> sp_mlkem s = Some (fst (fst (kex_kem P a))))"

definition full_label :: "sptps_kex \<Rightarrow> sptps_aead \<Rightarrow> bytes \<Rightarrow> bytes" where
  "full_label kx aead label =
     (if kex_discriminator kx \<noteq> 0 \<or> aead_discriminator aead \<noteq> 0
      then label @ [kex_discriminator kx, aead_discriminator aead] else label)"

lemma start_with_started:
  assumes P: "prims_lengths P" and k: "p_point_ok P (sk_public mykey)"
  shows "\<exists>s. start_with P role fr kx mykey hiskey label aead win g =
      Some (s, kex_rest P kx g, [Wire REC_HANDSHAKE (frame P fr None 0 REC_HANDSHAKE (kex_msg P kx g))]) \<and>
    started P kx g s \<and> party role fr aead mykey hiskey (full_label kx aead label) s"
proof -
  define s0 where "s0 = sptps_init role fr kx mykey hiskey label aead win"
  have "sp_mykex s0 = None" by (simp add: s0_def sptps_init_def Let_def)
  note e = send_kex_eq [OF P this, of g "[]"]
  show ?thesis
    by (rule exI [of _ "fst (snd (send_kex P (s0, g, [])))"])
       (use k kex_msg_parts(1) [OF P, of kx g] in \<open>simp add: start_with_def s0_def [symmetric] e\<close>,
        simp add: s0_def sptps_init_def Let_def inv_defs next_seq_def no_partial_def replay_new_def kex_dk_def
          started_def plain_def party_def full_label_def split: framing.splits)
qed

text \<open>
  Two sessions that hold each other's KEX derive the same key block: \<open>exchanged P kx a b s t\<close> says
  that \<open>s\<close> and \<open>t\<close> drew their KEX messages from \<open>a\<close> and \<open>b\<close> and have swapped them.
\<close>

definition exchanged :: "'g prims \<Rightarrow> sptps_kex \<Rightarrow> 'g \<Rightarrow> 'g \<Rightarrow> sptps \<Rightarrow> bool" where
  "exchanged P kx a b s \<longleftrightarrow>
     sp_kex s = kx \<and> sp_mykex s = Some (kex_msg P kx a) \<and> sp_hiskex s = Some (kex_msg P kx b) \<and>
     sp_ecdh s = Some (fst (ecdh_from_seed P (kex_seed P a))) \<and>
     (kx = X25519MlKem768 \<longrightarrow> sp_mlkem s = Some (fst (fst (kex_kem P a))) \<and>
        (\<exists>h. sp_mlkem_encap s = Some (fst (p_mlkem_encap P (drop KEX_LEN (kex_msg P kx b)) h))))"

lemma hs_shared_agree:
  assumes P: "prims_lengths P" "dh_correct P" and "exchanged P kx a b s" "exchanged P kx b a t"
  shows "hs_shared P s \<noteq> None" "hs_shared P s = hs_shared P t"
  using assms(2-4)
  by (auto simp: exchanged_def hs_shared_def kex_msg_parts [OF P(1)] dh_correct_def split_beta Let_def)

lemma hs_key_agree:
  assumes P: "prims_lengths P" "dh_correct P" "kem_correct P"
    and s: "exchanged P kx a b s" "sp_role s = Initiator" and t: "exchanged P kx b a t" "sp_role t = Responder"
    and l: "sp_label s = sp_label t"
    and body: "kx = X25519MlKem768 \<Longrightarrow> drop SIG_LEN bs = fst (the (sp_mlkem_encap t))"
      "kx = X25519MlKem768 \<Longrightarrow> drop SIG_LEN bt = fst (the (sp_mlkem_encap s))"
  shows "hs_key P s bs = hs_key P t bt"
proof -
  have sh: "hs_shared P s = hs_shared P t" by (rule hs_shared_agree(2) [OF P(1,2) s(1) t(1)])
  show ?thesis
  proof (cases kx)
    case X25519
    thus ?thesis using s t l sh
      by (simp add: hs_key_def exchanged_def Let_def split_beta)
  next
    case X25519MlKem768
    obtain h h' where e: "sp_mlkem_encap s = Some (fst (p_mlkem_encap P (snd (fst (kex_kem P b))) h))"
        "sp_mlkem_encap t = Some (fst (p_mlkem_encap P (snd (fst (kex_kem P a))) h'))"
      using s(1) t(1) X25519MlKem768 kex_msg_parts(5) [OF P(1)] by (auto simp: exchanged_def)
    have d: "p_mlkem_decap P (fst (fst (kex_kem P x))) (fst (fst (p_mlkem_encap P (snd (fst (kex_kem P x))) y))) =
        snd (fst (p_mlkem_encap P (snd (fst (kex_kem P x))) y))" for x y
      using P(3) by (simp add: kem_correct_def kex_kem_def split_beta Let_def)
    show ?thesis using X25519MlKem768 s t l sh e d body
      by (simp add: hs_key_def exchanged_def Let_def split_beta)
  qed
qed

text \<open>After both KEX messages a session waits for SIG; the initiator has sent its own.\<close>

definition waiting :: "'g prims \<Rightarrow> sptps_kex \<Rightarrow> 'g \<Rightarrow> 'g \<Rightarrow> sptps \<Rightarrow> bool" where
  "waiting P kx a b s \<longleftrightarrow> plain P 1 s \<and> sp_state s = Sig \<and> kex_done s \<and> exchanged P kx a b s"

lemma receive_kex_ok:
  assumes P: "prims_lengths P" and s: "started P kx a s" "party role fr aead k h l s"
    and ek: "kx = X25519MlKem768 \<Longrightarrow> p_mlkem_ek_ok P (drop KEX_LEN (kex_msg P kx b))"
  shows "\<exists>s' g'. receive P (frame P fr None 0 REC_HANDSHAKE (kex_msg P kx b)) (s, g, out) =
      (Ok (length (frame P fr None 0 REC_HANDSHAKE (kex_msg P kx b))),
       s'\<lparr>sp_outseqno := (if is_initiator role then 2 else 1)\<rparr>, g',
       out @ (if is_initiator role then [sig_wire P s'] else [])) \<and>
    waiting P kx a b s' \<and> party role fr aead k h l s' \<and> sp_outseqno s' = 1"
proof -
  define m where "m = kex_msg P kx b"
  have m: "length m = kex_len kx" "m ! 0 = VERSION" using kex_msg_parts [OF P] by (simp_all add: m_def)
  have ok: "kex_body_ok (tick s) m" using m s by (simp add: kex_body_ok_def started_def)
  have "length m \<le> MAX_PREAUTH_RECLEN"
    using kex_len_bounds(2) [of kx] by (simp add: MAX_PREAUTH_RECLEN_def Let_def len_defs m)
  hence rp: "receive P (frame P fr None 0 REC_HANDSHAKE m) (s, g, out) =
      andThen (receive_handshake P m) (\<lambda>_. ret (length (frame P fr None 0 REC_HANDSHAKE m))) (tick s, g, out)"
    using receive_plain [of s 0 m P g out] s by (simp add: started_def plain_def party_def)
  define s' where "s' = (after_kex P m g (tick s))\<lparr>sp_state := Sig\<rparr>"
  have core: "sp_core P (tick s)" "sp_mykex (tick s) \<noteq> None" "sp_state (tick s) = Kex"
    using s by (simp_all add: started_def plain_def)
  have hk: "receive_handshake P m (tick s, g, out) =
      (Ok (), s'\<lparr>sp_outseqno := (if is_initiator role then 2 else 1)\<rparr>,
       after_kex_rng P m (tick s) g, out @ (if is_initiator role then [sig_wire P s'] else []))"
    using handshake_kex [OF P core ok, of g out] s ek
    by (auto simp: s'_def m_def sig_wire_def sig_body_def started_def party_def)
  have "waiting P kx a b s'"
    using s after_kex_inv [OF P core(1,2) ok, of g]
    by (auto simp: waiting_def exchanged_def s'_def m_def started_def plain_def)
  moreover have "party role fr aead k h l s'" "sp_outseqno s' = 1"
    using s by (simp_all add: party_def started_def s'_def)
  moreover have "receive P (frame P fr None 0 REC_HANDSHAKE m) (s, g, out) =
      (Ok (length (frame P fr None 0 REC_HANDSHAKE m)),
       s'\<lparr>sp_outseqno := (if is_initiator role then 2 else 1)\<rparr>, after_kex_rng P m (tick s) g,
       out @ (if is_initiator role then [sig_wire P s'] else []))"
    by (simp only: rp andThen_Ok [of "receive_handshake P m", OF hk] ret_def)
  ultimately show ?thesis unfolding m_def by blast
qed

text \<open>The SIG of the other side is valid, and answering it keys the session.\<close>

lemma sig_body_valid:
  assumes P: "prims_lengths P" and k: "sig_correct P (sp_mykey t)"
    and s: "sp_core P s" "exchanged P kx a b s" "sp_hiskey s = sk_public (sp_mykey t)"
    and t: "sp_core P t" "kex_done t" "exchanged P kx b a t"
    and r: "is_initiator (sp_role s) \<noteq> is_initiator (sp_role t)" and l: "sp_label s = sp_label t"
  shows "sig_valid P s (sig_body P t)" "kx = X25519MlKem768 \<Longrightarrow> drop SIG_LEN (sig_body P t) = fst (the (sp_mlkem_encap t))"
proof -
  have tk: "take SIG_LEN (sig_body P t) = p_raw_sign P (sk_expanded (sp_mykey t)) (sk_public (sp_mykey t))
       (sig_transcript (is_initiator (sp_role t)) (the (sp_mykex t)) (the (sp_hiskex t)) (sp_label t))"
    by (simp add: sig_body_def SIG_LEN_def prims_lengthsD [OF P])
  show "sig_valid P s (sig_body P t)"
    using k s t r l send_sig_eq(1) [OF P t(1,2)]
    by (auto simp: sig_valid_def tk verify_def sig_correct_def exchanged_def)
  show "drop SIG_LEN (sig_body P t) = fst (the (sp_mlkem_encap t))" if "kx = X25519MlKem768"
    using that t by (auto simp: sig_body_def SIG_LEN_def prims_lengthsD [OF P] exchanged_def)
qed

lemma exchanged_cong [simp]:
  "exchanged P kx a b (s\<lparr>sp_outseqno := n\<rparr>) = exchanged P kx a b s"
  "exchanged P kx a b (tick s) = exchanged P kx a b s"
  by (simp_all add: exchanged_def)

lemma sig_body_cong [simp]:
  "sig_body P (s\<lparr>sp_outseqno := n\<rparr>) = sig_body P s" "sig_body P (tick s) = sig_body P s"
  by (simp_all add: sig_body_def)

lemma waiting_simps [simp]:
  "waiting P kx a b (s\<lparr>sp_outseqno := n\<rparr>) = waiting P kx a b s"
  "party role fr aead k h l (s\<lparr>sp_outseqno := n\<rparr>) = party role fr aead k h l s"
  by (simp_all add: waiting_def plain_def party_def)

text \<open>Receiving the SIG of \<open>t\<close> in \<open>s\<close>, over the wire.\<close>

definition sig_wire_bytes :: "'g prims \<Rightarrow> framing \<Rightarrow> sptps \<Rightarrow> bytes" where
  "sig_wire_bytes P fr t = frame P fr None 1 REC_HANDSHAKE (sig_body P t)"

lemma receive_sig_ok:
  fixes s t :: sptps
  assumes P: "prims_lengths P" "dh_correct P" and k: "sig_correct P kt"
    and s: "waiting P kx a b s" "party role fr aead ks (sk_public kt) l s"
    and t: "waiting P kx b a t" "party role' fr aead kt (sk_public ks) l t"
    and r: "is_initiator role \<noteq> is_initiator role'"
  defines "n \<equiv> (if is_initiator role then sp_outseqno s else sp_outseqno s + 1)"
    and "sg \<equiv> (if is_initiator role then [] else [sig_wire P s])"
  defines "s' \<equiv> keyed (hs_key P s (sig_body P t)) n (tick s)"
  shows "receive P (sig_wire_bytes P fr t) (s, g, out) = (Ok (length (sig_wire_bytes P fr t)),
      (case kx of
         X25519 \<Rightarrow> (s'\<lparr>sp_state := SecondaryKex\<rparr>, g, out @ sg @ [HandshakeDone])
       | X25519MlKem768 \<Rightarrow> (s'\<lparr>sp_outseqno := n + 1, sp_state := Confirm\<rparr>, g, out @ sg @
           [Wire REC_HANDSHAKE (frame P fr (sp_outcipher s') (ucast n) REC_HANDSHAKE [])])))"
proof -
  have kx: "sp_kex s = kx" "sp_kex t = kx" using s t by (auto simp: exchanged_def waiting_def)
  have fr: "sp_framing s = fr" "sp_role s = role" using s by (simp_all add: party_def)
  have tc: "sp_core P t" "kex_done t" using t by (simp_all add: waiting_def plain_def)
  have "length (sig_body P t) = sig_len kx" using send_sig_eq(1) [OF P(1) tc] kx by simp
  hence "length (sig_body P t) \<le> MAX_PREAUTH_RECLEN"
    by (cases kx) (simp_all add: MAX_PREAUTH_RECLEN_def Let_def len_defs)
  hence rp: "receive P (sig_wire_bytes P fr t) (s, g, out) = andThen (receive_handshake P (sig_body P t))
      (\<lambda>_. ret (length (sig_wire_bytes P fr t))) (tick s, g, out)"
    using receive_plain [of s 1 "sig_body P t" P g out] s fr by (simp add: waiting_def plain_def sig_wire_bytes_def)
  have "hs_shared P (tick s) \<noteq> None"
    using hs_shared_agree(1) [OF P, of kx a b s t] s t by (simp add: waiting_def hs_shared_def)
  hence ready: "sig_ready P (tick s)" using s by (auto simp: waiting_def sig_ready_def exchanged_def plain_def)
  have valid: "sig_valid P (tick s) (sig_body P t)"
    by (rule sig_body_valid(1) [of P t _ kx a b]) (use P k s t r in \<open>simp_all add: waiting_def plain_def party_def\<close>)
  have hk: "hs_key P (tick s) c = hs_key P s c" "sig_wire P (tick s) = sig_wire P s" for c
    by (simp_all add: hs_key_def hs_shared_def sig_wire_def)
  have oc: "sp_outcipher (tick s) = None" using s by (simp add: waiting_def plain_def)
  show ?thesis
    using handshake_sig [OF P(1) ready valid oc, of g out] kx fr
    by (cases kx) (simp_all add: rp andThen_def ret_def hk n_def sg_def s'_def)
qed

text \<open>The confirmation of the hybrid exchange: an empty sealed handshake record.\<close>

lemma check_expected: "fst (check w (rw_inseqno w) True) = Inr ()"
  by (simp add: check_def Let_def)

lemma receive_confirm_ok:
  assumes P: "prims_lengths P" "gcm_correct P" and s: "sp_incipher s = Some c" "no_partial s" "next_seq s = n"
    "sp_state s = Confirm"
  obtains s' where
    "receive P (frame P (sp_framing s) (Some c) n REC_HANDSHAKE []) (s, g, out) =
      (Ok (length (frame P (sp_framing s) (Some c) n REC_HANDSHAKE [])), s', g, out @ [HandshakeDone])"
    "sp_state s' = SecondaryKex" "sp_incipher s' = sp_incipher s" "sp_outcipher s' = sp_outcipher s"
proof -
  have "acceptable n s"
    using s check_expected by (auto simp: acceptable_def next_seq_def split: framing.splits)
  note R = receive_sealed [OF P s(1) this, of "[]" REC_HANDSHAKE g out]
  have st: "sp_state (accept n s) = Confirm" "sp_incipher (accept n s) = sp_incipher s"
    "sp_outcipher (accept n s) = sp_outcipher s"
    using s(4) by (cases "sp_framing s"; simp add: accept_def)+
  show thesis
    by (rule that [of "(accept n s)\<lparr>sp_state := SecondaryKex\<rparr>"])
       (use R st in \<open>simp_all add: dispatch_record_def receive_handshake_def run_simps\<close>)
qed

lemma keyed_fields [simp]:
  "sp_framing (keyed k n s) = sp_framing s" "no_partial (keyed k n s) = no_partial s"
  "next_seq (keyed k n s) = next_seq s" "sp_state (keyed k n s) = sp_state s"
  "sp_outcipher (keyed k n s) =
     Some \<lparr>ci_aead = sp_aead s, ci_key = key_half k (is_initiator (sp_role s)) True\<rparr>"
  "sp_incipher (keyed k n s) =
     Some \<lparr>ci_aead = sp_aead s, ci_key = key_half k (is_initiator (sp_role s)) False\<rparr>"
  by (simp_all add: keyed_def no_partial_def next_seq_def split: framing.splits)

lemma wires_simps [simp]:
  "wires [] = []" "wires (Wire t b # xs) = b # wires xs" "wires (HandshakeDone # xs) = wires xs"
  by (simp_all add: wires_def)

lemma party_simps [simp]:
  "party role fr aead k h l (s\<lparr>sp_state := st\<rparr>) = party role fr aead k h l s"
  "party role fr aead k h l (keyed key n s) = party role fr aead k h l s"
  "party role fr aead k h l (tick s) = party role fr aead k h l s"
  by (simp_all add: party_def keyed_def)

lemma sig_wire_eq:
  "waiting P kx a b s \<Longrightarrow> party role fr aead k h l s \<Longrightarrow> sp_outseqno s = 1 \<Longrightarrow>
   sig_wire P s = Wire REC_HANDSHAKE (sig_wire_bytes P fr s)"
  by (simp add: sig_wire_def sig_wire_bytes_def waiting_def plain_def party_def)

text \<open>Both KEX messages delivered: what is left of the exchange.\<close>

lemma handshake_kexes:
  assumes P: "prims_lengths P" "kem_correct P" and k: "sig_correct P ki" "sig_correct P kr"
  obtains i gi' r gr' l where
    "waiting P kx gi gr i" "party Initiator fr aead ki (sk_public kr) l i" "sp_outseqno i = 1"
    "waiting P kx gr gi r" "party Responder fr aead kr (sk_public ki) l r" "sp_outseqno r = 1"
    "handshake P fr kx aead label win ki kr gi gr =
     Option.bind (feed P [sig_wire_bytes P fr i] (r, gr', [])) (\<lambda>(r, gr, ro1).
     Option.bind (feed P (wires ro1) (i\<lparr>sp_outseqno := 2\<rparr>, gi', [])) (\<lambda>(i, gi, oi2).
     Option.bind (feed P (wires oi2) (r, gr, [])) (\<lambda>(r, gr, ro2).
     Some ((i, gi, oi2), (r, gr, ro1 @ ro2)))))"
proof -
  define l where "l = full_label kx aead label"
  have pk: "p_point_ok P (sk_public ki)" "p_point_ok P (sk_public kr)" using k by (simp_all add: sig_correct_def)
  have ek: "p_mlkem_ek_ok P (drop KEX_LEN (kex_msg P kx g))" if "kx = X25519MlKem768" for g
    using P(2) that kex_msg_parts(5) [OF P(1)] by (simp add: kem_correct_def kex_kem_def split_beta Let_def)
  obtain i0 where i0: "start_with P Initiator fr kx ki (sk_public kr) label aead win gi =
      Some (i0, kex_rest P kx gi, [Wire REC_HANDSHAKE (frame P fr None 0 REC_HANDSHAKE (kex_msg P kx gi))])"
    "started P kx gi i0" "party Initiator fr aead ki (sk_public kr) l i0"
    using start_with_started [OF P(1) pk(1)] unfolding l_def by blast
  obtain r0 where r0: "start_with P Responder fr kx kr (sk_public ki) label aead win gr =
      Some (r0, kex_rest P kx gr, [Wire REC_HANDSHAKE (frame P fr None 0 REC_HANDSHAKE (kex_msg P kx gr))])"
    "started P kx gr r0" "party Responder fr aead kr (sk_public ki) l r0"
    using start_with_started [OF P(1) pk(2)] unfolding l_def by blast
  obtain i1 gi1 where i1: "receive P (frame P fr None 0 REC_HANDSHAKE (kex_msg P kx gr)) (i0, kex_rest P kx gi, []) =
      (Ok (length (frame P fr None 0 REC_HANDSHAKE (kex_msg P kx gr))), i1\<lparr>sp_outseqno := 2\<rparr>, gi1, [sig_wire P i1])"
    "waiting P kx gi gr i1" "party Initiator fr aead ki (sk_public kr) l i1" "sp_outseqno i1 = 1"
    using receive_kex_ok [OF P(1) i0(2,3) ek, of gr "kex_rest P kx gi" "[]"] by auto
  obtain r1 gr1 where r1: "receive P (frame P fr None 0 REC_HANDSHAKE (kex_msg P kx gi)) (r0, kex_rest P kx gr, []) =
      (Ok (length (frame P fr None 0 REC_HANDSHAKE (kex_msg P kx gi))), r1\<lparr>sp_outseqno := 1\<rparr>, gr1, [])"
    "waiting P kx gr gi r1" "party Responder fr aead kr (sk_public ki) l r1" "sp_outseqno r1 = 1"
    using receive_kex_ok [OF P(1) r0(2,3) ek, of gi "kex_rest P kx gr" "[]"] by auto
  have r1': "r1\<lparr>sp_outseqno := 1\<rparr> = r1" using r1(4) by simp
  show thesis
    by (rule that [OF i1(2-4) r1(2-4), of gr1 gi1])
       (simp add: handshake_def i0(1) r0(1) i1(1) r1(1) r1' sig_wire_eq [OF i1(2-4)] cong: option.case_cong)
qed

text \<open>Both SIG messages: one key block \<open>K\<close>, and for the hybrid exchange a sealed confirmation each.\<close>

definition dir_cipher :: "sptps_aead \<Rightarrow> bytes \<Rightarrow> bool \<Rightarrow> sptps_cipher" where
  "dir_cipher aead K from_initiator =
     \<lparr>ci_aead = aead, ci_key = (if from_initiator then drop CIPHER_KEY_LEN K else take CIPHER_KEY_LEN K)\<rparr>"

definition confirm_wire :: "'g prims \<Rightarrow> framing \<Rightarrow> sptps_cipher \<Rightarrow> bytes" where
  "confirm_wire P fr c = frame P fr (Some c) 2 REC_HANDSHAKE []"

definition half_done :: "framing \<Rightarrow> sptps_kex \<Rightarrow> sptps_cipher \<Rightarrow> sptps_cipher \<Rightarrow> sptps \<Rightarrow> bool" where
  "half_done fr kx out inc s \<longleftrightarrow> sp_outcipher s = Some out \<and> sp_incipher s = Some inc \<and> sp_framing s = fr \<and>
     no_partial s \<and> next_seq s = 2 \<and> sp_state s = (case kx of X25519 \<Rightarrow> SecondaryKex | X25519MlKem768 \<Rightarrow> Confirm)"

definition sig_answer :: "'g prims \<Rightarrow> framing \<Rightarrow> sptps_kex \<Rightarrow> sptps_cipher \<Rightarrow> sptps_output" where
  "sig_answer P fr kx c =
     (case kx of X25519 \<Rightarrow> HandshakeDone | X25519MlKem768 \<Rightarrow> Wire REC_HANDSHAKE (confirm_wire P fr c))"

lemma handshake_sigs:
  assumes P: "prims_lengths P" "dh_correct P" "kem_correct P" and k: "sig_correct P ki" "sig_correct P kr"
    and i: "waiting P kx gi gr i" "party Initiator fr aead ki (sk_public kr) l i" "sp_outseqno i = 1"
    and r: "waiting P kx gr gi r" "party Responder fr aead kr (sk_public ki) l r" "sp_outseqno r = 1"
  obtains i' r' ci cr where
    "receive P (sig_wire_bytes P fr i) (r, g, []) = (Ok (length (sig_wire_bytes P fr i)), r', g,
       [Wire REC_HANDSHAKE (sig_wire_bytes P fr r), sig_answer P fr kx cr])"
    "receive P (sig_wire_bytes P fr r) (i\<lparr>sp_outseqno := 2\<rparr>, h, []) =
       (Ok (length (sig_wire_bytes P fr r)), i', h, [sig_answer P fr kx ci])"
    "half_done fr kx ci cr i'" "half_done fr kx cr ci r'"
proof -
  define K where "K = hs_key P r (sig_body P i)"
  have K: "hs_key P (i\<lparr>sp_outseqno := 2\<rparr>) (sig_body P r) = K"
    unfolding K_def
    by (rule hs_key_agree [OF P, of kx gi gr])
       (use i r sig_body_valid(2) [of P i r kx gr gi] sig_body_valid(2) [of P r i kx gi gr] P k in
        \<open>auto simp: waiting_def party_def plain_def\<close>)
  note R = receive_sig_ok [OF P(1,2) k(1) r(1,2) i(1,2), of g "[]"]
  note I = receive_sig_ok [OF P(1,2) k(2), of kx gi gr "i\<lparr>sp_outseqno := 2\<rparr>" Initiator fr aead ki l r Responder h "[]"]
  have ad: "sp_aead i = aead" "sp_aead r = aead" "sp_role i = Initiator" "sp_role r = Responder"
      "sp_framing i = fr" "sp_framing r = fr" "no_partial i" "no_partial r" "next_seq i = 1" "next_seq r = 1"
    using i r by (simp_all add: party_def waiting_def plain_def)
  define fin where "fin s = (case kx of X25519 \<Rightarrow> s\<lparr>sp_state := SecondaryKex\<rparr> | X25519MlKem768 \<Rightarrow>
      s\<lparr>sp_outseqno := 3, sp_state := Confirm\<rparr>)" for s :: sptps
  show thesis
    by (rule that [of "fin (keyed K 2 (tick r))" "dir_cipher aead K False"
        "fin (keyed K 2 (tick (i\<lparr>sp_outseqno := 2\<rparr>)))" "dir_cipher aead K True"];
        cases kx; use R I i r ad sig_wire_eq [OF r] in \<open>simp add: K K_def [symmetric] sig_answer_def half_done_def
          confirm_wire_def dir_cipher_def fin_def key_half_def\<close>)
qed

text \<open>
  C1. Agreement: for both key exchanges, both framings and both ciphers, an initiator and a responder
  whose messages are delivered both finish the handshake, report it, and hold the same two session
  keys, each one's sending key being the other's receiving key.
\<close>

theorem handshake_agrees:
  assumes P: "prims_lengths P" "gcm_correct P" "dh_correct P" "kem_correct P"
    and k: "sig_correct P ki" "sig_correct P kr"
  shows "\<exists>i gi' oi r gr' ro. handshake P fr kx aead label win ki kr gi gr = Some ((i, gi', oi), (r, gr', ro)) \<and>
    sp_state i = SecondaryKex \<and> sp_state r = SecondaryKex \<and> sp_outcipher i \<noteq> None \<and>
    sp_outcipher i = sp_incipher r \<and> sp_incipher i = sp_outcipher r \<and>
    HandshakeDone \<in> set oi \<and> HandshakeDone \<in> set ro"
proof -
  obtain i gi' r gr' l where
    i: "waiting P kx gi gr i" "party Initiator fr aead ki (sk_public kr) l i" "sp_outseqno i = 1" and
    r: "waiting P kx gr gi r" "party Responder fr aead kr (sk_public ki) l r" "sp_outseqno r = 1" and
    H: "handshake P fr kx aead label win ki kr gi gr =
     Option.bind (feed P [sig_wire_bytes P fr i] (r, gr', [])) (\<lambda>(r, gr, ro1).
     Option.bind (feed P (wires ro1) (i\<lparr>sp_outseqno := 2\<rparr>, gi', [])) (\<lambda>(i, gi, oi2).
     Option.bind (feed P (wires oi2) (r, gr, [])) (\<lambda>(r, gr, ro2).
     Some ((i, gi, oi2), (r, gr, ro1 @ ro2)))))"
    by (rule handshake_kexes [OF P(1,4) k])
  obtain i' r' ci cr where
    s: "receive P (sig_wire_bytes P fr i) (r, gr', []) = (Ok (length (sig_wire_bytes P fr i)), r', gr',
       [Wire REC_HANDSHAKE (sig_wire_bytes P fr r), sig_answer P fr kx cr])"
    "receive P (sig_wire_bytes P fr r) (i\<lparr>sp_outseqno := 2\<rparr>, gi', []) =
       (Ok (length (sig_wire_bytes P fr r)), i', gi', [sig_answer P fr kx ci])" and
    d: "half_done fr kx ci cr i'" "half_done fr kx cr ci r'"
    by (rule handshake_sigs [OF P(1,3,4) k i r])
  show ?thesis
  proof (cases kx)
    case X25519
    thus ?thesis using H s d by (simp add: sig_answer_def half_done_def)
  next
    case X25519MlKem768
    obtain i3 where i3: "receive P (confirm_wire P fr cr) (i', gi', [Wire REC_HANDSHAKE (confirm_wire P fr ci)]) =
        (Ok (length (confirm_wire P fr cr)), i3, gi', [Wire REC_HANDSHAKE (confirm_wire P fr ci), HandshakeDone])"
      "sp_state i3 = SecondaryKex" "sp_incipher i3 = sp_incipher i'" "sp_outcipher i3 = sp_outcipher i'"
      using receive_confirm_ok [OF P(1,2), of i' cr 2 gi' "[Wire REC_HANDSHAKE (confirm_wire P fr ci)]"] d(1) X25519MlKem768
      by (auto simp: half_done_def confirm_wire_def)
    obtain r3 where r3: "receive P (confirm_wire P fr ci) (r', gr', []) =
        (Ok (length (confirm_wire P fr ci)), r3, gr', [HandshakeDone])"
      "sp_state r3 = SecondaryKex" "sp_incipher r3 = sp_incipher r'" "sp_outcipher r3 = sp_outcipher r'"
      using receive_confirm_ok [OF P(1,2), of r' ci 2 gr' "[]"] d(2) X25519MlKem768
      by (auto simp: half_done_def confirm_wire_def)
    show ?thesis using H s d i3 r3 X25519MlKem768 by (simp add: sig_answer_def half_done_def)
  qed
qed

theorem handshake_agrees_witness:
  "\<exists>i gi' oi r gr' ro.
    handshake demo_prims Datagram X25519MlKem768 Aes256Gcm [1, 2] 16 demo_key demo_key 0 100 =
      Some ((i, gi', oi), (r, gr', ro)) \<and>
    sp_state i = SecondaryKex \<and> sp_state r = SecondaryKex \<and> sp_outcipher i \<noteq> None \<and>
    sp_outcipher i = sp_incipher r \<and> sp_incipher i = sp_outcipher r \<and>
    HandshakeDone \<in> set oi \<and> HandshakeDone \<in> set ro"
  using handshake_agrees [of demo_prims demo_key demo_key] demo_prims_ok by simp

end
