(* ===== verification/Sptps_Data.thy ===== *)
theory Sptps_Data
  imports Sptps_Handshake
begin

text \<open>
  What a session guarantees to its caller once it runs: it never panics, only authenticated data
  leaves it, the datagram path round-trips, sequence numbers are not reused under a key, and what a
  malformed hybrid key exchange does to it.
\<close>

section \<open>No panics\<close>

lemma wp_no_panic:
  assumes "wp f Q E s"
  shows "fst (f (s, g, out)) \<noteq> Panic"
proof -
  obtain r s' g' out' where c: "f (s, g, out) = (r, s', g', out')" by (metis prod.exhaust)
  show ?thesis using wpD(1) [OF assms c] by (simp add: c)
qed

text \<open>
  C2. A session never panics: whatever sequence of public calls, with whatever bytes from the peer,
  led to the session, the next \<open>receive\<close>, \<open>send_record\<close>, \<open>force_kex\<close> or \<open>open_data_into\<close> returns a
  result or an error (none of the \<open>expect\<close>, \<open>unwrap\<close>, index and length panics of the code fires).
\<close>

theorem session_never_panics:
  assumes "prims_lengths P" "sp_reach P s"
  shows "fst (receive P data (s, g, out)) \<noteq> Panic \<and> fst (send_record P ty body (s, g, out)) \<noteq> Panic \<and>
    fst (force_kex P (s, g, out)) \<noteq> Panic \<and> fst (open_data_into P s data buf h) \<noteq> Panic"
  using sp_reach_inv [OF assms]
  by (intro conjI wp_no_panic [OF wp_receive] wp_no_panic [OF wp_send_record] wp_no_panic [OF wp_force_kex]
      open_data_into_no_panic assms)

theorem session_never_panics_witness:
  "\<exists>s. sp_reach demo_prims s \<and> fst (receive demo_prims [0, 0, 0, 0, 128] (s, 7, [])) \<noteq> Panic"
proof -
  obtain s g' out where s: "start_with demo_prims Responder Datagram X25519 demo_key [] [] ChaCha20Poly1305 16 0 =
      Some (s, g', out)"
    using start_with_inv [OF demo_prims_ok(1) demo_prims_ok(6)] by blast
  have r: "sp_reach demo_prims s" by (rule reach_start [OF demo_prims_ok(6) s])
  thus ?thesis using session_never_panics [OF demo_prims_ok(1) r] by blast
qed

section \<open>What reaches the application\<close>

text \<open>\<open>quiet f\<close>: the operation \<open>f\<close> adds no application record to the outputs.\<close>

fun is_record :: "sptps_output \<Rightarrow> bool" where
  "is_record (Record _ _) = True"
| "is_record _ = False"

definition quiet :: "('g, 'a) sp_op \<Rightarrow> bool" where
  "quiet f \<longleftrightarrow> (\<forall>c. filter is_record (snd (snd (snd (f c)))) = filter is_record (snd (snd c)))"

lemma quiet_ops [simp]:
  "quiet (ret x)" "quiet (throw e)" "quiet panic" "quiet (modify f)" "quiet (draw d)" "quiet (expect v)"
  "quiet (ok_or e v)" "quiet (push_out (Wire t b))" "quiet (push_out HandshakeDone)"
  by (auto simp: quiet_def op_defs split_beta Let_def split: option.splits)

lemma quiet_andThen: "quiet f \<Longrightarrow> (\<And>x. quiet (k x)) \<Longrightarrow> quiet (andThen f k)"
  by (auto simp: quiet_def andThen_def split: prod.splits res.splits) (metis snd_conv)+

lemma quiet_self: "(\<And>s. quiet (k s)) \<Longrightarrow> quiet (self k)"
  by (simp add: quiet_def self_def)

lemma quiet_expect_ok: "quiet f \<Longrightarrow> quiet (expect_ok f)"
  by (auto simp: quiet_def expect_ok_def split: prod.splits res.splits) (metis snd_conv)+

lemmas quiet_intros = quiet_andThen quiet_self quiet_expect_ok

lemma quiet_send_record_priv: "quiet (send_record_priv P ty body)"
  by (auto simp: send_record_priv_def Let_def intro!: quiet_intros)

lemma quiet_send_kex: "quiet (send_kex P)"
  by (auto simp: send_kex_def Let_def split_beta intro!: quiet_intros quiet_send_record_priv)

lemma quiet_send_sig: "quiet (send_sig P)"
  by (auto simp: send_sig_def kex_pair_def Let_def split_beta split: sptps_kex.splits
      intro!: quiet_intros quiet_send_record_priv)

lemma quiet_key_material: "quiet (generate_key_material P x h)"
  by (auto simp: generate_key_material_def kex_pair_def Let_def split_beta intro!: quiet_intros)

lemma quiet_hybrid_key_material: "quiet (hybrid_key_material P m h x ct)"
  by (auto simp: hybrid_key_material_def Let_def split_beta intro!: quiet_intros quiet_key_material)

lemma quiet_receive_sig: "quiet (receive_sig P body)"
  by (auto simp: receive_sig_def sig_switch_def send_ack_def kex_pair_def Let_def split_beta split: sptps_kex.splits
      intro!: quiet_intros quiet_key_material quiet_hybrid_key_material quiet_send_sig quiet_send_record_priv)

lemma quiet_receive_kex: "quiet (receive_kex P body)"
  by (auto simp: receive_kex_def intro!: quiet_intros quiet_send_sig)

lemma quiet_receive_ack: "quiet (receive_ack body)"
  by (auto simp: receive_ack_def intro!: quiet_intros)

lemma quiet_receive_handshake: "quiet (receive_handshake P body)"
  by (auto simp: receive_handshake_def send_ack_def split: sptps_kex.splits
      intro!: quiet_intros quiet_send_kex quiet_receive_kex quiet_receive_sig quiet_receive_ack quiet_send_record_priv)

lemma quietD: "quiet f \<Longrightarrow> f (s, g, []) = (r, s', g', out) \<Longrightarrow> Record t b \<notin> set out"
proof -
  assume "quiet f" "f (s, g, []) = (r, s', g', out)"
  hence "filter is_record out = []" by (metis quiet_def snd_conv filter.simps(1))
  thus ?thesis by (auto simp: filter_empty_conv)
qed

lemma dispatch_record_emits:
  assumes "dispatch_record P ty body enc (s, g, []) = (r, s', g', out)" "Record t b \<in> set out"
  shows "enc \<and> sp_state s \<noteq> Confirm \<and> ty < REC_HANDSHAKE \<and> t = ty \<and> b = body"
  using assms quietD [OF quiet_receive_handshake, of P body s g r s' g' out t b]
  by (auto simp: dispatch_record_def op_defs split: if_splits)

lemma andThen_emits:
  assumes "andThen f (\<lambda>_. ret x) (s, g, []) = (r, s', g', out)"
  obtains r1 where "f (s, g, []) = (r1, s', g', out)"
  using assms by (auto simp: andThen_def ret_def split: prod.splits res.splits)

lemma receive_datagram_emits:
  assumes "receive_datagram P data (s, g, []) = (r, s', g', out)" "Record t b \<in> set out"
  defines "n \<equiv> be_u32 (data ! 0) (data ! 1) (data ! 2) (data ! 3)"
  shows "\<exists>c. sp_incipher s = Some c \<and> sp_state s \<noteq> Confirm \<and> t < REC_HANDSHAKE \<and>
    cipher_open P c (ucast n) (drop 4 data) = Some (t # b) \<and> fst (check (sp_replay s) n True) = Inr ()"
proof -
  note R = assms(1) [unfolded receive_datagram_def Let_def n_def [symmetric]]
  show ?thesis
  proof (cases "sp_incipher s")
    case None
    thus ?thesis
      using R assms(2) by (auto simp: run_simps split: if_splits dest: quietD [OF quiet_receive_handshake])
  next
    case (Some c)
    obtain v w where w: "check (sp_replay s) n True = (v, w)" by (rule prod.exhaust)
    show ?thesis
    proof (cases "cipher_open P c (ucast n) (drop 4 data)")
      case None
      thus ?thesis using R assms(2) Some by (auto simp: op_defs split: if_splits)
    next
      case (Some pt)
      with \<open>sp_incipher s = Some c\<close> R assms(2) w show ?thesis
        by (cases v; cases pt)
           (auto simp: run_simps panic_def split: if_splits dest!: dispatch_record_emits)
    qed
  qed
qed

lemma receive_stream_body_emits:
  assumes "receive_stream_body P data k (s, g, []) = (r, s', g', out)" "Record t b \<in> set out"
  shows "\<exists>c m. sp_incipher s = Some c \<and> sp_state s \<noteq> Confirm \<and> t < REC_HANDSHAKE \<and>
    cipher_open P c (ucast (sp_inseqno s)) (drop 2 (sb_buf (sp_stream s) @ take m (drop k data))) = Some (t # b)"
proof -
  define total where "total = 2 + (if sp_incipher s \<noteq> None then unat (sb_reclen (sp_stream s)) + 1 + TAG_LEN
      else unat (sb_reclen (sp_stream s)) + 1)"
  define m where "m = min (total - length (sb_buf (sp_stream s))) (length data - k)"
  define buf where "buf = sb_buf (sp_stream s) @ take m (drop k data)"
  note R = assms(1) [unfolded receive_stream_body_def self_app Let_def, folded total_def, folded m_def, folded buf_def]
  have "\<exists>c. sp_incipher s = Some c \<and> sp_state s \<noteq> Confirm \<and> t < REC_HANDSHAKE \<and>
    cipher_open P c (ucast (sp_inseqno s)) (drop 2 buf) = Some (t # b)"
  proof (cases "sp_incipher s")
    case None
    thus ?thesis
      using R assms(2) by (auto simp: run_simps panic_def split: if_splits elim!: andThen_emits dest!: dispatch_record_emits)
  next
    case (Some c)
    show ?thesis
    proof (cases "cipher_open P c (ucast (sp_inseqno s)) (drop 2 buf)")
      case None
      thus ?thesis using R assms(2) Some by (auto simp: op_defs split: if_splits)
    next
      case (Some pt)
      with \<open>sp_incipher s = Some c\<close> R assms(2) show ?thesis
        by (cases pt)
           (auto simp: run_simps panic_def split: if_splits elim!: andThen_emits dest!: dispatch_record_emits)
    qed
  qed
  thus ?thesis unfolding buf_def by blast
qed

lemma receive_stream_emits:
  assumes "receive_stream P data (s, g, []) = (r, s', g', out)" "Record t b \<in> set out"
  shows "\<exists>c m. sp_incipher s = Some c \<and> sp_state s \<noteq> Confirm \<and> t < REC_HANDSHAKE \<and>
    cipher_open P c (ucast (sp_inseqno s)) (drop 2 (sb_buf (sp_stream s) @ take m data)) = Some (t # b)"
proof (cases "length (sb_buf (sp_stream s)) < 2")
  case True
  define n where "n = min (2 - length (sb_buf (sp_stream s))) (length data)"
  define buf where "buf = sb_buf (sp_stream s) @ take n data"
  note R = assms(1) [unfolded receive_stream_def self_app Let_def, folded n_def, folded buf_def]
  have "receive_stream_body P data n (s\<lparr>sp_stream := (sp_stream s)\<lparr>sb_buf := buf,
      sb_reclen := be_u16 (buf ! 0) (buf ! 1)\<rparr>\<rparr>, g, []) = (r, s', g', out)"
    using R True assms(2) by (auto simp: run_simps split: if_splits)
  from receive_stream_body_emits [OF this assms(2)] obtain c m where
    "sp_incipher s = Some c" "sp_state s \<noteq> Confirm" "t < REC_HANDSHAKE"
    "cipher_open P c (ucast (sp_inseqno s)) (drop 2 (buf @ take m (drop n data))) = Some (t # b)"
    by auto
  moreover have "buf @ take m (drop n data) = sb_buf (sp_stream s) @ take (n + m) data"
    by (simp add: buf_def take_add)
  ultimately show ?thesis by metis
next
  case False
  thus ?thesis using assms receive_stream_body_emits [of P data 0 s g r s' g' out t b]
    by (auto simp: receive_stream_def run_simps)
qed

text \<open>
  C4. Only authenticated data reaches the application: when \<open>receive\<close> hands out a record, the session
  had a receiving cipher and was not waiting for confirmation, and the cipher opened exactly these
  bytes under the record's sequence number. In datagram mode the replay window accepted that number;
  in stream mode it is the session's counter.
\<close>

theorem records_authenticated:
  assumes "receive P data (s, g, []) = (r, s', g', out)" "Record t b \<in> set out"
  shows "\<exists>c n ct. sp_incipher s = Some c \<and> sp_state s \<noteq> Confirm \<and> t < REC_HANDSHAKE \<and>
    cipher_open P c (ucast n) ct = Some (t # b) \<and>
    (case sp_framing s of
       Datagram \<Rightarrow> n = be_u32 (data ! 0) (data ! 1) (data ! 2) (data ! 3) \<and> ct = drop 4 data \<and>
         fst (check (sp_replay s) n True) = Inr ()
     | Stream \<Rightarrow> n = sp_inseqno s \<and> (\<exists>m. ct = drop 2 (sb_buf (sp_stream s) @ take m data)))"
proof (cases "sp_framing s")
  case Datagram
  then obtain r1 where "receive_datagram P data (s, g, []) = (r1, s', g', out)"
    using assms(1) by (auto simp: receive_def run_simps elim!: andThen_emits)
  from receive_datagram_emits [OF this assms(2)] show ?thesis using Datagram by auto
next
  case Stream
  hence "receive_stream P data (s, g, []) = (r, s', g', out)" using assms(1) by (simp add: receive_def run_simps)
  from receive_stream_emits [OF this assms(2)] show ?thesis using Stream by auto
qed

definition demo_session :: "framing \<Rightarrow> sptps" where
  "demo_session fr = (sptps_init Responder fr X25519 demo_key [] [] ChaCha20Poly1305 16)
     \<lparr>sp_state := SecondaryKex,
      sp_incipher := Some \<lparr>ci_aead = ChaCha20Poly1305, ci_key = replicate 64 1\<rparr>,
      sp_outcipher := Some \<lparr>ci_aead = ChaCha20Poly1305, ci_key = replicate 64 1\<rparr>\<rparr>"

lemma demo_session_ready:
  "sp_incipher (demo_session fr) = Some \<lparr>ci_aead = ChaCha20Poly1305, ci_key = replicate 64 1\<rparr>"
  "sp_outcipher (demo_session fr) = Some \<lparr>ci_aead = ChaCha20Poly1305, ci_key = replicate 64 1\<rparr>"
  "acceptable 0 (demo_session fr)" "sp_state (demo_session fr) = SecondaryKex" "sp_framing (demo_session fr) = fr"
  "sp_outseqno (demo_session fr) = 0" "sp_out_key_base (demo_session fr) = 0" "sp_kex (demo_session fr) = X25519"
  using check_expected [of "replay_new 16"]
  by (auto simp: demo_session_def sptps_init_def Let_def acceptable_def no_partial_def replay_new_def split: framing.splits)

theorem records_authenticated_witness:
  "\<exists>r s' g' out. receive demo_prims
      (frame demo_prims Datagram (sp_incipher (demo_session Datagram)) 0 5 [1, 2, 3]) (demo_session Datagram, 0, []) =
      (r, s', g', out) \<and> Record 5 [1, 2, 3] \<in> set out \<and> (\<exists>c n ct. sp_incipher (demo_session Datagram) = Some c \<and>
        cipher_open demo_prims c (ucast (n :: u32)) ct = Some (5 # [1, 2, 3]))"
proof -
  define w where "w = frame demo_prims Datagram (sp_incipher (demo_session Datagram)) 0 5 [1, 2, 3]"
  have R: "receive demo_prims w (demo_session Datagram, 0, []) =
      (Ok (length w), accept 0 (demo_session Datagram), 0, [Record 5 [1, 2, 3]])"
    using receive_sealed [OF demo_prims_ok(1,2) demo_session_ready(1,3) [of Datagram], of "[1, 2, 3]" 5 0 "[]"]
    by (simp add: w_def demo_session_ready dispatch_record_def run_simps accept_def REC_HANDSHAKE_def push_out_def andThen_def)
  from records_authenticated [OF this, of 5 "[1, 2, 3]"] show ?thesis unfolding w_def [symmetric] R by auto
qed

section \<open>The datagram path end to end\<close>

text \<open>
  C14. What one side seals on the datagram path the other side opens: same type and body, headrooms
  independent, an overhead of \<open>DATAGRAM_OVERHEAD\<close> bytes, and the session interface \<open>receive\<close> delivers
  the same record from the same bytes.
\<close>

theorem seal_open_roundtrip:
  assumes P: "prims_lengths P" "gcm_correct P"
    and a: "sp_framing a = Datagram" "sp_outcipher a = Some c" "sp_state a \<noteq> Confirm" "sealed_count a < SEAL_KEY_LIMIT"
    and b: "sp_framing b = Datagram" "sp_incipher b = Some c" "sp_state b \<noteq> Confirm"
      "acceptable (ucast (sp_outseqno a)) b"
    and ty: "ty < REC_HANDSHAKE"
  shows "\<exists>buf. seal_data_into P a ty body out h = (Ok (), a\<lparr>sp_outseqno := sp_outseqno a + 1\<rparr>, buf) \<and>
    length buf = h + DATAGRAM_OVERHEAD + length body \<and>
    open_data_into P b (drop h buf) out' h' =
      (Ok ty, accept (ucast (sp_outseqno a)) b, replicate h' 0 @ body) \<and>
    receive P (drop h buf) (b, g, []) =
      (Ok (length buf - h), accept (ucast (sp_outseqno a)) b, g, [Record ty body])"
proof -
  define n :: u32 where "n = ucast (sp_outseqno a)"
  define w where "w = frame P Datagram (Some c) n ty body"
  have w: "w = u32_be n @ cipher_seal P c (ucast n) (ty # body)" by (simp add: w_def frame_def)
  have l: "length w = DATAGRAM_OVERHEAD + length body" by (simp add: w cipher_seal_length [OF P(1)] DATAGRAM_OVERHEAD_def)
  have s: "seal_data_into P a ty body out h = (Ok (), a\<lparr>sp_outseqno := sp_outseqno a + 1\<rparr>, replicate h 0 @ w)"
    using a ty by (simp add: seal_data_into_def app_send_ready_def alloc_seqnos_def Let_def sealed_count_def
        seal_with_seqno_def cipher_seal_into_eq w n_def not_le)
  obtain rw where rw: "check (sp_replay b) n True = (Inr (), rw)"
    using b by (cases "check (sp_replay b) n True") (simp add: acceptable_def n_def)
  have o: "open_data_into P b w out' h' = (Ok ty, accept n b, replicate h' 0 @ body)"
    using b ty l rw
    by (simp add: open_data_into_def open_with_seqno_def w Let_def cipher_open_into_eq cipher_open_seal [OF P]
        DATAGRAM_OVERHEAD_def accept_def nth_append not_le be_u32_u32_be [simplified])
  have r: "receive P w (b, g, []) = (Ok (length w), accept n b, g, [Record ty body])"
    using receive_sealed [OF P b(2), of n body ty g "[]"] b ty
    by (simp add: w_def n_def dispatch_record_def run_simps accept_def push_out_def andThen_def)
  show ?thesis using s o r l by (simp add: n_def)
qed

theorem seal_open_roundtrip_witness:
  "\<exists>buf. seal_data_into demo_prims (demo_session Datagram) 0 [7, 8] [] 12 =
      (Ok (), (demo_session Datagram)\<lparr>sp_outseqno := 1\<rparr>, buf) \<and> length buf = 12 + 21 + 2 \<and>
    open_data_into demo_prims (demo_session Datagram) (drop 12 buf) [] 14 =
      (Ok 0, accept 0 (demo_session Datagram), replicate 14 0 @ [7, 8])"
  using seal_open_roundtrip [OF demo_prims_ok(1,2) demo_session_ready(5,2) _ _ demo_session_ready(5,1),
      of 0 "[7, 8]" "[]" 12 "[]" 14 0] demo_session_ready
  by (auto simp: sealed_count_def SEAL_KEY_LIMIT_def REC_HANDSHAKE_def DATAGRAM_OVERHEAD_def)

section \<open>Sequence numbers under one key\<close>

text \<open>
  Successive reservations of batches \<open>ns\<close> on one session, as the workers that share the counter make
  them; the list holds every number handed out, \<open>base.wrapping_add(i)\<close> for the \<open>i\<close>-th of a batch.
\<close>

fun alloc_run :: "sptps \<Rightarrow> u32 list \<Rightarrow> u32 list" where
  "alloc_run s [] = []"
| "alloc_run s (n # ns) =
     (case alloc_seqnos s n of
        (None, s') \<Rightarrow> alloc_run s' ns
      | (Some base, s') \<Rightarrow> map (\<lambda>i. base + of_nat i) [0 ..< unat n] @ alloc_run s' ns)"

text \<open>The number at offset \<open>k\<close> from the first record under the key.\<close>

definition key_seq :: "sptps \<Rightarrow> nat \<Rightarrow> u32" where
  "key_seq s k = ucast (sp_out_key_base s + of_nat k)"

lemma unat_ucast32: "unat (ucast w :: u32) = unat w mod 2 ^ 32" for w :: u64
  by (simp add: unsigned_ucast_eq take_bit_eq_mod)

lemma unat_key_seq: "unat (key_seq s k) = (unat (sp_out_key_base s) + k) mod 2 ^ 32"
proof -
  have "unat (sp_out_key_base s + of_nat k) = (unat (sp_out_key_base s) + k) mod 2 ^ 64"
    by (simp add: unat_word_ariths(1) unat_of_nat mod_add_right_eq)
  thus ?thesis by (simp add: key_seq_def unat_ucast32 mod_mod_cancel)
qed

lemma key_seq_inj:
  assumes "i < 2 ^ 32" "j < 2 ^ 32" "key_seq s i = key_seq s j"
  shows "i = j"
proof -
  have "(unat (sp_out_key_base s) + i) mod 2 ^ 32 = (unat (sp_out_key_base s) + j) mod 2 ^ 32"
    using assms(3) by (metis unat_key_seq)
  from mod_window_inj [OF this] assms(1,2) show ?thesis by simp
qed

text \<open>A reservation at offset \<open>k\<close> hands out \<open>k, k + 1, ...\<close> and is refused from the limit on.\<close>

lemma alloc_seqnos_offset:
  assumes "unat (sealed_count s) + unat n < 2 ^ 64"
  defines "k \<equiv> unat (sealed_count s)"
  shows "alloc_seqnos s n = (if k < 2 ^ 32 - 2 ^ 16 then Some (key_seq s k) else None,
      s\<lparr>sp_outseqno := sp_outseqno s + ucast n\<rparr>)"
    "unat (sealed_count (s\<lparr>sp_outseqno := sp_outseqno s + ucast n\<rparr>)) = k + unat n"
proof -
  have un: "unat (ucast n :: u64) = unat n"
    using unsigned_less [of n, where 'a = nat] by (simp add: unsigned_ucast_eq take_bit_eq_mod)
  have "SEAL_KEY_LIMIT \<le> sealed_count s \<longleftrightarrow> 2 ^ 32 - 2 ^ 16 \<le> k"
    by (simp add: SEAL_KEY_LIMIT_def word_le_nat_alt k_def)
  moreover have "ucast (sp_outseqno s) = key_seq s k"
    by (simp add: key_seq_def k_def sealed_count_def)
  ultimately show "alloc_seqnos s n = (if k < 2 ^ 32 - 2 ^ 16 then Some (key_seq s k) else None,
      s\<lparr>sp_outseqno := sp_outseqno s + ucast n\<rparr>)"
    by (auto simp: alloc_seqnos_def Let_def sealed_count_def)
  have "sealed_count (s\<lparr>sp_outseqno := sp_outseqno s + ucast n\<rparr>) = sealed_count s + ucast n"
    by (simp add: sealed_count_def)
  thus "unat (sealed_count (s\<lparr>sp_outseqno := sp_outseqno s + ucast n\<rparr>)) = k + unat n"
    using assms(1) by (simp add: unat_add_small un k_def)
qed

lemma key_seq_step: "key_seq s k + of_nat i = key_seq s (k + i)"
proof (rule unsigned_word_eqI)
  show "unat (key_seq s k + of_nat i) = unat (key_seq s (k + i))"
    by (simp add: unat_word_ariths(1) unat_key_seq unat_of_nat mod_simps add.assoc)
qed

lemma key_seq_cong [simp]: "key_seq (s\<lparr>sp_outseqno := n\<rparr>) = key_seq s"
  by (simp add: key_seq_def fun_eq_iff)

lemma alloc_run_offsets:
  assumes "\<forall>n \<in> set ns. unat n \<le> 2 ^ 16" "unat (sealed_count s) + (\<Sum>n \<leftarrow> ns. unat n) < 2 ^ 64"
  shows "\<exists>ks. alloc_run s ns = map (key_seq s) ks \<and> sorted_wrt (<) ks \<and>
    (\<forall>k \<in> set ks. unat (sealed_count s) \<le> k \<and> k < 2 ^ 32)"
  using assms
proof (induction ns arbitrary: s)
  case (Cons n ns)
  define k where "k = unat (sealed_count s)"
  define s' where "s' = s\<lparr>sp_outseqno := sp_outseqno s + ucast n\<rparr>"
  have small: "unat (sealed_count s) + unat n < 2 ^ 64" using Cons.prems(2) by simp
  note A = alloc_seqnos_offset [OF small, folded k_def s'_def]
  obtain ks where ks: "alloc_run s' ns = map (key_seq s) ks" "sorted_wrt (<) ks"
      "\<forall>j \<in> set ks. k + unat n \<le> j \<and> j < 2 ^ 32"
    using Cons.IH [of s'] Cons.prems A(2) by (auto simp: s'_def k_def)
  show ?case
  proof (cases "k < 2 ^ 32 - 2 ^ 16")
    case True
    define js where "js = [k ..< k + unat n]"
    have "map (\<lambda>i. key_seq s k + of_nat i) [0 ..< unat n] = map (key_seq s) js"
      unfolding js_def key_seq_step by (rule nth_equalityI) auto
    hence "alloc_run s (n # ns) = map (key_seq s) (js @ ks)" using A(1) ks True by simp
    moreover have "sorted_wrt (<) (js @ ks)"
      using ks by (auto simp: js_def sorted_wrt_append)
    moreover have "unat n \<le> 2 ^ 16" using Cons.prems(1) by simp
    hence "\<forall>j \<in> set (js @ ks). k \<le> j \<and> j < 2 ^ 32" using ks(3) True by (auto simp: js_def)
    ultimately show ?thesis unfolding k_def by blast
  next
    case False
    hence "alloc_run s (n # ns) = map (key_seq s) ks" using A(1) ks by simp
    thus ?thesis using ks unfolding k_def by (metis add_leD1)
  qed
qed simp

text \<open>
  C16. No sequence number is handed out twice under one key: for batches of at most \<open>2 ^ 16\<close> numbers
  and fewer than \<open>2 ^ 64\<close> in all, everything the reservations ever return is pairwise distinct, also
  as the 32-bit number that forms the nonce, because the limit stops them before the wrap.
\<close>

theorem nonces_distinct:
  assumes "\<forall>n \<in> set ns. unat n \<le> 2 ^ 16" "unat (sealed_count s) + (\<Sum>n \<leftarrow> ns. unat n) < 2 ^ 64"
  shows "distinct (alloc_run s ns)"
proof -
  obtain ks where ks: "alloc_run s ns = map (key_seq s) ks" "sorted_wrt (<) ks" "\<forall>k \<in> set ks. k < 2 ^ 32"
    using alloc_run_offsets [OF assms] by blast
  have "inj_on (key_seq s) (set ks)" using ks(3) by (auto intro!: inj_onI key_seq_inj [of _ _ s])
  thus ?thesis using ks by (simp add: distinct_map strict_sorted_iff)
qed

theorem nonces_distinct_witness:
  "distinct (alloc_run ((demo_session Datagram)\<lparr>sp_outseqno := 2 ^ 32 - 2 ^ 16 - 1\<rparr>) [1, 64, 65536, 3])"
proof (rule nonces_distinct)
  show "\<forall>n \<in> set [1, 64, 65536, 3 :: u32]. unat n \<le> 2 ^ 16" by simp
  show "unat (sealed_count ((demo_session Datagram)\<lparr>sp_outseqno := 2 ^ 32 - 2 ^ 16 - 1\<rparr>)) +
      (\<Sum>n \<leftarrow> [1, 64, 65536, 3 :: u32]. unat n) < 2 ^ 64"
    by (simp add: sealed_count_def demo_session_ready)
qed

section \<open>A malformed hybrid key\<close>

text \<open>\<open>stuck s\<close>: an exchange is stored on both sides although no SIG is awaited.\<close>

definition stuck :: "sptps \<Rightarrow> bool" where
  "stuck s \<longleftrightarrow> sp_mykex s \<noteq> None \<and> sp_hiskex s \<noteq> None \<and> (sp_state s = SecondaryKex \<or> sp_state s = Kex)"

lemma stuck_handshake: "stuck s \<Longrightarrow> receive_handshake P body (s, g, out) = (Err BadKex, s, g, out)"
  by (auto simp: stuck_def receive_handshake_def receive_kex_def kex_body_ok_def run_simps)

lemma stuck_force_kex:
  "stuck s \<Longrightarrow> fst (force_kex P (s, g, out)) = Err InvalidState \<and> stuck (fst (snd (force_kex P (s, g, out))))"
  by (auto simp: stuck_def force_kex_def send_kex_def run_simps)

text \<open>
  C19. Rekeying does not survive a malformed ML-KEM key: in an established hybrid session, one KEX
  message of the right length and version whose encapsulation key fails the modulus check is answered
  with \<open>BadKex\<close> but leaves both halves of the exchange stored; from then on every further KEX is
  refused and every attempt to start a rekey fails with \<open>InvalidState\<close>.
\<close>

theorem hybrid_bad_ek_wedges:
  assumes P: "prims_lengths P"
    and s: "sp_kex s = X25519MlKem768" "sp_state s = SecondaryKex" "sp_mykex s = None"
    and body: "kex_body_ok s body" "\<not> p_mlkem_ek_ok P (drop KEX_LEN body)"
  shows "\<exists>s' g' out'. receive_handshake P body (s, g, out) = (Err BadKex, s', g', out') \<and> stuck s' \<and>
    (\<forall>b h o'. receive_handshake P b (s', h, o') = (Err BadKex, s', h, o')) \<and>
    (\<forall>h o'. fst (force_kex P (s', h, o')) = Err InvalidState \<and> stuck (fst (snd (force_kex P (s', h, o')))))"
proof -
  obtain s' g' out' where r: "receive_handshake P body (s, g, out) = (Err BadKex, s', g', out')" and st: "stuck s'"
    using s body
    by (simp add: receive_handshake_def run_simps andThen_Ok [of "send_kex P", OF send_kex_eq [OF P s(3)]]
        receive_kex_def kex_body_ok_def mlkem_encapsulate_def ok_or_def stuck_def)
  show ?thesis using r st stuck_handshake [OF st, of P] stuck_force_kex [OF st, of P] by (intro exI conjI) auto
qed

theorem hybrid_bad_ek_wedges_witness:
  "\<exists>s' g' out'. receive_handshake demo_prims (replicate 1249 0)
      ((demo_session Datagram)\<lparr>sp_kex := X25519MlKem768\<rparr>, 0, []) = (Err BadKex, s', g', out') \<and> stuck s'"
proof -
  have "kex_body_ok ((demo_session Datagram)\<lparr>sp_kex := X25519MlKem768\<rparr>) (replicate 1249 0)"
    by (simp add: kex_body_ok_def demo_session_def sptps_init_def Let_def VERSION_def len_defs)
  moreover have "\<not> p_mlkem_ek_ok demo_prims (drop KEX_LEN (replicate 1249 0))"
    by (simp add: demo_prims_def len_defs)
  ultimately show ?thesis
    using hybrid_bad_ek_wedges [OF demo_prims_ok(1), of "(demo_session Datagram)\<lparr>sp_kex := X25519MlKem768\<rparr>"
        "replicate 1249 0" 0 "[]"]
    by (auto simp: demo_session_def sptps_init_def Let_def)
qed

end
