(* ===== verification/Rust_Text.thy ===== *)
theory Rust_Text
  imports Ordered_Map
begin

text \<open>
  The string and number routines of the standard library the protocol code calls, on strings as lists
  of bytes: splitting at whitespace, \<open>from_str_radix\<close> and \<open>parse\<close> for machine integers with their
  ranges, and the decimal and hexadecimal formats. The laws the parsers rely on, that a printed number
  is a word without blanks which reads back, are here too.
\<close>

section \<open>Splitting\<close>

definition is_ascii_whitespace :: "char \<Rightarrow> bool" where
  "is_ascii_whitespace c \<longleftrightarrow> c \<in> {CHR '' '', CHR 0x09, CHR 0x0A, CHR 0x0C, CHR 0x0D}"

definition is_ascii_digit :: "char \<Rightarrow> bool" where
  "is_ascii_digit c \<longleftrightarrow> CHR ''0'' \<le> c \<and> c \<le> CHR ''9''"

definition is_ascii_alphanumeric :: "char \<Rightarrow> bool" where
  "is_ascii_alphanumeric c \<longleftrightarrow> is_ascii_digit c \<or> (CHR ''A'' \<le> c \<and> c \<le> CHR ''Z'') \<or> (CHR ''a'' \<le> c \<and> c \<le> CHR ''z'')"

text \<open>\<open>str::split\<close> by a predicate: always at least one part, empty parts included.\<close>

fun split_on :: "(char \<Rightarrow> bool) \<Rightarrow> string \<Rightarrow> string list" where
  "split_on P [] = [[]]"
| "split_on P (c # s) =
     (if P c then [] # split_on P s
      else case split_on P s of [] \<Rightarrow> [[c]] | w # ws \<Rightarrow> (c # w) # ws)"

definition split_ascii_whitespace :: "string \<Rightarrow> string list" where
  "split_ascii_whitespace s = filter (\<lambda>w. w \<noteq> []) (split_on is_ascii_whitespace s)"

definition split_char :: "char \<Rightarrow> string \<Rightarrow> string list" where
  "split_char c s = split_on (\<lambda>d. d = c) s"

text \<open>\<open>split_once\<close>: the parts before and after the first separator.\<close>

fun split_once :: "char \<Rightarrow> string \<Rightarrow> (string \<times> string) option" where
  "split_once c [] = None"
| "split_once c (d # s) =
     (if d = c then Some ([], s) else map_option (\<lambda>(a, b). (d # a, b)) (split_once c s))"

definition word :: "string \<Rightarrow> bool" where
  "word s \<longleftrightarrow> s \<noteq> [] \<and> list_all (\<lambda>c. \<not> is_ascii_whitespace c) s"

lemma split_on_nonempty [simp]: "split_on P s \<noteq> []"
  by (induction s) (auto split: list.splits)

lemma split_on_free: "list_all (\<lambda>c. \<not> P c) s \<Longrightarrow> split_on P s = [s]"
  by (induction s) auto

lemma split_on_sep:
  assumes "list_all (\<lambda>c. \<not> P c) w" "P c"
  shows "split_on P (w @ c # s) = w # split_on P s"
  using assms by (induction w) auto

lemma split_on_parts: "w \<in> set (split_on P s) \<Longrightarrow> list_all (\<lambda>c. \<not> P c) w"
  by (induction s arbitrary: w) (auto split: list.splits if_splits)

lemma split_once_free: "c \<notin> set s \<Longrightarrow> split_once c s = None"
  by (induction s) auto

lemma split_once_sep: "c \<notin> set a \<Longrightarrow> split_once c (a @ c # b) = Some (a, b)"
  by (induction a) auto

lemma split_once_some: "split_once c s = Some (a, b) \<Longrightarrow> s = a @ c # b \<and> c \<notin> set a"
  by (induction s arbitrary: a) (auto split: if_splits)

text \<open>Words joined by single blanks are the tokens of the line.\<close>

fun unwords :: "string list \<Rightarrow> string" where
  "unwords [] = []"
| "unwords [w] = w"
| "unwords (w # ws) = w @ '' '' @ unwords ws"

lemma unwords_Cons: "ws \<noteq> [] \<Longrightarrow> unwords (w # ws) = w @ '' '' @ unwords ws"
  by (cases ws) auto

lemma blank_whitespace [simp]: "is_ascii_whitespace CHR '' ''"
  by (simp add: is_ascii_whitespace_def)

lemma split_unwords:
  assumes "ws \<noteq> []" "\<And>w. w \<in> set ws \<Longrightarrow> list_all (\<lambda>c. \<not> P c) w" "P CHR '' ''"
  shows "split_on P (unwords ws) = ws"
  using assms
proof (induction ws rule: unwords.induct)
  case (3 w v ws)
  have "split_on P (unwords (v # ws)) = v # ws" using 3 by simp
  thus ?case using split_on_sep [of P w "CHR '' ''" "unwords (v # ws)"] 3(3,4) by simp
qed (auto simp: split_on_free)

lemma split_ascii_whitespace_unwords:
  assumes "list_all word ws"
  shows "split_ascii_whitespace (unwords ws) = ws"
proof (cases "ws = []")
  case True
  thus ?thesis by (simp add: split_ascii_whitespace_def)
next
  case False
  have "split_on is_ascii_whitespace (unwords ws) = ws"
    using assms False by (intro split_unwords) (auto simp: list_all_iff word_def)
  moreover have "filter (\<lambda>w. w \<noteq> []) ws = ws"
    using assms by (auto simp: filter_id_conv list_all_iff word_def)
  ultimately show ?thesis by (simp add: split_ascii_whitespace_def)
qed

lemma split_ascii_whitespace_words: "list_all word (split_ascii_whitespace s)"
  using split_on_parts by (auto simp: split_ascii_whitespace_def word_def list_all_iff)

section \<open>Numbers\<close>

text \<open>\<open>char::to_digit\<close>, and the digits \<open>format!\<close> writes.\<close>

definition digit_value :: "char \<Rightarrow> nat option" where
  "digit_value c =
     (if CHR ''0'' \<le> c \<and> c \<le> CHR ''9'' then Some (of_char c - 48)
      else if CHR ''a'' \<le> c \<and> c \<le> CHR ''z'' then Some (of_char c - 97 + 10)
      else if CHR ''A'' \<le> c \<and> c \<le> CHR ''Z'' then Some (of_char c - 65 + 10)
      else None)"

definition to_digit :: "nat \<Rightarrow> char \<Rightarrow> nat option" where
  "to_digit radix c = (case digit_value c of None \<Rightarrow> None | Some d \<Rightarrow> if d < radix then Some d else None)"

fun parse_digits :: "nat \<Rightarrow> nat \<Rightarrow> string \<Rightarrow> nat option" where
  "parse_digits radix acc [] = Some acc"
| "parse_digits radix acc (c # s) =
     (case to_digit radix c of None \<Rightarrow> None | Some d \<Rightarrow> parse_digits radix (acc * radix + d) s)"

text \<open>
  \<open>from_str_radix\<close> of the integer type with the values \<open>lo..=hi\<close>: one optional sign, a minus only for a
  signed type, at least one digit, and the value in range.
\<close>

definition from_str_radix :: "int \<Rightarrow> int \<Rightarrow> nat \<Rightarrow> string \<Rightarrow> int option" where
  "from_str_radix lo hi radix s =
     (case s of
        [] \<Rightarrow> None
      | c # t \<Rightarrow>
          let (neg, ds) = (if c = CHR ''+'' then (False, t)
                           else if c = CHR ''-'' \<and> lo < 0 then (True, t) else (False, s))
          in if ds = [] then None
             else case parse_digits radix 0 ds of
                    None \<Rightarrow> None
                  | Some n \<Rightarrow>
                      let v = (if neg then - int n else int n)
                      in if lo \<le> v \<and> v \<le> hi then Some v else None)"

definition parse_i16 :: "string \<Rightarrow> int option" where
  "parse_i16 = from_str_radix (- 32768) 32767 10"
definition parse_i32 :: "string \<Rightarrow> int option" where
  "parse_i32 = from_str_radix (- 2147483648) 2147483647 10"
definition parse_i64 :: "string \<Rightarrow> int option" where
  "parse_i64 = from_str_radix (- 9223372036854775808) 9223372036854775807 10"
definition parse_u64 :: "string \<Rightarrow> int option" where
  "parse_u64 = from_str_radix 0 18446744073709551615 10"
definition parse_hex_u32 :: "string \<Rightarrow> int option" where
  "parse_hex_u32 = from_str_radix 0 4294967295 16"
definition parse_hex_u8 :: "string \<Rightarrow> int option" where
  "parse_hex_u8 = from_str_radix 0 255 16"

definition digit_char :: "nat \<Rightarrow> char" where
  "digit_char d = ''0123456789abcdef'' ! d"

fun show_radix :: "nat \<Rightarrow> nat \<Rightarrow> string" where
  "show_radix radix n =
     (if radix < 2 \<or> n < radix then [digit_char n]
      else show_radix radix (n div radix) @ [digit_char (n mod radix)])"

declare show_radix.simps [simp del]

definition show_int :: "int \<Rightarrow> string" where
  "show_int i = (if i < 0 then ''-'' @ show_radix 10 (nat (- i)) else show_radix 10 (nat i))"

definition show_hex :: "nat \<Rightarrow> string" where
  "show_hex n = show_radix 16 n"

lemma digit_char_props:
  assumes "d < 16"
  shows "digit_value (digit_char d) = Some d \<and> \<not> is_ascii_whitespace (digit_char d) \<and>
    digit_char d \<notin> {CHR ''+'', CHR ''-'', CHR ''.'', CHR '':'', CHR ''/'', CHR ''#''} \<and> is_ascii_alphanumeric (digit_char d)"
    (is "?Q d")
proof -
  have "list_all ?Q [0..<16]" by code_simp
  thus ?thesis using assms by (simp add: list_all_iff)
qed

lemma parse_digits_append:
  "parse_digits radix acc (s @ t) = (case parse_digits radix acc s of None \<Rightarrow> None | Some a \<Rightarrow> parse_digits radix a t)"
  by (induction radix acc s rule: parse_digits.induct) (auto split: option.splits)

lemma show_radix_nonempty [simp]: "show_radix radix n \<noteq> []"
  by (subst show_radix.simps) simp

lemma show_radix_chars:
  assumes "2 \<le> radix" "radix \<le> 16" "c \<in> set (show_radix radix n)"
  shows "\<exists>d < radix. c = digit_char d"
  using assms
proof (induction radix n rule: show_radix.induct)
  case (1 radix n)
  show ?case
  proof (cases "n < radix")
    case True
    thus ?thesis using 1(4) by (auto simp: show_radix.simps [of radix n])
  next
    case False
    have "c = digit_char (n mod radix) \<or> c \<in> set (show_radix radix (n div radix))"
      using 1(2,4) False by (simp add: show_radix.simps [of radix n])
    thus ?thesis
    proof
      assume "c = digit_char (n mod radix)"
      thus ?thesis using 1(2) by (intro exI [of _ "n mod radix"]) simp
    next
      assume "c \<in> set (show_radix radix (n div radix))"
      thus ?thesis using 1 False by simp
    qed
  qed
qed

lemma parse_show_radix:
  assumes "2 \<le> radix" "radix \<le> 16"
  shows "parse_digits radix 0 (show_radix radix n) = Some n"
  using assms
proof (induction radix n rule: show_radix.induct)
  case (1 radix n)
  have d: "to_digit radix (digit_char d) = Some d" if "d < radix" for d
    using digit_char_props [of d] that 1(3) by (simp add: to_digit_def)
  show ?case
  proof (cases "n < radix")
    case True
    thus ?thesis using d by (simp add: show_radix.simps [of radix n])
  next
    case False
    have "parse_digits radix 0 (show_radix radix (n div radix)) = Some (n div radix)" using 1 False by simp
    moreover have "n mod radix < radix" using 1(2) by simp
    ultimately show ?thesis using False 1(2) d
      by (simp add: show_radix.simps [of radix n] parse_digits_append)
  qed
qed

text \<open>What the printed numbers are made of, and that they read back.\<close>

lemma show_radix_props:
  assumes "2 \<le> radix" "radix \<le> 16" "c \<in> set (show_radix radix n)"
  shows "\<not> is_ascii_whitespace c \<and> c \<notin> {CHR ''+'', CHR ''-'', CHR ''.'', CHR '':'', CHR ''/'', CHR ''#''} \<and> is_ascii_alphanumeric c"
proof -
  obtain d where d: "d < radix" "c = digit_char d" using show_radix_chars [OF assms] by blast
  hence "d < 16" using assms(2) by simp
  thus ?thesis using digit_char_props [of d] d(2) by simp
qed

lemma word_show_radix: "2 \<le> radix \<Longrightarrow> radix \<le> 16 \<Longrightarrow> word (show_radix radix n)"
  using show_radix_props by (auto simp: word_def list_all_iff)

lemma word_show_hex [simp]: "word (show_hex n)"
  by (simp add: show_hex_def word_show_radix)

lemma word_show_int [simp]: "word (show_int i)"
  using word_show_radix [of 10] by (auto simp: show_int_def word_def is_ascii_whitespace_def)

lemma from_str_radix_show:
  assumes "2 \<le> radix" "radix \<le> 16" "lo \<le> int n" "int n \<le> hi"
  shows "from_str_radix lo hi radix (show_radix radix n) = Some (int n)"
proof -
  obtain c t where s: "show_radix radix n = c # t" using show_radix_nonempty by (cases "show_radix radix n") auto
  hence "c \<noteq> CHR ''+''" "c \<noteq> CHR ''-''" using show_radix_props [OF assms(1,2), of c n] by simp_all
  thus ?thesis using parse_show_radix [OF assms(1,2), of n] assms(3,4) s
    by (simp add: from_str_radix_def Let_def)
qed

lemma from_str_radix_show_int:
  assumes "lo \<le> i" "i \<le> hi" "i < 0 \<longrightarrow> lo < 0"
  shows "from_str_radix lo hi 10 (show_int i) = Some i"
proof (cases "i < 0")
  case True
  have "parse_digits 10 0 (show_radix 10 (nat (- i))) = Some (nat (- i))" by (rule parse_show_radix) simp_all
  thus ?thesis using True assms by (simp add: from_str_radix_def show_int_def Let_def)
next
  case False
  thus ?thesis using from_str_radix_show [of 10 lo "nat i" hi] assms by (simp add: show_int_def)
qed

lemma parse_show [simp]:
  "- 32768 \<le> i \<Longrightarrow> i \<le> 32767 \<Longrightarrow> parse_i16 (show_int i) = Some i"
  "- 2147483648 \<le> i \<Longrightarrow> i \<le> 2147483647 \<Longrightarrow> parse_i32 (show_int i) = Some i"
  "0 \<le> i \<Longrightarrow> i \<le> 18446744073709551615 \<Longrightarrow> parse_u64 (show_int i) = Some i"
  "int n \<le> 4294967295 \<Longrightarrow> parse_hex_u32 (show_hex n) = Some (int n)"
  by (simp_all add: parse_i16_def parse_i32_def parse_u64_def parse_hex_u32_def show_hex_def
      from_str_radix_show_int from_str_radix_show)

lemma from_str_radix_range: "from_str_radix lo hi radix s = Some i \<Longrightarrow> lo \<le> i \<and> i \<le> hi"
  by (auto simp: from_str_radix_def Let_def split: list.splits option.splits if_splits)

end
