(* ===== verification/Ip_Text.thy ===== *)
theory Ip_Text
  imports Rust_Text
begin

text \<open>
  The text form of IP addresses in the standard library: \<open>Ipv4Addr\<close> and \<open>Ipv6Addr\<close> as the protocol
  prints them (\<open>Display\<close>) and reads them (\<open>FromStr\<close>), on octets in network order. A parser takes the
  rest of the input and returns what it read and what is left; \<open>None\<close> leaves the input where it was.
\<close>

section \<open>Reading\<close>

fun read_given_char :: "char \<Rightarrow> string \<Rightarrow> string option" where
  "read_given_char c [] = None"
| "read_given_char c (d # s) = (if c = d then Some s else None)"

definition read_separator :: "char \<Rightarrow> nat \<Rightarrow> (string \<Rightarrow> ('a \<times> string) option) \<Rightarrow> string \<Rightarrow> ('a \<times> string) option" where
  "read_separator sep index inner s =
     (if 0 < index then (case read_given_char sep s of None \<Rightarrow> None | Some s \<Rightarrow> inner s) else inner s)"

definition read_number :: "nat \<Rightarrow> nat \<Rightarrow> bool \<Rightarrow> nat \<Rightarrow> string \<Rightarrow> (nat \<times> string) option" where
  "read_number radix max_digits allow_zero_prefix hi s =
     (let ds = takeWhile (\<lambda>c. to_digit radix c \<noteq> None) s
      in if ds = [] \<or> max_digits < length ds then None
         else if \<not> allow_zero_prefix \<and> hd ds = CHR ''0'' \<and> 1 < length ds then None
         else case parse_digits radix 0 ds of
                None \<Rightarrow> None
              | Some v \<Rightarrow> if v \<le> hi then Some (v, drop (length ds) s) else None)"

definition read_octet :: "string \<Rightarrow> (nat \<times> string) option" where
  "read_octet = read_number 10 3 False 255"

definition read_group :: "string \<Rightarrow> (nat \<times> string) option" where
  "read_group = read_number 16 4 True 65535"

definition read_ipv4_addr :: "string \<Rightarrow> (nat list \<times> string) option" where
  "read_ipv4_addr s = do {
     (a, s) \<leftarrow> read_separator CHR ''.'' 0 read_octet s;
     (b, s) \<leftarrow> read_separator CHR ''.'' 1 read_octet s;
     (c, s) \<leftarrow> read_separator CHR ''.'' 2 read_octet s;
     (d, s) \<leftarrow> read_separator CHR ''.'' 3 read_octet s;
     Some ([a, b, c, d], s) }"

text \<open>
  \<open>read_groups n i\<close>: \<open>n\<close> slots are left, the next one has index \<open>i\<close>. An embedded IPv4 address needs two
  slots and ends the groups.
\<close>

fun read_groups :: "nat \<Rightarrow> nat \<Rightarrow> string \<Rightarrow> nat list \<times> bool \<times> string" where
  "read_groups 0 i s = ([], False, s)"
| "read_groups (Suc n) i s =
     (case (if 0 < n then read_separator CHR '':'' i read_ipv4_addr s else None) of
        Some (v4, s') \<Rightarrow> ([256 * v4 ! 0 + v4 ! 1, 256 * v4 ! 2 + v4 ! 3], True, s')
      | None \<Rightarrow>
          (case read_separator CHR '':'' i read_group s of
             None \<Rightarrow> ([], False, s)
           | Some (g, s') \<Rightarrow> (let (gs, v4, s'') = read_groups n (i + 1) s' in (g # gs, v4, s''))))"

definition read_ipv6_addr :: "string \<Rightarrow> (nat list \<times> string) option" where
  "read_ipv6_addr s =
     (let (head, head_ipv4, s) = read_groups 8 0 s
      in if length head = 8 then Some (head, s)
         else if head_ipv4 then None
         else do {
           s \<leftarrow> read_given_char CHR '':'' s;
           s \<leftarrow> read_given_char CHR '':'' s;
           let (tail, _, s) = read_groups (8 - (length head + 1)) 0 s;
           Some (head @ replicate (8 - length head - length tail) 0 @ tail, s) })"

definition parse_with :: "(string \<Rightarrow> ('a \<times> string) option) \<Rightarrow> string \<Rightarrow> 'a option" where
  "parse_with inner s = (case inner s of Some (x, []) \<Rightarrow> Some x | _ \<Rightarrow> None)"

definition segment_bytes :: "nat list \<Rightarrow> bytes" where
  "segment_bytes gs = concat (map (\<lambda>g. [of_nat (g div 256), of_nat (g mod 256)]) gs)"

definition parse_ipv4 :: "string \<Rightarrow> bytes option" where
  "parse_ipv4 s = (if 15 < length s then None else map_option (map of_nat) (parse_with read_ipv4_addr s))"

definition parse_ipv6 :: "string \<Rightarrow> bytes option" where
  "parse_ipv6 s = map_option segment_bytes (parse_with read_ipv6_addr s)"

section \<open>Printing\<close>

definition show_ipv4 :: "bytes \<Rightarrow> string" where
  "show_ipv4 a = show_int (uint (a ! 0)) @ ''.'' @ show_int (uint (a ! 1)) @ ''.'' @ show_int (uint (a ! 2)) @ ''.'' @ show_int (uint (a ! 3))"

fun segments :: "bytes \<Rightarrow> nat list" where
  "segments (a # b # bs) = (256 * unat a + unat b) # segments bs"
| "segments _ = []"

text \<open>The longest run of zero segments, the first one of that length: start and length.\<close>

fun zero_span :: "nat list \<Rightarrow> nat \<Rightarrow> nat \<times> nat \<Rightarrow> nat \<times> nat \<Rightarrow> nat \<times> nat" where
  "zero_span [] i longest current = longest"
| "zero_span (g # gs) i longest current =
     (if g = 0 then
        let current = (if snd current = 0 then i else fst current, snd current + 1)
        in zero_span gs (i + 1) (if snd longest < snd current then current else longest) current
      else zero_span gs (i + 1) longest (0, 0))"

fun fmt_groups :: "bool \<Rightarrow> nat list \<Rightarrow> string" where
  "fmt_groups sep [] = []"
| "fmt_groups sep (g # gs) = (if sep then '':'' else []) @ show_hex g @ fmt_groups True gs"

definition fmt_subslice :: "nat list \<Rightarrow> string" where
  "fmt_subslice = fmt_groups False"

definition show_ipv6 :: "bytes \<Rightarrow> string" where
  "show_ipv6 a =
     (let segs = segments a
      in if take 6 segs = [0, 0, 0, 0, 0, 0xffff] then ''::ffff:'' @ show_ipv4 (drop 12 a)
         else
           let (start, len) = zero_span segs 0 (0, 0) (0, 0)
           in if 1 < len then fmt_subslice (take start segs) @ ''::'' @ fmt_subslice (drop (start + len) segs)
              else fmt_subslice segs)"

section \<open>Round trips\<close>

lemma to_digit_dec: "d < 10 \<Longrightarrow> to_digit 10 (digit_char d) = Some d"
  using digit_char_props [of d] by (simp add: to_digit_def)

lemma to_digit_hex: "d < 16 \<Longrightarrow> to_digit 16 (digit_char d) = Some d"
  using digit_char_props [of d] by (simp add: to_digit_def)

text \<open>A printed number is read up to the first character that is no digit.\<close>

lemma takeWhile_show:
  assumes "2 \<le> radix" "radix \<le> 16" "rest = [] \<or> to_digit radix (hd rest) = None"
  shows "takeWhile (\<lambda>c. to_digit radix c \<noteq> None) (show_radix radix n @ rest) = show_radix radix n"
proof -
  have "to_digit radix c \<noteq> None" if c: "c \<in> set (show_radix radix n)" for c
  proof -
    obtain d where d: "d < radix" "c = digit_char d" using show_radix_chars [OF assms(1,2) c] by blast
    thus ?thesis using digit_char_props [of d] assms(2) by (simp add: to_digit_def)
  qed
  thus ?thesis using assms(3) by (cases rest) (auto simp: takeWhile_append)
qed

lemma length_show_radix:
  assumes "2 \<le> radix" "n < radix ^ Suc k"
  shows "length (show_radix radix n) \<le> Suc k"
  using assms
proof (induction k arbitrary: n)
  case 0
  thus ?case by (simp add: show_radix.simps [of radix n])
next
  case (Suc k)
  show ?case
  proof (cases "n < radix")
    case True
    thus ?thesis by (simp add: show_radix.simps [of radix n])
  next
    case False
    have "n div radix < radix ^ Suc k" using Suc.prems by (simp add: less_mult_imp_div_less mult.commute)
    hence "length (show_radix radix (n div radix)) \<le> Suc k" by (rule Suc.IH [OF Suc.prems(1)])
    thus ?thesis using False Suc.prems(1) by (simp add: show_radix.simps [of radix n])
  qed
qed

lemma digit_char_zero: "d < 16 \<Longrightarrow> digit_char d = CHR ''0'' \<longleftrightarrow> d = 0"
  using digit_char_props [of d] digit_char_props [of 0] by (auto simp: digit_char_def)

text \<open>No printed number but zero starts with the digit zero.\<close>

lemma hd_show_radix:
  assumes "2 \<le> radix" "radix \<le> 16" "0 < n"
  shows "hd (show_radix radix n) \<noteq> CHR ''0''"
  using assms
proof (induction radix n rule: show_radix.induct)
  case (1 radix n)
  show ?case
  proof (cases "n < radix")
    case True
    thus ?thesis using 1(3,4) digit_char_zero [of n] by (simp add: show_radix.simps [of radix n])
  next
    case False
    hence "0 < n div radix" using 1(2) by (simp add: div_greater_zero_iff)
    thus ?thesis using 1 False by (simp add: show_radix.simps [of radix n])
  qed
qed

lemma read_number_show:
  assumes "2 \<le> radix" "radix \<le> 16" "rest = [] \<or> to_digit radix (hd rest) = None" "n \<le> hi" "n < radix ^ Suc k"
  shows "read_number radix (Suc k) allow hi (show_radix radix n @ rest) = Some (n, rest)"
proof -
  have tw: "takeWhile (\<lambda>c. to_digit radix c \<noteq> None) (show_radix radix n @ rest) = show_radix radix n"
    by (rule takeWhile_show [OF assms(1-3)])
  have len: "length (show_radix radix n) \<le> Suc k" by (rule length_show_radix [OF assms(1,5)])
  have "\<not> (hd (show_radix radix n) = CHR ''0'' \<and> 1 < length (show_radix radix n))"
  proof (cases "n = 0")
    case True
    thus ?thesis using assms(1) by (simp add: show_radix.simps)
  qed (use hd_show_radix [OF assms(1,2)] in simp)
  thus ?thesis using tw len parse_show_radix [OF assms(1,2)] assms(4)
    by (simp add: read_number_def Let_def)
qed

lemma show_octet: "show_int (uint b) = show_radix 10 (unat (b :: u8))"
  by (simp add: show_int_def)

lemma read_octet_show: "rest = [] \<or> to_digit 10 (hd rest) = None \<Longrightarrow> read_octet (show_radix 10 (unat (b :: u8)) @ rest) = Some (unat b, rest)"
  using read_number_show [of 10 rest "unat b" 255 2 False] unsigned_less [of b, where 'a = nat]
  by (simp add: read_octet_def)

lemma to_digit_punct [simp]: "to_digit r CHR ''.'' = None" "to_digit r CHR '':'' = None" "to_digit r CHR ''/'' = None" "to_digit r CHR ''#'' = None"
  by (simp_all add: to_digit_def digit_value_def less_eq_char_def)

lemma read_show_ipv4:
  assumes "length a = 4" "rest = [] \<or> to_digit 10 (hd rest) = None"
  shows "read_ipv4_addr (show_ipv4 a @ rest) = Some (map unat a, rest)"
proof -
  obtain p q r s where a: "a = [p, q, r, s]" using assms(1) by (auto simp: numeral_eq_Suc length_Suc_conv)
  show ?thesis using assms(2)
    by (simp add: a show_ipv4_def show_octet read_ipv4_addr_def read_separator_def read_octet_show)
qed

lemma length_show_octet: "length (show_int (uint (b :: u8))) \<le> 3"
  using length_show_radix [of 10 "unat b" 2] unsigned_less [of b, where 'a = nat] by (simp add: show_octet)

lemma length_show_ipv4: "length (show_ipv4 a) \<le> 15"
  using length_show_octet [of "a ! 0"] length_show_octet [of "a ! 1"] length_show_octet [of "a ! 2"] length_show_octet [of "a ! 3"]
  by (simp add: show_ipv4_def)

lemma parse_show_ipv4:
  assumes "length a = 4"
  shows "parse_ipv4 (show_ipv4 a) = Some a"
proof -
  have "map of_nat (map unat a) = a" by (simp add: map_idI o_def)
  thus ?thesis using read_show_ipv4 [OF assms, of "[]"] length_show_ipv4 [of a]
    by (simp add: parse_ipv4_def parse_with_def o_def not_less)
qed

text \<open>Without a dot there is no IPv4 address to read.\<close>

lemma read_number_set: "read_number r m al hi s = Some (v, t) \<Longrightarrow> set t \<subseteq> set s"
  by (auto simp: read_number_def Let_def split: if_splits option.splits dest: in_set_dropD)

lemma read_ipv4_no_dot:
  assumes "CHR ''.'' \<notin> set s"
  shows "read_ipv4_addr s = None"
proof (cases "read_octet s")
  case (Some x)
  hence "CHR ''.'' \<notin> set (snd x)" using read_number_set [of 10 3 False 255 s "fst x" "snd x"] assms by (auto simp: read_octet_def)
  hence "read_given_char CHR ''.'' (snd x) = None" by (cases "snd x") auto
  thus ?thesis using Some by (cases x) (simp add: read_ipv4_addr_def read_separator_def)
qed (simp add: read_ipv4_addr_def read_separator_def)

lemma read_separator_ipv4_no_dot:
  assumes "CHR ''.'' \<notin> set s"
  shows "read_separator c i read_ipv4_addr s = None"
proof -
  have "read_ipv4_addr t = None" if "read_given_char c s = Some t" for t
    using that assms by (intro read_ipv4_no_dot) (cases s; auto split: if_splits)
  thus ?thesis using read_ipv4_no_dot [OF assms] by (auto simp: read_separator_def split: option.splits)
qed

lemma read_group_show:
  assumes "g < 65536" "rest = [] \<or> to_digit 16 (hd rest) = None"
  shows "read_group (show_hex g @ rest) = Some (g, rest)"
  using read_number_show [of 16 rest g 65535 3 True] assms by (simp add: read_group_def show_hex_def)

lemma read_group_stop: "s = [] \<or> to_digit 16 (hd s) = None \<Longrightarrow> read_group s = None"
  by (cases s) (auto simp: read_group_def read_number_def)

text \<open>The text after the groups: nothing, or the double colon.\<close>

definition group_end :: "string \<Rightarrow> bool" where
  "group_end rest \<longleftrightarrow> rest = [] \<or> (\<exists>t. rest = ''::'' @ t)"

lemma group_end_stop: "group_end rest \<Longrightarrow> read_separator CHR '':'' i read_group rest = None"
  by (auto simp: group_end_def read_separator_def read_group_stop)

lemma fmt_groups_no_dot: "CHR ''.'' \<notin> set (fmt_groups sep gs)"
proof (induction gs arbitrary: sep)
  case (Cons g gs)
  have "CHR ''.'' \<notin> set (show_hex g)" using show_radix_props [of 16 "CHR ''.''" g] by (auto simp: show_hex_def)
  thus ?case using Cons by simp
qed simp

lemma fmt_groups_hd: "group_end rest \<Longrightarrow> fmt_groups True gs @ rest = [] \<or> to_digit 16 (hd (fmt_groups True gs @ rest)) = None"
  by (cases gs) (auto simp: group_end_def)

lemma read_groups_fmt:
  assumes "list_all (\<lambda>g. g < 65536) gs" "length gs \<le> n" "group_end rest" "CHR ''.'' \<notin> set rest"
  shows "read_groups n i (fmt_groups (0 < i) gs @ rest) = (gs, False, rest)"
  using assms
proof (induction gs arbitrary: n i)
  case Nil
  show ?case
    using group_end_stop [OF Nil(3), of i] read_separator_ipv4_no_dot [OF Nil(4)] by (cases n) simp_all
next
  case (Cons g gs)
  then obtain m where n: "n = Suc m" by (cases n) auto
  let ?s = "fmt_groups (0 < i) (g # gs) @ rest"
  have "CHR ''.'' \<notin> set ?s" using fmt_groups_no_dot [of "0 < i" "g # gs"] Cons.prems(4) by (simp del: fmt_groups.simps)
  hence v4: "(if 0 < m then read_separator CHR '':'' i read_ipv4_addr ?s else None) = None"
    by (simp add: read_separator_ipv4_no_dot del: fmt_groups.simps)
  have "read_group (show_hex g @ (fmt_groups True gs @ rest)) = Some (g, fmt_groups True gs @ rest)"
    using Cons.prems(1) by (intro read_group_show fmt_groups_hd Cons.prems(3)) simp
  hence g: "read_separator CHR '':'' i read_group ?s = Some (g, fmt_groups True gs @ rest)"
    by (simp add: read_separator_def)
  have "read_groups m (i + 1) (fmt_groups (0 < i + 1) gs @ rest) = (gs, False, rest)"
    using Cons.prems by (intro Cons.IH) (simp_all add: n)
  thus ?case unfolding n read_groups.simps v4 g by simp
qed

text \<open>The span found is a run of zeroes within the segments.\<close>

definition zero_run :: "nat list \<Rightarrow> nat \<times> nat \<Rightarrow> bool" where
  "zero_run xs sp \<longleftrightarrow> fst sp + snd sp \<le> length xs \<and> (\<forall>j. fst sp \<le> j \<and> j < fst sp + snd sp \<longrightarrow> xs ! j = 0)"

lemma zero_span_run:
  assumes "zero_run (xs @ gs) longest" "0 < snd current \<Longrightarrow> fst current + snd current = length xs"
    "\<forall>j. fst current \<le> j \<and> j < fst current + snd current \<longrightarrow> j < length xs \<and> xs ! j = 0"
  shows "zero_run (xs @ gs) (zero_span gs (length xs) longest current)"
  using assms
proof (induction gs arbitrary: xs longest current)
  case (Cons g gs)
  show ?case
  proof (cases "g = 0")
    case True
    let ?c = "(if snd current = 0 then length xs else fst current, snd current + 1)"
    have fc: "fst ?c + snd ?c = length (xs @ [g])" using Cons.prems(2) by auto
    have zs: "j < length (xs @ [g]) \<and> (xs @ [g]) ! j = 0" if "fst ?c \<le> j" "j < fst ?c + snd ?c" for j
      using that Cons.prems(2,3) True by (cases "j = length xs"; cases "snd current = 0") (auto simp: nth_append)
    have "zero_run ((xs @ [g]) @ gs) (if snd longest < snd ?c then ?c else longest)"
    proof (cases "snd longest < snd ?c")
      case True
      have "((xs @ [g]) @ gs) ! j = 0" if "fst ?c \<le> j" "j < fst ?c + snd ?c" for j
        using zs [OF that] unfolding nth_append by auto
      thus ?thesis using True fc unfolding zero_run_def by simp
    next
      case False
      thus ?thesis using Cons.prems(1) by simp
    qed
    hence "zero_run ((xs @ [g]) @ gs) (zero_span gs (length (xs @ [g])) (if snd longest < snd ?c then ?c else longest) ?c)"
      by (rule Cons.IH) (use fc zs in blast)+
    moreover have "zero_span (g # gs) (length xs) longest current =
        zero_span gs (length (xs @ [g])) (if snd longest < snd ?c then ?c else longest) ?c"
      by (simp only: zero_span.simps True simp_thms if_True Let_def length_append_singleton Suc_eq_plus1)
    ultimately show ?thesis by simp
  next
    case False
    have "zero_run ((xs @ [g]) @ gs) (zero_span gs (length (xs @ [g])) longest (0, 0))"
      using Cons.prems(1) by (intro Cons.IH) simp_all
    thus ?thesis using False by simp
  qed
qed simp

lemma zero_run_split:
  assumes "zero_run xs (st, n)"
  shows "xs = take st xs @ replicate n 0 @ drop (st + n) xs"
proof -
  have "take n (drop st xs) = replicate n 0"
  proof (rule nth_equalityI)
    have le: "st + n \<le> length xs" using assms by (simp add: zero_run_def)
    thus "length (take n (drop st xs)) = length (replicate n 0)" by simp
    show "take n (drop st xs) ! i = replicate n 0 ! i" if "i < length (take n (drop st xs))" for i
      using that assms le by (simp add: zero_run_def)
  qed
  moreover have "xs = take (st + n) xs @ drop (st + n) xs" by simp
  ultimately show ?thesis unfolding take_add by simp
qed

lemma length_segments: "length (segments a) = length a div 2"
  by (induction a rule: segments.induct) auto

lemma segments_drop: "segments (drop (2 * k) a) = drop k (segments a)"
proof (induction a arbitrary: k rule: segments.induct)
  case (1 a b bs)
  thus ?case by (cases k) simp_all
qed (auto simp: drop_Cons')

lemma segments_less: "list_all (\<lambda>g. g < 65536) (segments a)"
proof (induction a rule: segments.induct)
  case (1 a b bs)
  have "unat a < 256" "unat b < 256" using unsigned_less [of a, where 'a = nat] unsigned_less [of b, where 'a = nat] by simp_all
  thus ?case using 1 by simp
qed simp_all

lemma segment_bytes_segments: "even (length a) \<Longrightarrow> segment_bytes (segments a) = a"
proof (induction a rule: segments.induct)
  case (1 a b bs)
  have "unat b < 256" using unsigned_less [of b, where 'a = nat] by simp
  hence "(256 * unat a + unat b) div 256 = unat a" "(256 * unat a + unat b) mod 256 = unat b" by simp_all
  thus ?case using 1 by (simp add: segment_bytes_def)
qed (simp_all add: segment_bytes_def)

lemma read_show_ipv6_groups:
  assumes "list_all (\<lambda>g. g < 65536) segs" "length segs = 8" "zero_run segs (st, n)" "1 < n"
  shows "read_ipv6_addr (fmt_subslice (take st segs) @ ''::'' @ fmt_subslice (drop (st + n) segs)) = Some (segs, [])"
proof -
  let ?a = "take st segs" and ?b = "drop (st + n) segs"
  have sp: "segs = ?a @ replicate n 0 @ ?b" by (rule zero_run_split [OF assms(3)])
  have le: "st + n \<le> 8" using assms(2,3) by (simp add: zero_run_def)
  have len: "length ?a = st" "length ?b = 8 - (st + n)" using le assms(2) by simp_all
  have ge: "group_end (''::'' @ fmt_groups False ?b)" by (simp add: group_end_def)
  have a: "list_all (\<lambda>g. g < 65536) ?a" "list_all (\<lambda>g. g < 65536) ?b"
    using assms(1) by (auto simp: list_all_iff dest: in_set_takeD in_set_dropD)
  have h: "read_groups 8 0 (fmt_groups False ?a @ (''::'' @ fmt_groups False ?b)) = (?a, False, ''::'' @ fmt_groups False ?b)"
    using read_groups_fmt [OF a(1) _ ge, of 8 0] len le fmt_groups_no_dot [of False ?b] by simp
  have t: "read_groups (8 - (length ?a + 1)) 0 (fmt_groups False ?b) = (?b, False, [])"
    using read_groups_fmt [OF a(2), of "8 - (length ?a + 1)" "[]" 0] len le assms(4) by (simp add: group_end_def)
  have "8 - length ?a - length ?b = n" using len le by simp
  hence r: "?a @ replicate (8 - length ?a - length ?b) 0 @ ?b = segs" using sp by simp
  have "length ?a \<noteq> 8" using len(1) le assms(4) by linarith
  thus ?thesis unfolding read_ipv6_addr_def fmt_subslice_def h Let_def prod.case using t r
    by (simp only: if_False append_Cons append_Nil read_given_char.simps if_True bind.bind_lunit simp_thms prod.case)
qed

lemma read_show_ipv6_mapped:
  assumes "length v4 = 4"
  shows "read_ipv6_addr (''::ffff:'' @ show_ipv4 v4) = Some ([0, 0, 0, 0, 0, 65535] @ segments v4, [])"
proof -
  have f: "show_hex 65535 = ''ffff''" by (simp add: show_hex_def show_radix.simps digit_char_def)
  have c: "read_octet (CHR '':'' # s) = None" "read_octet (CHR ''f'' # s) = None" for s
    by (simp_all add: read_octet_def read_number_def to_digit_def digit_value_def less_eq_char_def)
  have 1: "read_groups 8 0 (''::ffff:'' @ show_ipv4 v4) = ([], False, ''::ffff:'' @ show_ipv4 v4)"
    using read_groups.simps(2) [of 7 0 "''::ffff:'' @ show_ipv4 v4"] by (simp add: read_separator_def read_ipv4_addr_def c read_group_stop)
  have 2: "read_group (''ffff'' @ CHR '':'' # show_ipv4 v4) = Some (65535, CHR '':'' # show_ipv4 v4)"
    using read_group_show [of 65535 "CHR '':'' # show_ipv4 v4"] f by simp
  have 3: "read_groups 6 1 (CHR '':'' # show_ipv4 v4) = (segments v4, True, [])"
  proof -
    obtain p q r s where a: "v4 = [p, q, r, s]" using assms by (auto simp: numeral_eq_Suc length_Suc_conv)
    show ?thesis using read_show_ipv4 [OF assms, of "[]"] read_groups.simps(2) [of 5 1 "CHR '':'' # show_ipv4 v4"]
      by (simp add: read_separator_def a)
  qed
  have 4: "read_groups 7 0 (''ffff:'' @ show_ipv4 v4) = (65535 # segments v4, True, [])"
    using 2 3 read_groups.simps(2) [of 6 0 "''ffff:'' @ show_ipv4 v4"] by (simp add: read_separator_def read_ipv4_addr_def c)
  have "length (segments v4) = 2" using assms by (simp add: length_segments)
  moreover have "replicate 5 (0 :: nat) = [0, 0, 0, 0, 0]" by (simp add: numeral_eq_Suc)
  ultimately show ?thesis unfolding read_ipv6_addr_def 1 Let_def prod.case using 4 by simp
qed

lemma read_show_ipv6:
  assumes "length a = 16"
  shows "read_ipv6_addr (show_ipv6 a) = Some (segments a, [])"
proof -
  let ?segs = "segments a"
  have len: "length ?segs = 8" using assms by (simp add: length_segments)
  note lt = segments_less [of a]
  obtain st n where sp: "zero_span ?segs 0 (0, 0) (0, 0) = (st, n)" by fastforce
  have run: "zero_run ?segs (st, n)"
    using zero_span_run [of "[]" ?segs "(0, 0)" "(0, 0)"] sp by (simp add: zero_run_def)
  consider (mapped) "take 6 ?segs = [0, 0, 0, 0, 0, 0xffff]" | (span) "take 6 ?segs \<noteq> [0, 0, 0, 0, 0, 0xffff]" "1 < n"
    | (plain) "take 6 ?segs \<noteq> [0, 0, 0, 0, 0, 0xffff]" "\<not> 1 < n" by blast
  thus ?thesis
  proof cases
    case mapped
    have "segments (drop 12 a) = drop 6 ?segs" using segments_drop [of 6 a] by simp
    hence "[0, 0, 0, 0, 0, 65535] @ segments (drop 12 a) = ?segs" using mapped append_take_drop_id [of 6 ?segs] by simp
    thus ?thesis using mapped read_show_ipv6_mapped [of "drop 12 a"] assms by (simp add: show_ipv6_def)
  next
    case span
    thus ?thesis using read_show_ipv6_groups [OF lt len run] sp by (simp add: show_ipv6_def Let_def)
  next
    case plain
    have "read_groups 8 0 (fmt_groups (0 < (0 :: nat)) ?segs @ []) = (?segs, False, [])"
      using lt len by (intro read_groups_fmt) (simp_all add: group_end_def)
    thus ?thesis using plain sp len by (simp add: show_ipv6_def Let_def fmt_subslice_def read_ipv6_addr_def)
  qed
qed

lemma parse_show_ipv6: "length a = 16 \<Longrightarrow> parse_ipv6 (show_ipv6 a) = Some a"
  using read_show_ipv6 [of a] segment_bytes_segments [of a] by (simp add: parse_ipv6_def parse_with_def)


end
