(* ===== verification/Wire_Tok.thy ===== *)
theory Wire_Tok
  imports Ip_Text
begin

text \<open>
  The tokenizer of the meta-protocol (\<open>tinc-proto/src/tok.rs\<close>), the shape of addresses on the wire
  (\<open>addr.rs\<close>), node names (\<open>lib.rs\<close>) and the request numbers (\<open>request.rs\<close>). A token function takes the
  rest of the line and returns what it read with what is left; \<open>None\<close> is \<open>ParseError\<close>.
\<close>

section \<open>Model\<close>

definition MAX_STRING :: nat where "MAX_STRING = 2048"

definition check_id :: "string \<Rightarrow> bool" where
  "check_id s \<longleftrightarrow> s \<noteq> [] \<and> list_all (\<lambda>b. is_ascii_alphanumeric b \<or> b = CHR ''_'') s"

definition rest_raw :: "string \<Rightarrow> string" where
  "rest_raw r = dropWhile is_ascii_whitespace r"

definition tok_s :: "string \<Rightarrow> (string \<times> string) option" where
  "tok_s r =
     (let s = dropWhile is_ascii_whitespace r;
          tok = takeWhile (\<lambda>c. \<not> is_ascii_whitespace c) s
      in if length tok = 0 \<or> MAX_STRING < length tok then None
         else Some (tok, dropWhile (\<lambda>c. \<not> is_ascii_whitespace c) s))"

definition tok_skip :: "string \<Rightarrow> (unit \<times> string) option" where
  "tok_skip r = do { (_, r) \<leftarrow> tok_s r; Some ((), r) }"

definition tok_d :: "string \<Rightarrow> (int \<times> string) option" where
  "tok_d r = do { (t, r) \<leftarrow> tok_s r; v \<leftarrow> parse_i32 t; Some (v, r) }"

definition tok_x :: "string \<Rightarrow> (nat \<times> string) option" where
  "tok_x r = do { (t, r) \<leftarrow> tok_s r; v \<leftarrow> parse_hex_u32 t; Some (nat v, r) }"

text \<open>\<open>i as u64\<close> is the value modulo \<open>2^64\<close>.\<close>

definition tok_lu :: "string \<Rightarrow> (nat \<times> string) option" where
  "tok_lu r = do {
     (t, r) \<leftarrow> tok_s r;
     (case parse_u64 t of
        Some v \<Rightarrow> Some (nat v, r)
      | None \<Rightarrow> do { i \<leftarrow> parse_i64 t; Some (nat (i mod 18446744073709551616), r) }) }"

definition tok_hd :: "string \<Rightarrow> (int \<times> string) option" where
  "tok_hd r = do { (t, r) \<leftarrow> tok_s r; v \<leftarrow> parse_i16 t; Some (v, r) }"

definition tok_ld :: "string \<Rightarrow> (int \<times> string) option" where
  "tok_ld r = do { (t, r) \<leftarrow> tok_s r; v \<leftarrow> parse_i64 t; Some (v, r) }"

definition tok_lit :: "string \<Rightarrow> string \<Rightarrow> (unit \<times> string) option" where
  "tok_lit expected r = do { (t, r) \<leftarrow> tok_s r; if t = expected then Some ((), r) else None }"

definition tok_id :: "string \<Rightarrow> (string \<times> string) option" where
  "tok_id r = do { (t, r) \<leftarrow> tok_s r; if check_id t then Some (t, r) else None }"

definition tok_s_opt :: "string \<Rightarrow> (string option \<times> string) option" where
  "tok_s_opt r =
     (case tok_s r of
        Some (t, r) \<Rightarrow> Some (Some t, r)
      | None \<Rightarrow> if rest_raw r = [] then Some (None, r) else None)"

definition tok_d_opt :: "string \<Rightarrow> (int option \<times> string) option" where
  "tok_d_opt r = do {
     (t, r) \<leftarrow> tok_s_opt r;
     (case t of Some t \<Rightarrow> do { v \<leftarrow> parse_i32 t; Some (Some v, r) } | None \<Rightarrow> Some (None, r)) }"

definition UNSPEC :: string where "UNSPEC = ''unspec''"

definition addr_new :: "string \<Rightarrow> string option" where
  "addr_new s =
     (if s = [] \<or> MAX_STRING < length s \<or> list_ex is_ascii_whitespace s then None else Some s)"

definition tok_addr_pair_opt :: "string \<Rightarrow> ((string \<times> string) option \<times> string) option" where
  "tok_addr_pair_opt r = do {
     (a, r) \<leftarrow> tok_s_opt r;
     (p, r) \<leftarrow> tok_s_opt r;
     (case (a, p) of
        (None, None) \<Rightarrow> Some (None, r)
      | (Some a, Some p) \<Rightarrow> do { a \<leftarrow> addr_new a; p \<leftarrow> addr_new p; Some (Some (a, p), r) }
      | _ \<Rightarrow> None) }"

datatype request = Id | Metakey | Challenge | ChalReply | Ack | Status | Error | Termreq | Ping | Pong
  | AddSubnet | DelSubnet | AddEdge | DelEdge | KeyChanged | ReqKey | AnsKey | Packet | Control
  | ReqPubkey | AnsPubkey | SptpsPacket | UdpInfo | MtuInfo

definition requests :: "request list" where
  "requests = [Id, Metakey, Challenge, ChalReply, Ack, Status, Error, Termreq, Ping, Pong,
     AddSubnet, DelSubnet, AddEdge, DelEdge, KeyChanged, ReqKey, AnsKey, Packet, Control,
     ReqPubkey, AnsPubkey, SptpsPacket, UdpInfo, MtuInfo]"

definition from_id :: "int \<Rightarrow> request option" where
  "from_id i = (if 0 \<le> i \<and> i \<le> 23 then Some (requests ! nat i) else None)"

fun request_no :: "request \<Rightarrow> nat" where
  "request_no Id = 0" | "request_no Metakey = 1" | "request_no Challenge = 2" | "request_no ChalReply = 3"
| "request_no Ack = 4" | "request_no Status = 5" | "request_no Error = 6" | "request_no Termreq = 7"
| "request_no Ping = 8" | "request_no Pong = 9" | "request_no AddSubnet = 10" | "request_no DelSubnet = 11"
| "request_no AddEdge = 12" | "request_no DelEdge = 13" | "request_no KeyChanged = 14" | "request_no ReqKey = 15"
| "request_no AnsKey = 16" | "request_no Packet = 17" | "request_no Control = 18" | "request_no ReqPubkey = 19"
| "request_no AnsPubkey = 20" | "request_no SptpsPacket = 21" | "request_no UdpInfo = 22" | "request_no MtuInfo = 23"

definition show_request :: "request \<Rightarrow> string" where
  "show_request r = show_int (int (request_no r))"

definition peek :: "string \<Rightarrow> request option" where
  "peek line =
     (let digits = takeWhile is_ascii_digit line; rest = dropWhile is_ascii_digit line
      in if digits = [] then None
         else if rest \<noteq> [] \<and> hd rest \<noteq> CHR '' '' then None
         else do { i \<leftarrow> parse_i32 digits; from_id i })"

definition PROT_MAJOR :: nat where "PROT_MAJOR = 17"
definition PROT_MINOR :: nat where "PROT_MINOR = 7"
definition REQ_KEY_PUNCH :: int where "REQ_KEY_PUNCH = 64"
definition REQ_KEY_PUNCH_SYNC :: int where "REQ_KEY_PUNCH_SYNC = 65"

section \<open>Tokens of a printed line\<close>

text \<open>A token on the wire: a word within the size limit. A line is its first token and the others, each after a blank.\<close>

definition token :: "string \<Rightarrow> bool" where
  "token w \<longleftrightarrow> word w \<and> length w \<le> MAX_STRING"

fun blanks :: "string list \<Rightarrow> string" where
  "blanks [] = []"
| "blanks (w # ws) = '' '' @ w @ blanks ws"

lemma unwords_blanks: "unwords (w # ws) = w @ blanks ws"
  by (induction ws arbitrary: w) simp_all

lemma blanks_append: "blanks (a @ b) = blanks a @ blanks b"
  by (induction a) simp_all

lemma takeWhile_word:
  assumes "word w"
  shows "takeWhile (\<lambda>c. \<not> is_ascii_whitespace c) (w @ blanks ws) = w"
    "dropWhile (\<lambda>c. \<not> is_ascii_whitespace c) (w @ blanks ws) = blanks ws"
    "dropWhile is_ascii_whitespace (w @ blanks ws) = w @ blanks ws"
proof -
  have c: "\<not> is_ascii_whitespace c" if "c \<in> set w" for c using that assms by (auto simp: word_def list_all_iff)
  show "takeWhile (\<lambda>c. \<not> is_ascii_whitespace c) (w @ blanks ws) = w"
    "dropWhile (\<lambda>c. \<not> is_ascii_whitespace c) (w @ blanks ws) = blanks ws"
    using c by (cases ws; simp add: takeWhile_append dropWhile_append)+
  show "dropWhile is_ascii_whitespace (w @ blanks ws) = w @ blanks ws"
    using assms by (cases w) (simp_all add: word_def)
qed

lemma tok_s_first: "token w \<Longrightarrow> tok_s (w @ blanks ws) = Some (w, blanks ws)"
  using takeWhile_word [of w ws] by (auto simp: tok_s_def token_def word_def Let_def)

lemma tok_s_next: "token w \<Longrightarrow> tok_s (blanks (w # ws)) = Some (w, blanks ws)"
  using takeWhile_word [of w ws] by (auto simp: tok_s_def token_def word_def Let_def)

lemma tok_s_end [simp]: "tok_s [] = None" "rest_raw [] = []"
  by (simp_all add: tok_s_def rest_raw_def)

declare blanks.simps [simp del]

lemma blanks_Nil [simp]: "blanks [] = []"
  by (simp add: blanks.simps)

text \<open>The first token of a line, and every later one: one law per token function.\<close>

definition name_ok :: "string \<Rightarrow> bool" where
  "name_ok s \<longleftrightarrow> check_id s \<and> length s \<le> MAX_STRING"

lemma check_id_word: "check_id s \<Longrightarrow> word s"
proof -
  have "\<not> is_ascii_whitespace c" if "is_ascii_alphanumeric c \<or> c = CHR ''_''" for c
    using that by (auto simp: is_ascii_whitespace_def is_ascii_alphanumeric_def is_ascii_digit_def less_eq_char_def)
  thus "check_id s \<Longrightarrow> word s" by (auto simp: check_id_def word_def list_all_iff)
qed

lemma name_ok_token: "name_ok s \<Longrightarrow> token s \<and> check_id s"
  by (simp add: name_ok_def token_def check_id_word)

lemma addr_new_token: "addr_new s = (if token s then Some s else None)"
  by (auto simp: addr_new_def token_def word_def list_all_iff list_ex_iff)

lemma token_show_int:
  assumes "\<bar>i\<bar> < 10 ^ 20"
  shows "token (show_int i)"
proof -
  have "nat \<bar>i\<bar> < 10 ^ Suc 19" using assms by (simp add: nat_less_iff)
  hence "length (show_radix 10 (nat \<bar>i\<bar>)) \<le> 20" using length_show_radix [of 10 "nat \<bar>i\<bar>" 19] by simp
  hence "length (show_int i) \<le> 21" by (auto simp: show_int_def split: if_splits)
  thus ?thesis by (simp add: token_def MAX_STRING_def)
qed

lemma token_show_hex:
  assumes "n < 2 ^ 32"
  shows "token (show_hex n)"
proof -
  have "n < 16 ^ Suc 7" using assms by simp
  thus ?thesis using length_show_radix [of 16 n 7] by (simp add: token_def MAX_STRING_def show_hex_def word_show_radix)
qed

lemma token_show_request: "token (show_request r)"
  unfolding show_request_def by (rule token_show_int) (cases r; simp)

lemma tok_first:
  "token w \<Longrightarrow> tok_skip (w @ blanks ws) = Some ((), blanks ws)"
  by (simp add: tok_skip_def tok_s_first)

lemma tok_next:
  assumes "token w"
  shows "tok_skip (blanks (w # ws)) = Some ((), blanks ws)" "tok_s (blanks (w # ws)) = Some (w, blanks ws)"
    "tok_s_opt (blanks (w # ws)) = Some (Some w, blanks ws)"
    "check_id w \<Longrightarrow> tok_id (blanks (w # ws)) = Some (w, blanks ws)"
  using tok_s_next [OF assms] by (simp_all add: tok_skip_def tok_s_opt_def tok_id_def)

lemma tok_number:
  "- 2147483648 \<le> i \<Longrightarrow> i \<le> 2147483647 \<Longrightarrow> tok_d (blanks (show_int i # ws)) = Some (i, blanks ws)"
  "- 2147483648 \<le> i \<Longrightarrow> i \<le> 2147483647 \<Longrightarrow> tok_d_opt (blanks (show_int i # ws)) = Some (Some i, blanks ws)"
  "- 32768 \<le> i \<Longrightarrow> i \<le> 32767 \<Longrightarrow> tok_hd (blanks (show_int i # ws)) = Some (i, blanks ws)"
  "n < 2 ^ 32 \<Longrightarrow> tok_x (blanks (show_hex n # ws)) = Some (n, blanks ws)"
  "m < 2 ^ 64 \<Longrightarrow> tok_lu (blanks (show_int (int m) # ws)) = Some (m, blanks ws)"
proof -
  have d: "token (show_int i)" if "- 2147483648 \<le> i" "i \<le> 2147483647" for i using that by (intro token_show_int) (simp add: abs_less_iff)
  show "tok_d (blanks (show_int i # ws)) = Some (i, blanks ws)" if "- 2147483648 \<le> i" "i \<le> 2147483647"
    using that d [OF that] tok_next(2) by (simp add: tok_d_def)
  show "tok_d_opt (blanks (show_int i # ws)) = Some (Some i, blanks ws)" if "- 2147483648 \<le> i" "i \<le> 2147483647"
    using that d [OF that] tok_next(3) by (simp add: tok_d_opt_def)
  show "tok_hd (blanks (show_int i # ws)) = Some (i, blanks ws)" if "- 32768 \<le> i" "i \<le> 32767"
    using that d [of i] tok_next(2) by (simp add: tok_hd_def)
  show "tok_x (blanks (show_hex n # ws)) = Some (n, blanks ws)" if "n < 2 ^ 32"
    using that token_show_hex [OF that] tok_next(2) by (simp add: tok_x_def)
  have "token (show_int (int m))" if "m < 2 ^ 64"
  proof (rule token_show_int)
    have "int m < 2 ^ 64" using that by simp
    thus "\<bar>int m\<bar> < 10 ^ 20" by simp
  qed
  thus "tok_lu (blanks (show_int (int m) # ws)) = Some (m, blanks ws)" if "m < 2 ^ 64"
    using that tok_next(2) by (simp add: tok_lu_def)
qed

lemma tok_end [simp]:
  "tok_s_opt [] = Some (None, [])" "tok_d_opt [] = Some (None, [])" "tok_addr_pair_opt [] = Some (None, [])"
  by (simp_all add: tok_s_opt_def tok_d_opt_def tok_addr_pair_opt_def)

lemma tok_addr_pair:
  "token a \<Longrightarrow> token p \<Longrightarrow> tok_addr_pair_opt (blanks (a # p # ws)) = Some (Some (a, p), blanks ws)"
  by (simp add: tok_addr_pair_opt_def tok_next addr_new_token)

text \<open>What the token functions promise of their results.\<close>

lemma tok_s_token: "tok_s r = Some (t, r') \<Longrightarrow> token t"
  by (auto simp: tok_s_def token_def word_def Let_def list_all_iff split: if_splits dest: set_takeWhileD)

lemma tok_id_name: "tok_id r = Some (t, r') \<Longrightarrow> name_ok t"
  using tok_s_token by (auto simp: tok_id_def name_ok_def token_def split: bind_splits if_splits)

lemma tok_d_range: "tok_d r = Some (i, r') \<Longrightarrow> - 2147483648 \<le> i \<and> i \<le> 2147483647"
  using from_str_radix_range by (auto simp: tok_d_def parse_i32_def split: bind_splits)

lemma tok_d_opt_range: "tok_d_opt r = Some (Some i, r') \<Longrightarrow> - 2147483648 \<le> i \<and> i \<le> 2147483647"
  using from_str_radix_range by (auto simp: tok_d_opt_def parse_i32_def split: bind_splits option.splits)

lemma tok_hd_range: "tok_hd r = Some (i, r') \<Longrightarrow> - 32768 \<le> i \<and> i \<le> 32767"
  using from_str_radix_range by (auto simp: tok_hd_def parse_i16_def split: bind_splits)

lemma tok_x_range: "tok_x r = Some (n, r') \<Longrightarrow> n < 2 ^ 32"
proof -
  assume "tok_x r = Some (n, r')"
  then obtain v where "from_str_radix 0 4294967295 16 v = Some (int n)"
    using from_str_radix_range [of 0 4294967295 16] by (fastforce simp: tok_x_def parse_hex_u32_def split: bind_splits)
  hence "int n \<le> 4294967295" using from_str_radix_range by blast
  thus ?thesis by simp
qed

lemma tok_lu_range: "tok_lu r = Some (n, r') \<Longrightarrow> n < 2 ^ 64"
proof -
  assume a: "tok_lu r = Some (n, r')"
  then obtain t where "tok_s r = Some (t, r')"
      "(case parse_u64 t of Some v \<Rightarrow> n = nat v | None \<Rightarrow> \<exists>i. n = nat (i mod 18446744073709551616))"
    by (auto simp: tok_lu_def split: bind_splits option.splits) blast
  hence "(\<exists>v. parse_u64 t = Some v \<and> n = nat v) \<or> (\<exists>i. n = nat (i mod 18446744073709551616))"
    by (cases "parse_u64 t") auto
  moreover have "nat v < 2 ^ 64" if "parse_u64 t = Some v" for v
    using from_str_radix_range [of 0 18446744073709551615 10 t v] that by (simp add: parse_u64_def nat_less_iff)
  moreover have "nat (i mod 18446744073709551616) < 2 ^ 64" for i :: int
    using pos_mod_bound [of 18446744073709551616 i] pos_mod_sign [of 18446744073709551616 i] by (simp add: nat_less_iff)
  ultimately show ?thesis by auto
qed

lemma tok_s_opt_token: "tok_s_opt r = Some (Some t, r') \<Longrightarrow> token t"
  using tok_s_token by (auto simp: tok_s_opt_def split: option.splits if_splits)

lemma tok_addr_pair_token: "tok_addr_pair_opt r = Some (Some (a, p), r') \<Longrightarrow> token a \<and> token p"
  by (auto simp: tok_addr_pair_opt_def addr_new_token split: bind_splits option.splits if_splits)

text \<open>Request numbers.\<close>

lemma from_id_request_no: "from_id (int (request_no r)) = Some r"
  by (cases r) (simp_all add: from_id_def requests_def)

lemma peek_request: "peek (show_request r @ blanks ws) = Some r"
proof -
  have d: "is_ascii_digit c" if c: "c \<in> set (show_request r)" for c
  proof -
    obtain d where d: "d < 10" "c = digit_char d"
      using show_radix_chars [of 10 c "request_no r"] c by (auto simp: show_request_def show_int_def)
    have "list_all (\<lambda>d. is_ascii_digit (digit_char d)) [0..<10]" by code_simp
    thus ?thesis using d by (simp add: list_all_iff)
  qed
  have nb: "\<not> is_ascii_digit CHR '' ''" by code_simp
  have "takeWhile is_ascii_digit (show_request r @ blanks ws) = show_request r"
    "dropWhile is_ascii_digit (show_request r @ blanks ws) = blanks ws"
    using d nb by (cases ws; simp add: takeWhile_append dropWhile_append blanks.simps)+
  moreover have "show_request r \<noteq> []" using token_show_request [of r] by (auto simp: token_def word_def)
  moreover have "parse_i32 (show_request r) = Some (int (request_no r))"
    unfolding show_request_def by (rule parse_show) (cases r; simp)+
  moreover have "blanks ws = [] \<or> hd (blanks ws) = CHR '' ''" by (cases ws) (simp_all add: blanks.simps)
  ultimately show ?thesis using from_id_request_no by (auto simp: peek_def)
qed

end
