(* ===== verification/Subnet_Text.thy ===== *)
theory Subnet_Text
  imports Subnets Ip_Text
begin

text \<open>
  The text form of subnets (\<open>tinc-proto/src/subnet.rs\<close>): \<open>net2str\<close> and \<open>str2net\<close>, that is \<open>Display\<close> and
  \<open>FromStr\<close>, and \<open>parse_mac\<close>. \<open>None\<close> is the parse error.
\<close>

section \<open>Model\<close>

definition show_mac_byte :: "u8 \<Rightarrow> string" where
  "show_mac_byte b = (if unat b < 16 then ''0'' else []) @ show_hex (unat b)"

fun join_colon :: "string list \<Rightarrow> string" where
  "join_colon [] = []"
| "join_colon [w] = w"
| "join_colon (w # ws) = w @ '':'' @ join_colon ws"

definition show_mac :: "bytes \<Rightarrow> string" where
  "show_mac a = join_colon (map show_mac_byte a)"

definition show_subnet :: "subnet \<Rightarrow> string" where
  "show_subnet s =
     (case s of
        Mac a _ \<Rightarrow> show_mac a
      | V4 a p _ \<Rightarrow> show_ipv4 a @ (if p \<noteq> 32 then ''/'' @ show_int (int p) else [])
      | V6 a p _ \<Rightarrow> show_ipv6 a @ (if p \<noteq> 128 then ''/'' @ show_int (int p) else []))
     @ (if subnet_weight s \<noteq> DEFAULT_WEIGHT then ''#'' @ show_int (subnet_weight s) else [])"

text \<open>The loop of \<open>parse_mac\<close>: \<open>n\<close> bytes from the parts; the parts that are left.\<close>

fun mac_bytes :: "nat \<Rightarrow> string list \<Rightarrow> (bytes \<times> string list) option" where
  "mac_bytes 0 parts = Some ([], parts)"
| "mac_bytes (Suc n) [] = None"
| "mac_bytes (Suc n) (p # parts) =
     (if p = [] \<or> 2 < length p then None
      else do {
        b \<leftarrow> parse_hex_u8 p;
        (bs, parts) \<leftarrow> mac_bytes n parts;
        Some (of_int b # bs, parts) })"

definition parse_mac :: "string \<Rightarrow> bytes option" where
  "parse_mac s = do {
     (out, parts) \<leftarrow> mac_bytes 6 (split_char CHR '':'' s);
     if parts \<noteq> [] then None else Some out }"

definition clamp_prefix :: "int option \<Rightarrow> nat \<Rightarrow> nat option" where
  "clamp_prefix prefix mx =
     (case prefix of None \<Rightarrow> Some mx | Some p \<Rightarrow> if p \<le> int mx then Some (nat p) else None)"

definition parse_suffix_weight :: "string \<Rightarrow> (string \<times> int) option" where
  "parse_suffix_weight s =
     (case split_once CHR ''#'' s of
        Some (head, w) \<Rightarrow> do { w \<leftarrow> parse_i32 w; Some (head, w) }
      | None \<Rightarrow> Some (s, DEFAULT_WEIGHT))"

definition parse_suffix_prefix :: "string \<Rightarrow> (string \<times> int option) option" where
  "parse_suffix_prefix s =
     (case split_once CHR ''/'' s of
        Some (head, p) \<Rightarrow> do { p \<leftarrow> parse_i32 p; if p < 0 then None else Some (head, Some p) }
      | None \<Rightarrow> Some (s, None))"

definition parse_subnet :: "string \<Rightarrow> subnet option" where
  "parse_subnet s =
     (if 64 \<le> length s then None
      else do {
        (s, weight) \<leftarrow> parse_suffix_weight s;
        (s, prefix) \<leftarrow> parse_suffix_prefix s;
        case parse_mac s of
          Some addr \<Rightarrow> if prefix \<noteq> None then None else Some (Mac addr weight)
        | None \<Rightarrow>
            (case parse_ipv4 s of
               Some addr \<Rightarrow> do { p \<leftarrow> clamp_prefix prefix 32; Some (V4 addr p weight) }
             | None \<Rightarrow>
                 (case parse_ipv6 s of
                    Some addr \<Rightarrow> do { p \<leftarrow> clamp_prefix prefix 128; Some (V6 addr p weight) }
                  | None \<Rightarrow> None)) })"

section \<open>The addresses\<close>

lemma show_mac_byte_eq: "show_mac_byte b = [digit_char (unat b div 16), digit_char (unat b mod 16)]"
proof (cases "unat b < 16")
  case True
  thus ?thesis by (simp add: show_mac_byte_def show_hex_def show_radix.simps digit_char_def)
next
  case False
  have "unat b < 256" using unsigned_less [of b, where 'a = nat] by simp
  hence "unat b div 16 < 16" by simp
  thus ?thesis using False by (simp add: show_mac_byte_def show_hex_def show_radix.simps [of 16 "unat b"] show_radix.simps [of 16 "unat b div 16"])
qed

definition addr_char :: "char \<Rightarrow> bool" where
  "addr_char c \<longleftrightarrow> c \<noteq> CHR ''/'' \<and> c \<noteq> CHR ''#'' \<and> \<not> is_ascii_whitespace c"

lemma mac_byte_props:
  "length (show_mac_byte b) = 2" "parse_hex_u8 (show_mac_byte b) = Some (uint b)"
  "list_all (\<lambda>c. addr_char c \<and> c \<noteq> CHR '':'') (show_mac_byte b)"
proof -
  let ?h = "unat b div 16" and ?l = "unat b mod 16"
  have "unat b < 256" using unsigned_less [of b, where 'a = nat] by simp
  hence lt: "?h < 16" "?l < 16" "uint b \<le> 255" by (simp_all add: uint_nat del: of_nat_unat)
  note h = digit_char_props [OF lt(1)] and l = digit_char_props [OF lt(2)]
  show "length (show_mac_byte b) = 2" by (simp add: show_mac_byte_eq)
  have "parse_digits 16 0 (show_mac_byte b) = Some (unat b)" using h l lt by (simp add: show_mac_byte_eq to_digit_def)
  thus "parse_hex_u8 (show_mac_byte b) = Some (uint b)"
    using h lt(3) by (simp add: parse_hex_u8_def from_str_radix_def Let_def show_mac_byte_eq)
  show "list_all (\<lambda>c. addr_char c \<and> c \<noteq> CHR '':'') (show_mac_byte b)" using h l by (simp add: show_mac_byte_eq addr_char_def)
qed

lemma split_join_colon:
  assumes "ws \<noteq> []" "\<And>w. w \<in> set ws \<Longrightarrow> CHR '':'' \<notin> set w"
  shows "split_char CHR '':'' (join_colon ws) = ws"
  using assms
proof (induction ws rule: join_colon.induct)
  case (2 w)
  hence "list_all (\<lambda>c. c \<noteq> CHR '':'') w" by (auto simp: list_all_iff)
  thus ?case by (simp add: split_char_def split_on_free)
next
  case (3 w v ws)
  have w: "list_all (\<lambda>c. c \<noteq> CHR '':'') w" using 3(3) [of w] by (auto simp: list_all_iff)
  have "split_char CHR '':'' (join_colon (v # ws)) = v # ws" using 3 by simp
  thus ?case using split_on_sep [of "\<lambda>d. d = CHR '':''" w "CHR '':''" "join_colon (v # ws)"] w by (simp add: split_char_def)
qed simp

lemma mac_bytes_show: "mac_bytes (length a) (map show_mac_byte a) = Some (a, [])"
proof (induction a)
  case (Cons b a)
  have "show_mac_byte b \<noteq> []" "length (show_mac_byte b) = 2" using mac_byte_props(1) [of b] by auto
  thus ?case using Cons mac_byte_props(2) [of b] by simp
qed simp

lemma parse_show_mac:
  assumes "length a = 6"
  shows "parse_mac (show_mac a) = Some a"
proof -
  have "map show_mac_byte a \<noteq> []" using assms by auto
  moreover have "CHR '':'' \<notin> set w" if "w \<in> set (map show_mac_byte a)" for w
    using that mac_byte_props(3) by (auto simp: list_all_iff)
  ultimately have "split_char CHR '':'' (show_mac a) = map show_mac_byte a" unfolding show_mac_def by (rule split_join_colon)
  thus ?thesis using mac_bytes_show [of a] assms by (simp add: parse_mac_def)
qed

text \<open>A text with an empty part, or without exactly six parts, is no MAC address.\<close>

lemma mac_bytes_parts: "mac_bytes n parts = Some (bs, []) \<Longrightarrow> length parts = n \<and> [] \<notin> set parts"
  by (induction n parts arbitrary: bs rule: mac_bytes.induct) (auto split: if_splits bind_splits)

lemma parse_mac_parts: "parse_mac s = Some a \<Longrightarrow> length (split_char CHR '':'' s) = 6 \<and> [] \<notin> set (split_char CHR '':'' s)"
  using mac_bytes_parts by (auto simp: parse_mac_def split: bind_splits if_splits)

lemma split_double: "P c \<Longrightarrow> [] \<in> set (tl (split_on P (x @ c # c # y)))"
proof (induction x)
  case (Cons d x)
  thus ?case by (cases "split_on P (x @ c # c # y)") (auto split: list.splits)
qed simp

lemma parse_mac_double: "parse_mac (x @ ''::'' @ y) = None"
proof (rule ccontr)
  assume "parse_mac (x @ ''::'' @ y) \<noteq> None"
  hence "[] \<notin> set (split_char CHR '':'' (x @ ''::'' @ y))" using parse_mac_parts by blast
  moreover have "[] \<in> set (tl (split_char CHR '':'' (x @ ''::'' @ y)))"
    using split_double [of "\<lambda>d. d = CHR '':''" "CHR '':''" x y] by (simp add: split_char_def)
  moreover have "set (tl xs) \<subseteq> set xs" for xs :: "string list" by (cases xs) auto
  ultimately show False by blast
qed

lemma split_fmt_groups: "split_char CHR '':'' (show_hex g @ fmt_groups True gs) = map show_hex (g # gs)"
proof (induction gs arbitrary: g)
  case Nil
  have "list_all (\<lambda>c. c \<noteq> CHR '':'') (show_hex g)" using show_radix_props [of 16 _ g] by (auto simp: list_all_iff show_hex_def)
  thus ?case by (simp add: split_char_def split_on_free)
next
  case (Cons h gs)
  have "list_all (\<lambda>c. c \<noteq> CHR '':'') (show_hex g)" using show_radix_props [of 16 _ g] by (auto simp: list_all_iff show_hex_def)
  thus ?case using Cons [of h] split_on_sep [of "\<lambda>d. d = CHR '':''" "show_hex g" "CHR '':''" "show_hex h @ fmt_groups True gs"]
    by (simp add: split_char_def)
qed

text \<open>The IPv6 form is neither a MAC address nor an IPv4 address; the IPv4 form is no MAC address.\<close>

lemma show_ipv6_cases:
  assumes "length a = 16"
  obtains (double) x y where "show_ipv6 a = x @ ''::'' @ y" | (plain) g gs where "show_ipv6 a = show_hex g @ fmt_groups True gs" "length gs = 7"
proof -
  obtain g gs where segs: "segments a = g # gs" "length gs = 7" using length_segments [of a] assms by (cases "segments a") auto
  show thesis
  proof (cases "take 6 (segments a) = [0, 0, 0, 0, 0, 0xffff]")
    case True
    hence "show_ipv6 a = [] @ ''::'' @ ''ffff:'' @ show_ipv4 (drop 12 a)" by (simp add: show_ipv6_def)
    thus thesis by (rule double)
  next
    case False
    obtain st n where sp: "zero_span (segments a) 0 (0, 0) (0, 0) = (st, n)" by fastforce
    show thesis
    proof (cases "1 < n")
      case True
      hence "show_ipv6 a = fmt_subslice (take st (segments a)) @ ''::'' @ fmt_subslice (drop (st + n) (segments a))"
        using False sp by (simp add: show_ipv6_def Let_def)
      thus thesis by (rule double)
    next
      case nle: False
      have "show_ipv6 a = fmt_subslice (segments a)" using False nle sp by (simp add: show_ipv6_def Let_def)
      thus thesis using plain [of g gs] segs by (simp add: fmt_subslice_def)
    qed
  qed
qed

lemma show_ipv6_no_mac:
  assumes "length a = 16"
  shows "parse_mac (show_ipv6 a) = None"
  using assms
proof (cases rule: show_ipv6_cases)
  case (double x y)
  thus ?thesis using parse_mac_double by simp
next
  case (plain g gs)
  have "length (split_char CHR '':'' (show_ipv6 a)) = 8" unfolding plain(1) split_fmt_groups using plain(2) by simp
  thus ?thesis using parse_mac_parts [of "show_ipv6 a"] by (cases "parse_mac (show_ipv6 a)") auto
qed

lemma read_octet_colon: "read_octet (CHR '':'' # s) = None"
  by (simp add: read_octet_def read_number_def)

lemma show_ipv6_no_ipv4: "parse_ipv4 (show_ipv6 a) = None"
proof (cases "take 6 (segments a) = [0, 0, 0, 0, 0, 0xffff]")
  case True
  thus ?thesis by (simp add: show_ipv6_def parse_ipv4_def parse_with_def read_ipv4_addr_def read_separator_def read_octet_colon)
next
  case False
  obtain st n where sp: "zero_span (segments a) 0 (0, 0) (0, 0) = (st, n)" by fastforce
  have "CHR ''.'' \<notin> set (show_ipv6 a)" using False sp fmt_groups_no_dot by (auto simp: show_ipv6_def Let_def fmt_subslice_def)
  thus ?thesis using read_ipv4_no_dot by (simp add: parse_ipv4_def parse_with_def)
qed

lemma show_ipv4_chars: "list_all (\<lambda>c. addr_char c \<and> c \<noteq> CHR '':'') (show_ipv4 a)"
proof -
  have "list_all (\<lambda>c. addr_char c \<and> c \<noteq> CHR '':'') (show_int (uint (b :: u8)))" for b
    using show_radix_props [of 10 _ "unat b"] by (auto simp: list_all_iff show_octet addr_char_def)
  thus ?thesis by (simp add: show_ipv4_def addr_char_def is_ascii_whitespace_def)
qed

lemma show_ipv4_no_mac: "parse_mac (show_ipv4 a) = None"
proof -
  have "list_all (\<lambda>c. c \<noteq> CHR '':'') (show_ipv4 a)" using show_ipv4_chars by (simp add: list_all_iff)
  hence "split_char CHR '':'' (show_ipv4 a) = [show_ipv4 a]" by (simp add: split_char_def split_on_free)
  thus ?thesis using parse_mac_parts [of "show_ipv4 a"] by (cases "parse_mac (show_ipv4 a)") auto
qed

lemma fmt_groups_chars: "list_all addr_char (fmt_groups sep gs)"
proof (induction gs arbitrary: sep)
  case (Cons g gs)
  have "list_all addr_char (show_hex g)" using show_radix_props [of 16 _ g] by (auto simp: list_all_iff show_hex_def addr_char_def)
  moreover have "addr_char CHR '':''" by (simp add: addr_char_def is_ascii_whitespace_def)
  ultimately show ?case using Cons [of True] by simp
qed simp

lemma show_ipv6_chars: "list_all addr_char (show_ipv6 a)"
proof -
  obtain st n where sp: "zero_span (segments a) 0 (0, 0) (0, 0) = (st, n)" by fastforce
  have "list_all addr_char (show_ipv4 b)" for b using show_ipv4_chars [of b] by (auto simp: list_all_iff)
  moreover have "addr_char CHR '':''" "addr_char CHR ''f''" by (simp_all add: addr_char_def is_ascii_whitespace_def)
  ultimately show ?thesis using sp fmt_groups_chars by (simp add: show_ipv6_def Let_def fmt_subslice_def)
qed

lemma show_mac_chars: "list_all addr_char (show_mac a)"
proof -
  have "list_all addr_char (join_colon ws)" if "\<And>w. w \<in> set ws \<Longrightarrow> list_all addr_char w" for ws
  proof -
    have "addr_char CHR '':''" by (simp add: addr_char_def is_ascii_whitespace_def)
    thus ?thesis using that by (induction ws rule: join_colon.induct) simp_all
  qed
  moreover have b: "list_all addr_char (show_mac_byte b)" for b using mac_byte_props(3) [of b] by (auto simp: list_all_iff)
  ultimately show ?thesis unfolding show_mac_def using b by (metis (no_types, lifting) imageE list.set_map)
qed

section \<open>Lengths\<close>

lemma length_show_hex: "g < 65536 \<Longrightarrow> length (show_hex g) \<le> 4"
  using length_show_radix [of 16 g 3] by (simp add: show_hex_def)

lemma length_fmt_groups: "list_all (\<lambda>g. g < 65536) gs \<Longrightarrow> length (fmt_groups sep gs) \<le> 5 * length gs"
proof (induction gs arbitrary: sep)
  case (Cons g gs)
  have "length (show_hex g) \<le> 4" "length (fmt_groups True gs) \<le> 5 * length gs"
    using Cons length_show_hex [of g] by simp_all
  thus ?case by (simp only: fmt_groups.simps length_append list.size split: if_split) simp
qed simp

lemma length_show_ipv6:
  assumes "length a = 16"
  shows "length (show_ipv6 a) \<le> 42"
proof -
  let ?s = "segments a"
  obtain st n where sp: "zero_span ?s 0 (0, 0) (0, 0) = (st, n)" by fastforce
  have len: "length ?s = 8" using assms by (simp add: length_segments)
  have lt: "list_all (\<lambda>g. g < 65536) (take st ?s)" "list_all (\<lambda>g. g < 65536) (drop (st + n) ?s)"
    using segments_less [of a] by (auto simp: list_all_iff dest: in_set_takeD in_set_dropD)
  have "length (fmt_groups False (take st ?s)) + length (fmt_groups False (drop (st + n) ?s)) \<le> 5 * (length (take st ?s) + length (drop (st + n) ?s))"
    using length_fmt_groups [OF lt(1), of False] length_fmt_groups [OF lt(2), of False] by simp
  also have "\<dots> \<le> 40" using len by simp
  finally show ?thesis using sp length_fmt_groups [OF segments_less [of a], of False] length_show_ipv4 [of "drop 12 a"] len
    by (simp add: show_ipv6_def Let_def fmt_subslice_def)
qed

lemma length_show_mac: "length a = 6 \<Longrightarrow> length (show_mac a) = 17"
proof -
  have j: "length (join_colon (map show_mac_byte (b # bs))) = 3 * length bs + 2" for b bs
    by (induction bs arbitrary: b) (simp_all add: mac_byte_props(1))
  assume "length a = 6"
  thus ?thesis using j by (cases a) (simp_all add: show_mac_def)
qed

lemma length_show_i32:
  assumes "i32_range w"
  shows "length (show_int w) \<le> 11"
proof -
  have "\<bar>w\<bar> < 10000000000" using assms by (simp add: i32_range_def abs_less_iff)
  hence "nat \<bar>w\<bar> < 10 ^ Suc 9" by (simp add: nat_less_iff)
  from length_show_radix [OF _ this] show ?thesis by (auto simp: show_int_def)
qed

section \<open>The round trip\<close>

definition weight_suffix :: "int \<Rightarrow> string" where
  "weight_suffix w = (if w \<noteq> DEFAULT_WEIGHT then ''#'' @ show_int w else [])"

definition prefix_suffix :: "nat \<Rightarrow> nat \<Rightarrow> string" where
  "prefix_suffix mx p = (if p \<noteq> mx then ''/'' @ show_int (int p) else [])"

lemma show_subnet_simps:
  "show_subnet (Mac a w) = show_mac a @ weight_suffix w"
  "show_subnet (V4 a p w) = (show_ipv4 a @ prefix_suffix 32 p) @ weight_suffix w"
  "show_subnet (V6 a p w) = (show_ipv6 a @ prefix_suffix 128 p) @ weight_suffix w"
  by (simp_all add: show_subnet_def weight_suffix_def prefix_suffix_def)

lemma parse_weight_suffix:
  assumes "CHR ''#'' \<notin> set s" "i32_range w"
  shows "parse_suffix_weight (s @ weight_suffix w) = Some (s, w)"
  using assms split_once_free [OF assms(1)] split_once_sep [OF assms(1), of "show_int w"]
  by (simp add: parse_suffix_weight_def weight_suffix_def i32_range_def)

lemma parse_prefix_suffix:
  assumes "CHR ''/'' \<notin> set s" "p \<le> 128"
  shows "parse_suffix_prefix (s @ prefix_suffix mx p) = Some (s, if p = mx then None else Some (int p))"
  using assms split_once_free [OF assms(1)] split_once_sep [OF assms(1), of "show_int (int p)"]
  by (simp add: parse_suffix_prefix_def prefix_suffix_def)

lemma addr_char_free: "list_all addr_char s \<Longrightarrow> CHR ''#'' \<notin> set s \<and> CHR ''/'' \<notin> set s"
  by (auto simp: list_all_iff addr_char_def)

lemma prefix_suffix_free: "CHR ''#'' \<notin> set (prefix_suffix mx p)" "length (prefix_suffix mx p) \<le> (if p < 1000 then 4 else length (prefix_suffix mx p))"
proof -
  have "CHR ''#'' \<notin> set (show_int (int p))" using show_radix_props [of 10 "CHR ''#''" p] by (auto simp: show_int_def)
  thus "CHR ''#'' \<notin> set (prefix_suffix mx p)" by (simp add: prefix_suffix_def)
  show "length (prefix_suffix mx p) \<le> (if p < 1000 then 4 else length (prefix_suffix mx p))"
    using length_show_radix [of 10 p 2] by (simp add: prefix_suffix_def show_int_def)
qed

lemma length_weight_suffix: "i32_range w \<Longrightarrow> length (weight_suffix w) \<le> 12"
  using length_show_i32 by (simp add: weight_suffix_def)

lemma clamp_prefix_show: "p \<le> mx \<Longrightarrow> clamp_prefix (if p = mx then None else Some (int p)) mx = Some p"
  by (simp add: clamp_prefix_def)

text \<open>Whatever the parser accepts is a subnet the types allow.\<close>

lemma mac_bytes_length: "mac_bytes n parts = Some (bs, rest) \<Longrightarrow> length bs = n"
  by (induction n parts arbitrary: bs rest rule: mac_bytes.induct) (auto split: if_splits bind_splits)

lemma read_ipv4_length: "read_ipv4_addr s = Some (v, t) \<Longrightarrow> length v = 4"
  by (auto simp: read_ipv4_addr_def split: bind_splits)

lemma read_groups_length: "length (fst (read_groups n i s)) \<le> n"
proof (induction n arbitrary: i s)
  case (Suc n)
  show ?case using Suc [of "i + 1"] by (auto simp: Let_def split_beta split: option.splits if_splits)
qed simp

lemma read_ipv6_length:
  assumes "read_ipv6_addr s = Some (gs, t)"
  shows "length gs = 8"
proof -
  obtain head v4 r where h: "read_groups 8 0 s = (head, v4, r)" by (metis prod_cases3)
  show ?thesis
  proof (cases "length head = 8")
    case True
    thus ?thesis using assms h by (simp add: read_ipv6_addr_def)
  next
    case False
    have "length head \<le> 8" using read_groups_length [of 8 0 s] h by simp
    hence lt: "length head < 8" using False by simp
    obtain r1 r2 where r: "read_given_char CHR '':'' r = Some r1" "read_given_char CHR '':'' r1 = Some r2"
      using assms h False by (auto simp: read_ipv6_addr_def split: if_splits bind_splits)
    obtain tail v r3 where t: "read_groups (8 - (length head + 1)) 0 r2 = (tail, v, r3)" by (metis prod_cases3)
    have "length tail \<le> 8 - (length head + 1)" using read_groups_length [of "8 - (length head + 1)" 0 r2] t by simp
    moreover have "gs = head @ replicate (8 - length head - length tail) 0 @ tail"
      using assms h False r t by (auto simp: read_ipv6_addr_def split: if_splits)
    ultimately show ?thesis using lt by simp
  qed
qed

lemma segment_bytes_length: "length (segment_bytes gs) = 2 * length gs"
  by (induction gs) (simp_all add: segment_bytes_def)

lemma clamp_prefix_le: "clamp_prefix prefix mx = Some p \<Longrightarrow> p \<le> mx"
  by (auto simp: clamp_prefix_def split: option.splits if_splits)

lemma parse_subnet_ok:
  assumes "parse_subnet s = Some x"
  shows "subnet_ok x"
proof -
  obtain s1 w s2 p where h: "parse_suffix_weight s = Some (s1, w)" "parse_suffix_prefix s1 = Some (s2, p)"
    using assms by (auto simp: parse_subnet_def split: if_splits bind_splits)
  have w: "i32_range w"
    using h(1) from_str_radix_range by (auto simp: parse_suffix_weight_def parse_i32_def i32_range_def DEFAULT_WEIGHT_def split: option.splits bind_splits)
  have m: "length a = 6" if "parse_mac s2 = Some a" for a using that mac_bytes_length by (auto simp: parse_mac_def split: bind_splits if_splits)
  have v4: "length a = 4" if "parse_ipv4 s2 = Some a" for a
    using that read_ipv4_length by (auto simp: parse_ipv4_def parse_with_def split: if_splits option.splits prod.splits list.splits)
  have v6: "length a = 16" if "parse_ipv6 s2 = Some a" for a
    using that read_ipv6_length by (auto simp: parse_ipv6_def parse_with_def segment_bytes_length split: option.splits prod.splits list.splits)
  show ?thesis using assms h w m v4 v6 clamp_prefix_le
    by (auto simp: parse_subnet_def split: if_splits option.splits bind_splits)
qed

lemma word_show_subnet:
  assumes "subnet_ok s"
  shows "word (show_subnet s)"
proof -
  have i: "list_all (\<lambda>c. \<not> is_ascii_whitespace c) (show_int i)" "\<not> is_ascii_whitespace CHR ''/''" "\<not> is_ascii_whitespace CHR ''#''" for i
    using word_show_int [of i] by (simp_all add: word_def is_ascii_whitespace_def)
  have a: "list_all addr_char t \<Longrightarrow> list_all (\<lambda>c. \<not> is_ascii_whitespace c) t" for t by (auto simp: list_all_iff addr_char_def)
  have "list_all addr_char (show_ipv4 b)" for b using show_ipv4_chars [of b] by (auto simp: list_all_iff)
  hence "list_all (\<lambda>c. \<not> is_ascii_whitespace c) (show_subnet s)"
    using a show_mac_chars show_ipv6_chars i by (cases s) (simp_all add: show_subnet_def)
  moreover have "show_subnet s \<noteq> []"
  proof (cases s)
    case (Mac b w)
    have "show_mac b \<noteq> []" using length_show_mac [of b] assms Mac by auto
    thus ?thesis using Mac by (simp add: show_subnet_def)
  next
    case (V6 b p w)
    hence "length b = 16" using assms by simp
    hence "show_ipv6 b \<noteq> []" by (cases rule: show_ipv6_cases) (auto simp: show_hex_def)
    thus ?thesis using V6 by (simp add: show_subnet_def)
  qed (simp add: show_subnet_def show_ipv4_def)
  ultimately show ?thesis by (simp add: word_def)
qed

lemma length_show_subnet:
  assumes "subnet_ok s"
  shows "length (show_subnet s) < 64"
proof (cases s)
  case (Mac a w)
  thus ?thesis using length_show_mac [of a] length_weight_suffix [of w] assms by (simp add: show_subnet_simps)
next
  case (V4 a p w)
  thus ?thesis using length_show_ipv4 [of a] length_weight_suffix [of w] prefix_suffix_free(2) [of 32 p] assms
    by (simp add: show_subnet_simps)
next
  case (V6 a p w)
  thus ?thesis using length_show_ipv6 [of a] length_weight_suffix [of w] prefix_suffix_free(2) [of 128 p] assms
    by (simp add: show_subnet_simps)
qed

lemma parse_show_subnet:
  assumes "subnet_ok s"
  shows "parse_subnet (show_subnet s) = Some s"
proof (cases s)
  case (Mac a w)
  have ok: "length a = 6" "i32_range w" using assms Mac by simp_all
  have s: "show_subnet s = show_mac a @ weight_suffix w" by (simp add: Mac show_subnet_simps)
  note fr = addr_char_free [OF show_mac_chars [of a]]
  note len = length_show_subnet [OF assms]
  have "parse_suffix_prefix (show_mac a) = Some (show_mac a, None)" using fr split_once_free by (simp add: parse_suffix_prefix_def)
  thus ?thesis using len fr parse_weight_suffix [OF _ ok(2)] parse_show_mac [OF ok(1)]
    unfolding s by (simp add: parse_subnet_def Mac)
next
  case (V4 a p w)
  have ok: "length a = 4" "p \<le> 32" "i32_range w" using assms V4 by simp_all
  have s: "show_subnet s = (show_ipv4 a @ prefix_suffix 32 p) @ weight_suffix w" by (simp add: V4 show_subnet_simps)
  have "list_all addr_char (show_ipv4 a)" using show_ipv4_chars [of a] by (auto simp: list_all_iff)
  note fr = addr_char_free [OF this]
  show ?thesis using length_show_subnet [OF assms] fr prefix_suffix_free(1) [of 32 p] parse_weight_suffix [of "show_ipv4 a @ prefix_suffix 32 p", OF _ ok(3)]
      parse_prefix_suffix [of "show_ipv4 a" p 32] ok(2) show_ipv4_no_mac [of a] parse_show_ipv4 [OF ok(1)] clamp_prefix_show [OF ok(2)]
    unfolding s by (simp add: parse_subnet_def V4)
next
  case (V6 a p w)
  have ok: "length a = 16" "p \<le> 128" "i32_range w" using assms V6 by simp_all
  have s: "show_subnet s = (show_ipv6 a @ prefix_suffix 128 p) @ weight_suffix w" by (simp add: V6 show_subnet_simps)
  note fr = addr_char_free [OF show_ipv6_chars [of a]]
  show ?thesis using length_show_subnet [OF assms] fr prefix_suffix_free(1) [of 128 p] parse_weight_suffix [of "show_ipv6 a @ prefix_suffix 128 p", OF _ ok(3)]
      parse_prefix_suffix [of "show_ipv6 a" p 128] ok(2) show_ipv6_no_mac [OF ok(1)] show_ipv6_no_ipv4 [of a]
      parse_show_ipv6 [OF ok(1)] clamp_prefix_show [OF ok(2)]
    unfolding s by (simp add: parse_subnet_def V6)
qed

text \<open>
  C29: the text form of a subnet reads back, exactly for the subnets the types allow: six, four or
  sixteen octets, a prefix within the address, a 32-bit weight. The three kinds are never confused, no
  printed form exceeds the parser's length limit, and nothing else is ever parsed.
\<close>

theorem subnet_text_roundtrip:
  "parse_subnet (show_subnet s) = Some s \<longleftrightarrow> subnet_ok s"
  using parse_show_subnet parse_subnet_ok by blast

end
