(* ===== verification/Wire_Msg.thy ===== *)
theory Wire_Msg
  imports Wire_Tok Subnet_Text
begin

text \<open>
  The messages of the meta-protocol (\<open>tinc-proto/src/msg\<close>): one record per message with its \<open>parse\<close> and
  \<open>format\<close>. Widths are the types': 32-bit options, weights and numbers, 64-bit \<open>maclen\<close>, 16-bit lengths.
\<close>

section \<open>Edges\<close>

record add_edge_msg =
  ae_from :: string
  ae_to :: string
  ae_addr :: string
  ae_port :: string
  ae_options :: nat
  ae_weight :: int
  ae_local :: "(string \<times> string) option"

definition add_edge_parse :: "string \<Rightarrow> add_edge_msg option" where
  "add_edge_parse line = do {
     (_, t) \<leftarrow> tok_skip line;
     (_, t) \<leftarrow> tok_skip t;
     (from, t) \<leftarrow> tok_id t;
     (to, t) \<leftarrow> tok_id t;
     if from = to then None
     else do {
       (a, t) \<leftarrow> tok_s t; addr \<leftarrow> addr_new a;
       (p, t) \<leftarrow> tok_s t; port \<leftarrow> addr_new p;
       (options, t) \<leftarrow> tok_x t;
       (w, t) \<leftarrow> tok_d t;
       (local, t) \<leftarrow> tok_addr_pair_opt t;
       Some \<lparr>ae_from = from, ae_to = to, ae_addr = addr, ae_port = port, ae_options = options,
             ae_weight = max w 0, ae_local = local\<rparr> } }"

definition add_edge_format :: "nat \<Rightarrow> add_edge_msg \<Rightarrow> string" where
  "add_edge_format nonce m =
     unwords [show_request AddEdge, show_hex nonce, ae_from m, ae_to m, ae_addr m, ae_port m,
              show_hex (ae_options m), show_int (ae_weight m)]
     @ (case ae_local m of None \<Rightarrow> [] | Some (la, lp) \<Rightarrow> '' '' @ la @ '' '' @ lp)"

record del_edge_msg =
  de_from :: string
  de_to :: string

definition del_edge_parse :: "string \<Rightarrow> del_edge_msg option" where
  "del_edge_parse line = do {
     (_, t) \<leftarrow> tok_skip line;
     (_, t) \<leftarrow> tok_skip t;
     (from, t) \<leftarrow> tok_id t;
     (to, t) \<leftarrow> tok_id t;
     if from = to then None else Some \<lparr>de_from = from, de_to = to\<rparr> }"

definition del_edge_format :: "nat \<Rightarrow> del_edge_msg \<Rightarrow> string" where
  "del_edge_format nonce m = unwords [show_request DelEdge, show_hex nonce, de_from m, de_to m]"

section \<open>Subnets\<close>

record subnet_msg =
  sm_owner :: string
  sm_subnet :: subnet

definition subnet_msg_parse :: "string \<Rightarrow> subnet_msg option" where
  "subnet_msg_parse line = do {
     (_, t) \<leftarrow> tok_skip line;
     (_, t) \<leftarrow> tok_skip t;
     (owner, t) \<leftarrow> tok_s t;
     if \<not> check_id owner then None
     else do {
       (s, t) \<leftarrow> tok_s t;
       subnet \<leftarrow> parse_subnet s;
       Some \<lparr>sm_owner = owner, sm_subnet = subnet\<rparr> } }"

definition subnet_msg_format :: "request \<Rightarrow> nat \<Rightarrow> subnet_msg \<Rightarrow> string" where
  "subnet_msg_format which nonce m =
     unwords [show_request which, show_hex nonce, sm_owner m, show_subnet (sm_subnet m)]"

section \<open>Keys\<close>

record key_changed_msg =
  kc_node :: string

definition key_changed_parse :: "string \<Rightarrow> key_changed_msg option" where
  "key_changed_parse line = do {
     (_, t) \<leftarrow> tok_skip line;
     (_, t) \<leftarrow> tok_skip t;
     (node, t) \<leftarrow> tok_s t;
     Some \<lparr>kc_node = node\<rparr> }"

definition key_changed_format :: "nat \<Rightarrow> key_changed_msg \<Rightarrow> string" where
  "key_changed_format nonce m = unwords [show_request KeyChanged, show_hex nonce, kc_node m]"

record req_key_ext =
  rke_reqno :: int
  rke_payload :: "string option"

record req_key_msg =
  rk_from :: string
  rk_to :: string
  rk_ext :: "req_key_ext option"
  rk_udp_addr :: "(string \<times> string) option"

definition req_key_parse :: "string \<Rightarrow> req_key_msg option" where
  "req_key_parse line = do {
     (_, t) \<leftarrow> tok_skip line;
     (from, t) \<leftarrow> tok_id t;
     (to, t) \<leftarrow> tok_id t;
     (reqno, t) \<leftarrow> tok_d_opt t;
     (ext, t) \<leftarrow> (case reqno of
        None \<Rightarrow> Some (None, t)
      | Some reqno \<Rightarrow> do {
          (payload, t) \<leftarrow> tok_s_opt t;
          Some (Some \<lparr>rke_reqno = reqno, rke_payload = payload\<rparr>, t) });
     (udp_addr, t) \<leftarrow> tok_addr_pair_opt t;
     Some \<lparr>rk_from = from, rk_to = to, rk_ext = ext, rk_udp_addr = udp_addr\<rparr> }"

definition req_key_format :: "req_key_msg \<Rightarrow> string" where
  "req_key_format m =
     unwords [show_request ReqKey, rk_from m, rk_to m]
     @ (case rk_ext m of
          None \<Rightarrow> []
        | Some e \<Rightarrow> '' '' @ show_int (rke_reqno e) @ (case rke_payload e of None \<Rightarrow> [] | Some p \<Rightarrow> '' '' @ p))
     @ (case rk_udp_addr m of None \<Rightarrow> [] | Some (a, p) \<Rightarrow> '' '' @ a @ '' '' @ p)"

record ans_key_msg =
  ak_from :: string
  ak_to :: string
  ak_key :: string
  ak_cipher :: int
  ak_digest :: int
  ak_maclen :: nat
  ak_compression :: int
  ak_udp_addr :: "(string \<times> string) option"

definition ans_key_parse :: "string \<Rightarrow> ans_key_msg option" where
  "ans_key_parse line = do {
     (_, t) \<leftarrow> tok_skip line;
     (from, t) \<leftarrow> tok_id t;
     (to, t) \<leftarrow> tok_id t;
     (key, t) \<leftarrow> tok_s t;
     (cipher, t) \<leftarrow> tok_d t;
     (digest, t) \<leftarrow> tok_d t;
     (maclen, t) \<leftarrow> tok_lu t;
     (compression, t) \<leftarrow> tok_d t;
     (udp_addr, t) \<leftarrow> tok_addr_pair_opt t;
     Some \<lparr>ak_from = from, ak_to = to, ak_key = key, ak_cipher = cipher, ak_digest = digest,
           ak_maclen = maclen, ak_compression = compression, ak_udp_addr = udp_addr\<rparr> }"

definition ans_key_format :: "ans_key_msg \<Rightarrow> string" where
  "ans_key_format m =
     unwords [show_request AnsKey, ak_from m, ak_to m, ak_key m, show_int (ak_cipher m), show_int (ak_digest m),
              show_int (int (ak_maclen m)), show_int (ak_compression m)]
     @ (case ak_udp_addr m of None \<Rightarrow> [] | Some (a, p) \<Rightarrow> '' '' @ a @ '' '' @ p)"

section \<open>Packets and hints\<close>

definition parse_len_prefix :: "string \<Rightarrow> nat option" where
  "parse_len_prefix line = do {
     (_, t) \<leftarrow> tok_skip line;
     (len, t) \<leftarrow> tok_hd t;
     if len < 0 then None else Some (nat len) }"

definition tcp_packet_parse :: "string \<Rightarrow> nat option" where
  "tcp_packet_parse = parse_len_prefix"

definition tcp_packet_format :: "nat \<Rightarrow> string" where
  "tcp_packet_format len = unwords [show_request Packet, show_int (int len)]"

definition sptps_packet_parse :: "string \<Rightarrow> nat option" where
  "sptps_packet_parse = parse_len_prefix"

definition sptps_packet_format :: "nat \<Rightarrow> string" where
  "sptps_packet_format len = unwords [show_request SptpsPacket, show_int (int len)]"

record udp_info_msg =
  ui_from :: string
  ui_to :: string
  ui_addr :: string
  ui_port :: string

definition udp_info_parse :: "string \<Rightarrow> udp_info_msg option" where
  "udp_info_parse line = do {
     (_, t) \<leftarrow> tok_skip line;
     (from, t) \<leftarrow> tok_id t;
     (to, t) \<leftarrow> tok_id t;
     (a, t) \<leftarrow> tok_s t; addr \<leftarrow> addr_new a;
     (p, t) \<leftarrow> tok_s t; port \<leftarrow> addr_new p;
     Some \<lparr>ui_from = from, ui_to = to, ui_addr = addr, ui_port = port\<rparr> }"

definition udp_info_format :: "udp_info_msg \<Rightarrow> string" where
  "udp_info_format m = unwords [show_request UdpInfo, ui_from m, ui_to m, ui_addr m, ui_port m]"

record mtu_info_msg =
  mi_from :: string
  mi_to :: string
  mi_mtu :: int
  mi_udp_rx_len :: nat

definition mtu_info_parse :: "string \<Rightarrow> mtu_info_msg option" where
  "mtu_info_parse line = do {
     (_, t) \<leftarrow> tok_skip line;
     (from, t) \<leftarrow> tok_id t;
     (to, t) \<leftarrow> tok_id t;
     (mtu, t) \<leftarrow> tok_d t;
     (rx, t) \<leftarrow> tok_d_opt t;
     let udp_rx_len = (case rx of None \<Rightarrow> 0 | Some v \<Rightarrow> if 0 \<le> v \<and> v \<le> 65535 then nat v else 0);
     Some \<lparr>mi_from = from, mi_to = to, mi_mtu = mtu, mi_udp_rx_len = udp_rx_len\<rparr> }"

definition mtu_info_format :: "mtu_info_msg \<Rightarrow> string" where
  "mtu_info_format m =
     (if mi_udp_rx_len m = 0 then unwords [show_request MtuInfo, mi_from m, mi_to m, show_int (mi_mtu m)]
      else unwords [show_request MtuInfo, mi_from m, mi_to m, show_int (mi_mtu m), show_int (int (mi_udp_rx_len m))])"

section \<open>Well-formed messages\<close>

definition pair_ok :: "(string \<times> string) option \<Rightarrow> bool" where
  "pair_ok ap \<longleftrightarrow> (case ap of None \<Rightarrow> True | Some (a, p) \<Rightarrow> token a \<and> token p)"

definition pair_words :: "(string \<times> string) option \<Rightarrow> string list" where
  "pair_words ap = (case ap of None \<Rightarrow> [] | Some (a, p) \<Rightarrow> [a, p])"

definition add_edge_ok :: "add_edge_msg \<Rightarrow> bool" where
  "add_edge_ok m \<longleftrightarrow> name_ok (ae_from m) \<and> name_ok (ae_to m) \<and> ae_from m \<noteq> ae_to m \<and> token (ae_addr m) \<and> token (ae_port m) \<and>
     ae_options m < 2 ^ 32 \<and> 0 \<le> ae_weight m \<and> ae_weight m \<le> 2147483647 \<and> pair_ok (ae_local m)"

definition del_edge_ok :: "del_edge_msg \<Rightarrow> bool" where
  "del_edge_ok m \<longleftrightarrow> name_ok (de_from m) \<and> name_ok (de_to m) \<and> de_from m \<noteq> de_to m"

definition subnet_msg_ok :: "subnet_msg \<Rightarrow> bool" where
  "subnet_msg_ok m \<longleftrightarrow> name_ok (sm_owner m) \<and> subnet_ok (sm_subnet m)"

definition key_changed_ok :: "key_changed_msg \<Rightarrow> bool" where
  "key_changed_ok m \<longleftrightarrow> token (kc_node m)"

definition req_key_ok :: "req_key_msg \<Rightarrow> bool" where
  "req_key_ok m \<longleftrightarrow> name_ok (rk_from m) \<and> name_ok (rk_to m) \<and> pair_ok (rk_udp_addr m) \<and>
     (case rk_ext m of None \<Rightarrow> rk_udp_addr m = None
      | Some e \<Rightarrow> i32_range (rke_reqno e) \<and> (case rke_payload e of None \<Rightarrow> rk_udp_addr m = None | Some p \<Rightarrow> token p))"

definition ans_key_ok :: "ans_key_msg \<Rightarrow> bool" where
  "ans_key_ok m \<longleftrightarrow> name_ok (ak_from m) \<and> name_ok (ak_to m) \<and> token (ak_key m) \<and> i32_range (ak_cipher m) \<and>
     i32_range (ak_digest m) \<and> ak_maclen m < 2 ^ 64 \<and> i32_range (ak_compression m) \<and> pair_ok (ak_udp_addr m)"

definition udp_info_ok :: "udp_info_msg \<Rightarrow> bool" where
  "udp_info_ok m \<longleftrightarrow> name_ok (ui_from m) \<and> name_ok (ui_to m) \<and> token (ui_addr m) \<and> token (ui_port m)"

definition mtu_info_ok :: "mtu_info_msg \<Rightarrow> bool" where
  "mtu_info_ok m \<longleftrightarrow> name_ok (mi_from m) \<and> name_ok (mi_to m) \<and> i32_range (mi_mtu m) \<and> mi_udp_rx_len m < 2 ^ 16"

section \<open>Printed messages read back\<close>

lemma pair_words_parse: "pair_ok ap \<Longrightarrow> tok_addr_pair_opt (blanks (pair_words ap)) = Some (ap, [])"
  by (auto simp: pair_ok_def pair_words_def tok_addr_pair split: option.splits)

lemma pair_words_blanks: "(case ap of None \<Rightarrow> [] | Some (a, p) \<Rightarrow> '' '' @ a @ '' '' @ p) = blanks (pair_words ap)"
  by (auto simp: pair_words_def blanks.simps split: option.splits)

lemmas line_simps = unwords_blanks pair_words_blanks blanks_append [symmetric]
lemmas tok_simps = tok_first tok_next tok_number addr_new_token name_ok_token token_show_request token_show_hex i32_range_def

definition add_edge_fields :: "add_edge_msg \<Rightarrow> string list" where
  "add_edge_fields m = [ae_from m, ae_to m, ae_addr m, ae_port m, show_hex (ae_options m), show_int (ae_weight m)] @ pair_words (ae_local m)"

lemma add_edge_line: "add_edge_format n m = show_request AddEdge @ blanks (show_hex n # add_edge_fields m)"
  by (simp add: add_edge_format_def add_edge_fields_def line_simps)

lemma add_edge_reads: "add_edge_ok m \<Longrightarrow> token w \<Longrightarrow> add_edge_parse (show_request AddEdge @ blanks (w # add_edge_fields m)) = Some m"
  using pair_words_parse [of "ae_local m"]
  by (simp add: add_edge_ok_def add_edge_parse_def add_edge_fields_def tok_simps)

definition del_edge_fields :: "del_edge_msg \<Rightarrow> string list" where
  "del_edge_fields m = [de_from m, de_to m]"

lemma del_edge_line: "del_edge_format n m = show_request DelEdge @ blanks (show_hex n # del_edge_fields m)"
  by (simp add: del_edge_format_def del_edge_fields_def line_simps)

lemma del_edge_reads: "del_edge_ok m \<Longrightarrow> token w \<Longrightarrow> del_edge_parse (show_request DelEdge @ blanks (w # del_edge_fields m)) = Some m"
  by (simp add: del_edge_ok_def del_edge_parse_def del_edge_fields_def tok_simps)

definition subnet_msg_fields :: "subnet_msg \<Rightarrow> string list" where
  "subnet_msg_fields m = [sm_owner m, show_subnet (sm_subnet m)]"

lemma subnet_msg_line: "subnet_msg_format r n m = show_request r @ blanks (show_hex n # subnet_msg_fields m)"
  by (simp add: subnet_msg_format_def subnet_msg_fields_def line_simps)

lemma token_show_subnet: "subnet_ok s \<Longrightarrow> token (show_subnet s)"
  using word_show_subnet [of s] length_show_subnet [of s] by (simp add: token_def MAX_STRING_def)

lemma subnet_msg_reads: "subnet_msg_ok m \<Longrightarrow> token w \<Longrightarrow> subnet_msg_parse (show_request r @ blanks (w # subnet_msg_fields m)) = Some m"
  by (simp add: subnet_msg_ok_def subnet_msg_parse_def subnet_msg_fields_def tok_simps token_show_subnet parse_show_subnet)

definition key_changed_fields :: "key_changed_msg \<Rightarrow> string list" where
  "key_changed_fields m = [kc_node m]"

lemma key_changed_line: "key_changed_format n m = show_request KeyChanged @ blanks (show_hex n # key_changed_fields m)"
  by (simp add: key_changed_format_def key_changed_fields_def line_simps)

lemma key_changed_reads: "key_changed_ok m \<Longrightarrow> token w \<Longrightarrow> key_changed_parse (show_request KeyChanged @ blanks (w # key_changed_fields m)) = Some m"
  by (simp add: key_changed_ok_def key_changed_parse_def key_changed_fields_def tok_simps)

lemma req_key_line:
  "req_key_format m = show_request ReqKey @ blanks ([rk_from m, rk_to m] @
     (case rk_ext m of None \<Rightarrow> [] | Some e \<Rightarrow> show_int (rke_reqno e) # (case rke_payload e of None \<Rightarrow> [] | Some p \<Rightarrow> [p])) @
     pair_words (rk_udp_addr m))"
proof -
  have "(case rk_ext m of None \<Rightarrow> [] | Some e \<Rightarrow> '' '' @ show_int (rke_reqno e) @ (case rke_payload e of None \<Rightarrow> [] | Some p \<Rightarrow> '' '' @ p))
      = blanks (case rk_ext m of None \<Rightarrow> [] | Some e \<Rightarrow> show_int (rke_reqno e) # (case rke_payload e of None \<Rightarrow> [] | Some p \<Rightarrow> [p]))"
    by (auto simp: blanks.simps split: option.splits)
  thus ?thesis unfolding req_key_format_def pair_words_blanks unwords_blanks by (simp add: blanks_append blanks.simps)
qed

lemma req_key_reads:
  assumes "req_key_ok m"
  shows "req_key_parse (req_key_format m) = Some m"
proof -
  have n: "name_ok (rk_from m)" "name_ok (rk_to m)" "pair_ok (rk_udp_addr m)" using assms by (simp_all add: req_key_ok_def)
  note u = pair_words_parse [OF n(3)]
  show ?thesis
  proof (cases "rk_ext m")
    case None
    hence "rk_udp_addr m = None" using assms by (simp add: req_key_ok_def)
    thus ?thesis unfolding req_key_line using None n by (simp add: req_key_parse_def tok_simps pair_words_def)
  next
    case (Some e)
    have r: "i32_range (rke_reqno e)" using assms Some by (simp add: req_key_ok_def)
    show ?thesis
    proof (cases "rke_payload e")
      case None
      hence "rk_udp_addr m = None" using assms Some by (simp add: req_key_ok_def)
      thus ?thesis unfolding req_key_line using Some None n r by (simp add: req_key_parse_def tok_simps pair_words_def)
    next
      case (Some p)
      hence "token p" using assms \<open>rk_ext m = Some e\<close> by (simp add: req_key_ok_def)
      thus ?thesis unfolding req_key_line using Some \<open>rk_ext m = Some e\<close> n r u by (simp add: req_key_parse_def tok_simps)
    qed
  qed
qed

lemma ans_key_reads:
  assumes "ans_key_ok m"
  shows "ans_key_parse (ans_key_format m) = Some m"
proof -
  have l: "ans_key_format m = show_request AnsKey @ blanks ([ak_from m, ak_to m, ak_key m, show_int (ak_cipher m), show_int (ak_digest m),
              show_int (int (ak_maclen m)), show_int (ak_compression m)] @ pair_words (ak_udp_addr m))"
    by (simp add: ans_key_format_def line_simps)
  have m: "tok_lu (blanks (show_int (int (ak_maclen m)) # ws)) = Some (ak_maclen m, blanks ws)" for ws
    using assms tok_number(5) by (simp add: ans_key_ok_def)
  show ?thesis unfolding l using assms pair_words_parse [of "ak_udp_addr m"] m
    by (simp add: ans_key_ok_def ans_key_parse_def tok_first tok_next tok_number(1) name_ok_token token_show_request i32_range_def)
qed

lemma len_prefix_reads:
  assumes "len < 2 ^ 15"
  shows "parse_len_prefix (unwords [show_request r, show_int (int len)]) = Some len"
  using assms tok_number(3) [of "int len" "[]"] by (simp add: parse_len_prefix_def unwords_blanks tok_first token_show_request)

lemma udp_info_reads: "udp_info_ok m \<Longrightarrow> udp_info_parse (udp_info_format m) = Some m"
  by (simp add: udp_info_ok_def udp_info_parse_def udp_info_format_def unwords_blanks tok_simps)

lemma mtu_info_reads: "mtu_info_ok m \<Longrightarrow> mtu_info_parse (mtu_info_format m) = Some m"
  by (simp add: mtu_info_ok_def mtu_info_parse_def mtu_info_format_def unwords_blanks tok_simps Let_def)

section \<open>All messages\<close>

datatype message =
    AddEdgeM add_edge_msg | DelEdgeM del_edge_msg | AddSubnetM subnet_msg | DelSubnetM subnet_msg
  | KeyChangedM key_changed_msg | ReqKeyM req_key_msg | AnsKeyM ans_key_msg | PacketM nat | SptpsPacketM nat
  | UdpInfoM udp_info_msg | MtuInfoM mtu_info_msg

fun request_of :: "message \<Rightarrow> request" where
  "request_of (AddEdgeM _) = AddEdge" | "request_of (DelEdgeM _) = DelEdge"
| "request_of (AddSubnetM _) = AddSubnet" | "request_of (DelSubnetM _) = DelSubnet"
| "request_of (KeyChangedM _) = KeyChanged" | "request_of (ReqKeyM _) = ReqKey" | "request_of (AnsKeyM _) = AnsKey"
| "request_of (PacketM _) = Packet" | "request_of (SptpsPacketM _) = SptpsPacket"
| "request_of (UdpInfoM _) = UdpInfo" | "request_of (MtuInfoM _) = MtuInfo"

fun format_message :: "nat \<Rightarrow> message \<Rightarrow> string" where
  "format_message n (AddEdgeM m) = add_edge_format n m"
| "format_message n (DelEdgeM m) = del_edge_format n m"
| "format_message n (AddSubnetM m) = subnet_msg_format AddSubnet n m"
| "format_message n (DelSubnetM m) = subnet_msg_format DelSubnet n m"
| "format_message n (KeyChangedM m) = key_changed_format n m"
| "format_message n (ReqKeyM m) = req_key_format m"
| "format_message n (AnsKeyM m) = ans_key_format m"
| "format_message n (PacketM len) = tcp_packet_format len"
| "format_message n (SptpsPacketM len) = sptps_packet_format len"
| "format_message n (UdpInfoM m) = udp_info_format m"
| "format_message n (MtuInfoM m) = mtu_info_format m"

text \<open>The parser the handler of a request runs.\<close>

fun parse_message :: "request \<Rightarrow> string \<Rightarrow> message option" where
  "parse_message AddEdge l = map_option AddEdgeM (add_edge_parse l)"
| "parse_message DelEdge l = map_option DelEdgeM (del_edge_parse l)"
| "parse_message AddSubnet l = map_option AddSubnetM (subnet_msg_parse l)"
| "parse_message DelSubnet l = map_option DelSubnetM (subnet_msg_parse l)"
| "parse_message KeyChanged l = map_option KeyChangedM (key_changed_parse l)"
| "parse_message ReqKey l = map_option ReqKeyM (req_key_parse l)"
| "parse_message AnsKey l = map_option AnsKeyM (ans_key_parse l)"
| "parse_message Packet l = map_option PacketM (tcp_packet_parse l)"
| "parse_message SptpsPacket l = map_option SptpsPacketM (sptps_packet_parse l)"
| "parse_message UdpInfo l = map_option UdpInfoM (udp_info_parse l)"
| "parse_message MtuInfo l = map_option MtuInfoM (mtu_info_parse l)"
| "parse_message _ l = None"

fun message_ok :: "message \<Rightarrow> bool" where
  "message_ok (AddEdgeM m) \<longleftrightarrow> add_edge_ok m"
| "message_ok (DelEdgeM m) \<longleftrightarrow> del_edge_ok m"
| "message_ok (AddSubnetM m) \<longleftrightarrow> subnet_msg_ok m"
| "message_ok (DelSubnetM m) \<longleftrightarrow> subnet_msg_ok m"
| "message_ok (KeyChangedM m) \<longleftrightarrow> key_changed_ok m"
| "message_ok (ReqKeyM m) \<longleftrightarrow> req_key_ok m"
| "message_ok (AnsKeyM m) \<longleftrightarrow> ans_key_ok m"
| "message_ok (PacketM len) \<longleftrightarrow> len < 2 ^ 15"
| "message_ok (SptpsPacketM len) \<longleftrightarrow> len < 2 ^ 15"
| "message_ok (UdpInfoM m) \<longleftrightarrow> udp_info_ok m"
| "message_ok (MtuInfoM m) \<longleftrightarrow> mtu_info_ok m"

section \<open>Parsed messages are well-formed\<close>

lemmas tok_results = tok_s_token tok_id_name tok_d_range tok_x_range tok_lu_range tok_s_opt_token tok_addr_pair_token

lemma pair_parsed: "tok_addr_pair_opt r = Some (ap, r') \<Longrightarrow> pair_ok ap"
  using tok_addr_pair_token by (auto simp: pair_ok_def split: option.splits)

lemma add_edge_parsed: "add_edge_parse l = Some m \<Longrightarrow> add_edge_ok m"
  by (auto simp: add_edge_parse_def add_edge_ok_def addr_new_token max_def
      split: bind_splits if_splits dest!: tok_id_name tok_x_range tok_d_range pair_parsed)

lemma del_edge_parsed: "del_edge_parse l = Some m \<Longrightarrow> del_edge_ok m"
  by (auto simp: del_edge_parse_def del_edge_ok_def split: bind_splits if_splits dest!: tok_id_name)

lemma subnet_msg_parsed: "subnet_msg_parse l = Some m \<Longrightarrow> subnet_msg_ok m"
  by (auto simp: subnet_msg_parse_def subnet_msg_ok_def name_ok_def token_def split: bind_splits if_splits
      dest!: parse_subnet_ok tok_s_token)

lemma key_changed_parsed: "key_changed_parse l = Some m \<Longrightarrow> key_changed_ok m"
  by (auto simp: key_changed_parse_def key_changed_ok_def split: bind_splits dest!: tok_s_token)

text \<open>When the optional token is missing, the line is exhausted and so is the pair after it.\<close>

lemma tok_s_opt_exhausted: "tok_s_opt r = Some (None, r') \<Longrightarrow> tok_addr_pair_opt r' = Some (ap, r'') \<Longrightarrow> ap = None"
  by (auto simp: tok_s_opt_def tok_addr_pair_opt_def split: option.splits if_splits bind_splits)

lemma tok_d_opt_exhausted: "tok_d_opt r = Some (None, r') \<Longrightarrow> tok_addr_pair_opt r' = Some (ap, r'') \<Longrightarrow> ap = None"
  using tok_s_opt_exhausted by (auto simp: tok_d_opt_def split: option.splits bind_splits)

lemma req_key_parsed:
  assumes "req_key_parse l = Some m"
  shows "req_key_ok m"
proof -
  obtain t n1 n2 reqno r1 ext r2 ap r3 where p: "tok_d_opt t = Some (reqno, r1)" "name_ok n1" "name_ok n2"
      "(case reqno of None \<Rightarrow> Some (None, r1) | Some reqno \<Rightarrow> do { (payload, t) \<leftarrow> tok_s_opt r1;
          Some (Some \<lparr>rke_reqno = reqno, rke_payload = payload\<rparr>, t) }) = Some (ext, r2)"
      "tok_addr_pair_opt r2 = Some (ap, r3)" "m = \<lparr>rk_from = n1, rk_to = n2, rk_ext = ext, rk_udp_addr = ap\<rparr>"
    using assms by (auto simp: req_key_parse_def split: bind_splits dest!: tok_id_name)
  show ?thesis
  proof (cases reqno)
    case None
    hence "ext = None" "r2 = r1" using p(4) by simp_all
    moreover have "ap = None" using p(1,5) None calculation(2) tok_d_opt_exhausted by auto
    ultimately show ?thesis using p by (simp add: req_key_ok_def pair_ok_def)
  next
    case (Some i)
    then obtain payload where e: "tok_s_opt r1 = Some (payload, r2)" "ext = Some \<lparr>rke_reqno = i, rke_payload = payload\<rparr>"
      using p(4) by (auto split: bind_splits)
    have "i32_range i" using p(1) Some tok_d_opt_range by (simp add: i32_range_def)
    thus ?thesis using p e tok_s_opt_exhausted [of r1 r2] tok_s_opt_token [of r1] pair_parsed
      by (auto simp: req_key_ok_def split: option.splits)
  qed
qed

lemma ans_key_parsed: "ans_key_parse l = Some m \<Longrightarrow> ans_key_ok m"
  by (auto simp: ans_key_parse_def ans_key_ok_def i32_range_def split: bind_splits
      dest!: tok_id_name tok_d_range tok_lu_range tok_s_token pair_parsed)

lemma len_prefix_parsed: "parse_len_prefix l = Some n \<Longrightarrow> n < 2 ^ 15"
  by (auto simp: parse_len_prefix_def split: bind_splits if_splits dest!: tok_hd_range)

lemma udp_info_parsed: "udp_info_parse l = Some m \<Longrightarrow> udp_info_ok m"
  by (auto simp: udp_info_parse_def udp_info_ok_def addr_new_token split: bind_splits if_splits dest!: tok_id_name)

lemma mtu_info_parsed: "mtu_info_parse l = Some m \<Longrightarrow> mtu_info_ok m"
  by (auto simp: mtu_info_parse_def mtu_info_ok_def i32_range_def Let_def nat_less_iff split: bind_splits option.splits if_splits
      dest!: tok_id_name tok_d_range)

lemma parse_message_ok: "parse_message r l = Some m \<Longrightarrow> message_ok m \<and> request_of m = r"
  by (cases r) (auto simp: add_edge_parsed del_edge_parsed subnet_msg_parsed key_changed_parsed req_key_parsed ans_key_parsed
      tcp_packet_parse_def sptps_packet_parse_def udp_info_parsed mtu_info_parsed dest!: len_prefix_parsed)

text \<open>
  C28: whatever line a peer sends, a message that parses is well-formed: valid node names, no edge from
  a node to itself, tokens without blanks and within the limit, every number within its width, a
  nonnegative weight, and relay addresses only where the format can carry them.
\<close>

theorem wire_typed:
  assumes "parse_message r line = Some m"
  shows "message_ok m \<and> request_of m = r"
  using assms by (rule parse_message_ok)

theorem wire_typed_witness:
  "parse_message DelEdge ''13 a alice bob'' = Some (DelEdgeM \<lparr>de_from = ''alice'', de_to = ''bob''\<rparr>) \<and>
   message_ok (DelEdgeM \<lparr>de_from = ''alice'', de_to = ''bob''\<rparr>) \<and> request_of (DelEdgeM \<lparr>de_from = ''alice'', de_to = ''bob''\<rparr>) = DelEdge"
proof -
  have "parse_message DelEdge ''13 a alice bob'' = Some (DelEdgeM \<lparr>de_from = ''alice'', de_to = ''bob''\<rparr>)"
    by (simp add: del_edge_parse_def tok_skip_def tok_id_def tok_s_def is_ascii_whitespace_def MAX_STRING_def check_id_def
        is_ascii_alphanumeric_def is_ascii_digit_def less_eq_char_def)
  thus ?thesis using wire_typed by blast
qed

text \<open>
  C27: every well-formed message survives the wire. The line it is formatted to announces its own
  request, and the handler of that request parses it back to the same message.
\<close>

theorem wire_roundtrip:
  assumes "message_ok m" "nonce < 2 ^ 32"
  shows "peek (format_message nonce m) = Some (request_of m) \<and> parse_message (request_of m) (format_message nonce m) = Some m"
proof -
  have n: "token (show_hex nonce)" by (rule token_show_hex [OF assms(2)])
  have "\<exists>ws. format_message nonce m = show_request (request_of m) @ blanks ws"
    by (cases m) (simp_all add: add_edge_line del_edge_line subnet_msg_line key_changed_line req_key_line ans_key_format_def
        tcp_packet_format_def sptps_packet_format_def udp_info_format_def mtu_info_format_def line_simps, blast+)
  moreover have "parse_message (request_of m) (format_message nonce m) = Some m"
    using assms(1) n by (cases m) (simp_all add: add_edge_line add_edge_reads del_edge_line del_edge_reads subnet_msg_line
        subnet_msg_reads key_changed_line key_changed_reads req_key_reads ans_key_reads tcp_packet_parse_def
        tcp_packet_format_def sptps_packet_parse_def sptps_packet_format_def len_prefix_reads udp_info_reads mtu_info_reads del: unwords.simps)
  ultimately show ?thesis using peek_request by auto
qed

definition demo_message :: message where
  "demo_message = AddEdgeM \<lparr>ae_from = ''alice'', ae_to = ''bob'', ae_addr = ''10.0.0.1'', ae_port = ''655'', ae_options = 0x7000000c,
     ae_weight = 42, ae_local = Some (''fe80::1'', ''655'')\<rparr>"

theorem wire_roundtrip_witness:
  "message_ok demo_message \<and> (0xa3f :: nat) < 2 ^ 32 \<and>
   peek (format_message 0xa3f demo_message) = Some (request_of demo_message) \<and>
   parse_message (request_of demo_message) (format_message 0xa3f demo_message) = Some demo_message"
proof -
  have "message_ok demo_message"
    by (simp add: demo_message_def add_edge_ok_def name_ok_def token_def word_def check_id_def pair_ok_def MAX_STRING_def
        is_ascii_whitespace_def is_ascii_alphanumeric_def is_ascii_digit_def less_eq_char_def)
  thus ?thesis using wire_roundtrip [of demo_message "0xa3f"] by simp
qed

end
