(* ===== verification/Clock.thy ===== *)
theory Clock
  imports Ordered_Map
begin

text \<open>
  The clock of the standard library as the daemon uses it: instants and durations are counted in
  nanoseconds. \<open>duration_since\<close> saturates at zero when the argument is later. \<open>Instant + Duration\<close>
  panics, and \<open>checked_add\<close> fails, beyond the last instant a signed 64-bit number of seconds can name.
\<close>

type_synonym instant = nat
type_synonym duration = nat

definition duration_since :: "instant \<Rightarrow> instant \<Rightarrow> duration" where
  "duration_since now earlier = now - earlier"

definition as_secs :: "duration \<Rightarrow> nat" where "as_secs d = d div 1000000000"
definition as_millis :: "duration \<Rightarrow> nat" where "as_millis d = d div 1000000"
definition as_micros :: "duration \<Rightarrow> nat" where "as_micros d = d div 1000"
definition from_secs :: "nat \<Rightarrow> duration" where "from_secs s = s * 1000000000"
definition from_micros :: "nat \<Rightarrow> duration" where "from_micros s = s * 1000"

definition fits_instant :: "nat \<Rightarrow> bool" where
  "fits_instant t \<longleftrightarrow> t < 2 ^ 63 * 1000000000"

lemma fits_instant_code [code]: "fits_instant t \<longleftrightarrow> int t < 9223372036854775808000000000"
  by (simp add: fits_instant_def)

definition checked_add :: "instant \<Rightarrow> duration \<Rightarrow> instant option" where
  "checked_add t d = (if fits_instant (t + d) then Some (t + d) else None)"

definition as_u32 :: "nat \<Rightarrow> nat" where
  "as_u32 n = n mod 2 ^ 32"

lemma as_u32_le: "as_u32 n \<le> n"
  by (simp add: as_u32_def)

end
