(* ===== verification/Rate_Limits.thy ===== *)
theory Rate_Limits
  imports Clock
begin

text \<open>
  The two rate limiters of the daemon: the token bucket on re-forwarded gossip of \<open>tincd/src/seen.rs\<close>
  and the leaky buckets with the tarpit ring of \<open>tincd/src/listen/tarpit.rs\<close>. Both promise the same:
  over any stretch of time, no more is admitted than the burst and one item per cost. The contract is
  a locale, proved once and interpreted for both.
\<close>

section \<open>The contract of a rate limiter\<close>

text \<open>How many of a sequence of events are admitted, and the state after it.\<close>

fun serve :: "('e \<Rightarrow> 's \<Rightarrow> bool \<times> 's) \<Rightarrow> 'e list \<Rightarrow> 's \<Rightarrow> nat \<times> 's" where
  "serve step [] s = (0, s)"
| "serve step (e # es) s = (let (ok, s1) = step e s; (n, s2) = serve step es s1 in (of_bool ok + n, s2))"

locale rate_limiter =
  fixes step :: "'e \<Rightarrow> 's \<Rightarrow> bool \<times> 's" and at :: "'e \<Rightarrow> instant" and credit :: "'s \<Rightarrow> nat"
    and clock :: "'s \<Rightarrow> instant" and good :: "'s \<Rightarrow> bool" and cost :: nat
  assumes step_good: "good s \<Longrightarrow> good (snd (step e s))"
    and step_clock: "good s \<Longrightarrow> clock s \<le> at e \<Longrightarrow> clock (snd (step e s)) \<le> at e"
    and step_pays: "good s \<Longrightarrow> clock s \<le> at e \<Longrightarrow>
      cost * (of_bool (fst (step e s)) + credit (snd (step e s))) + clock s \<le> cost * credit s + clock (snd (step e s))"
begin

lemma serve_bound:
  assumes "good s" "sorted (map at es)" "\<And>e. e \<in> set es \<Longrightarrow> clock s \<le> at e \<and> at e \<le> T" "clock s \<le> T"
  shows "cost * fst (serve step es s) \<le> cost * credit s + (T - clock s)"
  using assms
proof (induction es arbitrary: s)
  case (Cons e es)
  obtain ok s1 where st: "step e s = (ok, s1)" by fastforce
  have e: "clock s \<le> at e" "at e \<le> T" using Cons.prems(3) by auto
  have s1: "good s1" "clock s1 \<le> at e" "cost * (of_bool ok + credit s1) + clock s \<le> cost * credit s + clock s1"
    using step_good [OF Cons.prems(1), of e] step_clock [OF Cons.prems(1) e(1)] step_pays [OF Cons.prems(1) e(1)] st by auto
  have "clock s1 \<le> at e' \<and> at e' \<le> T" if "e' \<in> set es" for e'
    using that Cons.prems(2,3) s1(2) by (auto intro: order_trans)
  hence "cost * fst (serve step es s1) \<le> cost * credit s1 + (T - clock s1)"
    using Cons.IH [OF s1(1)] Cons.prems(2) s1(2) e(2) by simp
  moreover have "fst (serve step (e # es) s) = of_bool ok + fst (serve step es s1)" using st by (simp add: Let_def split_beta)
  ultimately show ?case using s1(3) s1(2) e(2) Cons.prems(4) by (simp add: distrib_left)
qed simp

end

lemma sorted_le_last: "sorted xs \<Longrightarrow> x \<in> set xs \<Longrightarrow> x \<le> List.last (xs :: 'a :: linorder list)"
  by (induction xs) auto

section \<open>The flood limiter\<close>

definition FLOOD_RATE_PER_SEC :: nat where "FLOOD_RATE_PER_SEC = 200"
definition FLOOD_BURST :: nat where "FLOOD_BURST = 1000"

record flood_limiter =
  fl_tokens :: nat
  fl_last_refill :: "instant option"
  fl_warned :: bool

definition flood_new :: flood_limiter where
  "flood_new = \<lparr>fl_tokens = FLOOD_BURST, fl_last_refill = None, fl_warned = False\<rparr>"

definition sat_add_u32 :: "nat \<Rightarrow> nat \<Rightarrow> nat" where
  "sat_add_u32 a b = min (a + b) 4294967295"

definition refill :: "instant \<Rightarrow> flood_limiter \<Rightarrow> flood_limiter" where
  "refill now f =
     (case fl_last_refill f of
        None \<Rightarrow> f\<lparr>fl_last_refill := Some now\<rparr>
      | Some since \<Rightarrow>
          let elapsed = duration_since now since;
              add = as_u32 (min (FLOOD_RATE_PER_SEC * as_millis elapsed div 1000) FLOOD_BURST)
          in if 0 < add
             then f\<lparr>fl_tokens := min (sat_add_u32 (fl_tokens f) add) FLOOD_BURST, fl_last_refill := Some now, fl_warned := False\<rparr>
             else f)"

definition allow :: "instant \<Rightarrow> flood_limiter \<Rightarrow> bool \<times> flood_limiter" where
  "allow now f =
     (let f = refill now f
      in if 0 < fl_tokens f then (True, f\<lparr>fl_tokens := fl_tokens f - 1\<rparr>) else (False, f))"

definition should_warn :: "flood_limiter \<Rightarrow> bool \<times> flood_limiter" where
  "should_warn f = (if fl_warned f then (False, f) else (True, f\<lparr>fl_warned := True\<rparr>))"

definition flood_clock :: "flood_limiter \<Rightarrow> instant" where
  "flood_clock f = (case fl_last_refill f of None \<Rightarrow> 0 | Some t \<Rightarrow> t)"

definition flood_good :: "flood_limiter \<Rightarrow> bool" where
  "flood_good f \<longleftrightarrow> fl_tokens f \<le> FLOOD_BURST \<and> fl_last_refill f \<noteq> None"

text \<open>One token per five milliseconds: what \<open>add\<close> grants never exceeds the elapsed time.\<close>

lemma refill_pays:
  assumes "fl_last_refill f = Some since" "since \<le> now"
  shows "5000000 * fl_tokens (refill now f) + since \<le> 5000000 * fl_tokens f + flood_clock (refill now f)"
proof -
  define add where "add = as_u32 (min (FLOOD_RATE_PER_SEC * as_millis (duration_since now since) div 1000) FLOOD_BURST)"
  have "add \<le> FLOOD_RATE_PER_SEC * as_millis (duration_since now since) div 1000"
    unfolding add_def by (rule order_trans [OF as_u32_le]) simp
  hence "add * 1000 \<le> 200 * ((now - since) div 1000000)"
    by (simp add: FLOOD_RATE_PER_SEC_def as_millis_def duration_since_def less_eq_div_iff_mult_less_eq)
  hence "5000000 * add \<le> now - since" by linarith
  moreover have "5000000 * min (sat_add_u32 (fl_tokens f) add) FLOOD_BURST \<le> 5000000 * fl_tokens f + 5000000 * add"
    by (simp add: sat_add_u32_def min_def)
  ultimately show ?thesis using assms
    by (auto simp: refill_def Let_def add_def [symmetric] flood_clock_def)
qed

lemma refill_good: "fl_tokens f \<le> FLOOD_BURST \<Longrightarrow> flood_good (refill now f)"
  by (auto simp: refill_def flood_good_def Let_def split: option.splits)

interpretation flood: rate_limiter allow "\<lambda>now. now" fl_tokens flood_clock flood_good 5000000
proof unfold_locales
  fix f now
  assume g: "flood_good f"
  obtain since where l: "fl_last_refill f = Some since" using g by (auto simp: flood_good_def)
  have rg: "flood_good (refill now f)" using g by (intro refill_good) (simp add: flood_good_def)
  have a: "allow now f = (0 < fl_tokens (refill now f), (refill now f)\<lparr>fl_tokens := fl_tokens (refill now f) - 1\<rparr>)"
    by (simp add: allow_def Let_def)
  show "flood_good (snd (allow now f))" using rg by (auto simp: a flood_good_def)
  have cl: "flood_clock (snd (allow now f)) = flood_clock (refill now f)" by (simp add: a flood_clock_def)
  have fc: "flood_clock f = since" using l by (simp add: flood_clock_def)
  assume le: "flood_clock f \<le> now"
  have "flood_clock (refill now f) \<le> now" using le l by (auto simp: refill_def flood_clock_def Let_def)
  thus "flood_clock (snd (allow now f)) \<le> now" using cl by simp
  have "5000000 * fl_tokens (refill now f) + since \<le> 5000000 * fl_tokens f + flood_clock (refill now f)"
    using refill_pays [OF l] le fc by simp
  moreover have "of_bool (fst (allow now f)) + fl_tokens (snd (allow now f)) = fl_tokens (refill now f)"
    by (simp add: a of_bool_def)
  ultimately show "5000000 * (of_bool (fst (allow now f)) + fl_tokens (snd (allow now f))) + flood_clock f
      \<le> 5000000 * fl_tokens f + flood_clock (snd (allow now f))" using fc cl by simp
qed

lemma allow_new: "allow now flood_new = (True, \<lparr>fl_tokens = 999, fl_last_refill = Some now, fl_warned = False\<rparr>)"
  by (simp add: allow_def flood_new_def refill_def FLOOD_BURST_def)

text \<open>
  A fresh flood limiter lets through at most its burst and one further message per five
  milliseconds (200 a second) between the first and the last message, whatever their spacing.
\<close>

lemma flood_rate_bound:
  assumes "sorted (t # ts)"
  shows "fst (serve allow (t # ts) flood_new) \<le> FLOOD_BURST + (List.last (t # ts) - t) div 5000000"
proof -
  let ?f = "\<lparr>fl_tokens = 999, fl_last_refill = Some t, fl_warned = False\<rparr>" and ?T = "List.last (t # ts)"
  have "flood_good ?f" "flood_clock ?f = t" by (simp_all add: flood_good_def FLOOD_BURST_def flood_clock_def)
  moreover have "t \<le> x \<and> x \<le> ?T" if "x \<in> set (t # ts)" for x
    using that assms sorted_le_last [OF assms that] by auto
  ultimately have "5000000 * fst (serve allow ts ?f) \<le> 5000000 * 999 + (?T - t)"
    using flood.serve_bound [of ?f ts ?T] assms by simp
  hence "fst (serve allow ts ?f) \<le> 999 + (?T - t) div 5000000" by linarith
  moreover have "fst (serve allow (t # ts) flood_new) = 1 + fst (serve allow ts ?f)"
    by (simp add: allow_new Let_def split_beta)
  ultimately show ?thesis by (simp add: FLOOD_BURST_def)
qed

text \<open>A message that comes five milliseconds after the last refill always passes.\<close>

lemma allow_after_pause:
  assumes "fl_last_refill f = Some since" "since + 5000000 \<le> now" "fl_tokens f \<le> FLOOD_BURST"
  shows "fst (allow now f)"
proof -
  define ms where "ms = as_millis (duration_since now since)"
  have "5 \<le> ms" using assms(2) by (simp add: ms_def as_millis_def duration_since_def less_eq_div_iff_mult_less_eq)
  hence "1 \<le> FLOOD_RATE_PER_SEC * ms div 1000" by (simp add: FLOOD_RATE_PER_SEC_def less_eq_div_iff_mult_less_eq)
  hence "1 \<le> min (FLOOD_RATE_PER_SEC * ms div 1000) FLOOD_BURST" by (simp add: FLOOD_BURST_def)
  moreover have "min (FLOOD_RATE_PER_SEC * ms div 1000) FLOOD_BURST \<le> 1000" by (simp add: FLOOD_BURST_def)
  ultimately have "0 < as_u32 (min (FLOOD_RATE_PER_SEC * ms div 1000) FLOOD_BURST)" by (simp add: as_u32_def)
  thus ?thesis using assms(1) by (simp add: allow_def refill_def Let_def ms_def sat_add_u32_def FLOOD_BURST_def)
qed

section \<open>The tarpit\<close>

definition PIT_SIZE :: nat where "PIT_SIZE = 10"

type_synonym 'ip socket_addr = "'ip \<times> nat"

record ('ip, 'fd) tarpit =
  prev_addr :: "'ip socket_addr option"
  samehost_burst :: nat
  samehost_time :: instant
  allhost_burst :: nat
  allhost_time :: instant
  max_burst :: nat
  pits :: "'fd option list"
  next_pit :: nat

definition tarpit_new :: "instant \<Rightarrow> nat \<Rightarrow> ('ip, 'fd) tarpit" where
  "tarpit_new now mb = \<lparr>prev_addr = None, samehost_burst = 0, samehost_time = now, allhost_burst = 0,
     allhost_time = now, max_burst = mb, pits = replicate PIT_SIZE None, next_pit = 0\<rparr>"

definition leak :: "nat \<Rightarrow> instant \<Rightarrow> instant \<Rightarrow> nat" where
  "leak burst now since = (burst - as_u32 (as_secs (duration_since now since)) + 1) mod 2 ^ 32"

definition tarpit_check :: "'ip socket_addr \<Rightarrow> instant \<Rightarrow> ('ip, 'fd) tarpit \<Rightarrow> bool \<times> ('ip, 'fd) tarpit" where
  "tarpit_check addr now t =
     (let same_host = (case prev_addr t of None \<Rightarrow> False | Some p \<Rightarrow> fst p = fst addr);
          t = (if same_host
               then t\<lparr>samehost_burst := leak (samehost_burst t) now (samehost_time t), samehost_time := now\<rparr>
               else t)
      in if same_host \<and> max_burst t < samehost_burst t then (True, t)
         else
           let t = t\<lparr>prev_addr := Some addr\<rparr>;
               t = t\<lparr>allhost_burst := leak (allhost_burst t) now (allhost_time t), allhost_time := now\<rparr>
           in if max_burst t \<le> allhost_burst t then (True, t\<lparr>allhost_burst := max_burst t\<rparr>) else (False, t))"

definition tarpit_pit :: "'fd \<Rightarrow> ('ip, 'fd) tarpit \<Rightarrow> ('fd option \<times> ('ip, 'fd) tarpit) option" where
  "tarpit_pit fd t =
     (if next_pit t < length (pits t)
      then Some (pits t ! next_pit t, t\<lparr>pits := (pits t)[next_pit t := Some fd], next_pit := (next_pit t + 1) mod PIT_SIZE\<rparr>)
      else None)"

definition tarpit_good :: "('ip, 'fd) tarpit \<Rightarrow> bool" where
  "tarpit_good t \<longleftrightarrow> allhost_burst t \<le> max_burst t \<and> max_burst t + 1 < 2 ^ 32"

definition tarpit_admit :: "'ip socket_addr \<times> instant \<Rightarrow> ('ip, 'fd) tarpit \<Rightarrow> bool \<times> ('ip, 'fd) tarpit" where
  "tarpit_admit e t = (let (pitted, t1) = tarpit_check (fst e) (snd e) t in (\<not> pitted, t1))"

lemma leak_pays:
  assumes "burst + 1 < 2 ^ 32" "since \<le> now" "leak burst now since < mb"
  shows "1000000000 * (1 + (mb - 1 - leak burst now since)) + since \<le> 1000000000 * (mb - 1 - burst) + now"
proof -
  define e where "e = as_u32 (as_secs (duration_since now since))"
  have "e \<le> (now - since) div 1000000000"
    using as_u32_le [of "as_secs (duration_since now since)"] by (simp add: e_def as_secs_def duration_since_def)
  hence "1000000000 * e \<le> now - since" by linarith
  moreover have "leak burst now since = burst - e + 1" using assms(1) by (simp add: leak_def e_def)
  moreover have "1 + (mb - 1 - (burst - e + 1)) \<le> (mb - 1 - burst) + e" if "burst - e + 1 < mb" using that by arith
  ultimately have "1000000000 * (1 + (mb - 1 - leak burst now since)) \<le> 1000000000 * (mb - 1 - burst) + (now - since)"
    using assms(3) by fastforce
  thus ?thesis using assms(2) by simp
qed

lemma tarpit_check_cases:
  assumes "tarpit_check addr now t = (pitted, u)"
  obtains (same) "pitted" "allhost_burst u = allhost_burst t" "allhost_time u = allhost_time t" "max_burst u = max_burst t"
  | (all) "allhost_time u = now" "max_burst u = max_burst t"
      "pitted \<longleftrightarrow> max_burst t \<le> leak (allhost_burst t) now (allhost_time t)"
      "allhost_burst u = (if pitted then max_burst t else leak (allhost_burst t) now (allhost_time t))"
proof -
  define same where "same = (case prev_addr t of None \<Rightarrow> False | Some p \<Rightarrow> fst p = fst addr)"
  define v where "v = (if same then t\<lparr>samehost_burst := leak (samehost_burst t) now (samehost_time t), samehost_time := now\<rparr> else t)"
  have v: "allhost_burst v = allhost_burst t" "allhost_time v = allhost_time t" "max_burst v = max_burst t" by (simp_all add: v_def)
  have c: "tarpit_check addr now t =
      (if same \<and> max_burst v < samehost_burst v then (True, v)
       else let u = v\<lparr>prev_addr := Some addr, allhost_burst := leak (allhost_burst v) now (allhost_time v), allhost_time := now\<rparr>
            in if max_burst u \<le> allhost_burst u then (True, u\<lparr>allhost_burst := max_burst u\<rparr>) else (False, u))"
    unfolding tarpit_check_def Let_def same_def [symmetric] v_def [symmetric] by simp
  show thesis
  proof (cases "same \<and> max_burst v < samehost_burst v")
    case True
    thus thesis using same c assms v by simp
  next
    case False
    show thesis
    proof (rule all)
      show "allhost_time u = now" "max_burst u = max_burst t"
        "pitted \<longleftrightarrow> max_burst t \<le> leak (allhost_burst t) now (allhost_time t)"
        "allhost_burst u = (if pitted then max_burst t else leak (allhost_burst t) now (allhost_time t))"
        using False c assms v by (auto simp: Let_def split: if_splits)
    qed
  qed
qed

interpretation pit: rate_limiter tarpit_admit snd "\<lambda>t. max_burst t - 1 - allhost_burst t" allhost_time tarpit_good 1000000000
proof unfold_locales
  fix t :: "('ip, 'fd) tarpit" and e :: "'ip socket_addr \<times> instant"
  assume g: "tarpit_good t"
  obtain pitted u where c: "tarpit_check (fst e) (snd e) t = (pitted, u)" by fastforce
  hence a: "tarpit_admit e t = (\<not> pitted, u)" by (simp add: tarpit_admit_def)
  show "tarpit_good (snd (tarpit_admit e t))" using c
    by (cases rule: tarpit_check_cases) (use g a in \<open>auto simp: tarpit_good_def\<close>)
  assume le: "allhost_time t \<le> snd e"
  show "allhost_time (snd (tarpit_admit e t)) \<le> snd e" using c
    by (cases rule: tarpit_check_cases) (use a le in auto)
  show "1000000000 * (of_bool (fst (tarpit_admit e t)) +
           (max_burst (snd (tarpit_admit e t)) - 1 - allhost_burst (snd (tarpit_admit e t)))) + allhost_time t
        \<le> 1000000000 * (max_burst t - 1 - allhost_burst t) + allhost_time (snd (tarpit_admit e t))" using c
  proof (cases rule: tarpit_check_cases)
    case all
    show ?thesis
    proof (cases pitted)
      case False
      have "allhost_burst t + 1 < 2 ^ 32" using g by (simp add: tarpit_good_def)
      from leak_pays [OF this le, of "max_burst t"] show ?thesis using False all a by simp
    qed (use all a le in simp)
  qed (use a in simp)
qed

text \<open>
  From its start, the tarpit admits fewer connections than the configured burst and one per
  second, over any sequence of peers and ports; all others are pitted.
\<close>

lemma tarpit_rate_bound:
  fixes es :: "('ip socket_addr \<times> instant) list"
  assumes "mb + 1 < 2 ^ 32" "sorted (map snd es)" "list_all (\<lambda>e. now \<le> snd e \<and> snd e \<le> T) es" "now \<le> T"
  shows "fst (serve tarpit_admit es (tarpit_new now mb :: ('ip, 'fd) tarpit)) \<le> (mb - 1) + (T - now) div 1000000000"
proof -
  have "tarpit_good (tarpit_new now mb :: ('ip, 'fd) tarpit)" "allhost_time (tarpit_new now mb :: ('ip, 'fd) tarpit) = now"
    using assms(1) by (simp_all add: tarpit_good_def tarpit_new_def)
  hence "1000000000 * fst (serve tarpit_admit es (tarpit_new now mb :: ('ip, 'fd) tarpit)) \<le> 1000000000 * (mb - 1) + (T - now)"
    using pit.serve_bound [of "tarpit_new now mb :: ('ip, 'fd) tarpit" es T] assms(2-4) by (auto simp: tarpit_new_def list_all_iff)
  thus ?thesis by linarith
qed

definition demo_conns :: "(nat socket_addr \<times> instant) list" where
  "demo_conns = [((1, 655), 5), ((1, 656), 7)]"

text \<open>
  The pit is a ring of the last ten descriptors: none is evicted before ten later ones came.
\<close>

fun pit_all :: "'fd list \<Rightarrow> ('ip, 'fd) tarpit \<Rightarrow> ('ip, 'fd) tarpit option" where
  "pit_all [] t = Some t"
| "pit_all (fd # fds) t = do { (old, t) \<leftarrow> tarpit_pit fd t; pit_all fds t }"

lemma pit_all_append: "pit_all (a @ b) t = do { t \<leftarrow> pit_all a t; pit_all b t }"
  by (induction a arbitrary: t) (auto split: bind_splits)

lemma pit_all_ring:
  "\<exists>t :: ('ip, 'fd) tarpit. pit_all fds (tarpit_new now mb) = Some t \<and> length (pits t) = PIT_SIZE \<and> next_pit t = length fds mod PIT_SIZE \<and>
     (\<forall>i < length fds. length fds \<le> i + PIT_SIZE \<longrightarrow> pits t ! (i mod PIT_SIZE) = Some (fds ! i))"
proof (induction fds rule: rev_induct)
  case Nil
  show ?case by (simp add: tarpit_new_def)
next
  case (snoc fd fds)
  then obtain t :: "('ip, 'fd) tarpit" where t: "pit_all fds (tarpit_new now mb) = Some t" "length (pits t) = PIT_SIZE"
      "next_pit t = length fds mod PIT_SIZE"
      "\<forall>i < length fds. length fds \<le> i + PIT_SIZE \<longrightarrow> pits t ! (i mod PIT_SIZE) = Some (fds ! i)" by blast
  let ?u = "t\<lparr>pits := (pits t)[next_pit t := Some fd], next_pit := (next_pit t + 1) mod PIT_SIZE\<rparr>"
  have np: "next_pit t < PIT_SIZE" using t(3) by (simp add: PIT_SIZE_def)
  have u: "pit_all (fds @ [fd]) (tarpit_new now mb) = Some ?u" using t(1,2) np by (simp add: pit_all_append tarpit_pit_def)
  have "pits ?u ! (i mod PIT_SIZE) = Some ((fds @ [fd]) ! i)" if i: "i < Suc (length fds)" "Suc (length fds) \<le> i + PIT_SIZE" for i
  proof (cases "i = length fds")
    case True
    thus ?thesis using np t(2,3) by simp
  next
    case False
    hence lt: "i < length fds" "length fds < i + PIT_SIZE" using i by simp_all
    have "i mod PIT_SIZE \<noteq> length fds mod PIT_SIZE"
    proof
      assume "i mod PIT_SIZE = length fds mod PIT_SIZE"
      hence "PIT_SIZE dvd length fds - i" using lt(1) mod_eq_dvd_iff_nat [of i "length fds" PIT_SIZE] by simp
      thus False using lt by (auto dest: dvd_imp_le)
    qed
    thus ?thesis using t(3,4) lt by (simp add: nth_append)
  qed
  moreover have "next_pit ?u = length (fds @ [fd]) mod PIT_SIZE" using t(3) by (simp add: mod_Suc_eq)
  ultimately show ?case using u t(2) by (intro exI [of _ ?u]) simp
qed

text \<open>
  The same-host bucket has no clamp: it does not stop one above the burst, as the comment in \<open>check\<close>
  says, but grows with every further attempt of the same peer, each of which is pitted.
\<close>

fun checks :: "('ip socket_addr \<times> instant) list \<Rightarrow> ('ip, 'fd) tarpit \<Rightarrow> ('ip, 'fd) tarpit" where
  "checks [] t = t"
| "checks (e # es) t = checks es (snd (tarpit_check (fst e) (snd e) t))"

lemma samehost_step:
  assumes "prev_addr t = Some p" "fst p = fst a" "samehost_time t = now" "u = snd (tarpit_check a now t)"
  shows "\<exists>q. prev_addr u = Some q \<and> fst q = fst a" "samehost_time u = now" "samehost_burst u = (samehost_burst t + 1) mod 2 ^ 32"
proof -
  have "leak (samehost_burst t) now now = (samehost_burst t + 1) mod 2 ^ 32"
    by (simp only: leak_def duration_since_def diff_self_eq_0 as_secs_def as_u32_def div_0 mod_0 diff_zero)
  hence "(\<exists>q. prev_addr u = Some q \<and> fst q = fst a) \<and> samehost_time u = now \<and> samehost_burst u = (samehost_burst t + 1) mod 2 ^ 32"
    using assms by (cases p; cases a) (simp add: tarpit_check_def Let_def)
  thus "\<exists>q. prev_addr u = Some q \<and> fst q = fst a" "samehost_time u = now" "samehost_burst u = (samehost_burst t + 1) mod 2 ^ 32"
    by blast+
qed

lemma samehost_unbounded:
  fixes a :: "'ip socket_addr"
  assumes "n < 2 ^ 32"
  shows "samehost_burst (checks (replicate (Suc n) (a, now)) (tarpit_new now mb :: ('ip, 'fd) tarpit)) = n"
proof -
  have run: "samehost_burst (checks (replicate k (a, now)) t) = (samehost_burst t + k) mod 2 ^ 32"
    if "prev_addr t = Some p" "fst p = fst a" "samehost_time t = now" "samehost_burst t < 2 ^ 32" for k p and t :: "('ip, 'fd) tarpit"
    using that
  proof (induction k arbitrary: t p)
    case (Suc k)
    let ?u = "snd (tarpit_check a now t)"
    obtain q where q: "prev_addr ?u = Some q" "fst q = fst a" "samehost_time ?u = now"
      "samehost_burst ?u = (samehost_burst t + 1) mod 2 ^ 32" using samehost_step [OF Suc.prems(1-3) refl] by blast
    have "samehost_burst ?u < 2 ^ 32" unfolding q(4) by (rule mod_less_divisor) simp
    hence "samehost_burst (checks (replicate k (a, now)) ?u) = (samehost_burst ?u + k) mod 2 ^ 32" by (rule Suc.IH [OF q(1-3)])
    moreover have "(samehost_burst ?u + k) mod 2 ^ 32 = (samehost_burst t + Suc k) mod 2 ^ 32"
      unfolding q(4) mod_add_left_eq by (simp only: add_Suc add_Suc_right Suc_eq_plus1 add.assoc add.commute add.left_commute)
    ultimately show ?case by simp
  qed simp
  let ?t = "snd (tarpit_check a now (tarpit_new now mb :: ('ip, 'fd) tarpit))"
  have "prev_addr ?t = Some a" "samehost_time ?t = now" "samehost_burst ?t = 0"
    by (simp_all add: tarpit_check_def tarpit_new_def Let_def)
  thus ?thesis using run [of ?t a n] assms by simp
qed

end
