(* ===== verification/Meta_Conn.thy ===== *)
theory Meta_Conn
  imports Sptps_Data Wire_Msg Rate_Limits
begin

text \<open>
  The meta connection of \<open>tincd/src/conn.rs\<close>: the line buffer, the capped output queue, sending a
  line through the session and feeding received bytes, with the raw blobs that follow an
  \<open>SPTPS_PACKET\<close> line outside the record framing. System calls are arguments: \<open>feed\<close> takes what
  \<open>read\<close> returned, \<open>flush\<close> what \<open>send\<close> accepted. \<open>None\<close> is a panic.
\<close>

section \<open>Text and bytes\<close>

text \<open>
  A \<open>str\<close> is its bytes, one character each; \<open>from_utf8\<close> is the validation of the standard library
  (shortest form, no surrogates, at most U+10FFFF).
\<close>

definition as_bytes :: "string \<Rightarrow> bytes" where
  "as_bytes s = map (\<lambda>c. of_nat (of_char c)) s"

definition in_range :: "nat \<Rightarrow> nat \<Rightarrow> u8 \<Rightarrow> bool" where
  "in_range lo hi b \<longleftrightarrow> lo \<le> unat b \<and> unat b \<le> hi"

definition cont :: "u8 \<Rightarrow> bool" where
  "cont = in_range 0x80 0xBF"

fun utf8_ok :: "bytes \<Rightarrow> bool" where
  "utf8_ok [] = True"
| "utf8_ok (a # r) =
     (if in_range 0 0x7F a then utf8_ok r
      else case r of [] \<Rightarrow> False | b # r2 \<Rightarrow>
      if in_range 0xC2 0xDF a then cont b \<and> utf8_ok r2
      else case r2 of [] \<Rightarrow> False | c # r3 \<Rightarrow>
      if in_range 0xE0 0xEF a then
        (if unat a = 0xE0 then in_range 0xA0 0xBF b else if unat a = 0xED then in_range 0x80 0x9F b else cont b)
        \<and> cont c \<and> utf8_ok r3
      else case r3 of [] \<Rightarrow> False | d # r4 \<Rightarrow>
      in_range 0xF0 0xF4 a \<and>
        (if unat a = 0xF0 then in_range 0x90 0xBF b else if unat a = 0xF4 then in_range 0x80 0x8F b else cont b)
        \<and> cont c \<and> cont d \<and> utf8_ok r4)"

definition from_utf8 :: "bytes \<Rightarrow> string option" where
  "from_utf8 b = (if utf8_ok b then Some (map (\<lambda>x. char_of (unat x)) b) else None)"

section \<open>The line buffer\<close>

text \<open>\<open>lb_cap\<close> is the capacity of the vector, which grows as the standard library's vectors of bytes do.\<close>

record line_buf =
  lb_data :: bytes
  lb_offset :: nat
  lb_cap :: nat

definition vec_grow :: "nat \<Rightarrow> nat \<Rightarrow> nat" where
  "vec_grow cap need = (if need \<le> cap then cap else max 8 (max (2 * cap) need))"

definition lb_new :: line_buf where
  "lb_new = \<lparr>lb_data = [], lb_offset = 0, lb_cap = 0\<rparr>"

definition lb_extend :: "bytes \<Rightarrow> line_buf \<Rightarrow> line_buf" where
  "lb_extend bs b = b\<lparr>lb_data := lb_data b @ bs, lb_cap := vec_grow (lb_cap b) (length (lb_data b) + length bs)\<rparr>"

definition lb_add :: "bytes \<Rightarrow> line_buf \<Rightarrow> line_buf" where
  "lb_add bs b = lb_extend bs
     (if 0 < lb_offset b \<and> lb_cap b < length (lb_data b) + length bs
      then b\<lparr>lb_data := drop (lb_offset b) (lb_data b), lb_offset := 0\<rparr> else b)"

definition lb_live :: "line_buf \<Rightarrow> bytes" where
  "lb_live b = drop (lb_offset b) (lb_data b)"

definition lb_live_len :: "line_buf \<Rightarrow> nat" where
  "lb_live_len b = length (lb_data b) - lb_offset b"

definition lb_is_empty :: "line_buf \<Rightarrow> bool" where
  "lb_is_empty b \<longleftrightarrow> length (lb_data b) \<le> lb_offset b"

definition lb_read_line :: "line_buf \<Rightarrow> ((nat \<times> nat) \<times> line_buf) option" where
  "lb_read_line b =
     (let live = lb_live b; nl = length (takeWhile (\<lambda>x. x \<noteq> 10) live)
      in if nl < length live
         then Some ((lb_offset b, lb_offset b + nl), b\<lparr>lb_offset := lb_offset b + nl + 1\<rparr>) else None)"

definition lb_read_n :: "nat \<Rightarrow> line_buf \<Rightarrow> ((nat \<times> nat) \<times> line_buf) option" where
  "lb_read_n n b =
     (if lb_live_len b < n then None
      else Some ((lb_offset b, lb_offset b + n), b\<lparr>lb_offset := lb_offset b + n\<rparr>))"

definition lb_consume :: "nat \<Rightarrow> line_buf \<Rightarrow> line_buf" where
  "lb_consume n b =
     (let b = b\<lparr>lb_offset := lb_offset b + n\<rparr>
      in if length (lb_data b) \<le> lb_offset b then b\<lparr>lb_data := [], lb_offset := 0\<rparr> else b)"

definition lb_take_rest :: "line_buf \<Rightarrow> bytes \<times> line_buf" where
  "lb_take_rest b = (lb_live b, b\<lparr>lb_data := [], lb_offset := 0\<rparr>)"

definition lb_slice :: "nat \<times> nat \<Rightarrow> line_buf \<Rightarrow> bytes" where
  "lb_slice r b = take (snd r - fst r) (drop (fst r) (lb_data b))"

section \<open>The connection\<close>

datatype ip_addr = IpV4 bytes | IpV6 bytes

type_synonym sock_addr = "ip_addr \<times> nat"

datatype invite_phase = WaitingCookie | WaitingPubkey string | Done

record connection =
  c_inbuf :: line_buf
  c_outbuf :: line_buf
  c_dead :: bool
  c_allow_request :: "request option"
  c_control :: bool
  c_is_unix_ctl :: bool
  c_pcap :: bool
  c_pcap_snaplen :: nat
  c_invite :: "invite_phase option"
  c_name :: string
  c_hostname :: string
  c_last_ping_time :: instant
  c_protocol_minor :: nat
  c_ecdsa :: "bytes option"
  c_sptps :: "sptps option"
  c_options :: u32
  c_estimated_weight :: int
  c_start :: instant
  c_address :: "sock_addr option"
  c_active :: bool
  c_counted_pending :: bool
  c_activated_at :: "instant option"
  c_pinged :: bool
  c_last_ping_sent :: "instant option"
  c_ping_rtt_ms :: nat
  c_srtt_ms :: nat
  c_last_weight_gossip :: "instant option"
  c_connecting :: bool
  c_outgoing :: "nat option"
  c_tcplen :: nat
  c_sptpslen :: nat
  c_sptps_buf :: bytes
  c_host_indirect :: "bool option"
  c_host_tcponly :: "bool option"
  c_host_clamp_mss :: "bool option"
  c_host_weight :: "int option"
  c_sptps_cipher :: sptps_aead
  c_pmtu_cap :: "nat option"
  c_sptps_kex :: sptps_kex
  c_log_level :: "nat option"
  c_prev_debug_level :: "int option"
  c_flood :: flood_limiter

definition conn_new_base :: "string \<Rightarrow> string \<Rightarrow> instant \<Rightarrow> connection" where
  "conn_new_base name hostname now =
     \<lparr>c_inbuf = lb_new, c_outbuf = lb_new, c_dead = False, c_allow_request = Some request.Id, c_control = False,
      c_is_unix_ctl = False, c_pcap = False, c_pcap_snaplen = 0, c_invite = None, c_name = name, c_hostname = hostname,
      c_last_ping_time = now, c_protocol_minor = 0, c_ecdsa = None, c_sptps = None, c_options = 0,
      c_estimated_weight = 0, c_start = now, c_address = None, c_active = False, c_counted_pending = False,
      c_activated_at = None, c_pinged = False, c_last_ping_sent = None, c_ping_rtt_ms = 0, c_srtt_ms = 0,
      c_last_weight_gossip = None, c_connecting = False, c_outgoing = None, c_tcplen = 0, c_sptpslen = 0,
      c_sptps_buf = [], c_host_indirect = None, c_host_tcponly = None, c_host_clamp_mss = None, c_host_weight = None,
      c_sptps_cipher = ChaCha20Poly1305, c_pmtu_cap = None, c_sptps_kex = X25519, c_log_level = None,
      c_prev_debug_level = None, c_flood = flood_new\<rparr>"

definition conn_new_control :: "instant \<Rightarrow> connection" where
  "conn_new_control now = (conn_new_base ''<control>'' ''localhost port unix'' now)\<lparr>c_is_unix_ctl := True\<rparr>"

definition conn_new_meta :: "string \<Rightarrow> sock_addr \<Rightarrow> instant \<Rightarrow> connection" where
  "conn_new_meta hostname address now = (conn_new_base ''<unknown>'' hostname now)\<lparr>c_address := Some address\<rparr>"

definition conn_new_outgoing :: "string \<Rightarrow> string \<Rightarrow> sock_addr \<Rightarrow> nat \<Rightarrow> instant \<Rightarrow> connection" where
  "conn_new_outgoing name hostname address outgoing now =
     (conn_new_base name hostname now)\<lparr>c_address := Some address, c_connecting := True, c_outgoing := Some outgoing\<rparr>"

text \<open>The status word shown to the control socket.\<close>

definition status_value :: "connection \<Rightarrow> u32" where
  "status_value c =
     (let v = 0;
          v = if c_pinged c then v OR 1 else v;
          v = if c_active c then v OR push_bit 1 1 else v;
          v = if c_connecting c then v OR push_bit 2 1 else v;
          v = if c_control c then v OR push_bit 9 1 else v;
          v = if c_log_level c \<noteq> None then v OR push_bit 11 1 else v
      in if c_pcap c then v OR push_bit 10 1 else v)"

definition MAXBUFSIZE :: nat where "MAXBUFSIZE = 2176"
definition OUTBUF_HARD_CAP :: nat where "OUTBUF_HARD_CAP = 2 ^ 20"

definition check_outbuf_cap :: "nat \<Rightarrow> connection \<Rightarrow> bool \<times> connection" where
  "check_outbuf_cap adding c =
     (if c_dead c then (True, c)
      else if OUTBUF_HARD_CAP < lb_live_len (c_outbuf c) + adding then (True, c\<lparr>c_dead := True\<rparr>)
      else (False, c))"

definition send_raw :: "bytes \<Rightarrow> connection \<Rightarrow> bool \<times> connection" where
  "send_raw bs c =
     (let (over, c) = check_outbuf_cap (length bs) c
      in if over then (False, c) else (lb_is_empty (c_outbuf c), c\<lparr>c_outbuf := lb_add bs (c_outbuf c)\<rparr>))"

text \<open>The loop over the session's outputs: stop at the cap, queue the wire bytes.\<close>

fun queue_wires :: "sptps_output list \<Rightarrow> connection \<Rightarrow> bool \<times> connection" where
  "queue_wires [] c = (True, c)"
| "queue_wires (Wire t bs # os) c =
     (let (over, c) = check_outbuf_cap (length bs) c
      in if over then (False, c) else queue_wires os (c\<lparr>c_outbuf := lb_add bs (c_outbuf c)\<rparr>))"
| "queue_wires (Record t bs # os) c = queue_wires os c"
| "queue_wires (HandshakeDone # os) c = queue_wires os c"

definition send_sptps :: "'g prims \<Rightarrow> 'g \<Rightarrow> u8 \<Rightarrow> bytes \<Rightarrow> sptps \<Rightarrow> connection \<Rightarrow> (bool \<times> connection) option" where
  "send_sptps P g ty body s c =
     (case send_record P ty body (s, g, []) of
        (Ok _, s', _, outs) \<Rightarrow>
          let was_empty = lb_is_empty (c_outbuf c); (whole, c) = queue_wires outs (c\<lparr>c_sptps := Some s'\<rparr>)
          in Some (whole \<and> was_empty, c)
      | _ \<Rightarrow> None)"

definition send_sptps_record :: "'g prims \<Rightarrow> 'g \<Rightarrow> u8 \<Rightarrow> bytes \<Rightarrow> connection \<Rightarrow> (bool \<times> connection) option" where
  "send_sptps_record P g ty body c =
     (if c_dead c then Some (False, c)
      else case c_sptps c of None \<Rightarrow> None | Some s \<Rightarrow> send_sptps P g ty body s c)"

definition conn_send :: "'g prims \<Rightarrow> 'g \<Rightarrow> string \<Rightarrow> connection \<Rightarrow> (bool \<times> connection) option" where
  "conn_send P g line c =
     (if c_dead c then Some (False, c)
      else case c_sptps c of
        Some s \<Rightarrow> send_sptps P g 0 (as_bytes line @ [10]) s c
      | None \<Rightarrow>
          let bs = as_bytes line @ [10]; was_empty = lb_is_empty (c_outbuf c); (over, c) = check_outbuf_cap (length bs) c
          in if over then Some (False, c) else Some (was_empty, c\<lparr>c_outbuf := lb_extend bs (c_outbuf c)\<rparr>))"

text \<open>\<open>flush\<close>: \<open>Inl\<close> is an error of the socket, \<open>Inr None\<close> a socket that would block, \<open>Inr (Some n)\<close> what it took.\<close>

definition conn_flush :: "'e + nat option \<Rightarrow> connection \<Rightarrow> ('e + bool) \<times> connection" where
  "conn_flush r c =
     (if lb_is_empty (c_outbuf c) then (Inr True, c)
      else case r of Inl e \<Rightarrow> (Inl e, c) | Inr None \<Rightarrow> (Inr False, c)
      | Inr (Some n) \<Rightarrow> let c = c\<lparr>c_outbuf := lb_consume n (c_outbuf c)\<rparr> in (Inr (lb_is_empty (c_outbuf c)), c))"

section \<open>Feeding received bytes\<close>

datatype sptps_event = EvRecord sptps_output | EvBlob bytes

datatype feed_result = FeedData | FeedWouldBlock | FeedDead | FeedSptps "sptps_event list"

datatype read_result = ReadEof | ReadBytes bytes | ReadWouldBlock | ReadError

definition record_body :: "bytes \<Rightarrow> bytes" where
  "record_body bs = (if bs \<noteq> [] \<and> last bs = 10 then butlast bs else bs)"

text \<open>The peek at a record for the length of the blob that follows it.\<close>

definition blob_header :: "connection \<Rightarrow> sptps_output \<Rightarrow> nat option" where
  "blob_header c o' =
     (case o' of Record t bs \<Rightarrow>
        if t = 0 \<and> c_allow_request c = None \<and> take 3 (record_body bs) = as_bytes ''21 ''
        then Option.bind (from_utf8 (record_body bs)) sptps_packet_parse else None
      | _ \<Rightarrow> None)"

text \<open>The loop over the outputs of one record; a blob header leaves it and drops the rest.\<close>

fun feed_outs :: "connection \<Rightarrow> sptps_output list \<Rightarrow> sptps_event list \<Rightarrow> sptps_event list \<times> connection" where
  "feed_outs c [] ev = (ev, c)"
| "feed_outs c (o' # os) ev =
     (case blob_header c o' of Some n \<Rightarrow> (ev, c\<lparr>c_sptpslen := n\<rparr>) | None \<Rightarrow> feed_outs c os (ev @ [EvRecord o']))"

lemma feed_outs_decreases: "c_sptpslen c = 0 \<Longrightarrow> 0 < n \<Longrightarrow> chunk \<noteq> [] \<Longrightarrow> length (drop n chunk) < length chunk"
  by (cases chunk) auto

text \<open>The receive loop in session mode; \<open>want\<close> is an unsigned difference, which panics below zero.\<close>

function feed_loop :: "'g prims \<Rightarrow> bytes \<Rightarrow> sptps \<Rightarrow> 'g \<Rightarrow> connection \<Rightarrow> sptps_event list \<Rightarrow>
    (feed_result \<times> connection \<times> 'g) option" where
  "feed_loop P chunk s g c ev =
     (if chunk = [] then Some (FeedSptps ev, c\<lparr>c_sptps := Some s\<rparr>, g)
      else if 0 < c_sptpslen c then
        if c_sptpslen c < length (c_sptps_buf c) then None
        else
          let n = min (c_sptpslen c - length (c_sptps_buf c)) (length chunk);
              buf = c_sptps_buf c @ take n chunk
          in if length buf < c_sptpslen c then Some (FeedSptps ev, c\<lparr>c_sptps_buf := buf, c_sptps := Some s\<rparr>, g)
             else feed_loop P (drop n chunk) s g (c\<lparr>c_sptps_buf := [], c_sptpslen := 0\<rparr>) (ev @ [EvBlob buf])
      else case receive P chunk (s, g, []) of
          (Ok n, s', g', outs) \<Rightarrow>
            if n = 0 then Some (FeedSptps ev, c\<lparr>c_sptps := Some s'\<rparr>, g')
            else feed_loop P (drop n chunk) s' g' (snd (feed_outs c outs ev)) (fst (feed_outs c outs ev))
        | (Err _, s', g', _) \<Rightarrow> Some (FeedDead, c\<lparr>c_sptps := Some s'\<rparr>, g')
        | (Panic, _) \<Rightarrow> None)"
  by pat_completeness auto

termination
  by (relation "measures [\<lambda>(P, chunk, s, g, c, ev). length chunk, \<lambda>(P, chunk, s, g, c, ev). c_sptpslen c]")
     (auto simp: feed_outs_decreases)

declare feed_loop.simps [simp del]

text \<open>
  One readiness event. \<open>rd\<close> is what the read returned; the code reads at most \<open>MAXBUFSIZE\<close> bytes at once,
  the model takes reads of any length.
\<close>

definition conn_feed :: "'g prims \<Rightarrow> read_result \<Rightarrow> connection \<Rightarrow> 'g \<Rightarrow> (feed_result \<times> connection \<times> 'g) option" where
  "conn_feed P rd c g =
     (if c_sptps c = None \<and> MAXBUFSIZE \<le> lb_live_len (c_inbuf c) then Some (FeedDead, c, g)
      else case rd of
        ReadEof \<Rightarrow> Some (FeedDead, c, g)
      | ReadWouldBlock \<Rightarrow> Some (FeedWouldBlock, c, g)
      | ReadError \<Rightarrow> Some (FeedDead, c, g)
      | ReadBytes chunk \<Rightarrow>
          case c_sptps c of
            Some s \<Rightarrow> feed_loop P chunk s g (c\<lparr>c_sptps := None\<rparr>) []
          | None \<Rightarrow> Some (FeedData, c\<lparr>c_inbuf := lb_add chunk (c_inbuf c)\<rparr>, g))"

text \<open>The re-feed after the mode switch: records only.\<close>

function feed_sptps :: "'g prims \<Rightarrow> bytes \<Rightarrow> sptps \<Rightarrow> 'g \<Rightarrow> sptps_event list \<Rightarrow> (feed_result \<times> sptps \<times> 'g) option" where
  "feed_sptps P chunk s g ev =
     (if chunk = [] then Some (FeedSptps ev, s, g)
      else case receive P chunk (s, g, []) of
          (Ok n, s', g', outs) \<Rightarrow>
            if n = 0 then Some (FeedSptps ev, s', g')
            else feed_sptps P (drop n chunk) s' g' (ev @ map EvRecord outs)
        | (Err _, s', g', _) \<Rightarrow> Some (FeedDead, s', g')
        | (Panic, _) \<Rightarrow> None)"
  by pat_completeness auto

termination
  by (relation "measure (\<lambda>(P, chunk, s, g, ev). length chunk)") (auto simp: length_drop)

declare feed_sptps.simps [simp del]


section \<open>The buffer as a queue of bytes\<close>

datatype queue_op = QAdd bytes | QTake nat

locale byte_queue =
  fixes ok :: "'q \<Rightarrow> bool" and live :: "'q \<Rightarrow> bytes" and add :: "bytes \<Rightarrow> 'q \<Rightarrow> 'q" and consume :: "nat \<Rightarrow> 'q \<Rightarrow> 'q"
  assumes add_ok: "ok q \<Longrightarrow> ok (add bs q)" and live_add: "ok q \<Longrightarrow> live (add bs q) = live q @ bs"
    and consume_ok: "ok q \<Longrightarrow> ok (consume n q)" and live_consume: "ok q \<Longrightarrow> live (consume n q) = drop n (live q)"
begin

fun queue_run :: "queue_op list \<Rightarrow> 'q \<Rightarrow> bytes \<times> 'q" where
  "queue_run [] q = ([], q)"
| "queue_run (QAdd bs # ops) q = queue_run ops (add bs q)"
| "queue_run (QTake n # ops) q = (let (out, q') = queue_run ops (consume n q) in (take n (live q) @ out, q'))"

fun added :: "queue_op list \<Rightarrow> bytes" where
  "added [] = []"
| "added (QAdd bs # ops) = bs @ added ops"
| "added (QTake n # ops) = added ops"

text \<open>First in, first out: what was taken, then what is left, is what was there and what was added.\<close>

lemma queue_fifo:
  assumes "ok q"
  shows "ok (snd (queue_run ops q)) \<and> fst (queue_run ops q) @ live (snd (queue_run ops q)) = live q @ added ops"
  using assms
proof (induction ops q rule: queue_run.induct)
  case (2 bs ops q)
  thus ?case using add_ok live_add by simp
next
  case (3 n ops q)
  from 3(1) [OF consume_ok [OF 3(2)]] have "ok (snd (queue_run ops (consume n q))) \<and>
      fst (queue_run ops (consume n q)) @ live (snd (queue_run ops (consume n q))) = drop n (live q) @ added ops"
    by (simp add: live_consume [OF 3(2)])
  moreover have "take n (live q) @ drop n (live q) @ added ops = live q @ added ops" by (metis append.assoc append_take_drop_id)
  ultimately show ?case by (simp add: split_beta)
qed simp

end

definition lb_ok :: "line_buf \<Rightarrow> bool" where
  "lb_ok b \<longleftrightarrow> lb_offset b \<le> length (lb_data b)"

interpretation lbq: byte_queue lb_ok lb_live lb_add lb_consume
  by unfold_locales (auto simp: lb_ok_def lb_live_def lb_add_def lb_extend_def lb_consume_def Let_def add.commute)

lemma lb_live_simps:
  "lb_live lb_new = []" "lb_ok lb_new" "lb_live_len b = length (lb_live b)" "lb_is_empty b \<longleftrightarrow> lb_live b = []"
  by (simp_all add: lb_live_def lb_new_def lb_ok_def lb_live_len_def lb_is_empty_def)

lemma lb_extend_live: "lb_ok b \<Longrightarrow> lb_ok (lb_extend bs b) \<and> lb_live (lb_extend bs b) = lb_live b @ bs"
  by (simp add: lb_ok_def lb_live_def lb_extend_def)

text \<open>The lines of the input buffer: the bytes up to the newline come off the front.\<close>

lemma lb_read_line_live:
  assumes "lb_ok b" "lb_live b = line @ 10 # rest" "10 \<notin> set line"
  shows "\<exists>r b'. lb_read_line b = Some (r, b') \<and> lb_slice r b' = line \<and> lb_live b' = rest \<and> lb_ok b'"
proof -
  have t: "takeWhile (\<lambda>x. x \<noteq> 10) (line @ 10 # rest) = line" using assms(3) by (induction line) auto
  have d: "drop (lb_offset b) (lb_data b) = line @ 10 # rest" using assms(2) by (simp add: lb_live_def)
  have "length (lb_data b) - lb_offset b = length line + 1 + length rest" using arg_cong [OF d, of length] by simp
  moreover have "drop (Suc (lb_offset b + length line)) (lb_data b) = rest"
    using arg_cong [OF d, of "drop (Suc (length line))"] by (simp add: add.commute)
  ultimately show ?thesis using assms d t
    by (auto simp: lb_read_line_def Let_def lb_slice_def lb_live_def lb_ok_def)
qed

end
