(* ===== verification/Seen_Requests.thy ===== *)
theory Seen_Requests
  imports Rust_Text Clock
begin

text \<open>
  The anti-loop cache of \<open>tincd/src/seen.rs\<close>, which keeps gossip from circling in the mesh, and the table
  of learned MAC addresses of \<open>tincd/src/mac_lease.rs\<close>. The hash maps are association lists with distinct
  keys; no code looks at their order.
\<close>

section \<open>The cache\<close>

definition SEEN_CAP :: nat where "SEEN_CAP = 4096"

record seen_requests =
  cache :: "(string \<times> instant) list"

definition seen_new :: seen_requests where
  "seen_new = \<lparr>cache = []\<rparr>"

definition normalize_key :: "string \<Rightarrow> string" where
  "normalize_key line =
     (case split_ascii_whitespace line of
        [] \<Rightarrow> []
      | [req] \<Rightarrow> req
      | req # _ # rest \<Rightarrow> fold (\<lambda>tok key. key @ '' '' @ tok) rest req)"

definition seen_check :: "string \<Rightarrow> instant \<Rightarrow> seen_requests \<Rightarrow> bool \<times> seen_requests" where
  "seen_check line now s =
     (let key = normalize_key line
      in if key \<in> fst ` set (cache s) then (True, s)
         else if SEEN_CAP \<le> length (cache s) then (True, s)
         else (False, s\<lparr>cache := (key, now) # cache s\<rparr>))"

definition seen_age :: "instant \<Rightarrow> duration \<Rightarrow> seen_requests \<Rightarrow> (nat \<times> nat) \<times> seen_requests" where
  "seen_age now max_age s =
     (let before = length (cache s);
          s = s\<lparr>cache := filter (\<lambda>(k, firstseen). duration_since now firstseen < max_age) (cache s)\<rparr>;
          left = length (cache s)
      in ((before - left, left), s))"

definition purge_mentions :: "string \<Rightarrow> seen_requests \<Rightarrow> seen_requests" where
  "purge_mentions name s =
     s\<lparr>cache := filter (\<lambda>(k, _). \<not> list_ex (\<lambda>tok. tok = name) (split_char CHR '' '' k)) (cache s)\<rparr>"

text \<open>The key is the line's words without the second one.\<close>

fun drop_nonce :: "string list \<Rightarrow> string list" where
  "drop_nonce (req # nonce # rest) = req # rest"
| "drop_nonce ws = ws"

lemma fold_unwords: "fold (\<lambda>tok key. key @ '' '' @ tok) ws w = unwords (w # ws)"
proof (induction ws arbitrary: w)
  case (Cons v ws)
  have "unwords ((w @ '' '' @ v) # ws) = w @ '' '' @ unwords (v # ws)" by (cases ws) auto
  thus ?case using Cons by simp
qed simp

lemma normalize_key_eq: "normalize_key line = unwords (drop_nonce (split_ascii_whitespace line))"
  by (auto simp: normalize_key_def fold_unwords [simplified] split: list.splits)

lemma drop_nonce_words: "list_all word ws \<Longrightarrow> list_all word (drop_nonce ws)"
  by (cases ws rule: drop_nonce.cases) auto

text \<open>The key determines the words: two lines share a key exactly if they differ in the nonce only.\<close>

lemma normalize_key_eq_iff:
  "normalize_key l1 = normalize_key l2 \<longleftrightarrow>
   drop_nonce (split_ascii_whitespace l1) = drop_nonce (split_ascii_whitespace l2)"
proof
  assume "normalize_key l1 = normalize_key l2"
  hence "split_ascii_whitespace (unwords (drop_nonce (split_ascii_whitespace l1))) =
      split_ascii_whitespace (unwords (drop_nonce (split_ascii_whitespace l2)))" by (simp add: normalize_key_eq)
  thus "drop_nonce (split_ascii_whitespace l1) = drop_nonce (split_ascii_whitespace l2)"
    by (simp only: split_ascii_whitespace_unwords drop_nonce_words split_ascii_whitespace_words)
qed (simp add: normalize_key_eq)

lemma split_blank_key:
  assumes "split_ascii_whitespace l \<noteq> []"
  shows "split_char CHR '' '' (normalize_key l) = drop_nonce (split_ascii_whitespace l)"
proof -
  have w: "list_all word (drop_nonce (split_ascii_whitespace l))" by (intro drop_nonce_words split_ascii_whitespace_words)
  have "drop_nonce (split_ascii_whitespace l) \<noteq> []"
    using assms by (cases "split_ascii_whitespace l" rule: drop_nonce.cases) auto
  thus ?thesis unfolding split_char_def normalize_key_eq
    using w by (intro split_unwords) (auto simp: list_all_iff word_def is_ascii_whitespace_def)
qed

section \<open>Runs\<close>

datatype seen_op = Check string instant | Age instant duration | Purge string

fun seen_step :: "seen_op \<Rightarrow> seen_requests \<Rightarrow> bool \<times> seen_requests" where
  "seen_step (Check line now) s = seen_check line now s"
| "seen_step (Age now max_age) s = (False, snd (seen_age now max_age s))"
| "seen_step (Purge name) s = (False, purge_mentions name s)"

fun seen_run :: "seen_op list \<Rightarrow> seen_requests \<Rightarrow> bool list \<times> seen_requests" where
  "seen_run [] s = ([], s)"
| "seen_run (e # es) s = (let (b, s) = seen_step e s; (bs, s) = seen_run es s in (b # bs, s))"

lemma seen_run_append:
  "seen_run (a @ b) s = (let (xs, s) = seen_run a s; (ys, s) = seen_run b s in (xs @ ys, s))"
  by (induction a arbitrary: s) (simp_all add: Let_def split_beta)

definition seen_inv :: "seen_requests \<Rightarrow> bool" where
  "seen_inv s \<longleftrightarrow> distinct (map fst (cache s)) \<and> length (cache s) \<le> SEEN_CAP"

lemma filter_cache_inv: "seen_inv s \<Longrightarrow> seen_inv (s\<lparr>cache := filter P (cache s)\<rparr>)"
  by (auto simp: seen_inv_def distinct_map_filter intro: order_trans [OF length_filter_le])

lemma seen_step_inv: "seen_inv s \<Longrightarrow> seen_inv (snd (seen_step e s))"
proof (cases e)
  case (Check line now)
  assume "seen_inv s"
  thus ?thesis using Check by (auto simp: seen_check_def Let_def seen_inv_def)
next
  case (Age now max_age)
  assume "seen_inv s"
  thus ?thesis using Age filter_cache_inv by (simp add: seen_age_def Let_def)
next
  case (Purge name)
  assume "seen_inv s"
  thus ?thesis using Purge filter_cache_inv by (simp add: purge_mentions_def)
qed

lemma seen_run_inv: "seen_inv s \<Longrightarrow> seen_inv (snd (seen_run es s))"
  by (induction es arbitrary: s) (simp_all add: Let_def split_beta seen_step_inv)

text \<open>The operations that leave an entry of the cache alone.\<close>

fun spares :: "string \<Rightarrow> instant \<Rightarrow> seen_op \<Rightarrow> bool" where
  "spares line since (Check l now) \<longleftrightarrow> True"
| "spares line since (Age now max_age) \<longleftrightarrow> duration_since now since < max_age"
| "spares line since (Purge name) \<longleftrightarrow> name \<notin> set (drop_nonce (split_ascii_whitespace line))"

lemma seen_step_keeps:
  assumes "(normalize_key line, since) \<in> set (cache s)" "spares line since e" "split_ascii_whitespace line \<noteq> []"
  shows "(normalize_key line, since) \<in> set (cache (snd (seen_step e s)))"
proof (cases e)
  case (Purge name)
  thus ?thesis using assms by (auto simp: purge_mentions_def split_blank_key list_ex_iff)
qed (use assms in \<open>auto simp: seen_check_def seen_age_def Let_def\<close>)

lemma seen_run_keeps:
  assumes "(normalize_key line, since) \<in> set (cache s)" "list_all (spares line since) es" "split_ascii_whitespace line \<noteq> []"
  shows "(normalize_key line, since) \<in> set (cache (snd (seen_run es s)))"
  using assms(1,2)
proof (induction es arbitrary: s)
  case (Cons e es)
  thus ?case using seen_step_keeps [OF Cons.prems(1) _ assms(3), of e] by (simp add: Let_def split_beta)
qed simp

text \<open>
  C30: gossip cannot loop. Once a line was let through, every line with the same words but for the
  nonce is a duplicate, after any further traffic, until the entry is aged out or a mentioned node is
  purged; and the cache never holds more than its capacity.
\<close>

theorem seen_dedup:
  assumes "seen_check l1 t1 (snd (seen_run pre seen_new)) = (False, s1)" "list_all (spares l1 t1) mid"
    "drop_nonce (split_ascii_whitespace l1) = drop_nonce (split_ascii_whitespace l2)" "split_ascii_whitespace l1 \<noteq> []"
  shows "fst (seen_check l2 t2 (snd (seen_run mid s1))) \<and> length (cache (snd (seen_run mid s1))) \<le> SEEN_CAP"
proof -
  have "seen_inv seen_new" by (simp add: seen_inv_def seen_new_def)
  hence "seen_inv (snd (seen_run pre seen_new))" by (rule seen_run_inv)
  hence "seen_inv s1" using seen_step_inv [of _ "Check l1 t1"] assms(1) by fastforce
  hence inv: "seen_inv (snd (seen_run mid s1))" by (rule seen_run_inv)
  have "(normalize_key l1, t1) \<in> set (cache s1)"
    using assms(1) by (auto simp: seen_check_def Let_def split: if_splits)
  hence "(normalize_key l1, t1) \<in> set (cache (snd (seen_run mid s1)))" by (rule seen_run_keeps [OF _ assms(2,4)])
  moreover have "normalize_key l2 = normalize_key l1" using assms(3) by (simp add: normalize_key_eq_iff)
  ultimately have "normalize_key l2 \<in> fst ` set (cache (snd (seen_run mid s1)))" by force
  thus ?thesis using inv by (simp add: seen_check_def Let_def seen_inv_def)
qed

theorem seen_dedup_witness:
  "seen_check ''10 a3f bob 10.0.0.0/8'' 5 (snd (seen_run [Check ''12 1 a b'' 1] seen_new)) =
     (False, \<lparr>cache = [(''10 bob 10.0.0.0/8'', 5), (''12 a b'', 1)]\<rparr>) \<and>
   list_all (spares ''10 a3f bob 10.0.0.0/8'' 5) [Age 20 60, Purge ''alice''] \<and>
   fst (seen_check ''10 77 bob 10.0.0.0/8'' 40
     (snd (seen_run [Age 20 60, Purge ''alice''] \<lparr>cache = [(''10 bob 10.0.0.0/8'', 5), (''12 a b'', 1)]\<rparr>)))"
proof -
  have w: "split_ascii_whitespace ''10 a3f bob 10.0.0.0/8'' = [''10'', ''a3f'', ''bob'', ''10.0.0.0/8'']"
    "split_ascii_whitespace ''10 77 bob 10.0.0.0/8'' = [''10'', ''77'', ''bob'', ''10.0.0.0/8'']"
    "split_ascii_whitespace ''12 1 a b'' = [''12'', ''1'', ''a'', ''b'']" by code_simp+
  have c: "seen_check ''10 a3f bob 10.0.0.0/8'' 5 (snd (seen_run [Check ''12 1 a b'' 1] seen_new)) =
     (False, \<lparr>cache = [(''10 bob 10.0.0.0/8'', 5), (''12 a b'', 1)]\<rparr>)"
    by (simp add: seen_check_def seen_new_def normalize_key_eq w SEEN_CAP_def)
  have s: "list_all (spares ''10 a3f bob 10.0.0.0/8'' 5) [Age 20 60, Purge ''alice'']"
    by (simp add: w duration_since_def)
  from seen_dedup [OF c s, of "''10 77 bob 10.0.0.0/8''" 40] c s show ?thesis by (simp only: w drop_nonce.simps) simp
qed

section \<open>Learned addresses\<close>

definition DEFAULT_EXPIRE_SECS :: nat where "DEFAULT_EXPIRE_SECS = 600"

type_synonym mac = bytes

record mac_leases =
  leases :: "(mac \<times> instant) list"

fun set_lease :: "mac \<Rightarrow> instant \<Rightarrow> (mac \<times> instant) list \<Rightarrow> (mac \<times> instant) list" where
  "set_lease mac t [] = []"
| "set_lease mac t ((m, u) # ls) = (if m = mac then (m, t) # ls else (m, u) # set_lease mac t ls)"

text \<open>\<open>now + Duration\<close> panics beyond the last instant.\<close>

definition lease_learn :: "mac \<Rightarrow> instant \<Rightarrow> nat \<Rightarrow> mac_leases \<Rightarrow> (bool \<times> mac_leases) option" where
  "lease_learn mac now expire_secs l = do {
     expires \<leftarrow> checked_add now (from_secs expire_secs);
     Some (if mac \<in> fst ` set (leases l) then (False, l\<lparr>leases := set_lease mac expires (leases l)\<rparr>)
           else (leases l = [], l\<lparr>leases := (mac, expires) # leases l\<rparr>)) }"

definition lease_refresh :: "mac \<Rightarrow> instant \<Rightarrow> nat \<Rightarrow> mac_leases \<Rightarrow> (bool \<times> mac_leases) option" where
  "lease_refresh mac now expire_secs l =
     (if mac \<in> fst ` set (leases l)
      then do { expires \<leftarrow> checked_add now (from_secs expire_secs);
                Some (True, l\<lparr>leases := set_lease mac expires (leases l)\<rparr>) }
      else Some (False, l))"

definition lease_age :: "instant \<Rightarrow> mac_leases \<Rightarrow> (mac list \<times> bool) \<times> mac_leases" where
  "lease_age now l =
     (let expired = map fst (filter (\<lambda>(_, expires). expires < now) (leases l));
          l = l\<lparr>leases := filter (\<lambda>(_, expires). \<not> expires < now) (leases l)\<rparr>
      in ((expired, leases l \<noteq> []), l))"

definition lease_contains :: "mac \<Rightarrow> mac_leases \<Rightarrow> bool" where
  "lease_contains mac l \<longleftrightarrow> mac \<in> fst ` set (leases l)"

definition lease_len :: "mac_leases \<Rightarrow> nat" where
  "lease_len l = length (leases l)"

text \<open>The table as a map from addresses to expiry instants, and what each operation does to it.\<close>

definition lease_map :: "mac_leases \<Rightarrow> mac \<Rightarrow> instant option" where
  "lease_map l = map_of (leases l)"

lemma set_lease_map: "mac \<in> fst ` set ls \<Longrightarrow> map_of (set_lease mac t ls) = (map_of ls)(mac \<mapsto> t)"
proof (induction ls)
  case (Cons p ls)
  obtain m u where p: "p = (m, u)" by fastforce
  show ?case
  proof (cases "m = mac")
    case False
    hence "mac \<in> fst ` set ls" using Cons.prems p by auto
    thus ?thesis using Cons.IH False p by (auto simp: fun_eq_iff)
  qed (auto simp: p fun_eq_iff)
qed simp

lemma lease_learn_map:
  assumes "lease_learn mac now secs l = Some (first, l')"
  shows "lease_map l' = (lease_map l)(mac \<mapsto> now + from_secs secs)" "first \<longleftrightarrow> leases l = []"
proof -
  have e: "checked_add now (from_secs secs) = Some (now + from_secs secs)"
    using assms by (auto simp: lease_learn_def checked_add_def split: if_splits)
  have "lease_map l' = (lease_map l)(mac \<mapsto> now + from_secs secs) \<and> (first \<longleftrightarrow> leases l = [])"
  proof (cases "mac \<in> fst ` set (leases l)")
    case True
    hence "leases l \<noteq> []" by auto
    thus ?thesis using True assms e set_lease_map [OF True] by (auto simp: lease_learn_def lease_map_def)
  next
    case False
    thus ?thesis using assms e by (auto simp: lease_learn_def lease_map_def)
  qed
  thus "lease_map l' = (lease_map l)(mac \<mapsto> now + from_secs secs)" "first \<longleftrightarrow> leases l = []" by simp_all
qed

lemma option_filter_eq:
  assumes "\<And>t. x = Some t \<longleftrightarrow> y = Some t \<and> \<not> P t"
  shows "x = (case y of None \<Rightarrow> None | Some t \<Rightarrow> if P t then None else Some t)"
proof (cases y)
  case None
  hence "x \<noteq> Some t" for t using assms [of t] by simp
  thus ?thesis using None by (cases x) auto
next
  case (Some a)
  show ?thesis
  proof (cases "P a")
    case True
    hence "x \<noteq> Some t" for t using assms [of t] Some by auto
    thus ?thesis using Some True by (cases x) auto
  next
    case False
    thus ?thesis using Some assms [of a] by simp
  qed
qed

lemma lease_age_map:
  assumes "lease_age now l = ((expired, left), l')" "distinct (map fst (leases l))"
  shows "lease_map l' mac = (case lease_map l mac of None \<Rightarrow> None | Some t \<Rightarrow> if t < now then None else Some t)"
    "mac \<in> set expired \<longleftrightarrow> (\<exists>t. lease_map l mac = Some t \<and> t < now)" "left \<longleftrightarrow> lease_map l' \<noteq> (\<lambda>_. None)"
proof -
  have l': "leases l' = filter (\<lambda>(_, e). \<not> e < now) (leases l)" "expired = map fst (filter (\<lambda>(_, e). e < now) (leases l))"
    "left = (leases l' \<noteq> [])" using assms(1) by (auto simp: lease_age_def Let_def)
  have "distinct (map fst (leases l'))" using assms(2) by (simp add: l'(1) distinct_map_filter)
  hence m: "lease_map l mac = Some t \<longleftrightarrow> (mac, t) \<in> set (leases l)" "lease_map l' mac = Some t \<longleftrightarrow> (mac, t) \<in> set (leases l')" for t
    using assms(2) by (simp_all add: lease_map_def)
  have "mac \<in> set expired \<longleftrightarrow> (\<exists>t. (mac, t) \<in> set (leases l) \<and> t < now)" unfolding l'(2) by (auto simp: image_iff)
  thus "mac \<in> set expired \<longleftrightarrow> (\<exists>t. lease_map l mac = Some t \<and> t < now)" by (simp only: m(1))
  show "left \<longleftrightarrow> lease_map l' \<noteq> (\<lambda>_. None)" by (cases "leases l'") (auto simp: l'(3) lease_map_def fun_eq_iff)
  have "lease_map l' mac = Some t \<longleftrightarrow> lease_map l mac = Some t \<and> \<not> t < now" for t unfolding m l'(1) by auto
  thus "lease_map l' mac = (case lease_map l mac of None \<Rightarrow> None | Some t \<Rightarrow> if t < now then None else Some t)"
    by (rule option_filter_eq)
qed

end
