(* ===== verification/Pmtu.thy ===== *)
theory Pmtu
  imports Clock
begin

text \<open>
  Path-MTU discovery of \<open>tincd/src/pmtu.rs\<close>, with the places of the daemon that write its state
  directly: the seeding in \<open>daemon/tx_control.rs\<close>, the configured ceiling in \<open>daemon/connect.rs\<close> and the
  reset in \<open>tunnel.rs\<close>. The 16-bit and 8-bit counters are naturals with the saturation and the
  wrap-around written out. \<open>None\<close> is a panic (the \<open>unreachable!\<close> of \<open>tick\<close>). \<open>powf\<close> of the platform's
  floating-point library is a parameter: the value of \<open>interval.powf(exp).round() as u16\<close> by interval,
  by whether the multiplier is 0.97, and by the position in the cycle.
\<close>

section \<open>Model\<close>

definition MTU :: nat where "MTU = 1518"
definition MINMTU :: nat where "MINMTU = 512"
definition MIN_PROBE_SIZE :: nat where "MIN_PROBE_SIZE = 18"
definition PROBES_PER_CYCLE :: nat where "PROBES_PER_CYCLE = 8"
definition PMTU_PROBE_TICK :: duration where "PMTU_PROBE_TICK = from_micros 333333"
definition PMTU_REVALIDATE_TICK :: duration where "PMTU_REVALIDATE_TICK = from_secs 1"

datatype pmtu_phase = Discovery nat | Fix | Steady | Revalidate nat | Lost

definition is_discovery_start :: "pmtu_phase \<Rightarrow> bool" where
  "is_discovery_start ph \<longleftrightarrow> ph = Discovery 0"

fun is_fixed :: "pmtu_phase \<Rightarrow> bool" where
  "is_fixed Steady = True"
| "is_fixed (Revalidate _) = True"
| "is_fixed Lost = True"
| "is_fixed _ = False"

record pmtu =
  mtu :: nat
  minmtu :: nat
  maxmtu :: nat
  phase :: pmtu_phase
  udp_confirmed :: bool
  ping_sent :: bool
  udp_probe_attempted :: bool
  udp_probe_attempted_at :: instant
  udp_ping_sent :: instant
  udp_reply_rx :: instant
  mtu_ping_sent :: instant
  maxrecentlen :: nat
  udp_ping_rtt :: "nat option"

datatype pmtu_action = SendProbe nat bool | LogFixed nat nat | LogReset | LogIncrease

definition pmtu_new :: "instant \<Rightarrow> nat \<Rightarrow> pmtu" where
  "pmtu_new now initial_maxmtu = \<lparr>mtu = 0, minmtu = 0, maxmtu = initial_maxmtu, phase = Discovery 0,
     udp_confirmed = False, ping_sent = False, udp_probe_attempted = False,
     udp_probe_attempted_at = now, udp_ping_sent = now, udp_reply_rx = now, mtu_ping_sent = now,
     maxrecentlen = 0, udp_ping_rtt = None\<rparr>"

definition udp_probe_due :: "pmtu \<Rightarrow> instant \<Rightarrow> duration \<Rightarrow> bool" where
  "udp_probe_due p now interval \<longleftrightarrow>
     (let discovery_start = \<not> udp_confirmed p \<and> \<not> udp_probe_attempted p \<and> is_discovery_start (phase p)
      in discovery_start \<or> interval \<le> duration_since now (udp_probe_attempted_at p))"

definition on_udp_probe_attempt :: "instant \<Rightarrow> bool \<Rightarrow> pmtu \<Rightarrow> pmtu" where
  "on_udp_probe_attempt now sent p =
     (let p = p\<lparr>udp_probe_attempted := True, udp_probe_attempted_at := now\<rparr>
      in if sent then p\<lparr>udp_ping_sent := now, ping_sent := True\<rparr> else p)"

definition udp_needs_cold_revalidation :: "pmtu \<Rightarrow> instant \<Rightarrow> duration \<Rightarrow> bool" where
  "udp_needs_cold_revalidation p now timeout \<longleftrightarrow>
     udp_confirmed p \<and> \<not> ping_sent p \<and> timeout \<le> duration_since now (udp_reply_rx p)"

definition udp_timed_out :: "pmtu \<Rightarrow> instant \<Rightarrow> duration \<Rightarrow> bool" where
  "udp_timed_out p now timeout \<longleftrightarrow>
     udp_confirmed p \<and> ping_sent p \<and> timeout \<le> duration_since now (udp_ping_sent p)"

definition start_discovery :: "pmtu \<Rightarrow> pmtu" where
  "start_discovery p = p\<lparr>phase := Discovery 0\<rparr>"

definition try_fix_mtu :: "pmtu \<Rightarrow> pmtu \<times> pmtu_action list" where
  "try_fix_mtu p =
     (let probes = (case phase p of Discovery sent \<Rightarrow> Some sent | Fix \<Rightarrow> Some 20 | _ \<Rightarrow> None)
      in case probes of
           None \<Rightarrow> (p, [])
         | Some probes \<Rightarrow>
             if phase p = Fix \<or> maxmtu p \<le> minmtu p then
               let p = (if maxmtu p < minmtu p
                        then p\<lparr>minmtu := if MINMTU \<le> maxmtu p then maxmtu p else 0\<rparr> else p);
                   p = p\<lparr>maxmtu := minmtu p, mtu := minmtu p\<rparr>
               in (p\<lparr>phase := Steady\<rparr>, [LogFixed (mtu p) probes])
             else (p, []))"

definition probe_size :: "(nat \<Rightarrow> bool \<Rightarrow> nat \<Rightarrow> nat) \<Rightarrow> nat \<Rightarrow> nat \<Rightarrow> nat \<Rightarrow> nat" where
  "probe_size powf minm maxm sent =
     (let scaled = (maxm = MTU);
          cycle_position = PROBES_PER_CYCLE - sent mod PROBES_PER_CYCLE - 1;
          minmtu_eff = max minm MINMTU;
          interval = maxm - minmtu_eff;
          offset = (if 0 < interval then powf interval scaled cycle_position else 0)
      in (minmtu_eff + offset) mod 2 ^ 16)"

definition tick_gated :: "instant \<Rightarrow> duration \<Rightarrow> pmtu \<Rightarrow> bool" where
  "tick_gated now pinginterval p \<longleftrightarrow>
     (let elapsed = duration_since now (mtu_ping_sent p)
      in case phase p of
           Discovery sent \<Rightarrow> sent \<noteq> 0 \<and> elapsed < PMTU_PROBE_TICK
         | Fix \<Rightarrow> elapsed < PMTU_PROBE_TICK
         | Steady \<Rightarrow> elapsed < pinginterval
         | _ \<Rightarrow> elapsed < PMTU_REVALIDATE_TICK)"

definition sat_add_u16 :: "nat \<Rightarrow> nat \<Rightarrow> nat" where
  "sat_add_u16 a b = min (a + b) 65535"

definition tick_send :: "(nat \<Rightarrow> bool \<Rightarrow> nat \<Rightarrow> nat) \<Rightarrow> pmtu \<Rightarrow> (pmtu_action list \<times> pmtu) option" where
  "tick_send powf p =
     (case phase p of
        Steady \<Rightarrow>
          Some (SendProbe (max (maxmtu p) MIN_PROBE_SIZE) True #
                (if sat_add_u16 (maxmtu p) 1 < MTU then [SendProbe (sat_add_u16 (maxmtu p) 1) False] else []), p)
      | Revalidate _ \<Rightarrow> Some ([SendProbe (max (maxmtu p) MIN_PROBE_SIZE) True], p)
      | Lost \<Rightarrow> None
      | Fix \<Rightarrow> None
      | Discovery sent \<Rightarrow>
          (let len = probe_size powf (minmtu p) (maxmtu p) sent;
               sent1 = (sent + 1) mod 256
           in Some ([SendProbe (max len MIN_PROBE_SIZE) False],
                    p\<lparr>phase := if 20 \<le> sent1 then Fix else Discovery sent1\<rparr>)))"

definition tick :: "(nat \<Rightarrow> bool \<Rightarrow> nat \<Rightarrow> nat) \<Rightarrow> instant \<Rightarrow> duration \<Rightarrow> pmtu \<Rightarrow> (pmtu_action list \<times> pmtu) option" where
  "tick powf now pinginterval p =
     (if tick_gated now pinginterval p then Some ([], p)
      else
        let p = p\<lparr>mtu_ping_sent := now\<rparr>;
            (p, out) = try_fix_mtu p;
            (p, out) = (if phase p = Lost then (p\<lparr>phase := Discovery 0, minmtu := 0\<rparr>, out @ [LogReset]) else (p, out))
        in do { (sent, p) \<leftarrow> tick_send powf p; Some (out @ sent, p) })"

definition on_counted_probe_sent :: "pmtu \<Rightarrow> pmtu" where
  "on_counted_probe_sent p =
     p\<lparr>phase := (case phase p of
         Steady \<Rightarrow> Revalidate 1
       | Revalidate misses \<Rightarrow> if 2 \<le> misses then Lost else Revalidate (misses + 1)
       | ph \<Rightarrow> ph)\<rparr>"

definition on_meta_ack :: "nat \<Rightarrow> instant \<Rightarrow> pmtu \<Rightarrow> bool \<times> pmtu" where
  "on_meta_ack len now p =
     (let len = min len MTU;
          p = (if is_fixed (phase p) \<and> maxmtu p \<le> len then p\<lparr>phase := Steady, mtu_ping_sent := now\<rparr> else p)
      in if \<not> ping_sent p then (False, p)
         else
           let p = p\<lparr>udp_confirmed := True, udp_reply_rx := now\<rparr>;
               p = (if maxmtu p < len then p\<lparr>maxmtu := len\<rparr> else p);
               p = (if MINMTU \<le> len \<and> minmtu p < len then p\<lparr>minmtu := len\<rparr> else p)
           in (True, p))"

definition on_probe_reply :: "nat \<Rightarrow> instant \<Rightarrow> pmtu \<Rightarrow> pmtu_action list \<times> pmtu" where
  "on_probe_reply len now p =
     (let len = min len MTU;
          p = (if ping_sent p
               then p\<lparr>udp_ping_rtt := Some (min (as_micros (duration_since now (udp_ping_sent p))) 4294967295),
                      ping_sent := False\<rparr>
               else p);
          p = p\<lparr>udp_confirmed := True, udp_reply_rx := now\<rparr>
      in if maxmtu p < len then
           ([LogIncrease], p\<lparr>minmtu := if MINMTU \<le> len then len else 0, maxmtu := MTU, phase := Discovery 1\<rparr>)
         else
           let p = (if is_fixed (phase p) \<and> len = maxmtu p then p\<lparr>phase := Steady, mtu_ping_sent := now\<rparr> else p)
           in if MINMTU \<le> len \<and> minmtu p < len then
                let (p, out) = try_fix_mtu (p\<lparr>minmtu := len\<rparr>) in (out, p)
              else ([], p))"

definition on_emsgsize :: "nat \<Rightarrow> pmtu \<Rightarrow> pmtu_action list \<times> pmtu" where
  "on_emsgsize at_len p =
     (let m = max (at_len - 1) MINMTU;
          p = (if m < maxmtu p then p\<lparr>maxmtu := m\<rparr> else p);
          p = (if m < mtu p then p\<lparr>mtu := m\<rparr> else p);
          (p, out) = try_fix_mtu p
      in (out, p))"

definition on_udp_timeout :: "pmtu \<Rightarrow> pmtu" where
  "on_udp_timeout p =
     (if \<not> udp_confirmed p then p
      else
        let p = p\<lparr>udp_confirmed := False, ping_sent := False, udp_probe_attempted := False,
                  udp_ping_rtt := None, maxrecentlen := 0\<rparr>;
            p = start_discovery p
        in p\<lparr>minmtu := 0, maxmtu := MTU\<rparr>)"

subsection \<open>The daemon's own writes\<close>

definition seed_maxmtu :: "instant \<Rightarrow> nat \<Rightarrow> pmtu option \<Rightarrow> pmtu" where
  "seed_maxmtu now initial_maxmtu st =
     (let p = (case st of None \<Rightarrow> pmtu_new now initial_maxmtu | Some p \<Rightarrow> p)
      in if is_discovery_start (phase p) then p\<lparr>maxmtu := initial_maxmtu\<rparr> else p)"

definition apply_pmtu_cap :: "instant \<Rightarrow> nat \<Rightarrow> pmtu option \<Rightarrow> pmtu" where
  "apply_pmtu_cap now cap st =
     (let p = (case st of None \<Rightarrow> pmtu_new now (min cap MTU) | Some p \<Rightarrow> p);
          p = (if mtu p = 0 \<or> cap < mtu p then p\<lparr>mtu := cap\<rparr> else p)
      in p\<lparr>maxmtu := min (maxmtu p) cap\<rparr>)"

definition pmtu_unreachable :: "pmtu \<Rightarrow> pmtu" where
  "pmtu_unreachable p =
     (start_discovery (p\<lparr>maxmtu := MTU, minmtu := 0\<rparr>))
       \<lparr>maxrecentlen := 0, udp_confirmed := False, ping_sent := False, udp_ping_rtt := None\<rparr>"

definition choose_initial_maxmtu :: "bool \<Rightarrow> int option \<Rightarrow> nat" where
  "choose_initial_maxmtu is_ipv6 ip_mtu =
     (case ip_mtu of
        None \<Rightarrow> MTU
      | Some m \<Rightarrow>
          if m < int MINMTU then MTU
          else
            let m = min (nat m) 65535;
                ip_hdr = (if is_ipv6 then 40 else 20)
            in min (m - (ip_hdr + 8 + 12 + 21)) MTU)"

section \<open>Runs\<close>

datatype pmtu_event =
    Tick instant duration | CountedProbeSent | MetaAck nat instant | ProbeReply nat instant
  | Emsgsize nat | UdpTimeout | ProbeAttempt instant bool | Seed instant nat | Cap instant nat
  | Unreachable | ProvisionalMtu nat | Recent nat

fun pmtu_step :: "(nat \<Rightarrow> bool \<Rightarrow> nat \<Rightarrow> nat) \<Rightarrow> pmtu_event \<Rightarrow> pmtu \<Rightarrow> (pmtu_action list \<times> pmtu) option" where
  "pmtu_step powf (Tick now interval) p = tick powf now interval p"
| "pmtu_step powf CountedProbeSent p = Some ([], on_counted_probe_sent p)"
| "pmtu_step powf (MetaAck len now) p = Some ([], snd (on_meta_ack len now p))"
| "pmtu_step powf (ProbeReply len now) p = Some (on_probe_reply len now p)"
| "pmtu_step powf (Emsgsize at) p = Some (on_emsgsize at p)"
| "pmtu_step powf UdpTimeout p = Some ([], on_udp_timeout p)"
| "pmtu_step powf (ProbeAttempt now sent) p = Some ([], on_udp_probe_attempt now sent p)"
| "pmtu_step powf (Seed now initial) p = Some ([], seed_maxmtu now initial (Some p))"
| "pmtu_step powf (Cap now cap) p = Some ([], apply_pmtu_cap now cap (Some p))"
| "pmtu_step powf Unreachable p = Some ([], pmtu_unreachable p)"
| "pmtu_step powf (ProvisionalMtu m) p = Some ([], p\<lparr>mtu := m\<rparr>)"
| "pmtu_step powf (Recent len) p = Some ([], p\<lparr>maxrecentlen := len\<rparr>)"

fun pmtu_run :: "(nat \<Rightarrow> bool \<Rightarrow> nat \<Rightarrow> nat) \<Rightarrow> pmtu_event list \<Rightarrow> pmtu \<Rightarrow> (pmtu_action list \<times> pmtu) option" where
  "pmtu_run powf [] p = Some ([], p)"
| "pmtu_run powf (e # es) p = do {
     (out, p) \<leftarrow> pmtu_step powf e p;
     (outs, p) \<leftarrow> pmtu_run powf es p;
     Some (out @ outs, p) }"

text \<open>The documented facts on \<open>powf\<close> for a base of at least one and an exponent in \<open>[0, 1]\<close>.\<close>

definition powf_ok :: "(nat \<Rightarrow> bool \<Rightarrow> nat \<Rightarrow> nat) \<Rightarrow> bool" where
  "powf_ok powf \<longleftrightarrow> (\<forall>i s k. 0 < i \<and> k < PROBES_PER_CYCLE \<longrightarrow> 1 \<le> powf i s k \<and> powf i s k \<le> i)"

definition mtu_range :: "nat \<Rightarrow> bool" where
  "mtu_range m \<longleftrightarrow> m = 0 \<or> (MINMTU \<le> m \<and> m \<le> MTU)"

fun phase_ok :: "pmtu_phase \<Rightarrow> bool" where
  "phase_ok (Discovery sent) \<longleftrightarrow> sent < 20"
| "phase_ok (Revalidate misses) \<longleftrightarrow> misses = 1 \<or> misses = 2"
| "phase_ok _ \<longleftrightarrow> True"

definition pmtu_inv :: "pmtu \<Rightarrow> bool" where
  "pmtu_inv p \<longleftrightarrow> mtu_range (minmtu p) \<and> maxmtu p \<le> MTU \<and> phase_ok (phase p)"

fun action_ok :: "pmtu_action \<Rightarrow> bool" where
  "action_ok (SendProbe len counts) \<longleftrightarrow> 1 \<le> len \<and> len \<le> MTU \<and> (counts \<longrightarrow> MIN_PROBE_SIZE \<le> len)"
| "action_ok (LogFixed m probes) \<longleftrightarrow> mtu_range m \<and> probes \<le> 20"
| "action_ok _ \<longleftrightarrow> True"

fun event_ok :: "pmtu_event \<Rightarrow> bool" where
  "event_ok (Seed now initial) \<longleftrightarrow> initial \<le> MTU"
| "event_ok _ \<longleftrightarrow> True"

lemmas pmtu_consts = MTU_def MINMTU_def MIN_PROBE_SIZE_def PROBES_PER_CYCLE_def

lemma choose_initial_maxmtu_le: "choose_initial_maxmtu v6 m \<le> MTU"
  by (auto simp: choose_initial_maxmtu_def Let_def split: option.splits)

lemma probe_size_bounds:
  assumes "powf_ok powf" "minm \<le> MTU" "maxm \<le> MTU"
  shows "MINMTU \<le> probe_size powf minm maxm sent" "probe_size powf minm maxm sent \<le> MTU"
proof -
  let ?i = "maxm - max minm MINMTU"
  have pw: "0 < ?i \<Longrightarrow> powf ?i s (PROBES_PER_CYCLE - sent mod PROBES_PER_CYCLE - 1) \<le> ?i" for s
    using assms(1) by (simp add: powf_ok_def PROBES_PER_CYCLE_def)
  define off where "off = (if 0 < ?i then powf ?i (maxm = MTU) (PROBES_PER_CYCLE - sent mod PROBES_PER_CYCLE - 1) else 0)"
  have "off \<le> ?i" using pw by (simp add: off_def)
  hence le: "max minm MINMTU + off \<le> MTU" using assms(2,3) by (auto simp: pmtu_consts)
  have "probe_size powf minm maxm sent = max minm MINMTU + off"
  proof -
    have "probe_size powf minm maxm sent = (max minm MINMTU + off) mod 2 ^ 16"
      by (simp only: probe_size_def Let_def off_def)
    thus ?thesis using le by (simp add: pmtu_consts)
  qed
  thus "MINMTU \<le> probe_size powf minm maxm sent" "probe_size powf minm maxm sent \<le> MTU"
    using le by auto
qed

text \<open>\<open>try_fix_mtu\<close> leaves the searching phases only, and by a consistent fixed value.\<close>

lemma try_fix_mtu_cases:
  obtains (keep) "try_fix_mtu p = (p, [])" "phase p \<noteq> Fix" "is_fixed (phase p) \<or> minmtu p < maxmtu p"
  | (fixed) m probes where "\<not> is_fixed (phase p)" "phase p = Fix \<and> probes = 20 \<or> phase p = Discovery probes \<and> maxmtu p \<le> minmtu p"
      "m = (if maxmtu p < minmtu p then if MINMTU \<le> maxmtu p then maxmtu p else 0 else minmtu p)"
      "try_fix_mtu p = (p\<lparr>minmtu := m, maxmtu := m, mtu := m, phase := Steady\<rparr>, [LogFixed m probes])"
proof (cases "phase p")
  case (Discovery sent)
  show ?thesis
  proof (cases "maxmtu p \<le> minmtu p")
    case True
    show ?thesis by (rule fixed [where probes = sent, OF _ _ refl]) (use True Discovery in \<open>simp_all add: try_fix_mtu_def Let_def\<close>)
  next
    case False
    show ?thesis by (rule keep) (use False Discovery in \<open>simp_all add: try_fix_mtu_def\<close>)
  qed
next
  case Fix
  show ?thesis by (rule fixed [where probes = 20, OF _ _ refl]) (use Fix in \<open>simp_all add: try_fix_mtu_def Let_def\<close>)
qed (rule keep; simp add: try_fix_mtu_def)+

section \<open>The invariant\<close>

lemma try_fix_mtu_inv:
  assumes "pmtu_inv p" "try_fix_mtu p = (q, out)"
  shows "pmtu_inv q" "list_all action_ok out" "phase q \<noteq> Fix" "phase q = Lost \<longleftrightarrow> phase p = Lost"
proof -
  have "pmtu_inv q \<and> list_all action_ok out \<and> phase q \<noteq> Fix \<and> (phase q = Lost \<longleftrightarrow> phase p = Lost)"
  proof (cases p rule: try_fix_mtu_cases)
    case keep
    thus ?thesis using assms by simp
  next
    case (fixed m probes)
    have m: "mtu_range m" "m \<le> MTU" using fixed(3) assms(1) by (auto simp: pmtu_inv_def mtu_range_def)
    have "probes \<le> 20" using fixed(2) assms(1) by (auto simp: pmtu_inv_def)
    moreover have "phase p \<noteq> Lost" using fixed(1) by auto
    moreover have "q = p\<lparr>minmtu := m, maxmtu := m, mtu := m, phase := Steady\<rparr>" "out = [LogFixed m probes]"
      using fixed(4) assms(2) by simp_all
    ultimately show ?thesis using m by (simp add: pmtu_inv_def)
  qed
  thus "pmtu_inv q" "list_all action_ok out" "phase q \<noteq> Fix" "phase q = Lost \<longleftrightarrow> phase p = Lost" by simp_all
qed

lemma tick_send_inv:
  assumes "powf_ok powf" "pmtu_inv p" "phase p \<noteq> Fix" "phase p \<noteq> Lost"
  shows "\<exists>out q. tick_send powf p = Some (out, q) \<and> pmtu_inv q \<and> list_all action_ok out"
proof (cases "phase p")
  case (Discovery sent)
  have "minmtu p \<le> MTU" using assms(2) by (auto simp: pmtu_inv_def mtu_range_def)
  note b = probe_size_bounds [OF assms(1) this, of "maxmtu p" sent]
  show ?thesis using b Discovery assms(2)
    by (auto simp: tick_send_def Let_def pmtu_inv_def mtu_range_def pmtu_consts)
qed (use assms in \<open>auto simp: tick_send_def pmtu_inv_def mtu_range_def pmtu_consts sat_add_u16_def\<close>)

lemma tick_inv:
  assumes "powf_ok powf" "pmtu_inv p"
  shows "\<exists>out q. tick powf now interval p = Some (out, q) \<and> pmtu_inv q \<and> list_all action_ok out"
proof (cases "tick_gated now interval p")
  case False
  obtain p1 o1 where f: "try_fix_mtu (p\<lparr>mtu_ping_sent := now\<rparr>) = (p1, o1)" by fastforce
  have "pmtu_inv (p\<lparr>mtu_ping_sent := now\<rparr>)" using assms(2) by (simp add: pmtu_inv_def)
  note fx = try_fix_mtu_inv [OF this f]
  define p2 where "p2 = (if phase p1 = Lost then p1\<lparr>phase := Discovery 0, minmtu := 0\<rparr> else p1)"
  define o2 where "o2 = (if phase p1 = Lost then o1 @ [LogReset] else o1)"
  have p2: "pmtu_inv p2" "phase p2 \<noteq> Fix" "phase p2 \<noteq> Lost" "list_all action_ok o2"
    using fx by (auto simp: p2_def o2_def pmtu_inv_def mtu_range_def)
  obtain o3 q where q: "tick_send powf p2 = Some (o3, q)" "pmtu_inv q" "list_all action_ok o3"
    using tick_send_inv [OF assms(1) p2(1-3)] by auto
  have "tick powf now interval p = Some (o2 @ o3, q)"
    using False f q(1) by (simp add: tick_def Let_def p2_def o2_def split: if_splits)
  thus ?thesis using q p2 by simp
qed (use assms in \<open>simp add: tick_def\<close>)

text \<open>
  The branches of \<open>on_probe_reply\<close> and \<open>on_emsgsize\<close>, up to the fields that play no part in the search.
\<close>

definition same_search :: "pmtu \<Rightarrow> pmtu \<Rightarrow> bool" where
  "same_search p q \<longleftrightarrow> minmtu q = minmtu p \<and> maxmtu q = maxmtu p \<and> mtu q = mtu p \<and>
     (phase q = phase p \<or> is_fixed (phase p) \<and> phase q = Steady)"

lemma same_search_inv: "same_search p q \<Longrightarrow> pmtu_inv p \<Longrightarrow> pmtu_inv q"
  by (auto simp: same_search_def pmtu_inv_def)

lemma on_probe_reply_cases:
  assumes "on_probe_reply len now p = (out, q)"
  obtains (inc) "maxmtu p < min len MTU" "out = [LogIncrease]" "mtu q = mtu p" "maxmtu q = MTU" "phase q = Discovery 1"
      "minmtu q = (if MINMTU \<le> min len MTU then min len MTU else 0)"
  | (raise) p2 where "same_search p p2" "min len MTU \<le> maxmtu p" "MINMTU \<le> min len MTU" "minmtu p < min len MTU"
      "try_fix_mtu (p2\<lparr>minmtu := min len MTU\<rparr>) = (q, out)"
  | (none) "out = []" "same_search p q" "min len MTU \<le> maxmtu p"
proof -
  let ?l = "min len MTU"
  define p1 where "p1 = (if ping_sent p
               then p\<lparr>udp_ping_rtt := Some (min (as_micros (duration_since now (udp_ping_sent p))) 4294967295),
                      ping_sent := False\<rparr> else p)\<lparr>udp_confirmed := True, udp_reply_rx := now\<rparr>"
  define p2 where "p2 = (if is_fixed (phase p1) \<and> ?l = maxmtu p1 then p1\<lparr>phase := Steady, mtu_ping_sent := now\<rparr> else p1)"
  have p1: "minmtu p1 = minmtu p" "maxmtu p1 = maxmtu p" "phase p1 = phase p" "mtu p1 = mtu p" by (simp_all add: p1_def)
  have p2: "same_search p p2" using p1 by (auto simp: p2_def same_search_def)
  have r: "on_probe_reply len now p =
      (if maxmtu p1 < ?l then ([LogIncrease], p1\<lparr>minmtu := if MINMTU \<le> ?l then ?l else 0, maxmtu := MTU, phase := Discovery 1\<rparr>)
       else if MINMTU \<le> ?l \<and> minmtu p2 < ?l then let (p, out) = try_fix_mtu (p2\<lparr>minmtu := ?l\<rparr>) in (out, p) else ([], p2))"
    by (simp add: on_probe_reply_def p1_def p2_def Let_def cong: if_cong)
  consider (inc') "maxmtu p1 < ?l"
    | (raise') "\<not> maxmtu p1 < ?l" "MINMTU \<le> ?l \<and> minmtu p2 < ?l"
    | (none') "\<not> maxmtu p1 < ?l" "\<not> (MINMTU \<le> ?l \<and> minmtu p2 < ?l)" by blast
  thus thesis
  proof cases
    case inc'
    show thesis by (rule inc) (use inc' r assms p1 in auto)
  next
    case raise'
    hence "try_fix_mtu (p2\<lparr>minmtu := ?l\<rparr>) = (q, out)" using r assms by (auto split: prod.splits)
    thus thesis using raise [OF p2] raise' p1 p2 by (simp add: same_search_def)
  next
    case none'
    hence "(out, q) = ([], p2)" using r assms by (simp only: if_False)
    thus thesis using none p2 none'(1) p1(2) by simp
  qed
qed

lemma on_probe_reply_inv:
  assumes "pmtu_inv p" "on_probe_reply len now p = (out, q)"
  shows "pmtu_inv q \<and> list_all action_ok out"
  using assms(2)
proof (cases rule: on_probe_reply_cases)
  case (raise p2)
  have "pmtu_inv (p2\<lparr>minmtu := min len MTU\<rparr>)"
    using same_search_inv [OF raise(1) assms(1)] raise(3) by (simp add: pmtu_inv_def mtu_range_def)
  thus ?thesis using try_fix_mtu_inv raise(5) by blast
qed (use assms(1) same_search_inv in \<open>auto simp: pmtu_inv_def mtu_range_def\<close>)

lemma on_emsgsize_cases:
  assumes "on_emsgsize len p = (out, q)"
  obtains p2 where "try_fix_mtu p2 = (q, out)" "minmtu p2 = minmtu p" "phase p2 = phase p"
    "maxmtu p2 = min (maxmtu p) (max (len - 1) MINMTU)" "mtu p2 = min (mtu p) (max (len - 1) MINMTU)"
proof -
  let ?m = "max (len - 1) MINMTU"
  define p1 where "p1 = (if ?m < maxmtu p then p\<lparr>maxmtu := ?m\<rparr> else p)"
  define p2 where "p2 = (if ?m < mtu p1 then p1\<lparr>mtu := ?m\<rparr> else p1)"
  show thesis
  proof (rule that [of p2])
    show "try_fix_mtu p2 = (q, out)"
      using assms unfolding on_emsgsize_def Let_def p1_def [symmetric] p2_def [symmetric] by (simp split: prod.splits)
  qed (auto simp: p1_def p2_def)
qed

lemma on_emsgsize_inv:
  assumes "pmtu_inv p" "on_emsgsize len p = (out, q)"
  shows "pmtu_inv q \<and> list_all action_ok out"
  using assms(2)
proof (cases rule: on_emsgsize_cases)
  case (1 p2)
  have "pmtu_inv p2" using 1 assms(1) by (simp add: pmtu_inv_def min.coboundedI1)
  thus ?thesis using try_fix_mtu_inv 1(1) by blast
qed

lemma pmtu_step_inv:
  assumes "powf_ok powf" "pmtu_inv p" "event_ok e"
  shows "\<exists>out q. pmtu_step powf e p = Some (out, q) \<and> pmtu_inv q \<and> list_all action_ok out"
proof (cases e)
  case (Tick now i)
  thus ?thesis using tick_inv [OF assms(1,2)] by simp
next
  case (ProbeReply len now)
  obtain out q where "on_probe_reply len now p = (out, q)" by fastforce
  thus ?thesis using on_probe_reply_inv [OF assms(2)] ProbeReply by simp
next
  case (Emsgsize len)
  obtain out q where "on_emsgsize len p = (out, q)" by fastforce
  thus ?thesis using on_emsgsize_inv [OF assms(2)] Emsgsize by simp
next
  case (MetaAck len now)
  thus ?thesis using assms(2) by (auto simp: on_meta_ack_def Let_def pmtu_inv_def mtu_range_def)
next
  case CountedProbeSent
  thus ?thesis using assms(2) by (cases "phase p") (auto simp: on_counted_probe_sent_def pmtu_inv_def)
qed (use assms in \<open>auto simp: on_udp_timeout_def start_discovery_def on_udp_probe_attempt_def seed_maxmtu_def
      apply_pmtu_cap_def pmtu_unreachable_def pmtu_inv_def mtu_range_def Let_def\<close>)

lemma pmtu_run_inv:
  assumes "powf_ok powf" "list_all event_ok es" "pmtu_inv p"
  shows "\<exists>out q. pmtu_run powf es p = Some (out, q) \<and> pmtu_inv q \<and> list_all action_ok out"
  using assms(2,3)
proof (induction es arbitrary: p)
  case (Cons e es)
  obtain o1 p1 where s: "pmtu_step powf e p = Some (o1, p1)" "pmtu_inv p1" "list_all action_ok o1"
    using pmtu_step_inv [OF assms(1) Cons.prems(2), of e] Cons.prems(1) by auto
  thus ?case using Cons.IH [OF _ s(2)] Cons.prems(1) by force
qed simp

lemma pmtu_new_inv: "initial \<le> MTU \<Longrightarrow> pmtu_inv (pmtu_new now initial)"
  by (simp add: pmtu_new_def pmtu_inv_def mtu_range_def)

text \<open>
  Whatever the order of ticks, replies, meta-channel acknowledgements with any announced length,
  EMSGSIZE errors, timeouts and resets, discovery never panics; the lower bound is always 0 or in
  \<open>MINMTU..=MTU\<close>, the upper bound never exceeds \<open>MTU\<close>, the counters stay in their documented ranges,
  and every probe it asks for fits into \<open>1..=MTU\<close>, counted ones being of at least the minimum size.
\<close>

lemma pmtu_invariant:
  assumes "powf_ok powf" "initial \<le> MTU" "list_all event_ok es"
  shows "\<exists>out q. pmtu_run powf es (pmtu_new now initial) = Some (out, q) \<and> pmtu_inv q \<and> list_all action_ok out"
  using pmtu_run_inv [OF assms(1,3) pmtu_new_inv [OF assms(2)]] .

definition demo_powf :: "nat \<Rightarrow> bool \<Rightarrow> nat \<Rightarrow> nat" where
  "demo_powf i s k = max 1 (i * k div 7)"

lemma demo_powf_ok: "powf_ok demo_powf"
proof -
  have "i * k div 7 \<le> i" if "k \<le> 7" for i k :: nat
    using div_le_mono [OF mult_le_mono2 [OF that, of i], of 7] by simp
  thus ?thesis by (simp add: powf_ok_def demo_powf_def PROBES_PER_CYCLE_def)
qed

definition demo_events :: "pmtu_event list" where
  "demo_events = [Seed 0 1457, ProbeAttempt 0 True, ProbeReply 18 1000000, Tick 2000000 60000000000,
     ProbeReply 1322 3000000, Tick 400000000 60000000000, Emsgsize 1452, ProbeReply 1451 500000000]"

section \<open>Soundness on a path\<close>

text \<open>
  A path that carries exactly the datagrams of length up to \<open>P\<close>: only such lengths are ever
  acknowledged, EMSGSIZE is reported only above, and the kernel's route MTU is not below it.
\<close>

fun path_event :: "nat \<Rightarrow> pmtu_event \<Rightarrow> bool" where
  "path_event P (MetaAck len now) \<longleftrightarrow> len \<le> P"
| "path_event P (ProbeReply len now) \<longleftrightarrow> len \<le> P"
| "path_event P (Emsgsize len) \<longleftrightarrow> P < len"
| "path_event P (Seed now initial) \<longleftrightarrow> P \<le> initial \<and> initial \<le> MTU"
| "path_event P (Cap now cap) \<longleftrightarrow> False"
| "path_event P (ProvisionalMtu m) \<longleftrightarrow> False"
| "path_event P _ \<longleftrightarrow> True"

definition below_path :: "nat \<Rightarrow> pmtu \<Rightarrow> bool" where
  "below_path P p \<longleftrightarrow> minmtu p \<le> P \<and> mtu p \<le> P"

definition brackets :: "nat \<Rightarrow> pmtu \<Rightarrow> bool" where
  "brackets P p \<longleftrightarrow> (\<not> is_fixed (phase p) \<longrightarrow> P \<le> maxmtu p)"

definition fixes_sound :: "nat \<Rightarrow> pmtu_action list \<Rightarrow> bool" where
  "fixes_sound P out \<longleftrightarrow> (\<forall>m k. LogFixed m k \<in> set out \<longrightarrow> m \<le> P)"

definition fixes_exact :: "nat \<Rightarrow> pmtu_action list \<Rightarrow> bool" where
  "fixes_exact P out \<longleftrightarrow> (\<forall>m k. LogFixed m k \<in> set out \<longrightarrow> k < 20 \<longrightarrow> m = P)"

lemma fixes_append [simp]:
  "fixes_sound P (a @ b) \<longleftrightarrow> fixes_sound P a \<and> fixes_sound P b"
  "fixes_exact P (a @ b) \<longleftrightarrow> fixes_exact P a \<and> fixes_exact P b"
  "fixes_sound P []" "fixes_exact P []" "fixes_sound P (LogReset # a) = fixes_sound P a" "fixes_exact P (LogReset # a) = fixes_exact P a"
  by (auto simp: fixes_sound_def fixes_exact_def)

lemma try_fix_mtu_path:
  assumes "below_path P p" "try_fix_mtu p = (q, out)"
  shows "below_path P q" "fixes_sound P out" "LogReset \<notin> set out"
    "brackets P p \<Longrightarrow> brackets P q \<and> fixes_exact P out"
proof -
  have "below_path P q \<and> fixes_sound P out \<and> LogReset \<notin> set out \<and> (brackets P p \<longrightarrow> brackets P q \<and> fixes_exact P out)"
  proof (cases p rule: try_fix_mtu_cases)
    case keep
    thus ?thesis using assms by simp
  next
    case (fixed m probes)
    have q: "q = p\<lparr>minmtu := m, maxmtu := m, mtu := m, phase := Steady\<rparr>" "out = [LogFixed m probes]"
      using fixed(4) assms(2) by simp_all
    have "m \<le> P" using fixed(3) assms(1) by (auto simp: below_path_def)
    moreover have "brackets P p \<Longrightarrow> probes < 20 \<Longrightarrow> m = P"
      using fixed(1-3) assms(1) by (auto simp: brackets_def below_path_def)
    ultimately show ?thesis using q
      by (simp add: below_path_def brackets_def fixes_sound_def fixes_exact_def)
  qed
  thus "below_path P q" "fixes_sound P out" "LogReset \<notin> set out"
    "brackets P p \<Longrightarrow> brackets P q \<and> fixes_exact P out" by simp_all
qed

lemma tick_send_path:
  assumes "tick_send powf p = Some (out, q)"
  shows "minmtu q = minmtu p" "mtu q = mtu p" "maxmtu q = maxmtu p" "is_fixed (phase q) = is_fixed (phase p)"
    "fixes_sound P out" "fixes_exact P out" "LogReset \<notin> set out"
  using assms by (auto simp: tick_send_def fixes_sound_def fixes_exact_def Let_def split: pmtu_phase.splits if_splits)

lemma tick_unfold:
  assumes "tick powf now interval p = Some (out, q)" "\<not> tick_gated now interval p"
  obtains p1 o1 o2 where "try_fix_mtu (p\<lparr>mtu_ping_sent := now\<rparr>) = (p1, o1)"
    "tick_send powf (if phase p1 = Lost then p1\<lparr>phase := Discovery 0, minmtu := 0\<rparr> else p1) = Some (o2, q)"
    "out = (if phase p1 = Lost then o1 @ [LogReset] else o1) @ o2"
proof -
  obtain p1 o1 where f: "try_fix_mtu (p\<lparr>mtu_ping_sent := now\<rparr>) = (p1, o1)" by fastforce
  show thesis using assms f that [OF f] by (auto simp: tick_def Let_def split: bind_splits if_splits)
qed

definition path_step :: "nat \<Rightarrow> pmtu \<Rightarrow> pmtu_action list \<Rightarrow> pmtu \<Rightarrow> bool" where
  "path_step P p out q \<longleftrightarrow> below_path P q \<and> fixes_sound P out \<and>
     (brackets P p \<longrightarrow> fixes_exact P out \<and> (LogReset \<notin> set out \<longrightarrow> brackets P q))"

lemma tick_path:
  assumes "below_path P p" "tick powf now interval p = Some (out, q)"
  shows "path_step P p out q"
proof (cases "tick_gated now interval p")
  case True
  thus ?thesis using assms by (simp add: tick_def path_step_def)
next
  case False
  obtain p1 o1 o2 where t: "try_fix_mtu (p\<lparr>mtu_ping_sent := now\<rparr>) = (p1, o1)"
    "tick_send powf (if phase p1 = Lost then p1\<lparr>phase := Discovery 0, minmtu := 0\<rparr> else p1) = Some (o2, q)"
    "out = (if phase p1 = Lost then o1 @ [LogReset] else o1) @ o2" using tick_unfold [OF assms(2) False] by metis
  have "below_path P (p\<lparr>mtu_ping_sent := now\<rparr>)" using assms(1) by (simp add: below_path_def)
  note f = try_fix_mtu_path [OF this t(1)]
  have b: "brackets P (p\<lparr>mtu_ping_sent := now\<rparr>) = brackets P p" by (simp add: brackets_def)
  note ts = tick_send_path [OF t(2)]
  show ?thesis
  proof (cases "phase p1 = Lost")
    case True
    hence "below_path P q" using f(1) ts(1,2) by (simp add: below_path_def)
    thus ?thesis using True t(3) f ts b by (auto simp: path_step_def)
  next
    case False
    hence "below_path P q" "brackets P p1 \<Longrightarrow> brackets P q" using f(1) ts(1-4) by (simp_all add: below_path_def brackets_def)
    thus ?thesis using False t(3) f ts b by (auto simp: path_step_def)
  qed
qed

lemma on_probe_reply_path:
  assumes "below_path P p" "len \<le> P" "P \<le> MTU" "on_probe_reply len now p = (out, q)"
  shows "path_step P p out q"
  using assms(4)
proof (cases rule: on_probe_reply_cases)
  case (raise p2)
  have "below_path P (p2\<lparr>minmtu := min len MTU\<rparr>)" "brackets P (p2\<lparr>minmtu := min len MTU\<rparr>) = brackets P p"
    using assms(1,2) raise(1) by (auto simp: below_path_def brackets_def same_search_def)
  thus ?thesis using try_fix_mtu_path [OF _ raise(5), of P] by (simp add: path_step_def)
qed (use assms(1-3) in \<open>auto simp: path_step_def below_path_def brackets_def same_search_def fixes_sound_def fixes_exact_def\<close>)

lemma on_emsgsize_path:
  assumes "below_path P p" "P < len" "on_emsgsize len p = (out, q)"
  shows "path_step P p out q"
  using assms(3)
proof (cases rule: on_emsgsize_cases)
  case (1 p2)
  have "below_path P p2" "brackets P p \<Longrightarrow> brackets P p2"
    using 1 assms(1,2) by (auto simp: below_path_def brackets_def)
  thus ?thesis using try_fix_mtu_path [OF _ 1(1)] by (simp add: path_step_def)
qed

lemma on_meta_ack_path:
  assumes "below_path P p" "len \<le> P"
  shows "path_step P p [] (snd (on_meta_ack len now p))"
  using assms by (auto simp: on_meta_ack_def Let_def path_step_def below_path_def brackets_def)

lemma pmtu_step_path:
  assumes "below_path P p" "P \<le> MTU" "path_event P e" "pmtu_step powf e p = Some (out, q)"
  shows "path_step P p out q"
proof (cases e)
  case (Tick now i)
  thus ?thesis using tick_path assms by simp
next
  case (ProbeReply len now)
  thus ?thesis using on_probe_reply_path assms by simp
next
  case (Emsgsize len)
  thus ?thesis using on_emsgsize_path assms by simp
next
  case (MetaAck len now)
  thus ?thesis using on_meta_ack_path assms by auto
next
  case CountedProbeSent
  thus ?thesis using assms by (cases "phase p") (auto simp: on_counted_probe_sent_def path_step_def below_path_def brackets_def split: if_splits)
qed (use assms in \<open>auto simp: on_udp_timeout_def start_discovery_def on_udp_probe_attempt_def seed_maxmtu_def
      pmtu_unreachable_def path_step_def below_path_def brackets_def Let_def split: if_splits\<close>)

lemma path_event_ok: "path_event P e \<Longrightarrow> event_ok e"
  by (cases e) auto

lemma pmtu_run_path:
  assumes "P \<le> MTU" "list_all (path_event P) es" "below_path P p" "pmtu_run powf es p = Some (out, q)"
  shows "below_path P q \<and> fixes_sound P out \<and> (brackets P p \<longrightarrow> LogReset \<notin> set out \<longrightarrow> fixes_exact P out)"
  using assms(2-4)
proof (induction es arbitrary: p out)
  case (Cons e es)
  obtain o1 p1 o2 where r: "pmtu_step powf e p = Some (o1, p1)" "pmtu_run powf es p1 = Some (o2, q)" "out = o1 @ o2"
    using Cons.prems(3) by (auto split: bind_splits)
  have s1: "path_step P p o1 p1" using pmtu_step_path [OF Cons.prems(2) assms(1) _ r(1)] Cons.prems(1) by simp
  hence "below_path P q \<and> fixes_sound P o2 \<and> (brackets P p1 \<longrightarrow> LogReset \<notin> set o2 \<longrightarrow> fixes_exact P o2)"
    using Cons.IH [OF _ _ r(2)] Cons.prems(1) by (simp add: path_step_def)
  thus ?case using s1 r(3) by (auto simp: path_step_def)
qed simp

text \<open>
  C32: on a path that carries exactly the datagrams up to length \<open>P\<close>, from a discovery state seeded with a
  value between \<open>P\<close> and the largest MTU, no sequence of events of that path panics, and the MTU in use and
  every value the search fixes are at most \<open>P\<close>. As long as the path was never lost, a search that fixes a
  value before its twenty probes are used up has found \<open>P\<close> exactly; one that used them all up is only
  bounded by \<open>P\<close>. The events are those of \<open>path_event\<close>: a configured ceiling and the provisional MTU that a
  relay announces are not among them, as they write the bounds without a probe.
\<close>

theorem pmtu_sound:
  assumes "powf_ok powf" "P \<le> initial" "initial \<le> MTU" "list_all (path_event P) es"
  shows "\<exists>out q. pmtu_run powf es (pmtu_new now initial) = Some (out, q) \<and> mtu q \<le> P \<and> minmtu q \<le> P \<and>
    (\<forall>m k. LogFixed m k \<in> set out \<longrightarrow> m \<le> P) \<and>
    (LogReset \<notin> set out \<longrightarrow> (\<forall>m k. LogFixed m k \<in> set out \<longrightarrow> k < 20 \<longrightarrow> m = P))"
proof -
  have "list_all event_ok es" using assms(4) path_event_ok by (auto simp: list_all_iff)
  then obtain out q where r: "pmtu_run powf es (pmtu_new now initial) = Some (out, q)"
    using pmtu_run_inv [OF assms(1) _ pmtu_new_inv [OF assms(3)]] by blast
  have "below_path P (pmtu_new now initial)" "brackets P (pmtu_new now initial)" "P \<le> MTU"
    using assms(2,3) by (simp_all add: pmtu_new_def below_path_def brackets_def)
  thus ?thesis using pmtu_run_path [OF _ assms(4) _ r] r
    by (auto simp: below_path_def fixes_sound_def fixes_exact_def)
qed

theorem pmtu_sound_witness:
  "powf_ok demo_powf \<and> (1451::nat) \<le> 1518 \<and> (1518::nat) \<le> MTU \<and> list_all (path_event 1451) demo_events \<and>
   (\<exists>out q. pmtu_run demo_powf demo_events (pmtu_new 0 1518) = Some (out, q) \<and> mtu q \<le> 1451 \<and> minmtu q \<le> 1451 \<and>
    (\<forall>m k. LogFixed m k \<in> set out \<longrightarrow> m \<le> 1451) \<and>
    (LogReset \<notin> set out \<longrightarrow> (\<forall>m k. LogFixed m k \<in> set out \<longrightarrow> k < 20 \<longrightarrow> m = 1451)))"
proof -
  have "list_all (path_event 1451) demo_events" "(1518::nat) \<le> MTU" by (simp_all add: demo_events_def MTU_def)
  thus ?thesis using pmtu_sound [OF demo_powf_ok, of 1451 1518 demo_events 0] demo_powf_ok by auto
qed

section \<open>Convergence\<close>

fun budget :: "pmtu_phase \<Rightarrow> nat" where
  "budget (Discovery sent) = 21 - sent"
| "budget Fix = 1"
| "budget _ = 0"

fun calm :: "pmtu_event \<Rightarrow> pmtu \<Rightarrow> bool" where
  "calm (ProbeReply len now) p \<longleftrightarrow> min len MTU \<le> maxmtu p"
| "calm UdpTimeout p \<longleftrightarrow> False"
| "calm Unreachable p \<longleftrightarrow> False"
| "calm _ p \<longleftrightarrow> True"

fun due :: "pmtu_event \<Rightarrow> pmtu \<Rightarrow> bool" where
  "due (Tick now interval) p \<longleftrightarrow> \<not> tick_gated now interval p"
| "due _ p \<longleftrightarrow> False"

text \<open>All events of a run are calm where they occur; the number of due ticks; a steady state is met.\<close>

fun calm_run :: "(nat \<Rightarrow> bool \<Rightarrow> nat \<Rightarrow> nat) \<Rightarrow> pmtu_event list \<Rightarrow> pmtu \<Rightarrow> bool" where
  "calm_run powf [] p \<longleftrightarrow> True"
| "calm_run powf (e # es) p \<longleftrightarrow> calm e p \<and> (case pmtu_step powf e p of None \<Rightarrow> False | Some (_, q) \<Rightarrow> calm_run powf es q)"

fun due_ticks :: "(nat \<Rightarrow> bool \<Rightarrow> nat \<Rightarrow> nat) \<Rightarrow> pmtu_event list \<Rightarrow> pmtu \<Rightarrow> nat" where
  "due_ticks powf [] p = 0"
| "due_ticks powf (e # es) p = (if due e p then 1 else 0) +
     (case pmtu_step powf e p of None \<Rightarrow> 0 | Some (_, q) \<Rightarrow> due_ticks powf es q)"

fun meets_steady :: "(nat \<Rightarrow> bool \<Rightarrow> nat \<Rightarrow> nat) \<Rightarrow> pmtu_event list \<Rightarrow> pmtu \<Rightarrow> bool" where
  "meets_steady powf [] p \<longleftrightarrow> phase p = Steady"
| "meets_steady powf (e # es) p \<longleftrightarrow> phase p = Steady \<or>
     (case pmtu_step powf e p of None \<Rightarrow> False | Some (_, q) \<Rightarrow> meets_steady powf es q)"

lemma try_fix_mtu_phase:
  assumes "try_fix_mtu p = (q, out)"
  shows "phase q = Steady \<and> \<not> is_fixed (phase p) \<or> phase q = phase p \<and> phase p \<noteq> Fix"
  using assms by (cases p rule: try_fix_mtu_cases) auto

lemma tick_budget:
  assumes "pmtu_inv p" "\<not> is_fixed (phase p)" "tick powf now interval p = Some (out, q)" "\<not> tick_gated now interval p"
  shows "phase q = Steady \<or> \<not> is_fixed (phase q) \<and> budget (phase q) < budget (phase p)"
proof -
  obtain p1 o1 o2 where t: "try_fix_mtu (p\<lparr>mtu_ping_sent := now\<rparr>) = (p1, o1)"
    "tick_send powf (if phase p1 = Lost then p1\<lparr>phase := Discovery 0, minmtu := 0\<rparr> else p1) = Some (o2, q)"
    using tick_unfold [OF assms(3,4)] by metis
  have nl: "phase p1 \<noteq> Lost" using try_fix_mtu_phase [OF t(1)] assms(2) by auto
  consider "phase p1 = Steady" | sent where "phase p1 = Discovery sent" "phase p = Discovery sent" "sent < 20"
    using try_fix_mtu_phase [OF t(1)] assms(1,2) by (cases "phase p") (auto simp: pmtu_inv_def)
  thus ?thesis
    by cases (use t(2) nl in \<open>auto simp: tick_send_def Let_def split: if_splits\<close>)
qed

lemma pmtu_step_budget:
  assumes "pmtu_inv p" "\<not> is_fixed (phase p)" "calm e p" "pmtu_step powf e p = Some (out, q)"
  shows "phase q = Steady \<or> \<not> is_fixed (phase q) \<and> budget (phase q) + (if due e p then 1 else 0) \<le> budget (phase p)"
proof (cases e)
  case (Tick now i)
  show ?thesis
  proof (cases "tick_gated now i p")
    case True
    thus ?thesis using assms Tick by (simp add: tick_def)
  next
    case False
    thus ?thesis using tick_budget [OF assms(1,2) _ False, of powf out q] assms(4) Tick by auto
  qed
next
  case (ProbeReply len now)
  hence "on_probe_reply len now p = (out, q)" using assms(4) by simp
  thus ?thesis
  proof (cases rule: on_probe_reply_cases)
    case (raise p2)
    thus ?thesis using try_fix_mtu_phase [OF raise(5)] assms(2) ProbeReply by (auto simp: same_search_def)
  qed (use assms(2,3) ProbeReply in \<open>auto simp: same_search_def\<close>)
next
  case (Emsgsize len)
  hence "on_emsgsize len p = (out, q)" using assms(4) by simp
  thus ?thesis
  proof (cases rule: on_emsgsize_cases)
    case (1 p2)
    thus ?thesis using try_fix_mtu_phase [OF 1(1)] assms(2) Emsgsize by auto
  qed
next
  case (MetaAck len now)
  thus ?thesis using assms by (auto simp: on_meta_ack_def Let_def split: if_splits)
next
  case CountedProbeSent
  thus ?thesis using assms by (cases "phase p") (auto simp: on_counted_probe_sent_def)
qed (use assms in \<open>auto simp: on_udp_probe_attempt_def seed_maxmtu_def apply_pmtu_cap_def Let_def split: if_splits\<close>)

lemma meets_steadyI: "phase p = Steady \<Longrightarrow> meets_steady powf es p"
  by (cases es) auto

lemma calm_run_meets_steady:
  assumes "powf_ok powf" "list_all event_ok es" "pmtu_inv p" "\<not> is_fixed (phase p)" "calm_run powf es p"
    "budget (phase p) \<le> due_ticks powf es p"
  shows "meets_steady powf es p"
  using assms(2-)
proof (induction es arbitrary: p)
  case Nil
  hence "budget (phase p) = 0" by simp
  thus ?case using Nil(2,3) by (cases "phase p") (auto simp: pmtu_inv_def)
next
  case (Cons e es)
  have ev: "event_ok e" "list_all event_ok es" using Cons.prems(1) by simp_all
  obtain o1 q where q: "pmtu_step powf e p = Some (o1, q)" "pmtu_inv q"
    using pmtu_step_inv [OF assms(1) Cons.prems(2) ev(1)] by blast
  have c: "calm e p" "calm_run powf es q" using Cons.prems(4) q(1) by simp_all
  show ?case
  proof (cases "phase q = Steady")
    case True
    thus ?thesis using q(1) meets_steadyI by simp
  next
    case False
    hence b: "\<not> is_fixed (phase q)" "budget (phase q) + (if due e p then 1 else 0) \<le> budget (phase p)"
      using pmtu_step_budget [OF Cons.prems(2,3) c(1) q(1)] by auto
    moreover have "budget (phase p) \<le> (if due e p then 1 else 0) + due_ticks powf es q"
      using Cons.prems(5) q(1) by simp
    ultimately have "budget (phase q) \<le> due_ticks powf es q" by linarith
    thus ?thesis using Cons.IH [OF ev(2) q(2) b(1) c(2)] q(1) by simp
  qed
qed

text \<open>
  C33: discovery ends. From every state of a search, in every run in which no reply exceeds the upper
  bound and the path is not declared dead, twenty-one ticks that are not held back by the cadence
  lead to the steady phase, whatever replies, acknowledgements and errors arrive in between.
\<close>

theorem pmtu_converges:
  assumes "powf_ok powf" "list_all event_ok es" "pmtu_inv p" "\<not> is_fixed (phase p)" "calm_run powf es p"
    "21 \<le> due_ticks powf es p"
  shows "meets_steady powf es p"
proof -
  have "budget (phase p) \<le> 21" by (cases "phase p") simp_all
  thus ?thesis using calm_run_meets_steady [OF assms(1-5)] assms(6) by linarith
qed

definition demo_ticks :: "pmtu_event list" where
  "demo_ticks = map (\<lambda>i. Tick (i * 400000000) 60000000000) [1..<22]"

lemma demo_ticks_eq:
  "demo_ticks = map (\<lambda>t. Tick (t * 400000000) 60000000000)
     [1, 2, 3, 4, 5, 6, 7, 8, 9, 10, 11, 12, 13, 14, 15, 16, 17, 18, 19, 20, 21]"
  by (simp add: demo_ticks_def upt_rec)

lemmas tick_eval = tick_def tick_gated_def duration_since_def PMTU_PROBE_TICK_def from_micros_def
  try_fix_mtu_def tick_send_def sat_add_u16_def pmtu_new_def

lemma demo_ticks_run:
  "calm_run demo_powf demo_ticks (pmtu_new 0 1518)" "due_ticks demo_powf demo_ticks (pmtu_new 0 1518) = 21"
  "\<exists>out q. pmtu_run demo_powf demo_ticks (pmtu_new 0 1518) = Some (out, q) \<and> SendProbe 1 False \<in> set out"
  by (simp_all add: demo_ticks_eq tick_eval Let_def MTU_def)

theorem pmtu_converges_witness:
  "powf_ok demo_powf \<and> list_all event_ok demo_ticks \<and> pmtu_inv (pmtu_new 0 1518) \<and>
   \<not> is_fixed (phase (pmtu_new 0 1518)) \<and> calm_run demo_powf demo_ticks (pmtu_new 0 1518) \<and>
   21 \<le> due_ticks demo_powf demo_ticks (pmtu_new 0 1518) \<and> meets_steady demo_powf demo_ticks (pmtu_new 0 1518)"
proof -
  have "list_all event_ok demo_ticks" "\<not> is_fixed (phase (pmtu_new 0 1518))"
    by (simp_all add: demo_ticks_def list_all_iff pmtu_new_def)
  moreover have "pmtu_inv (pmtu_new 0 1518)" using pmtu_new_inv by (simp add: MTU_def)
  moreover have "21 \<le> due_ticks demo_powf demo_ticks (pmtu_new 0 1518)" by (simp add: demo_ticks_run(2))
  ultimately show ?thesis using pmtu_converges [OF demo_powf_ok] demo_powf_ok demo_ticks_run(1) by blast
qed

section \<open>Two divergences\<close>

text \<open>
  The documentation of \<open>SendProbe\<close> says that its length is already clamped to the minimum probe size.
  The increase detector is not clamped: a path fixed at 0 asks for a probe of one byte.
\<close>

lemma increase_probe_unclamped:
  "\<exists>es out q. list_all event_ok es \<and> pmtu_run demo_powf es (pmtu_new 0 1518) = Some (out, q) \<and>
     SendProbe 1 False \<in> set out"
proof -
  have "list_all event_ok demo_ticks" by (simp add: demo_ticks_def list_all_iff)
  thus ?thesis using demo_ticks_run(3) by blast
qed

text \<open>
  A connection's configured ceiling is applied to the search when the connection is activated, so
  that the fixed MTU does not exceed it. The next \<open>try_tx\<close> finds discovery at its start and overwrites
  the clamped upper bound by the kernel's value, whatever the ceiling: a reply above the ceiling is
  then locked in.
\<close>

lemma pmtu_cap_lost:
  "\<exists>q. pmtu_run powf [Seed 1 1457, ProbeAttempt 1 True, ProbeReply 1457 2]
         (apply_pmtu_cap 0 1300 None) = Some ([LogFixed 1457 0], q) \<and> maxmtu (apply_pmtu_cap 0 1300 None) = 1300 \<and>
       phase q = Steady \<and> mtu q = 1457"
  by (simp add: apply_pmtu_cap_def pmtu_new_def seed_maxmtu_def is_discovery_start_def on_udp_probe_attempt_def
      on_probe_reply_def try_fix_mtu_def pmtu_consts Let_def)

end
