(* ===== verification/Daemon_State.thy ===== *)
theory Daemon_State
  imports Graph_View Meta_Conn Seen_Requests Subnet_Tree Pmtu "HOL-Library.AList"
begin

text \<open>
  The world model of the daemon (\<open>tincd/src/daemon.rs\<close>) as far as gossip and connection lifetime touch it:
  the connections, the graph with the tables keyed by its slots, the subnets, the anti-loop cache, the
  per-tunnel state of \<open>tunnel.rs\<close>, the table of short identifiers of \<open>node_id.rs\<close> and the snapshot the
  forwarding shards read. Hash maps whose length or order the code reads are association lists, the
  others maps. Calls into parts that are not modelled (scripts, the outgoing-connection machinery, hole
  punching, the log tap) are recorded in order in \<open>d_effects\<close>. \<open>None\<close> is a panic.
\<close>

section \<open>Tunnels\<close>

record tunnel_status =
  ts_validkey :: bool
  ts_waitingforkey :: bool
  ts_sptps :: bool
  ts_udp_confirmed :: bool
  ts_send_locally :: bool
  ts_udppacket :: bool

definition status_default :: tunnel_status where
  "status_default = \<lparr>ts_validkey = False, ts_waitingforkey = False, ts_sptps = False, ts_udp_confirmed = False,
     ts_send_locally = False, ts_udppacket = False\<rparr>"

definition status_u32 :: "bool \<Rightarrow> tunnel_status \<Rightarrow> u32" where
  "status_u32 reachable s =
     (let v = 0;
          v = if ts_validkey s then v OR push_bit 1 1 else v;
          v = if ts_waitingforkey s then v OR push_bit 2 1 else v;
          v = if reachable then v OR push_bit 4 1 else v;
          v = if ts_sptps s then v OR push_bit 6 1 else v;
          v = if ts_udp_confirmed s then v OR push_bit 7 1 else v;
          v = if ts_send_locally s then v OR push_bit 8 1 else v
      in if ts_udppacket s then v OR push_bit 9 1 else v)"

record traffic_stats =
  in_packets :: u64
  in_bytes :: u64
  out_packets :: u64
  out_bytes :: u64

definition add_in :: "u64 \<Rightarrow> u64 \<Rightarrow> traffic_stats \<Rightarrow> traffic_stats" where
  "add_in packets bytes s = s\<lparr>in_packets := in_packets s + packets, in_bytes := in_bytes s + bytes\<rparr>"

definition add_out :: "u64 \<Rightarrow> u64 \<Rightarrow> traffic_stats \<Rightarrow> traffic_stats" where
  "add_out packets bytes s = s\<lparr>out_packets := out_packets s + packets, out_bytes := out_bytes s + bytes\<rparr>"

record tunnel =
  t_sptps :: "sptps option"
  t_prev_sptps :: "sptps option"
  t_prev_sptps_installed_at :: "instant option"
  t_udp_addr :: "sock_addr option"
  t_udp_addr_cached :: "(sock_addr \<times> nat) option"
  t_status :: tunnel_status
  t_last_req_key :: "instant option"
  t_pmtu :: "pmtu option"
  t_udp_reply_sent :: "instant option"
  t_udp_send_failed_at :: "instant option"
  t_udp_info_sent :: "instant option"
  t_mtu_info_sent :: "instant option"
  t_udp_rx_maxlen :: nat
  t_outcompression :: nat
  t_incompression :: nat
  t_stats :: traffic_stats
  t_relay_tx_bytes :: nat
  t_relay_tx_bytes_prev :: nat
  t_out_bytes_prev :: nat
  t_relay_rate_bps :: nat
  t_tx_rate_bps :: nat

definition tunnel_default :: tunnel where
  "tunnel_default =
     \<lparr>t_sptps = None, t_prev_sptps = None, t_prev_sptps_installed_at = None, t_udp_addr = None,
      t_udp_addr_cached = None, t_status = status_default, t_last_req_key = None, t_pmtu = None,
      t_udp_reply_sent = None, t_udp_send_failed_at = None, t_udp_info_sent = None, t_mtu_info_sent = None,
      t_udp_rx_maxlen = 0, t_outcompression = 0, t_incompression = 0,
      t_stats = \<lparr>in_packets = 0, in_bytes = 0, out_packets = 0, out_bytes = 0\<rparr>, t_relay_tx_bytes = 0,
      t_relay_tx_bytes_prev = 0, t_out_bytes_prev = 0, t_relay_rate_bps = 0, t_tx_rate_bps = 0\<rparr>"

definition reset_unreachable :: "tunnel \<Rightarrow> tunnel" where
  "reset_unreachable t =
     t\<lparr>t_sptps := None, t_prev_sptps := None, t_prev_sptps_installed_at := None, t_last_req_key := None,
       t_pmtu := map_option pmtu_unreachable (t_pmtu t), t_udp_reply_sent := None, t_udp_rx_maxlen := 0,
       t_udp_addr := None, t_udp_addr_cached := None, t_udp_send_failed_at := None, t_status := status_default\<rparr>"

definition should_reap_prev_sptps ::
    "bool \<Rightarrow> instant option \<Rightarrow> instant option \<Rightarrow> instant \<Rightarrow> duration \<Rightarrow> duration \<Rightarrow> bool" where
  "should_reap_prev_sptps validkey last_req_key installed_at now twice_pinginterval keylifetime =
     (let healthy = validkey \<and> (case last_req_key of None \<Rightarrow> True | Some lrk \<Rightarrow> twice_pinginterval < duration_since now lrk);
          expired = (case installed_at of None \<Rightarrow> False | Some at \<Rightarrow> keylifetime < duration_since now at)
      in healthy \<or> expired)"

definition periodic_rekey_due :: "bool \<Rightarrow> bool \<Rightarrow> bool \<Rightarrow> instant option \<Rightarrow> instant \<Rightarrow> duration \<Rightarrow> bool" where
  "periodic_rekey_due validkey waitingforkey seal_due last_req_key now pinginterval =
     (if validkey \<and> \<not> waitingforkey \<and> seal_due then True
      else if waitingforkey \<and> (case last_req_key of None \<Rightarrow> False | Some lrk \<Rightarrow> pinginterval < duration_since now lrk) then True
      else False)"

definition tunnel_mtu :: "tunnel \<Rightarrow> nat" where
  "tunnel_mtu t = (case t_pmtu t of None \<Rightarrow> MTU | Some p \<Rightarrow> mtu p)"

definition tunnel_minmtu :: "tunnel \<Rightarrow> nat" where
  "tunnel_minmtu t = (case t_pmtu t of None \<Rightarrow> 0 | Some p \<Rightarrow> minmtu p)"

definition tunnel_maxmtu :: "tunnel \<Rightarrow> nat" where
  "tunnel_maxmtu t = (case t_pmtu t of None \<Rightarrow> MTU | Some p \<Rightarrow> maxmtu p)"

definition make_udp_label :: "string \<Rightarrow> string \<Rightarrow> bytes" where
  "make_udp_label initiator responder =
     as_bytes (''tinc UDP key expansion '' @ initiator @ '' '' @ responder) @ [0]"

section \<open>Short identifiers\<close>

record id6_table =
  by_id :: "bytes \<rightharpoonup> nat"
  by_node :: "nat \<rightharpoonup> bytes"

definition id6_new :: id6_table where
  "id6_new = \<lparr>by_id = Map.empty, by_node = Map.empty\<rparr>"

definition id6_null :: bytes where
  "id6_null = replicate 6 0"

definition id6_from_name :: "'g prims \<Rightarrow> string \<Rightarrow> bytes" where
  "id6_from_name P name = take 6 (p_sha512 P (as_bytes name))"

definition id6_insert_raw :: "bytes \<Rightarrow> nat \<Rightarrow> id6_table \<Rightarrow> id6_table" where
  "id6_insert_raw i node t = t\<lparr>by_id := (by_id t)(i \<mapsto> node), by_node := (by_node t)(node \<mapsto> i)\<rparr>"

definition id6_add :: "'g prims \<Rightarrow> string \<Rightarrow> nat \<Rightarrow> id6_table \<Rightarrow> id6_table" where
  "id6_add P name node t = id6_insert_raw (id6_from_name P name) node t"

definition id6_lookup :: "id6_table \<Rightarrow> bytes \<Rightarrow> nat option" where
  "id6_lookup t i = by_id t i"

definition id_of :: "id6_table \<Rightarrow> nat \<Rightarrow> bytes option" where
  "id_of t node = by_node t node"

definition id6_remove :: "nat \<Rightarrow> id6_table \<Rightarrow> id6_table" where
  "id6_remove node t =
     (case by_node t node of None \<Rightarrow> t
      | Some i \<Rightarrow>
          let t = t\<lparr>by_node := (by_node t)(node := None)\<rparr>
          in if by_id t i = Some node then t\<lparr>by_id := (by_id t)(i := None)\<rparr> else t)"

section \<open>The daemon\<close>

record node_state =
  ns_edge :: "nat option"
  ns_conn :: "nat option"
  ns_edge_addr :: "sock_addr option"
  ns_edge_weight :: int
  ns_edge_options :: u32

record node_view_entry =
  nv_has_direct_conn :: bool
  nv_reachable :: bool
  nv_edge_addr :: "sock_addr option"
  nv_name :: string

record node_view =
  nv_entries :: "node_view_entry option list"
  nv_name_to_nid :: "string \<rightharpoonup> nat"

record tx_snapshot =
  sn_id6 :: id6_table
  sn_routes :: "route option list"
  sn_subnets :: subnet_tree
  sn_ns :: node_view
  sn_tunnels :: "nat set"

record daemon_settings =
  s_tunnelserver :: bool
  s_strictsubnets :: bool
  s_autoconnect :: bool
  s_device_standby :: bool
  s_pinginterval :: nat

datatype effect =
    HostScript bool string "sock_addr option" | SubnetScript bool string subnet | RunScript string
  | ConfirmOutgoing nat "sock_addr option" | ReapOutgoing nat | RedialOutgoing nat bool
  | ClearPunch nat | ForgetPunchDial nat | RestoreDebug int | LogTapOff

type_synonym edge_addr = "string \<times> string \<times> string \<times> string"

record 'g daemon =
  d_conns :: "(nat \<times> connection) list"
  d_pending_meta :: nat
  d_name :: string
  d_my_udp_port :: nat
  d_graph :: graph
  d_node_ids :: "(string \<times> nat) list"
  d_myself :: nat
  d_subnets :: subnet_tree
  d_seen :: seen_requests
  d_nodes :: "nat \<rightharpoonup> node_state"
  d_edge_addrs :: "nat \<rightharpoonup> edge_addr"
  d_tunnels :: "nat \<rightharpoonup> tunnel"
  d_id6 :: id6_table
  d_contradicting_add_edge :: u32
  d_contradicting_del_edge :: u32
  d_graph_dirty :: bool
  d_last_routes :: "route option list"
  d_last_mst :: "nat list"
  d_mac_table :: "bytes \<rightharpoonup> string"
  d_mac_leases :: mac_leases
  d_settings :: daemon_settings
  d_device_enabled :: bool
  d_now :: instant
  d_tx_snap :: "tx_snapshot option"
  d_tunnel_handles :: "nat set"
  d_effects :: "effect list"
  d_rng :: 'g

definition emit :: "effect \<Rightarrow> 'g daemon \<Rightarrow> 'g daemon" where
  "emit e d = d\<lparr>d_effects := d_effects d @ [e]\<rparr>"

definition node_log_name :: "'g daemon \<Rightarrow> nat \<Rightarrow> string" where
  "node_log_name d n = (case get_node (d_graph d) n of None \<Rightarrow> ''<gone>'' | Some nd \<Rightarrow> gn_name nd)"

definition route_of :: "'g daemon \<Rightarrow> nat \<Rightarrow> route option" where
  "route_of d n = slot (d_last_routes d) n"

definition node_reachable :: "'g daemon \<Rightarrow> nat \<Rightarrow> bool" where
  "node_reachable d n = (case get_node (d_graph d) n of None \<Rightarrow> False | Some nd \<Rightarrow> gn_reachable nd)"

section \<open>The snapshot of the shards\<close>

definition node_view_entry :: "'g daemon \<Rightarrow> string \<Rightarrow> nat \<Rightarrow> node_view_entry" where
  "node_view_entry d name nid =
     \<lparr>nv_has_direct_conn = (case d_nodes d nid of None \<Rightarrow> False | Some ns \<Rightarrow> ns_conn ns \<noteq> None),
      nv_reachable = node_reachable d nid,
      nv_edge_addr = Option.bind (d_nodes d nid) ns_edge_addr, nv_name = name\<rparr>"

definition node_view_build :: "'g daemon \<Rightarrow> node_view" where
  "node_view_build d =
     \<lparr>nv_entries = fold (\<lambda>(name, nid) es. es[nid := Some (node_view_entry d name nid)]) (d_node_ids d)
        (replicate (slab_len (d_graph d)) None),
      nv_name_to_nid = map_of (d_node_ids d)\<rparr>"

definition nv_resolve :: "node_view \<Rightarrow> string \<Rightarrow> nat option" where
  "nv_resolve v name =
     Option.bind (nv_name_to_nid v name) (\<lambda>nid. Option.bind (slot (nv_entries v) nid)
       (\<lambda>e. if nv_reachable e then Some nid else None))"

definition tx_snap_refresh_subnets :: "'g daemon \<Rightarrow> 'g daemon" where
  "tx_snap_refresh_subnets d = d\<lparr>d_tx_snap := map_option (\<lambda>s. s\<lparr>sn_subnets := d_subnets d\<rparr>) (d_tx_snap d)\<rparr>"

definition tx_snap_refresh_graph :: "'g daemon \<Rightarrow> 'g daemon" where
  "tx_snap_refresh_graph d =
     d\<lparr>d_tx_snap := map_option (\<lambda>s. s\<lparr>sn_routes := d_last_routes d, sn_ns := node_view_build d, sn_id6 := d_id6 d\<rparr>)
         (d_tx_snap d)\<rparr>"

end
