(* ===== verification/Daemon_Graph.thy ===== *)
theory Daemon_Graph
  imports Daemon_State
begin

text \<open>
  Recomputing routes and acting on reachability changes: \<open>diff_reachability\<close> and \<open>run_graph\<close> of
  \<open>tincd/src/graph/mod.rs\<close>, \<open>run_graph_and_log\<close> and \<open>flush_graph_dirty\<close> of
  \<open>tincd/src/daemon/gossip/graph.rs\<close>. The lemmas show that the recomputation never panics, that the
  transitions are exactly the changes of reachability, and that afterwards the reachable nodes are the
  ones that two-way edges connect to this node.
\<close>

section \<open>The diff\<close>

datatype transition = BecameReachable nat nat | BecameUnreachable nat

fun diff_nodes :: "nat list \<Rightarrow> nat \<Rightarrow> route option list \<Rightarrow> graph \<Rightarrow> (transition list \<times> graph) option" where
  "diff_nodes [] myself rt g = Some ([], g)"
| "diff_nodes (n # ns) myself rt g =
     (if n = myself then diff_nodes ns myself rt g
      else if length rt \<le> n then None
      else do {
        nd \<leftarrow> get_node g n;
        let visited = rt ! n \<noteq> None;
        if visited = gn_reachable nd then diff_nodes ns myself rt g
        else do {
          g \<leftarrow> set_reachable n visited g;
          (ts, g) \<leftarrow> diff_nodes ns myself rt g;
          Some ((case rt ! n of Some r \<Rightarrow> BecameReachable n (r_via r) | None \<Rightarrow> BecameUnreachable n) # ts, g) } })"

definition diff_reachability :: "nat \<Rightarrow> route option list \<Rightarrow> graph \<Rightarrow> (transition list \<times> graph) option" where
  "diff_reachability myself rt g = diff_nodes (node_ids g) myself rt g"

definition run_graph ::
    "nat \<Rightarrow> route option list \<Rightarrow> graph \<Rightarrow> ((transition list \<times> nat list \<times> route option list) \<times> graph) option" where
  "run_graph myself prev g = do {
     rt \<leftarrow> sssp_sticky g myself prev;
     (ts, g) \<leftarrow> diff_reachability myself rt g;
     tree \<leftarrow> mst g;
     Some ((ts, tree, rt), g) }"

section \<open>Acting on a transition\<close>

definition parse_ip :: "string \<Rightarrow> ip_addr option" where
  "parse_ip s =
     parse_with (\<lambda>s. case read_ipv4_addr s of
         Some (a, r) \<Rightarrow> Some (IpV4 (map of_nat a), r)
       | None \<Rightarrow> map_option (\<lambda>(a, r). (IpV6 (segment_bytes a), r)) (read_ipv6_addr s)) s"

definition unmap_addr :: "sock_addr \<Rightarrow> sock_addr" where
  "unmap_addr sa =
     (case sa of
        (IpV6 a, p) \<Rightarrow>
          if take 12 a = replicate 10 0 @ [255, 255] then (IpV4 (drop 12 a), p) else sa
      | _ \<Rightarrow> sa)"

definition strip_brackets :: "string \<Rightarrow> string" where
  "strip_brackets s =
     (if s \<noteq> [] \<and> hd s = CHR ''['' \<and> tl s \<noteq> [] \<and> last (tl s) = CHR '']'' then butlast (tl s) else s)"

definition parse_addr_port :: "string \<Rightarrow> string \<Rightarrow> sock_addr option" where
  "parse_addr_port addr port =
     (if addr = UNSPEC then None
      else do {
        p \<leftarrow> from_str_radix 0 65535 10 port;
        ip \<leftarrow> parse_ip (strip_brackets addr);
        Some (unmap_addr (ip, nat p)) })"

definition tunnel_entry :: "'g daemon \<Rightarrow> nat \<Rightarrow> tunnel" where
  "tunnel_entry d n = (case d_tunnels d n of None \<Rightarrow> tunnel_default | Some t \<Rightarrow> t)"

definition run_host_script :: "bool \<Rightarrow> string \<Rightarrow> sock_addr option \<Rightarrow> 'g daemon \<Rightarrow> 'g daemon" where
  "run_host_script up node addr d = emit (HostScript up node addr) d"

definition run_subnet_script :: "bool \<Rightarrow> string \<Rightarrow> subnet \<Rightarrow> 'g daemon \<Rightarrow> 'g daemon" where
  "run_subnet_script up owner s d = emit (SubnetScript up owner s) d"

definition device_enable :: "'g daemon \<Rightarrow> 'g daemon" where
  "device_enable d =
     (if d_device_enabled d then d else emit (RunScript ''tinc-up'') (d\<lparr>d_device_enabled := True\<rparr>))"

definition device_disable :: "'g daemon \<Rightarrow> 'g daemon" where
  "device_disable d =
     (if \<not> d_device_enabled d then d else emit (RunScript ''tinc-down'') (d\<lparr>d_device_enabled := False\<rparr>))"

definition transition_name :: "'g daemon \<Rightarrow> nat \<Rightarrow> string" where
  "transition_name d n = (case get_node (d_graph d) n of None \<Rightarrow> ''<unknown>'' | Some nd \<Rightarrow> gn_name nd)"

text \<open>The address to seed for a node: the one of its connection, else the one of the last edge of its route.\<close>

definition seed_addr :: "'g daemon \<Rightarrow> nat \<Rightarrow> sock_addr option" where
  "seed_addr d n =
     (case Option.bind (d_nodes d n) ns_edge_addr of
        Some a \<Rightarrow> Some a
      | None \<Rightarrow> do {
          r \<leftarrow> route_of d n;
          prev \<leftarrow> r_prevedge r;
          (a, p, _, _) \<leftarrow> d_edge_addrs d prev;
          parse_addr_port a p })"

fun on_transition :: "transition \<Rightarrow> 'g daemon \<Rightarrow> 'g daemon" where
  "on_transition (BecameReachable n via) d =
     (let d = if s_device_standby (d_settings d) then device_enable d else d;
          name = transition_name d n;
          addr = seed_addr d n;
          d = (case addr of None \<Rightarrow> d
               | Some a \<Rightarrow> d\<lparr>d_tunnels := (d_tunnels d)(n \<mapsto> (tunnel_entry d n)\<lparr>t_udp_addr := Some a, t_udp_addr_cached := None\<rparr>)\<rparr>);
          d = run_host_script True name addr d;
          d = fold (run_subnet_script True name) (owned_by (d_subnets d) name) d;
          t = tunnel_entry d n
      in d\<lparr>d_tunnels := (d_tunnels d)(n \<mapsto> t\<lparr>t_status := (t_status t)\<lparr>ts_sptps := True\<rparr>\<rparr>)\<rparr>)"
| "on_transition (BecameUnreachable n) d =
     (let name = transition_name d n;
          addr = (case Option.bind (d_tunnels d n) t_udp_addr of Some a \<Rightarrow> Some a | None \<Rightarrow> Option.bind (d_nodes d n) ns_edge_addr);
          d = run_host_script False name addr d;
          d = fold (run_subnet_script False name) (owned_by (d_subnets d) name) d;
          d = d\<lparr>d_tunnels := (case d_tunnels d n of None \<Rightarrow> d_tunnels d | Some t \<Rightarrow> (d_tunnels d)(n \<mapsto> reset_unreachable t))\<rparr>;
          d = d\<lparr>d_tunnel_handles := d_tunnel_handles d - {n}\<rparr>
      in d\<lparr>d_tx_snap := map_option (\<lambda>s. s\<lparr>sn_tunnels := sn_tunnels s - {n}\<rparr>) (d_tx_snap d)\<rparr>)"

definition any_reachable :: "'g daemon \<Rightarrow> bool" where
  "any_reachable d = list_ex (node_reachable d) (filter (\<lambda>n. n \<noteq> d_myself d) (node_ids (d_graph d)))"

definition run_graph_and_log :: "'g daemon \<Rightarrow> 'g daemon option" where
  "run_graph_and_log d = do {
     let d = d\<lparr>d_graph_dirty := False\<rparr>;
     ((ts, tree, rt), g) \<leftarrow> run_graph (d_myself d) (d_last_routes d) (d_graph d);
     let d = d\<lparr>d_graph := g, d_last_routes := rt, d_last_mst := tree\<rparr>;
     let d = fold on_transition ts d;
     let d = (if s_device_standby (d_settings d) \<and> d_device_enabled d \<and> \<not> any_reachable d then device_disable d else d);
     Some (tx_snap_refresh_graph d) }"

definition flush_graph_dirty :: "'g daemon \<Rightarrow> 'g daemon option" where
  "flush_graph_dirty d = (if d_graph_dirty d then run_graph_and_log d else Some d)"

section \<open>Correctness of the recomputation\<close>

definition transition_of :: "route option list \<Rightarrow> nat \<Rightarrow> transition" where
  "transition_of rt n = (case rt ! n of Some r \<Rightarrow> BecameReachable n (r_via r) | None \<Rightarrow> BecameUnreachable n)"

definition flips :: "nat \<Rightarrow> route option list \<Rightarrow> (nat \<Rightarrow> (string \<times> bool) option) \<Rightarrow> nat \<Rightarrow> bool" where
  "flips m rt N n \<longleftrightarrow> n \<noteq> m \<and> map_option snd (N n) \<noteq> Some (rt ! n \<noteq> None)"

lemma diff_nodes_ok:
  "graph_inv g \<Longrightarrow> distinct ns \<Longrightarrow> list_all (\<lambda>n. nview (g_nodes g) n \<noteq> None \<and> n < length rt) ns \<Longrightarrow>
   \<exists>g'. diff_nodes ns m rt g = Some (map (transition_of rt) (filter (flips m rt (nview (g_nodes g))) ns), g') \<and>
     graph_inv g' \<and> eview g' = eview g \<and>
     nview (g_nodes g') = (\<lambda>n. if n \<in> set ns \<and> n \<noteq> m then map_option (\<lambda>(nm, _). (nm, rt ! n \<noteq> None)) (nview (g_nodes g) n)
       else nview (g_nodes g) n)"
proof (induction ns arbitrary: g)
  case (Cons n ns)
  obtain nm r where n: "nview (g_nodes g) n = Some (nm, r)" "n < length rt" using Cons.prems(3) by auto
  then obtain nd where nd: "get_node g n = Some nd" "gn_name nd = nm" "gn_reachable nd = r" using nview_get_node by blast
  show ?case
  proof (cases "n = m \<or> (rt ! n \<noteq> None) = r")
    case True
    hence "\<not> flips m rt (nview (g_nodes g)) n" using n by (auto simp: flips_def)
    moreover have "diff_nodes (n # ns) m rt g = diff_nodes ns m rt g" using True nd n(2) by auto
    moreover have "nview (g_nodes g) n = map_option (\<lambda>(nm, _). (nm, rt ! n \<noteq> None)) (nview (g_nodes g) n)" if "n \<noteq> m"
      using True n that by auto
    ultimately show ?thesis using Cons.IH [OF Cons.prems(1)] Cons.prems(2,3) by (fastforce simp: fun_eq_iff)
  next
    case False
    obtain g1 where g1: "set_reachable n (rt ! n \<noteq> None) g = Some g1" "graph_inv g1" "eview g1 = eview g"
        "nview (g_nodes g1) = (nview (g_nodes g))(n \<mapsto> (nm, rt ! n \<noteq> None))" by (rule set_reachable_view [OF Cons.prems(1) n(1)])
    have l: "list_all (\<lambda>n. nview (g_nodes g1) n \<noteq> None \<and> n < length rt) ns" using Cons.prems(3) by (auto simp: g1(4) list_all_iff)
    have d: "distinct ns" "n \<notin> set ns" using Cons.prems(2) by auto
    obtain g' where g': "diff_nodes ns m rt g1 = Some (map (transition_of rt) (filter (flips m rt (nview (g_nodes g1))) ns), g')"
        "graph_inv g'" "eview g' = eview g1"
        "nview (g_nodes g') = (\<lambda>n. if n \<in> set ns \<and> n \<noteq> m then map_option (\<lambda>(nm, _). (nm, rt ! n \<noteq> None)) (nview (g_nodes g1) n)
           else nview (g_nodes g1) n)" using Cons.IH [OF g1(2) d(1) l] by blast
    have f: "filter (flips m rt (nview (g_nodes g1))) ns = filter (flips m rt (nview (g_nodes g))) ns"
      using d(2) by (intro filter_cong) (auto simp: flips_def g1(4))
    have fl: "flips m rt (nview (g_nodes g)) n" using False n by (auto simp: flips_def)
    have "diff_nodes (n # ns) m rt g = Some (transition_of rt n # map (transition_of rt) (filter (flips m rt (nview (g_nodes g))) ns), g')"
      using False nd n(2) g1(1) g'(1) f by (auto simp: transition_of_def)
    moreover have "nview (g_nodes g') = (\<lambda>k. if k \<in> set (n # ns) \<and> k \<noteq> m
        then map_option (\<lambda>(nm, _). (nm, rt ! k \<noteq> None)) (nview (g_nodes g) k) else nview (g_nodes g) k)"
      using d(2) False n by (auto simp: g'(4) g1(4) fun_eq_iff)
    ultimately show ?thesis using fl g'(2,3) g1(3) by (intro exI [of _ g']) simp
  qed
qed simp

text \<open>What the recomputation makes of the nodes: everyone but this node is reachable exactly over two-way edges.\<close>

definition reach_view :: "nat \<Rightarrow> (nat \<Rightarrow> edge_view option) \<Rightarrow> (nat \<Rightarrow> (string \<times> bool) option) \<Rightarrow> nat \<Rightarrow> (string \<times> bool) option" where
  "reach_view m E N = (\<lambda>n. if n = m then N n else map_option (\<lambda>(nm, _). (nm, (two_way E)\<^sup>*\<^sup>* m n)) (N n))"

lemma run_graph_ok:
  assumes g: "graph_inv g" and m: "nview (g_nodes g) m \<noteq> None"
  obtains tree rt g' where
    "run_graph m prev g = Some ((map (transition_of rt) (filter (flips m rt (nview (g_nodes g))) (node_ids g)), tree, rt), g')"
    "graph_inv g'" "eview g' = eview g" "nview (g_nodes g') = reach_view m (eview g) (nview (g_nodes g))"
    "length rt = length (g_nodes g)" "\<And>v. slot rt v \<noteq> None \<longleftrightarrow> (two_way (eview g))\<^sup>*\<^sup>* m v"
proof -
  have m': "slot (g_nodes g) m \<noteq> None" using m by (auto simp: nview_def)
  obtain rt where rt: "sssp_sticky g m prev = Some rt" "length rt = length (g_nodes g)" "\<And>v. slot rt v \<noteq> None \<longleftrightarrow> (two_way (eview g))\<^sup>*\<^sup>* m v"
    using sssp_result [OF g m', of prev] links_two_way [OF g] by metis
  have live: "n < length rt" if "nview (g_nodes g) n \<noteq> None" for n using that rt(2) by (auto simp: nview_def dest: slot_Some_less)
  hence "list_all (\<lambda>n. nview (g_nodes g) n \<noteq> None \<and> n < length rt) (node_ids g)" by (auto simp: list_all_iff set_node_ids)
  from diff_nodes_ok [OF g distinct_node_ids this, of m] obtain g' where
    d: "diff_reachability m rt g = Some (map (transition_of rt) (filter (flips m rt (nview (g_nodes g))) (node_ids g)), g')"
      "graph_inv g'" "eview g' = eview g"
      "nview (g_nodes g') = (\<lambda>n. if n \<in> set (node_ids g) \<and> n \<noteq> m then map_option (\<lambda>(nm, _). (nm, rt ! n \<noteq> None)) (nview (g_nodes g) n)
         else nview (g_nodes g) n)" unfolding diff_reachability_def by blast
  have "rt ! n \<noteq> None \<longleftrightarrow> (two_way (eview g))\<^sup>*\<^sup>* m n" if "nview (g_nodes g) n \<noteq> None" for n
    using rt(3) [of n] live [OF that] by (simp add: slot_def)
  hence "nview (g_nodes g') n = reach_view m (eview g) (nview (g_nodes g)) n" for n
    unfolding d(4) by (cases "nview (g_nodes g) n") (auto simp: reach_view_def set_node_ids)
  hence "nview (g_nodes g') = reach_view m (eview g) (nview (g_nodes g))" by (rule ext)
  moreover obtain tree where "mst g' = Some tree" using mst_total [OF d(2)] by blast
  ultimately show thesis using d rt by (intro that [of rt tree g']) (simp_all add: run_graph_def)
qed

end
