(* ===== verification/Gossip.thy ===== *)
theory Gossip
  imports Daemon_Graph
begin

text \<open>
  Gossip: the shared helpers of \<open>tincd/src/daemon/gossip/mod.rs\<close>, the outbound messages of \<open>send.rs\<close>, the
  handlers of \<open>edges.rs\<close>, \<open>subnets.rs\<close> and \<open>weight.rs\<close>, and \<open>on_key_changed\<close> of \<open>keys.rs\<close>, with the parsers of
  \<open>dispatch.rs\<close> in front of them. A handler returns the error or whether output was queued, and the
  daemon after it; \<open>None\<close> is a panic.
\<close>

section \<open>Parsing a request\<close>

datatype dispatch_error =
    UnknownRequest | Unauthorized | BadId string | BadAck string | BadSubnet string | BadEdge string | BadKey string

type_synonym 'g outcome = "((dispatch_error + bool) \<times> 'g daemon) option"

definition parse_body :: "bytes \<Rightarrow> (string \<Rightarrow> dispatch_error) \<Rightarrow> (string \<Rightarrow> 'm option) \<Rightarrow> dispatch_error + 'm" where
  "parse_body body err parse =
     (case from_utf8 body of None \<Rightarrow> Inl (err ''not UTF-8'')
      | Some s \<Rightarrow> (case parse s of None \<Rightarrow> Inl (err ''parse failed'') | Some m \<Rightarrow> Inr m))"

definition parse_add_edge :: "bytes \<Rightarrow> dispatch_error + add_edge_msg" where
  "parse_add_edge body = parse_body body BadEdge add_edge_parse"

definition parse_del_edge :: "bytes \<Rightarrow> dispatch_error + del_edge_msg" where
  "parse_del_edge body = parse_body body BadEdge del_edge_parse"

definition parse_add_subnet :: "bytes \<Rightarrow> dispatch_error + (string \<times> subnet)" where
  "parse_add_subnet body =
     parse_body body BadSubnet (\<lambda>s. map_option (\<lambda>m. (sm_owner m, sm_subnet m)) (subnet_msg_parse s))"

definition parse_del_subnet :: "bytes \<Rightarrow> dispatch_error + (string \<times> subnet)" where
  "parse_del_subnet = parse_add_subnet"

definition parse_key_msg :: "bytes \<Rightarrow> string \<Rightarrow> (string \<Rightarrow> 'm option) \<Rightarrow> dispatch_error + (string \<times> 'm)" where
  "parse_key_msg body what parse =
     (case from_utf8 body of None \<Rightarrow> Inl (BadKey (''non-UTF-8 '' @ what))
      | Some s \<Rightarrow> (case parse s of None \<Rightarrow> Inl (BadKey (what @ '' parse failed'')) | Some m \<Rightarrow> Inr (s, m)))"

section \<open>Shared helpers\<close>

definition MAX_NODES :: nat where "MAX_NODES = 65536"
definition MAX_EDGES :: nat where "MAX_EDGES = 4 * MAX_NODES"

definition lookup_or_add_node :: "'g prims \<Rightarrow> string \<Rightarrow> 'g daemon \<Rightarrow> (nat \<times> 'g daemon) option" where
  "lookup_or_add_node P name d =
     (case map_of (d_node_ids d) name of
        Some i \<Rightarrow> Some (i, d)
      | None \<Rightarrow> do {
          (i, g) \<leftarrow> add_node name (d_graph d);
          g \<leftarrow> set_reachable i False g;
          Some (i, d\<lparr>d_graph := g, d_node_ids := AList.update name i (d_node_ids d), d_id6 := id6_add P name i (d_id6 d)\<rparr>) })"

definition nonce :: "'g prims \<Rightarrow> 'g daemon \<Rightarrow> nat \<times> 'g daemon" where
  "nonce P d =
     (let (bs, g) = p_fill P 4 (d_rng d)
      in (foldr (\<lambda>b n. unat b + 256 * n) (take 4 bs) 0, d\<lparr>d_rng := g\<rparr>))"

definition seen_request :: "bytes \<Rightarrow> 'g daemon \<Rightarrow> bool \<times> 'g daemon" where
  "seen_request body d =
     (case from_utf8 body of None \<Rightarrow> (False, d)
      | Some s \<Rightarrow> let (dup, sn) = seen_check s (d_now d) (d_seen d) in (dup, d\<lparr>d_seen := sn\<rparr>))"

definition tunnelserver_reject_indirect :: "nat \<Rightarrow> string list \<Rightarrow> 'g daemon \<Rightarrow> bool option" where
  "tunnelserver_reject_indirect cid about d =
     (if \<not> s_tunnelserver (d_settings d) then Some False
      else do {
        c \<leftarrow> map_of (d_conns d) cid;
        Some (\<not> list_ex (\<lambda>n. n = d_name d \<or> n = c_name c) about) })"

definition flooded_prologue :: "nat \<Rightarrow> bytes \<Rightarrow> string list \<Rightarrow> 'g daemon \<Rightarrow> (string option \<times> 'g daemon) option" where
  "flooded_prologue cid body about d =
     (let (dup, d) = seen_request body d
      in if dup then Some (None, d)
         else do {
           c \<leftarrow> map_of (d_conns d) cid;
           rej \<leftarrow> tunnelserver_reject_indirect cid about d;
           Some (if rej then None else Some (c_name c), d) })"

text \<open>\<open>conns.get_mut(id)\<close> and \<open>send\<close> on it; a connection that is gone takes nothing.\<close>

definition d_send :: "'g prims \<Rightarrow> nat \<Rightarrow> string \<Rightarrow> 'g daemon \<Rightarrow> (bool \<times> 'g daemon) option" where
  "d_send P cid line d =
     (case map_of (d_conns d) cid of
        None \<Rightarrow> Some (False, d)
      | Some c \<Rightarrow> do {
          (nw, c) \<leftarrow> conn_send P (d_rng d) line c;
          Some (nw, d\<lparr>d_conns := AList.update cid c (d_conns d)\<rparr>) })"

fun d_send_all :: "'g prims \<Rightarrow> nat list \<Rightarrow> string \<Rightarrow> 'g daemon \<Rightarrow> (bool \<times> 'g daemon) option" where
  "d_send_all P [] line d = Some (False, d)"
| "d_send_all P (i # is) line d = do {
     (a, d) \<leftarrow> d_send P i line d;
     (b, d) \<leftarrow> d_send_all P is line d;
     Some (a \<or> b, d) }"

fun d_send_lines :: "'g prims \<Rightarrow> nat \<Rightarrow> string list \<Rightarrow> 'g daemon \<Rightarrow> (bool \<times> 'g daemon) option" where
  "d_send_lines P cid [] d = Some (False, d)"
| "d_send_lines P cid (l # ls) d = do {
     (a, d) \<leftarrow> d_send P cid l d;
     (b, d) \<leftarrow> d_send_lines P cid ls d;
     Some (a \<or> b, d) }"

definition broadcast_targets :: "nat option \<Rightarrow> 'g daemon \<Rightarrow> nat list" where
  "broadcast_targets skip d = map fst (filter (\<lambda>(i, c). Some i \<noteq> skip \<and> c_active c) (d_conns d))"

definition forward_request :: "'g prims \<Rightarrow> nat \<Rightarrow> bytes \<Rightarrow> 'g daemon \<Rightarrow> (bool \<times> 'g daemon) option" where
  "forward_request P cid body d =
     (case from_utf8 body of
        None \<Rightarrow> Some (False, d)
      | Some s \<Rightarrow>
          let (ok, d) =
            (case map_of (d_conns d) cid of
               None \<Rightarrow> (True, d)
             | Some c \<Rightarrow>
                 let (ok, f) = allow (d_now d) (c_flood c);
                     f = (if ok then f else snd (should_warn f))
                 in (ok, d\<lparr>d_conns := AList.update cid (c\<lparr>c_flood := f\<rparr>) (d_conns d)\<rparr>))
          in if \<not> ok then Some (False, d)
             else d_send_all P (broadcast_targets (Some cid) d) s d)"

definition broadcast_line :: "'g prims \<Rightarrow> string \<Rightarrow> 'g daemon \<Rightarrow> (bool \<times> 'g daemon) option" where
  "broadcast_line P line d = d_send_all P (broadcast_targets None d) line d"

section \<open>Outbound messages\<close>

definition fmt_add_edge :: "nat \<Rightarrow> nat \<Rightarrow> 'g daemon \<Rightarrow> string option" where
  "fmt_add_edge eid n d = do {
     e \<leftarrow> get_edge (d_graph d) eid;
     (addr, port, la, lp) \<leftarrow> d_edge_addrs d eid;
     f \<leftarrow> get_node (d_graph d) (ge_from e);
     t \<leftarrow> get_node (d_graph d) (ge_to e);
     Some (add_edge_format n
       \<lparr>ae_from = gn_name f, ae_to = gn_name t, ae_addr = addr, ae_port = port, ae_options = unat (ge_options e),
        ae_weight = ge_weight e, ae_local = (if la = UNSPEC then None else Some (la, lp))\<rparr>) }"

definition send_add_edge :: "'g prims \<Rightarrow> nat \<Rightarrow> nat \<Rightarrow> 'g daemon \<Rightarrow> (bool \<times> 'g daemon) option" where
  "send_add_edge P cid eid d =
     (let (n, d) = nonce P d
      in case fmt_add_edge eid n d of None \<Rightarrow> Some (False, d) | Some line \<Rightarrow> d_send P cid line d)"

definition send_del_edge :: "'g prims \<Rightarrow> nat \<Rightarrow> string \<Rightarrow> string \<Rightarrow> 'g daemon \<Rightarrow> (bool \<times> 'g daemon) option" where
  "send_del_edge P cid from_name to_name d =
     (let (n, d) = nonce P d
      in d_send P cid (del_edge_format n \<lparr>de_from = from_name, de_to = to_name\<rparr>) d)"

definition send_subnet :: "'g prims \<Rightarrow> nat \<Rightarrow> request \<Rightarrow> string \<Rightarrow> subnet \<Rightarrow> 'g daemon \<Rightarrow> (bool \<times> 'g daemon) option" where
  "send_subnet P cid which owner s d =
     (let (n, d) = nonce P d
      in d_send P cid (subnet_msg_format which n \<lparr>sm_owner = owner, sm_subnet = s\<rparr>) d)"

fun subnet_lines :: "'g prims \<Rightarrow> (subnet \<times> string) list \<Rightarrow> 'g daemon \<Rightarrow> string list \<times> 'g daemon" where
  "subnet_lines P [] d = ([], d)"
| "subnet_lines P ((s, owner) # xs) d =
     (let (n, d) = nonce P d; (ls, d) = subnet_lines P xs d
      in (subnet_msg_format request.AddSubnet n \<lparr>sm_owner = owner, sm_subnet = s\<rparr> # ls, d))"

fun edge_lines :: "'g prims \<Rightarrow> nat list \<Rightarrow> 'g daemon \<Rightarrow> string list \<times> 'g daemon" where
  "edge_lines P [] d = ([], d)"
| "edge_lines P (i # is) d =
     (let (n, d) = nonce P d; l = fmt_add_edge i n d; (ls, d) = edge_lines P is d
      in (case l of None \<Rightarrow> ls | Some l \<Rightarrow> l # ls, d))"

definition send_everything :: "'g prims \<Rightarrow> nat \<Rightarrow> 'g daemon \<Rightarrow> (bool \<times> 'g daemon) option" where
  "send_everything P cid d =
     (if s_tunnelserver (d_settings d) then
        let (lines, d) = subnet_lines P (filter (\<lambda>(s, owner). owner = d_name d) (tree_iter (d_subnets d))) d
        in d_send_lines P cid lines d
      else
        let (sl, d) = subnet_lines P (tree_iter (d_subnets d)) d;
            (el, d) = edge_lines P (map fst (edge_iter (d_graph d))) d
        in d_send_lines P cid (sl @ el) d)"

section \<open>Edges\<close>

definition same_edge_addr :: "add_edge_msg \<Rightarrow> edge_addr option \<Rightarrow> bool" where
  "same_edge_addr m known =
     (case known of None \<Rightarrow> False
      | Some (a, p, la, lp) \<Rightarrow> a = ae_addr m \<and> p = ae_port m \<and>
          (case ae_local m of None \<Rightarrow> True | Some (nla, nlp) \<Rightarrow> if nla = UNSPEC then True else nla = la \<and> nlp = lp))"

definition ok_result :: "(bool \<times> 'g daemon) option \<Rightarrow> 'g outcome" where
  "ok_result = map_option (\<lambda>(nw, d). (Inr nw, d))"

definition forward_unless_hub :: "'g prims \<Rightarrow> nat \<Rightarrow> bytes \<Rightarrow> 'g daemon \<Rightarrow> (bool \<times> 'g daemon) option" where
  "forward_unless_hub P cid body d =
     (if s_tunnelserver (d_settings d) then Some (False, d) else forward_request P cid body d)"

text \<open>The tail of \<open>on_add_edge\<close>: the address of the edge, the forward, and the deferred recomputation.\<close>

definition add_edge_tail :: "'g prims \<Rightarrow> nat \<Rightarrow> bytes \<Rightarrow> add_edge_msg \<Rightarrow> nat \<Rightarrow> 'g daemon \<Rightarrow> 'g outcome" where
  "add_edge_tail P cid body m eid d =
     (let (la, lp) = (case ae_local m of None \<Rightarrow> (UNSPEC, UNSPEC) | Some l \<Rightarrow> l);
          d = d\<lparr>d_edge_addrs := (d_edge_addrs d)(eid \<mapsto> (ae_addr m, ae_port m, la, lp))\<rparr>
      in do {
        (nw, d) \<leftarrow> forward_unless_hub P cid body d;
        Some (Inr nw, d\<lparr>d_graph_dirty := True\<rparr>) })"

text \<open>The edge is known: idempotent, a wrong claim about an edge of ours, or an update in place.\<close>

definition add_edge_known :: "'g prims \<Rightarrow> nat \<Rightarrow> bytes \<Rightarrow> add_edge_msg \<Rightarrow> nat \<Rightarrow> nat \<Rightarrow> 'g daemon \<Rightarrow> 'g outcome" where
  "add_edge_known P cid body m fid existing d = do {
     e \<leftarrow> get_edge (d_graph d) existing;
     if ge_weight e = ae_weight m \<and> ge_options e = of_nat (ae_options m) \<and> same_edge_addr m (d_edge_addrs d existing)
     then Some (Inr False, d)
     else if fid = d_myself d then ok_result (send_add_edge P cid existing d)
     else do {
       g \<leftarrow> Option.bind (update_edge existing (ae_weight m) (of_nat (ae_options m)) (d_graph d)) id;
       add_edge_tail P cid body m existing (d\<lparr>d_graph := g\<rparr>) } }"

text \<open>The edge is new: a claim about us is contradicted, any other is added.\<close>

definition add_edge_new :: "'g prims \<Rightarrow> nat \<Rightarrow> bytes \<Rightarrow> add_edge_msg \<Rightarrow> nat \<Rightarrow> nat \<Rightarrow> 'g daemon \<Rightarrow> 'g outcome" where
  "add_edge_new P cid body m fid tid d =
     (if fid = d_myself d
      then ok_result (send_del_edge P cid (ae_from m) (ae_to m) (d\<lparr>d_contradicting_add_edge := d_contradicting_add_edge d + 1\<rparr>))
      else do {
        (eid, g) \<leftarrow> add_edge fid tid (ae_weight m) (of_nat (ae_options m)) (d_graph d);
        add_edge_tail P cid body m eid (d\<lparr>d_graph := g\<rparr>) })"

definition new_names :: "string list \<Rightarrow> 'g daemon \<Rightarrow> nat" where
  "new_names ns d = sum_list (map (\<lambda>n. of_bool (map_of (d_node_ids d) n = None)) ns)"

definition add_edge_resolved :: "'g prims \<Rightarrow> nat \<Rightarrow> bytes \<Rightarrow> add_edge_msg \<Rightarrow> 'g daemon \<Rightarrow> 'g outcome" where
  "add_edge_resolved P cid body m d = do {
     (fid, d) \<leftarrow> lookup_or_add_node P (ae_from m) d;
     (tid, d) \<leftarrow> lookup_or_add_node P (ae_to m) d;
     found \<leftarrow> lookup_edge (d_graph d) fid tid;
     if found = None \<and> MAX_EDGES \<le> edge_count (d_graph d) then Some (Inr False, d)
     else case found of
       Some existing \<Rightarrow> add_edge_known P cid body m fid existing d
     | None \<Rightarrow> add_edge_new P cid body m fid tid d }"

definition on_add_edge :: "'g prims \<Rightarrow> nat \<Rightarrow> bytes \<Rightarrow> 'g daemon \<Rightarrow> 'g outcome" where
  "on_add_edge P cid body d =
     (case parse_add_edge body of
        Inl e \<Rightarrow> Some (Inl e, d)
      | Inr m \<Rightarrow> do {
          (go, d) \<leftarrow> flooded_prologue cid body [ae_from m, ae_to m] d;
          let fresh = new_names [ae_from m, ae_to m] d;
          if go = None \<or> 0 < fresh \<and> MAX_NODES < length (d_node_ids d) + fresh then Some (Inr False, d)
          else add_edge_resolved P cid body m d })"

text \<open>\<open>graph.del_edge\<close> with its result dropped, and the address entry with it.\<close>

definition drop_edge :: "nat \<Rightarrow> 'g daemon \<Rightarrow> 'g daemon option" where
  "drop_edge eid d = do {
     r \<leftarrow> del_edge eid (d_graph d);
     Some (d\<lparr>d_graph := (case r of None \<Rightarrow> d_graph d | Some g \<Rightarrow> g), d_edge_addrs := (d_edge_addrs d)(eid := None)\<rparr>) }"

text \<open>The deletion of an edge of another node, and of the reverse edge to us when its end is cut off.\<close>

definition del_edge_known :: "'g prims \<Rightarrow> nat \<Rightarrow> bytes \<Rightarrow> nat \<Rightarrow> nat \<Rightarrow> 'g daemon \<Rightarrow> 'g outcome" where
  "del_edge_known P cid body eid tid d = do {
     (nw, d) \<leftarrow> forward_unless_hub P cid body d;
     d \<leftarrow> drop_edge eid d;
     d \<leftarrow> run_graph_and_log d;
     d \<leftarrow> (if node_reachable d tid then Some d
          else do {
            rvs \<leftarrow> lookup_edge (d_graph d) tid (d_myself d);
            case rvs of None \<Rightarrow> Some d | Some back \<Rightarrow> drop_edge back d });
     Some (Inr nw, d) }"

definition on_del_edge :: "'g prims \<Rightarrow> nat \<Rightarrow> bytes \<Rightarrow> 'g daemon \<Rightarrow> 'g outcome" where
  "on_del_edge P cid body d =
     (case parse_del_edge body of
        Inl e \<Rightarrow> Some (Inl e, d)
      | Inr m \<Rightarrow> do {
          (go, d) \<leftarrow> flooded_prologue cid body [de_from m, de_to m] d;
          case (go, map_of (d_node_ids d) (de_from m), map_of (d_node_ids d) (de_to m)) of
            (Some _, Some fid, Some tid) \<Rightarrow> do {
              found \<leftarrow> lookup_edge (d_graph d) fid tid;
              case found of None \<Rightarrow> Some (Inr False, d)
              | Some eid \<Rightarrow>
                if fid = d_myself d
                then ok_result (send_add_edge P cid eid (d\<lparr>d_contradicting_del_edge := d_contradicting_del_edge d + 1\<rparr>))
                else del_edge_known P cid body eid tid d }
          | _ \<Rightarrow> Some (Inr False, d) })"

section \<open>Subnets\<close>

text \<open>The subnet enters the tree: the snapshot, the table of addresses, the script, the forward.\<close>

definition install_subnet :: "'g prims \<Rightarrow> nat \<Rightarrow> bytes \<Rightarrow> string \<Rightarrow> nat \<Rightarrow> subnet \<Rightarrow> 'g daemon \<Rightarrow> 'g outcome" where
  "install_subnet P cid body owner_name owner s d =
     (let d = tx_snap_refresh_subnets (d\<lparr>d_subnets := tree_add s owner_name (d_subnets d)\<rparr>);
          d = (case s of Mac addr _ \<Rightarrow> d\<lparr>d_mac_table := (d_mac_table d)(addr \<mapsto> owner_name)\<rparr> | _ \<Rightarrow> d);
          d = (if node_reachable d owner then run_subnet_script True owner_name s d else d)
      in ok_result (forward_request P cid body d))"

definition leased :: "subnet \<Rightarrow> 'g daemon \<Rightarrow> bool" where
  "leased s d = (case s of Mac addr _ \<Rightarrow> lease_contains addr (d_mac_leases d) | _ \<Rightarrow> False)"

definition add_subnet_resolved :: "'g prims \<Rightarrow> nat \<Rightarrow> bytes \<Rightarrow> string \<Rightarrow> subnet \<Rightarrow> 'g daemon \<Rightarrow> 'g outcome" where
  "add_subnet_resolved P cid body owner_name s d = do {
     (owner, d) \<leftarrow> lookup_or_add_node P owner_name d;
     if owner = d_myself d then ok_result (send_subnet P cid request.DelSubnet (d_name d) s d)
     else if s_tunnelserver (d_settings d) then Some (Inr False, d)
     else if s_strictsubnets (d_settings d) then ok_result (forward_request P cid body d)
     else if is_multicast_subnet s then ok_result (forward_request P cid body d)
     else if leased s d then Some (Inr False, d)
     else install_subnet P cid body owner_name owner s d }"

definition on_add_subnet :: "'g prims \<Rightarrow> nat \<Rightarrow> bytes \<Rightarrow> 'g daemon \<Rightarrow> 'g outcome" where
  "on_add_subnet P cid body d =
     (case parse_add_subnet body of
        Inl e \<Rightarrow> Some (Inl e, d)
      | Inr (owner_name, s) \<Rightarrow> do {
          (go, d) \<leftarrow> flooded_prologue cid body [owner_name] d;
          if go = None \<or> tree_contains s owner_name (d_subnets d) \<or>
             MAX_NODES \<le> length (d_node_ids d) \<and> map_of (d_node_ids d) owner_name = None
          then Some (Inr False, d)
          else add_subnet_resolved P cid body owner_name s d })"

text \<open>The subnet leaves the tree; a subnet that was not there runs no script.\<close>

definition remove_subnet :: "string \<Rightarrow> nat \<Rightarrow> subnet \<Rightarrow> 'g daemon \<Rightarrow> 'g daemon" where
  "remove_subnet owner_name owner s d =
     (let (did_del, t) = tree_del s owner_name (d_subnets d);
          d = d\<lparr>d_subnets := t\<rparr>
      in if \<not> did_del then d
         else
           let d = tx_snap_refresh_subnets d;
               d = (if node_reachable d owner then run_subnet_script False owner_name s d else d)
           in (case s of Mac addr _ \<Rightarrow>
                 if d_mac_table d addr = Some owner_name then d\<lparr>d_mac_table := (d_mac_table d)(addr := None)\<rparr> else d
               | _ \<Rightarrow> d))"

definition on_del_subnet :: "'g prims \<Rightarrow> nat \<Rightarrow> bytes \<Rightarrow> 'g daemon \<Rightarrow> 'g outcome" where
  "on_del_subnet P cid body d =
     (case parse_del_subnet body of
        Inl e \<Rightarrow> Some (Inl e, d)
      | Inr (owner_name, s) \<Rightarrow> do {
          (go, d) \<leftarrow> flooded_prologue cid body [owner_name] d;
          case (go, map_of (d_node_ids d) owner_name) of
            (Some _, Some owner) \<Rightarrow>
              if owner = d_myself d then
                if \<not> tree_contains s (d_name d) (d_subnets d) then Some (Inr False, d)
                else ok_result (send_subnet P cid request.AddSubnet (d_name d) s d)
              else if s_tunnelserver (d_settings d) then Some (Inr False, d)
              else do {
                (nw, d) \<leftarrow> forward_request P cid body d;
                Some (Inr nw, if s_strictsubnets (d_settings d) then d else remove_subnet owner_name owner s d) }
          | _ \<Rightarrow> Some (Inr False, d) })"

section \<open>Keys\<close>

definition on_key_changed :: "'g prims \<Rightarrow> nat \<Rightarrow> bytes \<Rightarrow> 'g daemon \<Rightarrow> 'g outcome" where
  "on_key_changed P cid body d =
     (case parse_key_msg body ''KEY_CHANGED'' key_changed_parse of
        Inl e \<Rightarrow> Some (Inl e, d)
      | Inr (s, kc) \<Rightarrow>
          if \<not> check_id (kc_node kc) then Some (Inl (BadKey ''KEY_CHANGED: bad node name''), d)
          else
            let ws = split_ascii_whitespace s;
                req = (case ws of [] \<Rightarrow> ''14'' | w # _ \<Rightarrow> w);
                n = (case ws of _ # w # _ \<Rightarrow> w | _ \<Rightarrow> ''0'');
                canonical = req @ '' '' @ n @ '' '' @ kc_node kc;
                (dup, sn) = seen_check canonical (d_now d) (d_seen d);
                d = d\<lparr>d_seen := sn\<rparr>
            in if dup \<or> s_tunnelserver (d_settings d) then Some (Inr False, d)
               else ok_result (forward_request P cid (as_bytes canonical) d))"

section \<open>Edge weights from round trips\<close>

definition rtt_out_of_band :: "nat \<Rightarrow> nat \<Rightarrow> bool" where
  "rtt_out_of_band srtt_ms g \<longleftrightarrow> srtt_ms * 10 < g * 7 \<or> g * 3 < srtt_ms * 2"

definition next_srtt :: "nat \<Rightarrow> nat \<Rightarrow> nat" where
  "next_srtt rtt srtt =
     (if srtt = 0 then max rtt 1
      else
        let sample = min rtt (min (srtt * 2) 4294967295);
            new = int srtt + (int sample - int srtt) div 8
        in max (if 0 \<le> new \<and> new \<le> 4294967295 then nat new else 1) 1)"

definition set_conn :: "nat \<Rightarrow> connection \<Rightarrow> 'g daemon \<Rightarrow> 'g daemon" where
  "set_conn cid c d = d\<lparr>d_conns := AList.update cid c (d_conns d)\<rparr>"

definition regossip_weight :: "'g prims \<Rightarrow> nat \<Rightarrow> connection \<Rightarrow> nat \<Rightarrow> node_state \<Rightarrow> nat \<Rightarrow> instant \<Rightarrow> 'g daemon \<Rightarrow> (bool \<times> 'g daemon) option" where
  "regossip_weight P cid c nid ns eid now d =
     (let c = c\<lparr>c_last_weight_gossip := Some now\<rparr>; d = set_conn cid c d;
          new_w = min (int (c_srtt_ms c)) 2147483647
      in do {
        r \<leftarrow> update_edge eid new_w (ns_edge_options ns) (d_graph d);
        let d = d\<lparr>d_graph := (case r of None \<Rightarrow> d_graph d | Some g \<Rightarrow> g),
                  d_nodes := (d_nodes d)(nid \<mapsto> ns\<lparr>ns_edge_weight := new_w\<rparr>), d_graph_dirty := True\<rparr>;
        let (n, d) = nonce P d;
        case fmt_add_edge eid n d of None \<Rightarrow> Some (False, d)
        | Some line \<Rightarrow>
            if s_tunnelserver (d_settings d) then d_send P cid line d else broadcast_line P line d })"

definition on_pong_rtt :: "'g prims \<Rightarrow> nat \<Rightarrow> instant \<Rightarrow> 'g daemon \<Rightarrow> (bool \<times> 'g daemon) option" where
  "on_pong_rtt P cid now d =
     (case map_of (d_conns d) cid of None \<Rightarrow> Some (False, d)
      | Some c \<Rightarrow>
        if c_ping_rtt_ms c = 0 then Some (False, d)
        else
          let c = c\<lparr>c_srtt_ms := next_srtt (c_ping_rtt_ms c) (c_srtt_ms c)\<rparr>; d = set_conn cid c d
          in (case map_of (d_node_ids d) (c_name c) of None \<Rightarrow> Some (False, d)
              | Some nid \<Rightarrow>
                (case d_nodes d nid of None \<Rightarrow> Some (False, d)
                 | Some ns \<Rightarrow>
                   (case ns_edge ns of None \<Rightarrow> Some (False, d)
                    | Some eid \<Rightarrow>
                      let g = max (if 0 \<le> ns_edge_weight ns then nat (ns_edge_weight ns) else 0) 1
                      in if \<not> rtt_out_of_band (c_srtt_ms c) g then Some (False, d)
                         else if (case c_last_weight_gossip c of None \<Rightarrow> False
                                  | Some t \<Rightarrow> duration_since now t < from_secs (5 * s_pinginterval (d_settings d))) then Some (False, d)
                         else regossip_weight P cid c nid ns eid now d))))"

end
