(* ===== verification/Daemon_Conn.thy ===== *)
theory Daemon_Conn
  imports Gossip
begin

text \<open>
  The lifetime of an authenticated connection: the gate and the \<open>ACK\<close> of \<open>tincd/src/dispatch.rs\<close>, \<open>on_ack\<close>
  and \<open>terminate\<close> of \<open>tincd/src/daemon/connect.rs\<close>, \<open>purge\<close> of \<open>tincd/src/daemon/purge.rs\<close> and the \<open>PING\<close> and
  \<open>PONG\<close> arms of \<open>tincd/src/daemon/metaconn.rs\<close>. Arming a socket for writing is left out: it changes the
  event loop only.
\<close>

section \<open>Options\<close>

definition INDIRECT :: u32 where "INDIRECT = 0x0001"
definition TCPONLY :: u32 where "TCPONLY = 0x0002"
definition PMTU_DISCOVERY :: u32 where "PMTU_DISCOVERY = 0x0004"
definition CLAMP_MSS :: u32 where "CLAMP_MSS = 0x0008"

definition has_opt :: "u32 \<Rightarrow> u32 \<Rightarrow> bool" where
  "has_opt opts f \<longleftrightarrow> opts AND f = f"

definition without_opt :: "u32 \<Rightarrow> u32 \<Rightarrow> u32" where
  "without_opt opts f = opts AND NOT f"

definition prot_minor :: "u32 \<Rightarrow> u8" where
  "prot_minor opts = ucast (drop_bit 24 opts)"

definition with_minor :: "u32 \<Rightarrow> u8 \<Rightarrow> u32" where
  "with_minor opts m = (opts AND 0x00FFFFFF) OR push_bit 24 (ucast m)"

section \<open>The gate\<close>

text \<open>Tokens of a line of bytes, and a token read as text.\<close>

definition byte_words :: "bytes \<Rightarrow> bytes list" where
  "byte_words line = map as_bytes (split_ascii_whitespace (map (\<lambda>x. char_of (unat x)) line))"

definition word_at :: "bytes \<Rightarrow> nat \<Rightarrow> string option" where
  "word_at line n = (if n < length (byte_words line) then from_utf8 (byte_words line ! n) else None)"

definition check_gate :: "connection \<Rightarrow> bytes \<Rightarrow> dispatch_error + request" where
  "check_gate c line =
     (let first = takeWhile (\<lambda>b. b \<notin> {9, 10, 12, 13, 32}) line
      in if first = [] then Inl UnknownRequest
         else case Option.bind (Option.bind (from_utf8 first) parse_i32) from_id of
             None \<Rightarrow> Inl UnknownRequest
           | Some req \<Rightarrow>
               (case c_allow_request c of None \<Rightarrow> Inr req
                | Some allowed \<Rightarrow> if allowed \<noteq> req then Inl Unauthorized else Inr req))"

definition tcp_label :: "string \<Rightarrow> string \<Rightarrow> bytes" where
  "tcp_label initiator responder = as_bytes (''tinc TCP key expansion '' @ initiator @ '' '' @ responder) @ [0]"

section \<open>ACK\<close>

text \<open>\<open>as i32\<close> of the milliseconds wraps.\<close>

definition rtt_weight :: "connection \<Rightarrow> instant \<Rightarrow> int" where
  "rtt_weight c now = sint (of_nat (duration_since now (c_start c) div 1000000) :: u32)"

definition ack_options :: "connection \<Rightarrow> u32 \<Rightarrow> u32" where
  "ack_options c myself_options =
     (let opts = 0;
          opts = if c_host_indirect c = Some True \<or> has_opt myself_options INDIRECT then opts OR INDIRECT else opts;
          opts = if c_host_tcponly c = Some True \<or> has_opt myself_options TCPONLY then opts OR (TCPONLY OR INDIRECT) else opts;
          opts = if has_opt myself_options PMTU_DISCOVERY \<and> \<not> has_opt opts TCPONLY then opts OR PMTU_DISCOVERY else opts
      in if (case c_host_clamp_mss c of Some b \<Rightarrow> b | None \<Rightarrow> has_opt myself_options CLAMP_MSS)
         then opts OR CLAMP_MSS else opts)"

definition conn_send_ack ::
    "'g prims \<Rightarrow> 'g \<Rightarrow> nat \<Rightarrow> u32 \<Rightarrow> int option \<Rightarrow> instant \<Rightarrow> connection \<Rightarrow> (bool \<times> connection) option" where
  "conn_send_ack P g my_udp_port myself_options global_weight now c =
     (let weight = (case c_host_weight c of Some w \<Rightarrow> w
                    | None \<Rightarrow> (case global_weight of Some w \<Rightarrow> w | None \<Rightarrow> rtt_weight c now));
          c = c\<lparr>c_options := ack_options c myself_options, c_estimated_weight := weight\<rparr>;
          wire_options = with_minor (c_options c) (of_nat PROT_MINOR)
      in conn_send P g (show_request request.Ack @ '' '' @ show_int (int my_udp_port) @ '' '' @ show_int weight @ '' '' @
           show_radix 16 (unat wire_options)) c)"

record ack_parsed =
  his_udp_port :: nat
  his_weight :: int
  his_options :: u32

definition parse_ack :: "bytes \<Rightarrow> dispatch_error + ack_parsed" where
  "parse_ack line =
     (case Option.bind (word_at line 1) (from_str_radix 0 65535 10) of None \<Rightarrow> Inl (BadAck ''bad port'')
      | Some port \<Rightarrow>
     (case Option.bind (word_at line 2) parse_i32 of None \<Rightarrow> Inl (BadAck ''bad weight'')
      | Some w \<Rightarrow>
     (case Option.bind (word_at line 3) (from_str_radix 0 4294967295 16) of None \<Rightarrow> Inl (BadAck ''bad options'')
      | Some ops \<Rightarrow> Inr \<lparr>his_udp_port = nat port, his_weight = max w 0, his_options = of_int ops\<rparr>)))"

section \<open>Terminating a connection\<close>

definition broadcast_del_edge :: "'g prims \<Rightarrow> string \<Rightarrow> string \<Rightarrow> 'g daemon \<Rightarrow> 'g daemon option" where
  "broadcast_del_edge P a b d =
     (if s_tunnelserver (d_settings d) then Some d
      else let (n, d) = nonce P d in map_option snd (broadcast_line P (del_edge_format n \<lparr>de_from = a, de_to = b\<rparr>) d))"

text \<open>The back-reference of the node to the connection and the edge that came with it.\<close>

definition detach_conn :: "nat \<Rightarrow> nat option \<Rightarrow> 'g daemon \<Rightarrow> nat option \<times> 'g daemon" where
  "detach_conn cid nid d =
     (case Option.bind nid (\<lambda>n. map_option (Pair n) (d_nodes d n)) of
        None \<Rightarrow> (None, d)
      | Some (n, ns) \<Rightarrow>
          if ns_conn ns = Some cid
          then (ns_edge ns, d\<lparr>d_nodes := (d_nodes d)(n \<mapsto> ns\<lparr>ns_conn := None, ns_edge := None\<rparr>)\<rparr>)
          else (None, d))"

definition terminate_edge :: "'g prims \<Rightarrow> connection \<Rightarrow> nat option \<Rightarrow> nat \<Rightarrow> 'g daemon \<Rightarrow> 'g daemon option" where
  "terminate_edge P c nid eid d = do {
     d \<leftarrow> (if c_active c then broadcast_del_edge P (d_name d) (c_name c) d else Some d);
     d \<leftarrow> drop_edge eid d;
     d \<leftarrow> run_graph_and_log d;
     (case nid of
        Some peer \<Rightarrow>
          if c_active c \<and> get_node (d_graph d) peer \<noteq> None \<and> \<not> node_reachable d peer
          then do {
            back \<leftarrow> lookup_edge (d_graph d) peer (d_myself d);
            case back of None \<Rightarrow> Some d
            | Some e \<Rightarrow> do { d \<leftarrow> broadcast_del_edge P (c_name c) (d_name d) d; drop_edge e d } }
          else Some d
      | None \<Rightarrow> Some d) }"

definition forget_conn :: "nat \<Rightarrow> connection \<Rightarrow> 'g daemon \<Rightarrow> 'g daemon" where
  "forget_conn cid c d =
     (let d = d\<lparr>d_conns := AList.delete cid (d_conns d),
                d_pending_meta := (if c_counted_pending c then d_pending_meta d - 1 else d_pending_meta d)\<rparr>;
          d = (if c_log_level c \<noteq> None \<and> \<not> list_ex (\<lambda>(i, c). c_log_level c \<noteq> None) (d_conns d) then emit LogTapOff d else d)
      in case c_prev_debug_level c of None \<Rightarrow> d | Some lvl \<Rightarrow> emit (RestoreDebug lvl) d)"

definition terminate :: "'g prims \<Rightarrow> nat \<Rightarrow> 'g daemon \<Rightarrow> 'g daemon option" where
  "terminate P cid d =
     (let d = emit (ForgetPunchDial cid) d
      in case map_of (d_conns d) cid of
           None \<Rightarrow> Some d
         | Some c \<Rightarrow>
             let nid = map_of (d_node_ids d) (c_name c);
                 d = forget_conn cid c d;
                 (our_edge, d) = detach_conn cid nid d
             in do {
               d \<leftarrow> (case our_edge of None \<Rightarrow> Some d | Some eid \<Rightarrow> terminate_edge P c nid eid d);
               Some (case c_outgoing c of None \<Rightarrow> d | Some oid \<Rightarrow> emit (RedialOutgoing oid (c_active c)) d) })"

section \<open>A peer is acknowledged\<close>

definition midpoint :: "int \<Rightarrow> int \<Rightarrow> int" where
  "midpoint a b = (if 0 \<le> a + b then (a + b) div 2 else - ((- (a + b)) div 2))"

definition merge_options :: "u32 \<Rightarrow> u32 \<Rightarrow> bool option \<Rightarrow> u32" where
  "merge_options mine his clamp =
     (let both = has_opt (mine AND his) PMTU_DISCOVERY;
          opts = (if both then mine OR his else without_opt mine PMTU_DISCOVERY OR without_opt his PMTU_DISCOVERY)
      in case clamp of None \<Rightarrow> opts | Some True \<Rightarrow> opts OR CLAMP_MSS | Some False \<Rightarrow> without_opt opts CLAMP_MSS)"

definition seed_pmtu :: "nat option \<Rightarrow> nat \<Rightarrow> 'g daemon \<Rightarrow> 'g daemon" where
  "seed_pmtu pmtu_cap peer d =
     (case pmtu_cap of None \<Rightarrow> d
      | Some cap \<Rightarrow>
          let t = tunnel_entry d peer;
              p = (case t_pmtu t of None \<Rightarrow> pmtu_new (d_now d) (min cap MTU) | Some p \<Rightarrow> p);
              p = (if mtu p = 0 \<or> cap < mtu p then p\<lparr>mtu := cap\<rparr> else p);
              p = p\<lparr>maxmtu := min (maxmtu p) cap\<rparr>
          in d\<lparr>d_tunnels := (d_tunnels d)(peer \<mapsto> t\<lparr>t_pmtu := Some p\<rparr>)\<rparr>)"

definition less_str :: "string \<Rightarrow> string \<Rightarrow> bool" where
  "less_str a b \<longleftrightarrow> ord_class.lexordp (map of_char a :: nat list) (map of_char b)"

definition keep_old_conn :: "nat \<Rightarrow> connection \<Rightarrow> 'g daemon \<Rightarrow> bool" where
  "keep_old_conn old_conn c d =
     (let new_out = c_outgoing c \<noteq> None;
          old_out = (case map_of (d_conns d) old_conn of None \<Rightarrow> False | Some oc \<Rightarrow> c_outgoing oc \<noteq> None)
      in old_out \<noteq> new_out \<and> old_out = less_str (d_name d) (c_name c))"

text \<open>The outgoing slot moves to the connection that stays, or is reaped when that one has its own.\<close>

definition hand_over :: "nat \<Rightarrow> nat \<Rightarrow> 'g daemon \<Rightarrow> 'g daemon" where
  "hand_over keep drop_id d =
     (case map_of (d_conns d) drop_id of None \<Rightarrow> d
      | Some dc \<Rightarrow>
        (case c_outgoing dc of None \<Rightarrow> d
         | Some oid \<Rightarrow>
             let d = set_conn drop_id (dc\<lparr>c_outgoing := None\<rparr>) d
             in (case map_of (d_conns d) keep of
                   Some kc \<Rightarrow> if c_outgoing kc = None then set_conn keep (kc\<lparr>c_outgoing := Some oid\<rparr>) d
                              else emit (ReapOutgoing oid) d
                 | None \<Rightarrow> emit (ReapOutgoing oid) d)))"

definition show_ip :: "ip_addr \<Rightarrow> string" where
  "show_ip a = (case a of IpV4 b \<Rightarrow> show_ipv4 b | IpV6 b \<Rightarrow> show_ipv6 b)"

definition ack_edge_addr :: "sock_addr \<Rightarrow> sock_addr option \<Rightarrow> nat \<Rightarrow> edge_addr" where
  "ack_edge_addr ea local my_udp_port =
     (let (la, lp) = (case local of None \<Rightarrow> (UNSPEC, UNSPEC) | Some (ip, _) \<Rightarrow> (show_ip ip, show_int (int my_udp_port)))
      in (show_ip (fst ea), show_int (int (snd ea)), la, lp))"

definition activate_conn :: "nat \<Rightarrow> 'g daemon \<Rightarrow> 'g daemon" where
  "activate_conn cid d =
     (case map_of (d_conns d) cid of None \<Rightarrow> d
      | Some c \<Rightarrow>
          set_conn cid (c\<lparr>c_active := True, c_activated_at := Some (d_now d), c_counted_pending := False\<rparr>)
            (if c_counted_pending c then d\<lparr>d_pending_meta := d_pending_meta d - 1\<rparr> else d))"

text \<open>
  The edge to the new peer: the graph, the address, the node's state. \<open>local\<close> is what \<open>getsockname\<close>
  returned for the connection.
\<close>

definition ack_attach ::
    "nat \<Rightarrow> string \<Rightarrow> nat \<Rightarrow> sock_addr option \<Rightarrow> sock_addr option \<Rightarrow> int \<Rightarrow> u32 \<Rightarrow> 'g daemon \<Rightarrow> (nat \<times> 'g daemon) option" where
  "ack_attach cid name peer edge_addr local weight opts d = do {
     (eid, g) \<leftarrow> add_edge (d_myself d) peer weight opts (d_graph d);
     let d = d\<lparr>d_graph := g\<rparr>;
     let local = (if map_of (d_conns d) cid = None then None else local);
     let d = (case edge_addr of None \<Rightarrow> d
              | Some ea \<Rightarrow> d\<lparr>d_edge_addrs := (d_edge_addrs d)(eid \<mapsto> ack_edge_addr ea local (d_my_udp_port d))\<rparr>);
     let d = d\<lparr>d_nodes := (d_nodes d)(peer \<mapsto>
               \<lparr>ns_edge = Some eid, ns_conn = Some cid, ns_edge_addr = edge_addr, ns_edge_weight = weight, ns_edge_options = opts\<rparr>)\<rparr>;
     let d = emit (ClearPunch peer) d;
     Some (eid, activate_conn cid (d\<lparr>d_seen := purge_mentions name (d_seen d)\<rparr>)) }"

text \<open>The burst to the new peer and the announcement of the edge.\<close>

definition ack_announce :: "'g prims \<Rightarrow> nat \<Rightarrow> nat \<Rightarrow> 'g daemon \<Rightarrow> (bool \<times> 'g daemon) option" where
  "ack_announce P cid eid d = do {
     (nw, d) \<leftarrow> send_everything P cid d;
     let (n, d) = nonce P d;
     (nw2, d) \<leftarrow> (case fmt_add_edge eid n d of None \<Rightarrow> Some (False, d)
       | Some line \<Rightarrow> if s_tunnelserver (d_settings d) then d_send P cid line d else broadcast_line P line d);
     d \<leftarrow> run_graph_and_log d;
     Some (nw \<or> nw2, d) }"

text \<open>A connection to the same peer is there already: one of the two goes. \<open>True\<close> when it is the new one.\<close>

definition ack_displace :: "'g prims \<Rightarrow> nat \<Rightarrow> connection \<Rightarrow> nat \<Rightarrow> 'g daemon \<Rightarrow> (bool \<times> 'g daemon) option" where
  "ack_displace P cid c peer d =
     (case Option.bind (d_nodes d peer) ns_conn of
        None \<Rightarrow> Some (False, d)
      | Some old \<Rightarrow>
          if old = cid then Some (False, d)
          else
            let keep_old = keep_old_conn old c d;
                d = (if keep_old then hand_over old cid d else hand_over cid old d)
            in map_option (Pair keep_old) (terminate P (if keep_old then cid else old) d))"

definition on_ack :: "'g prims \<Rightarrow> nat \<Rightarrow> bytes \<Rightarrow> sock_addr option \<Rightarrow> 'g daemon \<Rightarrow> 'g outcome" where
  "on_ack P cid body local d =
     (case parse_ack body of
        Inl e \<Rightarrow> Some (Inl e, d)
      | Inr a \<Rightarrow> do {
          c \<leftarrow> map_of (d_conns d) cid;
          if c_active c then Some (Inl Unauthorized, d)
          else
            let c = c\<lparr>c_options := merge_options (c_options c) (his_options a) (c_host_clamp_mss c), c_allow_request := None\<rparr>;
                d = set_conn cid c d;
                edge_addr = map_option (\<lambda>(ip, _). (ip, his_udp_port a)) (c_address c);
                weight = midpoint (his_weight a) (c_estimated_weight c);
                d = (case c_outgoing c of None \<Rightarrow> d | Some oid \<Rightarrow> emit (ConfirmOutgoing oid (c_address c)) d)
            in do {
              (peer, d) \<leftarrow> lookup_or_add_node P (c_name c) d;
              (stop, d) \<leftarrow> ack_displace P cid c peer (seed_pmtu (c_pmtu_cap c) peer d);
              if stop then do { d \<leftarrow> run_graph_and_log d; Some (Inr False, d) }
              else do {
                (eid, d) \<leftarrow> ack_attach cid (c_name c) peer edge_addr local weight (c_options c) d;
                ok_result (ack_announce P cid eid d) } } })"

section \<open>PING and PONG\<close>

definition on_ping :: "'g prims \<Rightarrow> nat \<Rightarrow> 'g daemon \<Rightarrow> 'g outcome" where
  "on_ping P cid d = (if map_of (d_conns d) cid = None then None else ok_result (d_send P cid (show_request request.Pong) d))"

text \<open>\<open>o_timeout\<close> says which outgoing slots have a pending back-off; \<open>now\<close> is the clock read in the arm.\<close>

definition pong_seen :: "instant \<Rightarrow> connection \<Rightarrow> connection" where
  "pong_seen now c =
     (let c = c\<lparr>c_pinged := False\<rparr>
      in case c_last_ping_sent c of None \<Rightarrow> c
         | Some since \<Rightarrow> c\<lparr>c_last_ping_sent := None,
             c_ping_rtt_ms := min (duration_since now since div 1000000) 4294967295\<rparr>)"

definition on_pong :: "'g prims \<Rightarrow> nat \<Rightarrow> (nat \<Rightarrow> bool) \<Rightarrow> instant \<Rightarrow> 'g daemon \<Rightarrow> 'g outcome" where
  "on_pong P cid o_timeout now d = do {
     c \<leftarrow> map_option (pong_seen now) (map_of (d_conns d) cid);
     let d = set_conn cid c d;
     let d = (case c_outgoing c of None \<Rightarrow> d
              | Some oid \<Rightarrow> if o_timeout oid then emit (ConfirmOutgoing oid (c_address c)) d else d);
     ok_result (on_pong_rtt P cid now d) }"

section \<open>Purging unreachable nodes\<close>

definition purge_subnet :: "'g prims \<Rightarrow> string \<Rightarrow> subnet \<Rightarrow> bool \<times> 'g daemon \<Rightarrow> (bool \<times> 'g daemon) option" where
  "purge_subnet P name s = (\<lambda>(nw, d).
     let (n, d) = nonce P d
     in do {
       (nw2, d) \<leftarrow> broadcast_line P (subnet_msg_format request.DelSubnet n \<lparr>sm_owner = name, sm_subnet = s\<rparr>) d;
       let d = (if s_strictsubnets (d_settings d) then d
                else
                  let d = d\<lparr>d_subnets := snd (tree_del s name (d_subnets d))\<rparr>
                  in (case s of Mac addr _ \<Rightarrow>
                        if d_mac_table d addr = Some name then d\<lparr>d_mac_table := (d_mac_table d)(addr := None)\<rparr> else d
                      | _ \<Rightarrow> d));
       Some (nw \<or> nw2, d) })"

definition purge_edge :: "'g prims \<Rightarrow> string \<Rightarrow> nat \<Rightarrow> bool \<times> 'g daemon \<Rightarrow> (bool \<times> 'g daemon) option" where
  "purge_edge P name eid = (\<lambda>(nw, d).
     case get_edge (d_graph d) eid of None \<Rightarrow> Some (nw, d)
     | Some e \<Rightarrow> do {
         let to_name = node_log_name d (ge_to e);
         (nw2, d) \<leftarrow> (if s_tunnelserver (d_settings d) then Some (False, d)
           else let (n, d) = nonce P d in broadcast_line P (del_edge_format n \<lparr>de_from = name, de_to = to_name\<rparr>) d);
         d \<leftarrow> drop_edge eid d;
         Some (nw \<or> nw2, d) })"

fun seq_all :: "('a \<Rightarrow> 's \<Rightarrow> 's option) \<Rightarrow> 'a list \<Rightarrow> 's \<Rightarrow> 's option" where
  "seq_all f [] s = Some s"
| "seq_all f (x # xs) s = Option.bind (f x s) (seq_all f xs)"

definition purge_node :: "'g prims \<Rightarrow> nat \<times> string \<Rightarrow> bool \<times> 'g daemon \<Rightarrow> (bool \<times> 'g daemon) option" where
  "purge_node P = (\<lambda>(nid, name) (nw, d). do {
     (nw, d) \<leftarrow> seq_all (purge_subnet P name) (owned_by (d_subnets d) name) (nw, d);
     seq_all (purge_edge P name) (node_edges (d_graph d) nid) (nw, d) })"

definition purge_unreachable :: "'g daemon \<Rightarrow> (nat \<times> string) list" where
  "purge_unreachable d =
     List.map_filter (\<lambda>n. case get_node (d_graph d) n of None \<Rightarrow> None
       | Some nd \<Rightarrow> if gn_reachable nd then None else Some (n, gn_name nd)) (node_ids (d_graph d))"

text \<open>The second pass; \<open>True\<close> when it ran to its end, \<open>False\<close> when an incoming edge made it return early.\<close>

fun purge_orphans :: "nat set \<Rightarrow> (nat \<times> string) list \<Rightarrow> 'g daemon \<Rightarrow> (bool \<times> 'g daemon) option" where
  "purge_orphans targets [] d = Some (True, d)"
| "purge_orphans targets ((nid, name) # ns) d =
     (if node_reachable d nid then purge_orphans targets ns d
      else if nid \<in> targets then Some (False, d)
      else if \<not> s_autoconnect (d_settings d) \<and> (\<not> s_strictsubnets (d_settings d) \<or> owned_by (d_subnets d) name = [])
      then do {
        r \<leftarrow> del_node nid (d_graph d);
        purge_orphans targets ns
          (d\<lparr>d_node_ids := AList.delete name (d_node_ids d), d_id6 := id6_remove nid (d_id6 d), d_nodes := (d_nodes d)(nid := None),
             d_tunnels := (d_tunnels d)(nid := None), d_graph := (case r of None \<Rightarrow> d_graph d | Some g \<Rightarrow> g)\<rparr>) }
      else purge_orphans targets ns d)"

definition purge :: "'g prims \<Rightarrow> 'g daemon \<Rightarrow> (bool \<times> 'g daemon) option" where
  "purge P d = do {
     let unreachable = purge_unreachable d;
     (nw, d) \<leftarrow> seq_all (purge_node P) unreachable (False, d);
     (whole, d) \<leftarrow> purge_orphans ((\<lambda>(i, e). ge_to e) ` set (edge_iter (d_graph d))) unreachable d;
     if \<not> whole then Some (nw, d)
     else
       let d = tx_snap_refresh_subnets (tx_snap_refresh_graph d)
       in Some (nw, d\<lparr>d_tx_snap := map_option (\<lambda>s. s\<lparr>sn_tunnels := sn_tunnels s \<inter> d_tunnel_handles d\<rparr>) (d_tx_snap d)\<rparr>) }"

end
