(* ===== verification/Forwarding.thy ===== *)
theory Forwarding
  imports Fragment Mss_Clamp Neighbor Gossip Daemon_Conn
begin

text \<open>
  The path of a packet through the daemon: \<open>tincd/src/route_mac.rs\<close>, \<open>tincd/src/broadcast.rs\<close>,
  \<open>tincd/src/daemon/net/route.rs\<close> and \<open>tincd/src/daemon/net/icmp.rs\<close>. A packet from the device or from a
  peer is written to the device, sealed for another peer, split, answered with an error, or dropped.
  What happens to it is the list \<open>p_out\<close>: writes to the device, calls of \<open>send_sptps_packet\<close> and of
  \<open>try_tx\<close>, in order. \<open>None\<close> is a panic. \<open>le\<close> is the byte order of the host and \<open>facing\<close> the kernel's answer
  to which local address faces a given one. The stub resolver is switched off (\<open>dns\<close> is \<open>None\<close>).
\<close>

section \<open>Switching\<close>

datatype learn_action = NotOurs | NewMac bytes | Refresh bytes

definition route_mac ::
    "bytes \<Rightarrow> bool \<Rightarrow> string \<Rightarrow> (bytes \<rightharpoonup> string) \<Rightarrow> (string \<Rightarrow> 't option) \<Rightarrow> 't route_result \<times> learn_action" where
  "route_mac data from_myself source mac_table resolve =
     (if length data < 14 then (TooShort 14 (length data), NotOurs)
      else let
        src = take 6 (drop 6 data);
        dst = take 6 data;
        learn = (if from_myself then if mac_table src \<noteq> None then Refresh src else NewMac src else NotOurs)
      in case mac_table dst of None \<Rightarrow> (Broadcast, learn)
         | Some owner \<Rightarrow>
             if owner = source then (Unsupported ''MAC routing loop (owner == source)'', learn)
             else (case resolve owner of Some to \<Rightarrow> (Forward to, learn) | None \<Rightarrow> (Broadcast, learn)))"

datatype broadcast_mode = BcastNone | BcastMst | BcastDirect

definition mst_targets :: "('c \<times> 'e) list \<Rightarrow> 'e list \<Rightarrow> 'c option \<Rightarrow> 'c list" where
  "mst_targets active_conns tree from_conn =
     map fst (filter (\<lambda>(c, e). e \<in> set tree \<and> Some c \<noteq> from_conn) active_conns)"

definition direct_targets :: "('n \<times> 'n option \<times> 'n option) list \<Rightarrow> 'n \<Rightarrow> bool \<Rightarrow> 'n list" where
  "direct_targets nodes myself from_is_self =
     (if \<not> from_is_self then []
      else map fst (filter (\<lambda>(n, via, nexthop). n \<noteq> myself \<and> (via = Some myself \<and> nexthop = Some n \<or> via = Some n)) nodes))"

section \<open>State\<close>

datatype forwarding_mode = FwdOff | FwdInternal | FwdKernel
datatype routing_mode = Router | Switch | Hub

datatype action = ToDevice bytes | SendSptps nat bytes | TryTx nat

record 'g plane =
  p_daemon :: "'g daemon"
  p_forwarding_mode :: forwarding_mode
  p_routing_mode :: routing_mode
  p_broadcast_mode :: broadcast_mode
  p_directonly :: bool
  p_decrement_ttl :: bool
  p_priorityinheritance :: bool
  p_macexpire :: nat
  p_overwrite_mac :: bool
  p_mymac :: bytes
  p_icmp_ratelimit :: icmp_rate_limit
  p_started_at :: instant
  p_tx_priority :: u8
  p_any_pcap :: bool
  p_age_subnets_timer :: bool
  p_out :: "action list"

definition act :: "action \<Rightarrow> 'g plane \<Rightarrow> 'g plane" where
  "act a p = p\<lparr>p_out := p_out p @ [a]\<rparr>"

text \<open>\<open>tunnels.entry(nid).or_default().stats.add_out(1, len)\<close>.\<close>

definition count_out :: "nat \<Rightarrow> nat \<Rightarrow> 'g plane \<Rightarrow> 'g plane" where
  "count_out nid len p =
     (let d = p_daemon p;
          t = (case d_tunnels d nid of None \<Rightarrow> tunnel_default | Some t \<Rightarrow> t)
      in p\<lparr>p_daemon := d\<lparr>d_tunnels := (d_tunnels d)(nid \<mapsto> t\<lparr>t_stats := add_out 1 (of_nat len) (t_stats t)\<rparr>)\<rparr>\<rparr>)"

definition send_packet_myself :: "bytes \<Rightarrow> 'g plane \<Rightarrow> bytes \<times> 'g plane" where
  "send_packet_myself data p =
     (let data = (if p_overwrite_mac p \<and> 12 \<le> length data then p_mymac p @ fake_mac (p_mymac p) @ drop 12 data else data)
      in (data, act (ToDevice data) (count_out (d_myself (p_daemon p)) (length data) p)))"

section \<open>Errors and address resolution\<close>

definition ICMP_NET_ANO :: u8 where "ICMP_NET_ANO = 9"
definition ICMP_FRAG_NEEDED :: u8 where "ICMP_FRAG_NEEDED = 4"
definition ICMP6_DST_UNREACH_ADMIN :: u8 where "ICMP6_DST_UNREACH_ADMIN = 1"
definition ICMP6_PACKET_TOO_BIG :: u8 where "ICMP6_PACKET_TOO_BIG = 2"

datatype icmp_kind = Unreach u8 u8 bool | FragNeeded u16 | TooBigV6 u32

definition write_icmp_reply :: "bytes \<Rightarrow> nat option \<Rightarrow> 'g plane \<Rightarrow> 'g plane" where
  "write_icmp_reply reply src p = act (case src of Some n \<Rightarrow> SendSptps n reply | None \<Rightarrow> ToDevice reply) p"

text \<open>\<open>data.get(i..i + n)\<close>, handed to \<open>local_ip_facing\<close>.\<close>

definition facing_at :: "(bytes \<Rightarrow> bytes option) \<Rightarrow> bytes \<Rightarrow> nat \<Rightarrow> nat \<Rightarrow> bytes option" where
  "facing_at facing data i n = (if i + n \<le> length data then facing (take n (drop i data)) else None)"

fun icmp_reply :: "bool \<Rightarrow> (bytes \<Rightarrow> bytes option) \<Rightarrow> bool \<Rightarrow> bytes \<Rightarrow> icmp_kind \<Rightarrow> bytes option" where
  "icmp_reply le facing is_v6 data (Unreach t c discover_src) =
     (if is_v6 then build_v6_unreachable le data t c None (if discover_src then facing_at facing data 22 16 else None)
      else build_v4_unreachable le data t c None (if discover_src then facing_at facing data 26 4 else None))"
| "icmp_reply le facing is_v6 data (FragNeeded m) = build_v4_unreachable le data ICMP_DEST_UNREACH ICMP_FRAG_NEEDED (Some m) None"
| "icmp_reply le facing is_v6 data (TooBigV6 m) = build_v6_unreachable le data ICMP6_PACKET_TOO_BIG 0 (Some m) None"

definition emit_icmp :: "bool \<Rightarrow> (bytes \<Rightarrow> bytes option) \<Rightarrow> bytes \<Rightarrow> icmp_kind \<Rightarrow> nat option \<Rightarrow> 'g plane \<Rightarrow> 'g plane option" where
  "emit_icmp le facing data kind src p =
     (let now_sec = as_secs (duration_since (d_now (p_daemon p)) (p_started_at p));
          (limited, l) = should_drop (of_nat now_sec) 3 (p_icmp_ratelimit p);
          p = p\<lparr>p_icmp_ratelimit := l\<rparr>
      in if limited then Some p
         else do {
           ethertype \<leftarrow> be_at data 12;
           Some (case icmp_reply le facing (ethertype = ETH_P_IPV6) data kind of
             None \<Rightarrow> p | Some reply \<Rightarrow> write_icmp_reply reply src p) })"

definition handle_arp :: "bytes \<Rightarrow> nat option \<Rightarrow> 'g plane \<Rightarrow> 'g plane option" where
  "handle_arp data src p =
     (if src \<noteq> None then Some p
      else case parse_arp_req data of None \<Rightarrow> Some p
      | Some target \<Rightarrow>
          let p = (if p_overwrite_mac p then p\<lparr>p_mymac := take 6 (drop 6 data)\<rparr> else p)
          in do {
            r \<leftarrow> lookup_ipv4 (d_subnets (p_daemon p)) target (\<lambda>_. True);
            case r of None \<Rightarrow> Some p
            | Some (_, owner) \<Rightarrow>
                if owner = Some (d_name (p_daemon p)) then Some p
                else map_option (\<lambda>reply. act (ToDevice reply) p) (build_arp_reply data) })"

definition handle_ndp :: "bool \<Rightarrow> bytes \<Rightarrow> nat option \<Rightarrow> 'g plane \<Rightarrow> 'g plane option" where
  "handle_ndp le data src p =
     (if src \<noteq> None then Some p
      else case parse_ndp_solicit le data of None \<Rightarrow> Some p
      | Some target \<Rightarrow>
          let p = (if p_overwrite_mac p then p\<lparr>p_mymac := take 6 (drop 6 data)\<rparr> else p)
          in do {
            r \<leftarrow> lookup_ipv6 (d_subnets (p_daemon p)) target (\<lambda>_. True);
            case r of None \<Rightarrow> Some p
            | Some (_, owner) \<Rightarrow>
                if owner = Some (d_name (p_daemon p)) then Some p
                else let (res, data) = (if p_decrement_ttl p then decrement_ttl data else (Decremented, data))
                  in case res of DropSilent \<Rightarrow> Some p | SendIcmp _ _ \<Rightarrow> Some p
                     | _ \<Rightarrow> Some (case build_ndp_advert le data of None \<Rightarrow> p | Some reply \<Rightarrow> act (ToDevice reply) p) })"

section \<open>Learning and broadcast\<close>

definition MAX_MAC_LEASES :: nat where "MAX_MAC_LEASES = 4096"

fun announce_subnet :: "'g prims \<Rightarrow> nat list \<Rightarrow> string \<Rightarrow> subnet \<Rightarrow> 'g daemon \<Rightarrow> 'g daemon option" where
  "announce_subnet P [] owner s d = Some d"
| "announce_subnet P (cid # cids) owner s d = do {
     (_, d) \<leftarrow> send_subnet P cid request.AddSubnet owner s d;
     announce_subnet P cids owner s d }"

definition learn_mac :: "'g prims \<Rightarrow> bytes \<Rightarrow> 'g plane \<Rightarrow> 'g plane option" where
  "learn_mac P mac p =
     (let d = p_daemon p
      in if MAX_MAC_LEASES \<le> lease_len (d_mac_leases d) then Some p
         else let
           s = Mac mac 10;
           myname = d_name d;
           d = tx_snap_refresh_subnets (d\<lparr>d_subnets := tree_add s myname (d_subnets d)\<rparr>);
           d = d\<lparr>d_mac_table := (d_mac_table d)(mac \<mapsto> myname)\<rparr>;
           d = emit (SubnetScript True myname s) d
         in do {
           (arm_timer, ls) \<leftarrow> lease_learn mac (d_now d) (p_macexpire p) (d_mac_leases d);
           let d = d\<lparr>d_mac_leases := ls\<rparr>;
           d \<leftarrow> announce_subnet P (broadcast_targets None d) myname s d;
           Some (p\<lparr>p_daemon := d, p_age_subnets_timer := p_age_subnets_timer p \<or> arm_timer\<rparr>) })"

definition mst_broadcast_nids :: "nat option \<Rightarrow> 'g daemon \<Rightarrow> nat list" where
  "mst_broadcast_nids src d =
     (let from_conn = Option.bind src (\<lambda>nid. Option.bind (route_of d nid) (\<lambda>r. Option.bind (d_nodes d (r_nexthop r)) ns_conn));
          active = List.map_filter (\<lambda>(cid, c). if c_active c
            then Option.bind (map_of (d_node_ids d) (c_name c)) (\<lambda>nid. Option.bind (d_nodes d nid) (\<lambda>ns. map_option (Pair cid) (ns_edge ns)))
            else None) (d_conns d)
      in List.map_filter (\<lambda>cid. Option.bind (map_of (d_conns d) cid) (\<lambda>c. map_of (d_node_ids d) (c_name c)))
           (mst_targets active (d_last_mst d) from_conn))"

definition direct_broadcast_nids :: "nat option \<Rightarrow> 'g daemon \<Rightarrow> nat list" where
  "direct_broadcast_nids src d =
     direct_targets (List.map_filter (\<lambda>(_, nid). map_option (\<lambda>r. (nid, Some (r_via r), Some (r_nexthop r))) (slot (d_last_routes d) nid))
       (d_node_ids d)) (d_myself d) (src = None)"

definition broadcast_packet :: "bytes \<Rightarrow> nat option \<Rightarrow> 'g plane \<Rightarrow> 'g plane" where
  "broadcast_packet data src p =
     (let (data, p) = (if src \<noteq> None then send_packet_myself data p else (data, p));
          d = p_daemon p
      in if s_tunnelserver (d_settings d) \<or> p_broadcast_mode p = BcastNone then p
         else let target_nids = (if p_broadcast_mode p = BcastMst then mst_broadcast_nids src d else direct_broadcast_nids src d)
           in fold (\<lambda>nid p. act (TryTx nid) (act (SendSptps nid data) (count_out nid (length data) p))) target_nids p)"

section \<open>Forwarding to a peer\<close>

text \<open>The code of a refusal: by ethertype, IPv4 or else IPv6.\<close>

definition prohibited :: "u16 \<Rightarrow> icmp_kind" where
  "prohibited ethertype =
     (if ethertype = ETH_P_IP then Unreach ICMP_DEST_UNREACH ICMP_NET_ANO False
      else Unreach ICMP6_DST_UNREACH ICMP6_DST_UNREACH_ADMIN False)"

definition via_of :: "nat \<Rightarrow> 'g daemon \<Rightarrow> nat" where
  "via_of to d = (case route_of d to of None \<Rightarrow> to | Some r \<Rightarrow> if r_via r = d_myself d then r_nexthop r else r_via r)"

definition via_mtu :: "nat \<Rightarrow> 'g daemon \<Rightarrow> nat" where
  "via_mtu to d = (case d_tunnels d (via_of to d) of None \<Rightarrow> MTU | Some t \<Rightarrow> tunnel_mtu t)"

text \<open>The tail of the arm: clamp the MSS, then decrement the TTL, seal and send.\<close>

definition forward_send ::
    "bool \<Rightarrow> (bytes \<Rightarrow> bytes option) \<Rightarrow> nat \<Rightarrow> bytes \<Rightarrow> nat option \<Rightarrow> 'g plane \<Rightarrow> 'g plane option" where
  "forward_send le facing to data src p =
     (let (res, data) = (if p_decrement_ttl p \<and> src \<noteq> None then decrement_ttl data else (Decremented, data))
      in case res of
          TtlTooShort \<Rightarrow> Some p
        | DropSilent \<Rightarrow> Some p
        | SendIcmp t c \<Rightarrow> emit_icmp le facing data (Unreach t c True) src p
        | Decremented \<Rightarrow>
            let p = p\<lparr>p_tx_priority := (if p_priorityinheritance p then case extract_tos data of None \<Rightarrow> 0 | Some tos \<Rightarrow> tos else 0)\<rparr>
            in Some (act (SendSptps to data) (act (TryTx to) (count_out to (length data) p))))"

definition forward_tail ::
    "bool \<Rightarrow> (bytes \<Rightarrow> bytes option) \<Rightarrow> nat \<Rightarrow> bytes \<Rightarrow> nat option \<Rightarrow> 'g plane \<Rightarrow> 'g plane option" where
  "forward_tail le facing to data src p =
     (let d = p_daemon p; via_options = (case route_of d to of None \<Rightarrow> 0 | Some r \<Rightarrow> r_options r)
      in if via_options AND CLAMP_MSS \<noteq> 0
         then do { (_, data) \<leftarrow> clamp data (of_nat (min (via_mtu to d) MTU)); forward_send le facing to data src p }
         else forward_send le facing to data src p)"

text \<open>A frame over the limit: split or refused.\<close>

definition too_big ::
    "bool \<Rightarrow> (bytes \<Rightarrow> bytes option) \<Rightarrow> nat \<Rightarrow> nat \<Rightarrow> u16 \<Rightarrow> bytes \<Rightarrow> nat option \<Rightarrow> 'g plane \<Rightarrow> 'g plane option" where
  "too_big le facing to limit ethertype data src p =
     (if ethertype = ETH_P_IP then do {
        b \<leftarrow> rd data 20;
        if b AND 0x40 \<noteq> 0 then emit_icmp le facing data (FragNeeded (of_nat (limit - 14))) src p
        else Some (case fragment_v4 le data (of_nat limit) of
            None \<Rightarrow> p
          | Some frags \<Rightarrow>
              let p = fold (\<lambda>f. count_out to (length f)) frags p;
                  p = act (TryTx to) p
              in fold (\<lambda>f. act (SendSptps to f)) frags p) }
      else emit_icmp le facing data (TooBigV6 (of_nat (limit - 14))) src p)"

text \<open>The gate on the path MTU: \<open>None\<close> of the inner option lets the packet through.\<close>

definition pmtu_gate ::
    "bool \<Rightarrow> (bytes \<Rightarrow> bytes option) \<Rightarrow> nat \<Rightarrow> bytes \<Rightarrow> nat option \<Rightarrow> 'g plane \<Rightarrow> 'g plane option option" where
  "pmtu_gate le facing to data src p =
     (let d = p_daemon p; mtu = via_mtu to d
      in if via_of to d = d_myself d \<or> mtu = 0 then Some None
         else do {
           ethertype \<leftarrow> be_at data 12;
           let limit = max mtu (if ethertype = ETH_P_IP then 590 else 1294);
           if length data \<le> limit then Some None
           else map_option Some (too_big le facing to limit ethertype data src p) })"

definition dispatch_forward ::
    "bool \<Rightarrow> (bytes \<Rightarrow> bytes option) \<Rightarrow> nat \<Rightarrow> bytes \<Rightarrow> nat option \<Rightarrow> 'g plane \<Rightarrow> 'g plane option" where
  "dispatch_forward le facing to data src p =
     (let d = p_daemon p
      in if Some to = src then Some p
         else if p_forwarding_mode p = FwdOff \<and> src \<noteq> None then
           (if p_routing_mode p = Router then do { ethertype \<leftarrow> be_at data 12; emit_icmp le facing data (prohibited ethertype) src p }
            else Some p)
         else if Some (via_of to d) = src then Some p
         else if p_directonly p \<and> to \<noteq> via_of to d then do { ethertype \<leftarrow> be_at data 12; emit_icmp le facing data (prohibited ethertype) src p }
         else do {
           gate \<leftarrow> pmtu_gate le facing to data src p;
           case gate of Some p \<Rightarrow> Some p | None \<Rightarrow> forward_tail le facing to data src p })"

section \<open>Dispatch\<close>

definition dispatch_route_result ::
    "bool \<Rightarrow> (bytes \<Rightarrow> bytes option) \<Rightarrow> nat route_result \<Rightarrow> bytes \<Rightarrow> nat option \<Rightarrow> 'g plane \<Rightarrow> 'g plane option" where
  "dispatch_route_result le facing result data src p =
     (case result of
        Forward to \<Rightarrow>
          if to = d_myself (p_daemon p) then Some (snd (send_packet_myself data p))
          else dispatch_forward le facing to data src p
      | route_result.Unreachable t c \<Rightarrow> emit_icmp le facing data (Unreach t c False) src p
      | NeighborSolicit \<Rightarrow> handle_ndp le data src p
      | Unsupported reason \<Rightarrow> Some p
      | Broadcast \<Rightarrow>
          let (res, data) = (if p_decrement_ttl p \<and> src \<noteq> None then decrement_ttl data else (Decremented, data))
          in (case res of DropSilent \<Rightarrow> Some p | SendIcmp _ _ \<Rightarrow> Some p | _ \<Rightarrow> Some (broadcast_packet data src p))
      | TooShort need have' \<Rightarrow> Some p)"

definition route_packet_mac ::
    "'g prims \<Rightarrow> bool \<Rightarrow> (bytes \<Rightarrow> bytes option) \<Rightarrow> bytes \<Rightarrow> nat option \<Rightarrow> 'g plane \<Rightarrow> 'g plane option" where
  "route_packet_mac P le facing data src p =
     (let d = p_daemon p;
          source_name = (case src of None \<Rightarrow> d_name d
            | Some nid \<Rightarrow> (case get_node (d_graph d) nid of None \<Rightarrow> ''<unknown>'' | Some n \<Rightarrow> gn_name n));
          (result, learn) = route_mac data (src = None) source_name (d_mac_table d) (map_of (d_node_ids d))
      in do {
        p \<leftarrow> (case learn of
            NotOurs \<Rightarrow> Some p
          | NewMac mac \<Rightarrow> learn_mac P mac p
          | Refresh mac \<Rightarrow>
              if d_mac_table d mac = Some (d_name d) then do {
                (_, ls) \<leftarrow> lease_refresh mac (d_now d) (p_macexpire p) (d_mac_leases d);
                Some (p\<lparr>p_daemon := d\<lparr>d_mac_leases := ls\<rparr>\<rparr>) }
              else learn_mac P mac p);
        dispatch_route_result le facing result data src p })"

text \<open>The tap: every connection that asked for packets gets a line with the length and the bytes.\<close>

fun pcap_conns :: "'g prims \<Rightarrow> 'g \<Rightarrow> instant \<Rightarrow> bytes \<Rightarrow> (nat \<times> connection) list \<Rightarrow> (bool \<times> (nat \<times> connection) list) option" where
  "pcap_conns P g now data [] = Some (False, [])"
| "pcap_conns P g now data ((i, c) # cs) =
     (if \<not> c_pcap c then map_option (\<lambda>(armed, cs). (armed, (i, c) # cs)) (pcap_conns P g now data cs)
      else do {
        t \<leftarrow> checked_add now (from_secs 3600);
        let len = (if c_pcap_snaplen c \<noteq> 0 \<and> c_pcap_snaplen c < length data then c_pcap_snaplen c else length data);
        (_, c) \<leftarrow> conn_send P g (''18 14 '' @ show_radix 10 len) (c\<lparr>c_last_ping_time := t\<rparr>);
        let (_, c) = send_raw (take len data) c;
        (_, cs) \<leftarrow> pcap_conns P g now data cs;
        Some (True, (i, c) # cs) })"

definition send_pcap :: "'g prims \<Rightarrow> bytes \<Rightarrow> 'g plane \<Rightarrow> 'g plane option" where
  "send_pcap P data p = do {
     (armed, cs) \<leftarrow> pcap_conns P (d_rng (p_daemon p)) (d_now (p_daemon p)) data (d_conns (p_daemon p));
     Some (p\<lparr>p_daemon := (p_daemon p)\<lparr>d_conns := cs\<rparr>, p_any_pcap := armed\<rparr>) }"

definition resolve_reachable :: "'g daemon \<Rightarrow> string \<Rightarrow> nat option" where
  "resolve_reachable d name = Option.bind (map_of (d_node_ids d) name) (\<lambda>nid. if node_reachable d nid then Some nid else None)"

text \<open>
  The entry of the data path, with the DNS stub off (\<open>d.dns\<close> is \<open>None\<close>, the default): the code hands a frame from
  the device to it first and goes on when it declines. Sealing, probing and device writes are the actions of \<open>p_out\<close>.
\<close>

definition forward_packet ::
    "'g prims \<Rightarrow> bool \<Rightarrow> (bytes \<Rightarrow> bytes option) \<Rightarrow> bytes \<Rightarrow> nat option \<Rightarrow> 'g plane \<Rightarrow> 'g plane option" where
  "forward_packet P le facing data src p = do {
     p \<leftarrow> (if p_any_pcap p then send_pcap P data p else Some p);
     if p_forwarding_mode p = FwdKernel \<and> src \<noteq> None then Some (snd (send_packet_myself data p))
     else case p_routing_mode p of
       Switch \<Rightarrow> route_packet_mac P le facing data src p
     | Hub \<Rightarrow> dispatch_route_result le facing Broadcast data src p
     | Router \<Rightarrow>
         if 14 \<le> length data \<and> be_u16 (data ! 12) (data ! 13) = ETH_P_ARP then handle_arp data src p
         else do {
           result \<leftarrow> route_frame data (d_subnets (p_daemon p)) (resolve_reachable (p_daemon p));
           dispatch_route_result le facing result data src p } }"

section \<open>What leaves the daemon\<close>

lemma act_simps [simp]: "p_out (act a p) = p_out p @ [a]" "p_daemon (act a p) = p_daemon p" "p_tx_priority (act a p) = p_tx_priority p"
  by (simp_all add: act_def)

lemma count_out_simps [simp]: "p_out (count_out n l p) = p_out p" "p_tx_priority (count_out n l p) = p_tx_priority p"
  by (simp_all add: count_out_def Let_def)

lemma fold_count_out [simp]: "p_out (fold (\<lambda>f. count_out n (length f)) fs p) = p_out p"
    "p_tx_priority (fold (\<lambda>f. count_out n (length f)) fs p) = p_tx_priority p"
  by (induction fs arbitrary: p) simp_all

lemma fold_send [simp]: "p_out (fold (\<lambda>f. act (SendSptps n f)) fs p) = p_out p @ map (SendSptps n) fs"
    "p_tx_priority (fold (\<lambda>f. act (SendSptps n f)) fs p) = p_tx_priority p"
  by (induction fs arbitrary: p) simp_all

definition reply_to :: "nat option \<Rightarrow> bytes \<Rightarrow> action" where
  "reply_to src reply = (case src of Some n \<Rightarrow> SendSptps n reply | None \<Rightarrow> ToDevice reply)"

lemma emit_icmp_out:
  assumes "emit_icmp le facing data kind src p = Some p'"
  obtains "p_out p' = p_out p" "p_tx_priority p' = p_tx_priority p"
  | et reply where "be_at data 12 = Some et" "icmp_reply le facing (et = ETH_P_IPV6) data kind = Some reply"
      "p_out p' = p_out p @ [reply_to src reply]"
proof -
  obtain limited l where l: "should_drop (of_nat (as_secs (duration_since (d_now (p_daemon p)) (p_started_at p)))) 3 (p_icmp_ratelimit p) = (limited, l)"
    by (rule prod.exhaust)
  let ?p = "p\<lparr>p_icmp_ratelimit := l\<rparr>"
  show thesis
  proof (cases limited)
    case True
    thus thesis using assms l that(1) by (auto simp: emit_icmp_def)
  next
    case False
    then obtain et where et: "be_at data 12 = Some et"
        "p' = (case icmp_reply le facing (et = ETH_P_IPV6) data kind of None \<Rightarrow> ?p | Some reply \<Rightarrow> write_icmp_reply reply src ?p)"
      using assms l by (auto simp: emit_icmp_def Let_def bind_eq_Some_conv)
    thus thesis using that(1) that(2) [OF et(1)]
      by (cases "icmp_reply le facing (et = ETH_P_IPV6) data kind") (auto simp: write_icmp_reply_def reply_to_def)
  qed
qed

text \<open>The guards that a frame has passed when it is sealed for another peer.\<close>

definition may_forward :: "nat \<Rightarrow> nat option \<Rightarrow> 'g plane \<Rightarrow> bool" where
  "may_forward to src p \<longleftrightarrow> (let d = p_daemon p in Some to \<noteq> src \<and> Some (via_of to d) \<noteq> src \<and>
     (p_forwarding_mode p = FwdOff \<longrightarrow> src = None) \<and> (p_directonly p \<longrightarrow> via_of to d = to))"

text \<open>The limit on a frame for the next hop: none as long as its path MTU is not known.\<close>

definition fits_hop :: "nat \<Rightarrow> u16 \<Rightarrow> nat \<Rightarrow> 'g plane \<Rightarrow> bool" where
  "fits_hop to ethertype len p \<longleftrightarrow> (let d = p_daemon p in via_of to d = d_myself d \<or> via_mtu to d = 0 \<or>
     len \<le> max (via_mtu to d) (if ethertype = ETH_P_IP then 590 else 1294))"

text \<open>What becomes of a frame: nothing, an error to its sender, its fragments, or the frame itself.\<close>

datatype fate = Dropped | Answered bytes | Split "bytes list" | Passed bytes

fun fate_out :: "nat \<Rightarrow> nat option \<Rightarrow> fate \<Rightarrow> action list" where
  "fate_out to src Dropped = []"
| "fate_out to src (Answered reply) = [reply_to src reply]"
| "fate_out to src (Split frags) = TryTx to # map (SendSptps to) frags"
| "fate_out to src (Passed data) = [TryTx to, SendSptps to data]"

lemma emit_outcome:
  assumes "emit_icmp le facing data kind src p = Some p'"
  shows "\<exists>r. p_out p' = p_out p @ fate_out to src r \<and>
     (r = Dropped \<or> (\<exists>reply et. r = Answered reply \<and> be_at data 12 = Some et \<and> icmp_reply le facing (et = ETH_P_IPV6) data kind = Some reply))"
  using assms
proof (cases rule: emit_icmp_out)
  case 1
  thus ?thesis by (intro exI [of _ Dropped]) simp
next
  case (2 et reply)
  thus ?thesis by (intro exI [of _ "Answered reply"]) auto
qed

text \<open>The errors the daemon answers a forwarded frame with.\<close>

definition error_for :: "bool \<Rightarrow> (bytes \<Rightarrow> bytes option) \<Rightarrow> bytes \<Rightarrow> bytes \<Rightarrow> bool" where
  "error_for le facing data reply \<longleftrightarrow> (\<exists>et kind. be_at data 12 = Some et \<and> icmp_reply le facing (et = ETH_P_IPV6) data kind = Some reply)"

text \<open>The frame after the clamp: exactly if the route's options ask for it, with the MTU of the next hop.\<close>

definition clamped :: "nat \<Rightarrow> 'g plane \<Rightarrow> bytes \<Rightarrow> bytes \<Rightarrow> bool" where
  "clamped to p data data1 \<longleftrightarrow>
     (let d = p_daemon p
      in if (case route_of d to of None \<Rightarrow> False | Some r \<Rightarrow> r_options r AND CLAMP_MSS \<noteq> 0)
         then \<exists>b. clamp data (of_nat (min (via_mtu to d) MTU)) = Some (b, data1) else data1 = data)"

definition ttl_done :: "bool \<Rightarrow> bytes \<Rightarrow> bytes \<Rightarrow> bool" where
  "ttl_done b data1 data2 \<longleftrightarrow> (if b then decrement_ttl data1 = (Decremented, data2) else data2 = data1)"

definition forward_ok :: "bool \<Rightarrow> (bytes \<Rightarrow> bytes option) \<Rightarrow> nat \<Rightarrow> bytes \<Rightarrow> nat option \<Rightarrow> 'g plane \<Rightarrow> fate \<Rightarrow> bool" where
  "forward_ok le facing to data src p r =
     (case r of
        Dropped \<Rightarrow> True
      | Answered reply \<Rightarrow> error_for le facing data reply \<or> (\<exists>data1. clamped to p data data1 \<and> error_for le facing data1 reply)
      | Split frags \<Rightarrow> may_forward to src p \<and> be_at data 12 = Some ETH_P_IP \<and> \<not> fits_hop to ETH_P_IP (length data) p \<and>
          fragment_v4 le data (of_nat (max (via_mtu to (p_daemon p)) 590)) = Some frags
      | Passed data2 \<Rightarrow> may_forward to src p \<and> (\<forall>et. be_at data 12 = Some et \<longrightarrow> fits_hop to et (length data) p) \<and>
          (\<exists>data1. clamped to p data data1 \<and> ttl_done (p_decrement_ttl p \<and> src \<noteq> None) data1 data2))"

lemma ttl_icmp_same: "decrement_ttl data = (SendIcmp t c, data') \<Longrightarrow> data' = data"
  by (auto simp: decrement_ttl_def ttl_v4_def ttl_v6_def Let_def split: if_splits)

lemma forward_send_outcome:
  assumes "forward_send le facing to data src p = Some p'"
  shows "\<exists>r. p_out p' = p_out p @ fate_out to src r \<and>
     (r = Dropped \<or> (\<exists>reply. r = Answered reply \<and> error_for le facing data reply) \<or>
      (\<exists>data2. r = Passed data2 \<and> ttl_done (p_decrement_ttl p \<and> src \<noteq> None) data data2))"
proof -
  let ?ttl = "p_decrement_ttl p \<and> src \<noteq> None"
  obtain res data2 where r: "(if ?ttl then decrement_ttl data else (Decremented, data)) = (res, data2)" by (rule prod.exhaust)
  note rest = assms [unfolded forward_send_def r Let_def prod.case]
  show ?thesis
  proof (cases res)
    case Decremented
    have "ttl_done ?ttl data data2" using r Decremented by (auto simp: ttl_done_def split: if_splits)
    thus ?thesis using rest unfolding Decremented by (intro exI [of _ "Passed data2"]) (auto simp: Let_def)
  next
    case (SendIcmp t c)
    have "decrement_ttl data = (SendIcmp t c, data2)" using r SendIcmp by (simp split: if_splits)
    hence "data2 = data" by (rule ttl_icmp_same)
    hence "emit_icmp le facing data (Unreach t c True) src p = Some p'" using rest unfolding SendIcmp by simp
    from emit_outcome [OF this, of to] show ?thesis unfolding error_for_def by blast
  qed (use rest in \<open>auto intro!: exI [of _ Dropped]\<close>)
qed

lemma forward_tail_outcome:
  assumes "forward_tail le facing to data src p = Some p'"
  shows "\<exists>r data1. p_out p' = p_out p @ fate_out to src r \<and> clamped to p data data1 \<and>
     (r = Dropped \<or> (\<exists>reply. r = Answered reply \<and> error_for le facing data1 reply) \<or>
      (\<exists>data2. r = Passed data2 \<and> ttl_done (p_decrement_ttl p \<and> src \<noteq> None) data1 data2))"
proof -
  obtain data1 where "clamped to p data data1" "forward_send le facing to data1 src p = Some p'"
    using assms by (cases "route_of (p_daemon p) to") (auto simp: forward_tail_def Let_def bind_eq_Some_conv clamped_def split: if_splits)
  thus ?thesis using forward_send_outcome by blast
qed

lemma too_big_outcome:
  assumes "too_big le facing to limit et data src p = Some p'" "be_at data 12 = Some et"
  shows "\<exists>r. p_out p' = p_out p @ fate_out to src r \<and>
     (r = Dropped \<or> (\<exists>reply. r = Answered reply \<and> error_for le facing data reply) \<or>
      (\<exists>frags. r = Split frags \<and> et = ETH_P_IP \<and> fragment_v4 le data (of_nat limit) = Some frags))"
proof -
  consider kind where "emit_icmp le facing data kind src p = Some p'"
    | "et = ETH_P_IP" "fragment_v4 le data (of_nat limit) = None" "p' = p"
    | frags where "et = ETH_P_IP" "fragment_v4 le data (of_nat limit) = Some frags" "p_out p' = p_out p @ TryTx to # map (SendSptps to) frags"
    using assms(1) by (auto simp: too_big_def Let_def bind_eq_Some_conv split: if_splits option.splits)
  thus ?thesis
  proof cases
    case (1 kind)
    from emit_outcome [OF this, of to] show ?thesis unfolding error_for_def by blast
  next
    case 2
    thus ?thesis by (intro exI [of _ Dropped]) simp
  next
    case (3 frags)
    thus ?thesis by (intro exI [of _ "Split frags"]) simp
  qed
qed

lemma pmtu_gate_outcome:
  assumes "pmtu_gate le facing to data src p = Some gate"
  obtains "gate = None" "\<forall>et. be_at data 12 = Some et \<longrightarrow> fits_hop to et (length data) p"
  | et p' where "gate = Some p'" "be_at data 12 = Some et" "\<not> fits_hop to et (length data) p"
      "too_big le facing to (max (via_mtu to (p_daemon p)) (if et = ETH_P_IP then 590 else 1294)) et data src p = Some p'"
proof (cases "via_of to (p_daemon p) = d_myself (p_daemon p) \<or> via_mtu to (p_daemon p) = 0")
  case True
  thus ?thesis using assms that(1) by (auto simp: pmtu_gate_def Let_def fits_hop_def)
next
  case False
  then obtain et where et: "be_at data 12 = Some et"
      and g: "(let limit = max (via_mtu to (p_daemon p)) (if et = ETH_P_IP then 590 else 1294) in
        if length data \<le> limit then Some None else map_option Some (too_big le facing to limit et data src p)) = Some gate"
    using assms by (auto simp: pmtu_gate_def bind_eq_Some_conv Let_def)
  show ?thesis
  proof (cases "fits_hop to et (length data) p")
    case True
    thus ?thesis using g et False that(1) by (auto simp: fits_hop_def Let_def split: if_splits)
  next
    case F: False
    hence "\<not> length data \<le> max (via_mtu to (p_daemon p)) (if et = ETH_P_IP then 590 else 1294)" by (auto simp: fits_hop_def Let_def)
    thus ?thesis using g that(2) [OF _ et F] by (auto simp: Let_def)
  qed
qed

end
