(* ===== verification/Meta_Link.thy ===== *)
theory Meta_Link
  imports Meta_Conn
begin

text \<open>
  What the receive loop of a meta connection makes of a byte stream: the result does not depend on
  how the stream is cut into reads if the handlers that run in between leave alone what the loop reads, and what one side queues the other side gets back, line by line
  and blob by blob.
\<close>

section \<open>Session fields no operation changes\<close>

definition keeps_framing :: "('g, 'a) sp_op \<Rightarrow> bool" where
  "keeps_framing f \<longleftrightarrow> (\<forall>c. sp_framing (fst (snd (f c))) = sp_framing (fst c))"

lemma keeps_ops [simp]:
  "keeps_framing (ret x)" "keeps_framing (throw e)" "keeps_framing panic" "keeps_framing (draw d)" "keeps_framing (expect v)"
  "keeps_framing (ok_or e v)" "keeps_framing (push_out o')"
  by (auto simp: keeps_framing_def op_defs split_beta Let_def split: option.splits)

lemma keeps_modify: "(\<And>s. sp_framing (f s) = sp_framing s) \<Longrightarrow> keeps_framing (modify f)"
  by (simp add: keeps_framing_def modify_def)

lemma keeps_andThen: "keeps_framing f \<Longrightarrow> (\<And>x. keeps_framing (k x)) \<Longrightarrow> keeps_framing (andThen f k)"
  by (auto simp: keeps_framing_def andThen_def split: prod.splits res.splits) (metis fst_conv snd_conv)+

lemma keeps_self: "(\<And>s. keeps_framing (k s)) \<Longrightarrow> keeps_framing (self k)"
  by (simp add: keeps_framing_def self_def)

lemma keeps_expect_ok: "keeps_framing f \<Longrightarrow> keeps_framing (expect_ok f)"
  by (auto simp: keeps_framing_def expect_ok_def split: prod.splits res.splits) (metis fst_conv snd_conv)+

lemmas keeps_intros = keeps_andThen keeps_self keeps_expect_ok keeps_modify

lemma keeps_send_record_priv: "keeps_framing (send_record_priv P ty body)"
  by (auto simp: send_record_priv_def Let_def intro!: keeps_intros)

lemma keeps_send_kex: "keeps_framing (send_kex P)"
  by (auto simp: send_kex_def Let_def split_beta intro!: keeps_intros keeps_send_record_priv)

lemma keeps_framingD: "keeps_framing f \<Longrightarrow> f (s, c) = (r, s', c') \<Longrightarrow> sp_framing s' = sp_framing s"
  by (metis fst_conv keeps_framing_def snd_conv)

lemma start_with_framing: "start_with P role fr kex k h l a w g = Some (s, c) \<Longrightarrow> sp_framing s = fr"
  using keeps_framingD [OF keeps_send_kex, of P "sptps_init role fr kex k h l a w" "(g, [])"]
  by (cases "send_kex P (sptps_init role fr kex k h l a w, g, [])")
     (auto simp: start_with_def sptps_init_def Let_def split: res.splits)

lemma keeps_send_sig: "keeps_framing (send_sig P)"
  by (auto simp: send_sig_def kex_pair_def Let_def split_beta split: sptps_kex.splits
      intro!: keeps_intros keeps_send_record_priv)

lemma keeps_key_material: "keeps_framing (generate_key_material P x h)"
  by (auto simp: generate_key_material_def kex_pair_def Let_def split_beta intro!: keeps_intros)

lemma keeps_hybrid_key_material: "keeps_framing (hybrid_key_material P m h x ct)"
  by (auto simp: hybrid_key_material_def Let_def split_beta intro!: keeps_intros keeps_key_material)

lemma keeps_receive_sig: "keeps_framing (receive_sig P body)"
  by (auto simp: receive_sig_def sig_switch_def send_ack_def kex_pair_def Let_def split_beta split: sptps_kex.splits
      intro!: keeps_intros keeps_key_material keeps_hybrid_key_material keeps_send_sig keeps_send_record_priv)

lemma keeps_receive_handshake: "keeps_framing (receive_handshake P body)"
  by (auto simp: receive_handshake_def receive_kex_def receive_ack_def send_ack_def split: sptps_kex.splits
      intro!: keeps_intros keeps_send_kex keeps_send_sig keeps_receive_sig keeps_send_record_priv)

lemma keeps_dispatch_record: "keeps_framing (dispatch_record P ty body enc)"
  by (auto simp: dispatch_record_def intro!: keeps_intros keeps_receive_handshake)

lemma keeps_receive_stream_body: "keeps_framing (receive_stream_body P data n)"
  by (auto simp: receive_stream_body_def Let_def split_beta intro!: keeps_intros keeps_dispatch_record split: option.splits)

lemma keeps_receive_stream: "keeps_framing (receive_stream P data)"
  by (auto simp: receive_stream_def Let_def intro!: keeps_intros keeps_receive_stream_body)

section \<open>One record of a stream\<close>

text \<open>A session in stream mode between records or in the middle of one.\<close>

definition stream_session :: "'g prims \<Rightarrow> sptps \<Rightarrow> bool" where
  "stream_session P s \<longleftrightarrow> sp_inv P s \<and> sp_framing s = Stream"

lemma stream_session_ok: "stream_session P s \<Longrightarrow> stream_ok s"
  by (simp add: stream_session_def sp_inv_def sp_core_def)

lemma receive_stream_session:
  assumes "prims_lengths P" "stream_session P s" "receive P data (s, g, out) = (r, s', g', out')"
  shows "stream_session P s' \<and> r \<noteq> Panic"
proof -
  have f: "sp_framing s = Stream" and i: "sp_inv P s" using assms(2) by (simp_all add: stream_session_def)
  hence r: "receive_stream P data (s, g, out) = (r, s', g', out')" using assms(3) by (simp add: receive_def run_simps)
  have "sp_framing s' = Stream" using keeps_framingD [OF keeps_receive_stream r] f by simp
  moreover have "sp_inv P s'" by (rule wp_inv_step [OF wp_receive [OF assms(1) i] assms(3)])
  moreover have "r \<noteq> Panic" using wpD(1) [OF wp_receive [OF assms(1) i] assms(3)] .
  ultimately show ?thesis by (simp add: stream_session_def)
qed

definition shift :: "nat \<Rightarrow> nat res \<times> 'c \<Rightarrow> nat res \<times> 'c" where
  "shift k r = (case r of (Ok n, c) \<Rightarrow> (Ok (k + n), c) | (Err e, c) \<Rightarrow> (Err e, c) | (Panic, c) \<Rightarrow> (Panic, c))"


text \<open>A whole record: count it, clear the buffer, decrypt and dispatch.\<close>

definition whole_record :: "'g prims \<Rightarrow> bytes \<Rightarrow> ('g, unit) sp_op" where
  "whole_record P buf =
     self (\<lambda>s.
       andThen (modify (\<lambda>s. s\<lparr>sp_inseqno := sp_inseqno s + 1, sp_stream := \<lparr>sb_buf = [], sb_reclen = 0\<rparr>\<rparr>)) (\<lambda>_.
       andThen (case sp_incipher s of
           Some cipher \<Rightarrow>
             andThen (ok_or DecryptFailed (cipher_open P cipher (ucast (sp_inseqno s)) (drop 2 buf))) (\<lambda>pt.
             if pt = [] then panic else ret (hd pt, tl pt))
         | None \<Rightarrow> ret (buf ! 2, drop 3 buf)) (\<lambda>(ty, body).
       dispatch_record P ty body (sp_incipher s \<noteq> None))))"

lemma whole_record_stream: "whole_record P buf (s\<lparr>sp_stream := x\<rparr>, g, out) = whole_record P buf (s, g, out)"
  by (cases "sp_incipher s") (simp_all add: whole_record_def run_simps)

definition pending :: "sptps \<Rightarrow> bytes" where
  "pending s = sb_buf (sp_stream s)"

definition missing :: "sptps \<Rightarrow> nat" where
  "missing s = 3 + unat (sb_reclen (sp_stream s)) + (if sp_incipher s \<noteq> None then TAG_LEN else 0) - length (pending s)"

definition with_pending :: "bytes \<Rightarrow> sptps \<Rightarrow> sptps" where
  "with_pending b s = s\<lparr>sp_stream := (sp_stream s)\<lparr>sb_buf := b\<rparr>\<rparr>"

lemma with_pending_simps [simp]:
  "pending (with_pending b s) = b" "sp_incipher (with_pending b s) = sp_incipher s"
  "sb_reclen (sp_stream (with_pending b s)) = sb_reclen (sp_stream s)" "sp_framing (with_pending b s) = sp_framing s"
  "with_pending c (with_pending b s) = with_pending c s" "with_pending (pending s) s = s"
  by (simp_all add: with_pending_def pending_def)

lemma missing_with_pending: "missing (with_pending (pending s @ b) s) = missing s - length b"
  by (simp add: missing_def)

lemma stream_ok_missing: "stream_ok s \<Longrightarrow> 2 \<le> length (pending s) \<Longrightarrow> 0 < missing s"
  by (auto simp: stream_ok_def missing_def pending_def)

lemma receive_stream_body_eq:
  assumes ok: "stream_ok s" "2 \<le> length (pending s)" and k: "k \<le> length a"
  shows "receive_stream_body P a k (s, g, out) =
    (if length a - k < missing s then (Ok (length a), with_pending (pending s @ drop k a) s, g, out)
     else andThen (whole_record P (pending s @ take (missing s) (drop k a))) (\<lambda>_. ret (k + missing s)) (s, g, out))"
proof -
  define T where "T = 2 + (if sp_incipher s \<noteq> None then unat (sb_reclen (sp_stream s)) + 1 + TAG_LEN else unat (sb_reclen (sp_stream s)) + 1)"
  have T: "T - length (pending s) = missing s" "length (pending s) < T"
    using ok by (auto simp: T_def missing_def pending_def stream_ok_def)
  have m: "length (pending s @ take (min (missing s) (length a - k)) (drop k a)) < T \<longleftrightarrow> length a - k < missing s"
    using T by (auto simp: min_def)
  show ?thesis
  proof (cases "length a - k < missing s")
    case True
    hence "min (missing s) (length a - k) = length a - k" by simp
    thus ?thesis
      unfolding receive_stream_body_def self_app Let_def T_def [symmetric] pending_def [symmetric] T(1)
      using True T m k by (simp add: run_simps with_pending_def)
  next
    case False
    hence e: "min (missing s) (length a - k) = missing s" by simp
    show ?thesis
      unfolding receive_stream_body_def self_app Let_def T_def [symmetric] pending_def [symmetric] T(1) e
      using False T m k e by (cases "sp_incipher s") (simp_all add: run_simps whole_record_def case_prod_beta')
  qed
qed


text \<open>Reading the two bytes of the length header.\<close>

definition header_missing :: "sptps \<Rightarrow> nat" where
  "header_missing s = 2 - length (pending s)"

definition with_header :: "bytes \<Rightarrow> sptps \<Rightarrow> sptps" where
  "with_header b s = s\<lparr>sp_stream := \<lparr>sb_buf = b, sb_reclen = be_u16 (b ! 0) (b ! 1)\<rparr>\<rparr>"

definition too_long :: "bytes \<Rightarrow> sptps \<Rightarrow> bool" where
  "too_long b s \<longleftrightarrow> sp_incipher s = None \<and> MAX_PREAUTH_RECLEN < unat (be_u16 (b ! 0) (b ! 1))"

lemma with_header_simps [simp]:
  "pending (with_header b s) = b" "sp_incipher (with_header b s) = sp_incipher s"
  "with_header b (with_pending c s) = with_header b s"
  by (simp_all add: with_header_def with_pending_def pending_def)

lemma stream_ok_header: "length b = 2 \<Longrightarrow> stream_ok (with_header b s)"
  by (simp add: stream_ok_def with_header_def)

lemma stream_buf_eq: "(r :: stream_buf)\<lparr>sb_buf := b, sb_reclen := n\<rparr> = \<lparr>sb_buf = b, sb_reclen = n\<rparr>"
  by (cases r) simp

lemma receive_header:
  assumes h: "length (pending s) < 2" and f: "sp_framing s = Stream"
  shows "receive P a (s, g, out) =
    (if length a < header_missing s then (Ok (length a), with_pending (pending s @ a) s, g, out)
     else let b = pending s @ take (header_missing s) a in
       if too_long b s then (Err RecordTooLong, s\<lparr>sp_stream := \<lparr>sb_buf = [], sb_reclen = 0\<rparr>\<rparr>, g, out)
       else receive_stream_body P a (header_missing s) (with_header b s, g, out))"
proof (cases "length a < header_missing s")
  case True
  hence "length (pending s @ a) < 2" by (simp add: header_missing_def)
  thus ?thesis using True h f
    by (simp add: receive_def receive_stream_def run_simps Let_def pending_def [symmetric] header_missing_def with_pending_def)
next
  case False
  define b where "b = pending s @ take (header_missing s) a"
  have b: "length b = 2" using False h by (simp add: b_def header_missing_def)
  have m: "min (2 - length (pending s)) (length a) = header_missing s" using False by (simp add: header_missing_def)
  have "receive_stream_body P a (header_missing s) (with_header b s, g, out) = (Ok (length a), with_header b s, g, out)"
    if "length a = header_missing s"
    using that receive_stream_body_eq [of "with_header b s" "header_missing s" a P g out] b
      stream_ok_header [OF b, of s] stream_ok_missing [of "with_header b s"] with_pending_simps(6) [of "with_header b s"]
    by (simp del: with_pending_simps(6))
  moreover have "receive P a (s, g, out) =
      (if too_long b s then (Err RecordTooLong, s\<lparr>sp_stream := \<lparr>sb_buf = [], sb_reclen = 0\<rparr>\<rparr>, g, out)
       else if header_missing s = length a then (Ok (header_missing s), with_header b s, g, out)
       else receive_stream_body P a (header_missing s) (with_header b s, g, out))"
  proof -
    have "receive P a (s, g, out) = receive_stream P a (s, g, out)" using f by (simp add: receive_def run_simps)
    thus ?thesis
      unfolding receive_stream_def self_app Let_def pending_def [symmetric] m b_def [symmetric]
      using h b by (simp add: run_simps with_header_def too_long_def stream_buf_eq)
  qed
  ultimately show ?thesis using False by (auto simp: Let_def b_def)
qed

section \<open>Splitting the data\<close>

lemma receive_body_session:
  assumes "2 \<le> length (pending s)" "sp_framing s = Stream"
  shows "receive P a (s, g, out) = receive_stream_body P a 0 (s, g, out)"
  using assms by (simp add: receive_def receive_stream_def run_simps pending_def)

lemma andThen_ret_shift:
  "andThen f (\<lambda>_. ret (k + n)) c = shift k (andThen f (\<lambda>_. ret n) c)"
  by (simp add: andThen_def ret_def shift_def split: prod.splits res.splits)

lemma body_split:
  assumes ok: "stream_ok s" "2 \<le> length (pending s)" "sp_framing s = Stream" and k: "k \<le> length a"
    and more: "length a - k < missing s"
  shows "receive_stream_body P (a @ b) k (s, g, out) =
    shift (length a) (receive P b (with_pending (pending s @ drop k a) s, g, out))"
proof -
  define s1 where "s1 = with_pending (pending s @ drop k a) s"
  have m: "missing s1 = missing s - (length a - k)" by (simp add: s1_def missing_with_pending)
  have ok1: "stream_ok s1" "2 \<le> length (pending s1)"
    using more ok by (auto simp: stream_ok_def s1_def missing_def pending_def with_pending_def)
  have w: "whole_record P buf (s1, g, out) = whole_record P buf (s, g, out)" for buf
    by (simp add: s1_def with_pending_def whole_record_stream)
  have t: "take (missing s) (drop k a @ b) = drop k a @ take (missing s1) b" using more k by (simp add: m)
  have r: "receive P b (s1, g, out) = receive_stream_body P b 0 (s1, g, out)"
    using ok1 ok(3) by (intro receive_body_session) (simp_all add: s1_def)
  have p: "pending s1 = pending s @ drop k a" by (simp add: s1_def)
  show ?thesis
  proof (cases "length b < missing s1")
    case True
    hence "length (a @ b) - k < missing s" using more k m by simp
    thus ?thesis using True k r p receive_stream_body_eq [of s k "a @ b" P g out] ok
        receive_stream_body_eq [of s1 0 b P g out] ok1
      by (simp add: s1_def [symmetric] shift_def) (simp add: s1_def)
  next
    case False
    hence "\<not> length (a @ b) - k < missing s" using more k m by simp
    moreover have "k + missing s = length a + missing s1" using more k m by simp
    ultimately show ?thesis using False k r p t receive_stream_body_eq [of s k "a @ b" P g out] ok
        receive_stream_body_eq [of s1 0 b P g out] ok1
      by (simp add: s1_def [symmetric] andThen_ret_shift) (simp add: andThen_def w shift_def)
  qed
qed


lemma andThen_ret_Ok: "andThen f (\<lambda>_. ret n) c = (Ok m, c') \<Longrightarrow> m = n"
  by (auto simp: andThen_def ret_def split: prod.splits res.splits)

text \<open>
  A read either ends in the middle of a record, and more data continues from there, or it finished
  a record or failed, and more data does not change that.
\<close>

lemma body_result:
  assumes ok: "stream_ok s" "2 \<le> length (pending s)" "sp_framing s = Stream" and k: "k \<le> length a"
    and r: "receive_stream_body P a k (s, g, []) = (r, s1, g1, outs)"
  shows "(r = Ok (length a) \<and> g1 = g \<and> outs = [] \<and>
      receive_stream_body P (a @ b) k (s, g, []) = shift (length a) (receive P b (s1, g, []))) \<or>
    ((\<forall>n. r = Ok n \<longrightarrow> k < n \<and> n \<le> length a) \<and> receive_stream_body P (a @ b) k (s, g, []) = (r, s1, g1, outs))"
proof (cases "length a - k < missing s")
  case True
  hence "receive_stream_body P a k (s, g, []) = (Ok (length a), with_pending (pending s @ drop k a) s, g, [])"
    using receive_stream_body_eq [OF ok(1,2) k, of P g "[]"] by simp
  thus ?thesis using r body_split [OF ok k True, of P b g "[]"] by simp
next
  case False
  have m: "\<not> length (a @ b) - k < missing s" "take (missing s) (drop k (a @ b)) = take (missing s) (drop k a)"
    using False k by auto
  have a: "receive_stream_body P a k (s, g, []) =
      andThen (whole_record P (pending s @ take (missing s) (drop k a))) (\<lambda>_. ret (k + missing s)) (s, g, [])"
    using False receive_stream_body_eq [OF ok(1,2) k, of P g "[]"] by simp
  have "receive_stream_body P (a @ b) k (s, g, []) = receive_stream_body P a k (s, g, [])"
    using m a receive_stream_body_eq [of s k "a @ b" P g "[]"] ok k by (simp del: drop_append)
  moreover have "k < n \<and> n \<le> length a" if "r = Ok n" for n
    using andThen_ret_Ok [OF trans [OF a [symmetric] r [unfolded that]]] False k stream_ok_missing [OF ok(1,2)] by simp
  ultimately show ?thesis using r by simp
qed

lemma body_shift:
  assumes "stream_ok y" "2 \<le> length (pending y)" "k \<le> length b"
  shows "receive_stream_body P (a @ b) (length a + k) (y, g, out) = shift (length a) (receive_stream_body P b k (y, g, out))"
  using receive_stream_body_eq [of y "length a + k" "a @ b" P g out] receive_stream_body_eq [of y k b P g out] assms
  by (simp add: andThen_ret_shift add.assoc) (simp add: shift_def)

text \<open>More data after a read that ended inside the length header.\<close>

lemma header_split:
  assumes f: "sp_framing s = Stream" and short: "length (pending s @ a) < 2"
  shows "receive P (a @ b) (s, g, out) = shift (length a) (receive P b (with_pending (pending s @ a) s, g, out))"
proof -
  define s1 where "s1 = with_pending (pending s @ a) s"
  have p: "length (pending s1) < 2" "header_missing s = length a + header_missing s1" "sp_framing s1 = Stream"
    using short f by (simp_all add: s1_def header_missing_def)
  have tl: "too_long x s1 = too_long x s" "with_header x s1 = with_header x s"
    "s1\<lparr>sp_stream := y\<rparr> = s\<lparr>sp_stream := y\<rparr>" for x y by (simp_all add: s1_def too_long_def) (simp add: with_pending_def)
  define x where "x = pending s1 @ take (header_missing s1) b"
  have x': "pending s @ take (header_missing s) (a @ b) = x" by (simp add: p x_def) (simp add: s1_def)
  have H: "length (pending s) < 2" using short by simp
  show ?thesis unfolding s1_def [symmetric]
  proof (cases "length b < header_missing s1")
    case True
    thus "receive P (a @ b) (s, g, out) = shift (length a) (receive P b (s1, g, out))"
      by (simp add: receive_header [OF p(1,3)] receive_header [OF H f] p(2) shift_def) (simp add: s1_def)
  next
    case False
    have x: "length x = 2" using False p(1) by (simp add: x_def header_missing_def)
    show "receive P (a @ b) (s, g, out) = shift (length a) (receive P b (s1, g, out))"
      using False body_shift [of "with_header x s" "header_missing s1" b P a g out] stream_ok_header [OF x, of s] x
      unfolding receive_header [OF p(1,3)] receive_header [OF H f] x' x_def [symmetric] Let_def tl
      by (simp add: p(2)) (simp add: shift_def)
  qed
qed

lemma receive_split:
  assumes s: "stream_session P s" and r: "receive P a (s, g, []) = (r, s1, g1, outs)"
  shows "(r = Ok (length a) \<and> g1 = g \<and> outs = [] \<and> receive P (a @ b) (s, g, []) = shift (length a) (receive P b (s1, g, []))) \<or>
    ((\<forall>n. r = Ok n \<longrightarrow> 0 < n \<and> n \<le> length a) \<and> receive P (a @ b) (s, g, []) = (r, s1, g1, outs))"
proof (cases "length (pending s) < 2")
  case False
  thus ?thesis using body_result [of s 0 a P g r s1 g1 outs b] r s stream_session_ok [OF s]
    by (simp add: receive_body_session stream_session_def)
next
  case True
  have f: "sp_framing s = Stream" using s by (simp add: stream_session_def)
  note H = receive_header [OF True f, of P _ g "[]"]
  show ?thesis
  proof (cases "length a < header_missing s")
    case short: True
    thus ?thesis using r H [of a] header_split [OF f, of a P b g "[]"] True by (simp add: header_missing_def)
  next
    case False
    define x where "x = pending s @ take (header_missing s) a"
    have x: "length x = 2" using False True by (simp add: x_def header_missing_def)
    have hm: "0 < header_missing s" "header_missing s \<le> length a" using True False by (simp_all add: header_missing_def)
    have w: "sp_framing (with_header x s) = Stream" using f by (simp add: with_header_def)
    have e: "receive P (a @ c) (s, g, []) =
        (if too_long x s then (Err RecordTooLong, s\<lparr>sp_stream := \<lparr>sb_buf = [], sb_reclen = 0\<rparr>\<rparr>, g, [])
         else receive_stream_body P (a @ c) (header_missing s) (with_header x s, g, []))" for c
      using False hm by (simp add: H Let_def x_def)
    show ?thesis
    proof (cases "too_long x s")
      case True
      thus ?thesis using e [of "[]"] e [of b] r by simp
    next
      case False
      thus ?thesis using e [of "[]"] e [of b] r hm
          body_result [OF stream_ok_header [OF x] _ w hm(2), of P g r s1 g1 outs b] x by auto
    qed
  qed
qed


section \<open>Chunking\<close>

text \<open>The blob under way is shorter than announced, and there is none between blobs.\<close>

definition blob_ok :: "connection \<Rightarrow> bool" where
  "blob_ok c \<longleftrightarrow> (if c_sptpslen c = 0 then c_sptps_buf c = [] else length (c_sptps_buf c) < c_sptpslen c)"

fun prepend :: "sptps_event list \<Rightarrow> feed_result \<Rightarrow> feed_result" where
  "prepend ev (FeedSptps ev') = FeedSptps (ev @ ev')"
| "prepend ev r = r"

definition prepended :: "sptps_event list \<Rightarrow> (feed_result \<times> 'c) option \<Rightarrow> (feed_result \<times> 'c) option" where
  "prepended ev = map_option (map_prod (prepend ev) id)"

lemma feed_outs_ev: "feed_outs c outs ev = map_prod (\<lambda>e. ev @ e) id (feed_outs c outs [])"
proof (induction outs arbitrary: ev)
  case (Cons o' os)
  show ?case using Cons [of "ev @ [EvRecord o']"] Cons [of "[EvRecord o']"]
    by (auto simp: map_prod_def split_beta split: option.splits)
qed simp

lemma c_sptps_restore [simp]: "(c :: connection)\<lparr>c_sptps := c_sptps c\<rparr> = c"
  by (cases c) simp

lemma feed_outs_conn:
  "c_sptps_buf (snd (feed_outs c outs ev)) = c_sptps_buf c" "c_sptps (snd (feed_outs c outs ev)) = c_sptps c"
  by (induction c outs ev rule: feed_outs.induct) (auto split: option.splits)

lemma feed_outs_blob_ok: "blob_ok c \<Longrightarrow> c_sptpslen c = 0 \<Longrightarrow> blob_ok (snd (feed_outs c outs ev))"
  by (induction c outs ev rule: feed_outs.induct) (auto simp: blob_ok_def split: option.splits)


lemma feed_nil: "feed_loop P [] s g c ev = Some (FeedSptps ev, c\<lparr>c_sptps := Some s\<rparr>, g)"
  by (simp add: feed_loop.simps [of P "[]"])

definition blob_want :: "connection \<Rightarrow> nat" where
  "blob_want c = c_sptpslen c - length (c_sptps_buf c)"

lemma feed_blob:
  assumes "a \<noteq> []" "0 < c_sptpslen c" "blob_ok c"
  shows "feed_loop P a s g c ev =
    (if length a < blob_want c then Some (FeedSptps ev, c\<lparr>c_sptps_buf := c_sptps_buf c @ a, c_sptps := Some s\<rparr>, g)
     else feed_loop P (drop (blob_want c) a) s g (c\<lparr>c_sptps_buf := [], c_sptpslen := 0\<rparr>)
       (ev @ [EvBlob (c_sptps_buf c @ take (blob_want c) a)]))"
proof -
  have w: "length (c_sptps_buf c) < c_sptpslen c" using assms by (auto simp: blob_ok_def split: if_splits)
  show ?thesis
  proof (cases "length a < blob_want c")
    case True
    hence "min (blob_want c) (length a) = length a" "length (c_sptps_buf c) + length a < c_sptpslen c"
      by (simp_all add: blob_want_def)
    thus ?thesis using assms w True by (simp add: feed_loop.simps [of P a] Let_def blob_want_def [symmetric])
  next
    case False
    hence "min (blob_want c) (length a) = blob_want c" "\<not> length (c_sptps_buf c) + blob_want c < c_sptpslen c"
      using w by (simp_all add: blob_want_def)
    thus ?thesis using assms w False by (simp add: feed_loop.simps [of P a] Let_def blob_want_def [symmetric] min_def)
  qed
qed

lemma feed_rec:
  assumes "a \<noteq> []" "c_sptpslen c = 0" "prims_lengths P" "stream_session P s" "receive P a (s, g, []) = (r, s1, g1, outs)"
  shows "feed_loop P a s g c ev = (case r of
      Ok n \<Rightarrow> feed_loop P (drop n a) s1 g1 (snd (feed_outs c outs ev)) (fst (feed_outs c outs ev))
    | _ \<Rightarrow> Some (FeedDead, c\<lparr>c_sptps := Some s1\<rparr>, g1))"
proof -
  have "r \<noteq> Panic" using receive_stream_session [OF assms(3,4,5)] by simp
  moreover have "0 < n" if "r = Ok n" for n using receive_split [OF assms(4,5), of "[]"] that assms(1,5) by auto
  ultimately show ?thesis using assms by (cases r) (simp_all add: feed_loop.simps [of P a])
qed

definition continue :: "'g prims \<Rightarrow> bytes \<Rightarrow> sptps option \<Rightarrow> (feed_result \<times> connection \<times> 'g) option \<Rightarrow> (feed_result \<times> connection \<times> 'g) option" where
  "continue P b x r = (case r of
     Some (FeedSptps ev1, c1, g1) \<Rightarrow> feed_loop P b (the (c_sptps c1)) g1 (c1\<lparr>c_sptps := x\<rparr>) ev1
   | _ \<Rightarrow> r)"

lemma continue_simps [simp]:
  "continue P b x (Some (FeedSptps ev, c, g)) = feed_loop P b (the (c_sptps c)) g (c\<lparr>c_sptps := x\<rparr>) ev"
  "continue P b x (Some (FeedDead, c, g)) = Some (FeedDead, c, g)"
  by (simp_all add: continue_def)

lemma feed_blob_split:
  assumes "a \<noteq> []" "0 < c_sptpslen c" "blob_ok c" "length a < blob_want c"
  shows "feed_loop P (a @ b) s g c ev = continue P b (c_sptps c) (feed_loop P a s g c ev)"
proof -
  define c1 where "c1 = c\<lparr>c_sptps_buf := c_sptps_buf c @ a\<rparr>"
  have c1: "blob_ok c1" "0 < c_sptpslen c1" "blob_want c = length a + blob_want c1"
    using assms by (auto simp: blob_ok_def c1_def blob_want_def split: if_splits)
  have s: "c\<lparr>c_sptps_buf := x, c_sptps := c_sptps c\<rparr> = c\<lparr>c_sptps_buf := x\<rparr>" for x by (cases c) simp
  have "feed_loop P (a @ b) s g c ev = feed_loop P b s g c1 ev"
  proof (cases "b = []")
    case True
    thus ?thesis using assms by (simp add: feed_blob feed_nil c1_def)
  next
    case False
    show ?thesis unfolding feed_blob [OF False c1(2,1)] using assms(1-3) c1(3)
      by (simp add: feed_blob) (simp add: c1_def)
  qed
  thus ?thesis using assms by (simp add: feed_blob c1_def s)
qed

lemma feed_rec_split:
  assumes "prims_lengths P" "stream_session P s" "a \<noteq> []" "c_sptpslen c = 0"
    and r: "receive P a (s, g, []) = (Ok (length a), s1, g, [])"
    and sp: "receive P (a @ b) (s, g, []) = shift (length a) (receive P b (s1, g, []))"
  shows "feed_loop P (a @ b) s g c ev = continue P b (c_sptps c) (feed_loop P a s g c ev)"
proof -
  have s1: "stream_session P s1" using receive_stream_session [OF assms(1,2) r] by simp
  have "feed_loop P (a @ b) s g c ev = feed_loop P b s1 g c ev"
  proof (cases "b = []")
    case True
    thus ?thesis using feed_rec [OF assms(3,4,1,2) r] by (simp add: feed_nil)
  next
    case False
    obtain r2 s2 g2 outs where b: "receive P b (s1, g, []) = (r2, s2, g2, outs)" by (metis prod_cases4)
    hence "receive P (a @ b) (s, g, []) = shift (length a) (r2, s2, g2, outs)" using sp by simp
    thus ?thesis using feed_rec [OF False assms(4,1) s1 b] feed_rec [of "a @ b" c P s g, OF _ assms(4,1,2)] assms(3)
      by (cases r2) (auto simp: shift_def)
  qed
  thus ?thesis using feed_rec [OF assms(3,4,1,2) r] by (simp add: feed_nil)
qed

lemma feed_loop_split:
  assumes P: "prims_lengths P"
  shows "stream_session P s \<Longrightarrow> blob_ok c \<Longrightarrow>
    feed_loop P (a @ b) s g c ev = continue P b (c_sptps c) (feed_loop P a s g c ev)"
proof (induction a arbitrary: s g c ev rule: length_induct)
  case (1 a)
  note IH = 1(1) [rule_format]
  consider (nil) "a = []" | (blob) "a \<noteq> []" "0 < c_sptpslen c" | (rcv) "a \<noteq> []" "c_sptpslen c = 0" by blast
  thus ?case
  proof cases
    case nil
    thus ?thesis by (simp add: feed_nil)
  next
    case blob
    have w: "0 < blob_want c" using 1(3) blob by (auto simp: blob_ok_def blob_want_def split: if_splits)
    show ?thesis
    proof (cases "length a < blob_want c")
      case True
      thus ?thesis by (intro feed_blob_split blob 1(3))
    next
      case False
      hence "length (drop (blob_want c) a) < length a" using w blob by (cases a) auto
      from IH [OF this 1(2)] False show ?thesis using blob 1(3) by (simp add: feed_blob blob_ok_def)
    qed
  next
    case rcv
    obtain r s1 g1 outs where r: "receive P a (s, g, []) = (r, s1, g1, outs)" by (metis prod_cases4)
    have s1: "stream_session P s1" using receive_stream_session [OF P 1(2) r] by simp
    from receive_split [OF 1(2) r, of b] show ?thesis
    proof (elim disjE conjE)
      assume "r = Ok (length a)" "g1 = g" "outs = []" "receive P (a @ b) (s, g, []) = shift (length a) (receive P b (s1, g, []))"
      thus ?thesis using r by (intro feed_rec_split [OF P 1(2) rcv]) simp_all
    next
      assume n: "\<forall>n. r = Ok n \<longrightarrow> 0 < n \<and> n \<le> length a" and ab: "receive P (a @ b) (s, g, []) = (r, s1, g1, outs)"
      show ?thesis
      proof (cases r)
        case (Ok n)
        hence "length (drop n a) < length a" "n \<le> length a" using n rcv by (cases a; simp)+
        from IH [OF this(1) s1 feed_outs_blob_ok [OF 1(3) rcv(2), of outs ev]] this(2) show ?thesis
          using feed_rec [OF rcv P 1(2) r] feed_rec [OF _ rcv(2) P 1(2) ab] rcv(1) Ok by (simp add: feed_outs_conn)
      qed (use feed_rec [OF rcv P 1(2) r] feed_rec [OF _ rcv(2) P 1(2) ab] rcv(1) in auto)
    qed
  qed
qed


lemma prepended_prepended: "prepended a (prepended b r) = prepended (a @ b) r"
proof -
  have "prepend a (prepend b x) = prepend (a @ b) x" for x by (cases x) simp_all
  thus ?thesis by (cases r) (simp_all add: prepended_def map_prod_def split_beta)
qed

lemma feed_loop_ev:
  assumes P: "prims_lengths P"
  shows "stream_session P s \<Longrightarrow> blob_ok c \<Longrightarrow> feed_loop P a s g c ev = prepended ev (feed_loop P a s g c [])"
proof (induction a arbitrary: s g c ev rule: length_induct)
  case (1 a)
  note IH = 1(1) [rule_format]
  consider (nil) "a = []" | (blob) "a \<noteq> []" "0 < c_sptpslen c" | (rcv) "a \<noteq> []" "c_sptpslen c = 0" by blast
  thus ?case
  proof cases
    case nil
    thus ?thesis by (simp add: feed_nil prepended_def)
  next
    case blob
    have w: "0 < blob_want c" using 1(3) blob by (auto simp: blob_ok_def blob_want_def split: if_splits)
    have l: "length (drop (blob_want c) a) < length a" using w blob by (cases a) auto
    have "blob_ok (c\<lparr>c_sptps_buf := [], c_sptpslen := 0\<rparr>)" by (simp add: blob_ok_def)
    note IH' = IH [OF l 1(2) this, of g]
    show ?thesis using blob 1(3) IH' [of "ev @ [e]" for e] IH' [of "[e]" for e]
      by (simp add: feed_blob prepended_prepended) (simp add: prepended_def)
  next
    case rcv
    obtain r s1 g1 outs where r: "receive P a (s, g, []) = (r, s1, g1, outs)" by (metis prod_cases4)
    have s1: "stream_session P s1" using receive_stream_session [OF P 1(2) r] by simp
    show ?thesis
    proof (cases r)
      case (Ok n)
      have "0 < n" using receive_split [OF 1(2) r, of "[]"] Ok rcv r by auto
      hence l: "length (drop n a) < length a" using rcv by (cases a) auto
      note IH' = IH [OF l s1 feed_outs_blob_ok [OF 1(3) rcv(2), of outs "[]"], of g1]
      have "feed_outs c outs ev = (ev @ fst (feed_outs c outs []), snd (feed_outs c outs []))"
        by (subst feed_outs_ev) (simp add: map_prod_def split_beta)
      thus ?thesis using feed_rec [OF rcv P 1(2) r] Ok IH' [of "ev @ fst (feed_outs c outs [])"] IH' [of "fst (feed_outs c outs [])"]
        by (simp add: prepended_prepended)
    qed (use feed_rec [OF rcv P 1(2) r] in \<open>simp_all add: prepended_def\<close>)
  qed
qed

lemma feed_loop_inv:
  assumes P: "prims_lengths P"
  shows "stream_session P s \<Longrightarrow> blob_ok c \<Longrightarrow>
    \<exists>r c1 g1 s1. feed_loop P a s g c ev = Some (r, c1, g1) \<and> c_sptps c1 = Some s1 \<and> stream_session P s1 \<and>
      (r = FeedDead \<or> (\<exists>ev'. r = FeedSptps ev') \<and> blob_ok c1)"
proof (induction a arbitrary: s g c ev rule: length_induct)
  case (1 a)
  note IH = 1(1) [rule_format]
  consider (nil) "a = []" | (blob) "a \<noteq> []" "0 < c_sptpslen c" | (rcv) "a \<noteq> []" "c_sptpslen c = 0" by blast
  thus ?case
  proof cases
    case nil
    thus ?thesis using 1(2,3) by (simp add: feed_nil blob_ok_def)
  next
    case blob
    have w: "0 < blob_want c" using 1(3) blob by (auto simp: blob_ok_def blob_want_def split: if_splits)
    have l: "length (drop (blob_want c) a) < length a" using w blob by (cases a) auto
    have "blob_ok (c\<lparr>c_sptps_buf := [], c_sptpslen := 0\<rparr>)" by (simp add: blob_ok_def)
    from IH [OF l 1(2) this] show ?thesis using blob 1(2,3)
      by (auto simp: feed_blob) (auto simp: blob_ok_def blob_want_def)
  next
    case rcv
    obtain r s1 g1 outs where r: "receive P a (s, g, []) = (r, s1, g1, outs)" by (metis prod_cases4)
    have s1: "stream_session P s1" using receive_stream_session [OF P 1(2) r] by simp
    show ?thesis
    proof (cases r)
      case (Ok n)
      have "0 < n" using receive_split [OF 1(2) r, of "[]"] Ok rcv r by auto
      hence l: "length (drop n a) < length a" using rcv by (cases a) auto
      from IH [OF l s1 feed_outs_blob_ok [OF 1(3) rcv(2)]] show ?thesis using feed_rec [OF rcv P 1(2) r] Ok by simp
    qed (use feed_rec [OF rcv P 1(2) r] s1 in auto)
  qed
qed

definition conn_ok :: "'g prims \<Rightarrow> connection \<Rightarrow> bool" where
  "conn_ok P c \<longleftrightarrow> (\<exists>s. c_sptps c = Some s \<and> stream_session P s) \<and> blob_ok c"

lemma conn_feed_bytes: "c_sptps c = Some s \<Longrightarrow> conn_feed P (ReadBytes a) c g = feed_loop P a s g (c\<lparr>c_sptps := None\<rparr>) []"
  by (simp add: conn_feed_def)

lemma blob_ok_sptps [simp]: "blob_ok (c\<lparr>c_sptps := x\<rparr>) = blob_ok c"
  by (simp add: blob_ok_def)

lemma conn_feed_inv:
  assumes P: "prims_lengths P" and c: "conn_ok P c"
  obtains r c1 g1 where "conn_feed P (ReadBytes a) c g = Some (r, c1, g1)" "r = FeedDead \<or> (\<exists>ev. r = FeedSptps ev \<and> conn_ok P c1)"
proof -
  obtain s where s: "c_sptps c = Some s" "stream_session P s" "blob_ok (c\<lparr>c_sptps := None\<rparr>)" using c by (auto simp: conn_ok_def)
  show ?thesis using feed_loop_inv [OF P s(2,3), of a g "[]"] s(1) that by (auto simp: conn_feed_bytes conn_ok_def)
qed

lemma conn_feed_append:
  assumes P: "prims_lengths P" and c: "conn_ok P c"
  shows "conn_feed P (ReadBytes (a @ b)) c g =
    (case conn_feed P (ReadBytes a) c g of
       Some (FeedSptps ev, c', g') \<Rightarrow> prepended ev (conn_feed P (ReadBytes b) c' g')
     | r \<Rightarrow> r)"
proof -
  obtain s where s: "c_sptps c = Some s" "stream_session P s" "blob_ok (c\<lparr>c_sptps := None\<rparr>)" using c by (auto simp: conn_ok_def)
  obtain r c1 g1 s1 where a: "feed_loop P a s g (c\<lparr>c_sptps := None\<rparr>) [] = Some (r, c1, g1)" "c_sptps c1 = Some s1"
      "stream_session P s1" "r = FeedDead \<or> (\<exists>ev. r = FeedSptps ev) \<and> blob_ok c1"
    using feed_loop_inv [OF P s(2,3), of a g "[]"] by auto
  note sp = feed_loop_split [OF P s(2,3), of a b g "[]"]
  show ?thesis
  proof (cases "r = FeedDead")
    case True
    thus ?thesis using a sp s by (simp add: conn_feed_bytes)
  next
    case False
    then obtain ev where ev: "r = FeedSptps ev" "blob_ok (c1\<lparr>c_sptps := None\<rparr>)" using a by auto
    thus ?thesis using a sp s feed_loop_ev [OF P a(3) ev(2), of b g1 ev] by (simp add: conn_feed_bytes)
  qed
qed


text \<open>What the receive path reads of a connection: the session, the blob under way and whether the gate is open.\<close>

definition feed_same :: "connection \<Rightarrow> connection \<Rightarrow> bool" where
  "feed_same c c' \<longleftrightarrow> c_sptps c' = c_sptps c \<and> c_sptpslen c' = c_sptpslen c \<and> c_sptps_buf c' = c_sptps_buf c \<and>
     (c_allow_request c' = None \<longleftrightarrow> c_allow_request c = None)"

lemma feed_same_refl [simp]: "feed_same c c"
  by (simp add: feed_same_def)

lemma feed_same_sym: "feed_same a b \<Longrightarrow> feed_same b a"
  by (auto simp: feed_same_def)

lemma feed_same_trans: "feed_same a b \<Longrightarrow> feed_same b c \<Longrightarrow> feed_same a c"
  by (auto simp: feed_same_def)

lemma feed_same_update:
  assumes "feed_same c c'"
  shows "feed_same (c\<lparr>c_sptps := x\<rparr>) (c'\<lparr>c_sptps := x\<rparr>)" "feed_same (c\<lparr>c_sptpslen := n\<rparr>) (c'\<lparr>c_sptpslen := n\<rparr>)"
    "feed_same (c\<lparr>c_sptps_buf := b\<rparr>) (c'\<lparr>c_sptps_buf := b\<rparr>)"
  using assms by (auto simp: feed_same_def)

lemma feed_outs_same:
  "feed_same c c' \<Longrightarrow> fst (feed_outs c' outs ev) = fst (feed_outs c outs ev) \<and> feed_same (snd (feed_outs c outs ev)) (snd (feed_outs c' outs ev))"
proof (induction outs arbitrary: ev)
  case (Cons o' os)
  have "blob_header c' o' = blob_header c o'" using Cons.prems by (auto simp: blob_header_def feed_same_def split: sptps_output.splits)
  thus ?case using Cons feed_same_update(2) [OF Cons.prems] by (auto split: option.splits)
qed simp

lemma feed_loop_same:
  "feed_same c c' \<Longrightarrow> feed_loop P a s g c ev = Some (r, c1, g1) \<Longrightarrow> \<exists>c1'. feed_loop P a s g c' ev = Some (r, c1', g1) \<and> feed_same c1 c1'"
proof (induction P a s g c ev arbitrary: c' rule: feed_loop.induct)
  case (1 P a s g c ev)
  have e: "c_sptpslen c' = c_sptpslen c" "c_sptps_buf c' = c_sptps_buf c" using 1(3) by (simp_all add: feed_same_def)
  consider (nil) "a = []" | (blob) "a \<noteq> []" "0 < c_sptpslen c" | (rcv) "a \<noteq> []" "c_sptpslen c = 0" by blast
  thus ?case
  proof cases
    case nil
    thus ?thesis using 1(3,4) feed_same_update(1) [OF 1(3)] by (auto simp: feed_nil)
  next
    case blob
    let ?n = "min (c_sptpslen c - length (c_sptps_buf c)) (length a)"
    let ?buf = "c_sptps_buf c @ take ?n a"
    have l: "\<not> c_sptpslen c < length (c_sptps_buf c)" using 1(4) blob by (auto simp: feed_loop.simps [of P a s g c ev])
    show ?thesis
    proof (cases "length ?buf < c_sptpslen c")
      case True
      have "feed_same (c\<lparr>c_sptps_buf := ?buf, c_sptps := Some s\<rparr>) (c'\<lparr>c_sptps_buf := ?buf, c_sptps := Some s\<rparr>)"
        by (intro feed_same_update 1(3))
      thus ?thesis using 1(4) blob l True e by (auto simp: feed_loop.simps [of P a s g c ev] feed_loop.simps [of P a s g c' ev] Let_def)
    next
      case False
      have "feed_same (c\<lparr>c_sptps_buf := [], c_sptpslen := 0\<rparr>) (c'\<lparr>c_sptps_buf := [], c_sptpslen := 0\<rparr>)" by (intro feed_same_update 1(3))
      moreover have "feed_loop P a s g x ev = feed_loop P (drop ?n a) s g (x\<lparr>c_sptps_buf := [], c_sptpslen := 0\<rparr>) (ev @ [EvBlob ?buf])"
        if "c_sptpslen x = c_sptpslen c" "c_sptps_buf x = c_sptps_buf c" for x
        using blob l False by (simp only: feed_loop.simps [of P a s g x ev] that Let_def) simp
      ultimately show ?thesis using 1(1) [OF blob l refl refl False] 1(4) e by simp
    qed
  next
    case rcv
    obtain x s1 g2 outs where r: "receive P a (s, g, []) = (x, s1, g2, outs)" by (metis prod_cases4)
    note o = feed_outs_same [OF 1(3), of outs ev]
    note u = feed_loop.simps [of P a s g c ev] feed_loop.simps [of P a s g c' ev]
    show ?thesis
    proof (cases x)
      case (Ok n)
      show ?thesis
      proof (cases "n = 0")
        case True
        thus ?thesis using 1(4) rcv r Ok e feed_same_update(1) [OF 1(3)] by (auto simp: u)
      next
        case False
        have k: "\<not> 0 < c_sptpslen c" using rcv by simp
        show ?thesis using 1(2) [OF rcv(1) k r [symmetric] Ok refl refl False, of "snd (feed_outs c' outs ev)"] o 1(4) rcv r Ok False e by (simp add: u)
      qed
    qed (use 1(4) rcv r e feed_same_update(1) [OF 1(3)] in \<open>auto simp: u\<close>)
  qed
qed

lemma conn_feed_same:
  assumes "feed_same c c'" "conn_ok P c" "conn_feed P (ReadBytes a) c g = Some (r, c1, g1)"
  shows "\<exists>c1'. conn_feed P (ReadBytes a) c' g = Some (r, c1', g1) \<and> feed_same c1 c1'"
proof -
  obtain s where s: "c_sptps c = Some s" "c_sptps c' = Some s" using assms(1,2) by (auto simp: conn_ok_def feed_same_def)
  show ?thesis using feed_loop_same [OF feed_same_update(1) [OF assms(1), of None]] assms(3) by (simp add: conn_feed_bytes s)
qed

lemma conn_ok_same: "feed_same c c' \<Longrightarrow> conn_ok P c \<Longrightarrow> conn_ok P c'"
  by (simp add: feed_same_def conn_ok_def blob_ok_def)

text \<open>
  Feeding reads one by one. After each read the handlers \<open>D\<close> run on its events and may change the connection; the
  events of a read are delivered even if a later read kills the connection. The result has all the
  events delivered and whether the connection is alive.
\<close>

fun feed_reads :: "'g prims \<Rightarrow> (sptps_event list \<Rightarrow> connection \<Rightarrow> connection) \<Rightarrow> bytes list \<Rightarrow> connection \<Rightarrow> 'g \<Rightarrow>
    (sptps_event list \<times> bool \<times> connection \<times> 'g) option" where
  "feed_reads P D [] c g = Some ([], True, c, g)"
| "feed_reads P D (ch # chs) c g =
     (case conn_feed P (ReadBytes ch) c g of
        Some (FeedSptps ev, c', g') \<Rightarrow> map_option (\<lambda>(evs, r). (ev @ evs, r)) (feed_reads P D chs (D ev c') g')
      | Some (_, c', g') \<Rightarrow> Some ([], False, c', g')
      | None \<Rightarrow> None)"

text \<open>Handlers that leave alone what the receive path reads: they send nothing on this connection and do not move its gate.\<close>

definition neutral :: "(sptps_event list \<Rightarrow> connection \<Rightarrow> connection) \<Rightarrow> bool" where
  "neutral D \<longleftrightarrow> (\<forall>ev c. feed_same c (D ev c))"

lemma conn_feed_nil: "conn_ok P c \<Longrightarrow> conn_feed P (ReadBytes []) c g = Some (FeedSptps [], c, g)"
proof -
  assume "conn_ok P c"
  then obtain s where s: "c_sptps c = Some s" by (auto simp: conn_ok_def)
  have "c\<lparr>c_sptps := Some s\<rparr> = c" using s c_sptps_restore [of c] by simp
  thus ?thesis using s by (simp add: conn_feed_bytes feed_nil)
qed

text \<open>
  The reads so far are one read of their bytes: the delivered events are those of a prefix of the
  stream, and of the whole stream as long as the connection lives.
\<close>

lemma feed_reads_one:
  assumes P: "prims_lengths P" and D: "neutral D"
  shows "conn_ok P c \<Longrightarrow> \<exists>evs alive c1 g1 pre post cp gp. feed_reads P D chs c g = Some (evs, alive, c1, g1) \<and> concat chs = pre @ post \<and>
    conn_feed P (ReadBytes pre) c g = Some (FeedSptps evs, cp, gp) \<and>
    (if alive then post = [] \<and> feed_same cp c1 \<and> gp = g1
     else \<exists>cx. conn_feed P (ReadBytes (concat chs)) c g = Some (FeedDead, cx, g1) \<and> feed_same cx c1)"
proof (induction chs arbitrary: c g)
  case Nil
  show ?case using conn_feed_nil [OF Nil] by (intro exI [of _ "[]"] exI [of _ True] exI [of _ c] exI [of _ g]) simp
next
  case (Cons ch chs)
  obtain r c1 g1 where r: "conn_feed P (ReadBytes ch) c g = Some (r, c1, g1)" "r = FeedDead \<or> (\<exists>ev. r = FeedSptps ev \<and> conn_ok P c1)"
    by (rule conn_feed_inv [OF P Cons.prems])
  note ap = conn_feed_append [OF P Cons.prems, of ch]
  show ?case
  proof (cases "r = FeedDead")
    case True
    thus ?thesis using r(1) ap [of "concat chs" g] conn_feed_nil [OF Cons.prems, of g]
      by (intro exI [of _ "[]"] exI [of _ False] exI [of _ c1] exI [of _ g1] exI [of _ "ch @ concat chs"] exI [of _ c] exI [of _ g]) simp
  next
    case False
    then obtain ev where ev: "r = FeedSptps ev" "conn_ok P c1" using r(2) by blast
    have s: "feed_same c1 (D ev c1)" using D by (simp add: neutral_def)
    have ok: "conn_ok P (D ev c1)" by (rule conn_ok_same [OF s ev(2)])
    from Cons.IH [OF ok, of g1] obtain evs alive c2 g2 pre post cp gp where f: "feed_reads P D chs (D ev c1) g1 = Some (evs, alive, c2, g2)"
        "concat chs = pre @ post" "conn_feed P (ReadBytes pre) (D ev c1) g1 = Some (FeedSptps evs, cp, gp)"
        "if alive then post = [] \<and> feed_same cp c2 \<and> gp = g2
         else \<exists>cx. conn_feed P (ReadBytes (concat chs)) (D ev c1) g1 = Some (FeedDead, cx, g2) \<and> feed_same cx c2" by blast
    obtain cp' where cp': "conn_feed P (ReadBytes pre) c1 g1 = Some (FeedSptps evs, cp', gp)" "feed_same cp cp'"
      using conn_feed_same [OF feed_same_sym [OF s] ok f(3)] by blast
    have p: "conn_feed P (ReadBytes (ch @ pre)) c g = Some (FeedSptps (ev @ evs), cp', gp)"
      using ap [of pre g] r(1) ev(1) cp'(1) by (simp add: prepended_def)
    have rd: "feed_reads P D (ch # chs) c g = Some (ev @ evs, alive, c2, g2)" using r(1) ev(1) f(1) by simp
    have "if alive then post = [] \<and> feed_same cp' c2 \<and> gp = g2
        else \<exists>cx. conn_feed P (ReadBytes (concat (ch # chs))) c g = Some (FeedDead, cx, g2) \<and> feed_same cx c2"
    proof (cases alive)
      case True
      thus ?thesis using f(4) feed_same_trans [OF feed_same_sym [OF cp'(2)]] by simp
    next
      case False
      then obtain cx where cx: "conn_feed P (ReadBytes (concat chs)) (D ev c1) g1 = Some (FeedDead, cx, g2)" "feed_same cx c2" using f(4) by auto
      obtain cx' where cx': "conn_feed P (ReadBytes (concat chs)) c1 g1 = Some (FeedDead, cx', g2)" "feed_same cx cx'"
        using conn_feed_same [OF feed_same_sym [OF s] ok cx(1)] by blast
      have "conn_feed P (ReadBytes (concat (ch # chs))) c g = Some (FeedDead, cx', g2)"
        using ap [of "concat chs" g] r(1) ev(1) cx'(1) by (simp add: prepended_def)
      thus ?thesis using False feed_same_trans [OF feed_same_sym [OF cx'(2)] cx(2)] by simp
    qed
    moreover have "concat (ch # chs) = (ch @ pre) @ post" by (simp add: f(2))
    ultimately show ?thesis using rd p by blast
  qed
qed

lemma feed_prefix:
  assumes P: "prims_lengths P" and c: "conn_ok P c" and "conn_feed P (ReadBytes pre) c g = Some (FeedSptps evs, cp, gp)"
    and "conn_feed P (ReadBytes (pre @ x)) c g = Some (FeedSptps evs', cp', gp')"
  shows "\<exists>more. evs' = evs @ more"
proof -
  have "prepended evs (conn_feed P (ReadBytes x) cp gp) = Some (FeedSptps evs', cp', gp')"
    using conn_feed_append [OF P c, of pre x g] assms(3,4) by simp
  thus ?thesis by (auto simp: prepended_def elim!: prepend.elims)
qed

text \<open>
  C15: how TCP cuts the byte stream into reads does not change what the receive path makes of it. Take
  any session and any blob under way, and let handlers run after each read that neither send on this
  connection nor move its gate. Of the same bytes cut in two ways, either both leave the connection alive with
  the same events delivered in the same order and the same session, blob and gate; or both kill it
  in the same receive state, and of the events delivered before one is an initial part of the other, as the
  read that kills the connection delivers nothing. The receive loop never panics. A handler that opens the
  gate in between does make a difference (\<open>blob_behind_ack_lost\<close>).
\<close>

theorem feed_chunking:
  assumes "prims_lengths P" "sp_reach P s" "sp_framing s = Stream" "c_sptps c = Some s" "blob_ok c"
    and "concat chunks = concat chunks'" "neutral D" "neutral D'"
  shows "\<exists>evs evs' alive c1 c1' g1. feed_reads P D chunks c g = Some (evs, alive, c1, g1) \<and>
    feed_reads P D' chunks' c g = Some (evs', alive, c1', g1) \<and> feed_same c1 c1' \<and>
    (if alive then evs' = evs else (\<exists>more. evs' = evs @ more) \<or> (\<exists>more. evs = evs' @ more))"
proof -
  have c: "conn_ok P c" using assms sp_reach_inv [OF assms(1,2)] by (auto simp: conn_ok_def stream_session_def)
  obtain evs alive c1 g1 pre post cp gp where a: "feed_reads P D chunks c g = Some (evs, alive, c1, g1)" "concat chunks = pre @ post"
      "conn_feed P (ReadBytes pre) c g = Some (FeedSptps evs, cp, gp)"
      "if alive then post = [] \<and> feed_same cp c1 \<and> gp = g1 else \<exists>cx. conn_feed P (ReadBytes (concat chunks)) c g = Some (FeedDead, cx, g1) \<and> feed_same cx c1"
    using feed_reads_one [OF assms(1,7) c, of chunks g] by blast
  obtain evs' alive' c1' g1' pre' post' cp' gp' where b: "feed_reads P D' chunks' c g = Some (evs', alive', c1', g1')" "concat chunks = pre' @ post'"
      "conn_feed P (ReadBytes pre') c g = Some (FeedSptps evs', cp', gp')"
      "if alive' then post' = [] \<and> feed_same cp' c1' \<and> gp' = g1' else \<exists>cx. conn_feed P (ReadBytes (concat chunks)) c g = Some (FeedDead, cx, g1') \<and> feed_same cx c1'"
    using feed_reads_one [OF assms(1,8) c, of chunks' g, folded assms(6)] by blast
  have al: "alive' = alive" using a b by (auto split: if_splits)
  show ?thesis
  proof (cases alive)
    case True
    thus ?thesis using a b al feed_same_trans [OF feed_same_sym, of cp c1 c1'] by (auto simp: al)
  next
    case False
    have "(\<exists>x. pre' = pre @ x) \<or> (\<exists>x. pre = pre' @ x)" using a(2) b(2) by (auto simp: append_eq_append_conv2)
    hence "(\<exists>more. evs' = evs @ more) \<or> (\<exists>more. evs = evs' @ more)"
      using feed_prefix [OF assms(1) c a(3)] feed_prefix [OF assms(1) c b(3)] a(3) b(3) by blast
    moreover obtain cx where "feed_same cx c1" "feed_same cx c1'" "g1' = g1" using a(4) b(4) False al by auto
    ultimately show ?thesis using a(1) b(1) al False feed_same_trans [OF feed_same_sym, of cx c1 c1'] by auto
  qed
qed

theorem feed_chunking_witness:
  "\<exists>s c. sp_reach demo_prims s \<and> sp_framing s = Stream \<and> c_sptps c = Some s \<and> blob_ok c \<and> neutral (\<lambda>_ c. c\<lparr>c_last_ping_time := 5\<rparr>) \<and>
     (\<exists>evs alive c1 g1. feed_reads demo_prims (\<lambda>_ c. c\<lparr>c_last_ping_time := 5\<rparr>) [[0], [65, 1, 2]] c 7 = Some (evs, alive, c1, g1))"
proof -
  obtain s g' out where s: "start_with demo_prims Responder Stream X25519 demo_key [] [] ChaCha20Poly1305 16 0 =
      Some (s, g', out)"
    using start_with_inv [OF demo_prims_ok(1) demo_prims_ok(6)] by blast
  have r: "sp_reach demo_prims s" by (rule reach_start [OF demo_prims_ok(6) s])
  have f: "sp_framing s = Stream" using s by (rule start_with_framing)
  define c where "c = (conn_new_base ''peer'' ''host'' 0)\<lparr>c_sptps := Some s\<rparr>"
  have c: "c_sptps c = Some s" "blob_ok c" by (simp_all add: c_def blob_ok_def conn_new_base_def)
  have n: "neutral (\<lambda>_ c. c\<lparr>c_last_ping_time := 5\<rparr>)" by (simp add: neutral_def feed_same_def)
  have "concat [[0], [65, 1, 2]] = concat [[0, 65], [1], [2 :: 8 word]]" by simp
  from feed_chunking [OF demo_prims_ok(1) r f c this n n, of 7] show ?thesis using r f c n by blast
qed

section \<open>From one end to the other\<close>

text \<open>
  The relayed packet of \<open>send_sptps_tcppacket\<close>: a line with the length and the raw bytes behind it.
\<close>

definition send_blob :: "'g prims \<Rightarrow> 'g \<Rightarrow> bytes \<Rightarrow> connection \<Rightarrow> (bool \<times> connection) option" where
  "send_blob P g blob c =
     map_option (\<lambda>(nw, c). let (nw', c) = send_raw blob c in (nw \<or> nw', c)) (conn_send P g (sptps_packet_format (length blob)) c)"

lemma queue_wires_dead: "c_dead c \<Longrightarrow> c_dead (snd (queue_wires os c))"
  by (induction os c rule: queue_wires.induct) (auto simp: check_outbuf_cap_def Let_def split: if_splits)

lemma send_raw_live:
  assumes "lb_ok (c_outbuf c)" "\<not> c_dead (snd (send_raw bs c))"
  shows "snd (send_raw bs c) = c\<lparr>c_outbuf := lb_add bs (c_outbuf c)\<rparr>"
  using assms by (auto simp: send_raw_def check_outbuf_cap_def Let_def split: if_splits)

lemma send_raw_dead: "c_dead c \<Longrightarrow> c_dead (snd (send_raw bs c))"
  by (simp add: send_raw_def check_outbuf_cap_def)

lemma conn_send_dead: "c_dead c \<Longrightarrow> conn_send P g l c = Some (nw, c') \<Longrightarrow> c_dead c'"
  by (simp add: conn_send_def)

lemma send_blob_dead: "c_dead c \<Longrightarrow> send_blob P g b c = Some (nw, c') \<Longrightarrow> c_dead c'"
proof -
  assume d: "c_dead c" and "send_blob P g b c = Some (nw, c')"
  then obtain nw1 c1 where "conn_send P g (sptps_packet_format (length b)) c = Some (nw1, c1)" "c' = snd (send_raw b c1)"
    by (auto simp: send_blob_def split_beta)
  thus ?thesis using conn_send_dead [OF d, of P g] send_raw_dead [of c1 b] by simp
qed

text \<open>A line that is queued: exactly one sealed record behind what waits already.\<close>

lemma conn_send_wire:
  assumes "conn_send P g l c = Some (nw, c')" "\<not> c_dead c'" "c_sptps c = Some s" "sp_framing s = Stream" "sp_outcipher s = Some k"
    and "lb_ok (c_outbuf c)"
  shows "c' = c\<lparr>c_sptps := Some (s\<lparr>sp_outseqno := sp_outseqno s + 1\<rparr>),
      c_outbuf := lb_add (frame P Stream (Some k) (ucast (sp_outseqno s)) 0 (as_bytes l @ [10])) (c_outbuf c)\<rparr> \<and>
    length (as_bytes l @ [10]) \<le> 65535"
proof -
  have d: "\<not> c_dead c" using assms(1,2) by (auto simp: conn_send_def)
  define body where "body = as_bytes l @ [10]"
  obtain r s' g' outs where sr: "send_record P 0 body (s, g, []) = (r, s', g', outs)" by (metis prod_cases4)
  have r: "r = Ok ()" using assms(1,3) d sr by (cases r) (auto simp: conn_send_def send_sptps_def body_def)
  hence len: "length body \<le> 65535" and pr: "send_record P 0 body (s, g, []) = send_record_priv P 0 body (s, g, [])"
    using sr assms(4) by (auto simp: send_record_def run_simps split: if_splits)
  have "outs = [Wire 0 (frame P Stream (Some k) (ucast (sp_outseqno s)) 0 body)]" "s' = s\<lparr>sp_outseqno := sp_outseqno s + 1\<rparr>"
    using sr len assms(4,5) unfolding pr by (simp_all add: send_record_priv_eq)
  thus ?thesis using assms(1-3) d sr len r
    by (auto simp: conn_send_def send_sptps_def body_def check_outbuf_cap_def Let_def split: if_splits)
qed

section \<open>Two ends in step\<close>

definition in_step :: "'g prims \<Rightarrow> connection \<Rightarrow> connection \<Rightarrow> bool" where
  "in_step P a b \<longleftrightarrow> (\<exists>sa sb k. c_sptps a = Some sa \<and> c_sptps b = Some sb \<and> sp_framing sa = Stream \<and> stream_session P sb \<and>
     sp_outcipher sa = Some k \<and> sp_incipher sb = Some k \<and> sp_inseqno sb = ucast (sp_outseqno sa) \<and> no_partial sb \<and>
     sp_state sb \<noteq> Confirm) \<and> c_allow_request b = None \<and> c_sptpslen b = 0 \<and> c_sptps_buf b = []"

lemma ucast_succ: "(ucast (x + 1 :: u64) :: u32) = ucast x + 1"
  by (simp add: word_unat_eq_iff unat_ucast32 unat_word_ariths mod_simps mod_mod_cancel)

text \<open>The receiver takes one sealed record.\<close>

lemma feed_record:
  assumes P: "prims_lengths P" "gcm_correct P" and b: "c_sptps b = Some sb" "stream_session P sb" "sp_incipher sb = Some k"
      "no_partial sb" "sp_state sb \<noteq> Confirm" "c_sptpslen b = 0" "c_sptps_buf b = []"
    and len: "length body \<le> 65535"
  shows "\<exists>sb'. stream_session P sb' \<and> sp_incipher sb' = Some k \<and> no_partial sb' \<and> sp_state sb' \<noteq> Confirm \<and>
    sp_inseqno sb' = sp_inseqno sb + 1 \<and>
    conn_feed P (ReadBytes (frame P Stream (Some k) (sp_inseqno sb) 0 body)) b g =
      Some (FeedSptps (fst (feed_outs b [Record 0 body] [])),
        (snd (feed_outs b [Record 0 body] []))\<lparr>c_sptps := Some sb'\<rparr>, g)"
proof -
  define w where "w = frame P Stream (Some k) (sp_inseqno sb) 0 body"
  define sb' where "sb' = sb\<lparr>sp_inseqno := sp_inseqno sb + 1\<rparr>"
  have f: "sp_framing sb = Stream" using b(2) by (simp add: stream_session_def)
  have "receive P w (sb, g, []) = andThen (dispatch_record P 0 body True) (\<lambda>_. ret (length w)) (accept (sp_inseqno sb) sb, g, [])"
    using receive_sealed [OF P b(3), of "sp_inseqno sb" body 0 g "[]"] b(4) f len by (simp add: acceptable_def w_def)
  hence r: "receive P w (sb, g, []) = (Ok (length w), sb', g, [Record 0 body])"
    using b(5) f by (simp add: dispatch_record_def run_simps REC_HANDSHAKE_def accept_def sb'_def push_out_def andThen_def)
  have s': "stream_session P sb'" using receive_stream_session [OF P(1) b(2) r] by simp
  have w: "w \<noteq> []" using length_frame [OF P(1), of Stream "Some k" "sp_inseqno sb" 0 body] by (auto simp: w_def)
  have bn: "c_sptpslen (b\<lparr>c_sptps := None\<rparr>) = 0" using b by simp
  have o: "feed_outs (b\<lparr>c_sptps := None\<rparr>) [Record 0 body] [] =
      (fst (feed_outs b [Record 0 body] []), (snd (feed_outs b [Record 0 body] []))\<lparr>c_sptps := None\<rparr>)"
    by (simp add: blob_header_def split: option.splits)
  have "conn_feed P (ReadBytes w) b g = Some (FeedSptps (fst (feed_outs b [Record 0 body] [])),
        (snd (feed_outs b [Record 0 body] []))\<lparr>c_sptps := Some sb'\<rparr>, g)"
    using feed_rec [OF w bn P(1) b(2) r, of "[]"] b(1) o by (simp add: conn_feed_bytes feed_nil del: feed_outs.simps)
  thus ?thesis using s' b by (intro exI [of _ sb']) (simp add: w_def sb'_def no_partial_def)
qed

lemma record_body_line [simp]: "record_body (as_bytes l @ [10]) = as_bytes l"
  by (simp add: record_body_def)

text \<open>A line is one record of the receiver, whatever request its gate waits for.\<close>

lemma step_line_gated:
  assumes P: "prims_lengths P" "gcm_correct P" and s: "in_step P a (b\<lparr>c_allow_request := None\<rparr>)"
    and a: "conn_send P ga l a = Some (nw, a')" "\<not> c_dead a'" "lb_ok (c_outbuf a)" and l: "take 3 (as_bytes l) \<noteq> as_bytes ''21 ''"
  shows "\<exists>w b'. lb_ok (c_outbuf a') \<and> lb_live (c_outbuf a') = lb_live (c_outbuf a) @ w \<and> c_allow_request b' = c_allow_request b \<and>
    conn_feed P (ReadBytes w) b g = Some (FeedSptps [EvRecord (Record 0 (as_bytes l @ [10]))], b', g) \<and>
    in_step P a' (b'\<lparr>c_allow_request := None\<rparr>)"
proof -
  obtain sa sb k where k: "c_sptps a = Some sa" "c_sptps b = Some sb" "sp_framing sa = Stream" "stream_session P sb"
      "sp_outcipher sa = Some k" "sp_incipher sb = Some k" "sp_inseqno sb = ucast (sp_outseqno sa)" "no_partial sb"
      "sp_state sb \<noteq> Confirm" "c_sptpslen b = 0" "c_sptps_buf b = []"
    using s by (auto simp: in_step_def)
  define w where "w = frame P Stream (Some k) (ucast (sp_outseqno sa)) 0 (as_bytes l @ [10])"
  have a': "a' = a\<lparr>c_sptps := Some (sa\<lparr>sp_outseqno := sp_outseqno sa + 1\<rparr>), c_outbuf := lb_add w (c_outbuf a)\<rparr>"
      "length (as_bytes l @ [10]) \<le> 65535"
    using conn_send_wire [OF a(1,2) k(1,3,5) a(3)] by (simp_all add: w_def)
  have h: "feed_outs b [Record 0 (as_bytes l @ [10])] [] = ([EvRecord (Record 0 (as_bytes l @ [10]))], b)"
    using l by (simp add: blob_header_def)
  obtain sb' where sb': "stream_session P sb'" "sp_incipher sb' = Some k" "no_partial sb'" "sp_state sb' \<noteq> Confirm"
      "sp_inseqno sb' = sp_inseqno sb + 1"
      "conn_feed P (ReadBytes w) b g = Some (FeedSptps [EvRecord (Record 0 (as_bytes l @ [10]))], b\<lparr>c_sptps := Some sb'\<rparr>, g)"
    using feed_record [OF P k(2,4,6,8-11) a'(2), of g] h k(7) by (auto simp: w_def simp del: feed_outs.simps)
  have "in_step P a' (b\<lparr>c_sptps := Some sb', c_allow_request := None\<rparr>)" using k sb' by (simp add: in_step_def a'(1) ucast_succ)
  thus ?thesis using sb'(6) a(3) lbq.add_ok lbq.live_add by (intro exI [of _ w] exI [of _ "b\<lparr>c_sptps := Some sb'\<rparr>"]) (simp add: a'(1))
qed

lemma no_gate: "c_allow_request c = None \<Longrightarrow> c\<lparr>c_allow_request := None\<rparr> = c"
  by (cases c) simp

lemma step_line:
  assumes P: "prims_lengths P" "gcm_correct P" and s: "in_step P a b"
    and a: "conn_send P ga l a = Some (nw, a')" "\<not> c_dead a'" "lb_ok (c_outbuf a)" and l: "take 3 (as_bytes l) \<noteq> as_bytes ''21 ''"
  shows "\<exists>w b'. lb_ok (c_outbuf a') \<and> lb_live (c_outbuf a') = lb_live (c_outbuf a) @ w \<and>
    conn_feed P (ReadBytes w) b g = Some (FeedSptps [EvRecord (Record 0 (as_bytes l @ [10]))], b', g) \<and> in_step P a' b'"
proof -
  have n: "c_allow_request b = None" using s by (simp add: in_step_def)
  from s have "in_step P a (b\<lparr>c_allow_request := None\<rparr>)" using no_gate [OF n] by simp
  from step_line_gated [OF P this a l, of g] show ?thesis using n no_gate by metis
qed

lemma from_utf8_ascii:
  assumes "\<forall>c\<in>set s. of_char c < (128 :: nat)"
  shows "from_utf8 (as_bytes s) = Some s"
proof -
  have u: "unat (of_nat (of_char c) :: u8) = of_char c" for c
    using nat_of_char_less_256 [of c] by (simp only: unat_of_nat) simp
  have "utf8_ok (as_bytes s)" using assms by (induction s) (auto simp: as_bytes_def in_range_def u)
  moreover have "map (\<lambda>x. char_of (unat x)) (as_bytes s) = s" by (simp add: as_bytes_def u comp_def map_idI)
  ultimately show ?thesis by (simp add: from_utf8_def)
qed

lemma packet_line: "sptps_packet_format n = ''21 '' @ show_int (int n)"
proof -
  have "show_request SptpsPacket = ''21''" by code_simp
  thus ?thesis by (simp add: sptps_packet_format_def)
qed

lemma show_int_ascii: "c \<in> set (show_int (int n)) \<Longrightarrow> of_char c < (128 :: nat)"
  using show_radix_props [of 10 c n]
  by (auto simp: show_int_def is_ascii_alphanumeric_def is_ascii_digit_def less_eq_char_def)

lemma blob_header_packet:
  assumes "n < 2 ^ 15" "c_allow_request b = None"
  shows "blob_header b (Record 0 (as_bytes (sptps_packet_format n) @ [10])) = Some n"
proof -
  have "from_utf8 (as_bytes (sptps_packet_format n)) = Some (sptps_packet_format n)"
    by (rule from_utf8_ascii) (auto simp: packet_line show_int_ascii)
  moreover have "take 3 (as_bytes (sptps_packet_format n)) = as_bytes ''21 ''" by (simp add: packet_line as_bytes_def)
  moreover have "sptps_packet_parse (sptps_packet_format n) = Some n"
    using len_prefix_reads [OF assms(1), of SptpsPacket] by (simp add: sptps_packet_parse_def sptps_packet_format_def)
  ultimately show ?thesis using assms(2) by (simp add: blob_header_def)
qed

lemma step_blob:
  assumes P: "prims_lengths P" "gcm_correct P" and s: "in_step P a b"
    and a: "send_blob P ga x a = Some (nw, a')" "\<not> c_dead a'" "lb_ok (c_outbuf a)" and x: "x \<noteq> []" "length x < 2 ^ 15"
  shows "\<exists>w b'. lb_ok (c_outbuf a') \<and> lb_live (c_outbuf a') = lb_live (c_outbuf a) @ w \<and>
    conn_feed P (ReadBytes w) b g = Some (FeedSptps [EvBlob x], b', g) \<and> in_step P a' b'"
proof -
  obtain sa sb k where k: "c_sptps a = Some sa" "c_sptps b = Some sb" "sp_framing sa = Stream" "stream_session P sb"
      "sp_outcipher sa = Some k" "sp_incipher sb = Some k" "sp_inseqno sb = ucast (sp_outseqno sa)" "no_partial sb"
      "sp_state sb \<noteq> Confirm" "c_allow_request b = None" "c_sptpslen b = 0" "c_sptps_buf b = []"
    using s by (auto simp: in_step_def)
  define l where "l = sptps_packet_format (length x)"
  define w where "w = frame P Stream (Some k) (ucast (sp_outseqno sa)) 0 (as_bytes l @ [10])"
  obtain nw1 a1 where s1: "conn_send P ga l a = Some (nw1, a1)" "a' = snd (send_raw x a1)"
    using a(1) by (auto simp: send_blob_def split_beta l_def)
  have d1: "\<not> c_dead a1" using a(2) s1(2) send_raw_dead by blast
  have a1: "a1 = a\<lparr>c_sptps := Some (sa\<lparr>sp_outseqno := sp_outseqno sa + 1\<rparr>), c_outbuf := lb_add w (c_outbuf a)\<rparr>"
      "length (as_bytes l @ [10]) \<le> 65535"
    using conn_send_wire [OF s1(1) d1 k(1,3,5) a(3)] by (simp_all add: w_def)
  have ok1: "lb_ok (c_outbuf a1)" using a(3) lbq.add_ok by (simp add: a1)
  have a': "a' = a1\<lparr>c_outbuf := lb_add x (c_outbuf a1)\<rparr>" using send_raw_live [OF ok1] a(2) s1(2) by simp
  define b1 where "b1 = b\<lparr>c_sptpslen := length x\<rparr>"
  have h: "feed_outs b [Record 0 (as_bytes l @ [10])] [] = ([], b1)"
    using blob_header_packet [OF x(2) k(10)] by (simp add: l_def b1_def)
  obtain sb' where sb': "stream_session P sb'" "sp_incipher sb' = Some k" "no_partial sb'" "sp_state sb' \<noteq> Confirm"
      "sp_inseqno sb' = sp_inseqno sb + 1" "conn_feed P (ReadBytes w) b g = Some (FeedSptps [], b1\<lparr>c_sptps := Some sb'\<rparr>, g)"
    using feed_record [OF P k(2,4,6,8,9,11,12) a1(2), of g] h k(7) by (auto simp: w_def simp del: feed_outs.simps)
  define b2 where "b2 = b\<lparr>c_sptps := Some sb'\<rparr>"
  have bl: "0 < c_sptpslen (b1\<lparr>c_sptps := None\<rparr>)" "blob_ok (b1\<lparr>c_sptps := None\<rparr>)" "blob_want (b1\<lparr>c_sptps := None\<rparr>) = length x"
    using x k by (auto simp: b1_def blob_ok_def blob_want_def)
  have "conn_feed P (ReadBytes x) (b1\<lparr>c_sptps := Some sb'\<rparr>) g = Some (FeedSptps [EvBlob x], b2, g)"
    using feed_blob [OF x(1) bl(1,2), of P sb' g "[]"] bl(3) k by (simp add: conn_feed_bytes feed_nil b1_def b2_def)
  moreover have c: "conn_ok P b" using k by (auto simp: conn_ok_def blob_ok_def)
  ultimately have "conn_feed P (ReadBytes (w @ x)) b g = Some (FeedSptps [EvBlob x], b2, g)"
    using conn_feed_append [OF P(1) c, of w x g] sb'(6) by (simp add: prepended_def)
  moreover have "in_step P a' b2" using k sb' by (simp add: in_step_def a' a1(1) b2_def ucast_succ)
  ultimately show ?thesis using a(3) ok1 lbq.add_ok lbq.live_add
    by (intro exI [of _ "w @ x"] exI [of _ b2]) (simp add: a' a1(1))
qed


section \<open>A run of one end\<close>

datatype link_op = SendLine string | SendBlob bytes | FlushTo nat

fun link_run :: "'g prims \<Rightarrow> 'g \<Rightarrow> link_op list \<Rightarrow> connection \<Rightarrow> bytes \<Rightarrow> (connection \<times> bytes) option" where
  "link_run P g [] c wire = Some (c, wire)"
| "link_run P g (SendLine l # ops) c wire = Option.bind (conn_send P g l c) (\<lambda>(_, c). link_run P g ops c wire)"
| "link_run P g (SendBlob b # ops) c wire = Option.bind (send_blob P g b c) (\<lambda>(_, c). link_run P g ops c wire)"
| "link_run P g (FlushTo n # ops) c wire =
     link_run P g ops (snd (conn_flush (Inr (Some n) :: unit + nat option) c)) (wire @ take n (lb_live (c_outbuf c)))"

fun link_events :: "link_op list \<Rightarrow> sptps_event list" where
  "link_events [] = []"
| "link_events (SendLine l # ops) = EvRecord (Record 0 (as_bytes l @ [10])) # link_events ops"
| "link_events (SendBlob b # ops) = EvBlob b # link_events ops"
| "link_events (FlushTo n # ops) = link_events ops"

fun op_ok :: "link_op \<Rightarrow> bool" where
  "op_ok (SendLine l) \<longleftrightarrow> take 3 (as_bytes l) \<noteq> as_bytes ''21 ''"
| "op_ok (SendBlob b) \<longleftrightarrow> b \<noteq> [] \<and> length b < 2 ^ 15"
| "op_ok (FlushTo n) \<longleftrightarrow> True"

lemma link_run_dead: "c_dead c \<Longrightarrow> link_run P g ops c wire = Some (c', wire') \<Longrightarrow> c_dead c'"
proof (induction P g ops c wire rule: link_run.induct)
  case (2 P g l ops c wire)
  thus ?case using conn_send_dead [OF 2(2), of P g l] by (auto split: bind_splits)
next
  case (3 P g b ops c wire)
  thus ?case using send_blob_dead [OF 3(2), of P g b] by (auto split: bind_splits)
qed (auto simp: conn_flush_def Let_def)

lemma flush_live:
  assumes "lb_ok (c_outbuf c)"
  defines "c' \<equiv> \<lambda>n. snd (conn_flush (Inr (Some n) :: unit + nat option) c)"
  shows "lb_ok (c_outbuf (c' n))" "take n (lb_live (c_outbuf c)) @ lb_live (c_outbuf (c' n)) = lb_live (c_outbuf c)"
    "in_step P c b \<Longrightarrow> in_step P (c' n) b"
  using assms lbq.consume_ok lbq.live_consume
  by (auto simp: conn_flush_def Let_def lb_live_simps in_step_def)

lemma link_run_delivers:
  assumes P: "prims_lengths P" "gcm_correct P"
  shows "link_run P ga ops a wire = Some (a', wire') \<Longrightarrow> \<not> c_dead a' \<Longrightarrow> lb_ok (c_outbuf a) \<Longrightarrow> list_all op_ok ops \<Longrightarrow>
    conn_ok P b \<Longrightarrow> conn_feed P (ReadBytes (wire @ lb_live (c_outbuf a))) b g = Some (FeedSptps ev, b1, g) \<Longrightarrow> in_step P a b1 \<Longrightarrow>
    \<exists>b2. conn_feed P (ReadBytes (wire' @ lb_live (c_outbuf a'))) b g = Some (FeedSptps (ev @ link_events ops), b2, g) \<and> in_step P a' b2"
proof (induction ops arbitrary: a wire ev b1)
  case (Cons p ops)
  have step: "\<exists>b2. conn_feed P (ReadBytes (wire' @ lb_live (c_outbuf a'))) b g = Some (FeedSptps (ev @ e # link_events ops), b2, g) \<and>
      in_step P a' b2"
    if "link_run P ga ops a1 wire = Some (a', wire')" "lb_ok (c_outbuf a1)" "lb_live (c_outbuf a1) = lb_live (c_outbuf a) @ w"
      "conn_feed P (ReadBytes w) b1 g = Some (FeedSptps [e], b3, g)" "in_step P a1 b3" for a1 w e b3
  proof -
    have "conn_feed P (ReadBytes (wire @ lb_live (c_outbuf a1))) b g = Some (FeedSptps (ev @ [e]), b3, g)"
      using conn_feed_append [OF P(1) Cons.prems(5), of "wire @ lb_live (c_outbuf a)" w g] Cons.prems(6) that(3,4)
      by (simp add: prepended_def)
    from Cons.IH [OF that(1) Cons.prems(2) that(2) _ Cons.prems(5) this that(5)] Cons.prems(4) show ?thesis by simp
  qed
  show ?case
  proof (cases p)
    case (SendLine l)
    then obtain nw a1 where a1: "conn_send P ga l a = Some (nw, a1)" "link_run P ga ops a1 wire = Some (a', wire')"
      using Cons.prems(1) by (auto split: bind_splits)
    have "\<not> c_dead a1" using link_run_dead [OF _ a1(2)] Cons.prems(2) by blast
    from step_line [OF P Cons.prems(7) a1(1) this Cons.prems(3), of g] Cons.prems(4) SendLine step [OF a1(2)]
    show ?thesis by (auto simp: op_ok.simps)
  next
    case (SendBlob x)
    then obtain nw a1 where a1: "send_blob P ga x a = Some (nw, a1)" "link_run P ga ops a1 wire = Some (a', wire')"
      using Cons.prems(1) by (auto split: bind_splits)
    have "\<not> c_dead a1" using link_run_dead [OF _ a1(2)] Cons.prems(2) by blast
    from step_blob [OF P Cons.prems(7) a1(1) this Cons.prems(3), of g] Cons.prems(4) SendBlob step [OF a1(2)]
    show ?thesis by auto
  next
    case (FlushTo n)
    define a1 where "a1 = snd (conn_flush (Inr (Some n) :: unit + nat option) a)"
    note fl = flush_live [OF Cons.prems(3), where n = n, folded a1_def]
    have "link_run P ga ops a1 (wire @ take n (lb_live (c_outbuf a))) = Some (a', wire')"
      using Cons.prems(1) FlushTo by (simp add: a1_def)
    from Cons.IH [OF this Cons.prems(2) fl(1) _ Cons.prems(5) _ fl(3) [OF Cons.prems(7)], of ev] Cons.prems(4,6) FlushTo
    show ?thesis by (simp add: fl(2))
  qed
qed auto

lemma in_step_same: "feed_same b b' \<Longrightarrow> in_step P a b \<Longrightarrow> in_step P a b'"
  by (auto simp: in_step_def feed_same_def)

text \<open>
  C8: the meta connection delivers. Two ends in step (the sender's key and counter are the
  receiver's, no record under way): whatever lines and relayed packets one end queues, however its
  socket drains the queue in between and however the bytes arrive, the other end gets exactly these
  lines and packets, in order, provided the sender did not run into its output cap and the handlers that run
  between the reads neither send on this connection nor move its gate.
\<close>

theorem meta_link_delivers:
  assumes "prims_lengths P" "gcm_correct P" "in_step P a b" "lb_live (c_outbuf a) = []" "lb_ok (c_outbuf a)"
    and "link_run P ga ops a [] = Some (a', wire)" "\<not> c_dead a'" "list_all op_ok ops"
    and "concat chunks = wire @ lb_live (c_outbuf a')" "neutral D"
  shows "\<exists>b'. feed_reads P D chunks b g = Some (link_events ops, True, b', g) \<and> in_step P a' b'"
proof -
  have c: "conn_ok P b" using assms(3) by (auto simp: in_step_def conn_ok_def blob_ok_def)
  have "conn_feed P (ReadBytes ([] @ lb_live (c_outbuf a))) b g = Some (FeedSptps [], b, g)"
    using conn_feed_nil [OF c] assms(4) by simp
  from link_run_delivers [OF assms(1,2,6,7,5,8) c this assms(3)]
  obtain b2 where b2: "conn_feed P (ReadBytes (concat chunks)) b g = Some (FeedSptps (link_events ops), b2, g)" "in_step P a' b2"
    by (auto simp: assms(9))
  obtain b' where "feed_reads P D chunks b g = Some (link_events ops, True, b', g)" "feed_same b2 b'"
    using feed_reads_one [OF assms(1,10) c, of chunks g] b2(1) by (auto split: if_splits)
  thus ?thesis using in_step_same [OF _ b2(2)] by blast
qed


text \<open>A line the session is ready for and the queue has room for.\<close>

lemma conn_send_ready:
  assumes "\<not> c_dead c" "c_sptps c = Some s" "sp_framing s = Stream" "sp_outcipher s = Some k" "sp_state s \<noteq> Confirm"
    and "sealed_count s < SEAL_KEY_LIMIT" "length l < 65535"
    and "length (lb_live (c_outbuf c)) + length (frame P Stream (Some k) (ucast (sp_outseqno s)) 0 (as_bytes l @ [10])) \<le> OUTBUF_HARD_CAP"
  shows "conn_send P g l c = Some (lb_is_empty (c_outbuf c), c\<lparr>c_sptps := Some (s\<lparr>sp_outseqno := sp_outseqno s + 1\<rparr>),
      c_outbuf := lb_add (frame P Stream (Some k) (ucast (sp_outseqno s)) 0 (as_bytes l @ [10])) (c_outbuf c)\<rparr>)"
proof -
  define body where "body = as_bytes l @ [10]"
  have b: "length body \<le> 65535" using assms(7) by (simp add: body_def as_bytes_def)
  have "app_send_ready s" "\<not> needs_rekey s" using assms by (simp_all add: app_send_ready_def needs_rekey_def not_le)
  hence "send_record P 0 body (s, g, []) = send_record_priv P 0 body (s, g, [])"
    using b by (simp add: send_record_def run_simps REC_HANDSHAKE_def)
  hence r: "send_record P 0 body (s, g, []) = (Ok (), s\<lparr>sp_outseqno := sp_outseqno s + 1\<rparr>, g,
      [Wire 0 (frame P Stream (Some k) (ucast (sp_outseqno s)) 0 body)])"
    using b assms(3,4) by (simp add: send_record_priv_eq)
  thus ?thesis using assms
    by (simp add: conn_send_def send_sptps_def body_def [symmetric] check_outbuf_cap_def lb_live_simps)
qed

lemma conn_send_exhausted:
  assumes "\<not> c_dead c" "c_sptps c = Some s" "SEAL_KEY_LIMIT \<le> sealed_count s"
  shows "conn_send P g l c = None"
  using assms by (simp add: conn_send_def send_sptps_def send_record_def run_simps needs_rekey_def)

definition demo_end :: connection where
  "demo_end = (conn_new_base ''peer'' ''host'' 0)\<lparr>c_sptps := Some (demo_session Stream), c_allow_request := None\<rparr>"

lemma demo_end_in_step: "in_step demo_prims demo_end demo_end"
proof -
  have "sp_inv demo_prims (demo_session Stream)"
    by (simp add: sp_inv_def sp_core_def stream_ok_def kex_ok_def demo_prims_ok demo_session_def sptps_init_def Let_def)
  thus ?thesis by (simp add: in_step_def demo_end_def conn_new_base_def demo_session_ready stream_session_def)
      (simp add: demo_session_def sptps_init_def Let_def no_partial_def)
qed

theorem meta_link_delivers_witness:
  "\<exists>a' wire b'. link_run demo_prims 0 [SendLine ''8'', FlushTo 3] demo_end [] = Some (a', wire) \<and> \<not> c_dead a' \<and> length wire = 3 \<and>
     feed_reads demo_prims (\<lambda>_. id) [wire, lb_live (c_outbuf a')] demo_end 7 = Some ([EvRecord (Record 0 [56, 10])], True, b', 7)"
proof -
  define k where "k = \<lparr>ci_aead = ChaCha20Poly1305, ci_key = replicate 64 (1 :: u8)\<rparr>"
  define w where "w = frame demo_prims Stream (Some k) 0 0 (as_bytes ''8'' @ [10])"
  have w: "length w = 21" using length_frame [OF demo_prims_ok(1)] by (simp add: w_def as_bytes_def)
  have e: "\<not> c_dead demo_end" "c_sptps demo_end = Some (demo_session Stream)" "lb_live (c_outbuf demo_end) = []" "lb_ok (c_outbuf demo_end)"
    by (simp_all add: demo_end_def conn_new_base_def lb_live_simps)
  define a1 where "a1 = demo_end\<lparr>c_sptps := Some ((demo_session Stream)\<lparr>sp_outseqno := 1\<rparr>), c_outbuf := lb_add w (c_outbuf demo_end)\<rparr>"
  have s: "conn_send demo_prims 0 ''8'' demo_end = Some (True, a1)"
    using conn_send_ready [OF e(1,2), of k "''8''" demo_prims 0] demo_session_ready [of Stream] e(3) w
    by (simp add: k_def w_def a1_def sealed_count_def SEAL_KEY_LIMIT_def OUTBUF_HARD_CAP_def lb_live_simps)
  have l: "lb_live (c_outbuf a1) = w" "\<not> c_dead a1" using lbq.live_add [OF e(4)] e by (simp_all add: a1_def)
  define a' where "a' = snd (conn_flush (Inr (Some 3) :: unit + nat option) a1)"
  have r: "link_run demo_prims 0 [SendLine ''8'', FlushTo 3] demo_end [] = Some (a', take 3 w)" by (simp add: s l a'_def)
  have d: "\<not> c_dead a'" using l by (simp add: a'_def conn_flush_def Let_def)
  have "lb_ok (c_outbuf a1)" using lbq.add_ok [OF e(4)] by (simp add: a1_def)
  from meta_link_delivers [OF demo_prims_ok(1,2) demo_end_in_step e(3,4) r d, of "[take 3 w, lb_live (c_outbuf a')]" "\<lambda>_. id" 7]
  show ?thesis using r d w by (auto simp: neutral_def as_bytes_def simp del: feed_reads.simps link_run.simps)
qed


section \<open>The end of a key\<close>

definition drain :: nat where "drain = OUTBUF_HARD_CAP"

lemma drained:
  assumes "lb_live (c_outbuf c) = []" "lb_ok (c_outbuf c)" "length w \<le> OUTBUF_HARD_CAP" "w \<noteq> []"
    and "c' = snd (conn_flush (Inr (Some drain) :: unit + nat option) (c\<lparr>c_sptps := x, c_outbuf := lb_add w (c_outbuf c)\<rparr>))"
  shows "lb_live (c_outbuf c') = [] \<and> lb_ok (c_outbuf c') \<and> c_sptps c' = x \<and> c_dead c' = c_dead c"
  using assms lbq.live_add lbq.add_ok lbq.live_consume lbq.consume_ok
  by (simp add: conn_flush_def Let_def lb_live_simps drain_def)

lemma link_run_lines:
  assumes P: "prims_lengths P" and l: "length l < 65000"
  shows "\<not> c_dead c \<Longrightarrow> c_sptps c = Some s \<Longrightarrow> sp_framing s = Stream \<Longrightarrow> sp_outcipher s = Some k \<Longrightarrow> sp_state s \<noteq> Confirm \<Longrightarrow>
    sealed_count s = of_nat m \<Longrightarrow> m \<le> unat SEAL_KEY_LIMIT \<Longrightarrow> lb_live (c_outbuf c) = [] \<Longrightarrow> lb_ok (c_outbuf c) \<Longrightarrow>
    link_run P g (concat (replicate n [SendLine l, FlushTo drain])) c wire = None \<longleftrightarrow> unat SEAL_KEY_LIMIT < m + n"
proof (induction n arbitrary: c s m wire)
  case (Suc n)
  have lim: "unat SEAL_KEY_LIMIT = 2 ^ 32 - 2 ^ 16" by (simp add: SEAL_KEY_LIMIT_def)
  have m: "sealed_count s < SEAL_KEY_LIMIT \<longleftrightarrow> m < unat SEAL_KEY_LIMIT"
    using Suc.prems(6,7) lim by (simp add: word_less_nat_alt unat_of_nat_small)
  show ?case
  proof (cases "m < unat SEAL_KEY_LIMIT")
    case False
    thus ?thesis using Suc.prems conn_send_exhausted [OF Suc.prems(1,2), of P g l] m by simp
  next
    case True
    define w where "w = frame P Stream (Some k) (ucast (sp_outseqno s)) 0 (as_bytes l @ [10])"
    have w: "length w \<le> OUTBUF_HARD_CAP" "w \<noteq> []"
      using l length_frame [OF P, of Stream "Some k" "ucast (sp_outseqno s)" 0 "as_bytes l @ [10]"]
      by (auto simp: w_def as_bytes_def OUTBUF_HARD_CAP_def)
    define s1 where "s1 = s\<lparr>sp_outseqno := sp_outseqno s + 1\<rparr>"
    define c1 where "c1 = snd (conn_flush (Inr (Some drain) :: unit + nat option) (c\<lparr>c_sptps := Some s1, c_outbuf := lb_add w (c_outbuf c)\<rparr>))"
    have c1: "lb_live (c_outbuf c1) = []" "lb_ok (c_outbuf c1)" "c_sptps c1 = Some s1" "\<not> c_dead c1"
      using drained [OF Suc.prems(8,9) w c1_def] Suc.prems(1) by simp_all
    have "conn_send P g l c = Some (True, c\<lparr>c_sptps := Some s1, c_outbuf := lb_add w (c_outbuf c)\<rparr>)"
      using conn_send_ready [OF Suc.prems(1-5), of l P g] True m l w(1) Suc.prems(8) by (simp add: w_def s1_def lb_live_simps)
    moreover have "sealed_count s1 = of_nat (Suc m)" using Suc.prems(6) by (simp add: s1_def sealed_count_def algebra_simps)
    ultimately show ?thesis using Suc.IH [OF c1(4,3) _ _ _ _ _ c1(1,2), of "Suc m"] Suc.prems True
      by (simp add: c1_def s1_def)
  qed
qed simp

text \<open>
  A meta connection runs out of its key. From a freshly keyed session, lines queued and fully
  drained one after the other are accepted until the seal limit of the key; the next one panics.
  Nothing in the connection renews the key.
\<close>

lemma meta_send_exhausts:
  assumes "prims_lengths P" "\<not> c_dead c" "c_sptps c = Some s" "sp_framing s = Stream" "sp_outcipher s = Some k"
    and "sp_state s \<noteq> Confirm" "sp_out_key_base s = sp_outseqno s" "lb_live (c_outbuf c) = []" "lb_ok (c_outbuf c)" "length l < 65000"
  shows "link_run P g (concat (replicate n [SendLine l, FlushTo drain])) c [] = None \<longleftrightarrow> 2 ^ 32 - 2 ^ 16 < n"
proof -
  have "sealed_count s = of_nat 0" using assms(7) by (simp add: sealed_count_def)
  moreover have "unat SEAL_KEY_LIMIT = 2 ^ 32 - 2 ^ 16" by (simp add: SEAL_KEY_LIMIT_def)
  ultimately show ?thesis using link_run_lines [OF assms(1,10,2-6) _ _ assms(8,9), of 0 g n "[]"] by simp
qed

section \<open>Blobs behind the acknowledgement\<close>

lemma feed_outs_gate: "c_allow_request c \<noteq> None \<Longrightarrow> feed_outs c outs ev = (ev @ map EvRecord outs, c)"
  by (induction outs arbitrary: ev) (auto simp: blob_header_def split: sptps_output.splits)

lemma feed_gated_no_blob:
  assumes P: "prims_lengths P"
  shows "stream_session P s \<Longrightarrow> c_allow_request c \<noteq> None \<Longrightarrow> c_sptpslen c = 0 \<Longrightarrow> c_sptps_buf c = [] \<Longrightarrow>
    feed_loop P a s g c ev = Some (FeedSptps ev', c', g') \<Longrightarrow> EvBlob x \<in> set ev' \<Longrightarrow> EvBlob x \<in> set ev"
proof (induction a arbitrary: s g ev rule: length_induct)
  case (1 a)
  show ?case
  proof (cases "a = []")
    case True
    thus ?thesis using 1(6,7) by (simp add: feed_nil)
  next
    case False
    obtain r s1 g1 outs where r: "receive P a (s, g, []) = (r, s1, g1, outs)" by (metis prod_cases4)
    note fr = feed_rec [OF False 1(4) P 1(2) r, of ev]
    show ?thesis
    proof (cases r)
      case (Ok n)
      have "0 < n" using receive_split [OF 1(2) r, of "[]"] Ok False r by auto
      hence l: "length (drop n a) < length a" using False by (cases a) auto
      have s1: "stream_session P s1" using receive_stream_session [OF P 1(2) r] by simp
      have "feed_loop P (drop n a) s1 g1 c (ev @ map EvRecord outs) = Some (FeedSptps ev', c', g')"
        using fr Ok 1(6) feed_outs_gate [OF 1(3), of outs ev] by simp
      from 1(1) [rule_format, OF l s1 1(3-5) this 1(7)] show ?thesis by auto
    qed (use fr 1(6) in simp_all)
  qed
qed

text \<open>
  C36: a packet behind the acknowledgement is lost. A receiver whose gate still waits (for the peer's
  \<open>ACK\<close>) and that gets the peer's next line and a relayed packet in one read never sees the packet,
  because the length of the packet is only looked for when the gate is already open as the bytes are
  read. The same bytes in two reads, the gate opened in between, are delivered.
\<close>

theorem blob_behind_ack_lost:
  assumes P: "prims_lengths P" "gcm_correct P" and s: "in_step P a (b\<lparr>c_allow_request := None\<rparr>)" "c_allow_request b = Some r"
    and q: "lb_live (c_outbuf a) = []" "lb_ok (c_outbuf a)"
    and l: "conn_send P ga l a = Some (n1, a1)" "take 3 (as_bytes l) \<noteq> as_bytes ''21 ''"
    and x: "send_blob P ga x a1 = Some (n2, a2)" "\<not> c_dead a2" "x \<noteq> []" "length x < 2 ^ 15"
  shows "(\<forall>ev b' g'. conn_feed P (ReadBytes (lb_live (c_outbuf a2))) b g = Some (FeedSptps ev, b', g') \<longrightarrow> EvBlob x \<notin> set ev) \<and>
    (\<exists>w1 w2 b1 b2. lb_live (c_outbuf a2) = w1 @ w2 \<and>
       conn_feed P (ReadBytes w1) b g = Some (FeedSptps [EvRecord (Record 0 (as_bytes l @ [10]))], b1, g) \<and>
       conn_feed P (ReadBytes w2) (b1\<lparr>c_allow_request := None\<rparr>) g = Some (FeedSptps [EvBlob x], b2, g))"
proof
  obtain sb where sb: "c_sptps b = Some sb" "stream_session P sb" "c_sptpslen b = 0" "c_sptps_buf b = []"
    using s(1) by (auto simp: in_step_def)
  show "\<forall>ev b' g'. conn_feed P (ReadBytes (lb_live (c_outbuf a2))) b g = Some (FeedSptps ev, b', g') \<longrightarrow> EvBlob x \<notin> set ev"
    using feed_gated_no_blob [OF P(1) sb(2), of "b\<lparr>c_sptps := None\<rparr>" _ g "[]"] sb s(2) by (force simp: conn_feed_bytes)
  have a1: "\<not> c_dead a1" using send_blob_dead [OF _ x(1)] x(2) by blast
  from step_line_gated [OF P s(1) l(1) a1 q(2) l(2), of g] obtain w1 b1 where 1: "lb_ok (c_outbuf a1)" "lb_live (c_outbuf a1) = w1"
      "conn_feed P (ReadBytes w1) b g = Some (FeedSptps [EvRecord (Record 0 (as_bytes l @ [10]))], b1, g)"
      "in_step P a1 (b1\<lparr>c_allow_request := None\<rparr>)" by (auto simp: q(1))
  from step_blob [OF P 1(4) x(1,2) 1(1) x(3,4), of g] 1(2,3)
  show "\<exists>w1 w2 b1 b2. lb_live (c_outbuf a2) = w1 @ w2 \<and>
       conn_feed P (ReadBytes w1) b g = Some (FeedSptps [EvRecord (Record 0 (as_bytes l @ [10]))], b1, g) \<and>
       conn_feed P (ReadBytes w2) (b1\<lparr>c_allow_request := None\<rparr>) g = Some (FeedSptps [EvBlob x], b2, g)" by blast
qed

lemma demo_end_lines:
  "\<exists>n1 a1 n2 a2. conn_send demo_prims 0 ''4 0 0 0'' demo_end = Some (n1, a1) \<and> send_blob demo_prims 0 [1, 2, 3] a1 = Some (n2, a2) \<and> \<not> c_dead a2"
proof -
  define k where "k = \<lparr>ci_aead = ChaCha20Poly1305, ci_key = replicate 64 (1 :: u8)\<rparr>"
  define w where "w = frame demo_prims Stream (Some k) 0 0 (as_bytes ''4 0 0 0'' @ [10])"
  define v where "v = frame demo_prims Stream (Some k) 1 0 (as_bytes (sptps_packet_format 3) @ [10])"
  have w: "length w = 27" "length v < 100" using length_frame [OF demo_prims_ok(1)]
    by (simp_all add: w_def v_def as_bytes_def packet_line show_int_def show_radix.simps)
  have e: "\<not> c_dead demo_end" "c_sptps demo_end = Some (demo_session Stream)" "lb_live (c_outbuf demo_end) = []" "lb_ok (c_outbuf demo_end)"
    by (simp_all add: demo_end_def conn_new_base_def lb_live_simps)
  define a1 where "a1 = demo_end\<lparr>c_sptps := Some ((demo_session Stream)\<lparr>sp_outseqno := 1\<rparr>), c_outbuf := lb_add w (c_outbuf demo_end)\<rparr>"
  have s: "conn_send demo_prims 0 ''4 0 0 0'' demo_end = Some (True, a1)"
    using conn_send_ready [OF e(1,2), of k "''4 0 0 0''" demo_prims 0] demo_session_ready [of Stream] e(3) w(1)
    by (simp add: k_def w_def a1_def sealed_count_def SEAL_KEY_LIMIT_def OUTBUF_HARD_CAP_def lb_live_simps)
  have l: "lb_live (c_outbuf a1) = w" "\<not> c_dead a1" "c_sptps a1 = Some ((demo_session Stream)\<lparr>sp_outseqno := 1\<rparr>)"
    "lb_ok (c_outbuf a1)" using lbq.live_add [OF e(4)] lbq.add_ok [OF e(4)] e by (simp_all add: a1_def)
  define a2 where "a2 = a1\<lparr>c_sptps := Some ((demo_session Stream)\<lparr>sp_outseqno := 2\<rparr>), c_outbuf := lb_add v (c_outbuf a1)\<rparr>"
  have t: "conn_send demo_prims 0 (sptps_packet_format 3) a1 = Some (False, a2)"
    using conn_send_ready [OF l(2,3), of k "sptps_packet_format 3" demo_prims 0] demo_session_ready [of Stream] l(1) w
    by (simp add: k_def v_def a2_def sealed_count_def SEAL_KEY_LIMIT_def OUTBUF_HARD_CAP_def lb_live_simps packet_line show_int_def show_radix.simps)
       (auto simp: w_def)
  have "lb_live (c_outbuf a2) = w @ v" "\<not> c_dead a2" using lbq.live_add [OF l(4)] l by (simp_all add: a2_def)
  hence "\<not> c_dead (snd (send_raw [1, 2, 3] a2))" using w
    by (simp add: send_raw_def check_outbuf_cap_def lb_live_simps OUTBUF_HARD_CAP_def)
  thus ?thesis using s t by (auto simp: send_blob_def split_beta numeral_3_eq_3)
qed

theorem blob_behind_ack_lost_witness:
  "\<exists>n1 a1 n2 a2. conn_send demo_prims 0 ''4 0 0 0'' demo_end = Some (n1, a1) \<and> send_blob demo_prims 0 [1, 2, 3] a1 = Some (n2, a2) \<and>
     (\<forall>ev b' g'. conn_feed demo_prims (ReadBytes (lb_live (c_outbuf a2))) (demo_end\<lparr>c_allow_request := Some request.Ack\<rparr>) 7 =
        Some (FeedSptps ev, b', g') \<longrightarrow> EvBlob [1, 2, 3] \<notin> set ev)"
proof -
  obtain n1 a1 n2 a2 where a: "conn_send demo_prims 0 ''4 0 0 0'' demo_end = Some (n1, a1)"
      "send_blob demo_prims 0 [1, 2, 3] a1 = Some (n2, a2)" "\<not> c_dead a2" using demo_end_lines by blast
  have e: "lb_live (c_outbuf demo_end) = []" "lb_ok (c_outbuf demo_end)"
      "demo_end\<lparr>c_allow_request := Some request.Ack, c_allow_request := None\<rparr> = demo_end"
    by (simp_all add: demo_end_def conn_new_base_def lb_live_simps)
  have l: "take 3 (as_bytes ''4 0 0 0'') \<noteq> as_bytes ''21 ''" by (simp add: as_bytes_def)
  have i: "in_step demo_prims demo_end ((demo_end\<lparr>c_allow_request := Some request.Ack\<rparr>)\<lparr>c_allow_request := None\<rparr>)"
    using demo_end_in_step e(3) by simp
  from blob_behind_ack_lost [OF demo_prims_ok(1,2) i _ e(1,2) a(1) l a(2,3), of request.Ack 7] a show ?thesis by auto
qed

end
