(* ===== verification/Gossip_Inv.thy ===== *)
theory Gossip_Inv
  imports Daemon_Conn Meta_Link
begin

text \<open>
  The invariant of the daemon's tables and the proof that gossip keeps it. \<open>runs ok m Q\<close> is the judgement
  of all proofs here: \<open>m\<close> returns whenever \<open>ok\<close> holds, and what it returns satisfies \<open>Q\<close>; \<open>ok\<close> collects what
  sending needs (sessions with records left, lines that fit a record), so that one derivation gives both
  the absence of panics and the preservation of the invariant.
\<close>

section \<open>Runs\<close>

definition runs :: "bool \<Rightarrow> 'a option \<Rightarrow> ('a \<Rightarrow> bool) \<Rightarrow> bool" where
  "runs ok m Q \<longleftrightarrow> (case m of None \<Rightarrow> \<not> ok | Some x \<Rightarrow> Q x)"

named_theorems runs_rules

lemma runs_simps [simp]: "runs ok (Some x) Q = Q x" "runs ok None Q = (\<not> ok)"
  by (simp_all add: runs_def)

lemma runs_bind: "runs ok m (\<lambda>x. runs ok (f x) Q) \<Longrightarrow> runs ok (Option.bind m f) Q"
  by (cases m) simp_all

lemma runs_mono: "runs ok m Q \<Longrightarrow> (\<And>x. Q x \<Longrightarrow> Q' x) \<Longrightarrow> runs ok m Q'"
  by (cases m) simp_all

lemma runs_seq: "runs ok m Q1 \<Longrightarrow> (\<And>x. Q1 x \<Longrightarrow> runs ok (f x) Q) \<Longrightarrow> runs ok (Option.bind m f) Q"
  by (cases m) simp_all

lemma runs_map: "runs ok m (\<lambda>x. Q (f x)) \<Longrightarrow> runs ok (map_option f m) Q"
  by (cases m) simp_all

lemma runsD: "runs True m Q \<Longrightarrow> \<exists>x. m = Some x \<and> Q x" "runs ok m Q \<Longrightarrow> m = Some x \<Longrightarrow> Q x"
  by (cases m; simp)+

lemma runs_conj: "runs ok m Q \<Longrightarrow> runs ok m Q' \<Longrightarrow> runs ok m (\<lambda>x. Q x \<and> Q' x)"
  by (cases m) simp_all

section \<open>Sending\<close>

text \<open>What a send may change of a connection.\<close>

definition same_conn :: "connection \<Rightarrow> connection \<Rightarrow> bool" where
  "same_conn c c' \<longleftrightarrow> c' = c\<lparr>c_sptps := c_sptps c', c_outbuf := c_outbuf c', c_dead := c_dead c', c_flood := c_flood c'\<rparr>"

lemma same_conn_refl [simp]: "same_conn c c"
  by (simp add: same_conn_def)

lemma same_conn_trans: "same_conn a b \<Longrightarrow> same_conn b c \<Longrightarrow> same_conn a c"
  unfolding same_conn_def by (cases a; cases b; cases c) simp

lemma same_conn_eqs:
  assumes "same_conn c c'"
  shows "c_name c' = c_name c" "c_active c' = c_active c" "c_allow_request c' = c_allow_request c" "c_outgoing c' = c_outgoing c"
    "c_estimated_weight c' = c_estimated_weight c" "c_address c' = c_address c"
  using assms by (cases c; cases c'; simp add: same_conn_def)+

definition sent :: "'g daemon \<Rightarrow> 'g daemon \<Rightarrow> bool" where
  "sent d d' \<longleftrightarrow> (\<forall>i. rel_option same_conn (map_of (d_conns d) i) (map_of (d_conns d') i)) \<and>
     map fst (d_conns d') = map fst (d_conns d) \<and> d' = d\<lparr>d_conns := d_conns d', d_rng := d_rng d'\<rparr>"

lemma sent_refl [simp]: "sent d d"
  by (simp add: sent_def option.rel_refl)

lemma sent_trans: "sent a b \<Longrightarrow> sent b c \<Longrightarrow> sent a c"
proof -
  assume ab: "sent a b" and bc: "sent b c"
  have "rel_option same_conn (map_of (d_conns a) i) (map_of (d_conns c) i)" for i
    using ab bc option.rel_transp [of same_conn] unfolding sent_def transp_def by (metis same_conn_trans)
  moreover have "c = a\<lparr>d_conns := d_conns c, d_rng := d_rng c\<rparr>" using ab bc unfolding sent_def by (cases a; cases b; cases c) simp
  ultimately show ?thesis using ab bc by (simp add: sent_def)
qed

lemma sent_rng: "sent d d' \<Longrightarrow> sent d (d'\<lparr>d_rng := g\<rparr>)"
  by (cases d; cases d') (simp add: sent_def)

lemma update_keys_live: "map_of xs i = Some c \<Longrightarrow> map fst (AList.update i c' xs) = map fst xs"
  using map_of_SomeD [of xs i c] by (force simp: update_keys)

lemma sent_set_conn: "map_of (d_conns d) i = Some c \<Longrightarrow> same_conn c c' \<Longrightarrow> sent d (d\<lparr>d_conns := AList.update i c' (d_conns d)\<rparr>)"
  using update_keys_live [of "d_conns d" i c c'] by (auto simp: sent_def update_conv option.rel_refl)

lemma sent_eqs:
  assumes "sent d d'"
  shows "d_graph d' = d_graph d" "d_node_ids d' = d_node_ids d" "d_myself d' = d_myself d" "d_name d' = d_name d"
    "d_nodes d' = d_nodes d" "d_edge_addrs d' = d_edge_addrs d" "d_graph_dirty d' = d_graph_dirty d"
    "d_last_routes d' = d_last_routes d" "d_subnets d' = d_subnets d" "d_settings d' = d_settings d" "d_seen d' = d_seen d"
    "d_now d' = d_now d" "d_mac_leases d' = d_mac_leases d" "d_mac_table d' = d_mac_table d" "d_tx_snap d' = d_tx_snap d"
    "d_id6 d' = d_id6 d" "d_contradicting_add_edge d' = d_contradicting_add_edge d" "d_my_udp_port d' = d_my_udp_port d"
  using assms by (cases d; cases d'; simp add: sent_def)+

definition session_left :: "nat \<Rightarrow> sptps \<Rightarrow> bool" where
  "session_left k s \<longleftrightarrow> app_send_ready s \<and> unat (sealed_count s) + k \<le> unat SEAL_KEY_LIMIT"

text \<open>A connection on which \<open>k\<close> more lines can be sent without exhausting the key of the session.\<close>

definition can_send :: "nat \<Rightarrow> connection \<Rightarrow> bool" where
  "can_send k c \<longleftrightarrow> c_dead c \<or> (case c_sptps c of None \<Rightarrow> True | Some s \<Rightarrow> session_left k s)"

lemma can_send_mono: "can_send k c \<Longrightarrow> j \<le> k \<Longrightarrow> can_send j c"
  by (auto simp: can_send_def session_left_def split: option.splits)

lemma queue_wires_same: "queue_wires os c = (b, c') \<Longrightarrow> same_conn c c' \<and> c_sptps c' = c_sptps c"
proof (induction os c rule: queue_wires.induct)
  case (2 t bs os c)
  obtain over c1 where k: "check_outbuf_cap (length bs) c = (over, c1)" by fastforce
  hence c1: "same_conn c c1" "c_sptps c1 = c_sptps c" by (auto simp: check_outbuf_cap_def same_conn_def split: if_splits)
  have "same_conn c1 (c1\<lparr>c_outbuf := lb_add bs (c_outbuf c1)\<rparr>)" by (simp add: same_conn_def)
  thus ?case using 2 k c1 by (auto split: if_splits intro: same_conn_trans)
qed simp_all

lemma as_bytes_length [simp]: "length (as_bytes l) = length l"
  by (simp add: as_bytes_def)

lemma sealed_count_send:
  assumes "unat (sealed_count s) + Suc k \<le> unat SEAL_KEY_LIMIT"
  shows "unat (sealed_count (s\<lparr>sp_outseqno := sp_outseqno s + 1\<rparr>)) + k \<le> unat SEAL_KEY_LIMIT"
proof -
  have e: "sealed_count (s\<lparr>sp_outseqno := sp_outseqno s + 1\<rparr>) = sealed_count s + 1" by (simp add: sealed_count_def)
  have "unat (sealed_count s) + 1 < 2 ^ 64" using assms by (simp add: SEAL_KEY_LIMIT_def)
  hence "unat (sealed_count s + 1) = unat (sealed_count s) + 1" by (simp add: unat_word_ariths)
  thus ?thesis using assms e by simp
qed

lemma send_record_left:
  assumes "session_left (Suc k) s" "length body \<le> 65535"
  shows "\<exists>s' outs. send_record P 0 body (s, g, []) = (Ok (), s', g, outs) \<and> session_left k s'"
proof -
  have l: "unat (sealed_count s) + Suc k \<le> unat SEAL_KEY_LIMIT" and a: "app_send_ready s" using assms(1) by (auto simp: session_left_def)
  hence nr: "\<not> needs_rekey s" by (simp add: needs_rekey_def word_le_nat_alt)
  have "app_send_ready (s\<lparr>sp_outseqno := sp_outseqno s + 1\<rparr>)" using a by (simp add: app_send_ready_def)
  hence "session_left k (s\<lparr>sp_outseqno := sp_outseqno s + 1\<rparr>)" using sealed_count_send [OF l] by (simp add: session_left_def)
  moreover have "send_record P 0 body (s, g, []) = send_record_priv P 0 body (s, g, [])"
    using a nr assms(2) by (auto simp: send_record_def run_simps REC_HANDSHAKE_def)
  ultimately show ?thesis using assms(2) by (auto simp: send_record_priv_def run_simps push_out_def Let_def)
qed

lemma conn_send_runs:
  assumes "ok \<longrightarrow> can_send (Suc k) c \<and> length line < 65535"
  shows "runs ok (conn_send P g line c) (\<lambda>(nw, c'). same_conn c c' \<and> (ok \<longrightarrow> can_send k c'))"
proof (cases "c_dead c")
  case True
  thus ?thesis by (simp add: conn_send_def can_send_def)
next
  case alive: False
  show ?thesis
  proof (cases "c_sptps c")
    case None
    thus ?thesis using alive
      by (auto simp: conn_send_def check_outbuf_cap_def same_conn_def can_send_def Let_def split: if_splits)
  next
    case (Some s)
    let ?b = "as_bytes line @ [10]"
    obtain r s' g' outs where sr: "send_record P 0 ?b (s, g, []) = (r, s', g', outs)" by (metis prod_cases4)
    obtain w c' where q: "queue_wires outs (c\<lparr>c_sptps := Some s'\<rparr>) = (w, c')" by fastforce
    from queue_wires_same [OF q] have c': "same_conn (c\<lparr>c_sptps := Some s'\<rparr>) c'" "c_sptps c' = Some s'" by simp_all
    moreover have "same_conn c (c\<lparr>c_sptps := Some s'\<rparr>)" by (simp add: same_conn_def)
    ultimately have same: "same_conn c c'" by (blast intro: same_conn_trans)
    have e: "conn_send P g line c = (if r = Ok () then Some (w \<and> lb_is_empty (c_outbuf c), c') else None)"
      using alive Some sr q by (cases r) (simp_all add: conn_send_def send_sptps_def)
    show ?thesis
    proof (cases ok)
      case True
      hence "session_left (Suc k) s" "length ?b \<le> 65535" using assms alive Some by (auto simp: can_send_def)
      from send_record_left [OF this, of P g] have "r = Ok ()" "session_left k s'" using sr by auto
      thus ?thesis using e same c'(2) by (simp add: can_send_def)
    qed (use e same in simp)
  qed
qed

definition ready :: "nat \<Rightarrow> nat \<Rightarrow> 'g daemon \<Rightarrow> bool" where
  "ready k cid d \<longleftrightarrow> (\<forall>i c. map_of (d_conns d) i = Some c \<longrightarrow> c_active c \<or> i = cid \<longrightarrow> can_send k c)"

lemma ready_mono: "ready k cid d \<Longrightarrow> j \<le> k \<Longrightarrow> ready j cid d"
  by (auto simp: ready_def intro: can_send_mono)

lemma ready_rng [simp]: "ready k cid (d\<lparr>d_rng := g\<rparr>) = ready k cid d"
  by (simp add: ready_def)

definition sendable :: "nat \<Rightarrow> 'g daemon \<Rightarrow> bool" where
  "sendable i d \<longleftrightarrow> (case map_of (d_conns d) i of None \<Rightarrow> True | Some c \<Rightarrow> c_active c)"

text \<open>One line: every connection keeps its readiness but the one sent on, which loses one record.\<close>

lemma d_send_runs:
  assumes "\<And>c. ok \<Longrightarrow> map_of (d_conns d) i = Some c \<Longrightarrow> can_send (Suc k) c" "ok \<Longrightarrow> length line < 65535"
  shows "runs ok (d_send P i line d) (\<lambda>(nw, d'). sent d d' \<and> (\<forall>j. j \<noteq> i \<longrightarrow> map_of (d_conns d') j = map_of (d_conns d) j) \<and>
    (\<forall>c. ok \<longrightarrow> map_of (d_conns d') i = Some c \<longrightarrow> can_send k c))"
proof (cases "map_of (d_conns d) i")
  case (Some c)
  have "ok \<longrightarrow> can_send (Suc k) c \<and> length line < 65535" using assms Some by blast
  from conn_send_runs [OF this, of P "d_rng d"] show ?thesis using Some unfolding d_send_def
    by (auto intro!: runs_bind elim!: runs_mono simp: sent_set_conn [OF Some] update_conv)
qed (simp add: d_send_def)

lemma d_send_ready:
  assumes "ok \<Longrightarrow> ready (Suc k) cid d" "ok \<Longrightarrow> i \<noteq> cid \<Longrightarrow> sendable i d" "ok \<Longrightarrow> length line < 65535"
  shows "runs ok (d_send P i line d) (\<lambda>(nw, d'). sent d d' \<and> (ok \<longrightarrow> ready k cid d'))"
proof -
  have c: "can_send (Suc k) c" if ok "map_of (d_conns d) i = Some c" for c
    using assms(1,2) that by (cases "i = cid") (auto simp: ready_def sendable_def)
  have "ready k cid d'" if ok "sent d d'" "\<forall>j. j \<noteq> i \<longrightarrow> map_of (d_conns d') j = map_of (d_conns d) j"
    "\<forall>c. map_of (d_conns d') i = Some c \<longrightarrow> can_send k c" for d'
    unfolding ready_def
  proof (intro allI impI)
    fix j c assume j: "map_of (d_conns d') j = Some c" "c_active c \<or> j = cid"
    show "can_send k c" using that j assms(1) [OF that(1)] can_send_mono [of "Suc k" c k] by (cases "j = i") (auto simp: ready_def)
  qed
  thus ?thesis using c assms(3) by (auto intro!: runs_mono [OF d_send_runs [where k = k]])
qed

lemma d_send_all_runs:
  assumes "distinct is" "\<And>j c. ok \<Longrightarrow> j \<in> set is \<Longrightarrow> map_of (d_conns d) j = Some c \<Longrightarrow> can_send (Suc k) c" "ok \<Longrightarrow> length line < 65535"
  shows "runs ok (d_send_all P is line d) (\<lambda>(nw, d'). sent d d' \<and> (\<forall>j. j \<notin> set is \<longrightarrow> map_of (d_conns d') j = map_of (d_conns d) j) \<and>
    (\<forall>j\<in>set is. \<forall>c. ok \<longrightarrow> map_of (d_conns d') j = Some c \<longrightarrow> can_send k c))"
  using assms
proof (induction "is" arbitrary: d)
  case (Cons i js)
  have "runs ok (d_send P i line d) (\<lambda>(nw, d'). sent d d' \<and> (\<forall>j. j \<noteq> i \<longrightarrow> map_of (d_conns d') j = map_of (d_conns d) j) \<and>
    (\<forall>c. ok \<longrightarrow> map_of (d_conns d') i = Some c \<longrightarrow> can_send k c))" using Cons.prems by (intro d_send_runs) auto
  thus ?case unfolding d_send_all.simps
  proof (rule runs_seq, clarify)
    fix nw d1
    assume 1: "sent d d1" "\<forall>j. j \<noteq> i \<longrightarrow> map_of (d_conns d1) j = map_of (d_conns d) j"
      "\<forall>c. ok \<longrightarrow> map_of (d_conns d1) i = Some c \<longrightarrow> can_send k c"
    have "runs ok (d_send_all P js line d1) (\<lambda>(nw, d'). sent d1 d' \<and> (\<forall>j. j \<notin> set js \<longrightarrow> map_of (d_conns d') j = map_of (d_conns d1) j) \<and>
      (\<forall>j\<in>set js. \<forall>c. ok \<longrightarrow> map_of (d_conns d') j = Some c \<longrightarrow> can_send k c))"
      using 1(2) Cons.prems by (intro Cons.IH) (metis distinct.simps(2) list.set_intros(2))+
    thus "runs ok (do { (b, d) \<leftarrow> d_send_all P js line d1; Some (nw \<or> b, d) }) (\<lambda>(nw, d'). sent d d' \<and>
        (\<forall>j. j \<notin> set (i # js) \<longrightarrow> map_of (d_conns d') j = map_of (d_conns d) j) \<and>
        (\<forall>j\<in>set (i # js). \<forall>c. ok \<longrightarrow> map_of (d_conns d') j = Some c \<longrightarrow> can_send k c))"
      using 1 Cons.prems(1) by (elim runs_seq) (auto intro: sent_trans)
  qed
qed simp

lemma broadcast_targets_active:
  assumes "distinct (map fst (d_conns d))"
  shows "distinct (broadcast_targets s d)"
    "j \<in> set (broadcast_targets s d) \<longleftrightarrow> Some j \<noteq> s \<and> (\<exists>c. map_of (d_conns d) j = Some c \<and> c_active c)"
proof -
  show "distinct (broadcast_targets s d)" using assms by (simp add: broadcast_targets_def distinct_map_filter)
  show "j \<in> set (broadcast_targets s d) \<longleftrightarrow> Some j \<noteq> s \<and> (\<exists>c. map_of (d_conns d) j = Some c \<and> c_active c)"
    using assms by (force simp: broadcast_targets_def map_of_eq_Some_iff)
qed

lemma d_send_all_ready:
  assumes "distinct (map fst (d_conns d))" "ok \<Longrightarrow> ready (Suc k) cid d" "ok \<Longrightarrow> length line < 65535"
  shows "runs ok (d_send_all P (broadcast_targets s d) line d) (\<lambda>(nw, d'). sent d d' \<and> (ok \<longrightarrow> ready k cid d'))"
proof -
  note t = broadcast_targets_active [OF assms(1), where s = s]
  have "ready k cid d'" if ok "\<forall>j. j \<notin> set (broadcast_targets s d) \<longrightarrow> map_of (d_conns d') j = map_of (d_conns d) j"
    "\<forall>j\<in>set (broadcast_targets s d). \<forall>c. map_of (d_conns d') j = Some c \<longrightarrow> can_send k c" for d'
    unfolding ready_def
  proof (intro allI impI)
    fix j c assume j: "map_of (d_conns d') j = Some c" "c_active c \<or> j = cid"
    show "can_send k c" using that j assms(2) [OF that(1)] can_send_mono [of "Suc k" c k]
      by (cases "j \<in> set (broadcast_targets s d)") (auto simp: ready_def)
  qed
  note fin = this
  have "can_send (Suc k) c" if ok "j \<in> set (broadcast_targets s d)" "map_of (d_conns d) j = Some c" for j c
    using assms(2) [OF that(1)] that t(2) [of j] by (auto simp: ready_def)
  from d_send_all_runs [where P = P, OF t(1) this assms(3)] show ?thesis by (rule runs_mono) (use fin in blast)+
qed

lemma from_utf8_length: "from_utf8 b = Some s \<Longrightarrow> length s = length b"
  by (auto simp: from_utf8_def split: if_splits)

lemma forward_request_runs:
  assumes "distinct (map fst (d_conns d))" "ok \<Longrightarrow> ready (Suc k) cid d" "ok \<Longrightarrow> length body < 65535"
  shows "runs ok (forward_request P cid body d) (\<lambda>(nw, d'). sent d d' \<and> (ok \<longrightarrow> ready k cid d'))"
proof (cases "from_utf8 body")
  case None
  thus ?thesis using assms(2) by (auto simp: forward_request_def intro: ready_mono)
next
  case (Some s)
  show ?thesis
  proof (cases "map_of (d_conns d) cid")
    case None
    thus ?thesis using Some d_send_all_ready [OF assms(1,2), of ok s P "Some cid"] from_utf8_length [OF Some] assms(3)
      by (simp add: forward_request_def)
  next
    case c: (Some c)
    obtain allowed f where f: "allow (d_now d) (c_flood c) = (allowed, f)" by fastforce
    define f2 where "f2 = (if allowed then f else snd (should_warn f))"
    let ?f = f2 and ?d = "d\<lparr>d_conns := AList.update cid (c\<lparr>c_flood := f2\<rparr>) (d_conns d)\<rparr>"
    have "same_conn c (c\<lparr>c_flood := ?f\<rparr>)" by (simp add: same_conn_def)
    hence st: "sent d ?d" using sent_set_conn [OF c] by blast
    have k: "distinct (map fst (d_conns ?d))" using assms(1) st by (simp add: sent_def)
    have "can_send j (c\<lparr>c_flood := ?f\<rparr>) = can_send j c" for j by (simp add: can_send_def)
    hence r: "ready j cid ?d \<longleftrightarrow> ready j cid d" for j
      unfolding ready_def using c by (auto simp: update_conv)
    have "length s < 65535" if ok using assms(3) that from_utf8_length [OF Some] by simp
    hence "runs ok (d_send_all P (broadcast_targets (Some cid) ?d) s ?d) (\<lambda>(nw, d'). sent d d' \<and> (ok \<longrightarrow> ready k cid d'))"
      using d_send_all_ready [OF k, of ok k cid s P "Some cid"] assms(2) r st by (auto elim!: runs_mono intro: sent_trans)
    moreover have "ok \<longrightarrow> ready k cid ?d" using assms(2) r ready_mono [of "Suc k" cid d k] by auto
    moreover have "forward_request P cid body d = (if allowed then d_send_all P (broadcast_targets (Some cid) ?d) s ?d else Some (False, ?d))"
      using Some c f by (simp add: forward_request_def Let_def f2_def)
    ultimately show ?thesis using st by simp
  qed
qed

lemma broadcast_line_runs:
  assumes "distinct (map fst (d_conns d))" "ok \<Longrightarrow> ready (Suc k) cid d" "ok \<Longrightarrow> length line < 65535"
  shows "runs ok (broadcast_line P line d) (\<lambda>(nw, d'). sent d d' \<and> (ok \<longrightarrow> ready k cid d'))"
  unfolding broadcast_line_def by (rule d_send_all_ready [OF assms])

section \<open>The invariant\<close>

abbreviation NV :: "'g daemon \<Rightarrow> nat \<Rightarrow> (string \<times> bool) option" where
  "NV d \<equiv> nview (g_nodes (d_graph d))"

abbreviation EV :: "'g daemon \<Rightarrow> nat \<Rightarrow> edge_view option" where
  "EV d \<equiv> eview (d_graph d)"

text \<open>Of a connection: its name, whether it is active, and the weight and the address an \<open>ACK\<close> makes an edge of.\<close>

type_synonym conn_view = "string \<times> bool \<times> int \<times> sock_addr option"

definition cview :: "connection \<Rightarrow> conn_view" where
  "cview c = (c_name c, c_active c, c_estimated_weight c, c_address c)"

definition CV :: "'g daemon \<Rightarrow> nat \<Rightarrow> conn_view option" where
  "CV d i = map_option cview (map_of (d_conns d) i)"

definition addr_ok :: "sock_addr option \<Rightarrow> bool" where
  "addr_ok a = (case a of Some (IpV6 b, _) \<Rightarrow> length b = 16 | _ \<Rightarrow> True)"

text \<open>The table of names is the graph's own naming, and this node is in it, reachable.\<close>

definition names_agree :: "nat \<Rightarrow> string \<Rightarrow> (string \<times> nat) list \<Rightarrow> (nat \<Rightarrow> (string \<times> bool) option) \<Rightarrow> bool" where
  "names_agree m me ids N \<longleftrightarrow> distinct (map fst ids) \<and> (\<forall>nm i. map_of ids nm = Some i \<longleftrightarrow> (\<exists>r. N i = Some (nm, r))) \<and>
     N m = Some (me, True) \<and> (\<forall>i nm r. N i = Some (nm, r) \<longrightarrow> length nm \<le> MAX_STRING)"

text \<open>The edges that leave this node are exactly those of its active connections.\<close>

definition own_edges :: "nat \<Rightarrow> (nat \<Rightarrow> node_state option) \<Rightarrow> (nat \<Rightarrow> edge_view option) \<Rightarrow>
    (nat \<Rightarrow> conn_view option) \<Rightarrow> (nat \<Rightarrow> (string \<times> bool) option) \<Rightarrow> bool" where
  "own_edges m nodes E C N \<longleftrightarrow>
     (\<forall>t ns. nodes t = Some ns \<longrightarrow> N t \<noteq> None \<and>
        (case ns_edge ns of None \<Rightarrow> ns_conn ns = None
         | Some e \<Rightarrow> E e = Some (m, t, ns_edge_weight ns, ns_edge_options ns) \<and>
             (\<exists>i nm r w. ns_conn ns = Some i \<and> C i = Some (nm, True, w) \<and> N t = Some (nm, r)))) \<and>
     (\<forall>e t w x. E e = Some (m, t, w, x) \<longrightarrow> (\<exists>ns. nodes t = Some ns \<and> ns_edge ns = Some e)) \<and>
     (\<forall>i nm w. C i = Some (nm, True, w) \<longrightarrow> (\<exists>t r ns. N t = Some (nm, r) \<and> nodes t = Some ns \<and> ns_conn ns = Some i))"

definition addrs_live :: "(nat \<Rightarrow> edge_addr option) \<Rightarrow> (nat \<Rightarrow> edge_view option) \<Rightarrow> bool" where
  "addrs_live A E \<longleftrightarrow> (\<forall>e a p la lp. A e = Some (a, p, la, lp) \<longrightarrow> E e \<noteq> None \<and>
     length a \<le> MAX_STRING \<and> length p \<le> MAX_STRING \<and> length la \<le> MAX_STRING \<and> length lp \<le> MAX_STRING)"

text \<open>Unless a recomputation is pending, the reachable nodes and the routes are those of two-way connectivity.\<close>

definition reach_agrees :: "bool \<Rightarrow> nat \<Rightarrow> route option list \<Rightarrow> (nat \<Rightarrow> edge_view option) \<Rightarrow> (nat \<Rightarrow> (string \<times> bool) option) \<Rightarrow> bool" where
  "reach_agrees dirty m rt E N \<longleftrightarrow> (\<not> dirty \<longrightarrow>
     (\<forall>n nm r. N n = Some (nm, r) \<longrightarrow> r = (two_way E)\<^sup>*\<^sup>* m n) \<and> (\<forall>n. n \<noteq> m \<longrightarrow> slot rt n \<noteq> None \<longleftrightarrow> (two_way E)\<^sup>*\<^sup>* m n))"

definition conns_ok :: "string \<Rightarrow> nat list \<Rightarrow> (nat \<Rightarrow> conn_view option) \<Rightarrow> bool" where
  "conns_ok me ks C \<longleftrightarrow> distinct ks \<and> (\<forall>i nm a w. C i = Some (nm, a, w) \<longrightarrow> nm \<noteq> me \<and> length nm \<le> MAX_STRING \<and> i32_range (fst w) \<and> addr_ok (snd w))"

definition weights_in_range :: "(nat \<Rightarrow> edge_view option) \<Rightarrow> bool" where
  "weights_in_range E \<longleftrightarrow> (\<forall>e a b w x. E e = Some (a, b, w, x) \<longrightarrow> i32_range w)"

definition subnets_ok :: "subnet_tree \<Rightarrow> bool" where
  "subnets_ok t \<longleftrightarrow> tree_ok t \<and> (\<forall>s ow. (s, Some ow) \<in> entries t \<longrightarrow> length ow \<le> MAX_STRING)"

definition dinv :: "'g daemon \<Rightarrow> bool" where
  "dinv d \<longleftrightarrow> graph_inv (d_graph d) \<and> names_agree (d_myself d) (d_name d) (d_node_ids d) (NV d) \<and>
     own_edges (d_myself d) (d_nodes d) (EV d) (CV d) (NV d) \<and> addrs_live (d_edge_addrs d) (EV d) \<and>
     reach_agrees (d_graph_dirty d) (d_myself d) (d_last_routes d) (EV d) (NV d) \<and>
     conns_ok (d_name d) (map fst (d_conns d)) (CV d) \<and> weights_in_range (EV d) \<and> subnets_ok (d_subnets d) \<and> d_my_udp_port d < 65536"

lemma own_edgesI:
  assumes "\<And>t ns. nodes t = Some ns \<Longrightarrow> N t \<noteq> None \<and> (ns_edge ns = None \<longrightarrow> ns_conn ns = None)"
    and "\<And>t ns e. nodes t = Some ns \<Longrightarrow> ns_edge ns = Some e \<Longrightarrow> E e = Some (m, t, ns_edge_weight ns, ns_edge_options ns) \<and>
        (\<exists>i nm r w. ns_conn ns = Some i \<and> C i = Some (nm, True, w) \<and> N t = Some (nm, r))"
    and "\<And>e t w x. E e = Some (m, t, w, x) \<Longrightarrow> \<exists>ns. nodes t = Some ns \<and> ns_edge ns = Some e"
    and "\<And>i nm w. C i = Some (nm, True, w) \<Longrightarrow> \<exists>t r ns. N t = Some (nm, r) \<and> nodes t = Some ns \<and> ns_conn ns = Some i"
  shows "own_edges m nodes E C N"
  unfolding own_edges_def using assms by (auto split: option.splits)

lemma own_edgesD:
  assumes "own_edges m nodes E C N"
  shows "nodes t = Some ns \<Longrightarrow> N t \<noteq> None" "nodes t = Some ns \<Longrightarrow> ns_edge ns = None \<Longrightarrow> ns_conn ns = None"
    "nodes t = Some ns \<Longrightarrow> ns_edge ns = Some e \<Longrightarrow> E e = Some (m, t, ns_edge_weight ns, ns_edge_options ns)"
    "nodes t = Some ns \<Longrightarrow> ns_edge ns = Some e \<Longrightarrow> \<exists>i nm r w. ns_conn ns = Some i \<and> C i = Some (nm, True, w) \<and> N t = Some (nm, r)"
    "E e = Some (m, t, w, x) \<Longrightarrow> \<exists>ns. nodes t = Some ns \<and> ns_edge ns = Some e"
    "C i = Some (nm, True, v) \<Longrightarrow> \<exists>t r ns. N t = Some (nm, r) \<and> nodes t = Some ns \<and> ns_conn ns = Some i"
proof -
  have a: "\<forall>t ns. nodes t = Some ns \<longrightarrow> N t \<noteq> None \<and> (case ns_edge ns of None \<Rightarrow> ns_conn ns = None
         | Some e \<Rightarrow> E e = Some (m, t, ns_edge_weight ns, ns_edge_options ns) \<and>
             (\<exists>i nm r w. ns_conn ns = Some i \<and> C i = Some (nm, True, w) \<and> N t = Some (nm, r)))"
    and b: "\<forall>e t w x. E e = Some (m, t, w, x) \<longrightarrow> (\<exists>ns. nodes t = Some ns \<and> ns_edge ns = Some e)"
    and c: "\<forall>i nm w. C i = Some (nm, True, w) \<longrightarrow> (\<exists>t r ns. N t = Some (nm, r) \<and> nodes t = Some ns \<and> ns_conn ns = Some i)"
    using assms unfolding own_edges_def by blast+
  show "nodes t = Some ns \<Longrightarrow> N t \<noteq> None" using a by blast
  { assume t: "nodes t = Some ns"
    note a [rule_format, OF t]
    thus "ns_edge ns = None \<Longrightarrow> ns_conn ns = None" "ns_edge ns = Some e \<Longrightarrow> E e = Some (m, t, ns_edge_weight ns, ns_edge_options ns)"
      "ns_edge ns = Some e \<Longrightarrow> \<exists>i nm r w. ns_conn ns = Some i \<and> C i = Some (nm, True, w) \<and> N t = Some (nm, r)" by simp_all }
  show "E e = Some (m, t, w, x) \<Longrightarrow> \<exists>ns. nodes t = Some ns \<and> ns_edge ns = Some e" using b by blast
  show "C i = Some (nm, True, v) \<Longrightarrow> \<exists>t r ns. N t = Some (nm, r) \<and> nodes t = Some ns \<and> ns_conn ns = Some i" using c by blast
qed

lemma own_edges_names:
  assumes o: "own_edges m nodes E C N" and ext: "\<And>t nm r. N t = Some (nm, r) \<Longrightarrow> \<exists>r'. N' t = Some (nm, r')"
  shows "own_edges m nodes E C N'"
proof (rule own_edgesI)
  fix t ns assume t: "nodes t = Some ns"
  show "N' t \<noteq> None \<and> (ns_edge ns = None \<longrightarrow> ns_conn ns = None)" using own_edgesD(1,2) [OF o t] ext [of t] by fastforce
  show "E e = Some (m, t, ns_edge_weight ns, ns_edge_options ns) \<and>
      (\<exists>i nm r w. ns_conn ns = Some i \<and> C i = Some (nm, True, w) \<and> N' t = Some (nm, r))" if "ns_edge ns = Some e" for e
    using own_edgesD(3,4) [OF o t that] ext by blast
next
  fix i nm w assume "C i = Some (nm, True, w)"
  thus "\<exists>t r ns. N' t = Some (nm, r) \<and> nodes t = Some ns \<and> ns_conn ns = Some i" using own_edgesD(6) [OF o] ext by blast
qed (use own_edgesD(5) [OF o] in blast)

lemma names_agreeD:
  assumes "names_agree m me ids N"
  shows "distinct (map fst ids)" "map_of ids nm = Some i \<longleftrightarrow> (\<exists>r. N i = Some (nm, r))" "N m = Some (me, True)"
    "N i = Some (nm, r) \<Longrightarrow> length nm \<le> MAX_STRING"
proof -
  have "\<forall>nm i. map_of ids nm = Some i \<longleftrightarrow> (\<exists>r. N i = Some (nm, r))" using assms unfolding names_agree_def by (elim conjE)
  thus "map_of ids nm = Some i \<longleftrightarrow> (\<exists>r. N i = Some (nm, r))" by blast
qed (use assms in \<open>unfold names_agree_def, blast\<close>)+

lemma names_agree_names:
  assumes a: "names_agree m me ids N" and n: "\<And>n. map_option fst (N' n) = map_option fst (N n)" and m: "N' m = N m"
  shows "names_agree m me ids N'"
proof -
  have e: "(\<exists>r. N' i = Some (nm, r)) \<longleftrightarrow> (\<exists>r. N i = Some (nm, r))" for i nm
    using n [of i] by (cases "N i"; cases "N' i") auto
  hence "map_of ids nm = Some i \<longleftrightarrow> (\<exists>r. N' i = Some (nm, r))" for nm i using names_agreeD(2) [OF a] by simp
  moreover have "N' i = Some (nm, r) \<Longrightarrow> length nm \<le> MAX_STRING" for i nm r using names_agreeD(4) [OF a] e by blast
  ultimately show ?thesis using names_agreeD(1,3) [OF a] m unfolding names_agree_def by simp
qed

lemma dinvD:
  assumes "dinv d"
  shows "graph_inv (d_graph d)" "names_agree (d_myself d) (d_name d) (d_node_ids d) (NV d)"
    "own_edges (d_myself d) (d_nodes d) (EV d) (CV d) (NV d)" "addrs_live (d_edge_addrs d) (EV d)"
    "reach_agrees (d_graph_dirty d) (d_myself d) (d_last_routes d) (EV d) (NV d)"
    "conns_ok (d_name d) (map fst (d_conns d)) (CV d)" "weights_in_range (EV d)" "subnets_ok (d_subnets d)" "d_my_udp_port d < 65536"
  using assms by (simp_all add: dinv_def)

lemma sent_CV: "sent d d' \<Longrightarrow> CV d' = CV d"
proof
  fix i assume "sent d d'"
  hence "rel_option same_conn (map_of (d_conns d) i) (map_of (d_conns d') i)" by (simp add: sent_def)
  thus "CV d' i = CV d i" unfolding CV_def by (cases rule: option.rel_cases) (simp_all add: cview_def same_conn_eqs)
qed

lemma dinv_sent: "sent d d' \<Longrightarrow> dinv d' = dinv d"
  using sent_CV [of d d'] sent_eqs [of d d'] by (simp add: dinv_def sent_def)

lemma dinv_conn_keys: "dinv d \<Longrightarrow> distinct (map fst (d_conns d))"
  by (simp add: dinv_def conns_ok_def)

text \<open>Fields the invariant does not read.\<close>

lemma CV_quiet [simp]:
  "CV (d\<lparr>d_graph := g\<rparr>) = CV d" "CV (d\<lparr>d_seen := sn\<rparr>) = CV d" "CV (d\<lparr>d_nodes := ns\<rparr>) = CV d" "CV (d\<lparr>d_edge_addrs := A\<rparr>) = CV d"
  "CV (d\<lparr>d_graph_dirty := b\<rparr>) = CV d" "CV (d\<lparr>d_rng := rg\<rparr>) = CV d" "CV (d\<lparr>d_node_ids := ids\<rparr>) = CV d" "CV (d\<lparr>d_id6 := t6\<rparr>) = CV d"
  "CV (d\<lparr>d_tunnels := tn\<rparr>) = CV d" "CV (d\<lparr>d_effects := ef\<rparr>) = CV d" "CV (d\<lparr>d_device_enabled := b\<rparr>) = CV d"
  "CV (d\<lparr>d_tunnel_handles := hs\<rparr>) = CV d" "CV (d\<lparr>d_tx_snap := sp\<rparr>) = CV d" "CV (d\<lparr>d_last_routes := rt\<rparr>) = CV d"
  "CV (d\<lparr>d_last_mst := tr\<rparr>) = CV d" "CV (d\<lparr>d_subnets := st\<rparr>) = CV d" "CV (d\<lparr>d_mac_table := mt\<rparr>) = CV d"
  "CV (d\<lparr>d_contradicting_add_edge := ca\<rparr>) = CV d" "CV (d\<lparr>d_contradicting_del_edge := cd\<rparr>) = CV d"
  "CV (d\<lparr>d_pending_meta := pm\<rparr>) = CV d"
  by (simp_all add: CV_def fun_eq_iff)

lemma dinv_quiet [simp]:
  "dinv (d\<lparr>d_seen := sn\<rparr>) = dinv d" "dinv (d\<lparr>d_rng := rg\<rparr>) = dinv d" "dinv (d\<lparr>d_id6 := t6\<rparr>) = dinv d"
  "dinv (d\<lparr>d_tunnels := tn\<rparr>) = dinv d" "dinv (d\<lparr>d_effects := ef\<rparr>) = dinv d" "dinv (d\<lparr>d_device_enabled := b\<rparr>) = dinv d"
  "dinv (d\<lparr>d_tunnel_handles := hs\<rparr>) = dinv d" "dinv (d\<lparr>d_tx_snap := sp\<rparr>) = dinv d" "dinv (d\<lparr>d_last_mst := tr\<rparr>) = dinv d"
  "dinv (d\<lparr>d_mac_table := mt\<rparr>) = dinv d"
  "dinv (d\<lparr>d_contradicting_add_edge := ca\<rparr>) = dinv d" "dinv (d\<lparr>d_contradicting_del_edge := cd\<rparr>) = dinv d"
  "dinv (d\<lparr>d_pending_meta := pm\<rparr>) = dinv d"
  by (simp_all add: dinv_def)

lemma dinv_subnets: "dinv d \<Longrightarrow> subnets_ok t \<Longrightarrow> dinv (d\<lparr>d_subnets := t\<rparr>)"
  by (simp add: dinv_def)

lemma dinv_dirty: "dinv d \<Longrightarrow> dinv (d\<lparr>d_graph_dirty := True\<rparr>)"
  by (simp add: dinv_def reach_agrees_def)

section \<open>Names\<close>

lemma two_way_live:
  assumes "graph_inv g" "(two_way (eview g))\<^sup>*\<^sup>* m n" "n \<noteq> m"
  shows "nview (g_nodes g) n \<noteq> None"
  using assms(2)
proof (cases rule: rtranclp.cases)
  case (rtrancl_into_rtrancl b)
  then obtain i w x where "eview g i = Some (b, n, w, x)" by (auto simp: two_way_def has_edge_def)
  thus ?thesis using eview_live [OF assms(1)] by blast
qed (use assms(3) in simp)

lemma names_agree_length:
  assumes "graph_inv g" "names_agree m me ids (nview (g_nodes g))"
  shows "length ids = card {i. nview (g_nodes g) i \<noteq> None}"
proof -
  let ?N = "nview (g_nodes g)"
  have d: "distinct (map fst ids)" and ids: "\<And>nm i. map_of ids nm = Some i \<longleftrightarrow> (\<exists>r. ?N i = Some (nm, r))"
    using assms(2) by (auto simp: names_agree_def)
  have mem: "(nm, i) \<in> set ids \<longleftrightarrow> (\<exists>r. ?N i = Some (nm, r))" for nm i using map_of_eq_Some_iff [OF d] ids by metis
  have "inj_on snd (set ids)" using mem by (force intro!: inj_onI)
  moreover have "snd ` set ids = {i. ?N i \<noteq> None}"
  proof (intro equalityI subsetI)
    fix i assume "i \<in> {i. ?N i \<noteq> None}"
    then obtain nm r where "?N i = Some (nm, r)" by auto
    hence "(nm, i) \<in> set ids" using mem by blast
    thus "i \<in> snd ` set ids" by force
  qed (use mem in force)
  moreover have "card (set ids) = length ids" using d by (metis distinct_card distinct_map)
  ultimately show ?thesis by (metis card_image)
qed

lemma alloc_slot_full: "free = [] \<Longrightarrow> \<not> fits_u32 (length xs) \<Longrightarrow> alloc_slot xs free = None"
  by (simp add: alloc_slot_def)

lemma add_node_full:
  assumes "graph_inv g" "\<not> (g_node_free g = [] \<longrightarrow> fits_u32 (length (g_nodes g)))"
  shows "add_node nm g = None" "2 ^ 32 \<le> card {i. nview (g_nodes g) i \<noteq> None}"
  using assms node_count_view [OF assms(1)] by (simp_all add: add_node_def alloc_slot_full fits_u32_def not_less)

lemma add_edge_full:
  assumes "graph_inv g" "\<not> (g_edge_free g = [] \<longrightarrow> fits_u32 (length (g_edges g)))"
  shows "add_edge a b w x g = None" "2 ^ 32 \<le> edge_count g"
  using assms by (simp_all add: add_edge_def alloc_slot_full fits_u32_def not_less edge_count_def)

text \<open>A fresh node: unreachable, without edges, and nothing else changes.\<close>

lemma dinv_add_node:
  assumes d: "dinv d" and g': "graph_inv g'" "eview g' = EV d" "NV d i = None" "nview (g_nodes g') = (NV d)(i \<mapsto> (nm, False))"
    and new: "map_of (d_node_ids d) nm = None" and len: "length nm \<le> MAX_STRING"
  shows "dinv (d\<lparr>d_graph := g', d_node_ids := AList.update nm i (d_node_ids d), d_id6 := t6\<rparr>)"
proof -
  note D = dinvD [OF d]
  have N: "\<And>n j. map_of (d_node_ids d) n = Some j \<longleftrightarrow> (\<exists>r. NV d j = Some (n, r))" "NV d (d_myself d) = Some (d_name d, True)"
    using D(2) by (auto simp: names_agree_def)
  have im: "i \<noteq> d_myself d" using N(2) g'(3) by auto
  have "map_of (AList.update nm i (d_node_ids d)) n = Some j \<longleftrightarrow> (\<exists>r. ((NV d)(i \<mapsto> (nm, False))) j = Some (n, r))" for n j
    using N(1) [of n j] N(1) [of nm j] g'(3) new by (auto simp: update_conv)
  hence 2: "names_agree (d_myself d) (d_name d) (AList.update nm i (d_node_ids d)) ((NV d)(i \<mapsto> (nm, False)))"
    using D(2) len im by (simp add: names_agree_def distinct_update)
  have 3: "own_edges (d_myself d) (d_nodes d) (EV d) (CV d) ((NV d)(i \<mapsto> (nm, False)))"
    by (rule own_edges_names [OF D(3)]) (use g'(3) in auto)
  have "\<not> (two_way (EV d))\<^sup>*\<^sup>* (d_myself d) i" using two_way_live [OF D(1)] im g'(3) by blast
  hence 5: "reach_agrees (d_graph_dirty d) (d_myself d) (d_last_routes d) (EV d) ((NV d)(i \<mapsto> (nm, False)))"
    using D(5) by (auto simp: reach_agrees_def)
  show ?thesis using 2 3 5 D g' by (simp add: dinv_def)
qed

definition nodes_only :: "'g daemon \<Rightarrow> 'g daemon \<Rightarrow> bool" where
  "nodes_only d d' \<longleftrightarrow> d' = d\<lparr>d_graph := d_graph d', d_node_ids := d_node_ids d', d_id6 := d_id6 d'\<rparr>"

lemma nodes_only_eqs:
  assumes "nodes_only d d'"
  shows "d_conns d' = d_conns d" "d_myself d' = d_myself d" "d_name d' = d_name d" "d_nodes d' = d_nodes d"
    "d_settings d' = d_settings d" "d_now d' = d_now d" "d_subnets d' = d_subnets d" "d_mac_leases d' = d_mac_leases d"
    "d_mac_table d' = d_mac_table d" "d_edge_addrs d' = d_edge_addrs d" "d_graph_dirty d' = d_graph_dirty d"
    "d_last_routes d' = d_last_routes d" "d_tunnels d' = d_tunnels d" "d_my_udp_port d' = d_my_udp_port d"
  using assms by (cases d; cases d'; simp add: nodes_only_def)+

lemma lookup_or_add_node_runs:
  assumes d: "dinv d" and len: "length nm \<le> MAX_STRING"
    and room: "ok \<Longrightarrow> map_of (d_node_ids d) nm = None \<Longrightarrow> length (d_node_ids d) < 2 ^ 32"
  shows "runs ok (lookup_or_add_node P nm d) (\<lambda>(i, d'). dinv d' \<and> map_of (d_node_ids d') nm = Some i \<and> EV d' = EV d \<and> nodes_only d d' \<and>
    d_node_ids d' = (if map_of (d_node_ids d) nm = None then AList.update nm i (d_node_ids d) else d_node_ids d))"
proof (cases "map_of (d_node_ids d) nm")
  case (Some i)
  thus ?thesis using d by (simp add: lookup_or_add_node_def nodes_only_def)
next
  case new: None
  note D = dinvD [OF d]
  show ?thesis
  proof (cases "g_node_free (d_graph d) = [] \<longrightarrow> fits_u32 (length (g_nodes (d_graph d)))")
    case True
    have "NV d j \<noteq> Some (nm, r)" for j r using names_agreeD(2) [OF D(2), of nm j] new by auto
    then obtain i g1 where 1: "add_node nm (d_graph d) = Some (i, g1)" "graph_inv g1" "NV d i = None"
      "nview (g_nodes g1) = (NV d)(i \<mapsto> (nm, True))" "eview g1 = EV d"
      using True by (elim add_node_view [OF D(1), rotated 2]) blast+
    have "nview (g_nodes g1) i = Some (nm, True)" by (simp add: 1(4))
    then obtain g2 where 2: "set_reachable i False g1 = Some g2" "graph_inv g2" "eview g2 = EV d" "nview (g_nodes g2) = (NV d)(i \<mapsto> (nm, False))"
      using set_reachable_view [OF 1(2), of i nm True False] 1(4,5) by (metis fun_upd_upd)
    show ?thesis using dinv_add_node [OF d 2(2,3) 1(3) 2(4) new len] new 1(1) 2(1,3)
      by (simp add: lookup_or_add_node_def update_conv nodes_only_def)
  next
    case False
    have "\<not> ok" using room new add_node_full(2) [OF D(1) False] names_agree_length [OF D(1,2)] by fastforce
    thus ?thesis using new add_node_full(1) [OF D(1) False] by (simp add: lookup_or_add_node_def)
  qed
qed

section \<open>Edges of other nodes\<close>

lemma dinv_graph_edges:
  assumes d: "dinv d" and g': "graph_inv g'" "nview (g_nodes g') = NV d" "weights_in_range (eview g')" "addrs_live A (eview g')"
    and same: "\<And>e t w x. eview g' e = Some (d_myself d, t, w, x) \<longleftrightarrow> EV d e = Some (d_myself d, t, w, x)"
  shows "dinv (d\<lparr>d_graph := g', d_edge_addrs := A, d_graph_dirty := True\<rparr>)"
proof -
  note D = dinvD [OF d]
  have "own_edges (d_myself d) (d_nodes d) (eview g') (CV d) (NV d)"
  proof (rule own_edgesI)
    fix t ns assume t: "d_nodes d t = Some ns"
    show "NV d t \<noteq> None \<and> (ns_edge ns = None \<longrightarrow> ns_conn ns = None)" using own_edgesD(1,2) [OF D(3) t] by simp
    show "eview g' e = Some (d_myself d, t, ns_edge_weight ns, ns_edge_options ns) \<and>
        (\<exists>i nm r w. ns_conn ns = Some i \<and> CV d i = Some (nm, True, w) \<and> NV d t = Some (nm, r))" if "ns_edge ns = Some e" for e
      using own_edgesD(3,4) [OF D(3) t that] by (simp add: same)
  qed (use own_edgesD(5) [OF D(3)] same own_edgesD(6) [OF D(3)] in blast)+
  thus ?thesis using D g' by (simp add: dinv_def reach_agrees_def)
qed

lemma dinv_put_edge:
  assumes d: "dinv d" and g': "graph_inv g'" "nview (g_nodes g') = NV d" "eview g' = (EV d)(i \<mapsto> (a, b, w, x))"
    and i: "EV d i = None \<or> (\<exists>w' x'. EV d i = Some (a, b, w', x'))" and a: "a \<noteq> d_myself d" and w: "i32_range w"
    and l: "length ad \<le> MAX_STRING" "length p \<le> MAX_STRING" "length la \<le> MAX_STRING" "length lp \<le> MAX_STRING"
  shows "dinv (d\<lparr>d_graph := g', d_edge_addrs := (d_edge_addrs d)(i \<mapsto> (ad, p, la, lp)), d_graph_dirty := True\<rparr>)"
proof -
  note D = dinvD [OF d]
  have "addrs_live ((d_edge_addrs d)(i \<mapsto> (ad, p, la, lp))) (eview g')" using D(4) l by (auto simp: addrs_live_def g'(3))
  moreover have "weights_in_range (eview g')" using D(7) w by (auto simp: weights_in_range_def g'(3))
  moreover have "eview g' e = Some (d_myself d, t, w', x') \<longleftrightarrow> EV d e = Some (d_myself d, t, w', x')" for e t w' x'
    using i a by (auto simp: g'(3))
  ultimately show ?thesis using dinv_graph_edges [OF d g'(1,2)] by blast
qed

lemma drop_edge_runs:
  assumes d: "dinv d" and e: "EV d e = Some (a, b, w, x)" and a: "a \<noteq> d_myself d"
  obtains g' where "drop_edge e d = Some (d\<lparr>d_graph := g', d_edge_addrs := (d_edge_addrs d)(e := None)\<rparr>)" "graph_inv g'"
    "nview (g_nodes g') = NV d" "eview g' = (EV d)(e := None)"
    "dinv (d\<lparr>d_graph := g', d_edge_addrs := (d_edge_addrs d)(e := None), d_graph_dirty := True\<rparr>)"
proof -
  note D = dinvD [OF d]
  have "EV d e \<noteq> None" using e by simp
  from del_edge_view [OF D(1) this] obtain g' where g': "del_edge e (d_graph d) = Some (Some g')" "graph_inv g'"
    "eview g' = (EV d)(e := None)" "nview (g_nodes g') = NV d" .
  have "addrs_live ((d_edge_addrs d)(e := None)) (eview g')" using D(4) by (auto simp: addrs_live_def g'(3))
  moreover have "weights_in_range (eview g')" using D(7) by (auto simp: weights_in_range_def g'(3))
  moreover have "eview g' f = Some (d_myself d, t, w', x') \<longleftrightarrow> EV d f = Some (d_myself d, t, w', x')" for f t w' x'
    using e a by (auto simp: g'(3))
  ultimately show thesis using dinv_graph_edges [OF d g'(2,4)] g' by (intro that [of g']) (simp_all add: drop_edge_def)
qed

text \<open>An edge that leaves an unreachable node carries no reachability.\<close>

lemma two_way_drop:
  assumes e: "E e = Some (a, b, w, x)" and a: "\<not> (two_way E)\<^sup>*\<^sup>* m a"
  shows "(two_way (E(e := None)))\<^sup>*\<^sup>* m n \<longleftrightarrow> (two_way E)\<^sup>*\<^sup>* m n"
proof
  have "has_edge (E(e := None)) u v \<Longrightarrow> has_edge E u v" for u v unfolding has_edge_def fun_upd_apply by (metis option.distinct(1))
  hence "two_way (E(e := None)) \<le> two_way E" by (auto simp: two_way_def)
  thus "(two_way (E(e := None)))\<^sup>*\<^sup>* m n \<Longrightarrow> (two_way E)\<^sup>*\<^sup>* m n" using rtranclp_mono by blast
next
  assume "(two_way E)\<^sup>*\<^sup>* m n"
  thus "(two_way (E(e := None)))\<^sup>*\<^sup>* m n"
  proof (induction rule: rtranclp_induct)
    case (step u v)
    have "(two_way E)\<^sup>*\<^sup>* m v" using step(1,2) by simp
    hence "u \<noteq> a" "v \<noteq> a" using a step(1) by blast+
    moreover have "has_edge E p q \<Longrightarrow> p \<noteq> a \<Longrightarrow> has_edge (E(e := None)) p q" for p q using e unfolding has_edge_def fun_upd_apply by (metis Pair_inject option.inject)
    ultimately have "two_way (E(e := None)) u v" using step(2) by (simp add: two_way_def)
    thus ?case using step(3) by (simp only: rtranclp.rtrancl_into_rtrancl)
  qed simp
qed

lemma drop_edge_unreachable:
  assumes d: "dinv d" and e: "EV d e = Some (a, b, w, x)" and a: "\<not> node_reachable d a"
  obtains g' where "drop_edge e d = Some (d\<lparr>d_graph := g', d_edge_addrs := (d_edge_addrs d)(e := None)\<rparr>)"
    "eview g' = (EV d)(e := None)" "nview (g_nodes g') = NV d" "dinv (d\<lparr>d_graph := g', d_edge_addrs := (d_edge_addrs d)(e := None)\<rparr>)"
proof -
  note D = dinvD [OF d]
  obtain nm r where n: "NV d a = Some (nm, r)" using eview_live [OF D(1) e] by auto
  hence r: "\<not> r" using a nview_get_node [OF n] by (auto simp: node_reachable_def)
  have am: "a \<noteq> d_myself d" using n r names_agreeD(3) [OF D(2)] by auto
  obtain g' where g': "drop_edge e d = Some (d\<lparr>d_graph := g', d_edge_addrs := (d_edge_addrs d)(e := None)\<rparr>)"
    "nview (g_nodes g') = NV d" "eview g' = (EV d)(e := None)"
    "dinv (d\<lparr>d_graph := g', d_edge_addrs := (d_edge_addrs d)(e := None), d_graph_dirty := True\<rparr>)"
    by (rule drop_edge_runs [OF d e am])
  have "reach_agrees (d_graph_dirty d) (d_myself d) (d_last_routes d) (eview g') (nview (g_nodes g'))"
  proof (cases "d_graph_dirty d")
    case False
    hence R: "\<And>n nm r. NV d n = Some (nm, r) \<Longrightarrow> r = (two_way (EV d))\<^sup>*\<^sup>* (d_myself d) n"
      "\<And>n. n \<noteq> d_myself d \<Longrightarrow> slot (d_last_routes d) n \<noteq> None \<longleftrightarrow> (two_way (EV d))\<^sup>*\<^sup>* (d_myself d) n"
      using D(5) unfolding reach_agrees_def by blast+
    have "\<not> (two_way (EV d))\<^sup>*\<^sup>* (d_myself d) a" using R(1) [OF n] r by simp
    from two_way_drop [of "EV d" e, OF e this] show ?thesis using R unfolding reach_agrees_def g'(2,3) by simp
  qed (simp add: reach_agrees_def)
  hence "dinv (d\<lparr>d_graph := g', d_edge_addrs := (d_edge_addrs d)(e := None)\<rparr>)" using g'(4) by (simp add: dinv_def)
  thus thesis using g' by (intro that [of g']) simp_all
qed

section \<open>Recomputing\<close>

definition hushed :: "'g daemon \<Rightarrow> 'g daemon \<Rightarrow> bool" where
  "hushed d d' \<longleftrightarrow> d' = d\<lparr>d_tunnels := d_tunnels d', d_effects := d_effects d', d_device_enabled := d_device_enabled d',
     d_tunnel_handles := d_tunnel_handles d', d_tx_snap := d_tx_snap d'\<rparr>"

lemma hushed_intros [runs_rules]:
  "hushed d d" "hushed d d' \<Longrightarrow> hushed d (d'\<lparr>d_tunnels := tn\<rparr>)" "hushed d d' \<Longrightarrow> hushed d (emit e d')"
  "hushed d d' \<Longrightarrow> hushed d (d'\<lparr>d_device_enabled := b\<rparr>)" "hushed d d' \<Longrightarrow> hushed d (d'\<lparr>d_tunnel_handles := hs\<rparr>)"
  "hushed d d' \<Longrightarrow> hushed d (d'\<lparr>d_tx_snap := sp\<rparr>)"
  by (simp_all add: hushed_def; cases d; cases d'; simp add: emit_def)+

lemma hushed_trans: "hushed a b \<Longrightarrow> hushed b c \<Longrightarrow> hushed a c"
  by (cases a; cases b; cases c) (simp add: hushed_def)

lemma hushed_fold: "(\<And>x d'. x \<in> set xs \<Longrightarrow> hushed d d' \<Longrightarrow> hushed d (f x d')) \<Longrightarrow> hushed d d' \<Longrightarrow> hushed d (fold f xs d')"
  by (induction xs arbitrary: d') auto

lemma hushed_scripts [runs_rules]:
  "hushed d d' \<Longrightarrow> hushed d (run_subnet_script up name s d')" "hushed d d' \<Longrightarrow> hushed d (run_host_script up name a d')"
  "hushed d d' \<Longrightarrow> hushed d (device_enable d')" "hushed d d' \<Longrightarrow> hushed d (device_disable d')"
  "hushed d d' \<Longrightarrow> hushed d (tx_snap_refresh_graph d')" "hushed d d' \<Longrightarrow> hushed d (tx_snap_refresh_subnets d')"
  by (auto simp: run_subnet_script_def run_host_script_def device_enable_def device_disable_def tx_snap_refresh_graph_def
      tx_snap_refresh_subnets_def intro!: runs_rules)

lemma on_transition_quiet: "hushed d d' \<Longrightarrow> hushed d (on_transition t d')"
  by (cases t) (auto simp: Let_def split: option.splits intro!: runs_rules hushed_fold)

lemma hushed_eqs:
  assumes "hushed d d'"
  shows "d_graph d' = d_graph d" "d_node_ids d' = d_node_ids d" "d_myself d' = d_myself d" "d_name d' = d_name d"
    "d_nodes d' = d_nodes d" "d_edge_addrs d' = d_edge_addrs d" "d_graph_dirty d' = d_graph_dirty d"
    "d_last_routes d' = d_last_routes d" "d_subnets d' = d_subnets d" "d_settings d' = d_settings d" "d_conns d' = d_conns d"
    "d_seen d' = d_seen d" "d_now d' = d_now d" "d_mac_leases d' = d_mac_leases d" "d_rng d' = d_rng d"
    "d_my_udp_port d' = d_my_udp_port d"
  using assms by (cases d; cases d'; simp add: hushed_def)+

lemma dinv_quiet_eq: "hushed d d' \<Longrightarrow> dinv d' = dinv d"
  using hushed_eqs [of d d'] by (simp add: dinv_def CV_def [abs_def])

text \<open>The recomputation returns, restores the agreement, and leaves connections, names, edges and addresses alone.\<close>

definition regraphed :: "'g daemon \<Rightarrow> 'g daemon \<Rightarrow> bool" where
  "regraphed d d' \<longleftrightarrow> d_conns d' = d_conns d \<and> d_node_ids d' = d_node_ids d \<and> d_myself d' = d_myself d \<and> d_name d' = d_name d \<and>
     d_nodes d' = d_nodes d \<and> d_edge_addrs d' = d_edge_addrs d \<and> d_settings d' = d_settings d \<and> d_subnets d' = d_subnets d \<and>
     d_seen d' = d_seen d \<and> d_now d' = d_now d \<and> d_rng d' = d_rng d \<and> EV d' = EV d \<and> map_option fst \<circ> NV d' = map_option fst \<circ> NV d"

lemma run_graph_and_log_runs:
  assumes d: "dinv (d\<lparr>d_graph_dirty := True\<rparr>)"
  obtains d' where "run_graph_and_log d = Some d'" "dinv d'" "regraphed d d'" "\<not> d_graph_dirty d'"
proof -
  note D = dinvD [OF d, simplified]
  have m: "NV d (d_myself d) \<noteq> None" using names_agreeD(3) [OF D(2)] by simp
  obtain ts tree rt g' where r: "run_graph (d_myself d) (d_last_routes d) (d_graph d) = Some ((ts, tree, rt), g')"
    "graph_inv g'" "eview g' = EV d" "nview (g_nodes g') = reach_view (d_myself d) (EV d) (NV d)"
    "\<And>v. slot rt v \<noteq> None \<longleftrightarrow> (two_way (EV d))\<^sup>*\<^sup>* (d_myself d) v"
    by (rule run_graph_ok [OF D(1) m, where prev = "d_last_routes d"]) blast
  let ?d = "d\<lparr>d_graph_dirty := False, d_graph := g', d_last_routes := rt, d_last_mst := tree\<rparr>"
  define d2 where "d2 = fold on_transition ts ?d"
  define d3 where "d3 = (if s_device_standby (d_settings d2) \<and> d_device_enabled d2 \<and> \<not> any_reachable d2 then device_disable d2 else d2)"
  have q: "hushed ?d (tx_snap_refresh_graph d3)"
    unfolding d3_def d2_def by (auto intro!: runs_rules hushed_fold on_transition_quiet)
  have e: "run_graph_and_log d = Some (tx_snap_refresh_graph d3)"
    using r(1) by (simp add: run_graph_and_log_def d2_def d3_def Let_def)
  have nm: "map_option fst (nview (g_nodes g') n) = map_option fst (NV d n)" for n by (cases "NV d n") (auto simp: r(4) reach_view_def)
  have 2: "names_agree (d_myself d) (d_name d) (d_node_ids d) (nview (g_nodes g'))"
    by (rule names_agree_names [OF D(2) nm]) (simp add: r(4) reach_view_def)
  have 3: "own_edges (d_myself d) (d_nodes d) (EV d) (CV d) (nview (g_nodes g'))"
    by (rule own_edges_names [OF D(3)]) (auto simp: r(4) reach_view_def)
  have 5: "reach_agrees False (d_myself d) rt (EV d) (nview (g_nodes g'))"
    using r(5) names_agreeD(3) [OF D(2)] unfolding reach_agrees_def r(4) reach_view_def by (auto split: if_splits)
  have "dinv ?d" using D 2 3 5 r(2,3) by (simp add: dinv_def)
  moreover have "regraphed d (tx_snap_refresh_graph d3)"
    unfolding regraphed_def hushed_eqs [OF q] using r(3) nm by (simp add: fun_eq_iff)
  ultimately show thesis using e dinv_quiet_eq [OF q] hushed_eqs(7) [OF q] by (intro that) simp_all
qed

end
