(* ===== verification/Gossip_Safe.thy ===== *)
theory Gossip_Safe
  imports Gossip_Inv
begin

text \<open>
  Flooded gossip is safe: each handler of \<open>edges.rs\<close>, \<open>subnets.rs\<close> and \<open>keys.rs\<close> returns on every body that
  fits a record, keeps the invariant, and leaves what this node says about itself alone.
\<close>

section \<open>Lines fit a record\<close>

lemma length_hex32: "n < 2 ^ 32 \<Longrightarrow> length (show_hex n) \<le> 8"
  using length_show_radix [of 16 n 7] by (simp add: show_hex_def)

lemma length_i32: "i32_range w \<Longrightarrow> length (show_int w) \<le> 11"
  using length_show_radix [of 10 "nat w" 9] length_show_radix [of 10 "nat (- w)" 9]
  by (cases "w < 0") (auto simp: show_int_def i32_range_def nat_less_iff)

lemma length_request: "length (show_request r) \<le> 2"
proof -
  have "request_no r < 100" by (cases r) simp_all
  thus ?thesis using length_show_radix [of 10 "request_no r" 1] by (simp add: show_request_def show_int_def)
qed

lemma nonce_less: "nonce P d = (n, d') \<Longrightarrow> n < 2 ^ 32"
proof -
  assume "nonce P d = (n, d')"
  then obtain bs :: bytes where n: "n = foldr (\<lambda>b n. unat b + 256 * n) (take 4 bs) 0"
    by (auto simp: nonce_def split: prod.splits)
  have "foldr (\<lambda>b n. unat b + 256 * n) (xs :: bytes) 0 < 256 ^ length xs" for xs
  proof (induction xs)
    case (Cons b xs)
    have "unat b < 256" using unsigned_less [of b, where 'a = nat] by simp
    thus ?case using Cons by simp
  qed simp
  from this [of "take 4 bs"] have "n < 256 ^ length (take 4 bs)" by (simp add: n)
  also have "\<dots> \<le> 256 ^ 4" by (rule power_increasing) simp_all
  finally show ?thesis by simp
qed

lemma nonce_sent: "nonce P d = (n, d') \<Longrightarrow> sent d d' \<and> ready k cid d' = ready k cid d"
  by (auto simp: nonce_def sent_rng split: prod.splits)

lemma fmt_add_edge_length:
  assumes d: "dinv d" and l: "fmt_add_edge e n d = Some line" and n: "n < 2 ^ 32"
  shows "length line < 65535"
proof -
  note D = dinvD [OF d]
  obtain ed a p la lp f t where x: "get_edge (d_graph d) e = Some ed" "d_edge_addrs d e = Some (a, p, la, lp)"
    "get_node (d_graph d) (ge_from ed) = Some f" "get_node (d_graph d) (ge_to ed) = Some t"
    "line = add_edge_format n \<lparr>ae_from = gn_name f, ae_to = gn_name t, ae_addr = a, ae_port = p, ae_options = unat (ge_options ed),
        ae_weight = ge_weight ed, ae_local = (if la = UNSPEC then None else Some (la, lp))\<rparr>"
    using l by (auto simp: fmt_add_edge_def bind_eq_Some_conv)
  have "length a \<le> MAX_STRING" "length p \<le> MAX_STRING" "length la \<le> MAX_STRING" "length lp \<le> MAX_STRING"
    using D(4) x(2) unfolding addrs_live_def by blast+
  moreover have "length (gn_name f) \<le> MAX_STRING" "length (gn_name t) \<le> MAX_STRING"
    using names_agreeD(4) [OF D(2) get_node_nview] x(3,4) by blast+
  moreover have "EV d e = Some (ge_from ed, ge_to ed, ge_weight ed, ge_options ed)" using x(1) by (simp add: eview_def get_edge_def)
  hence "i32_range (ge_weight ed)" using D(7) unfolding weights_in_range_def by blast
  hence "length (show_int (ge_weight ed)) \<le> 11" by (rule length_i32)
  moreover have "length (show_hex (unat (ge_options ed))) \<le> 8"
    using length_hex32 [of "unat (ge_options ed)"] unsigned_less [of "ge_options ed", where 'a = nat] by simp
  moreover have "length (show_request AddEdge) \<le> 2" by (rule length_request)
  ultimately show ?thesis using length_hex32 [OF n] by (auto simp: x(5) add_edge_format_def MAX_STRING_def)
qed

lemma del_edge_format_length:
  "n < 2 ^ 32 \<Longrightarrow> length a \<le> MAX_STRING \<Longrightarrow> length b \<le> MAX_STRING \<Longrightarrow> length (del_edge_format n \<lparr>de_from = a, de_to = b\<rparr>) < 65535"
  using length_hex32 [of n] length_request [of DelEdge] by (simp add: del_edge_format_def MAX_STRING_def)

lemma subnet_format_length:
  "n < 2 ^ 32 \<Longrightarrow> length a \<le> MAX_STRING \<Longrightarrow> subnet_ok s \<Longrightarrow> length (subnet_msg_format r n \<lparr>sm_owner = a, sm_subnet = s\<rparr>) < 65535"
  using length_hex32 [of n] length_request [of r] token_show_subnet [of s]
  by (simp add: subnet_msg_format_def MAX_STRING_def token_def)

section \<open>Answers to one peer\<close>

definition here :: "nat \<Rightarrow> 'g daemon \<Rightarrow> bool" where
  "here cid d \<longleftrightarrow> map_of (d_conns d) cid \<noteq> None"

lemma send_add_edge_runs:
  assumes "dinv d" "ok \<Longrightarrow> ready (Suc k) cid d"
  shows "runs ok (send_add_edge P cid e d) (\<lambda>(nw, d'). sent d d' \<and> (ok \<longrightarrow> ready k cid d'))"
proof -
  obtain n d1 where n: "nonce P d = (n, d1)" by fastforce
  have d1: "sent d d1" "\<And>j. ready j cid d1 = ready j cid d" "dinv d1" using nonce_sent [OF n] dinv_sent [of d d1] assms(1) by auto
  have l: "length line < 65535" if "fmt_add_edge e n d1 = Some line" for line
    by (rule fmt_add_edge_length [OF d1(3) that nonce_less [OF n]])
  show ?thesis
  proof (cases "fmt_add_edge e n d1")
    case None
    thus ?thesis using n d1 assms(2) by (auto simp: send_add_edge_def intro: ready_mono)
  next
    case (Some line)
    have "runs ok (d_send P cid line d1) (\<lambda>(nw, d'). sent d1 d' \<and> (ok \<longrightarrow> ready k cid d'))"
      by (rule d_send_ready) (use assms(2) d1 l [OF Some] in auto)
    thus ?thesis using n Some d1(1) by (auto simp: send_add_edge_def elim!: runs_mono intro: sent_trans)
  qed
qed

lemma send_del_edge_runs:
  assumes "ok \<Longrightarrow> ready (Suc k) cid d" "length a \<le> MAX_STRING" "length b \<le> MAX_STRING"
  shows "runs ok (send_del_edge P cid a b d) (\<lambda>(nw, d'). sent d d' \<and> (ok \<longrightarrow> ready k cid d'))"
proof -
  obtain n d1 where n: "nonce P d = (n, d1)" by fastforce
  have d1: "sent d d1" "\<And>j. ready j cid d1 = ready j cid d" using nonce_sent [OF n] by auto
  have "runs ok (d_send P cid (del_edge_format n \<lparr>de_from = a, de_to = b\<rparr>) d1) (\<lambda>(nw, d'). sent d1 d' \<and> (ok \<longrightarrow> ready k cid d'))"
    by (rule d_send_ready) (use assms d1 del_edge_format_length [OF nonce_less [OF n]] in auto)
  thus ?thesis using n d1(1) by (auto simp: send_del_edge_def elim!: runs_mono intro: sent_trans)
qed

lemma send_subnet_runs:
  assumes "ok \<Longrightarrow> ready (Suc k) cid d" "length a \<le> MAX_STRING" "subnet_ok s"
  shows "runs ok (send_subnet P cid r a s d) (\<lambda>(nw, d'). sent d d' \<and> (ok \<longrightarrow> ready k cid d'))"
proof -
  obtain n d1 where n: "nonce P d = (n, d1)" by fastforce
  have d1: "sent d d1" "\<And>j. ready j cid d1 = ready j cid d" using nonce_sent [OF n] by auto
  have "runs ok (d_send P cid (subnet_msg_format r n \<lparr>sm_owner = a, sm_subnet = s\<rparr>) d1) (\<lambda>(nw, d'). sent d1 d' \<and> (ok \<longrightarrow> ready k cid d'))"
    by (rule d_send_ready) (use assms d1 subnet_format_length [OF nonce_less [OF n]] in auto)
  thus ?thesis using n d1(1) by (auto simp: send_subnet_def elim!: runs_mono intro: sent_trans)
qed

section \<open>What gossip leaves alone\<close>

definition own_subnets :: "'g daemon \<Rightarrow> subnet set" where
  "own_subnets d = {s. (s, Some (d_name d)) \<in> entries (d_subnets d)}"

text \<open>The address stored for the edge to a peer of this node.\<close>

definition own_addr :: "'g daemon \<Rightarrow> nat \<Rightarrow> edge_addr option" where
  "own_addr d t = do { ns \<leftarrow> d_nodes d t; e \<leftarrow> ns_edge ns; d_edge_addrs d e }"

text \<open>Connections that differ in what a send may change only.\<close>

definition conns_like :: "'g daemon \<Rightarrow> 'g daemon \<Rightarrow> bool" where
  "conns_like d d' \<longleftrightarrow> map fst (d_conns d') = map fst (d_conns d) \<and>
     (\<forall>i. rel_option same_conn (map_of (d_conns d) i) (map_of (d_conns d') i))"

lemma conns_like_refl [simp]: "conns_like d d"
  by (simp add: conns_like_def option.rel_refl)

lemma conns_like_trans: "conns_like a b \<Longrightarrow> conns_like b c \<Longrightarrow> conns_like a c"
proof -
  assume ab: "conns_like a b" and bc: "conns_like b c"
  have "rel_option same_conn (map_of (d_conns a) i) (map_of (d_conns c) i)" for i
    using ab bc option.rel_transp [of same_conn] unfolding conns_like_def transp_def by (metis same_conn_trans)
  thus ?thesis using ab bc by (simp add: conns_like_def)
qed

lemma conns_like_eq: "d_conns b = d_conns a \<Longrightarrow> conns_like d b = conns_like d a"
  by (simp add: conns_like_def)

lemma conns_like_sent: "sent a b \<Longrightarrow> conns_like a b"
  by (simp add: conns_like_def sent_def)

definition gossiped :: "'g daemon \<Rightarrow> 'g daemon \<Rightarrow> bool" where
  "gossiped d d' \<longleftrightarrow> d_myself d' = d_myself d \<and> d_name d' = d_name d \<and> d_nodes d' = d_nodes d \<and> d_settings d' = d_settings d \<and>
     d_now d' = d_now d \<and> own_addr d' = own_addr d \<and> conns_like d d' \<and> own_subnets d' = own_subnets d \<and>
     length (d_node_ids d') \<le> max MAX_NODES (length (d_node_ids d)) \<and>
     edge_count (d_graph d') \<le> max MAX_EDGES (edge_count (d_graph d))"

lemma gossiped_sent: "sent a b \<Longrightarrow> gossiped d a \<Longrightarrow> gossiped d b"
proof -
  assume "sent a b" "gossiped d a"
  moreover from this have "own_subnets b = own_subnets a" "own_addr b = own_addr a" by (simp_all add: own_subnets_def own_addr_def [abs_def] sent_eqs)
  moreover have "conns_like d b" using conns_like_trans [OF _ conns_like_sent] calculation by (auto simp: gossiped_def)
  ultimately show ?thesis using sent_eqs [of a b] by (simp add: gossiped_def)
qed

lemma own_subnets_quiet [simp]:
  "own_subnets (d\<lparr>d_graph := g\<rparr>) = own_subnets d" "own_subnets (d\<lparr>d_edge_addrs := A\<rparr>) = own_subnets d"
  "own_subnets (d\<lparr>d_graph_dirty := b\<rparr>) = own_subnets d" "own_subnets (d\<lparr>d_seen := sn\<rparr>) = own_subnets d"
  "own_subnets (d\<lparr>d_node_ids := ids\<rparr>) = own_subnets d" "own_subnets (d\<lparr>d_id6 := t6\<rparr>) = own_subnets d"
  "own_subnets (d\<lparr>d_contradicting_add_edge := ca\<rparr>) = own_subnets d" "own_subnets (d\<lparr>d_contradicting_del_edge := cd\<rparr>) = own_subnets d"
  "own_subnets (d\<lparr>d_mac_table := mt\<rparr>) = own_subnets d" "own_subnets (d\<lparr>d_effects := ef\<rparr>) = own_subnets d"
  "own_subnets (d\<lparr>d_tx_snap := sp\<rparr>) = own_subnets d"
  by (simp_all add: own_subnets_def)

lemma own_addr_quiet [simp]:
  "own_addr (d\<lparr>d_graph := g\<rparr>) = own_addr d" "own_addr (d\<lparr>d_graph_dirty := b\<rparr>) = own_addr d" "own_addr (d\<lparr>d_seen := sn\<rparr>) = own_addr d"
  "own_addr (d\<lparr>d_id6 := t6\<rparr>) = own_addr d" "own_addr (d\<lparr>d_contradicting_add_edge := ca\<rparr>) = own_addr d"
  "own_addr (d\<lparr>d_contradicting_del_edge := cd\<rparr>) = own_addr d" "own_addr (d\<lparr>d_mac_table := mt\<rparr>) = own_addr d"
  "own_addr (d\<lparr>d_effects := ef\<rparr>) = own_addr d" "own_addr (d\<lparr>d_tx_snap := sp\<rparr>) = own_addr d" "own_addr (d\<lparr>d_subnets := t\<rparr>) = own_addr d"
  by (simp_all add: own_addr_def [abs_def])

lemma conns_like_quiet [simp]:
  "conns_like d (x\<lparr>d_graph := g\<rparr>) = conns_like d x" "conns_like d (x\<lparr>d_edge_addrs := A\<rparr>) = conns_like d x"
  "conns_like d (x\<lparr>d_graph_dirty := b\<rparr>) = conns_like d x" "conns_like d (x\<lparr>d_seen := sn\<rparr>) = conns_like d x" "conns_like d (x\<lparr>d_id6 := t6\<rparr>) = conns_like d x"
  "conns_like d (x\<lparr>d_contradicting_add_edge := ca\<rparr>) = conns_like d x" "conns_like d (x\<lparr>d_contradicting_del_edge := cd\<rparr>) = conns_like d x"
  "conns_like d (x\<lparr>d_mac_table := mt\<rparr>) = conns_like d x" "conns_like d (x\<lparr>d_effects := ef\<rparr>) = conns_like d x"
  "conns_like d (x\<lparr>d_tx_snap := sp\<rparr>) = conns_like d x" "conns_like d (x\<lparr>d_subnets := t\<rparr>) = conns_like d x"
  by (simp_all add: conns_like_def)

text \<open>Writing the address of an edge that does not leave this node leaves the own addresses alone.\<close>

lemma own_addr_other:
  assumes d: "dinv d" and e: "\<And>t w x. EV d e \<noteq> Some (d_myself d, t, w, x)" and x: "d_nodes x = d_nodes d" "d_edge_addrs x = d_edge_addrs d"
  shows "own_addr (x\<lparr>d_edge_addrs := (d_edge_addrs x)(e := v)\<rparr>) = own_addr x"
proof
  fix t
  have "f \<noteq> e" if "d_nodes d t = Some ns" "ns_edge ns = Some f" for ns f
    using own_edgesD(3) [OF dinvD(3) [OF d] that] e by auto
  thus "own_addr (x\<lparr>d_edge_addrs := (d_edge_addrs x)(e := v)\<rparr>) t = own_addr x t"
    using x by (cases "d_nodes d t") (auto simp: own_addr_def split: bind_splits)
qed

lemma gossiped_quiet [simp]:
  "gossiped d (x\<lparr>d_graph_dirty := b\<rparr>) = gossiped d x"
  "gossiped d (x\<lparr>d_seen := sn\<rparr>) = gossiped d x" "gossiped d (x\<lparr>d_id6 := t6\<rparr>) = gossiped d x"
  "gossiped d (x\<lparr>d_contradicting_add_edge := ca\<rparr>) = gossiped d x" "gossiped d (x\<lparr>d_contradicting_del_edge := cd\<rparr>) = gossiped d x"
  "gossiped d (x\<lparr>d_mac_table := mt\<rparr>) = gossiped d x" "gossiped d (x\<lparr>d_effects := ef\<rparr>) = gossiped d x"
  "gossiped d (x\<lparr>d_tx_snap := sp\<rparr>) = gossiped d x"
  by (simp_all add: gossiped_def)

lemma gossiped_refl [simp]: "gossiped d d"
  by (simp add: gossiped_def)

lemma gossiped_trans: "gossiped a b \<Longrightarrow> gossiped b c \<Longrightarrow> gossiped a c"
  using conns_like_trans [of a b c] by (auto simp: gossiped_def)

lemma gossiped_edge_addr:
  assumes "gossiped d x" "dinv y" "\<And>t w z. EV y e \<noteq> Some (d_myself y, t, w, z)" "d_nodes x = d_nodes y" "d_edge_addrs x = d_edge_addrs y"
  shows "gossiped d (x\<lparr>d_edge_addrs := (d_edge_addrs x)(e := v)\<rparr>)"
  using assms(1) own_addr_other [OF assms(2-5), of v] by (simp add: gossiped_def)

text \<open>What a handler for flooded gossip promises.\<close>

definition handled :: "bool \<Rightarrow> nat \<Rightarrow> nat \<Rightarrow> 'g daemon \<Rightarrow> (dispatch_error + bool) \<times> 'g daemon \<Rightarrow> bool" where
  "handled ok k cid d = (\<lambda>(r, d'). dinv d' \<and> gossiped d d' \<and> (ok \<longrightarrow> ready k cid d'))"

lemma handled_ok_result:
  assumes "runs ok m (\<lambda>(nw, d'). sent d1 d' \<and> (ok \<longrightarrow> ready k cid d'))" "dinv d1" "gossiped d d1"
  shows "runs ok (ok_result m) (handled ok k cid d)"
  using assms dinv_sent gossiped_sent unfolding ok_result_def handled_def
  by (intro runs_map) (auto elim!: runs_mono)

lemma flooded_prologue_runs:
  assumes "ok \<Longrightarrow> here cid d"
  shows "runs ok (flooded_prologue cid body about d) (\<lambda>(go, d'). \<exists>sn. d' = d\<lparr>d_seen := sn\<rparr>)"
proof -
  obtain dup d1 where s: "seen_request body d = (dup, d1)" by fastforce
  hence d1: "\<exists>sn. d1 = d\<lparr>d_seen := sn\<rparr>"
    by (auto simp: seen_request_def split: option.splits prod.splits intro: exI [of _ "d_seen d"])
  hence c: "d_conns d1 = d_conns d" "d_settings d1 = d_settings d" by auto
  show ?thesis
  proof (cases "map_of (d_conns d) cid")
    case None
    hence "\<not> ok" using assms by (auto simp: here_def)
    thus ?thesis using s d1 c None by (simp add: flooded_prologue_def)
  next
    case (Some x)
    then obtain rej where "tunnelserver_reject_indirect cid about d1 = Some rej" using c
      by (cases "s_tunnelserver (d_settings d)") (auto simp: tunnelserver_reject_indirect_def)
    thus ?thesis using s d1 c Some by (cases dup) (simp_all add: flooded_prologue_def)
  qed
qed

lemma flooded_runs:
  assumes "ok \<Longrightarrow> here cid d" "\<And>go sn. runs ok (f (go, d\<lparr>d_seen := sn\<rparr>)) Q"
  shows "runs ok (Option.bind (flooded_prologue cid body about d) f) Q"
  by (rule runs_seq [OF flooded_prologue_runs [OF assms(1)]]) (use assms(2) in auto)

lemma forward_unless_hub_runs:
  assumes "distinct (map fst (d_conns d))" "ok \<Longrightarrow> ready (Suc k) cid d" "ok \<Longrightarrow> length body < 65535"
  shows "runs ok (forward_unless_hub P cid body d) (\<lambda>(nw, d'). sent d d' \<and> (ok \<longrightarrow> ready k cid d'))"
  using forward_request_runs [OF assms] assms(2) ready_mono [of "Suc k" cid d k] by (auto simp: forward_unless_hub_def)

lemma ready_quiet [simp]:
  "ready k cid (d\<lparr>d_graph := g\<rparr>) = ready k cid d" "ready k cid (d\<lparr>d_edge_addrs := A\<rparr>) = ready k cid d"
  "ready k cid (d\<lparr>d_graph_dirty := b\<rparr>) = ready k cid d" "ready k cid (d\<lparr>d_seen := sn\<rparr>) = ready k cid d"
  "ready k cid (d\<lparr>d_node_ids := ids\<rparr>) = ready k cid d" "ready k cid (d\<lparr>d_id6 := t6\<rparr>) = ready k cid d"
  "ready k cid (d\<lparr>d_contradicting_add_edge := ca\<rparr>) = ready k cid d" "ready k cid (d\<lparr>d_contradicting_del_edge := cd\<rparr>) = ready k cid d"
  "ready k cid (d\<lparr>d_subnets := t\<rparr>) = ready k cid d" "ready k cid (d\<lparr>d_mac_table := mt\<rparr>) = ready k cid d"
  "ready k cid (d\<lparr>d_effects := ef\<rparr>) = ready k cid d" "ready k cid (d\<lparr>d_tx_snap := sp\<rparr>) = ready k cid d"
  by (simp_all add: ready_def)

lemma ready_conns: "d_conns d' = d_conns d \<Longrightarrow> ready k cid d' = ready k cid d"
  by (simp add: ready_def)

section \<open>ADD\_EDGE\<close>

lemma sent_dirty: "sent d d' \<Longrightarrow> sent (d\<lparr>d_graph_dirty := b\<rparr>) (d'\<lparr>d_graph_dirty := b\<rparr>)"
  by (cases d; cases d') (simp add: sent_def)

lemma add_edge_tail_runs:
  assumes d: "dinv d0" and m: "add_edge_ok m" and g': "graph_inv g'" "nview (g_nodes g') = NV d0" "eview g' = (EV d0)(i \<mapsto> (a, b, ae_weight m, x))"
    and i: "EV d0 i = None \<or> (\<exists>w' x'. EV d0 i = Some (a, b, w', x'))" and a: "a \<noteq> d_myself d0"
    and gs: "gossiped d (d0\<lparr>d_graph := g'\<rparr>)" and rd: "ok \<Longrightarrow> ready (Suc k) cid d0" "ok \<Longrightarrow> length body < 65535"
  shows "runs ok (add_edge_tail P cid body m i (d0\<lparr>d_graph := g'\<rparr>)) (handled ok k cid d)"
proof -
  obtain la lp where l: "(case ae_local m of None \<Rightarrow> (UNSPEC, UNSPEC) | Some l \<Rightarrow> l) = (la, lp)" by fastforce
  have ll: "length la \<le> MAX_STRING" "length lp \<le> MAX_STRING" "length (ae_addr m) \<le> MAX_STRING" "length (ae_port m) \<le> MAX_STRING" "i32_range (ae_weight m)"
    using l m by (auto simp: add_edge_ok_def pair_ok_def token_def UNSPEC_def MAX_STRING_def i32_range_def split: option.splits)
  let ?d = "d0\<lparr>d_graph := g', d_edge_addrs := (d_edge_addrs d0)(i \<mapsto> (ae_addr m, ae_port m, la, lp))\<rparr>"
  have inv: "dinv (?d\<lparr>d_graph_dirty := True\<rparr>)" using dinv_put_edge [OF d g' i a ll(5,3,4,1,2)] by simp
  have ds: "distinct (map fst (d_conns ?d))" using dinv_conn_keys [OF d] by simp
  have "EV d0 i \<noteq> Some (d_myself d0, t, w', z)" for t w' z using i a by auto
  from gossiped_edge_addr [OF gs d this] have "gossiped d ?d" by simp
  hence fin: "handled ok k cid d (Inr nw, d'\<lparr>d_graph_dirty := True\<rparr>)" if "sent ?d d'" "ok \<longrightarrow> ready k cid d'" for nw d'
    using that dinv_sent [OF sent_dirty [OF that(1)], of True] inv gossiped_sent [OF that(1)]
    by (simp add: handled_def)
  have "runs ok (forward_unless_hub P cid body ?d) (\<lambda>(nw, d'). sent ?d d' \<and> (ok \<longrightarrow> ready k cid d'))"
    by (rule forward_unless_hub_runs [OF ds]) (use rd in simp_all)
  thus ?thesis using l fin by (auto simp: add_edge_tail_def elim!: runs_seq)
qed

lemma add_edge_known_runs:
  assumes d: "dinv d0" and m: "add_edge_ok m" and e: "EV d0 i = Some (a, b, w, x)" and gs: "gossiped d d0"
    and rd: "ok \<Longrightarrow> ready (Suc k) cid d0" "ok \<Longrightarrow> length body < 65535"
  shows "runs ok (add_edge_known P cid body m a i d0) (handled ok k cid d)"
proof -
  note D = dinvD [OF d]
  obtain ed where ed: "get_edge (d_graph d0) i = Some ed" using e by (auto simp: eview_def get_edge_def)
  obtain g' where g': "update_edge i (ae_weight m) (of_nat (ae_options m)) (d_graph d0) = Some (Some g')" "graph_inv g'"
    "eview g' = (EV d0)(i \<mapsto> (a, b, ae_weight m, of_nat (ae_options m)))" "nview (g_nodes g') = NV d0"
    by (rule update_edge_view [OF D(1) e])
  have "{j. eview g' j \<noteq> None} = {j. EV d0 j \<noteq> None}" using e by (auto simp: g'(3))
  hence "edge_count g' = edge_count (d_graph d0)" by (simp add: edge_count_view g'(2) D(1))
  hence gs': "gossiped d (d0\<lparr>d_graph := g'\<rparr>)" using gs by (simp add: gossiped_def)
  have "runs ok (ok_result (send_add_edge P cid i d0)) (handled ok k cid d)"
    by (rule handled_ok_result [OF send_add_edge_runs [OF d rd(1)] d gs])
  moreover have "runs ok (add_edge_tail P cid body m i (d0\<lparr>d_graph := g'\<rparr>)) (handled ok k cid d)" if "a \<noteq> d_myself d0"
    by (rule add_edge_tail_runs [OF d m g'(2,4,3) _ that gs' rd]) (use e in auto)
  moreover have "handled ok k cid d (Inr False, d0)" using d gs rd(1) by (auto simp: handled_def intro: ready_mono)
  ultimately show ?thesis using ed g'(1) by (simp add: add_edge_known_def)
qed

lemma add_edge_new_runs:
  assumes d: "dinv d0" and m: "add_edge_ok m" and n: "NV d0 a \<noteq> None" "NV d0 b \<noteq> None" "\<And>i w x. EV d0 i \<noteq> Some (a, b, w, x)"
    and room: "edge_count (d_graph d0) < MAX_EDGES" and gs: "gossiped d d0" and rd: "ok \<Longrightarrow> ready (Suc k) cid d0" "ok \<Longrightarrow> length body < 65535"
  shows "runs ok (add_edge_new P cid body m a b d0) (handled ok k cid d)"
proof -
  note D = dinvD [OF d]
  let ?c = "d0\<lparr>d_contradicting_add_edge := d_contradicting_add_edge d0 + 1\<rparr>"
  have names: "length (ae_from m) \<le> MAX_STRING" "length (ae_to m) \<le> MAX_STRING" using m by (auto simp: add_edge_ok_def name_ok_def)
  have "runs ok (ok_result (send_del_edge P cid (ae_from m) (ae_to m) ?c)) (handled ok k cid d)"
    by (rule handled_ok_result [OF send_del_edge_runs [OF _ names]]) (use d gs rd(1) in simp_all)
  moreover have "runs ok (do { (eid, g) \<leftarrow> add_edge a b (ae_weight m) (of_nat (ae_options m)) (d_graph d0);
      add_edge_tail P cid body m eid (d0\<lparr>d_graph := g\<rparr>) }) (handled ok k cid d)" if a: "a \<noteq> d_myself d0"
  proof -
    have "g_edge_free (d_graph d0) = [] \<Longrightarrow> fits_u32 (length (g_edges (d_graph d0)))"
      using room by (simp add: edge_count_def fits_u32_def MAX_EDGES_def MAX_NODES_def)
    then obtain i g' where g': "add_edge a b (ae_weight m) (of_nat (ae_options m)) (d_graph d0) = Some (i, g')" "graph_inv g'" "EV d0 i = None"
      "eview g' = (EV d0)(i \<mapsto> (a, b, ae_weight m, of_nat (ae_options m)))" "nview (g_nodes g') = NV d0"
      by (rule add_edge_view [OF D(1) _ n])
    have "{j. eview g' j \<noteq> None} = insert i {j. EV d0 j \<noteq> None}" by (auto simp: g'(4))
    moreover have "i \<notin> {j. EV d0 j \<noteq> None}" using g'(3) by simp
    ultimately have "edge_count g' = Suc (edge_count (d_graph d0))"
      using card_insert_disjoint [OF finite_eview, of i "d_graph d0"] edge_count_view [OF g'(2)] edge_count_view [OF D(1)] by presburger
    hence "gossiped d (d0\<lparr>d_graph := g'\<rparr>)" using gs room by (simp add: gossiped_def)
    from add_edge_tail_runs [OF d m g'(2,5,4) _ a this rd] show ?thesis using g'(1,3) by simp
  qed
  ultimately show ?thesis by (simp add: add_edge_new_def)
qed

lemma length_update: "length (AList.update k v xs) = (if map_of xs k = None then Suc (length xs) else length xs)"
proof -
  have "map_of xs k = None \<longleftrightarrow> k \<notin> set (map fst xs)" by (simp add: map_of_eq_None_iff)
  thus ?thesis using arg_cong [OF update_keys [of k v xs], of length] by auto
qed

text \<open>A name of a message, known or new: the state after it differs in the graph's nodes and the tables of names only.\<close>

definition named :: "bool \<Rightarrow> nat \<Rightarrow> nat \<Rightarrow> 'g daemon \<Rightarrow> 'g daemon \<Rightarrow> string \<Rightarrow> nat \<times> 'g daemon \<Rightarrow> bool" where
  "named ok k cid d d0 nm = (\<lambda>(i, d'). dinv d' \<and> gossiped d d' \<and> map_of (d_node_ids d') nm = Some i \<and> EV d' = EV d0 \<and>
    (ok \<longrightarrow> ready k cid d') \<and> nodes_only d0 d' \<and>
    (\<forall>x. x \<noteq> nm \<longrightarrow> map_of (d_node_ids d') x = map_of (d_node_ids d0) x) \<and>
    length (d_node_ids d') = length (d_node_ids d0) + of_bool (map_of (d_node_ids d0) nm = None))"

lemma lookup_or_add_gossip:
  assumes d: "dinv d0" and nm: "name_ok nm" and room: "map_of (d_node_ids d0) nm = None \<Longrightarrow> length (d_node_ids d0) < MAX_NODES"
    and gs: "gossiped d d0" and rd: "ok \<Longrightarrow> ready k cid d0"
  shows "runs ok (lookup_or_add_node P nm d0) (named ok k cid d d0 nm)"
proof (rule runs_mono [OF lookup_or_add_node_runs [OF d]], goal_cases)
  case (3 x)
  obtain i d' where x: "x = (i, d')" by fastforce
  have d': "dinv d'" "map_of (d_node_ids d') nm = Some i" "EV d' = EV d0" "nodes_only d0 d'"
    "d_node_ids d' = (if map_of (d_node_ids d0) nm = None then AList.update nm i (d_node_ids d0) else d_node_ids d0)"
    using 3 unfolding x prod.case by blast+
  note f = nodes_only_eqs [OF d'(4)]
  have e: "edge_count (d_graph d') = edge_count (d_graph d0)" using d'(3) by (simp add: edge_count_view dinvD(1) d d'(1))
  have l: "length (d_node_ids d') = length (d_node_ids d0) + of_bool (map_of (d_node_ids d0) nm = None)"
    using d'(5) by (simp add: length_update)
  hence "length (d_node_ids d') \<le> max MAX_NODES (length (d_node_ids d))" using room gs by (auto simp: gossiped_def)
  moreover have "own_addr d' = own_addr d0" "own_subnets d' = own_subnets d0" using f by (simp_all add: own_addr_def [abs_def] own_subnets_def)
  moreover have "conns_like d d'" using gs conns_like_eq [OF f(1)] by (simp add: gossiped_def)
  ultimately have g: "gossiped d d'" using gs e f by (simp add: gossiped_def)
  have "map_of (d_node_ids d') x = map_of (d_node_ids d0) x" if "x \<noteq> nm" for x using d'(5) that by (simp add: update_conv)
  moreover have "ok \<longrightarrow> ready k cid d'" using rd ready_conns [OF f(1)] by simp
  ultimately show ?case unfolding named_def x prod.case using d'(1-4) g l by blast
next
  case 1
  show ?case using nm by (simp add: name_ok_def)
next
  case 2
  thus ?case using room by (simp add: MAX_NODES_def)
qed

lemma map_of_live: "dinv d \<Longrightarrow> map_of (d_node_ids d) nm = Some i \<Longrightarrow> NV d i \<noteq> None"
  using names_agreeD(2) [OF dinvD(2)] by fastforce

lemma parse_body_Inr: "parse_body body err p = Inr m \<Longrightarrow> \<exists>s. from_utf8 body = Some s \<and> p s = Some m"
  by (auto simp: parse_body_def split: option.splits)

lemma stop_handled: "dinv d' \<Longrightarrow> gossiped d d' \<Longrightarrow> (ok \<Longrightarrow> ready (Suc k) cid d') \<Longrightarrow> handled ok k cid d (r, d')"
  by (auto simp: handled_def intro: ready_mono)

lemma add_edge_found_runs:
  assumes d: "dinv d0" and m: "add_edge_ok m" and gs: "gossiped d d0" and rd: "ok \<Longrightarrow> ready (Suc k) cid d0" "ok \<Longrightarrow> length body < 65535"
    and ids: "map_of (d_node_ids d0) (ae_from m) = Some fid" "map_of (d_node_ids d0) (ae_to m) = Some tid"
  shows "runs ok (do { found \<leftarrow> lookup_edge (d_graph d0) fid tid;
      if found = None \<and> MAX_EDGES \<le> edge_count (d_graph d0) then Some (Inr False, d0)
      else case found of Some existing \<Rightarrow> add_edge_known P cid body m fid existing d0
        | None \<Rightarrow> add_edge_new P cid body m fid tid d0 }) (handled ok k cid d)"
proof -
  have live: "NV d0 fid \<noteq> None" "NV d0 tid \<noteq> None" using map_of_live [OF d] ids by blast+
  from lookup_edge_view [OF dinvD(1) [OF d] live] obtain r where
    r: "lookup_edge (d_graph d0) fid tid = Some r" "\<And>i. r = Some i \<longleftrightarrow> (\<exists>w x. EV d0 i = Some (fid, tid, w, x))" by blast
  show ?thesis
  proof (cases r)
    case None
    have n: "EV d0 i \<noteq> Some (fid, tid, w, x)" for i w x using r(2) [of i] None by auto
    show ?thesis using None r(1) stop_handled [OF d gs rd(1)] add_edge_new_runs [OF d m live n _ gs rd]
      by (auto simp: not_le)
  next
    case (Some i)
    then obtain w x0 where "EV d0 i = Some (fid, tid, w, x0)" using r(2) by blast
    from add_edge_known_runs [OF d m this gs rd] show ?thesis using Some r(1) by auto
  qed
qed

lemma add_edge_resolved_runs:
  assumes d: "dinv d0" and m: "add_edge_ok m" and gs: "gossiped d d0" and rd: "ok \<Longrightarrow> ready (Suc k) cid d0" "ok \<Longrightarrow> length body < 65535"
    and room: "0 < new_names [ae_from m, ae_to m] d0 \<Longrightarrow> length (d_node_ids d0) + new_names [ae_from m, ae_to m] d0 \<le> MAX_NODES"
  shows "runs ok (add_edge_resolved P cid body m d0) (handled ok k cid d)"
proof -
  have nm: "name_ok (ae_from m)" "name_ok (ae_to m)" "ae_from m \<noteq> ae_to m" using m by (auto simp: add_edge_ok_def)
  have r1: "map_of (d_node_ids d0) (ae_from m) = None \<Longrightarrow> length (d_node_ids d0) < MAX_NODES" using room by (simp add: new_names_def)
  show ?thesis unfolding add_edge_resolved_def
  proof (rule runs_seq [OF lookup_or_add_gossip [where cid = cid, OF d nm(1) r1 gs rd(1)]], goal_cases)
    case (3 x)
    then obtain fid d2 where x: "x = (fid, d2)" and d2: "dinv d2" "gossiped d d2" "map_of (d_node_ids d2) (ae_from m) = Some fid"
      "ok \<longrightarrow> ready (Suc k) cid d2" "map_of (d_node_ids d2) (ae_to m) = map_of (d_node_ids d0) (ae_to m)"
      "length (d_node_ids d2) = length (d_node_ids d0) + of_bool (map_of (d_node_ids d0) (ae_from m) = None)"
      using nm(3) by (auto simp: named_def)
    have r2: "map_of (d_node_ids d2) (ae_to m) = None \<Longrightarrow> length (d_node_ids d2) < MAX_NODES"
      using room d2(5,6) by (simp add: new_names_def)
    have rd2: "ok \<Longrightarrow> ready (Suc k) cid d2" using d2(4) by blast
    show ?case unfolding x prod.case
    proof (rule runs_seq [OF lookup_or_add_gossip [where cid = cid, OF d2(1) nm(2) r2 d2(2) rd2]], goal_cases)
      case (3 x)
      then obtain tid d3 where x: "x = (tid, d3)" and d3: "dinv d3" "gossiped d d3" "map_of (d_node_ids d3) (ae_to m) = Some tid"
        "ok \<longrightarrow> ready (Suc k) cid d3" "map_of (d_node_ids d3) (ae_from m) = Some fid" using d2(3) nm(3) by (auto simp: named_def)
      show ?case unfolding x prod.case by (rule add_edge_found_runs [OF d3(1) m d3(2) _ rd(2) d3(5,3)]) (use d3(4) in blast)+
    qed auto
  qed auto
qed

lemma on_add_edge_runs:
  assumes d: "dinv d" and rd: "ok \<Longrightarrow> here cid d" "ok \<Longrightarrow> ready (Suc k) cid d" "ok \<Longrightarrow> length body < 65535"
  shows "runs ok (on_add_edge P cid body d) (handled ok k cid d)"
proof (cases "parse_add_edge body")
  case (Inl e)
  thus ?thesis using stop_handled [OF d _ rd(2)] by (simp add: on_add_edge_def)
next
  case (Inr m)
  then obtain l where "add_edge_parse l = Some m" using parse_body_Inr [of body BadEdge add_edge_parse m] by (auto simp: parse_add_edge_def)
  hence m: "add_edge_ok m" by (rule add_edge_parsed)
  show ?thesis unfolding on_add_edge_def Inr sum.case
  proof (rule flooded_runs [OF rd(1)], assumption)
    fix go sn
    define d0 where "d0 = d\<lparr>d_seen := sn\<rparr>"
    have 0: "dinv d0" "gossiped d d0" "ok \<Longrightarrow> ready (Suc k) cid d0" using d rd(2) by (simp_all add: d0_def)
    show "runs ok (case (go, d\<lparr>d_seen := sn\<rparr>) of (go, d) \<Rightarrow> let fresh = new_names [ae_from m, ae_to m] d
        in if go = None \<or> 0 < fresh \<and> MAX_NODES < length (d_node_ids d) + fresh then Some (Inr False, d)
           else add_edge_resolved P cid body m d) (handled ok k cid d)"
      unfolding d0_def [symmetric] prod.case Let_def
      using stop_handled [where ok = ok, OF 0] add_edge_resolved_runs [where ok = ok, OF 0(1) m 0(2,3) rd(3)] by (auto simp: not_less)
  qed
qed

section \<open>DEL\_EDGE\<close>

lemma gossiped_regraphed:
  assumes "regraphed d1 d2" "gossiped d d1" "graph_inv (d_graph d1)" "graph_inv (d_graph d2)"
  shows "gossiped d d2"
proof -
  have "conns_like d d2 = conns_like d d1" "own_addr d2 = own_addr d1" "own_subnets d2 = own_subnets d1"
    using assms(1) by (simp_all add: regraphed_def conns_like_def own_addr_def [abs_def] own_subnets_def)
  moreover have "edge_count (d_graph d2) = edge_count (d_graph d1)"
    using assms(1) by (simp add: edge_count_view assms(3,4) regraphed_def)
  ultimately show ?thesis using assms(1,2) by (simp add: gossiped_def regraphed_def)
qed

lemma gossiped_drop:
  assumes "gossiped d d1" "dinv d1" "graph_inv g'" "eview g' = (EV d1)(e := None)" "\<And>t w x. EV d1 e \<noteq> Some (d_myself d1, t, w, x)"
  shows "gossiped d (d1\<lparr>d_graph := g', d_edge_addrs := (d_edge_addrs d1)(e := None)\<rparr>)"
proof -
  have "{j. eview g' j \<noteq> None} \<subseteq> {j. EV d1 j \<noteq> None}" by (auto simp: assms(4))
  hence "edge_count g' \<le> edge_count (d_graph d1)" unfolding edge_count_view [OF dinvD(1) [OF assms(2)]] edge_count_view [OF assms(3)]
    by (rule card_mono [OF finite_eview])
  hence "gossiped d (d1\<lparr>d_graph := g'\<rparr>)" using assms(1) by (simp add: gossiped_def)
  from gossiped_edge_addr [OF this assms(2,5), of None] show ?thesis by simp
qed

text \<open>The reverse edge of a node that was cut off goes too, without another recomputation.\<close>

lemma drop_reverse_runs:
  assumes d: "dinv d1" and gs: "gossiped d d1" and t: "NV d1 tid \<noteq> None" and r: "\<not> node_reachable d1 tid" and rd: "ok \<Longrightarrow> ready k cid d1"
  shows "runs ok (do { rvs \<leftarrow> lookup_edge (d_graph d1) tid (d_myself d1); case rvs of None \<Rightarrow> Some d1 | Some back \<Rightarrow> drop_edge back d1 })
    (\<lambda>d'. dinv d' \<and> gossiped d d' \<and> (ok \<longrightarrow> ready k cid d'))"
proof -
  note D = dinvD [OF d]
  have m: "NV d1 (d_myself d1) \<noteq> None" using names_agreeD(3) [OF D(2)] by simp
  from lookup_edge_view [OF D(1) t m] obtain f where f: "lookup_edge (d_graph d1) tid (d_myself d1) = Some f"
    "\<And>i. f = Some i \<longleftrightarrow> (\<exists>w x. EV d1 i = Some (tid, d_myself d1, w, x))" by blast
  show ?thesis
  proof (cases f)
    case (Some b)
    then obtain w x where b: "EV d1 b = Some (tid, d_myself d1, w, x)" using f(2) by blast
    obtain g' where g': "drop_edge b d1 = Some (d1\<lparr>d_graph := g', d_edge_addrs := (d_edge_addrs d1)(b := None)\<rparr>)"
      "eview g' = (EV d1)(b := None)" "dinv (d1\<lparr>d_graph := g', d_edge_addrs := (d_edge_addrs d1)(b := None)\<rparr>)"
      by (rule drop_edge_unreachable [OF d b r])
    have "graph_inv g'" using dinvD(1) [OF g'(3)] by simp
    moreover have "node_reachable d1 (d_myself d1)" using names_agreeD(3) [OF D(2)] by (auto simp: node_reachable_def get_node_def nview_slot)
    hence "EV d1 b \<noteq> Some (d_myself d1, t', w', x')" for t' w' x' using b r by auto
    ultimately show ?thesis using g' f(1) Some gossiped_drop [OF gs d _ g'(2)] rd by simp
  qed (use f(1) d gs rd in simp)
qed

lemma del_edge_known_runs:
  assumes d: "dinv d0" and gs: "gossiped d d0" and e: "EV d0 eid = Some (fid, tid, w, x)" and f: "fid \<noteq> d_myself d0"
    and rd: "ok \<Longrightarrow> ready (Suc k) cid d0" "ok \<Longrightarrow> length body < 65535"
  shows "runs ok (del_edge_known P cid body eid tid d0) (handled ok k cid d)"
  unfolding del_edge_known_def
proof (rule runs_seq [OF forward_unless_hub_runs [where k = k, OF dinv_conn_keys [OF d] rd]], assumption, assumption, clarify)
  fix nw d1 assume s: "sent d0 d1" "ok \<longrightarrow> ready k cid d1"
  have d1: "dinv d1" "gossiped d d1" "EV d1 eid = Some (fid, tid, w, x)" "fid \<noteq> d_myself d1"
    using dinv_sent [OF s(1)] d gossiped_sent [OF s(1) gs] e f sent_eqs [OF s(1)] by simp_all
  obtain g' where g': "drop_edge eid d1 = Some (d1\<lparr>d_graph := g', d_edge_addrs := (d_edge_addrs d1)(eid := None)\<rparr>)" "graph_inv g'"
    "nview (g_nodes g') = NV d1" "eview g' = (EV d1)(eid := None)"
    "dinv (d1\<lparr>d_graph := g', d_edge_addrs := (d_edge_addrs d1)(eid := None), d_graph_dirty := True\<rparr>)"
    by (rule drop_edge_runs [OF d1(1,3,4)])
  define d2 where "d2 = d1\<lparr>d_graph := g', d_edge_addrs := (d_edge_addrs d1)(eid := None)\<rparr>"
  have gs2: "gossiped d d2" unfolding d2_def by (rule gossiped_drop [OF d1(2,1) g'(2,4)]) (use d1(3,4) in simp)
  have "dinv (d2\<lparr>d_graph_dirty := True\<rparr>)" using g'(5) by (simp add: d2_def)
  then obtain d3 where d3: "run_graph_and_log d2 = Some d3" "dinv d3" "regraphed d2 d3" "\<not> d_graph_dirty d3"
    by (rule run_graph_and_log_runs)
  have gs3: "gossiped d d3" using gossiped_regraphed [OF d3(3) gs2 _ dinvD(1) [OF d3(2)]] g'(2) by (simp add: d2_def)
  have rd3: "ok \<Longrightarrow> ready k cid d3" using s(2) d3(3) by (simp add: regraphed_def d2_def ready_def)
  have "NV d1 tid \<noteq> None" using eview_live [OF dinvD(1) [OF d1(1)] d1(3)] by simp
  hence t: "NV d3 tid \<noteq> None" using d3(3) g'(3) unfolding regraphed_def d2_def by (auto simp: fun_eq_iff dest!: spec [of _ tid])
  have "runs ok (do { d' \<leftarrow> (if node_reachable d3 tid then Some d3 else do { rvs \<leftarrow> lookup_edge (d_graph d3) tid (d_myself d3);
      case rvs of None \<Rightarrow> Some d3 | Some back \<Rightarrow> drop_edge back d3 }); Some (Inr nw, d') }) (handled ok k cid d)"
  proof (cases "node_reachable d3 tid")
    case False
    show ?thesis using False runs_seq [OF drop_reverse_runs [where ok = ok and k = k and cid = cid, OF d3(2) gs3 t False rd3],
        of "\<lambda>d'. Some (Inr nw, d')" "handled ok k cid d"] by (simp add: handled_def)
  qed (use d3(2) gs3 rd3 in \<open>simp add: handled_def\<close>)
  thus "runs ok (do { d \<leftarrow> drop_edge eid d1; d \<leftarrow> run_graph_and_log d;
      d \<leftarrow> (if node_reachable d tid then Some d else do { rvs \<leftarrow> lookup_edge (d_graph d) tid (d_myself d);
        case rvs of None \<Rightarrow> Some d | Some back \<Rightarrow> drop_edge back d });
      Some (Inr nw, d) }) (handled ok k cid d)" using g'(1) d3(1) by (simp add: d2_def)
qed

lemma on_del_edge_runs:
  assumes d: "dinv d" and rd: "ok \<Longrightarrow> here cid d" "ok \<Longrightarrow> ready (Suc k) cid d" "ok \<Longrightarrow> length body < 65535"
  shows "runs ok (on_del_edge P cid body d) (handled ok k cid d)"
proof (cases "parse_del_edge body")
  case (Inl e)
  thus ?thesis using stop_handled [OF d _ rd(2)] by (simp add: on_del_edge_def)
next
  case (Inr m)
  show ?thesis unfolding on_del_edge_def Inr sum.case
  proof (rule flooded_runs [OF rd(1)], assumption)
    fix go sn
    define d0 where "d0 = d\<lparr>d_seen := sn\<rparr>"
    have 0: "dinv d0" "gossiped d d0" "ok \<Longrightarrow> ready (Suc k) cid d0" using d rd(2) by (simp_all add: d0_def)
    note stop = stop_handled [where ok = ok, OF 0, of "Inr False"]
    have found: "runs ok (do { found \<leftarrow> lookup_edge (d_graph d0) fid tid; case found of None \<Rightarrow> Some (Inr False, d0)
      | Some eid \<Rightarrow> if fid = d_myself d0
          then ok_result (send_add_edge P cid eid (d0\<lparr>d_contradicting_del_edge := d_contradicting_del_edge d0 + 1\<rparr>))
          else del_edge_known P cid body eid tid d0 }) (handled ok k cid d)"
      if ids: "map_of (d_node_ids d0) (de_from m) = Some fid" "map_of (d_node_ids d0) (de_to m) = Some tid" for fid tid
    proof -
      have live: "NV d0 fid \<noteq> None" "NV d0 tid \<noteq> None" using map_of_live [OF 0(1)] ids by blast+
      from lookup_edge_view [OF dinvD(1) [OF 0(1)] live] obtain r where
        r: "lookup_edge (d_graph d0) fid tid = Some r" "\<And>i. r = Some i \<longleftrightarrow> (\<exists>w x. EV d0 i = Some (fid, tid, w, x))" by blast
      show ?thesis
      proof (cases r)
        case (Some i)
        then obtain w x where e: "EV d0 i = Some (fid, tid, w, x)" using r(2) by blast
        let ?c = "d0\<lparr>d_contradicting_del_edge := d_contradicting_del_edge d0 + 1\<rparr>"
        have "runs ok (ok_result (send_add_edge P cid i ?c)) (handled ok k cid d)"
          by (rule handled_ok_result [OF send_add_edge_runs]) (use 0 in simp_all)
        thus ?thesis using Some r(1) del_edge_known_runs [where ok = ok, OF 0(1,2) e _ 0(3) rd(3)] by simp
      qed (use r(1) stop in simp)
    qed
    show "runs ok (case (go, d\<lparr>d_seen := sn\<rparr>) of (go, d) \<Rightarrow>
        case (go, map_of (d_node_ids d) (de_from m), map_of (d_node_ids d) (de_to m)) of
          (Some _, Some fid, Some tid) \<Rightarrow> do { found \<leftarrow> lookup_edge (d_graph d) fid tid; case found of None \<Rightarrow> Some (Inr False, d)
            | Some eid \<Rightarrow> if fid = d_myself d
                then ok_result (send_add_edge P cid eid (d\<lparr>d_contradicting_del_edge := d_contradicting_del_edge d + 1\<rparr>))
                else del_edge_known P cid body eid tid d }
        | _ \<Rightarrow> Some (Inr False, d)) (handled ok k cid d)"
      unfolding d0_def [symmetric] prod.case
      using stop found by (cases go; cases "map_of (d_node_ids d0) (de_from m)"; cases "map_of (d_node_ids d0) (de_to m)") simp_all
  qed
qed

section \<open>Subnets\<close>

lemma forward_handled:
  assumes d: "dinv d0" and gs: "gossiped d d0" and rd: "ok \<Longrightarrow> ready (Suc k) cid d0" "ok \<Longrightarrow> length body < 65535"
  shows "runs ok (ok_result (forward_request P cid body d0)) (handled ok k cid d)"
  by (rule handled_ok_result [OF forward_request_runs [OF dinv_conn_keys [OF d] rd] d gs])

lemma own_subnets_other:
  assumes "tree_ok t" "subnet_ok s" "o' \<noteq> me"
  shows "(x, Some me) \<in> entries (tree_add s o' t) \<longleftrightarrow> (x, Some me) \<in> entries t"
    "(x, Some me) \<in> entries (snd (tree_del s o' t)) \<longleftrightarrow> (x, Some me) \<in> entries t"
  using tree_insert_ok [OF assms(1,2), of "Some o'"] tree_remove_ok [OF assms(1,2), of "Some o'"] assms(3)
  by (auto simp: tree_add_def tree_del_def)

lemma gossiped_subnets: "gossiped d d0 \<Longrightarrow> (\<And>x. (x, Some (d_name d0)) \<in> entries t \<longleftrightarrow> (x, Some (d_name d0)) \<in> entries (d_subnets d0)) \<Longrightarrow>
    gossiped d (d0\<lparr>d_subnets := t\<rparr>)"
proof -
  assume "gossiped d d0" "\<And>x. (x, Some (d_name d0)) \<in> entries t \<longleftrightarrow> (x, Some (d_name d0)) \<in> entries (d_subnets d0)"
  moreover from this(2) have "own_subnets (d0\<lparr>d_subnets := t\<rparr>) = own_subnets d0" by (simp add: own_subnets_def)
  ultimately show ?thesis by (simp add: gossiped_def)
qed

lemma install_subnet_runs:
  assumes d: "dinv d0" and gs: "gossiped d d0" and rd: "ok \<Longrightarrow> ready (Suc k) cid d0" "ok \<Longrightarrow> length body < 65535"
    and s: "subnet_ok s" "o' \<noteq> d_name d0" "length o' \<le> MAX_STRING"
  shows "runs ok (install_subnet P cid body o' i s d0) (handled ok k cid d)"
proof -
  have t: "tree_ok (d_subnets d0)" "\<And>x ow. (x, Some ow) \<in> entries (d_subnets d0) \<Longrightarrow> length ow \<le> MAX_STRING"
    using dinvD(8) [OF d] by (auto simp: subnets_ok_def)
  have t2: "subnets_ok (tree_add s o' (d_subnets d0))" using tree_insert_ok [OF t(1) s(1), of "Some o'"] t(2) s(3) by (auto simp: subnets_ok_def tree_add_def)
  define d1 where "d1 = d0\<lparr>d_subnets := tree_add s o' (d_subnets d0)\<rparr>"
  have d1: "dinv d1" "gossiped d d1" "ok \<Longrightarrow> ready (Suc k) cid d1"
    unfolding d1_def using dinv_subnets [OF d t2] gossiped_subnets [OF gs] own_subnets_other(1) [OF t(1) s(1,2)] rd(1) by simp_all
  define d2 where "d2 = (case s of Mac addr _ \<Rightarrow> (tx_snap_refresh_subnets d1)\<lparr>d_mac_table := (d_mac_table d1)(addr \<mapsto> o')\<rparr> | _ \<Rightarrow> tx_snap_refresh_subnets d1)"
  have d2: "dinv d2" "gossiped d d2" "ok \<Longrightarrow> ready (Suc k) cid d2"
    unfolding d2_def using d1 by (cases s; simp add: tx_snap_refresh_subnets_def)+
  let ?d = "if node_reachable d2 i then run_subnet_script True o' s d2 else d2"
  have d3: "dinv ?d" "gossiped d ?d" "ok \<Longrightarrow> ready (Suc k) cid ?d" using d2 by (auto simp: run_subnet_script_def emit_def)
  have "install_subnet P cid body o' i s d0 = ok_result (forward_request P cid body ?d)"
    by (cases s) (simp_all add: install_subnet_def d2_def d1_def Let_def tx_snap_refresh_subnets_def)
  thus ?thesis using forward_handled [where ok = ok, OF d3 rd(2)] by simp
qed

lemma myself_name: "dinv d \<Longrightarrow> map_of (d_node_ids d) nm = Some (d_myself d) \<longleftrightarrow> nm = d_name d"
  using names_agreeD(2,3) [OF dinvD(2)] by fastforce

lemma add_subnet_resolved_runs:
  assumes d: "dinv d0" and gs: "gossiped d d0" and rd: "ok \<Longrightarrow> ready (Suc k) cid d0" "ok \<Longrightarrow> length body < 65535"
    and s: "subnet_ok s" "name_ok nm" and room: "map_of (d_node_ids d0) nm = None \<Longrightarrow> length (d_node_ids d0) < MAX_NODES"
  shows "runs ok (add_subnet_resolved P cid body nm s d0) (handled ok k cid d)"
  unfolding add_subnet_resolved_def
proof (rule runs_seq [OF lookup_or_add_gossip [where cid = cid, OF d s(2) room gs rd(1)]], goal_cases)
  case (3 x)
  then obtain i d1 where x: "x = (i, d1)" and d1: "dinv d1" "gossiped d d1" "map_of (d_node_ids d1) nm = Some i" "ok \<longrightarrow> ready (Suc k) cid d1"
    by (auto simp: named_def)
  have rd1: "ok \<Longrightarrow> ready (Suc k) cid d1" using d1(4) by blast
  have me: "length (d_name d1) \<le> MAX_STRING" using names_agreeD(3,4) [OF dinvD(2) [OF d1(1)]] by blast
  have "runs ok (ok_result (send_subnet P cid DelSubnet (d_name d1) s d1)) (handled ok k cid d)"
    by (rule handled_ok_result [OF send_subnet_runs [OF rd1 me s(1)] d1(1,2)])
  moreover have "runs ok (install_subnet P cid body nm i s d1) (handled ok k cid d)" if "i \<noteq> d_myself d1"
    by (rule install_subnet_runs [OF d1(1,2) rd1 rd(2) s(1)]) (use that d1(3) myself_name [OF d1(1), of nm] s(2) in \<open>auto simp: name_ok_def\<close>)
  moreover note forward_handled [where ok = ok, OF d1(1,2) rd1 rd(2)] stop_handled [where ok = ok, OF d1(1,2) rd1, of "Inr False"]
  ultimately show ?case by (auto simp: x)
qed auto

lemma parse_add_subnet_ok: "parse_add_subnet body = Inr (nm, s) \<Longrightarrow> name_ok nm \<and> subnet_ok s"
  using subnet_msg_parsed by (fastforce simp: parse_add_subnet_def subnet_msg_ok_def dest!: parse_body_Inr)

lemma on_add_subnet_runs:
  assumes d: "dinv d" and rd: "ok \<Longrightarrow> here cid d" "ok \<Longrightarrow> ready (Suc k) cid d" "ok \<Longrightarrow> length body < 65535"
  shows "runs ok (on_add_subnet P cid body d) (handled ok k cid d)"
proof (cases "parse_add_subnet body")
  case (Inl e)
  thus ?thesis using stop_handled [OF d _ rd(2)] by (simp add: on_add_subnet_def)
next
  case (Inr ms)
  obtain nm s where ms: "ms = (nm, s)" by fastforce
  have m: "name_ok nm" "subnet_ok s" using parse_add_subnet_ok Inr ms by blast+
  show ?thesis unfolding on_add_subnet_def Inr ms sum.case prod.case
  proof (rule flooded_runs [OF rd(1)], assumption)
    fix go sn
    define d0 where "d0 = d\<lparr>d_seen := sn\<rparr>"
    have 0: "dinv d0" "gossiped d d0" "ok \<Longrightarrow> ready (Suc k) cid d0" using d rd(2) by (simp_all add: d0_def)
    show "runs ok (case (go, d\<lparr>d_seen := sn\<rparr>) of (go, d) \<Rightarrow>
        if go = None \<or> tree_contains s nm (d_subnets d) \<or> MAX_NODES \<le> length (d_node_ids d) \<and> map_of (d_node_ids d) nm = None
        then Some (Inr False, d) else add_subnet_resolved P cid body nm s d) (handled ok k cid d)"
      unfolding d0_def [symmetric] prod.case
      using stop_handled [where ok = ok, OF 0] add_subnet_resolved_runs [where ok = ok, OF 0 rd(3) m(2,1)] by (auto simp: not_le)
  qed
qed

lemma remove_subnet_keeps:
  assumes d: "dinv d0" and gs: "gossiped d d0" and rd: "ok \<Longrightarrow> ready k cid d0" and s: "subnet_ok s" "nm \<noteq> d_name d0"
  shows "handled ok k cid d (Inr nw, remove_subnet nm i s d0)"
proof -
  have t: "tree_ok (d_subnets d0)" and t2: "\<And>x ow. (x, Some ow) \<in> entries (d_subnets d0) \<Longrightarrow> length ow \<le> MAX_STRING"
    using dinvD(8) [OF d] by (auto simp: subnets_ok_def)
  obtain dd tr where td: "tree_del s nm (d_subnets d0) = (dd, tr)" by fastforce
  have tr: "subnets_ok tr" "\<And>x. (x, Some (d_name d0)) \<in> entries tr \<longleftrightarrow> (x, Some (d_name d0)) \<in> entries (d_subnets d0)"
  proof -
    have "tree_ok tr" "entries tr = entries (d_subnets d0) - {(s, Some nm)}" using tree_remove_ok [OF t s(1), of "Some nm"] td by (auto simp: tree_del_def)
    thus "subnets_ok tr" using t2 by (auto simp: subnets_ok_def)
  qed (use own_subnets_other(2) [OF t s] td in simp)
  have 1: "dinv (d0\<lparr>d_subnets := tr\<rparr>)" "gossiped d (d0\<lparr>d_subnets := tr\<rparr>)"
    using dinv_subnets [OF d tr(1)] gossiped_subnets [OF gs tr(2)] by blast+
  show ?thesis using 1 rd td
    by (cases s) (auto simp: handled_def remove_subnet_def Let_def tx_snap_refresh_subnets_def run_subnet_script_def emit_def)
qed

lemma on_del_subnet_runs:
  assumes d: "dinv d" and rd: "ok \<Longrightarrow> here cid d" "ok \<Longrightarrow> ready (Suc k) cid d" "ok \<Longrightarrow> length body < 65535"
  shows "runs ok (on_del_subnet P cid body d) (handled ok k cid d)"
proof (cases "parse_del_subnet body")
  case (Inl e)
  thus ?thesis using stop_handled [OF d _ rd(2)] by (simp add: on_del_subnet_def)
next
  case (Inr ms)
  obtain nm s where ms: "ms = (nm, s)" by fastforce
  have m: "name_ok nm" "subnet_ok s" using parse_add_subnet_ok Inr ms by (auto simp: parse_del_subnet_def)
  show ?thesis unfolding on_del_subnet_def Inr ms sum.case prod.case
  proof (rule flooded_runs [OF rd(1)], assumption)
    fix go sn
    define d0 where "d0 = d\<lparr>d_seen := sn\<rparr>"
    have 0: "dinv d0" "gossiped d d0" "ok \<Longrightarrow> ready (Suc k) cid d0" using d rd(2) by (simp_all add: d0_def)
    have me: "length (d_name d0) \<le> MAX_STRING" using names_agreeD(3,4) [OF dinvD(2) [OF 0(1)]] by blast
    note stop = stop_handled [where ok = ok, OF 0, of "Inr False"]
    have answer: "runs ok (ok_result (send_subnet P cid AddSubnet (d_name d0) s d0)) (handled ok k cid d)"
      by (rule handled_ok_result [OF send_subnet_runs [OF 0(3) me m(2)] 0(1,2)])
    have del: "runs ok (do { (nw, d) \<leftarrow> forward_request P cid body d0;
        Some (Inr nw, if s_strictsubnets (d_settings d) then d else remove_subnet nm i s d) }) (handled ok k cid d)"
      if i: "map_of (d_node_ids d0) nm = Some i" "i \<noteq> d_myself d0" for i
    proof (rule runs_seq [OF forward_request_runs [where k = k, OF dinv_conn_keys [OF 0(1)] 0(3) rd(3)]], assumption, assumption, clarify)
      fix nw d1 assume st: "sent d0 d1" "ok \<longrightarrow> ready k cid d1"
      have d1: "dinv d1" "gossiped d d1" "nm \<noteq> d_name d1"
        using 0 dinv_sent [OF st(1)] gossiped_sent [OF st(1)] i myself_name [OF 0(1), of nm] sent_eqs(4) [OF st(1)] by auto
      show "runs ok (Some (Inr nw, if s_strictsubnets (d_settings d1) then d1 else remove_subnet nm i s d1)) (handled ok k cid d)"
        using remove_subnet_keeps [OF d1(1,2) _ m(2) d1(3)] st(2) d1 by (auto simp: handled_def)
    qed
    show "runs ok (case (go, d\<lparr>d_seen := sn\<rparr>) of (go, d) \<Rightarrow> case go of None \<Rightarrow> Some (Inr False, d)
      | Some _ \<Rightarrow> case map_of (d_node_ids d) nm of None \<Rightarrow> Some (Inr False, d)
      | Some owner \<Rightarrow>
          if owner = d_myself d then if \<not> tree_contains s (d_name d) (d_subnets d) then Some (Inr False, d)
            else ok_result (send_subnet P cid AddSubnet (d_name d) s d)
          else if s_tunnelserver (d_settings d) then Some (Inr False, d)
          else do { (nw, d) \<leftarrow> forward_request P cid body d;
            Some (Inr nw, if s_strictsubnets (d_settings d) then d else remove_subnet nm owner s d) }) (handled ok k cid d)"
      unfolding d0_def [symmetric] prod.case using stop answer del by (cases go; cases "map_of (d_node_ids d0) nm") simp_all
  qed
qed

section \<open>KEY\_CHANGED\<close>

lemma split_on_ne: "split_on P s \<noteq> []"
  by (cases s) (auto split: list.splits)

lemma split_ws_skip: "is_ascii_whitespace c \<Longrightarrow> split_ascii_whitespace (c # s) = split_ascii_whitespace s"
  by (simp add: split_ascii_whitespace_def)

lemma split_ws_word:
  assumes "list_all (\<lambda>c. \<not> is_ascii_whitespace c) w" "w \<noteq> []" "r = [] \<or> is_ascii_whitespace (hd r)"
  shows "split_ascii_whitespace (w @ r) = w # split_ascii_whitespace r"
proof (cases r)
  case Nil
  thus ?thesis using assms split_on_free [of is_ascii_whitespace w] by (simp add: split_ascii_whitespace_def)
next
  case (Cons c r')
  thus ?thesis using assms split_on_sep [of is_ascii_whitespace w c r'] by (simp add: split_ascii_whitespace_def)
qed

lemma tok_s_split: "tok_s r = Some (t, r') \<Longrightarrow> split_ascii_whitespace r = t # split_ascii_whitespace r'"
proof -
  assume t: "tok_s r = Some (t, r')"
  define s where "s = dropWhile is_ascii_whitespace r"
  have "split_ascii_whitespace r = split_ascii_whitespace s" unfolding s_def by (induction r) (simp_all add: split_ws_skip)
  moreover have "t = takeWhile (\<lambda>c. \<not> is_ascii_whitespace c) s" "r' = dropWhile (\<lambda>c. \<not> is_ascii_whitespace c) s" "t \<noteq> []"
    using t by (auto simp: tok_s_def s_def Let_def split: if_splits)
  moreover from this have "split_ascii_whitespace (t @ r') = t # split_ascii_whitespace r'"
    using hd_dropWhile [of "\<lambda>c. \<not> is_ascii_whitespace c" s] by (intro split_ws_word) (auto simp: list_all_iff dest: set_takeWhileD)
  ultimately show ?thesis by simp
qed

text \<open>The canonical line of a \<open>KEY_CHANGED\<close>: three tokens.\<close>

lemma key_changed_tokens:
  assumes "key_changed_parse s = Some kc"
  shows "\<exists>a b ws. split_ascii_whitespace s = a # b # kc_node kc # ws \<and> token a \<and> token b \<and> token (kc_node kc)"
proof -
  obtain a r b r2 r3 where t: "tok_s s = Some (a, r)" "tok_s r = Some (b, r2)" "tok_s r2 = Some (kc_node kc, r3)"
    using assms by (auto simp: key_changed_parse_def tok_skip_def bind_eq_Some_conv)
  thus ?thesis using tok_s_split [OF t(1)] tok_s_split [OF t(2)] tok_s_split [OF t(3)] tok_s_token by simp
qed

lemma on_key_changed_runs:
  assumes d: "dinv d" and rd: "ok \<Longrightarrow> ready (Suc k) cid d"
  shows "runs ok (on_key_changed P cid body d) (handled ok k cid d)"
proof (cases "parse_key_msg body ''KEY_CHANGED'' key_changed_parse")
  case (Inl e)
  thus ?thesis using stop_handled [OF d _ rd] by (simp add: on_key_changed_def)
next
  case (Inr ms)
  obtain s kc where ms: "ms = (s, kc)" by fastforce
  have "key_changed_parse s = Some kc" using Inr ms by (auto simp: parse_key_msg_def split: option.splits)
  then obtain a b ws where w: "split_ascii_whitespace s = a # b # kc_node kc # ws" "token a" "token b" "token (kc_node kc)"
    using key_changed_tokens by blast
  let ?l = "a @ '' '' @ b @ '' '' @ kc_node kc"
  obtain dup sn where sn: "seen_check ?l (d_now d) (d_seen d) = (dup, sn)" by fastforce
  define d0 where "d0 = d\<lparr>d_seen := sn\<rparr>"
  have 0: "dinv d0" "gossiped d d0" "ok \<Longrightarrow> ready (Suc k) cid d0" using d rd by (simp_all add: d0_def)
  have len: "length (as_bytes ?l) < 65535" using w by (simp add: token_def MAX_STRING_def)
  have e: "on_key_changed P cid body d =
      (if \<not> check_id (kc_node kc) then Some (Inl (BadKey ''KEY_CHANGED: bad node name''), d)
       else if dup \<or> s_tunnelserver (d_settings d0) then Some (Inr False, d0) else ok_result (forward_request P cid (as_bytes ?l) d0))"
    using Inr ms w(1) sn by (simp add: on_key_changed_def d0_def)
  show ?thesis unfolding e using stop_handled [where ok = ok, OF d _ rd, of d] stop_handled [where ok = ok, OF 0, of "Inr False"]
      forward_handled [where ok = ok, OF 0 len, of P] by simp
qed

end
