(* ===== verification/Daemon_Inv.thy ===== *)
theory Daemon_Inv
  imports Gossip_Safe
begin

text \<open>
  The invariant over the whole life of a connection: \<open>on_ack\<close>, \<open>terminate\<close>, \<open>PONG\<close>, \<open>purge\<close> and the recomputation
  keep it, so it holds in every state a daemon can reach, whatever its peers send.
\<close>

section \<open>Connections\<close>

lemma conn_field_eqs:
  assumes "\<And>i. map_option cview (map_of cs i) = CV d i" "map fst cs = map fst (d_conns d)"
  shows "dinv (d\<lparr>d_conns := cs\<rparr>) = dinv d"
proof -
  have "CV (d\<lparr>d_conns := cs\<rparr>) = CV d" using assms(1) by (simp add: CV_def [abs_def])
  thus ?thesis using assms(2) by (simp add: dinv_def)
qed

lemma dinv_set_conn:
  assumes "map_of (d_conns d) i = Some c" "cview c' = cview c"
  shows "dinv (set_conn i c' d) = dinv d" "CV (set_conn i c' d) = CV d"
proof -
  have e: "map_option cview (map_of (AList.update i c' (d_conns d)) j) = CV d j" for j using assms by (simp add: CV_def update_conv)
  show "dinv (set_conn i c' d) = dinv d" unfolding set_conn_def
    by (rule conn_field_eqs [OF e update_keys_live [OF assms(1)]])
  show "CV (set_conn i c' d) = CV d" using e by (simp add: set_conn_def CV_def [abs_def])
qed

lemma ready_set_conn:
  assumes "map_of (d_conns d) i = Some c" "c_active c' = c_active c" "c_sptps c' = c_sptps c" "c_dead c' = c_dead c"
  shows "ready k cid (set_conn i c' d) = ready k cid d"
proof -
  have "can_send k c' = can_send k c" using assms by (simp add: can_send_def)
  thus ?thesis using assms(1,2) by (auto simp: ready_def set_conn_def update_conv)
qed

lemma own_edges_forget:
  assumes o: "own_edges m nodes E C N" and c: "C cid = Some (nm, False, w)"
  shows "own_edges m nodes E (C(cid := None)) N"
proof (rule own_edgesI)
  fix t ns assume t: "nodes t = Some ns"
  show "N t \<noteq> None \<and> (ns_edge ns = None \<longrightarrow> ns_conn ns = None)" using own_edgesD(1,2) [OF o t] by simp
  show "E e = Some (m, t, ns_edge_weight ns, ns_edge_options ns) \<and>
      (\<exists>i nm r w. ns_conn ns = Some i \<and> (C(cid := None)) i = Some (nm, True, w) \<and> N t = Some (nm, r))" if e: "ns_edge ns = Some e" for e
  proof -
    obtain i nm' r w' where i: "ns_conn ns = Some i" "C i = Some (nm', True, w')" "N t = Some (nm', r)" using own_edgesD(4) [OF o t e] by blast
    have "i \<noteq> cid" using i(2) c by auto
    thus ?thesis using i own_edgesD(3) [OF o t e] by (metis fun_upd_other)
  qed
qed (use own_edgesD(5,6) [OF o] in \<open>auto split: if_splits\<close>)

text \<open>The connection, the node's reference to it and the edge go together.\<close>

lemma own_edges_detach:
  assumes o: "own_edges m nodes E C N" and c: "C cid = Some (nm, True, w)" and t: "N t = Some (nm, r)" "nodes t = Some ns" "ns_edge ns = Some e"
    and inj: "\<And>t' r'. N t' = Some (nm, r') \<Longrightarrow> t' = t" and conn: "ns_conn ns = Some cid"
  shows "own_edges m (nodes(t \<mapsto> ns\<lparr>ns_conn := None, ns_edge := None\<rparr>)) (E(e := None)) (C(cid := None)) N"
proof (rule own_edgesI)
  have e: "E e = Some (m, t, ns_edge_weight ns, ns_edge_options ns)" by (rule own_edgesD(3) [OF o t(2,3)])
  fix t' ns' assume t': "(nodes(t \<mapsto> ns\<lparr>ns_conn := None, ns_edge := None\<rparr>)) t' = Some ns'"
  show "N t' \<noteq> None \<and> (ns_edge ns' = None \<longrightarrow> ns_conn ns' = None)" using t' t own_edgesD(1,2) [OF o, of t'] by (auto split: if_splits)
  show "(E(e := None)) e' = Some (m, t', ns_edge_weight ns', ns_edge_options ns') \<and>
      (\<exists>i nm r w. ns_conn ns' = Some i \<and> (C(cid := None)) i = Some (nm, True, w) \<and> N t' = Some (nm, r))" if e': "ns_edge ns' = Some e'" for e'
  proof -
    have n: "t' \<noteq> t" "nodes t' = Some ns'" using t' e' by (auto split: if_splits)
    have f: "E e' = Some (m, t', ns_edge_weight ns', ns_edge_options ns')" by (rule own_edgesD(3) [OF o n(2) e'])
    obtain i nm' r' w' where i: "ns_conn ns' = Some i" "C i = Some (nm', True, w')" "N t' = Some (nm', r')"
      using own_edgesD(4) [OF o n(2) e'] by blast
    have "i \<noteq> cid" using i c inj n(1) by auto
    thus ?thesis using f i e n(1) by auto
  qed
next
  fix e' t' w' x' assume "(E(e := None)) e' = Some (m, t', w', x')"
  hence e': "e' \<noteq> e" "E e' = Some (m, t', w', x')" by (auto split: if_splits)
  obtain ns' where ns': "nodes t' = Some ns'" "ns_edge ns' = Some e'" using own_edgesD(5) [OF o e'(2)] by blast
  have "t' \<noteq> t" using ns' t(2,3) e'(1) by auto
  thus "\<exists>ns''. (nodes(t \<mapsto> ns\<lparr>ns_conn := None, ns_edge := None\<rparr>)) t' = Some ns'' \<and> ns_edge ns'' = Some e'" using ns' by simp
next
  fix i nm' w' assume "(C(cid := None)) i = Some (nm', True, w')"
  hence i: "i \<noteq> cid" "C i = Some (nm', True, w')" by (auto split: if_splits)
  obtain t' r' ns' where t': "N t' = Some (nm', r')" "nodes t' = Some ns'" "ns_conn ns' = Some i" using own_edgesD(6) [OF o i(2)] by blast
  have "t' \<noteq> t" using t'(2,3) t(2) conn i(1) by auto
  thus "\<exists>t'' r'' ns''. N t'' = Some (nm', r'') \<and> (nodes(t \<mapsto> ns\<lparr>ns_conn := None, ns_edge := None\<rparr>)) t'' = Some ns'' \<and> ns_conn ns'' = Some i"
    using t' by auto
qed

text \<open>A new edge to a peer without one.\<close>

lemma own_edges_attach:
  assumes o: "own_edges m nodes E C N" and c: "C cid = Some (nm, a, w)" and t: "N t = Some (nm, r)" and e: "E e = None"
    and none: "\<And>e w x. E e \<noteq> Some (m, t, w, x)" and inactive: "\<not> a"
  shows "own_edges m (nodes(t \<mapsto> \<lparr>ns_edge = Some e, ns_conn = Some cid, ns_edge_addr = ad, ns_edge_weight = wt, ns_edge_options = x\<rparr>))
    (E(e \<mapsto> (m, t, wt, x))) (C(cid \<mapsto> (nm, True, w))) N"
proof (rule own_edgesI)
  let ?ns = "\<lparr>ns_edge = Some e, ns_conn = Some cid, ns_edge_addr = ad, ns_edge_weight = wt, ns_edge_options = x\<rparr>"
  fix t' ns' assume t': "(nodes(t \<mapsto> ?ns)) t' = Some ns'"
  show "N t' \<noteq> None \<and> (ns_edge ns' = None \<longrightarrow> ns_conn ns' = None)" using t' t own_edgesD(1,2) [OF o, of t'] by (auto split: if_splits)
  show "(E(e \<mapsto> (m, t, wt, x))) e' = Some (m, t', ns_edge_weight ns', ns_edge_options ns') \<and>
      (\<exists>i nm' r w'. ns_conn ns' = Some i \<and> (C(cid \<mapsto> (nm, True, w))) i = Some (nm', True, w') \<and> N t' = Some (nm', r))" if e': "ns_edge ns' = Some e'" for e'
  proof (cases "t' = t")
    case True
    thus ?thesis using t' e' t by auto
  next
    case False
    hence n: "nodes t' = Some ns'" using t' by simp
    have f: "E e' = Some (m, t', ns_edge_weight ns', ns_edge_options ns')" by (rule own_edgesD(3) [OF o n e'])
    obtain i nm' r' w' where i: "ns_conn ns' = Some i" "C i = Some (nm', True, w')" "N t' = Some (nm', r')"
      using own_edgesD(4) [OF o n e'] by blast
    have "i \<noteq> cid" "e' \<noteq> e" using i c inactive f e by auto
    thus ?thesis using f i by auto
  qed
next
  let ?ns = "\<lparr>ns_edge = Some e, ns_conn = Some cid, ns_edge_addr = ad, ns_edge_weight = wt, ns_edge_options = x\<rparr>"
  fix e' t' w' x' assume a: "(E(e \<mapsto> (m, t, wt, x))) e' = Some (m, t', w', x')"
  show "\<exists>ns. (nodes(t \<mapsto> ?ns)) t' = Some ns \<and> ns_edge ns = Some e'"
  proof (cases "e' = e")
    case False
    hence "E e' = Some (m, t', w', x')" using a by simp
    thus ?thesis using own_edgesD(5) [OF o] none by fastforce
  qed (use a in auto)
next
  let ?ns = "\<lparr>ns_edge = Some e, ns_conn = Some cid, ns_edge_addr = ad, ns_edge_weight = wt, ns_edge_options = x\<rparr>"
  fix i nm' w' assume a: "(C(cid \<mapsto> (nm, True, w))) i = Some (nm', True, w')"
  show "\<exists>t' r' ns. N t' = Some (nm', r') \<and> (nodes(t \<mapsto> ?ns)) t' = Some ns \<and> ns_conn ns = Some i"
  proof (cases "i = cid")
    case False
    then obtain t' r' ns' where t': "N t' = Some (nm', r')" "nodes t' = Some ns'" "ns_conn ns' = Some i" using own_edgesD(6) [OF o] a by fastforce
    have "t' \<noteq> t"
    proof
      assume "t' = t"
      then obtain e' where "ns_edge ns' = Some e'" using own_edgesD(2) [OF o t'(2)] t'(3) by fastforce
      thus False using own_edgesD(3) [OF o t'(2)] none \<open>t' = t\<close> by blast
    qed
    thus ?thesis using t' by auto
  qed (use a t in auto)
qed

section \<open>Terminating\<close>

lemma broadcast_del_edge_runs:
  assumes "distinct (map fst (d_conns d))" "ok \<Longrightarrow> ready (Suc k) cid d" "length a \<le> MAX_STRING" "length b \<le> MAX_STRING"
  shows "runs ok (broadcast_del_edge P a b d) (\<lambda>d'. sent d d' \<and> (ok \<longrightarrow> ready k cid d'))"
proof -
  obtain n d1 where n: "nonce P d = (n, d1)" by fastforce
  have d1: "sent d d1" "\<And>j. ready j cid d1 = ready j cid d" using nonce_sent [OF n] by auto
  have k: "distinct (map fst (d_conns d1))" using assms(1) d1(1) by (simp add: sent_def)
  have "runs ok (broadcast_line P (del_edge_format n \<lparr>de_from = a, de_to = b\<rparr>) d1) (\<lambda>(nw, d'). sent d1 d' \<and> (ok \<longrightarrow> ready k cid d'))"
    by (rule broadcast_line_runs [OF k]) (use assms d1 del_edge_format_length [OF nonce_less [OF n]] in auto)
  thus ?thesis using n d1(1) assms(2) ready_mono [of "Suc k" cid d k]
    by (auto simp: broadcast_del_edge_def intro!: runs_map elim!: runs_mono intro: sent_trans)
qed

text \<open>Steps that change connections only by sending, and neither the names nor the settings.\<close>

definition kept :: "'g daemon \<Rightarrow> 'g daemon \<Rightarrow> bool" where
  "kept d d' \<longleftrightarrow> d_myself d' = d_myself d \<and> d_name d' = d_name d \<and> d_node_ids d' = d_node_ids d \<and> d_settings d' = d_settings d \<and>
     d_now d' = d_now d \<and> d_subnets d' = d_subnets d \<and> map fst (d_conns d') = map fst (d_conns d) \<and>
     (\<forall>i. rel_option same_conn (map_of (d_conns d) i) (map_of (d_conns d') i)) \<and> map_option fst \<circ> NV d' = map_option fst \<circ> NV d \<and>
     {e. EV d' e \<noteq> None} \<subseteq> {e. EV d e \<noteq> None}"

lemma kept_refl [simp]: "kept d d"
  by (simp add: kept_def option.rel_refl)

lemma kept_trans: "kept a b \<Longrightarrow> kept b c \<Longrightarrow> kept a c"
proof -
  assume ab: "kept a b" and bc: "kept b c"
  have "rel_option same_conn (map_of (d_conns a) i) (map_of (d_conns c) i)" for i
    using ab bc option.rel_transp [of same_conn] unfolding kept_def transp_def by (metis same_conn_trans)
  moreover have "{e. EV c e \<noteq> None} \<subseteq> {e. EV a e \<noteq> None}" using ab bc unfolding kept_def by blast
  ultimately show ?thesis using ab bc by (simp add: kept_def)
qed

lemma kept_sent: "sent d d' \<Longrightarrow> kept d d'"
  using sent_eqs [of d d'] by (simp add: kept_def sent_def)

lemma kept_regraphed: "regraphed d d' \<Longrightarrow> kept d d'"
  by (simp add: kept_def regraphed_def option.rel_refl)

lemma kept_drop: "eview g = (EV d)(e := None) \<Longrightarrow> nview (g_nodes g) = NV d \<Longrightarrow> kept d (d\<lparr>d_graph := g, d_edge_addrs := A\<rparr>)"
  by (auto simp: kept_def option.rel_refl)

lemma kept_CV: "kept d d' \<Longrightarrow> CV d' = CV d"
proof
  fix i assume "kept d d'"
  hence "rel_option same_conn (map_of (d_conns d) i) (map_of (d_conns d') i)" by (simp add: kept_def)
  thus "CV d' i = CV d i" unfolding CV_def by (cases rule: option.rel_cases) (simp_all add: cview_def same_conn_eqs)
qed

text \<open>What a terminated connection takes with it, and what stays.\<close>

definition cut :: "nat \<Rightarrow> 'g daemon \<Rightarrow> 'g daemon \<Rightarrow> bool" where
  "cut cid d d' \<longleftrightarrow> (\<exists>d1. d_myself d1 = d_myself d \<and> d_name d1 = d_name d \<and> d_node_ids d1 = d_node_ids d \<and> d_settings d1 = d_settings d \<and>
     d_now d1 = d_now d \<and> d_subnets d1 = d_subnets d \<and> d_conns d1 = AList.delete cid (d_conns d) \<and> d_graph d1 = d_graph d \<and> kept d1 d')"

lemma forget_conn_eqs:
  "d_conns (forget_conn cid c d) = AList.delete cid (d_conns d)" "d_graph (forget_conn cid c d) = d_graph d"
  "d_node_ids (forget_conn cid c d) = d_node_ids d" "d_myself (forget_conn cid c d) = d_myself d" "d_name (forget_conn cid c d) = d_name d"
  "d_nodes (forget_conn cid c d) = d_nodes d" "d_edge_addrs (forget_conn cid c d) = d_edge_addrs d"
  "d_graph_dirty (forget_conn cid c d) = d_graph_dirty d" "d_last_routes (forget_conn cid c d) = d_last_routes d"
  "d_subnets (forget_conn cid c d) = d_subnets d" "d_settings (forget_conn cid c d) = d_settings d" "d_now (forget_conn cid c d) = d_now d"
  "d_my_udp_port (forget_conn cid c d) = d_my_udp_port d"
  by (auto simp: forget_conn_def emit_def Let_def split: option.splits)

lemma conns_ok_delete:
  "conns_ok me ks C \<Longrightarrow> conns_ok me (filter (\<lambda>k. k \<noteq> cid) ks) (C(cid := None))"
  by (auto simp: conns_ok_def split: if_splits)

lemma delete_keys_filter: "map fst (AList.delete cid cs) = filter (\<lambda>k. k \<noteq> cid) (map fst cs)"
  by (induction cs) (auto simp: AList.delete_eq)

lemma ready_delete: "ready k c0 d \<Longrightarrow> d_conns d' = AList.delete cid (d_conns d) \<Longrightarrow> ready k c0 d'"
  by (auto simp: ready_def delete_conv split: if_splits)

lemma dinv_detached:
  assumes d: "dinv d" and c: "CV d cid = Some (nm, True, w)" and t: "NV d t = Some (nm, r)" "d_nodes d t = Some ns" "ns_conn ns = Some cid" "ns_edge ns = Some e"
    and g': "graph_inv (d_graph d')" "EV d' = (EV d)(e := None)" "NV d' = NV d" and dirty: "d_graph_dirty d'"
    and same: "d_node_ids d' = d_node_ids d" "d_myself d' = d_myself d" "d_name d' = d_name d" "d_subnets d' = d_subnets d"
      "d_nodes d' = (d_nodes d)(t \<mapsto> ns\<lparr>ns_conn := None, ns_edge := None\<rparr>)" "d_edge_addrs d' = (d_edge_addrs d)(e := None)"
      "d_my_udp_port d' = d_my_udp_port d"
      "CV d' = (CV d)(cid := None)" "map fst (d_conns d') = filter (\<lambda>k. k \<noteq> cid) (map fst (d_conns d))"
  shows "dinv d'"
proof -
  note D = dinvD [OF d]
  have "own_edges (d_myself d) (d_nodes d') (EV d') (CV d') (NV d')" unfolding same g'(2,3)
    by (rule own_edges_detach [OF D(3) c t(1,2,4) _ t(3)]) (use nview_inj [OF D(1)] t(1) in blast)
  moreover have "addrs_live (d_edge_addrs d') (EV d')" using D(4) unfolding same g'(2) by (auto simp: addrs_live_def)
  moreover have "weights_in_range (EV d')" using D(7) unfolding g'(2) by (auto simp: weights_in_range_def)
  moreover have "conns_ok (d_name d') (map fst (d_conns d')) (CV d')" unfolding same by (rule conns_ok_delete [OF D(6)])
  moreover have "reach_agrees (d_graph_dirty d') (d_myself d') (d_last_routes d') (EV d') (NV d')" using dirty by (simp add: reach_agrees_def)
  ultimately show ?thesis unfolding dinv_def same(1-4,7) g'(3) using D(2,8,9) g'(1) by simp
qed

text \<open>The tail of \<open>terminate_edge\<close>: the reverse edge of a peer that is now cut off.\<close>

lemma terminate_reverse_runs:
  assumes d: "dinv d1" and nm: "length (c_name c) \<le> MAX_STRING" and rd: "ok \<Longrightarrow> ready (Suc k) c0 d1" and p: "NV d1 p \<noteq> None"
  shows "runs ok (if c_active c \<and> get_node (d_graph d1) p \<noteq> None \<and> \<not> node_reachable d1 p
      then do { back \<leftarrow> lookup_edge (d_graph d1) p (d_myself d1); case back of None \<Rightarrow> Some d1
        | Some e \<Rightarrow> do { d \<leftarrow> broadcast_del_edge P (c_name c) (d_name d1) d1; drop_edge e d } }
      else Some d1) (\<lambda>d'. dinv d' \<and> (ok \<longrightarrow> ready k c0 d') \<and> kept d1 d')"
    (is "runs ok _ ?Q")
proof -
  note D = dinvD [OF d]
  have stay: "?Q d1" using d rd ready_mono [of "Suc k" c0 d1 k] by simp
  have m: "NV d1 (d_myself d1) \<noteq> None" "length (d_name d1) \<le> MAX_STRING" using names_agreeD(3,4) [OF D(2)] by (simp, blast)
  from lookup_edge_view [OF D(1) p m(1)] obtain f where f: "lookup_edge (d_graph d1) p (d_myself d1) = Some f"
    "\<And>i. f = Some i \<longleftrightarrow> (\<exists>w x. EV d1 i = Some (p, d_myself d1, w, x))" by blast
  show ?thesis
  proof (cases "c_active c \<and> get_node (d_graph d1) p \<noteq> None \<and> \<not> node_reachable d1 p \<and> f \<noteq> None")
    case True
    then obtain b where b: "f = Some b" "\<not> node_reachable d1 p" by auto
    then obtain w x where e: "EV d1 b = Some (p, d_myself d1, w, x)" using f(2) by blast
    have "runs ok (do { d \<leftarrow> broadcast_del_edge P (c_name c) (d_name d1) d1; drop_edge b d }) ?Q"
    proof (rule runs_seq [OF broadcast_del_edge_runs [where k = k and cid = c0, OF dinv_conn_keys [OF d] rd nm m(2)]], assumption, elim conjE)
      fix d2 assume s: "sent d1 d2" "ok \<longrightarrow> ready k c0 d2"
      have 2: "dinv d2" "EV d2 b = Some (p, d_myself d1, w, x)" "\<not> node_reachable d2 p"
        using dinv_sent [OF s(1)] d e b(2) sent_eqs [OF s(1)] by (simp_all add: node_reachable_def)
      obtain g' where g': "drop_edge b d2 = Some (d2\<lparr>d_graph := g', d_edge_addrs := (d_edge_addrs d2)(b := None)\<rparr>)"
        "eview g' = (EV d2)(b := None)" "nview (g_nodes g') = NV d2" "dinv (d2\<lparr>d_graph := g', d_edge_addrs := (d_edge_addrs d2)(b := None)\<rparr>)"
        by (rule drop_edge_unreachable [OF 2])
      show "runs ok (drop_edge b d2) ?Q" using g'(1,4) s(2) kept_trans [OF kept_sent [OF s(1)] kept_drop [OF g'(2,3)]] by simp
    qed
    thus ?thesis using True b f(1) by simp
  next
    case False
    thus ?thesis using f(1) stay by auto
  qed
qed

lemma terminate_edge_runs:
  assumes d: "dinv d" and c: "map_of (d_conns d) cid = Some c" "c_active c" and t: "NV d t = Some (c_name c, r)" "d_nodes d t = Some ns" "ns_conn ns = Some cid" "ns_edge ns = Some e"
    and d0: "d_conns d0 = AList.delete cid (d_conns d)" "d_graph d0 = d_graph d" "d_node_ids d0 = d_node_ids d" "d_myself d0 = d_myself d"
      "d_name d0 = d_name d" "d_subnets d0 = d_subnets d" "d_edge_addrs d0 = d_edge_addrs d"
      "d_nodes d0 = (d_nodes d)(t \<mapsto> ns\<lparr>ns_conn := None, ns_edge := None\<rparr>)" "d_my_udp_port d0 = d_my_udp_port d"
    and rd: "ok \<Longrightarrow> ready (Suc (Suc k)) c0 d"
  shows "runs ok (terminate_edge P c (Some t) e d0) (\<lambda>d'. dinv d' \<and> (ok \<longrightarrow> ready k c0 d') \<and> kept d0 d')"
proof -
  note D = dinvD [OF d]
  have cv: "CV d cid = Some (c_name c, True, c_estimated_weight c, c_address c)" using c by (simp add: CV_def cview_def)
  have nm: "length (c_name c) \<le> MAX_STRING" "length (d_name d0) \<le> MAX_STRING"
    using names_agreeD(4) [OF D(2) t(1)] names_agreeD(4) [OF D(2) names_agreeD(3) [OF D(2)]] d0(5) by simp_all
  have keys: "map fst (d_conns d0) = filter (\<lambda>k. k \<noteq> cid) (map fst (d_conns d))" by (simp add: d0(1) delete_keys_filter)
  hence k: "distinct (map fst (d_conns d0))" using dinv_conn_keys [OF d] by simp
  have "CV d0 = (CV d)(cid := None)" by (simp add: CV_def [abs_def] d0(1) fun_eq_iff delete_conv)
  have rd0: "ok \<Longrightarrow> ready (Suc (Suc k)) c0 d0" using rd ready_delete [OF _ d0(1)] by blast
  have ev: "EV d e = Some (d_myself d, t, ns_edge_weight ns, ns_edge_options ns)" by (rule own_edgesD(3) [OF D(3) t(2,4)])
  show ?thesis unfolding terminate_edge_def option.case if_P [OF c(2)]
  proof (rule runs_seq [OF broadcast_del_edge_runs [where k = "Suc k" and cid = c0, OF k rd0 nm(2,1)]], assumption, elim conjE)
    fix d1 assume s: "sent d0 d1" "ok \<longrightarrow> ready (Suc k) c0 d1"
    note eq = sent_eqs [OF s(1)]
    obtain g' where g': "del_edge e (d_graph d) = Some (Some g')" "graph_inv g'" "eview g' = (EV d)(e := None)" "nview (g_nodes g') = NV d"
      by (rule del_edge_view [OF D(1), of e]) (use ev in auto)
    define d2 where "d2 = d1\<lparr>d_graph := g', d_edge_addrs := (d_edge_addrs d1)(e := None)\<rparr>"
    have e2: "drop_edge e d1 = Some d2" using g'(1) eq d0 by (simp add: drop_edge_def d2_def)
    have "CV d1 = (CV d)(cid := None)" using sent_CV [OF s(1)] \<open>CV d0 = _\<close> by simp
    hence "dinv (d2\<lparr>d_graph_dirty := True\<rparr>)"
      by (intro dinv_detached [OF d cv t]) (use g' eq d0 s(1) keys in \<open>simp_all add: d2_def sent_def\<close>)
    then obtain d3 where d3: "run_graph_and_log d2 = Some d3" "dinv d3" "regraphed d2 d3" by (rule run_graph_and_log_runs)
    have rd3: "ok \<Longrightarrow> ready (Suc k) c0 d3" using s(2) d3(3) by (simp add: regraphed_def d2_def ready_def)
    have "NV d2 t = Some (c_name c, r)" using g'(4) t(1) by (simp add: d2_def)
    hence p: "NV d3 t \<noteq> None" using d3(3) unfolding regraphed_def by (auto simp: fun_eq_iff dest!: spec [of _ t])
    have kp: "kept d0 d3"
    proof -
      have "kept d1 d2" unfolding d2_def by (rule kept_drop) (use g'(3,4) eq d0 in simp_all)
      thus ?thesis using kept_trans kept_sent [OF s(1)] kept_regraphed [OF d3(3)] by blast
    qed
    show "runs ok (do { d \<leftarrow> drop_edge e d1; d \<leftarrow> run_graph_and_log d;
        if c_active c \<and> get_node (d_graph d) t \<noteq> None \<and> \<not> node_reachable d t
        then do { back \<leftarrow> lookup_edge (d_graph d) t (d_myself d); case back of None \<Rightarrow> Some d
          | Some e \<Rightarrow> do { d \<leftarrow> broadcast_del_edge P (c_name c) (d_name d) d; drop_edge e d } }
        else Some d }) (\<lambda>d'. dinv d' \<and> (ok \<longrightarrow> ready k c0 d') \<and> kept d0 d')"
      using terminate_reverse_runs [where ok = ok, OF d3(2) nm(1) rd3 p, of P] e2 d3(1) kept_trans [OF kp] by (auto elim!: runs_mono)
  qed
qed

lemma emit_eqs [simp]:
  "d_conns (emit x d) = d_conns d" "d_graph (emit x d) = d_graph d" "d_node_ids (emit x d) = d_node_ids d" "d_myself (emit x d) = d_myself d"
  "d_name (emit x d) = d_name d" "d_nodes (emit x d) = d_nodes d" "d_edge_addrs (emit x d) = d_edge_addrs d" "d_subnets (emit x d) = d_subnets d"
  "d_settings (emit x d) = d_settings d" "d_now (emit x d) = d_now d" "d_my_udp_port (emit x d) = d_my_udp_port d" "d_seen (emit x d) = d_seen d"
  "d_graph_dirty (emit x d) = d_graph_dirty d" "d_last_routes (emit x d) = d_last_routes d" "d_tunnels (emit x d) = d_tunnels d"
  "dinv (emit x d) = dinv d" "ready k cid (emit x d) = ready k cid d" "CV (emit x d) = CV d"
  by (simp_all add: emit_def)

lemma cut_emit: "cut cid d d' \<Longrightarrow> cut cid d (emit x d')" "cut cid (emit x d) d' = cut cid d d'"
  by (simp_all add: cut_def kept_def)

text \<open>Terminating a connection returns, keeps the invariant and takes exactly that connection away.\<close>

lemma terminate_runs:
  assumes d: "dinv d" and rd: "ok \<Longrightarrow> ready (Suc (Suc k)) c0 d"
  shows "runs ok (terminate P cid d) (\<lambda>d'. dinv d' \<and> (ok \<longrightarrow> ready k c0 d') \<and> cut cid d d')"
proof (cases "map_of (d_conns d) cid")
  case None
  hence "AList.delete cid (d_conns d) = d_conns d" by (simp add: delete_id map_of_eq_None_iff)
  hence "cut cid d (emit (ForgetPunchDial cid) d)" unfolding cut_def by (intro exI [of _ d]) (simp add: kept_def option.rel_refl)
  thus ?thesis using None d rd ready_mono [of "Suc (Suc k)" c0 d k] by (simp add: terminate_def)
next
  case (Some c)
  note D = dinvD [OF d]
  define d0 where "d0 = forget_conn cid c (emit (ForgetPunchDial cid) d)"
  note f = forget_conn_eqs [of cid c "emit (ForgetPunchDial cid) d", folded d0_def, simplified]
  have nid: "map_of (d_node_ids d) (c_name c) = Some t \<longleftrightarrow> (\<exists>r. NV d t = Some (c_name c, r))" for t by (rule names_agreeD(2) [OF D(2)])
  define fin where "fin = (\<lambda>d' :: 'a daemon. case c_outgoing c of None \<Rightarrow> d' | Some oid \<Rightarrow> emit (RedialOutgoing oid (c_active c)) d')"
  have fin: "dinv (fin d') = dinv d'" "ready k c0 (fin d') = ready k c0 d'" "cut cid d d' \<Longrightarrow> cut cid d (fin d')" for d'
    by (auto simp: fin_def cut_emit split: option.splits)
  have cut0: "kept d1 d' \<Longrightarrow> cut cid d d'" if "d_conns d1 = AList.delete cid (d_conns d)" "d_myself d1 = d_myself d" "d_name d1 = d_name d"
    "d_node_ids d1 = d_node_ids d" "d_settings d1 = d_settings d" "d_now d1 = d_now d" "d_subnets d1 = d_subnets d" "d_graph d1 = d_graph d" for d1 d'
    using that unfolding cut_def by blast
  show ?thesis
  proof (cases "c_active c")
    case True
    hence "CV d cid = Some (c_name c, True, c_estimated_weight c, c_address c)" using Some by (simp add: CV_def cview_def)
    then obtain t r ns where t: "NV d t = Some (c_name c, r)" "d_nodes d t = Some ns" "ns_conn ns = Some cid" using own_edgesD(6) [OF D(3)] by blast
    obtain e where e: "ns_edge ns = Some e" using own_edgesD(2) [OF D(3) t(2)] t(3) by fastforce
    define d1 where "d1 = d0\<lparr>d_nodes := (d_nodes d)(t \<mapsto> ns\<lparr>ns_conn := None, ns_edge := None\<rparr>)\<rparr>"
    have n: "map_of (d_node_ids d) (c_name c) = Some t" using nid t(1) by blast
    have det: "detach_conn cid (Some t) d0 = (Some e, d1)" using t e f by (simp add: detach_conn_def d1_def)
    have "runs ok (terminate_edge P c (Some t) e d1) (\<lambda>d'. dinv d' \<and> (ok \<longrightarrow> ready k c0 d') \<and> kept d1 d')"
      by (rule terminate_edge_runs [OF d Some True t e _ _ _ _ _ _ _ _ _ rd]) (use f in \<open>simp_all add: d1_def\<close>)
    moreover have "kept d1 d' \<Longrightarrow> cut cid d d'" for d' by (rule cut0) (use f in \<open>simp_all add: d1_def\<close>)
    moreover have "terminate P cid d = do { d' \<leftarrow> terminate_edge P c (Some t) e d1; Some (fin d') }"
      using Some n det by (simp add: terminate_def d0_def fin_def)
    ultimately show ?thesis using fin by (auto elim!: runs_seq)
  next
    case False
    hence cv: "CV d cid = Some (c_name c, False, c_estimated_weight c, c_address c)" using Some by (simp add: CV_def cview_def)
    have "ns_conn ns \<noteq> Some cid" if "d_nodes d t = Some ns" for t ns
      using own_edgesD(2,4) [OF D(3) that] cv by (cases "ns_edge ns") fastforce+
    hence det: "detach_conn cid n d0 = (None, d0)" for n using f by (auto simp: detach_conn_def split: option.splits bind_split)
    have c0: "CV d0 = (CV d)(cid := None)" by (simp add: CV_def [abs_def] f(1) fun_eq_iff delete_conv)
    have "dinv d0" unfolding dinv_def f(2-10,13) c0 using D own_edges_forget [OF D(3) cv] conns_ok_delete [OF D(6), of cid]
      by (simp add: f(1) delete_keys_filter)
    moreover have "ok \<longrightarrow> ready k c0 d0" using rd ready_mono [of "Suc (Suc k)" c0 d k] ready_delete [OF _ f(1)] by simp
    moreover have "cut cid d d0" by (rule cut0 [OF _ _ _ _ _ _ _ _ kept_refl]) (use f in simp_all)
    moreover have "terminate P cid d = Some (fin d0)" using Some det by (simp add: terminate_def d0_def fin_def Let_def)
    ultimately show ?thesis using fin by simp
  qed
qed

end
