(* ===== verification/Daemon_Ack.thy ===== *)
theory Daemon_Ack
  imports Daemon_Inv
begin

text \<open>
  The invariant through \<open>on_ack\<close>: the edge, the node's state and the activation of the connection come
  together, a second connection to the same peer displaces the first or yields to it, and the burst to
  the new peer is bounded by what this node knows.
\<close>

section \<open>The burst\<close>

lemma d_send_lines_runs:
  assumes "ok \<Longrightarrow> ready (length ls + k) cid d" "ok \<Longrightarrow> list_all (\<lambda>l. length l < 65535) ls"
  shows "runs ok (d_send_lines P cid ls d) (\<lambda>(nw, d'). sent d d' \<and> (ok \<longrightarrow> ready k cid d'))"
  using assms
proof (induction ls arbitrary: d)
  case (Cons l ls)
  have "runs ok (d_send P cid l d) (\<lambda>(nw, d'). sent d d' \<and> (ok \<longrightarrow> ready (length ls + k) cid d'))"
    by (rule d_send_ready) (use Cons.prems in auto)
  thus ?case unfolding d_send_lines.simps
  proof (rule runs_seq, clarify)
    fix nw d1 assume 1: "sent d d1" "ok \<longrightarrow> ready (length ls + k) cid d1"
    have "runs ok (d_send_lines P cid ls d1) (\<lambda>(nw, d'). sent d1 d' \<and> (ok \<longrightarrow> ready k cid d'))"
      by (rule Cons.IH) (use 1(2) Cons.prems(2) in auto)
    thus "runs ok (do { (b, d) \<leftarrow> d_send_lines P cid ls d1; Some (nw \<or> b, d) }) (\<lambda>(nw, d'). sent d d' \<and> (ok \<longrightarrow> ready k cid d'))"
      by (rule runs_seq) (use sent_trans [OF 1(1)] in auto)
  qed
qed simp

lemma subnet_lines_sent:
  assumes "subnet_lines P xs d = (ls, d')"
  shows "sent d d' \<and> (\<forall>k cid. ready k cid d' = ready k cid d) \<and> length ls = length xs \<and>
    ((\<forall>(s, ow) \<in> set xs. subnet_ok s \<and> length ow \<le> MAX_STRING) \<longrightarrow> list_all (\<lambda>l. length l < 65535) ls)"
  using assms
proof (induction P xs d arbitrary: ls d' rule: subnet_lines.induct)
  case (2 P s ow xs d)
  obtain n d1 where n: "nonce P d = (n, d1)" by fastforce
  obtain ls2 d2 where r: "subnet_lines P xs d1 = (ls2, d2)" by fastforce
  have d1: "sent d d1" "\<And>k cid. ready k cid d1 = ready k cid d" using nonce_sent [OF n] by auto
  note ih = 2(1) [OF n [symmetric] refl r]
  have e: "ls = subnet_msg_format AddSubnet n \<lparr>sm_owner = ow, sm_subnet = s\<rparr> # ls2" "d' = d2" using 2(2) n r by simp_all
  show ?case using ih d1 sent_trans [OF d1(1)] subnet_format_length [OF nonce_less [OF n], of ow s AddSubnet] by (auto simp: e)
qed simp

lemma edge_lines_sent:
  assumes "edge_lines P is d = (ls, d')" "dinv (d\<lparr>d_graph_dirty := True\<rparr>)"
  shows "sent d d' \<and> (\<forall>k cid. ready k cid d' = ready k cid d) \<and> length ls \<le> length is \<and> list_all (\<lambda>l. length l < 65535) ls"
  using assms
proof (induction P "is" d arbitrary: ls d' rule: edge_lines.induct)
  case (2 P i js d)
  obtain n d1 where n: "nonce P d = (n, d1)" by fastforce
  obtain ls2 d2 where r: "edge_lines P js d1 = (ls2, d2)" by fastforce
  have d1: "sent d d1" "\<And>k cid. ready k cid d1 = ready k cid d" using nonce_sent [OF n] by auto
  have inv: "dinv (d1\<lparr>d_graph_dirty := True\<rparr>)" using dinv_sent [OF sent_dirty [OF d1(1)], of True] 2(3) by simp
  have l: "length line < 65535" if "fmt_add_edge i n d1 = Some line" for line
    by (rule fmt_add_edge_length [OF inv _ nonce_less [OF n]]) (use that in \<open>simp add: fmt_add_edge_def\<close>)
  note ih = 2(1) [OF n [symmetric] refl refl r inv]
  have e: "ls = (case fmt_add_edge i n d1 of None \<Rightarrow> ls2 | Some l \<Rightarrow> l # ls2)" "d' = d2" using 2(2) n r by simp_all
  show ?case using ih d1 sent_trans [OF d1(1)] l by (auto simp: e split: option.splits)
qed simp

lemma tree_iter_entries: "(s, ow) \<in> set (tree_iter t) \<longleftrightarrow> (s, Some ow) \<in> entries t"
  by (force simp: tree_iter_def entries_def split: option.splits)

lemma entries_subnet_ok: "tree_ok t \<Longrightarrow> (s, ow) \<in> entries t \<Longrightarrow> subnet_ok s"
  by (auto simp: tree_ok_def Ordered_Map.keyed_def entries_def bt_values_def v4_entry_def v6_entry_def mac_entry_def)

lemma length_edge_iter: "length (edge_iter g) = card {i. eview g i \<noteq> None}"
proof -
  have d: "distinct (map fst (concat (map (\<lambda>(i, s). case s of None \<Rightarrow> [] | Some e \<Rightarrow> [(i, e)]) (enumerate n es)))) \<and>
      (\<forall>i \<in> set (map fst (concat (map (\<lambda>(i, s). case s of None \<Rightarrow> [] | Some e \<Rightarrow> [(i, e)]) (enumerate n es)))). n \<le> i)" for n and es :: "gedge option list"
  proof (induction es arbitrary: n)
    case (Cons e es)
    from Cons.IH [of "Suc n"] show ?case by (cases e) force+
  qed simp
  have "i \<in> fst ` set (edge_iter g) \<longleftrightarrow> (\<exists>e. (i, e) \<in> set (edge_iter g))" for i by force
  hence "set (map fst (edge_iter g)) = {i. eview g i \<noteq> None}" by (auto simp: set_edge_iter eview_def)
  thus ?thesis using d [of 0 "g_edges g"] distinct_card [of "map fst (edge_iter g)"] by (simp add: edge_iter_def)
qed

text \<open>The number of lines a new peer is sent at most.\<close>

definition burst :: "'g daemon \<Rightarrow> nat" where
  "burst d = length (tree_iter (d_subnets d)) + card {i. EV d i \<noteq> None}"

lemma send_everything_runs:
  assumes d: "dinv (d\<lparr>d_graph_dirty := True\<rparr>)" and rd: "ok \<Longrightarrow> ready (burst d + k) cid d"
  shows "runs ok (send_everything P cid d) (\<lambda>(nw, d'). sent d d' \<and> (ok \<longrightarrow> ready k cid d'))"
proof -
  have t: "\<forall>(s, ow) \<in> set (tree_iter (d_subnets d)). subnet_ok s \<and> length ow \<le> MAX_STRING"
    using dinvD(8) [OF d] entries_subnet_ok by (auto simp: subnets_ok_def tree_iter_entries)
  show ?thesis
  proof (cases "s_tunnelserver (d_settings d)")
    case True
    define xs where "xs = filter (\<lambda>(s, owner). owner = d_name d) (tree_iter (d_subnets d))"
    obtain ls d1 where l: "subnet_lines P xs d = (ls, d1)" by fastforce
    have xs: "\<forall>(s, ow) \<in> set xs. subnet_ok s \<and> length ow \<le> MAX_STRING" "length xs \<le> burst d" using t by (auto simp: xs_def burst_def intro: le_add1 order_trans [OF length_filter_le])
    note s = subnet_lines_sent [OF l]
    have "ready (length ls + k) cid d1" if ok using rd [OF that] s xs(2) ready_mono [of "burst d + k" cid d1 "length ls + k"] by auto
    hence "runs ok (d_send_lines P cid ls d1) (\<lambda>(nw, d'). sent d1 d' \<and> (ok \<longrightarrow> ready k cid d'))"
      by (rule d_send_lines_runs) (use s xs in auto)
    thus ?thesis using True l s by (auto simp: send_everything_def xs_def elim!: runs_mono intro: sent_trans)
  next
    case False
    obtain sl d1 where l1: "subnet_lines P (tree_iter (d_subnets d)) d = (sl, d1)" by fastforce
    note s1 = subnet_lines_sent [OF l1]
    hence e1: "d_graph d1 = d_graph d" "dinv (d1\<lparr>d_graph_dirty := True\<rparr>)" using sent_eqs(1) dinv_sent [OF sent_dirty, of d d1 True] d by auto
    obtain el d2 where l2: "edge_lines P (map fst (edge_iter (d_graph d1))) d1 = (el, d2)" by fastforce
    note s2 = edge_lines_sent [OF l2 e1(2)]
    have n: "length (sl @ el) \<le> burst d" using s1 s2 length_edge_iter [of "d_graph d"] e1(1) by (simp add: burst_def)
    have "ready (length (sl @ el) + k) cid d2" if ok using rd [OF that] s1 s2 n ready_mono [of "burst d + k" cid d2 "length (sl @ el) + k"] by auto
    hence "runs ok (d_send_lines P cid (sl @ el) d2) (\<lambda>(nw, d'). sent d2 d' \<and> (ok \<longrightarrow> ready k cid d'))"
      by (rule d_send_lines_runs) (use s1 s2 t in auto)
    moreover have "sent d d2" using s1 s2 sent_trans by blast
    ultimately show ?thesis using False l1 l2 by (auto simp: send_everything_def elim!: runs_mono intro: sent_trans)
  qed
qed

lemma ack_announce_runs:
  assumes d: "dinv (d\<lparr>d_graph_dirty := True\<rparr>)" and rd: "ok \<Longrightarrow> ready (burst d + Suc k) cid d"
  shows "runs ok (ack_announce P cid eid d) (\<lambda>(nw, d'). dinv d' \<and> (ok \<longrightarrow> ready k cid d') \<and> kept d d' \<and> \<not> d_graph_dirty d')"
  unfolding ack_announce_def
proof (rule runs_seq [OF send_everything_runs [where k = "Suc k", OF d rd]], assumption, clarify)
  fix nw d1 assume 1: "sent d d1" "ok \<longrightarrow> ready (Suc k) cid d1"
  obtain n d2 where n: "nonce P d1 = (n, d2)" by fastforce
  have 2: "sent d d2" "ok \<Longrightarrow> ready (Suc k) cid d2" using nonce_sent [OF n, of "Suc k" cid] 1 sent_trans [of d d1 d2] by auto
  have inv: "dinv (d2\<lparr>d_graph_dirty := True\<rparr>)" using dinv_sent [OF sent_dirty [OF 2(1)], of True] d by simp
  have ks: "distinct (map fst (d_conns d2))" using dinv_conn_keys [OF inv] by simp
  define send where "send = (case fmt_add_edge eid n d2 of None \<Rightarrow> Some (False, d2)
      | Some line \<Rightarrow> if s_tunnelserver (d_settings d2) then d_send P cid line d2 else broadcast_line P line d2)"
  have "runs ok send (\<lambda>(nw, d'). sent d2 d' \<and> (ok \<longrightarrow> ready k cid d'))"
  proof (cases "fmt_add_edge eid n d2")
    case None
    thus ?thesis using 2(2) by (auto simp: send_def intro: ready_mono)
  next
    case (Some line)
    have "length line < 65535" by (rule fmt_add_edge_length [OF inv _ nonce_less [OF n], of eid]) (use Some in \<open>simp add: fmt_add_edge_def\<close>)
    thus ?thesis using Some 2(2) d_send_ready [of ok k cid d2 cid line P] broadcast_line_runs [OF ks, of ok k cid line P] by (simp add: send_def)
  qed
  hence "runs ok (do { (nw2, d) \<leftarrow> send; d \<leftarrow> run_graph_and_log d; Some (nw \<or> nw2, d) })
    (\<lambda>(nw, d'). dinv d' \<and> (ok \<longrightarrow> ready k cid d') \<and> kept d d' \<and> \<not> d_graph_dirty d')"
  proof (rule runs_seq, clarify)
    fix nw2 d3 assume 3: "sent d2 d3" "ok \<longrightarrow> ready k cid d3"
    have "dinv (d3\<lparr>d_graph_dirty := True\<rparr>)" using dinv_sent [OF sent_dirty [OF 3(1)], of True] inv by simp
    then obtain d4 where d4: "run_graph_and_log d3 = Some d4" "dinv d4" "regraphed d3 d4" "\<not> d_graph_dirty d4" by (rule run_graph_and_log_runs)
    have "kept d d4" using kept_sent [OF 2(1)] kept_sent [OF 3(1)] kept_regraphed [OF d4(3)] kept_trans by blast
    moreover have "ready k cid d4 = ready k cid d3" using d4(3) by (simp add: regraphed_def ready_def)
    ultimately show "runs ok (do { d \<leftarrow> run_graph_and_log d3; Some (nw \<or> nw2, d) })
      (\<lambda>(nw, d'). dinv d' \<and> (ok \<longrightarrow> ready k cid d') \<and> kept d d' \<and> \<not> d_graph_dirty d')" using d4 3(2) by simp
  qed
  thus "runs ok (let (n, d) = nonce P d1 in do { (nw2, d) \<leftarrow> (case fmt_add_edge eid n d of None \<Rightarrow> Some (False, d)
      | Some line \<Rightarrow> if s_tunnelserver (d_settings d) then d_send P cid line d else broadcast_line P line d);
      d \<leftarrow> run_graph_and_log d; Some (nw \<or> nw2, d) })
    (\<lambda>(nw, d'). dinv d' \<and> (ok \<longrightarrow> ready k cid d') \<and> kept d d' \<and> \<not> d_graph_dirty d')" by (simp add: n send_def)
qed

section \<open>The new edge\<close>

lemma length_show_ip: "addr_ok (Some (ip, p)) \<Longrightarrow> length (show_ip ip) \<le> MAX_STRING"
  using length_show_ipv4 length_show_ipv6 by (cases ip) (force simp: addr_ok_def show_ip_def MAX_STRING_def intro: order_trans)+

lemma length_port: "p < 65536 \<Longrightarrow> length (show_int (int p)) \<le> MAX_STRING"
  using length_show_radix [of 10 p 4] by (simp add: show_int_def MAX_STRING_def)

definition attached :: "nat \<Rightarrow> nat \<Rightarrow> string \<Rightarrow> int \<Rightarrow> u32 \<Rightarrow> 'g daemon \<Rightarrow> 'g daemon \<Rightarrow> bool" where
  "attached cid peer nm weight opts d d' \<longleftrightarrow> (\<exists>e v. EV d e = None \<and> EV d' = (EV d)(e \<mapsto> (d_myself d, peer, weight, opts)) \<and>
     CV d cid = Some (nm, False, v) \<and> CV d' = (CV d)(cid \<mapsto> (nm, True, v))) \<and> d_subnets d' = d_subnets d \<and> NV d' = NV d \<and>
     d_myself d' = d_myself d \<and> d_name d' = d_name d \<and> d_node_ids d' = d_node_ids d"

lemma activate_conn_eqs:
  assumes "map_of (d_conns d) cid = Some c"
  shows "map_of (d_conns (activate_conn cid d)) cid = Some (c\<lparr>c_active := True, c_activated_at := Some (d_now d), c_counted_pending := False\<rparr>)"
    "\<And>i. i \<noteq> cid \<Longrightarrow> map_of (d_conns (activate_conn cid d)) i = map_of (d_conns d) i"
    "map fst (d_conns (activate_conn cid d)) = map fst (d_conns d)"
    "d_graph (activate_conn cid d) = d_graph d" "d_node_ids (activate_conn cid d) = d_node_ids d" "d_myself (activate_conn cid d) = d_myself d"
    "d_name (activate_conn cid d) = d_name d" "d_nodes (activate_conn cid d) = d_nodes d" "d_edge_addrs (activate_conn cid d) = d_edge_addrs d"
    "d_subnets (activate_conn cid d) = d_subnets d" "d_my_udp_port (activate_conn cid d) = d_my_udp_port d"
    "d_graph_dirty (activate_conn cid d) = d_graph_dirty d" "d_last_routes (activate_conn cid d) = d_last_routes d"
  using assms update_keys_live [OF assms] by (auto simp: activate_conn_def set_conn_def update_conv)

lemma dinv_attached:
  assumes d: "dinv d" and c: "CV d cid = Some (nm, False, v)" and t: "NV d t = Some (nm, r)" and none: "\<And>e w x. EV d e \<noteq> Some (d_myself d, t, w, x)"
    and g': "graph_inv (d_graph d')" "EV d e = None" "EV d' = (EV d)(e \<mapsto> (d_myself d, t, weight, x))" "NV d' = NV d" and dirty: "d_graph_dirty d'"
    and w: "i32_range weight" and addrs: "addrs_live (d_edge_addrs d') (EV d')"
    and same: "d_node_ids d' = d_node_ids d" "d_myself d' = d_myself d" "d_name d' = d_name d" "d_subnets d' = d_subnets d" "d_my_udp_port d' = d_my_udp_port d"
      "d_nodes d' = (d_nodes d)(t \<mapsto> \<lparr>ns_edge = Some e, ns_conn = Some cid, ns_edge_addr = ad, ns_edge_weight = weight, ns_edge_options = x\<rparr>)"
      "CV d' = (CV d)(cid \<mapsto> (nm, True, v))" "map fst (d_conns d') = map fst (d_conns d)"
  shows "dinv d'"
proof -
  note D = dinvD [OF d]
  have "own_edges (d_myself d) (d_nodes d') (EV d') (CV d') (NV d')" unfolding same g'(3,4)
    by (rule own_edges_attach [OF D(3) c t g'(2) none]) simp
  moreover have "weights_in_range (EV d')" using D(7) w unfolding g'(3) by (auto simp: weights_in_range_def)
  moreover have "conns_ok (d_name d') (map fst (d_conns d')) (CV d')" 
  proof -
    have "nm \<noteq> d_name d \<and> length nm \<le> MAX_STRING \<and> i32_range (fst v) \<and> addr_ok (snd v)" using D(6) c unfolding conns_ok_def by blast
    thus ?thesis using D(6) unfolding same conns_ok_def by auto
  qed
  moreover have "reach_agrees (d_graph_dirty d') (d_myself d') (d_last_routes d') (EV d') (NV d')" using dirty by (simp add: reach_agrees_def)
  ultimately show ?thesis unfolding dinv_def same(1-5) g'(4) using D(2,8,9) g'(1) addrs by simp
qed

lemma ack_attach_runs:
  assumes d: "dinv d" and c: "map_of (d_conns d) cid = Some c" "\<not> c_active c" and t: "NV d peer = Some (c_name c, r)"
    and none: "\<And>e w x. EV d e \<noteq> Some (d_myself d, peer, w, x)" and w: "i32_range weight" and addr: "addr_ok ea" "addr_ok local" "\<And>ip p. ea = Some (ip, p) \<Longrightarrow> p < 65536"
    and room: "ok \<Longrightarrow> card {i. EV d i \<noteq> None} < 2 ^ 32" and rd: "ok \<Longrightarrow> ready k cid d"
  shows "runs ok (ack_attach cid (c_name c) peer ea local weight opts d)
    (\<lambda>(eid, d'). dinv (d'\<lparr>d_graph_dirty := True\<rparr>) \<and> (ok \<longrightarrow> ready k cid d') \<and> attached cid peer (c_name c) weight opts d d')"
proof (cases "g_edge_free (d_graph d) = [] \<longrightarrow> fits_u32 (length (g_edges (d_graph d)))")
  case False
  have "\<not> ok" using room add_edge_full(2) [OF dinvD(1) [OF d] False] edge_count_view [OF dinvD(1) [OF d]] by fastforce
  thus ?thesis using add_edge_full(1) [OF dinvD(1) [OF d] False] by (simp add: ack_attach_def)
next
  case True
  note D = dinvD [OF d]
  have live: "NV d (d_myself d) \<noteq> None" "NV d peer \<noteq> None" using names_agreeD(3) [OF D(2)] t by simp_all
  obtain e g' where g': "add_edge (d_myself d) peer weight opts (d_graph d) = Some (e, g')" "graph_inv g'" "EV d e = None"
    "eview g' = (EV d)(e \<mapsto> (d_myself d, peer, weight, opts))" "nview (g_nodes g') = NV d"
    by (rule add_edge_view [OF D(1) _ live none]) (use True in blast)
  define A where "A = (case ea of None \<Rightarrow> d_edge_addrs d | Some a \<Rightarrow> (d_edge_addrs d)(e \<mapsto> ack_edge_addr a local (d_my_udp_port d)))"
  define d1 where "d1 = (emit (ClearPunch peer) (d\<lparr>d_graph := g', d_edge_addrs := A, d_nodes := (d_nodes d)(peer \<mapsto>
      \<lparr>ns_edge = Some e, ns_conn = Some cid, ns_edge_addr = ea, ns_edge_weight = weight, ns_edge_options = opts\<rparr>)\<rparr>))\<lparr>d_seen := purge_mentions (c_name c) (d_seen d)\<rparr>"
  have c1: "map_of (d_conns d1) cid = Some c" using c(1) by (simp add: d1_def)
  define d2 where "d2 = activate_conn cid d1"
  note a = activate_conn_eqs [OF c1, folded d2_def]
  have e2: "ack_attach cid (c_name c) peer ea local weight opts d = Some (e, d2)"
    using g'(1) c(1) by (cases ea) (simp_all add: ack_attach_def d2_def d1_def A_def emit_def)
  have cv: "CV d cid = Some (c_name c, False, c_estimated_weight c, c_address c)" using c by (simp add: CV_def cview_def)
  have cv2: "CV d2 = (CV d)(cid \<mapsto> (c_name c, True, c_estimated_weight c, c_address c))"
  proof
    fix i show "CV d2 i = ((CV d)(cid \<mapsto> (c_name c, True, c_estimated_weight c, c_address c))) i"
      using a(1,2) by (cases "i = cid") (simp_all add: CV_def cview_def d1_def)
  qed
  have "addrs_live A (eview g')"
  proof (cases ea)
    case None
    thus ?thesis using D(4) by (auto simp: A_def addrs_live_def g'(4))
  next
    case (Some x)
    obtain ip p where x: "x = (ip, p)" by fastforce
    obtain la lp where l0: "(case local of None \<Rightarrow> (UNSPEC, UNSPEC) | Some (ip, _) \<Rightarrow> (show_ip ip, show_int (int (d_my_udp_port d)))) = (la, lp)"
      by (meson surj_pair)
    hence l: "ack_edge_addr x local (d_my_udp_port d) = (show_ip ip, show_int (int p), la, lp)" by (simp add: ack_edge_addr_def x)
    have "length la \<le> MAX_STRING" "length lp \<le> MAX_STRING"
      using l0 addr(2) length_show_ip length_port [OF D(9)] by (auto simp: UNSPEC_def MAX_STRING_def split: option.splits prod.splits)
    moreover have "length (show_ip ip) \<le> MAX_STRING" "length (show_int (int p)) \<le> MAX_STRING"
      using length_show_ip addr(1) length_port addr(3) Some x by blast+
    ultimately show ?thesis using D(4) Some l by (auto simp: A_def addrs_live_def g'(4))
  qed
  hence "dinv (d2\<lparr>d_graph_dirty := True\<rparr>)"
    by (intro dinv_attached [OF d cv t none, where e = e and weight = weight and x = opts and ad = ea])
       (use g' w a cv2 in \<open>simp_all add: d1_def\<close>)
  moreover have "ready k cid d2" if ok
    unfolding ready_def
  proof (intro allI impI)
    fix i x assume i: "map_of (d_conns d2) i = Some x" "c_active x \<or> i = cid"
    show "can_send k x"
    proof (cases "i = cid")
      case True
      hence "x = c\<lparr>c_active := True, c_activated_at := Some (d_now d1), c_counted_pending := False\<rparr>" using i(1) a(1) by simp
      moreover have "can_send k c" using rd [OF that] c(1) by (auto simp: ready_def)
      ultimately show ?thesis by (simp add: can_send_def)
    next
      case False
      hence "map_of (d_conns d) i = Some x" using i(1) a(2) by (simp add: d1_def)
      thus ?thesis using rd [OF that] i(2) False by (auto simp: ready_def)
    qed
  qed
  moreover have "attached cid peer (c_name c) weight opts d d2" unfolding attached_def using g'(3-5) cv cv2 a by (auto simp: d1_def)
  ultimately show ?thesis by (simp add: e2)
qed

section \<open>ACK\<close>

lemma active_unique:
  assumes d: "dinv d" and i: "CV d i = Some (nm, True, v)" and t: "NV d t = Some (nm, r)"
  shows "\<exists>ns. d_nodes d t = Some ns \<and> ns_conn ns = Some i"
proof -
  obtain t' r' ns where t': "NV d t' = Some (nm, r')" "d_nodes d t' = Some ns" "ns_conn ns = Some i"
    using own_edgesD(6) [OF dinvD(3) [OF d] i] by blast
  have "t' = t" by (rule nview_inj [OF dinvD(1) [OF d] t'(1) t])
  thus ?thesis using t' by blast
qed

lemma no_own_edge:
  assumes d: "dinv d" and t: "NV d t = Some (nm, r)" and none: "\<And>i v. CV d i \<noteq> Some (nm, True, v)"
  shows "EV d e \<noteq> Some (d_myself d, t, w, x)"
proof
  assume "EV d e = Some (d_myself d, t, w, x)"
  then obtain ns where ns: "d_nodes d t = Some ns" "ns_edge ns = Some e" using own_edgesD(5) [OF dinvD(3) [OF d]] by blast
  then obtain i nm' r' v where "CV d i = Some (nm', True, v)" "NV d t = Some (nm', r')" using own_edgesD(4) [OF dinvD(3) [OF d]] by blast
  thus False using none t by auto
qed

text \<open>Changes of a connection the invariant does not see.\<close>

definition touched :: "'g daemon \<Rightarrow> 'g daemon \<Rightarrow> bool" where
  "touched d d' \<longleftrightarrow> CV d' = CV d \<and> map fst (d_conns d') = map fst (d_conns d) \<and> (\<forall>k c. ready k c d' = ready k c d) \<and>
     d' = d\<lparr>d_conns := d_conns d', d_effects := d_effects d'\<rparr>"

lemma touched_eqs:
  assumes "touched d d'"
  shows "d_graph d' = d_graph d" "d_node_ids d' = d_node_ids d" "d_myself d' = d_myself d" "d_name d' = d_name d" "d_nodes d' = d_nodes d"
    "d_subnets d' = d_subnets d" "d_now d' = d_now d" "d_edge_addrs d' = d_edge_addrs d" "d_graph_dirty d' = d_graph_dirty d" "d_last_routes d' = d_last_routes d"
    "d_my_udp_port d' = d_my_udp_port d" "d_settings d' = d_settings d"
  using assms by (cases d; cases d'; simp add: touched_def)+

lemma touched_dinv: "touched d d' \<Longrightarrow> dinv d' = dinv d"
  using touched_eqs [of d d'] by (simp add: dinv_def touched_def)

lemma touched_refl [simp]: "touched d d"
  by (simp add: touched_def)

lemma touched_trans: "touched a b \<Longrightarrow> touched b c \<Longrightarrow> touched a c"
  by (cases a; cases b; cases c) (simp add: touched_def)

lemma touched_emit: "touched d (emit x d)"
proof -
  have "emit x d = d\<lparr>d_conns := d_conns (emit x d), d_effects := d_effects (emit x d)\<rparr>" by (simp add: emit_def)
  thus ?thesis unfolding touched_def by simp
qed

lemma touched_set_conn:
  assumes "map_of (d_conns d) i = Some c" "cview c' = cview c" "c_sptps c' = c_sptps c" "c_dead c' = c_dead c"
  shows "touched d (set_conn i c' d)"
proof -
  have "c_active c' = c_active c" using assms(2) by (simp add: cview_def)
  hence "ready k x (set_conn i c' d) = ready k x d" for k x by (rule ready_set_conn [OF assms(1) _ assms(3,4)])
  moreover have "set_conn i c' d = d\<lparr>d_conns := d_conns (set_conn i c' d), d_effects := d_effects (set_conn i c' d)\<rparr>" by (simp add: set_conn_def)
  moreover have "map fst (d_conns (set_conn i c' d)) = map fst (d_conns d)" using update_keys_live [OF assms(1)] by (simp add: set_conn_def)
  ultimately show ?thesis unfolding touched_def using dinv_set_conn(2) [OF assms(1,2)] by blast
qed

lemma hand_over_touched: "touched d (hand_over keep drop_id d)"
proof -
  have s: "touched d (set_conn i (c\<lparr>c_outgoing := x\<rparr>) d)" if "map_of (d_conns d) i = Some c" for i c x and d :: "'a daemon"
    by (rule touched_set_conn [OF that]) (simp_all add: cview_def)
  show ?thesis
    using s touched_emit touched_trans [OF s s] touched_trans [OF s touched_emit]
    by (auto simp: hand_over_def Let_def split: option.splits)
qed

lemma midpoint_range: "0 \<le> a \<Longrightarrow> a \<le> 2147483647 \<Longrightarrow> i32_range b \<Longrightarrow> i32_range (midpoint a b)"
  by (auto simp: midpoint_def i32_range_def)

lemma parse_ack_ok: "parse_ack body = Inr a \<Longrightarrow> his_udp_port a < 65536 \<and> 0 \<le> his_weight a \<and> his_weight a \<le> 2147483647"
  by (auto simp: parse_ack_def parse_i32_def bind_eq_Some_conv dest!: from_str_radix_range split: option.splits)

text \<open>After the displacement there is no active connection to the peer left, and the new one is still there.\<close>

lemma cut_CV: "cut cid d d' \<Longrightarrow> CV d' = (CV d)(cid := None)"
proof -
  assume "cut cid d d'"
  then obtain d1 where d1: "d_conns d1 = AList.delete cid (d_conns d)" "kept d1 d'" unfolding cut_def by blast
  have "CV d1 = (CV d)(cid := None)" by (simp add: CV_def [abs_def] d1(1) fun_eq_iff delete_conv)
  thus ?thesis using kept_CV [OF d1(2)] by simp
qed

lemma cut_eqs:
  assumes "cut cid d d'"
  shows "d_myself d' = d_myself d" "d_name d' = d_name d" "d_node_ids d' = d_node_ids d" "d_subnets d' = d_subnets d"
    "map_option fst \<circ> NV d' = map_option fst \<circ> NV d" "{e. EV d' e \<noteq> None} \<subseteq> {e. EV d e \<noteq> None}"
  using assms unfolding cut_def kept_def by (elim exE conjE, simp)+

lemma names_kept: "map_option fst \<circ> NV d' = map_option fst \<circ> NV d \<Longrightarrow> NV d t = Some (nm, r) \<Longrightarrow> \<exists>r'. NV d' t = Some (nm, r')"
  by (auto simp: fun_eq_iff dest!: spec [of _ t])

definition displaced :: "bool \<Rightarrow> nat \<Rightarrow> nat \<Rightarrow> connection \<Rightarrow> nat \<Rightarrow> 'g daemon \<Rightarrow> bool \<times> 'g daemon \<Rightarrow> bool" where
  "displaced ok k cid c peer d = (\<lambda>(stop, d'). dinv d' \<and> (ok \<longrightarrow> ready k cid d') \<and>
     card {e. EV d' e \<noteq> None} \<le> card {e. EV d e \<noteq> None} \<and> d_subnets d' = d_subnets d \<and>
     (\<not> stop \<longrightarrow> (\<exists>r. NV d' peer = Some (c_name c, r)) \<and> CV d' cid = Some (cview c) \<and> (\<forall>i v. CV d' i \<noteq> Some (c_name c, True, v))))"

lemma ack_displace_runs:
  assumes d: "dinv d" and c: "CV d cid = Some (cview c)" "\<not> c_active c" and t: "NV d peer = Some (c_name c, r)"
    and rd: "ok \<Longrightarrow> ready (Suc (Suc k)) cid d"
  shows "runs ok (ack_displace P cid c peer d) (displaced ok k cid c peer d)"
proof (cases "Option.bind (d_nodes d peer) ns_conn")
  case None
  have "CV d i \<noteq> Some (c_name c, True, v)" for i v
  proof
    assume "CV d i = Some (c_name c, True, v)"
    from active_unique [OF d this t] show False using None by auto
  qed
  thus ?thesis using None d c t rd ready_mono [of "Suc (Suc k)" cid d k] by (auto simp: ack_displace_def displaced_def)
next
  case (Some old)
  then obtain ns where ns: "d_nodes d peer = Some ns" "ns_conn ns = Some old" by (auto simp: bind_eq_Some_conv)
  obtain e where e: "ns_edge ns = Some e" using own_edgesD(2) [OF dinvD(3) [OF d] ns(1)] ns(2) by fastforce
  then obtain w where old: "CV d old = Some (c_name c, True, w)" using own_edgesD(4) [OF dinvD(3) [OF d] ns(1) e] ns(2) t by auto
  have ne: "old \<noteq> cid" using old c by (auto simp: cview_def)
  have one: "i = old" if "CV d i = Some (c_name c, True, v)" for i v using active_unique [OF d that t] ns by auto
  define ko where "ko = keep_old_conn old c d"
  define d1 where "d1 = (if ko then hand_over old cid d else hand_over cid old d)"
  have td: "touched d d1" unfolding d1_def by (cases ko) (simp_all only: if_True if_False hand_over_touched)
  have 1: "dinv d1" "CV d1 = CV d" "EV d1 = EV d" "NV d1 = NV d" "d_subnets d1 = d_subnets d" "ok \<Longrightarrow> ready (Suc (Suc k)) cid d1"
    using touched_dinv [OF td] d td touched_eqs [OF td] rd by (auto simp: touched_def)
  have "displaced ok k cid c peer d (ko, d')" if d': "dinv d'" "ok \<longrightarrow> ready k cid d'" "cut (if ko then cid else old) d1 d'" for d'
  proof -
    note f = cut_eqs [OF d'(3)]
    have "card {e. EV d' e \<noteq> None} \<le> card {e. EV d e \<noteq> None}" using card_mono [OF finite_eview f(6)] 1(3) by simp
    moreover have "\<exists>r. NV d' peer = Some (c_name c, r)" using names_kept [OF f(5)] t 1(4) by simp
    moreover have "CV d' cid = Some (cview c) \<and> (\<forall>i v. CV d' i \<noteq> Some (c_name c, True, v))" if "\<not> ko"
      using cut_CV [OF d'(3)] that 1(2) c ne one by auto
    ultimately show ?thesis using d' f(4) 1(5) by (simp add: displaced_def)
  qed
  hence "runs ok (map_option (Pair ko) (terminate P (if ko then cid else old) d1)) (displaced ok k cid c peer d)"
    by (intro runs_map runs_mono [OF terminate_runs [OF 1(1,6)]]) auto
  thus ?thesis using Some ne by (simp add: ack_displace_def ko_def d1_def Let_def)
qed

lemma seed_pmtu_hushed: "hushed d (seed_pmtu cap t d)"
  by (auto simp: seed_pmtu_def Let_def split: option.splits intro!: runs_rules)

definition acked :: "bool \<Rightarrow> nat \<Rightarrow> nat \<Rightarrow> (dispatch_error + bool) \<times> 'g daemon \<Rightarrow> bool" where
  "acked ok k cid = (\<lambda>(r, d'). dinv d' \<and> (ok \<longrightarrow> ready k cid d'))"

lemma ack_finish_runs:
  assumes d: "displaced ok (burst d0 + Suc (Suc k)) cid c peer d0 (stop, d)" and c: "\<not> c_active c" and w: "i32_range weight"
    and addr: "addr_ok ea" "addr_ok local" "\<And>ip p. ea = Some (ip, p) \<Longrightarrow> p < 65536" and room: "ok \<Longrightarrow> card {i. EV d0 i \<noteq> None} < 2 ^ 32"
  shows "runs ok (if stop then do { d \<leftarrow> run_graph_and_log d; Some (Inr False, d) }
      else do { (eid, d) \<leftarrow> ack_attach cid (c_name c) peer ea local weight opts d; ok_result (ack_announce P cid eid d) }) (acked ok k cid)"
proof -
  have 0: "dinv d" "ok \<longrightarrow> ready (burst d0 + Suc (Suc k)) cid d" "card {e. EV d e \<noteq> None} \<le> card {e. EV d0 e \<noteq> None}" "d_subnets d = d_subnets d0"
    using d by (simp_all add: displaced_def)
  show ?thesis
  proof (cases stop)
    case True
    obtain d' where d': "run_graph_and_log d = Some d'" "dinv d'" "regraphed d d'" by (rule run_graph_and_log_runs [OF dinv_dirty [OF 0(1)]])
    have "ok \<longrightarrow> ready k cid d'" using 0(2) d'(3) ready_mono [of "burst d0 + Suc (Suc k)" cid d k] by (auto simp: regraphed_def ready_def)
    thus ?thesis using True d' by (simp add: acked_def)
  next
    case False
    then obtain r where t: "NV d peer = Some (c_name c, r)" and cv: "CV d cid = Some (cview c)" and none: "\<And>i v. CV d i \<noteq> Some (c_name c, True, v)"
      using d by (auto simp: displaced_def)
    then obtain c2 where c2: "map_of (d_conns d) cid = Some c2" "cview c2 = cview c" by (auto simp: CV_def)
    hence n: "c_name c2 = c_name c" "\<not> c_active c2" using c by (auto simp: cview_def)
    have "runs ok (ack_attach cid (c_name c2) peer ea local weight opts d) (\<lambda>(eid, d'). dinv (d'\<lparr>d_graph_dirty := True\<rparr>) \<and>
        (ok \<longrightarrow> ready (burst d0 + Suc (Suc k)) cid d') \<and> attached cid peer (c_name c2) weight opts d d')"
      by (rule ack_attach_runs [OF 0(1) c2(1) n(2) _ no_own_edge [OF 0(1) t none] w addr]) (use t n 0(2,3) room in auto)
    hence "runs ok (do { (eid, d) \<leftarrow> ack_attach cid (c_name c) peer ea local weight opts d; ok_result (ack_announce P cid eid d) }) (acked ok k cid)"
      unfolding n
    proof (rule runs_seq, clarify)
      fix eid d' assume d': "dinv (d'\<lparr>d_graph_dirty := True\<rparr>)" "ok \<longrightarrow> ready (burst d0 + Suc (Suc k)) cid d'" "attached cid peer (c_name c) weight opts d d'"
      then obtain e v where "EV d' = (EV d)(e \<mapsto> v)" and sub: "d_subnets d' = d_subnets d" by (auto simp: attached_def)
      hence "{i. EV d' i \<noteq> None} = insert e {i. EV d i \<noteq> None}" by (cases v) auto
      hence "card {i. EV d' i \<noteq> None} \<le> Suc (card {i. EV d i \<noteq> None})" by (simp only: card_insert_if [OF finite_eview]) simp
      hence b: "burst d' + Suc k \<le> burst d0 + Suc (Suc k)" using 0(3,4) sub by (simp add: burst_def)
      have "runs ok (ack_announce P cid eid d') (\<lambda>(nw, d''). dinv d'' \<and> (ok \<longrightarrow> ready k cid d'') \<and> kept d' d'' \<and> \<not> d_graph_dirty d'')"
        by (rule ack_announce_runs [OF d'(1)]) (use d'(2) ready_mono [OF _ b] in blast)
      thus "runs ok (ok_result (ack_announce P cid eid d')) (acked ok k cid)"
        unfolding ok_result_def by (intro runs_map) (auto elim!: runs_mono simp: acked_def)
    qed
    thus ?thesis using False by simp
  qed
qed

lemma ack_peer_runs:
  assumes d: "dinv d" and c: "CV d cid = Some (cview c)" "\<not> c_active c" and peer: "map_of (d_node_ids d) (c_name c) = Some peer"
    and w: "i32_range weight" and addr: "addr_ok ea" "addr_ok local" "\<And>ip p. ea = Some (ip, p) \<Longrightarrow> p < 65536"
    and room: "ok \<Longrightarrow> card {i. EV d i \<noteq> None} < 2 ^ 32" and rd: "ok \<Longrightarrow> ready (burst d + Suc (Suc (Suc (Suc k)))) cid d"
  shows "runs ok (do { (stop, d) \<leftarrow> ack_displace P cid c peer (seed_pmtu cap peer d);
      if stop then do { d \<leftarrow> run_graph_and_log d; Some (Inr False, d) }
      else do { (eid, d) \<leftarrow> ack_attach cid (c_name c) peer ea local weight opts d; ok_result (ack_announce P cid eid d) } }) (acked ok k cid)"
proof -
  define d1 where "d1 = seed_pmtu cap peer d"
  have h: "hushed d d1" by (simp add: d1_def seed_pmtu_hushed)
  note e = hushed_eqs [OF h]
  have i: "dinv d1" using d dinv_quiet_eq [OF h] by simp
  have b: "burst d1 = burst d" "EV d1 = EV d" using e by (simp_all add: burst_def)
  have r: "ready (burst d1 + Suc (Suc (Suc (Suc k)))) cid d1" if ok using rd [OF that] b ready_conns [OF e(11)] by simp
  have cv: "CV d1 cid = Some (cview c)" using c e(11) by (simp add: CV_def)
  obtain q where "NV d1 peer = Some (c_name c, q)" using dinvD(2) [OF d] peer e(1) by (auto simp: names_agree_def)
  hence run: "runs ok (ack_displace P cid c peer d1) (displaced ok (burst d1 + Suc (Suc k)) cid c peer d1)"
    by (rule ack_displace_runs [OF i cv c(2)]) (use r in simp)
  show ?thesis unfolding d1_def [symmetric]
  proof (rule runs_seq [OF run], goal_cases)
    case (1 x)
    obtain stop d2 where x: "x = (stop, d2)" by (cases x)
    show ?case using ack_finish_runs [OF 1 [unfolded x] c(2) w addr] room b x by simp
  qed
qed

lemma on_ack_runs:
  assumes d: "dinv d" and local: "addr_ok local" and here: "ok \<Longrightarrow> here cid d"
    and room: "ok \<Longrightarrow> length (d_node_ids d) < 2 ^ 32" "ok \<Longrightarrow> card {i. EV d i \<noteq> None} < 2 ^ 32"
    and rd: "ok \<Longrightarrow> ready (burst d + Suc (Suc (Suc (Suc k)))) cid d"
  shows "runs ok (on_ack P cid body local d) (acked ok k cid)"
proof -
  have stop: "acked ok k cid (Inl e, d)" for e :: dispatch_error
    using d rd ready_mono [of "burst d + Suc (Suc (Suc (Suc k)))" cid d k] by (simp add: acked_def)
  show ?thesis
  proof (cases "parse_ack body")
    case (Inl e)
    thus ?thesis using stop by (simp add: on_ack_def)
  next
    case (Inr a)
    note pa = parse_ack_ok [OF Inr]
    show ?thesis
    proof (cases "map_of (d_conns d) cid")
      case None
      thus ?thesis using Inr here by (auto simp: on_ack_def here_def)
    next
      case (Some c0)
      note c0 = this
      show ?thesis
      proof (cases "c_active c0")
        case True
        thus ?thesis using Inr c0 stop by (simp add: on_ack_def)
      next
        case False
        define c where "c = c0\<lparr>c_options := merge_options (c_options c0) (his_options a) (c_host_clamp_mss c0), c_allow_request := None\<rparr>"
        define d1 where "d1 = (case c_outgoing c of None \<Rightarrow> set_conn cid c d | Some oid \<Rightarrow> emit (ConfirmOutgoing oid (c_address c)) (set_conn cid c d))"
        define ea where "ea = map_option (\<lambda>(ip, _). (ip, his_udp_port a)) (c_address c)"
        define weight where "weight = midpoint (his_weight a) (c_estimated_weight c)"
        have cv: "cview c = cview c0" and nact: "\<not> c_active c" using False by (simp_all add: c_def cview_def)
        have t0: "touched d (set_conn cid c d)" by (rule touched_set_conn [OF c0 cv]) (simp_all add: c_def)
        have td: "touched d d1" unfolding d1_def by (cases "c_outgoing c") (simp_all add: t0 touched_trans [OF t0 touched_emit])
        have CVc: "CV d cid = Some (cview c)" using c0 cv by (simp add: CV_def)
        hence nm: "length (c_name c) \<le> MAX_STRING" "i32_range (c_estimated_weight c)" "addr_ok (c_address c)"
          using dinvD(6) [OF d] by (auto simp: conns_ok_def cview_def)
        have ea: "addr_ok ea" "\<And>ip p. ea = Some (ip, p) \<Longrightarrow> p < 65536"
          using nm(3) pa by (auto simp: ea_def addr_ok_def split: option.splits ip_addr.splits)
        have w: "i32_range weight" unfolding weight_def by (rule midpoint_range) (use pa nm in auto)
        note e1 = touched_eqs [OF td]
        have "runs ok (lookup_or_add_node P (c_name c) d1) (\<lambda>(i, d'). dinv d' \<and> map_of (d_node_ids d') (c_name c) = Some i \<and> EV d' = EV d1 \<and> nodes_only d1 d' \<and>
            d_node_ids d' = (if map_of (d_node_ids d1) (c_name c) = None then AList.update (c_name c) i (d_node_ids d1) else d_node_ids d1))"
          by (rule lookup_or_add_node_runs) (use d touched_dinv [OF td] nm room e1 in simp_all)
        hence "runs ok (do { (peer, d2) \<leftarrow> lookup_or_add_node P (c_name c) d1; (stop, d3) \<leftarrow> ack_displace P cid c peer (seed_pmtu (c_pmtu_cap c) peer d2);
            if stop then do { d \<leftarrow> run_graph_and_log d3; Some (Inr False, d) }
            else do { (eid, d) \<leftarrow> ack_attach cid (c_name c) peer ea local weight (c_options c) d3; ok_result (ack_announce P cid eid d) } }) (acked ok k cid)"
        proof (rule runs_seq, clarify)
          fix peer d2
          assume 2: "dinv d2" "map_of (d_node_ids d2) (c_name c) = Some peer" "EV d2 = EV d1" "nodes_only d1 d2"
          note e2 = nodes_only_eqs [OF 2(4)]
          have b2: "burst d2 = burst d" "EV d2 = EV d" using e2 e1 2(3) by (simp_all add: burst_def)
          have "CV d2 = CV d" using td e2(1) by (simp add: touched_def CV_def [abs_def])
          hence CV2: "CV d2 cid = Some (cview c)" using CVc by simp
          have r2: "ready (burst d2 + Suc (Suc (Suc (Suc k)))) cid d2" if ok using rd [OF that] td b2 ready_conns [OF e2(1)] by (simp add: touched_def)
          show "runs ok (do { (stop, d3) \<leftarrow> ack_displace P cid c peer (seed_pmtu (c_pmtu_cap c) peer d2);
              if stop then do { d \<leftarrow> run_graph_and_log d3; Some (Inr False, d) }
              else do { (eid, d) \<leftarrow> ack_attach cid (c_name c) peer ea local weight (c_options c) d3; ok_result (ack_announce P cid eid d) } }) (acked ok k cid)"
            by (rule ack_peer_runs [OF 2(1) CV2 nact 2(2) w ea(1) local ea(2)]) (use room(2) b2 r2 in auto)
        qed
        thus ?thesis using Inr c0 False unfolding d1_def ea_def weight_def
          by (simp add: on_ack_def c_def [symmetric] Let_def)
      qed
    qed
  qed
qed

end
