(* ===== verification/Daemon_Steps.thy ===== *)
theory Daemon_Steps
  imports Daemon_Ack
begin

text \<open>
  The handlers that are left, PING, PONG and the purge of unreachable nodes, and the daemon as a
  transition system: every handler of a record that an active connection delivers, the end of a
  connection, the purge, the recomputation and the arrival of a connection are steps, and the
  invariant of the world model holds in every state that they reach.
\<close>

section \<open>PING and PONG\<close>

definition calm :: "bool \<Rightarrow> nat \<Rightarrow> nat \<Rightarrow> bool \<times> 'g daemon \<Rightarrow> bool" where
  "calm ok k cid = (\<lambda>(nw, d'). dinv d' \<and> (ok \<longrightarrow> ready k cid d'))"

lemma calm_sent: "dinv d \<Longrightarrow> runs ok m (\<lambda>(nw, d'). sent d d' \<and> (ok \<longrightarrow> ready k cid d')) \<Longrightarrow> runs ok m (calm ok k cid)"
  by (erule runs_mono) (auto simp: calm_def dinv_sent)

lemma acked_calm: "runs ok m (calm ok k cid) \<Longrightarrow> runs ok (ok_result m) (acked ok k cid)"
  unfolding ok_result_def by (rule runs_map, erule runs_mono) (auto simp: calm_def acked_def)

lemma on_ping_runs:
  assumes "dinv d" "ok \<Longrightarrow> here cid d" "ok \<Longrightarrow> ready (Suc k) cid d"
  shows "runs ok (on_ping P cid d) (acked ok k cid)"
proof (cases "map_of (d_conns d) cid = None")
  case True
  thus ?thesis using assms(2) by (auto simp: on_ping_def here_def)
next
  case False
  have "runs ok (d_send P cid (show_request request.Pong) d) (\<lambda>(nw, d'). sent d d' \<and> (ok \<longrightarrow> ready k cid d'))"
    by (rule d_send_ready) (use assms(3) length_request [of request.Pong] in auto)
  from acked_calm [OF calm_sent [OF assms(1) this]] show ?thesis using False by (auto simp: on_ping_def)
qed

lemma own_edges_reweigh:
  assumes o: "own_edges m nodes E C N" and t: "nodes t = Some ns" and e: "ns_edge ns = Some e"
  shows "own_edges m (nodes(t \<mapsto> ns\<lparr>ns_edge_weight := w\<rparr>)) (E(e \<mapsto> (m, t, w, ns_edge_options ns))) C N"
proof (rule own_edgesI)
  fix u us assume u: "(nodes(t \<mapsto> ns\<lparr>ns_edge_weight := w\<rparr>)) u = Some us"
  show "N u \<noteq> None \<and> (ns_edge us = None \<longrightarrow> ns_conn us = None)"
    using u own_edgesD(1,2) [OF o] t by (cases "u = t") auto
  show "(E(e \<mapsto> (m, t, w, ns_edge_options ns))) f = Some (m, u, ns_edge_weight us, ns_edge_options us) \<and>
      (\<exists>i nm r w. ns_conn us = Some i \<and> C i = Some (nm, True, w) \<and> N u = Some (nm, r))" if f: "ns_edge us = Some f" for f
  proof (cases "u = t")
    case True
    thus ?thesis using u f e own_edgesD(4) [OF o t e] by auto
  next
    case False
    hence us: "nodes u = Some us" using u by simp
    have "f \<noteq> e" using own_edgesD(3) [OF o us f] own_edgesD(3) [OF o t e] False by auto
    thus ?thesis using own_edgesD(3,4) [OF o us f] by simp
  qed
next
  fix f u v x assume "(E(e \<mapsto> (m, t, w, ns_edge_options ns))) f = Some (m, u, v, x)"
  thus "\<exists>us. (nodes(t \<mapsto> ns\<lparr>ns_edge_weight := w\<rparr>)) u = Some us \<and> ns_edge us = Some f"
    using own_edgesD(5) [OF o, of f u v x] t e by (cases "f = e"; cases "u = t") auto
next
  fix i nm v assume "C i = Some (nm, True, v)"
  then obtain u r us where "N u = Some (nm, r)" "nodes u = Some us" "ns_conn us = Some i" using own_edgesD(6) [OF o] by blast
  thus "\<exists>u r us. N u = Some (nm, r) \<and> (nodes(t \<mapsto> ns\<lparr>ns_edge_weight := w\<rparr>)) u = Some us \<and> ns_conn us = Some i"
    using t by (cases "u = t") auto
qed

lemma reweigh_runs:
  assumes d: "dinv d" and t: "d_nodes d t = Some ns" "ns_edge ns = Some e" and w: "i32_range w"
  obtains g where "update_edge e w (ns_edge_options ns) (d_graph d) = Some (Some g)"
    "dinv (d\<lparr>d_graph := g, d_nodes := (d_nodes d)(t \<mapsto> ns\<lparr>ns_edge_weight := w\<rparr>), d_graph_dirty := True\<rparr>)"
proof -
  note D = dinvD [OF d]
  have ev: "EV d e = Some (d_myself d, t, ns_edge_weight ns, ns_edge_options ns)" by (rule own_edgesD(3) [OF D(3) t])
  from update_edge_view [OF D(1) this] obtain g where g: "update_edge e w (ns_edge_options ns) (d_graph d) = Some (Some g)" "graph_inv g"
    "eview g = (EV d)(e \<mapsto> (d_myself d, t, w, ns_edge_options ns))" "nview (g_nodes g) = NV d" by blast
  have "addrs_live (d_edge_addrs d) (eview g)" using D(4) g(3) by (auto simp: addrs_live_def)
  moreover have "weights_in_range (eview g)" using D(7) w g(3) by (auto simp: weights_in_range_def)
  moreover have "own_edges (d_myself d) ((d_nodes d)(t \<mapsto> ns\<lparr>ns_edge_weight := w\<rparr>)) (eview g) (CV d) (NV d)"
    unfolding g(3) by (rule own_edges_reweigh [OF D(3) t])
  ultimately have "dinv (d\<lparr>d_graph := g, d_nodes := (d_nodes d)(t \<mapsto> ns\<lparr>ns_edge_weight := w\<rparr>), d_graph_dirty := True\<rparr>)"
    using D g(2,4) by (simp add: dinv_def reach_agrees_def CV_def [abs_def])
  thus thesis using g(1) that by blast
qed

lemma announce_edge_runs:
  assumes d: "dinv d" and rd: "ok \<Longrightarrow> ready (Suc k) cid d"
  shows "runs ok (case nonce P d of (n, d) \<Rightarrow> case fmt_add_edge e n d of None \<Rightarrow> Some (False, d)
    | Some line \<Rightarrow> if s_tunnelserver (d_settings d) then d_send P cid line d else broadcast_line P line d) (calm ok k cid)"
proof -
  obtain n d1 where n: "nonce P d = (n, d1)" by fastforce
  have d1: "dinv d1" "ok \<Longrightarrow> ready (Suc k) cid d1" using nonce_sent [OF n] dinv_sent [of d d1] d rd by auto
  show ?thesis
  proof (cases "fmt_add_edge e n d1")
    case None
    thus ?thesis using n d1 ready_mono [of "Suc k" cid d1 k] by (auto simp: calm_def)
  next
    case (Some line)
    have l: "length line < 65535" by (rule fmt_add_edge_length [OF d1(1) Some nonce_less [OF n]])
    have "runs ok (d_send P cid line d1) (\<lambda>(nw, d'). sent d1 d' \<and> (ok \<longrightarrow> ready k cid d'))"
      by (rule d_send_ready) (use d1 l in auto)
    moreover have "runs ok (broadcast_line P line d1) (\<lambda>(nw, d'). sent d1 d' \<and> (ok \<longrightarrow> ready k cid d'))"
      by (rule broadcast_line_runs [OF dinv_conn_keys [OF d1(1)]]) (use d1 l in auto)
    ultimately show ?thesis using n Some calm_sent [OF d1(1)] by simp
  qed
qed

lemma srtt_weight_range: "i32_range (min (int n) 2147483647)"
  by (simp add: i32_range_def min_def)

lemma regossip_weight_runs:
  assumes d: "dinv d" and t: "d_nodes d t = Some ns" "ns_edge ns = Some e" and c: "map_of (d_conns d) cid = Some c"
    and rd: "ok \<Longrightarrow> ready (Suc k) cid d"
  shows "runs ok (regossip_weight P cid c t ns e now d) (calm ok k cid)"
proof -
  define c' where "c' = c\<lparr>c_last_weight_gossip := Some now\<rparr>"
  define d' where "d' = set_conn cid c' d"
  have td: "touched d d'" unfolding d'_def by (rule touched_set_conn [OF c]) (simp_all add: c'_def cview_def)
  have d': "dinv d'" "ok \<Longrightarrow> ready (Suc k) cid d'" "d_nodes d' t = Some ns" using d rd t touched_dinv [OF td] td touched_eqs(5) [OF td] by (auto simp: touched_def)
  obtain g where g: "update_edge e (min (int (c_srtt_ms c')) 2147483647) (ns_edge_options ns) (d_graph d') = Some (Some g)"
    "dinv (d'\<lparr>d_graph := g, d_nodes := (d_nodes d')(t \<mapsto> ns\<lparr>ns_edge_weight := min (int (c_srtt_ms c')) 2147483647\<rparr>), d_graph_dirty := True\<rparr>)"
    by (rule reweigh_runs [OF d'(1,3) t(2) srtt_weight_range])
  show ?thesis using announce_edge_runs [OF g(2), of ok k cid P e] d'(2) g(1)
    unfolding regossip_weight_def c'_def [symmetric] Let_def d'_def [symmetric] by (simp add: ready_def)
qed

lemma on_pong_rtt_runs:
  assumes d: "dinv d" and rd: "ok \<Longrightarrow> ready (Suc k) cid d"
  shows "runs ok (on_pong_rtt P cid now d) (calm ok k cid)"
proof -
  have stop: "calm ok k cid (False, d')" if "touched d d'" for d'
    using that d rd touched_dinv [OF that] ready_mono [of "Suc k" cid d k] by (auto simp: calm_def touched_def)
  show ?thesis
  proof (cases "\<exists>c. map_of (d_conns d) cid = Some c \<and> c_ping_rtt_ms c \<noteq> 0")
    case False
    thus ?thesis using stop [OF touched_refl] by (auto simp: on_pong_rtt_def split: option.splits)
  next
    case True
    then obtain c0 where c0: "map_of (d_conns d) cid = Some c0" "c_ping_rtt_ms c0 \<noteq> 0" by blast
    define c where "c = c0\<lparr>c_srtt_ms := next_srtt (c_ping_rtt_ms c0) (c_srtt_ms c0)\<rparr>"
    define d1 where "d1 = set_conn cid c d"
    have t1: "touched d d1" unfolding d1_def by (rule touched_set_conn [OF c0(1)]) (simp_all add: c_def cview_def)
    have c: "map_of (d_conns d1) cid = Some c" by (simp add: d1_def set_conn_def update_conv)
    have d1: "dinv d1" "ok \<Longrightarrow> ready (Suc k) cid d1" using d rd touched_dinv [OF t1] t1 by (auto simp: touched_def)
    have r: "runs ok (regossip_weight P cid c t ns e now d1) (calm ok k cid)" if "d_nodes d1 t = Some ns" "ns_edge ns = Some e" for t ns e
      by (rule regossip_weight_runs [OF d1(1) that c d1(2)])
    show ?thesis using c0 stop [OF t1] r
      by (simp add: on_pong_rtt_def c_def [symmetric] d1_def [symmetric] Let_def split: option.split del: max_0_1)
  qed
qed

lemma on_pong_runs:
  assumes d: "dinv d" and here: "ok \<Longrightarrow> here cid d" and rd: "ok \<Longrightarrow> ready (Suc k) cid d"
  shows "runs ok (on_pong P cid o_timeout now d) (acked ok k cid)"
proof (cases "map_of (d_conns d) cid")
  case None
  thus ?thesis using here by (auto simp: on_pong_def here_def)
next
  case (Some c0)
  define c where "c = pong_seen now c0"
  define d1 where "d1 = (case c_outgoing c of None \<Rightarrow> set_conn cid c d
    | Some oid \<Rightarrow> if o_timeout oid then emit (ConfirmOutgoing oid (c_address c)) (set_conn cid c d) else set_conn cid c d)"
  have t0: "touched d (set_conn cid c d)"
    by (rule touched_set_conn [OF Some]) (simp_all add: c_def pong_seen_def cview_def Let_def split: option.splits)
  have t1: "touched d d1" unfolding d1_def by (cases "c_outgoing c") (simp_all add: t0 touched_trans [OF t0 touched_emit])
  have "runs ok (ok_result (on_pong_rtt P cid now d1)) (acked ok k cid)"
    by (rule acked_calm, rule on_pong_rtt_runs) (use d rd touched_dinv [OF t1] t1 in \<open>auto simp: touched_def\<close>)
  thus ?thesis using Some unfolding d1_def c_def by (simp add: on_pong_def Let_def)
qed

section \<open>The purge\<close>

lemma seq_all_runs: "(\<And>x s. x \<in> set xs \<Longrightarrow> I s \<Longrightarrow> runs ok (f x s) I) \<Longrightarrow> I s \<Longrightarrow> runs ok (seq_all f xs s) I"
proof (induction xs arbitrary: s)
  case (Cons x xs)
  have "runs ok (f x s) I" using Cons.prems by simp
  hence "runs ok (Option.bind (f x s) (seq_all f xs)) I" by (rule runs_seq) (rule Cons.IH, use Cons.prems in auto)
  thus ?case by simp
qed simp

text \<open>The first pass takes edges away and subnets, and nothing else of the graph.\<close>

definition thinned :: "'g daemon \<Rightarrow> bool \<times> 'g daemon \<Rightarrow> bool" where
  "thinned d = (\<lambda>(nw, d'). dinv d' \<and> NV d' = NV d \<and> EV d' \<subseteq>\<^sub>m EV d)"

lemma thinned_trans: "thinned d (nw, d') \<Longrightarrow> thinned d' x \<Longrightarrow> thinned d x"
  by (auto simp: thinned_def intro: map_le_trans)

lemma purge_subnet_runs:
  assumes t: "thinned d0 s" and sub: "subnet_ok x"
  shows "runs False (purge_subnet P nm x s) (thinned d0)"
proof -
  obtain nw d where s: "s = (nw, d)" by (cases s)
  obtain n d1 where n: "nonce P d = (n, d1)" by fastforce
  have d: "dinv d" using t s by (simp add: thinned_def)
  have d1: "sent d d1" "dinv d1" using nonce_sent [OF n] dinv_sent [of d d1] d by auto
  have "runs False (broadcast_line P (subnet_msg_format request.DelSubnet n \<lparr>sm_owner = nm, sm_subnet = x\<rparr>) d1) (\<lambda>(nw, d'). sent d1 d' \<and> (False \<longrightarrow> ready 0 0 d'))"
    by (rule broadcast_line_runs [OF dinv_conn_keys [OF d1(2)]]) simp_all
  moreover have "thinned d0 (b, if s_strictsubnets (d_settings d2) then d2
      else let d = d2\<lparr>d_subnets := snd (tree_del x nm (d_subnets d2))\<rparr>
           in (case x of Mac addr _ \<Rightarrow> if d_mac_table d addr = Some nm then d\<lparr>d_mac_table := (d_mac_table d)(addr := None)\<rparr> else d | _ \<Rightarrow> d))"
    if "sent d1 d2" for b d2
  proof -
    have d2: "dinv d2" "NV d2 = NV d" "EV d2 = EV d" using dinv_sent [OF that] d1(2) sent_eqs(1) [OF that] sent_eqs(1) [OF d1(1)] by simp_all
    have "tree_ok (d_subnets d2)" "\<And>y ow. (y, Some ow) \<in> entries (d_subnets d2) \<Longrightarrow> length ow \<le> MAX_STRING"
      using dinvD(8) [OF d2(1)] by (auto simp: subnets_ok_def)
    hence "subnets_ok (snd (tree_del x nm (d_subnets d2)))" using tree_remove_ok [OF _ sub, of "d_subnets d2" "Some nm"] by (auto simp: tree_del_def subnets_ok_def)
    from dinv_subnets [OF d2(1) this] show ?thesis using d2 t s by (auto simp: thinned_def Let_def split: subnet.split)
  qed
  ultimately show ?thesis using s n unfolding purge_subnet_def
    by (simp only: prod.case Let_def) (erule runs_seq, auto)
qed

lemma purge_edge_runs:
  assumes t: "dinv d" and n: "\<not> node_reachable d nid" and e: "\<And>x. get_edge (d_graph d) eid = Some x \<Longrightarrow> ge_from x = nid"
  shows "runs False (purge_edge P nm eid (nw, d)) (\<lambda>(nw', d'). dinv d' \<and> NV d' = NV d \<and> EV d' = (EV d)(eid := None))"
proof (cases "get_edge (d_graph d) eid")
  case None
  hence "EV d eid = None" by (simp add: eview_def get_edge_def)
  thus ?thesis using None t by (simp add: purge_edge_def fun_upd_idem)
next
  case (Some x)
  have ev: "EV d eid = Some (nid, ge_to x, ge_weight x, ge_options x)" using Some e [OF Some] by (simp add: eview_def get_edge_def)
  define m where "m = (if s_tunnelserver (d_settings d) then Some (False, d)
    else case nonce P d of (n, d1) \<Rightarrow> broadcast_line P (del_edge_format n \<lparr>de_from = nm, de_to = node_log_name d (ge_to x)\<rparr>) d1)"
  have m: "runs False m (\<lambda>(nw, d'). sent d d')"
  proof (cases "s_tunnelserver (d_settings d)")
    case False
    obtain n d1 where n: "nonce P d = (n, d1)" by fastforce
    have d1: "sent d d1" "dinv d1" using nonce_sent [OF n] dinv_sent [of d d1] t by auto
    have "runs False (broadcast_line P (del_edge_format n \<lparr>de_from = nm, de_to = node_log_name d (ge_to x)\<rparr>) d1) (\<lambda>(nw, d'). sent d1 d' \<and> (False \<longrightarrow> ready 0 0 d'))"
      by (rule broadcast_line_runs [OF dinv_conn_keys [OF d1(2)]]) simp_all
    thus ?thesis using False n sent_trans [OF d1(1)] by (auto simp: m_def elim!: runs_mono)
  qed (simp add: m_def)
  have "runs False (do { (nw2, d) \<leftarrow> m; d \<leftarrow> drop_edge eid d; Some (nw \<or> nw2, d) }) (\<lambda>(nw', d'). dinv d' \<and> NV d' = NV d \<and> EV d' = (EV d)(eid := None))"
  proof (rule runs_seq [OF m], clarify)
    fix nw2 d' assume s: "sent d d'"
    hence d': "dinv d'" "d_graph d' = d_graph d" using t dinv_sent [OF s] sent_eqs(1) [OF s] by simp_all
    obtain g' where "drop_edge eid d' = Some (d'\<lparr>d_graph := g', d_edge_addrs := (d_edge_addrs d')(eid := None)\<rparr>)"
      "eview g' = (EV d')(eid := None)" "nview (g_nodes g') = NV d'" "dinv (d'\<lparr>d_graph := g', d_edge_addrs := (d_edge_addrs d')(eid := None)\<rparr>)"
      by (rule drop_edge_unreachable [OF d'(1)]) (use ev d' n in \<open>auto simp: node_reachable_def\<close>)
    thus "runs False (do { d \<leftarrow> drop_edge eid d'; Some (nw \<or> nw2, d) }) (\<lambda>(nw', d'). dinv d' \<and> NV d' = NV d \<and> EV d' = (EV d)(eid := None))"
      using d'(2) by simp
  qed
  thus ?thesis using Some unfolding m_def by (simp only: purge_edge_def Let_def prod.case option.case)
qed

lemma node_reachable_view: "NV d n = Some (nm, r) \<Longrightarrow> node_reachable d n = r"
  using nview_get_node [of "d_graph d" n nm r] by (auto simp: node_reachable_def)

lemma purge_edges_runs:
  "dinv d \<Longrightarrow> NV d nid = Some (nm, False) \<Longrightarrow> (\<And>e a b w x. e \<in> set es \<Longrightarrow> EV d e = Some (a, b, w, x) \<Longrightarrow> a = nid) \<Longrightarrow>
   runs False (seq_all (purge_edge P nm) es (nw, d)) (\<lambda>(nw', d'). dinv d' \<and> NV d' = NV d \<and> EV d' = (\<lambda>i. if i \<in> set es then None else EV d i))"
proof (induction es arbitrary: d nw)
  case (Cons e es)
  have "runs False (purge_edge P nm e (nw, d)) (\<lambda>(nw', d'). dinv d' \<and> NV d' = NV d \<and> EV d' = (EV d)(e := None))"
  proof (rule purge_edge_runs [OF Cons.prems(1)])
    show "\<not> node_reachable d nid" using node_reachable_view [OF Cons.prems(2)] by simp
    fix x assume "get_edge (d_graph d) e = Some x"
    hence "EV d e = Some (ge_from x, ge_to x, ge_weight x, ge_options x)" by (simp add: eview_def get_edge_def)
    thus "ge_from x = nid" using Cons.prems(3) by force
  qed
  hence "runs False (Option.bind (purge_edge P nm e (nw, d)) (seq_all (purge_edge P nm) es))
      (\<lambda>(nw', d'). dinv d' \<and> NV d' = NV d \<and> EV d' = (\<lambda>i. if i \<in> set (e # es) then None else EV d i))"
  proof (rule runs_seq, clarify)
    fix nw1 and d1 :: "'a daemon" assume d1: "dinv d1" "NV d1 = NV d" "EV d1 = (EV d)(e := None)"
    have "runs False (seq_all (purge_edge P nm) es (nw1, d1)) (\<lambda>(nw', d'). dinv d' \<and> NV d' = NV d1 \<and> EV d' = (\<lambda>i. if i \<in> set es then None else EV d1 i))"
    proof (rule Cons.IH)
      show "a = nid" if "f \<in> set es" "EV d1 f = Some (a, b, w, x)" for f a b w x
        using that d1(3) Cons.prems(3) [of f a b w x] by (simp split: if_splits)
    qed (use d1 Cons.prems(2) in simp_all)
    thus "runs False (seq_all (purge_edge P nm) es (nw1, d1))
        (\<lambda>(nw', d'). dinv d' \<and> NV d' = NV d \<and> EV d' = (\<lambda>i. if i \<in> set (e # es) then None else EV d i))"
      by (rule runs_mono) (auto simp: d1 fun_eq_iff)
  qed
  thus ?case by simp
qed simp

lemma node_edges_view: "graph_inv g \<Longrightarrow> nview (g_nodes g) n = Some (nm, r) \<Longrightarrow> e \<in> set (node_edges g n) \<longleftrightarrow> (\<exists>b w x. eview g e = Some (n, b, w, x))"
  using nview_get_node [of g n nm r] graph_invD(5) [of g]
  by (fastforce simp: node_edges_def get_node_def lists_ok_def core_def eview_def)

definition no_out :: "nat \<Rightarrow> (nat \<Rightarrow> edge_view option) \<Rightarrow> bool" where
  "no_out n E \<longleftrightarrow> (\<forall>e b w x. E e \<noteq> Some (n, b, w, x))"

lemma no_out_le: "no_out n E \<Longrightarrow> E' \<subseteq>\<^sub>m E \<Longrightarrow> no_out n E'"
  unfolding no_out_def map_le_def by (metis domI)

lemma purge_node_runs:
  assumes d: "dinv d" and n: "NV d nid = Some (nm, False)"
  shows "runs False (purge_node P (nid, nm) (nw, d)) (\<lambda>x. thinned d x \<and> no_out nid (EV (snd x)))"
proof -
  have "\<forall>x \<in> set (owned_by (d_subnets d) nm). subnet_ok x"
    using dinvD(8) [OF d] entries_subnet_ok by (auto simp: owned_by_def subnets_ok_def tree_iter_entries)
  hence "runs False (seq_all (purge_subnet P nm) (owned_by (d_subnets d) nm) (nw, d)) (thinned d)"
    by (intro seq_all_runs purge_subnet_runs) (auto simp: thinned_def d)
  thus ?thesis unfolding purge_node_def prod.case
  proof (rule runs_seq)
    fix x assume x: "thinned d x"
    obtain nw1 d1 where x1: "x = (nw1, d1)" by (cases x)
    have d1: "dinv d1" "NV d1 = NV d" "EV d1 \<subseteq>\<^sub>m EV d" using x x1 by (simp_all add: thinned_def)
    have n1: "NV d1 nid = Some (nm, False)" using n d1(2) by simp
    note es = node_edges_view [OF dinvD(1) [OF d1(1)] n1]
    have "runs False (seq_all (purge_edge P nm) (node_edges (d_graph d1) nid) (nw1, d1)) (\<lambda>(nw', d'). dinv d' \<and> NV d' = NV d1 \<and> EV d' = (\<lambda>i. if i \<in> set (node_edges (d_graph d1) nid) then None else EV d1 i))"
      by (rule purge_edges_runs [OF d1(1) n1]) (simp add: es)
    moreover have "(\<lambda>i. if i \<in> set (node_edges (d_graph d1) nid) then None else EV d1 i) \<subseteq>\<^sub>m EV d"
      using d1(3) by (auto simp: map_le_def split: if_splits)
    moreover have "no_out nid (\<lambda>i. if i \<in> set (node_edges (d_graph d1) nid) then None else EV d1 i)" using es by (auto simp: no_out_def)
    ultimately show "runs False (case x of (nw, d) \<Rightarrow> seq_all (purge_edge P nm) (node_edges (d_graph d) nid) (nw, d)) (\<lambda>x. thinned d x \<and> no_out nid (EV (snd x)))"
      using x1 d1(2) by (simp add: thinned_def) (erule runs_mono, auto)
  qed
qed

lemma purge_nodes_runs:
  "dinv d \<Longrightarrow> (\<And>n nm. (n, nm) \<in> set ns \<Longrightarrow> NV d n = Some (nm, False)) \<Longrightarrow>
   runs False (seq_all (purge_node P) ns (nw, d)) (\<lambda>x. thinned d x \<and> (\<forall>(n, nm) \<in> set ns. no_out n (EV (snd x))))"
proof (induction ns arbitrary: d nw)
  case (Cons u ns)
  obtain n nm where u: "u = (n, nm)" by (cases u)
  have "runs False (purge_node P u (nw, d)) (\<lambda>x. thinned d x \<and> no_out n (EV (snd x)))"
    unfolding u by (rule purge_node_runs) (use Cons.prems u in auto)
  hence "runs False (Option.bind (purge_node P u (nw, d)) (seq_all (purge_node P) ns)) (\<lambda>x. thinned d x \<and> (\<forall>(n, nm) \<in> set (u # ns). no_out n (EV (snd x))))"
  proof (rule runs_seq)
    fix x assume x: "thinned d x \<and> no_out n (EV (snd x))"
    obtain nw1 d1 where x1: "x = (nw1, d1)" by (cases x)
    have d1: "dinv d1" "NV d1 = NV d" "thinned d (nw1, d1)" "no_out n (EV d1)" using x x1 by (simp_all add: thinned_def)
    have "runs False (seq_all (purge_node P) ns (nw1, d1)) (\<lambda>x. thinned d1 x \<and> (\<forall>(n, nm) \<in> set ns. no_out n (EV (snd x))))"
      by (rule Cons.IH) (use d1 Cons.prems in auto)
    thus "runs False (seq_all (purge_node P) ns x) (\<lambda>x. thinned d x \<and> (\<forall>(n, nm) \<in> set (u # ns). no_out n (EV (snd x))))"
      unfolding x1 by (rule runs_mono) (use thinned_trans [OF d1(3)] no_out_le [OF d1(4)] u in \<open>auto simp: thinned_def\<close>)
  qed
  thus ?case by simp
qed (simp add: thinned_def)

lemma names_agree_del:
  assumes a: "names_agree m me ids N" and n: "N i = Some (nm, False)" and inj: "\<And>j r. N j = Some (nm, r) \<Longrightarrow> j = i"
  shows "names_agree m me (AList.delete nm ids) (N(i := None))"
proof -
  have "map_of (AList.delete nm ids) x = Some j \<longleftrightarrow> (\<exists>r. (N(i := None)) j = Some (x, r))" for x j
  proof (cases "x = nm")
    case True
    have "\<not> (\<exists>r. (N(i := None)) j = Some (nm, r))" using inj [of j] by auto
    thus ?thesis using True by (simp add: delete_conv)
  next
    case False
    hence "(\<exists>r. (N(i := None)) j = Some (x, r)) \<longleftrightarrow> (\<exists>r. N j = Some (x, r))" using n by auto
    moreover have "map_of (AList.delete nm ids) x = map_of ids x" using False by (simp add: delete_conv)
    ultimately show ?thesis using names_agreeD(2) [OF a, of x j] by (simp only:)
  qed
  moreover have "m \<noteq> i" using names_agreeD(3) [OF a] n by auto
  moreover have "length x \<le> MAX_STRING" if "(N(i := None)) j = Some (x, r)" for j x r using that names_agreeD(4) [OF a, of j x r] by (simp split: if_splits)
  ultimately show ?thesis using names_agreeD(1,3) [OF a] distinct_delete [of ids nm] unfolding names_agree_def by simp
qed

lemma own_edges_del_node:
  assumes o: "own_edges m nodes E C N" and no_in: "\<And>e w x. E e \<noteq> Some (m, i, w, x)"
  shows "own_edges m (nodes(i := None)) E C (N(i := None))"
proof -
  have free: "ns_edge ns = None \<and> ns_conn ns = None" if "nodes i = Some ns" for ns
    using own_edgesD(2,3) [OF o that] no_in by (cases "ns_edge ns") auto
  show ?thesis
  proof (rule own_edgesI)
    fix t ns assume t: "(nodes(i := None)) t = Some ns"
    hence t': "t \<noteq> i" "nodes t = Some ns" by (auto split: if_splits)
    show "(N(i := None)) t \<noteq> None \<and> (ns_edge ns = None \<longrightarrow> ns_conn ns = None)" using own_edgesD(1,2) [OF o t'(2)] t'(1) by simp
    show "E e = Some (m, t, ns_edge_weight ns, ns_edge_options ns) \<and> (\<exists>c nm r w. ns_conn ns = Some c \<and> C c = Some (nm, True, w) \<and> (N(i := None)) t = Some (nm, r))"
      if "ns_edge ns = Some e" for e using own_edgesD(3,4) [OF o t'(2) that] t'(1) by simp
  next
    fix e t w x assume e: "E e = Some (m, t, w, x)"
    hence "t \<noteq> i" using no_in by auto
    thus "\<exists>ns. (nodes(i := None)) t = Some ns \<and> ns_edge ns = Some e" using own_edgesD(5) [OF o e] by auto
  next
    fix c nm w assume "C c = Some (nm, True, w)"
    then obtain t r ns where t: "N t = Some (nm, r)" "nodes t = Some ns" "ns_conn ns = Some c" using own_edgesD(6) [OF o] by blast
    hence "t \<noteq> i" using free by auto
    thus "\<exists>t r ns. (N(i := None)) t = Some (nm, r) \<and> (nodes(i := None)) t = Some ns \<and> ns_conn ns = Some c" using t by auto
  qed
qed

lemma dinv_del_node:
  assumes d: "dinv d" and n: "NV d i = Some (nm, False)" and iso: "no_out i (EV d)" "\<And>e a w x. EV d e \<noteq> Some (a, i, w, x)"
  obtains g where "del_node i (d_graph d) = Some (Some g)" "eview g = EV d" "nview (g_nodes g) = (NV d)(i := None)"
    "dinv (d\<lparr>d_node_ids := AList.delete nm (d_node_ids d), d_id6 := t6, d_nodes := (d_nodes d)(i := None), d_tunnels := tn, d_graph := g\<rparr>)"
proof -
  note D = dinvD [OF d]
  have "NV d i \<noteq> None" using n by simp
  from del_node_view [OF D(1) this] obtain g where g: "del_node i (d_graph d) = Some (Some g)" "graph_inv g" "eview g = EV d"
    "nview (g_nodes g) = (NV d)(i := None)" using iso unfolding no_out_def by metis
  have "names_agree (d_myself d) (d_name d) (AList.delete nm (d_node_ids d)) ((NV d)(i := None))"
    by (rule names_agree_del [OF D(2) n]) (use nview_inj [OF D(1) _ n] in blast)
  moreover have "own_edges (d_myself d) ((d_nodes d)(i := None)) (EV d) (CV d) ((NV d)(i := None))"
    by (rule own_edges_del_node [OF D(3)]) (rule iso(2))
  moreover have "reach_agrees (d_graph_dirty d) (d_myself d) (d_last_routes d) (EV d) ((NV d)(i := None))"
    using D(5) unfolding reach_agrees_def by auto
  ultimately have "dinv (d\<lparr>d_node_ids := AList.delete nm (d_node_ids d), d_id6 := t6, d_nodes := (d_nodes d)(i := None), d_tunnels := tn, d_graph := g\<rparr>)"
    using D g by (simp add: dinv_def CV_def [abs_def])
  thus thesis using g that by blast
qed

text \<open>The second pass returns: the nodes it deletes have no edge left in either direction.\<close>

lemma purge_orphans_runs:
  "dinv d \<Longrightarrow> distinct (map fst ns) \<Longrightarrow> (\<And>n nm. (n, nm) \<in> set ns \<Longrightarrow> NV d n = Some (nm, False) \<and> no_out n (EV d)) \<Longrightarrow>
   (\<And>e a b w x. EV d e = Some (a, b, w, x) \<Longrightarrow> b \<in> targets) \<Longrightarrow>
   \<exists>whole d'. purge_orphans targets ns d = Some (whole, d') \<and> dinv d'"
proof (induction ns arbitrary: d)
  case (Cons u ns)
  obtain n nm where u: "u = (n, nm)" by (cases u)
  have n: "NV d n = Some (nm, False)" "no_out n (EV d)" using Cons.prems(3) u by auto
  show ?case
  proof (cases "n \<notin> targets \<and> \<not> s_autoconnect (d_settings d) \<and> (\<not> s_strictsubnets (d_settings d) \<or> owned_by (d_subnets d) nm = [])")
    case True
    obtain g where g: "del_node n (d_graph d) = Some (Some g)" "eview g = EV d" "nview (g_nodes g) = (NV d)(n := None)"
      "dinv (d\<lparr>d_node_ids := AList.delete nm (d_node_ids d), d_id6 := id6_remove n (d_id6 d), d_nodes := (d_nodes d)(n := None),
        d_tunnels := (d_tunnels d)(n := None), d_graph := g\<rparr>)"
      by (rule dinv_del_node [OF Cons.prems(1) n]) (use Cons.prems(4) True in blast)+
    have "\<exists>whole d'. purge_orphans targets ns (d\<lparr>d_node_ids := AList.delete nm (d_node_ids d), d_id6 := id6_remove n (d_id6 d),
        d_nodes := (d_nodes d)(n := None), d_tunnels := (d_tunnels d)(n := None), d_graph := g\<rparr>) = Some (whole, d') \<and> dinv d'"
    proof (rule Cons.IH [OF g(4)])
      fix k km assume k: "(k, km) \<in> set ns"
      hence "k \<noteq> n" using Cons.prems(2) u by force
      thus "NV (d\<lparr>d_node_ids := AList.delete nm (d_node_ids d), d_id6 := id6_remove n (d_id6 d), d_nodes := (d_nodes d)(n := None),
          d_tunnels := (d_tunnels d)(n := None), d_graph := g\<rparr>) k = Some (km, False) \<and>
        no_out k (EV (d\<lparr>d_node_ids := AList.delete nm (d_node_ids d), d_id6 := id6_remove n (d_id6 d), d_nodes := (d_nodes d)(n := None),
          d_tunnels := (d_tunnels d)(n := None), d_graph := g\<rparr>))" using Cons.prems(3) [of k km] k g(2,3) by simp
    qed (use Cons.prems(2,4) g(2) u in auto)
    thus ?thesis using True u g(1) node_reachable_view [OF n(1)] by simp
  next
    case False
    have "\<exists>whole d'. purge_orphans targets ns d = Some (whole, d') \<and> dinv d'" by (rule Cons.IH) (use Cons.prems in auto)
    thus ?thesis using False u node_reachable_view [OF n(1)] Cons.prems(1) by auto
  qed
qed auto

lemma purge_unreachable_view:
  "(n, nm) \<in> set (purge_unreachable d) \<longleftrightarrow> NV d n = Some (nm, False)" "distinct (map fst (purge_unreachable d))"
proof -
  have *: "map fst (List.map_filter (\<lambda>n. case G n of None \<Rightarrow> None | Some nd \<Rightarrow> if gn_reachable nd then None else Some (n, gn_name nd)) xs) =
      filter (\<lambda>n. \<exists>nd. G n = Some nd \<and> \<not> gn_reachable nd) xs" for G :: "nat \<Rightarrow> gnode option" and xs
    by (induction xs) (auto simp: map_filter_simps split: option.splits)
  show "distinct (map fst (purge_unreachable d))" unfolding purge_unreachable_def * by (simp add: node_ids_def)
  show "(n, nm) \<in> set (purge_unreachable d) \<longleftrightarrow> NV d n = Some (nm, False)"
    by (force simp: purge_unreachable_def List.map_filter_def nview_slot get_node_def node_ids_def slot_def split: option.splits if_splits)
qed

lemma purge_runs:
  assumes d: "dinv d"
  shows "runs False (purge P d) (\<lambda>(nw, d'). dinv d')"
proof -
  have "runs False (seq_all (purge_node P) (purge_unreachable d) (False, d)) (\<lambda>x. thinned d x \<and> (\<forall>(n, nm) \<in> set (purge_unreachable d). no_out n (EV (snd x))))"
    by (rule purge_nodes_runs [OF d]) (simp add: purge_unreachable_view)
  thus ?thesis unfolding purge_def Let_def
  proof (rule runs_seq)
    fix x assume x: "thinned d x \<and> (\<forall>(n, nm) \<in> set (purge_unreachable d). no_out n (EV (snd x)))"
    obtain nw d1 where x1: "x = (nw, d1)" by (cases x)
    have d1: "dinv d1" "NV d1 = NV d" using x x1 by (simp_all add: thinned_def)
    obtain whole d2 where "purge_orphans ((\<lambda>(i, e). ge_to e) ` set (edge_iter (d_graph d1))) (purge_unreachable d) d1 = Some (whole, d2)" "dinv d2"
      using purge_orphans_runs [OF d1(1) purge_unreachable_view(2) [of d], of "(\<lambda>(i, e). ge_to e) ` set (edge_iter (d_graph d1))"] x x1 d1(2)
      by (force simp: purge_unreachable_view set_edge_iter eview_def)
    thus "runs False (case x of (nw, d1) \<Rightarrow> do { (whole, d) \<leftarrow> purge_orphans ((\<lambda>(i, e). ge_to e) ` set (edge_iter (d_graph d1))) (purge_unreachable d) d1;
        if \<not> whole then Some (nw, d) else
          Some (nw, tx_snap_refresh_subnets (tx_snap_refresh_graph d)\<lparr>d_tx_snap := map_option (\<lambda>s. s\<lparr>sn_tunnels := sn_tunnels s \<inter>
            d_tunnel_handles (tx_snap_refresh_subnets (tx_snap_refresh_graph d))\<rparr>) (d_tx_snap (tx_snap_refresh_subnets (tx_snap_refresh_graph d)))\<rparr>) }) (\<lambda>(nw, d'). dinv d')"
      using x1 by (auto simp: tx_snap_refresh_subnets_def tx_snap_refresh_graph_def)
  qed
qed

end
