(* ===== verification/Daemon_Run.thy ===== *)
theory Daemon_Run
  imports Daemon_Steps
begin

text \<open>
  The daemon as a transition system: the state that \<open>Daemon::setup\<close> builds, the events that change the
  world model, and the states they reach. The invariant of the world model holds in all of them; the
  theorems at the end read it out.
\<close>

section \<open>The start\<close>

definition parse_subnets_from_config :: "string list \<Rightarrow> subnet list" where
  "parse_subnets_from_config values = remdups (List.map_filter parse_subnet values)"

text \<open>\<open>None\<close> is the \<open>expect\<close> on a hard-coded subnet.\<close>

definition add_broadcast_subnets :: "string list \<Rightarrow> subnet_tree \<Rightarrow> subnet_tree option" where
  "add_broadcast_subnets values t = do {
     t \<leftarrow> seq_all (\<lambda>s t. map_option (\<lambda>x. add_broadcast x t) (parse_subnet s))
            [''ff:ff:ff:ff:ff:ff'', ''255.255.255.255'', ''224.0.0.0/4'', ''ff00::/8''] t;
     Some (fold (\<lambda>s t. case parse_subnet s of Some x \<Rightarrow> add_broadcast x t | None \<Rightarrow> t) values t) }"

text \<open>\<open>subs\<close> and \<open>bcasts\<close> are the values of \<open>Subnet\<close> and \<open>BroadcastSubnet\<close> in the configuration.\<close>

definition daemon_new ::
    "'g prims \<Rightarrow> string \<Rightarrow> nat \<Rightarrow> string list \<Rightarrow> string list \<Rightarrow> daemon_settings \<Rightarrow> instant \<Rightarrow> 'g \<Rightarrow> 'g daemon option" where
  "daemon_new P name port subs bcasts settings now rng = do {
     (myself, graph) \<leftarrow> add_node name graph_new;
     subnets \<leftarrow> add_broadcast_subnets bcasts (fold (\<lambda>s. tree_add s name) (parse_subnets_from_config subs) tree_new);
     Some \<lparr>d_conns = [], d_pending_meta = 0, d_name = name, d_my_udp_port = port, d_graph = graph, d_node_ids = [(name, myself)],
           d_myself = myself, d_subnets = subnets, d_seen = seen_new, d_nodes = Map.empty, d_edge_addrs = Map.empty,
           d_tunnels = Map.empty, d_id6 = id6_add P name myself id6_new, d_contradicting_add_edge = 0,
           d_contradicting_del_edge = 0, d_graph_dirty = False, d_last_routes = [], d_last_mst = [], d_mac_table = Map.empty,
           d_mac_leases = \<lparr>leases = []\<rparr>, d_settings = settings, d_device_enabled = False, d_now = now, d_tx_snap = None,
           d_tunnel_handles = {}, d_effects = [], d_rng = rng\<rparr> }"

lemma subnets_ok_add: "subnets_ok t \<Longrightarrow> subnet_ok s \<Longrightarrow> length nm \<le> MAX_STRING \<Longrightarrow> subnets_ok (tree_add s nm t)"
  "subnets_ok t \<Longrightarrow> subnet_ok s \<Longrightarrow> subnets_ok (add_broadcast s t)"
  using tree_insert_ok [of t s "Some nm"] tree_insert_ok [of t s None] by (auto simp: subnets_ok_def tree_add_def add_broadcast_def)

lemma fold_invariant: "(\<And>x t. x \<in> set xs \<Longrightarrow> Q t \<Longrightarrow> Q (f x t)) \<Longrightarrow> Q t \<Longrightarrow> Q (fold f xs t)"
  by (induction xs arbitrary: t) auto

lemma hard_coded_broadcasts:
  "parse_subnet ''ff:ff:ff:ff:ff:ff'' = Some (Mac [255, 255, 255, 255, 255, 255] 10)"
  "parse_subnet ''255.255.255.255'' = Some (V4 [255, 255, 255, 255] 32 10)"
  "parse_subnet ''224.0.0.0/4'' = Some (V4 [224, 0, 0, 0] 4 10)"
  "parse_subnet ''ff00::/8'' = Some (V6 [255, 0, 0, 0, 0, 0, 0, 0, 0, 0, 0, 0, 0, 0, 0, 0] 8 10)"
proof -
  have "show_subnet (Mac [255, 255, 255, 255, 255, 255] 10) = ''ff:ff:ff:ff:ff:ff''" by code_simp
  thus "parse_subnet ''ff:ff:ff:ff:ff:ff'' = Some (Mac [255, 255, 255, 255, 255, 255] 10)"
    using parse_show_subnet [of "Mac [255, 255, 255, 255, 255, 255] 10"] by (simp add: i32_range_def)
  have "show_subnet (V4 [255, 255, 255, 255] 32 10) = ''255.255.255.255''" by code_simp
  thus "parse_subnet ''255.255.255.255'' = Some (V4 [255, 255, 255, 255] 32 10)"
    using parse_show_subnet [of "V4 [255, 255, 255, 255] 32 10"] by (simp add: i32_range_def)
  have "show_subnet (V4 [224, 0, 0, 0] 4 10) = ''224.0.0.0/4''" by code_simp
  thus "parse_subnet ''224.0.0.0/4'' = Some (V4 [224, 0, 0, 0] 4 10)"
    using parse_show_subnet [of "V4 [224, 0, 0, 0] 4 10"] by (simp add: i32_range_def)
  have "show_subnet (V6 [255, 0, 0, 0, 0, 0, 0, 0, 0, 0, 0, 0, 0, 0, 0, 0] 8 10) = ''ff00::/8''"
    by (simp add: show_subnet_simps show_ipv6_def fmt_subslice_def show_hex_def show_radix.simps digit_char_def prefix_suffix_def
        weight_suffix_def show_int_def DEFAULT_WEIGHT_def)
  thus "parse_subnet ''ff00::/8'' = Some (V6 [255, 0, 0, 0, 0, 0, 0, 0, 0, 0, 0, 0, 0, 0, 0, 0] 8 10)"
    using parse_show_subnet [of "V6 [255, 0, 0, 0, 0, 0, 0, 0, 0, 0, 0, 0, 0, 0, 0, 0] 8 10"] by (simp add: i32_range_def)
qed

lemma add_broadcast_keeps:
  "subnets_ok t \<and> set (tree_iter t) = own \<Longrightarrow> parse_subnet s = Some x \<Longrightarrow> subnets_ok (add_broadcast x t) \<and> set (tree_iter (add_broadcast x t)) = own"
  using tree_insert_ok [OF _ parse_subnet_ok [of s x], of t None] by (auto simp: subnets_ok_def add_broadcast_def tree_iter_entries)

lemma add_broadcast_subnets_ok:
  assumes "subnets_ok t"
  shows "\<exists>t'. add_broadcast_subnets values t = Some t' \<and> subnets_ok t' \<and> set (tree_iter t') = set (tree_iter t)"
proof -
  let ?Q = "\<lambda>u. subnets_ok u \<and> set (tree_iter u) = set (tree_iter t)"
  have q: "?Q (case parse_subnet s of Some x \<Rightarrow> add_broadcast x u | None \<Rightarrow> u)" if "?Q u" for s u
    using that add_broadcast_keeps [OF that, of s] by (cases "parse_subnet s") auto
  have f: "?Q (fold (\<lambda>s t. case parse_subnet s of Some x \<Rightarrow> add_broadcast x t | None \<Rightarrow> t) values u)" if "?Q u" for u
    by (rule fold_invariant [where Q = "?Q"]) (use q that in auto)
  note h = hard_coded_broadcasts and p = add_broadcast_keeps [where own = "set (tree_iter t)"]
  have "?Q t" using assms by simp
  from f [OF p [OF p [OF p [OF p [OF this h(1)] h(2)] h(3)] h(4)]] show ?thesis
    unfolding add_broadcast_subnets_def by (simp only: seq_all.simps h option.map bind.simps) blast
qed

lemma no_edges_reach: "(two_way (\<lambda>e. None))\<^sup>*\<^sup>* a b \<longleftrightarrow> a = b"
proof
  assume "(two_way (\<lambda>e. None))\<^sup>*\<^sup>* a b"
  thus "a = b" by (induction rule: rtranclp_induct) (auto simp: two_way_def has_edge_def)
qed simp

lemma daemon_new_ok:
  assumes nm: "length name \<le> MAX_STRING" and port: "port < 65536"
  obtains d where "daemon_new P name port subs bcasts settings now rng = Some d" "dinv d" "d_name d = name" "d_conns d = []"
    "length (d_node_ids d) = 1" "EV d = Map.empty" "subs = [] \<Longrightarrow> tree_iter (d_subnets d) = []"
proof -
  have g0: "graph_inv graph_new" "nview (g_nodes graph_new) = Map.empty" "eview graph_new = Map.empty" "g_node_free graph_new = []" "g_nodes graph_new = []"
    using graph_inv_new by (simp_all add: graph_new_def nview_def eview_def slot_def fun_eq_iff)
  obtain i g where g: "add_node name graph_new = Some (i, g)" "graph_inv g" "nview (g_nodes g) = [i \<mapsto> (name, True)]" "eview g = Map.empty"
    using add_node_view [OF g0(1), of name] g0 by (auto simp: fits_u32_def)
  have "subnets_ok (fold (\<lambda>s. tree_add s name) (parse_subnets_from_config subs) tree_new)"
  proof (rule fold_invariant [where Q = subnets_ok])
    fix s t assume "s \<in> set (parse_subnets_from_config subs)" "subnets_ok t"
    moreover from this obtain v where "parse_subnet v = Some s" by (auto simp: parse_subnets_from_config_def List.map_filter_def)
    ultimately show "subnets_ok (tree_add s name t)" using subnets_ok_add(1) [OF _ parse_subnet_ok nm] by blast
  next
    show "subnets_ok tree_new" using tree_ok_new by (simp add: subnets_ok_def entries_def tree_new_def bt_values_def)
  qed
  then obtain t where t: "add_broadcast_subnets bcasts (fold (\<lambda>s. tree_add s name) (parse_subnets_from_config subs) tree_new) = Some t" "subnets_ok t"
    "set (tree_iter t) = set (tree_iter (fold (\<lambda>s. tree_add s name) (parse_subnets_from_config subs) tree_new))"
    using add_broadcast_subnets_ok by blast
  have "tree_iter tree_new = []" by (simp add: tree_iter_def tree_new_def bt_values_def)
  hence none: "tree_iter t = []" if "subs = []" using t(3) that by (simp add: parse_subnets_from_config_def List.map_filter_def)
  show thesis
  proof (rule that)
    show "daemon_new P name port subs bcasts settings now rng = Some \<lparr>d_conns = [], d_pending_meta = 0, d_name = name, d_my_udp_port = port, d_graph = g, d_node_ids = [(name, i)],
           d_myself = i, d_subnets = t, d_seen = seen_new, d_nodes = Map.empty, d_edge_addrs = Map.empty,
           d_tunnels = Map.empty, d_id6 = id6_add P name i id6_new, d_contradicting_add_edge = 0,
           d_contradicting_del_edge = 0, d_graph_dirty = False, d_last_routes = [], d_last_mst = [], d_mac_table = Map.empty,
           d_mac_leases = \<lparr>leases = []\<rparr>, d_settings = settings, d_device_enabled = False, d_now = now, d_tx_snap = None,
           d_tunnel_handles = {}, d_effects = [], d_rng = rng\<rparr>" by (simp add: daemon_new_def g(1) t(1))
  qed (use g t(1,2) none nm port in \<open>auto simp: dinv_def names_agree_def own_edges_def addrs_live_def reach_agrees_def conns_ok_def weights_in_range_def CV_def slot_def no_edges_reach\<close>)
qed

section \<open>Events\<close>

text \<open>
  What the event loop does to the world model. The records are the ones an authenticated connection
  delivers; \<open>Opened\<close> and \<open>Changed\<close> stand for everything that happens to a connection outside these
  handlers (accepting, dialling, the handshake, buffers). \<open>None\<close> is a panic.
\<close>

datatype event =
    AddEdgeRec nat bytes | DelEdgeRec nat bytes | AddSubnetRec nat bytes | DelSubnetRec nat bytes | KeyChangedRec nat bytes
  | AckRec nat bytes "sock_addr option" | PingRec nat | PongRec nat "nat \<Rightarrow> bool" instant
  | Closed nat | PurgeReq | TurnEnds | NodeKnown string | Clock instant | Opened nat connection | Changed nat connection

text \<open>A handler's error ends the connection it came from.\<close>

definition record_done :: "'g prims \<Rightarrow> nat \<Rightarrow> 'g outcome \<Rightarrow> 'g daemon option" where
  "record_done P cid m = Option.bind m (\<lambda>(r, d). case r of Inr nw \<Rightarrow> Some d | Inl e \<Rightarrow> terminate P cid d)"

fun handle :: "'g prims \<Rightarrow> event \<Rightarrow> 'g daemon \<Rightarrow> 'g daemon option" where
  "handle P (AddEdgeRec cid body) d = record_done P cid (on_add_edge P cid body d)"
| "handle P (DelEdgeRec cid body) d = record_done P cid (on_del_edge P cid body d)"
| "handle P (AddSubnetRec cid body) d = record_done P cid (on_add_subnet P cid body d)"
| "handle P (DelSubnetRec cid body) d = record_done P cid (on_del_subnet P cid body d)"
| "handle P (KeyChangedRec cid body) d = record_done P cid (on_key_changed P cid body d)"
| "handle P (AckRec cid body local) d = record_done P cid (on_ack P cid body local d)"
| "handle P (PingRec cid) d = record_done P cid (on_ping P cid d)"
| "handle P (PongRec cid o_timeout now) d = record_done P cid (on_pong P cid o_timeout now d)"
| "handle P (Closed cid) d = terminate P cid d"
| "handle P PurgeReq d = map_option snd (purge P d)"
| "handle P TurnEnds d = flush_graph_dirty d"
| "handle P (NodeKnown nm) d = map_option snd (lookup_or_add_node P nm d)"
| "handle P (Clock t) d = Some (d\<lparr>d_now := t\<rparr>)"
| "handle P (Opened cid c) d = Some (d\<lparr>d_conns := d_conns d @ [(cid, c)]\<rparr>)"
| "handle P (Changed cid c) d = Some (set_conn cid c d)"

definition conn_fit :: "string \<Rightarrow> connection \<Rightarrow> bool" where
  "conn_fit me c \<longleftrightarrow> c_name c \<noteq> me \<and> length (c_name c) \<le> MAX_STRING \<and> i32_range (c_estimated_weight c) \<and> addr_ok (c_address c)"

text \<open>
  What the surroundings promise: a new connection has a fresh key and is not active, only \<open>on_ack\<close> makes
  one active, an active one keeps its name, and nobody authenticates under this node's own name.
\<close>

fun allowed :: "event \<Rightarrow> 'g daemon \<Rightarrow> bool" where
  "allowed (Opened cid c) d \<longleftrightarrow> cid \<notin> fst ` set (d_conns d) \<and> \<not> c_active c \<and> conn_fit (d_name d) c"
| "allowed (Changed cid c) d \<longleftrightarrow> (case map_of (d_conns d) cid of None \<Rightarrow> False
     | Some c0 \<Rightarrow> cview c = cview c0 \<or> \<not> c_active c0 \<and> \<not> c_active c \<and> conn_fit (d_name d) c)"
| "allowed (AckRec cid body local) d \<longleftrightarrow> addr_ok local"
| "allowed (NodeKnown nm) d \<longleftrightarrow> length nm \<le> MAX_STRING"
| "allowed _ d \<longleftrightarrow> True"

inductive reached :: "'g prims \<Rightarrow> 'g daemon \<Rightarrow> bool" for P :: "'g prims" where
  reached_start: "daemon_new P name port subs bcasts settings now rng = Some d \<Longrightarrow> length name \<le> MAX_STRING \<Longrightarrow> port < 65536 \<Longrightarrow> reached P d"
| reached_step: "reached P d \<Longrightarrow> allowed ev d \<Longrightarrow> handle P ev d = Some d' \<Longrightarrow> reached P d'"

lemma record_done_runs:
  assumes "runs False m (\<lambda>(r, d'). dinv d')"
  shows "runs False (record_done P cid m) dinv"
  unfolding record_done_def
proof (rule runs_seq [OF assms], clarify)
  fix r :: "dispatch_error + bool" and d :: "'a daemon" assume d: "dinv d"
  have "runs False (terminate P cid d) dinv" by (rule runs_mono [OF terminate_runs [OF d, where ok = False and k = 0 and ?c0.0 = 0]]) auto
  thus "runs False (case r of Inr nw \<Rightarrow> Some d | Inl e \<Rightarrow> terminate P cid d) dinv" using d by (cases r) auto
qed

lemma handled_record: "runs False m (handled False k cid d) \<Longrightarrow> runs False (record_done P i m) dinv"
  by (rule record_done_runs, erule runs_mono) (auto simp: handled_def)

lemma acked_record: "runs False m (acked False k cid) \<Longrightarrow> runs False (record_done P i m) dinv"
  by (rule record_done_runs, erule runs_mono) (auto simp: acked_def)

lemma own_edges_conns:
  assumes o: "own_edges m nodes E C N" and a: "\<And>i nm w. C' i = Some (nm, True, w) \<longleftrightarrow> C i = Some (nm, True, w)"
  shows "own_edges m nodes E C' N"
  by (rule own_edgesI) (use own_edgesD [OF o] in \<open>simp_all add: a\<close>)

lemma conns_change:
  assumes d: "dinv d" and cv: "CV d' = (CV d)(cid \<mapsto> cview c)" and old: "\<And>nm w. CV d cid \<noteq> Some (nm, True, w)"
    and c: "\<not> c_active c" "conn_fit (d_name d) c" and ks: "distinct (map fst (d_conns d'))" and eq: "d' = d\<lparr>d_conns := d_conns d'\<rparr>"
  shows "dinv d'"
proof -
  note D = dinvD [OF d]
  have f: "d_graph d' = d_graph d" "d_name d' = d_name d" "d_node_ids d' = d_node_ids d" "d_myself d' = d_myself d" "d_nodes d' = d_nodes d"
    "d_edge_addrs d' = d_edge_addrs d" "d_graph_dirty d' = d_graph_dirty d" "d_last_routes d' = d_last_routes d" "d_subnets d' = d_subnets d"
    "d_my_udp_port d' = d_my_udp_port d" using eq by (cases d; cases d'; simp)+
  have "own_edges (d_myself d) (d_nodes d) (EV d) (CV d') (NV d)"
    by (rule own_edges_conns [OF D(3)]) (use old c(1) in \<open>auto simp: cv cview_def\<close>)
  moreover have "conns_ok (d_name d) (map fst (d_conns d')) (CV d')"
    using D(6) c(2) ks unfolding conns_ok_def cv conn_fit_def by (auto simp: cview_def split: if_splits)
  ultimately show ?thesis using D by (simp add: dinv_def f)
qed

lemma opened_dinv: "dinv d \<Longrightarrow> allowed (Opened cid c) d \<Longrightarrow> dinv (d\<lparr>d_conns := d_conns d @ [(cid, c)]\<rparr>)"
proof (rule conns_change [where cid = cid and c = c])
  assume a: "dinv d" "allowed (Opened cid c) d"
  hence n: "map_of (d_conns d) cid = None" by (simp add: map_of_eq_None_iff)
  thus "CV (d\<lparr>d_conns := d_conns d @ [(cid, c)]\<rparr>) = (CV d)(cid \<mapsto> cview c)"
    by (auto simp: CV_def fun_eq_iff map_add_def split: option.splits)
  show "CV d cid \<noteq> Some (nm, True, w)" for nm w using n by (simp add: CV_def)
  show "distinct (map fst (d_conns (d\<lparr>d_conns := d_conns d @ [(cid, c)]\<rparr>)))" using a dinv_conn_keys by auto
qed (auto simp: conn_fit_def)

lemma changed_dinv: "dinv d \<Longrightarrow> allowed (Changed cid c) d \<Longrightarrow> dinv (set_conn cid c d)"
proof -
  assume d: "dinv d" and a: "allowed (Changed cid c) d"
  then obtain c0 where c0: "map_of (d_conns d) cid = Some c0" "cview c = cview c0 \<or> \<not> c_active c0 \<and> \<not> c_active c \<and> conn_fit (d_name d) c"
    by (auto split: option.splits)
  show ?thesis
  proof (cases "cview c = cview c0")
    case True
    thus ?thesis using dinv_set_conn(1) [OF c0(1)] d by blast
  next
    case False
    have "CV (set_conn cid c d) = (CV d)(cid \<mapsto> cview c)" by (simp add: CV_def set_conn_def fun_eq_iff update_conv)
    moreover have "CV d cid \<noteq> Some (nm, True, w)" for nm w using c0 False by (auto simp: CV_def cview_def)
    moreover have "distinct (map fst (d_conns (set_conn cid c d)))" using dinv_conn_keys [OF d] update_keys_live [OF c0(1)] by (simp add: set_conn_def)
    ultimately show ?thesis using conns_change [OF d, of "set_conn cid c d" cid c] c0(2) False by (simp add: set_conn_def)
  qed
qed

lemma handle_dinv:
  assumes d: "dinv d" and a: "allowed ev d"
  shows "runs False (handle P ev d) dinv"
proof (cases ev)
  case (Closed cid)
  thus ?thesis using terminate_runs [OF d, where ok = False and k = 0 and ?c0.0 = 0 and cid = cid and P = P] by (auto elim!: runs_mono)
next
  case PurgeReq
  thus ?thesis using purge_runs [OF d, of P] by (auto intro!: runs_map elim!: runs_mono)
next
  case TurnEnds
  obtain d' where "run_graph_and_log d = Some d'" "dinv d'" by (rule run_graph_and_log_runs [OF dinv_dirty [OF d]])
  thus ?thesis using TurnEnds d by (simp add: flush_graph_dirty_def)
next
  case (NodeKnown nm)
  thus ?thesis using lookup_or_add_node_runs [OF d, of nm False P] a by (auto intro!: runs_map elim!: runs_mono)
next
  case (Clock t)
  thus ?thesis using d by (simp add: dinv_def CV_def [abs_def])
next
  case (Opened cid c)
  thus ?thesis using opened_dinv [OF d] a by simp
next
  case (Changed cid c)
  thus ?thesis using changed_dinv [OF d] a by simp
next
  case (AckRec cid body local)
  thus ?thesis using acked_record [OF on_ack_runs [OF d, where ok = False and k = 0]] a by simp
qed (simp_all add:
    handled_record [OF on_add_edge_runs [OF d, where ok = False and k = 0, simplified]]
    handled_record [OF on_del_edge_runs [OF d, where ok = False and k = 0, simplified]]
    handled_record [OF on_add_subnet_runs [OF d, where ok = False and k = 0, simplified]]
    handled_record [OF on_del_subnet_runs [OF d, where ok = False and k = 0, simplified]]
    handled_record [OF on_key_changed_runs [OF d, where ok = False and k = 0, simplified]]
    acked_record [OF on_ping_runs [OF d, where ok = False and k = 0, simplified]]
    acked_record [OF on_pong_runs [OF d, where ok = False and k = 0, simplified]])

lemma reached_dinv: "reached P d \<Longrightarrow> dinv d"
proof (induction rule: reached.induct)
  case (reached_start name port subs bcasts settings now rng d)
  obtain d' where "daemon_new P name port subs bcasts settings now rng = Some d'" "dinv d'"
    by (rule daemon_new_ok [OF reached_start(2,3)])
  thus ?case using reached_start(1) by simp
next
  case (reached_step d ev d')
  thus ?case using runsD(2) [OF handle_dinv] by blast
qed

section \<open>A run\<close>

definition demo_settings :: daemon_settings where
  "demo_settings = \<lparr>s_tunnelserver = False, s_strictsubnets = False, s_autoconnect = False, s_device_standby = False, s_pinginterval = 60\<rparr>"

definition demo_peer :: "string \<Rightarrow> bool \<Rightarrow> connection" where
  "demo_peer nm act = demo_end\<lparr>c_name := nm, c_active := act\<rparr>"

lemma demo_peer_fields:
  "c_active (demo_peer nm act) = act" "c_name (demo_peer nm act) = nm" "\<not> c_dead (demo_peer nm act)"
  "c_sptps (demo_peer nm act) = Some (demo_session Stream)" "c_flood (demo_peer nm act) = flood_new"
  "c_estimated_weight (demo_peer nm act) = 0" "c_address (demo_peer nm act) = None"
  by (simp_all add: demo_peer_def demo_end_def conn_new_base_def)

lemma demo_peer_ready: "n \<le> 1000 \<Longrightarrow> can_send n (demo_peer nm act)"
  by (simp add: can_send_def demo_peer_fields session_left_def app_send_ready_def demo_session_ready sealed_count_def SEAL_KEY_LIMIT_def)

text \<open>A daemon with one connection, just authenticated, before and after its acknowledgement.\<close>

lemma demo_reached:
  obtains d d' where "reached demo_prims d" "d_conns d = [(1, demo_peer ''bob'' False)]" "d_name d = ''alice''"
    "handle demo_prims (AckRec 1 (as_bytes ''4 655 5 0'') None) d = Some d'" "reached demo_prims d'"
proof -
  obtain d0 where d0: "daemon_new demo_prims ''alice'' 655 [] [] demo_settings 0 0 = Some d0" "dinv d0" "d_name d0 = ''alice''" "d_conns d0 = []"
    "length (d_node_ids d0) = 1" "EV d0 = Map.empty" "tree_iter (d_subnets d0) = []"
    by (rule daemon_new_ok [where P = demo_prims and name = "''alice''" and port = 655 and subs = "[]" and bcasts = "[]" and settings = demo_settings and now = 0 and rng = 0])
      (simp_all add: MAX_STRING_def)
  have r0: "reached demo_prims d0" by (rule reached_start [OF d0(1)]) (simp_all add: MAX_STRING_def)
  define d where "d = d0\<lparr>d_conns := [(1, demo_peer ''bob'' False)]\<rparr>"
  have r1: "reached demo_prims d"
    by (rule reached_step [OF r0, of "Opened 1 (demo_peer ''bob'' False)"])
      (simp_all add: d0 d_def conn_fit_def demo_peer_fields MAX_STRING_def i32_range_def addr_ok_def)
  have small: "length (d_node_ids d) < 2 ^ 32" "burst d \<le> 10" "card {i. EV d i \<noteq> None} < 2 ^ 32"
    using d0(5-7) by (simp_all add: d_def burst_def)
  have "runs True (on_ack demo_prims 1 (as_bytes ''4 655 5 0'') None d) (acked True 2 1)"
    by (rule on_ack_runs [OF reached_dinv [OF r1]])
      (use small in \<open>auto simp: addr_ok_def here_def d_def ready_def intro: demo_peer_ready\<close>)
  then obtain x d1 where x: "on_ack demo_prims 1 (as_bytes ''4 655 5 0'') None d = Some (x, d1)" "dinv d1" "ready 2 1 d1" using runsD(1) by (force simp: acked_def)
  obtain d2 where d2: "terminate demo_prims 1 d1 = Some d2"
    using runsD(1) [OF terminate_runs [OF x(2), where ok = True and k = 0 and ?c0.0 = 1 and cid = 1 and P = demo_prims]] x(3) by (auto simp: numeral_2_eq_2)
  obtain d' where h: "handle demo_prims (AckRec 1 (as_bytes ''4 655 5 0'') None) d = Some d'" using x(1) d2 by (cases x) (auto simp: record_done_def)
  show thesis by (rule that [OF r1 _ _ h reached_step [OF r1 _ h]]) (simp_all add: d_def d0 addr_ok_def)
qed

section \<open>What the invariant says\<close>

definition direct_peers :: "'g daemon \<Rightarrow> string set" where
  "direct_peers d = {nm. \<exists>i c. map_of (d_conns d) i = Some c \<and> c_active c \<and> c_name c = nm}"

definition edge_peers :: "'g daemon \<Rightarrow> string set" where
  "edge_peers d = {nm. \<exists>e ge nd. get_edge (d_graph d) e = Some ge \<and> ge_from ge = d_myself d \<and>
     get_node (d_graph d) (ge_to ge) = Some nd \<and> gn_name nd = nm}"

lemma active_view: "map_of (d_conns d) i = Some c \<Longrightarrow> c_active c \<Longrightarrow> CV d i = Some (c_name c, True, c_estimated_weight c, c_address c)"
  by (simp add: CV_def cview_def)

lemma view_active: "CV d i = Some (nm, True, w) \<Longrightarrow> \<exists>c. map_of (d_conns d) i = Some c \<and> c_active c \<and> c_name c = nm"
  by (auto simp: CV_def cview_def)

lemma edge_peers_view: "nm \<in> edge_peers d \<longleftrightarrow> (\<exists>e t w x r. EV d e = Some (d_myself d, t, w, x) \<and> NV d t = Some (nm, r))"
  by (force simp: edge_peers_def get_edge_def get_node_def eview_def nview_slot)

lemma direct_edge_peers:
  assumes d: "dinv d"
  shows "edge_peers d = direct_peers d"
proof (intro set_eqI iffI)
  note o = dinvD(3) [OF d]
  fix nm assume "nm \<in> edge_peers d"
  then obtain e t w x r where e: "EV d e = Some (d_myself d, t, w, x)" "NV d t = Some (nm, r)" by (auto simp: edge_peers_view)
  obtain ns where ns: "d_nodes d t = Some ns" "ns_edge ns = Some e" using own_edgesD(5) [OF o e(1)] by blast
  obtain i v where "CV d i = Some (nm, True, v)" using own_edgesD(4) [OF o ns] e(2) by auto
  thus "nm \<in> direct_peers d" using view_active unfolding direct_peers_def by blast
next
  note o = dinvD(3) [OF d]
  fix nm assume "nm \<in> direct_peers d"
  then obtain i w where "CV d i = Some (nm, True, w)" using active_view unfolding direct_peers_def by blast
  then obtain t r ns where t: "NV d t = Some (nm, r)" "d_nodes d t = Some ns" "ns_conn ns = Some i" using own_edgesD(6) [OF o] by blast
  then obtain e where "ns_edge ns = Some e" using own_edgesD(2) [OF o t(2)] by fastforce
  thus "nm \<in> edge_peers d" using own_edgesD(3) [OF o t(2)] t(1) by (auto simp: edge_peers_view)
qed

lemma active_names_unique:
  assumes d: "dinv d" and i: "map_of (d_conns d) i = Some c" "c_active c" and j: "map_of (d_conns d) j = Some c'" "c_active c'" "c_name c' = c_name c"
  shows "i = j"
proof -
  obtain t r where t: "NV d t = Some (c_name c, r)" using own_edgesD(6) [OF dinvD(3) [OF d] active_view [OF i]] by blast
  show ?thesis using active_unique [OF d active_view [OF i] t] active_unique [OF d active_view [OF j(1,2)], of t r] t j(3) by auto
qed

text \<open>
  C5: in every state that the daemon reaches, through gossip, acknowledgements, lost connections, pings,
  purges and recomputations in any order, the edges that leave this node are those of its active
  connections: the two have the same peers, no two active connections have the same peer, none is to
  this node itself, and every stored edge address is that of a live edge.
\<close>

theorem own_edges_are_connections:
  assumes "reached P d"
  shows "edge_peers d = direct_peers d \<and> d_name d \<notin> direct_peers d \<and>
    (\<forall>i j c c'. map_of (d_conns d) i = Some c \<and> map_of (d_conns d) j = Some c' \<and> c_active c \<and> c_active c' \<and> c_name c' = c_name c \<longrightarrow> i = j) \<and>
    (\<forall>e. d_edge_addrs d e \<noteq> None \<longrightarrow> get_edge (d_graph d) e \<noteq> None)"
proof -
  have d: "dinv d" by (rule reached_dinv [OF assms])
  have "c_name c \<noteq> d_name d" if "map_of (d_conns d) i = Some c" "c_active c" for i c
    using dinvD(6) [OF d] active_view [OF that] unfolding conns_ok_def by blast
  hence "d_name d \<notin> direct_peers d" unfolding direct_peers_def by blast
  moreover have "get_edge (d_graph d) e \<noteq> None" if "d_edge_addrs d e \<noteq> None" for e
    using dinvD(4) [OF d] that by (fastforce simp: addrs_live_def get_edge_def eview_def)
  ultimately show ?thesis using direct_edge_peers [OF d] active_names_unique [OF d] by blast
qed

theorem own_edges_are_connections_witness:
  "\<exists>d d'. reached demo_prims d \<and> handle demo_prims (AckRec 1 (as_bytes ''4 655 5 0'') None) d = Some d' \<and>
     reached demo_prims d' \<and> edge_peers d' = direct_peers d' \<and> d_name d' \<notin> direct_peers d'"
proof -
  obtain d d' where d: "reached demo_prims d" "handle demo_prims (AckRec 1 (as_bytes ''4 655 5 0'') None) d = Some d'" "reached demo_prims d'"
    by (rule demo_reached)
  thus ?thesis using own_edges_are_connections [OF d(3)] by blast
qed

text \<open>
  C7: the recomputation at the end of a turn returns in every state the daemon reaches, and afterwards
  the reachable nodes, and the nodes that have a route, are exactly those that edges in both directions
  connect to this node; edges and connections are as they were.
\<close>

theorem turn_end_reachability:
  assumes "reached P d"
  shows "\<exists>d'. flush_graph_dirty d = Some d' \<and> \<not> d_graph_dirty d' \<and> eview (d_graph d') = eview (d_graph d) \<and> d_conns d' = d_conns d \<and>
    (\<forall>n nd. get_node (d_graph d') n = Some nd \<longrightarrow> gn_reachable nd = (two_way (eview (d_graph d)))\<^sup>*\<^sup>* (d_myself d) n) \<and>
    (\<forall>n. n \<noteq> d_myself d \<longrightarrow> (route_of d' n \<noteq> None) = (two_way (eview (d_graph d)))\<^sup>*\<^sup>* (d_myself d) n)"
proof -
  have d: "dinv d" by (rule reached_dinv [OF assms])
  have "\<exists>d'. flush_graph_dirty d = Some d' \<and> dinv d' \<and> \<not> d_graph_dirty d' \<and> EV d' = EV d \<and> d_conns d' = d_conns d \<and> d_myself d' = d_myself d"
  proof (cases "d_graph_dirty d")
    case True
    obtain d' where "run_graph_and_log d = Some d'" "dinv d'" "regraphed d d'" "\<not> d_graph_dirty d'" by (rule run_graph_and_log_runs [OF dinv_dirty [OF d]])
    thus ?thesis using True by (simp add: flush_graph_dirty_def regraphed_def)
  qed (simp add: flush_graph_dirty_def d)
  then obtain d' where d': "flush_graph_dirty d = Some d'" "dinv d'" "\<not> d_graph_dirty d'" "EV d' = EV d" "d_conns d' = d_conns d" "d_myself d' = d_myself d" by blast
  have "gn_reachable nd = (two_way (EV d))\<^sup>*\<^sup>* (d_myself d) n" if "get_node (d_graph d') n = Some nd" for n nd
    using dinvD(5) [OF d'(2)] get_node_nview [OF that] d'(3,4,6) unfolding reach_agrees_def by auto
  moreover have "(route_of d' n \<noteq> None) = (two_way (EV d))\<^sup>*\<^sup>* (d_myself d) n" if "n \<noteq> d_myself d" for n
    using dinvD(5) [OF d'(2)] d'(3,4,6) that unfolding reach_agrees_def route_of_def by auto
  ultimately show ?thesis using d' by auto
qed

theorem turn_end_reachability_witness:
  "\<exists>d d' d''. reached demo_prims d \<and> handle demo_prims (AckRec 1 (as_bytes ''4 655 5 0'') None) d = Some d' \<and>
     flush_graph_dirty d' = Some d'' \<and> \<not> d_graph_dirty d''"
proof -
  obtain d d' where d: "reached demo_prims d" "handle demo_prims (AckRec 1 (as_bytes ''4 655 5 0'') None) d = Some d'" "reached demo_prims d'"
    by (rule demo_reached)
  thus ?thesis using turn_end_reachability [OF d(3)] by blast
qed

section \<open>Gossip cannot harm\<close>

text \<open>The edges that leave this node, with all that is known of them.\<close>

definition own_links :: "'g daemon \<Rightarrow> (nat \<times> nat \<times> int \<times> u32 \<times> edge_addr option) set" where
  "own_links d = {(e, ge_to ge, ge_weight ge, ge_options ge, d_edge_addrs d e) | e ge. get_edge (d_graph d) e = Some ge \<and> ge_from ge = d_myself d}"

lemma own_links_nodes:
  assumes "dinv d"
  shows "own_links d = {(e, t, ns_edge_weight ns, ns_edge_options ns, own_addr d t) | e t ns. d_nodes d t = Some ns \<and> ns_edge ns = Some e}"
proof -
  note o = own_edgesD [OF dinvD(3) [OF assms]]
  have v: "EV d e = Some (d_myself d, t, w, x) \<longleftrightarrow>
      (\<exists>ge. get_edge (d_graph d) e = Some ge \<and> ge_from ge = d_myself d \<and> ge_to ge = t \<and> ge_weight ge = w \<and> ge_options ge = x)" for e t w x
    by (auto simp: eview_def get_edge_def)
  have n: "EV d e = Some (d_myself d, t, w, x) \<longleftrightarrow> (\<exists>ns. d_nodes d t = Some ns \<and> ns_edge ns = Some e \<and> w = ns_edge_weight ns \<and> x = ns_edge_options ns)" for e t w x
  proof
    assume e: "EV d e = Some (d_myself d, t, w, x)"
    then obtain ns where "d_nodes d t = Some ns" "ns_edge ns = Some e" using o(5) by blast
    thus "\<exists>ns. d_nodes d t = Some ns \<and> ns_edge ns = Some e \<and> w = ns_edge_weight ns \<and> x = ns_edge_options ns" using o(3) [of t ns e] e by simp
  qed (use o(3) in blast)
  have "(e, t, w, x, a) \<in> own_links d \<longleftrightarrow> EV d e = Some (d_myself d, t, w, x) \<and> a = d_edge_addrs d e" for e t w x a
    unfolding v own_links_def by blast
  hence "(e, t, w, x, a) \<in> own_links d \<longleftrightarrow>
      (\<exists>ns. d_nodes d t = Some ns \<and> ns_edge ns = Some e \<and> w = ns_edge_weight ns \<and> x = ns_edge_options ns) \<and> a = d_edge_addrs d e" for e t w x a
    by (simp only: n)
  thus ?thesis by (auto simp: own_addr_def)
qed

text \<open>
  C6: gossip cannot harm. In every reachable state, if the connection a record came on is there, if its
  body has at most 65534 bytes, and if the session of every active connection and of this one has a record left under its
  key (or the connection is dead), each of the five flooded handlers returns without a panic, whatever
  the body is. The edges that leave this node are the same afterwards, with their peers, weights, options
  and addresses; so are this node's own subnets, the settings and the clock. The same connections are there in the same order, and all that may differ
  in one of them is what sending changes: its session, its output queue, its dead mark and its flood budget.
  The limits on nodes and edges hold, and \<open>k\<close> further lines can be sent if \<open>k + 1\<close> could be before.
\<close>

theorem gossip_safe:
  assumes "reached P d" "map_of (d_conns d) cid \<noteq> None" "ready (Suc k) cid d" "length body < 65535"
  shows "list_all (\<lambda>m. \<exists>r d'. m = Some (r, d') \<and> ready k cid d' \<and> own_links d' = own_links d \<and> conns_like d d' \<and>
      own_subnets d' = own_subnets d \<and> d_settings d' = d_settings d \<and> d_now d' = d_now d \<and>
      length (d_node_ids d') \<le> max (length (d_node_ids d)) MAX_NODES \<and> edge_count (d_graph d') \<le> max (edge_count (d_graph d)) MAX_EDGES)
    [on_add_edge P cid body d, on_del_edge P cid body d, on_add_subnet P cid body d, on_del_subnet P cid body d, on_key_changed P cid body d]"
proof -
  have d: "dinv d" and h: "here cid d" using reached_dinv [OF assms(1)] assms(2) by (simp_all add: here_def)
  have q: "\<exists>r d'. m = Some (r, d') \<and> ready k cid d' \<and> own_links d' = own_links d \<and> conns_like d d' \<and>
      own_subnets d' = own_subnets d \<and> d_settings d' = d_settings d \<and> d_now d' = d_now d \<and>
      length (d_node_ids d') \<le> max (length (d_node_ids d)) MAX_NODES \<and> edge_count (d_graph d') \<le> max (edge_count (d_graph d)) MAX_EDGES"
    if run: "runs True m (handled True k cid d)" for m
  proof -
    obtain r d' where m: "m = Some (r, d')" "dinv d'" "gossiped d d'" "ready k cid d'" using runsD(1) [OF run] by (auto simp: handled_def)
    have "own_links d' = own_links d" using m(3) unfolding own_links_nodes [OF d] own_links_nodes [OF m(2)] by (simp add: gossiped_def)
    thus ?thesis using m by (auto simp: gossiped_def)
  qed
  show ?thesis using q [OF on_add_edge_runs [OF d h assms(3,4)]] q [OF on_del_edge_runs [OF d h assms(3,4)]]
      q [OF on_add_subnet_runs [OF d h assms(3,4)]] q [OF on_del_subnet_runs [OF d h assms(3,4)]] q [OF on_key_changed_runs [OF d assms(3)]]
    by simp
qed

theorem gossip_safe_witness:
  "\<exists>d r d'. reached demo_prims d \<and> on_add_edge demo_prims 1 (as_bytes ''12 0 bob carol 10.0.0.1 655 0 5'') d = Some (r, d') \<and>
     own_links d' = own_links d \<and> conns_like d d' \<and> ready 2 1 d'"
proof -
  obtain d where d: "reached demo_prims d" "d_conns d = [(1, demo_peer ''bob'' False)]" by (rule demo_reached)
  have "ready (Suc 2) 1 d" using d(2) demo_peer_ready by (simp add: ready_def)
  from gossip_safe [OF d(1) _ this, of "as_bytes ''12 0 bob carol 10.0.0.1 655 0 5''"] d show ?thesis by auto
qed

section \<open>A record that is too long\<close>

lemma conn_send_oversize: "\<not> c_dead c \<Longrightarrow> c_sptps c = Some s \<Longrightarrow> sp_framing s = Stream \<Longrightarrow> 65535 \<le> length line \<Longrightarrow> conn_send P g line c = None"
  by (simp add: conn_send_def send_sptps_def send_record_def run_simps)

lemma d_send_all_oversize:
  "map_of (d_conns d) i = Some c \<Longrightarrow> i \<in> set is \<Longrightarrow> \<not> c_dead c \<Longrightarrow> c_sptps c = Some s \<Longrightarrow> sp_framing s = Stream \<Longrightarrow> 65535 \<le> length line \<Longrightarrow>
   d_send_all P is line d = None"
proof (induction "is" arbitrary: d)
  case (Cons j js)
  note big = conn_send_oversize [OF Cons.prems(3,4,5,6)]
  show ?case
  proof (cases "j = i")
    case True
    thus ?thesis using Cons.prems(1) big [of P "d_rng d"] by (simp add: d_send_def)
  next
    case False
    have "d_send_all P js line d' = None" if "d_send P j line d = Some (nw, d')" for nw d'
      by (rule Cons.IH) (use that False Cons.prems in \<open>auto simp: d_send_def update_conv split: option.splits bind_splits\<close>)
    thus ?thesis by (cases "d_send P j line d") auto
  qed
qed simp

lemma forward_oversize:
  assumes u: "from_utf8 body = Some t" "65535 \<le> length body" and c: "map_of (d_conns d) cid = Some c" "fst (allow (d_now d) (c_flood c))"
    and i: "i \<noteq> cid" "map_of (d_conns d) i = Some c'" "c_active c'" "\<not> c_dead c'" "c_sptps c' = Some s" "sp_framing s = Stream"
  shows "forward_request P cid body d = None"
proof -
  obtain f where f: "allow (d_now d) (c_flood c) = (True, f)" using c(2) by (cases "allow (d_now d) (c_flood c)") auto
  let ?d = "d\<lparr>d_conns := AList.update cid (c\<lparr>c_flood := f\<rparr>) (d_conns d)\<rparr>"
  have m: "map_of (d_conns ?d) i = Some c'" using i(1,2) by (simp add: update_conv)
  hence "i \<in> set (broadcast_targets (Some cid) ?d)" using map_of_SomeD [OF m] i(1,3) by (force simp: broadcast_targets_def)
  from d_send_all_oversize [OF m this i(4,5,6), of t P] show ?thesis
    using u from_utf8_length [OF u(1)] c(1) f by (simp add: forward_request_def)
qed

text \<open>
  C37: a peer can abort the daemon with one record. A well-formed \<open>ADD_SUBNET\<close> line padded with spaces to
  65535 bytes and sent without a line feed passes the parser, and forwarding it to any other active
  connection panics: the line feed that \<open>Connection::send\<close> appends makes the record longer than the 65535
  bytes a stream record can carry, and the error is unwrapped.
\<close>

theorem oversize_gossip_panics:
  assumes body: "from_utf8 body = Some t" "65535 \<le> length body" "subnet_msg_parse t = Some m"
    and new: "\<not> fst (seen_request body d)" "\<not> tree_contains (sm_subnet m) (sm_owner m) (d_subnets d)" "\<not> leased (sm_subnet m) d"
    and owner: "map_of (d_node_ids d) (sm_owner m) = Some n" "n \<noteq> d_myself d" and hub: "\<not> s_tunnelserver (d_settings d)"
    and c: "map_of (d_conns d) cid = Some c" "fst (allow (d_now d) (c_flood c))"
    and peer: "i \<noteq> cid" "map_of (d_conns d) i = Some c'" "c_active c'" "\<not> c_dead c'" "c_sptps c' = Some s" "sp_framing s = Stream"
  shows "on_add_subnet P cid body d = None"
proof -
  obtain sn where sn: "seen_request body d = (False, d\<lparr>d_seen := sn\<rparr>)" using new(1) body(1) by (auto simp: seen_request_def Let_def split: prod.splits)
  have l: "\<not> leased (sm_subnet m) (d\<lparr>d_seen := sn\<rparr>)" using new(3) by (cases "sm_subnet m") (simp_all add: leased_def)
  have f: "forward_request P cid body d' = None" if "d_conns d' = d_conns d" "d_now d' = d_now d" for d'
    using forward_oversize [OF body(1,2), of d' cid c i c' s P] that c peer by simp
  have g: "d_conns (run_subnet_script True nm x d') = d_conns d'" "d_now (run_subnet_script True nm x d') = d_now d'"
    "d_conns (tx_snap_refresh_subnets d') = d_conns d'" "d_now (tx_snap_refresh_subnets d') = d_now d'" for nm x d'
    by (simp_all add: run_subnet_script_def tx_snap_refresh_subnets_def emit_def)
  have "install_subnet P cid body (sm_owner m) n (sm_subnet m) (d\<lparr>d_seen := sn\<rparr>) = None"
    unfolding install_subnet_def Let_def ok_result_def by (subst f) (auto simp: g split: subnet.splits)
  thus ?thesis using body new owner hub c sn f [of "d\<lparr>d_seen := sn\<rparr>"]
    by (simp add: on_add_subnet_def parse_add_subnet_def parse_body_def flooded_prologue_def tunnelserver_reject_indirect_def
        add_subnet_resolved_def lookup_or_add_node_def l ok_result_def)
qed

definition demo_line :: string where
  "demo_line = ''10 0 bob 10.0.0.0/8'' @ replicate 65516 CHR '' ''"

definition demo_daemon :: "nat daemon" where
  "demo_daemon =
     \<lparr>d_conns = [(1, demo_peer ''bob'' True), (2, demo_peer ''carol'' True)], d_pending_meta = 0, d_name = ''alice'', d_my_udp_port = 655,
      d_graph = graph_new, d_node_ids = [(''alice'', 0), (''bob'', 1), (''carol'', 2)], d_myself = 0, d_subnets = tree_new, d_seen = seen_new,
      d_nodes = Map.empty, d_edge_addrs = Map.empty, d_tunnels = Map.empty, d_id6 = id6_new, d_contradicting_add_edge = 0,
      d_contradicting_del_edge = 0, d_graph_dirty = False, d_last_routes = [], d_last_mst = [], d_mac_table = Map.empty,
      d_mac_leases = \<lparr>leases = []\<rparr>, d_settings = demo_settings, d_device_enabled = False, d_now = 0, d_tx_snap = None,
      d_tunnel_handles = {}, d_effects = [], d_rng = 0\<rparr>"

lemma parse_padded: "subnet_msg_parse (''10 0 bob 10.0.0.0/8'' @ replicate n CHR '' '') = Some \<lparr>sm_owner = ''bob'', sm_subnet = V4 [10, 0, 0, 0] 8 10\<rparr>"
proof -
  have "show_subnet (V4 [10, 0, 0, 0] 8 10) = ''10.0.0.0/8''" by code_simp
  hence p: "parse_subnet ''10.0.0.0/8'' = Some (V4 [10, 0, 0, 0] 8 10)" using parse_show_subnet [of "V4 [10, 0, 0, 0] 8 10"] by (simp add: i32_range_def)
  have t: "takeWhile (\<lambda>c. \<not> is_ascii_whitespace c) (replicate n CHR '' '') = []" by (cases n) (simp_all add: is_ascii_whitespace_def)
  show ?thesis by (simp add: subnet_msg_parse_def tok_skip_def tok_s_def is_ascii_whitespace_def t [unfolded is_ascii_whitespace_def] p MAX_STRING_def check_id_def is_ascii_alphanumeric_def is_ascii_digit_def)
qed

theorem oversize_gossip_panics_witness:
  "length demo_line = 65535 \<and> on_add_subnet demo_prims 1 (as_bytes demo_line) demo_daemon = None"
proof -
  have l: "length demo_line = 65535" by (simp add: demo_line_def)
  have u: "from_utf8 (as_bytes demo_line) = Some demo_line" by (rule from_utf8_ascii) (simp add: demo_line_def)
  have "on_add_subnet demo_prims 1 (as_bytes demo_line) demo_daemon = None"
    by (rule oversize_gossip_panics [OF u _ parse_padded [of 65516, folded demo_line_def], where n = 1 and c = "demo_peer ''bob'' True" and i = 2 and
          c' = "demo_peer ''carol'' True" and s = "demo_session Stream"])
      (simp_all add: l demo_daemon_def seen_request_def u seen_check_def seen_new_def Let_def SEEN_CAP_def tree_contains_def tree_new_def leased_def
        demo_settings_def demo_peer_fields demo_session_ready allow_def refill_def flood_new_def FLOOD_BURST_def)
  thus ?thesis using l by simp
qed

section \<open>Weights follow the round trip\<close>

text \<open>
  C38: the smoothed round-trip time is at least 1 and never leaves 32 bits, it never exceeds the larger
  of the old value and the sample, and it never rises by more than an eighth of itself; but once it is
  below 8 ms it never rises again, whatever the samples are: the increment, an eighth of a difference
  capped at the old value, rounds to zero.
\<close>

theorem srtt_update:
  assumes "0 < rtt" "rtt < 2 ^ 32" "srtt < 2 ^ 32"
  shows "0 < next_srtt rtt srtt \<and> next_srtt rtt srtt < 2 ^ 32 \<and> next_srtt rtt srtt \<le> max rtt srtt \<and>
    (0 < srtt \<longrightarrow> next_srtt rtt srtt \<le> srtt + srtt div 8) \<and> (0 < srtt \<and> srtt < 8 \<longrightarrow> next_srtt rtt srtt \<le> srtt)"
proof (cases "srtt = 0")
  case False
  define x where "x = min rtt (min (srtt * 2) 4294967295)"
  define y where "y = int srtt + (int x - int srtt) div 8"
  have x: "x \<le> rtt" "x \<le> 2 * srtt" "x \<le> 4294967295" "0 < x" using False assms by (auto simp: x_def)
  have q: "8 * ((int x - int srtt) div 8) \<ge> int x - int srtt - 7" "8 * ((int x - int srtt) div 8) \<le> int x - int srtt" by presburger+
  have y: "0 < y" "y \<le> int x \<or> y \<le> int srtt" using q x(4) False unfolding y_def by linarith+
  have up: "y \<le> int srtt + int (srtt div 8)" using zdiv_mono1 [of "int x - int srtt" "int srtt" 8] x(2) by (simp add: y_def zdiv_int)
  have top: "y \<le> 4294967295" using y(2) x(3) assms(3) by auto
  have eq: "next_srtt rtt srtt = nat y" using False y(1) top by (simp add: next_srtt_def Let_def x_def [symmetric] y_def [symmetric])
  have "srtt div 8 = 0" if "srtt < 8" using that by simp
  thus ?thesis unfolding eq using y up top x(1) False by auto
qed (use assms in \<open>auto simp: next_srtt_def\<close>)

theorem srtt_update_witness:
  "next_srtt 400 7 = 7 \<and> 0 < next_srtt 400 7 \<and> next_srtt 400 7 \<le> 7"
  using srtt_update [of 400 7] by (simp add: next_srtt_def)

end
