(* ===== verification/Data_Path.thy ===== *)
theory Data_Path
  imports Forwarding Daemon_Run
begin

text \<open>
  Properties of the whole path of a packet: what may leave the daemon, that the errors it sends are
  accepted, that it never panics but through the MSS clamp, and the places where the path does
  something else than it means to.
\<close>

section \<open>Forwarding\<close>

text \<open>
  C9: when \<open>dispatch_forward\<close> forwards a frame to one peer, either nothing leaves the daemon, or one error goes back to
  where the frame came from, or the frame is sealed for that peer, whole or in fragments. It is
  sealed only if it came neither from that peer nor from the next hop, if transit is allowed and,
  with \<open>DirectOnly\<close>, the peer is its own next hop; whole only if it fits the next hop's path MTU, and
  then after the MSS clamp exactly if the route's options ask for it and with the TTL
  decremented exactly if that is configured and the frame is in transit; in fragments only if it is an
  IPv4 frame that does not fit. Broadcasts do not pass here: \<open>broadcast_packet\<close> has none of these guards.
\<close>

theorem forward_guarded:
  assumes "dispatch_forward le facing to data src p = Some p'"
  shows "\<exists>r. p_out p' = p_out p @ fate_out to src r \<and> forward_ok le facing to data src p r"
proof -
  have drop: ?thesis if "p' = p" using that by (intro exI [of _ Dropped]) (simp add: forward_ok_def)
  have answer: ?thesis if "emit_icmp le facing data kind src p = Some p'" for kind
    using emit_outcome [OF that, of to] by (fastforce simp: forward_ok_def error_for_def)
  show ?thesis
  proof (cases "may_forward to src p")
    case False
    thus ?thesis using assms drop answer by (auto simp: dispatch_forward_def may_forward_def Let_def bind_eq_Some_conv split: if_splits)
  next
    case may: True
    then obtain gate where g: "pmtu_gate le facing to data src p = Some gate"
        "(case gate of Some p \<Rightarrow> Some p | None \<Rightarrow> forward_tail le facing to data src p) = Some p'"
      using assms by (auto simp: dispatch_forward_def may_forward_def Let_def bind_eq_Some_conv split: if_splits)
    from g(1) show ?thesis
    proof (cases rule: pmtu_gate_outcome)
      case 1
      hence "forward_tail le facing to data src p = Some p'" using g(2) by simp
      from forward_tail_outcome [OF this] 1(2) may show ?thesis by (fastforce simp: forward_ok_def)
    next
      case (2 et q)
      hence "too_big le facing to (max (via_mtu to (p_daemon p)) (if et = ETH_P_IP then 590 else 1294)) et data src p = Some p'" using g(2) by simp
      from too_big_outcome [OF this 2(2)] 2 may show ?thesis by (fastforce simp: forward_ok_def)
    qed
  qed
qed

definition demo_plane :: "nat plane" where
  "demo_plane = \<lparr>p_daemon = demo_daemon, p_forwarding_mode = FwdInternal, p_routing_mode = Router, p_broadcast_mode = BcastMst,
     p_directonly = False, p_decrement_ttl = False, p_priorityinheritance = False, p_macexpire = 600, p_overwrite_mac = False,
     p_mymac = replicate 6 0, p_icmp_ratelimit = icmp_rate_limit_new, p_started_at = 0, p_tx_priority = 0, p_any_pcap = False,
     p_age_subnets_timer = False, p_out = []\<rparr>"

lemma demo_route: "route_of demo_daemon n = None" "via_of n demo_daemon = n" "via_mtu n demo_daemon = MTU"
  by (simp_all add: route_of_def demo_daemon_def slot_def via_of_def via_mtu_def)

theorem forward_guarded_witness:
  "\<exists>p' r. dispatch_forward True (\<lambda>_. None) 1 demo_datagram (Some 2) demo_plane = Some p' \<and>
     p_out p' = [TryTx 1, SendSptps 1 demo_datagram] \<and> p_out p' = fate_out 1 (Some 2) r \<and>
     forward_ok True (\<lambda>_. None) 1 demo_datagram (Some 2) demo_plane r"
proof -
  have m: "d_myself demo_daemon = 0" by (simp add: demo_daemon_def)
  have l: "length demo_datagram = 74" by (simp add: demo_datagram_def)
  have b: "be_at demo_datagram 12 = Some 0x0800" by (simp add: be_at_def rd_def demo_datagram_def be_u16_def)
  obtain p' where p': "dispatch_forward True (\<lambda>_. None) 1 demo_datagram (Some 2) demo_plane = Some p'" "p_out p' = [TryTx 1, SendSptps 1 demo_datagram]"
    by (simp add: dispatch_forward_def demo_plane_def demo_route m pmtu_gate_def b l MTU_def forward_tail_def forward_send_def Let_def)
  from forward_guarded [OF p'(1)] p' show ?thesis by (auto simp: demo_plane_def)
qed

section \<open>Errors\<close>

fun kind_fits :: "u16 \<Rightarrow> icmp_kind \<Rightarrow> bool" where
  "kind_fits et (Unreach t c b) \<longleftrightarrow> et = ETH_P_IP \<or> et = ETH_P_IPV6"
| "kind_fits et (FragNeeded m) \<longleftrightarrow> et = ETH_P_IP"
| "kind_fits et (TooBigV6 m) \<longleftrightarrow> et = ETH_P_IPV6"

lemma facing_at_length:
  "(\<And>a b. facing a = Some b \<Longrightarrow> length b = length a) \<Longrightarrow> facing_at facing data i n = Some x \<Longrightarrow> length x = n"
  by (auto simp: facing_at_def split: if_splits)

text \<open>
  C23: an error that the daemon sends about an IPv4 or IPv6 frame goes back to where the frame came
  from, to the peer that sent it or to the device, and its receiver accepts it: addresses swapped,
  lengths, header sum and checksum right. This holds on a little-endian host for every frame, and on a
  big-endian host for frames of even length; there the checksum of an error about a frame of odd length is
  wrong (\<open>icmp4_big_endian\<close>). The local address that the kernel names for the sender's network has the length of an address.
\<close>

theorem errors_accepted:
  assumes "emit_icmp le facing data kind src p = Some p'" "p_out p' \<noteq> p_out p"
    and "be_at data 12 = Some et" "kind_fits et kind" "\<And>a b. facing a = Some b \<Longrightarrow> length b = length a"
    and "le \<or> even (length data)"
  shows "\<exists>reply. p_out p' = p_out p @ [case src of Some n \<Rightarrow> SendSptps n reply | None \<Rightarrow> ToDevice reply] \<and> eth_swapped data reply \<and>
     (if et = ETH_P_IP then icmp4_accepts (drop 14 reply) \<and> ip_dst (ipv4_read (drop 14 reply)) = take 4 (drop 26 data)
      else icmp6_accepts (drop 14 reply) \<and> ip6_dst (ipv6_read (drop 14 reply)) = take 16 (drop 22 data))"
  using assms(1)
proof (cases rule: emit_icmp_out)
  case (2 et' reply)
  have et: "et' = et" using 2(1) assms(3) by simp
  have ne: "ETH_P_IPV6 \<noteq> ETH_P_IP" by (simp add: ETH_P_IP_def ETH_P_IPV6_def)
  have "eth_swapped data reply \<and> (if et = ETH_P_IP then icmp4_accepts (drop 14 reply) \<and> ip_dst (ipv4_read (drop 14 reply)) = take 4 (drop 26 data)
      else icmp6_accepts (drop 14 reply) \<and> ip6_dst (ipv6_read (drop 14 reply)) = take 16 (drop 22 data))"
  proof (cases "et = ETH_P_IP")
    case True
    then obtain t c m so where b: "build_v4_unreachable le data t c m so = Some reply" "so = None \<or> so = facing_at facing data 26 4"
      using 2(2) assms(4) ne unfolding et by (cases kind) (auto split: if_splits)
    have "length a = 4" if "so = Some a" for a using that b(2) facing_at_length [where facing = facing and data = data and i = 26 and n = 4 and x = a, OF assms(5)] by auto
    from icmp4_accepted [OF b(1) this assms(6)] True show ?thesis by simp
  next
    case False
    then obtain t c m so where b: "build_v6_unreachable le data t c m so = Some reply" "so = None \<or> so = facing_at facing data 22 16"
      using 2(2) assms(4) unfolding et by (cases kind) (auto split: if_splits)
    have "length a = 16" if "so = Some a" for a using that b(2) facing_at_length [where facing = facing and data = data and i = 22 and n = 16 and x = a, OF assms(5)] by auto
    from icmp6_accepted [OF b(1) this assms(6)] False show ?thesis by simp
  qed
  thus ?thesis using 2(3) unfolding reply_to_def by blast
qed (use assms(2) in simp)

theorem errors_accepted_witness:
  "\<exists>p' reply. emit_icmp True (\<lambda>_. None) demo_datagram (Unreach 3 6 False) None demo_plane = Some p' \<and> p_out p' = [ToDevice reply] \<and>
     icmp4_accepts (drop 14 reply)"
proof -
  have b: "be_at demo_datagram 12 = Some ETH_P_IP" by (simp add: be_at_def rd_def demo_datagram_def be_u16_def ETH_P_IP_def)
  have ne: "ETH_P_IP \<noteq> ETH_P_IPV6" by (simp add: ETH_P_IP_def ETH_P_IPV6_def)
  obtain r where r: "build_v4_unreachable True demo_datagram 3 6 None None = Some r"
    by (simp add: build_v4_unreachable_def demo_datagram_def ETHER_SIZE_def IP_SIZE_def Let_def)
  obtain p' where p': "emit_icmp True (\<lambda>_. None) demo_datagram (Unreach 3 6 False) None demo_plane = Some p'" "p_out p' = [ToDevice r]"
    using ne by (simp add: emit_icmp_def b r demo_plane_def demo_daemon_def should_drop_def icmp_rate_limit_new_def Let_def as_secs_def
        duration_since_def write_icmp_reply_def act_def)
  have "p_out p' \<noteq> p_out demo_plane" using p'(2) by (simp add: demo_plane_def)
  from errors_accepted [OF p'(1) this b] show ?thesis using p' by (auto simp: demo_plane_def)
qed

section \<open>No panic but one\<close>

lemma emit_icmp_total: "14 \<le> length data \<Longrightarrow> emit_icmp le facing data kind src p \<noteq> None"
  by (simp add: emit_icmp_def be_at_eq Let_def split_beta)

lemma forward_send_total: "14 \<le> length data \<Longrightarrow> forward_send le facing to data src p \<noteq> None"
proof -
  assume l: "14 \<le> length data"
  obtain res data2 where r: "(if p_decrement_ttl p \<and> src \<noteq> None then decrement_ttl data else (Decremented, data)) = (res, data2)" by (rule prod.exhaust)
  have "14 \<le> length data2" if "res = SendIcmp t c" for t c using r that l ttl_icmp_same [of data t c data2] by (auto split: if_splits)
  thus ?thesis unfolding forward_send_def r Let_def prod.case using emit_icmp_total [of data2] by (cases res) auto
qed

lemma dispatch_forward_total:
  assumes "14 \<le> length data" "\<And>m. clamp data m \<noteq> None"
  shows "dispatch_forward le facing to data src p \<noteq> None"
proof -
  have tail: "forward_tail le facing to data src p \<noteq> None"
  proof (cases "clamp data (of_nat (min (via_mtu to (p_daemon p)) MTU))")
    case (Some r)
    obtain b data1 where r: "r = (b, data1)" by (rule prod.exhaust)
    have "length data1 = length data" using Some unfolding r by (rule clamp_length)
    thus ?thesis using assms(1) Some forward_send_total [of data le facing to src p] forward_send_total [of data1 le facing to src p]
      by (simp add: forward_tail_def Let_def r)
  qed (use assms(2) in simp)
  have "too_big le facing to (max m (if et = ETH_P_IP then 590 else 1294)) et data src p \<noteq> None"
    if "\<not> length data \<le> max m (if et = ETH_P_IP then 590 else 1294)" for m et
    using that emit_icmp_total [OF assms(1)] by (auto simp: too_big_def rd_def split: if_splits)
  hence "pmtu_gate le facing to data src p \<noteq> None" using assms(1) by (auto simp: pmtu_gate_def be_at_eq Let_def)
  then obtain gate where "pmtu_gate le facing to data src p = Some gate" by blast
  hence g: "\<exists>y. (pmtu_gate le facing to data src p \<bind> case_option (forward_tail le facing to data src p) Some) = Some y"
    using tail by (cases gate) auto
  have e: "\<exists>y. emit_icmp le facing data k src p = Some y" for k using emit_icmp_total [OF assms(1)] by blast
  show ?thesis using assms(1) by (simp add: dispatch_forward_def be_at_eq Let_def g e)
qed

lemma handle_arp_total:
  assumes "tree_ok (d_subnets (p_daemon p))"
  shows "handle_arp data src p \<noteq> None"
proof (cases "src = None \<and> parse_arp_req data \<noteq> None")
  case True
  then obtain t where t: "parse_arp_req data = Some t" by blast
  have l: "42 \<le> length data" "length t = 4"
    using t by (auto simp: parse_arp_req_def ETHER_SIZE_def ARP_SIZE_def ether_arp_read_def Let_def split: if_splits)
  obtain r where r: "lookup_ipv4 (d_subnets (p_daemon p)) t (\<lambda>_. True) = Some r" using v4tab.lookup_total [OF assms l(2)] by blast
  have "build_arp_reply data \<noteq> None" using l(1) by (simp add: build_arp_reply_def ETHER_SIZE_def ARP_SIZE_def Let_def)
  thus ?thesis using True t r by (auto simp: handle_arp_def Let_def split: option.splits)
qed (auto simp: handle_arp_def)

lemma handle_ndp_total:
  assumes "tree_ok (d_subnets (p_daemon p))"
  shows "handle_ndp le data src p \<noteq> None"
proof (cases "src = None \<and> parse_ndp_solicit le data \<noteq> None")
  case True
  then obtain t where t: "parse_ndp_solicit le data = Some t" by blast
  have l: "length t = 16"
    using t by (auto simp: parse_ndp_solicit_def ETHER_SIZE_def IP6_SIZE_def NS_SIZE_def Let_def split: if_splits)
  obtain r where r: "lookup_ipv6 (d_subnets (p_daemon p)) t (\<lambda>_. True) = Some r" using v6tab.lookup_total [OF assms l] by blast
  thus ?thesis using True t by (auto simp: handle_ndp_def Let_def split: option.splits ttl_result.splits prod.splits)
qed (auto simp: handle_ndp_def)

lemma route_frame_total:
  assumes "tree_ok t"
  shows "\<exists>r. route_frame data t resolve = Some r \<and> (length data < 14 \<longrightarrow> (\<exists>n h. r = TooShort n h))"
proof -
  have "\<exists>r. route_ipv4 data t resolve = Some r" using v4tab.lookup_total [OF assms, of "[data ! 30, data ! 31, data ! 32, data ! 33]" "\<lambda>n. resolve n \<noteq> None"]
    by (auto simp: route_ipv4_def Let_def ETHER_SIZE_def)
  moreover have "\<exists>r. route_ipv6 data t resolve = Some r"
    using v6tab.lookup_total [OF assms, of "take 16 (drop 38 data)" "\<lambda>n. resolve n \<noteq> None"] by (auto simp: route_ipv6_def Let_def ETHER_SIZE_def IP6_SIZE_def)
  ultimately show ?thesis by (auto simp: route_frame_def Let_def ETHER_SIZE_def)
qed

text \<open>The tap's subscribers are control connections, which have no session.\<close>

definition tap_plain :: "'g plane \<Rightarrow> bool" where
  "tap_plain p \<longleftrightarrow> list_all (\<lambda>(i, c). c_pcap c \<longrightarrow> c_sptps c = None) (d_conns (p_daemon p)) \<and>
     fits_instant (d_now (p_daemon p) + from_secs 3600)"

lemma conn_send_plain: "c_sptps c = None \<Longrightarrow> \<exists>b c'. conn_send P g line c = Some (b, c')"
  by (auto simp: conn_send_def Let_def split: prod.splits)

lemma pcap_conns_total:
  assumes "fits_instant (t + from_secs 3600)"
  shows "list_all (\<lambda>(i, c). c_pcap c \<longrightarrow> c_sptps c = None) cs \<Longrightarrow> \<exists>armed cs'. pcap_conns P g t data cs = Some (armed, cs')"
proof (induction cs)
  case (Cons ic cs)
  obtain i c where ic: "ic = (i, c)" by fastforce
  obtain armed cs' where r: "pcap_conns P g t data cs = Some (armed, cs')" using Cons by auto
  show ?case
  proof (cases "c_pcap c")
    case True
    define len where "len = (if c_pcap_snaplen c \<noteq> 0 \<and> c_pcap_snaplen c < length data then c_pcap_snaplen c else length data)"
    obtain b c1 where s: "conn_send P g (''18 14 '' @ show_radix 10 len) (c\<lparr>c_last_ping_time := t + from_secs 3600\<rparr>) = Some (b, c1)"
      using conn_send_plain [of "c\<lparr>c_last_ping_time := t + from_secs 3600\<rparr>" P g "''18 14 '' @ show_radix 10 len"] Cons.prems True ic by auto
    obtain b2 c2 where "send_raw (take len data) c1 = (b2, c2)" by fastforce
    hence "pcap_conns P g t data (ic # cs) = Some (True, (i, c2) # cs')"
      using True r assms s by (simp only: ic pcap_conns.simps len_def [symmetric] checked_add_def Let_def) simp
    thus ?thesis by blast
  qed (use r ic in simp)
next
  case Nil
  show ?case by (intro exI) (rule pcap_conns.simps(1))
qed

lemma dispatch_total:
  assumes "tree_ok (d_subnets (p_daemon p))" "\<And>m. clamp data m \<noteq> None" "length data < 14 \<longrightarrow> (\<exists>n h. r = TooShort n h) \<or> r = Broadcast"
  shows "\<exists>p'. dispatch_route_result le facing r data src p = Some p'"
proof (cases "length data < 14")
  case True
  thus ?thesis using assms(3) by (auto simp: dispatch_route_result_def Let_def split: ttl_result.splits prod.splits)
next
  case False
  hence l: "14 \<le> length data" by simp
  show ?thesis
  proof (cases r)
    case (Forward to)
    thus ?thesis using dispatch_forward_total [OF l assms(2), of le facing to src p] by (auto simp: dispatch_route_result_def)
  next
    case (Unreachable t c)
    thus ?thesis using emit_icmp_total [OF l, of le facing "Unreach t c False" src p] by (auto simp: dispatch_route_result_def)
  next
    case NeighborSolicit
    thus ?thesis using handle_ndp_total [OF assms(1), of le data src] by (auto simp: dispatch_route_result_def)
  next
    case Broadcast
    thus ?thesis by (auto simp: dispatch_route_result_def Let_def split: ttl_result.splits prod.splits)
  qed (auto simp: dispatch_route_result_def)
qed

text \<open>
  C22: as a router or a hub with the DNS stub off, the daemon takes every frame from the device or from a
  peer, whatever its bytes are, as far as the calls that seal it, probe the path or write it to the device
  without a panic, unless the MSS clamp panics on it. If a packet tap is armed, this needs that its
  subscribers are plain control connections and that the clock has an hour left.
\<close>

theorem forward_total:
  assumes "tree_ok (d_subnets (p_daemon p))" "p_routing_mode p \<noteq> Switch" "p_any_pcap p \<longrightarrow> tap_plain p" "\<And>m. clamp data m \<noteq> None"
  shows "\<exists>p'. forward_packet P le facing data src p = Some p'"
proof -
  obtain q where q: "(if p_any_pcap p then send_pcap P data p else Some p) = Some q" "d_subnets (p_daemon q) = d_subnets (p_daemon p)"
      "p_routing_mode q = p_routing_mode p"
    using assms(3) pcap_conns_total [of "d_now (p_daemon p)" "d_conns (p_daemon p)" P "d_rng (p_daemon p)" data]
    by (cases "p_any_pcap p") (auto simp: tap_plain_def send_pcap_def)
  have t: "tree_ok (d_subnets (p_daemon q))" using assms(1) q(2) by simp
  note d = dispatch_total [OF t assms(4)]
  obtain r where r: "route_frame data (d_subnets (p_daemon q)) (resolve_reachable (p_daemon q)) = Some r" "length data < 14 \<longrightarrow> (\<exists>n h. r = TooShort n h)"
    using route_frame_total [OF t] by blast
  have "\<exists>p'. handle_arp data src q = Some p'" using handle_arp_total [OF t] by blast
  thus ?thesis using d [of Broadcast] d [of r] r assms(2) q(1,3) by (cases "p_routing_mode p") (auto simp: forward_packet_def)
qed

definition tapped_plane :: "nat plane" where
  "tapped_plane = demo_plane\<lparr>p_daemon := demo_daemon\<lparr>d_conns := [(3, (conn_new_base ''<control>'' ''local'' 0)\<lparr>c_control := True, c_pcap := True\<rparr>)]\<rparr>,
     p_any_pcap := True\<rparr>"

theorem forward_total_witness:
  "p_any_pcap tapped_plane \<and> (\<exists>p'. forward_packet demo_prims True (\<lambda>_. None) demo_datagram (Some 1) tapped_plane = Some p')"
proof -
  have "mss_tcp demo_datagram = Some None"
    by (simp add: mss_tcp_def demo_datagram_def be_at_def rd_def ETHER_SIZE_def ETH_P_IP_def ETH_P_8021Q_def be_u16_def)
  hence "clamp demo_datagram m \<noteq> None" for m by (simp add: clamp_def)
  moreover have "tap_plain tapped_plane" by (simp add: tapped_plane_def tap_plain_def conn_new_base_def fits_instant_def from_secs_def demo_daemon_def)
  ultimately show ?thesis using forward_total [of tapped_plane demo_datagram demo_prims True "\<lambda>_. None" "Some 1"]
    by (simp add: tapped_plane_def demo_plane_def demo_daemon_def tree_ok_new)
qed

section \<open>Where the path does not do what it means to\<close>

text \<open>
  C39: a router forwards a malformed SYN, 62 bytes long, to a peer that announced MSS clamping, and
  panics: whoever may send one frame through the daemon ends it.
\<close>

theorem malformed_syn_panics:
  assumes "f = syn_frame a b c d 0x70 [254, 4, 0, 0, 1, 1, 2, 2]"
    and "p_routing_mode p = Router" "\<not> p_any_pcap p" "p_forwarding_mode p = FwdInternal"
    and "route_frame f (d_subnets (p_daemon p)) (resolve_reachable (p_daemon p)) = Some (Forward to)"
    and "to \<noteq> d_myself (p_daemon p)" "may_forward to src p" "route_of (p_daemon p) to = Some r" "r_options r AND CLAMP_MSS \<noteq> 0"
  shows "forward_packet P le facing f src p = None"
proof -
  have f: "length f = 62" "be_at f 12 = Some 0x0800" "be_u16 (f ! 12) (f ! 13) \<noteq> ETH_P_ARP"
    by (simp_all add: assms(1) syn_frame_def be_at_def rd_def be_u16_def ETH_P_ARP_def)
  have "clamp f m = None" for m unfolding assms(1) by (rule clamp_panics)
  hence t: "forward_tail le facing to f src p = None" using assms(8,9) by (simp add: forward_tail_def Let_def)
  have "pmtu_gate le facing to f src p = Some None" by (simp add: pmtu_gate_def f Let_def le_max_iff_disj)
  hence "dispatch_forward le facing to f src p = None" using t assms(4,7) by (auto simp: dispatch_forward_def may_forward_def Let_def)
  thus ?thesis using assms(2-6) f by (simp add: forward_packet_def dispatch_route_result_def)
qed

definition open_daemon :: "nat daemon" where
  "open_daemon = demo_daemon\<lparr>d_subnets := tree_add (V4 [10, 0, 0, 0] 8 10) ''bob'' tree_new,
     d_graph := graph_new\<lparr>g_nodes := map (\<lambda>nm. Some \<lparr>gn_name = nm, gn_edges = [], gn_reachable = True\<rparr>) [''alice'', ''bob'', ''carol'']\<rparr>,
     d_last_routes := [None, Some \<lparr>r_indirect = False, r_distance = 1, r_wdist = 1, r_nexthop = 1, r_via = 1, r_prevedge = None, r_options = CLAMP_MSS\<rparr>]\<rparr>"

definition open_plane :: "nat plane" where
  "open_plane = demo_plane\<lparr>p_daemon := open_daemon, p_decrement_ttl := True\<rparr>"

lemma open_resolve: "resolve_reachable open_daemon = map_of [(''alice'', 0), (''bob'', 1), (''carol'', 2)]"
  by (rule ext) (simp add: resolve_reachable_def open_daemon_def demo_daemon_def node_reachable_def get_node_def slot_def)

lemma open_facts:
  "d_myself open_daemon = 0" "via_of 1 open_daemon = 1" "via_mtu 1 open_daemon = MTU" "r_options (the (route_of open_daemon 1)) = CLAMP_MSS"
  "route_of open_daemon 1 = Some (the (route_of open_daemon 1))" "may_forward 1 (Some 2) open_plane"
  by (simp_all add: open_daemon_def open_plane_def demo_plane_def demo_daemon_def via_of_def route_of_def slot_def via_mtu_def may_forward_def Let_def)

theorem malformed_syn_panics_witness:
  "forward_packet demo_prims True (\<lambda>_. None) (syn_frame 10 0 0 1 0x70 [254, 4, 0, 0, 1, 1, 2, 2]) (Some 2) open_plane = None"
proof (rule malformed_syn_panics [OF refl])
  show "route_frame (syn_frame 10 0 0 1 0x70 [254, 4, 0, 0, 1, 1, 2, 2]) (d_subnets (p_daemon open_plane)) (resolve_reachable (p_daemon open_plane)) =
      Some (Forward 1)"
  proof -
    have "d_subnets open_daemon = tree_add (V4 [10, 0, 0, 0] 8 10) ''bob'' tree_new" by (simp add: open_daemon_def)
    moreover have "route_frame (syn_frame 10 0 0 1 0x70 [254, 4, 0, 0, 1, 1, 2, 2]) (tree_add (V4 [10, 0, 0, 0] 8 10) ''bob'' tree_new)
        (map_of [(''alice'', 0 :: nat), (''bob'', 1), (''carol'', 2)]) = Some (Forward 1)" by code_simp
    ultimately show ?thesis by (simp add: open_plane_def open_resolve)
  qed
  show "r_options (the (route_of open_daemon 1)) AND CLAMP_MSS \<noteq> 0" unfolding open_facts(4) by (simp add: CLAMP_MSS_def)
qed (use open_facts in \<open>simp_all add: open_plane_def demo_plane_def\<close>)

text \<open>
  C40: a datagram that is too big for the next hop is sent on in fragments with the TTL it came with,
  also when the daemon is configured to decrement it: a packet in a routing loop whose fragments
  go round keeps its TTL. The priority of the packet before it stays in force too.
\<close>

theorem fragments_keep_ttl:
  assumes "may_forward to src p" "p_decrement_ttl p" "be_at data 12 = Some ETH_P_IP" "\<not> fits_hop to ETH_P_IP (length data) p"
    and "data ! 20 AND 0x40 = 0" "fragment_v4 le data (of_nat (max (via_mtu to (p_daemon p)) 590)) = Some frags"
    and "fr_off data + length (fr_data data) \<le> 65536"
  shows "\<exists>p'. dispatch_forward le facing to data src p = Some p' \<and> p_out p' = p_out p @ TryTx to # map (SendSptps to) frags \<and>
     (\<forall>f \<in> set frags. ip_ttl (fr_hdr f) = ip_ttl (fr_hdr data)) \<and> p_tx_priority p' = p_tx_priority p"
proof -
  have l: "590 < length data" "via_of to (p_daemon p) \<noteq> d_myself (p_daemon p)" "via_mtu to (p_daemon p) \<noteq> 0"
      "\<not> length data \<le> max (via_mtu to (p_daemon p)) 590"
    using assms(4) by (auto simp: fits_hop_def Let_def)
  define p' where "p' = fold (\<lambda>f. act (SendSptps to f)) frags (act (TryTx to) (fold (\<lambda>f. count_out to (length f)) frags p))"
  have "too_big le facing to (max (via_mtu to (p_daemon p)) 590) ETH_P_IP data src p = Some p'"
    using assms(5,6) l(1) by (simp add: too_big_def rd_def p'_def Let_def)
  hence "pmtu_gate le facing to data src p = Some (Some p')" using l(2-4) assms(3) by (simp add: pmtu_gate_def Let_def)
  hence "dispatch_forward le facing to data src p = Some p'" using assms(1) by (auto simp: dispatch_forward_def may_forward_def Let_def)
  moreover have "ip_ttl (fr_hdr f) = ip_ttl (fr_hdr data)" if "f \<in> set frags" for f
    using fragment_piece [OF assms(6,7) that] by (auto simp: piece_def same_datagram_def)
  ultimately show ?thesis by (simp add: p'_def)
qed

definition big_datagram :: bytes where
  "big_datagram = [0, 0, 0, 0, 0, 0, 0, 0, 0, 0, 0, 0, 8, 0, 0x45, 0, 5, 240, 0, 7, 0, 0, 64, 17, 0, 0, 10, 0, 0, 1, 10, 0, 0, 2] @ replicate 1500 9"

lemma big_facts:
  "length big_datagram = 1534" "be_at big_datagram 12 = Some ETH_P_IP" "big_datagram ! 20 AND 0x40 = 0"
  "unat (total_len (ipv4_read (take 20 (drop 14 big_datagram)))) = 1520" "unat (ihl (ipv4_read (take 20 (drop 14 big_datagram)))) = 5"
  "get_off (ipv4_read (take 20 (drop 14 big_datagram))) = 0"
proof -
  have t: "take 20 (drop 14 big_datagram) = [0x45, 0, 5, 240, 0, 7, 0, 0, 64, 17, 0, 0, 10, 0, 0, 1, 10, 0, 0, 2]" by (simp add: big_datagram_def)
  show "length big_datagram = 1534" "be_at big_datagram 12 = Some ETH_P_IP" "big_datagram ! 20 AND 0x40 = 0"
    by (simp_all add: big_datagram_def be_at_def rd_def be_u16_def ETH_P_IP_def)
  show "unat (total_len (ipv4_read (take 20 (drop 14 big_datagram)))) = 1520" "unat (ihl (ipv4_read (take 20 (drop 14 big_datagram)))) = 5"
      "get_off (ipv4_read (take 20 (drop 14 big_datagram))) = 0"
    unfolding t by (simp_all add: ipv4_read_def total_len_def from_be16_def be_u16_def ihl_def get_off_def)
qed

theorem fragments_keep_ttl_witness:
  "\<exists>p' frags. dispatch_forward True (\<lambda>_. None) 1 big_datagram (Some 2) open_plane = Some p' \<and> p_out p' = TryTx 1 # map (SendSptps 1) frags \<and>
     (\<forall>f \<in> set frags. ip_ttl (fr_hdr f) = 64)"
proof -
  have m: "via_mtu 1 (p_daemon open_plane) = 1518" "p_out open_plane = []" "p_decrement_ttl open_plane"
    using open_facts(3) by (simp_all add: open_plane_def MTU_def demo_plane_def)
  obtain frags where f: "fragment_v4 True big_datagram (of_nat (max (via_mtu 1 (p_daemon open_plane)) 590)) = Some frags"
    unfolding m(1) using big_facts by (simp add: fragment_v4_def ETHER_SIZE_def IP_SIZE_def Let_def)
  have "\<not> fits_hop 1 ETH_P_IP (length big_datagram) open_plane" using m(1) open_facts(1,2) by (simp add: fits_hop_def big_facts open_plane_def)
  moreover have "fr_off big_datagram + length (fr_data big_datagram) \<le> 65536" by (simp add: fr_off_def fr_hdr_def fr_data_def big_facts)
  moreover have "ip_ttl (fr_hdr big_datagram) = 64" by (simp add: fr_hdr_def big_datagram_def ipv4_read_def)
  ultimately show ?thesis using fragments_keep_ttl [OF open_facts(6) m(3) big_facts(2) _ big_facts(3) f, of "\<lambda>_. None"] m(2) by auto
qed

text \<open>
  A frame that is neither IPv4 nor IPv6, an 802.1Q frame in a switched network for example, and is
  larger than the next hop takes is not forwarded; it is answered with an IPv6 packet, made of
  bytes that are no IPv6 header, in a frame of the other type.
\<close>

lemma other_frame_answered:
  assumes "may_forward to src p" "be_at data 12 = Some et" "et \<noteq> ETH_P_IP" "et \<noteq> ETH_P_IPV6" "\<not> fits_hop to et (length data) p"
    and "\<not> fst (should_drop (of_nat (as_secs (duration_since (d_now (p_daemon p)) (p_started_at p)))) 3 (p_icmp_ratelimit p))"
  shows "\<exists>p' reply. dispatch_forward le facing to data src p = Some p' \<and> p_out p' = p_out p @ [reply_to src reply] \<and>
     be_at reply 12 = Some et \<and> reply ! 14 = 0x60"
proof -
  define lim where "lim = max (via_mtu to (p_daemon p)) 1294"
  have l: "lim < length data" "via_of to (p_daemon p) \<noteq> d_myself (p_daemon p)" "via_mtu to (p_daemon p) \<noteq> 0"
    using assms(3,5) by (auto simp: fits_hop_def Let_def lim_def)
  have n: "\<not> length data \<le> max (via_mtu to (p_daemon p)) 1294" using l(1) unfolding lim_def by linarith
  have len: "1294 < length data" using l(1) by (simp add: lim_def)
  obtain reply where r: "build_v6_unreachable le data ICMP6_PACKET_TOO_BIG 0 (Some (of_nat (lim - 14))) None = Some reply"
    using len by (simp add: build_v6_unreachable_def ETHER_SIZE_def IP6_SIZE_def Let_def)
  obtain p' where p': "emit_icmp le facing data (TooBigV6 (of_nat (lim - 14))) src p = Some p'" "p_out p' = p_out p @ [reply_to src reply]"
    using assms(2,6) r by (simp add: emit_icmp_def Let_def split_beta write_icmp_reply_def reply_to_def)
  have "pmtu_gate le facing to data src p = Some (Some p')"
    using l(2,3) n p'(1) assms(2,3) by (simp add: pmtu_gate_def Let_def too_big_def lim_def)
  hence "dispatch_forward le facing to data src p = Some p'" using assms(1) by (auto simp: dispatch_forward_def may_forward_def Let_def)
  moreover have "be_at reply 12 = Some et" "reply ! 14 = 0x60"
    using build_v6_shape(2) [OF r] len assms(2)
    by (simp_all add: be_at_def rd_def eth_reply_hdr_def err_ip6_def ipv6_bytes_def raw16_bytes_def nth_append)
  ultimately show ?thesis using p'(2) by blast
qed

end
