(* ===== verification/Autoconnect.thy ===== *)
theory Autoconnect
  imports Daemon_Conn
begin

text \<open>
  The decision of \<open>tincd/src/autoconnect.rs\<close>: a snapshot of nodes and outgoing slots in, one action out. The
  random source is a parameter, a step function on its state; \<open>None\<close> is the panic of a remainder by zero.
  Rates, in bytes per second, are inputs, and names are compared byte by byte.
\<close>

section \<open>Model\<close>

datatype out_origin = ConfigConnectTo | AutoBackbone | AutoShortcut

datatype auto_action = Connect string out_origin | Disconnect string out_origin | CancelPending string | Noop

record node_snapshot =
  sn_name :: string
  sn_reachable :: bool
  sn_has_address :: bool
  sn_has_dht_key :: bool
  sn_directly_connected :: bool
  sn_edge_count :: nat
  sn_relay_rate_bps :: nat
  sn_tx_rate_bps :: nat
  sn_nexthop :: "string option"
  sn_backoff_until :: "instant option"

record outgoing_snapshot =
  os_name :: string
  os_origin :: out_origin
  os_age :: duration

record shortcut_knobs =
  d_lo :: nat
  d_shortcut :: nat
  d_hi :: nat
  relay_hi_bps :: nat
  relay_lo_bps :: nat
  min_hold :: duration

definition SHORTCUT_BACKOFF :: duration where "SHORTCUT_BACKOFF = from_secs 60"

definition knobs_default :: shortcut_knobs where
  "knobs_default = \<lparr>d_lo = 3, d_shortcut = 2, d_hi = 6, relay_hi_bps = 32768, relay_lo_bps = 4096, min_hold = SHORTCUT_BACKOFF\<rparr>"

text \<open>\<open>rng.next_u32() % (xs.len() as u32)\<close> as an index.\<close>

definition pick :: "('g \<Rightarrow> u32 \<times> 'g) \<Rightarrow> 'a list \<Rightarrow> 'g \<Rightarrow> ('a \<times> 'g) option" where
  "pick next_u32 xs g =
     (let (v, g) = next_u32 g; n = of_nat (length xs)
      in if n = 0 then None else Some (xs ! unat (v mod n), g))"

definition make_new_connection ::
    "('g \<Rightarrow> u32 \<times> 'g) \<Rightarrow> string \<Rightarrow> node_snapshot list \<Rightarrow> outgoing_snapshot list \<Rightarrow> 'g \<Rightarrow> (auto_action \<times> 'g) option" where
  "make_new_connection next_u32 me nodes pending g =
     (let eligible = filter (\<lambda>n. sn_name n \<noteq> me \<and> \<not> sn_directly_connected n \<and>
                               (sn_has_address n \<or> sn_has_dht_key n \<or> sn_reachable n)) nodes
      in if eligible = [] then Some (Noop, g)
         else do {
           (n, g) \<leftarrow> pick next_u32 eligible g;
           Some (if sn_name n \<in> os_name ` set pending then Noop else Connect (sn_name n) AutoBackbone, g) })"

definition connect_to_unreachable ::
    "('g \<Rightarrow> u32 \<times> 'g) \<Rightarrow> string \<Rightarrow> node_snapshot list \<Rightarrow> outgoing_snapshot list \<Rightarrow> 'g \<Rightarrow> (auto_action \<times> 'g) option" where
  "connect_to_unreachable next_u32 me nodes pending g =
     (if nodes = [] then Some (Noop, g)
      else do {
        (n, g) \<leftarrow> pick next_u32 nodes g;
        Some (if sn_name n = me \<or> sn_directly_connected n \<or> sn_reachable n \<or> \<not> (sn_has_address n \<or> sn_has_dht_key n) then Noop
              else if sn_name n \<in> os_name ` set pending then Noop
              else Connect (sn_name n) AutoBackbone, g) })"

definition node_named :: "node_snapshot list \<Rightarrow> string \<Rightarrow> node_snapshot option" where
  "node_named nodes nm = find (\<lambda>n. sn_name n = nm) nodes"

definition droppable :: "node_snapshot list \<Rightarrow> string set \<Rightarrow> shortcut_knobs \<Rightarrow> outgoing_snapshot \<Rightarrow> bool" where
  "droppable nodes hot k out \<longleftrightarrow> (os_origin out \<noteq> AutoShortcut \<or> min_hold k \<le> os_age out) \<and> os_name out \<notin> hot \<and>
     (case node_named nodes (os_name out) of None \<Rightarrow> False | Some n \<Rightarrow> 2 \<le> sn_edge_count n)"

definition drop_superfluous_outgoing ::
    "('g \<Rightarrow> u32 \<times> 'g) \<Rightarrow> node_snapshot list \<Rightarrow> outgoing_snapshot list \<Rightarrow> string set \<Rightarrow> shortcut_knobs \<Rightarrow> 'g \<Rightarrow> (auto_action \<times> 'g) option" where
  "drop_superfluous_outgoing next_u32 nodes active hot k g =
     (let drops = filter (droppable nodes hot k) active
      in if drops = [] then Some (Noop, g)
         else do { (out, g) \<leftarrow> pick next_u32 drops g; Some (Disconnect (os_name out) (os_origin out), g) })"

definition degree :: "string \<Rightarrow> node_snapshot list \<Rightarrow> nat" where
  "degree me nodes = length (filter (\<lambda>n. sn_directly_connected n \<and> sn_name n \<noteq> me) nodes)"

definition hot_nexthops :: "shortcut_knobs \<Rightarrow> node_snapshot list \<Rightarrow> string set" where
  "hot_nexthops k nodes = set (List.map_filter sn_nexthop (filter (\<lambda>n. relay_lo_bps k < sn_tx_rate_bps n) nodes))"

definition shortcut_count :: "outgoing_snapshot list \<Rightarrow> nat" where
  "shortcut_count outs = length (filter (\<lambda>out. os_origin out = AutoShortcut) outs)"

definition shortcut_candidate :: "string \<Rightarrow> outgoing_snapshot list \<Rightarrow> shortcut_knobs \<Rightarrow> instant \<Rightarrow> node_snapshot \<Rightarrow> bool" where
  "shortcut_candidate me pending k now n \<longleftrightarrow> sn_name n \<noteq> me \<and> \<not> sn_directly_connected n \<and> (sn_has_address n \<or> sn_has_dht_key n) \<and>
     relay_hi_bps k < sn_relay_rate_bps n \<and> (case sn_backoff_until n of None \<Rightarrow> True | Some t \<Rightarrow> t \<le> now) \<and>
     sn_name n \<notin> os_name ` set pending"

definition relays_less :: "node_snapshot \<Rightarrow> node_snapshot \<Rightarrow> bool" where
  "relays_less a b \<longleftrightarrow> sn_relay_rate_bps a < sn_relay_rate_bps b \<or>
     (sn_relay_rate_bps a = sn_relay_rate_bps b \<and> less_str (sn_name a) (sn_name b))"

text \<open>\<open>Iterator::max_by\<close>: the later of two that compare equal.\<close>

fun max_by :: "('a \<Rightarrow> 'a \<Rightarrow> bool) \<Rightarrow> 'a list \<Rightarrow> 'a option" where
  "max_by lt [] = None"
| "max_by lt (x # xs) = Some (fold (\<lambda>y best. if lt y best then best else y) xs x)"

definition idle_shortcut :: "node_snapshot list \<Rightarrow> string set \<Rightarrow> shortcut_knobs \<Rightarrow> outgoing_snapshot \<Rightarrow> bool" where
  "idle_shortcut nodes hot k out \<longleftrightarrow> os_origin out = AutoShortcut \<and> min_hold k \<le> os_age out \<and> os_name out \<notin> hot \<and>
     (case node_named nodes (os_name out) of None \<Rightarrow> False | Some n \<Rightarrow> 2 \<le> sn_edge_count n \<and> sn_tx_rate_bps n < relay_lo_bps k)"

definition settle ::
    "('g \<Rightarrow> u32 \<times> 'g) \<Rightarrow> string \<Rightarrow> node_snapshot list \<Rightarrow> outgoing_snapshot list \<Rightarrow> outgoing_snapshot list \<Rightarrow> shortcut_knobs \<Rightarrow> 'g \<Rightarrow> (auto_action \<times> 'g) option" where
  "settle next_u32 me nodes active pending k g =
     (let idle = (if d_lo k < degree me nodes then filter (idle_shortcut nodes (hot_nexthops k nodes) k) active else [])
      in if idle \<noteq> [] then do { (out, g) \<leftarrow> pick next_u32 idle g; Some (Disconnect (os_name out) AutoShortcut, g) }
         else case find (\<lambda>p. os_origin p \<noteq> AutoShortcut) pending of
             Some p \<Rightarrow> Some (CancelPending (os_name p), g)
           | None \<Rightarrow> connect_to_unreachable next_u32 me nodes pending g)"

definition decide ::
    "('g \<Rightarrow> u32 \<times> 'g) \<Rightarrow> string \<Rightarrow> node_snapshot list \<Rightarrow> outgoing_snapshot list \<Rightarrow> outgoing_snapshot list \<Rightarrow> shortcut_knobs \<Rightarrow>
     instant \<Rightarrow> 'g \<Rightarrow> (auto_action \<times> 'g) option" where
  "decide next_u32 me nodes active pending k now g =
     (let nc = degree me nodes
      in if nc < d_lo k then make_new_connection next_u32 me nodes pending g
         else let cand = (if shortcut_count (active @ pending) < d_shortcut k \<and> nc < d_hi k
                          then max_by relays_less (filter (shortcut_candidate me pending k now) nodes) else None)
              in case cand of
                   Some n \<Rightarrow> Some (Connect (sn_name n) AutoShortcut, g)
                 | None \<Rightarrow> do {
                     (act, g) \<leftarrow> (if d_hi k < nc then drop_superfluous_outgoing next_u32 nodes active (hot_nexthops k nodes) k g else Some (Noop, g));
                     if act \<noteq> Noop then Some (act, g) else settle next_u32 me nodes active pending k g })"

section \<open>What may be decided\<close>

lemma pick_mem: "pick next_u32 xs g = Some (x, g') \<Longrightarrow> x \<in> set xs"
proof -
  assume p: "pick next_u32 xs g = Some (x, g')"
  obtain v h where v: "next_u32 g = (v, h)" by fastforce
  let ?n = "of_nat (length xs) :: u32"
  have n: "?n \<noteq> 0" "x = xs ! unat (v mod ?n)" using p v by (auto simp: pick_def Let_def split: if_splits)
  have "unat (v mod ?n) < unat ?n" using n(1) by (simp add: unat_mod_distrib unat_gt_0)
  also have "\<dots> \<le> length xs" by (simp add: unat_of_nat)
  finally show "x \<in> set xs" using n(2) by simp
qed

lemma pick_none: "length xs < 2 ^ 32 \<Longrightarrow> pick next_u32 xs g = None \<longleftrightarrow> xs = []"
proof -
  assume xs: "length xs < 2 ^ 32"
  have "unat (of_nat (length xs) :: u32) = length xs" using xs by (simp add: unat_of_nat)
  hence "(of_nat (length xs) :: u32) = 0 \<longleftrightarrow> xs = []" by (auto simp: unat_eq_0 [symmetric] simp del: unat_eq_0)
  thus ?thesis by (simp add: pick_def split: prod.splits)
qed

lemma max_by_mem: "max_by lt xs = Some x \<Longrightarrow> x \<in> set xs"
proof (cases xs)
  case (Cons y ys)
  assume "max_by lt xs = Some x"
  hence "x = fold (\<lambda>y best. if lt y best then best else y) ys y" using Cons by simp
  moreover have "fold (\<lambda>y best. if lt y best then best else y) ys z \<in> insert z (set ys)" for z
    by (induction ys arbitrary: z) (auto split: if_splits)
  ultimately show ?thesis using Cons by auto
qed simp

lemma max_by_heaviest:
  assumes "max_by relays_less xs = Some x" "y \<in> set xs"
  shows "sn_relay_rate_bps y \<le> sn_relay_rate_bps x"
proof (cases xs)
  case (Cons z zs)
  have all: "\<forall>y\<in>insert w (set ys). sn_relay_rate_bps y \<le> sn_relay_rate_bps (fold (\<lambda>y best. if relays_less y best then best else y) ys w)" for w ys
  proof (induction ys arbitrary: w)
    case (Cons v ys)
    have "sn_relay_rate_bps w \<le> sn_relay_rate_bps (if relays_less v w then w else v)"
      "sn_relay_rate_bps v \<le> sn_relay_rate_bps (if relays_less v w then w else v)"
      by (auto simp: relays_less_def)
    thus ?case using Cons [of "if relays_less v w then w else v"] by fastforce
  qed simp
  show ?thesis using all [of z zs] assms Cons by auto
qed (use assms in simp)

text \<open>A node this one may dial, and a slot it may give up.\<close>

definition may_dial :: "string \<Rightarrow> node_snapshot list \<Rightarrow> outgoing_snapshot list \<Rightarrow> node_snapshot \<Rightarrow> bool" where
  "may_dial me nodes pending n \<longleftrightarrow> n \<in> set nodes \<and> sn_name n \<noteq> me \<and> \<not> sn_directly_connected n \<and>
     (sn_has_address n \<or> sn_has_dht_key n \<or> sn_reachable n) \<and> sn_name n \<notin> os_name ` set pending"

definition may_drop :: "node_snapshot list \<Rightarrow> outgoing_snapshot list \<Rightarrow> shortcut_knobs \<Rightarrow> outgoing_snapshot \<Rightarrow> bool" where
  "may_drop nodes active k out \<longleftrightarrow> out \<in> set active \<and> os_name out \<notin> hot_nexthops k nodes \<and>
     (os_origin out = AutoShortcut \<longrightarrow> min_hold k \<le> os_age out) \<and>
     (\<exists>n\<in>set nodes. sn_name n = os_name out \<and> 2 \<le> sn_edge_count n)"

fun sound_action :: "string \<Rightarrow> node_snapshot list \<Rightarrow> outgoing_snapshot list \<Rightarrow> outgoing_snapshot list \<Rightarrow> shortcut_knobs \<Rightarrow> instant \<Rightarrow> auto_action \<Rightarrow> bool" where
  "sound_action me nodes active pending k t (Connect nm og) \<longleftrightarrow> (\<exists>n. sn_name n = nm \<and> may_dial me nodes pending n \<and>
     (case og of
        ConfigConnectTo \<Rightarrow> False
      | AutoBackbone \<Rightarrow> degree me nodes < d_lo k \<or> (\<not> sn_reachable n \<and> (\<forall>p\<in>set pending. os_origin p = AutoShortcut))
      | AutoShortcut \<Rightarrow> d_lo k \<le> degree me nodes \<and> degree me nodes < d_hi k \<and> shortcut_count (active @ pending) < d_shortcut k \<and>
          shortcut_candidate me pending k t n \<and>
          (\<forall>m\<in>set nodes. shortcut_candidate me pending k t m \<longrightarrow> sn_relay_rate_bps m \<le> sn_relay_rate_bps n)))"
| "sound_action me nodes active pending k t (Disconnect nm og) \<longleftrightarrow> (\<exists>out. os_name out = nm \<and> os_origin out = og \<and>
     may_drop nodes active k out \<and> d_lo k < degree me nodes \<and> (degree me nodes \<le> d_hi k \<longrightarrow> og = AutoShortcut))"
| "sound_action me nodes active pending k t (CancelPending nm) \<longleftrightarrow> d_lo k \<le> degree me nodes \<and>
     (\<exists>p\<in>set pending. os_name p = nm \<and> os_origin p \<noteq> AutoShortcut)"
| "sound_action me nodes active pending k t Noop \<longleftrightarrow> True"

lemma node_namedD: "node_named nodes nm = Some n \<Longrightarrow> n \<in> set nodes \<and> sn_name n = nm"
  by (auto simp: node_named_def find_Some_iff)

lemma make_new_sound:
  "make_new_connection rnd me nodes pending g = Some (act, g') \<Longrightarrow> degree me nodes < d_lo k \<Longrightarrow> sound_action me nodes active pending k t act"
  by (auto simp: make_new_connection_def may_dial_def Let_def split: if_splits Option.bind_splits dest!: pick_mem)

lemma unreachable_sound:
  "connect_to_unreachable rnd me nodes pending g = Some (act, g') \<Longrightarrow> \<forall>p\<in>set pending. os_origin p = AutoShortcut \<Longrightarrow>
   sound_action me nodes active pending k t act"
  by (auto simp: connect_to_unreachable_def may_dial_def split: if_splits Option.bind_splits dest!: pick_mem)

lemma drop_sound:
  "drop_superfluous_outgoing rnd nodes active (hot_nexthops k nodes) k g = Some (act, g') \<Longrightarrow> d_hi k < degree me nodes \<Longrightarrow> d_lo k \<le> d_hi k \<Longrightarrow>
   sound_action me nodes active pending k t act"
  by (fastforce simp: drop_superfluous_outgoing_def droppable_def may_drop_def Let_def
      split: if_splits Option.bind_splits option.splits dest!: pick_mem node_namedD)

lemma settle_sound:
  assumes "settle rnd me nodes active pending k g = Some (act, g')" "d_lo k \<le> degree me nodes"
  shows "sound_action me nodes active pending k t act"
proof -
  let ?idle = "if d_lo k < degree me nodes then filter (idle_shortcut nodes (hot_nexthops k nodes) k) active else []"
  show ?thesis
  proof (cases "?idle = []")
    case False
    then obtain out where out: "out \<in> set ?idle" "act = Disconnect (os_name out) AutoShortcut"
      using assms(1) by (auto simp: settle_def Let_def split: if_splits Option.bind_splits dest!: pick_mem)
    thus ?thesis using False
      by (fastforce simp: idle_shortcut_def may_drop_def split: if_splits option.splits dest!: node_namedD)
  next
    case True
    show ?thesis
    proof (cases "find (\<lambda>p. os_origin p \<noteq> AutoShortcut) pending")
      case None
      hence "connect_to_unreachable rnd me nodes pending g = Some (act, g')"
        using assms(1) unfolding settle_def Let_def True None by simp
      moreover have "\<forall>p\<in>set pending. os_origin p = AutoShortcut" using None by (auto simp: find_None_iff)
      ultimately show ?thesis by (rule unreachable_sound)
    next
      case (Some p)
      hence "act = CancelPending (os_name p)" using assms(1) True by (auto simp: settle_def Let_def split: if_splits)
      moreover have "p \<in> set pending" "os_origin p \<noteq> AutoShortcut" using Some by (auto simp: find_Some_iff)
      ultimately show ?thesis using assms(2) by auto
    qed
  qed
qed

lemma decide_low: "degree me nodes < d_lo k \<Longrightarrow> decide rnd me nodes active pending k t g = make_new_connection rnd me nodes pending g"
  by (simp add: decide_def)

lemma decide_shortcut_sound:
  assumes "max_by relays_less (filter (shortcut_candidate me pending k t) nodes) = Some n" "d_lo k \<le> degree me nodes"
    "shortcut_count (active @ pending) < d_shortcut k" "degree me nodes < d_hi k"
  shows "sound_action me nodes active pending k t (Connect (sn_name n) AutoShortcut)"
proof -
  have "n \<in> set nodes" "shortcut_candidate me pending k t n" using max_by_mem [OF assms(1)] by auto
  moreover have "\<forall>m\<in>set nodes. shortcut_candidate me pending k t m \<longrightarrow> sn_relay_rate_bps m \<le> sn_relay_rate_bps n"
    using max_by_heaviest [OF assms(1)] by auto
  ultimately show ?thesis using assms by (auto simp: may_dial_def shortcut_candidate_def)
qed

lemma decide_high_sound:
  assumes "decide rnd me nodes active pending k t g = Some (act, g')" "d_lo k \<le> degree me nodes" "d_lo k \<le> d_hi k"
  shows "sound_action me nodes active pending k t act"
proof -
  let ?cand = "if shortcut_count (active @ pending) < d_shortcut k \<and> degree me nodes < d_hi k
    then max_by relays_less (filter (shortcut_candidate me pending k t) nodes) else None"
  show ?thesis
  proof (cases ?cand)
    case (Some n)
    hence "act = Connect (sn_name n) AutoShortcut" using assms(1,2) by (auto simp: decide_def Let_def split: if_splits)
    thus ?thesis using decide_shortcut_sound [of me pending k t nodes n active] assms(2) Some by (auto split: if_splits)
  next
    case None
    obtain a g1 where a: "(if d_hi k < degree me nodes then drop_superfluous_outgoing rnd nodes active (hot_nexthops k nodes) k g else Some (Noop, g)) = Some (a, g1)"
      "(if a \<noteq> Noop then Some (a, g1) else settle rnd me nodes active pending k g1) = Some (act, g')"
      using assms(1,2) unfolding decide_def Let_def None by (auto split: Option.bind_splits)
    show ?thesis
    proof (cases "a = Noop")
      case True
      thus ?thesis using a(2) settle_sound assms(2) by simp
    next
      case False
      thus ?thesis using a assms(3) drop_sound [of rnd nodes active k g a g1 me pending t] by (simp split: if_splits)
    qed
  qed
qed

lemma filter_small: "length xs < 2 ^ 32 \<Longrightarrow> length (filter Q xs) < (2 :: nat) ^ 32"
  using length_filter_le [of Q xs] by (rule le_less_trans)

lemma decide_total:
  assumes "length nodes < 2 ^ 32" "length active < 2 ^ 32"
  shows "decide rnd me nodes active pending k t g \<noteq> None"
proof -
  note none = Option.bind_eq_None_conv pick_none [OF assms(1)] pick_none [OF filter_small [OF assms(1)]] pick_none [OF filter_small [OF assms(2)]]
  have u: "connect_to_unreachable rnd me nodes pending g = None \<Longrightarrow> False" for g
    by (auto simp: connect_to_unreachable_def none split: if_splits prod.splits)
  have n: "make_new_connection rnd me nodes pending g = None \<Longrightarrow> False" for g
    by (auto simp: make_new_connection_def Let_def none split: if_splits prod.splits)
  have d: "drop_superfluous_outgoing rnd nodes active hot k g = None \<Longrightarrow> False" for hot g
    by (auto simp: drop_superfluous_outgoing_def Let_def none split: if_splits prod.splits)
  have s: "settle rnd me nodes active pending k g = None \<Longrightarrow> False" for g
    using u [of g] by (auto simp: settle_def Let_def none split: if_splits option.splits prod.splits)
  show ?thesis
  proof
    assume "decide rnd me nodes active pending k t g = None"
    thus False using n d s by (auto simp: decide_def Let_def Option.bind_eq_None_conv split: if_splits option.splits prod.splits)
  qed
qed

lemma decide_fills:
  assumes "degree me nodes < d_lo k" "decide rnd me nodes active pending k t g = Some (act, g')"
    "may_dial me nodes pending n" "\<forall>m\<in>set nodes. sn_name m \<notin> os_name ` set pending"
  shows "\<exists>nm. act = Connect nm AutoBackbone"
  using assms unfolding decide_low [OF assms(1)] make_new_connection_def Let_def may_dial_def
  by (auto simp: filter_empty_conv split: if_splits Option.bind_splits dest!: pick_mem)

text \<open>
  C34: what autoconnect decides. On every snapshot of fewer than \<open>2^32\<close> nodes and connections it returns
  one action. It dials only a known node that is not this one, is not connected, can be reached somehow
  and has no slot waiting; as a shortcut only the heaviest relayed peer, within the caps. It gives up only
  an outgoing connection whose peer has another edge, that carries nobody's traffic, and while more than
  the floor of connections are up; a shortcut only after its minimum hold. It cancels no waiting shortcut.
  Below the floor it dials whenever some node may be dialled and no known node has a slot waiting.
\<close>

theorem decide_sound:
  assumes "length nodes < 2 ^ 32" "length active < 2 ^ 32" "d_lo k \<le> d_hi k"
  shows "\<exists>act g'. decide rnd me nodes active pending k t g = Some (act, g') \<and> sound_action me nodes active pending k t act \<and>
    (degree me nodes < d_lo k \<and> (\<exists>n. may_dial me nodes pending n) \<and> (\<forall>m\<in>set nodes. sn_name m \<notin> os_name ` set pending) \<longrightarrow>
       (\<exists>nm. act = Connect nm AutoBackbone))"
proof -
  obtain act g' where d: "decide rnd me nodes active pending k t g = Some (act, g')"
    using decide_total [OF assms(1,2), of rnd me pending k t g] by auto
  have "sound_action me nodes active pending k t act"
  proof (cases "degree me nodes < d_lo k")
    case True
    thus ?thesis using d make_new_sound by (simp add: decide_low)
  next
    case False
    thus ?thesis using decide_high_sound [OF d _ assms(3)] by simp
  qed
  moreover have "\<exists>nm. act = Connect nm AutoBackbone" if "degree me nodes < d_lo k" "may_dial me nodes pending n" "\<forall>m\<in>set nodes. sn_name m \<notin> os_name ` set pending" for n
    by (rule decide_fills [OF that(1) d that(2,3)])
  ultimately show ?thesis using d by (intro exI [of _ act] exI [of _ g']) auto
qed

definition demo_node :: "string \<Rightarrow> node_snapshot" where
  "demo_node nm = \<lparr>sn_name = nm, sn_reachable = False, sn_has_address = True, sn_has_dht_key = False, sn_directly_connected = False,
     sn_edge_count = 0, sn_relay_rate_bps = 0, sn_tx_rate_bps = 0, sn_nexthop = None, sn_backoff_until = None\<rparr>"

theorem decide_sound_witness:
  "\<exists>nm g'. decide (\<lambda>g. (of_nat g, Suc g)) ''alice'' [demo_node ''alice'', demo_node ''bob''] [] [] knobs_default 0 7 = Some (Connect nm AutoBackbone, g')"
proof -
  have "may_dial ''alice'' [demo_node ''alice'', demo_node ''bob''] [] (demo_node ''bob'')" by (simp add: may_dial_def demo_node_def)
  moreover have "degree ''alice'' [demo_node ''alice'', demo_node ''bob''] < d_lo knobs_default" by (simp add: degree_def demo_node_def knobs_default_def)
  moreover have "d_lo knobs_default \<le> d_hi knobs_default" by (simp add: knobs_default_def)
  ultimately show ?thesis
    using decide_sound [of "[demo_node ''alice'', demo_node ''bob'']" "[]" knobs_default "\<lambda>g. (of_nat g, Suc g)" "''alice''" "[]" 0 7] by auto
qed

end
