(* ===== verification/Addr_Cache.thy ===== *)
theory Addr_Cache
  imports Daemon_Graph Meta_Link
begin

text \<open>
  The book of addresses of a peer of \<open>tincd/src/addrcache.rs\<close>: the four tiers, the cursor that walks them, and
  the text a cache is kept in between runs. The tiers are lists over any type of addresses; the text is
  over the standard library's \<open>SocketAddr\<close>. The file system is not modelled: \<open>load\<close> takes what was read.
\<close>

section \<open>Socket addresses as text\<close>

datatype socket_addr = SocketV4 bytes nat | SocketV6 bytes nat u32 u32

fun socket_new :: "ip_addr \<Rightarrow> nat \<Rightarrow> socket_addr" where
  "socket_new (IpV4 a) p = SocketV4 a p"
| "socket_new (IpV6 a) p = SocketV6 a p 0 0"

fun show_socket :: "socket_addr \<Rightarrow> string" where
  "show_socket (SocketV4 a p) = show_ipv4 a @ '':'' @ show_radix 10 p"
| "show_socket (SocketV6 a p flow scope) =
     (if scope = 0 then ''['' @ show_ipv6 a @ '']:'' @ show_radix 10 p
      else ''['' @ show_ipv6 a @ ''%'' @ show_radix 10 (unat scope) @ '']:'' @ show_radix 10 p)"

definition read_port :: "string \<Rightarrow> (nat \<times> string) option" where
  "read_port s = do { s \<leftarrow> read_given_char CHR '':'' s; read_number 10 (length s) True 65535 s }"

definition read_scope_id :: "string \<Rightarrow> (nat \<times> string) option" where
  "read_scope_id s = do { s \<leftarrow> read_given_char CHR ''%'' s; read_number 10 (length s) True 4294967295 s }"

definition read_socket_v4 :: "string \<Rightarrow> (socket_addr \<times> string) option" where
  "read_socket_v4 s = do {
     (a, s) \<leftarrow> read_ipv4_addr s;
     (p, s) \<leftarrow> read_port s;
     Some (SocketV4 (map of_nat a) p, s) }"

definition read_socket_v6 :: "string \<Rightarrow> (socket_addr \<times> string) option" where
  "read_socket_v6 s = do {
     s \<leftarrow> read_given_char CHR ''['' s;
     (a, s) \<leftarrow> read_ipv6_addr s;
     let (scope, s) = (case read_scope_id s of None \<Rightarrow> (0, s) | Some r \<Rightarrow> r);
     s \<leftarrow> read_given_char CHR '']'' s;
     (p, s) \<leftarrow> read_port s;
     Some (SocketV6 (segment_bytes a) p 0 (of_nat scope), s) }"

definition parse_socket :: "string \<Rightarrow> socket_addr option" where
  "parse_socket = parse_with (\<lambda>s. case read_socket_v4 s of None \<Rightarrow> read_socket_v6 s | Some r \<Rightarrow> Some r)"

section \<open>Lines and blanks\<close>

text \<open>The characters \<open>char::is_whitespace\<close> accepts, each as its bytes.\<close>

definition white_space :: "string list" where
  "white_space =
     [[CHR 0x09], [CHR 0x0A], [CHR 0x0B], [CHR 0x0C], [CHR 0x0D], [CHR 0x20], [CHR 0xC2, CHR 0x85], [CHR 0xC2, CHR 0xA0],
      [CHR 0xE1, CHR 0x9A, CHR 0x80], [CHR 0xE2, CHR 0x80, CHR 0x80], [CHR 0xE2, CHR 0x80, CHR 0x81],
      [CHR 0xE2, CHR 0x80, CHR 0x82], [CHR 0xE2, CHR 0x80, CHR 0x83], [CHR 0xE2, CHR 0x80, CHR 0x84],
      [CHR 0xE2, CHR 0x80, CHR 0x85], [CHR 0xE2, CHR 0x80, CHR 0x86], [CHR 0xE2, CHR 0x80, CHR 0x87],
      [CHR 0xE2, CHR 0x80, CHR 0x88], [CHR 0xE2, CHR 0x80, CHR 0x89], [CHR 0xE2, CHR 0x80, CHR 0x8A],
      [CHR 0xE2, CHR 0x80, CHR 0xA8], [CHR 0xE2, CHR 0x80, CHR 0xA9], [CHR 0xE2, CHR 0x80, CHR 0xAF],
      [CHR 0xE2, CHR 0x81, CHR 0x9F], [CHR 0xE3, CHR 0x80, CHR 0x80]]"

definition strip_first :: "string list \<Rightarrow> string \<Rightarrow> string option" where
  "strip_first ws s = map_option (\<lambda>w. drop (length w) s) (find (\<lambda>w. take (length w) s = w) ws)"

lemma strip_first_shorter: "[] \<notin> set ws \<Longrightarrow> strip_first ws s = Some t \<Longrightarrow> length t < length s"
proof -
  assume ws: "[] \<notin> set ws" and t: "strip_first ws s = Some t"
  obtain w where w: "find (\<lambda>w. take (length w) s = w) ws = Some w" "t = drop (length w) s"
    using t by (auto simp: strip_first_def)
  hence "w \<noteq> []" "take (length w) s = w" using ws by (auto simp: find_Some_iff in_set_conv_nth)
  thus "length t < length s" using w(2) by (cases s) auto
qed

lemma white_space_nonempty: "[] \<notin> set white_space" "[] \<notin> set (map rev white_space)"
  by (auto simp: white_space_def)

function trim_start :: "string list \<Rightarrow> string \<Rightarrow> string" where
  "trim_start ws s = (if [] \<in> set ws then s else case strip_first ws s of None \<Rightarrow> s | Some t \<Rightarrow> trim_start ws t)"
  by auto
termination
  by (relation "measure (length \<circ> snd)") (auto dest: strip_first_shorter)

declare trim_start.simps [simp del]

definition trim :: "string \<Rightarrow> string" where
  "trim s = rev (trim_start (map rev white_space) (rev (trim_start white_space s)))"

text \<open>\<open>BufRead::lines\<close>: the newline goes, with a carriage return before it.\<close>

fun text_lines :: "bytes \<Rightarrow> bytes \<Rightarrow> bytes list" where
  "text_lines acc [] = (if acc = [] then [] else [rev acc])"
| "text_lines acc (b # bs) =
     (if b = 10 then rev (if acc \<noteq> [] \<and> hd acc = 13 then tl acc else acc) # text_lines [] bs else text_lines (b # acc) bs)"


section \<open>The cache\<close>

definition MAX_PERSISTED :: nat where "MAX_PERSISTED = 8"
definition MAX_EPHEMERAL :: nat where "MAX_EPHEMERAL = 64"
definition HEADER :: string where "HEADER = ''tinc-addrcache 1''"

record 'a addr_cache =
  recent :: "'a list"
  known :: "'a list"
  config :: "'a list"
  resolved :: "'a list"
  hostnames :: "(string \<times> nat) list"
  cursor :: nat
  cache_path :: "string option"

fun split_config_loop :: "(string \<times> nat) list \<Rightarrow> socket_addr list \<Rightarrow> (string \<times> nat) list \<Rightarrow> socket_addr list \<times> (string \<times> nat) list" where
  "split_config_loop [] literals hosts = (literals, hosts)"
| "split_config_loop ((host, port) # lines) literals hosts =
     (case parse_ip host of
        Some ip \<Rightarrow>
          let a = socket_new ip port
          in split_config_loop lines (if a \<in> set literals then literals else literals @ [a]) hosts
      | None \<Rightarrow> split_config_loop lines literals (if (host, port) \<in> set hosts then hosts else hosts @ [(host, port)]))"

definition split_config :: "(string \<times> nat) list \<Rightarrow> socket_addr list \<times> (string \<times> nat) list" where
  "split_config lines = split_config_loop lines [] []"

fun load_lines :: "bytes list \<Rightarrow> socket_addr list option" where
  "load_lines [] = Some []"
| "load_lines (l # ls) = do {
     s \<leftarrow> from_utf8 l;
     a \<leftarrow> parse_socket (trim s);
     rest \<leftarrow> load_lines ls;
     Some (a # rest) }"

definition load :: "bytes option \<Rightarrow> socket_addr list" where
  "load file =
     (case file of None \<Rightarrow> []
      | Some b \<Rightarrow>
          (case text_lines [] b of [] \<Rightarrow> []
           | h # lines \<Rightarrow>
               if map_option trim (from_utf8 h) = Some HEADER
               then (case load_lines (take (2 * MAX_PERSISTED) lines) of None \<Rightarrow> [] | Some out \<Rightarrow> out)
               else []))"

definition cache_open :: "string \<Rightarrow> bytes option \<Rightarrow> (string \<times> nat) list \<Rightarrow> socket_addr addr_cache" where
  "cache_open path file config_addrs =
     (let (cfg, hosts) = split_config config_addrs
      in \<lparr>recent = load file, known = [], config = cfg, resolved = [], hostnames = hosts, cursor = 0, cache_path = Some path\<rparr>)"

fun add_known_loop :: "'a list \<Rightarrow> 'a list \<Rightarrow> 'a list \<Rightarrow> 'a list" where
  "add_known_loop rc kn [] = kn"
| "add_known_loop rc kn (a # as) =
     (if MAX_EPHEMERAL \<le> length kn then kn
      else add_known_loop rc (if a \<notin> set rc \<and> a \<notin> set kn then kn @ [a] else kn) as)"

definition add_known_addresses :: "'a list \<Rightarrow> 'a addr_cache \<Rightarrow> 'a addr_cache" where
  "add_known_addresses addrs c = c\<lparr>known := add_known_loop (recent c) [] addrs, resolved := [], cursor := 0\<rparr>"

fun extend_resolved :: "'a list \<Rightarrow> 'a addr_cache \<Rightarrow> 'a addr_cache" where
  "extend_resolved [] c = c"
| "extend_resolved (a # as) c =
     (if MAX_EPHEMERAL \<le> length (resolved c) then c
      else extend_resolved as
        (if a \<notin> set (recent c) \<and> a \<notin> set (known c) \<and> a \<notin> set (config c) \<and> a \<notin> set (resolved c)
         then c\<lparr>resolved := resolved c @ [a]\<rparr> else c))"

definition next_addr :: "'a addr_cache \<Rightarrow> 'a option \<times> 'a addr_cache" where
  "next_addr c =
     (let i = cursor c; r = length (recent c); k = r + length (known c);
          addr = (if i < r then Some (recent c ! i)
                  else if i < k then Some (known c ! (i - r))
                  else let late = filter (\<lambda>a. a \<notin> set (recent c) \<and> a \<notin> set (known c)) (config c @ resolved c)
                       in if i - k < length late then Some (late ! (i - k)) else None)
      in (addr, if addr \<noteq> None then c\<lparr>cursor := cursor c + 1\<rparr> else c))"

definition add_recent :: "'a \<Rightarrow> 'a addr_cache \<Rightarrow> 'a addr_cache" where
  "add_recent a c = c\<lparr>recent := a # filter (\<lambda>b. b \<noteq> a) (recent c)\<rparr>"

definition cache_reset :: "'a addr_cache \<Rightarrow> 'a addr_cache" where
  "cache_reset c = c\<lparr>cursor := 0, resolved := []\<rparr>"

definition serialize :: "socket_addr addr_cache \<Rightarrow> (string \<times> bytes) option" where
  "serialize c = map_option (\<lambda>path. (path,
      as_bytes (HEADER @ [CHR 0x0A] @ concat (map (\<lambda>a. show_socket a @ [CHR 0x0A]) (take MAX_PERSISTED (recent c)))))) (cache_path c)"

definition disarm :: "'a addr_cache \<Rightarrow> 'a addr_cache" where
  "disarm c = c\<lparr>cache_path := None\<rparr>"

section \<open>A round of dialling\<close>

text \<open>What is still to be tried, in order: everything the cursor walks.\<close>

definition candidates :: "'a addr_cache \<Rightarrow> 'a list" where
  "candidates c = recent c @ known c @ filter (\<lambda>a. a \<notin> set (recent c) \<and> a \<notin> set (known c)) (config c @ resolved c)"

text \<open>
  The tiers hold no address twice. \<open>cache_fresh\<close> is the state of a round the daemon has just set up: what
  was learnt does not repeat what worked before.
\<close>

definition cache_ok :: "'a addr_cache \<Rightarrow> bool" where
  "cache_ok c \<longleftrightarrow> distinct (recent c) \<and> distinct (known c) \<and> distinct (config c @ resolved c) \<and>
     length (known c) \<le> MAX_EPHEMERAL \<and> length (resolved c) \<le> MAX_EPHEMERAL"

definition cache_fresh :: "'a addr_cache \<Rightarrow> bool" where
  "cache_fresh c \<longleftrightarrow> cache_ok c \<and> set (recent c) \<inter> set (known c) = {}"

lemma next_addr_candidates:
  "next_addr c = (if cursor c < length (candidates c) then (Some (candidates c ! cursor c), c\<lparr>cursor := cursor c + 1\<rparr>) else (None, c))"
  by (auto simp: next_addr_def candidates_def nth_append Let_def)

lemma candidates_distinct: "cache_fresh c \<Longrightarrow> distinct (candidates c)"
  by (auto simp: cache_fresh_def cache_ok_def candidates_def)

lemma candidates_set: "set (candidates c) = set (recent c) \<union> set (known c) \<union> set (config c) \<union> set (resolved c)"
  by (auto simp: candidates_def)

lemma add_known_loop_props:
  "distinct kn \<Longrightarrow> set rc \<inter> set kn = {} \<Longrightarrow> length kn \<le> MAX_EPHEMERAL \<Longrightarrow>
   distinct (add_known_loop rc kn as) \<and> set rc \<inter> set (add_known_loop rc kn as) = {} \<and> length (add_known_loop rc kn as) \<le> MAX_EPHEMERAL \<and>
   set (add_known_loop rc kn as) \<subseteq> set kn \<union> set as"
  by (induction rc kn as rule: add_known_loop.induct) (auto split: if_splits)

lemma add_known_fresh: "cache_ok c \<Longrightarrow> cache_fresh (add_known_addresses as c) \<and> cursor (add_known_addresses as c) = 0"
  using add_known_loop_props [of "[]" "recent c" as] by (auto simp: cache_fresh_def cache_ok_def add_known_addresses_def)

lemma extend_resolved_props:
  "cache_fresh c \<Longrightarrow> cache_fresh (extend_resolved as c) \<and> cursor (extend_resolved as c) = cursor c \<and>
   (\<exists>tail. candidates (extend_resolved as c) = candidates c @ tail)"
proof (induction as c rule: extend_resolved.induct)
  case (2 a as c)
  let ?c = "c\<lparr>resolved := resolved c @ [a]\<rparr>"
  show ?case
  proof (cases "MAX_EPHEMERAL \<le> length (resolved c)")
    case False
    show ?thesis
    proof (cases "a \<notin> set (recent c) \<and> a \<notin> set (known c) \<and> a \<notin> set (config c) \<and> a \<notin> set (resolved c)")
      case True
      have "cache_fresh ?c" using 2(2) True False by (auto simp: cache_fresh_def cache_ok_def)
      moreover have "candidates ?c = candidates c @ [a]" using True by (auto simp: candidates_def)
      ultimately show ?thesis using 2(1) False True by auto
    qed (use 2 False in auto)
  qed (use 2 in simp)
qed simp

lemma cache_steps_ok:
  "cache_ok c \<Longrightarrow> cache_ok (add_recent a c)" "cache_ok c \<Longrightarrow> cache_ok (cache_reset c)" "cache_ok c \<Longrightarrow> cache_ok (disarm c)"
  by (auto simp: cache_ok_def add_recent_def cache_reset_def disarm_def)

lemma next_addr_ok: "cache_fresh (snd (next_addr c)) = cache_fresh c" "candidates (snd (next_addr c)) = candidates c"
  by (auto simp: next_addr_candidates cache_fresh_def cache_ok_def candidates_def)

lemma split_config_distinct:
  "distinct l \<Longrightarrow> distinct h \<Longrightarrow> split_config_loop ls l h = (l', h') \<Longrightarrow> distinct l' \<and> distinct h'"
  by (induction ls l h rule: split_config_loop.induct) (auto simp: Let_def split: option.splits if_splits)

lemma cache_open_ok: "distinct (load file) \<Longrightarrow> cache_ok (cache_open path file cfg)"
  using split_config_distinct [of "[]" "[]" cfg]
  by (auto simp: cache_ok_def cache_open_def split_config_def split: prod.splits)


datatype 'a round_op = NextAddr | Resolved "'a list"

fun round_run :: "'a round_op list \<Rightarrow> 'a addr_cache \<Rightarrow> 'a option list \<times> 'a addr_cache" where
  "round_run [] c = ([], c)"
| "round_run (NextAddr # ops) c = (let (a, c) = next_addr c; (as, c) = round_run ops c in (a # as, c))"
| "round_run (Resolved as # ops) c = round_run ops (extend_resolved as c)"

definition handed_out :: "'a option list \<Rightarrow> 'a list" where
  "handed_out = List.map_filter id"

lemma handed_out_simps [simp]: "handed_out [] = []" "handed_out (None # os) = handed_out os" "handed_out (Some a # os) = a # handed_out os"
  by (simp_all add: handed_out_def)

lemma round_run_walks:
  assumes "cache_fresh c" "cursor c \<le> length (candidates c)" "round_run ops c = (outs, c')"
  shows "cache_fresh c' \<and> cursor c' \<le> length (candidates c') \<and> (\<exists>tail. candidates c' = candidates c @ tail) \<and>
    take (cursor c) (candidates c') @ handed_out outs = take (cursor c') (candidates c')"
  using assms
proof (induction ops c arbitrary: outs c' rule: round_run.induct)
  case (2 ops c)
  obtain a c1 where n: "next_addr c = (a, c1)" by fastforce
  obtain as c2 where r: "round_run ops c1 = (as, c2)" by fastforce
  have o: "outs = a # as" "c' = c2" using 2(4) n r by simp_all
  have f: "cache_fresh c1" "candidates c1 = candidates c" using next_addr_ok [of c] n 2(2) by simp_all
  have c1: "cursor c1 \<le> length (candidates c1)" 
  proof (cases "cursor c < length (candidates c)")
    case True
    hence "cursor c1 = Suc (cursor c)" using n by (auto simp: next_addr_candidates)
    thus ?thesis using True f(2) by simp
  next
    case False
    hence "c1 = c" using n by (simp add: next_addr_candidates)
    thus ?thesis using 2(3) by simp
  qed
  note ih = 2(1) [OF n [symmetric] refl f(1) c1 r]
  then obtain tail where t: "candidates c2 = candidates c @ tail" using f(2) by auto
  have "take (cursor c) (candidates c2) @ handed_out outs = take (cursor c1) (candidates c2) @ handed_out as"
  proof (cases "cursor c < length (candidates c)")
    case True
    hence "a = Some (candidates c2 ! cursor c)" "cursor c1 = Suc (cursor c)" using n t by (auto simp: next_addr_candidates nth_append)
    thus ?thesis using True t o by (simp add: take_Suc_conv_app_nth nth_append)
  qed (use n o in \<open>auto simp: next_addr_candidates\<close>)
  thus ?case using ih o t by simp
next
  case (3 as ops c)
  have e: "cache_fresh (extend_resolved as c)" "cursor (extend_resolved as c) = cursor c"
    using extend_resolved_props [OF 3(2)] by auto
  obtain tail where t: "candidates (extend_resolved as c) = candidates c @ tail" using extend_resolved_props [OF 3(2)] by auto
  show ?case using 3(1) [of outs c'] e t 3(3,4) by auto
qed auto

text \<open>
  One round of dialling. From a round the daemon has just set up, whatever the resolver brings in
  between, the addresses handed out are the candidates in order, none twice; when a call finds nothing
  left they are all of them, and every address of the four tiers is among the candidates.
\<close>

lemma round_tries_each_once:
  assumes "cache_ok c" "round_run ops (add_known_addresses addrs c) = (outs, c')"
  shows "distinct (handed_out outs) \<and> handed_out outs = take (cursor c') (candidates c') \<and>
    (fst (next_addr c') = None \<longrightarrow> handed_out outs = candidates c') \<and>
    set (candidates c') = set (recent c') \<union> set (known c') \<union> set (config c') \<union> set (resolved c')"
proof -
  have w: "cache_fresh c'" "cursor c' \<le> length (candidates c')" "handed_out outs = take (cursor c') (candidates c')"
    using round_run_walks [OF _ _ assms(2)] add_known_fresh [OF assms(1), of addrs] by auto
  thus ?thesis using candidates_distinct [OF w(1)]
    by (auto simp: next_addr_candidates candidates_set distinct_take split: if_splits)
qed

text \<open>
  An address that worked goes to the front, and \<open>cache_reset\<close> keeps what was learnt: a round that is walked
  without \<open>add_known_addresses\<close> in between tries it twice.
\<close>

lemma redial_repeats:
  assumes "cache_fresh c" "a \<in> set (known c)"
  shows "\<not> distinct (candidates (cache_reset (add_recent a c)))"
  using assms by (auto simp: candidates_def cache_reset_def add_recent_def)

section \<open>The file\<close>

text \<open>
  Characters that end an address for its parser: a reader that stops at the end of the text stops before
  them in the same state.
\<close>

definition stops :: "string \<Rightarrow> bool" where
  "stops rest \<longleftrightarrow> rest = [] \<or> (to_digit 16 (hd rest) = None \<and> hd rest \<noteq> CHR ''.'' \<and> hd rest \<noteq> CHR '':'')"

definition suffix_ok :: "(string \<Rightarrow> ('a \<times> string) option) \<Rightarrow> bool" where
  "suffix_ok p \<longleftrightarrow> (\<forall>s rest. stops rest \<longrightarrow> p (s @ rest) = map_option (\<lambda>(x, t). (x, t @ rest)) (p s))"

lemma suffix_okD: "suffix_ok p \<Longrightarrow> stops rest \<Longrightarrow> p (s @ rest) = map_option (\<lambda>(x, t). (x, t @ rest)) (p s)"
  by (simp add: suffix_ok_def)

lemma stops_digit: "stops rest \<Longrightarrow> radix \<le> 16 \<Longrightarrow> rest = [] \<or> to_digit radix (hd rest) = None"
  by (auto simp: stops_def to_digit_def split: option.splits if_splits)

lemma takeWhile_stops:
  assumes "stops rest" "radix \<le> 16"
  shows "takeWhile (\<lambda>c. to_digit radix c \<noteq> None) (s @ rest) = takeWhile (\<lambda>c. to_digit radix c \<noteq> None) s"
proof -
  have "takeWhile (\<lambda>c. to_digit radix c \<noteq> None) rest = []" using stops_digit [OF assms] by (cases rest) auto
  thus ?thesis by (induction s) auto
qed

lemma read_number_suffix:
  assumes "radix \<le> 16"
  shows "suffix_ok (read_number radix m z hi)"
  unfolding suffix_ok_def
proof (intro allI impI)
  fix s rest assume r: "stops rest"
  have "length (takeWhile (\<lambda>c. to_digit radix c \<noteq> None) s) \<le> length s" by (rule length_takeWhile_le)
  thus "read_number radix m z hi (s @ rest) = map_option (\<lambda>(x, t). (x, t @ rest)) (read_number radix m z hi s)"
    unfolding read_number_def takeWhile_stops [OF r assms] Let_def by (auto split: option.splits)
qed

lemma read_given_suffix:
  "stops rest \<Longrightarrow> c \<in> {CHR ''.'', CHR '':''} \<Longrightarrow> read_given_char c (s @ rest) = map_option (\<lambda>t. t @ rest) (read_given_char c s)"
  by (cases s; cases rest) (auto simp: stops_def)

lemma read_separator_suffix:
  assumes "suffix_ok p" "c \<in> {CHR ''.'', CHR '':''}"
  shows "suffix_ok (read_separator c i p)"
  unfolding suffix_ok_def
proof (intro allI impI)
  fix s rest assume r: "stops rest"
  show "read_separator c i p (s @ rest) = map_option (\<lambda>(x, t). (x, t @ rest)) (read_separator c i p s)"
    unfolding read_separator_def read_given_suffix [OF r assms(2)] suffix_okD [OF assms(1) r]
    by (cases "read_given_char c s") (simp_all add: suffix_okD [OF assms(1) r])
qed

lemma read_octet_suffix: "suffix_ok (read_separator CHR ''.'' i read_octet)"
  by (rule read_separator_suffix) (simp_all add: read_octet_def read_number_suffix)

lemma read_ipv4_suffix: "suffix_ok read_ipv4_addr"
  unfolding suffix_ok_def
proof (intro allI impI)
  fix s rest assume r: "stops rest"
  note o = suffix_okD [OF read_octet_suffix r]
  show "read_ipv4_addr (s @ rest) = map_option (\<lambda>(x, t). (x, t @ rest)) (read_ipv4_addr s)"
    unfolding read_ipv4_addr_def o
    by (auto simp: o map_option_bind split: Option.bind_splits)
qed

lemma read_groups_suffix:
  assumes r: "stops rest"
  shows "read_groups n i (s @ rest) = (case read_groups n i s of (gs, v4, t) \<Rightarrow> (gs, v4, t @ rest))"
proof (induction n i s rule: read_groups.induct)
  case (2 n i s)
  have four: "read_separator CHR '':'' i read_ipv4_addr (s @ rest) = map_option (\<lambda>(x, t). (x, t @ rest)) (read_separator CHR '':'' i read_ipv4_addr s)"
    by (rule suffix_okD [OF read_separator_suffix [OF read_ipv4_suffix] r]) simp
  have grp: "read_separator CHR '':'' i read_group (s @ rest) = map_option (\<lambda>(x, t). (x, t @ rest)) (read_separator CHR '':'' i read_group s)"
    by (rule suffix_okD [OF read_separator_suffix r]) (simp_all add: read_group_def read_number_suffix)
  show ?case
    unfolding read_groups.simps four grp using 2
    by (auto split: option.splits prod.splits)
qed simp

lemma read_ipv6_suffix: "suffix_ok read_ipv6_addr"
  unfolding suffix_ok_def
proof (intro allI impI)
  fix s rest assume r: "stops rest"
  show "read_ipv6_addr (s @ rest) = map_option (\<lambda>(x, t). (x, t @ rest)) (read_ipv6_addr s)"
    unfolding read_ipv6_addr_def
    by (auto simp: read_groups_suffix [OF r] read_given_suffix [OF r] Let_def split: prod.splits Option.bind_splits)
qed

lemma read_number_all:
  assumes "2 \<le> radix" "radix \<le> 16" "rest = [] \<or> to_digit radix (hd rest) = None" "n \<le> hi"
  shows "read_number radix (length (show_radix radix n @ rest)) True hi (show_radix radix n @ rest) = Some (n, rest)"
  using takeWhile_show [OF assms(1-3), of n] parse_show_radix [OF assms(1,2), of n] assms(4) by (simp add: read_number_def Let_def)

lemma read_port_show: "p < 65536 \<Longrightarrow> read_port ('':'' @ show_radix 10 p) = Some (p, [])"
  using read_number_all [of 10 "[]" p 65535] by (simp add: read_port_def)

lemma to_digit_marks [simp]: "to_digit r CHR ''['' = None" "to_digit r CHR '']'' = None" "to_digit r CHR ''%'' = None"
  by (simp_all add: to_digit_def digit_value_def less_eq_char_def)

lemma read_scope_show: "read_scope_id (''%'' @ show_radix 10 (unat (v :: u32)) @ '']'' @ rest) = Some (unat v, '']'' @ rest)"
  using read_number_all [of 10 "'']'' @ rest" "unat v" 4294967295] unsigned_less [of v, where 'a = nat] by (simp add: read_scope_id_def)

fun socket_ok :: "socket_addr \<Rightarrow> bool" where
  "socket_ok (SocketV4 a p) \<longleftrightarrow> length a = 4 \<and> p < 65536"
| "socket_ok (SocketV6 a p flow scope) \<longleftrightarrow> length a = 16 \<and> p < 65536"

fun clear_flow :: "socket_addr \<Rightarrow> socket_addr" where
  "clear_flow (SocketV4 a p) = SocketV4 a p"
| "clear_flow (SocketV6 a p flow scope) = SocketV6 a p 0 scope"

lemma parse_show_socket:
  assumes "socket_ok a"
  shows "parse_socket (show_socket a) = Some (clear_flow a)"
proof (cases a)
  case (SocketV4 b p)
  have "map of_nat (map unat b) = b" by (simp add: map_idI o_def)
  thus ?thesis using assms SocketV4 read_show_ipv4 [of b "'':'' @ show_radix 10 p"] read_port_show [of p]
    by (simp add: parse_socket_def parse_with_def read_socket_v4_def)
next
  case (SocketV6 b p flow scope)
  have no4: "read_socket_v4 (CHR ''['' # s) = None" for s
    by (simp add: read_socket_v4_def read_ipv4_addr_def read_separator_def read_octet_def read_number_def)
  have six: "read_ipv6_addr (show_ipv6 b @ rest) = Some (segments b, rest)" if "stops rest" for rest
    using suffix_okD [OF read_ipv6_suffix that, of "show_ipv6 b"] read_show_ipv6 [of b] assms SocketV6 by simp
  have sb: "segment_bytes (segments b) = b" using assms SocketV6 by (simp add: segment_bytes_segments)
  have p: "read_port (CHR '':'' # show_radix 10 p) = Some (p, [])" using read_port_show [of p] assms SocketV6 by simp
  show ?thesis
  proof (cases "scope = 0")
    case True
    thus ?thesis using six [of "'']:'' @ show_radix 10 p"] SocketV6 no4 p sb
      by (simp add: parse_socket_def parse_with_def read_socket_v6_def read_scope_id_def stops_def)
  next
    case False
    thus ?thesis using six [of "''%'' @ show_radix 10 (unat scope) @ '']:'' @ show_radix 10 p"] SocketV6 no4 p sb
        read_scope_show [of scope "'':'' @ show_radix 10 p"]
      by (simp add: parse_socket_def parse_with_def read_socket_v6_def stops_def)
  qed
qed

definition graphic :: "char \<Rightarrow> bool" where
  "graphic c \<longleftrightarrow> 32 < (of_char c :: nat) \<and> of_char c < (127 :: nat)"

lemma graphic_digit: "d < 16 \<Longrightarrow> graphic (digit_char d)"
proof -
  assume "d < 16"
  moreover have "list_all (\<lambda>d. graphic (digit_char d)) [0..<16]" by code_simp
  ultimately show ?thesis by (simp add: list_all_iff)
qed

lemma graphic_radix: "2 \<le> radix \<Longrightarrow> radix \<le> 16 \<Longrightarrow> list_all graphic (show_radix radix n)"
  using show_radix_chars graphic_digit by (fastforce simp: list_all_iff)

lemma graphic_marks: "graphic CHR ''.''" "graphic CHR '':''" "graphic CHR ''%''" "graphic CHR ''[''" "graphic CHR '']''" "graphic CHR ''f''"
  by code_simp+

lemma graphic_ipv4: "list_all graphic (show_ipv4 a)"
  by (simp add: show_ipv4_def show_octet graphic_radix graphic_marks)

lemma graphic_groups: "list_all graphic (fmt_groups sep gs)"
  by (induction gs arbitrary: sep) (auto simp: show_hex_def graphic_radix graphic_marks)

lemma graphic_ipv6: "list_all graphic (show_ipv6 a)"
  by (simp add: show_ipv6_def Let_def fmt_subslice_def graphic_groups graphic_ipv4 graphic_marks split: prod.splits)

lemma graphic_socket: "list_all graphic (show_socket a)"
  by (cases a) (simp_all add: graphic_ipv4 graphic_ipv6 graphic_radix graphic_marks)

lemma show_socket_nonempty: "show_socket a \<noteq> []"
  by (cases a) auto

lemma white_space_ends: "w \<in> set white_space \<Longrightarrow> \<not> graphic (hd w) \<and> \<not> graphic (hd (rev w))"
proof -
  assume "w \<in> set white_space"
  moreover have "list_all (\<lambda>w. \<not> graphic (hd w) \<and> \<not> graphic (hd (rev w))) white_space" by (simp add: white_space_def graphic_def)
  ultimately show ?thesis by (simp add: list_all_iff)
qed

lemma trim_start_graphic:
  assumes "\<forall>w\<in>set ws. \<not> graphic (hd w)" "[] \<notin> set ws" "s \<noteq> []" "graphic (hd s)"
  shows "trim_start ws s = s"
proof -
  have "take (length w) s \<noteq> w" if "w \<in> set ws" for w
  proof -
    have "w \<noteq> []" "hd w \<noteq> hd s" using that assms by auto
    thus ?thesis using assms(3) by (cases w; cases s) auto
  qed
  hence "find (\<lambda>w. take (length w) s = w) ws = None" by (auto simp: find_None_iff)
  thus ?thesis by (subst trim_start.simps) (simp add: strip_first_def)
qed

lemma trim_graphic:
  assumes "s \<noteq> []" "graphic (hd s)" "graphic (last s)"
  shows "trim s = s"
proof -
  have "trim_start white_space s = s" by (rule trim_start_graphic) (use assms white_space_ends white_space_nonempty in auto)
  moreover have "trim_start (map rev white_space) (rev s) = rev s"
    by (rule trim_start_graphic) (use assms white_space_ends white_space_nonempty in \<open>auto simp: hd_rev\<close>)
  ultimately show ?thesis by (simp add: trim_def)
qed

lemma text_lines_end:
  assumes "10 \<notin> set l" "l @ acc \<noteq> []" "last (rev acc @ l) \<noteq> 13"
  shows "text_lines acc (l @ 10 # bs) = (rev acc @ l) # text_lines [] bs"
  using assms
proof (induction l arbitrary: acc)
  case Nil
  thus ?case by (auto simp: last_rev)
next
  case (Cons b l)
  thus ?case by auto
qed

lemma graphic_bytes:
  assumes "list_all graphic s"
  shows "10 \<notin> set (as_bytes s)" "13 \<notin> set (as_bytes s)" "\<forall>c\<in>set s. of_char c < (128 :: nat)"
proof -
  have "of_nat (of_char c) \<noteq> (10 :: u8) \<and> of_nat (of_char c) \<noteq> (13 :: u8)" if "c \<in> set s" for c
  proof -
    have "32 < (of_char c :: nat)" "of_char c < (127 :: nat)" using that assms by (auto simp: list_all_iff graphic_def)
    then have "unat (of_nat (of_char c) :: u8) = of_char c" by (simp add: unat_of_nat_small)
    hence "of_nat (of_char c) = v \<Longrightarrow> (of_char c :: nat) = unat v" for v :: u8 by auto
    from this [of 10] this [of 13] show ?thesis using \<open>32 < of_char c\<close> by auto
  qed
  thus "10 \<notin> set (as_bytes s)" "13 \<notin> set (as_bytes s)" by (auto simp: as_bytes_def)
  show "\<forall>c\<in>set s. of_char c < (128 :: nat)" using assms by (auto simp: list_all_iff graphic_def)
qed


definition cache_text :: "socket_addr list \<Rightarrow> bytes" where
  "cache_text as = concat (map (\<lambda>a. as_bytes (show_socket a) @ [10]) as)"

lemma text_lines_cache: "text_lines [] (cache_text as) = map (\<lambda>a. as_bytes (show_socket a)) as"
proof (induction as)
  case (Cons a as)
  let ?l = "as_bytes (show_socket a)"
  have l: "10 \<notin> set ?l" "?l \<noteq> []" using graphic_bytes [OF graphic_socket] show_socket_nonempty by (auto simp: as_bytes_def)
  hence "last ?l \<noteq> 13" using graphic_bytes(2) [OF graphic_socket, of a] by (metis last_in_set)
  thus ?case using Cons text_lines_end [of ?l "[]"] l by (simp add: cache_text_def)
qed (simp add: cache_text_def)

lemma load_lines_cache:
  assumes "list_all socket_ok as"
  shows "load_lines (map (\<lambda>a. as_bytes (show_socket a)) as) = Some (map clear_flow as)"
  using assms
proof (induction as)
  case (Cons a as)
  have g: "list_all graphic (show_socket a)" by (rule graphic_socket)
  have "trim (show_socket a) = show_socket a"
    by (rule trim_graphic) (use g show_socket_nonempty in \<open>auto simp: list_all_iff\<close>)
  thus ?case using Cons from_utf8_ascii [OF graphic_bytes(3) [OF g]] parse_show_socket [of a] by simp
qed simp

lemma header_line: "text_lines [] (as_bytes HEADER @ 10 # bs) = as_bytes HEADER # text_lines [] bs" "map_option trim (from_utf8 (as_bytes HEADER)) = Some HEADER"
proof -
  show "text_lines [] (as_bytes HEADER @ 10 # bs) = as_bytes HEADER # text_lines [] bs"
    using text_lines_end [of "as_bytes HEADER" "[]" bs] by (simp add: HEADER_def as_bytes_def)
  have "from_utf8 (as_bytes HEADER) = Some HEADER" by (rule from_utf8_ascii) (simp add: HEADER_def)
  moreover have "trim HEADER = HEADER" by (rule trim_graphic) (simp_all add: HEADER_def graphic_def)
  ultimately show "map_option trim (from_utf8 (as_bytes HEADER)) = Some HEADER" by simp
qed

text \<open>
  The file round trip. What \<open>serialize\<close> writes for the recent addresses \<open>load\<close> reads back: the first
  eight of them in their order, with the flow label of an IPv6 address cleared.
\<close>

lemma cache_roundtrip:
  assumes "list_all socket_ok (recent c)" "serialize c = Some (path, text)"
  shows "load (Some text) = map clear_flow (take MAX_PERSISTED (recent c))"
proof -
  let ?as = "take MAX_PERSISTED (recent c)"
  have "concat (map (\<lambda>a. map (\<lambda>c. of_nat (of_char c)) (show_socket a @ [CHR 0x0A])) ?as) = cache_text ?as"
    by (simp add: cache_text_def as_bytes_def)
  hence t: "text = as_bytes HEADER @ 10 # cache_text ?as"
    using assms(2) by (auto simp: serialize_def as_bytes_def map_concat comp_def)
  have "list_all socket_ok ?as" using assms(1) by (auto simp: list_all_iff dest: in_set_takeD)
  hence "load_lines (take (2 * MAX_PERSISTED) (map (\<lambda>a. as_bytes (show_socket a)) ?as)) = Some (map clear_flow ?as)"
    using load_lines_cache [of ?as] by (simp add: MAX_PERSISTED_def)
  thus ?thesis by (simp add: load_def t header_line text_lines_cache)
qed

end
