(* ===== verification/Timers.thy ===== *)
theory Timers
  imports Clock
begin

text \<open>
  The timer wheel of \<open>tincd/src/event/timer.rs\<close>: slots with stable handles, an ordered map from deadlines
  to slots, and the cached clock. \<open>None\<close> is a panic. The clock reading of \<open>tick\<close> is its argument. The
  abstract wheel is a map from handles to payloads and deadlines; the refinement says which timers a
  tick fires, in which order, and how long to sleep.
\<close>

section \<open>Model\<close>

record 'w tslot =
  what :: 'w
  at :: "(instant \<times> nat) option"

record 'w timers =
  by_deadline :: "(instant \<times> nat, nat) bmap"
  slots :: "'w tslot option list"
  free :: "nat list"
  seq :: nat
  now :: instant

definition timers_new :: "instant \<Rightarrow> 'w timers" where
  "timers_new t = \<lparr>by_deadline = [], slots = [], free = [], seq = 0, now = t\<rparr>"

definition timers_add :: "'w \<Rightarrow> 'w timers \<Rightarrow> (nat \<times> 'w timers) option" where
  "timers_add w t =
     (let s = Some \<lparr>what = w, at = None\<rparr>
      in if free t \<noteq> [] then
           let idx = last (free t); t = t\<lparr>free := butlast (free t)\<rparr>
           in if idx < length (slots t) then Some (idx, t\<lparr>slots := (slots t)[idx := s]\<rparr>) else None
         else Some (length (slots t), t\<lparr>slots := slots t @ [s]\<rparr>))"

definition YEAR :: duration where "YEAR = from_secs (86400 * 365)"

definition deadline :: "instant \<Rightarrow> duration \<Rightarrow> instant option" where
  "deadline t after = (case checked_add t after of None \<Rightarrow> checked_add t YEAR | Some when \<Rightarrow> Some when)"

definition timers_set :: "nat \<Rightarrow> duration \<Rightarrow> 'w timers \<Rightarrow> 'w timers option" where
  "timers_set tid after t = do {
     s \<leftarrow> slot (slots t) tid;
     let t = (case at s of None \<Rightarrow> t | Some old_key \<Rightarrow> t\<lparr>by_deadline := bt_remove old_key (by_deadline t)\<rparr>);
     when \<leftarrow> deadline (now t) after;
     let t = t\<lparr>seq := (seq t + 1) mod 2 ^ 64\<rparr>;
     let key = (when, seq t);
     Some (t\<lparr>slots := (slots t)[tid := Some (s\<lparr>at := Some key\<rparr>)], by_deadline := bt_insert key tid (by_deadline t)\<rparr>) }"

definition timers_del :: "nat \<Rightarrow> 'w timers \<Rightarrow> 'w timers" where
  "timers_del tid t =
     (case slot (slots t) tid of
        None \<Rightarrow> t
      | Some s \<Rightarrow>
          let t = t\<lparr>slots := (slots t)[tid := None]\<rparr>;
              t = (case at s of None \<Rightarrow> t | Some key \<Rightarrow> t\<lparr>by_deadline := bt_remove key (by_deadline t)\<rparr>)
          in t\<lparr>free := free t @ [tid]\<rparr>)"

text \<open>The loop of \<open>tick\<close>: the first entry of the map is peeked, and removed when it is due.\<close>

fun tick_loop :: "instant \<Rightarrow> (instant \<times> nat, nat) bmap \<Rightarrow> 'w tslot option list \<Rightarrow> 'w list \<Rightarrow>
    ('w list \<times> duration option \<times> (instant \<times> nat, nat) bmap \<times> 'w tslot option list) option" where
  "tick_loop t [] sl out = Some (out, None, [], sl)"
| "tick_loop t ((k, idx) # bd) sl out =
     (if fst k \<le> t then do {
        s \<leftarrow> slot sl idx;
        tick_loop t bd (sl[idx := Some (s\<lparr>at := None\<rparr>)]) (out @ [what s]) }
      else Some (out, Some (fst k - t), (k, idx) # bd, sl))"

definition timers_tick :: "instant \<Rightarrow> 'w timers \<Rightarrow> (('w list \<times> duration option) \<times> 'w timers) option" where
  "timers_tick clock t = do {
     let t = t\<lparr>now := clock\<rparr>;
     (out, timeout, bd, sl) \<leftarrow> tick_loop (now t) (by_deadline t) (slots t) [];
     Some ((out, timeout), t\<lparr>by_deadline := bd, slots := sl\<rparr>) }"

definition next_timeout :: "'w timers \<Rightarrow> duration option" where
  "next_timeout t = (case by_deadline t of [] \<Rightarrow> None | (k, _) # _ \<Rightarrow> Some (duration_since (fst k) (now t)))"

section \<open>The abstract wheel\<close>

type_synonym 'w wheel = "nat \<Rightarrow> ('w \<times> (instant \<times> nat) option) option"

datatype 'w timer_op = TAdd 'w | TSet nat duration | TDel nat | TTick instant
datatype 'w timer_res = RId nat | RUnit | RFired "'w list" "duration option"

definition armed :: "'w wheel \<Rightarrow> ((instant \<times> nat) \<times> nat) set" where
  "armed m = {(k, i). \<exists>w. m i = Some (w, Some k)}"

definition due_timers :: "instant \<Rightarrow> 'w wheel \<Rightarrow> ((instant \<times> nat) \<times> nat) set" where
  "due_timers t m = {(k, i) \<in> armed m. fst k \<le> t}"

definition disarm_due :: "instant \<Rightarrow> 'w wheel \<Rightarrow> 'w wheel" where
  "disarm_due t m i = (case m i of
     None \<Rightarrow> None
   | Some (w, None) \<Rightarrow> Some (w, None)
   | Some (w, Some k) \<Rightarrow> Some (w, if fst k \<le> t then None else Some k))"

inductive timer_spec :: "'w timer_op \<Rightarrow> 'w wheel \<times> nat \<times> instant \<Rightarrow> 'w timer_res \<Rightarrow> 'w wheel \<times> nat \<times> instant \<Rightarrow> bool" where
  spec_add: "m i = None \<Longrightarrow> timer_spec (TAdd w) (m, q, n) (RId i) (m(i \<mapsto> (w, None)), q, n)"
| spec_set: "m i = Some (w, a) \<Longrightarrow> deadline n d = Some when \<Longrightarrow>
    timer_spec (TSet i d) (m, q, n) RUnit (m(i \<mapsto> (w, Some (when, q + 1))), q + 1, n)"
| spec_del: "timer_spec (TDel i) (m, q, n) RUnit (m(i := None), q, n)"
| spec_tick: "fired = sorted_list_of_set (due_timers t m) \<Longrightarrow> rest = {fst k - t |k i. (k, i) \<in> armed m - due_timers t m} \<Longrightarrow>
    timer_spec (TTick t) (m, q, n) (RFired (map (\<lambda>(k, i). fst (the (m i))) fired) (if rest = {} then None else Some (Min rest)))
      (disarm_due t m, q, t)"

definition timers_abs :: "'w timers \<Rightarrow> 'w wheel \<times> nat \<times> instant" where
  "timers_abs t = (\<lambda>i. map_option (\<lambda>s. (what s, at s)) (slot (slots t) i), seq t, now t)"

fun timer_run :: "'w timer_op \<Rightarrow> 'w timers \<Rightarrow> ('w timer_res \<times> 'w timers) option" where
  "timer_run (TAdd w) t = do { (i, t) \<leftarrow> timers_add w t; Some (RId i, t) }"
| "timer_run (TSet i d) t = do { t \<leftarrow> timers_set i d t; Some (RUnit, t) }"
| "timer_run (TDel i) t = Some (RUnit, timers_del i t)"
| "timer_run (TTick c) t = do { ((out, timeout), t) \<leftarrow> timers_tick c t; Some (RFired out timeout, t) }"

text \<open>
  What callers keep to: only live handles are armed, the clock is at least a year from the end of
  time, and fewer than \<open>2^64\<close> timers are ever armed.
\<close>

fun timer_allowed :: "'w timer_op \<Rightarrow> 'w timers \<Rightarrow> bool" where
  "timer_allowed (TSet i d) t \<longleftrightarrow> slot (slots t) i \<noteq> None \<and> seq t + 1 < 2 ^ 64"
| "timer_allowed (TTick c) t \<longleftrightarrow> fits_instant (c + YEAR)"
| "timer_allowed _ t \<longleftrightarrow> True"

definition timers_inv :: "'w timers \<Rightarrow> bool" where
  "timers_inv t \<longleftrightarrow> slab_ok (slots t) (free t) \<and> bt_ok (by_deadline t) \<and> fits_instant (now t + YEAR) \<and>
     (\<forall>k i. (k, i) \<in> set (by_deadline t) \<longleftrightarrow> (\<exists>s. slot (slots t) i = Some s \<and> at s = Some k)) \<and>
     (\<forall>(k, i) \<in> set (by_deadline t). snd k \<le> seq t)"

section \<open>Refinement\<close>

definition linked :: "(instant \<times> nat, nat) bmap \<Rightarrow> 'w tslot option list \<Rightarrow> bool" where
  "linked bd sl \<longleftrightarrow> (\<forall>k i. (k, i) \<in> set bd \<longleftrightarrow> (\<exists>s. slot sl i = Some s \<and> at s = Some k))"

lemma linkedD: "linked bd sl \<Longrightarrow> (k, i) \<in> set bd \<Longrightarrow> \<exists>s. slot sl i = Some s \<and> at s = Some k"
  unfolding linked_def by blast

lemma timers_inv_linked:
  "timers_inv t \<longleftrightarrow> slab_ok (slots t) (free t) \<and> bt_ok (by_deadline t) \<and> fits_instant (now t + YEAR) \<and>
     linked (by_deadline t) (slots t) \<and> (\<forall>(k, i) \<in> set (by_deadline t). snd k \<le> seq t)"
  by (simp add: timers_inv_def linked_def)

definition disarm_slot :: "instant \<Rightarrow> 'w tslot \<Rightarrow> 'w tslot" where
  "disarm_slot t s = (case at s of None \<Rightarrow> s | Some k \<Rightarrow> if fst k \<le> t then s\<lparr>at := None\<rparr> else s)"

lemma linked_disarm_head:
  assumes "linked ((k, i) # bd) sl" "bt_ok ((k, i) # bd)" "slot sl i = Some s"
  shows "linked bd (sl[i := Some (s\<lparr>at := None\<rparr>)])"
proof -
  have s: "at s = Some k" using linkedD [OF assms(1), of k i] assms(3) by auto
  have k: "k \<notin> fst ` set bd" using bt_ok_distinct [OF assms(2)] by auto
  have "(k', j) \<in> set bd \<longleftrightarrow> (\<exists>u. slot (sl[i := Some (s\<lparr>at := None\<rparr>)]) j = Some u \<and> at u = Some k')" for k' j
  proof (cases "j = i")
    case True
    have "(k', i) \<notin> set bd"
    proof
      assume "(k', i) \<in> set bd"
      hence "\<exists>u. slot sl i = Some u \<and> at u = Some k'" using linkedD [OF assms(1)] by simp
      hence "k' = k" using assms(3) s by simp
      thus False using k \<open>(k', i) \<in> set bd\<close> by force
    qed
    thus ?thesis using True slot_Some_less [OF assms(3)] by (simp add: slot_update)
  next
    case False
    have "(k', j) \<in> set bd \<longleftrightarrow> (k', j) \<in> set ((k, i) # bd)" using False by simp
    also have "\<dots> \<longleftrightarrow> (\<exists>u. slot sl j = Some u \<and> at u = Some k')" using assms(1) by (simp only: linked_def)
    finally show ?thesis using False by (simp add: slot_update)
  qed
  thus ?thesis by (simp add: linked_def)
qed

lemma bt_ok_tail: "bt_ok (p # m) \<Longrightarrow> bt_ok m"
  by (simp add: bt_ok_def)

definition is_due :: "instant \<Rightarrow> (instant \<times> nat) \<times> nat \<Rightarrow> bool" where
  "is_due t p \<longleftrightarrow> fst (fst p) \<le> t"

definition head_timeout :: "instant \<Rightarrow> (instant \<times> nat, nat) bmap \<Rightarrow> duration option" where
  "head_timeout t bd = (case bd of [] \<Rightarrow> None | p # _ \<Rightarrow> Some (fst (fst p) - t))"

lemma tick_loop_spec:
  assumes "linked bd sl" "bt_ok bd"
  shows "\<exists>sl'. tick_loop t bd sl out =
      Some (out @ map (\<lambda>p. what (the (slot sl (snd p)))) (takeWhile (is_due t) bd),
        head_timeout t (dropWhile (is_due t) bd), dropWhile (is_due t) bd, sl') \<and> length sl' = length sl \<and>
      linked (dropWhile (is_due t) bd) sl' \<and>
      (\<forall>j. slot sl' j = (if j \<in> snd ` set (takeWhile (is_due t) bd) then map_option (\<lambda>s. s\<lparr>at := None\<rparr>) (slot sl j) else slot sl j))"
  using assms
proof (induction bd arbitrary: sl out)
  case (Cons p bd)
  obtain k i where p: "p = (k, i)" by fastforce
  show ?case
  proof (cases "is_due t p")
    case True
    obtain s where s: "slot sl i = Some s" "at s = Some k" using linkedD [OF Cons.prems(1), of k i] p by auto
    let ?sl = "sl[i := Some (s\<lparr>at := None\<rparr>)]"
    have l: "linked bd ?sl" using linked_disarm_head Cons.prems s(1) p by blast
    from Cons.IH [OF l bt_ok_tail [OF Cons.prems(2)], of "out @ [what s]"] obtain sl' where sl':
      "tick_loop t bd ?sl (out @ [what s]) =
      Some ((out @ [what s]) @ map (\<lambda>p. what (the (slot ?sl (snd p)))) (takeWhile (is_due t) bd),
        head_timeout t (dropWhile (is_due t) bd), dropWhile (is_due t) bd, sl')"
      "length sl' = length ?sl" "linked (dropWhile (is_due t) bd) sl'"
      "\<forall>j. slot sl' j = (if j \<in> snd ` set (takeWhile (is_due t) bd) then map_option (\<lambda>s. s\<lparr>at := None\<rparr>) (slot ?sl j) else slot ?sl j)"
      by blast
    have i: "i < length sl" using slot_Some_less [OF s(1)] .
    have "what (the (slot ?sl j)) = what (the (slot sl j))" for j using s i by (cases "j = i") (simp_all add: slot_update)
    hence run: "tick_loop t (p # bd) sl out =
      Some (out @ map (\<lambda>p. what (the (slot sl (snd p)))) (takeWhile (is_due t) (p # bd)),
        head_timeout t (dropWhile (is_due t) (p # bd)), dropWhile (is_due t) (p # bd), sl')"
      using sl'(1) s p True by (simp add: is_due_def)
    have at_j: "slot sl' j = (if j \<in> snd ` set (takeWhile (is_due t) (p # bd)) then map_option (\<lambda>s. s\<lparr>at := None\<rparr>) (slot sl j) else slot sl j)" for j
      using sl'(4) s i True p by (auto simp: slot_update)
    have "length sl' = length sl" "linked (dropWhile (is_due t) (p # bd)) sl'" using sl'(2,3) True by simp_all
    thus ?thesis by (intro exI [of _ sl'] conjI allI run at_j)
  next
    case False
    thus ?thesis using Cons.prems p by (simp add: is_due_def head_timeout_def)
  qed
qed (simp add: head_timeout_def)

lemma sorted_deadlines:
  assumes "bt_ok bd"
  shows "takeWhile (is_due t) bd = filter (is_due t) bd" "dropWhile (is_due t) bd = filter (\<lambda>p. \<not> is_due t p) bd"
    "sorted_wrt (<) bd"
proof -
  have "takeWhile (is_due t) bd = filter (is_due t) bd \<and> dropWhile (is_due t) bd = filter (\<lambda>p. \<not> is_due t p) bd \<and> sorted_wrt (<) bd"
    using assms
  proof (induction bd)
    case (Cons p bd)
    have gt: "fst p < fst q" if "q \<in> set bd" for q using that Cons.prems by (auto simp: bt_ok_def)
    note ih = Cons.IH [OF bt_ok_tail [OF Cons.prems]]
    have "p < q" if "q \<in> set bd" for q using gt [OF that] by (cases p; cases q) simp
    hence "sorted_wrt (<) (p # bd)" using ih by simp
    moreover have "\<not> is_due t q" if "\<not> is_due t p" "q \<in> set bd" for q
    proof -
      have "fst (fst p) \<le> fst (fst q)" using gt [OF that(2)] by (cases "fst p"; cases "fst q") auto
      thus ?thesis using that(1) by (simp add: is_due_def)
    qed
    ultimately show ?case using ih by (cases "is_due t p") (auto simp: filter_empty_conv filter_id_conv)
  qed simp
  thus "takeWhile (is_due t) bd = filter (is_due t) bd" "dropWhile (is_due t) bd = filter (\<lambda>p. \<not> is_due t p) bd"
    "sorted_wrt (<) bd" by simp_all
qed

lemma armed_abs:
  assumes "linked (by_deadline t) (slots t)"
  shows "armed (fst (timers_abs t)) = set (by_deadline t)"
proof -
  have "(k, i) \<in> armed (fst (timers_abs t)) \<longleftrightarrow> (k, i) \<in> set (by_deadline t)" for k i
  proof -
    have "(k, i) \<in> armed (fst (timers_abs t)) \<longleftrightarrow> (\<exists>s. slot (slots t) i = Some s \<and> at s = Some k)"
      unfolding armed_def timers_abs_def by auto
    also have "\<dots> \<longleftrightarrow> (k, i) \<in> set (by_deadline t)" using assms unfolding linked_def by blast
    finally show ?thesis .
  qed
  thus ?thesis by auto
qed

lemma head_timeout_Min:
  assumes "sorted_wrt (<) bd"
  shows "head_timeout t bd = (if bd = [] then None else Some (Min ((\<lambda>p. fst (fst p) - t) ` set bd)))"
proof (cases bd)
  case (Cons p ps)
  have "fst (fst p) - t \<le> fst (fst q) - t" if "q \<in> set bd" for q
  proof -
    have "p \<le> q" using that assms Cons by auto
    hence "fst (fst p) \<le> fst (fst q)" by (cases p; cases q; cases "fst p"; cases "fst q") auto
    thus ?thesis by (rule diff_le_mono)
  qed
  hence "Min ((\<lambda>p. fst (fst p) - t) ` set bd) = fst (fst p) - t" using Cons by (intro Min_eqI) auto
  thus ?thesis using Cons by (simp add: head_timeout_def)
qed (simp add: head_timeout_def)

lemma timers_tick_refines:
  assumes "timers_inv t" "fits_instant (c + YEAR)"
  shows "\<exists>out timeout t'. timers_tick c t = Some ((out, timeout), t') \<and> timers_inv t' \<and>
    timer_spec (TTick c) (timers_abs t) (RFired out timeout) (timers_abs t')"
proof -
  let ?bd = "by_deadline t" and ?m = "fst (timers_abs t)"
  have inv: "slab_ok (slots t) (free t)" "bt_ok ?bd" "linked ?bd (slots t)" "\<forall>(k, i) \<in> set ?bd. snd k \<le> seq t"
    using assms(1) by (simp_all add: timers_inv_linked)
  note sd = sorted_deadlines [OF inv(2)]
  define due where "due = filter (is_due c) ?bd"
  define rest where "rest = filter (\<lambda>p. \<not> is_due c p) ?bd"
  obtain sl where sl: "tick_loop c ?bd (slots t) [] = Some (map (\<lambda>p. what (the (slot (slots t) (snd p)))) due, head_timeout c rest, rest, sl)"
    "length sl = length (slots t)" "linked rest sl"
    "\<And>j. slot sl j = (if j \<in> snd ` set due then map_option (\<lambda>s. s\<lparr>at := None\<rparr>) (slot (slots t) j) else slot (slots t) j)"
    using tick_loop_spec [OF inv(3,2), of c "[]"] unfolding sd due_def [symmetric] rest_def [symmetric] by auto
  let ?t' = "t\<lparr>now := c, by_deadline := rest, slots := sl\<rparr>"
  have run: "timers_tick c t = Some ((map (\<lambda>p. what (the (slot (slots t) (snd p)))) due, head_timeout c rest), ?t')"
    using sl(1) by (simp add: timers_tick_def)
  have none: "slot sl j = None \<longleftrightarrow> slot (slots t) j = None" for j by (simp add: sl(4))
  have "slab_ok sl (free t)" using inv(1) sl(2) none unfolding slab_ok_def slot_def by metis
  moreover have "bt_ok rest" using inv(2) unfolding rest_def bt_ok_def by (simp add: sorted_wrt_map sorted_wrt_filter)
  ultimately have inv': "timers_inv ?t'"
    using assms(2) sl(3) inv(4) by (auto simp: timers_inv_linked rest_def)
  have arm: "armed ?m = set ?bd" by (rule armed_abs [OF inv(3)])
  have due: "due_timers c ?m = set due" by (auto simp: due_timers_def arm due_def is_due_def)
  have "sorted_list_of_set (set due) = due"
    using sd(3) unfolding due_def by (intro sorted_list_of_set.idem_if_sorted_distinct) (simp_all add: strict_sorted_iff sorted_wrt_filter)
  hence fired: "due = sorted_list_of_set (due_timers c ?m)" by (simp add: due)
  have left: "{fst k - c |k i. (k, i) \<in> armed ?m - due_timers c ?m} = (\<lambda>p. fst (fst p) - c) ` set rest"
    unfolding arm due by (auto simp: due_def rest_def is_due_def image_iff) force+
  have to: "head_timeout c rest = (let r = {fst k - c |k i. (k, i) \<in> armed ?m - due_timers c ?m} in if r = {} then None else Some (Min r))"
  proof -
    have "sorted_wrt (<) rest" by (simp add: rest_def sorted_wrt_filter sd(3))
    thus ?thesis using head_timeout_Min [of rest c] unfolding left Let_def by simp
  qed
  have out: "map (\<lambda>p. what (the (slot (slots t) (snd p)))) due = map (\<lambda>(k, i). fst (the (?m i))) due"
  proof (rule map_cong [OF refl])
    fix p assume "p \<in> set due"
    then obtain s where "slot (slots t) (snd p) = Some s" using linkedD [OF inv(3), of "fst p" "snd p"] by (auto simp: due_def)
    thus "what (the (slot (slots t) (snd p))) = (\<lambda>(k, i). fst (the (?m i))) p" by (simp add: timers_abs_def split_beta)
  qed
  have "fst (timers_abs ?t') j = disarm_due c ?m j" for j
  proof (cases "slot (slots t) j")
    case None
    thus ?thesis by (simp add: timers_abs_def disarm_due_def sl(4))
  next
    case (Some s)
    have "j \<in> snd ` set due \<longleftrightarrow> (\<exists>k. (k, j) \<in> set ?bd \<and> fst k \<le> c)" by (force simp: due_def is_due_def)
    also have "\<dots> \<longleftrightarrow> (\<exists>k. at s = Some k \<and> fst k \<le> c)" using inv(3) Some unfolding linked_def by simp
    finally show ?thesis using Some by (auto simp: timers_abs_def disarm_due_def sl(4) split: option.splits)
  qed
  hence abs': "timers_abs ?t' = (disarm_due c ?m, seq t, c)" by (auto simp: timers_abs_def)
  have abs: "timers_abs t = (?m, seq t, now t)" by (simp add: timers_abs_def)
  have "timer_spec (TTick c) (timers_abs t) (RFired (map (\<lambda>(k, i). fst (the (?m i))) due) (head_timeout c rest)) (timers_abs ?t')"
    unfolding abs' to Let_def by (subst abs, rule spec_tick [OF fired refl])
  thus ?thesis using run inv' out by auto
qed

lemma timers_abs_update:
  assumes "\<And>j. slot (slots t') j = (if j = i then x else slot (slots t) j)" "seq t' = q" "now t' = now t"
  shows "timers_abs t' = ((fst (timers_abs t))(i := map_option (\<lambda>s. (what s, at s)) x), q, now t)"
  using assms by (auto simp: timers_abs_def)

lemma timers_add_refines:
  assumes "timers_inv t"
  shows "\<exists>i t'. timers_add w t = Some (i, t') \<and> timers_inv t' \<and> timer_spec (TAdd w) (timers_abs t) (RId i) (timers_abs t')"
proof -
  let ?s = "\<lparr>what = w, at = None\<rparr>"
  have inv: "slab_ok (slots t) (free t)" "bt_ok (by_deadline t)" "fits_instant (now t + YEAR)"
    "linked (by_deadline t) (slots t)" "\<forall>(k, i) \<in> set (by_deadline t). snd k \<le> seq t"
    using assms by (simp_all add: timers_inv_linked)
  obtain i sl fr where a: "timers_add w t = Some (i, t\<lparr>free := fr, slots := sl\<rparr>)" "slot (slots t) i = None"
    "\<And>j. slot sl j = (if j = i then Some ?s else slot (slots t) j)" "slab_ok sl fr"
  proof (cases "free t = []")
    case True
    have "slab_ok (slots t @ [Some ?s]) []" using inv(1) slab_ok_append True by metis
    thus thesis using that [of "length (slots t)" "slots t @ [Some ?s]" "[]"] True
      by (simp add: timers_add_def slot_def nth_append)
  next
    case False
    then obtain fs f where f: "free t = fs @ [f]" by (metis append_butlast_last_id)
    have m: "f < length (slots t)" "slots t ! f = None" using inv(1) unfolding slab_ok_def f by auto
    have "slab_ok ((slots t)[f := Some ?s]) fs" using inv(1) unfolding f by (rule slab_ok_reuse)
    thus thesis using that [of f "(slots t)[f := Some ?s]" fs] m f
      by (simp add: timers_add_def Let_def slot_def)
  qed
  let ?t' = "t\<lparr>free := fr, slots := sl\<rparr>"
  have "linked (by_deadline t) sl" unfolding linked_def
  proof (intro allI)
    fix k j
    have "(k, j) \<in> set (by_deadline t) \<longleftrightarrow> (\<exists>s. slot (slots t) j = Some s \<and> at s = Some k)" using inv(4) unfolding linked_def by blast
    thus "(k, j) \<in> set (by_deadline t) \<longleftrightarrow> (\<exists>s. slot sl j = Some s \<and> at s = Some k)" using a(2,3) by (cases "j = i") simp_all
  qed
  hence "timers_inv ?t'" using inv a(4) by (simp add: timers_inv_linked)
  moreover have "timers_abs ?t' = ((fst (timers_abs t))(i \<mapsto> (w, None)), seq t, now t)"
    using timers_abs_update [of ?t' i "Some ?s" t "seq t"] a(3) by simp
  moreover have "timers_abs t = (fst (timers_abs t), seq t, now t)" "fst (timers_abs t) i = None" using a(2) by (simp_all add: timers_abs_def)
  ultimately show ?thesis using a(1) spec_add by metis
qed

text \<open>Re-arming and deleting take the slot's own entry out of the map.\<close>

lemma linked_remove:
  assumes "linked bd sl" "bt_ok bd" "slot sl i = Some s" "at s = Some k"
  shows "set (bt_remove k bd) = {p \<in> set bd. snd p \<noteq> i}"
proof -
  have h: "p \<in> set bd \<Longrightarrow> fst p = k \<longleftrightarrow> snd p = i" for p
  proof
    assume p: "p \<in> set bd" "fst p = k"
    have "(k, i) \<in> set bd" using assms(1,3,4) unfolding linked_def by blast
    thus "snd p = i" using btree.entries_functional [OF assms(2), of k i "snd p"] p by auto
  next
    assume p: "p \<in> set bd" "snd p = i"
    hence "(fst p, i) \<in> set bd" by auto
    from linkedD [OF assms(1) this] show "fst p = k" using assms(3,4) by auto
  qed
  show ?thesis unfolding set_bt_remove [OF assms(2)]
  proof (rule Collect_cong)
    fix p
    show "p \<in> set bd \<and> fst p \<noteq> k \<longleftrightarrow> p \<in> set bd \<and> snd p \<noteq> i" using h [of p] by blast
  qed
qed

definition unlink :: "nat \<Rightarrow> 'w tslot \<Rightarrow> (instant \<times> nat, nat) bmap \<Rightarrow> (instant \<times> nat, nat) bmap" where
  "unlink i s bd = (case at s of None \<Rightarrow> bd | Some k \<Rightarrow> bt_remove k bd)"

lemma unlink_props:
  assumes "linked bd sl" "bt_ok bd" "slot sl i = Some s"
  shows "bt_ok (unlink i s bd)" "set (unlink i s bd) = {p \<in> set bd. snd p \<noteq> i}"
proof -
  show "bt_ok (unlink i s bd)" using bt_remove_ok [OF assms(2)] assms(2) by (simp add: unlink_def split: option.splits)
  show "set (unlink i s bd) = {p \<in> set bd. snd p \<noteq> i}"
  proof (cases "at s")
    case None
    have "(k, i) \<notin> set bd" for k using linkedD [OF assms(1), of k i] assms(3) None by auto
    hence "snd p \<noteq> i" if "p \<in> set bd" for p using that by (cases p) auto
    thus ?thesis using None by (auto simp: unlink_def)
  next
    case (Some k)
    thus ?thesis using linked_remove [OF assms(1-3)] by (simp add: unlink_def)
  qed
qed

lemma timers_del_refines:
  assumes "timers_inv t"
  shows "timers_inv (timers_del i t) \<and> timer_spec (TDel i) (timers_abs t) RUnit (timers_abs (timers_del i t))"
proof (cases "slot (slots t) i")
  case None
  hence "(fst (timers_abs t))(i := None) = fst (timers_abs t)" by (auto simp: timers_abs_def)
  hence "timer_spec (TDel i) (timers_abs t) RUnit (timers_abs t)" using spec_del [of i "fst (timers_abs t)" "seq t" "now t"]
    by (simp add: timers_abs_def)
  thus ?thesis using None assms by (simp add: timers_del_def)
next
  case (Some s)
  let ?bd = "unlink i s (by_deadline t)" and ?sl = "(slots t)[i := None]"
  have inv: "slab_ok (slots t) (free t)" "bt_ok (by_deadline t)" "fits_instant (now t + YEAR)"
    "linked (by_deadline t) (slots t)" "\<forall>(k, i) \<in> set (by_deadline t). snd k \<le> seq t"
    using assms by (simp_all add: timers_inv_linked)
  have d: "timers_del i t = t\<lparr>slots := ?sl, by_deadline := ?bd, free := free t @ [i]\<rparr>"
    using Some by (simp add: timers_del_def unlink_def split: option.splits)
  note u = unlink_props [OF inv(4,2) Some]
  have sl: "slot ?sl j = (if j = i then None else slot (slots t) j)" for j using slot_Some_less [OF Some] by (simp add: slot_update)
  have "linked ?bd ?sl" unfolding linked_def
  proof (intro allI)
    fix k j
    have "(k, j) \<in> set (by_deadline t) \<longleftrightarrow> (\<exists>s. slot (slots t) j = Some s \<and> at s = Some k)" using inv(4) unfolding linked_def by blast
    thus "(k, j) \<in> set ?bd \<longleftrightarrow> (\<exists>s. slot ?sl j = Some s \<and> at s = Some k)" unfolding u(2) sl by (cases "j = i") simp_all
  qed
  moreover have "slab_ok ?sl (free t @ [i])" by (rule free_slot_ok [OF inv(1) Some])
  moreover have "\<forall>(k, i) \<in> set ?bd. snd k \<le> seq t" using inv(5) unfolding u(2) by auto
  ultimately have "timers_inv (timers_del i t)" using u(1) inv(3) unfolding d by (simp add: timers_inv_linked)
  moreover have "timers_abs (timers_del i t) = ((fst (timers_abs t))(i := None), seq t, now t)"
    using timers_abs_update [of "timers_del i t" i None t "seq t"] sl unfolding d by simp
  moreover have "timers_abs t = (fst (timers_abs t), seq t, now t)" by (simp add: timers_abs_def)
  ultimately show ?thesis using spec_del by metis
qed

lemma deadline_defined: "fits_instant (n + YEAR) \<Longrightarrow> \<exists>when. deadline n d = Some when"
  by (simp add: deadline_def checked_add_def)

lemma timers_set_refines:
  assumes "timers_inv t" "slot (slots t) i \<noteq> None" "seq t + 1 < 2 ^ 64"
  shows "\<exists>t'. timers_set i d t = Some t' \<and> timers_inv t' \<and> timer_spec (TSet i d) (timers_abs t) RUnit (timers_abs t')"
proof -
  obtain s where s: "slot (slots t) i = Some s" using assms(2) by blast
  have inv: "slab_ok (slots t) (free t)" "bt_ok (by_deadline t)" "fits_instant (now t + YEAR)"
    "linked (by_deadline t) (slots t)" "\<forall>(k, i) \<in> set (by_deadline t). snd k \<le> seq t"
    using assms(1) by (simp_all add: timers_inv_linked)
  obtain dl where w: "deadline (now t) d = Some dl" using deadline_defined [OF inv(3)] by blast
  let ?key = "(dl, seq t + 1)"
  let ?sl = "(slots t)[i := Some (s\<lparr>at := Some ?key\<rparr>)]" and ?old = "unlink i s (by_deadline t)"
  let ?bd = "bt_insert ?key i ?old"
  let ?t' = "t\<lparr>seq := seq t + 1, slots := ?sl, by_deadline := ?bd\<rparr>"
  have m: "(seq t + 1) mod 2 ^ 64 = seq t + 1" by (rule mod_less [OF assms(3)])
  have run: "timers_set i d t = Some ?t'"
    using s w m by (cases "at s") (simp_all add: timers_set_def unlink_def Let_def)
  note u = unlink_props [OF inv(4,2) s]
  have fresh: "?key \<notin> fst ` set ?old"
  proof
    assume "?key \<in> fst ` set ?old"
    then obtain j where "(?key, j) \<in> set (by_deadline t)" unfolding u(2) by auto
    thus False using inv(5) by fastforce
  qed
  have bd: "set ?bd = insert (?key, i) (set ?old)" by (rule btree.ins_fresh [OF u(1) fresh])
  have sl: "slot ?sl j = (if j = i then Some (s\<lparr>at := Some ?key\<rparr>) else slot (slots t) j)" for j
    using slot_Some_less [OF s] by (simp add: slot_update)
  have "linked ?bd ?sl" unfolding linked_def
  proof (intro allI)
    fix k j
    have "(k, j) \<in> set (by_deadline t) \<longleftrightarrow> (\<exists>s. slot (slots t) j = Some s \<and> at s = Some k)" using inv(4) unfolding linked_def by blast
    thus "(k, j) \<in> set ?bd \<longleftrightarrow> (\<exists>s. slot ?sl j = Some s \<and> at s = Some k)" unfolding bd u(2) sl by (cases "j = i") auto
  qed
  moreover have "slab_ok ?sl (free t)"
  proof -
    have "i < length (slots t)" "slots t ! i = Some s" using s by (simp_all add: slot_def split: if_splits)
    thus ?thesis using inv(1) unfolding slab_ok_def by (metis length_list_update nth_list_update option.distinct(1))
  qed
  moreover have "\<forall>(k, j) \<in> set ?bd. snd k \<le> seq t + 1" using inv(5) unfolding bd u(2) by auto
  moreover have "bt_ok ?bd" by (rule bt_insert_ok [OF u(1)])
  ultimately have "timers_inv ?t'" using inv(3) by (simp add: timers_inv_linked)
  moreover have "timers_abs ?t' = ((fst (timers_abs t))(i \<mapsto> (what s, Some ?key)), seq t + 1, now t)"
    using timers_abs_update [of ?t' i "Some (s\<lparr>at := Some ?key\<rparr>)" t "seq t + 1"] sl by simp
  moreover have "timers_abs t = (fst (timers_abs t), seq t, now t)" "fst (timers_abs t) i = Some (what s, at s)"
    using s by (simp_all add: timers_abs_def)
  ultimately show ?thesis using run spec_set [of "fst (timers_abs t)" i "what s" "at s" "now t" d dl "seq t"] w by metis
qed

inductive timers_reach :: "'w timers \<Rightarrow> bool" where
  reach_new: "fits_instant (n + YEAR) \<Longrightarrow> timers_reach (timers_new n)"
| reach_step: "timers_reach t \<Longrightarrow> timer_allowed e t \<Longrightarrow> timer_run e t = Some (r, t') \<Longrightarrow> timers_reach t'"

lemma timers_new_inv: "fits_instant (n + YEAR) \<Longrightarrow> timers_inv (timers_new n)"
  by (simp add: timers_inv_def timers_new_def slab_ok_def bt_ok_def slot_def)

lemma timer_run_refines:
  assumes "timers_inv t" "timer_allowed e t"
  shows "\<exists>r t'. timer_run e t = Some (r, t') \<and> timers_inv t' \<and> timer_spec e (timers_abs t) r (timers_abs t')"
proof (cases e)
  case (TAdd w)
  obtain i t' where "timers_add w t = Some (i, t')" "timers_inv t'" "timer_spec (TAdd w) (timers_abs t) (RId i) (timers_abs t')"
    using timers_add_refines [OF assms(1)] by metis
  thus ?thesis using TAdd by simp
next
  case (TSet i d)
  obtain t' where "timers_set i d t = Some t'" "timers_inv t'" "timer_spec (TSet i d) (timers_abs t) RUnit (timers_abs t')"
    using timers_set_refines [OF assms(1), of i d] assms(2) TSet by (simp only: timer_allowed.simps) metis
  thus ?thesis using TSet by simp
next
  case (TDel i)
  thus ?thesis using timers_del_refines [OF assms(1)] by simp
next
  case (TTick c)
  obtain out timeout t' where "timers_tick c t = Some ((out, timeout), t')" "timers_inv t'"
      "timer_spec (TTick c) (timers_abs t) (RFired out timeout) (timers_abs t')"
    using timers_tick_refines [OF assms(1)] assms(2) TTick by (simp only: timer_allowed.simps) metis
  thus ?thesis using TTick by simp
qed

lemma timers_reach_inv: "timers_reach t \<Longrightarrow> timers_inv t"
proof (induction rule: timers_reach.induct)
  case (reach_step t e r t')
  thus ?case using timer_run_refines [of t e] by auto
qed (rule timers_new_inv)

text \<open>
  C31: the timer wheel. In every state it can reach, each call returns and makes exactly the step of
  the abstract wheel: a new handle is fresh, arming replaces the deadline, deleting forgets the timer,
  and a tick fires the timers whose deadline has passed, each once, in the order of deadline and then
  of arming, disarms exactly these, and returns the time to the earliest remaining one.
\<close>

theorem timers_refine_wheel:
  assumes "timers_reach t" "timer_allowed e t"
  shows "\<exists>r t'. timer_run e t = Some (r, t') \<and> timer_spec e (timers_abs t) r (timers_abs t')"
  using timer_run_refines [OF timers_reach_inv [OF assms(1)] assms(2)] by blast

definition demo_timers :: "string timers" where
  "demo_timers = \<lparr>by_deadline = [((10, 1), 0)], slots = [Some \<lparr>what = ''ping'', at = Some (10, 1)\<rparr>], free = [], seq = 1, now = 0\<rparr>"

lemma demo_timers_reach: "timers_reach demo_timers"
proof (rule reach_step)
  show "timers_reach (\<lparr>by_deadline = [], slots = [Some \<lparr>what = ''ping'', at = None\<rparr>], free = [], seq = 0, now = 0\<rparr> :: string timers)"
  proof (rule reach_step)
    show "timers_reach (timers_new 0 :: string timers)" by (rule reach_new) (simp add: fits_instant_def YEAR_def from_secs_def)
    show "timer_run (TAdd ''ping'') (timers_new 0) = Some (RId 0, \<lparr>by_deadline = [], slots = [Some \<lparr>what = ''ping'', at = None\<rparr>], free = [], seq = 0, now = 0\<rparr>)"
      by (simp add: timers_add_def timers_new_def)
  qed simp
  show "timer_run (TSet 0 10) \<lparr>by_deadline = [], slots = [Some \<lparr>what = ''ping'', at = None\<rparr>], free = [], seq = 0, now = 0\<rparr> = Some (RUnit, demo_timers)"
    by (simp add: timers_set_def slot_def deadline_def checked_add_def fits_instant_def demo_timers_def Let_def)
qed (simp add: slot_def)

theorem timers_refine_wheel_witness:
  "timers_reach demo_timers \<and> timer_allowed (TTick 20) demo_timers \<and>
   (\<exists>r t'. timer_run (TTick 20) demo_timers = Some (r, t') \<and> timer_spec (TTick 20) (timers_abs demo_timers) r (timers_abs t'))"
proof -
  have "timer_allowed (TTick 20) demo_timers" by (simp add: fits_instant_def YEAR_def from_secs_def)
  thus ?thesis using timers_refine_wheel [OF demo_timers_reach] demo_timers_reach by blast
qed

end
