(* ===== verification/Outgoing.thy ===== *)
theory Outgoing
  imports Autoconnect Addr_Cache Timers
begin

text \<open>
  Outgoing connections: the slots of \<open>tincd/src/outgoing.rs\<close>, how \<open>tincd/src/daemon/connect.rs\<close> dials, retries,
  confirms and redials them, how \<open>tincd/src/daemon/tx_control.rs\<close> builds the snapshot of autoconnect and carries
  out its action, and what \<open>tincd/src/daemon/periodic.rs\<close> does with the slots on a periodic tick, on a retry
  request and on a reload. The state is the daemon's with the slots, their timers and their hints; \<open>None\<close> is
  a panic. What the kernel, the files and the workers answer is a \<open>world\<close>; what is asked of the workers is
  a list of requests. Slot keys come from a counter, as no key of the slot maps is used twice. The
  smoothed rates of a tunnel, which the code keeps in floating point, are an input.
\<close>

section \<open>State\<close>

datatype timer_what = TwPing | TwAgePastRequests | RetryOutgoing nat | Periodic | TwAgeSubnets | TwKeyExpire | Watchdog | Punch nat | PunchRedial nat

record outgoing =
  o_node_name :: string
  o_origin :: out_origin
  o_timeout :: nat
  o_addr_cache :: "socket_addr addr_cache"

datatype proxy_config = Exec string | Socks4 string nat "string option" | Socks5 string nat "string option" "string option" | Http string nat

fun proxy_addr :: "proxy_config \<Rightarrow> (string \<times> nat) option" where
  "proxy_addr (Exec cmd) = None"
| "proxy_addr (Socks4 host port user) = Some (host, port)"
| "proxy_addr (Socks5 host port user pass) = Some (host, port)"
| "proxy_addr (Http host port) = Some (host, port)"

datatype dns_tag = ForOutgoing string | ForProxy

datatype dial_request = ResolveHosts dns_tag "(string \<times> nat) list" | ResolveKey string | StartPunch string

record 'g dialer =
  dl_daemon :: "'g daemon"
  dl_outgoings :: "(nat \<times> outgoing) list"
  dl_outgoing_timers :: "(nat \<times> nat) list"
  dl_timers :: "timer_what timers"
  dl_periodictimer :: nat
  dl_dns_hints :: "(string \<times> socket_addr list) list"
  dl_dht_hints :: "(string \<times> socket_addr list) list"
  dl_proxy_addrs :: "socket_addr list"
  dl_discovery :: bool
  dl_dht_discovery :: bool
  dl_has_address :: "string list"
  dl_has_dht_key :: "string list"
  dl_shortcut_backoff :: "(string \<times> instant) list"
  dl_sleeptime :: nat
  dl_maxtimeout :: nat
  dl_pingtimeout :: nat
  dl_proxy :: "proxy_config option"
  dl_next_key :: nat
  dl_requests :: "dial_request list"

text \<open>
  One answer of each of the surroundings: whether a socket could be connected to an address, whether the
  event loop took the connection with this key, whether the proxy command could be run for an address,
  what the host files say, what the cache file holds, and the results the resolver has ready.
\<close>

record world =
  w_dial :: "socket_addr \<Rightarrow> bool"
  w_register :: "nat \<Rightarrow> bool"
  w_pipe :: "socket_addr \<Rightarrow> bool"
  w_has_key :: "string \<Rightarrow> bool"
  w_config_addrs :: "string \<Rightarrow> (string \<times> nat) list"
  w_cache_file :: "string \<Rightarrow> bytes option"
  w_cache_path :: "string \<Rightarrow> string"
  w_resolved :: "(dns_tag \<times> socket_addr list) list"
  w_rates :: "nat \<Rightarrow> nat \<times> nat"

definition ask :: "dial_request \<Rightarrow> 'g dialer \<Rightarrow> 'g dialer" where
  "ask r dl = dl\<lparr>dl_requests := dl_requests dl @ [r]\<rparr>"

definition put_outgoing :: "nat \<Rightarrow> outgoing \<Rightarrow> 'g dialer \<Rightarrow> 'g dialer" where
  "put_outgoing oid out dl = dl\<lparr>dl_outgoings := AList.update oid out (dl_outgoings dl)\<rparr>"

section \<open>Addresses that are not dialled\<close>

definition unwanted_v4 :: "bytes \<Rightarrow> bool" where
  "unwanted_v4 a \<longleftrightarrow> a ! 0 = 127 \<or> a = [0, 0, 0, 0] \<or> (224 \<le> a ! 0 \<and> a ! 0 \<le> 239) \<or> (a ! 0 = 169 \<and> a ! 1 = 254) \<or> a = [255, 255, 255, 255]"

fun is_unwanted_dial_target :: "ip_addr \<Rightarrow> bool" where
  "is_unwanted_dial_target (IpV4 a) = unwanted_v4 a"
| "is_unwanted_dial_target (IpV6 a) =
     (if take 12 a = replicate 10 0 @ [255, 255] then unwanted_v4 (drop 12 a)
      else a = replicate 15 0 @ [1] \<or> a = replicate 16 0 \<or> a ! 0 = 255 \<or> (a ! 0 = 0xFE \<and> a ! 1 AND 0xC0 = 0x80))"

fun socket_ip :: "socket_addr \<Rightarrow> ip_addr" where
  "socket_ip (SocketV4 a p) = IpV4 a"
| "socket_ip (SocketV6 a p flow scope) = IpV6 a"

fun socket_port :: "socket_addr \<Rightarrow> nat" where
  "socket_port (SocketV4 a p) = p"
| "socket_port (SocketV6 a p flow scope) = p"

definition is_unwanted_dial_addr :: "socket_addr \<Rightarrow> bool" where
  "is_unwanted_dial_addr sa = is_unwanted_dial_target (socket_ip sa)"

fun show_ip_addr :: "ip_addr \<Rightarrow> string" where
  "show_ip_addr (IpV4 a) = show_ipv4 a"
| "show_ip_addr (IpV6 a) = show_ipv6 a"

definition fmt_addr :: "socket_addr \<Rightarrow> string" where
  "fmt_addr sa = show_ip_addr (socket_ip sa) @ '' port '' @ show_radix 10 (socket_port sa)"

section \<open>Dialling\<close>

text \<open>\<open>timeout + 5\<close> on \<open>u32\<close>; the sum overflowing is a panic.\<close>

definition bump_timeout :: "nat \<Rightarrow> outgoing \<Rightarrow> (nat \<times> outgoing) option" where
  "bump_timeout maxtimeout out =
     (if 4294967295 < o_timeout out + 5 then None
      else let t = min (o_timeout out + 5) maxtimeout in Some (t, out\<lparr>o_timeout := t\<rparr>))"

definition request_proxy_resolve :: "'g dialer \<Rightarrow> 'g dialer" where
  "request_proxy_resolve dl =
     (if dl_proxy_addrs dl \<noteq> [] then dl
      else case Option.bind (dl_proxy dl) proxy_addr of
          None \<Rightarrow> dl
        | Some (host, port) \<Rightarrow>
            (case parse_ip host of
               Some ip \<Rightarrow> dl\<lparr>dl_proxy_addrs := [socket_new ip port]\<rparr>
             | None \<Rightarrow> ask (ResolveHosts ForProxy [(host, port)]) dl))"

definition arm_retry :: "nat \<Rightarrow> duration \<Rightarrow> 'g dialer \<Rightarrow> 'g dialer option" where
  "arm_retry oid after dl =
     (case map_of (dl_outgoing_timers dl) oid of
        None \<Rightarrow> Some dl
      | Some tid \<Rightarrow> map_option (\<lambda>t. dl\<lparr>dl_timers := t\<rparr>) (timers_set tid after (dl_timers dl)))"

text \<open>What \<open>retry_outgoing\<close> does once the timer is armed: hints that failed go, fresh ones are asked for.\<close>

definition after_retry :: "world \<Rightarrow> outgoing \<Rightarrow> 'g dialer \<Rightarrow> 'g dialer" where
  "after_retry w out dl =
     (let name = o_node_name out;
          dl = request_proxy_resolve (dl\<lparr>dl_dns_hints := AList.delete name (dl_dns_hints dl)\<rparr>);
          dl = (if dl_discovery dl
                then let dl = dl\<lparr>dl_dht_hints := AList.delete name (dl_dht_hints dl)\<rparr>
                     in if w_has_key w name then ask (ResolveKey name) dl else dl
                else dl)
      in if o_origin out = AutoShortcut then ask (StartPunch name) dl else dl)"

definition retry_outgoing :: "world \<Rightarrow> nat \<Rightarrow> 'g dialer \<Rightarrow> 'g dialer option" where
  "retry_outgoing w oid dl =
     (case map_of (dl_outgoings dl) oid of
        None \<Rightarrow> Some dl
      | Some out \<Rightarrow> do {
          (timeout, out) \<leftarrow> bump_timeout (dl_maxtimeout dl) out;
          dl \<leftarrow> arm_retry oid (from_secs timeout) (put_outgoing oid (out\<lparr>o_addr_cache := cache_reset (o_addr_cache out)\<rparr>) dl);
          Some (after_retry w out dl) })"

datatype attempt = Started socket_addr | Exhausted

text \<open>
  The loop of \<open>do_outgoing_connection\<close>: the next address, an attempt, and on a failure the one after it. A key
  is spent on every connection offered to the event loop.
\<close>

lemma next_addr_shrinks: "next_addr c = (Some a, c') \<Longrightarrow> length (candidates c') - cursor c' < length (candidates c) - cursor c"
proof -
  assume n: "next_addr c = (Some a, c')"
  hence "cursor c < length (candidates c)" "c' = c\<lparr>cursor := cursor c + 1\<rparr>" by (auto simp: next_addr_candidates split: if_splits)
  moreover from this have "candidates c' = candidates c" by (simp add: candidates_def)
  ultimately show ?thesis by simp
qed

function dial_loop :: "world \<Rightarrow> proxy_config option \<Rightarrow> socket_addr list \<Rightarrow> nat \<Rightarrow> socket_addr addr_cache \<Rightarrow> attempt \<times> nat \<times> socket_addr addr_cache" where
  "dial_loop w proxy proxy_addrs key c =
     (case next_addr c of
        (None, c') \<Rightarrow> (Exhausted, key, c')
      | (Some a, c') \<Rightarrow>
          (case Option.bind proxy proxy_addr of
             Some _ \<Rightarrow>
               (case proxy_addrs of
                  [] \<Rightarrow> (Exhausted, key, c')
                | pa # _ \<Rightarrow>
                    if \<not> w_dial w pa then (Exhausted, key, c')
                    else if w_register w key then (Started a, key, c')
                    else dial_loop w proxy proxy_addrs (Suc key) c')
           | None \<Rightarrow>
               if \<not> (if proxy = None then w_dial w a else w_pipe w a) then dial_loop w proxy proxy_addrs key c'
               else if w_register w key then (Started a, key, c')
               else dial_loop w proxy proxy_addrs (Suc key) c'))"
  by pat_completeness auto
termination
  by (relation "measure (\<lambda>(w, proxy, pas, key, c). length (candidates c) - cursor c)") (simp_all add: next_addr_shrinks [OF sym])

declare dial_loop.simps [simp del]

definition new_outgoing_conn :: "'g prims \<Rightarrow> nat \<Rightarrow> nat \<Rightarrow> string \<Rightarrow> socket_addr \<Rightarrow> 'g dialer \<Rightarrow> 'g dialer option" where
  "new_outgoing_conn P key oid name a dl =
     (let d = dl_daemon dl;
          c = conn_new_outgoing name (fmt_addr a) (socket_ip a, socket_port a) oid (d_now d);
          opened = (\<lambda>c. dl\<lparr>dl_daemon := d\<lparr>d_conns := d_conns d @ [(key, c)]\<rparr>, dl_next_key := Suc key\<rparr>)
      in case dl_proxy dl of
           Some (Exec cmd) \<Rightarrow>
             map_option (\<lambda>(_, c). opened c)
               (conn_send P (d_rng d) (show_request request.Id @ '' '' @ d_name d @ '' '' @ show_radix 10 PROT_MAJOR @ ''.'' @ show_radix 10 PROT_MINOR)
                 (c\<lparr>c_connecting := False\<rparr>))
         | _ \<Rightarrow> Some (opened c))"

definition do_outgoing_connection :: "'g prims \<Rightarrow> world \<Rightarrow> nat \<Rightarrow> 'g dialer \<Rightarrow> 'g dialer option" where
  "do_outgoing_connection P w oid dl =
     (case map_of (dl_outgoings dl) oid of
        None \<Rightarrow> Some dl
      | Some out \<Rightarrow>
          let (r, key, c) = dial_loop w (dl_proxy dl) (dl_proxy_addrs dl) (dl_next_key dl) (o_addr_cache out);
              dl = (put_outgoing oid (out\<lparr>o_addr_cache := c\<rparr>) dl)\<lparr>dl_next_key := key\<rparr>
          in case r of
               Started a \<Rightarrow> new_outgoing_conn P key oid (o_node_name out) a dl
             | Exhausted \<Rightarrow> retry_outgoing w oid dl)"

fun drain_dns_worker :: "(dns_tag \<times> socket_addr list) list \<Rightarrow> 'g dialer \<Rightarrow> 'g dialer" where
  "drain_dns_worker [] dl = dl"
| "drain_dns_worker ((ForOutgoing node, addrs) # rs) dl =
     drain_dns_worker rs
       (if addrs = [] then dl
        else dl\<lparr>dl_outgoings := map (\<lambda>(i, out). (i, if o_node_name out = node
                   then out\<lparr>o_addr_cache := extend_resolved addrs (o_addr_cache out)\<rparr> else out)) (dl_outgoings dl),
                dl_dns_hints := AList.update node addrs (dl_dns_hints dl)\<rparr>)"
| "drain_dns_worker ((ForProxy, addrs) # rs) dl = drain_dns_worker rs (dl\<lparr>dl_proxy_addrs := addrs\<rparr>)"

text \<open>What the graph and the hints say of a peer's addresses.\<close>

definition hints_for :: "string \<Rightarrow> (string \<times> socket_addr list) list \<Rightarrow> socket_addr list" where
  "hints_for name hints = (case map_of hints name of None \<Rightarrow> [] | Some as \<Rightarrow> as)"

definition edge_walk :: "'g daemon \<Rightarrow> nat option \<Rightarrow> socket_addr list" where
  "edge_walk d nid =
     (case nid of None \<Rightarrow> []
      | Some n \<Rightarrow>
          List.map_filter (\<lambda>eid. do {
            e \<leftarrow> get_edge (d_graph d) eid;
            rev \<leftarrow> ge_reverse e;
            (addr, port, _, _) \<leftarrow> d_edge_addrs d rev;
            (ip, p) \<leftarrow> parse_addr_port addr port;
            Some (socket_new ip p) }) (node_edges (d_graph d) n))"

definition known_addresses :: "string \<Rightarrow> nat option \<Rightarrow> 'g dialer \<Rightarrow> socket_addr list" where
  "known_addresses name nid dl =
     filter (\<lambda>sa. \<not> is_unwanted_dial_addr sa) (edge_walk (dl_daemon dl) nid @ hints_for name (dl_dht_hints dl)) @
     hints_for name (dl_dns_hints dl)"

definition peer_conn :: "string \<Rightarrow> 'g daemon \<Rightarrow> nat option" where
  "peer_conn name d = do { nid \<leftarrow> map_of (d_node_ids d) name; ns \<leftarrow> d_nodes d nid; ns_conn ns }"

definition setup_outgoing_connection :: "'g prims \<Rightarrow> world \<Rightarrow> nat \<Rightarrow> 'g dialer \<Rightarrow> 'g dialer option" where
  "setup_outgoing_connection P w oid dl =
     (let dl = drain_dns_worker (w_resolved w) dl
      in case map_of (dl_outgoings dl) oid of
           None \<Rightarrow> Some dl
         | Some out \<Rightarrow>
             let name = o_node_name out; nid = map_of (d_node_ids (dl_daemon dl)) name
             in if peer_conn name (dl_daemon dl) \<noteq> None then Some dl
                else
                  let c = add_known_addresses (known_addresses name nid dl) (o_addr_cache out);
                      dl = put_outgoing oid (out\<lparr>o_addr_cache := c\<rparr>) dl;
                      dl = (if hostnames c = [] then dl else ask (ResolveHosts (ForOutgoing name) (hostnames c)) dl)
                  in do_outgoing_connection P w oid dl)"

section \<open>The life of a slot\<close>

definition confirm_outgoing_address :: "nat \<Rightarrow> socket_addr option \<Rightarrow> 'g dialer \<Rightarrow> 'g dialer" where
  "confirm_outgoing_address oid addr dl =
     (case map_of (dl_outgoings dl) oid of
        None \<Rightarrow> dl
      | Some out \<Rightarrow>
          let c = o_addr_cache out;
              c = (case addr of None \<Rightarrow> c | Some a \<Rightarrow> add_recent a c)
          in put_outgoing oid (out\<lparr>o_timeout := 0, o_addr_cache := cache_reset c\<rparr>) dl)"

text \<open>The tail of \<open>terminate\<close>.\<close>

definition redial :: "'g prims \<Rightarrow> world \<Rightarrow> nat \<Rightarrow> bool \<Rightarrow> 'g dialer \<Rightarrow> 'g dialer option" where
  "redial P w oid was_active dl =
     (case map_of (dl_outgoings dl) oid of
        None \<Rightarrow> Some dl
      | Some out \<Rightarrow>
          do_outgoing_connection P w oid (if was_active then put_outgoing oid (out\<lparr>o_timeout := 0\<rparr>) dl else dl))"

definition terminate_conn :: "'g prims \<Rightarrow> world \<Rightarrow> nat \<Rightarrow> 'g dialer \<Rightarrow> 'g dialer option" where
  "terminate_conn P w cid dl = do {
     let c = map_of (d_conns (dl_daemon dl)) cid;
     d \<leftarrow> terminate P cid (dl_daemon dl);
     let dl = dl\<lparr>dl_daemon := d\<rparr>;
     (case c of
        None \<Rightarrow> Some dl
      | Some c \<Rightarrow> (case c_outgoing c of None \<Rightarrow> Some dl | Some oid \<Rightarrow> redial P w oid (c_active c) dl)) }"

definition drop_slot :: "nat \<Rightarrow> 'g dialer \<Rightarrow> 'g dialer" where
  "drop_slot oid dl =
     (let dl = (case map_of (dl_outgoing_timers dl) oid of
                  None \<Rightarrow> dl
                | Some tid \<Rightarrow> dl\<lparr>dl_outgoing_timers := AList.delete oid (dl_outgoing_timers dl), dl_timers := timers_del tid (dl_timers dl)\<rparr>)
      in dl\<lparr>dl_outgoings := AList.delete oid (dl_outgoings dl)\<rparr>)"

definition add_slot :: "'g prims \<Rightarrow> world \<Rightarrow> string \<Rightarrow> out_origin \<Rightarrow> 'g dialer \<Rightarrow> 'g dialer option" where
  "add_slot P w name og dl = do {
     let oid = dl_next_key dl;
     let out = \<lparr>o_node_name = name, o_origin = og, o_timeout = 0,
                o_addr_cache = cache_open (w_cache_path w name) (w_cache_file w name) (w_config_addrs w name)\<rparr>;
     (tid, t) \<leftarrow> timers_add (RetryOutgoing oid) (dl_timers dl);
     setup_outgoing_connection P w oid
       (dl\<lparr>dl_outgoings := dl_outgoings dl @ [(oid, out)], dl_outgoing_timers := AList.update oid tid (dl_outgoing_timers dl),
           dl_timers := t, dl_next_key := Suc oid\<rparr>) }"

definition connect_to :: "'g prims \<Rightarrow> world \<Rightarrow> string \<Rightarrow> 'g dialer \<Rightarrow> 'g dialer option" where
  "connect_to P w peer dl = do {
     (_, d) \<leftarrow> lookup_or_add_node P peer (dl_daemon dl);
     add_slot P w peer ConfigConnectTo (dl\<lparr>dl_daemon := d\<rparr>) }"

section \<open>Autoconnect\<close>

definition DURATION_MAX :: duration where
  "DURATION_MAX = 18446744073709551615 * 1000000000 + 999999999"

definition os_next_u32 :: "'g prims \<Rightarrow> 'g \<Rightarrow> u32 \<times> 'g" where
  "os_next_u32 P g = (let (bs, g) = p_fill P 4 g in (of_nat (foldr (\<lambda>b n. unat b + 256 * n) (take 4 bs) 0), g))"

definition node_snap :: "world \<Rightarrow> 'g dialer \<Rightarrow> string \<Rightarrow> node_snapshot option" where
  "node_snap w dl name =
     (let d = dl_daemon dl
      in do {
        nid \<leftarrow> map_of (d_node_ids d) name;
        gn \<leftarrow> get_node (d_graph d) nid;
        Some \<lparr>sn_name = name, sn_reachable = gn_reachable gn, sn_has_address = name \<in> set (dl_has_address dl),
              sn_has_dht_key = (dl_dht_discovery dl \<and> name \<in> set (dl_has_dht_key dl)),
              sn_directly_connected = (Option.bind (Option.bind (d_nodes d nid) ns_conn) (map_of (d_conns d)) \<noteq> None),
              sn_edge_count = length (node_edges (d_graph d) nid),
              sn_relay_rate_bps = (if d_tunnels d nid = None then 0 else fst (w_rates w nid)),
              sn_tx_rate_bps = (if d_tunnels d nid = None then 0 else snd (w_rates w nid)),
              sn_nexthop = map_option gn_name (Option.bind (route_of d nid) (\<lambda>r. get_node (d_graph d) (r_nexthop r))),
              sn_backoff_until = map_of (dl_shortcut_backoff dl) name\<rparr> })"

definition node_snaps :: "world \<Rightarrow> 'g dialer \<Rightarrow> node_snapshot list" where
  "node_snaps w dl = List.map_filter (node_snap w dl) (sort (map fst (d_node_ids (dl_daemon dl))))"

definition active_outgoings :: "'g dialer \<Rightarrow> outgoing_snapshot list" where
  "active_outgoings dl =
     map (\<lambda>(_, c). \<lparr>os_name = c_name c,
            os_origin = (case Option.bind (c_outgoing c) (map_of (dl_outgoings dl)) of None \<Rightarrow> AutoBackbone | Some out \<Rightarrow> o_origin out),
            os_age = (case c_activated_at c of None \<Rightarrow> DURATION_MAX | Some t \<Rightarrow> duration_since (d_now (dl_daemon dl)) t)\<rparr>)
       (filter (\<lambda>(_, c). c_active c \<and> c_outgoing c \<noteq> None) (d_conns (dl_daemon dl)))"

definition served :: "'g dialer \<Rightarrow> nat \<Rightarrow> bool" where
  "served dl oid \<longleftrightarrow> list_ex (\<lambda>(_, c). c_outgoing c = Some oid) (d_conns (dl_daemon dl))"

definition pending_outgoings :: "'g dialer \<Rightarrow> outgoing_snapshot list" where
  "pending_outgoings dl =
     map (\<lambda>(_, out). \<lparr>os_name = o_node_name out, os_origin = o_origin out, os_age = DURATION_MAX\<rparr>)
       (filter (\<lambda>(oid, _). \<not> served dl oid) (dl_outgoings dl))"

definition decide_autoconnect :: "'g prims \<Rightarrow> world \<Rightarrow> 'g dialer \<Rightarrow> (auto_action \<times> 'g dialer) option" where
  "decide_autoconnect P w dl =
     (let d = dl_daemon dl;
          dl = dl\<lparr>dl_shortcut_backoff := filter (\<lambda>(_, t). d_now d < t) (dl_shortcut_backoff dl)\<rparr>
      in do {
        (act, g) \<leftarrow> decide (os_next_u32 P) (d_name d) (node_snaps w dl) (active_outgoings dl) (pending_outgoings dl) knobs_default (d_now d) (d_rng d);
        Some (act, dl\<lparr>dl_daemon := d\<lparr>d_rng := g\<rparr>\<rparr>) })"

text \<open>\<open>timers.now() + SHORTCUT_BACKOFF\<close> panics when it does not fit.\<close>

definition stamp_backoff :: "string \<Rightarrow> 'g dialer \<Rightarrow> 'g dialer option" where
  "stamp_backoff name dl =
     map_option (\<lambda>t. dl\<lparr>dl_shortcut_backoff := AList.update name t (dl_shortcut_backoff dl)\<rparr>)
       (checked_add (d_now (dl_daemon dl)) SHORTCUT_BACKOFF)"

definition slot_named :: "string \<Rightarrow> 'g dialer \<Rightarrow> nat option" where
  "slot_named name dl = map_option fst (find (\<lambda>(_, out). o_node_name out = name) (dl_outgoings dl))"

definition auto_connect :: "'g prims \<Rightarrow> world \<Rightarrow> string \<Rightarrow> out_origin \<Rightarrow> 'g dialer \<Rightarrow> 'g dialer option" where
  "auto_connect P w name og dl =
     (if slot_named name dl \<noteq> None then Some dl
      else do {
        (_, d) \<leftarrow> lookup_or_add_node P name (dl_daemon dl);
        let dl = dl\<lparr>dl_daemon := d\<rparr>;
        add_slot P w name og
          (if w_config_addrs w name = [] \<and> map_of (dl_dht_hints dl) name = None \<and> dl_discovery dl \<and> w_has_key w name
           then ask (ResolveKey name) dl else dl) })"

definition close_named :: "'g prims \<Rightarrow> world \<Rightarrow> string \<Rightarrow> 'g dialer \<Rightarrow> 'g dialer option" where
  "close_named P w name dl =
     (case find (\<lambda>(_, c). c_active c \<and> c_outgoing c \<noteq> None \<and> c_name c = name) (d_conns (dl_daemon dl)) of
        None \<Rightarrow> Some dl
      | Some (cid, c) \<Rightarrow>
          let dl = dl\<lparr>dl_daemon := set_conn cid (c\<lparr>c_outgoing := None\<rparr>) (dl_daemon dl)\<rparr>;
              dl = (case c_outgoing c of None \<Rightarrow> dl | Some oid \<Rightarrow> drop_slot oid dl)
          in terminate_conn P w cid dl)"

definition auto_disconnect :: "'g prims \<Rightarrow> world \<Rightarrow> string \<Rightarrow> out_origin \<Rightarrow> 'g dialer \<Rightarrow> 'g dialer option" where
  "auto_disconnect P w name og dl = do {
     dl \<leftarrow> (if og = AutoShortcut then stamp_backoff name dl else Some dl);
     close_named P w name dl }"

definition auto_cancel :: "string \<Rightarrow> 'g dialer \<Rightarrow> 'g dialer option" where
  "auto_cancel name dl = do {
     dl \<leftarrow> (if list_ex (\<lambda>(_, out). o_node_name out = name \<and> o_origin out = AutoShortcut) (dl_outgoings dl) then stamp_backoff name dl else Some dl);
     Some (case slot_named name dl of None \<Rightarrow> dl | Some oid \<Rightarrow> drop_slot oid dl) }"

fun execute_auto_action :: "'g prims \<Rightarrow> world \<Rightarrow> auto_action \<Rightarrow> 'g dialer \<Rightarrow> 'g dialer option" where
  "execute_auto_action P w Noop dl = Some dl"
| "execute_auto_action P w (Connect name og) dl = auto_connect P w name og dl"
| "execute_auto_action P w (Disconnect name og) dl = auto_disconnect P w name og dl"
| "execute_auto_action P w (CancelPending name) dl = auto_cancel name dl"

section \<open>Ticks, retries and reloads\<close>

definition EDGE_STORM_THRESHOLD :: u32 where "EDGE_STORM_THRESHOLD = 100"
definition SLEEPTIME_MAX :: nat where "SLEEPTIME_MAX = 3600"
definition SLEEPTIME_MIN :: nat where "SLEEPTIME_MIN = 10"
definition PERIODIC_TICK :: duration where "PERIODIC_TICK = from_secs 5"
definition PING_SWEEP :: duration where "PING_SWEEP = from_secs 1"

fun each_slot :: "(outgoing \<Rightarrow> outgoing) \<Rightarrow> duration \<Rightarrow> (nat \<times> outgoing) list \<Rightarrow> 'g dialer \<Rightarrow> 'g dialer option" where
  "each_slot f after [] dl = Some dl"
| "each_slot f after ((oid, out) # outs) dl = do {
     dl \<leftarrow> arm_retry oid after (put_outgoing oid (f out) dl);
     each_slot f after outs dl }"

definition storm :: "'g daemon \<Rightarrow> bool" where
  "storm d \<longleftrightarrow> EDGE_STORM_THRESHOLD < d_contradicting_del_edge d \<and> EDGE_STORM_THRESHOLD < d_contradicting_add_edge d"

definition storm_backoff :: "'g dialer \<Rightarrow> (duration \<times> 'g dialer) option" where
  "storm_backoff dl =
     (if storm (dl_daemon dl) then do {
        let st = dl_sleeptime dl;
        dl \<leftarrow> each_slot (\<lambda>out. out\<lparr>o_timeout := max (o_timeout out) st\<rparr>) (from_secs st) (dl_outgoings dl) dl;
        Some (from_secs st, dl\<lparr>dl_sleeptime := min (min (st * 2) 4294967295) SLEEPTIME_MAX\<rparr>) }
      else Some (0, dl\<lparr>dl_sleeptime := max (dl_sleeptime dl div 2) SLEEPTIME_MIN\<rparr>))"

definition autoconnect_tick :: "'g prims \<Rightarrow> world \<Rightarrow> 'g dialer \<Rightarrow> 'g dialer option" where
  "autoconnect_tick P w dl =
     (if s_autoconnect (d_settings (dl_daemon dl)) \<and> 1 < length (d_node_ids (dl_daemon dl))
      then do { (act, dl) \<leftarrow> decide_autoconnect P w dl; execute_auto_action P w act dl }
      else Some dl)"

definition take_dht_results :: "(string \<times> socket_addr list) list \<Rightarrow> 'g dialer \<Rightarrow> 'g dialer" where
  "take_dht_results dht dl =
     (if dl_dht_discovery dl \<and> dl_discovery dl
      then dl\<lparr>dl_dht_hints := fold (\<lambda>(name, addrs) h. if addrs = [] then h else AList.update name addrs h) dht (dl_dht_hints dl)\<rparr>
      else dl)"

definition clear_storm :: "'g dialer \<Rightarrow> 'g dialer" where
  "clear_storm dl = dl\<lparr>dl_daemon := (dl_daemon dl)\<lparr>d_contradicting_add_edge := 0, d_contradicting_del_edge := 0\<rparr>\<rparr>"

definition on_periodic_tick :: "'g prims \<Rightarrow> world \<Rightarrow> (string \<times> socket_addr list) list \<Rightarrow> 'g dialer \<Rightarrow> (duration \<times> 'g dialer) option" where
  "on_periodic_tick P w dht dl = do {
     (slept, dl) \<leftarrow> storm_backoff dl;
     dl \<leftarrow> autoconnect_tick P w (drain_dns_worker (w_resolved w) (clear_storm dl));
     let dl = take_dht_results dht dl;
     t \<leftarrow> timers_set (dl_periodictimer dl) (max PERIODIC_TICK slept) (dl_timers dl);
     Some (slept, dl\<lparr>dl_timers := t\<rparr>) }"

definition mark_stale :: "'g dialer \<Rightarrow> 'g dialer" where
  "mark_stale dl =
     (let d = dl_daemon dl; back = from_secs (dl_pingtimeout dl) + PING_SWEEP
      in if d_now d < back then dl
         else dl\<lparr>dl_daemon := d\<lparr>d_conns := map (\<lambda>(i, c). (i, if c_outgoing c \<noteq> None \<and> \<not> c_active c
                   then c\<lparr>c_last_ping_time := d_now d - back\<rparr> else c)) (d_conns d)\<rparr>\<rparr>)"

definition on_retry :: "'g dialer \<Rightarrow> 'g dialer option" where
  "on_retry dl = map_option mark_stale (each_slot (\<lambda>out. out\<lparr>o_timeout := 0\<rparr>) 0 (dl_outgoings dl) dl)"

definition diff_connect_to :: "string list \<Rightarrow> string list \<Rightarrow> string list \<times> string list" where
  "diff_connect_to current from_config =
     (sorted_list_of_set (set from_config - set current), sorted_list_of_set (set current - set from_config))"

fun terminate_all :: "'g prims \<Rightarrow> world \<Rightarrow> nat list \<Rightarrow> 'g dialer \<Rightarrow> 'g dialer option" where
  "terminate_all P w [] dl = Some dl"
| "terminate_all P w (cid # cids) dl = do {
     let d = dl_daemon dl;
     dl \<leftarrow> terminate_conn P w cid (dl\<lparr>dl_daemon := (case map_of (d_conns d) cid of None \<Rightarrow> d | Some c \<Rightarrow> set_conn cid (c\<lparr>c_outgoing := None\<rparr>) d)\<rparr>);
     terminate_all P w cids dl }"

definition remove_connect_to :: "'g prims \<Rightarrow> world \<Rightarrow> string \<Rightarrow> 'g dialer \<Rightarrow> 'g dialer option" where
  "remove_connect_to P w name dl =
     (case slot_named name dl of
        None \<Rightarrow> Some dl
      | Some oid \<Rightarrow> do {
          dl \<leftarrow> terminate_all P w (map fst (filter (\<lambda>(_, c). c_outgoing c = Some oid) (d_conns (dl_daemon dl)))) dl;
          Some (drop_slot oid dl) })"

fun each_name :: "(string \<Rightarrow> 'g dialer \<Rightarrow> 'g dialer option) \<Rightarrow> string list \<Rightarrow> 'g dialer \<Rightarrow> 'g dialer option" where
  "each_name f [] dl = Some dl"
| "each_name f (n # ns) dl = Option.bind (f n dl) (each_name f ns)"

definition reload_connect_to :: "'g prims \<Rightarrow> world \<Rightarrow> string list \<Rightarrow> 'g dialer \<Rightarrow> 'g dialer option" where
  "reload_connect_to P w new_ct dl = do {
     let (to_add, to_remove) = diff_connect_to (map (o_node_name \<circ> snd) (dl_outgoings dl)) new_ct;
     dl \<leftarrow> each_name (remove_connect_to P w) to_remove dl;
     each_name (connect_to P w) to_add dl }"

end
