(* ===== verification/Dialing.thy ===== *)
theory Dialing
  imports Outgoing Daemon_Run
begin

text \<open>
  What holds of the outgoing slots of \<open>Outgoing\<close> however they are driven: every slot has its own retry timer,
  every dial of an unconnected peer ends in a connection or an armed timer, and a way a slot is
  left with neither.
\<close>

section \<open>Slots and their timers\<close>

definition wheel :: "'w timers \<Rightarrow> 'w wheel" where
  "wheel t = fst (timers_abs t)"

lemma abs_wheel: "timers_abs t = (wheel t, seq t, now t)"
  by (simp add: wheel_def timers_abs_def)

lemma wheel_add:
  assumes "timers_inv t"
  obtains i t' where "timers_add w t = Some (i, t')" "timers_inv t'" "wheel t i = None" "wheel t' = (wheel t)(i \<mapsto> (w, None))" "seq t' = seq t" "now t' = now t"
proof -
  obtain i t' where r: "timers_add w t = Some (i, t')" "timers_inv t'" "timer_spec (TAdd w) (timers_abs t) (RId i) (timers_abs t')"
    using timers_add_refines [OF assms] by metis
  from r(3) show thesis unfolding abs_wheel by cases (use that r(1,2) in auto)
qed

lemma wheel_set:
  assumes "timers_inv t" "wheel t i = Some (w, a)" "seq t + 1 < 2 ^ 64"
  obtains t' at' where "timers_set i after t = Some t'" "timers_inv t'" "deadline (now t) after = Some at'"
    "wheel t' = (wheel t)(i \<mapsto> (w, Some (at', seq t + 1)))" "seq t' = seq t + 1" "now t' = now t"
proof -
  have "slot (slots t) i \<noteq> None" using assms(2) by (auto simp: wheel_def timers_abs_def)
  then obtain t' where r: "timers_set i after t = Some t'" "timers_inv t'" "timer_spec (TSet i after) (timers_abs t) RUnit (timers_abs t')"
    using timers_set_refines [OF assms(1) _ assms(3), of i after] by metis
  from r(3) show thesis unfolding abs_wheel by cases (use that r(1,2) assms(2) in auto)
qed

lemma wheel_del:
  assumes "timers_inv t"
  shows "timers_inv (timers_del i t)" "wheel (timers_del i t) = (wheel t)(i := None)" "seq (timers_del i t) = seq t" "now (timers_del i t) = now t"
proof -
  have r: "timers_inv (timers_del i t)" "timer_spec (TDel i) (timers_abs t) RUnit (timers_abs (timers_del i t))"
    using timers_del_refines [OF assms] by auto
  show "timers_inv (timers_del i t)" by (rule r(1))
  from r(2) have "wheel (timers_del i t) = (wheel t)(i := None) \<and> seq (timers_del i t) = seq t \<and> now (timers_del i t) = now t"
    unfolding abs_wheel by cases auto
  thus "wheel (timers_del i t) = (wheel t)(i := None)" "seq (timers_del i t) = seq t" "now (timers_del i t) = now t" by auto
qed

text \<open>
  Each slot has one timer, which carries its key, and no other timer carries the key of a slot. The
  timer of the periodic tick is there too.
\<close>

definition paired :: "nat set \<Rightarrow> (nat \<times> nat) list \<Rightarrow> timer_what wheel \<Rightarrow> bool" where
  "paired keys ts m \<longleftrightarrow> fst ` set ts = keys \<and> (\<forall>oid tid. map_of ts oid = Some tid \<longleftrightarrow> (\<exists>a. m tid = Some (RetryOutgoing oid, a)))"

definition dialer_ok :: "'g dialer \<Rightarrow> bool" where
  "dialer_ok dl \<longleftrightarrow> timers_inv (dl_timers dl) \<and> distinct (map fst (dl_outgoings dl)) \<and> (\<forall>oid\<in>fst ` set (dl_outgoings dl). oid < dl_next_key dl) \<and>
     paired (fst ` set (dl_outgoings dl)) (dl_outgoing_timers dl) (wheel (dl_timers dl)) \<and>
     (\<exists>a. wheel (dl_timers dl) (dl_periodictimer dl) = Some (Periodic, a))"

definition slot_armed :: "nat \<Rightarrow> 'g dialer \<Rightarrow> bool" where
  "slot_armed oid dl \<longleftrightarrow> (\<exists>tid k. map_of (dl_outgoing_timers dl) oid = Some tid \<and> wheel (dl_timers dl) tid = Some (RetryOutgoing oid, Some k))"

definition armed_after :: "nat \<Rightarrow> duration \<Rightarrow> 'g dialer \<Rightarrow> bool" where
  "armed_after oid after dl \<longleftrightarrow> (\<exists>tid t q. map_of (dl_outgoing_timers dl) oid = Some tid \<and> deadline (now (dl_timers dl)) after = Some t \<and>
     wheel (dl_timers dl) tid = Some (RetryOutgoing oid, Some (t, q)))"

lemma armed_after_armed: "armed_after oid after dl \<Longrightarrow> slot_armed oid dl"
  by (auto simp: armed_after_def slot_armed_def)

lemma pairedD: "paired keys ts m \<Longrightarrow> map_of ts oid = Some tid \<Longrightarrow> \<exists>a. m tid = Some (RetryOutgoing oid, a)"
  unfolding paired_def by blast

lemma paired_key: "paired keys ts m \<Longrightarrow> oid \<in> keys \<Longrightarrow> \<exists>tid a. map_of ts oid = Some tid \<and> m tid = Some (RetryOutgoing oid, a)"
  unfolding paired_def by (metis domIff dom_map_of_conv_image_fst option.exhaust)

lemma paired_rearm: "paired keys ts m \<Longrightarrow> m tid = Some (w, a) \<Longrightarrow> paired keys ts (m(tid \<mapsto> (w, b)))"
  unfolding paired_def by auto

lemma paired_add:
  assumes "paired keys ts m" "m tid = None" "oid \<notin> keys"
  shows "paired (insert oid keys) (AList.update oid tid ts) (m(tid \<mapsto> (RetryOutgoing oid, b)))"
proof -
  have none: "map_of ts oid = None" using assms(1,3) by (auto simp: paired_def map_of_eq_None_iff)
  have "fst ` set (AList.update oid tid ts) = insert oid keys" using assms(1) by (auto simp: paired_def dom_update dom_map_of_conv_image_fst [symmetric] update_conv)
  moreover have "map_of (AList.update oid tid ts) i = Some j \<longleftrightarrow> (\<exists>a. (m(tid \<mapsto> (RetryOutgoing oid, b))) j = Some (RetryOutgoing i, a))" for i j
  proof -
    have old: "map_of ts i = Some j \<longleftrightarrow> (\<exists>a. m j = Some (RetryOutgoing i, a))" using assms(1) by (simp add: paired_def)
    show ?thesis using old none assms(2) by (cases "i = oid"; cases "j = tid") (auto simp: update_conv)
  qed
  ultimately show ?thesis by (simp add: paired_def)
qed

lemma paired_del:
  assumes "paired keys ts m" "map_of ts oid = Some tid"
  shows "paired (keys - {oid}) (AList.delete oid ts) (m(tid := None))"
proof -
  have "fst ` set (AList.delete oid ts) = set (map fst (AList.delete oid ts))" by simp
  also have "\<dots> = keys - {oid}" unfolding AList.delete_keys using assms(1) by (simp add: paired_def)
  finally have "fst ` set (AList.delete oid ts) = keys - {oid}" .
  moreover have "map_of (AList.delete oid ts) i = Some j \<longleftrightarrow> (\<exists>a. (m(tid := None)) j = Some (RetryOutgoing i, a))" for i j
  proof -
    have old: "map_of ts i = Some j \<longleftrightarrow> (\<exists>a. m j = Some (RetryOutgoing i, a))" using assms(1) by (simp add: paired_def)
    have "\<exists>a. m tid = Some (RetryOutgoing oid, a)" by (rule pairedD [OF assms])
    thus ?thesis using old assms(2) by (cases "i = oid"; cases "j = tid") (auto simp: delete_conv' restrict_map_def)
  qed
  ultimately show ?thesis by (simp add: paired_def)
qed

text \<open>
  What an operation does to the wheel and the slots: it keeps the pairing and arms at most \<open>n\<close> times.
\<close>

definition keeps :: "nat \<Rightarrow> 'g dialer \<Rightarrow> 'g dialer \<Rightarrow> bool" where
  "keeps n dl dl' \<longleftrightarrow> dialer_ok dl' \<and> seq (dl_timers dl') \<le> seq (dl_timers dl) + n"

lemma keeps_trans: "keeps m a b \<Longrightarrow> keeps n b c \<Longrightarrow> keeps (m + n) a c"
  by (simp add: keeps_def)

lemma keeps_mono: "keeps m a b \<Longrightarrow> m \<le> n \<Longrightarrow> keeps n a b"
  by (simp add: keeps_def)

definition same_slots :: "'g dialer \<Rightarrow> 'g dialer \<Rightarrow> bool" where
  "same_slots dl dl' \<longleftrightarrow> map fst (dl_outgoings dl') = map fst (dl_outgoings dl) \<and> dl_outgoing_timers dl' = dl_outgoing_timers dl \<and>
     dl_timers dl' = dl_timers dl \<and> dl_periodictimer dl' = dl_periodictimer dl \<and> dl_next_key dl \<le> dl_next_key dl'"

lemma same_slots_keeps: "dialer_ok dl \<Longrightarrow> same_slots dl dl' \<Longrightarrow> keeps 0 dl dl'"
proof -
  assume dl: "dialer_ok dl" "same_slots dl dl'"
  have "fst ` set (dl_outgoings dl') = fst ` set (dl_outgoings dl)" using dl(2) by (metis same_slots_def list.set_map)
  thus ?thesis using dl by (auto simp: keeps_def dialer_ok_def same_slots_def intro: less_le_trans)
qed

lemma same_slots_trans [trans]: "same_slots a b \<Longrightarrow> same_slots b c \<Longrightarrow> same_slots a c"
  by (auto simp: same_slots_def)

lemma update_keys: "map_of xs k \<noteq> None \<Longrightarrow> map fst (AList.update k v xs) = map fst xs"
  by (simp add: AList.update_keys map_of_eq_None_iff)

lemma same_slots_simps [simp]:
  "same_slots dl dl" "same_slots dl (ask r dl)" "same_slots dl (request_proxy_resolve dl)"
  "map_of (dl_outgoings dl) oid \<noteq> None \<Longrightarrow> same_slots dl (put_outgoing oid out dl)"
  by (auto simp: same_slots_def ask_def request_proxy_resolve_def put_outgoing_def update_keys split: option.splits)

lemma same_slots_fields [simp]:
  "same_slots dl (dl\<lparr>dl_daemon := d\<rparr>)" "same_slots dl (dl\<lparr>dl_dns_hints := h\<rparr>)" "same_slots dl (dl\<lparr>dl_dht_hints := h\<rparr>)"
  "same_slots dl (dl\<lparr>dl_shortcut_backoff := b\<rparr>)" "same_slots dl (dl\<lparr>dl_sleeptime := n\<rparr>)" "dl_next_key dl \<le> k \<Longrightarrow> same_slots dl (dl\<lparr>dl_next_key := k\<rparr>)"
  by (auto simp: same_slots_def)

lemma drain_same: "same_slots dl (drain_dns_worker rs dl)"
proof (induction rs dl rule: drain_dns_worker.induct)
  case (2 node addrs rs dl)
  let ?dl = "dl\<lparr>dl_outgoings := map (\<lambda>(i, out). (i, if o_node_name out = node
      then out\<lparr>o_addr_cache := extend_resolved addrs (o_addr_cache out)\<rparr> else out)) (dl_outgoings dl),
    dl_dns_hints := AList.update node addrs (dl_dns_hints dl)\<rparr>"
  have "same_slots dl ?dl" by (auto simp: same_slots_def)
  thus ?case using 2 same_slots_trans by (cases "addrs = []") auto
next
  case (3 addrs rs dl)
  have "same_slots dl (dl\<lparr>dl_proxy_addrs := addrs\<rparr>)" by (simp add: same_slots_def)
  thus ?case using 3 same_slots_trans by auto
qed simp

lemma drain_slot: "map_of (dl_outgoings (drain_dns_worker rs dl)) oid = None \<longleftrightarrow> map_of (dl_outgoings dl) oid = None"
  using drain_same [of dl rs] unfolding same_slots_def map_of_eq_None_iff by (metis list.set_map)

lemma arm_retry_keeps:
  assumes "dialer_ok dl" "seq (dl_timers dl) + 1 < 2 ^ 64" "oid \<in> fst ` set (dl_outgoings dl)"
  obtains t' where "arm_retry oid after dl = Some (dl\<lparr>dl_timers := t'\<rparr>)" "keeps 1 dl (dl\<lparr>dl_timers := t'\<rparr>)" "armed_after oid after (dl\<lparr>dl_timers := t'\<rparr>)"
    "\<forall>i. slot_armed i dl \<longrightarrow> slot_armed i (dl\<lparr>dl_timers := t'\<rparr>)"
proof -
  let ?t = "dl_timers dl"
  have ok: "timers_inv ?t" "paired (fst ` set (dl_outgoings dl)) (dl_outgoing_timers dl) (wheel ?t)" using assms(1) by (auto simp: dialer_ok_def)
  obtain tid a where tid: "map_of (dl_outgoing_timers dl) oid = Some tid" "wheel ?t tid = Some (RetryOutgoing oid, a)"
    using paired_key [OF ok(2) assms(3)] by auto
  obtain t' at' where t': "timers_set tid after ?t = Some t'" "timers_inv t'" "deadline (now ?t) after = Some at'"
    "wheel t' = (wheel ?t)(tid \<mapsto> (RetryOutgoing oid, Some (at', seq ?t + 1)))" "seq t' = seq ?t + 1" "now t' = now ?t"
    by (rule wheel_set [OF ok(1) tid(2) assms(2)])
  let ?dl = "dl\<lparr>dl_timers := t'\<rparr>"
  have run: "arm_retry oid after dl = Some ?dl" using tid(1) t'(1) by (simp add: arm_retry_def)
  have "paired (fst ` set (dl_outgoings dl)) (dl_outgoing_timers dl) (wheel t')" unfolding t'(4) by (rule paired_rearm [OF ok(2) tid(2)])
  moreover have "\<exists>a. wheel t' (dl_periodictimer dl) = Some (Periodic, a)"
    using assms(1) tid(2) unfolding t'(4) dialer_ok_def by auto
  ultimately have "keeps 1 dl ?dl" using assms(1) t'(2,5) by (simp add: keeps_def dialer_ok_def)
  moreover have "armed_after oid after ?dl" using tid(1) t'(3,4,6) by (simp add: armed_after_def)
  moreover have "\<forall>i. slot_armed i dl \<longrightarrow> slot_armed i ?dl" using tid(2) by (auto simp: slot_armed_def t'(4))
  ultimately show thesis using that [OF run] by simp
qed

lemma same_slots_armed: "same_slots dl dl' \<Longrightarrow> armed_after oid after dl' = armed_after oid after dl"
  by (simp add: armed_after_def same_slots_def)

lemma same_slots_ok: "dialer_ok dl \<Longrightarrow> same_slots dl dl' \<Longrightarrow> dialer_ok dl'"
  using same_slots_keeps by (auto simp: keeps_def)

lemma keeps_same: "keeps n a b \<Longrightarrow> same_slots b c \<Longrightarrow> keeps n a c"
  using same_slots_keeps [of b c] keeps_trans [of n a b 0 c] by (simp add: keeps_def)

lemma same_keeps: "same_slots a b \<Longrightarrow> keeps n b c \<Longrightarrow> keeps n a c"
  by (simp add: keeps_def same_slots_def)

lemma after_retry_same: "same_slots dl (after_retry w out dl)" "dl_daemon (after_retry w out dl) = dl_daemon dl"
  by (auto simp: after_retry_def Let_def same_slots_def ask_def request_proxy_resolve_def split: option.splits)

lemma put_outgoing_key: "oid \<in> fst ` set (dl_outgoings (put_outgoing oid out dl))"
  by (simp add: put_outgoing_def dom_map_of_conv_image_fst [symmetric] domIff update_conv)

lemma retry_runs:
  assumes "dialer_ok dl" "seq (dl_timers dl) + 1 < 2 ^ 64" "map_of (dl_outgoings dl) oid = Some out" "o_timeout out + 5 \<le> 4294967295"
  obtains dl' where "retry_outgoing w oid dl = Some dl'" "keeps 1 dl dl'"
    "armed_after oid (from_secs (min (o_timeout out + 5) (dl_maxtimeout dl))) dl'" "dl_daemon dl' = dl_daemon dl"
proof -
  define t where "t = min (o_timeout out + 5) (dl_maxtimeout dl)"
  define dl1 where "dl1 = put_outgoing oid (out\<lparr>o_timeout := t, o_addr_cache := cache_reset (o_addr_cache out)\<rparr>) dl"
  have b: "bump_timeout (dl_maxtimeout dl) out = Some (t, out\<lparr>o_timeout := t\<rparr>)" using assms(4) by (simp add: bump_timeout_def t_def Let_def)
  have s1: "same_slots dl dl1" using assms(3) by (simp add: dl1_def)
  have ok1: "dialer_ok dl1" "seq (dl_timers dl1) + 1 < 2 ^ 64" using same_slots_ok [OF assms(1) s1] s1 assms(2) by (simp_all add: same_slots_def)
  have key: "oid \<in> fst ` set (dl_outgoings dl1)" unfolding dl1_def by (rule put_outgoing_key)
  obtain t' where a: "arm_retry oid (from_secs t) dl1 = Some (dl1\<lparr>dl_timers := t'\<rparr>)" "keeps 1 dl1 (dl1\<lparr>dl_timers := t'\<rparr>)"
      "armed_after oid (from_secs t) (dl1\<lparr>dl_timers := t'\<rparr>)"
    by (rule arm_retry_keeps [OF ok1 key])
  let ?dl = "after_retry w (out\<lparr>o_timeout := t\<rparr>) (dl1\<lparr>dl_timers := t'\<rparr>)"
  have "retry_outgoing w oid dl = Some ?dl" unfolding retry_outgoing_def using assms(3) b a(1) by (simp add: dl1_def)
  moreover have "keeps 1 dl ?dl" by (rule keeps_same [OF same_keeps [OF s1 a(2)] after_retry_same(1)])
  moreover have "armed_after oid (from_secs t) ?dl" using a(3) same_slots_armed [OF after_retry_same(1)] by blast
  moreover have "dl_daemon ?dl = dl_daemon dl" by (simp add: after_retry_same(2) dl1_def put_outgoing_def)
  ultimately show thesis using that unfolding t_def by blast
qed

lemma dial_loop_key: "dial_loop w proxy pas key c = (r, key', c') \<Longrightarrow> key \<le> key'"
proof (induction w proxy pas key c arbitrary: r key' c' rule: dial_loop.induct)
  case (1 w proxy pas key c)
  show ?case using 1
    by (auto simp: dial_loop.simps [of w proxy pas key c] split: prod.splits option.splits list.splits if_splits)
      (metis Suc_leD)+
qed

lemma new_conn_runs:
  obtains dl' c where "new_outgoing_conn P key oid name a dl = Some dl'" "c_outgoing c = Some oid" "c_name c = name" "\<not> c_active c"
    "dl' = dl\<lparr>dl_daemon := (dl_daemon dl)\<lparr>d_conns := d_conns (dl_daemon dl) @ [(key, c)]\<rparr>, dl_next_key := Suc key\<rparr>"
proof -
  let ?c = "conn_new_outgoing name (fmt_addr a) (socket_ip a, socket_port a) oid (d_now (dl_daemon dl))"
  have c: "c_outgoing ?c = Some oid" "c_name ?c = name" "\<not> c_active ?c" "c_sptps ?c = None"
    by (simp_all add: conn_new_outgoing_def conn_new_base_def)
  show thesis
  proof (cases "\<exists>cmd. dl_proxy dl = Some (Exec cmd)")
    case True
    then obtain cmd where p: "dl_proxy dl = Some (Exec cmd)" by blast
    define line where "line = show_request request.Id @ '' '' @ d_name (dl_daemon dl) @ '' '' @ show_radix 10 PROT_MAJOR @ ''.'' @ show_radix 10 PROT_MINOR"
    obtain nw c' where s: "conn_send P (d_rng (dl_daemon dl)) line (?c\<lparr>c_connecting := False\<rparr>) = Some (nw, c')"
        "c_outgoing c' = Some oid" "c_name c' = name" "\<not> c_active c'"
      using c by (cases "check_outbuf_cap (length (as_bytes line @ [10])) (?c\<lparr>c_connecting := False\<rparr>)")
        (auto simp: conn_send_def check_outbuf_cap_def Let_def split: if_splits)
    show thesis by (rule that [of _ c']) (use p s in \<open>simp_all add: new_outgoing_conn_def line_def Let_def\<close>)
  next
    case False
    show thesis by (rule that [of _ ?c]) (use False c in \<open>auto simp: new_outgoing_conn_def Let_def split: option.splits proxy_config.splits\<close>)
  qed
qed

text \<open>
  A slot is driven if a connection carries it, its peer is connected, or its timer is armed with the next
  step of the back-off.
\<close>

definition backoff_of :: "outgoing \<Rightarrow> 'g dialer \<Rightarrow> duration" where
  "backoff_of out dl = from_secs (min (o_timeout out + 5) (dl_maxtimeout dl))"

lemma do_outgoing_cases:
  assumes "map_of (dl_outgoings dl) oid = Some out"
  obtains (exhausted) dl1 c where "do_outgoing_connection P w oid dl = retry_outgoing w oid dl1" "same_slots dl dl1"
      "map_of (dl_outgoings dl1) oid = Some (out\<lparr>o_addr_cache := c\<rparr>)" "dl_daemon dl1 = dl_daemon dl" "dl_maxtimeout dl1 = dl_maxtimeout dl"
  | (started) dl' where "do_outgoing_connection P w oid dl = Some dl'" "same_slots dl dl'" "served dl' oid"
proof -
  obtain r key c where l: "dial_loop w (dl_proxy dl) (dl_proxy_addrs dl) (dl_next_key dl) (o_addr_cache out) = (r, key, c)" by (metis prod_cases3)
  define dl1 where "dl1 = (put_outgoing oid (out\<lparr>o_addr_cache := c\<rparr>) dl)\<lparr>dl_next_key := key\<rparr>"
  have s1: "same_slots dl dl1" using assms dial_loop_key [OF l] update_keys [of "dl_outgoings dl" oid]
    by (auto simp: same_slots_def dl1_def put_outgoing_def)
  show thesis
  proof (cases r)
    case Exhausted
    show thesis by (rule exhausted [of dl1 c])
      (use assms l Exhausted s1 in \<open>simp_all add: do_outgoing_connection_def dl1_def put_outgoing_def update_conv Let_def\<close>)
  next
    case (Started a)
    obtain dl' k where n: "new_outgoing_conn P key oid (o_node_name out) a dl1 = Some dl'" "c_outgoing k = Some oid"
        "dl' = dl1\<lparr>dl_daemon := (dl_daemon dl1)\<lparr>d_conns := d_conns (dl_daemon dl1) @ [(key, k)]\<rparr>, dl_next_key := Suc key\<rparr>"
      by (rule new_conn_runs)
    have "same_slots dl1 dl'" unfolding n(3) by (simp add: same_slots_def dl1_def)
    moreover have "served dl' oid" unfolding n(3) using n(2) by (simp add: served_def)
    moreover have "do_outgoing_connection P w oid dl = Some dl'"
      using assms l Started n(1) by (simp add: do_outgoing_connection_def dl1_def Let_def)
    ultimately show thesis using started same_slots_trans [OF s1] by blast
  qed
qed

lemma do_outgoing_runs:
  assumes "dialer_ok dl" "seq (dl_timers dl) + 1 < 2 ^ 64" "map_of (dl_outgoings dl) oid = Some out" "o_timeout out + 5 \<le> 4294967295"
  obtains dl' where "do_outgoing_connection P w oid dl = Some dl'" "keeps 1 dl dl'"
    "served dl' oid \<or> armed_after oid (backoff_of out dl) dl'"
  using assms(3)
proof (cases rule: do_outgoing_cases [of dl oid out P w])
  case (exhausted dl1 c)
  have ok1: "dialer_ok dl1" "seq (dl_timers dl1) + 1 < 2 ^ 64"
    using same_slots_ok [OF assms(1) exhausted(2)] exhausted(2) assms(2) by (simp_all add: same_slots_def)
  obtain dl' where r: "retry_outgoing w oid dl1 = Some dl'" "keeps 1 dl1 dl'"
      "armed_after oid (from_secs (min (o_timeout (out\<lparr>o_addr_cache := c\<rparr>) + 5) (dl_maxtimeout dl1))) dl'" "dl_daemon dl' = dl_daemon dl1"
    by (rule retry_runs [OF ok1 exhausted(3)]) (use assms(4) in simp)
  show thesis using that [of dl'] exhausted r same_keeps [OF exhausted(2) r(2)] by (simp add: backoff_of_def)
next
  case (started dl')
  show thesis using that started keeps_mono [OF same_slots_keeps [OF assms(1) started(2)], of 1] by simp
qed

lemma drain_fields [simp]: "dl_daemon (drain_dns_worker rs dl) = dl_daemon dl" "dl_maxtimeout (drain_dns_worker rs dl) = dl_maxtimeout dl"
  by (induction rs dl rule: drain_dns_worker.induct) auto

lemma drain_out:
  "map_of (dl_outgoings dl) oid = Some out \<Longrightarrow>
   \<exists>c. map_of (dl_outgoings (drain_dns_worker rs dl)) oid = Some (out\<lparr>o_addr_cache := c\<rparr>)"
proof (induction rs dl arbitrary: out rule: drain_dns_worker.induct)
  case (1 dl)
  thus ?case by (auto intro!: exI [of _ "o_addr_cache out"])
next
  case (2 node addrs rs dl)
  define f where "f = (\<lambda>out :: outgoing. if o_node_name out = node then out\<lparr>o_addr_cache := extend_resolved addrs (o_addr_cache out)\<rparr> else out)"
  have m: "map_of (map (\<lambda>(i, out). (i, f out)) (dl_outgoings dl)) oid = Some (f out)" using 2(2) by (simp add: map_of_map)
  have f: "\<exists>c. f out = out\<lparr>o_addr_cache := c\<rparr>" by (auto simp: f_def intro: exI [of _ "o_addr_cache out"])
  show ?case
  proof (cases "addrs = []")
    case False
    obtain c where "map_of (dl_outgoings (drain_dns_worker ((ForOutgoing node, addrs) # rs) dl)) oid = Some ((f out)\<lparr>o_addr_cache := c\<rparr>)"
      using 2(1) [of "f out"] m False by (auto simp: f_def)
    thus ?thesis using f by auto
  qed (use 2 in simp)
qed simp

lemma setup_runs:
  assumes "dialer_ok dl" "seq (dl_timers dl) + 1 < 2 ^ 64" "map_of (dl_outgoings dl) oid = Some out" "o_timeout out + 5 \<le> 4294967295"
  obtains dl' where "setup_outgoing_connection P w oid dl = Some dl'" "keeps 1 dl dl'"
    "peer_conn (o_node_name out) (dl_daemon dl) \<noteq> None \<and> dl' = drain_dns_worker (w_resolved w) dl \<or>
     peer_conn (o_node_name out) (dl_daemon dl) = None \<and> (served dl' oid \<or> armed_after oid (backoff_of out dl) dl')"
proof -
  define dl1 where "dl1 = drain_dns_worker (w_resolved w) dl"
  obtain c0 where o1: "map_of (dl_outgoings dl1) oid = Some (out\<lparr>o_addr_cache := c0\<rparr>)" using drain_out [OF assms(3)] by (auto simp: dl1_def)
  have s1: "same_slots dl dl1" unfolding dl1_def by (rule drain_same)
  show thesis
  proof (cases "peer_conn (o_node_name out) (dl_daemon dl)")
    case (Some cid)
    have "setup_outgoing_connection P w oid dl = Some dl1"
      using o1 Some by (simp add: setup_outgoing_connection_def dl1_def Let_def)
    thus thesis using that Some keeps_mono [OF same_slots_keeps [OF assms(1) s1], of 1] by (simp add: dl1_def)
  next
    case None
    define c where "c = add_known_addresses (known_addresses (o_node_name out) (map_of (d_node_ids (dl_daemon dl1)) (o_node_name out)) dl1) c0"
    define out2 where "out2 = out\<lparr>o_addr_cache := c\<rparr>"
    define dl2 where "dl2 = (if hostnames c = [] then put_outgoing oid out2 dl1
      else ask (ResolveHosts (ForOutgoing (o_node_name out)) (hostnames c)) (put_outgoing oid out2 dl1))"
    have run: "setup_outgoing_connection P w oid dl = do_outgoing_connection P w oid dl2"
      using o1 None by (simp add: setup_outgoing_connection_def dl1_def dl2_def c_def out2_def Let_def)
    have "same_slots dl1 dl2" using o1 same_slots_trans [of dl1 "put_outgoing oid out2 dl1"] by (simp add: dl2_def)
    hence s2: "same_slots dl dl2" by (rule same_slots_trans [OF s1])
    have ok2: "dialer_ok dl2" "seq (dl_timers dl2) + 1 < 2 ^ 64" using same_slots_ok [OF assms(1) s2] s2 assms(2) by (simp_all add: same_slots_def)
    have o2: "map_of (dl_outgoings dl2) oid = Some out2" "o_timeout out2 = o_timeout out" "dl_maxtimeout dl2 = dl_maxtimeout dl"
      by (simp_all add: dl2_def dl1_def put_outgoing_def ask_def update_conv out2_def)
    obtain dl' where r: "do_outgoing_connection P w oid dl2 = Some dl'" "keeps 1 dl2 dl'"
        "served dl' oid \<or> armed_after oid (backoff_of out2 dl2) dl'"
      by (rule do_outgoing_runs [OF ok2 o2(1)]) (use assms(4) o2(2) in simp)
    show thesis using that [of dl'] run r same_keeps [OF s2 r(2)] None o2 by (auto simp: backoff_of_def)
  qed
qed

lemma retry_keeps: "dialer_ok dl \<Longrightarrow> seq (dl_timers dl) + 1 < 2 ^ 64 \<Longrightarrow> retry_outgoing w oid dl = Some dl' \<Longrightarrow> keeps 1 dl dl'"
proof (cases "map_of (dl_outgoings dl) oid")
  case None
  assume "dialer_ok dl" "retry_outgoing w oid dl = Some dl'"
  thus ?thesis using None by (simp add: retry_outgoing_def keeps_def)
next
  case (Some out)
  assume a: "dialer_ok dl" "seq (dl_timers dl) + 1 < 2 ^ 64" "retry_outgoing w oid dl = Some dl'"
  have t: "o_timeout out + 5 \<le> 4294967295" using a(3) Some by (auto simp: retry_outgoing_def bump_timeout_def split: if_splits)
  obtain dl2 where "retry_outgoing w oid dl = Some dl2" "keeps 1 dl dl2" by (rule retry_runs [OF a(1,2) Some t])
  thus ?thesis using a(3) by simp
qed

lemma do_outgoing_keeps:
  assumes "dialer_ok dl" "seq (dl_timers dl) + 1 < 2 ^ 64" "do_outgoing_connection P w oid dl = Some dl'"
  shows "keeps 1 dl dl'"
proof (cases "map_of (dl_outgoings dl) oid")
  case None
  thus ?thesis using assms by (simp add: do_outgoing_connection_def keeps_def)
next
  case (Some out)
  thus ?thesis
  proof (cases rule: do_outgoing_cases [of dl oid out P w])
    case (exhausted dl1 c)
    have "dialer_ok dl1" "seq (dl_timers dl1) + 1 < 2 ^ 64"
      using same_slots_ok [OF assms(1) exhausted(2)] exhausted(2) assms(2) by (simp_all add: same_slots_def)
    thus ?thesis using retry_keeps [of dl1 w oid dl'] same_keeps [OF exhausted(2)] exhausted(1) assms(3) by simp
  next
    case (started dl2)
    thus ?thesis using assms(3) keeps_mono [OF same_slots_keeps [OF assms(1) started(2)], of 1] by simp
  qed
qed

lemma keeps_after_same:
  assumes "dialer_ok dl" "seq (dl_timers dl) + n < 2 ^ 64" "same_slots dl dl1"
    "\<And>dl'. dialer_ok dl1 \<Longrightarrow> seq (dl_timers dl1) + n < 2 ^ 64 \<Longrightarrow> f dl1 = Some dl' \<Longrightarrow> keeps n dl1 dl'" "f dl1 = Some dl'"
  shows "keeps n dl dl'"
  using assms(4) [of dl'] same_slots_ok [OF assms(1,3)] same_keeps [OF assms(3)] assms(2,3,5) by (simp add: same_slots_def)

lemma setup_keeps:
  assumes "dialer_ok dl" "seq (dl_timers dl) + 1 < 2 ^ 64" "setup_outgoing_connection P w oid dl = Some dl'"
  shows "keeps 1 dl dl'"
proof -
  define dl1 where "dl1 = drain_dns_worker (w_resolved w) dl"
  have s1: "same_slots dl dl1" unfolding dl1_def by (rule drain_same)
  have k1: "keeps 1 dl dl1" by (rule keeps_mono [OF same_slots_keeps [OF assms(1) s1]]) simp
  show ?thesis
  proof (cases "map_of (dl_outgoings dl1) oid")
    case None
    thus ?thesis using assms(3) k1 by (simp add: setup_outgoing_connection_def dl1_def [symmetric] Let_def)
  next
    case (Some out)
    define c where "c = add_known_addresses (known_addresses (o_node_name out) (map_of (d_node_ids (dl_daemon dl1)) (o_node_name out)) dl1) (o_addr_cache out)"
    define dl2 where "dl2 = (if hostnames c = [] then put_outgoing oid (out\<lparr>o_addr_cache := c\<rparr>) dl1
      else ask (ResolveHosts (ForOutgoing (o_node_name out)) (hostnames c)) (put_outgoing oid (out\<lparr>o_addr_cache := c\<rparr>) dl1))"
    have run: "setup_outgoing_connection P w oid dl =
        (if peer_conn (o_node_name out) (dl_daemon dl1) \<noteq> None then Some dl1 else do_outgoing_connection P w oid dl2)"
      using Some by (simp add: setup_outgoing_connection_def dl1_def [symmetric] dl2_def c_def Let_def)
    have "same_slots dl1 dl2" using Some same_slots_trans [of dl1 "put_outgoing oid (out\<lparr>o_addr_cache := c\<rparr>) dl1"] by (simp add: dl2_def)
    hence s2: "same_slots dl dl2" by (rule same_slots_trans [OF s1])
    show ?thesis
    proof (cases "peer_conn (o_node_name out) (dl_daemon dl1) = None")
      case True
      thus ?thesis using run assms(3) by (intro keeps_after_same [OF assms(1,2) s2 do_outgoing_keeps]) auto
    qed (use run assms(3) k1 in simp)
  qed
qed

lemma drop_slot_keeps: "dialer_ok dl \<Longrightarrow> keeps 0 dl (drop_slot oid dl)"
proof -
  assume dl: "dialer_ok dl"
  have ok: "timers_inv (dl_timers dl)" "paired (fst ` set (dl_outgoings dl)) (dl_outgoing_timers dl) (wheel (dl_timers dl))"
    "\<exists>a. wheel (dl_timers dl) (dl_periodictimer dl) = Some (Periodic, a)" "distinct (map fst (dl_outgoings dl))"
    "\<forall>oid\<in>fst ` set (dl_outgoings dl). oid < dl_next_key dl" using dl by (auto simp: dialer_ok_def)
  have keys: "fst ` set (AList.delete oid (dl_outgoings dl)) = fst ` set (dl_outgoings dl) - {oid}"
    using arg_cong [OF AList.delete_keys [of oid "dl_outgoings dl"], of set] by simp
  have dis: "distinct (map fst (AList.delete oid (dl_outgoings dl)))" using ok(4) by (simp add: AList.delete_keys distinct_removeAll)
  show ?thesis
  proof (cases "map_of (dl_outgoing_timers dl) oid")
    case None
    have "oid \<notin> fst ` set (dl_outgoings dl)" using None paired_key [OF ok(2)] by fastforce
    hence "AList.delete oid (dl_outgoings dl) = dl_outgoings dl" by (metis AList.delete_id image_iff fst_conv)
    thus ?thesis using dl None by (simp add: drop_slot_def keeps_def)
  next
    case (Some tid)
    have "wheel (dl_timers dl) tid \<noteq> wheel (dl_timers dl) (dl_periodictimer dl)" using pairedD [OF ok(2) Some] ok(3) by auto
    hence "dl_periodictimer dl \<noteq> tid" by metis
    hence "\<exists>a. wheel (timers_del tid (dl_timers dl)) (dl_periodictimer dl) = Some (Periodic, a)" using ok(3) wheel_del [OF ok(1), of tid] by simp
    moreover have "paired (fst ` set (dl_outgoings dl) - {oid}) (AList.delete oid (dl_outgoing_timers dl)) (wheel (timers_del tid (dl_timers dl)))"
      using paired_del [OF ok(2) Some] wheel_del(2) [OF ok(1), of tid] by simp
    moreover have "\<forall>i\<in>fst ` set (AList.delete oid (dl_outgoings dl)). i < dl_next_key dl" using ok(5) unfolding keys by blast
    ultimately show ?thesis using Some keys dis wheel_del(1,3) [OF ok(1), of tid] by (simp add: drop_slot_def keeps_def dialer_ok_def)
  qed
qed

lemma add_slot_keeps:
  assumes "dialer_ok dl" "seq (dl_timers dl) + 1 < 2 ^ 64" "add_slot P w name og dl = Some dl'"
  shows "keeps 1 dl dl'"
proof -
  have ok: "timers_inv (dl_timers dl)" "paired (fst ` set (dl_outgoings dl)) (dl_outgoing_timers dl) (wheel (dl_timers dl))"
    "\<exists>a. wheel (dl_timers dl) (dl_periodictimer dl) = Some (Periodic, a)" "distinct (map fst (dl_outgoings dl))"
    "\<forall>oid\<in>fst ` set (dl_outgoings dl). oid < dl_next_key dl" using assms(1) by (auto simp: dialer_ok_def)
  let ?oid = "dl_next_key dl"
  obtain tid t where t: "timers_add (RetryOutgoing ?oid) (dl_timers dl) = Some (tid, t)" "timers_inv t" "wheel (dl_timers dl) tid = None"
      "wheel t = (wheel (dl_timers dl))(tid \<mapsto> (RetryOutgoing ?oid, None))" "seq t = seq (dl_timers dl)"
    by (rule wheel_add [OF ok(1)])
  define dl1 where "dl1 = dl\<lparr>dl_outgoings := dl_outgoings dl @ [(?oid, \<lparr>o_node_name = name, o_origin = og, o_timeout = 0,
      o_addr_cache = cache_open (w_cache_path w name) (w_cache_file w name) (w_config_addrs w name)\<rparr>)],
    dl_outgoing_timers := AList.update ?oid tid (dl_outgoing_timers dl), dl_timers := t, dl_next_key := Suc ?oid\<rparr>"
  have fresh: "?oid \<notin> fst ` set (dl_outgoings dl)" using ok(5) by auto
  have "paired (insert ?oid (fst ` set (dl_outgoings dl))) (AList.update ?oid tid (dl_outgoing_timers dl)) (wheel t)"
    unfolding t(4) by (rule paired_add [OF ok(2) t(3) fresh])
  moreover have "\<forall>i\<in>insert ?oid (fst ` set (dl_outgoings dl)). i < Suc ?oid" using ok(5) by auto
  moreover have "\<exists>a. wheel t (dl_periodictimer dl) = Some (Periodic, a)" using ok(3) t(3) unfolding t(4) by auto
  ultimately have "dialer_ok dl1" using t(2) ok(4) fresh by (auto simp: dialer_ok_def dl1_def)
  moreover have "setup_outgoing_connection P w ?oid dl1 = Some dl'" using assms(3) t(1) by (simp add: add_slot_def dl1_def Let_def)
  ultimately have "keeps 1 dl1 dl'" using setup_keeps [of dl1 P w ?oid dl'] assms(2) t(5) by (simp add: dl1_def)
  thus ?thesis using t(5) by (simp add: keeps_def dl1_def)
qed

lemma connect_to_keeps:
  assumes "dialer_ok dl" "seq (dl_timers dl) + 1 < 2 ^ 64" "connect_to P w peer dl = Some dl'"
  shows "keeps 1 dl dl'"
proof -
  obtain d where "add_slot P w peer ConfigConnectTo (dl\<lparr>dl_daemon := d\<rparr>) = Some dl'"
    using assms(3) by (auto simp: connect_to_def Option.bind_eq_Some_conv)
  thus ?thesis by (intro keeps_after_same [OF assms(1,2) same_slots_fields(1) add_slot_keeps])
qed

lemma redial_keeps:
  assumes "dialer_ok dl" "seq (dl_timers dl) + 1 < 2 ^ 64" "redial P w oid act dl = Some dl'"
  shows "keeps 1 dl dl'"
proof (cases "map_of (dl_outgoings dl) oid")
  case None
  thus ?thesis using assms by (simp add: redial_def keeps_def)
next
  case (Some out)
  have s: "same_slots dl (if act then put_outgoing oid (out\<lparr>o_timeout := 0\<rparr>) dl else dl)" using Some by simp
  show ?thesis by (rule keeps_after_same [OF assms(1,2) s do_outgoing_keeps]) (use assms(3) Some in \<open>simp_all add: redial_def\<close>)
qed

lemma terminate_conn_keeps:
  assumes "dialer_ok dl" "seq (dl_timers dl) + 1 < 2 ^ 64" "terminate_conn P w cid dl = Some dl'"
  shows "keeps 1 dl dl'"
proof -
  obtain d where d: "(case map_of (d_conns (dl_daemon dl)) cid of None \<Rightarrow> Some (dl\<lparr>dl_daemon := d\<rparr>)
      | Some c \<Rightarrow> (case c_outgoing c of None \<Rightarrow> Some (dl\<lparr>dl_daemon := d\<rparr>) | Some oid \<Rightarrow> redial P w oid (c_active c) (dl\<lparr>dl_daemon := d\<rparr>))) = Some dl'"
    using assms(3) by (auto simp: terminate_conn_def Let_def Option.bind_eq_Some_conv)
  have "keeps 1 dl (dl\<lparr>dl_daemon := d\<rparr>)" by (rule keeps_mono [OF same_slots_keeps [OF assms(1)]]) simp_all
  moreover have "redial P w oid act (dl\<lparr>dl_daemon := d\<rparr>) = Some dl' \<Longrightarrow> keeps 1 dl dl'" for oid act
    by (intro keeps_after_same [OF assms(1,2) same_slots_fields(1) redial_keeps])
  ultimately show ?thesis using d by (auto split: option.splits)
qed

text \<open>A connection that carries no slot leaves the slots alone.\<close>

lemma terminate_plain:
  assumes "terminate_conn P w cid dl = Some dl'" "\<And>c. map_of (d_conns (dl_daemon dl)) cid = Some c \<Longrightarrow> c_outgoing c = None"
  shows "\<exists>d. terminate P cid (dl_daemon dl) = Some d \<and> dl' = dl\<lparr>dl_daemon := d\<rparr>"
  using assms by (auto simp: terminate_conn_def Let_def Option.bind_eq_Some_conv split: option.splits)

lemma terminate_all_same: "terminate_all P w cids dl = Some dl' \<Longrightarrow> same_slots dl dl'"
proof (induction P w cids dl rule: terminate_all.induct)
  case (2 P w cid cids dl)
  let ?dl = "dl\<lparr>dl_daemon := (case map_of (d_conns (dl_daemon dl)) cid of None \<Rightarrow> dl_daemon dl | Some c \<Rightarrow> set_conn cid (c\<lparr>c_outgoing := None\<rparr>) (dl_daemon dl))\<rparr>"
  obtain dl1 where t: "terminate_conn P w cid ?dl = Some dl1" "terminate_all P w cids dl1 = Some dl'"
    using 2(2) by (auto simp: Let_def Option.bind_eq_Some_conv)
  have none: "map_of (d_conns (dl_daemon ?dl)) cid = Some c \<Longrightarrow> c_outgoing c = None" for c
    by (auto simp: set_conn_def update_conv split: option.splits)
  have "\<exists>d. dl1 = ?dl\<lparr>dl_daemon := d\<rparr>" using terminate_plain [OF t(1) none] by blast
  hence "same_slots dl dl1" by (auto simp: same_slots_def)
  thus ?case using 2(1) [OF refl t] same_slots_trans by blast
qed simp

lemma remove_connect_to_keeps: "dialer_ok dl \<Longrightarrow> remove_connect_to P w name dl = Some dl' \<Longrightarrow> keeps 0 dl dl'"
proof -
  assume dl: "dialer_ok dl" and r: "remove_connect_to P w name dl = Some dl'"
  show ?thesis
  proof (cases "slot_named name dl")
    case None
    thus ?thesis using dl r by (simp add: remove_connect_to_def keeps_def)
  next
    case (Some oid)
    then obtain dl1 cids where "terminate_all P w cids dl = Some dl1" and d: "dl' = drop_slot oid dl1"
      using r by (auto simp: remove_connect_to_def Option.bind_eq_Some_conv)
    hence t: "same_slots dl dl1" "dl' = drop_slot oid dl1" using terminate_all_same by blast+
    show ?thesis unfolding t(2) by (rule same_keeps [OF t(1) drop_slot_keeps [OF same_slots_ok [OF dl t(1)]]])
  qed
qed

lemma each_name_keeps:
  assumes "\<And>dl dl' n. dialer_ok dl \<Longrightarrow> seq (dl_timers dl) + k < 2 ^ 64 \<Longrightarrow> f n dl = Some dl' \<Longrightarrow> keeps k dl dl'"
  shows "dialer_ok dl \<Longrightarrow> seq (dl_timers dl) + k * length ns < 2 ^ 64 \<Longrightarrow> each_name f ns dl = Some dl' \<Longrightarrow> keeps (k * length ns) dl dl'"
proof (induction ns arbitrary: dl)
  case (Cons n ns)
  obtain dl1 where f: "f n dl = Some dl1" "each_name f ns dl1 = Some dl'" using Cons.prems(3) by (auto simp: Option.bind_eq_Some_conv)
  have k: "keeps k dl dl1" using assms [OF Cons.prems(1) _ f(1)] Cons.prems(2) by simp
  have "keeps (k * length ns) dl1 dl'" using Cons.IH [of dl1] k Cons.prems(2) f(2) by (simp add: keeps_def)
  from keeps_trans [OF k this] show ?case by simp
qed (simp add: keeps_def)

lemma reload_keeps:
  assumes "dialer_ok dl" "seq (dl_timers dl) + length new_ct < 2 ^ 64" "reload_connect_to P w new_ct dl = Some dl'"
  shows "keeps (length new_ct) dl dl'"
proof -
  obtain to_add to_remove where d: "diff_connect_to (map (o_node_name \<circ> snd) (dl_outgoings dl)) new_ct = (to_add, to_remove)" by fastforce
  obtain dl1 where r: "each_name (remove_connect_to P w) to_remove dl = Some dl1" "each_name (connect_to P w) to_add dl1 = Some dl'"
    using assms(3) d by (auto simp: reload_connect_to_def Option.bind_eq_Some_conv)
  have k0: "keeps (0 * length to_remove) dl dl1"
    by (rule each_name_keeps [OF _ assms(1) _ r(1)]) (use assms(2) remove_connect_to_keeps in auto)
  hence k: "keeps 0 dl dl1" by simp
  have le: "length to_add \<le> length new_ct"
    using d card_length [of new_ct] card_mono [of "set new_ct" "set new_ct - (\<lambda>x. o_node_name (snd x)) ` set (dl_outgoings dl)"]
    by (auto simp: diff_connect_to_def)
  have ok1: "dialer_ok dl1" "seq (dl_timers dl1) + 1 * length to_add < 2 ^ 64" using k le assms(2) by (auto simp: keeps_def)
  have "keeps (1 * length to_add) dl1 dl'" by (rule each_name_keeps [OF connect_to_keeps ok1 r(2)])
  hence "keeps (length to_add) dl1 dl'" by simp
  from keeps_trans [OF k this] show ?thesis using keeps_mono le by fastforce
qed

lemma each_slot_runs:
  assumes "dialer_ok dl" "seq (dl_timers dl) + length outs < 2 ^ 64" "fst ` set outs \<subseteq> fst ` set (dl_outgoings dl)"
  shows "\<exists>dl'. each_slot f after outs dl = Some dl' \<and> keeps (length outs) dl dl' \<and> fst ` set (dl_outgoings dl') = fst ` set (dl_outgoings dl) \<and>
    (\<forall>oid. (\<exists>out. (oid, out) \<in> set outs) \<or> slot_armed oid dl \<longrightarrow> slot_armed oid dl')"
  using assms
proof (induction outs arbitrary: dl)
  case Nil
  thus ?case by (simp add: keeps_def)
next
  case (Cons p outs)
  obtain oid out where p: "p = (oid, out)" by fastforce
  let ?dl = "put_outgoing oid (f out) dl"
  have "map_of (dl_outgoings dl) oid \<noteq> None" using Cons.prems(3) p by (simp add: map_of_eq_None_iff)
  hence s: "same_slots dl ?dl" by simp
  have keys: "fst ` set (dl_outgoings ?dl) = fst ` set (dl_outgoings dl)" using s by (metis same_slots_def list.set_map)
  have ok: "dialer_ok ?dl" "seq (dl_timers ?dl) + 1 < 2 ^ 64"
    using same_slots_ok [OF Cons.prems(1) s] s Cons.prems(2) by (simp_all add: same_slots_def)
  obtain t' where t: "arm_retry oid after ?dl = Some (?dl\<lparr>dl_timers := t'\<rparr>)" "keeps 1 ?dl (?dl\<lparr>dl_timers := t'\<rparr>)"
      "armed_after oid after (?dl\<lparr>dl_timers := t'\<rparr>)" "\<forall>i. slot_armed i ?dl \<longrightarrow> slot_armed i (?dl\<lparr>dl_timers := t'\<rparr>)"
    by (rule arm_retry_keeps [OF ok put_outgoing_key])
  let ?dl1 = "?dl\<lparr>dl_timers := t'\<rparr>"
  have k: "keeps 1 dl ?dl1" by (rule same_keeps [OF s t(2)])
  have keys1: "fst ` set (dl_outgoings ?dl1) = fst ` set (dl_outgoings dl)" using keys by simp
  have "slot_armed i ?dl1" if "slot_armed i dl" for i
    using t(4) that by (simp add: slot_armed_def put_outgoing_def)
  moreover obtain dl' where d: "each_slot f after outs ?dl1 = Some dl'" "keeps (length outs) ?dl1 dl'"
      "fst ` set (dl_outgoings dl') = fst ` set (dl_outgoings ?dl1)" "\<forall>i. (\<exists>out. (i, out) \<in> set outs) \<or> slot_armed i ?dl1 \<longrightarrow> slot_armed i dl'"
    using Cons.IH [of ?dl1] k Cons.prems(2,3) keys1 by (auto simp: keeps_def)
  moreover have "keeps (length (p # outs)) dl dl'" using keeps_trans [OF k d(2)] by simp
  ultimately show ?case using p t(1) keys1 armed_after_armed [OF t(3)] by auto
qed

section \<open>Everything that touches a slot\<close>

lemma stamp_same: "stamp_backoff name dl = Some dl' \<Longrightarrow> same_slots dl dl'"
  by (auto simp: stamp_backoff_def)

lemma maybe_stamp_same: "(if b then stamp_backoff name dl else Some dl) = Some dl' \<Longrightarrow> same_slots dl dl'"
  using stamp_same by (auto split: if_splits)

lemma auto_cancel_keeps: "dialer_ok dl \<Longrightarrow> auto_cancel name dl = Some dl' \<Longrightarrow> keeps 0 dl dl'"
proof -
  assume dl: "dialer_ok dl" and r: "auto_cancel name dl = Some dl'"
  obtain dl1 b where st: "(if b then stamp_backoff name dl else Some dl) = Some dl1" and
      d: "dl' = (case slot_named name dl1 of None \<Rightarrow> dl1 | Some oid \<Rightarrow> drop_slot oid dl1)"
    using r unfolding auto_cancel_def Option.bind_eq_Some_conv by blast
  note s = maybe_stamp_same [OF st] d
  have ok: "dialer_ok dl1" by (rule same_slots_ok [OF dl s(1)])
  have "keeps 0 dl1 dl'" using drop_slot_keeps [OF ok] ok s(2) by (auto simp: keeps_def split: option.splits)
  thus ?thesis by (rule same_keeps [OF s(1)])
qed

lemma auto_connect_keeps:
  assumes "dialer_ok dl" "seq (dl_timers dl) + 1 < 2 ^ 64" "auto_connect P w name og dl = Some dl'"
  shows "keeps 1 dl dl'"
proof (cases "slot_named name dl")
  case None
  obtain d where d: "add_slot P w name og (if w_config_addrs w name = [] \<and> map_of (dl_dht_hints dl) name = None \<and> dl_discovery dl \<and> w_has_key w name
      then ask (ResolveKey name) (dl\<lparr>dl_daemon := d\<rparr>) else dl\<lparr>dl_daemon := d\<rparr>) = Some dl'"
    using assms(3) None by (auto simp: auto_connect_def Option.bind_eq_Some_conv Let_def)
  define dl1 where "dl1 = (if w_config_addrs w name = [] \<and> map_of (dl_dht_hints dl) name = None \<and> dl_discovery dl \<and> w_has_key w name
      then ask (ResolveKey name) (dl\<lparr>dl_daemon := d\<rparr>) else dl\<lparr>dl_daemon := d\<rparr>)"
  have s1: "same_slots dl dl1" by (simp add: dl1_def same_slots_def ask_def)
  have a1: "add_slot P w name og dl1 = Some dl'" using d by (simp only: dl1_def)
  show ?thesis by (rule keeps_after_same [where f = "add_slot P w name og", OF assms(1,2) s1 add_slot_keeps a1])
next
  case (Some oid)
  thus ?thesis using assms by (simp add: auto_connect_def keeps_def)
qed

lemma close_named_keeps:
  assumes "dialer_ok dl" "seq (dl_timers dl) + 1 < 2 ^ 64" "close_named P w name dl = Some dl'"
  shows "keeps 1 dl dl'"
proof (cases "find (\<lambda>(_, c). c_active c \<and> c_outgoing c \<noteq> None \<and> c_name c = name) (d_conns (dl_daemon dl))")
  case None
  thus ?thesis using assms unfolding close_named_def None by (simp add: keeps_def)
next
  case (Some p)
  obtain cid c where p: "p = (cid, c)" by fastforce
  let ?dl = "dl\<lparr>dl_daemon := set_conn cid (c\<lparr>c_outgoing := None\<rparr>) (dl_daemon dl)\<rparr>"
  define dl2 where "dl2 = (case c_outgoing c of None \<Rightarrow> ?dl | Some oid \<Rightarrow> drop_slot oid ?dl)"
  have "dialer_ok ?dl" by (rule same_slots_ok [OF assms(1)]) simp
  hence "keeps 0 ?dl dl2" using drop_slot_keeps [of ?dl] by (auto simp: dl2_def keeps_def split: option.splits)
  hence k: "keeps 0 dl dl2" by (simp add: keeps_def)
  have "terminate_conn P w cid dl2 = Some dl'" using assms(3) unfolding close_named_def Some p Let_def dl2_def by simp
  hence "keeps 1 dl2 dl'" using k assms(2) by (intro terminate_conn_keeps) (auto simp: keeps_def)
  thus ?thesis using keeps_trans [OF k] by fastforce
qed

lemma auto_disconnect_keeps:
  assumes "dialer_ok dl" "seq (dl_timers dl) + 1 < 2 ^ 64" "auto_disconnect P w name og dl = Some dl'"
  shows "keeps 1 dl dl'"
proof -
  obtain dl1 where s: "(if og = AutoShortcut then stamp_backoff name dl else Some dl) = Some dl1" "close_named P w name dl1 = Some dl'"
    using assms(3) unfolding auto_disconnect_def Option.bind_eq_Some_conv by blast
  show ?thesis by (rule keeps_after_same [where f = "close_named P w name", OF assms(1,2) maybe_stamp_same [OF s(1)] close_named_keeps s(2)])
qed

lemma execute_keeps:
  assumes "dialer_ok dl" "seq (dl_timers dl) + 1 < 2 ^ 64" "execute_auto_action P w act dl = Some dl'"
  shows "keeps 1 dl dl'"
proof (cases act)
  case (Connect name og)
  thus ?thesis using auto_connect_keeps [OF assms(1,2)] assms(3) by simp
next
  case (Disconnect name og)
  thus ?thesis using auto_disconnect_keeps [OF assms(1,2)] assms(3) by simp
next
  case (CancelPending name)
  thus ?thesis using keeps_mono [OF auto_cancel_keeps [OF assms(1)]] assms(3) by simp
qed (use assms in \<open>simp add: keeps_def\<close>)

lemma storm_backoff_keeps:
  assumes "dialer_ok dl" "seq (dl_timers dl) + length (dl_outgoings dl) < 2 ^ 64" "storm_backoff dl = Some (slept, dl')"
  shows "keeps (length (dl_outgoings dl)) dl dl'"
proof (cases "storm (dl_daemon dl)")
  case True
  let ?st = "dl_sleeptime dl"
  obtain dl1 where "each_slot (\<lambda>out. out\<lparr>o_timeout := max (o_timeout out) ?st\<rparr>) (from_secs ?st) (dl_outgoings dl) dl = Some dl1" "keeps (length (dl_outgoings dl)) dl dl1"
    using each_slot_runs [OF assms(1,2) order_refl] by blast
  thus ?thesis using assms(3) True keeps_same [OF _ same_slots_fields(5)] by (auto simp: storm_backoff_def Let_def)
next
  case False
  hence "same_slots dl dl'" using assms(3) by (auto simp: storm_backoff_def)
  thus ?thesis using keeps_mono [OF same_slots_keeps [OF assms(1)]] by blast
qed

lemma periodic_set_keeps:
  assumes "dialer_ok dl" "seq (dl_timers dl) + 1 < 2 ^ 64" "timers_set (dl_periodictimer dl) after (dl_timers dl) = Some t"
  shows "keeps 1 dl (dl\<lparr>dl_timers := t\<rparr>)"
proof -
  obtain a where a: "wheel (dl_timers dl) (dl_periodictimer dl) = Some (Periodic, a)" and
      ok: "timers_inv (dl_timers dl)" "paired (fst ` set (dl_outgoings dl)) (dl_outgoing_timers dl) (wheel (dl_timers dl))"
    using assms(1) by (auto simp: dialer_ok_def)
  obtain t' at' where t: "timers_set (dl_periodictimer dl) after (dl_timers dl) = Some t'" "timers_inv t'" "seq t' = seq (dl_timers dl) + 1"
      "wheel t' = (wheel (dl_timers dl))(dl_periodictimer dl \<mapsto> (Periodic, Some (at', seq (dl_timers dl) + 1)))"
    by (rule wheel_set [OF ok(1) a assms(2), of after]) blast
  have e: "t = t'" using assms(3) t(1) by simp
  have "paired (fst ` set (dl_outgoings dl)) (dl_outgoing_timers dl) (wheel t)" unfolding e t(4) by (rule paired_rearm [OF ok(2) a])
  moreover have "\<exists>a. wheel t (dl_periodictimer dl) = Some (Periodic, a)" unfolding e t(4) by simp
  ultimately show ?thesis using assms(1) t(2,3) unfolding e by (simp add: keeps_def dialer_ok_def)
qed

lemma decide_same: "decide_autoconnect P w dl = Some (act, dl') \<Longrightarrow> same_slots dl dl'"
  by (auto simp: decide_autoconnect_def Let_def Option.bind_eq_Some_conv same_slots_def)

lemma autoconnect_tick_keeps:
  assumes "dialer_ok dl" "seq (dl_timers dl) + 1 < 2 ^ 64" "autoconnect_tick P w dl = Some dl'"
  shows "keeps 1 dl dl'"
proof (cases "s_autoconnect (d_settings (dl_daemon dl)) \<and> 1 < length (d_node_ids (dl_daemon dl))")
  case True
  then obtain act dl1 where a: "decide_autoconnect P w dl = Some (act, dl1)" "execute_auto_action P w act dl1 = Some dl'"
    using assms(3) by (auto simp: autoconnect_tick_def Option.bind_eq_Some_conv)
  show ?thesis by (rule keeps_after_same [where f = "execute_auto_action P w act", OF assms(1,2) decide_same [OF a(1)] execute_keeps a(2)])
next
  case False
  thus ?thesis using assms by (auto simp: autoconnect_tick_def keeps_def)
qed

lemma tick_same: "same_slots dl (clear_storm dl)" "same_slots dl (take_dht_results dht dl)" "same_slots dl (mark_stale dl)"
  by (simp_all add: clear_storm_def take_dht_results_def mark_stale_def Let_def)

lemma periodic_tick_keeps:
  assumes "dialer_ok dl" "seq (dl_timers dl) + length (dl_outgoings dl) + 2 < 2 ^ 64" "on_periodic_tick P w dht dl = Some (slept, dl')"
  shows "keeps (length (dl_outgoings dl) + 2) dl dl'"
proof -
  obtain dl1 dl3 t where r: "storm_backoff dl = Some (slept, dl1)" "autoconnect_tick P w (drain_dns_worker (w_resolved w) (clear_storm dl1)) = Some dl3"
      "timers_set (dl_periodictimer (take_dht_results dht dl3)) (max PERIODIC_TICK slept) (dl_timers (take_dht_results dht dl3)) = Some t"
      "dl' = (take_dht_results dht dl3)\<lparr>dl_timers := t\<rparr>"
    using assms(3) by (auto simp: on_periodic_tick_def Option.bind_eq_Some_conv Let_def)
  let ?dl2 = "drain_dns_worker (w_resolved w) (clear_storm dl1)" and ?dl4 = "take_dht_results dht dl3"
  have k1: "keeps (length (dl_outgoings dl)) dl dl1" by (rule storm_backoff_keeps [OF assms(1) _ r(1)]) (use assms(2) in simp)
  have k2: "keeps (length (dl_outgoings dl)) dl ?dl2" by (rule keeps_same [OF k1 same_slots_trans [OF tick_same(1) drain_same]])
  have "keeps 1 ?dl2 dl3" by (rule autoconnect_tick_keeps [OF _ _ r(2)]) (use k2 assms(2) in \<open>auto simp: keeps_def\<close>)
  from keeps_same [OF keeps_trans [OF k2 this] tick_same(2)] have k4: "keeps (length (dl_outgoings dl) + 1) dl ?dl4" .
  have "keeps 1 ?dl4 dl'" unfolding r(4) by (rule periodic_set_keeps [OF _ _ r(3)]) (use k4 assms(2) in \<open>auto simp: keeps_def\<close>)
  from keeps_trans [OF k4 this] show ?thesis by simp
qed

lemma on_retry_runs:
  assumes "dialer_ok dl" "seq (dl_timers dl) + length (dl_outgoings dl) < 2 ^ 64"
  shows "\<exists>dl'. on_retry dl = Some dl' \<and> keeps (length (dl_outgoings dl)) dl dl' \<and> (\<forall>oid\<in>fst ` set (dl_outgoings dl). slot_armed oid dl')"
proof -
  obtain dl1 where d: "each_slot (\<lambda>out. out\<lparr>o_timeout := 0\<rparr>) 0 (dl_outgoings dl) dl = Some dl1" "keeps (length (dl_outgoings dl)) dl dl1"
      "\<forall>oid. (\<exists>out. (oid, out) \<in> set (dl_outgoings dl)) \<or> slot_armed oid dl \<longrightarrow> slot_armed oid dl1"
    using each_slot_runs [OF assms order_refl] by blast
  have "on_retry dl = Some (mark_stale dl1)" using d(1) by (simp add: on_retry_def)
  moreover have "keeps (length (dl_outgoings dl)) dl (mark_stale dl1)" by (rule keeps_same [OF d(2) tick_same(3)])
  moreover have "slot_armed oid (mark_stale dl1)" if "slot_armed oid dl1" for oid using that tick_same(3) [of dl1] by (simp add: slot_armed_def same_slots_def)
  ultimately show ?thesis using d(3) by fastforce
qed

lemma confirm_same: "same_slots dl (confirm_outgoing_address oid addr dl)"
  by (simp add: confirm_outgoing_address_def Let_def split: option.splits)

lemma wheel_tick:
  assumes "timers_inv t" "fits_instant (clock + YEAR)" "timers_tick clock t = Some ((fired, timeout), t')"
  shows "timers_inv t'" "wheel t' = disarm_due clock (wheel t)" "seq t' = seq t" "now t' = clock"
    "fired = map (\<lambda>(k, i). fst (the (wheel t i))) (sorted_list_of_set (due_timers clock (wheel t)))"
proof -
  have r: "timers_inv t'" "timer_spec (TTick clock) (timers_abs t) (RFired fired timeout) (timers_abs t')"
    using timers_tick_refines [OF assms(1,2)] assms(3) by auto
  show "timers_inv t'" by (rule r(1))
  from r(2) have "wheel t' = disarm_due clock (wheel t) \<and> seq t' = seq t \<and> now t' = clock \<and>
      fired = map (\<lambda>(k, i). fst (the (wheel t i))) (sorted_list_of_set (due_timers clock (wheel t)))"
    unfolding abs_wheel by cases auto
  thus "wheel t' = disarm_due clock (wheel t)" "seq t' = seq t" "now t' = clock"
    "fired = map (\<lambda>(k, i). fst (the (wheel t i))) (sorted_list_of_set (due_timers clock (wheel t)))" by auto
qed

lemma disarm_due_what: "(\<exists>a. disarm_due c m i = Some (w, a)) \<longleftrightarrow> (\<exists>a. m i = Some (w, a))"
  by (auto simp: disarm_due_def split: option.splits)

lemma tick_keeps:
  assumes "dialer_ok dl" "fits_instant (clock + YEAR)" "timers_tick clock (dl_timers dl) = Some (r, t')"
  shows "keeps 0 dl (dl\<lparr>dl_timers := t'\<rparr>)"
proof -
  have inv: "timers_inv (dl_timers dl)" using assms(1) by (simp add: dialer_ok_def)
  obtain fired timeout where "r = (fired, timeout)" by fastforce
  note w = wheel_tick [OF inv assms(2) assms(3) [unfolded this]]
  show ?thesis using assms(1) w(1,3) by (simp add: keeps_def dialer_ok_def paired_def w(2) disarm_due_what)
qed

section \<open>Runs\<close>

text \<open>
  What can happen to the slots: timers expire, the timer of a slot fires, a connection closes, an address
  is confirmed by an acknowledgement, a slot is dropped when two connections to one peer meet, the periodic tick,
  a retry request, a reload and a configured peer at the start.
\<close>

datatype dial_event =
    Fires instant | RetryDue nat | ConnClosed nat | Confirmed nat "socket_addr option" | Reaped nat
  | PeriodicDue "(string \<times> socket_addr list) list" | RetryAll | ReloadConnect "string list" | ConnectPeer string

fun dial_handle :: "'g prims \<Rightarrow> world \<Rightarrow> dial_event \<Rightarrow> 'g dialer \<Rightarrow> 'g dialer option" where
  "dial_handle P w (Fires clock) dl = map_option (\<lambda>(_, t). dl\<lparr>dl_timers := t\<rparr>) (timers_tick clock (dl_timers dl))"
| "dial_handle P w (RetryDue oid) dl = setup_outgoing_connection P w oid dl"
| "dial_handle P w (ConnClosed cid) dl = terminate_conn P w cid dl"
| "dial_handle P w (Confirmed oid addr) dl = Some (confirm_outgoing_address oid addr dl)"
| "dial_handle P w (Reaped oid) dl = Some (drop_slot oid dl)"
| "dial_handle P w (PeriodicDue dht) dl = map_option snd (on_periodic_tick P w dht dl)"
| "dial_handle P w RetryAll dl = on_retry dl"
| "dial_handle P w (ReloadConnect new_ct) dl = reload_connect_to P w new_ct dl"
| "dial_handle P w (ConnectPeer name) dl = connect_to P w name dl"

text \<open>How many timers an event arms at most. The counter of armings is 64 bits wide.\<close>

fun dial_cost :: "dial_event \<Rightarrow> 'g dialer \<Rightarrow> nat" where
  "dial_cost (RetryDue oid) dl = 1"
| "dial_cost (ConnClosed cid) dl = 1"
| "dial_cost (PeriodicDue dht) dl = length (dl_outgoings dl) + 2"
| "dial_cost RetryAll dl = length (dl_outgoings dl)"
| "dial_cost (ReloadConnect new_ct) dl = length new_ct"
| "dial_cost (ConnectPeer name) dl = 1"
| "dial_cost e dl = 0"

definition dial_fits :: "dial_event \<Rightarrow> 'g dialer \<Rightarrow> bool" where
  "dial_fits e dl \<longleftrightarrow> seq (dl_timers dl) + dial_cost e dl < 2 ^ 64 \<and> (case e of Fires clock \<Rightarrow> fits_instant (clock + YEAR) | _ \<Rightarrow> True)"

inductive dialing :: "'g prims \<Rightarrow> 'g dialer \<Rightarrow> bool" for P :: "'g prims" where
  dialing_start: "timers_inv (dl_timers dl) \<Longrightarrow> wheel (dl_timers dl) (dl_periodictimer dl) = Some (Periodic, a) \<Longrightarrow>
    (\<forall>i oid a. wheel (dl_timers dl) i \<noteq> Some (RetryOutgoing oid, a)) \<Longrightarrow> dl_outgoings dl = [] \<Longrightarrow> dl_outgoing_timers dl = [] \<Longrightarrow> dialing P dl"
| dialing_step: "dialing P dl \<Longrightarrow> dial_fits e dl \<Longrightarrow> dial_handle P w e dl = Some dl' \<Longrightarrow> dialing P dl'"
| dialing_daemon: "dialing P dl \<Longrightarrow> dialing P (dl\<lparr>dl_daemon := d\<rparr>)"

lemma dial_handle_ok:
  assumes "dialer_ok dl" "dial_fits e dl" "dial_handle P w e dl = Some dl'"
  shows "dialer_ok dl'"
proof -
  have n: "seq (dl_timers dl) + dial_cost e dl < 2 ^ 64" using assms(2) by (simp add: dial_fits_def)
  have "\<exists>n. keeps n dl dl'"
  proof (cases e)
    case (Fires clock)
    then obtain r t where "timers_tick clock (dl_timers dl) = Some (r, t)" "dl' = dl\<lparr>dl_timers := t\<rparr>" using assms(3) by auto
    moreover have "fits_instant (clock + YEAR)" using assms(2) Fires by (simp add: dial_fits_def)
    ultimately show ?thesis using tick_keeps [OF assms(1), of clock r t] by blast
  next
    case (PeriodicDue dht)
    then obtain slept where "on_periodic_tick P w dht dl = Some (slept, dl')" using assms(3) by auto
    thus ?thesis using periodic_tick_keeps [OF assms(1), of P w dht slept dl'] n PeriodicDue by (auto simp: add.assoc)
  next
    case RetryAll
    thus ?thesis using on_retry_runs [OF assms(1)] n assms(3) by auto
  next
    case (ReloadConnect new_ct)
    thus ?thesis using reload_keeps [OF assms(1), of new_ct P w dl'] n assms(3) by auto
  next
    case (Confirmed oid addr)
    thus ?thesis using same_slots_keeps [OF assms(1) confirm_same] assms(3) by auto
  next
    case (Reaped oid)
    thus ?thesis using drop_slot_keeps [OF assms(1)] assms(3) by auto
  next
    case (RetryDue oid)
    thus ?thesis using setup_keeps [OF assms(1), of P w oid dl'] n assms(3) by auto
  next
    case (ConnClosed cid)
    thus ?thesis using terminate_conn_keeps [OF assms(1), of P w cid dl'] n assms(3) by auto
  next
    case (ConnectPeer name)
    thus ?thesis using connect_to_keeps [OF assms(1), of P w name dl'] n assms(3) by auto
  qed
  thus ?thesis by (auto simp: keeps_def)
qed

lemma dialing_ok: "dialing P dl \<Longrightarrow> dialer_ok dl"
proof (induction rule: dialing.induct)
  case (dialing_start dl a)
  thus ?case by (auto simp: dialer_ok_def paired_def)
next
  case (dialing_step dl e w dl')
  thus ?case using dial_handle_ok by blast
next
  case (dialing_daemon dl d)
  thus ?case using same_slots_ok by force
qed

text \<open>
  However timers, closed connections, acknowledgements, autoconnect, retry requests and reloads
  interleave, no key is that of two slots, and a key is that of a slot exactly if one timer, and only one,
  carries it.
\<close>

lemma slots_keep_timers:
  assumes "dialing P dl"
  shows "distinct (map fst (dl_outgoings dl)) \<and>
    (\<forall>oid. map_of (dl_outgoings dl) oid \<noteq> None \<longleftrightarrow> (\<exists>!tid. \<exists>a. wheel (dl_timers dl) tid = Some (RetryOutgoing oid, a)))"
proof -
  have ok: "paired (fst ` set (dl_outgoings dl)) (dl_outgoing_timers dl) (wheel (dl_timers dl))" "distinct (map fst (dl_outgoings dl))"
    using dialing_ok [OF assms] by (auto simp: dialer_ok_def)
  have "map_of (dl_outgoings dl) oid \<noteq> None \<longleftrightarrow> map_of (dl_outgoing_timers dl) oid \<noteq> None" for oid
    using ok(1) by (simp add: paired_def map_of_eq_None_iff)
  moreover have "map_of (dl_outgoing_timers dl) oid \<noteq> None \<longleftrightarrow> (\<exists>!tid. \<exists>a. wheel (dl_timers dl) tid = Some (RetryOutgoing oid, a))" for oid
  proof -
    have "(\<exists>a. wheel (dl_timers dl) tid = Some (RetryOutgoing oid, a)) \<longleftrightarrow> map_of (dl_outgoing_timers dl) oid = Some tid" for tid
      using ok(1) by (simp add: paired_def)
    hence "(\<exists>!tid. \<exists>a. wheel (dl_timers dl) tid = Some (RetryOutgoing oid, a)) \<longleftrightarrow> (\<exists>!tid. map_of (dl_outgoing_timers dl) oid = Some tid)" by (simp only:)
    thus ?thesis by (cases "map_of (dl_outgoing_timers dl) oid") auto
  qed
  ultimately show ?thesis using ok(2) by simp
qed

text \<open>
  The handling of a slot's timer returns, and afterwards the peer was connected already, or a
  connection carries the slot, or its timer is armed again with the back-off grown by five seconds up to
  \<open>MaxTimeout\<close>: no slot whose peer is away is forgotten.
\<close>

lemma dial_progress:
  assumes "dialing P dl" "map_of (dl_outgoings dl) oid = Some out" "o_timeout out + 5 \<le> 4294967295" "seq (dl_timers dl) + 1 < 2 ^ 64"
  shows "\<exists>dl'. setup_outgoing_connection P w oid dl = Some dl' \<and> dialing P dl' \<and>
    (peer_conn (o_node_name out) (dl_daemon dl) = None \<longrightarrow> served dl' oid \<or> armed_after oid (backoff_of out dl) dl')"
proof -
  obtain dl' where s: "setup_outgoing_connection P w oid dl = Some dl'" "keeps 1 dl dl'"
    "peer_conn (o_node_name out) (dl_daemon dl) \<noteq> None \<and> dl' = drain_dns_worker (w_resolved w) dl \<or>
     peer_conn (o_node_name out) (dl_daemon dl) = None \<and> (served dl' oid \<or> armed_after oid (backoff_of out dl) dl')"
    by (rule setup_runs [OF dialing_ok [OF assms(1)] assms(4,2,3)])
  have "dialing P dl'" by (rule dialing_step [OF assms(1), of "RetryDue oid" w]) (use s(1) assms(4) in \<open>simp_all add: dial_fits_def\<close>)
  thus ?thesis using s(1,3) by (intro exI [of _ dl'] conjI) auto
qed


lemma peer_conn_active:
  assumes "dinv d"
  shows "peer_conn nm d = Some i \<longleftrightarrow> (\<exists>c. map_of (d_conns d) i = Some c \<and> c_active c \<and> c_name c = nm)"
proof
  note o = own_edgesD [OF dinvD(3) [OF assms]] and n = names_agreeD(2) [OF dinvD(2) [OF assms]]
  assume "peer_conn nm d = Some i"
  then obtain t ns where t: "map_of (d_node_ids d) nm = Some t" "d_nodes d t = Some ns" "ns_conn ns = Some i"
    by (auto simp: peer_conn_def Option.bind_eq_Some_conv)
  then obtain e where "ns_edge ns = Some e" using o(2) [OF t(2)] by fastforce
  then obtain nm' r w where "CV d i = Some (nm', True, w)" "NV d t = Some (nm', r)" using o(4) [OF t(2)] t(3) by auto
  moreover have "\<exists>r. NV d t = Some (nm, r)" using n t(1) by blast
  ultimately show "\<exists>c. map_of (d_conns d) i = Some c \<and> c_active c \<and> c_name c = nm" using view_active by fastforce
next
  note o = own_edgesD [OF dinvD(3) [OF assms]] and n = names_agreeD(2) [OF dinvD(2) [OF assms]]
  assume "\<exists>c. map_of (d_conns d) i = Some c \<and> c_active c \<and> c_name c = nm"
  then obtain w where "CV d i = Some (nm, True, w)" using active_view by blast
  then obtain t r ns where t: "NV d t = Some (nm, r)" "d_nodes d t = Some ns" "ns_conn ns = Some i" using o(6) by blast
  have "map_of (d_node_ids d) nm = Some t" using n t(1) by blast
  thus "peer_conn nm d = Some i" using t by (simp add: peer_conn_def)
qed

lemma cut_conn:
  assumes "cut cid d d'" "map_of (d_conns d') i = Some c'"
  obtains c where "i \<noteq> cid" "map_of (d_conns d) i = Some c" "same_conn c c'"
proof -
  obtain d1 where d1: "d_conns d1 = AList.delete cid (d_conns d)" "kept d1 d'" using assms(1) unfolding cut_def by blast
  have "rel_option same_conn (map_of (d_conns d1) i) (map_of (d_conns d') i)" using d1(2) by (simp add: kept_def)
  then obtain c where "map_of (d_conns d1) i = Some c" "same_conn c c'" using assms(2) by (auto simp: option_rel_Some2)
  thus thesis using that d1(1) by (auto simp: delete_conv' restrict_map_def split: if_splits)
qed

lemma terminate_leaves:
  assumes "dinv d" "ready 2 cid d" "map_of (d_conns d) cid = Some c" "c_active c"
  obtains d' where "terminate P cid d = Some d'" "dinv d'" "peer_conn (c_name c) d' = None"
    "\<forall>(i, c') \<in> set (d_conns d'). \<exists>c. (i, c) \<in> set (d_conns d) \<and> c_outgoing c = c_outgoing c'"
proof -
  obtain d' where d': "terminate P cid d = Some d'" "dinv d'" "cut cid d d'"
    using runsD(1) [OF terminate_runs [OF assms(1), where ok = True and k = 0 and ?c0.0 = cid and cid = cid and P = P]] assms(2) by (auto simp: numeral_2_eq_2)
  have "peer_conn (c_name c) d' \<noteq> Some i" for i
  proof
    assume "peer_conn (c_name c) d' = Some i"
    then obtain c' where c': "map_of (d_conns d') i = Some c'" "c_active c'" "c_name c' = c_name c" using peer_conn_active [OF d'(2)] by blast
    obtain c2 where c2: "i \<noteq> cid" "map_of (d_conns d) i = Some c2" "same_conn c2 c'" by (rule cut_conn [OF d'(3) c'(1)])
    show False using active_names_unique [OF assms(1,3,4) c2(2)] same_conn_eqs(1,2) [OF c2(3)] c' c2(1) by simp
  qed
  moreover have "\<exists>c. (i, c) \<in> set (d_conns d) \<and> c_outgoing c = c_outgoing c'" if m: "(i, c') \<in> set (d_conns d')" for i c'
  proof -
    have "map_of (d_conns d') i = Some c'" by (rule map_of_is_SomeI [OF dinv_conn_keys [OF d'(2)] m])
    then obtain c2 where "map_of (d_conns d) i = Some c2" "same_conn c2 c'" by (rule cut_conn [OF d'(3)])
    thus ?thesis using map_of_SomeD same_conn_eqs(4) by metis
  qed
  ultimately show thesis using that [OF d'(1,2)] by (cases "peer_conn (c_name c) d'") auto
qed

lemma fired_disarms:
  assumes "dialer_ok dl" "fits_instant (clock + YEAR)" "timers_tick clock (dl_timers dl) = Some ((fired, timeout), t')" "RetryOutgoing oid \<in> set fired"
  shows "\<not> slot_armed oid (dl\<lparr>dl_timers := t'\<rparr>)"
proof -
  have ok: "timers_inv (dl_timers dl)" "paired (fst ` set (dl_outgoings dl)) (dl_outgoing_timers dl) (wheel (dl_timers dl))"
    using assms(1) by (auto simp: dialer_ok_def)
  note w = wheel_tick [OF ok(1) assms(2,3)]
  let ?due = "due_timers clock (wheel (dl_timers dl))"
  have "set (sorted_list_of_set ?due) \<subseteq> ?due" by (cases "finite ?due") simp_all
  then obtain k i where "(k, i) \<in> ?due" "fst (the (wheel (dl_timers dl) i)) = RetryOutgoing oid" using assms(4) unfolding w(5) by fastforce
  hence i: "wheel (dl_timers dl) i = Some (RetryOutgoing oid, Some k)" "fst k \<le> clock" by (auto simp: due_timers_def armed_def)
  hence "map_of (dl_outgoing_timers dl) oid = Some i" using ok(2) by (auto simp: paired_def)
  thus ?thesis using i by (simp add: slot_armed_def w(2) disarm_due_def)
qed

text \<open>
  C35: a slot that nothing drives any more. Its peer has connected to this node when its timer fires: the
  timer's handler only logs that and returns, with the slot neither attached to that connection nor its
  timer armed. When that connection closes, the slot is still there, but no connection carries it, its
  peer is not connected and its timer is not armed. Unless an operator asks for a retry or the host wakes from
  sleep, which arm every slot's timer, the peer of a \<open>ConnectTo\<close> line is not dialled again. This holds while the
  sessions have two records left under their keys, and the resolver has brought nothing in between.
\<close>

theorem slot_stranded:
  assumes "dialing P dl" "dinv (dl_daemon dl)" "map_of (dl_outgoings dl) oid = Some out" "\<not> served dl oid"
    "map_of (d_conns (dl_daemon dl)) cid = Some c" "c_active c" "c_outgoing c = None" "c_name c = o_node_name out" "ready 2 cid (dl_daemon dl)"
    "timers_tick clock (dl_timers dl) = Some ((fired, timeout), t)" "RetryOutgoing oid \<in> set fired" "fits_instant (clock + YEAR)" "w_resolved w = []"
  shows "\<exists>dl'. setup_outgoing_connection P w oid (dl\<lparr>dl_timers := t\<rparr>) = Some (dl\<lparr>dl_timers := t\<rparr>) \<and>
    terminate_conn P w cid (dl\<lparr>dl_timers := t\<rparr>) = Some dl' \<and> map_of (dl_outgoings dl') oid = Some out \<and>
    \<not> served dl' oid \<and> peer_conn (o_node_name out) (dl_daemon dl') = None \<and> \<not> slot_armed oid dl'"
proof -
  have p: "peer_conn (o_node_name out) (dl_daemon dl) = Some cid" using peer_conn_active [OF assms(2)] assms(5,6,8) by blast
  hence s: "setup_outgoing_connection P w oid (dl\<lparr>dl_timers := t\<rparr>) = Some (dl\<lparr>dl_timers := t\<rparr>)"
    using assms(3,13) by (simp add: setup_outgoing_connection_def Let_def)
  obtain d' where d': "terminate P cid (dl_daemon dl) = Some d'" "dinv d'" "peer_conn (c_name c) d' = None"
    "\<forall>(i, c') \<in> set (d_conns d'). \<exists>c. (i, c) \<in> set (d_conns (dl_daemon dl)) \<and> c_outgoing c = c_outgoing c'"
    by (rule terminate_leaves [where P = P, OF assms(2,9,5,6)])
  let ?dl = "dl\<lparr>dl_timers := t, dl_daemon := d'\<rparr>"
  have "terminate_conn P w cid (dl\<lparr>dl_timers := t\<rparr>) = Some ?dl" using d'(1) assms(5,7) by (simp add: terminate_conn_def Let_def)
  moreover have "\<not> served ?dl oid" using d'(4) assms(4) by (fastforce simp: served_def list_ex_iff)
  moreover have "\<not> slot_armed oid ?dl" using fired_disarms [OF dialing_ok [OF assms(1)] assms(12,10,11)] by (simp add: slot_armed_def)
  ultimately show ?thesis using s assms(3,8) d'(3) by (intro exI [of _ ?dl]) simp
qed


section \<open>A slot that waits\<close>

definition demo_world :: world where
  "demo_world = \<lparr>w_dial = \<lambda>_. False, w_register = \<lambda>_. True, w_pipe = \<lambda>_. False, w_has_key = \<lambda>_. False, w_config_addrs = \<lambda>_. [],
     w_cache_file = \<lambda>_. None, w_cache_path = \<lambda>n. n, w_resolved = [], w_rates = \<lambda>_. (0, 0)\<rparr>"

definition demo_dialer :: "nat dialer" where
  "demo_dialer = \<lparr>dl_daemon = demo_daemon, dl_outgoings = [], dl_outgoing_timers = [],
     dl_timers = \<lparr>by_deadline = [], slots = [Some \<lparr>what = Periodic, at = None\<rparr>], free = [], seq = 0, now = 0\<rparr>,
     dl_periodictimer = 0, dl_dns_hints = [], dl_dht_hints = [], dl_proxy_addrs = [], dl_discovery = False, dl_dht_discovery = False,
     dl_has_address = [], dl_has_dht_key = [], dl_shortcut_backoff = [], dl_sleeptime = 10, dl_maxtimeout = 900, dl_pingtimeout = 5,
     dl_proxy = None, dl_next_key = 0, dl_requests = []\<rparr>"

definition bob_cache :: "socket_addr addr_cache" where
  "bob_cache = \<lparr>recent = [], known = [], config = [], resolved = [], hostnames = [], cursor = 0, cache_path = Some ''bob''\<rparr>"

lemma bob_cache_ops:
  "cache_open ''bob'' None [] = bob_cache" "add_known_addresses [] bob_cache = bob_cache" "cache_reset bob_cache = bob_cache"
  "next_addr bob_cache = (None, bob_cache)" "hostnames bob_cache = []"
  by (simp_all add: bob_cache_def cache_open_def split_config_def load_def add_known_addresses_def cache_reset_def next_addr_candidates candidates_def)

definition demo_slot :: outgoing where
  "demo_slot = \<lparr>o_node_name = ''bob'', o_origin = ConfigConnectTo, o_timeout = 5,
     o_addr_cache = bob_cache\<rparr>"

definition demo_waiting :: "nat dialer" where
  "demo_waiting = demo_dialer\<lparr>dl_outgoings := [(0, demo_slot)], dl_outgoing_timers := [(0, 1)],
     dl_timers := \<lparr>by_deadline = [((5000000000, 1), 1)],
       slots = [Some \<lparr>what = Periodic, at = None\<rparr>, Some \<lparr>what = RetryOutgoing 0, at = Some (5000000000, 1)\<rparr>], free = [], seq = 1, now = 0\<rparr>,
     dl_next_key := 1\<rparr>"

lemma demo_start: "dialing P demo_dialer"
proof (rule dialing_start)
  show "timers_inv (dl_timers demo_dialer)"
    by (auto simp: demo_dialer_def timers_inv_def slab_ok_def bt_ok_def slot_def fits_instant_def YEAR_def from_secs_def nth_Cons split: nat.splits if_splits)
qed (auto simp: demo_dialer_def wheel_def timers_abs_def slot_def nth_Cons split: nat.splits option.splits)

lemma dial_loop_none: "next_addr c = (None, c') \<Longrightarrow> dial_loop w proxy pas key c = (Exhausted, key, c')"
  by (simp add: dial_loop.simps [of w proxy pas key c])

definition demo_added :: "nat dialer" where
  "demo_added = demo_dialer\<lparr>dl_outgoings := [(0, demo_slot\<lparr>o_timeout := 0\<rparr>)], dl_outgoing_timers := [(0, 1)],
     dl_timers := \<lparr>by_deadline = [], slots = [Some \<lparr>what = Periodic, at = None\<rparr>, Some \<lparr>what = RetryOutgoing 0, at = None\<rparr>], free = [], seq = 0, now = 0\<rparr>,
     dl_next_key := 1\<rparr>"

lemma demo_added_dials:
  "retry_outgoing demo_world 0 demo_added = Some demo_waiting"
  "do_outgoing_connection demo_prims demo_world 0 demo_added = retry_outgoing demo_world 0 demo_added"
  "setup_outgoing_connection demo_prims demo_world 0 demo_added = do_outgoing_connection demo_prims demo_world 0 demo_added"
proof -
  have o: "dl_outgoings demo_added = [(0, demo_slot\<lparr>o_timeout := 0\<rparr>)]" "dl_next_key demo_added = 1" by (simp_all add: demo_added_def)
  have p: "put_outgoing 0 (demo_slot\<lparr>o_timeout := 0\<rparr>) demo_added = demo_added" "o_addr_cache demo_slot = bob_cache"
    "demo_slot\<lparr>o_timeout := 0, o_addr_cache := bob_cache\<rparr> = demo_slot\<lparr>o_timeout := 0\<rparr>" "o_node_name demo_slot = ''bob''"
    by (simp_all add: put_outgoing_def demo_added_def demo_slot_def)
  have k: "demo_added\<lparr>dl_next_key := Suc 0\<rparr> = demo_added" by (simp add: demo_added_def)
  show "do_outgoing_connection demo_prims demo_world 0 demo_added = retry_outgoing demo_world 0 demo_added"
    by (simp add: do_outgoing_connection_def o p dial_loop_none [OF bob_cache_ops(4)], simp only: k)
  have d: "map_of (d_node_ids (dl_daemon demo_added)) ''bob'' = Some 1" "peer_conn ''bob'' (dl_daemon demo_added) = None"
    "known_addresses ''bob'' (Some 1) demo_added = []" "w_resolved demo_world = []"
    by (simp_all add: demo_added_def demo_dialer_def demo_daemon_def peer_conn_def known_addresses_def edge_walk_def hints_for_def
        node_edges_def graph_new_def get_node_def slot_def map_filter_simps demo_world_def)
  show "setup_outgoing_connection demo_prims demo_world 0 demo_added = do_outgoing_connection demo_prims demo_world 0 demo_added"
    using d by (simp add: setup_outgoing_connection_def o p bob_cache_ops)
  show "retry_outgoing demo_world 0 demo_added = Some demo_waiting"
    by (simp add: retry_outgoing_def o bump_timeout_def p bob_cache_ops)
      (simp add: demo_slot_def demo_added_def demo_dialer_def demo_waiting_def put_outgoing_def arm_retry_def after_retry_def request_proxy_resolve_def
        timers_set_def slot_def bob_cache_ops deadline_def checked_add_def from_secs_def fits_instant_def Let_def)
qed

lemma demo_connect: "connect_to demo_prims demo_world ''bob'' demo_dialer = Some demo_waiting"
proof -
  have "add_slot demo_prims demo_world ''bob'' ConfigConnectTo demo_dialer = setup_outgoing_connection demo_prims demo_world 0 demo_added"
    by (simp add: add_slot_def timers_add_def demo_dialer_def demo_added_def demo_slot_def demo_world_def bob_cache_ops)
  moreover have "lookup_or_add_node demo_prims ''bob'' (dl_daemon demo_dialer) = Some (1, dl_daemon demo_dialer)"
    by (simp add: lookup_or_add_node_def demo_dialer_def demo_daemon_def)
  ultimately show ?thesis by (simp add: connect_to_def demo_added_dials)
qed

lemma demo_waiting_dialing: "dialing demo_prims (demo_waiting\<lparr>dl_daemon := d\<rparr>)"
proof -
  have "dialing demo_prims demo_waiting"
    by (rule dialing_step [OF demo_start, of "ConnectPeer ''bob''" _ demo_world]) (simp add: dial_fits_def demo_dialer_def, simp add: demo_connect)
  thus ?thesis by (rule dialing_daemon)
qed

lemma demo_tick:
  obtains timeout t where "timers_tick 5000000000 (dl_timers (demo_waiting\<lparr>dl_daemon := d\<rparr>)) = Some (([RetryOutgoing 0], timeout), t)"
  by (simp add: demo_waiting_def timers_tick_def slot_def)

text \<open>A daemon with one active connection, from \<open>bob\<close>.\<close>

lemma demo_active:
  obtains d c where "dinv (d :: nat daemon)" "d_conns d = [(1, c)]" "c_active c" "c_outgoing c = None" "c_name c = ''bob''" "ready 2 1 d"
proof -
  obtain d0 :: "nat daemon" where d0: "dinv d0" "d_name d0 = ''alice''" "d_conns d0 = []" "length (d_node_ids d0) = 1" "EV d0 = Map.empty"
    by (rule daemon_new_ok [where P = demo_prims and name = "''alice''" and port = 655 and subs = "[]" and bcasts = "[]" and settings = demo_settings and now = 0 and rng = 0])
      (simp_all add: MAX_STRING_def)
  define d1 where "d1 = d0\<lparr>d_conns := [(1, demo_peer ''bob'' False)]\<rparr>"
  have i1: "dinv d1"
    by (rule conns_change [OF d0(1), of _ 1 "demo_peer ''bob'' False"])
      (auto simp: d1_def d0 CV_def conn_fit_def demo_peer_fields MAX_STRING_def i32_range_def addr_ok_def fun_eq_iff)
  obtain t d2 where d2: "dinv d2" "map_of (d_node_ids d2) ''bob'' = Some t" "EV d2 = EV d1" "nodes_only d1 d2"
    using runsD(1) [OF lookup_or_add_node_runs [OF i1, where ok = True and nm = "''bob''" and P = demo_prims]] d0(4) by (auto simp: d1_def MAX_STRING_def)
  obtain r where t: "NV d2 t = Some (''bob'', r)" using names_agreeD(2) [OF dinvD(2) [OF d2(1)]] d2(2) by blast
  have c2: "d_conns d2 = [(1, demo_peer ''bob'' False)]" using nodes_only_eqs(1) [OF d2(4)] by (simp add: d1_def)
  have e2: "EV d2 = Map.empty" using d2(3) d0(5) by (simp add: d1_def)
  have "runs True (ack_attach 1 (c_name (demo_peer ''bob'' False)) t None None 0 0 d2) (\<lambda>(eid, d'). dinv (d'\<lparr>d_graph_dirty := True\<rparr>) \<and> (True \<longrightarrow> ready 2 1 d') \<and>
      attached 1 t (c_name (demo_peer ''bob'' False)) 0 0 d2 d')"
    by (rule ack_attach_runs [OF d2(1)]) (use t c2 e2 demo_peer_ready in \<open>auto simp: demo_peer_fields i32_range_def addr_ok_def ready_def\<close>)
  then obtain e d3 where d3: "ack_attach 1 ''bob'' t None None 0 0 d2 = Some (e, d3)" "dinv (d3\<lparr>d_graph_dirty := True\<rparr>)" "ready 2 1 d3"
    using runsD(1) by (fastforce simp: demo_peer_fields)
  define c where "c = (demo_peer ''bob'' False)\<lparr>c_active := True, c_activated_at := Some (d_now d2), c_counted_pending := False\<rparr>"
  have c: "c_active c" "c_outgoing c = None" "c_name c = ''bob''" by (simp_all add: c_def demo_peer_def demo_end_def conn_new_base_def)
  have "d_conns d3 = [(1, c)]"
    using d3(1) c2 by (auto simp: c_def ack_attach_def Option.bind_eq_Some_conv activate_conn_def set_conn_def emit_def Let_def)
  thus thesis by (intro that [OF d3(2) _ c]) (use d3(3) in \<open>simp_all add: ready_def\<close>)
qed

theorem slot_stranded_witness:
  "\<exists>dl c t dl'. dialing demo_prims dl \<and> map_of (d_conns (dl_daemon dl)) 1 = Some c \<and> c_active c \<and> c_name c = ''bob'' \<and>
     (\<exists>timeout. timers_tick 5000000000 (dl_timers dl) = Some (([RetryOutgoing 0], timeout), t)) \<and>
     setup_outgoing_connection demo_prims demo_world 0 (dl\<lparr>dl_timers := t\<rparr>) = Some (dl\<lparr>dl_timers := t\<rparr>) \<and>
     terminate_conn demo_prims demo_world 1 (dl\<lparr>dl_timers := t\<rparr>) = Some dl' \<and> map_of (dl_outgoings dl') 0 = Some demo_slot \<and>
     \<not> served dl' 0 \<and> peer_conn ''bob'' (dl_daemon dl') = None \<and> \<not> slot_armed 0 dl'"
proof -
  obtain d c where d: "dinv (d :: nat daemon)" "d_conns d = [(1, c)]" "c_active c" "c_outgoing c = None" "c_name c = ''bob''" "ready 2 1 d" by (rule demo_active)
  let ?dl = "demo_waiting\<lparr>dl_daemon := d\<rparr>"
  obtain timeout t where t: "timers_tick 5000000000 (dl_timers ?dl) = Some (([RetryOutgoing 0], timeout), t)" by (rule demo_tick)
  have o: "map_of (dl_outgoings ?dl) 0 = Some demo_slot" "o_node_name demo_slot = ''bob''" "\<not> served ?dl 0"
    using d(2,4) by (simp_all add: demo_waiting_def demo_slot_def served_def)
  have "\<exists>dl'. setup_outgoing_connection demo_prims demo_world 0 (?dl\<lparr>dl_timers := t\<rparr>) = Some (?dl\<lparr>dl_timers := t\<rparr>) \<and>
     terminate_conn demo_prims demo_world 1 (?dl\<lparr>dl_timers := t\<rparr>) = Some dl' \<and> map_of (dl_outgoings dl') 0 = Some demo_slot \<and>
     \<not> served dl' 0 \<and> peer_conn (o_node_name demo_slot) (dl_daemon dl') = None \<and> \<not> slot_armed 0 dl'"
    by (rule slot_stranded [OF demo_waiting_dialing _ o(1,3) _ d(3,4) _ _ t])
      (use d o(2) in \<open>simp_all add: demo_world_def fits_instant_def YEAR_def from_secs_def\<close>)
  then obtain dl' where r: "setup_outgoing_connection demo_prims demo_world 0 (?dl\<lparr>dl_timers := t\<rparr>) = Some (?dl\<lparr>dl_timers := t\<rparr>)"
      "terminate_conn demo_prims demo_world 1 (?dl\<lparr>dl_timers := t\<rparr>) = Some dl'" "map_of (dl_outgoings dl') 0 = Some demo_slot"
      "\<not> served dl' 0" "peer_conn ''bob'' (dl_daemon dl') = None" "\<not> slot_armed 0 dl'" unfolding o(2) by blast
  show ?thesis by (intro exI [of _ ?dl] exI [of _ c] exI [of _ t] exI [of _ dl'] conjI demo_waiting_dialing exI [of _ timeout] t r d(3,5)) (simp add: d(2))
qed

section \<open>Slots, timers and progress\<close>

text \<open>
  C11: no outgoing slot is forgotten. However timers, closed connections, acknowledgements, autoconnect,
  retry requests and reloads interleave, no key is that of two slots, and a key is that of a slot exactly
  if one timer, and only one, carries it. When a slot's timer is handled, with the back-off and the counter of
  armings below their widths, the handler returns, and afterwards the peer was connected already, or a
  connection carries the slot, or its timer is armed again with the back-off grown by five seconds up to
  \<open>MaxTimeout\<close>.
\<close>

theorem slots_kept_alive:
  assumes "dialing P dl"
  shows "distinct (map fst (dl_outgoings dl)) \<and>
    (\<forall>oid. map_of (dl_outgoings dl) oid \<noteq> None \<longleftrightarrow> (\<exists>!tid. \<exists>a. wheel (dl_timers dl) tid = Some (RetryOutgoing oid, a))) \<and>
    (\<forall>oid out w. map_of (dl_outgoings dl) oid = Some out \<and> o_timeout out + 5 \<le> 4294967295 \<and> seq (dl_timers dl) + 1 < 2 ^ 64 \<longrightarrow>
       (\<exists>dl'. setup_outgoing_connection P w oid dl = Some dl' \<and> dialing P dl' \<and>
         (peer_conn (o_node_name out) (dl_daemon dl) = None \<longrightarrow> served dl' oid \<or> armed_after oid (backoff_of out dl) dl')))"
  using slots_keep_timers [OF assms] dial_progress [OF assms] by blast

theorem slots_kept_alive_witness:
  "(\<exists>!tid. \<exists>a. wheel (dl_timers demo_waiting) tid = Some (RetryOutgoing 0, a)) \<and>
   \<not> (\<exists>!tid. \<exists>a. wheel (dl_timers demo_waiting) tid = Some (RetryOutgoing 1, a)) \<and>
   (\<exists>dl'. setup_outgoing_connection demo_prims demo_world 0 demo_waiting = Some dl' \<and> dialing demo_prims dl' \<and>
     (served dl' 0 \<or> armed_after 0 (from_secs 10) dl'))"
proof -
  have d: "dialing demo_prims demo_waiting" using demo_waiting_dialing [of "dl_daemon demo_waiting"] by simp
  note k = slots_kept_alive [OF d]
  have m: "map_of (dl_outgoings demo_waiting) 0 = Some demo_slot" "map_of (dl_outgoings demo_waiting) 1 = None" by (simp_all add: demo_waiting_def)
  have p: "peer_conn (o_node_name demo_slot) (dl_daemon demo_waiting) = None"
    by (simp add: demo_waiting_def demo_slot_def demo_dialer_def demo_daemon_def peer_conn_def)
  have b: "backoff_of demo_slot demo_waiting = from_secs 10" by (simp add: backoff_of_def demo_slot_def demo_waiting_def demo_dialer_def)
  have s: "o_timeout demo_slot + 5 \<le> 4294967295" "seq (dl_timers demo_waiting) + 1 < 2 ^ 64" by (simp_all add: demo_slot_def demo_waiting_def)
  have "\<exists>!tid. \<exists>a. wheel (dl_timers demo_waiting) tid = Some (RetryOutgoing 0, a)"
    using conjunct1 [OF conjunct2 [OF k]] m(1) by (metis option.distinct(1))
  moreover have "\<not> (\<exists>!tid. \<exists>a. wheel (dl_timers demo_waiting) tid = Some (RetryOutgoing 1, a))"
    using conjunct1 [OF conjunct2 [OF k]] m(2) by metis
  ultimately show ?thesis using conjunct2 [OF conjunct2 [OF k], rule_format, of 0 demo_slot demo_world] m(1) p b s by auto
qed

end
