(* ===== verification/Spec2Isabelle.thy ===== *)
theory Spec2Isabelle
  imports Base64 Data_Path Dialing
begin

text \<open>
  Verification of tincr, a mesh VPN daemon in Rust (\<open>src/crates\<close>). Nodes keep encrypted meta connections
  to some of the others, flood what they know of the mesh over them (edges, subnets, keys), compute routes
  on the resulting graph and send packets through per-node tunnels over UDP or, failing that, over the
  meta connections. The development follows that structure.

  \<^bold>\<open>Conventions.\<close> A definition is the function of the source it is named after; a struct is a record, an
  enum a datatype. \<open>None\<close> of an outer option is a panic of the code; errors are values. Machine integers are
  words where the code lets them wrap and naturals or integers where it only compares or saturates, with the
  saturation written out. Instants and durations are nanoseconds as naturals, strings are byte lists, and
  whatever a system call returns is an argument. \<open>BTreeMap\<close> and \<open>BTreeSet\<close> are sorted association lists,
  slabs with free lists are kept as they are. Cryptographic primitives of other crates are the fields of the
  record \<open>prims\<close> (theory \<open>Crypto\<close>); what is assumed of them (lengths, correctness of opening what was sealed,
  agreement of the key exchange) is a named hypothesis of the theorems that need it and holds for the toy
  primitives \<open>demo_prims\<close> of the witnesses. The floating-point power in the probe sizes is a parameter with
  the hypothesis \<open>powf_ok\<close>.

  \<^bold>\<open>Libraries.\<close> \<open>Prelude\<close> (bytes and words), \<open>Ordered_Map\<close> (ordered maps, slabs; locales for both), \<open>Clock\<close>,
  \<open>Rust_Text\<close> and \<open>Ip_Text\<close> (the standard library's splitting, number and address parsers and printers).

  \<^bold>\<open>Sessions\<close> (\<open>tinc-sptps\<close>, \<open>tinc-crypto\<close>). \<open>Replay_Window\<close>: the window accepts a number at most once, a
  fresh one in range always, and wraps wrongly across \<open>2 ^ 32\<close>. \<open>Crypto\<close> and \<open>Field25519\<close>: PRF, ciphers, key
  exchange, and the 51-bit limb arithmetic with its bounds. \<open>Sptps\<close>: the session record and every operation,
  a weakest-precondition calculus, and the invariant that keeps them from panicking. \<open>Sptps_Handshake\<close>: both
  sides of a handshake end with matching keys. \<open>Sptps_Data\<close>: no public call panics, records are
  authenticated, sealing and opening are inverse, nonces do not repeat. \<open>Base64\<close>: the codec of keys.

  \<^bold>\<open>Topology\<close> (\<open>tincd/src/graph\<close>). \<open>Mesh_Graph\<close> is the slab graph, \<open>Mesh_Invariant\<close> its invariant,
  \<open>Mesh_Refinement\<close> the abstract mesh it implements; \<open>Mesh_Sssp\<close> and \<open>Mesh_Mst\<close> the route search and the
  spanning tree; \<open>Graph_View\<close> the views the daemon's proofs use.

  \<^bold>\<open>Routing\<close>. \<open>Subnets\<close>, \<open>Subnet_Text\<close>, \<open>Subnet_Tree\<close>, \<open>Route_Decide\<close>: subnets and their text, the
  longest-prefix table and the forwarding decision on raw frames (\<open>tinc-proto/src/subnet.rs\<close>,
  \<open>tincd/src/subnet_tree.rs\<close>, \<open>tincd/src/route_decide.rs\<close>).

  \<^bold>\<open>Wire\<close> (\<open>tinc-proto\<close>). \<open>Wire_Tok\<close> and \<open>Wire_Msg\<close>: tokens and messages, with round trips and the type
  of everything that parses.

  \<^bold>\<open>Meta connections\<close> (\<open>tincd/src/conn.rs\<close>). \<open>Meta_Conn\<close>: buffers, the capped output queue, sending and
  feeding; the line buffer implements the interface \<open>byte_queue\<close>. \<open>Meta_Link\<close>: what the receive path makes of a
  stream does not depend on how it is cut into reads, as long as the handlers in between leave what it reads
  alone (\<open>feed_reads\<close>, \<open>neutral\<close>), and what one end sends the other receives; with two defects, the end of a key
  and packets behind the acknowledgement.

  \<^bold>\<open>World model\<close> (\<open>tincd/src/daemon.rs\<close>, \<open>tincd/src/daemon\<close>). \<open>Daemon_State\<close>: nodes, edges, subnets, connections
  and settings of the daemon as one record. \<open>Daemon_Graph\<close>: recomputing routes and the transitions it causes.
  \<open>Seen_Requests\<close>, \<open>Rate_Limits\<close>, \<open>Timers\<close>, \<open>Pmtu\<close>: the anti-loop cache and MAC leases, the flood and
  connection limiters, the timer store as a refinement of an abstract wheel, and path-MTU discovery.

  \<^bold>\<open>Gossip and connections\<close> (\<open>daemon/gossip\<close>, \<open>dispatch.rs\<close>, \<open>daemon/connect.rs\<close>, \<open>daemon/purge.rs\<close>). \<open>Gossip\<close>: the
  flooded handlers, forwarding and broadcasting. \<open>Daemon_Conn\<close>: acknowledgement, ping, termination and purge. \<open>Gossip_Inv\<close>, \<open>Daemon_Inv\<close>: the invariant \<open>dinv\<close> over the views \<open>NV\<close>, \<open>EV\<close>, \<open>CV\<close> of nodes,
  edges and connections, and the rules \<open>runs\<close> that carry it through the option monad. \<open>Gossip_Safe\<close>,
  \<open>Daemon_Ack\<close>, \<open>Daemon_Steps\<close>: each handler keeps it. \<open>Daemon_Run\<close>: the start of the daemon and the states reachable from it, with the correspondence of
  own edges and connections, reachability at the end of a turn, the safety of gossip, and the defects (a record too
  long to forward, round-trip times that never rise).

  \<^bold>\<open>Data path\<close> (\<open>packet.rs\<close>, \<open>icmp.rs\<close>, \<open>neighbor.rs\<close>, \<open>fragment.rs\<close>, \<open>mss.rs\<close>, \<open>route_mac.rs\<close>, \<open>broadcast.rs\<close>,
  \<open>daemon/net\<close>). \<open>Packets\<close>: headers as bytes and the checksum in either byte order. \<open>Icmp_Synth\<close>, \<open>Neighbor\<close>: errors,
  ARP and neighbour discovery. \<open>Fragment\<close>: fragments and that their receiver gets the datagram back. \<open>Mss_Clamp\<close>: the
  rewrite of MSS options. \<open>Forwarding\<close>: the path of a frame from its arrival to the action that seals it, writes it or answers
  it; the actions are collected in order in \<open>p_out\<close>. \<open>Data_Path\<close>: the guards of the unicast path, that errors are
  accepted, that nothing but the clamp panics, and where the path does something else than it means to.

  \<^bold>\<open>Dialling\<close> (\<open>addrcache.rs\<close>, \<open>autoconnect.rs\<close>, \<open>outgoing.rs\<close>, \<open>daemon/connect.rs\<close>, \<open>daemon/tx_control.rs\<close>,
  \<open>daemon/periodic.rs\<close>). \<open>Addr_Cache\<close>: the tiers of addresses, a round that tries each once, and the file. \<open>Autoconnect\<close>:
  the decision and what it may do. \<open>Outgoing\<close>: slots, timers, back-off and every operation on them; what the outside
  answers (connects, resolver, files, rates) is the record \<open>world\<close>. \<open>Dialing\<close>: in every interleaving each slot has
  exactly one timer and handling it leaves the slot served or waiting, and the way a slot is stranded.

  \<^bold>\<open>Termination and bounds.\<close> Loops are recursive functions with termination proofs; no fuel is used except
  in the PRF, where the number of rounds is bounded by the bytes to produce. The slabs panic beyond \<open>2 ^ 32\<close>
  entries, which is a hypothesis of the graph's allowed calls. Sequence numbers stay a window below \<open>2 ^ 32\<close> where the replay
  window is claimed to work; a session can send as long as its key has records left (\<open>ready\<close>), and the panic
  beyond is shown; the counter of timer armings stays below \<open>2 ^ 64\<close>.

  \<^bold>\<open>Not modelled.\<close> Device and socket I/O, the event loop's system calls, sandboxing, the DNS stub (taken as off), port
  mapping, discovery over the DHT, the forwarding shards and their kernel offloads, UDP reception and compression, the routed
  key exchange (REQ_KEY, ANS_KEY) and the info messages, the ID and proxy handshakes, invitations, configuration files,
  the command-line tools and the scripts the daemon starts.
\<close>

end
